(* ===== verification/Prelude.thy ===== *)
theory Prelude
  imports Main "HOL-Library.Word"
begin

unbundle bit_operations_syntax

section \<open>Prelude: C values, outcomes of a run and shared list facts\<close>

text \<open>
  What every component of the model shares: the outcomes of running C code
  (a returned value, or the way the run ends without one), C's \<open>int\<close> with its
  two's complement wrap-around, bytes and C strings, and the lemmas on lists,
  options and sums that the component proofs use.
\<close>

subsection \<open>Outcomes of a run\<close>

text \<open>
  \<open>Exit\<close> is a call of \<open>exit\<close> (directly or through \<open>throw\<close>), \<open>AssertFail\<close> a failed
  \<open>assert\<close>, \<open>OutOfBounds\<close> an access outside the object (a null pointer included),
  \<open>UseAfterFree\<close> an access to freed memory, \<open>DivByZero\<close> a trapping division,
  and \<open>Indeterminate\<close> the use of a variable that was never assigned.  A run either
  ends in one of these (\<open>Inl\<close>) or returns (\<open>Inr\<close>).
\<close>

datatype crash = Exit | AssertFail | OutOfBounds | UseAfterFree | DivByZero | Indeterminate

type_synonym 'a run = "crash + 'a"

definition and_then :: "'a run \<Rightarrow> ('a \<Rightarrow> 'b run) \<Rightarrow> 'b run" where
  "and_then m f = (case m of Inl e \<Rightarrow> Inl e | Inr x \<Rightarrow> f x)"

named_theorems run_simps \<open>evaluation of runs\<close>

lemma and_then_Inl [simp, run_simps]: "and_then (Inl e) f = Inl e"
  by (simp add: and_then_def)

lemma and_then_Inr [simp, run_simps]: "and_then (Inr x) f = f x"
  by (simp add: and_then_def)

lemma and_then_eq_Inr:
  "and_then m f = Inr y \<longleftrightarrow> (\<exists>x. m = Inr x \<and> f x = Inr y)"
  by (cases m) auto

lemma and_then_eq_Inl:
  "and_then m f = Inl e \<longleftrightarrow> m = Inl e \<or> (\<exists>x. m = Inr x \<and> f x = Inl e)"
  by (cases m) auto

subsection \<open>C integers\<close>

definition INT_MAX :: int where "INT_MAX = 2147483647"
definition INT_MIN :: int where "INT_MIN = -2147483648"

definition c_int :: "int \<Rightarrow> bool" where
  "c_int i \<longleftrightarrow> INT_MIN \<le> i \<and> i \<le> INT_MAX"

text \<open>Two's complement wrap-around to 32 bits, as with \<open>-fwrapv\<close>.\<close>

definition wrap32 :: "int \<Rightarrow> int" where
  "wrap32 i = (i + 2147483648) mod 4294967296 - 2147483648"

lemma wrap32_c_int [simp]: "c_int (wrap32 i)"
proof -
  have "0 \<le> (i + 2147483648) mod 4294967296" and "(i + 2147483648) mod 4294967296 < 4294967296"
    by simp_all
  then show ?thesis
    unfolding c_int_def wrap32_def INT_MAX_def INT_MIN_def by linarith
qed

lemma wrap32_id: "c_int i \<Longrightarrow> wrap32 i = i"
  by (simp add: c_int_def wrap32_def INT_MAX_def INT_MIN_def)

subsection \<open>Bytes and C strings\<close>

type_synonym byte = "8 word"

text \<open>The C string at the start of a buffer: everything before the first NUL.\<close>

definition NUL :: char where "NUL = CHR 0x00"

definition cstr :: "string \<Rightarrow> string" where
  "cstr buf = takeWhile (\<lambda>c. c \<noteq> NUL) buf"

lemma cstr_append_NUL [simp]: "NUL \<notin> set s \<Longrightarrow> cstr (s @ NUL # t) = s"
  unfolding cstr_def by (subst takeWhile_append2) auto

lemma cstr_id [simp]: "NUL \<notin> set s \<Longrightarrow> cstr s = s"
  by (induction s) (auto simp: cstr_def)

lemma NUL_notin_cstr [simp]: "NUL \<notin> set (cstr s)"
  by (induction s) (auto simp: cstr_def)

lemma cstr_prefix: "NUL \<notin> set s \<Longrightarrow> cstr (s @ t) = s @ cstr t"
  unfolding cstr_def by (subst takeWhile_append2) auto

subsection \<open>Writing into a buffer\<close>

text \<open>\<open>memcpy(buf + off, src, length src)\<close> on a buffer given as a list.\<close>

definition blit :: "'a list \<Rightarrow> nat \<Rightarrow> 'a list \<Rightarrow> 'a list" where
  "blit buf off src = take off buf @ src @ drop (off + length src) buf"

lemma length_blit [simp]:
  "off + length src \<le> length buf \<Longrightarrow> length (blit buf off src) = length buf"
  by (simp add: blit_def)

lemma blit_Nil [simp]: "blit buf off [] = buf"
  by (simp add: blit_def)

lemma take_blit: "off + length src \<le> length buf \<Longrightarrow>
    take (off + length src) (blit buf off src) = take off buf @ src"
  by (simp add: blit_def)

lemma blit_prefix: "length xs = off \<Longrightarrow> off + length src \<le> length xs + length ys \<Longrightarrow>
    blit (xs @ ys) off src = xs @ src @ drop (length src) ys"
  by (simp add: blit_def)

subsection \<open>Sums over lists and updates\<close>

lemma sum_list_map_update:
  fixes f :: "'a \<Rightarrow> int"
  assumes "i < length xs"
  shows "sum_list (map f (xs[i := x])) = sum_list (map f xs) - f (xs ! i) + f x"
  using assms
proof (induction xs arbitrary: i)
  case Nil
  then show ?case by simp
next
  case (Cons a xs)
  then show ?case by (cases i) simp_all
qed

lemma all_list_update:
  "(\<And>j. j < length xs \<Longrightarrow> P j (xs ! j)) \<Longrightarrow> P i x \<Longrightarrow> j < length (xs[i := x]) \<Longrightarrow> P j (xs[i := x] ! j)"
  by (cases "i = j") simp_all

subsection \<open>Arrays indexed by C integers\<close>

text \<open>\<open>xs[i]\<close> with a signed index, and the remainder \<open>%\<close> of C, which takes the sign of
  the dividend.\<close>

definition at :: "'a list \<Rightarrow> int \<Rightarrow> 'a run" where
  "at xs i = (if 0 \<le> i \<and> i < int (length xs) then Inr (xs ! nat i) else Inl OutOfBounds)"

definition put_at :: "'a list \<Rightarrow> int \<Rightarrow> 'a \<Rightarrow> 'a list run" where
  "put_at xs i x = (if 0 \<le> i \<and> i < int (length xs) then Inr (xs[nat i := x]) else Inl OutOfBounds)"

definition c_rem :: "int \<Rightarrow> int \<Rightarrow> int" where
  "c_rem i n = (if 0 \<le> i then i mod n else - ((- i) mod n))"

lemma at_ok [simp]: "0 \<le> i \<Longrightarrow> i < int (length xs) \<Longrightarrow> at xs i = Inr (xs ! nat i)"
  by (simp add: at_def)

lemma put_at_ok [simp]: "0 \<le> i \<Longrightarrow> i < int (length xs) \<Longrightarrow> put_at xs i x = Inr (xs[nat i := x])"
  by (simp add: put_at_def)

lemma at_bad [simp]: "i < 0 \<or> int (length xs) \<le> i \<Longrightarrow> at xs i = Inl OutOfBounds"
  by (auto simp: at_def)

lemma c_rem_nonneg [simp]: "0 \<le> i \<Longrightarrow> c_rem i n = i mod n"
  by (simp add: c_rem_def)

text \<open>The C string that starts at offset \<open>off\<close> of an object; running off its end is an
  access out of bounds.\<close>

definition string_at :: "string \<Rightarrow> nat \<Rightarrow> string run" where
  "string_at mem off = (if NUL \<in> set (drop off mem) then Inr (cstr (drop off mem)) else Inl OutOfBounds)"

text \<open>Printing into a \<open>char\<close> array of \<open>n\<close> elements: the text and its NUL must fit.\<close>

definition into_buffer :: "nat \<Rightarrow> string \<Rightarrow> string run" where
  "into_buffer n s = (if length s < n then Inr s else Inl OutOfBounds)"

lemma into_buffer_ok [simp]: "length s < n \<Longrightarrow> into_buffer n s = Inr s"
  by (simp add: into_buffer_def)

subsection \<open>Invariants of step relations\<close>

text \<open>
  The contract of a component that is a state machine: a step relation and an invariant that every
  step keeps.  What holds in every state reachable from a good one is proved here once.
\<close>

locale kept_invariant =
  fixes step :: "'s \<Rightarrow> 's \<Rightarrow> bool" and inv :: "'s \<Rightarrow> bool"
  assumes step_keeps: "step x y \<Longrightarrow> inv x \<Longrightarrow> inv y"
begin

lemma reachable_inv:
  assumes "step\<^sup>*\<^sup>* x y" and "inv x"
  shows "inv y"
  using assms by (induction rule: rtranclp_induct) (auto intro: step_keeps)

lemma reachable_consequence:
  assumes "step\<^sup>*\<^sup>* x y" and "inv x" and "\<And>z. inv z \<Longrightarrow> P z"
  shows "P y"
  using reachable_inv [OF assms(1,2)] by (rule assms(3))

end

end
