(* ===== verification/CFormat.thy ===== *)
theory CFormat
  imports Prelude
begin

section \<open>The C library's formatted input and output\<close>

text \<open>
  The fragment of \<open>sprintf\<close> and \<open>sscanf\<close> that the global OS and its runtime use:
  ordinary characters, white space, and the conversions \<open>%d\<close>, \<open>%s\<close> and \<open>%n\<close>.
  A format is the literal of the source, split into directives by
  \<open>directives\<close>.  A white-space character of a scan format matches any amount of
  white space; \<open>%d\<close> and \<open>%s\<close> skip leading white space; \<open>%n\<close> stores the number of
  characters read so far; scanning stops at the first directive that fails, and the
  values assigned until then are the result.
\<close>

subsection \<open>Formats\<close>

datatype directive = Lit char | Space | ConvD | ConvS | ConvN

datatype cval = CInt int | CStr string

definition isspace :: "char \<Rightarrow> bool" where
  "isspace c \<longleftrightarrow> c = CHR '' '' \<or> c = CHR 0x09 \<or> c = CHR 0x0A \<or> c = CHR 0x0B \<or>
     c = CHR 0x0C \<or> c = CHR 0x0D"

fun directives :: "string \<Rightarrow> directive list" where
  "directives [] = []"
| "directives (a # b # cs) =
     (if a = CHR ''%'' \<and> b = CHR ''d'' then ConvD # directives cs
      else if a = CHR ''%'' \<and> b = CHR ''s'' then ConvS # directives cs
      else if a = CHR ''%'' \<and> b = CHR ''n'' then ConvN # directives cs
      else (if isspace a then Space else Lit a) # directives (b # cs))"
| "directives [a] = [if isspace a then Space else Lit a]"

subsection \<open>Decimal numbers\<close>

definition digit_char :: "nat \<Rightarrow> char" where
  "digit_char d = char_of (48 + d)"

definition char_digit :: "char \<Rightarrow> nat option" where
  "char_digit c = (let n = (of_char c :: nat) in if 48 \<le> n \<and> n \<le> 57 then Some (n - 48) else None)"

fun show_nat :: "nat \<Rightarrow> string" where
  "show_nat n = (if n < 10 then [digit_char n] else show_nat (n div 10) @ [digit_char (n mod 10)])"

declare show_nat.simps [simp del]

definition show_int :: "int \<Rightarrow> string" where
  "show_int i = (if i < 0 then CHR ''-'' # show_nat (nat (- i)) else show_nat (nat i))"

fun scan_digits :: "nat \<Rightarrow> string \<Rightarrow> nat \<times> string" where
  "scan_digits acc [] = (acc, [])"
| "scan_digits acc (c # cs) =
     (case char_digit c of None \<Rightarrow> (acc, c # cs) | Some d \<Rightarrow> scan_digits (10 * acc + d) cs)"

definition scan_nat :: "string \<Rightarrow> (nat \<times> string) option" where
  "scan_nat s = (case s of [] \<Rightarrow> None
     | c # cs \<Rightarrow> if char_digit c = None then None else Some (scan_digits 0 s))"

definition scan_int :: "string \<Rightarrow> (int \<times> string) option" where
  "scan_int s = (case dropWhile isspace s of
       [] \<Rightarrow> None
     | c # cs \<Rightarrow>
         if c = CHR ''-'' then map_option (\<lambda>(n, r). (- int n, r)) (scan_nat cs)
         else if c = CHR ''+'' then map_option (\<lambda>(n, r). (int n, r)) (scan_nat cs)
         else map_option (\<lambda>(n, r). (int n, r)) (scan_nat (c # cs)))"

definition scan_word :: "string \<Rightarrow> (string \<times> string) option" where
  "scan_word s = (let t = dropWhile isspace s in
     if t = [] then None else Some (takeWhile (Not \<circ> isspace) t, dropWhile (Not \<circ> isspace) t))"

subsection \<open>sprintf and sscanf\<close>

fun print_dirs :: "directive list \<Rightarrow> cval list \<Rightarrow> string" where
  "print_dirs [] vs = []"
| "print_dirs (Lit c # ds) vs = c # print_dirs ds vs"
| "print_dirs (Space # ds) vs = CHR '' '' # print_dirs ds vs"
| "print_dirs (ConvD # ds) (CInt i # vs) = show_int i @ print_dirs ds vs"
| "print_dirs (ConvS # ds) (CStr s # vs) = s @ print_dirs ds vs"
| "print_dirs (d # ds) vs = print_dirs ds vs"

definition sprintf :: "string \<Rightarrow> cval list \<Rightarrow> string" where
  "sprintf fmt vs = print_dirs (directives fmt) vs"

fun scan_dirs :: "nat \<Rightarrow> directive list \<Rightarrow> string \<Rightarrow> cval list" where
  "scan_dirs len [] s = []"
| "scan_dirs len (Lit c # ds) s =
     (case s of [] \<Rightarrow> [] | x # xs \<Rightarrow> if x = c then scan_dirs len ds xs else [])"
| "scan_dirs len (Space # ds) s = scan_dirs len ds (dropWhile isspace s)"
| "scan_dirs len (ConvD # ds) s =
     (case scan_int s of None \<Rightarrow> [] | Some (i, r) \<Rightarrow> CInt i # scan_dirs len ds r)"
| "scan_dirs len (ConvS # ds) s =
     (case scan_word s of None \<Rightarrow> [] | Some (w, r) \<Rightarrow> CStr w # scan_dirs len ds r)"
| "scan_dirs len (ConvN # ds) s = CInt (int (len - length s)) # scan_dirs len ds s"

text \<open>\<open>sscanf\<close> reads the C string at the start of the buffer.\<close>

definition sscanf :: "string \<Rightarrow> string \<Rightarrow> cval list" where
  "sscanf buf fmt = scan_dirs (length (cstr buf)) (directives fmt) (cstr buf)"

subsection \<open>Decimal numbers survive printing and scanning\<close>

lemma char_digit_digit_char [simp]: "d < 10 \<Longrightarrow> char_digit (digit_char d) = Some d"
  by (simp add: char_digit_def digit_char_def)

lemma show_nat_digits: "\<forall>c \<in> set (show_nat n). char_digit c \<noteq> None"
proof (induction n rule: show_nat.induct)
  case (1 n)
  then show ?case by (subst show_nat.simps) auto
qed

lemma show_nat_neq_Nil [simp]: "show_nat n \<noteq> []"
  by (subst show_nat.simps) simp

lemma scan_digits_append:
  "\<forall>c \<in> set s. char_digit c \<noteq> None \<Longrightarrow>
     scan_digits acc (s @ r) = scan_digits (fst (scan_digits acc s)) r"
  by (induction s arbitrary: acc) auto

lemma scan_digits_show_nat: "scan_digits 0 (show_nat n) = (n, [])"
proof (induction n rule: show_nat.induct)
  case (1 n)
  show ?case
  proof (cases "n < 10")
    case True
    then show ?thesis by (simp add: show_nat.simps [of n])
  next
    case False
    with "1.IH" have "scan_digits 0 (show_nat (n div 10)) = (n div 10, [])" by simp
    with False show ?thesis
      by (simp add: show_nat.simps [of n] scan_digits_append show_nat_digits)
  qed
qed

lemma scan_nat_show_nat:
  assumes "r = [] \<or> char_digit (hd r) = None"
  shows "scan_nat (show_nat n @ r) = Some (n, r)"
proof -
  have "scan_digits 0 (show_nat n @ r) = scan_digits n r"
    by (simp add: scan_digits_append show_nat_digits scan_digits_show_nat)
  also have "\<dots> = (n, r)"
    using assms by (cases r) auto
  finally have *: "scan_digits 0 (show_nat n @ r) = (n, r)" .
  obtain c cs where c: "show_nat n = c # cs" by (cases "show_nat n") auto
  with show_nat_digits [of n] have "char_digit c \<noteq> None" by simp
  with * c show ?thesis by (simp add: scan_nat_def)
qed

lemma digit_not_special:
  assumes "char_digit c \<noteq> None"
  shows "\<not> isspace c" and "c \<noteq> CHR ''-''" and "c \<noteq> CHR ''+''" and "c \<noteq> NUL"
  using assms by (auto simp: isspace_def char_digit_def NUL_def)

lemma show_nat_hd: "\<exists>c cs. show_nat n = c # cs \<and> char_digit c \<noteq> None"
  using show_nat_digits [of n] by (cases "show_nat n") auto

lemma minus_not_space [simp]: "\<not> isspace (CHR ''-'')"
  by (simp add: isspace_def)

lemma scan_int_show_int:
  assumes "r = [] \<or> char_digit (hd r) = None"
  shows "scan_int (show_int i @ r) = Some (i, r)"
proof -
  obtain c cs where c: "show_nat (nat i) = c # cs" and d: "char_digit c \<noteq> None"
    using show_nat_hd by blast
  have nat: "scan_nat (c # cs @ r) = Some (nat i, r)"
    using scan_nat_show_nat [OF assms, of "nat i"] c by simp
  show ?thesis
  proof (cases "i < 0")
    case True
    then show ?thesis
      by (simp add: scan_int_def show_int_def scan_nat_show_nat [OF assms])
  next
    case False
    with c nat digit_not_special [OF d] show ?thesis
      by (simp add: scan_int_def show_int_def)
  qed
qed

lemma show_int_no_NUL [simp]: "NUL \<notin> set (show_int i)"
  using show_nat_digits digit_not_special(4)
  by (auto simp: show_int_def NUL_def)

lemma show_int_no_space: "c \<in> set (show_int i) \<Longrightarrow> \<not> isspace c"
  using show_nat_digits digit_not_special(1)
  by (fastforce simp: show_int_def split: if_splits)

lemma scan_word_append:
  assumes "w \<noteq> []" and "\<forall>c \<in> set w. \<not> isspace c" and "r = [] \<or> isspace (hd r)"
  shows "scan_word (w @ r) = Some (w, r)"
proof -
  have "dropWhile isspace (w @ r) = w @ r"
    using assms(1,2) by (cases w) auto
  moreover have "takeWhile (Not \<circ> isspace) (w @ r) = w"
    using assms(2,3) by (subst takeWhile_append2) (cases r; auto)+
  moreover have "dropWhile (Not \<circ> isspace) (w @ r) = r"
    using assms(2,3) by (subst dropWhile_append2) (cases r; auto)+
  ultimately show ?thesis using assms(1) by (simp add: scan_word_def)
qed

subsection \<open>Lengths\<close>

lemma length_show_nat_le: "n < 10 ^ k \<Longrightarrow> 0 < k \<Longrightarrow> length (show_nat n) \<le> k"
proof (induction k arbitrary: n)
  case 0
  then show ?case by simp
next
  case (Suc k)
  show ?case
  proof (cases "n < 10")
    case True
    then show ?thesis by (simp add: show_nat.simps [of n])
  next
    case False
    with Suc.prems have k: "0 < k" by (cases k) auto
    from Suc.prems have "n div 10 < 10 ^ k" by (simp add: less_mult_imp_div_less mult.commute)
    from Suc.IH [OF this k] False show ?thesis by (simp add: show_nat.simps [of n])
  qed
qed

lemma length_show_nat_ge: "10 ^ k \<le> n \<Longrightarrow> k < length (show_nat n)"
proof (induction k arbitrary: n)
  case 0
  then show ?case by (cases "show_nat n") auto
next
  case (Suc k)
  then have n: "\<not> n < 10" and "10 ^ k \<le> n div 10"
    by (auto simp: less_eq_div_iff_mult_less_eq algebra_simps)
      (metis le_trans mult.commute mult_le_mono1 nat_mult_1 not_less one_le_numeral one_le_power)
  from Suc.IH [OF this(2)] n show ?case by (simp add: show_nat.simps [of n])
qed

end
