(* ===== verification/Protocol.thy ===== *)
theory Protocol
  imports CFormat
begin

section \<open>The wire protocol of the global OS\<close>

text \<open>
  \<open>include/global_syscall_protocol.h\<close>: the text formats in which a process sends a
  global syscall to its global OS, in which the answer comes back, and in which one
  global OS forwards an operation to another (the DSM layer).  The formats are the
  literals of the header.  The lemmas are the round trips: what one side prints is
  what the other side scans, whatever bytes an earlier message left in the receive
  buffer behind it, and, for a DSM request, where its payload is found.
\<close>

definition GLOBAL_OS_PORT :: int where "GLOBAL_OS_PORT = 0xfeeb"

definition SYSCALL_REQ_FORMAT :: string where
  "SYSCALL_REQ_FORMAT = ''id: %d func:%s args1:%d args2:%d args3:%d args4:%d ''"

definition SYSCALL_RSP_FORMAT :: string where
  "SYSCALL_RSP_FORMAT = ''ret: %d ''"

definition DSM_REQ_FORMAT :: string where
  "DSM_REQ_FORMAT = ''gpid: %d func:%s args1:%d args2:%d args3:%d args4:%d buf_len:%d ''"

definition DSM_REQ_FORMAT_CALLEE :: string where
  "DSM_REQ_FORMAT_CALLEE = ''gpid: %d func:%s args1:%d args2:%d args3:%d args4:%d buf_len:%d %n''"

definition DSM_RSP_FORMAT :: string where
  "DSM_RSP_FORMAT = ''ret: %d ''"

subsection \<open>The variables a scan assigns\<close>

record syscall_req =
  client_id :: int
  func_name :: string
  func_args1 :: int
  func_args2 :: int
  func_args3 :: int
  func_args4 :: int

record dsm_req = syscall_req +
  buf_len :: int
  buf_offset :: int

text \<open>
  \<open>None\<close> where the scan stops early and leaves variables unassigned.
\<close>

definition scan_request :: "string \<Rightarrow> syscall_req option" where
  "scan_request buf =
     (case sscanf buf SYSCALL_REQ_FORMAT of
        [CInt c, CStr f, CInt a1, CInt a2, CInt a3, CInt a4] \<Rightarrow>
          Some \<lparr>client_id = c, func_name = f, func_args1 = a1, func_args2 = a2,
                func_args3 = a3, func_args4 = a4\<rparr>
      | _ \<Rightarrow> None)"

definition scan_dsm_request :: "string \<Rightarrow> dsm_req option" where
  "scan_dsm_request buf =
     (case sscanf buf DSM_REQ_FORMAT_CALLEE of
        [CInt c, CStr f, CInt a1, CInt a2, CInt a3, CInt a4, CInt l, CInt off] \<Rightarrow>
          Some \<lparr>client_id = c, func_name = f, func_args1 = a1, func_args2 = a2,
                func_args3 = a3, func_args4 = a4, buf_len = l, buf_offset = off\<rparr>
      | _ \<Rightarrow> None)"

definition scan_response :: "string \<Rightarrow> int option" where
  "scan_response buf =
     (case sscanf buf SYSCALL_RSP_FORMAT of [CInt r] \<Rightarrow> Some r | _ \<Rightarrow> None)"

definition format_request :: "int \<Rightarrow> string \<Rightarrow> int \<Rightarrow> int \<Rightarrow> int \<Rightarrow> int \<Rightarrow> string" where
  "format_request c f a1 a2 a3 a4 =
     sprintf SYSCALL_REQ_FORMAT [CInt c, CStr f, CInt a1, CInt a2, CInt a3, CInt a4]"

definition format_response :: "int \<Rightarrow> string" where
  "format_response r = sprintf SYSCALL_RSP_FORMAT [CInt r]"

definition format_dsm_request :: "int \<Rightarrow> string \<Rightarrow> int \<Rightarrow> int \<Rightarrow> int \<Rightarrow> int \<Rightarrow> int \<Rightarrow> string" where
  "format_dsm_request c f a1 a2 a3 a4 l =
     sprintf DSM_REQ_FORMAT
       [CInt c, CStr f, CInt a1, CInt a2, CInt a3, CInt a4, CInt l]"

text \<open>A function name that \<open>%s\<close> reads back: not empty, no white space, no NUL.\<close>

definition word_name :: "string \<Rightarrow> bool" where
  "word_name f \<longleftrightarrow> f \<noteq> [] \<and> (\<forall>c \<in> set f. \<not> isspace c \<and> c \<noteq> NUL)"

subsection \<open>Round trips\<close>

lemma isspace_blank [simp]: "isspace (CHR '' '')"
  by (simp add: isspace_def)

lemma blank_not_digit [simp]: "char_digit (CHR '' '') = None"
  by (simp add: char_digit_def)

text \<open>One conversion of a scan, when a blank follows the printed value.\<close>

lemma scan_int_blank [simp]:
  "scan_int (show_int i @ CHR '' '' # r) = Some (i, CHR '' '' # r)"
  by (rule scan_int_show_int) simp

lemma scan_int_blank' [simp]:
  "scan_int (CHR '' '' # show_int i @ CHR '' '' # r) = Some (i, CHR '' '' # r)"
  using scan_int_blank [of i r] by (simp add: scan_int_def)

lemma scan_word_blank [simp]:
  "word_name f \<Longrightarrow> scan_word (f @ CHR '' '' # r) = Some (f, CHR '' '' # r)"
  by (rule scan_word_append) (auto simp: word_name_def)

lemma scan_int_dropWhile [simp]: "scan_int (dropWhile isspace s) = scan_int s"
  by (simp add: scan_int_def)

lemma scan_dirs_Space_D [simp]:
  "scan_dirs n (Space # ConvD # ds) s = scan_dirs n (ConvD # ds) s"
  by simp

lemmas format_defs = format_request_def format_response_def format_dsm_request_def
  SYSCALL_REQ_FORMAT_def SYSCALL_RSP_FORMAT_def DSM_REQ_FORMAT_def
  DSM_REQ_FORMAT_CALLEE_def DSM_RSP_FORMAT_def sprintf_def

lemma isspace_code: "isspace c \<longleftrightarrow>
    c = CHR '' '' \<or> c \<in> {CHR 0x09, CHR 0x0A, CHR 0x0B, CHR 0x0C, CHR 0x0D}"
  by (auto simp: isspace_def)

lemma format_request_eq:
  "format_request c f a1 a2 a3 a4 =
     ''id: '' @ show_int c @ '' func:'' @ f @ '' args1:'' @ show_int a1 @ '' args2:'' @
     show_int a2 @ '' args3:'' @ show_int a3 @ '' args4:'' @ show_int a4 @ '' ''"
  by (simp add: format_defs isspace_def)

lemma format_dsm_request_eq:
  "format_dsm_request c f a1 a2 a3 a4 l =
     ''gpid: '' @ show_int c @ '' func:'' @ f @ '' args1:'' @ show_int a1 @ '' args2:'' @
     show_int a2 @ '' args3:'' @ show_int a3 @ '' args4:'' @ show_int a4 @ '' buf_len:'' @
     show_int l @ '' ''"
  by (simp add: format_defs isspace_def)

lemma format_response_eq: "format_response r = ''ret: '' @ show_int r @ '' ''"
  by (simp add: format_defs isspace_def)

lemma format_request_no_NUL [simp]:
  "word_name f \<Longrightarrow> NUL \<notin> set (format_request c f a1 a2 a3 a4)"
  using show_int_no_NUL
  by (auto simp: format_request_eq word_name_def NUL_def)

lemma format_dsm_request_no_NUL [simp]:
  "word_name f \<Longrightarrow> NUL \<notin> set (format_dsm_request c f a1 a2 a3 a4 l)"
  using show_int_no_NUL
  by (auto simp: format_dsm_request_eq word_name_def NUL_def)

lemma format_response_no_NUL [simp]: "NUL \<notin> set (format_response r)"
  using show_int_no_NUL by (auto simp: format_response_eq NUL_def)

lemma scan_format_request [simp]:
  assumes "word_name f"
  shows "scan_request (format_request c f a1 a2 a3 a4 @ stale) =
    Some \<lparr>client_id = c, func_name = f, func_args1 = a1, func_args2 = a2,
          func_args3 = a3, func_args4 = a4\<rparr>"
proof -
  have "cstr (format_request c f a1 a2 a3 a4 @ stale) = format_request c f a1 a2 a3 a4 @ cstr stale"
    using assms by (intro cstr_prefix) simp
  then show ?thesis
    using assms
    by (simp add: scan_request_def sscanf_def SYSCALL_REQ_FORMAT_def isspace_def)
     (simp add: format_request_eq isspace_def)
qed

lemma scan_format_response [simp]: "scan_response (format_response r @ stale) = Some r"
proof -
  have "cstr (format_response r @ stale) = format_response r @ cstr stale"
    by (intro cstr_prefix) simp
  then show ?thesis
    by (simp add: scan_response_def sscanf_def SYSCALL_RSP_FORMAT_def isspace_def)
     (simp add: format_response_eq isspace_def)
qed

text \<open>
  The trailing blank of \<open>DSM_REQ_FORMAT_CALLEE\<close> before \<open>%n\<close> skips white space of the
  payload too, so the offset it stores lies behind the payload's leading white space.
\<close>

lemma scan_format_dsm_request:
  assumes "word_name f"
  shows "scan_dsm_request (format_dsm_request c f a1 a2 a3 a4 l @ payload) =
    Some \<lparr>client_id = c, func_name = f, func_args1 = a1, func_args2 = a2,
          func_args3 = a3, func_args4 = a4, buf_len = l,
          buf_offset = int (length (format_dsm_request c f a1 a2 a3 a4 l)
             + length (takeWhile isspace (cstr payload)))\<rparr>"
proof -
  let ?h = "format_dsm_request c f a1 a2 a3 a4 l"
  have cs: "cstr (?h @ payload) = ?h @ cstr payload"
    using assms by (intro cstr_prefix) simp
  have len: "length (dropWhile isspace t) + length (takeWhile isspace t) = length t" for t
    by (metis add.commute length_append takeWhile_dropWhile_id)
  have "sscanf (?h @ payload) DSM_REQ_FORMAT_CALLEE =
    [CInt c, CStr f, CInt a1, CInt a2, CInt a3, CInt a4, CInt l,
     CInt (int (length (?h @ cstr payload) - length (dropWhile isspace (cstr payload))))]"
    unfolding sscanf_def cs using assms
    by (simp add: DSM_REQ_FORMAT_CALLEE_def isspace_def)
     (simp add: format_dsm_request_eq isspace_def)
  moreover have "length (?h @ cstr payload) - length (dropWhile isspace (cstr payload)) =
      length ?h + length (takeWhile isspace (cstr payload))"
    using len [of "cstr payload"] by simp
  ultimately show ?thesis by (simp add: scan_dsm_request_def)
qed

lemma length_format_request:
  "length (format_request c f a1 a2 a3 a4) =
     39 + length f + length (show_int c) + length (show_int a1) + length (show_int a2)
       + length (show_int a3) + length (show_int a4)"
  by (simp add: format_request_eq)

lemma length_format_dsm_request:
  "length (format_dsm_request c f a1 a2 a3 a4 l) =
     50 + length f + length (show_int c) + length (show_int a1) + length (show_int a2)
       + length (show_int a3) + length (show_int a4) + length (show_int l)"
  by (simp add: format_dsm_request_eq)

lemma length_show_int_le: "c_int i \<Longrightarrow> length (show_int i) \<le> 11"
proof -
  assume i: "c_int i"
  have "length (show_nat (nat i)) \<le> 10" if "0 \<le> i"
    using i that by (intro length_show_nat_le) (auto simp: c_int_def INT_MAX_def)
  moreover have "length (show_nat (nat (- i))) \<le> 10" if "i < 0"
    using i that by (intro length_show_nat_le) (auto simp: c_int_def INT_MIN_def)
  ultimately show ?thesis by (auto simp: show_int_def)
qed

lemma length_format_request_le:
  assumes "c_int c" and "c_int a1" and "c_int a2" and "c_int a3" and "c_int a4"
  shows "length (format_request c f a1 a2 a3 a4) \<le> 94 + length f"
  using assms [THEN length_show_int_le] by (simp add: length_format_request)

lemma length_format_dsm_request_le:
  assumes "c_int c" and "c_int a1" and "c_int a2" and "c_int a3" and "c_int a4" and "c_int l"
  shows "length (format_dsm_request c f a1 a2 a3 a4 l) \<le> 116 + length f"
  using assms [THEN length_show_int_le] by (simp add: length_format_dsm_request)

subsection \<open>Properties\<close>

text \<open>C36: request round trip.  Whatever an earlier, longer message left in the receive
  buffer, scanning the buffer after a request was read into its front gives back exactly
  the request that the runtime printed.\<close>

theorem request_roundtrip:
  assumes "word_name f"
    and "length (format_request c f a1 a2 a3 a4) \<le> length old"
  shows "scan_request (blit old 0 (format_request c f a1 a2 a3 a4)) =
    Some \<lparr>client_id = c, func_name = f, func_args1 = a1, func_args2 = a2,
          func_args3 = a3, func_args4 = a4\<rparr>"
  using assms by (simp add: blit_def)

theorem request_roundtrip_witness:
  "scan_request (blit (replicate 1024 (CHR ''7'')) 0 (format_request 3 ''FIFO_INIT'' 41 3 (-1) 0)) =
    Some \<lparr>client_id = 3, func_name = ''FIFO_INIT'', func_args1 = 41, func_args2 = 3,
          func_args3 = -1, func_args4 = 0\<rparr>"
proof -
  have "length (format_request 3 ''FIFO_INIT'' 41 3 (-1) 0) \<le> length (replicate 1024 (CHR ''7''))"
    by (rule order_trans [OF length_format_request_le])
      (simp_all add: c_int_def INT_MAX_def INT_MIN_def)
  then show ?thesis
    by (intro request_roundtrip) (simp_all add: word_name_def isspace_def NUL_def)
qed

text \<open>a DSM request is scanned by the callee with its name, first argument and length, and
  delivers its payload unchanged exactly when the payload does not
  begin with white space: the offset the callee scans is the start of the payload then, and
  lies behind the leading white space otherwise.\<close>

theorem dsm_payload_intact_iff:
  assumes "word_name f"
  shows "\<exists>r. scan_dsm_request (format_dsm_request c f a1 a2 a3 a4 l @ payload) = Some r
    \<and> func_name r = f \<and> func_args1 r = a1 \<and> buf_len r = l
    \<and> (drop (nat (buf_offset r)) (format_dsm_request c f a1 a2 a3 a4 l @ payload) = payload
       \<longleftrightarrow> payload = [] \<or> \<not> isspace (hd payload))"
proof -
  obtain r where r: "scan_dsm_request (format_dsm_request c f a1 a2 a3 a4 l @ payload) = Some r"
    "func_name r = f" "func_args1 r = a1" "buf_len r = l"
    using scan_format_dsm_request [OF assms] by simp
  from assms r(1) have off: "buf_offset r = int (length (format_dsm_request c f a1 a2 a3 a4 l)
      + length (takeWhile isspace (cstr payload)))"
    by (auto simp: scan_format_dsm_request)
  have "drop (nat (buf_offset r)) (format_dsm_request c f a1 a2 a3 a4 l @ payload)
      = drop (length (takeWhile isspace (cstr payload))) payload"
    by (simp only: off nat_int drop_append) simp
  moreover have "drop n payload = payload \<longleftrightarrow> n = 0 \<or> payload = []" for n
    by (metis cancel_comm_monoid_add_class.diff_cancel drop0 drop_Nil length_drop diff_diff_cancel
        diff_is_0_eq' length_0_conv nat_le_linear)
  moreover have "takeWhile isspace (cstr payload) = [] \<longleftrightarrow> payload = [] \<or> \<not> isspace (hd payload)"
    by (cases payload) (auto simp: cstr_def isspace_def NUL_def)
  ultimately have "drop (nat (buf_offset r)) (format_dsm_request c f a1 a2 a3 a4 l @ payload) = payload
      \<longleftrightarrow> payload = [] \<or> \<not> isspace (hd payload)" by (metis length_0_conv)
  with r show ?thesis by blast
qed

theorem dsm_payload_intact_iff_witness:
  "\<exists>r. scan_dsm_request (format_dsm_request 0 ''WRITEFIFO'' 5 0 0 0 3 @ '' hi'') = Some r
    \<and> drop (nat (buf_offset r)) (format_dsm_request 0 ''WRITEFIFO'' 5 0 0 0 3 @ '' hi'') \<noteq> '' hi''"
proof -
  have "word_name ''WRITEFIFO''" by (simp add: word_name_def isspace_def NUL_def)
  from dsm_payload_intact_iff [OF this, of 0 5 0 0 0 3 "'' hi''"] show ?thesis by auto
qed

end
