(* ===== verification/FifoIPC.thy ===== *)
theory FifoIPC
  imports CFormat
begin

section \<open>Local FIFOs\<close>

text \<open>
  \<open>ipc.c\<close>: the named pipes of one PU.  The operating system underneath is a parameter: a
  record with one function for every system call, over a state of any type.  A function of
  \<open>ipc.c\<close> is a function of the parameter and the state; it returns, or ends in \<open>throw\<close>
  (\<open>Exit\<close>), in a failed \<open>assert\<close> or in an access out of bounds.
\<close>

subsection \<open>The operating system\<close>

datatype open_flag = O_RDONLY | O_WRONLY | O_RDWR

text \<open>\<open>px_read fd n k\<close> gives the result of \<open>read\<close> and the bytes it stored; \<open>px_spawn\<close>
  takes the path and the two null-terminated vectors; \<open>px_shmat\<close> is the segment that is attached,
  \<open>None\<close> for \<open>(void *) -1\<close>.\<close>

record 'k posix =
  px_getpid :: "'k \<Rightarrow> int"
  px_mkfifo :: "string \<Rightarrow> 'k \<Rightarrow> int \<times> 'k"
  px_open :: "string \<Rightarrow> open_flag \<Rightarrow> 'k \<Rightarrow> int \<times> 'k"
  px_close :: "int \<Rightarrow> 'k \<Rightarrow> 'k"
  px_remove :: "string \<Rightarrow> 'k \<Rightarrow> int \<times> 'k"
  px_read :: "int \<Rightarrow> int \<Rightarrow> 'k \<Rightarrow> int \<times> string \<times> 'k"
  px_write :: "int \<Rightarrow> string \<Rightarrow> 'k \<Rightarrow> int \<times> 'k"
  px_touch :: "string \<Rightarrow> 'k \<Rightarrow> bool \<times> 'k"
  px_ftok :: "string \<Rightarrow> 'k \<Rightarrow> int"
  px_shmget :: "int \<Rightarrow> bool \<Rightarrow> 'k \<Rightarrow> int \<times> 'k"
  px_shmat :: "int \<Rightarrow> 'k \<Rightarrow> int option \<times> 'k"
  px_spawn :: "string \<Rightarrow> string list \<Rightarrow> string list \<Rightarrow> 'k \<Rightarrow> int \<times> 'k"
  px_socket :: "'k \<Rightarrow> int \<times> 'k"
  px_connect :: "int \<Rightarrow> int \<Rightarrow> 'k \<Rightarrow> int \<times> 'k"

subsection \<open>Paths\<close>

definition FIFO_PATH_LEN :: nat where "FIFO_PATH_LEN = 66"
definition MAX_MSG_LEN :: int where "MAX_MSG_LEN = 4096"

definition FIFO_PATH_TEMPLATE :: string where
  "FIFO_PATH_TEMPLATE = ''/tmp/fifo_dir/ipc_fifo_id-%d''"

definition fifo_path :: "int \<Rightarrow> string run" where
  "fifo_path uuid = into_buffer FIFO_PATH_LEN (sprintf FIFO_PATH_TEMPLATE [CInt uuid])"

subsection \<open>The operations of ipc.c\<close>

text \<open>The shared shape of the two \<open>init\<close> functions and of \<open>fifo_client_setup\<close>: make the
  pipe, then open it.  The result of \<open>mkfifo\<close>, which is 0 or -1, is tested with \<open>> 0\<close>.\<close>

definition make_and_open :: "'k posix \<Rightarrow> open_flag \<Rightarrow> int \<Rightarrow> 'k \<Rightarrow> (int \<times> 'k) run" where
  "make_and_open os flag uuid k =
     and_then (fifo_path uuid) (\<lambda>path.
       let (r, k) = px_mkfifo os path k in
       if r > 0 then Inl Exit
       else let (fifo_fd, k) = px_open os path flag k in
         if fifo_fd < 0 then Inl Exit else Inr (fifo_fd, k))"

definition fifo_init :: "'k posix \<Rightarrow> 'k \<Rightarrow> (int \<times> 'k) run" where
  "fifo_init os k = make_and_open os O_RDWR (px_getpid os k) k"

definition fifo_init_uuid :: "'k posix \<Rightarrow> int \<Rightarrow> 'k \<Rightarrow> (int \<times> 'k) run" where
  "fifo_init_uuid os uuid k = make_and_open os O_RDWR uuid k"

definition fifo_client_setup :: "'k posix \<Rightarrow> int \<Rightarrow> 'k \<Rightarrow> (int \<times> 'k) run" where
  "fifo_client_setup os uuid k = make_and_open os O_WRONLY uuid k"

definition open_existing :: "'k posix \<Rightarrow> open_flag \<Rightarrow> int \<Rightarrow> 'k \<Rightarrow> (int \<times> 'k) run" where
  "open_existing os flag uuid k =
     and_then (fifo_path uuid) (\<lambda>path.
       let (fifo_fd, k) = px_open os path flag k in
       if fifo_fd < 0 then Inl Exit else Inr (fifo_fd, k))"

definition fifo_server_setup :: "'k posix \<Rightarrow> int \<Rightarrow> 'k \<Rightarrow> (int \<times> 'k) run" where
  "fifo_server_setup os uuid k = open_existing os O_RDONLY uuid k"

definition fifo_connect :: "'k posix \<Rightarrow> int \<Rightarrow> 'k \<Rightarrow> (int \<times> 'k) run" where
  "fifo_connect os uuid k = open_existing os O_WRONLY uuid k"

definition fifo_finish :: "'k posix \<Rightarrow> int \<Rightarrow> 'k \<Rightarrow> 'k" where
  "fifo_finish os fifo_fd k = px_close os fifo_fd k"

definition fifo_close :: "'k posix \<Rightarrow> int \<Rightarrow> 'k \<Rightarrow> 'k" where
  "fifo_close os fifo_fd k = px_close os fifo_fd k"

definition fifo_clean :: "'k posix \<Rightarrow> 'k \<Rightarrow> 'k run" where
  "fifo_clean os k =
     and_then (fifo_path (px_getpid os k)) (\<lambda>path.
       let (r, k) = px_remove os path k in if r = -1 then Inl Exit else Inr k)"

text \<open>The caller's buffer goes in and comes back with the bytes that were read at its front.\<close>

definition fifo_read :: "'k posix \<Rightarrow> int \<Rightarrow> string \<Rightarrow> int \<Rightarrow> 'k \<Rightarrow> (int \<times> string \<times> 'k) run" where
  "fifo_read os fifo_fd buf len k =
     (if \<not> len > 0 then Inl AssertFail
      else if \<not> len \<le> MAX_MSG_LEN then Inl AssertFail
      else let (i, data, k) = px_read os fifo_fd len k in
        if length buf < length data then Inl OutOfBounds
        else Inr (i, blit buf 0 data, k))"

definition fifo_write :: "'k posix \<Rightarrow> int \<Rightarrow> string \<Rightarrow> int \<Rightarrow> 'k \<Rightarrow> (int \<times> 'k) run" where
  "fifo_write os fifo_fd buf len k =
     (if \<not> len > 0 then Inl AssertFail
      else if \<not> len \<le> MAX_MSG_LEN then Inl AssertFail
      else if int (length buf) < len then Inl OutOfBounds
      else Inr (px_write os fifo_fd (take (nat len) buf) k))"

subsection \<open>Paths never overflow and never clash\<close>

lemma sprintf_fifo_path:
  "sprintf FIFO_PATH_TEMPLATE [CInt uuid] = ''/tmp/fifo_dir/ipc_fifo_id-'' @ show_int uuid"
  by (simp add: sprintf_def FIFO_PATH_TEMPLATE_def isspace_def)

lemma length_show_int_c_int: "c_int i \<Longrightarrow> length (show_int i) \<le> 11"
proof -
  assume i: "c_int i"
  have "length (show_nat (nat i)) \<le> 10" if "0 \<le> i"
    using i that by (intro length_show_nat_le) (auto simp: c_int_def INT_MAX_def)
  moreover have "length (show_nat (nat (- i))) \<le> 10" if "i < 0"
    using i that by (intro length_show_nat_le) (auto simp: c_int_def INT_MIN_def)
  ultimately show ?thesis by (auto simp: show_int_def)
qed

lemma fifo_path_ok:
  "c_int uuid \<Longrightarrow> fifo_path uuid = Inr (''/tmp/fifo_dir/ipc_fifo_id-'' @ show_int uuid)"
  using length_show_int_c_int [of uuid]
  by (simp add: fifo_path_def into_buffer_def sprintf_fifo_path FIFO_PATH_LEN_def)

lemma show_int_inj: "show_int i = show_int j \<longleftrightarrow> i = j"
proof -
  have "scan_int (show_int i) = Some (i, [])" for i
    using scan_int_show_int [of "[]" i] by simp
  then show ?thesis by (metis option.inject prod.inject)
qed

lemmas fifo_ops = make_and_open_def open_existing_def fifo_init_def fifo_init_uuid_def
  fifo_client_setup_def fifo_server_setup_def fifo_connect_def

text \<open>Two processes meet at one pipe exactly when they name the same uuid: for any C ints
  the path fits the 66-byte buffer of every function of \<open>ipc.c\<close>, so none of them overflows it,
  and different uuids give different paths.\<close>

theorem fifo_paths:
  assumes "c_int u" and "c_int v"
  shows "\<exists>p q. fifo_path u = Inr p \<and> fifo_path v = Inr q \<and> length p < FIFO_PATH_LEN \<and> NUL \<notin> set p
    \<and> (p = q \<longleftrightarrow> u = v)"
proof -
  have "NUL \<notin> set (''/tmp/fifo_dir/ipc_fifo_id-'' @ show_int u)"
    using show_int_no_NUL [of u] by (auto simp: NUL_def)
  then show ?thesis
    using assms length_show_int_c_int [OF assms(1)]
    by (simp add: fifo_path_ok show_int_inj FIFO_PATH_LEN_def)
qed

lemma fifo_paths_witness:
  "\<exists>p q. fifo_path 7 = Inr p \<and> fifo_path (-2147483648) = Inr q \<and> p \<noteq> q"
  using fifo_paths [of 7 "-2147483648"] by (auto simp: c_int_def INT_MAX_def INT_MIN_def)

subsection \<open>An instance of the operating system\<close>

text \<open>
  A small system with pipes: the files that exist, the descriptors (a descriptor is the
  position of its path in the list of opens) and the bytes of every pipe.  It instantiates the
  parameter in the concrete runs.
\<close>

record pipes =
  files :: "string list"
  opened :: "string list"
  content :: "string \<Rightarrow> string"
  spawned :: "(string \<times> string list \<times> string list) list"

definition pipes_empty :: pipes where
  "pipes_empty = \<lparr>files = [], opened = [], content = (\<lambda>_. []), spawned = []\<rparr>"

definition pipe_os :: "pipes posix" where
  "pipe_os = \<lparr>px_getpid = (\<lambda>k. 100),
     px_mkfifo = (\<lambda>p k. if p \<in> set (files k) then (-1, k) else (0, k\<lparr>files := p # files k\<rparr>)),
     px_open = (\<lambda>p f k. if p \<in> set (files k) then (int (length (opened k)), k\<lparr>opened := opened k @ [p]\<rparr>)
                        else (-1, k)),
     px_close = (\<lambda>fd k. k),
     px_remove = (\<lambda>p k. if p \<in> set (files k) then (0, k\<lparr>files := removeAll p (files k)\<rparr>) else (-1, k)),
     px_read = (\<lambda>fd n k. if 0 \<le> fd \<and> fd < int (length (opened k))
        then let p = opened k ! nat fd; d = take (nat n) (content k p)
             in (int (length d), d, k\<lparr>content := (content k)(p := drop (nat n) (content k p))\<rparr>)
        else (-1, [], k)),
     px_write = (\<lambda>fd d k. if 0 \<le> fd \<and> fd < int (length (opened k))
        then let p = opened k ! nat fd in (int (length d), k\<lparr>content := (content k)(p := content k p @ d)\<rparr>)
        else (-1, k)),
     px_touch = (\<lambda>p k. (True, k)), px_ftok = (\<lambda>p k. int (length p)),
     px_shmget = (\<lambda>key c k. (key, k)), px_shmat = (\<lambda>s k. (Some s, k)),
     px_spawn = (\<lambda>p a e k. (0, k\<lparr>spawned := (p, a, e) # spawned k\<rparr>)),
     px_socket = (\<lambda>k. (int (length (opened k)), k\<lparr>opened := opened k @ [''socket'']\<rparr>)),
     px_connect = (\<lambda>fd port k. (0, k))\<rparr>"

text \<open>\<open>fifo_init_uuid\<close> makes the pipe and opens it for reading and writing, but it
  cannot tell whether \<open>mkfifo\<close> succeeded: on a system whose \<open>mkfifo\<close> returns 0 or -1 the test
  \<open>> 0\<close> never fires, so the outcome is the one of the \<open>open\<close> that follows, in the state the
  failed or successful \<open>mkfifo\<close> left.\<close>

theorem fifo_init_ignores_mkfifo_failure:
  assumes "c_int uuid" and "fifo_path uuid = Inr path"
    and "px_mkfifo os path k = (r, k')" and "r \<in> {0, -1}"
  shows "fifo_init_uuid os uuid k =
    (let (fd, k'') = px_open os path O_RDWR k' in if fd < 0 then Inl Exit else Inr (fd, k''))"
  using assms(2-4) by (auto simp: fifo_ops)

lemma fifo_init_ignores_mkfifo_failure_witness:
  "let k = pipes_empty\<lparr>files := [''/tmp/fifo_dir/ipc_fifo_id-7'']\<rparr> in
     px_mkfifo pipe_os ''/tmp/fifo_dir/ipc_fifo_id-7'' k = (-1, k)
     \<and> fifo_init_uuid pipe_os 7 k = Inr (0, k\<lparr>opened := [''/tmp/fifo_dir/ipc_fifo_id-7'']\<rparr>)"
proof -
  let ?p = "''/tmp/fifo_dir/ipc_fifo_id-7''" and ?k = "pipes_empty\<lparr>files := [''/tmp/fifo_dir/ipc_fifo_id-7'']\<rparr>"
  have "show_int 7 = ''7''" by code_simp
  then have "fifo_path 7 = Inr ?p"
    by (simp add: fifo_path_ok c_int_def INT_MAX_def INT_MIN_def)
  moreover have "px_mkfifo pipe_os ?p ?k = (-1, ?k)" by (simp add: pipe_os_def)
  moreover have "px_open pipe_os ?p O_RDWR ?k = (0, ?k\<lparr>opened := [?p]\<rparr>)"
    by (simp add: pipe_os_def pipes_empty_def)
  ultimately show ?thesis
    using fifo_init_ignores_mkfifo_failure [of 7 ?p pipe_os ?k "-1" ?k]
    by (simp add: c_int_def INT_MAX_def INT_MIN_def)
qed

subsection \<open>Transfers\<close>

lemma fifo_write_ok:
  "0 < len \<Longrightarrow> len \<le> 4096 \<Longrightarrow> len \<le> int (length buf) \<Longrightarrow>
     fifo_write os fd buf len k = Inr (px_write os fd (take (nat len) buf) k)"
  by (simp add: fifo_write_def MAX_MSG_LEN_def)

lemma fifo_write_refused: "len \<le> 0 \<or> 4096 < len \<Longrightarrow> fifo_write os fd buf len k = Inl AssertFail"
  by (auto simp: fifo_write_def MAX_MSG_LEN_def)

lemma fifo_connect_ok:
  "c_int uuid \<Longrightarrow> fifo_path uuid = Inr path \<Longrightarrow> px_open os path O_WRONLY k = (fd, k') \<Longrightarrow> 0 \<le> fd \<Longrightarrow>
     fifo_connect os uuid k = Inr (fd, k')"
  by (simp add: fifo_ops)

end
