(* ===== verification/HashTable.thy ===== *)
theory HashTable
  imports Prelude
begin

unbundle bit_operations_syntax

section \<open>The chained hash table\<close>

text \<open>
  \<open>util/hashtable.c\<close> and \<open>util/hashtable.h\<close>: the table in which the global OS keeps
  the uuids of the global FIFOs.  Keys and values are byte strings of the sizes given
  at set-up; a bucket is the list of its nodes, front first.  The node array is a
  null pointer, freed, or an array of buckets; \<open>malloc\<close> is an oracle, the list of the
  results of the coming calls (success when the list is used up), so that the paths
  taken when memory runs out are part of the model.
\<close>

subsection \<open>Constants and structures of hashtable.h\<close>

definition HT_MINIMUM_CAPACITY :: nat where "HT_MINIMUM_CAPACITY = 8"
definition HT_LOAD_FACTOR :: nat where "HT_LOAD_FACTOR = 5"
definition HT_GROWTH_FACTOR :: nat where "HT_GROWTH_FACTOR = 2"

text \<open>The macro is the C expression \<open>(1 / 4)\<close>, an integer division.\<close>

definition HT_SHRINK_THRESHOLD :: nat where "HT_SHRINK_THRESHOLD = 1 div 4"

definition HT_ERROR :: int where "HT_ERROR = -1"
definition HT_SUCCESS :: int where "HT_SUCCESS = 0"
definition HT_UPDATED :: int where "HT_UPDATED = 1"
definition HT_INSERTED :: int where "HT_INSERTED = 0"
definition HT_NOT_FOUND :: int where "HT_NOT_FOUND = 0"
definition HT_FOUND :: int where "HT_FOUND = 1"

lemmas ht_consts = HT_MINIMUM_CAPACITY_def HT_LOAD_FACTOR_def HT_GROWTH_FACTOR_def
  HT_SHRINK_THRESHOLD_def HT_ERROR_def HT_SUCCESS_def HT_UPDATED_def HT_INSERTED_def
  HT_NOT_FOUND_def HT_FOUND_def

record HTNode =
  node_key :: "byte list"
  node_value :: "byte list"

datatype node_array = NullArray | FreedArray | Buckets "HTNode list list"

record HashTable =
  ht_size :: nat
  ht_threshold :: nat
  ht_capacity :: nat
  key_size :: nat
  value_size :: nat
  compare_fn :: "byte list \<Rightarrow> byte list \<Rightarrow> nat \<Rightarrow> int"
  hash_fn :: "byte list \<Rightarrow> nat \<Rightarrow> 64 word"
  nodes :: node_array

type_synonym heap = "bool list"

definition malloc :: "heap \<Rightarrow> bool \<times> heap" where
  "malloc h = (case h of [] \<Rightarrow> (True, []) | b # h' \<Rightarrow> (b, h'))"

lemma malloc_Nil [simp]: "malloc [] = (True, [])"
  by (simp add: malloc_def)

subsection \<open>Hashing and comparing\<close>

fun memcmp :: "byte list \<Rightarrow> byte list \<Rightarrow> nat \<Rightarrow> int" where
  "memcmp (a # as) (b # bs) (Suc n) =
     (if a = b then memcmp as bs n else int (unat a) - int (unat b))"
| "memcmp _ _ _ = 0"

definition htp_default_compare :: "byte list \<Rightarrow> byte list \<Rightarrow> nat \<Rightarrow> int" where
  "htp_default_compare first_key second_key n = memcmp first_key second_key n"

text \<open>
  djb2; \<open>key[byte]\<close> is a (signed) \<open>char\<close>, sign-extended to \<open>size_t\<close> before the XOR.
\<close>

definition htp_default_hash :: "byte list \<Rightarrow> nat \<Rightarrow> 64 word" where
  "htp_default_hash raw_key n =
     fold (\<lambda>b hash. (push_bit 5 hash + hash) XOR scast b) (take n raw_key) 5381"

definition htp_hash :: "HashTable \<Rightarrow> byte list \<Rightarrow> nat run" where
  "htp_hash t key =
     (if ht_capacity t = 0 then Inl DivByZero
      else Inr (unat (hash_fn t key (key_size t)) mod ht_capacity t))"

definition htp_equal :: "HashTable \<Rightarrow> byte list \<Rightarrow> byte list \<Rightarrow> bool" where
  "htp_equal t first_key second_key \<longleftrightarrow> compare_fn t first_key second_key (key_size t) = 0"

definition htp_should_grow :: "HashTable \<Rightarrow> bool run" where
  "htp_should_grow t =
     (if ht_size t \<le> ht_capacity t then Inr (ht_size t = ht_capacity t) else Inl AssertFail)"

definition htp_should_shrink :: "HashTable \<Rightarrow> bool run" where
  "htp_should_shrink t =
     (if ht_size t \<le> ht_capacity t then Inr (ht_size t = ht_capacity t * HT_SHRINK_THRESHOLD)
      else Inl AssertFail)"

subsection \<open>Access to the buckets\<close>

definition get_bucket :: "HashTable \<Rightarrow> nat \<Rightarrow> HTNode list run" where
  "get_bucket t i =
     (case nodes t of NullArray \<Rightarrow> Inl OutOfBounds | FreedArray \<Rightarrow> Inl UseAfterFree
      | Buckets ns \<Rightarrow> if i < length ns then Inr (ns ! i) else Inl OutOfBounds)"

definition set_bucket :: "HashTable \<Rightarrow> nat \<Rightarrow> HTNode list \<Rightarrow> HashTable run" where
  "set_bucket t i c =
     (case nodes t of NullArray \<Rightarrow> Inl OutOfBounds | FreedArray \<Rightarrow> Inl UseAfterFree
      | Buckets ns \<Rightarrow> if i < length ns then Inr (t\<lparr>nodes := Buckets (ns[i := c])\<rparr>)
                       else Inl OutOfBounds)"

text \<open>The loop \<open>for (node = table->nodes[index]; node; node = node->next) if (equal) ...\<close>.\<close>

definition find_node :: "HashTable \<Rightarrow> byte list \<Rightarrow> HTNode list \<Rightarrow> HTNode option" where
  "find_node t key c = find (\<lambda>n. htp_equal t key (node_key n)) c"

fun overwrite_first :: "HashTable \<Rightarrow> byte list \<Rightarrow> byte list \<Rightarrow> HTNode list \<Rightarrow> HTNode list" where
  "overwrite_first t key v [] = []"
| "overwrite_first t key v (n # c) =
     (if htp_equal t key (node_key n) then n\<lparr>node_value := take (value_size t) v\<rparr> # c
      else n # overwrite_first t key v c)"

fun unlink_first :: "HashTable \<Rightarrow> byte list \<Rightarrow> HTNode list \<Rightarrow> HTNode list" where
  "unlink_first t key [] = []"
| "unlink_first t key (n # c) =
     (if htp_equal t key (node_key n) then c else n # unlink_first t key c)"

subsection \<open>Private operations\<close>

definition htp_create_node :: "HashTable \<Rightarrow> byte list \<Rightarrow> byte list \<Rightarrow> heap \<Rightarrow> HTNode option \<times> heap" where
  "htp_create_node t key v h =
     (let (ok, h) = malloc h in if \<not> ok then (None, h)
      else let (ok, h) = malloc h in if \<not> ok then (None, h)
      else let (ok, h) = malloc h in if \<not> ok then (None, h)
      else (Some \<lparr>node_key = take (key_size t) key, node_value = take (value_size t) v\<rparr>, h))"

text \<open>When no node can be allocated the bucket is overwritten with the null pointer.\<close>

definition htp_push_front :: "HashTable \<Rightarrow> nat \<Rightarrow> byte list \<Rightarrow> byte list \<Rightarrow> heap
    \<Rightarrow> (int \<times> HashTable \<times> heap) run" where
  "htp_push_front t index key v h =
     and_then (get_bucket t index) (\<lambda>c.
       case htp_create_node t key v h of
         (None, h) \<Rightarrow> and_then (set_bucket t index []) (\<lambda>t. Inr (HT_ERROR, t, h))
       | (Some n, h) \<Rightarrow> and_then (set_bucket t index (n # c)) (\<lambda>t. Inr (HT_SUCCESS, t, h)))"

definition htp_allocate :: "HashTable \<Rightarrow> nat \<Rightarrow> heap \<Rightarrow> int \<times> HashTable \<times> heap" where
  "htp_allocate t capacity h =
     (let (ok, h) = malloc h in
      if \<not> ok then (HT_ERROR, t\<lparr>nodes := NullArray\<rparr>, h)
      else (HT_SUCCESS, t\<lparr>nodes := Buckets (replicate capacity []), ht_capacity := capacity,
                          ht_threshold := capacity * HT_LOAD_FACTOR\<rparr>, h))"

fun htp_rehash_chain :: "HashTable \<Rightarrow> HTNode list \<Rightarrow> HashTable run" where
  "htp_rehash_chain t [] = Inr t"
| "htp_rehash_chain t (n # next_nodes) =
     and_then (htp_hash t (node_key n)) (\<lambda>new_index.
     and_then (get_bucket t new_index) (\<lambda>c.
     and_then (set_bucket t new_index (n # c)) (\<lambda>t. htp_rehash_chain t next_nodes)))"

fun htp_rehash :: "HashTable \<Rightarrow> HTNode list list \<Rightarrow> HashTable run" where
  "htp_rehash t [] = Inr t"
| "htp_rehash t (c # old) = and_then (htp_rehash_chain t c) (\<lambda>t. htp_rehash t old)"

definition htp_resize :: "HashTable \<Rightarrow> nat \<Rightarrow> heap \<Rightarrow> (int \<times> HashTable \<times> heap) run" where
  "htp_resize t new_capacity h =
     (if new_capacity < HT_MINIMUM_CAPACITY \<and> \<not> HT_MINIMUM_CAPACITY < ht_capacity t
      then Inr (HT_SUCCESS, t, h)
      else
        let new_capacity = (if new_capacity < HT_MINIMUM_CAPACITY then HT_MINIMUM_CAPACITY
                            else new_capacity);
            old = nodes t; old_capacity = ht_capacity t;
            (r, t, h) = htp_allocate t new_capacity h
        in if r = HT_ERROR then Inr (HT_ERROR, t, h)
           else case old of NullArray \<Rightarrow> Inl OutOfBounds | FreedArray \<Rightarrow> Inl UseAfterFree
             | Buckets ns \<Rightarrow>
                 if length ns < old_capacity then Inl OutOfBounds
                 else and_then (htp_rehash t (take old_capacity ns)) (\<lambda>t. Inr (HT_SUCCESS, t, h)))"

definition htp_adjust_capacity :: "HashTable \<Rightarrow> heap \<Rightarrow> (int \<times> HashTable \<times> heap) run" where
  "htp_adjust_capacity t h = htp_resize t (ht_size t * HT_GROWTH_FACTOR) h"

subsection \<open>The interface\<close>

definition ht_is_initialized :: "HashTable \<Rightarrow> bool" where
  "ht_is_initialized t \<longleftrightarrow> nodes t \<noteq> NullArray"

definition ht_is_empty :: "HashTable \<Rightarrow> bool" where
  "ht_is_empty t \<longleftrightarrow> ht_size t = 0"

definition ht_setup :: "HashTable \<Rightarrow> nat \<Rightarrow> nat \<Rightarrow> nat \<Rightarrow> heap \<Rightarrow> int \<times> HashTable \<times> heap" where
  "ht_setup t ks vs capacity h =
     (let capacity = (if capacity < HT_MINIMUM_CAPACITY then HT_MINIMUM_CAPACITY else capacity);
          (r, t, h) = htp_allocate t capacity h
      in if r = HT_ERROR then (HT_ERROR, t, h)
         else (HT_SUCCESS,
               t\<lparr>key_size := ks, value_size := vs, hash_fn := htp_default_hash,
                 compare_fn := htp_default_compare, ht_size := 0\<rparr>, h))"

definition ht_insert :: "HashTable \<Rightarrow> byte list \<Rightarrow> byte list \<Rightarrow> heap
    \<Rightarrow> (int \<times> HashTable \<times> heap) run" where
  "ht_insert t key v h =
     (if \<not> ht_is_initialized t then Inl AssertFail
      else and_then (htp_should_grow t) (\<lambda>grow.
        and_then (if grow then and_then (htp_adjust_capacity t h) (\<lambda>(_, t, h). Inr (t, h))
                  else Inr (t, h)) (\<lambda>(t, h).
        and_then (htp_hash t key) (\<lambda>index.
        and_then (get_bucket t index) (\<lambda>c.
          if find_node t key c \<noteq> None
          then and_then (set_bucket t index (overwrite_first t key v c)) (\<lambda>t. Inr (HT_UPDATED, t, h))
          else and_then (htp_push_front t index key v h) (\<lambda>(r, t, h).
            if r = HT_ERROR then Inr (HT_ERROR, t, h)
            else Inr (HT_INSERTED, t\<lparr>ht_size := ht_size t + 1\<rparr>, h)))))))"

definition ht_contains :: "HashTable \<Rightarrow> byte list \<Rightarrow> int run" where
  "ht_contains t key =
     (if \<not> ht_is_initialized t then Inl AssertFail
      else and_then (htp_hash t key) (\<lambda>index.
        and_then (get_bucket t index) (\<lambda>c.
          Inr (if find_node t key c \<noteq> None then HT_FOUND else HT_NOT_FOUND))))"

text \<open>A null result is \<open>None\<close>.  \<open>ht_const_lookup\<close> has the same body.\<close>

definition ht_lookup :: "HashTable \<Rightarrow> byte list \<Rightarrow> byte list option run" where
  "ht_lookup t key =
     and_then (htp_hash t key) (\<lambda>index.
       and_then (get_bucket t index) (\<lambda>c. Inr (map_option node_value (find_node t key c))))"

text \<open>\<open>--table->size\<close>, on a \<open>size_t\<close>.\<close>

definition dec_size :: "nat \<Rightarrow> nat" where
  "dec_size n = (if n = 0 then 2 ^ 64 - 1 else n - 1)"

definition ht_erase :: "HashTable \<Rightarrow> byte list \<Rightarrow> heap \<Rightarrow> (int \<times> HashTable \<times> heap) run" where
  "ht_erase t key h =
     and_then (htp_hash t key) (\<lambda>index.
     and_then (get_bucket t index) (\<lambda>c.
       if find_node t key c = None then Inr (HT_NOT_FOUND, t, h)
       else and_then (set_bucket t index (unlink_first t key c)) (\<lambda>t.
         let t = t\<lparr>ht_size := dec_size (ht_size t)\<rparr> in
         and_then (htp_should_shrink t) (\<lambda>shrink.
           if shrink
           then and_then (htp_adjust_capacity t h) (\<lambda>(r, t, h).
                  if r = HT_ERROR then Inr (HT_ERROR, t, h) else Inr (HT_SUCCESS, t, h))
           else Inr (HT_SUCCESS, t, h)))))"

definition ht_destroy :: "HashTable \<Rightarrow> (int \<times> HashTable) run" where
  "ht_destroy t =
     (case nodes t of NullArray \<Rightarrow> Inl AssertFail | FreedArray \<Rightarrow> Inl UseAfterFree
      | Buckets ns \<Rightarrow> if length ns < ht_capacity t then Inl OutOfBounds
                       else Inr (HT_SUCCESS, t\<lparr>nodes := FreedArray\<rparr>))"

definition ht_clear :: "HashTable \<Rightarrow> heap \<Rightarrow> (int \<times> HashTable \<times> heap) run" where
  "ht_clear t h =
     (if nodes t = NullArray then Inl AssertFail
      else and_then (ht_destroy t) (\<lambda>(_, t).
        let (_, t, h) = htp_allocate t HT_MINIMUM_CAPACITY h
        in Inr (HT_SUCCESS, t\<lparr>ht_size := 0\<rparr>, h)))"

definition ht_reserve :: "HashTable \<Rightarrow> nat \<Rightarrow> heap \<Rightarrow> (int \<times> HashTable \<times> heap) run" where
  "ht_reserve t minimum_capacity h =
     (if \<not> ht_is_initialized t then Inl AssertFail
      else if ht_threshold t < minimum_capacity
           then htp_resize t (minimum_capacity div HT_LOAD_FACTOR) h
      else Inr (HT_SUCCESS, t, h))"

fun copy_chain :: "HashTable \<Rightarrow> nat \<Rightarrow> HTNode list \<Rightarrow> heap \<Rightarrow> (int \<times> HashTable \<times> heap) run" where
  "copy_chain t chain [] h = Inr (HT_SUCCESS, t, h)"
| "copy_chain t chain (n # c) h =
     and_then (htp_push_front t chain (node_key n) (node_value n) h) (\<lambda>(r, t, h).
       if r = HT_ERROR then Inr (HT_ERROR, t, h) else copy_chain t chain c h)"

fun copy_chains :: "HashTable \<Rightarrow> nat \<Rightarrow> HTNode list list \<Rightarrow> heap \<Rightarrow> (int \<times> HashTable \<times> heap) run" where
  "copy_chains t chain [] h = Inr (HT_SUCCESS, t, h)"
| "copy_chains t chain (c # cs) h =
     and_then (copy_chain t chain c h) (\<lambda>(r, t, h).
       if r = HT_ERROR then Inr (HT_ERROR, t, h) else copy_chains t (Suc chain) cs h)"

definition ht_copy :: "HashTable \<Rightarrow> HashTable \<Rightarrow> heap \<Rightarrow> (int \<times> HashTable \<times> heap) run" where
  "ht_copy first second h =
     (if \<not> ht_is_initialized second then Inl AssertFail
      else let (r, first, h) = htp_allocate first (ht_capacity second) h in
        if r = HT_ERROR then Inr (HT_ERROR, first, h)
        else let first = first\<lparr>key_size := key_size second, value_size := value_size second,
                     hash_fn := hash_fn second, compare_fn := compare_fn second,
                     ht_size := ht_size second\<rparr>
        in case nodes second of NullArray \<Rightarrow> Inl OutOfBounds | FreedArray \<Rightarrow> Inl UseAfterFree
           | Buckets ns \<Rightarrow> if length ns < ht_capacity second then Inl OutOfBounds
                            else copy_chains first 0 (take (ht_capacity second) ns) h)"

definition ht_move :: "HashTable \<Rightarrow> HashTable \<Rightarrow> (int \<times> HashTable \<times> HashTable) run" where
  "ht_move first second =
     (if \<not> ht_is_initialized second then Inl AssertFail
      else Inr (HT_SUCCESS, second, second\<lparr>nodes := NullArray\<rparr>))"

text \<open>The swap exchanges every field but \<open>capacity\<close> and \<open>threshold\<close>.\<close>

definition ht_swap :: "HashTable \<Rightarrow> HashTable \<Rightarrow> (int \<times> HashTable \<times> HashTable) run" where
  "ht_swap first second =
     (if \<not> ht_is_initialized first \<or> \<not> ht_is_initialized second then Inl AssertFail
      else Inr (HT_SUCCESS,
        first\<lparr>key_size := key_size second, value_size := value_size second,
              ht_size := ht_size second, hash_fn := hash_fn second,
              compare_fn := compare_fn second, nodes := nodes second\<rparr>,
        second\<lparr>key_size := key_size first, value_size := value_size first,
              ht_size := ht_size first, hash_fn := hash_fn first,
              compare_fn := compare_fn first, nodes := nodes first\<rparr>))"

end
