(* ===== verification/HashTable_Correct.thy ===== *)
theory HashTable_Correct
  imports HashTable
begin

section \<open>The hash table is a finite map\<close>

text \<open>
  The representation invariant of the table, the map it stands for, and what every
  operation does to both: insertion, look-up, deletion, resizing and copying when
  memory does not run out, and the ways the code fails when it does.
\<close>

subsection \<open>Invariant and abstraction\<close>

definition home :: "HashTable \<Rightarrow> byte list \<Rightarrow> nat" where
  "home t k = unat (htp_default_hash k (key_size t)) mod ht_capacity t"

definition bucket_ok :: "HashTable \<Rightarrow> nat \<Rightarrow> HTNode list \<Rightarrow> bool" where
  "bucket_ok t i c \<longleftrightarrow>
     (\<forall>n \<in> set c. length (node_key n) = key_size t \<and> length (node_value n) = value_size t
        \<and> home t (node_key n) = i) \<and> distinct (map node_key c)"

definition chains_of :: "HashTable \<Rightarrow> HTNode list list" where
  "chains_of t = (case nodes t of Buckets ns \<Rightarrow> ns | _ \<Rightarrow> [])"

definition stored :: "HashTable \<Rightarrow> nat" where
  "stored t = sum_list (map length (chains_of t))"

definition chains_ok :: "HashTable \<Rightarrow> bool" where
  "chains_ok t \<longleftrightarrow> nodes t = Buckets (chains_of t) \<and> length (chains_of t) = ht_capacity t
     \<and> HT_MINIMUM_CAPACITY \<le> ht_capacity t \<and> ht_threshold t = ht_capacity t * HT_LOAD_FACTOR
     \<and> hash_fn t = htp_default_hash \<and> compare_fn t = htp_default_compare
     \<and> (\<forall>i < ht_capacity t. bucket_ok t i (chains_of t ! i))"

definition ht_inv :: "HashTable \<Rightarrow> bool" where
  "ht_inv t \<longleftrightarrow> chains_ok t \<and> ht_size t = stored t \<and> ht_size t \<le> ht_capacity t"

definition node_pair :: "HTNode \<Rightarrow> byte list \<times> byte list" where
  "node_pair n = (node_key n, node_value n)"

definition ht_abs :: "HashTable \<Rightarrow> byte list \<Rightarrow> byte list option" where
  "ht_abs t k = (if length k = key_size t
     then map_of (map node_pair (chains_of t ! home t k)) k else None)"

lemma chains_okD:
  assumes "chains_ok t"
  shows "nodes t = Buckets (chains_of t)" and "length (chains_of t) = ht_capacity t"
    and "0 < ht_capacity t" and "hash_fn t = htp_default_hash"
    and "compare_fn t = htp_default_compare"
    and "i < ht_capacity t \<Longrightarrow> bucket_ok t i (chains_of t ! i)"
  using assms by (auto simp: chains_ok_def ht_consts)

lemma home_less [simp]: "chains_ok t \<Longrightarrow> home t k < ht_capacity t"
  by (simp add: home_def chains_okD)

lemma chains_of_update [simp]:
  "chains_of (t\<lparr>nodes := Buckets ns\<rparr>) = ns"
  "chains_of (t\<lparr>ht_size := s\<rparr>) = chains_of t"
  by (simp_all add: chains_of_def)

lemma home_update [simp]:
  "home (t\<lparr>nodes := a\<rparr>) k = home t k"
  "home (t\<lparr>ht_size := s\<rparr>) k = home t k"
  by (simp_all add: home_def)

lemma bucket_ok_update [simp]:
  "bucket_ok (t\<lparr>nodes := a\<rparr>) i c = bucket_ok t i c"
  "bucket_ok (t\<lparr>ht_size := s\<rparr>) i c = bucket_ok t i c"
  by (simp_all add: bucket_ok_def)

lemma ht_size_update_frame [simp]:
  "chains_ok (t\<lparr>ht_size := s\<rparr>) = chains_ok t"
  "stored (t\<lparr>ht_size := s\<rparr>) = stored t"
  "ht_abs (t\<lparr>ht_size := s\<rparr>) = ht_abs t"
  by (simp_all add: chains_ok_def stored_def ht_abs_def fun_eq_iff)

subsection \<open>Comparing and finding\<close>

lemma memcmp_eq_0_iff: "length a = n \<Longrightarrow> length b = n \<Longrightarrow> memcmp a b n = 0 \<longleftrightarrow> a = b"
proof (induction a b n rule: memcmp.induct)
  case (1 a as b bs n)
  then show ?case by (auto simp: word_uint_eq_iff)
qed auto

lemma htp_equal_iff:
  "chains_ok t \<Longrightarrow> length k = key_size t \<Longrightarrow> length k' = key_size t \<Longrightarrow>
     htp_equal t k k' \<longleftrightarrow> k = k'"
  by (simp add: htp_equal_def chains_okD htp_default_compare_def memcmp_eq_0_iff)

lemma find_node_map_of:
  assumes "chains_ok t" and "length k = key_size t"
    and "\<forall>n \<in> set c. length (node_key n) = key_size t"
  shows "map_option node_value (find_node t k c) = map_of (map node_pair c) k"
  using assms(3)
proof (induction c)
  case Nil
  then show ?case by (simp add: find_node_def)
next
  case (Cons n c)
  then show ?case
    using assms(1,2) by (auto simp: find_node_def htp_equal_iff node_pair_def)
qed

lemma find_node_None_iff:
  assumes "chains_ok t" and "length k = key_size t"
    and "\<forall>n \<in> set c. length (node_key n) = key_size t"
  shows "find_node t k c = None \<longleftrightarrow> map_of (map node_pair c) k = None"
  using find_node_map_of [OF assms] by (metis option.map_disc_iff)

lemma map_of_pairs_None: "map_of (map node_pair c) k = None \<longleftrightarrow> k \<notin> node_key ` set c"
  by (auto simp: map_of_eq_None_iff node_pair_def image_iff)

lemma overwrite_first_pairs:
  assumes "chains_ok t" and "length k = key_size t" and "length v = value_size t"
    and "\<forall>n \<in> set c. length (node_key n) = key_size t" and "find_node t k c \<noteq> None"
  shows "map_of (map node_pair (overwrite_first t k v c)) = (map_of (map node_pair c))(k \<mapsto> v)"
  using assms(4,5)
proof (induction c)
  case Nil
  then show ?case by (simp add: find_node_def)
next
  case (Cons n c)
  then show ?case
    using assms(1-3)
    by (auto simp: find_node_def htp_equal_iff node_pair_def fun_eq_iff)
qed

lemma overwrite_first_keys [simp]:
  "map node_key (overwrite_first t k v c) = map node_key c"
  by (induction c) auto

lemma overwrite_first_set:
  "n \<in> set (overwrite_first t k v c) \<Longrightarrow>
     n \<in> set c \<or> (\<exists>m \<in> set c. n = m\<lparr>node_value := take (value_size t) v\<rparr>)"
  by (induction c) (auto split: if_splits)

lemma length_overwrite_first [simp]: "length (overwrite_first t k v c) = length c"
  by (induction c) auto

lemma unlink_first_subset: "set (unlink_first t k c) \<subseteq> set c"
  by (induction c) auto

lemma unlink_first_filter:
  assumes "chains_ok t" and "length k = key_size t" and "bucket_ok t i c"
  shows "unlink_first t k c = filter (\<lambda>n. node_key n \<noteq> k) c"
  using assms(3)
proof (induction c)
  case Nil
  then show ?case by simp
next
  case (Cons n c)
  have c: "bucket_ok t i c" and "length (node_key n) = key_size t"
    using Cons.prems by (auto simp: bucket_ok_def)
  show ?case
  proof (cases "node_key n = k")
    case True
    then have "\<forall>m \<in> set c. node_key m \<noteq> k"
      using Cons.prems by (auto simp: bucket_ok_def image_iff)
    with True assms(1,2) show ?thesis by (simp add: htp_equal_iff)
  next
    case False
    with Cons.IH [OF c] assms(1,2) \<open>length (node_key n) = key_size t\<close>
    show ?thesis by (simp add: htp_equal_iff)
  qed
qed

lemma map_of_filter_key:
  "map_of (map node_pair (filter (\<lambda>n. node_key n \<noteq> k) c)) = (map_of (map node_pair c))(k := None)"
  by (induction c) (auto simp: node_pair_def fun_eq_iff)

subsection \<open>Reaching a bucket\<close>

lemma htp_hash_home [simp]: "chains_ok t \<Longrightarrow> htp_hash t k = Inr (home t k)"
  by (simp add: htp_hash_def home_def chains_okD)

lemma get_bucket_ok [simp]:
  "chains_ok t \<Longrightarrow> i < ht_capacity t \<Longrightarrow> get_bucket t i = Inr (chains_of t ! i)"
  by (simp add: get_bucket_def chains_okD)

lemma set_bucket_ok [simp]:
  "chains_ok t \<Longrightarrow> i < ht_capacity t \<Longrightarrow>
     set_bucket t i c = Inr (t\<lparr>nodes := Buckets ((chains_of t)[i := c])\<rparr>)"
  by (simp add: set_bucket_def chains_okD)

lemma chains_ok_set_bucket:
  assumes "chains_ok t" and "i < ht_capacity t" and "bucket_ok t i c"
  shows "chains_ok (t\<lparr>nodes := Buckets ((chains_of t)[i := c])\<rparr>)"
  using assms by (auto simp: chains_ok_def nth_list_update)

lemma stored_set_bucket:
  assumes "chains_ok t" and "i < ht_capacity t"
  shows "stored (t\<lparr>nodes := Buckets ((chains_of t)[i := c])\<rparr>) + length (chains_of t ! i)
    = stored t + length c"
proof -
  have "i < length (chains_of t)" using assms by (simp add: chains_okD)
  moreover have "sum_list (map length (xs[i := c])) + length (xs ! i) = sum_list (map length xs) + length c"
    if "i < length xs" for xs :: "HTNode list list"
    using that by (induction xs arbitrary: i) (auto simp: nth_Cons split: nat.splits)
  ultimately show ?thesis by (simp add: stored_def)
qed

lemma ht_abs_set_bucket:
  assumes "chains_ok t" and "length k = key_size t" and "bucket_ok t (home t k) c"
    and "\<And>k'. k' \<noteq> k \<Longrightarrow>
      map_of (map node_pair c) k' = map_of (map node_pair (chains_of t ! home t k)) k'"
  shows "ht_abs (t\<lparr>nodes := Buckets ((chains_of t)[home t k := c])\<rparr>)
    = (ht_abs t)(k := map_of (map node_pair c) k)"
proof
  fix k'
  have len: "home t k < length (chains_of t)" using assms(1) by (simp add: chains_okD)
  then show "ht_abs (t\<lparr>nodes := Buckets ((chains_of t)[home t k := c])\<rparr>) k'
    = ((ht_abs t)(k := map_of (map node_pair c) k)) k'"
    using assms(2,4) by (cases "home t k' = home t k") (auto simp: ht_abs_def)
qed

lemma bucket_keys:
  "chains_ok t \<Longrightarrow> i < ht_capacity t \<Longrightarrow> \<forall>n \<in> set (chains_of t ! i). length (node_key n) = key_size t"
  using chains_okD(6) by (auto simp: bucket_ok_def)

lemma find_node_home:
  assumes "chains_ok t" and "length k = key_size t"
  shows "map_option node_value (find_node t k (chains_of t ! home t k)) = ht_abs t k"
  using assms find_node_map_of [OF assms bucket_keys [OF assms(1) home_less [OF assms(1)]]]
  by (simp add: ht_abs_def)

lemma find_node_home_None:
  assumes "chains_ok t" and "length k = key_size t"
  shows "find_node t k (chains_of t ! home t k) = None \<longleftrightarrow> ht_abs t k = None"
  using find_node_home [OF assms] by (metis option.map_disc_iff)

text \<open>Pushing a node with a fresh key in front of its bucket.\<close>

lemma push_node:
  assumes ok: "chains_ok t" and len: "length (node_key n) = key_size t"
    and vlen: "length (node_value n) = value_size t" and new: "ht_abs t (node_key n) = None"
  defines "t' \<equiv> t\<lparr>nodes := Buckets ((chains_of t)[home t (node_key n) := n # chains_of t ! home t (node_key n)])\<rparr>"
  shows "chains_ok t'" and "stored t' = Suc (stored t)"
    and "ht_abs t' = (ht_abs t)(node_key n \<mapsto> node_value n)"
proof -
  let ?i = "home t (node_key n)" and ?c = "chains_of t ! home t (node_key n)"
  have fresh: "node_key n \<notin> node_key ` set ?c"
    using new len by (simp add: ht_abs_def map_of_pairs_None)
  have b: "bucket_ok t ?i (n # ?c)"
    using chains_okD(6) [OF ok home_less [OF ok]] len vlen fresh by (auto simp: bucket_ok_def)
  show "chains_ok t'"
    using chains_ok_set_bucket [OF ok _ b] ok by (simp add: t'_def)
  show "stored t' = Suc (stored t)"
    using stored_set_bucket [OF ok home_less [OF ok], of "node_key n" "n # ?c"] by (simp add: t'_def)
  have "ht_abs t' = (ht_abs t)(node_key n := map_of (map node_pair (n # ?c)) (node_key n))"
    unfolding t'_def using ok len b by (rule ht_abs_set_bucket) (simp add: node_pair_def)
  then show "ht_abs t' = (ht_abs t)(node_key n \<mapsto> node_value n)"
    by (simp add: node_pair_def)
qed


subsection \<open>Allocation, rehashing and resizing\<close>

lemma htp_allocate_ok:
  "htp_allocate t c [] = (HT_SUCCESS, t\<lparr>nodes := Buckets (replicate c []), ht_capacity := c,
     ht_threshold := c * HT_LOAD_FACTOR\<rparr>, [])"
  by (simp add: htp_allocate_def)

lemma map_upd_comm:
  "k \<notin> dom g \<Longrightarrow> (f(k \<mapsto> v)) ++ g = (f ++ g)(k \<mapsto> v)"
  by (auto simp: fun_eq_iff map_add_def split: option.splits)

text \<open>
  Rehashing moves the nodes of the old chains, whose keys are pairwise different and not yet
  in the table, into the new buckets: the map grows by exactly their pairs.
\<close>

definition same_shape :: "HashTable \<Rightarrow> HashTable \<Rightarrow> bool" where
  "same_shape t t' \<longleftrightarrow> key_size t' = key_size t \<and> value_size t' = value_size t
     \<and> ht_capacity t' = ht_capacity t \<and> ht_size t' = ht_size t"

lemma htp_rehash_chain_ok:
  assumes "chains_ok t"
    and "\<forall>n \<in> set c. length (node_key n) = key_size t \<and> length (node_value n) = value_size t"
    and "distinct (map node_key c)" and "\<forall>n \<in> set c. ht_abs t (node_key n) = None"
  shows "\<exists>t'. htp_rehash_chain t c = Inr t' \<and> chains_ok t' \<and> same_shape t t'
    \<and> stored t' = stored t + length c \<and> ht_abs t' = ht_abs t ++ map_of (map node_pair c)"
  using assms
proof (induction c arbitrary: t)
  case Nil
  then show ?case by (simp add: same_shape_def)
next
  case (Cons n c)
  let ?i = "home t (node_key n)"
  let ?t = "t\<lparr>nodes := Buckets ((chains_of t)[?i := n # chains_of t ! ?i])\<rparr>"
  have push: "chains_ok ?t" "stored ?t = Suc (stored t)"
    "ht_abs ?t = (ht_abs t)(node_key n \<mapsto> node_value n)"
    using push_node [of t n] Cons.prems by simp_all
  have fresh: "node_key n \<notin> dom (map_of (map node_pair c))"
    using Cons.prems(3) by (auto simp: dom_map_of_conv_image_fst node_pair_def)
  have "\<exists>t'. htp_rehash_chain ?t c = Inr t' \<and> chains_ok t' \<and> same_shape ?t t'
    \<and> stored t' = stored ?t + length c \<and> ht_abs t' = ht_abs ?t ++ map_of (map node_pair c)"
    using Cons.prems by (intro Cons.IH push) (auto simp: push(3) image_iff)
  then obtain t' where t': "htp_rehash_chain ?t c = Inr t'" "chains_ok t'" "same_shape ?t t'"
    "stored t' = stored ?t + length c" "ht_abs t' = ht_abs ?t ++ map_of (map node_pair c)"
    by blast
  have "ht_abs t' = ht_abs t ++ map_of (map node_pair (n # c))"
    using map_upd_comm [OF fresh, of "ht_abs t" "node_value n"]
    by (simp add: t'(5) push(3) node_pair_def)
  moreover have "htp_rehash_chain t (n # c) = Inr t'"
    using t'(1) Cons.prems(1) by simp
  moreover have "same_shape t t'" and "stored t' = stored t + length (n # c)"
    using t'(3,4) push(2) by (simp_all add: same_shape_def)
  ultimately show ?case using t'(2) by blast
qed

lemma htp_rehash_concat: "htp_rehash t cs = htp_rehash_chain t (concat cs)"
proof -
  have app: "htp_rehash_chain t (c @ d) = and_then (htp_rehash_chain t c) (\<lambda>t. htp_rehash_chain t d)"
    for t c d
    by (induction c arbitrary: t) (auto simp: and_then_def split: sum.splits)
  show ?thesis by (induction cs arbitrary: t) (simp_all add: app)
qed

lemma chains_ok_empty:
  assumes "HT_MINIMUM_CAPACITY \<le> c" and "hash_fn t = htp_default_hash"
    and "compare_fn t = htp_default_compare"
  defines "t' \<equiv> t\<lparr>nodes := Buckets (replicate c []), ht_capacity := c,
    ht_threshold := c * HT_LOAD_FACTOR\<rparr>"
  shows "chains_ok t'" and "stored t' = 0" and "ht_abs t' = Map.empty"
proof -
  show ok: "chains_ok t'"
    using assms(1-3) by (auto simp: t'_def chains_ok_def chains_of_def bucket_ok_def)
  show "stored t' = 0"
    by (simp add: t'_def stored_def chains_of_def sum_list_replicate)
  show "ht_abs t' = Map.empty"
    using home_less [OF ok] by (auto simp: fun_eq_iff ht_abs_def) (simp add: t'_def chains_of_def)
qed

lemma concat_keys_distinct:
  assumes "chains_ok t"
  shows "distinct (map node_key (concat (chains_of t)))"
proof -
  have "distinct (map node_key (concat cs))"
    if "\<forall>i < length cs. \<exists>j. j = i + m \<and> bucket_ok t j (cs ! i)" for cs m
    using that
  proof (induction cs arbitrary: m)
    case Nil
    then show ?case by simp
  next
    case (Cons c cs)
    have c: "bucket_ok t m c" using Cons.prems by force
    have rest: "\<forall>i < length cs. \<exists>j. j = i + Suc m \<and> bucket_ok t j (cs ! i)"
      using Cons.prems by force
    have "home t (node_key x) > m" if "x \<in> set (concat cs)" for x
    proof -
      from that obtain i where "i < length cs" "x \<in> set (cs ! i)"
        by (metis concat_eq_concat_iff in_set_conv_nth set_concat UN_iff)
      with rest show ?thesis by (fastforce simp: bucket_ok_def)
    qed
    moreover have "home t (node_key x) = m" if "x \<in> set c" for x
      using c that by (auto simp: bucket_ok_def)
    ultimately have "node_key ` set c \<inter> node_key ` set (concat cs) = {}"
      by fastforce
    then show ?case using c Cons.IH [OF rest] by (auto simp: bucket_ok_def)
  qed
  from this [of "chains_of t" 0] show ?thesis
    using assms chains_okD(2,6) by simp
qed

lemma concat_in_bucket:
  assumes "chains_ok t" and "n \<in> set (concat (chains_of t))"
  shows "length (node_key n) = key_size t" and "length (node_value n) = value_size t"
    and "n \<in> set (chains_of t ! home t (node_key n))"
proof -
  obtain i where i: "i < ht_capacity t" "n \<in> set (chains_of t ! i)"
    using assms chains_okD(2) by (auto simp: in_set_conv_nth) metis
  then have "bucket_ok t i (chains_of t ! i)" using chains_okD(6) assms(1) by blast
  with i show "length (node_key n) = key_size t" "length (node_value n) = value_size t"
    "n \<in> set (chains_of t ! home t (node_key n))" by (auto simp: bucket_ok_def)
qed

lemma ht_abs_concat:
  assumes "chains_ok t"
  shows "ht_abs t = map_of (map node_pair (concat (chains_of t)))"
proof
  fix k
  show "ht_abs t k = map_of (map node_pair (concat (chains_of t))) k"
  proof (cases "map_of (map node_pair (concat (chains_of t))) k")
    case None
    then have "k \<notin> node_key ` set (concat (chains_of t))" by (simp add: map_of_pairs_None)
    then have "k \<notin> node_key ` set (chains_of t ! home t k)"
      using home_less [OF assms, of k] chains_okD(2) [OF assms] nth_mem by fastforce
    then have "map_of (map node_pair (chains_of t ! home t k)) k = None"
      by (simp add: map_of_pairs_None)
    with None show ?thesis by (simp add: ht_abs_def)
  next
    case (Some v)
    then obtain n where n: "n \<in> set (concat (chains_of t))" "k = node_key n" "v = node_value n"
      using map_of_SomeD by (fastforce simp: node_pair_def)
    note b = concat_in_bucket [OF assms n(1)]
    have "distinct (map node_key (chains_of t ! home t k))"
      using chains_okD(6) [OF assms home_less [OF assms]] by (simp add: bucket_ok_def)
    then have "map_of (map node_pair (chains_of t ! home t k)) k = Some v"
      using b(3) n(2,3)
      by (intro map_of_is_SomeI) (auto simp: node_pair_def comp_def image_iff)
    with Some b(1) n(2) show ?thesis by (simp add: ht_abs_def)
  qed
qed

lemma length_concat_chains: "length (concat (chains_of t)) = stored t"
  by (simp add: length_concat stored_def)

lemma htp_resize_ok:
  assumes inv: "chains_ok t"
  obtains t' where "htp_resize t c [] = Inr (HT_SUCCESS, t', [])" and "chains_ok t'"
    and "stored t' = stored t" and "ht_abs t' = ht_abs t" and "key_size t' = key_size t"
    and "value_size t' = value_size t" and "ht_size t' = ht_size t"
    and "ht_capacity t' = (if HT_MINIMUM_CAPACITY \<le> c then c
           else HT_MINIMUM_CAPACITY)"
proof (cases "c < HT_MINIMUM_CAPACITY \<and> \<not> HT_MINIMUM_CAPACITY < ht_capacity t")
  case True
  then have "ht_capacity t = HT_MINIMUM_CAPACITY" using inv by (simp add: chains_ok_def)
  with True inv show thesis by (intro that [of t]) (simp_all add: htp_resize_def)
next
  case False
  define c' where "c' = (if c < HT_MINIMUM_CAPACITY then HT_MINIMUM_CAPACITY else c)"
  define e where "e = t\<lparr>nodes := Buckets (replicate c' []), ht_capacity := c',
    ht_threshold := c' * HT_LOAD_FACTOR\<rparr>"
  have c': "HT_MINIMUM_CAPACITY \<le> c'" by (simp add: c'_def)
  note e = chains_ok_empty [OF c' chains_okD(4,5) [OF inv], folded e_def]
  have "\<exists>t'. htp_rehash_chain e (concat (chains_of t)) = Inr t' \<and> chains_ok t' \<and> same_shape e t'
    \<and> stored t' = stored e + length (concat (chains_of t))
    \<and> ht_abs t' = ht_abs e ++ map_of (map node_pair (concat (chains_of t)))"
    using e concat_keys_distinct [OF inv] concat_in_bucket [OF inv]
    by (intro htp_rehash_chain_ok) (auto simp: e_def)
  then obtain t' where t': "htp_rehash_chain e (concat (chains_of t)) = Inr t'" "chains_ok t'"
    "same_shape e t'" "stored t' = stored t" "ht_abs t' = ht_abs t"
    using e length_concat_chains [of t] ht_abs_concat [OF inv] by auto
  have "htp_resize t c [] = (let (r, t'', h) = htp_allocate t c' [] in if r = HT_ERROR
      then Inr (HT_ERROR, t'', h)
      else and_then (htp_rehash t'' (chains_of t)) (\<lambda>t. Inr (HT_SUCCESS, t, h)))"
    using False chains_okD(1,2) [OF inv]
    by (auto simp: htp_resize_def Let_def c'_def split: prod.splits)
  then have "htp_resize t c [] = Inr (HT_SUCCESS, t', [])"
    using t'(1) by (simp add: htp_allocate_ok htp_rehash_concat ht_consts e_def)
  with t' show thesis
    by (intro that [of t']) (auto simp: same_shape_def e_def c'_def)
qed

subsection \<open>The operations of the interface\<close>

lemma ht_invD:
  assumes "ht_inv t"
  shows "chains_ok t" and "ht_size t = stored t" and "ht_size t \<le> ht_capacity t"
    and "ht_is_initialized t"
  using assms chains_okD(1) by (auto simp: ht_inv_def ht_is_initialized_def)

lemma ht_setup_ok:
  "\<exists>t'. ht_setup t ks vs c [] = (HT_SUCCESS, t', []) \<and> ht_inv t' \<and> ht_abs t' = Map.empty
     \<and> key_size t' = ks \<and> value_size t' = vs"
proof -
  define c' where "c' = (if c < HT_MINIMUM_CAPACITY then HT_MINIMUM_CAPACITY else c)"
  define t0 where "t0 = t\<lparr>key_size := ks, value_size := vs, hash_fn := htp_default_hash,
    compare_fn := htp_default_compare, ht_size := 0\<rparr>"
  have "HT_MINIMUM_CAPACITY \<le> c'" by (simp add: c'_def)
  note e = chains_ok_empty [OF this, of t0]
  have "ht_setup t ks vs c [] = (HT_SUCCESS, t0\<lparr>nodes := Buckets (replicate c' []), ht_capacity := c',
    ht_threshold := c' * HT_LOAD_FACTOR\<rparr>, [])"
    by (simp add: ht_setup_def htp_allocate_ok c'_def t0_def ht_consts Let_def)
  with e show ?thesis by (simp add: ht_inv_def t0_def)
qed

lemma ht_lookup_ok:
  assumes "chains_ok t" and "length k = key_size t"
  shows "ht_lookup t k = Inr (ht_abs t k)"
  using assms by (simp add: ht_lookup_def find_node_home)

lemma ht_contains_ok:
  assumes "chains_ok t" and "length k = key_size t"
  shows "ht_contains t k = Inr (if ht_abs t k = None then HT_NOT_FOUND else HT_FOUND)"
proof -
  have "ht_is_initialized t" using chains_okD(1) [OF assms(1)] by (simp add: ht_is_initialized_def)
  then show ?thesis
    unfolding ht_contains_def
    by (simp add: htp_hash_home [OF assms(1)] get_bucket_ok [OF assms(1) home_less [OF assms(1)]]
        find_node_home_None [OF assms] del: not_None_eq)
qed

text \<open>Growing keeps the map and leaves room for one more node.\<close>

lemma grow_ok:
  assumes "ht_inv t"
  obtains t' where "and_then (htp_should_grow t) (\<lambda>grow.
      if grow then and_then (htp_adjust_capacity t []) (\<lambda>(_, t, h). Inr (t, h)) else Inr (t, []))
      = Inr (t', [])"
    and "ht_inv t'" and "ht_size t' < ht_capacity t'" and "ht_abs t' = ht_abs t"
    and "key_size t' = key_size t" and "value_size t' = value_size t" and "ht_size t' = ht_size t"
proof (cases "ht_size t = ht_capacity t")
  case True
  note inv = ht_invD [OF assms]
  obtain t' where t': "htp_resize t (ht_size t * HT_GROWTH_FACTOR) [] = Inr (HT_SUCCESS, t', [])"
    "chains_ok t'" "stored t' = stored t" "ht_abs t' = ht_abs t" "key_size t' = key_size t"
    "value_size t' = value_size t" "ht_size t' = ht_size t"
    "ht_capacity t' = (if HT_MINIMUM_CAPACITY \<le> ht_size t * HT_GROWTH_FACTOR
      then ht_size t * HT_GROWTH_FACTOR else HT_MINIMUM_CAPACITY)"
    using htp_resize_ok [OF inv(1)] by blast
  have "HT_MINIMUM_CAPACITY \<le> ht_capacity t" using inv(1) by (simp add: chains_ok_def)
  then have "ht_size t' < ht_capacity t'" using t'(7,8) True by (simp add: ht_consts)
  with t' inv(2) True show thesis
    by (intro that [of t']) (simp_all add: htp_should_grow_def htp_adjust_capacity_def ht_inv_def)
next
  case False
  with assms show thesis
    by (intro that [of t]) (auto simp: htp_should_grow_def ht_inv_def)
qed

lemma ht_insert_unfold:
  assumes "ht_inv t"
  shows "ht_insert t key v h =
     and_then (and_then (htp_should_grow t) (\<lambda>grow.
       if grow then and_then (htp_adjust_capacity t h) (\<lambda>(_, t, h). Inr (t, h)) else Inr (t, h)))
     (\<lambda>(t, h). and_then (htp_hash t key) (\<lambda>index.
        and_then (get_bucket t index) (\<lambda>c.
          if find_node t key c \<noteq> None
          then and_then (set_bucket t index (overwrite_first t key v c)) (\<lambda>t. Inr (HT_UPDATED, t, h))
          else and_then (htp_push_front t index key v h) (\<lambda>(r, t, h).
            if r = HT_ERROR then Inr (HT_ERROR, t, h)
            else Inr (HT_INSERTED, t\<lparr>ht_size := ht_size t + 1\<rparr>, h)))))"
  using ht_invD [OF assms] by (simp add: ht_insert_def htp_should_grow_def)

text \<open>The part of an insertion after the growth, on a table with room.\<close>

lemma insert_room_update:
  assumes inv: "ht_inv t" and k: "length k = key_size t" and v: "length v = value_size t"
    and old: "ht_abs t k \<noteq> None"
  defines "t' \<equiv> t\<lparr>nodes := Buckets ((chains_of t)[home t k :=
    overwrite_first t k v (chains_of t ! home t k)])\<rparr>"
  shows "ht_inv t'" and "ht_abs t' = (ht_abs t)(k \<mapsto> v)"
proof -
  note ok = ht_invD(1) [OF inv]
  let ?c = "chains_of t ! home t k"
  have b: "bucket_ok t (home t k) ?c" using chains_okD(6) [OF ok home_less [OF ok]] .
  have b': "bucket_ok t (home t k) (overwrite_first t k v ?c)"
    using b v by (auto simp: bucket_ok_def dest!: overwrite_first_set)
  have f: "find_node t k ?c \<noteq> None" using find_node_home_None [OF ok k] old by simp
  note pairs = overwrite_first_pairs [OF ok k v bucket_keys [OF ok home_less [OF ok]] f]
  show "ht_abs t' = (ht_abs t)(k \<mapsto> v)"
    unfolding t'_def using ht_abs_set_bucket [OF ok k b'] by (simp add: pairs)
  have "stored t' = stored t"
    using stored_set_bucket [OF ok home_less [OF ok], of k "overwrite_first t k v ?c"]
    by (simp add: t'_def)
  with chains_ok_set_bucket [OF ok home_less [OF ok] b'] inv show "ht_inv t'"
    by (simp add: ht_inv_def t'_def)
qed

lemma ht_insert_ok:
  assumes inv: "ht_inv t" and k: "length k = key_size t" and v: "length v = value_size t"
  obtains t' where "ht_insert t k v [] =
      Inr (if ht_abs t k = None then HT_INSERTED else HT_UPDATED, t', [])"
    and "ht_inv t'" and "ht_abs t' = (ht_abs t)(k \<mapsto> v)"
    and "key_size t' = key_size t" and "value_size t' = value_size t"
proof -
  obtain g where g: "and_then (htp_should_grow t) (\<lambda>grow.
      if grow then and_then (htp_adjust_capacity t []) (\<lambda>(_, t, h). Inr (t, h)) else Inr (t, []))
      = Inr (g, [])" "ht_inv g" "ht_size g < ht_capacity g" "ht_abs g = ht_abs t"
    "key_size g = key_size t" "value_size g = value_size t"
    using grow_ok [OF inv] by blast
  note ok = ht_invD(1) [OF g(2)]
  note base = ht_insert_unfold [OF inv, of k v "[]", unfolded g(1)]
  have k': "length k = key_size g" and v': "length v = value_size g" using k v g(5,6) by simp_all
  note f = find_node_home_None [OF ok k']
  show thesis
  proof (cases "ht_abs t k = None")
    case False
    then have old: "ht_abs g k \<noteq> None" by (simp add: g(4))
    let ?u = "g\<lparr>nodes := Buckets ((chains_of g)[home g k :=
      overwrite_first g k v (chains_of g ! home g k)])\<rparr>"
    have "ht_insert t k v [] = Inr (HT_UPDATED, ?u, [])"
      using base f ok old by (simp del: not_None_eq)
    with insert_room_update [OF g(2) k' v' old] False g(4-6) show thesis
      by (intro that [of ?u]) (auto simp del: not_None_eq)
  next
    case True
    define n where "n = \<lparr>node_key = k, node_value = v\<rparr>"
    let ?p = "g\<lparr>nodes := Buckets ((chains_of g)[home g k := n # chains_of g ! home g k])\<rparr>"
    have p: "chains_ok ?p" "stored ?p = Suc (stored g)" "ht_abs ?p = (ht_abs g)(k \<mapsto> v)"
      using push_node [OF ok, of n] k' v' True g(4) by (simp_all add: n_def)
    have "htp_push_front g (home g k) k v [] = Inr (HT_SUCCESS, ?p, [])"
      using ok k' v' by (simp add: htp_push_front_def htp_create_node_def n_def)
    with base f ok True g(4) have "ht_insert t k v [] = Inr (HT_INSERTED, ?p\<lparr>ht_size := ht_size g + 1\<rparr>, [])"
      by (simp add: ht_consts)
    moreover have "ht_inv (?p\<lparr>ht_size := ht_size g + 1\<rparr>)"
      using p(1,2) ht_invD(2) [OF g(2)] g(3) by (simp add: ht_inv_def)
    ultimately show thesis
      using p(3) g(4-6) True
      by (intro that [of "?p\<lparr>ht_size := ht_size g + 1\<rparr>"]) simp_all
  qed
qed

subsection \<open>Deletion\<close>

lemma bucket_ok_filter: "bucket_ok t i c \<Longrightarrow> bucket_ok t i (filter P c)"
  by (auto simp: bucket_ok_def distinct_map_filter)

lemma length_filter_key:
  "distinct (map node_key c) \<Longrightarrow> k \<in> node_key ` set c \<Longrightarrow>
     Suc (length (filter (\<lambda>n. node_key n \<noteq> k) c)) = length c"
proof (induction c)
  case Nil
  then show ?case by simp
next
  case (Cons n c)
  show ?case
  proof (cases "node_key n = k")
    case True
    then have "filter (\<lambda>n. node_key n \<noteq> k) c = c"
      using Cons.prems(1) by (intro filter_True ballI) (metis True distinct.simps(2) image_eqI list.simps(9) list.set_map)
    with True show ?thesis by simp
  next
    case False
    with Cons show ?thesis by auto
  qed
qed

lemma unlink_ok:
  assumes inv: "ht_inv t" and k: "length k = key_size t" and old: "ht_abs t k \<noteq> None"
  defines "t' \<equiv> (t\<lparr>nodes := Buckets ((chains_of t)[home t k :=
    unlink_first t k (chains_of t ! home t k)])\<rparr>)\<lparr>ht_size := ht_size t - 1\<rparr>"
  shows "ht_inv t'" and "ht_abs t' = (ht_abs t)(k := None)" and "dec_size (ht_size t) = ht_size t - 1"
proof -
  note ok = ht_invD(1) [OF inv]
  let ?c = "chains_of t ! home t k"
  have b: "bucket_ok t (home t k) ?c" using chains_okD(6) [OF ok home_less [OF ok]] .
  note u = unlink_first_filter [OF ok k b]
  note b' = bucket_ok_filter [OF b, of "\<lambda>n. node_key n \<noteq> k"]
  show "ht_abs t' = (ht_abs t)(k := None)"
    unfolding t'_def using ht_abs_set_bucket [OF ok k b'] by (simp add: u map_of_filter_key)
  have "k \<in> node_key ` set ?c"
    using old k map_of_pairs_None [of ?c k] by (auto simp: ht_abs_def)
  then have "Suc (length (unlink_first t k ?c)) = length ?c"
    using length_filter_key [of ?c k] b by (simp add: u bucket_ok_def)
  then have "stored t = Suc (stored t')"
    using stored_set_bucket [OF ok home_less [OF ok], of k "unlink_first t k ?c"]
    by (simp add: t'_def)
  with chains_ok_set_bucket [OF ok home_less [OF ok] b'] inv
  show "ht_inv t'" and "dec_size (ht_size t) = ht_size t - 1"
    by (simp_all add: ht_inv_def t'_def u dec_size_def)
qed

lemma shrink_ok:
  assumes "ht_inv t"
  obtains t' where "and_then (htp_should_shrink t) (\<lambda>shrink.
      if shrink then and_then (htp_adjust_capacity t []) (\<lambda>(r, t, h).
        if r = HT_ERROR then Inr (HT_ERROR, t, h) else Inr (HT_SUCCESS, t, h))
      else Inr (HT_SUCCESS, t, [])) = Inr (HT_SUCCESS, t', [])"
    and "ht_inv t'" and "ht_abs t' = ht_abs t"
    and "key_size t' = key_size t" and "value_size t' = value_size t"
proof (cases "ht_size t = 0")
  case True
  note inv = ht_invD [OF assms]
  obtain t' where t': "htp_resize t (ht_size t * HT_GROWTH_FACTOR) [] = Inr (HT_SUCCESS, t', [])"
    "chains_ok t'" "stored t' = stored t" "ht_abs t' = ht_abs t" "key_size t' = key_size t"
    "value_size t' = value_size t" "ht_size t' = ht_size t"
    using htp_resize_ok [OF inv(1)] by blast
  with True inv show thesis
    by (intro that [of t']) (auto simp: htp_should_shrink_def htp_adjust_capacity_def ht_inv_def ht_consts)
next
  case False
  with assms show thesis
    by (intro that [of t]) (auto simp: htp_should_shrink_def ht_inv_def ht_consts)
qed

lemma ht_erase_ok:
  assumes inv: "ht_inv t" and k: "length k = key_size t"
  obtains t' where "ht_erase t k [] = Inr (HT_SUCCESS, t', [])"
    and "ht_inv t'" and "ht_abs t' = (ht_abs t)(k := None)"
    and "key_size t' = key_size t" and "value_size t' = value_size t"
proof -
  note ok = ht_invD(1) [OF inv]
  note f = find_node_home_None [OF ok k]
  show thesis
  proof (cases "ht_abs t k = None")
    case True
    with f ok inv show thesis
      by (intro that [of t]) (auto simp: ht_erase_def ht_consts)
  next
    case False
    define u where "u = (t\<lparr>nodes := Buckets ((chains_of t)[home t k :=
      unlink_first t k (chains_of t ! home t k)])\<rparr>)\<lparr>ht_size := ht_size t - 1\<rparr>"
    note u = unlink_ok [OF inv k False, folded u_def]
    obtain t' where "and_then (htp_should_shrink u) (\<lambda>shrink.
      if shrink then and_then (htp_adjust_capacity u []) (\<lambda>(r, t, h).
        if r = HT_ERROR then Inr (HT_ERROR, t, h) else Inr (HT_SUCCESS, t, h))
      else Inr (HT_SUCCESS, u, [])) = Inr (HT_SUCCESS, t', [])" "ht_inv t'" "ht_abs t' = ht_abs u"
      "key_size t' = key_size u" "value_size t' = value_size u"
      using shrink_ok [OF u(1)] by blast
    moreover have "key_size u = key_size t" "value_size u = value_size t" by (simp_all add: u_def)
    moreover have "ht_erase t k [] = and_then (htp_should_shrink u) (\<lambda>shrink.
      if shrink then and_then (htp_adjust_capacity u []) (\<lambda>(r, t, h).
        if r = HT_ERROR then Inr (HT_ERROR, t, h) else Inr (HT_SUCCESS, t, h))
      else Inr (HT_SUCCESS, u, []))"
      unfolding u_def using f ok False by (simp add: ht_erase_def Let_def u(3) del: not_None_eq cong: if_cong)
    ultimately show thesis using u(2) by (intro that [of t']) simp_all
  qed
qed

subsection \<open>Reserving, clearing and copying\<close>

lemma ht_reserve_ok:
  assumes inv: "ht_inv t"
  shows "\<exists>t'. ht_reserve t m [] = Inr (HT_SUCCESS, t', []) \<and> ht_inv t' \<and> ht_abs t' = ht_abs t
    \<and> m div HT_LOAD_FACTOR \<le> ht_capacity t'"
proof (cases "ht_threshold t < m")
  case True
  note I = ht_invD [OF inv]
  obtain t' where t': "htp_resize t (m div HT_LOAD_FACTOR) [] = Inr (HT_SUCCESS, t', [])"
    "chains_ok t'" "stored t' = stored t" "ht_abs t' = ht_abs t" "ht_size t' = ht_size t"
    "ht_capacity t' = (if HT_MINIMUM_CAPACITY \<le> m div HT_LOAD_FACTOR then m div HT_LOAD_FACTOR
      else HT_MINIMUM_CAPACITY)"
    using htp_resize_ok [OF I(1)] by blast
  have "ht_threshold t = ht_capacity t * 5" using I(1) by (simp add: chains_ok_def ht_consts)
  with True have "ht_capacity t \<le> m div HT_LOAD_FACTOR" by (simp add: ht_consts)
  with t' I True show ?thesis
    by (intro exI [of _ t']) (auto simp: ht_reserve_def ht_inv_def)
next
  case False
  have "ht_threshold t = ht_capacity t * 5"
    using ht_invD(1) [OF inv] by (simp add: chains_ok_def ht_consts)
  with False inv ht_invD [OF inv] show ?thesis
    by (simp add: ht_reserve_def ht_consts)
qed

lemma ht_clear_ok:
  assumes inv: "ht_inv t"
  shows "\<exists>t'. ht_clear t [] = Inr (HT_SUCCESS, t', []) \<and> ht_inv t' \<and> ht_abs t' = Map.empty
    \<and> key_size t' = key_size t \<and> value_size t' = value_size t"
proof -
  let ?t = "t\<lparr>nodes := FreedArray\<rparr>"
  note I = chains_okD [OF ht_invD(1) [OF inv]]
  have n: "nodes t \<noteq> NullArray" using I(1) by simp
  have "ht_destroy t = Inr (HT_SUCCESS, ?t)"
    unfolding ht_destroy_def by (subst I(1)) (simp add: I(2))
  with n have "ht_clear t [] = Inr (HT_SUCCESS, (?t\<lparr>nodes := Buckets (replicate HT_MINIMUM_CAPACITY []),
    ht_capacity := HT_MINIMUM_CAPACITY, ht_threshold := HT_MINIMUM_CAPACITY * HT_LOAD_FACTOR\<rparr>)
      \<lparr>ht_size := 0\<rparr>, [])"
    by (simp add: ht_clear_def htp_allocate_ok)
  with chains_ok_empty [of HT_MINIMUM_CAPACITY ?t] I(4,5) show ?thesis
    by (simp add: ht_inv_def)
qed

lemma copy_chain_ok:
  assumes "nodes t = Buckets ns" and "i < length ns"
    and "\<forall>n \<in> set c. length (node_key n) = key_size t \<and> length (node_value n) = value_size t"
  shows "copy_chain t i c [] = Inr (HT_SUCCESS, t\<lparr>nodes := Buckets (ns[i := rev c @ ns ! i])\<rparr>, [])"
  using assms
proof (induction c arbitrary: t ns)
  case Nil
  then show ?case by simp
next
  case (Cons n c)
  have "htp_push_front t i (node_key n) (node_value n) []
    = Inr (HT_SUCCESS, t\<lparr>nodes := Buckets (ns[i := n # ns ! i])\<rparr>, [])"
    using Cons.prems by (cases n) (simp add: htp_push_front_def get_bucket_def set_bucket_def htp_create_node_def)
  with Cons.IH [of "t\<lparr>nodes := Buckets (ns[i := n # ns ! i])\<rparr>" "ns[i := n # ns ! i]"] Cons.prems
  show ?case by (simp add: ht_consts)
qed

lemma copy_chains_ok:
  assumes "nodes t = Buckets (A @ replicate (length cs) [])"
    and "\<forall>c \<in> set cs. \<forall>n \<in> set c. length (node_key n) = key_size t \<and> length (node_value n) = value_size t"
  shows "copy_chains t (length A) cs [] = Inr (HT_SUCCESS, t\<lparr>nodes := Buckets (A @ map rev cs)\<rparr>, [])"
  using assms
proof (induction cs arbitrary: t A)
  case Nil
  then show ?case by simp
next
  case (Cons c cs)
  have "copy_chain t (length A) c []
    = Inr (HT_SUCCESS, t\<lparr>nodes := Buckets ((A @ [rev c]) @ replicate (length cs) [])\<rparr>, [])"
    using Cons.prems copy_chain_ok [of t "A @ replicate (length (c # cs)) []" "length A" c]
    by (simp add: nth_append list_update_append)
  with Cons.IH [of "t\<lparr>nodes := Buckets ((A @ [rev c]) @ replicate (length cs) [])\<rparr>" "A @ [rev c]"]
    Cons.prems
  show ?case by (simp add: ht_consts)
qed

lemma map_of_rev_pairs:
  "distinct (map node_key c) \<Longrightarrow> map_of (map node_pair (rev c)) = map_of (map node_pair c)"
proof (induction c)
  case Nil
  then show ?case by simp
next
  case (Cons n c)
  then have "node_key n \<notin> dom (map_of (map node_pair c))"
    by (auto simp: dom_map_of_conv_image_fst node_pair_def)
  moreover have "node_pair n = (node_key n, node_value n)" by (simp add: node_pair_def)
  ultimately show ?case
    using map_upd_comm [of "node_key n" "map_of (map node_pair c)" Map.empty "node_value n"] Cons
    by (simp flip: rev_map)
qed

lemma ht_copy_ok:
  assumes inv: "ht_inv t"
  shows "\<exists>t'. ht_copy first t [] = Inr (HT_SUCCESS, t', []) \<and> ht_inv t' \<and> ht_abs t' = ht_abs t
    \<and> key_size t' = key_size t \<and> value_size t' = value_size t"
proof -
  note I = ht_invD [OF inv]
  note C = chains_okD [OF I(1)]
  define e where "e = first\<lparr>nodes := Buckets (replicate (ht_capacity t) []), ht_capacity := ht_capacity t,
    ht_threshold := ht_capacity t * HT_LOAD_FACTOR, key_size := key_size t, value_size := value_size t,
    hash_fn := hash_fn t, compare_fn := compare_fn t, ht_size := ht_size t\<rparr>"
  define t' where "t' = e\<lparr>nodes := Buckets (map rev (chains_of t))\<rparr>"
  have bs: "bucket_ok t i (chains_of t ! i)" if "i < ht_capacity t" for i using C(6) that .
  have "copy_chains e 0 (chains_of t) [] = Inr (HT_SUCCESS, t', [])"
    using copy_chains_ok [of e "[]" "chains_of t"] C(2) concat_in_bucket [OF I(1)]
    by (auto simp: e_def t'_def)
  then have "ht_copy first t [] = Inr (HT_SUCCESS, t', [])"
    unfolding ht_copy_def using I(4)
    by (simp add: htp_allocate_ok C(1,2) ht_consts e_def)
  moreover have h: "home t' k = home t k" for k by (simp add: home_def t'_def e_def)
  have b': "bucket_ok t' i c = bucket_ok t i c" for i c
    unfolding bucket_ok_def h by (simp add: t'_def e_def)
  have ch: "chains_of t' = map rev (chains_of t)" by (simp add: t'_def chains_of_def)
  have "chains_ok t'"
    using I(1) C(2) bs unfolding chains_ok_def b' ch
    by (auto simp: t'_def e_def) (auto simp: bucket_ok_def rev_map [symmetric])
  moreover have "stored t' = stored t" by (simp add: stored_def ch comp_def)
  moreover have "ht_abs t' = ht_abs t"
  proof
    fix k
    have "distinct (map node_key (chains_of t ! home t k))"
      using bs [OF home_less [OF I(1)]] by (simp add: bucket_ok_def)
    then show "ht_abs t' k = ht_abs t k"
      using C(2) home_less [OF I(1), of k]
      by (simp add: ht_abs_def h ch map_of_rev_pairs) (simp add: t'_def e_def)
  qed
  ultimately show ?thesis
    using I by (intro exI [of _ t']) (simp add: ht_inv_def t'_def e_def)
qed

end
