(* ===== verification/HashTable_Contract.thy ===== *)
theory HashTable_Contract
  imports HashTable_Correct
begin

section \<open>What the hash table promises its clients\<close>

text \<open>
  The contract of \<open>util/hashtable.c\<close> stated over the code's own operations: refinement of a
  finite map while memory lasts, and what the table looks like after an allocation failed or
  after two tables were swapped.
\<close>

definition demo_table :: HashTable where
  "demo_table = \<lparr>ht_size = 0, ht_threshold = 0, ht_capacity = 0, key_size = 0, value_size = 0,
     compare_fn = htp_default_compare, hash_fn = htp_default_hash, nodes = NullArray\<rparr>"

definition demo_new :: HashTable where
  "demo_new = fst (snd (ht_setup demo_table 1 1 8 []))"

lemma demo_new_inv: "ht_inv demo_new" "ht_abs demo_new = Map.empty"
  "key_size demo_new = 1" "value_size demo_new = 1"
  using ht_setup_ok [of demo_table 1 1 8] by (auto simp: demo_new_def)

subsection \<open>Refinement of a finite map\<close>

text \<open>C7: on a table that satisfies the invariant and as long as memory lasts, inserting a key
  and a value of the table's sizes succeeds, reports whether the key was new or its value was
  replaced, keeps the invariant, and maps the key to the value and nothing else.\<close>

theorem ht_insert_refines:
  assumes "ht_inv t" and "length k = key_size t" and "length v = value_size t"
  shows "\<exists>t'. ht_insert t k v [] = Inr (if ht_abs t k = None then HT_INSERTED else HT_UPDATED, t', [])
    \<and> ht_inv t' \<and> ht_abs t' = (ht_abs t)(k \<mapsto> v)
    \<and> key_size t' = key_size t \<and> value_size t' = value_size t"
  using ht_insert_ok [OF assms] by metis

lemma ht_insert_refines_witness:
  "\<exists>t'. ht_insert demo_new [5] [7] [] = Inr (HT_INSERTED, t', [])
    \<and> ht_inv t' \<and> ht_abs t' = [[5] \<mapsto> [7]]"
  using ht_insert_refines [of demo_new "[5]" "[7]"] by (auto simp: demo_new_inv)

text \<open>C23: a look-up returns exactly the value the map holds for the key, and \<open>ht_contains\<close> tells
  whether there is one.\<close>

theorem ht_lookup_refines:
  assumes "ht_inv t" and "length k = key_size t"
  shows "ht_lookup t k = Inr (ht_abs t k)
    \<and> ht_contains t k = Inr (if ht_abs t k = None then HT_NOT_FOUND else HT_FOUND)"
  using ht_lookup_ok [of t k] ht_contains_ok [of t k] ht_invD(1) assms by blast

lemma ht_lookup_refines_witness:
  "ht_lookup demo_new [5] = Inr None \<and> ht_contains demo_new [5] = Inr HT_NOT_FOUND"
  using ht_lookup_refines [of demo_new "[5]"] by (simp add: demo_new_inv)

text \<open>C24: as long as memory lasts, erasing a key removes it and nothing else and keeps the
  invariant, also when the table shrinks; the result is the same number whether the key was
  there or not, because \<open>HT_NOT_FOUND\<close> and \<open>HT_SUCCESS\<close> are both 0.\<close>

theorem ht_erase_refines:
  assumes "ht_inv t" and "length k = key_size t"
  shows "\<exists>t'. ht_erase t k [] = Inr (HT_SUCCESS, t', [])
    \<and> ht_inv t' \<and> ht_abs t' = (ht_abs t)(k := None)"
  using ht_erase_ok [OF assms] by metis

lemma ht_erase_refines_witness:
  "\<exists>t'. ht_erase demo_new [5] [] = Inr (HT_SUCCESS, t', []) \<and> ht_inv t' \<and> ht_abs t' = Map.empty"
  using ht_erase_refines [of demo_new "[5]"] by (auto simp: demo_new_inv fun_eq_iff)

text \<open>A copy is a table of its own that satisfies the invariant and holds the same map,
  although the chains of the original are reversed in it; clearing and reserving keep the
  invariant too, clearing empties the map and reserving keeps it.\<close>

theorem ht_copy_clear_reserve:
  assumes "ht_inv t"
  shows "(\<exists>t'. ht_copy first t [] = Inr (HT_SUCCESS, t', []) \<and> ht_inv t' \<and> ht_abs t' = ht_abs t)
    \<and> (\<exists>t'. ht_clear t [] = Inr (HT_SUCCESS, t', []) \<and> ht_inv t' \<and> ht_abs t' = Map.empty)
    \<and> (\<exists>t'. ht_reserve t m [] = Inr (HT_SUCCESS, t', []) \<and> ht_inv t' \<and> ht_abs t' = ht_abs t)"
  using ht_copy_ok [OF assms, of first] ht_clear_ok [OF assms] ht_reserve_ok [OF assms, of m]
  by blast

lemma ht_copy_clear_reserve_witness:
  "\<exists>t'. ht_copy demo_table demo_new [] = Inr (HT_SUCCESS, t', []) \<and> ht_inv t' \<and> ht_abs t' = Map.empty"
  using ht_copy_clear_reserve [of demo_new demo_table 1024] by (simp add: demo_new_inv)

subsection \<open>When memory runs out\<close>

text \<open>
  A node that cannot be allocated: \<open>_ht_push_front\<close> stores the null pointer in the bucket
  before it tests it.
\<close>

lemma ht_insert_oom_room:
  assumes inv: "ht_inv t" and k: "length k = key_size t" and room: "ht_size t < ht_capacity t"
    and new: "ht_abs t k = None"
  defines "t' \<equiv> t\<lparr>nodes := Buckets ((chains_of t)[home t k := []])\<rparr>"
  shows "ht_insert t k v (False # h) = Inr (HT_ERROR, t', h)"
    and "ht_abs t' = (\<lambda>k'. if home t k' = home t k then None else ht_abs t k')"
    and "ht_size t' = ht_size t"
    and "stored t' + length (chains_of t ! home t k) = stored t"
proof -
  note ok = ht_invD(1) [OF inv]
  have f: "find_node t k (chains_of t ! home t k) = None" using find_node_home_None [OF ok k] new by simp
  show "ht_insert t k v (False # h) = Inr (HT_ERROR, t', h)"
    unfolding ht_insert_unfold [OF inv] using ok room f
    by (simp add: htp_should_grow_def htp_push_front_def htp_create_node_def malloc_def t'_def)
  show "ht_abs t' = (\<lambda>k'. if home t k' = home t k then None else ht_abs t k')"
    using chains_okD(2) [OF ok] home_less [OF ok]
    by (auto simp: t'_def ht_abs_def fun_eq_iff nth_list_update)
  show "ht_size t' = ht_size t" by (simp add: t'_def)
  show "stored t' + length (chains_of t ! home t k) = stored t"
    using stored_set_bucket [OF ok home_less [OF ok], of k "[]"] by (simp add: t'_def)
qed

text \<open>An insertion of a new key whose node cannot be allocated does not only report
  \<open>HT_ERROR\<close>: it loses every key of the bucket, and the stored size still counts them, so that
  the invariant is lost whenever the bucket held a node.\<close>

theorem ht_insert_oom_loses_bucket:
  assumes "ht_inv t" and "length k = key_size t" and "ht_size t < ht_capacity t"
    and "ht_abs t k = None"
  shows "\<exists>t'. ht_insert t k v (False # h) = Inr (HT_ERROR, t', h)
    \<and> ht_abs t' = (\<lambda>k'. if home t k' = home t k then None else ht_abs t k')
    \<and> (chains_of t ! home t k \<noteq> [] \<longrightarrow> \<not> ht_inv t')"
proof (intro exI conjI impI)
  let ?t' = "t\<lparr>nodes := Buckets ((chains_of t)[home t k := []])\<rparr>"
  note oom = ht_insert_oom_room [OF assms]
  show "ht_insert t k v (False # h) = Inr (HT_ERROR, ?t', h)" by (rule oom(1))
  show "ht_abs ?t' = (\<lambda>k'. if home t k' = home t k then None else ht_abs t k')" by (rule oom(2))
  assume "chains_of t ! home t k \<noteq> []"
  with oom(3,4) ht_invD(2) [OF assms(1)] show "\<not> ht_inv ?t'" by (auto simp: ht_inv_def)
qed

lemma demo_new_capacity: "ht_size demo_new = 0" "ht_capacity demo_new = 8"
  by (simp_all add: demo_new_def ht_setup_def htp_allocate_ok ht_consts)

lemma ht_insert_oom_loses_bucket_witness:
  "\<exists>t'. ht_insert demo_new [5] [7] [False] = Inr (HT_ERROR, t', []) \<and> ht_abs t' = Map.empty"
  using ht_insert_oom_loses_bucket [of demo_new "[5]" "[7]" "[]"]
  by (auto simp: demo_new_inv demo_new_capacity cong: if_cong)

text \<open>when a full table cannot grow, \<open>ht_insert\<close> ignores the failure of
  \<open>_ht_adjust_capacity\<close>, whose \<open>_ht_allocate\<close> has already set the node array to null, and
  the insertion reads through the null pointer.\<close>

theorem ht_insert_full_oom_crashes:
  assumes "ht_inv t" and "ht_size t = ht_capacity t"
  shows "ht_insert t k v (False # h) = Inl OutOfBounds"
proof -
  note I = ht_invD [OF assms(1)]
  have "HT_MINIMUM_CAPACITY \<le> ht_capacity t" using I(1) by (simp add: chains_ok_def)
  then have "htp_adjust_capacity t (False # h) = Inr (HT_ERROR, t\<lparr>nodes := NullArray\<rparr>, h)"
    using assms(2)
    by (simp add: htp_adjust_capacity_def htp_resize_def htp_allocate_def malloc_def ht_consts)
  moreover have "0 < ht_capacity t" using chains_okD(3) I(1) by blast
  ultimately show ?thesis
    unfolding ht_insert_unfold [OF assms(1)] using assms(2)
    by (simp add: htp_should_grow_def htp_hash_def get_bucket_def)
qed

definition demo_full :: HashTable where
  "demo_full = demo_table\<lparr>ht_size := 8, ht_threshold := 40, ht_capacity := 8, key_size := 1, value_size := 1,
     nodes := Buckets (map (\<lambda>b. [\<lparr>node_key = [b], node_value = [0]\<rparr>]) [5, 4, 7, 6, 1, 0, 3, 2])\<rparr>"

lemma demo_full_inv: "ht_inv demo_full"
proof -
  have hash: "htp_default_hash [b] 1 = 177573 XOR scast b" for b
    by (simp add: htp_default_hash_def)
  have "bucket_ok demo_full i (chains_of demo_full ! i)" if "i < 8" for i
  proof -
    from that consider "i = 0" | "i = 1" | "i = 2" | "i = 3" | "i = 4" | "i = 5" | "i = 6" | "i = 7"
      by linarith
    then show ?thesis
      by cases (simp_all add: demo_full_def demo_table_def chains_of_def bucket_ok_def home_def hash [simplified])
  qed
  then show ?thesis
    by (simp add: ht_inv_def chains_ok_def ht_consts)
      (simp add: demo_full_def demo_table_def stored_def chains_of_def)
qed

lemma ht_insert_full_oom_crashes_witness: "ht_insert demo_full [9] [0] [False] = Inl OutOfBounds"
  by (rule ht_insert_full_oom_crashes [OF demo_full_inv]) (simp add: demo_full_def)

subsection \<open>Swapping\<close>

lemma swapped_ok:
  assumes "ht_inv b" and "ht_capacity a = ht_capacity b" and "ht_threshold a = ht_threshold b"
    and "key_size a = key_size b" and "value_size a = value_size b" and "ht_size a = ht_size b"
    and "hash_fn a = hash_fn b" and "compare_fn a = compare_fn b" and "nodes a = nodes b"
  shows "ht_inv a" and "ht_abs a = ht_abs b"
proof -
  have "a = b" using assms(2-) by simp
  with assms(1) show "ht_inv a" "ht_abs a = ht_abs b" by simp_all
qed

text \<open>Swapping two sound tables leaves two sound tables exactly when their capacities agree;
  then the maps are exchanged, and otherwise, because the swap leaves out the \<open>capacity\<close>
  field, neither table has the number of buckets that its capacity says.\<close>

theorem ht_swap_capacity:
  assumes "ht_inv a" and "ht_inv b"
  shows "\<exists>a' b'. ht_swap a b = Inr (HT_SUCCESS, a', b')
    \<and> (ht_inv a' \<and> ht_inv b' \<longleftrightarrow> ht_capacity a = ht_capacity b)
    \<and> (ht_capacity a = ht_capacity b \<longrightarrow> ht_abs a' = ht_abs b \<and> ht_abs b' = ht_abs a)
    \<and> length (chains_of a') = ht_capacity b \<and> length (chains_of b') = ht_capacity a"
proof -
  define a' where "a' = a\<lparr>key_size := key_size b, value_size := value_size b, ht_size := ht_size b,
    hash_fn := hash_fn b, compare_fn := compare_fn b, nodes := nodes b\<rparr>"
  define b' where "b' = b\<lparr>key_size := key_size a, value_size := value_size a, ht_size := ht_size a,
    hash_fn := hash_fn a, compare_fn := compare_fn a, nodes := nodes a\<rparr>"
  note A = ht_invD [OF assms(1)] and B = ht_invD [OF assms(2)]
  have swap: "ht_swap a b = Inr (HT_SUCCESS, a', b')"
    using A(4) B(4) by (simp add: ht_swap_def a'_def b'_def)
  have len: "length (chains_of a') = ht_capacity b" "length (chains_of b') = ht_capacity a"
    using chains_okD(1,2) [OF A(1)] chains_okD(1,2) [OF B(1)]
    by (simp_all add: a'_def b'_def chains_of_def)
  have same: "ht_inv a' \<and> ht_inv b' \<and> ht_abs a' = ht_abs b \<and> ht_abs b' = ht_abs a"
    if "ht_capacity a = ht_capacity b"
  proof -
    have "ht_threshold a = ht_threshold b" using A(1) B(1) that by (simp add: chains_ok_def)
    with that show ?thesis
      using swapped_ok [OF assms(1), of b'] swapped_ok [OF assms(2), of a'] by (simp add: a'_def b'_def)
  qed
  have "ht_capacity a = ht_capacity b" if "ht_inv a'"
    using chains_okD(2) [OF ht_invD(1) [OF that]] len(1) by (simp add: a'_def)
  with same swap len show ?thesis by blast
qed

lemma ht_swap_capacity_witness:
  "\<exists>a' b'. ht_swap demo_new demo_full = Inr (HT_SUCCESS, a', b') \<and> ht_inv a' \<and> ht_inv b'"
  using ht_swap_capacity [OF demo_new_inv(1) demo_full_inv] demo_new_capacity
  by (auto simp: demo_full_def)

subsection \<open>The table of uuids\<close>

text \<open>
  The global OS stores C \<open>int\<close>s: four bytes, least significant first.  The interface it uses is
  stated as a locale, whose laws the table discharges.
\<close>

definition int_bytes :: "int \<Rightarrow> byte list" where
  "int_bytes i = [word_of_int i, word_of_int (i div 256), word_of_int (i div 65536),
                  word_of_int (i div 16777216)]"

definition bytes_int :: "byte list \<Rightarrow> int" where
  "bytes_int bs = wrap32 (foldr (\<lambda>b n. uint b + 256 * n) bs 0)"

lemma length_int_bytes [simp]: "length (int_bytes i) = 4"
  by (simp add: int_bytes_def)

lemma uint_byte: "uint (word_of_int i :: byte) = i mod 256"
  by (simp add: uint_word_of_int)

lemma four_digits:
  "x = 256 * y + a \<Longrightarrow> y = 256 * z + b \<Longrightarrow> z = 256 * w + c \<Longrightarrow>
     a + 256 * (b + 256 * (c + 256 * w)) = (x :: int)"
  by simp

lemma bytes_int_bytes [simp]:
  assumes "c_int i" shows "bytes_int (int_bytes i) = i"
proof -
  have "foldr (\<lambda>b n. uint b + 256 * n) (int_bytes i) 0
    = i mod 256 + 256 * ((i div 256) mod 256 + 256 * ((i div 65536) mod 256 + 256 * ((i div 16777216) mod 256)))"
    by (simp add: int_bytes_def uint_byte)
  also have "\<dots> = i mod 4294967296"
  proof -
    have "i mod 4294967296 = 256 * (i div 256 mod 16777216) + i mod 256"
      using zmod_zmult2_eq [of 16777216 i 256] by simp
    moreover have "i div 256 mod 16777216 = 256 * (i div 65536 mod 65536) + i div 256 mod 256"
      using zmod_zmult2_eq [of 65536 "i div 256" 256] by (simp add: zdiv_zmult2_eq [of 256 i 256, simplified])
    moreover have "i div 65536 mod 65536 = 256 * (i div 16777216 mod 256) + i div 65536 mod 256"
      using zmod_zmult2_eq [of 256 "i div 65536" 256] by (simp add: zdiv_zmult2_eq [of 256 i 65536, simplified])
    ultimately show ?thesis by (rule four_digits)
  qed
  finally have "bytes_int (int_bytes i) = wrap32 (i mod 4294967296)" by (simp add: bytes_int_def)
  also have "\<dots> = wrap32 i" by (simp add: wrap32_def mod_add_left_eq)
  finally show ?thesis using assms by (simp add: wrap32_id)
qed

lemma int_bytes_inj: "c_int i \<Longrightarrow> c_int j \<Longrightarrow> int_bytes i = int_bytes j \<longleftrightarrow> i = j"
  using bytes_int_bytes by metis

text \<open>\<open>ht_insert\<close> and the \<open>ht_contains\<close>/\<open>ht_lookup\<close> pair of \<open>local_fifo_connect\<close>, on \<open>int\<close>s.\<close>

definition uuid_insert :: "HashTable \<Rightarrow> int \<Rightarrow> int \<Rightarrow> heap \<Rightarrow> (int \<times> HashTable \<times> heap) run" where
  "uuid_insert t k v h = ht_insert t (int_bytes k) (int_bytes v) h"

definition uuid_find :: "HashTable \<Rightarrow> int \<Rightarrow> int option run" where
  "uuid_find t k = and_then (ht_contains t (int_bytes k)) (\<lambda>found.
     if found = 0 then Inr None
     else and_then (ht_lookup t (int_bytes k)) (\<lambda>p.
       case p of None \<Rightarrow> Inl OutOfBounds | Some v \<Rightarrow> Inr (Some (bytes_int v))))"

definition uuid_inv :: "HashTable \<Rightarrow> bool" where
  "uuid_inv t \<longleftrightarrow> ht_inv t \<and> key_size t = 4 \<and> value_size t = 4"

definition uuid_abs :: "HashTable \<Rightarrow> int \<Rightarrow> int option" where
  "uuid_abs t k = map_option bytes_int (ht_abs t (int_bytes k))"

text \<open>A sequence of insertions.\<close>

fun put_all :: "('s \<Rightarrow> int \<Rightarrow> int \<Rightarrow> 's run) \<Rightarrow> 's \<Rightarrow> (int \<times> int) list \<Rightarrow> 's run" where
  "put_all put s [] = Inr s"
| "put_all put s ((k, v) # kvs) = and_then (put s k v) (\<lambda>s. put_all put s kvs)"

locale int_map =
  fixes inv :: "'s \<Rightarrow> bool" and abs :: "'s \<Rightarrow> int \<Rightarrow> int option"
    and put :: "'s \<Rightarrow> int \<Rightarrow> int \<Rightarrow> 's run" and get :: "'s \<Rightarrow> int \<Rightarrow> int option run"
  assumes get_law: "inv s \<Longrightarrow> get s k = Inr (abs s k)"
    and put_law: "inv s \<Longrightarrow> c_int k \<Longrightarrow> c_int v \<Longrightarrow>
      \<exists>s'. put s k v = Inr s' \<and> inv s' \<and> (\<forall>j. c_int j \<longrightarrow> abs s' j = ((abs s)(k \<mapsto> v)) j)"
begin

lemma get_after_put:
  assumes "inv s" and "c_int k" and "c_int v" and "c_int j"
  shows "and_then (put s k v) (\<lambda>s. get s j) = Inr (if j = k then Some v else abs s j)"
  using put_law [OF assms(1-3)] get_law assms(4) by fastforce

lemma put_all_ok:
  assumes "inv s" and "\<forall>(k, v) \<in> set kvs. c_int k \<and> c_int v"
  shows "\<exists>s'. put_all put s kvs = Inr s' \<and> inv s'
    \<and> (\<forall>j. c_int j \<longrightarrow> abs s' j = (abs s ++ map_of (rev kvs)) j)"
  using assms
proof (induction kvs arbitrary: s)
  case Nil
  then show ?case by simp
next
  case (Cons kv kvs)
  obtain k v where kv: "kv = (k, v)" by (cases kv)
  with Cons.prems obtain s1 where s1: "put s k v = Inr s1" "inv s1"
    "\<forall>j. c_int j \<longrightarrow> abs s1 j = ((abs s)(k \<mapsto> v)) j"
    using put_law [of s k v] by auto
  with Cons.IH [of s1] Cons.prems(2) kv obtain s' where s': "put_all put s1 kvs = Inr s'" "inv s'"
    "\<forall>j. c_int j \<longrightarrow> abs s' j = (abs s1 ++ map_of (rev kvs)) j" by auto
  with s1 kv show ?case
    by (intro exI [of _ s']) (auto simp: map_add_def split: option.splits)
qed

end

lemma uuid_insert_ok:
  assumes "uuid_inv t" and "c_int k" and "c_int v"
  obtains t' r where "uuid_insert t k v [] = Inr (r, t', [])" and "uuid_inv t'"
    and "\<And>j. c_int j \<Longrightarrow> uuid_abs t' j = ((uuid_abs t)(k \<mapsto> v)) j"
proof -
  obtain t' where "ht_insert t (int_bytes k) (int_bytes v) [] =
      Inr (if ht_abs t (int_bytes k) = None then HT_INSERTED else HT_UPDATED, t', [])"
    "ht_inv t'" "ht_abs t' = (ht_abs t)(int_bytes k \<mapsto> int_bytes v)"
    "key_size t' = key_size t" "value_size t' = value_size t"
    using ht_insert_ok [of t "int_bytes k" "int_bytes v"] assms(1) by (auto simp: uuid_inv_def)
  then show thesis
    using assms
    by (intro that [of _ t']) (auto simp: uuid_insert_def uuid_inv_def uuid_abs_def int_bytes_inj)
qed

lemma uuid_find_ok: "uuid_inv t \<Longrightarrow> uuid_find t k = Inr (uuid_abs t k)"
  using ht_contains_ok [of t "int_bytes k"] ht_lookup_ok [of t "int_bytes k"] ht_invD(1) [of t]
  by (auto simp: uuid_find_def uuid_inv_def uuid_abs_def ht_consts)

text \<open>An insertion of the global OS, which ignores the result code, while memory lasts.\<close>

definition uuid_put :: "HashTable \<Rightarrow> int \<Rightarrow> int \<Rightarrow> HashTable run" where
  "uuid_put t k v = and_then (uuid_insert t k v []) (\<lambda>(_, t, _). Inr t)"

interpretation uuids: int_map uuid_inv uuid_abs uuid_put uuid_find
proof
  fix t k assume "uuid_inv t"
  then show "uuid_find t k = Inr (uuid_abs t k)" by (rule uuid_find_ok)
next
  fix t k v assume "uuid_inv t" "c_int k" "c_int v"
  then obtain t' r where "uuid_insert t k v [] = Inr (r, t', [])" and "uuid_inv t'"
    and u: "\<And>j. c_int j \<Longrightarrow> uuid_abs t' j = ((uuid_abs t)(k \<mapsto> v)) j"
    using uuid_insert_ok by blast
  from \<open>uuid_insert t k v [] = _\<close>
  have "uuid_put t k v = Inr t'" by (simp add: uuid_put_def)
  then show "\<exists>t'. uuid_put t k v = Inr t' \<and> uuid_inv t'
    \<and> (\<forall>j. c_int j \<longrightarrow> uuid_abs t' j = ((uuid_abs t)(k \<mapsto> v)) j)"
    using \<open>uuid_inv t'\<close> u by blast
qed

text \<open>C37: the uuid table of the global OS behaves as a map from C ints to C ints: after any
  sequence of insertions a look-up finds the value inserted last under the uuid, and nothing when
  there is none.\<close>

theorem uuid_table_is_map:
  assumes "uuid_inv t" and "\<forall>(k, v) \<in> set kvs. c_int k \<and> c_int v" and "c_int j"
  shows "and_then (put_all uuid_put t kvs) (\<lambda>t. uuid_find t j) = Inr ((uuid_abs t ++ map_of (rev kvs)) j)"
  using uuids.put_all_ok [OF assms(1,2)] assms(3) by (auto simp: uuids.get_law)

definition demo_uuids :: HashTable where
  "demo_uuids = fst (snd (ht_setup demo_table 4 4 10240 []))"

lemma demo_uuids_inv: "uuid_inv demo_uuids" "uuid_abs demo_uuids = Map.empty"
  using ht_setup_ok [of demo_table 4 4 10240]
  by (auto simp: demo_uuids_def uuid_inv_def uuid_abs_def fun_eq_iff)

lemma uuid_table_is_map_witness:
  "and_then (put_all uuid_put demo_uuids [(7, 1), (-3, 2), (7, 4)]) (\<lambda>t. uuid_find t 7) = Inr (Some 4)"
  using uuid_table_is_map [of demo_uuids "[(7, 1), (-3, 2), (7, 4)]" 7]
  by (simp add: demo_uuids_inv c_int_def INT_MAX_def INT_MIN_def)

end
