(* ===== verification/GlobalOS.thy ===== *)
theory GlobalOS
  imports Protocol FifoIPC HashTable_Contract
begin

section \<open>The global OS\<close>

text \<open>
  \<open>global_syscall.c\<close> and \<open>include/global_syscall.h\<close>: the tables of global processes and
  global FIFOs of one PU, the syscall handlers, the dispatcher and the service loop.  The state
  is one record, the static variables of the file under their own names; \<open>segs\<close> holds the
  contents of the shared-memory segments and \<open>kern\<close> the state of the operating system.  The
  flag \<open>SMARTC\<close>, the operating system, the DSM call to another PU and what the stack holds in
  the uninitialised vectors of \<open>syscall_gspawn\<close> are fields of the environment record.
\<close>

definition MAXLEN :: nat where "MAXLEN = 1024"
definition GLOBAL_PROCESS_LIST_SIZE :: int where "GLOBAL_PROCESS_LIST_SIZE = 4096"
definition LOCAL_FIFO_LIST_SIZE :: int where "LOCAL_FIFO_LIST_SIZE = 512"
definition GLOBAL_FIFO_LIST_SIZE :: int where "GLOBAL_FIFO_LIST_SIZE = 4096"
definition MAX_GSPAWN_ARGS_LEN :: nat where "MAX_GSPAWN_ARGS_LEN = 8"
definition EFIFOLOCAL :: int where "EFIFOLOCAL = 205"

lemmas gos_consts = MAXLEN_def GLOBAL_PROCESS_LIST_SIZE_def LOCAL_FIFO_LIST_SIZE_def
  GLOBAL_FIFO_LIST_SIZE_def MAX_GSPAWN_ARGS_LEN_def EFIFOLOCAL_def

subsection \<open>State\<close>

record perm_container =
  perm :: int
  container_id :: int

record global_fifo =
  gf_pu_id :: int
  gf_owner_pid :: int
  gf_local_uuid :: int
  gf_global_id :: int
  gf_global_uuid :: int
  gf_perms :: perm_container

text \<open>\<open>gp_shm\<close> is \<open>None\<close> when the pointer is null or \<open>(void *) -1\<close>: neither can be
  accessed, and the test \<open>shared_memory < (char *)0\<close> is true of neither.\<close>

record global_process =
  gp_pu_id :: int
  gp_local_pid :: int
  gp_global_pid :: int
  gp_shm :: "int option"

record 'k gos =
  global_process_list :: "global_process list"
  global_process_now :: int
  global_fifo_list :: "global_fifo list"
  global_fifo_now :: int
  fifo_guuid_table :: HashTable
  current_pu_id :: int
  global_os_port :: int
  segs :: "int \<Rightarrow> string"
  gheap :: heap
  kern :: 'k

record 'k env =
  e_os :: "'k posix"
  e_smartc :: bool
  e_dsm_call :: "string \<Rightarrow> int \<Rightarrow> 'k \<Rightarrow> (int \<times> 'k) run"
  e_argv :: "string option list"
  e_envp :: "string option list"

definition no_perms :: perm_container where
  "no_perms = \<lparr>perm = 0, container_id = 0\<rparr>"

text \<open>The static variables before \<open>main\<close> runs.\<close>

definition zero_table :: HashTable where
  "zero_table = \<lparr>ht_size = 0, ht_threshold = 0, ht_capacity = 0, key_size = 0, value_size = 0,
     compare_fn = htp_default_compare, hash_fn = htp_default_hash, nodes = NullArray\<rparr>"

definition gos_static :: "(int \<Rightarrow> string) \<Rightarrow> heap \<Rightarrow> 'k \<Rightarrow> 'k gos" where
  "gos_static mem h k = \<lparr>
     global_process_list = replicate 4096 \<lparr>gp_pu_id = 0, gp_local_pid = 0, gp_global_pid = 0, gp_shm = None\<rparr>,
     global_process_now = 0,
     global_fifo_list = replicate 4096 \<lparr>gf_pu_id = 0, gf_owner_pid = 0, gf_local_uuid = 0,
       gf_global_id = 0, gf_global_uuid = 0, gf_perms = no_perms\<rparr>,
     global_fifo_now = 0, fifo_guuid_table = zero_table, current_pu_id = -1, global_os_port = -1,
     segs = mem, gheap = h, kern = k\<rparr>"

subsection \<open>Initialisation\<close>

text \<open>The results of \<open>ht_setup\<close> and \<open>ht_reserve\<close> are ignored.\<close>

definition global_os_init :: "int \<Rightarrow> int \<Rightarrow> 'k gos \<Rightarrow> (int \<times> 'k gos) run" where
  "global_os_init pu_id os_port g =
     (let g = g\<lparr>global_process_list := map (\<lambda>i. \<lparr>gp_pu_id = -1, gp_local_pid = -1,
                  gp_global_pid = int i, gp_shm = None\<rparr>) [0..<nat GLOBAL_PROCESS_LIST_SIZE]\<rparr>;
          g = g\<lparr>global_fifo_list := map (\<lambda>f. f\<lparr>gf_pu_id := -1, gf_global_uuid := -1\<rparr>) (global_fifo_list g)\<rparr>;
          (_, t, h) = ht_setup (fifo_guuid_table g) 4 4 10240 (gheap g)
      in and_then (ht_reserve t 1024 h) (\<lambda>(_, t, h).
         let g = g\<lparr>fifo_guuid_table := t, gheap := h, current_pu_id := pu_id,
                   global_os_port := wrap32 (os_port + pu_id)\<rparr>;
             g = g\<lparr>global_fifo_now := wrap32 (current_pu_id g * LOCAL_FIFO_LIST_SIZE)\<rparr>
         in Inr (0, g)))"

definition get_current_pu_id :: "'k gos \<Rightarrow> int" where
  "get_current_pu_id g = current_pu_id g"

subsection \<open>Bounds and locality\<close>

definition check_global_fifo_bound :: "int \<Rightarrow> int run" where
  "check_global_fifo_bound global_fifo =
     (if global_fifo \<ge> 0 \<and> global_fifo < GLOBAL_FIFO_LIST_SIZE then Inr 0 else Inl Exit)"

definition is_global_fifo_local :: "'k gos \<Rightarrow> int \<Rightarrow> bool run" where
  "is_global_fifo_local g global_fifo =
     and_then (check_global_fifo_bound global_fifo) (\<lambda>_.
       if global_fifo < wrap32 (current_pu_id g * LOCAL_FIFO_LIST_SIZE) then Inr False
       else if global_fifo \<ge> wrap32 ((current_pu_id g + 1) * LOCAL_FIFO_LIST_SIZE) then Inr False
       else and_then (at (global_fifo_list g) global_fifo) (\<lambda>f. Inr (gf_pu_id f = current_pu_id g)))"

subsection \<open>Global processes\<close>

definition shm_path :: "int \<Rightarrow> string" where
  "shm_path shm_uuid = sprintf ''/tmp/fifo_dir/shm-%d'' [CInt shm_uuid]"

definition set_process :: "'k gos \<Rightarrow> int \<Rightarrow> (global_process \<Rightarrow> global_process) \<Rightarrow> 'k gos run" where
  "set_process g i f = and_then (at (global_process_list g) i) (\<lambda>p.
     and_then (put_at (global_process_list g) i (f p)) (\<lambda>ps. Inr (g\<lparr>global_process_list := ps\<rparr>)))"

definition syscall_register_global :: "'k env \<Rightarrow> int \<Rightarrow> 'k gos \<Rightarrow> (int \<times> 'k gos) run" where
  "syscall_register_global e local_pid g =
     (let g = g\<lparr>global_process_now := c_rem (global_process_now g + 1) GLOBAL_PROCESS_LIST_SIZE\<rparr>;
          now = global_process_now g
      in and_then (at (global_process_list g) now) (\<lambda>p.
        if gp_local_pid p < 0 then
          and_then (set_process g now (\<lambda>p. p\<lparr>gp_pu_id := current_pu_id g, gp_local_pid := local_pid,
              gp_global_pid := now\<rparr>)) (\<lambda>g.
          and_then (into_buffer 256 (shm_path now)) (\<lambda>path.
          let (opened, k) = px_touch (e_os e) path (kern g); g = g\<lparr>kern := k\<rparr> in
          if \<not> opened then
            and_then (set_process g now (\<lambda>p. p\<lparr>gp_local_pid := -1\<rparr>)) (\<lambda>g. Inr (-1, g))
          else
            let key = px_ftok (e_os e) path (kern g);
                (segment_id, k) = px_shmget (e_os e) key True (kern g); g = g\<lparr>kern := k\<rparr> in
            if segment_id < 0 then Inl Exit
            else let (shm, k) = px_shmat (e_os e) segment_id (kern g); g = g\<lparr>kern := k\<rparr> in
              and_then (set_process g now (\<lambda>p. p\<lparr>gp_shm := shm\<rparr>)) (\<lambda>g. Inr (now, g))))
        else Inr (-1, g)))"

subsection \<open>Global FIFOs\<close>

definition syscall_fifo_init :: "int \<Rightarrow> int \<Rightarrow> int \<Rightarrow> 'k gos \<Rightarrow> (int \<times> 'k gos) run" where
  "syscall_fifo_init local_uuid owner_pid global_uuid g =
     (let g = g\<lparr>global_fifo_now := c_rem (global_fifo_now g + 1) GLOBAL_FIFO_LIST_SIZE\<rparr>;
          now = global_fifo_now g
      in and_then (at (global_fifo_list g) now) (\<lambda>f.
        if gf_pu_id f = -1 then
          and_then (put_at (global_fifo_list g) now
            \<lparr>gf_pu_id = current_pu_id g, gf_owner_pid = owner_pid, gf_local_uuid = local_uuid,
             gf_global_id = now, gf_global_uuid = global_uuid,
             gf_perms = \<lparr>perm = 0x3, container_id = owner_pid\<rparr>\<rparr>) (\<lambda>fs.
          let g = g\<lparr>global_fifo_list := fs\<rparr> in
          if global_uuid \<noteq> -1
          then and_then (uuid_insert (fifo_guuid_table g) global_uuid now (gheap g)) (\<lambda>(_, t, h).
                 Inr (now, g\<lparr>fifo_guuid_table := t, gheap := h\<rparr>))
          else Inr (now, g))
        else Inr (-1, g)))"

definition syscall_fifo_close :: "int \<Rightarrow> 'k gos \<Rightarrow> (int \<times> 'k gos) run" where
  "syscall_fifo_close global_fifo g = Inr (0, g)"

definition local_fifo_connect :: "'k gos \<Rightarrow> int \<Rightarrow> int run" where
  "local_fifo_connect g global_uuid =
     and_then (uuid_find (fifo_guuid_table g) global_uuid) (\<lambda>r.
       case r of Some global_fifo \<Rightarrow> Inr global_fifo | None \<Rightarrow> Inr (-1))"

definition syscall_fifo_connect :: "'k env \<Rightarrow> int \<Rightarrow> int \<Rightarrow> 'k gos \<Rightarrow> (int \<times> 'k gos) run" where
  "syscall_fifo_connect e global_uuid owner_pid g =
     and_then (uuid_find (fifo_guuid_table g) global_uuid) (\<lambda>r.
       case r of Some global_fifo \<Rightarrow> Inr (global_fifo, g)
       | None \<Rightarrow>
         if e_smartc e then
           and_then (into_buffer 256 (format_dsm_request 0 ''FIFOCONNECT'' global_uuid 0 0 0 0)) (\<lambda>buffer.
           and_then (e_dsm_call e (buffer @ [NUL]) 256 (kern g)) (\<lambda>(ret, k).
             let g = g\<lparr>kern := k\<rparr> in
             if ret > 0
             then and_then (uuid_insert (fifo_guuid_table g) global_uuid ret (gheap g)) (\<lambda>(_, t, h).
                    Inr (ret, g\<lparr>fifo_guuid_table := t, gheap := h\<rparr>))
             else Inr (ret, g)))
         else Inr (-1, g))"

definition syscall_fifo_read :: "'k env \<Rightarrow> int \<Rightarrow> int \<Rightarrow> int \<Rightarrow> 'k gos \<Rightarrow> (int \<times> 'k gos) run" where
  "syscall_fifo_read e global_fifo shmid len g =
     (if e_smartc e then
        and_then (is_global_fifo_local g global_fifo) (\<lambda>local.
          if \<not> local then Inr (-1, g) else Inr (- EFIFOLOCAL, g))
      else Inr (- EFIFOLOCAL, g))"

definition read_remote_fifo :: "int \<Rightarrow> string \<Rightarrow> int \<Rightarrow> 'k gos \<Rightarrow> (int \<times> 'k gos) run" where
  "read_remote_fifo global_fifo shared_memory len g = Inr (0, g)"

text \<open>A negative \<open>length\<close> is a huge \<open>size_t\<close> for \<open>memcpy\<close>.\<close>

definition write_remote_fifo :: "'k env \<Rightarrow> int \<Rightarrow> string \<Rightarrow> int \<Rightarrow> 'k gos \<Rightarrow> (int \<times> 'k gos) run" where
  "write_remote_fifo e global_fifo shared_memory len g =
     and_then (into_buffer 4096 (format_dsm_request 0 ''WRITEFIFO'' global_fifo 0 0 0 len)) (\<lambda>buffer.
       let ret = int (length buffer) in
       if \<not> ret + len < 4096 then Inl AssertFail
       else if len < 0 \<or> int (length shared_memory) < len then Inl OutOfBounds
       else and_then (e_dsm_call e (buffer @ take (nat len) shared_memory @ [NUL]) (ret + len + 1) (kern g))
         (\<lambda>(_, k). Inr (0, g\<lparr>kern := k\<rparr>)))"

definition write_local_fifo :: "'k env \<Rightarrow> int \<Rightarrow> string \<Rightarrow> int \<Rightarrow> 'k gos \<Rightarrow> (int \<times> 'k gos) run" where
  "write_local_fifo e global_fifo shared_memory len g =
     and_then (at (global_fifo_list g) global_fifo) (\<lambda>f.
     and_then (fifo_connect (e_os e) (gf_local_uuid f) (kern g)) (\<lambda>(local_fifo, k).
     and_then (fifo_write (e_os e) local_fifo shared_memory len k) (\<lambda>(ret, k).
       Inr (ret, g\<lparr>kern := fifo_close (e_os e) local_fifo k\<rparr>))))"

text \<open>The shared memory of a process, as the handlers reach it.\<close>

definition process_segment :: "'k gos \<Rightarrow> int \<Rightarrow> int run" where
  "process_segment g shmid = and_then (at (global_process_list g) shmid) (\<lambda>p.
     case gp_shm p of None \<Rightarrow> Inl OutOfBounds | Some s \<Rightarrow> Inr s)"

definition syscall_fifo_write :: "'k env \<Rightarrow> int \<Rightarrow> int \<Rightarrow> int \<Rightarrow> 'k gos \<Rightarrow> (int \<times> 'k gos) run" where
  "syscall_fifo_write e global_fifo shmid len g =
     and_then (process_segment g shmid) (\<lambda>s.
     and_then (put_at (segs g s) len NUL) (\<lambda>shared_memory.
       let g = g\<lparr>segs := (segs g)(s := shared_memory)\<rparr> in
       and_then (if e_smartc e then is_global_fifo_local g global_fifo else Inr True) (\<lambda>local.
         if \<not> local then write_remote_fifo e global_fifo shared_memory len g
         else and_then (write_local_fifo e global_fifo shared_memory len g) (\<lambda>(_, g). Inr (len, g)))))"

subsection \<open>Spawning\<close>

text \<open>The two loops that cut the strings of the vectors out of the shared memory.\<close>

fun unpack_strings :: "string \<Rightarrow> nat \<Rightarrow> nat \<Rightarrow> (string list \<times> nat) run" where
  "unpack_strings mem len 0 = Inr ([], len)"
| "unpack_strings mem len (Suc n) =
     and_then (string_at mem (len + 1)) (\<lambda>s.
     and_then (unpack_strings mem (len + 1 + length s) n) (\<lambda>(ss, len). Inr (s # ss, len)))"

text \<open>
  What \<open>posix_spawn\<close> sees of a vector of which only the first entries were assigned: the
  entries before the first null pointer, which the code never stores.
\<close>

definition c_vector :: "string option list \<Rightarrow> string list \<Rightarrow> string list run" where
  "c_vector stack args =
     (let v = map Some args @ drop (length args) stack in
      if None \<in> set v then Inr (map the (takeWhile (\<lambda>x. x \<noteq> None) v)) else Inl OutOfBounds)"

definition syscall_gspawn :: "'k env \<Rightarrow> int \<Rightarrow> int \<Rightarrow> int \<Rightarrow> int \<Rightarrow> 'k gos \<Rightarrow> (int \<times> 'k gos) run" where
  "syscall_gspawn e pu_id shmid argv_len envp_len g =
     and_then (process_segment g shmid) (\<lambda>s.
     let mem = segs g s in
     and_then (string_at mem 0) (\<lambda>path.
     if \<not> argv_len < int MAX_GSPAWN_ARGS_LEN then Inl AssertFail
     else if \<not> envp_len < int MAX_GSPAWN_ARGS_LEN then Inl AssertFail
     else
       and_then (unpack_strings mem (length path) (nat argv_len)) (\<lambda>(argv, len).
       and_then (unpack_strings mem len (nat envp_len)) (\<lambda>(envp, len).
       if \<not> len < 256 then Inl AssertFail
       else if e_smartc e \<and> pu_id \<noteq> current_pu_id g then Inr (-1, g)
       else
         and_then (c_vector (e_argv e) argv) (\<lambda>argv.
         and_then (c_vector (e_envp e) envp) (\<lambda>envp.
           let (status, k) = px_spawn (e_os e) path argv envp (kern g)
           in Inr (status, g\<lparr>kern := k\<rparr>)))))))"

subsection \<open>Dispatch and the service loop\<close>

definition dispatch :: "'k env \<Rightarrow> syscall_req \<Rightarrow> 'k gos \<Rightarrow> (int \<times> 'k gos) run" where
  "dispatch e r g =
     (if func_name r = ''RegisterSelfGlobal'' then syscall_register_global e (func_args1 r) g
      else if func_name r = ''FIFO_INIT''
        then syscall_fifo_init (func_args1 r) (func_args2 r) (func_args3 r) g
      else if func_name r = ''FIFO_READ''
        then syscall_fifo_read e (func_args1 r) (func_args2 r) (func_args3 r) g
      else if func_name r = ''FIFO_WRITE''
        then syscall_fifo_write e (func_args1 r) (func_args2 r) (func_args3 r) g
      else if func_name r = ''FIFO_CONNECT''
        then syscall_fifo_connect e (func_args1 r) (func_args2 r) g
      else if func_name r = ''GSPAWN''
        then syscall_gspawn e (func_args1 r) (func_args2 r) (func_args3 r) (func_args4 r) g
      else Inl Exit)"

text \<open>
  A scanned request is usable when every variable was assigned, the name fits its array of
  256 and every number is an \<open>int\<close>; using it otherwise is undefined.
\<close>

definition usable :: "syscall_req option \<Rightarrow> syscall_req run" where
  "usable ro = (case ro of None \<Rightarrow> Inl Indeterminate
     | Some r \<Rightarrow> if 256 \<le> length (func_name r) then Inl OutOfBounds
        else if c_int (func_args1 r) \<and> c_int (func_args2 r) \<and> c_int (func_args3 r) \<and> c_int (func_args4 r)
        then Inr r else Inl Indeterminate)"

definition handle_buffer :: "'k env \<Rightarrow> int \<Rightarrow> string \<Rightarrow> 'k gos \<Rightarrow> 'k gos run" where
  "handle_buffer e connfd buf g =
     and_then (usable (scan_request buf)) (\<lambda>r.
     and_then (dispatch e r g) (\<lambda>(ret, g).
     and_then (into_buffer 256 (format_response ret)) (\<lambda>sys_resp.
       let (_, k) = px_write (e_os e) connfd sys_resp (kern g) in Inr (g\<lparr>kern := k\<rparr>))))"

text \<open>
  One descriptor that \<open>epoll_wait\<close> reports.  A \<open>read\<close> that fails (-1) is not told from
  one that succeeds: only 0 closes the connection.
\<close>

datatype ready = Listening | Client int

definition serve_ready :: "'k env \<Rightarrow> ready \<Rightarrow> string \<times> 'k gos \<Rightarrow> (string \<times> 'k gos) run" where
  "serve_ready e r s =
     (case r of Listening \<Rightarrow> Inr s
      | Client connfd \<Rightarrow>
          let (buf, g) = s;
              (bytes, data, k) = px_read (e_os e) connfd (int MAXLEN) (kern g);
              g = g\<lparr>kern := k\<rparr>
          in if bytes = 0 then Inr (buf, g\<lparr>kern := px_close (e_os e) connfd (kern g)\<rparr>)
             else if length buf < length data then Inl OutOfBounds
             else let buf = blit buf 0 data in
               and_then (handle_buffer e connfd buf g) (\<lambda>g. Inr (buf, g)))"

fun global_syscall_loop :: "'k env \<Rightarrow> ready list \<Rightarrow> string \<times> 'k gos \<Rightarrow> (string \<times> 'k gos) run" where
  "global_syscall_loop e [] s = Inr s"
| "global_syscall_loop e (r # rs) s = and_then (serve_ready e r s) (global_syscall_loop e rs)"

end
