(* ===== verification/GlobalOS_Correct.thy ===== *)
theory GlobalOS_Correct
  imports GlobalOS
begin

section \<open>The global OS keeps its tables consistent\<close>

text \<open>
  The invariant of the tables of \<open>global_syscall.c\<close>: established by \<open>global_os_init\<close> on each
  of the eight partitions, kept by every handler and so by the service loop, whatever the
  clients send and whatever the operating system answers.
\<close>

subsection \<open>The invariant\<close>

definition fifo_registered :: "'k gos \<Rightarrow> int \<Rightarrow> int \<Rightarrow> bool" where
  "fifo_registered g u v \<longleftrightarrow> 0 \<le> v \<and> v < 4096 \<and> gf_pu_id (global_fifo_list g ! nat v) = current_pu_id g
     \<and> gf_global_uuid (global_fifo_list g ! nat v) = u"

text \<open>What the uuid table knows: FIFOs of this PU, or, with \<open>SMARTC\<close>, ids a remote PU gave.\<close>

definition uuids_sound :: "'k env \<Rightarrow> 'k gos \<Rightarrow> bool" where
  "uuids_sound e g \<longleftrightarrow> uuid_inv (fifo_guuid_table g) \<and>
     (\<forall>u v. c_int u \<longrightarrow> uuid_abs (fifo_guuid_table g) u = Some v \<longrightarrow>
        fifo_registered g u v \<or> e_smartc e \<and> 0 < v)"

definition processes_ok :: "'k gos \<Rightarrow> bool" where
  "processes_ok g \<longleftrightarrow> length (global_process_list g) = 4096
     \<and> 0 \<le> global_process_now g \<and> global_process_now g < 4096
     \<and> (\<forall>i < 4096. gp_global_pid (global_process_list g ! i) = int i)"

definition fifos_ok :: "'k gos \<Rightarrow> bool" where
  "fifos_ok g \<longleftrightarrow> length (global_fifo_list g) = 4096
     \<and> 0 \<le> global_fifo_now g \<and> global_fifo_now g < 4096
     \<and> 0 \<le> current_pu_id g \<and> current_pu_id g < 8
     \<and> (\<forall>i < 4096. gf_pu_id (global_fifo_list g ! i) = -1
          \<or> gf_pu_id (global_fifo_list g ! i) = current_pu_id g \<and> gf_global_id (global_fifo_list g ! i) = int i)"

definition gos_inv :: "'k env \<Rightarrow> 'k gos \<Rightarrow> bool" where
  "gos_inv e g \<longleftrightarrow> processes_ok g \<and> fifos_ok g \<and> uuids_sound e g
     \<and> (\<forall>s. length (segs g s) = 4096) \<and> gheap g = []"

text \<open>What is relied on of the DSM layer: it returns C ints.\<close>

definition env_ok :: "'k env \<Rightarrow> bool" where
  "env_ok e \<longleftrightarrow> (\<forall>b n k r k'. e_dsm_call e b n k = Inr (r, k') \<longrightarrow> c_int r)"

lemma frames [simp]:
  "processes_ok (g\<lparr>kern := k\<rparr>) = processes_ok g" "fifos_ok (g\<lparr>kern := k\<rparr>) = fifos_ok g"
  "uuids_sound e (g\<lparr>kern := k\<rparr>) = uuids_sound e g" "gos_inv e (g\<lparr>kern := k\<rparr>) = gos_inv e g"
  "processes_ok (g\<lparr>segs := m\<rparr>) = processes_ok g" "fifos_ok (g\<lparr>segs := m\<rparr>) = fifos_ok g"
  "uuids_sound e (g\<lparr>segs := m\<rparr>) = uuids_sound e g"
  "fifo_registered (g\<lparr>kern := k\<rparr>) = fifo_registered g"
  "fifo_registered (g\<lparr>global_fifo_now := i\<rparr>) = fifo_registered g"
  by (simp_all add: processes_ok_def fifos_ok_def uuids_sound_def gos_inv_def fifo_registered_def fun_eq_iff)

lemma gos_invD:
  assumes "gos_inv e g"
  shows "length (global_process_list g) = 4096" "length (global_fifo_list g) = 4096"
    "0 \<le> global_fifo_now g" "global_fifo_now g < 4096" "0 \<le> global_process_now g"
    "global_process_now g < 4096" "0 \<le> current_pu_id g" "current_pu_id g < 8"
    "uuid_inv (fifo_guuid_table g)" "gheap g = []"
  using assms by (auto simp: gos_inv_def processes_ok_def fifos_ok_def uuids_sound_def)

subsection \<open>Initialisation\<close>

lemma global_os_init_ok:
  assumes "0 \<le> pu" and "pu < 8" and "\<forall>s. length (mem s) = 4096"
  obtains g where "global_os_init pu port (gos_static mem [] k) = Inr (0, g)" and "gos_inv e g"
    and "\<forall>f \<in> set (global_fifo_list g). gf_pu_id f = -1" and "global_fifo_now g = pu * 512"
    and "current_pu_id g = pu" and "\<forall>p \<in> set (global_process_list g). gp_local_pid p = -1"
    and "uuid_abs (fifo_guuid_table g) = Map.empty" and "kern g = k" and "segs g = mem"
    and "global_process_now g = 0"
proof -
  obtain t where t: "ht_setup zero_table 4 4 10240 [] = (HT_SUCCESS, t, [])" "ht_inv t"
    "ht_abs t = Map.empty" "key_size t = 4" "value_size t = 4"
    using ht_setup_ok [of zero_table 4 4 10240] by blast
  have thr: "\<not> ht_threshold t < 1024"
    using t(1) by (auto simp: ht_setup_def htp_allocate_ok ht_consts)
  then have "ht_reserve t 1024 [] = Inr (HT_SUCCESS, t, [])"
    using ht_invD(4) [OF t(2)] by (simp add: ht_reserve_def)
  moreover have "wrap32 (pu * 512) = pu * 512"
    using assms by (intro wrap32_id) (simp add: c_int_def INT_MAX_def INT_MIN_def)
  ultimately show thesis
    using t assms
    by (intro that [of "(snd (case global_os_init pu port (gos_static mem [] k) of Inr x \<Rightarrow> x))"])
      (auto simp: global_os_init_def gos_static_def gos_consts gos_inv_def processes_ok_def fifos_ok_def
        uuids_sound_def uuid_inv_def uuid_abs_def fun_eq_iff)
qed

subsection \<open>The process handlers\<close>

lemma set_process_ok:
  assumes "processes_ok g" and "0 \<le> i" and "i < 4096"
  shows "set_process g i f =
    Inr (g\<lparr>global_process_list := (global_process_list g)[nat i := f (global_process_list g ! nat i)]\<rparr>)"
  using assms by (simp add: set_process_def processes_ok_def)

lemma gos_inv_set_process:
  assumes "gos_inv e g" and "0 \<le> i" and "i < 4096"
    and "set_process g i f = Inr g'" and "\<And>p. gp_global_pid p = i \<Longrightarrow> gp_global_pid (f p) = i"
  shows "gos_inv e g'" and "current_pu_id g' = current_pu_id g"
    and "global_process_now g' = global_process_now g"
    and "kern g' = kern g"
proof -
  have p: "processes_ok g" using assms(1) by (simp add: gos_inv_def)
  note g' = assms(4) [unfolded set_process_ok [OF p assms(2,3)], symmetric]
  have "gp_global_pid (global_process_list g ! nat i) = i"
    using p assms(2,3) by (simp add: processes_ok_def)
  then have "processes_ok g'"
    using p assms(2,3,5) g' by (auto simp: processes_ok_def nth_list_update)
  with assms(1) g' show "gos_inv e g'"
    by (auto simp: gos_inv_def fifos_ok_def uuids_sound_def fifo_registered_def)
  show "current_pu_id g' = current_pu_id g" "global_process_now g' = global_process_now g"
    "kern g' = kern g"
    using g' by auto
qed

lemma gos_inv_process_now:
  "gos_inv e g \<Longrightarrow> gos_inv e (g\<lparr>global_process_now := c_rem (global_process_now g + 1) GLOBAL_PROCESS_LIST_SIZE\<rparr>)"
  by (auto simp: gos_inv_def processes_ok_def fifos_ok_def uuids_sound_def fifo_registered_def gos_consts)

lemma register_inv:
  assumes "gos_inv e g" and "syscall_register_global e pid g = Inr (r, g')"
  shows "gos_inv e g'"
proof -
  define g0 where "g0 = g\<lparr>global_process_now := c_rem (global_process_now g + 1) GLOBAL_PROCESS_LIST_SIZE\<rparr>"
  have inv: "gos_inv e g0" using gos_inv_process_now [OF assms(1)] by (simp add: g0_def)
  note now = gos_invD(5,6) [OF inv]
  have p: "processes_ok g'' " if "gos_inv e g''" for g'' using that by (simp add: gos_inv_def)
  show ?thesis
  proof (cases "gp_local_pid (global_process_list g0 ! nat (global_process_now g0)) < 0")
    case False
    with assms(2) now gos_invD(1) [OF inv] inv show ?thesis
      by (simp add: syscall_register_global_def g0_def [symmetric] Let_def)
  next
    case True
    obtain g1 where g1: "set_process g0 (global_process_now g0) (\<lambda>p. p\<lparr>gp_pu_id := current_pu_id g0,
        gp_local_pid := pid, gp_global_pid := global_process_now g0\<rparr>) = Inr g1"
      using set_process_ok [OF p [OF inv] now] by simp
    note i1 = gos_inv_set_process [OF inv now g1]
    have inv1: "gos_inv e (g1\<lparr>kern := k\<rparr>)" for k using i1(1) by simp
    have final: "gos_inv e g2"
      if "set_process (g1\<lparr>kern := k\<rparr>) (global_process_now g0) f = Inr g2"
        and "\<And>p. gp_global_pid (f p) = gp_global_pid p" for k f g2
      using gos_inv_set_process(1) [OF inv1 now that(1)] that(2) by simp
    from assms(2) True g1 now gos_invD(1) [OF inv] show ?thesis
      by (auto simp: syscall_register_global_def g0_def [symmetric] Let_def and_then_eq_Inr split_beta
          split: if_splits intro: final)
  qed
qed

subsection \<open>The FIFO handlers\<close>

definition new_fifo :: "'k gos \<Rightarrow> int \<Rightarrow> int \<Rightarrow> int \<Rightarrow> int \<Rightarrow> global_fifo" where
  "new_fifo g now local_uuid owner_pid global_uuid =
     \<lparr>gf_pu_id = current_pu_id g, gf_owner_pid = owner_pid, gf_local_uuid = local_uuid,
      gf_global_id = now, gf_global_uuid = global_uuid,
      gf_perms = \<lparr>perm = 0x3, container_id = owner_pid\<rparr>\<rparr>"

text \<open>What a successful or failed \<open>FIFO_INIT\<close> does: it always returns.\<close>

lemma fifo_init_ok:
  assumes inv: "gos_inv e g" and u: "c_int u"
  defines "now \<equiv> (global_fifo_now g + 1) mod 4096"
  obtains g' where "syscall_fifo_init l p u g =
      Inr (if gf_pu_id (global_fifo_list g ! nat now) = -1 then now else -1, g')"
    and "gos_inv e g'" and "global_fifo_now g' = now" and "current_pu_id g' = current_pu_id g"
    and "kern g' = kern g" and "segs g' = segs g" and "global_process_list g' = global_process_list g"
    and "global_fifo_list g' = (if gf_pu_id (global_fifo_list g ! nat now) = -1
           then (global_fifo_list g)[nat now := new_fifo g now l p u] else global_fifo_list g)"
    and "\<And>j. c_int j \<Longrightarrow> uuid_abs (fifo_guuid_table g') j =
           (if gf_pu_id (global_fifo_list g ! nat now) = -1 \<and> u \<noteq> -1
            then (uuid_abs (fifo_guuid_table g))(u \<mapsto> now) else uuid_abs (fifo_guuid_table g)) j"
proof -
  note I = gos_invD [OF inv]
  have now: "0 \<le> now" "now < 4096" by (simp_all add: now_def)
  define g0 where "g0 = g\<lparr>global_fifo_now := now\<rparr>"
  have inv0: "gos_inv e g0"
    using inv now by (auto simp: g0_def gos_inv_def processes_ok_def fifos_ok_def uuids_sound_def fifo_registered_def)
  have rem: "c_rem (global_fifo_now g + 1) GLOBAL_FIFO_LIST_SIZE = now"
    using I(3) by (simp add: now_def gos_consts)
  show thesis
  proof (cases "gf_pu_id (global_fifo_list g ! nat now) = -1")
    case False
    with rem now I(2) inv0 show thesis
      by (intro that [of g0]) (auto simp: syscall_fifo_init_def g0_def)
  next
    case True
    define fs where "fs = (global_fifo_list g)[nat now := new_fifo g now l p u]"
    define g1 where "g1 = g0\<lparr>global_fifo_list := fs\<rparr>"
    have fs: "length fs = 4096" "fs ! nat now = new_fifo g now l p u"
      "\<And>i. i < 4096 \<Longrightarrow> i \<noteq> nat now \<Longrightarrow> fs ! i = global_fifo_list g ! i"
      using now I(2) by (simp_all add: fs_def)
    have "gf_pu_id (fs ! i) = -1 \<or> gf_pu_id (fs ! i) = current_pu_id g \<and> gf_global_id (fs ! i) = int i"
      if "i < 4096" for i
    proof (cases "i = nat now")
      case True
      then show ?thesis using fs(2) now by (simp add: new_fifo_def)
    next
      case False
      then show ?thesis using inv that fs(3) by (simp add: gos_inv_def fifos_ok_def)
    qed
    then have fifos1: "fifos_ok g1"
      using inv0 fs(1) by (simp add: gos_inv_def fifos_ok_def g1_def g0_def)
    have keep: "fifo_registered g1 j v" if "fifo_registered g j v" for j v
    proof -
      have "nat v \<noteq> nat now" using that True I(7) by (auto simp: fifo_registered_def)
      with that fs(3) show ?thesis by (auto simp: fifo_registered_def g1_def g0_def)
    qed
    have new: "fifo_registered g1 u now"
      using now fs(2) by (simp add: fifo_registered_def g1_def g0_def new_fifo_def)
    have "fifo_guuid_table g1 = fifo_guuid_table g" by (simp add: g1_def g0_def)
    with inv keep have "uuids_sound e g1" unfolding uuids_sound_def gos_inv_def by metis
    then have inv1: "gos_inv e g1"
      using inv0 fifos1 by (auto simp: gos_inv_def uuids_sound_def g1_def g0_def processes_ok_def)
    have call: "syscall_fifo_init l p u g = (if u \<noteq> -1
        then and_then (uuid_insert (fifo_guuid_table g) u now []) (\<lambda>(_, t, h).
               Inr (now, g1\<lparr>fifo_guuid_table := t, gheap := h\<rparr>))
        else Inr (now, g1))"
      using True rem now I(2,10)
      by (simp add: syscall_fifo_init_def g0_def g1_def fs_def new_fifo_def Let_def)
    show thesis
    proof (cases "u = -1")
      case u1: True
      with call True inv1 show thesis
        by (intro that [of g1]) (simp_all add: g1_def g0_def fs_def)
    next
      case u1: False
      have "c_int now" using now by (simp add: c_int_def INT_MAX_def INT_MIN_def)
      with uuid_insert_ok [OF I(9) u] obtain t r where t: "uuid_insert (fifo_guuid_table g) u now [] = Inr (r, t, [])"
        "uuid_inv t" "\<And>j. c_int j \<Longrightarrow> uuid_abs t j = ((uuid_abs (fifo_guuid_table g))(u \<mapsto> now)) j"
        by metis
      define g2 where "g2 = g1\<lparr>fifo_guuid_table := t, gheap := []\<rparr>"
      have reg2: "fifo_registered g2 = fifo_registered g1"
        by (simp add: fun_eq_iff fifo_registered_def g2_def)
      have "uuids_sound e g2"
        unfolding uuids_sound_def reg2
        using t(2,3) new inv1 by (auto simp: g2_def gos_inv_def uuids_sound_def g1_def g0_def)
      then have "gos_inv e g2"
        using inv1 by (auto simp: gos_inv_def g2_def processes_ok_def fifos_ok_def)
      with call u1 t True show thesis
        by (intro that [of g2]) (simp_all add: g2_def g1_def g0_def fs_def)
    qed
  qed
qed

lemma fifo_connect_inv:
  assumes inv: "gos_inv e g" and env: "env_ok e" and u: "c_int u"
    and call: "syscall_fifo_connect e u p g = Inr (r, g')"
  shows "gos_inv e g'"
proof (cases "uuid_abs (fifo_guuid_table g) u = None \<and> e_smartc e")
  case False
  with call uuid_find_ok [OF gos_invD(9) [OF inv], of u] inv show ?thesis
    by (auto simp: syscall_fifo_connect_def split: option.splits if_splits)
next
  case True
  note I = gos_invD [OF inv]
  from call True obtain b k where b: "e_dsm_call e (b @ [NUL]) 256 (kern g) = Inr (r, k)"
    and g': "(if r > 0 then and_then (uuid_insert (fifo_guuid_table g) u r (gheap g))
       (\<lambda>(_, t, h). Inr (r, g\<lparr>kern := k, fifo_guuid_table := t, gheap := h\<rparr>)) else Inr (r, g\<lparr>kern := k\<rparr>)) = Inr (r, g')"
    by (auto simp: syscall_fifo_connect_def uuid_find_ok [OF I(9)] and_then_eq_Inr Let_def split: if_splits)
  show ?thesis
  proof (cases "r > 0")
    case False
    with g' inv show ?thesis by auto
  next
    case pos: True
    have "c_int r" using env b unfolding env_ok_def by blast
    then obtain t x where t: "uuid_insert (fifo_guuid_table g) u r [] = Inr (x, t, [])"
      "uuid_inv t" "\<And>j. c_int j \<Longrightarrow> uuid_abs t j = ((uuid_abs (fifo_guuid_table g))(u \<mapsto> r)) j"
      using uuid_insert_ok [OF I(9) u] by metis
    have "g' = g\<lparr>kern := k, fifo_guuid_table := t, gheap := []\<rparr>"
      using g' pos t(1) I(10) by simp
    with inv t(2,3) True pos show ?thesis
      by (auto simp: gos_inv_def processes_ok_def fifos_ok_def uuids_sound_def fifo_registered_def)
  qed
qed

lemma fifo_read_inv: "gos_inv e g \<Longrightarrow> syscall_fifo_read e f s n g = Inr (r, g') \<Longrightarrow> gos_inv e g'"
  by (auto simp: syscall_fifo_read_def and_then_eq_Inr split: if_splits)

lemma write_local_frame:
  "write_local_fifo e f m n g = Inr (r, g') \<Longrightarrow> \<exists>k. g' = g\<lparr>kern := k\<rparr>"
  by (auto simp: write_local_fifo_def and_then_eq_Inr)

lemma write_remote_frame:
  "write_remote_fifo e f m n g = Inr (r, g') \<Longrightarrow> \<exists>k. g' = g\<lparr>kern := k\<rparr>"
  by (auto simp: write_remote_fifo_def and_then_eq_Inr Let_def split: if_splits)

lemma gos_inv_segs:
  "gos_inv e g \<Longrightarrow> length m = 4096 \<Longrightarrow> gos_inv e (g\<lparr>segs := (segs g)(s := m)\<rparr>)"
  by (auto simp: gos_inv_def)

lemma fifo_write_inv:
  assumes inv: "gos_inv e g" and call: "syscall_fifo_write e f s n g = Inr (r, g')"
  shows "gos_inv e g'"
proof -
  have len: "\<And>s. length (segs g s) = 4096" using inv by (simp add: gos_inv_def)
  from call obtain seg m where m: "put_at (segs g seg) n NUL = Inr m"
    and rest: "and_then (if e_smartc e then is_global_fifo_local (g\<lparr>segs := (segs g)(seg := m)\<rparr>) f else Inr True)
      (\<lambda>local. if \<not> local then write_remote_fifo e f m n (g\<lparr>segs := (segs g)(seg := m)\<rparr>)
         else and_then (write_local_fifo e f m n (g\<lparr>segs := (segs g)(seg := m)\<rparr>)) (\<lambda>(_, g). Inr (n, g)))
      = Inr (r, g')"
    unfolding syscall_fifo_write_def Let_def and_then_eq_Inr [of "process_segment g s"]
      and_then_eq_Inr [of "put_at _ _ _"] by blast
  from rest have "\<exists>k. g' = g\<lparr>segs := (segs g)(seg := m), kern := k\<rparr>"
    unfolding and_then_eq_Inr [of "if _ then _ else _"]
    by (elim exE conjE, split if_split_asm)
      (auto simp: and_then_eq_Inr split: if_split_asm dest: write_local_frame write_remote_frame)
  moreover have "length m = 4096" using m len by (auto simp: put_at_def split: if_splits)
  ultimately show ?thesis using gos_inv_segs [OF inv] by auto
qed

lemma gspawn_inv:
  "gos_inv e g \<Longrightarrow> syscall_gspawn e pu s a n g = Inr (r, g') \<Longrightarrow> gos_inv e g'"
  by (auto simp: syscall_gspawn_def and_then_eq_Inr Let_def split_beta split: if_splits)

subsection \<open>Dispatch and loop\<close>

lemma dispatch_inv:
  assumes "gos_inv e g" and "env_ok e" and "usable (Some req) = Inr req"
    and "dispatch e req g = Inr (r, g')"
  shows "gos_inv e g'"
proof -
  have c: "c_int (func_args1 req)" "c_int (func_args3 req)"
    using assms(3) by (auto simp: usable_def split: if_splits)
  obtain g1 where "syscall_fifo_init (func_args1 req) (func_args2 req) (func_args3 req) g =
      Inr (if gf_pu_id (global_fifo_list g ! nat ((global_fifo_now g + 1) mod 4096)) = -1
        then (global_fifo_now g + 1) mod 4096 else -1, g1)" "gos_inv e g1"
    using fifo_init_ok [OF assms(1) c(2)] by metis
  with assms(4) show ?thesis
    using register_inv [OF assms(1)] fifo_read_inv [OF assms(1)] fifo_write_inv [OF assms(1)]
      fifo_connect_inv [OF assms(1,2) c(1)] gspawn_inv [OF assms(1)]
    by (auto simp: dispatch_def split: if_splits)
qed

lemma usable_Inr: "usable ro = Inr req \<Longrightarrow> ro = Some req \<and> usable (Some req) = Inr req"
  by (auto simp: usable_def split: option.splits if_splits)

lemma handle_buffer_inv:
  assumes "gos_inv e g" and "env_ok e" and "handle_buffer e fd b g = Inr g'"
  shows "gos_inv e g'"
proof -
  from assms(3) obtain req r g1 where "usable (scan_request b) = Inr req"
    and d: "dispatch e req g = Inr (r, g1)" and "\<exists>k. g' = g1\<lparr>kern := k\<rparr>"
    by (auto simp: handle_buffer_def and_then_eq_Inr split_beta)
  then have "gos_inv e g1" using dispatch_inv [OF assms(1,2) _ d] usable_Inr by blast
  with \<open>\<exists>k. g' = g1\<lparr>kern := k\<rparr>\<close> show ?thesis by auto
qed

lemma serve_ready_inv:
  assumes "gos_inv e g" and "env_ok e" and "serve_ready e rd (buf, g) = Inr (buf', g')"
  shows "gos_inv e g'"
proof (cases rd)
  case Listening
  with assms show ?thesis by (simp add: serve_ready_def)
next
  case (Client fd)
  obtain n data k where r: "px_read (e_os e) fd (int MAXLEN) (kern g) = (n, data, k)"
    by (cases "px_read (e_os e) fd (int MAXLEN) (kern g)")
  have inv: "gos_inv e (g\<lparr>kern := k\<rparr>)" using assms(1) by simp
  note step = handle_buffer_inv [OF inv assms(2)]
  with assms Client r show ?thesis
    by (auto simp: serve_ready_def and_then_eq_Inr Let_def split: if_splits intro: step)
qed

lemma loop_inv:
  "global_syscall_loop e rs (buf, g) = Inr (buf', g') \<Longrightarrow> gos_inv e g \<Longrightarrow> env_ok e \<Longrightarrow> gos_inv e g'"
proof (induction rs arbitrary: buf g)
  case Nil
  then show ?case by simp
next
  case (Cons r rs)
  from Cons.prems(1) obtain b1 g1 where "serve_ready e r (buf, g) = Inr (b1, g1)"
    and "global_syscall_loop e rs (b1, g1) = Inr (buf', g')" by (auto simp: and_then_eq_Inr)
  with Cons.IH serve_ready_inv [OF Cons.prems(2,3)] Cons.prems(3) show ?case by blast
qed

end
