(* ===== verification/Client.thy ===== *)
theory Client
  imports GlobalOS_Correct
begin

section \<open>The runtime and the interfaces of a global process\<close>

text \<open>
  \<open>global_syscall_runtime.c\<close> and \<open>global_syscall_interfaces.c\<close>: what is linked into a
  process that uses the global OS.  The record holds the static variables of the interfaces, the
  shared-memory segments the process can reach and the state of its operating system.
\<close>

record 'k client =
  global_OS_id :: int
  self_global_id :: int
  global_OS_shm_client_uuid :: int
  global_OS_shm_client_addr :: "int option"
  csegs :: "int \<Rightarrow> string"
  ckern :: 'k

definition client_static :: "(int \<Rightarrow> string) \<Rightarrow> 'k \<Rightarrow> 'k client" where
  "client_static mem k = \<lparr>global_OS_id = -1, self_global_id = -1, global_OS_shm_client_uuid = -1,
     global_OS_shm_client_addr = None, csegs = mem, ckern = k\<rparr>"

subsection \<open>The runtime\<close>

text \<open>On every failure the result is 1, which the callers take for a descriptor; \<open>inet_pton\<close> of
  the constant address succeeds.\<close>

definition connect_global_OS :: "'k posix \<Rightarrow> int \<Rightarrow> 'k \<Rightarrow> int \<times> 'k" where
  "connect_global_OS os os_port k =
     (let (sockfd, k) = px_socket os k in
      if sockfd < 0 then (1, k)
      else let (r, k) = px_connect os sockfd os_port k in
        if r < 0 then (1, k) else (sockfd, k))"

text \<open>The receive buffer has 32 bytes, of which the last is left for the NUL.\<close>

definition invoke_global_syscall :: "'k posix \<Rightarrow> int \<Rightarrow> string \<Rightarrow> 'k \<Rightarrow> (int \<times> 'k) run" where
  "invoke_global_syscall os global_os_fd syscall k =
     (let (_, k) = px_write os global_os_fd syscall k;
          (n, data, k) = px_read os global_os_fd 31 k
      in if \<not> n > 0 then Inl AssertFail
         else if 31 < length data then Inl OutOfBounds
         else case scan_response (data @ [NUL]) of
           None \<Rightarrow> Inl Indeterminate
         | Some ret \<Rightarrow> Inr (ret, k))"

text \<open>A request is printed into a \<open>char\<close> array of \<open>n\<close> elements and sent.\<close>

definition send_request :: "'k posix \<Rightarrow> nat \<Rightarrow> 'k client \<Rightarrow> string \<Rightarrow> int \<Rightarrow> int \<Rightarrow> int \<Rightarrow> int
    \<Rightarrow> (int \<times> 'k client) run" where
  "send_request os n c f a1 a2 a3 a4 =
     and_then (into_buffer n (format_request (self_global_id c) f a1 a2 a3 a4)) (\<lambda>buffer.
     and_then (invoke_global_syscall os (global_OS_id c) buffer (ckern c)) (\<lambda>(ret, k).
       Inr (ret, c\<lparr>ckern := k\<rparr>)))"

subsection \<open>The interfaces\<close>

definition register_self_global :: "'k posix \<Rightarrow> int \<Rightarrow> 'k client \<Rightarrow> (int \<times> 'k client) run" where
  "register_self_global os os_port c =
     (let (fd, k) = connect_global_OS os os_port (ckern c);
          c = c\<lparr>global_OS_id := fd, ckern := k\<rparr>
      in and_then (into_buffer 256 (format_request 0 ''RegisterSelfGlobal'' 0 0 0 0)) (\<lambda>buffer.
         and_then (invoke_global_syscall os (global_OS_id c) buffer (ckern c)) (\<lambda>(ret, k).
         let c = c\<lparr>self_global_id := ret, ckern := k\<rparr>;
             shm_uuid = self_global_id c
         in and_then (into_buffer 256 (shm_path shm_uuid)) (\<lambda>path.
            let key = px_ftok os path (ckern c);
                (segment_id, k) = px_shmget os key False (ckern c); c = c\<lparr>ckern := k\<rparr> in
            if segment_id < 0 then Inl Exit
            else let (shm, k) = px_shmat os segment_id (ckern c); c = c\<lparr>ckern := k\<rparr> in
              Inr (0, c\<lparr>global_OS_shm_client_uuid := self_global_id c,
                        global_OS_shm_client_addr := shm\<rparr>)))))"

definition unregister_self_global :: "'k client \<Rightarrow> int \<times> 'k client" where
  "unregister_self_global c = (0, c)"

definition global_fifo_init :: "'k posix \<Rightarrow> int \<Rightarrow> 'k client \<Rightarrow> (int \<times> 'k client) run" where
  "global_fifo_init os local_fifo c =
     send_request os 256 c ''FIFO_INIT'' local_fifo (self_global_id c) (-1) 0"

definition global_fifo_connect :: "'k posix \<Rightarrow> int \<Rightarrow> 'k client \<Rightarrow> (int \<times> 'k client) run" where
  "global_fifo_connect os global_uuid c =
     send_request os 256 c ''FIFO_CONNECT'' global_uuid (self_global_id c) (-1) 0"

definition global_fifo_init_uuid :: "'k posix \<Rightarrow> int \<Rightarrow> int \<Rightarrow> 'k client \<Rightarrow> (int \<times> 'k client) run" where
  "global_fifo_init_uuid os local_fifo global_uuid c =
     send_request os 256 c ''FIFO_INIT'' local_fifo (self_global_id c) global_uuid 0"

definition global_fifo_close :: "'k posix \<Rightarrow> int \<Rightarrow> 'k client \<Rightarrow> (int \<times> 'k client) run" where
  "global_fifo_close os global_fifo c = send_request os 256 c ''FIFO_CLOSE'' global_fifo 0 0 0"

text \<open>Access to the shared memory through the pointer of the client.\<close>

definition client_segment :: "'k client \<Rightarrow> int run" where
  "client_segment c = (case global_OS_shm_client_addr c of None \<Rightarrow> Inl OutOfBounds | Some s \<Rightarrow> Inr s)"

text \<open>\<open>memcpy(dst + off, src, n)\<close> with bounds.\<close>

definition memcpy_at :: "string \<Rightarrow> nat \<Rightarrow> string \<Rightarrow> int \<Rightarrow> string run" where
  "memcpy_at dst off src n =
     (if n < 0 \<or> int (length src) < n \<or> int (length dst) < int off + n then Inl OutOfBounds
      else Inr (blit dst off (take (nat n) src)))"

definition global_fifo_read :: "'k posix \<Rightarrow> int \<Rightarrow> string \<Rightarrow> int \<Rightarrow> 'k client
    \<Rightarrow> (int \<times> string \<times> 'k client) run" where
  "global_fifo_read os global_fifo buf len c =
     and_then (send_request os 64 c ''FIFO_READ'' global_fifo (global_OS_shm_client_uuid c) len 0)
     (\<lambda>(ret, c).
       if ret < 0 then Inr (ret, buf, c)
       else if ret > 8192 \<or> ret > len then Inr (-1, buf, c)
       else and_then (client_segment c) (\<lambda>s.
            and_then (memcpy_at buf 0 (csegs c s) ret) (\<lambda>buf. Inr (ret, buf, c))))"

definition global_fifo_write :: "'k posix \<Rightarrow> int \<Rightarrow> string \<Rightarrow> int \<Rightarrow> 'k client \<Rightarrow> (int \<times> 'k client) run" where
  "global_fifo_write os global_fifo buf len c =
     (if \<not> len \<le> 4096 then Inl AssertFail
      else and_then (client_segment c) (\<lambda>s.
           and_then (memcpy_at (csegs c s) 0 buf len) (\<lambda>mem.
             send_request os 256 (c\<lparr>csegs := (csegs c)(s := mem)\<rparr>)
               ''FIFO_WRITE'' global_fifo (global_OS_shm_client_uuid c) len 0)))"

definition global_grant_perm :: "int \<Rightarrow> int \<Rightarrow> int \<Rightarrow> 'k client \<Rightarrow> int \<times> 'k client" where
  "global_grant_perm global_pid global_fd p c = (0, c)"

text \<open>The two loops of \<open>global_spawn\<close> that pack a vector behind the path.\<close>

fun pack_strings :: "string \<Rightarrow> nat \<Rightarrow> string list \<Rightarrow> (string \<times> nat) run" where
  "pack_strings mem len [] = Inr (mem, len)"
| "pack_strings mem len (s # ss) =
     (if \<not> len + length s + 1 \<le> 256 then Inl AssertFail
      else and_then (memcpy_at mem len (s @ [NUL]) (int (length s) + 1)) (\<lambda>mem.
           pack_strings mem (len + (length s + 1)) ss))"

definition pack_spawn :: "string \<Rightarrow> string \<Rightarrow> string list \<Rightarrow> string list \<Rightarrow> (string \<times> nat) run" where
  "pack_spawn mem path argv envp =
     (if \<not> length path + 1 \<le> 256 then Inl AssertFail
      else and_then (memcpy_at mem 0 (path @ [NUL]) (int (length path) + 1)) (\<lambda>mem.
           and_then (pack_strings mem (length path + 1) argv) (\<lambda>(mem, len).
             pack_strings mem len envp)))"

text \<open>The second component of the result is \<open>*global_pid\<close>.\<close>

definition global_spawn :: "'k posix \<Rightarrow> int \<Rightarrow> string \<Rightarrow> string list \<Rightarrow> string list \<Rightarrow> 'k client
    \<Rightarrow> (int \<times> int \<times> 'k client) run" where
  "global_spawn os pu_id path argv envp c =
     and_then (client_segment c) (\<lambda>s.
     and_then (pack_spawn (csegs c s) path argv envp) (\<lambda>(mem, _).
     and_then (send_request os 256 (c\<lparr>csegs := (csegs c)(s := mem)\<rparr>) ''GSPAWN'' pu_id
       (global_OS_shm_client_uuid c) (int (length argv)) (int (length envp))) (\<lambda>(ret, c).
       Inr (ret, -1, c))))"

end
