(* ===== verification/GlobalOS_Props.thy ===== *)
theory GlobalOS_Props
  imports GlobalOS_Correct
begin

section \<open>What the global OS promises, and where it breaks\<close>

text \<open>
  The properties of the syscall handlers of \<open>global_syscall.c\<close>: the invariant of the service
  loop, the FIFO ids that \<open>FIFO_INIT\<close> hands out and the partition they leave, the connection
  by uuid, the path of the bytes of a write, and the start-up that no client survives.
\<close>

subsection \<open>A concrete environment\<close>

definition demo_env :: "pipes env" where
  "demo_env = \<lparr>e_os = pipe_os, e_smartc = False, e_dsm_call = (\<lambda>_ _ k. Inr (-1, k)),
     e_argv = replicate 8 None, e_envp = replicate 8 None\<rparr>"

definition demo_static :: "pipes gos" where
  "demo_static = gos_static (\<lambda>_. replicate 4096 NUL) [] pipes_empty"

lemma demo_env_ok: "env_ok demo_env"
  by (simp add: env_ok_def demo_env_def c_int_def INT_MAX_def INT_MIN_def)

lemma c_int_small: "-1000000 \<le> i \<Longrightarrow> i \<le> 1000000 \<Longrightarrow> c_int i"
  by (simp add: c_int_def INT_MAX_def INT_MIN_def)

subsection \<open>The service loop\<close>

text \<open>C2: started on one of the eight partitions, the global OS keeps its tables consistent through
  any sequence of ready descriptors, whatever bytes its clients send and whatever the operating
  system answers: the cursors stay inside the tables, every FIFO entry is free or belongs to this
  PU under its own index, the segments keep their size, and every uuid of the table leads to a
  FIFO that was registered under it (or, with SMARTC, to a remote id).\<close>

theorem service_loop_invariant:
  assumes "0 \<le> pu" and "pu < 8" and "\<forall>s. length (mem s) = 4096" and "env_ok e"
    and "global_os_init pu port (gos_static mem [] k) = Inr (0, g0)"
    and "global_syscall_loop e rs (buf, g0) = Inr (buf', g)"
  shows "gos_inv e g"
proof -
  obtain g1 where "global_os_init pu port (gos_static mem [] k) = Inr (0, g1)" "gos_inv e g1"
    by (rule global_os_init_ok [where port = port and k = k and e = e, OF assms(1-3)]) blast
  with assms(5) have "gos_inv e g0" by simp
  from loop_inv [OF assms(6) this assms(4)] show ?thesis .
qed

lemma demo_init:
  "\<exists>g0. global_os_init 1 65259 demo_static = Inr (0, g0) \<and> gos_inv demo_env g0 \<and> kern g0 = pipes_empty
     \<and> current_pu_id g0 = 1 \<and> (\<forall>f \<in> set (global_fifo_list g0). gf_pu_id f = -1) \<and> global_fifo_now g0 = 512
     \<and> uuid_abs (fifo_guuid_table g0) = Map.empty"
proof -
  have len: "\<forall>s. length ((\<lambda>_::int. replicate 4096 NUL) s) = 4096" by simp
  show ?thesis
    unfolding demo_static_def
    by (rule global_os_init_ok [where pu = 1 and port = 65259 and e = demo_env and k = pipes_empty, OF _ _ len])
      auto
qed

lemma service_loop_invariant_witness:
  "\<exists>g0. global_os_init 1 65259 demo_static = Inr (0, g0)
     \<and> global_syscall_loop demo_env [Listening] (replicate 1024 NUL, g0) = Inr (replicate 1024 NUL, g0)
     \<and> gos_inv demo_env g0"
proof -
  obtain g0 where g0: "global_os_init 1 65259 demo_static = Inr (0, g0)" using demo_init by blast
  have loop: "global_syscall_loop demo_env [Listening] (replicate 1024 NUL, g0) = Inr (replicate 1024 NUL, g0)"
    by (simp add: serve_ready_def)
  have "gos_inv demo_env g0"
    by (rule service_loop_invariant [OF _ _ _ demo_env_ok g0 [unfolded demo_static_def] loop]) simp_all
  with g0 loop show ?thesis by blast
qed

subsection \<open>The ids of global FIFOs\<close>

fun fifo_inits :: "(int \<times> int \<times> int) list \<Rightarrow> 'k gos \<Rightarrow> (int list \<times> 'k gos) run" where
  "fifo_inits [] g = Inr ([], g)"
| "fifo_inits ((l, p, u) # rs) g =
     and_then (syscall_fifo_init l p u g) (\<lambda>(r, g).
     and_then (fifo_inits rs g) (\<lambda>(ids, g). Inr (r # ids, g)))"

text \<open>\<open>n\<close> FIFOs were allocated since the start, behind the base of the partition.\<close>

definition allocated :: "'k env \<Rightarrow> int \<Rightarrow> 'k gos \<Rightarrow> bool" where
  "allocated e n g \<longleftrightarrow> gos_inv e g \<and> global_fifo_now g = (current_pu_id g * 512 + n) mod 4096
     \<and> (\<forall>m. n < m \<and> m \<le> 4096 \<longrightarrow> gf_pu_id (global_fifo_list g ! nat ((current_pu_id g * 512 + m) mod 4096)) = -1)
     \<and> (\<forall>m. 1 \<le> m \<and> m \<le> n \<longrightarrow> gf_pu_id (global_fifo_list g ! nat ((current_pu_id g * 512 + m) mod 4096)) = current_pu_id g)"

lemma mod_4096_neq: "(a :: int) \<noteq> b \<Longrightarrow> \<bar>a - b\<bar> < 4096 \<Longrightarrow> (c + a) mod 4096 \<noteq> (c + b) mod 4096"
  by (metis (no_types) add_diff_cancel_left abs_ge_zero dvd_imp_le_int linorder_not_le mod_eq_dvd_iff
      abs_numeral diff_eq_diff_eq diff_self)

lemma allocated_step:
  assumes a: "allocated e n g" and n: "0 \<le> n" "n < 4096" and u: "c_int u"
  obtains g' where "syscall_fifo_init l p u g = Inr ((current_pu_id g * 512 + n + 1) mod 4096, g')"
    and "allocated e (n + 1) g'" and "current_pu_id g' = current_pu_id g"
proof -
  let ?slot = "\<lambda>m. nat ((current_pu_id g * 512 + m) mod 4096)"
  have inv: "gos_inv e g" using a by (simp add: allocated_def)
  have now: "(global_fifo_now g + 1) mod 4096 = (current_pu_id g * 512 + (n + 1)) mod 4096"
    using a by (simp add: allocated_def mod_add_left_eq add.assoc)
  have free: "gf_pu_id (global_fifo_list g ! ?slot (n + 1)) = -1"
    using a n by (simp add: allocated_def)
  obtain g' where g0: "syscall_fifo_init l p u g =
      Inr (if gf_pu_id (global_fifo_list g ! nat ((global_fifo_now g + 1) mod 4096)) = -1
        then (global_fifo_now g + 1) mod 4096 else -1, g')"
    "gos_inv e g'" "global_fifo_now g' = (global_fifo_now g + 1) mod 4096"
    "current_pu_id g' = current_pu_id g"
    "global_fifo_list g' = (if gf_pu_id (global_fifo_list g ! nat ((global_fifo_now g + 1) mod 4096)) = -1
       then (global_fifo_list g)[nat ((global_fifo_now g + 1) mod 4096) :=
         new_fifo g ((global_fifo_now g + 1) mod 4096) l p u] else global_fifo_list g)"
    by (rule fifo_init_ok [OF inv u, of l p]) blast
  note g' = g0 [unfolded now if_P [OF free]]
  have len: "length (global_fifo_list g) = 4096" using gos_invD(2) [OF inv] .
  have other: "?slot m \<noteq> ?slot (n + 1)" if "m \<noteq> n + 1" "\<bar>m - (n + 1)\<bar> < 4096" for m
    using mod_4096_neq [OF that, of "current_pu_id g * 512"] by (simp add: nat_eq_iff2)
  have "allocated e (n + 1) g'"
    unfolding allocated_def g'(4,5)
  proof (intro conjI allI impI)
    fix m assume "n + 1 < m \<and> m \<le> 4096"
    then have "?slot m \<noteq> ?slot (n + 1)" using n by (intro other) auto
    with a \<open>n + 1 < m \<and> m \<le> 4096\<close>
    show "gf_pu_id ((global_fifo_list g)[?slot (n + 1) :=
       new_fifo g ((current_pu_id g * 512 + (n + 1)) mod 4096) l p u] ! ?slot m) = -1"
      by (simp add: allocated_def)
  next
    fix m assume m: "1 \<le> m \<and> m \<le> n + 1"
    show "gf_pu_id ((global_fifo_list g)[?slot (n + 1) :=
       new_fifo g ((current_pu_id g * 512 + (n + 1)) mod 4096) l p u] ! ?slot m) = current_pu_id g"
    proof (cases "m = n + 1")
      case True
      then show ?thesis using len by (simp add: new_fifo_def nat_less_iff)
    next
      case False
      then have "?slot m \<noteq> ?slot (n + 1)" using m n by (intro other) auto
      with a m False show ?thesis by (simp add: allocated_def)
    qed
  qed (use g' in simp_all)
  with g' show thesis by (intro that [of g']) (simp_all add: add.assoc)
qed

lemma fifo_inits_ok:
  assumes "allocated e n g" and "0 \<le> n" and "n + int (length rs) \<le> 4096"
    and "\<forall>(l, p, u) \<in> set rs. c_int u"
  shows "\<exists>g'. fifo_inits rs g = Inr (map (\<lambda>i. (current_pu_id g * 512 + n + int i + 1) mod 4096) [0..<length rs], g')
    \<and> allocated e (n + int (length rs)) g' \<and> current_pu_id g' = current_pu_id g"
  using assms
proof (induction rs arbitrary: g n)
  case Nil
  then show ?case by simp
next
  case (Cons r rs)
  obtain l p u where r: "r = (l, p, u)" by (cases r)
  obtain g1 where g1: "syscall_fifo_init l p u g = Inr ((current_pu_id g * 512 + n + 1) mod 4096, g1)"
    "allocated e (n + 1) g1" "current_pu_id g1 = current_pu_id g"
    using allocated_step [of e n g u l p] Cons.prems r by auto
  obtain g' where g': "fifo_inits rs g1 =
      Inr (map (\<lambda>i. (current_pu_id g * 512 + (n + 1) + int i + 1) mod 4096) [0..<length rs], g')"
    "allocated e (n + 1 + int (length rs)) g'" "current_pu_id g' = current_pu_id g"
    using Cons.IH [OF g1(2)] Cons.prems g1(3) by auto
  have "map (\<lambda>i. (current_pu_id g * 512 + n + int i + 1) mod 4096) [0..<length (r # rs)] =
    (current_pu_id g * 512 + n + 1) mod 4096
      # map (\<lambda>i. (current_pu_id g * 512 + (n + 1) + int i + 1) mod 4096) [0..<length rs]"
    by (simp add: upt_rec [of 0] map_Suc_upt [symmetric] del: upt_Suc)
  with r g1 g' show ?case by (simp add: ac_simps)
qed

lemma allocated_start:
  assumes "gos_inv e g" and "\<forall>f \<in> set (global_fifo_list g). gf_pu_id f = -1"
    and "global_fifo_now g = current_pu_id g * 512"
  shows "allocated e 0 g"
proof -
  note I = gos_invD [OF assms(1)]
  have "gf_pu_id (global_fifo_list g ! nat ((current_pu_id g * 512 + m) mod 4096)) = -1" for m
    using assms(2) I(2) by (simp add: nat_less_iff)
  with assms I show ?thesis by (simp add: allocated_def)
qed

lemma allocated_local:
  assumes "allocated e n g" and "1 \<le> m" and "m \<le> n" and "n \<le> 4096"
  shows "is_global_fifo_local g ((current_pu_id g * 512 + m) mod 4096) = Inr (m < 512 \<or> m = 4096)"
proof -
  define id where "id = (current_pu_id g * 512 + m) mod 4096"
  have inv: "gos_inv e g" using assms(1) by (simp add: allocated_def)
  note I = gos_invD [OF inv]
  have id: "0 \<le> id" "id < 4096" by (simp_all add: id_def)
  have pu: "gf_pu_id (global_fifo_list g ! nat id) = current_pu_id g"
    using assms by (simp add: allocated_def id_def)
  have w: "wrap32 (current_pu_id g * 512) = current_pu_id g * 512"
    "wrap32 (current_pu_id g * 512 + 512) = current_pu_id g * 512 + 512"
    using I(7,8) by (auto intro!: wrap32_id simp: c_int_def INT_MAX_def INT_MIN_def)
  have split: "id = current_pu_id g * 512 + m \<or> id = current_pu_id g * 512 + m - 4096"
  proof (cases "current_pu_id g * 512 + m < 4096")
    case True
    then show ?thesis using I(7) assms(2) by (simp add: id_def)
  next
    case False
    have "(current_pu_id g * 512 + m - 4096) mod 4096 = id" by (simp add: id_def)
    moreover have "(current_pu_id g * 512 + m - 4096) mod 4096 = current_pu_id g * 512 + m - 4096"
      by (rule mod_pos_pos_trivial) (use False I(8) assms(3,4) in linarith)+
    ultimately show ?thesis by simp
  qed
  have "is_global_fifo_local g id = Inr (current_pu_id g * 512 \<le> id \<and> id < (current_pu_id g + 1) * 512)"
    using id pu I(2) by (auto simp: is_global_fifo_local_def check_global_fifo_bound_def gos_consts w)
  moreover have "current_pu_id g * 512 \<le> id \<and> id < (current_pu_id g + 1) * 512 \<longleftrightarrow> m < 512 \<or> m = 4096"
    using split id assms I(7,8) by (auto simp: algebra_simps)
  ultimately show ?thesis by (simp add: id_def)
qed

text \<open>The first 4096 \<open>FIFO_INIT\<close> syscalls of a PU all succeed, with different ids that count
  up from the base of its partition modulo the size of the whole list.  The partition holds 512
  ids, so from the 512th FIFO on the id lies in the partition of another PU and
  \<open>is_global_fifo_local\<close> denies it, although this PU owns the FIFO; only the very last id is
  local again.\<close>

theorem fifo_ids_leave_partition:
  assumes "0 \<le> pu" and "pu < 8" and "\<forall>s. length (mem s) = 4096"
    and "length rs \<le> 4096" and "\<forall>(l, p, u) \<in> set rs. c_int u"
  shows "\<exists>g0 g ids. global_os_init pu port (gos_static mem [] k) = Inr (0, g0)
    \<and> fifo_inits rs g0 = Inr (ids, g) \<and> length ids = length rs \<and> distinct ids
    \<and> (\<forall>i < length rs. ids ! i = (pu * 512 + int i + 1) mod 4096
         \<and> is_global_fifo_local g (ids ! i) = Inr (i < 511 \<or> i = 4095))"
proof -
  obtain g0 where g0: "global_os_init pu port (gos_static mem [] k) = Inr (0, g0)"
    and inv: "gos_inv undefined g0" and free: "\<forall>f \<in> set (global_fifo_list g0). gf_pu_id f = -1"
    and now: "global_fifo_now g0 = pu * 512" and pu: "current_pu_id g0 = pu"
    by (rule global_os_init_ok [where port = port and k = k and e = undefined, OF assms(1-3)]) blast
  obtain g where g: "fifo_inits rs g0 = Inr (map (\<lambda>i. (pu * 512 + int i + 1) mod 4096) [0..<length rs], g)"
    "allocated undefined (int (length rs)) g" "current_pu_id g = pu"
    using fifo_inits_ok [OF allocated_start [OF inv free], of rs] now pu assms(4,5) by auto
  have "is_global_fifo_local g ((pu * 512 + int i + 1) mod 4096) = Inr (i < 511 \<or> i = 4095)"
    if "i < length rs" for i
    using allocated_local [OF g(2), of "int i + 1"] g(3) that assms(4) by (auto simp: add.assoc)
  moreover have inj: "i = j" if "i < length rs" "j < length rs"
    and eq: "(pu * 512 + int i + 1) mod 4096 = (pu * 512 + int j + 1) mod 4096" for i j
  proof (rule ccontr)
    assume "i \<noteq> j"
    moreover have "\<bar>(int i + 1) - (int j + 1)\<bar> < 4096" using that assms(4) by linarith
    ultimately show False
      using mod_4096_neq [of "int i + 1" "int j + 1" "pu * 512"] eq by (simp add: add.assoc)
  qed
  then have "distinct (map (\<lambda>i. (pu * 512 + int i + 1) mod 4096) [0..<length rs])"
    unfolding distinct_map inj_on_def by simp
  ultimately show ?thesis using g0 g(1) by simp
qed

definition demo_inits :: "(int \<times> int \<times> int) list" where
  "demo_inits = replicate 512 (7, 3, -1)"

lemma fifo_ids_leave_partition_witness:
  "\<exists>g0 g ids. global_os_init 1 65259 demo_static = Inr (0, g0)
    \<and> fifo_inits demo_inits g0 = Inr (ids, g) \<and> ids ! 511 = 1024
    \<and> is_global_fifo_local g 1024 = Inr False"
proof -
  have len: "\<forall>s. length ((\<lambda>_::int. replicate 4096 NUL) s) = 4096" by simp
  have u: "\<forall>(l, p, u) \<in> set demo_inits. c_int u" and n: "length demo_inits = 512"
    by (simp_all add: c_int_small demo_inits_def)
  have "\<exists>g0 g ids. global_os_init 1 65259 demo_static = Inr (0, g0)
    \<and> fifo_inits demo_inits g0 = Inr (ids, g) \<and> length ids = length demo_inits \<and> distinct ids
    \<and> (\<forall>i < length demo_inits. ids ! i = (1 * 512 + int i + 1) mod 4096
         \<and> is_global_fifo_local g (ids ! i) = Inr (i < 511 \<or> i = 4095))"
    unfolding demo_static_def by (rule fifo_ids_leave_partition [OF _ _ len _ u]) (simp_all add: n)
  then obtain g0 g ids where g: "global_os_init 1 65259 demo_static = Inr (0, g0)"
    "fifo_inits demo_inits g0 = Inr (ids, g)"
    "\<And>i. i < 512 \<Longrightarrow> ids ! i = (1 * 512 + int i + 1) mod 4096 \<and> is_global_fifo_local g (ids ! i) = Inr (i < 511 \<or> i = 4095)"
    unfolding n by blast
  from g(3) [of 511] have "ids ! 511 = 1024" "is_global_fifo_local g 1024 = Inr False" by auto
  with g(1,2) show ?thesis by blast
qed

text \<open>Started without \<open>-i\<close>, so with the default PU id -1, the global OS comes up, but its
  first \<open>FIFO_INIT\<close> computes the index -511 (C's remainder of a negative number) and accesses
  the list of FIFOs out of bounds.\<close>

theorem default_pu_first_fifo_crashes:
  "\<exists>g0. global_os_init (-1) port (gos_static mem [] k) = Inr (0, g0)
    \<and> current_pu_id g0 = -1 \<and> syscall_fifo_init l p u g0 = Inl OutOfBounds"
proof -
  obtain t where t: "ht_setup zero_table 4 4 10240 [] = (HT_SUCCESS, t, [])" "ht_inv t"
    using ht_setup_ok [of zero_table 4 4 10240] by blast
  obtain t' where t': "ht_reserve t 1024 [] = Inr (HT_SUCCESS, t', [])"
    using ht_reserve_ok [OF t(2)] by blast
  have "wrap32 (-512) = -512" by (rule wrap32_id) (simp add: c_int_small)
  then show ?thesis
    using t(1) t'
    by (simp add: global_os_init_def gos_static_def gos_consts syscall_fifo_init_def c_rem_def Let_def)
qed

subsection \<open>Connecting by uuid\<close>

lemma local_connect_eq:
  "gos_inv e g \<Longrightarrow> local_fifo_connect g u =
     Inr (case uuid_abs (fifo_guuid_table g) u of Some v \<Rightarrow> v | None \<Rightarrow> -1)"
  by (frule uuid_find_ok [OF gos_invD(9), where k = u]) (auto simp: local_fifo_connect_def split: option.splits)

text \<open>C32: a FIFO registered under a uuid is found under it: when the next slot is free,
  \<open>FIFO_INIT\<close> returns the slot, the slot holds the caller's local uuid and owner, and from
  then on both \<open>FIFO_CONNECT\<close> and the handler of a remote connect return this slot for the
  uuid and leave every other uuid as it was.\<close>

theorem fifo_init_then_connect:
  assumes "gos_inv e g" and "c_int u" and "u \<noteq> -1"
    and "gf_pu_id (global_fifo_list g ! nat ((global_fifo_now g + 1) mod 4096)) = -1"
  shows "\<exists>id g'. id = (global_fifo_now g + 1) mod 4096 \<and> syscall_fifo_init l p u g = Inr (id, g')
    \<and> gf_local_uuid (global_fifo_list g' ! nat id) = l \<and> gf_owner_pid (global_fifo_list g' ! nat id) = p
    \<and> syscall_fifo_connect e u p' g' = Inr (id, g') \<and> local_fifo_connect g' u = Inr id
    \<and> (\<forall>j. c_int j \<longrightarrow> j \<noteq> u \<longrightarrow> local_fifo_connect g' j = local_fifo_connect g j)"
proof -
  define id where "id = (global_fifo_now g + 1) mod 4096"
  obtain g' where init: "syscall_fifo_init l p u g = Inr (id, g')" and inv: "gos_inv e g'"
    and fs: "global_fifo_list g' = (global_fifo_list g)[nat id := new_fifo g id l p u]"
    and abs: "\<And>j. c_int j \<Longrightarrow> uuid_abs (fifo_guuid_table g') j = ((uuid_abs (fifo_guuid_table g))(u \<mapsto> id)) j"
    by (rule fifo_init_ok [OF assms(1,2), of l p]) (auto simp: assms(3,4) id_def)
  have "nat id < length (global_fifo_list g)"
    using gos_invD(2) [OF assms(1)] by (simp add: id_def nat_less_iff)
  moreover have "uuid_find (fifo_guuid_table g') u = Inr (Some id)"
    using uuid_find_ok [OF gos_invD(9) [OF inv]] abs [OF assms(2)] by simp
  ultimately show ?thesis
    using init fs abs local_connect_eq [OF inv] local_connect_eq [OF assms(1)] assms(2)
    by (intro exI [of _ id] exI [of _ g'])
      (auto simp: id_def [symmetric] new_fifo_def syscall_fifo_connect_def)
qed

lemma fifo_init_then_connect_witness:
  "\<exists>g0 g'. global_os_init 1 65259 demo_static = Inr (0, g0)
    \<and> syscall_fifo_init 41 3 77 g0 = Inr (513, g') \<and> local_fifo_connect g' 77 = Inr 513"
proof -
  obtain g0 where g0: "global_os_init 1 65259 demo_static = Inr (0, g0)" "gos_inv demo_env g0"
    "\<forall>f \<in> set (global_fifo_list g0). gf_pu_id f = -1" "global_fifo_now g0 = 512"
    using demo_init by blast
  have "gf_pu_id (global_fifo_list g0 ! nat ((global_fifo_now g0 + 1) mod 4096)) = -1"
    using g0(3,4) gos_invD(2) [OF g0(2)] by simp
  from fifo_init_then_connect [OF g0(2) _ _ this, of 77 41 3 0] g0(1,4) show ?thesis
    by (auto simp: c_int_small)
qed

text \<open>Without SMARTC, a connect never leads astray: in every consistent state it returns either
  -1 or the id of a FIFO of this PU whose entry carries the very uuid that was asked for.\<close>

theorem fifo_connect_sound:
  assumes "gos_inv e g" and "\<not> e_smartc e" and "c_int u"
    and "syscall_fifo_connect e u p g = Inr (v, g')"
  shows "g' = g \<and> (v = -1 \<or> fifo_registered g u v)"
proof -
  have "uuid_find (fifo_guuid_table g) u = Inr (uuid_abs (fifo_guuid_table g) u)"
    using uuid_find_ok [OF gos_invD(9) [OF assms(1)]] .
  with assms show ?thesis
    by (auto simp: syscall_fifo_connect_def gos_inv_def uuids_sound_def split: option.splits)
qed

lemma fifo_connect_sound_witness:
  "\<exists>g0. syscall_fifo_connect demo_env 77 3 g0 = Inr (-1, g0) \<and> gos_inv demo_env g0 \<and> (-1 = (-1 :: int) \<or> fifo_registered g0 77 (-1))"
proof -
  obtain g0 where g0: "gos_inv demo_env g0" "uuid_abs (fifo_guuid_table g0) = Map.empty"
    using demo_init by blast
  have "syscall_fifo_connect demo_env 77 3 g0 = Inr (-1, g0)"
    using uuid_find_ok [OF gos_invD(9) [OF g0(1)]] g0(2)
    by (simp add: syscall_fifo_connect_def demo_env_def)
  from fifo_connect_sound [OF g0(1) _ _ this] g0(1) this show ?thesis
    by (auto simp: c_int_small demo_env_def)
qed

subsection \<open>Writing\<close>

lemma process_segment_ok:
  "0 \<le> s \<Longrightarrow> s < int (length (global_process_list g)) \<Longrightarrow>
     gp_shm (global_process_list g ! nat s) = Some seg \<Longrightarrow> process_segment g s = Inr seg"
  by (simp add: process_segment_def)

lemma write_local_ok:
  assumes "0 \<le> f" and "f < int (length (global_fifo_list g))" and "0 < n" and "n \<le> 4096"
    and "n \<le> int (length m)"
    and "fifo_path (gf_local_uuid (global_fifo_list g ! nat f)) = Inr path"
    and "px_open (e_os e) path O_WRONLY (kern g) = (fd, k1)" and "0 \<le> fd"
    and "px_write (e_os e) fd (take (nat n) m) k1 = (r, k2)"
  shows "write_local_fifo e f m n g = Inr (r, g\<lparr>kern := px_close (e_os e) fd k2\<rparr>)"
  using assms by (simp add: write_local_fifo_def fifo_connect_def open_existing_def fifo_write_ok fifo_close_def)

lemma syscall_fifo_write_local:
  assumes "length (global_process_list g) = 4096" and "length (global_fifo_list g) = 4096"
    and "length (segs g seg) = 4096" and "0 \<le> s" and "s < 4096"
    and "gp_shm (global_process_list g ! nat s) = Some seg" and "\<not> e_smartc e"
    and "0 \<le> f" and "f < 4096"
    and "fifo_path (gf_local_uuid (global_fifo_list g ! nat f)) = Inr path"
    and "px_open (e_os e) path O_WRONLY (kern g) = (fd, k1)" and "0 \<le> fd"
    and "px_write (e_os e) fd (take (nat n) (segs g seg)) k1 = (r, k2)" and "0 < n" and "n < 4096"
  shows "syscall_fifo_write e f s n g =
    Inr (n, g\<lparr>segs := (segs g)(seg := (segs g seg)[nat n := NUL]), kern := px_close (e_os e) fd k2\<rparr>)"
proof -
  let ?m = "(segs g seg)[nat n := NUL]"
  have "write_local_fifo e f ?m n (g\<lparr>segs := (segs g)(seg := ?m)\<rparr>)
    = Inr (r, g\<lparr>segs := (segs g)(seg := ?m), kern := px_close (e_os e) fd k2\<rparr>)"
    by (subst write_local_ok [where path = path and fd = fd]) (use assms in simp_all)
  with assms show ?thesis
    by (simp add: syscall_fifo_write_def process_segment_ok Let_def del: fun_upd_apply)
qed

text \<open>C38: a local write takes exactly the first \<open>len\<close> bytes of the client's segment to the pipe
  named by the FIFO's local uuid, for every length from 1 to 4095, and reports \<open>len\<close> whatever
  \<open>write\<close> answered.  A length of 0 aborts the global OS on the assert of \<open>fifo_write\<close>, and
  a length of 4096 (the size of the segment) or a negative one writes the terminating NUL outside
  the segment.\<close>

theorem fifo_write_local_exact:
  assumes "length (global_process_list g) = 4096" and "length (global_fifo_list g) = 4096"
    and "length (segs g seg) = 4096" and "0 \<le> s" and "s < 4096"
    and "gp_shm (global_process_list g ! nat s) = Some seg"
    and "e_smartc e \<longrightarrow> is_global_fifo_local (g\<lparr>segs := (segs g)(seg := (segs g seg)[nat n := NUL])\<rparr>) f = Inr True"
    and "0 \<le> f" and "f < 4096"
    and "fifo_path (gf_local_uuid (global_fifo_list g ! nat f)) = Inr path"
    and "px_open (e_os e) path O_WRONLY (kern g) = (fd, k1)" and "0 \<le> fd"
    and "px_write (e_os e) fd (take (nat n) (segs g seg)) k1 = (r, k2)"
  shows "(0 < n \<and> n < 4096 \<longrightarrow> syscall_fifo_write e f s n g =
      Inr (n, g\<lparr>segs := (segs g)(seg := (segs g seg)[nat n := NUL]), kern := px_close (e_os e) fd k2\<rparr>))
    \<and> (n = 0 \<longrightarrow> syscall_fifo_write e f s n g = Inl AssertFail)
    \<and> (n < 0 \<or> 4096 \<le> n \<longrightarrow> syscall_fifo_write e f s n g = Inl OutOfBounds)"
proof -
  note I = assms(1,2) and len = assms(3)
  have seg: "process_segment g s = Inr seg" using assms(4-6) I(1) by (simp add: process_segment_ok)
  let ?m = "(segs g seg)[nat n := NUL]"
  let ?g = "g\<lparr>segs := (segs g)(seg := ?m)\<rparr>"
  have m: "put_at (segs g seg) n NUL = (if 0 \<le> n \<and> n < 4096 then Inr ?m else Inl OutOfBounds)"
    using len by (simp add: put_at_def)
  have loc: "(if e_smartc e then is_global_fifo_local ?g f else Inr True) = Inr True"
    using assms(7) by simp
  have call: "syscall_fifo_write e f s n g = (if 0 \<le> n \<and> n < 4096
      then and_then (write_local_fifo e f ?m n ?g) (\<lambda>(_, g). Inr (n, g)) else Inl OutOfBounds)"
    using loc by (simp add: syscall_fifo_write_def seg m Let_def)
  have "take (nat n) ?m = take (nat n) (segs g seg)" by simp
  then have "0 < n \<and> n < 4096 \<longrightarrow> write_local_fifo e f ?m n ?g = Inr (r, ?g\<lparr>kern := px_close (e_os e) fd k2\<rparr>)"
    using assms(8-13) I(2) len by (intro impI write_local_ok) auto
  moreover have "write_local_fifo e f ?m 0 ?g = Inl AssertFail"
    using assms(8-12) I(2)
    by (simp add: write_local_fifo_def fifo_connect_def open_existing_def fifo_write_refused)
  ultimately show ?thesis using call by (auto simp del: fun_upd_apply)
qed

definition demo_running :: "pipes gos" where
  "demo_running = demo_static\<lparr>
     global_process_list := (global_process_list demo_static)[1 := \<lparr>gp_pu_id = 1, gp_local_pid = 0,
       gp_global_pid = 1, gp_shm = Some 5\<rparr>],
     global_fifo_list := (global_fifo_list demo_static)[513 := new_fifo demo_static 513 41 1 77],
     segs := (\<lambda>_. ''hello'' @ replicate 4091 NUL),
     kern := pipes_empty\<lparr>files := [''/tmp/fifo_dir/ipc_fifo_id-41'']\<rparr>\<rparr>"

lemma demo_running_facts:
  "length (global_process_list demo_running) = 4096" "length (global_fifo_list demo_running) = 4096"
  "gp_shm (global_process_list demo_running ! 1) = Some 5"
  "gf_local_uuid (global_fifo_list demo_running ! 513) = 41"
  "length (segs demo_running i) = 4096" "take 3 (segs demo_running i) = ''hel''"
  by (simp_all add: demo_running_def demo_static_def gos_static_def new_fifo_def)

lemma demo_path: "fifo_path 41 = Inr ''/tmp/fifo_dir/ipc_fifo_id-41''"
proof -
  have "show_int 41 = ''41''" by code_simp
  then show ?thesis by (simp add: fifo_path_ok c_int_small)
qed

lemma fifo_write_local_exact_witness:
  "\<exists>g'. syscall_fifo_write demo_env 513 1 3 demo_running = Inr (3, g')
    \<and> content (kern g') ''/tmp/fifo_dir/ipc_fifo_id-41'' = ''hel''"
proof -
  let ?p = "''/tmp/fifo_dir/ipc_fifo_id-41''"
  let ?k1 = "pipes_empty\<lparr>files := [?p], opened := [?p]\<rparr>"
  have op: "px_open (e_os demo_env) ?p O_WRONLY (kern demo_running) = (0, ?k1)"
    by (simp add: demo_env_def pipe_os_def demo_running_def pipes_empty_def)
  have wr: "px_write (e_os demo_env) 0 ''hel'' ?k1 = (3, ?k1\<lparr>content := (\<lambda>_. [])(?p := ''hel'')\<rparr>)"
    by (simp add: demo_env_def pipe_os_def pipes_empty_def)
  note F = demo_running_facts
  show ?thesis
    using fifo_write_local_exact [where s = 1 and f = 513 and n = 3 and seg = 5 and r = 3,
        OF F(1,2,5) _ _ _ _ _ _ _ op]
      F wr demo_path by (simp add: demo_env_def) (simp add: pipe_os_def)
qed

end
