(* ===== verification/Client_Correct.thy ===== *)
theory Client_Correct
  imports Client GlobalOS_Props
begin

section \<open>Client and global OS together\<close>

text \<open>
  A syscall of the runtime, followed through the socket, the dispatcher and back; the strings
  that \<open>global_spawn\<close> packs and \<open>syscall_gspawn\<close> unpacks; and the requests that do not
  survive the trip.
\<close>

subsection \<open>Requests and responses\<close>

lemma length_response: "length (format_response r) = 6 + length (show_int r)"
  by (simp add: format_response_eq)

lemma response_fits: "c_int r \<Longrightarrow> length (format_response r) \<le> 17"
  using length_show_int_le [of r] by (simp add: length_response)

lemma request_fits:
  assumes "c_int c" "c_int a1" "c_int a2" "c_int a3" "c_int a4" and "length f \<le> 32"
  shows "length (format_request c f a1 a2 a3 a4) < 256"
  using length_format_request_le [OF assms(1-5), of f] assms(6) by simp

lemma handle_request:
  assumes "word_name f" and "length f < 256"
    and "c_int a1" "c_int a2" "c_int a3" "c_int a4"
    and "length (format_request c f a1 a2 a3 a4) \<le> length old"
  shows "handle_buffer e fd (blit old 0 (format_request c f a1 a2 a3 a4)) g =
    and_then (dispatch e \<lparr>client_id = c, func_name = f, func_args1 = a1, func_args2 = a2,
        func_args3 = a3, func_args4 = a4\<rparr> g) (\<lambda>(ret, g).
    and_then (into_buffer 256 (format_response ret)) (\<lambda>sys_resp.
      let (_, k) = px_write (e_os e) fd sys_resp (kern g) in Inr (g\<lparr>kern := k\<rparr>)))"
  using assms by (simp add: handle_buffer_def usable_def blit_def)

lemma invoke_ok:
  assumes "c_int r" and "px_write os fd msg k = (w, k1)"
    and "px_read os fd 31 k1 = (int (length (format_response r)), format_response r, k2)"
  shows "invoke_global_syscall os fd msg k = Inr (r, k2)"
  using assms response_fits [OF assms(1)] length_response [of r]
  by (simp add: invoke_global_syscall_def)

text \<open>C1: a global syscall returns to the client exactly the result of its handler: a request
  printed by the runtime is read by the service loop (whatever an earlier request left in the
  buffer), dispatched with the same name and arguments, and the printed answer, read back by the
  client, scans to the handler's result.\<close>

theorem syscall_round_trip:
  assumes "word_name f" and "length f \<le> 32"
    and "c_int c" "c_int a1" "c_int a2" "c_int a3" "c_int a4"
    and "length old = MAXLEN"
    and "dispatch e \<lparr>client_id = c, func_name = f, func_args1 = a1, func_args2 = a2,
        func_args3 = a3, func_args4 = a4\<rparr> g = Inr (r, g1)" and "c_int r"
    and "px_write os fd (format_request c f a1 a2 a3 a4) k = (w, k1)"
    and "px_read os fd 31 k1 = (int (length (format_response r)), format_response r, k2)"
  shows "handle_buffer e connfd (blit old 0 (format_request c f a1 a2 a3 a4)) g =
      Inr (g1\<lparr>kern := snd (px_write (e_os e) connfd (format_response r) (kern g1))\<rparr>)
    \<and> invoke_global_syscall os fd (format_request c f a1 a2 a3 a4) k = Inr (r, k2)"
proof -
  have "length (format_request c f a1 a2 a3 a4) \<le> length old"
    using request_fits [OF assms(3-7,2)] assms(8) by (simp add: gos_consts)
  from handle_request [OF assms(1) _ assms(4-7) this, of e connfd g]
  have "handle_buffer e connfd (blit old 0 (format_request c f a1 a2 a3 a4)) g =
      Inr (g1\<lparr>kern := snd (px_write (e_os e) connfd (format_response r) (kern g1))\<rparr>)"
    using assms(2,9) response_fits [OF assms(10)] by (simp add: split_beta)
  with invoke_ok [OF assms(10-12)] show ?thesis by blast
qed

definition reply_os :: "int \<Rightarrow> pipes posix" where
  "reply_os r = pipe_os\<lparr>px_read := (\<lambda>fd n k. (int (length (format_response r)), format_response r, k))\<rparr>"

lemma word_names [simp]:
  "word_name ''FIFO_READ''" "word_name ''FIFO_WRITE''" "word_name ''FIFO_CLOSE''"
  "word_name ''FIFO_INIT''" "word_name ''FIFO_CONNECT''" "word_name ''GSPAWN''"
  "word_name ''RegisterSelfGlobal''" "word_name ''WRITEFIFO''" "word_name ''FIFOCONNECT''"
  by (simp_all add: word_name_def isspace_def NUL_def)

lemma syscall_round_trip_witness:
  "invoke_global_syscall (reply_os (-205)) 4 (format_request 1 ''FIFO_READ'' 513 1 64 0) pipes_empty
    = Inr (-205, pipes_empty)"
proof -
  have d: "dispatch demo_env \<lparr>client_id = 1, func_name = ''FIFO_READ'', func_args1 = 513, func_args2 = 1,
    func_args3 = 64, func_args4 = 0\<rparr> demo_running = Inr (-205, demo_running)"
    by (simp add: dispatch_def syscall_fifo_read_def demo_env_def gos_consts)
  have w: "px_write (reply_os (-205)) 4 (format_request 1 ''FIFO_READ'' 513 1 64 0) pipes_empty = (-1, pipes_empty)"
    by (simp add: reply_os_def pipe_os_def pipes_empty_def)
  have r: "px_read (reply_os (-205)) 4 31 pipes_empty =
    (int (length (format_response (-205))), format_response (-205), pipes_empty)"
    by (simp add: reply_os_def)
  have len: "length (replicate 1024 NUL) = MAXLEN" by (simp add: gos_consts)
  show ?thesis
    using syscall_round_trip [OF _ _ _ _ _ _ _ len d _ w r] by (simp add: c_int_small)
qed

subsection \<open>Requests that kill\<close>

text \<open>\<open>global_fifo_close\<close> sends a syscall the global OS does not know: its dispatcher has no
  branch for \<open>FIFO_CLOSE\<close>, and the default branch calls \<open>exit\<close>, so closing a FIFO takes the
  whole global OS down.\<close>

theorem fifo_close_kills_global_os:
  assumes "c_int (self_global_id c)" and "c_int global_fifo" and "length old = MAXLEN"
  defines "msg \<equiv> format_request (self_global_id c) ''FIFO_CLOSE'' global_fifo 0 0 0"
  shows "global_fifo_close os global_fifo c =
      and_then (invoke_global_syscall os (global_OS_id c) msg (ckern c)) (\<lambda>(ret, k). Inr (ret, c\<lparr>ckern := k\<rparr>))
    \<and> handle_buffer e connfd (blit old 0 msg) g = Inl Exit"
proof -
  have fits: "length msg < 256"
    unfolding msg_def using assms(1,2) by (intro request_fits) (simp_all add: c_int_small)
  then have "global_fifo_close os global_fifo c =
      and_then (invoke_global_syscall os (global_OS_id c) msg (ckern c)) (\<lambda>(ret, k). Inr (ret, c\<lparr>ckern := k\<rparr>))"
    by (simp add: global_fifo_close_def send_request_def msg_def)
  moreover have "handle_buffer e connfd (blit old 0 msg) g = Inl Exit"
    using fits assms(3) unfolding msg_def
    by (subst handle_request) (simp_all add: assms(2) c_int_small gos_consts dispatch_def)
  ultimately show ?thesis by blast
qed

lemma fifo_close_kills_global_os_witness:
  "handle_buffer demo_env 4 (blit (replicate 1024 NUL) 0 (format_request (-1) ''FIFO_CLOSE'' 513 0 0 0)) demo_running
    = Inl Exit"
  using fifo_close_kills_global_os [of "client_static (\<lambda>_. []) pipes_empty" 513 "replicate 1024 NUL"
      pipe_os demo_env 4 demo_running]
  by (simp add: client_static_def c_int_small gos_consts)

text \<open>\<open>global_fifo_read\<close> prints its request into 64 bytes.  The fixed text takes 49 of them, so
  the request overflows the array exactly when its four numbers take 15 characters or more,
  which four-digit ids reach; otherwise the request goes out as printed.\<close>

theorem fifo_read_request_overflow:
  fixes c :: "'k client" and global_fifo len :: int
  defines "digits \<equiv> length (show_int (self_global_id c)) + length (show_int global_fifo)
    + length (show_int (global_OS_shm_client_uuid c)) + length (show_int len)"
  defines "msg \<equiv> format_request (self_global_id c) ''FIFO_READ'' global_fifo (global_OS_shm_client_uuid c) len 0"
  shows "global_fifo_read os global_fifo buf len c =
    (if 15 \<le> digits then Inl OutOfBounds
     else and_then (invoke_global_syscall os (global_OS_id c) msg (ckern c)) (\<lambda>(ret, k).
       if ret < 0 then Inr (ret, buf, c\<lparr>ckern := k\<rparr>)
       else if ret > 8192 \<or> ret > len then Inr (-1, buf, c\<lparr>ckern := k\<rparr>)
       else and_then (client_segment c) (\<lambda>s.
            and_then (memcpy_at buf 0 (csegs c s) ret) (\<lambda>buf. Inr (ret, buf, c\<lparr>ckern := k\<rparr>)))))"
proof -
  have "length (show_int 0) = 1" by code_simp
  then have len: "length msg = 49 + digits"
    by (simp add: length_format_request digits_def msg_def)
  have seg: "client_segment (c\<lparr>ckern := k\<rparr>) = client_segment c" for k
    by (simp add: client_segment_def)
  show ?thesis
  proof (cases "15 \<le> digits")
    case True
    with len show ?thesis
      by (simp add: global_fifo_read_def send_request_def into_buffer_def msg_def)
  next
    case False
    with len have "into_buffer 64 msg = Inr msg" by simp
    then show ?thesis
      using False
      by (cases "invoke_global_syscall os (global_OS_id c) msg (ckern c)")
        (auto simp: global_fifo_read_def send_request_def msg_def [symmetric] seg)
  qed
qed

subsection \<open>Writing through the shared memory\<close>

lemma write_request:
  assumes "global_OS_shm_client_addr c = Some s" and "length (csegs c s) = 4096"
    and "0 \<le> len" and "len \<le> 4096" and "len \<le> int (length buf)"
    and "c_int (self_global_id c)" and "c_int f" and "c_int (global_OS_shm_client_uuid c)"
  shows "global_fifo_write os f buf len c =
    (let c = c\<lparr>csegs := (csegs c)(s := blit (csegs c s) 0 (take (nat len) buf))\<rparr> in
     and_then (invoke_global_syscall os (global_OS_id c)
       (format_request (self_global_id c) ''FIFO_WRITE'' f (global_OS_shm_client_uuid c) len 0) (ckern c))
     (\<lambda>(ret, k). Inr (ret, c\<lparr>ckern := k\<rparr>)))"
proof -
  have "c_int len" using assms(3,4) by (simp add: c_int_small)
  with assms(6-8) have "length (format_request (self_global_id c) ''FIFO_WRITE'' f
      (global_OS_shm_client_uuid c) len 0) < 256"
    by (intro request_fits) (simp_all add: c_int_small)
  with assms(1-5) show ?thesis
    by (simp add: global_fifo_write_def client_segment_def memcpy_at_def send_request_def Let_def)
qed

text \<open>C22: a write arrives.  What \<open>global_fifo_write\<close> puts into the shared segment and asks for is,
  on the side of the global OS that shares the segment, the write of exactly the first \<open>len\<close>
  bytes of the caller's buffer to the pipe of the FIFO, for any length from 1 to 4095, and the
  handler answers \<open>len\<close>.\<close>

theorem fifo_write_end_to_end:
  assumes client: "global_OS_shm_client_addr c = Some s" "length (csegs c s) = 4096"
      "c_int (self_global_id c)" "c_int (global_OS_shm_client_uuid c)"
    and len: "0 < len" "len < 4096" "len \<le> int (length buf)"
    and server: "length (global_process_list g) = 4096" "length (global_fifo_list g) = 4096"
      "0 \<le> global_OS_shm_client_uuid c" "global_OS_shm_client_uuid c < 4096"
      "gp_shm (global_process_list g ! nat (global_OS_shm_client_uuid c)) = Some seg"
      "\<not> e_smartc e" "0 \<le> f" "f < 4096"
      "fifo_path (gf_local_uuid (global_fifo_list g ! nat f)) = Inr path"
      "px_open (e_os e) path O_WRONLY (kern g) = (fd, k1)" "0 \<le> fd"
      "px_write (e_os e) fd (take (nat len) buf) k1 = (r, k2)"
    and shared: "segs g seg = blit (csegs c s) 0 (take (nat len) buf)"
  defines "msg \<equiv> format_request (self_global_id c) ''FIFO_WRITE'' f (global_OS_shm_client_uuid c) len 0"
  shows "global_fifo_write os f buf len c =
      (let c = c\<lparr>csegs := (csegs c)(s := segs g seg)\<rparr> in
       and_then (invoke_global_syscall os (global_OS_id c) msg (ckern c)) (\<lambda>(ret, k). Inr (ret, c\<lparr>ckern := k\<rparr>)))
    \<and> (\<exists>req g'. scan_request msg = Some req \<and> dispatch e req g = Inr (len, g')
         \<and> kern g' = px_close (e_os e) fd k2)"
proof -
  have "c_int f" using server(7,8) by (simp add: c_int_small)
  then have "global_fifo_write os f buf len c =
      (let c = c\<lparr>csegs := (csegs c)(s := segs g seg)\<rparr> in
       and_then (invoke_global_syscall os (global_OS_id c) msg (ckern c)) (\<lambda>(ret, k). Inr (ret, c\<lparr>ckern := k\<rparr>)))"
    using write_request [OF client(1,2) _ _ len(3) client(3) _ client(4), of f os] len shared
    by (simp add: msg_def Let_def)
  moreover have "take (nat len) (segs g seg) = take (nat len) buf" "length (segs g seg) = 4096"
    using client(2) len by (simp_all add: shared blit_def)
  then have "\<exists>g'. syscall_fifo_write e f (global_OS_shm_client_uuid c) len g = Inr (len, g')
      \<and> kern g' = px_close (e_os e) fd k2"
    using len server by (simp add: syscall_fifo_write_local)
  moreover have "scan_request msg = Some \<lparr>client_id = self_global_id c, func_name = ''FIFO_WRITE'',
      func_args1 = f, func_args2 = global_OS_shm_client_uuid c, func_args3 = len, func_args4 = 0\<rparr>"
    using scan_format_request [of "''FIFO_WRITE''" _ _ _ _ _ "[]"] by (simp add: msg_def)
  ultimately show ?thesis by (simp add: dispatch_def)
qed

definition demo_client :: "pipes client" where
  "demo_client = \<lparr>global_OS_id = 4, self_global_id = 1, global_OS_shm_client_uuid = 1,
     global_OS_shm_client_addr = Some 5, csegs = (\<lambda>_. replicate 4096 NUL), ckern = pipes_empty\<rparr>"

lemma demo_shared: "segs demo_running 5 = blit (csegs demo_client 5) 0 (take 5 ''hello world'')"
  by (simp add: demo_running_def demo_client_def blit_def)

lemma fifo_write_end_to_end_witness:
  "\<exists>req g'. scan_request (format_request 1 ''FIFO_WRITE'' 513 1 5 0) = Some req
    \<and> dispatch demo_env req demo_running = Inr (5, g')
    \<and> content (kern g') ''/tmp/fifo_dir/ipc_fifo_id-41'' = ''hello''"
proof -
  let ?p = "''/tmp/fifo_dir/ipc_fifo_id-41''"
  let ?k1 = "pipes_empty\<lparr>files := [?p], opened := [?p]\<rparr>"
  have op: "px_open (e_os demo_env) ?p O_WRONLY (kern demo_running) = (0, ?k1)"
    by (simp add: demo_env_def pipe_os_def demo_running_def pipes_empty_def)
  have wr: "px_write (e_os demo_env) 0 (take (nat 5) ''hello world'') ?k1
    = (5, ?k1\<lparr>content := (\<lambda>_. [])(?p := ''hello'')\<rparr>)"
    by (simp add: demo_env_def pipe_os_def pipes_empty_def)
  have sh: "segs demo_running 5 = blit (csegs demo_client 5) 0 (take (nat 5) ''hello world'')"
    using demo_shared by simp
  note F = demo_running_facts
  have c: "global_OS_shm_client_addr demo_client = Some 5" "length (csegs demo_client 5) = 4096"
    "self_global_id demo_client = 1" "global_OS_shm_client_uuid demo_client = 1"
    by (simp_all add: demo_client_def)
  have cl: "px_close (e_os demo_env) fd k = k" for fd k by (simp add: demo_env_def pipe_os_def)
  have sm: "\<not> e_smartc demo_env" by (simp add: demo_env_def)
  from fifo_write_end_to_end [OF c(1,2) _ _ _ _ _ F(1,2) _ _ _ sm _ _ _ op _ wr sh, of 513 pipe_os] c F demo_path
  have "\<exists>req g'. scan_request (format_request 1 ''FIFO_WRITE'' 513 1 5 0) = Some req
    \<and> dispatch demo_env req demo_running = Inr (5, g')
    \<and> kern g' = ?k1\<lparr>content := (\<lambda>_. [])(?p := ''hello'')\<rparr>"
    by (simp add: c_int_small cl)
  then show ?thesis by fastforce
qed

subsection \<open>Spawning\<close>

text \<open>The layout of the shared memory: every string with its NUL, one behind the other.\<close>

definition packed :: "string list \<Rightarrow> string" where
  "packed ss = concat (map (\<lambda>s. s @ [NUL]) ss)"

lemma packed_Nil [simp]: "packed [] = []"
  by (simp add: packed_def)

lemma packed_Cons [simp]: "packed (s # ss) = s @ NUL # packed ss"
  by (simp add: packed_def)

lemma packed_append [simp]: "packed (ss @ ts) = packed ss @ packed ts"
  by (simp add: packed_def)

lemma packed_last: "ss \<noteq> [] \<Longrightarrow> packed ss = butlast (packed ss) @ [NUL]"
  by (cases ss rule: rev_cases) (auto simp: butlast_append)

lemma pack_strings_ok:
  assumes "length pre + length rest \<ge> 256" and "length pre \<le> 256"
  shows "pack_strings (pre @ rest) (length pre) ss =
    (if length pre + length (packed ss) \<le> 256
     then Inr (pre @ packed ss @ drop (length (packed ss)) rest, length pre + length (packed ss))
     else Inl AssertFail)"
  using assms
proof (induction ss arbitrary: pre rest)
  case Nil
  then show ?case by simp
next
  case (Cons s ss)
  show ?case
  proof (cases "length pre + length s + 1 \<le> 256")
    case False
    then show ?thesis by simp
  next
    case True
    have "memcpy_at (pre @ rest) (length pre) (s @ [NUL]) (int (length s) + 1)
      = Inr ((pre @ s @ [NUL]) @ drop (length s + 1) rest)"
      using True Cons.prems(1) by (simp add: memcpy_at_def blit_def nat_add_distrib)
    moreover note Cons.IH [of "pre @ s @ [NUL]" "drop (length s + 1) rest"]
    ultimately show ?thesis using True Cons.prems by (simp add: add.commute add.left_commute)
  qed
qed

lemma pack_spawn_ok:
  assumes "256 \<le> length mem"
  shows "pack_spawn mem path argv envp =
    (let p = packed (path # argv @ envp) in
     if length p \<le> 256 then Inr (p @ drop (length p) mem, length p) else Inl AssertFail)"
proof (cases "length path + 1 \<le> 256")
  case False
  then show ?thesis by (simp add: pack_spawn_def Let_def)
next
  case True
  let ?q = "path @ [NUL]"
  have "memcpy_at mem 0 ?q (int (length path) + 1) = Inr (?q @ drop (length ?q) mem)"
    using True assms by (simp add: memcpy_at_def blit_def nat_add_distrib)
  moreover note pack_strings_ok [of ?q "drop (length ?q) mem" argv]
  moreover note pack_strings_ok [of "?q @ packed argv" "drop (length (packed argv)) (drop (length ?q) mem)" envp]
  ultimately show ?thesis
    using True assms by (simp add: pack_spawn_def Let_def add.commute add.left_commute)
qed

lemma string_at_packed:
  "NUL \<notin> set s \<Longrightarrow> string_at (pre @ s @ NUL # post) (length pre) = Inr s"
  by (simp add: string_at_def)

lemma unpack_strings_ok:
  assumes "\<forall>s \<in> set ss. NUL \<notin> set s"
  shows "unpack_strings (pre @ NUL # packed ss @ post) (length pre) (length ss)
    = Inr (ss, length pre + length (packed ss))"
  using assms
proof (induction ss arbitrary: pre)
  case Nil
  then show ?case by simp
next
  case (Cons s ss)
  have "string_at ((pre @ [NUL]) @ s @ NUL # packed ss @ post) (length (pre @ [NUL])) = Inr s"
    using Cons.prems by (intro string_at_packed) simp
  moreover note Cons.IH [of "pre @ NUL # s"]
  ultimately show ?case using Cons.prems by (simp add: add.commute add.left_commute)
qed

lemma c_vector_exact_iff:
  assumes "length stack = 8" and "length args < 8"
  shows "c_vector stack args = Inr args \<longleftrightarrow> stack ! length args = None"
proof -
  obtain x xs where d: "drop (length args) stack = x # xs"
    using assms by (cases "drop (length args) stack") auto
  have x: "stack ! length args = x"
    using d assms by (metis nth_via_drop)
  have t: "takeWhile (\<lambda>y. y \<noteq> None) (map Some args @ zs) = map Some args @ takeWhile (\<lambda>y. y \<noteq> None) zs" for zs
    by (induction args) auto
  show ?thesis
    unfolding c_vector_def Let_def d t x by (cases x) (auto simp: comp_def)
qed

text \<open>C33: spawning carries the path and both vectors across.  What \<open>global_spawn\<close> packs into the
  shared memory, \<open>syscall_gspawn\<close> cuts out again string for string, and whatever the client was
  allowed to pack (256 bytes) passes the length check of the global OS; a vector of eight strings
  or more, which the client does not refuse, aborts the global OS instead.  What \<open>posix_spawn\<close>
  is given are the strings followed by whatever the stack holds: it sees the client's vector
  exactly when the first slot behind it happens to be null, because no terminator is stored.\<close>

theorem gspawn_transports:
  assumes pack: "pack_spawn mem path argv envp = Inr (mem', n)" "256 \<le> length mem"
    and strings: "\<forall>s \<in> set (path # argv @ envp). NUL \<notin> set s"
    and shm: "process_segment g s = Inr seg" "segs g seg = mem'"
    and here: "e_smartc e \<longrightarrow> pu = current_pu_id g"
    and stack: "length (e_argv e) = 8" "length (e_envp e) = 8"
  shows "syscall_gspawn e pu s (int (length argv)) (int (length envp)) g =
      (if 8 \<le> length argv \<or> 8 \<le> length envp then Inl AssertFail
       else and_then (c_vector (e_argv e) argv) (\<lambda>argv. and_then (c_vector (e_envp e) envp) (\<lambda>envp.
         let (status, k) = px_spawn (e_os e) path argv envp (kern g) in Inr (status, g\<lparr>kern := k\<rparr>))))
    \<and> (length argv < 8 \<longrightarrow> (c_vector (e_argv e) argv = Inr argv \<longleftrightarrow> e_argv e ! length argv = None))"
proof -
  let ?post = "drop (length (packed (path # argv @ envp))) mem"
  have m: "mem' = path @ NUL # packed argv @ packed envp @ ?post"
    and n: "length (packed (path # argv @ envp)) \<le> 256"
    using pack by (auto simp: pack_spawn_ok Let_def split: if_splits)
  have path: "string_at mem' 0 = Inr path"
    using string_at_packed [of path "[]"] strings by (simp add: m)
  have a: "unpack_strings mem' (length path) (length argv) = Inr (argv, length path + length (packed argv))"
    using unpack_strings_ok [of argv path "packed envp @ ?post"] strings by (simp add: m)
  have b: "unpack_strings mem' (length path + length (packed argv)) (length envp)
      = Inr (envp, length path + length (packed argv) + length (packed envp))"
  proof (cases "argv = []")
    case True
    then show ?thesis using unpack_strings_ok [of envp path ?post] strings by (simp add: m)
  next
    case False
    then obtain q where q: "packed argv = q @ [NUL]" using packed_last by metis
    let ?pre = "path @ NUL # q"
    have "mem' = ?pre @ NUL # packed envp @ ?post" and "length ?pre = length path + length (packed argv)"
      using m by (simp_all add: q)
    then show ?thesis using unpack_strings_ok [of envp ?pre ?post] strings by simp
  qed
  have "\<not> (e_smartc e \<and> pu \<noteq> current_pu_id g)" using here by blast
  then have "syscall_gspawn e pu s (int (length argv)) (int (length envp)) g =
      (if 8 \<le> length argv \<or> 8 \<le> length envp then Inl AssertFail
       else and_then (c_vector (e_argv e) argv) (\<lambda>argv. and_then (c_vector (e_envp e) envp) (\<lambda>envp.
         let (status, k) = px_spawn (e_os e) path argv envp (kern g) in Inr (status, g\<lparr>kern := k\<rparr>))))"
    using shm n path a b by (auto simp: syscall_gspawn_def gos_consts)
  with c_vector_exact_iff [OF stack(1)] show ?thesis by blast
qed

definition demo_spawn_mem :: string where
  "demo_spawn_mem = packed [''/bin/ls'', ''ls'', ''-l'', ''HOME=/''] @ replicate 4075 NUL"

lemma gspawn_transports_witness:
  "syscall_gspawn demo_env 0 1 2 1 (demo_running\<lparr>segs := (\<lambda>_. demo_spawn_mem)\<rparr>) =
    Inr (0, demo_running\<lparr>segs := (\<lambda>_. demo_spawn_mem),
      kern := (kern demo_running)\<lparr>spawned := [(''/bin/ls'', [''ls'', ''-l''], [''HOME=/''])]\<rparr>\<rparr>)"
proof -
  let ?g = "demo_running\<lparr>segs := (\<lambda>_. demo_spawn_mem)\<rparr>"
  have pack: "pack_spawn (replicate 4096 NUL) ''/bin/ls'' [''ls'', ''-l''] [''HOME=/''] = Inr (demo_spawn_mem, 21)"
    by (simp add: pack_spawn_ok demo_spawn_mem_def)
  have seg: "process_segment ?g 1 = Inr 5"
    using demo_running_facts(1,3) by (simp add: process_segment_def)
  have str: "\<forall>s \<in> set (''/bin/ls'' # [''ls'', ''-l''] @ [''HOME=/'']). NUL \<notin> set s"
    by (simp add: NUL_def)
  have env: "e_argv demo_env = replicate 8 None" "e_envp demo_env = replicate 8 None" "\<not> e_smartc demo_env"
    by (simp_all add: demo_env_def)
  have sp: "px_spawn (e_os demo_env) p a v k = (0, k\<lparr>spawned := (p, a, v) # spawned k\<rparr>)" for p a v k
    by (simp add: demo_env_def pipe_os_def)
  have "c_vector (replicate 8 None) [''ls'', ''-l''] = Inr [''ls'', ''-l'']"
    "c_vector (replicate 8 None) [''HOME=/''] = Inr [''HOME=/'']"
    by (simp_all add: c_vector_def)
  with gspawn_transports [OF pack _ str seg, of demo_env 0] show ?thesis
    by (simp add: env sp) (simp add: demo_running_def pipes_empty_def)
qed

end
