(* ===== verification/Dsm.thy ===== *)
theory Dsm
  imports GlobalOS_Props
begin

section \<open>The DSM layer between PUs\<close>

text \<open>
  \<open>inter-device/dsm_handlers.c\<close> and the messaging core of \<open>inter-device/uct_molecule_dsm.c\<close>.
  The UCT library is a parameter: a channel holds the results of the coming calls of
  \<open>uct_ep_am_zcopy\<close> and the callbacks that the coming calls of \<open>uct_worker_progress\<close> run.
  A loop that waits for a callback returns \<open>None\<close> when none of the coming calls brings one:
  not returning is a value of the model.
\<close>

subsection \<open>Handlers of requests from another PU\<close>

text \<open>The scanned numbers are variables of type \<open>int\<close>, and their sum wraps around.\<close>

definition dsm_handlers :: "'k env \<Rightarrow> string \<Rightarrow> int \<Rightarrow> 'k gos \<Rightarrow> (int \<times> 'k gos) run" where
  "dsm_handlers e dsm_call_buf len g =
     (case scan_dsm_request dsm_call_buf of
        None \<Rightarrow> Inl Indeterminate
      | Some r \<Rightarrow>
          if 256 \<le> length (func_name r) then Inl OutOfBounds
          else if \<not> (c_int (func_args1 r) \<and> c_int (buf_len r) \<and> c_int (buf_offset r)) then Inl Indeterminate
          else if \<not> wrap32 (buf_offset r + buf_len r) < len then Inl AssertFail
          else if func_name r = ''WRITEFIFO''
            then write_local_fifo e (func_args1 r) (drop (nat (buf_offset r)) dsm_call_buf) (buf_len r) g
          else if func_name r = ''FIFOCONNECT''
            then and_then (local_fifo_connect g (func_args1 r)) (\<lambda>ret. Inr (ret, g))
          else Inr (-1, g))"

subsection \<open>Channels\<close>

datatype ucs_status = UCS_OK | UCS_INPROGRESS | UCS_ERR_NO_RESOURCE | UCS_ERR_OTHER

text \<open>What a descriptor holder points to: the mark of the completion callback, or a received
  message with its flag \<open>is_uct_desc\<close>.\<close>

datatype desc = DEADBEEF | Received bool string

datatype uct_callback = AmDesc string | AmData string | AmNoMemory string | ZcopyDone bool

record chan =
  desc_holder :: "desc option"
  need_memh :: "ucs_status option"
  zcopy_results :: "ucs_status list"
  coming :: "uct_callback list list"
  sent :: "string list"

type_synonym 'a wait = "'a run option"

definition wait_then :: "'a wait \<Rightarrow> ('a \<Rightarrow> 'b wait) \<Rightarrow> 'b wait" where
  "wait_then m f = (case m of None \<Rightarrow> None | Some (Inl c) \<Rightarrow> Some (Inl c) | Some (Inr x) \<Rightarrow> f x)"

lemma wait_then_simps [simp]:
  "wait_then None f = None" "wait_then (Some (Inl c)) f = Some (Inl c)" "wait_then (Some (Inr x)) f = f x"
  by (simp_all add: wait_then_def)

text \<open>\<open>hello_world\<close> stores the descriptor or a copy of the message (unless \<open>malloc\<close> fails),
  the completion callback the mark; both use the same holder.\<close>

definition hello_world :: "bool \<Rightarrow> string \<Rightarrow> chan \<Rightarrow> chan" where
  "hello_world is_desc data ch = ch\<lparr>desc_holder := Some (Received is_desc data)\<rparr>"

definition zcopy_completion_cb :: "bool \<Rightarrow> chan \<Rightarrow> chan run" where
  "zcopy_completion_cb ok ch =
     (if \<not> ok then Inl AssertFail else Inr (ch\<lparr>desc_holder := Some DEADBEEF\<rparr>))"

fun run_callback :: "uct_callback \<Rightarrow> chan \<Rightarrow> chan run" where
  "run_callback (AmDesc d) ch = Inr (hello_world True d ch)"
| "run_callback (AmData d) ch = Inr (hello_world False d ch)"
| "run_callback (AmNoMemory d) ch = Inr ch"
| "run_callback (ZcopyDone ok) ch = zcopy_completion_cb ok ch"

fun run_callbacks :: "uct_callback list \<Rightarrow> chan \<Rightarrow> chan run" where
  "run_callbacks [] ch = Inr ch"
| "run_callbacks (c # cs) ch = and_then (run_callback c ch) (run_callbacks cs)"

definition uct_worker_progress :: "chan \<Rightarrow> chan wait" where
  "uct_worker_progress ch = (case coming ch of [] \<Rightarrow> None
     | cs # rest \<Rightarrow> Some (run_callbacks cs (ch\<lparr>coming := rest\<rparr>)))"

subsection \<open>Waiting\<close>

text \<open>\<open>while (!holder) uct_worker_progress(...)\<close>, by recursion on the coming progress calls.\<close>

fun wait_for_holder :: "uct_callback list list \<Rightarrow> chan \<Rightarrow> chan wait" where
  "wait_for_holder css ch =
     (if desc_holder ch \<noteq> None then Some (Inr (ch\<lparr>coming := css\<rparr>))
      else case css of [] \<Rightarrow> None
        | cs # rest \<Rightarrow> wait_then (Some (run_callbacks cs ch)) (wait_for_holder rest))"

declare wait_for_holder.simps [simp del]

definition wait_holder :: "chan \<Rightarrow> chan wait" where
  "wait_holder ch = wait_for_holder (coming ch) ch"

subsection \<open>Sending\<close>

text \<open>The loop that repeats \<open>uct_ep_am_zcopy\<close> while resources lack; a call that succeeds or is
  in progress has taken the message.\<close>

fun zcopy_loop :: "ucs_status list \<Rightarrow> string \<Rightarrow> chan \<Rightarrow> (ucs_status \<times> chan) wait" where
  "zcopy_loop [] msg ch = None"
| "zcopy_loop (st # sts) msg ch =
     wait_then (uct_worker_progress (ch\<lparr>zcopy_results := sts,
         sent := (if st \<in> {UCS_OK, UCS_INPROGRESS} then sent ch @ [msg] else sent ch)\<rparr>)) (\<lambda>ch.
       if st = UCS_ERR_NO_RESOURCE then zcopy_loop sts msg ch else Some (Inr (st, ch)))"

definition do_am_zcopy :: "string \<Rightarrow> chan \<Rightarrow> (ucs_status \<times> chan) wait" where
  "do_am_zcopy msg ch =
     (let status = (case need_memh ch of None \<Rightarrow> UCS_OK | Some st \<Rightarrow> st) in
      wait_then
        (if status = UCS_OK then
           wait_then (zcopy_loop (zcopy_results ch) msg ch) (\<lambda>(status, ch).
             if status = UCS_INPROGRESS
             then wait_then (wait_holder ch) (\<lambda>ch. Some (Inr (UCS_OK, ch)))
             else Some (Inr (status, ch)))
         else Some (Inr (status, ch)))
        (\<lambda>(status, ch). Some (Inr (status, ch\<lparr>desc_holder := None\<rparr>))))"

text \<open>The client and the server side have functions of their own, with the same body over their
  own holder.\<close>

definition client_molecule_do_am_zcopy :: "string \<Rightarrow> chan \<Rightarrow> (ucs_status \<times> chan) wait" where
  "client_molecule_do_am_zcopy = do_am_zcopy"

definition server_molecule_do_am_zcopy :: "string \<Rightarrow> chan \<Rightarrow> (ucs_status \<times> chan) wait" where
  "server_molecule_do_am_zcopy = do_am_zcopy"

text \<open>The result is \<open>None\<close> where the function ends without a \<open>return\<close> after an error.\<close>

definition molecule_send_msg :: "bool \<Rightarrow> string \<Rightarrow> int \<Rightarrow> chan \<Rightarrow> (int option \<times> chan) wait" where
  "molecule_send_msg is_server msg_buf len ch =
     (if \<not> len \<le> 8192 then Some (Inl AssertFail)
      else if len < 0 \<or> int (length msg_buf) < len then Some (Inl OutOfBounds)
      else wait_then (if is_server then server_molecule_do_am_zcopy (take (nat len) msg_buf) ch
                      else client_molecule_do_am_zcopy (take (nat len) msg_buf) ch) (\<lambda>(status, ch).
        Some (Inr (if status = UCS_OK then Some len else None, ch))))"

subsection \<open>Receiving\<close>

text \<open>
  The message and a NUL are stored into the caller's array, whose size the code does not look at;
  the parameter \<open>len\<close> is not used.  The value returned is read from the descriptor after it
  was freed, so the model returns no value.
\<close>

definition recv_msg :: "string \<Rightarrow> int \<Rightarrow> chan \<Rightarrow> (string \<times> chan) wait" where
  "recv_msg msg_buf len ch =
     wait_then (wait_holder ch) (\<lambda>ch.
       case desc_holder ch of
         None \<Rightarrow> None
       | Some DEADBEEF \<Rightarrow> Some (Inl OutOfBounds)
       | Some (Received is_desc d) \<Rightarrow>
           if \<not> length d < length msg_buf then Some (Inl OutOfBounds)
           else Some (Inr (blit msg_buf 0 (d @ [NUL]), ch\<lparr>desc_holder := None\<rparr>)))"

definition client_molecule_recv_msg :: "string \<Rightarrow> int \<Rightarrow> chan \<Rightarrow> (string \<times> chan) wait" where
  "client_molecule_recv_msg = recv_msg"

definition server_molecule_recv_msg :: "string \<Rightarrow> int \<Rightarrow> chan \<Rightarrow> (string \<times> chan) wait" where
  "server_molecule_recv_msg = recv_msg"

subsection \<open>Calls and their server\<close>

text \<open>\<open>stack\<close> is what the 256 bytes of \<open>dsm_resp_buf\<close> hold before the answer.\<close>

definition dsm_call :: "string \<Rightarrow> string \<Rightarrow> int \<Rightarrow> chan \<Rightarrow> (int \<times> chan) wait" where
  "dsm_call stack buf len ch =
     wait_then (molecule_send_msg False buf len ch) (\<lambda>(_, ch).
     wait_then (client_molecule_recv_msg stack 256 ch) (\<lambda>(dsm_resp_buf, ch).
       case scan_response dsm_resp_buf of
         None \<Rightarrow> Some (Inl Indeterminate)
       | Some ret \<Rightarrow> Some (Inr (ret, ch))))"

text \<open>One turn of the loop of \<open>run_two_way_server\<close>: the two arrays with what they hold at its
  start, 4096 and 256 bytes.\<close>

definition run_two_way_server_step :: "'k env \<Rightarrow> string \<times> string \<Rightarrow> chan \<times> 'k gos
    \<Rightarrow> ((string \<times> string) \<times> chan \<times> 'k gos) wait" where
  "run_two_way_server_step e bufs s =
     (let (dsm_call_buf, dsm_resp_buf) = bufs; (ch, g) = s in
      wait_then (server_molecule_recv_msg dsm_call_buf 4096 ch) (\<lambda>(dsm_call_buf, ch).
      wait_then (Some (dsm_handlers e dsm_call_buf 4096 g)) (\<lambda>(ret, g).
      wait_then (Some (into_buffer (length dsm_resp_buf) (format_response ret))) (\<lambda>resp.
      let dsm_resp_buf = blit dsm_resp_buf 0 (resp @ [NUL]) in
      wait_then (molecule_send_msg True dsm_resp_buf 256 ch) (\<lambda>(_, ch).
        Some (Inr ((dsm_call_buf, dsm_resp_buf), ch, g)))))))"

end
