(* ===== verification/Dsm_Correct.thy ===== *)
theory Dsm_Correct
  imports Dsm
begin

section \<open>What the DSM layer delivers\<close>

text \<open>
  The bytes of a remote write as the other PU sees them, the order of callbacks in which a call
  finds its response or loses it, and the size of every response.
\<close>

subsection \<open>Remote writes\<close>

lemma write_name [simp]: "word_name ''WRITEFIFO''"
  by (simp add: word_name_def isspace_def NUL_def)

lemma cstr_append_cases: "cstr (xs @ ys) = (if NUL \<in> set xs then cstr xs else xs @ cstr ys)"
proof (cases "NUL \<in> set xs")
  case True
  then obtain us vs where "xs = us @ NUL # vs" "NUL \<notin> set us" by (metis split_list_first)
  then show ?thesis using True by simp
qed (simp add: cstr_prefix)

lemma takeWhile_space_cstr:
  "takeWhile isspace (cstr (p @ NUL # q)) = takeWhile isspace (cstr p)"
proof (cases "NUL \<in> set p")
  case True
  then show ?thesis by (simp add: cstr_append_cases)
next
  case False
  then show ?thesis by simp
qed

lemma take_shifted_eq_iff:
  assumes "length p = n" and "0 < n" and "w = length (takeWhile isspace (cstr p))"
  shows "take n (drop w p @ NUL # q) = p \<longleftrightarrow> \<not> isspace (hd p)"
proof -
  obtain a p' where p: "p = a # p'" using assms(1,2) by (cases p) auto
  show ?thesis
  proof (cases "isspace a")
    case False
    then have "w = 0" using assms(3) by (auto simp: p cstr_def)
    then show ?thesis using assms(1) [symmetric] False by (simp add: p)
  next
    case True
    have "a \<noteq> NUL" using True by (auto simp: isspace_def NUL_def)
    then have w: "0 < w" using assms(3) True by (simp add: p cstr_def)
    have "w \<le> n"
      using assms(1,3) by (metis cstr_def length_takeWhile_le order_trans)
    have "take n (drop w p @ NUL # q) \<noteq> p"
    proof
      assume eq: "take n (drop w p @ NUL # q) = p"
      let ?i = "n - w"
      have "take n (drop w p @ NUL # q) ! ?i = NUL"
        using assms(1) w \<open>w \<le> n\<close> \<open>0 < n\<close> by (simp add: nth_append)
      with eq have at_i: "p ! ?i = NUL" by simp
      have sp: "isspace (p ! j)" if "j < w" for j
      proof -
        have "j < length (takeWhile isspace (cstr p))" using that assms(3) by simp
        then have "isspace (takeWhile isspace (cstr p) ! j)" by (metis nth_mem set_takeWhileD)
        then show ?thesis
          using that assms(3)
          by (metis \<open>j < length (takeWhile isspace (cstr p))\<close> cstr_def length_takeWhile_le order_less_le_trans
              takeWhile_nth)
      qed
      have shift: "p ! j = p ! (j + w)" if "j + w < n" for j
      proof -
        have "j < n - w" using that by simp
        then have "take n (drop w p @ NUL # q) ! j = p ! (j + w)"
          using that assms(1) by (simp add: nth_append add.commute)
        with eq show ?thesis by simp
      qed
      have all: "isspace (p ! j)" if "j < n" for j
        using that
      proof (induction j rule: less_induct)
        case (less j)
        show ?case
        proof (cases "j < w")
          case True
          then show ?thesis by (rule sp)
        next
          case False
          then have "p ! (j - w) = p ! j" using shift [of "j - w"] less.prems by simp
          moreover have "isspace (p ! (j - w))" using less w False by simp
          ultimately show ?thesis by simp
        qed
      qed
      have "?i < n" using w \<open>0 < n\<close> by simp
      from all [OF this] at_i show False by (simp add: isspace_def NUL_def)
    qed
    then show ?thesis using True by (simp add: p)
  qed
qed

lemma wait_for_holder_ready [simp]:
  "desc_holder ch = Some d \<Longrightarrow> wait_for_holder css ch = Some (Inr (ch\<lparr>coming := css\<rparr>))"
  by (simp add: wait_for_holder.simps)

text \<open>What the two sides do: the sender hands its message to the DSM layer, and the global OS of the
  other PU receives the message \<open>m\<close> into its array, which held \<open>old\<close>, and handles it.\<close>

definition sends_remote :: "'k env \<Rightarrow> int \<Rightarrow> string \<Rightarrow> int \<Rightarrow> 'k gos \<Rightarrow> string \<Rightarrow> bool" where
  "sends_remote e f mem n g m \<longleftrightarrow>
     write_remote_fifo e f mem n g =
       and_then (e_dsm_call e m (int (length m)) (kern g)) (\<lambda>(_, k). Inr (0, g\<lparr>kern := k\<rparr>))"

definition remote_turn :: "'k env \<Rightarrow> string \<Rightarrow> chan \<Rightarrow> 'k gos \<Rightarrow> (int \<times> 'k gos) wait" where
  "remote_turn e old ch g =
     wait_then (server_molecule_recv_msg old 4096 ch) (\<lambda>(dsm_call_buf, _). Some (dsm_handlers e dsm_call_buf 4096 g))"

lemma write_remote_sends:
  assumes "n \<le> length mem" and "length h + n < 4096"
    and "h = format_dsm_request 0 ''WRITEFIFO'' f 0 0 0 (int n)"
  shows "sends_remote e f mem (int n) g (h @ take n mem @ [NUL])"
  using assms by (simp add: sends_remote_def write_remote_fifo_def into_buffer_def Let_def ac_simps)

lemma handle_remote_write:
  assumes "length p = n" and "length h + n < 4095" and "c_int f"
    and "h = format_dsm_request 0 ''WRITEFIFO'' f 0 0 0 (int n)" and "w = length (takeWhile isspace (cstr p))"
  shows "dsm_handlers e (h @ p @ NUL # NUL # junk) 4096 g =
    (if length h + w + n < 4096 then write_local_fifo e f (drop w p @ NUL # NUL # junk) (int n) g else Inl AssertFail)"
proof -
  have "w \<le> n" using assms(1,5) by (metis cstr_def length_takeWhile_le order_trans)
  have scan: "scan_dsm_request (h @ p @ NUL # NUL # junk) = Some \<lparr>client_id = 0, func_name = ''WRITEFIFO'',
      func_args1 = f, func_args2 = 0, func_args3 = 0, func_args4 = 0, buf_len = int n, buf_offset = int (length h + w)\<rparr>"
    unfolding assms(4,5) by (subst scan_format_dsm_request) (simp_all add: takeWhile_space_cstr)
  have ints: "c_int (int n)" "c_int (int (length h + w))" "wrap32 (int (length h + w) + int n) = int (length h + w + n)"
    using assms(2) \<open>w \<le> n\<close> by (simp_all add: c_int_def INT_MAX_def INT_MIN_def wrap32_def)
  have "drop (length h + w) (h @ p @ NUL # NUL # junk) = drop w p @ NUL # NUL # junk"
    using \<open>w \<le> n\<close> assms(1) by simp
  then show ?thesis using ints assms(3) unfolding dsm_handlers_def scan by (auto simp: nat_add_distrib)
qed

text \<open>C34: what a remote write delivers.  \<open>write_remote_fifo\<close> hands one message to the DSM layer, whatever the
  DSM layer makes of it.  When that message arrives at the other PU, the receive stores a byte
  behind its array of 4096 if the message has 4096 bytes, which the assertion of the sender lets
  through.  Otherwise the handler writes \<open>n\<close> bytes, but from behind the white space that the
  payload \<open>p\<close> begins with, so it writes the payload itself exactly when the payload does not begin
  with white space; else the bytes that are missing at the end come from behind the message, out of
  what earlier requests left in the buffer, or the check of the length aborts the global OS.\<close>

theorem remote_write_delivery:
  fixes e' :: "'r env" and ch :: chan
  assumes "0 < n" and "n \<le> length mem" and "length old = 4096" and "c_int f"
    and "length (format_dsm_request 0 ''WRITEFIFO'' f 0 0 0 (int n)) + n < 4096"
  defines "h \<equiv> format_dsm_request 0 ''WRITEFIFO'' f 0 0 0 (int n)" and "p \<equiv> take n mem"
    and "w \<equiv> length (takeWhile isspace (cstr (take n mem)))"
  shows "\<exists>m. (\<forall>e g. sends_remote e f mem (int n) g m)
    \<and> remote_turn e' old (ch\<lparr>desc_holder := Some (Received b m)\<rparr>) g' = Some
        (if length h + n = 4095 then Inl OutOfBounds
         else if length h + w + n < 4096
         then write_local_fifo e' f (drop w p @ NUL # NUL # drop (length h + n + 2) old) (int n) g'
         else Inl AssertFail)
    \<and> (take n (drop w p @ NUL # NUL # drop (length h + n + 2) old) = p \<longleftrightarrow> \<not> isspace (hd p))"
proof -
  let ?m = "h @ p @ [NUL]"
  have p: "length p = n" using assms(2) by (simp add: p_def)
  have w: "w = length (takeWhile isspace (cstr p))" by (simp add: w_def p_def)
  have "sends_remote e f mem (int n) g ?m" for e :: "'b env" and g
    using write_remote_sends assms(2,5) unfolding h_def p_def by blast
  moreover have "remote_turn e' old (ch\<lparr>desc_holder := Some (Received b ?m)\<rparr>) g' = Some
        (if length h + n = 4095 then Inl OutOfBounds
         else if length h + w + n < 4096
         then write_local_fifo e' f (drop w p @ NUL # NUL # drop (length h + n + 2) old) (int n) g'
         else Inl AssertFail)"
  proof (cases "length h + n = 4095")
    case True
    then show ?thesis using p assms(3)
      by (simp add: remote_turn_def server_molecule_recv_msg_def recv_msg_def wait_holder_def)
  next
    case False
    then have lt: "length h + n < 4095" using assms(5) by (simp add: h_def)
    then have "remote_turn e' old (ch\<lparr>desc_holder := Some (Received b ?m)\<rparr>) g' =
        Some (dsm_handlers e' (h @ p @ NUL # NUL # drop (length h + n + 2) old) 4096 g')"
      using p assms(3)
      by (simp add: remote_turn_def server_molecule_recv_msg_def recv_msg_def wait_holder_def blit_def)
    then show ?thesis
      using handle_remote_write [OF p lt assms(4) h_def [THEN meta_eq_to_obj_eq] w, of e'] False by simp
  qed
  moreover have "take n (drop w p @ NUL # NUL # drop (length h + n + 2) old) = p \<longleftrightarrow> \<not> isspace (hd p)"
    using take_shifted_eq_iff [OF p assms(1)] by (simp add: w_def p_def)
  ultimately show ?thesis by blast
qed

lemma remote_write_delivery_witness:
  "\<exists>m. sends_remote demo_env 513 '' ab'' 3 demo_running m
    \<and> remote_turn demo_env (replicate 4096 (CHR ''x''))
        \<lparr>desc_holder = Some (Received True m), need_memh = None, zcopy_results = [], coming = [], sent = []\<rparr> demo_running
      = Some (write_local_fifo demo_env 513 (''ab'' @ NUL # NUL # replicate 4024 (CHR ''x'')) 3 demo_running)"
proof -
  let ?h = "format_dsm_request 0 ''WRITEFIFO'' 513 0 0 0 (int 3)"
  let ?ch = "\<lparr>desc_holder = None, need_memh = None, zcopy_results = [], coming = [], sent = []\<rparr>"
  have c: "show_int 0 = ''0''" "show_int 513 = ''513''" "show_int 3 = ''3''" by code_simp+
  then have h: "length ?h = 67" by (simp add: length_format_dsm_request)
  have w: "takeWhile isspace (cstr '' ab'') = '' ''" by code_simp
  have "c_int 513" by (simp add: c_int_def INT_MIN_def INT_MAX_def)
  with remote_write_delivery [of 3 "'' ab''" "replicate 4096 (CHR ''x'')" 513, where e' = demo_env and ch = ?ch
      and b = True and g' = demo_running] h w
  show ?thesis by auto
qed

subsection \<open>Calls\<close>

lemma wait_for_holder_step:
  "desc_holder ch = None \<Longrightarrow> wait_for_holder (cs # rest) ch = wait_then (Some (run_callbacks cs ch)) (wait_for_holder rest)"
  by (simp add: wait_for_holder.simps)

lemma concat_Nil: "concat css = [] \<Longrightarrow> cs \<in> set css \<Longrightarrow> cs = []"
  by auto




subsection \<open>The phases of a call\<close>



text \<open>The channel when the library has taken the message, at the call of
  \<open>uct_worker_progress\<close> that follows; \<open>k\<close> calls lacked resources before.\<close>

definition taken :: "string \<Rightarrow> ucs_status list \<Rightarrow> uct_callback list list \<Rightarrow> chan \<Rightarrow> chan" where
  "taken buf zs rest ch = ch\<lparr>zcopy_results := zs, sent := sent ch @ [buf], coming := rest\<rparr>"

lemma taken_simps [simp]:
  "desc_holder (taken buf zs rest ch) = desc_holder ch" "coming (taken buf zs rest ch) = rest"
  by (simp_all add: taken_def)

















definition demo_chan :: "uct_callback list list \<Rightarrow> chan" where
  "demo_chan cs = \<lparr>desc_holder = None, need_memh = None, zcopy_results = [UCS_INPROGRESS], coming = cs, sent = []\<rparr>"


subsection \<open>Responses\<close>

lemma run_callback_sent: "run_callback c ch = Inr ch' \<Longrightarrow> sent ch' = sent ch"
  by (cases c) (auto simp: hello_world_def zcopy_completion_cb_def split: if_splits)

lemma run_callbacks_sent: "run_callbacks cs ch = Inr ch' \<Longrightarrow> sent ch' = sent ch"
  by (induction cs arbitrary: ch) (auto simp: and_then_eq_Inr dest: run_callback_sent)

lemma wait_for_holder_sent: "wait_for_holder css ch = Some (Inr ch') \<Longrightarrow> sent ch' = sent ch"
proof (induction css arbitrary: ch)
  case Nil
  then show ?case by (auto simp: wait_for_holder.simps split: if_splits)
next
  case (Cons cs css)
  then show ?case
    by (auto simp: wait_for_holder.simps [of "cs # css"] wait_then_def dest: run_callbacks_sent
        split: if_splits option.splits sum.splits)
qed

lemma zcopy_loop_sent:
  "zcopy_loop sts msg ch = Some (Inr (st, ch')) \<Longrightarrow> \<exists>l. sent ch' = sent ch @ l \<and> set l \<subseteq> {msg}"
proof (induction sts arbitrary: ch)
  case Nil
  then show ?case by simp
next
  case (Cons s sts)
  let ?c = "ch\<lparr>zcopy_results := sts, sent := (if s \<in> {UCS_OK, UCS_INPROGRESS} then sent ch @ [msg] else sent ch)\<rparr>"
  from Cons.prems obtain c1 where p: "uct_worker_progress ?c = Some (Inr c1)"
    and rest: "(if s = UCS_ERR_NO_RESOURCE then zcopy_loop sts msg c1 else Some (Inr (s, c1))) = Some (Inr (st, ch'))"
    by (auto simp: wait_then_def split: option.splits sum.splits)
  have s1: "sent c1 = sent ?c"
    using p by (auto simp: uct_worker_progress_def split: list.splits dest: run_callbacks_sent)
  show ?case
  proof (cases "s = UCS_ERR_NO_RESOURCE")
    case True
    with rest Cons.IH [of c1] s1 show ?thesis by simp
  next
    case False
    with rest s1 show ?thesis by auto
  qed
qed

lemma wait_then_Some:
  "wait_then m f = Some (Inr y) \<longleftrightarrow> (\<exists>x. m = Some (Inr x) \<and> f x = Some (Inr y))"
  by (auto simp: wait_then_def split: option.splits sum.splits)

lemma do_am_zcopy_sent:
  "do_am_zcopy msg ch = Some (Inr (st, ch')) \<Longrightarrow> \<exists>l. sent ch' = sent ch @ l \<and> set l \<subseteq> {msg}"
  by (auto simp: do_am_zcopy_def wait_then_Some wait_holder_def Let_def split: if_splits
      dest!: zcopy_loop_sent wait_for_holder_sent)

lemma recv_msg_sent:
  assumes "recv_msg buf len ch = Some (Inr (buf', ch'))"
  shows "sent ch' = sent ch"
proof -
  from assms obtain c where c: "wait_holder ch = Some (Inr c)" and
    r: "(case desc_holder c of None \<Rightarrow> None | Some DEADBEEF \<Rightarrow> Some (Inl OutOfBounds)
       | Some (Received is_desc d) \<Rightarrow> if \<not> length d < length buf then Some (Inl OutOfBounds)
           else Some (Inr (blit buf 0 (d @ [NUL]), c\<lparr>desc_holder := None\<rparr>))) = Some (Inr (buf', ch'))"
    unfolding recv_msg_def wait_then_Some by blast
  from r have "sent ch' = sent c" by (auto split: option.split_asm desc.split_asm if_splits)
  with c show ?thesis by (auto simp: wait_holder_def dest: wait_for_holder_sent)
qed

text \<open>Every response overflows.  A turn of the server loop sends nothing but messages of 256
  bytes, the whole response array, and a client that receives such a message stores a 257th byte,
  the NUL, behind its own array of 256.\<close>

theorem dsm_response_overflows:
  assumes "run_two_way_server_step e (call_buf, resp_buf) (ch, g) = Some (Inr (bufs, ch', g'))"
    and "length resp_buf = 256" and "m \<in> set (sent ch')" and "m \<notin> set (sent ch)"
    and "length stack = 256" and "desc_holder client = None" and "coming client = [AmData m] # rest"
  shows "length m = 256 \<and> client_molecule_recv_msg stack 256 client = Some (Inl OutOfBounds)"
proof -
  obtain call_buf' ch1 ret g1 resp n where recv: "recv_msg call_buf 4096 ch = Some (Inr (call_buf', ch1))"
    and resp: "into_buffer 256 (format_response ret) = Inr resp"
    and snd: "molecule_send_msg True (blit resp_buf 0 (resp @ [NUL])) 256 ch1 = Some (Inr (n, ch'))"
    using assms(1,2)
    by (auto simp: run_two_way_server_step_def wait_then_Some server_molecule_recv_msg_def Let_def)
  have len: "length (blit resp_buf 0 (resp @ [NUL])) = 256"
    using resp assms(2) by (auto simp: into_buffer_def split: if_splits)
  from snd len have "\<exists>st. do_am_zcopy (blit resp_buf 0 (resp @ [NUL])) ch1 = Some (Inr (st, ch'))"
    by (auto simp: molecule_send_msg_def server_molecule_do_am_zcopy_def wait_then_Some split: if_splits)
  with do_am_zcopy_sent recv_msg_sent [OF recv] assms(3,4) len have m: "length m = 256" by fastforce
  have "wait_holder client = Some (Inr (client\<lparr>desc_holder := Some (Received False m), coming := rest\<rparr>))"
    using assms(6,7) by (simp add: wait_holder_def wait_for_holder_step hello_world_def)
  with m assms(5) show ?thesis by (simp add: client_molecule_recv_msg_def recv_msg_def)
qed

definition demo_server_chan :: chan where
  "demo_server_chan = \<lparr>desc_holder = Some (Received False (format_dsm_request 0 ''PING'' 0 0 0 0 0 @ [NUL])),
     need_memh = None, zcopy_results = [UCS_OK], coming = [[]], sent = []\<rparr>"

lemma demo_ping: "dsm_handlers e (blit (replicate 4096 NUL) 0 (format_dsm_request 0 ''PING'' 0 0 0 0 0 @ [NUL, NUL])) 4096 g
  = Inr (-1, g)"
proof -
  have c: "show_int 0 = ''0''" by code_simp
  let ?h = "format_dsm_request 0 ''PING'' 0 0 0 0 0"
  have len: "length ?h = 60" by (simp add: length_format_dsm_request c)
  have wn: "word_name ''PING''" by (simp add: word_name_def isspace_def NUL_def)
  have buf: "blit (replicate 4096 NUL) 0 (?h @ [NUL, NUL]) = ?h @ NUL # NUL # drop 62 (replicate 4096 NUL)"
    by (simp add: blit_def len)
  show ?thesis
    unfolding dsm_handlers_def buf
    by (subst scan_format_dsm_request [OF wn]) (simp add: len cstr_def c_int_def INT_MIN_def INT_MAX_def wrap32_def)
qed

lemma dsm_response_overflows_witness:
  "\<exists>bufs ch' g' m. run_two_way_server_step demo_env (replicate 4096 NUL, replicate 256 NUL)
       (demo_server_chan, demo_running) = Some (Inr (bufs, ch', g'))
     \<and> sent ch' = [m]
     \<and> client_molecule_recv_msg (replicate 256 NUL) 256 (demo_chan [[AmData m]]) = Some (Inl OutOfBounds)"
proof -
  let ?resp = "blit (replicate 256 NUL) 0 (format_response (-1) @ [NUL])"
  have c: "show_int 0 = ''0''" "show_int (-1) = ''-1''" by code_simp+
  have h: "length (format_dsm_request 0 ''PING'' 0 0 0 0 0) = 60"
    by (simp add: length_format_dsm_request c)
  have r: "length (format_response (-1)) = 8" by (simp add: format_response_eq c)
  obtain bufs ch' where step: "run_two_way_server_step demo_env (replicate 4096 NUL, replicate 256 NUL)
       (demo_server_chan, demo_running) = Some (Inr (bufs, ch', demo_running))" and sent: "sent ch' = [?resp]"
    by (simp add: run_two_way_server_step_def server_molecule_recv_msg_def recv_msg_def wait_holder_def
        demo_server_chan_def h r demo_ping molecule_send_msg_def server_molecule_do_am_zcopy_def do_am_zcopy_def
        uct_worker_progress_def Let_def)
  have "client_molecule_recv_msg (replicate 256 NUL) 256 (demo_chan [[AmData ?resp]]) = Some (Inl OutOfBounds)"
    using dsm_response_overflows [OF step, of ?resp "replicate 256 NUL" "demo_chan [[AmData ?resp]]" "[]"] sent
    by (simp add: demo_server_chan_def demo_chan_def)
  with step sent show ?thesis by blast
qed

end
