(* ===== verification/MoleculeOS.thy ===== *)
theory MoleculeOS
  imports GlobalOS_Props
begin

section \<open>Start-up\<close>

text \<open>
  \<open>moleculeos.c\<close>: the command line and the part of \<open>main\<close> before the service loop.  What
  \<open>getopt_long\<close> makes of the command line is the list of its results, an option character with
  its argument, in order; the end of the list is the result -1.  \<open>SMARTC\<close> is a flag.
\<close>

subsection \<open>Arguments\<close>

record Local_Arguments =
  pu_id :: int
  os_port :: int
  dsm_master_addr :: string
  dev_name :: string
  tl_name :: string

text \<open>\<open>atoi\<close>: the number at the start of the string, 0 when there is none.\<close>

definition atoi :: "string \<Rightarrow> int" where
  "atoi s = (case scan_int s of None \<Rightarrow> 0 | Some (i, _) \<Rightarrow> i)"

text \<open>\<open>memset\<close> to 48 NULs, then the default copied to the front.\<close>

definition array48 :: "string \<Rightarrow> string" where
  "array48 s = blit (replicate 48 NUL) 0 s"

definition default_arguments :: Local_Arguments where
  "default_arguments = \<lparr>pu_id = -1, os_port = GLOBAL_OS_PORT, dsm_master_addr = array48 ''127.0.0.1'',
     dev_name = array48 ''eth0'', tl_name = array48 ''tcp''\<rparr>"

text \<open>\<open>memcpy(dst, optarg, strlen(optarg))\<close>: no NUL is copied, and nothing bounds the length.\<close>

definition copy_optarg :: "string \<Rightarrow> string \<Rightarrow> string run" where
  "copy_optarg dst optarg =
     (if length dst < length optarg then Inl OutOfBounds else Inr (blit dst 0 optarg))"

definition parse_option :: "bool \<Rightarrow> char \<times> string \<Rightarrow> Local_Arguments \<Rightarrow> Local_Arguments run" where
  "parse_option smartc o_arg a =
     (let (opt, optarg) = o_arg in
      if opt = CHR ''i'' then Inr (a\<lparr>pu_id := atoi optarg\<rparr>)
      else if opt = CHR ''p'' then Inr (a\<lparr>os_port := atoi optarg\<rparr>)
      else if smartc \<and> opt = CHR ''m''
        then and_then (copy_optarg (dsm_master_addr a) optarg) (\<lambda>s. Inr (a\<lparr>dsm_master_addr := s\<rparr>))
      else if smartc \<and> opt = CHR ''d''
        then and_then (copy_optarg (dev_name a) optarg) (\<lambda>s. Inr (a\<lparr>dev_name := s\<rparr>))
      else if smartc \<and> opt = CHR ''t''
        then and_then (copy_optarg (tl_name a) optarg) (\<lambda>s. Inr (a\<lparr>tl_name := s\<rparr>))
      else Inr a)"

fun parse_options :: "bool \<Rightarrow> (char \<times> string) list \<Rightarrow> Local_Arguments \<Rightarrow> Local_Arguments run" where
  "parse_options smartc [] a = Inr a"
| "parse_options smartc (x # xs) a = and_then (parse_option smartc x a) (parse_options smartc xs)"

definition local_parse_arguments :: "bool \<Rightarrow> (char \<times> string) list \<Rightarrow> Local_Arguments run" where
  "local_parse_arguments smartc opts = parse_options smartc opts default_arguments"

subsection \<open>main, up to the service loop\<close>

text \<open>
  With \<open>SMARTC\<close> the three strings are copied once more, into the global arrays, by their
  \<open>strlen\<close>; a string that fills its 48 bytes has no NUL.  The result is the state the loop starts
  from and the three global arrays.
\<close>

definition main_init :: "bool \<Rightarrow> (char \<times> string) list \<Rightarrow> 'k gos
    \<Rightarrow> ('k gos \<times> (string \<times> string \<times> string)) run" where
  "main_init smartc opts g =
     and_then (local_parse_arguments smartc opts) (\<lambda>args.
     and_then (global_os_init (pu_id args) (os_port args) g) (\<lambda>(_, g).
     if smartc then
       and_then (string_at (dsm_master_addr args) 0) (\<lambda>m.
       and_then (string_at (dev_name args) 0) (\<lambda>d.
       and_then (string_at (tl_name args) 0) (\<lambda>t.
         Inr (g, array48 m, array48 d, array48 t))))
     else Inr (g, [], [], [])))"

subsection \<open>Properties\<close>

lemma length_array48 [simp]: "length s \<le> 48 \<Longrightarrow> length (array48 s) = 48"
  by (simp add: array48_def)

lemma cstr_blit_array48:
  assumes "NUL \<notin> set old" and "length old \<le> 47" and "NUL \<notin> set new" and "length new \<le> 47"
  shows "cstr (blit (array48 old) 0 new) = new @ drop (length new) old"
proof -
  have "blit (array48 old) 0 new = (new @ drop (length new) old) @ drop (max (length new) (length old)) (replicate 48 NUL)"
    using assms by (simp add: blit_def array48_def max_def)
  moreover have "drop (max (length new) (length old)) (replicate 48 NUL) = NUL # replicate (47 - max (length new) (length old)) NUL"
    using assms(2,4) by (simp add: Suc_diff_le flip: replicate_Suc)
  moreover have "NUL \<notin> set (new @ drop (length new) old)"
    using assms(1,3) by (auto dest: in_set_dropD)
  ultimately show ?thesis by (metis cstr_append_NUL)
qed

text \<open>The master address given with \<open>-m\<close> is the address used only when it is at least as
  long as the default: it is copied over \<open>127.0.0.1\<close> without a terminator, so a shorter one
  keeps the tail of the default (\<open>10.0.0.1\<close> becomes \<open>10.0.0.11\<close>).  One of more than 48
  characters is written past the array.\<close>

theorem master_address_keeps_default_tail:
  assumes "NUL \<notin> set addr"
  shows "(length addr \<le> 47 \<longrightarrow> (\<exists>a. local_parse_arguments True [(CHR ''m'', addr)] = Inr a
      \<and> cstr (dsm_master_addr a) = addr @ drop (length addr) ''127.0.0.1''
      \<and> (cstr (dsm_master_addr a) = addr \<longleftrightarrow> 9 \<le> length addr)))
    \<and> (48 < length addr \<longrightarrow> local_parse_arguments True [(CHR ''m'', addr)] = Inl OutOfBounds)"
proof -
  have "addr @ drop (length addr) ''127.0.0.1'' = addr \<longleftrightarrow> 9 \<le> length addr" by auto
  moreover have "cstr (blit (array48 ''127.0.0.1'') 0 addr) = addr @ drop (length addr) ''127.0.0.1''"
    if "length addr \<le> 47"
    using assms that by (intro cstr_blit_array48) (simp_all add: NUL_def)
  ultimately show ?thesis
    by (auto simp: local_parse_arguments_def parse_option_def default_arguments_def copy_optarg_def)
qed

lemma master_address_keeps_default_tail_witness:
  "\<exists>a. local_parse_arguments True [(CHR ''m'', ''10.0.0.1'')] = Inr a
    \<and> cstr (dsm_master_addr a) = ''10.0.0.11''"
  using master_address_keeps_default_tail [of "''10.0.0.1''"] by (auto simp: NUL_def)

end
