(* ===== verification/CgroupTree.thy ===== *)
theory CgroupTree
  imports CFormat
begin

section \<open>The tree of cgroups\<close>

text \<open>
  What the controllers of \<open>cgroup/\<close> use of the cgroup core: a cgroup is a number, the root has
  no parent, and a cgroup is created after its parent, so its number is larger.  A loop
  \<open>for (p = cg; parent(p); p = parent(p))\<close> visits \<open>up par cg\<close>: the cgroup and its ancestors
  without the root.
\<close>

definition EAGAIN :: int where "EAGAIN = 11"
definition EINVAL :: int where "EINVAL = 22"
definition ENOMEM :: int where "ENOMEM = 12"
definition ENOENT :: int where "ENOENT = 2"
definition ENODEV :: int where "ENODEV = 19"
definition EBUSY :: int where "EBUSY = 16"
definition EOPNOTSUPP :: int where "EOPNOTSUPP = 95"
definition ESRCH :: int where "ESRCH = 3"

text \<open>The kernel's \<open>strstrip\<close>: a text without the white space around it.\<close>

definition strstrip :: "string \<Rightarrow> string" where
  "strstrip s = rev (dropWhile isspace (rev (dropWhile isspace s)))"

type_synonym tree = "nat \<Rightarrow> nat option"

definition tree_ok :: "tree \<Rightarrow> bool" where
  "tree_ok par \<longleftrightarrow> (\<forall>c p. par c = Some p \<longrightarrow> p < c)"

text \<open>The guard \<open>p < c\<close> holds in every tree of the core; it makes the recursion terminate.\<close>

fun up :: "tree \<Rightarrow> nat \<Rightarrow> nat list" where
  "up par c = (case par c of None \<Rightarrow> [] | Some p \<Rightarrow> if p < c then c # up par p else [])"

declare up.simps [simp del]

text \<open>All ancestors of a cgroup, itself not included and the root included.\<close>

fun ancestors :: "tree \<Rightarrow> nat \<Rightarrow> nat list" where
  "ancestors par c = (case par c of None \<Rightarrow> [] | Some p \<Rightarrow> if p < c then p # ancestors par p else [])"

declare ancestors.simps [simp del]

lemma up_root [simp]: "par c = None \<Longrightarrow> up par c = []"
  by (subst up.simps) simp

lemma up_Some: "par c = Some p \<Longrightarrow> up par c = (if p < c then c # up par p else [])"
  by (subst up.simps) simp

lemma ancestors_Some: "par c = Some p \<Longrightarrow> ancestors par c = (if p < c then p # ancestors par p else [])"
  by (subst ancestors.simps) simp

lemma up_child: "tree_ok par \<Longrightarrow> par c = Some p \<Longrightarrow> up par c = c # up par p"
  by (subst up.simps) (simp add: tree_ok_def)

lemma ancestors_root [simp]: "par c = None \<Longrightarrow> ancestors par c = []"
  by (subst ancestors.simps) simp

lemma ancestors_child: "tree_ok par \<Longrightarrow> par c = Some p \<Longrightarrow> ancestors par c = p # ancestors par p"
  by (subst ancestors.simps) (simp add: tree_ok_def)

lemma up_le: "q \<in> set (up par c) \<Longrightarrow> q \<le> c"
proof (induction par c rule: up.induct)
  case (1 par c)
  then show ?case by (cases "par c") (fastforce simp: up_Some split: if_splits)+
qed

lemma distinct_up [simp]: "distinct (up par c)"
proof (induction par c rule: up.induct)
  case (1 par c)
  show ?case
  proof (cases "par c")
    case None
    then show ?thesis by simp
  next
    case (Some p)
    then show ?thesis
      using 1 [OF Some] up_le [of c par p] by (subst up.simps) auto
  qed
qed

lemma ancestors_less: "q \<in> set (ancestors par c) \<Longrightarrow> q < c"
proof (induction par c rule: ancestors.induct)
  case (1 par c)
  then show ?case by (cases "par c") (fastforce simp: ancestors_Some split: if_splits)+
qed

lemma distinct_ancestors [simp]: "distinct (ancestors par c)"
proof (induction par c rule: ancestors.induct)
  case (1 par c)
  show ?case
  proof (cases "par c")
    case None
    then show ?thesis by simp
  next
    case (Some p)
    then show ?thesis
      using 1 [OF Some] ancestors_less [of p par p] by (subst ancestors.simps) auto
  qed
qed

lemma ancestors_upd_greater: "d < c \<Longrightarrow> ancestors (par(c := x)) d = ancestors par d"
proof (induction d rule: less_induct)
  case (less d)
  show ?case
  proof (cases "par d")
    case None
    with less.prems show ?thesis by simp
  next
    case (Some p)
    have "(par(c := x)) d = Some p" using less.prems Some by simp
    with Some less show ?thesis by (simp add: ancestors_Some)
  qed
qed

lemma up_not_root: "q \<in> set (up par c) \<Longrightarrow> par q \<noteq> None"
proof (induction par c rule: up.induct)
  case (1 par c)
  then show ?case by (cases "par c") (auto simp: up_Some split: if_splits)
qed

lemma self_in_up: "tree_ok par \<Longrightarrow> par c \<noteq> None \<Longrightarrow> c \<in> set (up par c)"
  by (auto simp: up_child)

subsection \<open>Updating every cgroup of a path\<close>

text \<open>A loop that updates each cgroup of a list of different cgroups once.\<close>

lemma fold_update_apply:
  assumes "distinct qs"
  shows "fold (\<lambda>q f. f(q := g (f q))) qs f c = (if c \<in> set qs then g (f c) else f c)"
  using assms by (induction qs arbitrary: f) auto

subsection \<open>Counting\<close>

text \<open>The count of the elements with a property, when the property changes at one element.\<close>

lemma card_change:
  assumes "finite S" and "c \<in> S" and "\<And>x. x \<noteq> c \<Longrightarrow> P' x \<longleftrightarrow> P x"
  shows "int (card {x \<in> S. P' x}) =
    int (card {x \<in> S. P x}) + (if P' c then 1 else 0) - (if P c then 1 else 0)"
proof -
  have card: "int (card {x \<in> S. Q x}) = int (card {x \<in> S - {c}. Q x}) + (if Q c then 1 else 0)" for Q
  proof -
    have "{x \<in> S. Q x} = (if Q c then insert c {x \<in> S - {c}. Q x} else {x \<in> S - {c}. Q x})"
      using assms(2) by auto
    moreover have "finite {x \<in> S - {c}. Q x}" using assms(1) by simp
    ultimately show ?thesis by simp
  qed
  have "{x \<in> S - {c}. P' x} = {x \<in> S - {c}. P x}" using assms(3) by auto
  with card [of P'] card [of P] show ?thesis by simp
qed

end
