(* ===== verification/Pids.thy ===== *)
theory Pids
  imports CgroupTree CFormat
begin

section \<open>The pids controller\<close>

text \<open>
  \<open>cgroup/pids.c\<close>: the number of tasks in every subtree of cgroups, and the limits on it.  The
  state holds the controller's data per cgroup, whether a \<open>WARN\<close> has fired, and the cgroup of
  every task.  An operation is one step, although two charges may mix on their way up the tree: the
  code has no lock there.  The root has no counter, and the walks up the tree leave it out, as
  the loops of the code do.  Counters are mathematical integers: an \<open>atomic64_t\<close> that counts tasks stays far
  from its bounds.
\<close>

text \<open>\<open>PID_MAX_LIMIT + 1\<close> on a 64-bit machine.\<close>

definition PIDS_MAX :: int where "PIDS_MAX = 4194304 + 1"

record pids_cgroup =
  counter :: int
  limit :: int
  events_limit :: int

record pids_state =
  par :: tree
  cg :: "nat \<Rightarrow> pids_cgroup"
  warned :: bool
  task_css :: "nat \<Rightarrow> nat"

definition parent_pids :: "pids_state \<Rightarrow> nat \<Rightarrow> nat option" where
  "parent_pids s p = par s p"

text \<open>A null result of \<open>kzalloc\<close> is \<open>False\<close>.\<close>

definition pids_css_alloc :: "bool \<Rightarrow> nat \<Rightarrow> nat option \<Rightarrow> pids_state \<Rightarrow> int \<times> pids_state" where
  "pids_css_alloc ok c parent s =
     (if \<not> ok then (- ENOMEM, s)
      else (0, s\<lparr>par := (par s)(c := parent),
                 cg := (cg s)(c := \<lparr>counter = 0, limit = PIDS_MAX, events_limit = 0\<rparr>)\<rparr>))"

definition add_counter :: "int \<Rightarrow> pids_cgroup \<Rightarrow> pids_cgroup" where
  "add_counter num c = c\<lparr>counter := counter c + num\<rparr>"

definition pids_cancel :: "int \<Rightarrow> nat \<Rightarrow> pids_state \<Rightarrow> pids_state" where
  "pids_cancel num p s =
     (let s = s\<lparr>cg := (cg s)(p := add_counter (- num) (cg s p))\<rparr>
      in s\<lparr>warned := (warned s \<or> counter (cg s p) < 0)\<rparr>)"

definition pids_uncharge :: "nat \<Rightarrow> int \<Rightarrow> pids_state \<Rightarrow> pids_state" where
  "pids_uncharge pids num s = fold (pids_cancel num) (up (par s) pids) s"

definition pids_charge :: "nat \<Rightarrow> int \<Rightarrow> pids_state \<Rightarrow> pids_state" where
  "pids_charge pids num s =
     fold (\<lambda>p s. s\<lparr>cg := (cg s)(p := add_counter num (cg s p))\<rparr>) (up (par s) pids) s"

text \<open>The loop of \<open>pids_try_charge\<close>; \<open>visited\<close> are the cgroups already charged, the last one
  first, which the \<open>revert\<close> loop undoes in the order of the charges.\<close>

fun try_charge_path :: "nat list \<Rightarrow> nat list \<Rightarrow> int \<Rightarrow> pids_state \<Rightarrow> int \<times> pids_state" where
  "try_charge_path visited [] num s = (0, s)"
| "try_charge_path visited (p # ps) num s =
     (let s = s\<lparr>cg := (cg s)(p := add_counter num (cg s p))\<rparr> in
      if counter (cg s p) > limit (cg s p)
      then (- EAGAIN, pids_cancel num p (fold (pids_cancel num) (rev visited) s))
      else try_charge_path (p # visited) ps num s)"

definition pids_try_charge :: "nat \<Rightarrow> int \<Rightarrow> pids_state \<Rightarrow> int \<times> pids_state" where
  "pids_try_charge pids num s = try_charge_path [] (up (par s) pids) num s"

text \<open>A task set is the list of its tasks with the cgroup each goes to.\<close>

definition pids_can_attach :: "(nat \<times> nat) list \<Rightarrow> pids_state \<Rightarrow> int \<times> pids_state" where
  "pids_can_attach tset s =
     (0, fold (\<lambda>(task, dst) s. pids_uncharge (task_css s task) 1 (pids_charge dst 1 s)) tset s)"

definition pids_cancel_attach :: "(nat \<times> nat) list \<Rightarrow> pids_state \<Rightarrow> pids_state" where
  "pids_cancel_attach tset s =
     fold (\<lambda>(task, dst) s. pids_uncharge dst 1 (pids_charge (task_css s task) 1 s)) tset s"

text \<open>\<open>current\<close> is the forking task.\<close>

definition pids_can_fork :: "nat \<Rightarrow> pids_state \<Rightarrow> int \<times> pids_state" where
  "pids_can_fork current s =
     (let pids = task_css s current; (err, s) = pids_try_charge pids 1 s in
      if err \<noteq> 0
      then (err, s\<lparr>cg := (cg s)(pids := (cg s pids)\<lparr>events_limit := events_limit (cg s pids) + 1\<rparr>)\<rparr>)
      else (err, s))"

definition pids_cancel_fork :: "nat \<Rightarrow> pids_state \<Rightarrow> pids_state" where
  "pids_cancel_fork current s = pids_uncharge (task_css s current) 1 s"

definition pids_release :: "nat \<Rightarrow> pids_state \<Rightarrow> pids_state" where
  "pids_release task s = pids_uncharge (task_css s task) 1 s"

subsection \<open>The files\<close>

definition PIDS_MAX_STR :: string where "PIDS_MAX_STR = ''max''"

text \<open>\<open>kstrtoll\<close> is a function of the kernel's library: an error code or a number.\<close>

definition pids_max_write :: "(string \<Rightarrow> int + int) \<Rightarrow> nat \<Rightarrow> string \<Rightarrow> int \<Rightarrow> pids_state \<Rightarrow> int \<times> pids_state" where
  "pids_max_write kstrtoll pids buf nbytes s =
     (let buf = strstrip buf in
      if buf = PIDS_MAX_STR
      then (nbytes, s\<lparr>cg := (cg s)(pids := (cg s pids)\<lparr>limit := PIDS_MAX\<rparr>)\<rparr>)
      else case kstrtoll buf of
        Inl err \<Rightarrow> (err, s)
      | Inr l \<Rightarrow>
          if l < 0 \<or> l \<ge> PIDS_MAX then (- EINVAL, s)
          else (nbytes, s\<lparr>cg := (cg s)(pids := (cg s pids)\<lparr>limit := l\<rparr>)\<rparr>))"

definition pids_max_show :: "nat \<Rightarrow> pids_state \<Rightarrow> string" where
  "pids_max_show pids s =
     (if limit (cg s pids) \<ge> PIDS_MAX then PIDS_MAX_STR @ [CHR 0x0A]
      else show_int (limit (cg s pids)) @ [CHR 0x0A])"

definition pids_current_read :: "nat \<Rightarrow> pids_state \<Rightarrow> int" where
  "pids_current_read pids s = counter (cg s pids)"

definition pids_events_show :: "nat \<Rightarrow> pids_state \<Rightarrow> string" where
  "pids_events_show pids s = ''max '' @ show_int (events_limit (cg s pids)) @ [CHR 0x0A]"

subsection \<open>Charging paths\<close>

lemma charge_cg:
  "cg (pids_charge p n s) q = (if q \<in> set (up (par s) p) then add_counter n (cg s q) else cg s q)"
  and charge_frame: "par (pids_charge p n s) = par s" "task_css (pids_charge p n s) = task_css s"
    "warned (pids_charge p n s) = warned s"
proof -
  have fold: "fold (\<lambda>p s. s\<lparr>cg := (cg s)(p := add_counter n (cg s p))\<rparr>) qs s
    = s\<lparr>cg := fold (\<lambda>q f. f(q := add_counter n (f q))) qs (cg s)\<rparr>" for qs s
    by (induction qs arbitrary: s) simp_all
  show "cg (pids_charge p n s) q = (if q \<in> set (up (par s) p) then add_counter n (cg s q) else cg s q)"
    using fold_update_apply [of "up (par s) p" "add_counter n" "cg s" q]
    by (simp add: pids_charge_def fold)
  show "par (pids_charge p n s) = par s" "task_css (pids_charge p n s) = task_css s"
    "warned (pids_charge p n s) = warned s" by (simp_all add: pids_charge_def fold)
qed

lemma cancel_list:
  assumes "distinct qs"
  shows "cg (fold (pids_cancel n) qs s) q = (if q \<in> set qs then add_counter (- n) (cg s q) else cg s q)"
    and "par (fold (pids_cancel n) qs s) = par s" and "task_css (fold (pids_cancel n) qs s) = task_css s"
    and "warned (fold (pids_cancel n) qs s) = (warned s \<or> (\<exists>q \<in> set qs. counter (cg s q) - n < 0))"
  using assms
  by (induction qs arbitrary: s) (auto simp: pids_cancel_def Let_def add_counter_def)

lemma uncharge_cg:
  "cg (pids_uncharge p n s) q = (if q \<in> set (up (par s) p) then add_counter (- n) (cg s q) else cg s q)"
  "par (pids_uncharge p n s) = par s" "task_css (pids_uncharge p n s) = task_css s"
  "warned (pids_uncharge p n s) = (warned s \<or> (\<exists>q \<in> set (up (par s) p). counter (cg s q) - n < 0))"
  by (simp_all add: pids_uncharge_def cancel_list)

lemmas pids_frames [simp] = charge_frame uncharge_cg(2,3)

lemma add_counter_simps [simp]:
  "counter (add_counter n c) = counter c + n" "limit (add_counter n c) = limit c"
  "events_limit (add_counter n c) = events_limit c"
  "add_counter n (add_counter m c) = add_counter (m + n) c" "add_counter 0 c = c"
  by (simp_all add: add_counter_def)

text \<open>The charge of a path either fits every limit, or is undone completely.\<close>

lemma try_charge_path_ok:
  assumes "distinct (rev visited @ ps)" and "0 \<le> num"
    and "\<forall>p \<in> set visited. 0 \<le> counter (cg s p) - num" and "\<forall>p \<in> set ps. 0 \<le> counter (cg s p)"
  shows "try_charge_path visited ps num s =
    (if \<forall>p \<in> set ps. counter (cg s p) + num \<le> limit (cg s p)
     then (0, s\<lparr>cg := (\<lambda>q. if q \<in> set ps then add_counter num (cg s q) else cg s q)\<rparr>)
     else (- EAGAIN, s\<lparr>cg := (\<lambda>q. if q \<in> set visited then add_counter (- num) (cg s q) else cg s q)\<rparr>))"
  using assms
proof (induction ps arbitrary: visited s)
  case Nil
  then show ?case by simp
next
  case (Cons p ps)
  define s1 where "s1 = s\<lparr>cg := (cg s)(p := add_counter num (cg s p))\<rparr>"
  have s1: "\<And>q. q \<noteq> p \<Longrightarrow> cg s1 q = cg s q" "cg s1 p = add_counter num (cg s p)"
    "par s1 = par s" "warned s1 = warned s" "task_css s1 = task_css s"
    by (simp_all add: s1_def)
  have p: "p \<notin> set visited" "p \<notin> set ps" using Cons.prems(1) by auto
  show ?case
  proof (cases "counter (cg s p) + num > limit (cg s p)")
    case True
    have d: "distinct (rev visited)" using Cons.prems(1) by simp
    let ?r = "pids_cancel num p (fold (pids_cancel num) (rev visited) s1)"
    have "cg ?r = (\<lambda>q. if q \<in> set visited then add_counter (- num) (cg s q) else cg s q)"
      using p s1(1,2) by (auto simp: fun_eq_iff pids_cancel_def Let_def cancel_list [OF d])
    moreover have "warned ?r = warned s"
    proof -
      have "\<forall>q \<in> set visited. \<not> counter (cg s1 q) - num < 0"
        using Cons.prems(3) p(1) s1(1) by (metis not_less)
      then show ?thesis
        using p s1(2,4) Cons.prems(4)
        by (auto simp: pids_cancel_def Let_def cancel_list [OF d])
    qed
    moreover have "par ?r = par s" "task_css ?r = task_css s"
      using s1 by (simp_all add: pids_cancel_def Let_def cancel_list [OF d])
    ultimately have "?r = s\<lparr>cg := (\<lambda>q. if q \<in> set visited then add_counter (- num) (cg s q) else cg s q)\<rparr>"
      by simp
    with True show ?thesis by (simp add: s1_def [symmetric] Let_def s1(2))
  next
    case False
    have "try_charge_path (p # visited) ps num s1 =
      (if \<forall>q \<in> set ps. counter (cg s1 q) + num \<le> limit (cg s1 q)
       then (0, s1\<lparr>cg := (\<lambda>q. if q \<in> set ps then add_counter num (cg s1 q) else cg s1 q)\<rparr>)
       else (- EAGAIN, s1\<lparr>cg := (\<lambda>q. if q \<in> set (p # visited) then add_counter (- num) (cg s1 q) else cg s1 q)\<rparr>))"
      using Cons.prems p s1(1,2) by (intro Cons.IH) (auto, (metis s1(1))+)
    moreover have "(\<forall>q \<in> set ps. counter (cg s1 q) + num \<le> limit (cg s1 q)) \<longleftrightarrow>
        (\<forall>q \<in> set ps. counter (cg s q) + num \<le> limit (cg s q))"
      using p s1(1) by metis
    moreover have "s1\<lparr>cg := f\<rparr> = s\<lparr>cg := f\<rparr>" for f by (simp add: s1_def)
    moreover have "(\<lambda>q. if q \<in> set ps then add_counter num (cg s1 q) else cg s1 q) =
        (\<lambda>q. if q \<in> set (p # ps) then add_counter num (cg s q) else cg s q)"
      using p by (auto simp: fun_eq_iff s1_def)
    moreover have "(\<lambda>q. if q \<in> set (p # visited) then add_counter (- num) (cg s1 q) else cg s1 q) =
        (\<lambda>q. if q \<in> set visited then add_counter (- num) (cg s q) else cg s q)"
      using p by (auto simp: fun_eq_iff s1_def)
    ultimately show ?thesis using False by (simp add: s1_def [symmetric] Let_def s1(2))
  qed
qed

lemma try_charge_ok:
  assumes "0 \<le> num" and "\<forall>p \<in> set (up (par s) c). 0 \<le> counter (cg s p)"
  shows "pids_try_charge c num s =
    (if \<forall>p \<in> set (up (par s) c). counter (cg s p) + num \<le> limit (cg s p)
     then (0, pids_charge c num s) else (- EAGAIN, s))"
proof -
  have "pids_charge c num s = s\<lparr>cg := (\<lambda>q. if q \<in> set (up (par s) c) then add_counter num (cg s q) else cg s q)\<rparr>"
    by (rule pids_state.equality) (simp_all add: charge_cg fun_eq_iff)
  then show ?thesis
    unfolding pids_try_charge_def using assms by (subst try_charge_path_ok) simp_all
qed

subsection \<open>Tasks and counters\<close>

text \<open>
  The controller inside the cgroup core: the live tasks, and the calls the core makes around a
  fork, an exit and a migration.  A fork that the controller allows may still fail later
  (\<open>cancel_fork\<close>), and so may a migration (\<open>cancel_attach\<close>).
\<close>

definition set_css :: "nat \<Rightarrow> nat \<Rightarrow> pids_state \<Rightarrow> pids_state" where
  "set_css t c s = s\<lparr>task_css := (task_css s)(t := c)\<rparr>"

definition move_tasks :: "(nat \<times> nat) list \<Rightarrow> pids_state \<Rightarrow> pids_state" where
  "move_tasks tset s = fold (\<lambda>(t, c) s. set_css t c s) tset s"

inductive pids_step :: "nat set \<times> pids_state \<Rightarrow> nat set \<times> pids_state \<Rightarrow> bool" where
  fork: "t \<in> T \<Longrightarrow> new \<notin> T \<Longrightarrow> pids_can_fork t s = (0, s1) \<Longrightarrow>
    pids_step (T, s) (insert new T, set_css new (task_css s1 t) s1)"
| fork_refused: "t \<in> T \<Longrightarrow> pids_can_fork t s = (err, s1) \<Longrightarrow> err \<noteq> 0 \<Longrightarrow> pids_step (T, s) (T, s1)"
| fork_cancelled: "t \<in> T \<Longrightarrow> pids_can_fork t s = (0, s1) \<Longrightarrow> pids_step (T, s) (T, pids_cancel_fork t s1)"
| exit: "t \<in> T \<Longrightarrow> pids_step (T, s) (T - {t}, pids_release t s)"
| migrate: "fst ` set tset \<subseteq> T \<Longrightarrow> distinct (map fst tset) \<Longrightarrow> pids_can_attach tset s = (0, s1) \<Longrightarrow>
    pids_step (T, s) (T, move_tasks tset s1)"
| migrate_cancelled: "fst ` set tset \<subseteq> T \<Longrightarrow> distinct (map fst tset) \<Longrightarrow> pids_can_attach tset s = (0, s1) \<Longrightarrow>
    pids_step (T, s) (T, pids_cancel_attach tset s1)"
| set_limit: "pids_max_write k c buf n s = (r, s1) \<Longrightarrow> pids_step (T, s) (T, s1)"

definition tasks_under :: "nat set \<Rightarrow> pids_state \<Rightarrow> nat \<Rightarrow> nat set" where
  "tasks_under T s q = {t \<in> T. q \<in> set (up (par s) (task_css s t))}"

definition pids_inv :: "nat set \<times> pids_state \<Rightarrow> bool" where
  "pids_inv Ts \<longleftrightarrow> (case Ts of (T, s) \<Rightarrow> finite T \<and> tree_ok (par s) \<and> \<not> warned s
     \<and> (\<forall>q. counter (cg s q) = int (card (tasks_under T s q))))"

end
