(* ===== verification/Pids_Correct.thy ===== *)
theory Pids_Correct
  imports Pids
begin

section \<open>The pids counters count tasks\<close>

text \<open>
  Through every fork, exit, migration, refused or cancelled operation the counter of a cgroup is
  the number of live tasks in its subtree, and the \<open>WARN\<close> about a negative counter never fires.
\<close>

subsection \<open>States up to the tasks\<close>

definition attach_one :: "nat \<Rightarrow> nat \<Rightarrow> pids_state \<Rightarrow> pids_state" where
  "attach_one t c s = pids_uncharge (task_css s t) 1 (pids_charge c 1 s)"

lemma charge_css_update:
  "pids_charge p n (s\<lparr>task_css := f\<rparr>) = (pids_charge p n s)\<lparr>task_css := f\<rparr>"
  "pids_uncharge p n (s\<lparr>task_css := f\<rparr>) = (pids_uncharge p n s)\<lparr>task_css := f\<rparr>"
  by (rule pids_state.equality; simp add: fun_eq_iff charge_cg uncharge_cg)+

lemma attach_one_frames [simp]:
  "par (attach_one t c s) = par s" "task_css (attach_one t c s) = task_css s"
  by (simp_all add: attach_one_def)

lemma attach_one_set_css:
  "t \<noteq> t' \<Longrightarrow> attach_one t c (set_css t' c' s) = set_css t' c' (attach_one t c s)"
  by (simp add: attach_one_def set_css_def charge_css_update)

lemma fold_attach_set_css:
  "t' \<notin> fst ` set tset \<Longrightarrow>
     fold (\<lambda>(t, c). attach_one t c) tset (set_css t' c' s) = set_css t' c' (fold (\<lambda>(t, c). attach_one t c) tset s)"
  by (induction tset arbitrary: s) (auto simp: attach_one_set_css)

lemma can_attach_fold: "pids_can_attach tset s = (0, fold (\<lambda>(t, c). attach_one t c) tset s)"
  by (simp add: pids_can_attach_def attach_one_def [abs_def])

definition migrate_one :: "nat \<Rightarrow> nat \<Rightarrow> pids_state \<Rightarrow> pids_state" where
  "migrate_one t c s = set_css t c (attach_one t c s)"

lemma move_after_attach:
  assumes "distinct (map fst tset)"
  shows "move_tasks tset (fold (\<lambda>(t, c). attach_one t c) tset s) = fold (\<lambda>(t, c). migrate_one t c) tset s"
  using assms
proof (induction tset arbitrary: s)
  case Nil
  then show ?case by (simp add: move_tasks_def)
next
  case (Cons tc tset)
  obtain t c where tc: "tc = (t, c)" by (cases tc)
  have "move_tasks (tc # tset) (fold (\<lambda>(t, c). attach_one t c) (tc # tset) s)
    = move_tasks tset (set_css t c (fold (\<lambda>(t, c). attach_one t c) tset (attach_one t c s)))"
    by (simp add: tc move_tasks_def)
  also have "\<dots> = move_tasks tset (fold (\<lambda>(t, c). attach_one t c) tset (migrate_one t c s))"
    using fold_attach_set_css [of t tset c "attach_one t c s"] Cons.prems by (simp add: tc migrate_one_def)
  also have "\<dots> = fold (\<lambda>(t, c). migrate_one t c) (tc # tset) s"
    using Cons by (simp add: tc)
  finally show ?case .
qed

subsection \<open>One task at a time\<close>

lemma pids_invD:
  assumes "pids_inv (T, s)"
  shows "finite T" "tree_ok (par s)" "\<not> warned s" "counter (cg s q) = int (card (tasks_under T s q))"
  using assms by (auto simp: pids_inv_def)

lemma counter_nonneg: "pids_inv (T, s) \<Longrightarrow> 0 \<le> counter (cg s q)"
  by (simp add: pids_invD)

lemma finite_tasks_under: "finite T \<Longrightarrow> finite (tasks_under T s q)"
  by (simp add: tasks_under_def)

lemma counter_pos:
  assumes "pids_inv (T, s)" and "t \<in> T" and "q \<in> set (up (par s) (task_css s t))"
  shows "1 \<le> counter (cg s q)"
proof -
  have "t \<in> tasks_under T s q" using assms by (simp add: tasks_under_def)
  then have "0 < card (tasks_under T s q)"
    using finite_tasks_under [OF pids_invD(1) [OF assms(1)]] by (auto simp: card_gt_0_iff)
  then show ?thesis using pids_invD(4) [OF assms(1), of q] by simp
qed

lemma release_inv:
  assumes inv: "pids_inv (T, s)" and t: "t \<in> T"
  shows "pids_inv (T - {t}, pids_uncharge (task_css s t) 1 s)"
proof -
  note fin = finite_tasks_under [OF pids_invD(1) [OF inv]]
  have "counter (cg (pids_uncharge (task_css s t) 1 s) q)
      = int (card (tasks_under (T - {t}) (pids_uncharge (task_css s t) 1 s) q))" for q
  proof (cases "q \<in> set (up (par s) (task_css s t))")
    case True
    then have "tasks_under T s q = insert t (tasks_under (T - {t}) (pids_uncharge (task_css s t) 1 s) q)"
      "t \<notin> tasks_under (T - {t}) (pids_uncharge (task_css s t) 1 s) q"
      using t by (auto simp: tasks_under_def)
    with True pids_invD(4) [OF inv, of q] fin [of s q] show ?thesis by (simp add: uncharge_cg)
  next
    case False
    then have "tasks_under (T - {t}) (pids_uncharge (task_css s t) 1 s) q = tasks_under T s q"
      by (auto simp: tasks_under_def)
    with False pids_invD(4) [OF inv, of q] show ?thesis by (simp add: uncharge_cg)
  qed
  moreover have "\<not> warned (pids_uncharge (task_css s t) 1 s)"
    using pids_invD(3) [OF inv] counter_pos [OF inv t] by (force simp: uncharge_cg)
  ultimately show ?thesis using pids_invD(1,2) [OF inv] by (simp add: pids_inv_def)
qed

lemma charge_new_inv:
  assumes inv: "pids_inv (T, s)" and new: "new \<notin> T"
  shows "pids_inv (insert new T, set_css new c (pids_charge c 1 s))"
proof -
  note fin = finite_tasks_under [OF pids_invD(1) [OF inv]]
  let ?s = "set_css new c (pids_charge c 1 s)"
  have under: "tasks_under (insert new T) ?s q =
      (if q \<in> set (up (par s) c) then insert new (tasks_under T s q) else tasks_under T s q)" for q
    using new by (auto simp: tasks_under_def set_css_def)
  have "new \<notin> tasks_under T s q" for q using new by (simp add: tasks_under_def)
  then have "counter (cg ?s q) = int (card (tasks_under (insert new T) ?s q))" for q
    using pids_invD(4) [OF inv, of q] fin [of s q] under [of q] by (simp add: set_css_def charge_cg)
  with pids_invD(1-3) [OF inv] show ?thesis by (simp add: pids_inv_def set_css_def)
qed

text \<open>Charging first and releasing the old place afterwards is the same as moving the task.\<close>

lemma migrate_one_eq:
  assumes "pids_inv (T, s)" and "t \<in> T"
  shows "migrate_one t c s = set_css t c (pids_charge c 1 (pids_uncharge (task_css s t) 1 s))"
proof (rule pids_state.equality)
  have w: "\<not> counter (cg s q) - 1 < 0" if "q \<in> set (up (par s) (task_css s t))" for q
    using counter_pos [OF assms that] by simp
  have w': "\<not> counter (cg (pids_charge c 1 s) q) - 1 < 0" if "q \<in> set (up (par s) (task_css s t))" for q
    using counter_pos [OF assms that] by (simp add: charge_cg)
  show "warned (migrate_one t c s) = warned (set_css t c (pids_charge c 1 (pids_uncharge (task_css s t) 1 s)))"
    using w w' by (auto simp: migrate_one_def attach_one_def set_css_def uncharge_cg charge_frame)
qed (auto simp: migrate_one_def attach_one_def set_css_def fun_eq_iff uncharge_cg charge_cg)

lemma migrate_one_inv:
  assumes "pids_inv (T, s)" and "t \<in> T"
  shows "pids_inv (T, migrate_one t c s)"
proof -
  from charge_new_inv [OF release_inv [OF assms], of t c] assms(2)
  show ?thesis by (simp add: migrate_one_eq [OF assms] insert_absorb)
qed

lemma migrate_inv:
  assumes "pids_inv (T, s)" and "fst ` set tset \<subseteq> T"
  shows "pids_inv (T, fold (\<lambda>(t, c). migrate_one t c) tset s)"
  using assms
proof (induction tset arbitrary: s)
  case Nil
  then show ?case by simp
next
  case (Cons tc tset)
  have "pids_inv (T, migrate_one (fst tc) (snd tc) s)" using Cons.prems by (auto intro: migrate_one_inv)
  from Cons.IH [OF this] Cons.prems(2) show ?case by (simp add: split_beta)
qed

subsection \<open>A cancelled migration\<close>

definition same_counts :: "pids_state \<Rightarrow> pids_state \<Rightarrow> bool" where
  "same_counts s s' \<longleftrightarrow> cg s = cg s' \<and> par s = par s' \<and> warned s = warned s'"

lemma same_counts_charge:
  assumes "same_counts s s'"
  shows "same_counts (pids_charge p n s) (pids_charge p n s')"
    and "same_counts (pids_uncharge p n s) (pids_uncharge p n s')"
proof -
  have "cg s = cg s'" "par s = par s'" "warned s = warned s'" using assms by (simp_all add: same_counts_def)
  then show "same_counts (pids_charge p n s) (pids_charge p n s')"
    "same_counts (pids_uncharge p n s) (pids_uncharge p n s')"
    unfolding same_counts_def by (intro conjI ext; simp add: charge_cg uncharge_cg)+
qed

lemma move_tasks_frame:
  "cg (move_tasks tset s) = cg s" "par (move_tasks tset s) = par s" "warned (move_tasks tset s) = warned s"
  by (induction tset arbitrary: s) (auto simp: move_tasks_def set_css_def)

lemma move_tasks_other: "t \<notin> fst ` set tset \<Longrightarrow> task_css (move_tasks tset s) t = task_css s t"
  by (induction tset arbitrary: s) (auto simp: move_tasks_def set_css_def)

lemma move_tasks_css:
  "distinct (map fst tset) \<Longrightarrow> (t, c) \<in> set tset \<Longrightarrow> task_css (move_tasks tset s) t = c"
proof (induction tset arbitrary: s)
  case Nil
  then show ?case by simp
next
  case (Cons tc tset)
  have step: "move_tasks (tc # tset) s = move_tasks tset (set_css (fst tc) (snd tc) s)"
    by (simp add: move_tasks_def split_beta)
  show ?case
  proof (cases "(t, c) \<in> set tset")
    case True
    with Cons show ?thesis by (simp add: step)
  next
    case False
    with Cons.prems have "tc = (t, c)" and "t \<notin> fst ` set tset" by force+
    then show ?thesis using move_tasks_other [of t tset "set_css t c s"] step by (simp add: set_css_def)
  qed
qed

lemma cancel_is_move_back:
  assumes "same_counts x y" and "\<forall>(t, c) \<in> set tset. task_css y t = c \<and> old t = task_css x t"
  shows "same_counts (pids_cancel_attach tset x)
    (fold (\<lambda>(t, c). attach_one t c) (map (\<lambda>(t, c). (t, old t)) tset) y)"
  using assms
proof (induction tset arbitrary: x y)
  case Nil
  then show ?case by (simp add: pids_cancel_attach_def)
next
  case (Cons tc tset)
  obtain t c where tc: "tc = (t, c)" by (cases tc)
  let ?x = "pids_uncharge c 1 (pids_charge (task_css x t) 1 x)"
  have y: "attach_one t (old t) y = pids_uncharge c 1 (pids_charge (task_css x t) 1 y)"
    using Cons.prems(2) tc by (simp add: attach_one_def)
  have "same_counts ?x (attach_one t (old t) y)"
    unfolding y by (intro same_counts_charge Cons.prems(1))
  moreover have "pids_cancel_attach (tc # tset) x = pids_cancel_attach tset ?x"
    by (simp add: pids_cancel_attach_def tc)
  ultimately show ?case using Cons.IH [of ?x "attach_one t (old t) y"] Cons.prems(2) by (simp add: tc)
qed

lemma cancel_attach_inv:
  assumes inv: "pids_inv (T, s)" and sub: "fst ` set tset \<subseteq> T" and d: "distinct (map fst tset)"
    and s1: "pids_can_attach tset s = (0, s1)"
  shows "pids_inv (T, pids_cancel_attach tset s1)"
proof -
  have s1': "s1 = fold (\<lambda>(t, c). attach_one t c) tset s" using s1 by (simp add: can_attach_fold)
  define y where "y = move_tasks tset s1"
  define bk where "bk = map (\<lambda>(t, c). (t, task_css s t)) tset"
  have fst_bk: "map fst bk = map fst tset" by (simp add: bk_def comp_def split_beta)
  have css1: "task_css s1 = task_css s"
    unfolding s1' by (induction tset arbitrary: s) (auto simp: split_beta)
  have y_inv: "pids_inv (T, y)"
    using migrate_inv [OF inv sub] by (simp add: y_def s1' move_after_attach [OF d])
  have "same_counts (pids_cancel_attach tset s1) (fold (\<lambda>(t, c). attach_one t c) bk y)"
    unfolding bk_def
    by (rule cancel_is_move_back)
      (auto simp: same_counts_def y_def move_tasks_frame css1 move_tasks_css [OF d])
  moreover have mv: "move_tasks bk (fold (\<lambda>(t, c). attach_one t c) bk y) = fold (\<lambda>(t, c). migrate_one t c) bk y"
    using d by (intro move_after_attach) (simp only: fst_bk)
  moreover have "task_css (pids_cancel_attach tset s1) = task_css s"
    unfolding css1 [symmetric] pids_cancel_attach_def
    by (induction tset arbitrary: s1) (auto simp: split_beta)
  moreover have "task_css (move_tasks bk (fold (\<lambda>(t, c). attach_one t c) bk y)) = task_css s"
  proof
    fix t
    have css_y: "task_css (fold (\<lambda>(t, c). attach_one t c) tset' y) = task_css y" for tset'
      by (induction tset' arbitrary: y) (auto simp: split_beta)
    show "task_css (move_tasks bk (fold (\<lambda>(t, c). attach_one t c) bk y)) t = task_css s t"
    proof (cases "t \<in> fst ` set tset")
      case True
      then have "(t, task_css s t) \<in> set bk" by (force simp: bk_def)
      then show ?thesis using d by (intro move_tasks_css) (simp_all only: fst_bk)
    next
      case False
      then have "t \<notin> fst ` set bk" using fst_bk by (metis list.set_map)
      then have "task_css (move_tasks bk (fold (\<lambda>(t, c). attach_one t c) bk y)) t = task_css y t"
        by (simp add: move_tasks_other css_y)
      also have "\<dots> = task_css s t" unfolding y_def using False by (simp add: move_tasks_other css1)
      finally show ?thesis .
    qed
  qed
  ultimately have "pids_cancel_attach tset s1 = fold (\<lambda>(t, c). migrate_one t c) bk y"
    unfolding mv [symmetric] same_counts_def
    by (intro pids_state.equality) (simp_all add: move_tasks_frame)
  moreover have "fst ` set bk \<subseteq> T" using sub by (auto simp: bk_def)
  ultimately show ?thesis using migrate_inv [OF y_inv] by simp
qed

subsection \<open>Forking\<close>

lemma can_fork_ok:
  assumes "pids_inv (T, s)"
  shows "pids_can_fork t s =
    (if \<forall>q \<in> set (up (par s) (task_css s t)). int (card (tasks_under T s q)) + 1 \<le> limit (cg s q)
     then (0, pids_charge (task_css s t) 1 s)
     else (- EAGAIN, s\<lparr>cg := (cg s)(task_css s t := (cg s (task_css s t))
       \<lparr>events_limit := events_limit (cg s (task_css s t)) + 1\<rparr>)\<rparr>))"
  using try_charge_ok [of 1 s "task_css s t"] counter_nonneg [OF assms] pids_invD(4) [OF assms]
  by (simp add: pids_can_fork_def Let_def EAGAIN_def)

lemma pids_inv_same_counters:
  assumes "pids_inv (T, s)" and "\<And>q. counter (cg' q) = counter (cg s q)"
  shows "pids_inv (T, s\<lparr>cg := cg'\<rparr>)"
  using assms by (simp add: pids_inv_def tasks_under_def)

lemma charge_uncharge:
  assumes "pids_inv (T, s)"
  shows "pids_uncharge c n (pids_charge c n s) = s"
proof -
  have "\<not> counter (cg s q) < 0" for q using counter_nonneg [OF assms, of q] by simp
  then show ?thesis
    by (intro pids_state.equality) (auto simp: fun_eq_iff charge_cg uncharge_cg charge_frame)
qed

lemma pids_step_inv: "pids_step x y \<Longrightarrow> pids_inv x \<Longrightarrow> pids_inv y"
proof (induction rule: pids_step.induct)
  case (fork t T new s s1)
  then have "s1 = pids_charge (task_css s t) 1 s"
    using can_fork_ok [OF fork.prems, of t] by (auto simp: EAGAIN_def split: if_splits)
  with charge_new_inv [OF fork.prems fork.hyps(2)] show ?case by simp
next
  case (fork_refused t T s err s1)
  then show ?case
    using can_fork_ok [OF fork_refused.prems, of t]
    by (auto split: if_splits intro: pids_inv_same_counters)
next
  case (fork_cancelled t T s s1)
  then have "s1 = pids_charge (task_css s t) 1 s"
    using can_fork_ok [OF fork_cancelled.prems, of t] by (auto simp: EAGAIN_def split: if_splits)
  with fork_cancelled.prems show ?case by (simp add: pids_cancel_fork_def charge_uncharge)
next
  case (exit t T s)
  then show ?case using release_inv by (simp add: pids_release_def)
next
  case (migrate tset T s s1)
  then show ?case
    using migrate_inv [of T s tset] by (simp add: can_attach_fold move_after_attach [symmetric])
next
  case (migrate_cancelled tset T s s1)
  then show ?case using cancel_attach_inv by blast
next
  case (set_limit k c buf n s r s1 T)
  then show ?case
    by (auto simp: pids_max_write_def Let_def split: if_splits sum.splits intro!: pids_inv_same_counters)
qed

interpretation pids: kept_invariant pids_step pids_inv
  by unfold_locales (rule pids_step_inv)

subsection \<open>Properties\<close>

definition pids_start :: pids_state where
  "pids_start = \<lparr>par = [1 \<mapsto> 0, 2 \<mapsto> 1], cg = (\<lambda>q. \<lparr>counter = (if q = 1 \<or> q = 2 then 1 else 0), limit = 2, events_limit = 0\<rparr>),
     warned = False, task_css = (\<lambda>_. 2)\<rparr>"

lemma up_start: "up [Suc 0 \<mapsto> 0, 2 \<mapsto> Suc 0] 2 = [2, Suc 0]"
  by (simp add: up_Some)

lemma pids_start_inv: "pids_inv ({7}, pids_start)"
proof -
  have "tree_ok [1 \<mapsto> 0, 2 \<mapsto> 1]" by (simp add: tree_ok_def)
  moreover have "tasks_under {7} pids_start q = (if q = 1 \<or> q = 2 then {7} else {})" for q
    by (auto simp: tasks_under_def pids_start_def up_start)
  ultimately show ?thesis by (simp add: pids_inv_def) (simp add: pids_start_def)
qed

text \<open>C9: the counter of every cgroup is the number of live tasks in its subtree, after any
  sequence of forks, refused and cancelled forks, exits, migrations of task sets, cancelled
  migrations and writes of limits, and the controller's warning about a negative count never
  fires.\<close>

theorem pids_counters_exact:
  assumes "pids_step\<^sup>*\<^sup>* x (T, s)" and "pids_inv x"
  shows "pids_current_read q s = int (card (tasks_under T s q)) \<and> \<not> warned s"
proof -
  have "pids_inv (T, s)"
    using assms by (rule pids.reachable_inv)
  then show ?thesis by (simp add: pids_current_read_def pids_invD)
qed

lemma pids_counters_exact_witness:
  "pids_current_read 1 (pids_release 7 pids_start)
     = int (card (tasks_under {} (pids_release 7 pids_start) 1)) \<and> \<not> warned (pids_release 7 pids_start)"
proof -
  have "pids_step ({7}, pids_start) ({7} - {7}, pids_release 7 pids_start)" by (rule pids_step.exit) simp
  then have "pids_step\<^sup>*\<^sup>* ({7}, pids_start) ({}, pids_release 7 pids_start)" by simp
  from pids_counters_exact [OF this pids_start_inv] show ?thesis .
qed

text \<open>C27: a fork is admitted exactly when one more task fits the limit of the cgroup and of every
  ancestor but the root; then each of these counts one more, and otherwise the partial charges
  are undone completely: only the event counter of the task's own cgroup has moved.\<close>

theorem pids_fork_exact:
  assumes "pids_inv (T, s)"
  shows "pids_can_fork t s =
    (if \<forall>q \<in> set (up (par s) (task_css s t)). int (card (tasks_under T s q)) + 1 \<le> limit (cg s q)
     then (0, s\<lparr>cg := (\<lambda>q. if q \<in> set (up (par s) (task_css s t)) then add_counter 1 (cg s q) else cg s q)\<rparr>)
     else (- EAGAIN, s\<lparr>cg := (cg s)(task_css s t := (cg s (task_css s t))
       \<lparr>events_limit := events_limit (cg s (task_css s t)) + 1\<rparr>)\<rparr>))"
proof -
  have "pids_charge c 1 s = s\<lparr>cg := (\<lambda>q. if q \<in> set (up (par s) c) then add_counter 1 (cg s q) else cg s q)\<rparr>" for c
    by (rule pids_state.equality) (simp_all add: charge_cg fun_eq_iff)
  with can_fork_ok [OF assms, of t] show ?thesis by simp
qed

lemma pids_fork_exact_witness: "fst (pids_can_fork 7 pids_start) = 0"
proof -
  have "\<forall>q \<in> set (up (par pids_start) (task_css pids_start 7)).
      int (card (tasks_under {7} pids_start q)) + 1 \<le> limit (cg pids_start q)"
    using pids_invD(4) [OF pids_start_inv] by (simp flip: pids_invD(4) [OF pids_start_inv])
      (simp add: pids_start_def up_start)
  with pids_fork_exact [OF pids_start_inv, of 7] show ?thesis by simp
qed

text \<open>A limit survives the round trip through the file: whatever \<open>pids.max\<close> shows for a limit
  in range, written back, sets the same limit again (with a \<open>kstrtoll\<close> that reads decimal
  numbers).\<close>

theorem pids_max_round_trip:
  assumes "\<And>l. 0 \<le> l \<Longrightarrow> l < PIDS_MAX \<Longrightarrow> kstrtoll (show_int l) = Inr l"
    and "0 \<le> limit (cg s c)" and "limit (cg s c) \<le> PIDS_MAX"
  shows "pids_max_write kstrtoll c (pids_max_show c s) n s = (n, s)"
proof -
  have strip: "strstrip (w @ [CHR 0x0A]) = w" if "w \<noteq> []" "\<forall>x \<in> set w. \<not> isspace x" for w
  proof -
    have "dropWhile isspace (w @ [CHR 0x0A]) = w @ [CHR 0x0A]" using that by (cases w) auto
    moreover have "dropWhile isspace (rev w) = rev w"
      using that by (cases "rev w") (auto simp: rev_eq_Cons_iff)
    ultimately show ?thesis by (simp add: strstrip_def isspace_def)
  qed
  have shown: "show_int l \<noteq> []" "show_int l \<noteq> ''max''" if "0 \<le> l" for l
    using that show_nat_hd [of "nat l"] by (auto simp: show_int_def char_digit_def)
  have same: "s\<lparr>cg := (cg s)(c := (cg s c)\<lparr>limit := limit (cg s c)\<rparr>)\<rparr> = s" by simp
  show ?thesis
  proof (cases "limit (cg s c) = PIDS_MAX")
    case True
    then have "strstrip (pids_max_show c s) = ''max''"
      using strip [of "''max''"] by (simp add: pids_max_show_def PIDS_MAX_STR_def isspace_def)
    then show ?thesis using True same by (simp add: pids_max_write_def PIDS_MAX_STR_def)
  next
    case False
    with assms(3) have lt: "limit (cg s c) < PIDS_MAX" by simp
    then have "strstrip (pids_max_show c s) = show_int (limit (cg s c))"
      using strip [of "show_int (limit (cg s c))"] shown assms(2) show_int_no_space
      by (auto simp: pids_max_show_def)
    then show ?thesis
      using assms(1) [OF assms(2) lt] lt assms(2) shown same by (simp add: pids_max_write_def PIDS_MAX_STR_def)
  qed
qed

lemma pids_max_round_trip_witness:
  "pids_max_write (\<lambda>b. case scan_int b of None \<Rightarrow> Inl (- EINVAL) | Some (l, _) \<Rightarrow> Inr l) 1
     (pids_max_show 1 pids_start) 2 pids_start = (2, pids_start)"
proof (rule pids_max_round_trip)
  fix l :: int
  show "(case scan_int (show_int l) of None \<Rightarrow> Inl (- EINVAL) | Some (l, _) \<Rightarrow> Inr l) = Inr l"
    using scan_int_show_int [of "[]" l] by simp
qed (simp_all add: pids_start_def PIDS_MAX_def)

end
