(* ===== verification/RdmaCg.thy ===== *)
theory RdmaCg
  imports CgroupTree CFormat
begin

section \<open>The rdma controller\<close>

text \<open>
  \<open>cgroup/rdma.c\<close>: per cgroup and device a pool of resources with usage and limit, created by the
  first charge or limit and freed when nothing uses it and every limit is \<open>max\<close>.  The list of
  pools of a cgroup holds one pool per device at most, so it is a map from devices.  A device is
  a number with a name; \<open>kzalloc\<close> is an oracle, the results of the coming calls, success when
  the list is used up.  The arithmetic on \<open>int\<close> wraps, as the kernel is compiled.
\<close>

definition RDMACG_RESOURCE_MAX :: nat where "RDMACG_RESOURCE_MAX = 2"
definition S32_MAX :: int where "S32_MAX = 2147483647"
definition R_EAGAIN :: int where "R_EAGAIN = 11"
definition R_ENOMEM :: int where "R_ENOMEM = 12"
definition R_EINVAL :: int where "R_EINVAL = 22"
definition R_ENODEV :: int where "R_ENODEV = 19"

lemmas rdma_consts = RDMACG_RESOURCE_MAX_def S32_MAX_def R_EAGAIN_def R_ENOMEM_def R_EINVAL_def R_ENODEV_def

definition rdmacg_resource_names :: "string list" where
  "rdmacg_resource_names = [''hca_handle'', ''hca_object'']"

record rdmacg_resource =
  rmax :: int
  usage :: int

record rdmacg_resource_pool =
  resources :: "rdmacg_resource list"
  usage_sum :: int
  num_max_cnt :: int

type_synonym pools = "nat \<Rightarrow> nat \<Rightarrow> rdmacg_resource_pool option"

record rdma_state =
  rpar :: tree
  rpools :: pools
  rdmacg_devices :: "(nat \<times> string) list"
  rwarned :: bool
  kmem :: "bool list"

definition kzalloc :: "rdma_state \<Rightarrow> bool \<times> rdma_state" where
  "kzalloc s = (case kmem s of [] \<Rightarrow> (True, s) | b # m \<Rightarrow> (b, s\<lparr>kmem := m\<rparr>))"

definition set_pool :: "nat \<Rightarrow> nat \<Rightarrow> rdmacg_resource_pool option \<Rightarrow> rdma_state \<Rightarrow> rdma_state" where
  "set_pool cg d p s = s\<lparr>rpools := (rpools s)(cg := (rpools s cg)(d := p))\<rparr>"

subsection \<open>Limits of a pool\<close>

definition set_resource_limit :: "nat \<Rightarrow> int \<Rightarrow> rdmacg_resource_pool \<Rightarrow> rdmacg_resource_pool" where
  "set_resource_limit index new_max rpool =
     (let old = rmax (resources rpool ! index);
          rpool = (if new_max = S32_MAX
                   then if old \<noteq> S32_MAX then rpool\<lparr>num_max_cnt := num_max_cnt rpool + 1\<rparr> else rpool
                   else if old = S32_MAX then rpool\<lparr>num_max_cnt := num_max_cnt rpool - 1\<rparr> else rpool)
      in rpool\<lparr>resources := (resources rpool)[index := (resources rpool ! index)\<lparr>rmax := new_max\<rparr>]\<rparr>)"

definition set_all_resource_max_limit :: "rdmacg_resource_pool \<Rightarrow> rdmacg_resource_pool" where
  "set_all_resource_max_limit rpool =
     fold (\<lambda>i. set_resource_limit i S32_MAX) [0..<RDMACG_RESOURCE_MAX] rpool"

text \<open>What \<open>kzalloc\<close> gives.\<close>

definition zero_pool :: rdmacg_resource_pool where
  "zero_pool = \<lparr>resources = replicate RDMACG_RESOURCE_MAX \<lparr>rmax = 0, usage = 0\<rparr>,
     usage_sum = 0, num_max_cnt = 0\<rparr>"

definition free_cg_rpool_locked :: "nat \<Rightarrow> nat \<Rightarrow> rdma_state \<Rightarrow> rdma_state" where
  "free_cg_rpool_locked cg d s = set_pool cg d None s"

definition find_cg_rpool_locked :: "nat \<Rightarrow> nat \<Rightarrow> rdma_state \<Rightarrow> rdmacg_resource_pool option" where
  "find_cg_rpool_locked cg d s = rpools s cg d"

text \<open>The pool, or the error code of the error pointer.\<close>

definition get_cg_rpool_locked :: "nat \<Rightarrow> nat \<Rightarrow> rdma_state \<Rightarrow> (int + rdmacg_resource_pool) \<times> rdma_state" where
  "get_cg_rpool_locked cg d s =
     (case find_cg_rpool_locked cg d s of
        Some rpool \<Rightarrow> (Inr rpool, s)
      | None \<Rightarrow>
          let (ok, s) = kzalloc s in
          if \<not> ok then (Inl (- R_ENOMEM), s)
          else let rpool = set_all_resource_max_limit zero_pool
               in (Inr rpool, set_pool cg d (Some rpool) s))"

subsection \<open>Charging\<close>

definition no_user :: "rdmacg_resource_pool \<Rightarrow> bool" where
  "no_user rpool \<longleftrightarrow> usage_sum rpool = 0 \<and> num_max_cnt rpool = int RDMACG_RESOURCE_MAX"

definition uncharge_cg_locked :: "nat \<Rightarrow> nat \<Rightarrow> nat \<Rightarrow> rdma_state \<Rightarrow> rdma_state" where
  "uncharge_cg_locked d index cg s =
     (case find_cg_rpool_locked cg d s of
        None \<Rightarrow> s
      | Some rpool \<Rightarrow>
          let r = resources rpool ! index;
              u = wrap32 (usage r - 1);
              rpool = rpool\<lparr>resources := (resources rpool)[index := r\<lparr>usage := u\<rparr>]\<rparr>;
              s = s\<lparr>rwarned := (rwarned s \<or> u < 0)\<rparr>;
              rpool = rpool\<lparr>usage_sum := usage_sum rpool - 1\<rparr>
          in if no_user rpool then free_cg_rpool_locked cg d (set_pool cg d (Some rpool) s)
             else set_pool cg d (Some rpool) s)"

text \<open>The cgroups from \<open>cg\<close> up to the root, and the loop that stops at \<open>stop_cg\<close>.\<close>

definition rdma_path :: "rdma_state \<Rightarrow> nat \<Rightarrow> nat list" where
  "rdma_path s cg = cg # ancestors (rpar s) cg"

definition rdmacg_uncharge_hierarchy :: "nat \<Rightarrow> nat \<Rightarrow> nat option \<Rightarrow> nat \<Rightarrow> rdma_state \<Rightarrow> rdma_state" where
  "rdmacg_uncharge_hierarchy cg d stop_cg index s =
     fold (uncharge_cg_locked d index) (takeWhile (\<lambda>p. Some p \<noteq> stop_cg) (rdma_path s cg)) s"

definition rdmacg_uncharge :: "nat \<Rightarrow> nat \<Rightarrow> nat \<Rightarrow> rdma_state \<Rightarrow> rdma_state" where
  "rdmacg_uncharge cg d index s =
     (if index \<ge> RDMACG_RESOURCE_MAX then s else rdmacg_uncharge_hierarchy cg d None index s)"

text \<open>One turn of the charging loop.\<close>

definition charge_one :: "nat \<Rightarrow> nat \<Rightarrow> nat \<Rightarrow> rdma_state \<Rightarrow> int \<times> rdma_state" where
  "charge_one d index p s =
     (case get_cg_rpool_locked p d s of
        (Inl err, s) \<Rightarrow> (err, s)
      | (Inr rpool, s) \<Rightarrow>
          let r = resources rpool ! index; new = wrap32 (usage r + 1) in
          if new > rmax r then (- R_EAGAIN, s)
          else (0, set_pool p d (Some (rpool\<lparr>resources := (resources rpool)[index := r\<lparr>usage := new\<rparr>],
                 usage_sum := usage_sum rpool + 1\<rparr>)) s))"

fun charge_loop :: "nat \<Rightarrow> nat \<Rightarrow> nat \<Rightarrow> nat list \<Rightarrow> rdma_state \<Rightarrow> int \<times> rdma_state" where
  "charge_loop cg d index [] s = (0, s)"
| "charge_loop cg d index (p # ps) s =
     (let (ret, s) = charge_one d index p s in
      if ret \<noteq> 0 then (ret, rdmacg_uncharge_hierarchy cg d (Some p) index s)
      else charge_loop cg d index ps s)"

text \<open>\<open>cg\<close> is the cgroup of the current task.\<close>

definition rdmacg_try_charge :: "nat \<Rightarrow> nat \<Rightarrow> nat \<Rightarrow> rdma_state \<Rightarrow> int \<times> rdma_state" where
  "rdmacg_try_charge cg d index s =
     (if index \<ge> RDMACG_RESOURCE_MAX then (- R_EINVAL, s)
      else charge_loop cg d index (rdma_path s cg) s)"

subsection \<open>Devices and cgroups\<close>

definition rdmacg_register_device :: "nat \<Rightarrow> string \<Rightarrow> rdma_state \<Rightarrow> rdma_state" where
  "rdmacg_register_device d name s = s\<lparr>rdmacg_devices := rdmacg_devices s @ [(d, name)]\<rparr>"

definition rdmacg_unregister_device :: "nat \<Rightarrow> rdma_state \<Rightarrow> rdma_state" where
  "rdmacg_unregister_device d s =
     s\<lparr>rdmacg_devices := filter (\<lambda>x. fst x \<noteq> d) (rdmacg_devices s),
       rpools := (\<lambda>cg. (rpools s cg)(d := None))\<rparr>"

definition rdmacg_css_alloc :: "nat \<Rightarrow> nat option \<Rightarrow> rdma_state \<Rightarrow> int \<times> rdma_state" where
  "rdmacg_css_alloc cg parent s =
     (let (ok, s) = kzalloc s in
      if \<not> ok then (- R_ENOMEM, s)
      else (0, s\<lparr>rpar := (rpar s)(cg := parent), rpools := (rpools s)(cg := Map.empty)\<rparr>))"

definition rdmacg_css_offline :: "nat \<Rightarrow> rdma_state \<Rightarrow> rdma_state" where
  "rdmacg_css_offline cg s =
     s\<lparr>rpools := (rpools s)(cg := (\<lambda>d. map_option set_all_resource_max_limit (rpools s cg d)))\<rparr>"

subsection \<open>The file of limits\<close>

definition strsep :: "char \<Rightarrow> string option \<Rightarrow> string option \<times> string option" where
  "strsep c so = (case so of None \<Rightarrow> (None, None)
     | Some s \<Rightarrow> if c \<in> set s then (Some (takeWhile (\<lambda>x. x \<noteq> c) s), Some (tl (dropWhile (\<lambda>x. x \<noteq> c) s)))
                 else (Some s, None))"

fun index_of :: "string \<Rightarrow> nat \<Rightarrow> string list \<Rightarrow> nat option" where
  "index_of name i [] = None"
| "index_of name i (x # xs) = (if x = name then Some i else index_of name (i + 1) xs)"

text \<open>\<open>match_int\<close> of the kernel's parser is a parameter: the number, or \<open>None\<close> for an error.  The
  comparison with \<open>max\<close> looks at no more characters than the value has.\<close>

definition parse_resource :: "(string \<Rightarrow> int option) \<Rightarrow> string \<Rightarrow> int + nat \<times> int" where
  "parse_resource match_int c =
     (case strsep (CHR ''='') (Some c) of
        (Some name, Some value) \<Rightarrow>
          (case index_of name 0 rdmacg_resource_names of
             None \<Rightarrow> Inl (- R_EINVAL)
           | Some i \<Rightarrow>
               (case match_int value of
                  Some v \<Rightarrow> if v < 0 then Inl (- R_EINVAL) else Inr (i, v)
                | None \<Rightarrow> if take (length value) ''max'' = value then Inr (i, S32_MAX)
                           else Inl (- R_EINVAL)))
      | _ \<Rightarrow> Inl (- R_EINVAL))"

lemma strsep_shorter: "strsep c (Some s) = (x, Some s') \<Longrightarrow> length s' < length s"
proof -
  assume "strsep c (Some s) = (x, Some s')"
  then have "c \<in> set s" and s': "s' = tl (dropWhile (\<lambda>x. x \<noteq> c) s)"
    by (auto simp: strsep_def split: if_splits)
  then obtain y ys where "dropWhile (\<lambda>x. x \<noteq> c) s = y # ys"
    by (cases "dropWhile (\<lambda>x. x \<noteq> c) s") (auto simp: dropWhile_eq_Nil_conv)
  with length_dropWhile_le [of "\<lambda>x. x \<noteq> c" s] show ?thesis unfolding s' by simp
qed

text \<open>The limits to set and which of them are enabled.\<close>

function parse_limits :: "(string \<Rightarrow> int option) \<Rightarrow> string option \<Rightarrow> int list \<times> bool list
    \<Rightarrow> int + int list \<times> bool list" where
  "parse_limits match_int options acc =
     (case options of None \<Rightarrow> Inr acc
      | Some s \<Rightarrow>
          (case strsep (CHR '' '') (Some s) of (c, options') \<Rightarrow>
             (case parse_resource match_int (the c) of
                Inl err \<Rightarrow> Inl (- R_EINVAL)
              | Inr (i, v) \<Rightarrow> parse_limits match_int options' ((fst acc)[i := v], (snd acc)[i := True]))))"
  by pat_completeness auto
termination
  by (relation "measure (\<lambda>(m, opts, acc). case opts of None \<Rightarrow> 0 | Some s \<Rightarrow> Suc (length s))")
    (auto split: option.splits dest: strsep_shorter [OF sym] strsep_shorter)

definition rdmacg_parse_limits :: "(string \<Rightarrow> int option) \<Rightarrow> string option \<Rightarrow> int + int list \<times> bool list" where
  "rdmacg_parse_limits match_int options =
     parse_limits match_int options (replicate RDMACG_RESOURCE_MAX 0, replicate RDMACG_RESOURCE_MAX False)"

definition rdmacg_get_device_locked :: "string \<Rightarrow> rdma_state \<Rightarrow> nat option" where
  "rdmacg_get_device_locked name s = map_option fst (find (\<lambda>x. snd x = name) (rdmacg_devices s))"

definition strip_blanks :: "string \<Rightarrow> string" where
  "strip_blanks s = rev (dropWhile isspace (rev (dropWhile isspace s)))"

definition rdmacg_resource_set_max :: "(string \<Rightarrow> int option) \<Rightarrow> nat \<Rightarrow> string \<Rightarrow> int \<Rightarrow> rdma_state
    \<Rightarrow> int \<times> rdma_state" where
  "rdmacg_resource_set_max match_int cg buf nbytes s =
     (case strsep (CHR '' '') (Some (strip_blanks buf)) of (dev_name, options) \<Rightarrow>
        let (ok, s) = kzalloc s in
        if \<not> ok then (- R_ENOMEM, s)
        else case rdmacg_parse_limits match_int options of
          Inl err \<Rightarrow> (err, s)
        | Inr (new_limits, enables) \<Rightarrow>
            (case rdmacg_get_device_locked (the dev_name) s of
               None \<Rightarrow> (- R_ENODEV, s)
             | Some d \<Rightarrow>
                 (case get_cg_rpool_locked cg d s of
                    (Inl err, s) \<Rightarrow> (err, s)
                  | (Inr rpool, s) \<Rightarrow>
                      let rpool = fold (\<lambda>i p. if enables ! i then set_resource_limit i (new_limits ! i) p else p)
                                    [0..<RDMACG_RESOURCE_MAX] rpool;
                          s = set_pool cg d (Some rpool) s
                      in (nbytes, if no_user rpool then free_cg_rpool_locked cg d s else s))))"

definition print_rpool_values :: "bool \<Rightarrow> rdmacg_resource_pool option \<Rightarrow> string" where
  "print_rpool_values type_max rpool =
     concat (map (\<lambda>i.
       let v = (if type_max then (case rpool of Some p \<Rightarrow> rmax (resources p ! i) | None \<Rightarrow> S32_MAX)
                else (case rpool of Some p \<Rightarrow> usage (resources p ! i) | None \<Rightarrow> 0))
       in rdmacg_resource_names ! i @ ''='' @ (if v = S32_MAX then ''max'' else show_int v) @ '' '')
       [0..<RDMACG_RESOURCE_MAX])"

definition rdmacg_resource_read :: "bool \<Rightarrow> nat \<Rightarrow> rdma_state \<Rightarrow> string" where
  "rdmacg_resource_read type_max cg s =
     concat (map (\<lambda>(d, name). name @ '' '' @ print_rpool_values type_max (find_cg_rpool_locked cg d s) @ [CHR 0x0A])
       (rdmacg_devices s))"

end
