(* ===== verification/RdmaCg_Correct.thy ===== *)
theory RdmaCg_Correct
  imports RdmaCg
begin

section \<open>Charging rdma resources is all or nothing\<close>

text \<open>
  The invariant of the pools; a charge that fails anywhere on the path to the root leaves every pool
  as it was, whether memory or a limit gave out; a charge and its release cancel; and the places
  where the code does something else than its comments say.
\<close>

subsection \<open>Pools\<close>

definition pool_ok :: "rdmacg_resource_pool \<Rightarrow> bool" where
  "pool_ok p \<longleftrightarrow> length (resources p) = RDMACG_RESOURCE_MAX
     \<and> (\<forall>r \<in> set (resources p). 0 \<le> usage r \<and> usage r \<le> S32_MAX)
     \<and> usage_sum p = sum_list (map usage (resources p))
     \<and> num_max_cnt p = int (length (filter (\<lambda>r. rmax r = S32_MAX) (resources p)))
     \<and> \<not> no_user p"

definition rdma_inv :: "rdma_state \<Rightarrow> bool" where
  "rdma_inv s \<longleftrightarrow> tree_ok (rpar s) \<and> (\<forall>c d p. rpools s c d = Some p \<longrightarrow> pool_ok p)"

text \<open>The pool a charge works on, the charge itself, and whether the limit leaves room for it.\<close>

definition fresh_pool :: rdmacg_resource_pool where
  "fresh_pool = \<lparr>resources = [\<lparr>rmax = S32_MAX, usage = 0\<rparr>, \<lparr>rmax = S32_MAX, usage = 0\<rparr>],
     usage_sum = 0, num_max_cnt = 2\<rparr>"

definition pool_or_fresh :: "rdmacg_resource_pool option \<Rightarrow> rdmacg_resource_pool" where
  "pool_or_fresh po = (case po of Some p \<Rightarrow> p | None \<Rightarrow> fresh_pool)"

definition in_use :: "nat \<Rightarrow> rdmacg_resource_pool option \<Rightarrow> int" where
  "in_use i po = usage (resources (pool_or_fresh po) ! i)"

definition bump :: "nat \<Rightarrow> rdmacg_resource_pool option \<Rightarrow> rdmacg_resource_pool" where
  "bump i po = (let p = pool_or_fresh po; r = resources p ! i in
     p\<lparr>resources := (resources p)[i := r\<lparr>usage := usage r + 1\<rparr>], usage_sum := usage_sum p + 1\<rparr>)"

definition room :: "nat \<Rightarrow> rdmacg_resource_pool option \<Rightarrow> bool" where
  "room i po \<longleftrightarrow> in_use i po < rmax (resources (pool_or_fresh po) ! i)"

lemma fresh_pool_eq: "set_all_resource_max_limit zero_pool = fresh_pool"
  by (simp add: set_all_resource_max_limit_def zero_pool_def fresh_pool_def set_resource_limit_def rdma_consts
      upt_rec numeral_2_eq_2)

lemma two_cases: "i < RDMACG_RESOURCE_MAX \<Longrightarrow> i = 0 \<or> i = 1"
  by (auto simp: rdma_consts)

lemma pool_resources:
  assumes "pool_ok p"
  obtains a b where "resources p = [a, b]"
  using assms by (auto simp: pool_ok_def rdma_consts length_Suc_conv numeral_2_eq_2)

lemma room_fresh [simp]: "i < RDMACG_RESOURCE_MAX \<Longrightarrow> room i None"
  by (drule two_cases) (auto simp: room_def in_use_def pool_or_fresh_def fresh_pool_def rdma_consts)

lemma in_use_fresh [simp]: "i < RDMACG_RESOURCE_MAX \<Longrightarrow> in_use i None = 0"
  by (drule two_cases) (auto simp: in_use_def pool_or_fresh_def fresh_pool_def)

text \<open>Uses of a resource below the largest int do not wrap.\<close>

definition no_wrap :: "nat \<Rightarrow> rdmacg_resource_pool option \<Rightarrow> bool" where
  "no_wrap i po \<longleftrightarrow> in_use i po < S32_MAX"

lemma wrap_usage: "0 \<le> in_use i po \<Longrightarrow> no_wrap i po \<Longrightarrow> wrap32 (in_use i po + 1) = in_use i po + 1"
  by (rule wrap32_id) (simp add: no_wrap_def c_int_def rdma_consts INT_MAX_def INT_MIN_def)

lemma in_use_nonneg:
  assumes "\<And>p. po = Some p \<Longrightarrow> pool_ok p" and "i < RDMACG_RESOURCE_MAX"
  shows "0 \<le> in_use i po"
proof (cases po)
  case None
  then show ?thesis using assms(2) by simp
next
  case (Some p)
  then show ?thesis using assms by (simp add: in_use_def pool_or_fresh_def pool_ok_def)
qed

lemma bump_ok:
  assumes "\<And>p. po = Some p \<Longrightarrow> pool_ok p" and "i < RDMACG_RESOURCE_MAX" and "no_wrap i po"
  shows "pool_ok (bump i po)"
proof (cases po)
  case None
  then show ?thesis using two_cases [OF assms(2)]
    by (auto simp: bump_def pool_or_fresh_def fresh_pool_def pool_ok_def rdma_consts no_user_def)
next
  case (Some p)
  then obtain a b where ab: "resources p = [a, b]" using pool_resources assms(1) by blast
  have "pool_ok p" using assms(1) Some by simp
  then show ?thesis using two_cases [OF assms(2)] assms(3) Some
    by (auto simp: bump_def pool_or_fresh_def pool_ok_def ab no_user_def no_wrap_def in_use_def split: if_splits)
qed

subsection \<open>One cgroup\<close>

lemma kzalloc_frame [simp]:
  "rpools (snd (kzalloc s)) = rpools s" "rpar (snd (kzalloc s)) = rpar s"
  "rwarned (snd (kzalloc s)) = rwarned s" "rdmacg_devices (snd (kzalloc s)) = rdmacg_devices s"
  by (auto simp: kzalloc_def split: list.splits)

lemma set_pool_frame [simp]:
  "rpar (set_pool c d p s) = rpar s" "rwarned (set_pool c d p s) = rwarned s"
  "rdmacg_devices (set_pool c d p s) = rdmacg_devices s" "kmem (set_pool c d p s) = kmem s"
  "rpools (set_pool c d p s) = (rpools s)(c := (rpools s c)(d := p))"
  by (simp_all add: set_pool_def)

lemma charge_one_ok:
  assumes inv: "\<And>p. rpools s c d = Some p \<Longrightarrow> pool_ok p" and i: "i < RDMACG_RESOURCE_MAX"
    and nw: "no_wrap i (rpools s c d)" and call: "charge_one d i c s = (ret, s')"
  shows "rpar s' = rpar s" and "rwarned s' = rwarned s"
    and "ret = 0 \<Longrightarrow> rpools s' = (rpools s)(c := (rpools s c)(d := Some (bump i (rpools s c d)))) \<and> room i (rpools s c d)"
    and "ret \<noteq> 0 \<Longrightarrow> rpools s' = rpools s"
    and "kmem s = [] \<Longrightarrow> kmem s' = [] \<and> ret = (if room i (rpools s c d) then 0 else - R_EAGAIN)"
proof -
  note w = wrap_usage [OF in_use_nonneg [OF inv i] nw, unfolded in_use_def]
  have gt: "(x + 1 > y) = (\<not> x < y)" for x y :: int by auto
  obtain ok m where k: "kzalloc s = (ok, m)" by (cases "kzalloc s")
  have m: "rpools m = rpools s" "rpar m = rpar s" "rwarned m = rwarned s" using kzalloc_frame [of s] k by simp_all
  have mk: "kmem s = [] \<Longrightarrow> ok \<and> kmem m = []" using k by (auto simp: kzalloc_def)
  have rf: "room i None" using i by simp
  show "rpar s' = rpar s" "rwarned s' = rwarned s"
    "ret = 0 \<Longrightarrow> rpools s' = (rpools s)(c := (rpools s c)(d := Some (bump i (rpools s c d)))) \<and> room i (rpools s c d)"
    "ret \<noteq> 0 \<Longrightarrow> rpools s' = rpools s"
    "kmem s = [] \<Longrightarrow> kmem s' = [] \<and> ret = (if room i (rpools s c d) then 0 else - R_EAGAIN)"
    using call w m mk rf
    by (auto simp: charge_one_def get_cg_rpool_locked_def find_cg_rpool_locked_def k fresh_pool_eq
        pool_or_fresh_def room_def in_use_def bump_def Let_def gt rdma_consts split: option.splits if_splits)
qed

lemma unbump:
  assumes "\<And>p. po = Some p \<Longrightarrow> pool_ok p" and i: "i < RDMACG_RESOURCE_MAX" and "no_wrap i po"
    and "rpools s c d = Some (bump i po)"
  shows "rpools (uncharge_cg_locked d i c s) = (rpools s)(c := (rpools s c)(d := po))"
    and "rwarned (uncharge_cg_locked d i c s) = rwarned s" and "rpar (uncharge_cg_locked d i c s) = rpar s"
proof -
  let ?p = "pool_or_fresh po"
  have len: "length (resources ?p) = RDMACG_RESOURCE_MAX"
    using assms(1) by (cases po) (auto simp: pool_or_fresh_def fresh_pool_def rdma_consts pool_ok_def)
  have u: "usage (resources (bump i po) ! i) = in_use i po + 1"
    using len i by (simp add: bump_def Let_def in_use_def)
  have nn: "0 \<le> in_use i po" using in_use_nonneg [OF assms(1) i] by blast
  have w: "wrap32 (in_use i po) = in_use i po"
    using nn assms(3) by (intro wrap32_id) (simp add: c_int_def no_wrap_def rdma_consts INT_MAX_def INT_MIN_def)
  have restored: "(bump i po)\<lparr>resources := (resources (bump i po))[i := (resources (bump i po) ! i)\<lparr>usage := in_use i po\<rparr>],
      usage_sum := usage_sum (bump i po) - 1\<rparr> = ?p"
    using len i by (simp add: bump_def Let_def in_use_def)
  have free: "no_user ?p \<longleftrightarrow> po = None"
    using assms(1) by (cases po) (auto simp: pool_or_fresh_def fresh_pool_def no_user_def rdma_consts pool_ok_def)
  show "rpools (uncharge_cg_locked d i c s) = (rpools s)(c := (rpools s c)(d := po))"
    "rwarned (uncharge_cg_locked d i c s) = rwarned s" "rpar (uncharge_cg_locked d i c s) = rpar s"
    unfolding uncharge_cg_locked_def find_cg_rpool_locked_def assms(4) option.case Let_def u add_diff_cancel_right' w
    using restored free nn
    by (cases po; simp add: free_cg_rpool_locked_def pool_or_fresh_def)+
qed

subsection \<open>The path to the root\<close>

definition bump_all :: "nat \<Rightarrow> nat \<Rightarrow> nat list \<Rightarrow> pools \<Rightarrow> pools" where
  "bump_all d i ps m = (\<lambda>c e. if c \<in> set ps \<and> e = d then Some (bump i (m c d)) else m c e)"

lemma bump_all_simps [simp]: "bump_all d i [] m = m"
  "c \<notin> set ps \<Longrightarrow> bump_all d i ps m c = m c" "c \<in> set ps \<Longrightarrow> bump_all d i ps m c d = Some (bump i (m c d))"
  by (auto simp: bump_all_def fun_eq_iff)

lemma uncharge_all:
  assumes "distinct ps" and "\<And>c p. m c d = Some p \<Longrightarrow> pool_ok p" and "i < RDMACG_RESOURCE_MAX"
    and "\<forall>c \<in> set ps. no_wrap i (m c d)" and "rpools s = bump_all d i ps m"
  shows "rpools (fold (uncharge_cg_locked d i) ps s) = m" and "rwarned (fold (uncharge_cg_locked d i) ps s) = rwarned s"
    and "rpar (fold (uncharge_cg_locked d i) ps s) = rpar s"
proof -
  have "rpools (fold (uncharge_cg_locked d i) ps s) = m \<and> rwarned (fold (uncharge_cg_locked d i) ps s) = rwarned s
    \<and> rpar (fold (uncharge_cg_locked d i) ps s) = rpar s"
    using assms(1,4,5)
  proof (induction ps arbitrary: s)
    case Nil
    then show ?case by simp
  next
    case (Cons c ps)
    have b: "rpools s c d = Some (bump i (m c d))" using Cons.prems(3) by simp
    have nw: "no_wrap i (m c d)" using Cons.prems(2) by simp
    note u = unbump [OF assms(2) assms(3) nw b]
    have "rpools (uncharge_cg_locked d i c s) = bump_all d i ps m"
      using Cons.prems(1,3) u(1) by (auto simp: bump_all_def fun_eq_iff)
    with Cons.IH [of "uncharge_cg_locked d i c s"] Cons.prems(1,2) u(2,3) show ?case by simp
  qed
  then show "rpools (fold (uncharge_cg_locked d i) ps s) = m" "rwarned (fold (uncharge_cg_locked d i) ps s) = rwarned s"
    "rpar (fold (uncharge_cg_locked d i) ps s) = rpar s" by simp_all
qed

lemma distinct_path: "distinct (rdma_path s c)"
  using ancestors_less [of c "rpar s" c] by (auto simp: rdma_path_def)

lemma takeWhile_stop: "distinct (xs @ p # ys) \<Longrightarrow> takeWhile (\<lambda>q. Some q \<noteq> Some p) (xs @ p # ys) = xs"
  by (subst takeWhile_append2) auto

lemma charge_loop_ok:
  assumes m: "\<And>c p. m c d = Some p \<Longrightarrow> pool_ok p" and i: "i < RDMACG_RESOURCE_MAX"
    and "\<forall>c \<in> set (visited @ ps). no_wrap i (m c d)"
    and "rdma_path s cg = visited @ ps" and "rpools s = bump_all d i visited m"
    and "charge_loop cg d i ps s = (ret, s')"
  shows "rpar s' = rpar s \<and> rwarned s' = rwarned s
    \<and> (ret = 0 \<longrightarrow> rpools s' = bump_all d i (visited @ ps) m \<and> (\<forall>c \<in> set ps. room i (m c d)))
    \<and> (ret \<noteq> 0 \<longrightarrow> rpools s' = m)
    \<and> (kmem s = [] \<longrightarrow> ret = (if \<forall>c \<in> set ps. room i (m c d) then 0 else - R_EAGAIN))"
  using assms(3-)
proof (induction ps arbitrary: visited s)
  case Nil
  then show ?case by simp
next
  case (Cons c ps)
  have dist: "distinct (visited @ c # ps)" using distinct_path [of s cg] Cons.prems(2) by simp
  then have mc: "rpools s c d = m c d" using Cons.prems(3) by simp
  obtain r s1 where one: "charge_one d i c s = (r, s1)" by (cases "charge_one d i c s")
  have nw: "no_wrap i (rpools s c d)" using Cons.prems(1) mc by simp
  note o = charge_one_ok [OF _ i nw one, unfolded mc]
  have pre: "\<And>p. m c d = Some p \<Longrightarrow> pool_ok p" using m by blast
  show ?case
  proof (cases "r = 0")
    case True
    have pools: "rpools s1 = bump_all d i (visited @ [c]) m"
      using o(3) [OF pre True] Cons.prems(3) dist by (auto simp: bump_all_def fun_eq_iff)
    have path: "rdma_path s1 cg = (visited @ [c]) @ ps"
      using o(1) [OF pre] Cons.prems(2) by (simp add: rdma_path_def)
    have nws: "\<forall>x \<in> set ((visited @ [c]) @ ps). no_wrap i (m x d)" using Cons.prems(1) by simp
    have loop: "charge_loop cg d i ps s1 = (ret, s')" using Cons.prems(4) one True by simp
    have "rpar s' = rpar s1 \<and> rwarned s' = rwarned s1
      \<and> (ret = 0 \<longrightarrow> rpools s' = bump_all d i ((visited @ [c]) @ ps) m \<and> (\<forall>c \<in> set ps. room i (m c d)))
      \<and> (ret \<noteq> 0 \<longrightarrow> rpools s' = m)
      \<and> (kmem s1 = [] \<longrightarrow> ret = (if \<forall>c \<in> set ps. room i (m c d) then 0 else - R_EAGAIN))"
      by (rule Cons.IH [OF nws path pools loop])
    note rest = this [unfolded append_assoc append_Cons append_Nil]
    have "room i (m c d)" using o(3) [OF pre True] by blast
    then have all: "(\<forall>c \<in> set (c # ps). room i (m c d)) = (\<forall>c \<in> set ps. room i (m c d))" by simp
    have f: "rpar s1 = rpar s" "rwarned s1 = rwarned s" "kmem s = [] \<longrightarrow> kmem s1 = []"
      using o(1,2,5) [OF pre] by blast+
    show ?thesis
      unfolding all using rest unfolding f(1,2) using f(3) by (elim conjE, intro conjI) (assumption | blast)+
  next
    case False
    have tw: "takeWhile (\<lambda>q. Some q \<noteq> Some c) (rdma_path s1 cg) = visited"
      using takeWhile_stop [OF dist] o(1) [OF pre] Cons.prems(2) by (simp add: rdma_path_def)
    have s': "s' = fold (uncharge_cg_locked d i) visited s1" "ret = r"
      using Cons.prems(4) one False tw by (simp_all add: rdmacg_uncharge_hierarchy_def)
    have pools: "rpools s1 = bump_all d i visited m" using o(4) [OF pre False] Cons.prems(3) by simp
    have dv: "distinct visited" and nwv: "\<forall>c \<in> set visited. no_wrap i (m c d)" using dist Cons.prems(1) by simp_all
    note back_to_m = uncharge_all [where m = m, OF dv m i nwv pools]
    have "rpools s' = m" "rwarned s' = rwarned s1" "rpar s' = rpar s1" unfolding s' by (simp_all only: back_to_m)
    moreover have "kmem s = [] \<longrightarrow> r = (if room i (m c d) then 0 else - R_EAGAIN)" using o(5) [OF pre] by blast
    ultimately show ?thesis using o(1,2) [OF pre] False s'(2) by (auto split: if_splits)
  qed
qed

lemma rdma_try_charge_ok:
  assumes "rdma_inv s" and "i < RDMACG_RESOURCE_MAX"
    and "\<forall>c \<in> set (rdma_path s cg). no_wrap i (rpools s c d)"
    and "rdmacg_try_charge cg d i s = (ret, s')"
  shows "rpar s' = rpar s \<and> rwarned s' = rwarned s
    \<and> (ret = 0 \<longrightarrow> rpools s' = bump_all d i (rdma_path s cg) (rpools s)
         \<and> (\<forall>c \<in> set (rdma_path s cg). room i (rpools s c d)))
    \<and> (ret \<noteq> 0 \<longrightarrow> rpools s' = rpools s)
    \<and> (kmem s = [] \<longrightarrow> ret = (if \<forall>c \<in> set (rdma_path s cg). room i (rpools s c d) then 0 else - R_EAGAIN))"
proof -
  have pre: "\<And>c p. rpools s c d = Some p \<Longrightarrow> pool_ok p" using assms(1) by (simp add: rdma_inv_def)
  have call: "charge_loop cg d i (rdma_path s cg) s = (ret, s')"
    using assms(2,4) by (simp add: rdmacg_try_charge_def)
  have nws: "\<forall>c \<in> set ([] @ rdma_path s cg). no_wrap i (rpools s c d)" using assms(3) by simp
  have path: "rdma_path s cg = [] @ rdma_path s cg" and pools: "rpools s = bump_all d i [] (rpools s)" by simp_all
  from charge_loop_ok [where m = "rpools s", OF pre assms(2) nws path pools call]
  show ?thesis unfolding append_Nil .
qed

subsection \<open>Properties\<close>

lemma bump_all_inv:
  assumes "rdma_inv s" and "i < RDMACG_RESOURCE_MAX" and "\<forall>c \<in> set ps. no_wrap i (rpools s c d)"
    and "rpools s' = bump_all d i ps (rpools s)" and "rpar s' = rpar s"
  shows "rdma_inv s'"
proof -
  have "pool_ok p" if "bump_all d i ps (rpools s) c e = Some p" for c e p
    using that assms(1-3) bump_ok [of "rpools s c d" i]
    by (auto simp: bump_all_def rdma_inv_def split: if_splits)
  with assms(1,4,5) show ?thesis by (simp add: rdma_inv_def)
qed

definition rdma_demo :: rdma_state where
  "rdma_demo = \<lparr>rpar = [1 \<mapsto> 0], rpools = (\<lambda>_ _. None), rdmacg_devices = [(0, ''mlx5'')], rwarned = False, kmem = []\<rparr>"

lemma rdma_demo_inv: "rdma_inv rdma_demo"
  by (simp add: rdma_demo_def rdma_inv_def tree_ok_def)

lemma rdma_demo_no_wrap: "\<forall>c \<in> set (rdma_path rdma_demo 1). no_wrap 0 (rpools rdma_demo c 0)"
  by (simp add: rdma_demo_def no_wrap_def rdma_consts)

lemma rdma_demo_path: "rdma_path rdma_demo 1 = [1, 0]"
  by (simp add: rdma_path_def rdma_demo_def ancestors_Some)

text \<open>C26: charging is all or nothing.  While no usage has reached the largest int, a charge either
  succeeds, with one more use in the pool of the cgroup and of every ancestor up to the root and
  the invariant kept, or fails, because a limit is reached or memory runs out anywhere on the
  path, with every pool exactly as before and without a warning.  With memory it succeeds
  exactly when no limit on the path is reached.\<close>

theorem rdma_charge_all_or_nothing:
  assumes "rdma_inv s" and "i < RDMACG_RESOURCE_MAX"
    and "\<forall>c \<in> set (rdma_path s cg). no_wrap i (rpools s c d)"
    and "rdmacg_try_charge cg d i s = (ret, s')"
  shows "rdma_inv s' \<and> rwarned s' = rwarned s
    \<and> (ret = 0 \<longrightarrow> rpools s' = bump_all d i (rdma_path s cg) (rpools s)
         \<and> (\<forall>c \<in> set (rdma_path s cg). room i (rpools s c d)))
    \<and> (ret \<noteq> 0 \<longrightarrow> rpools s' = rpools s)
    \<and> (kmem s = [] \<longrightarrow> ret = (if \<forall>c \<in> set (rdma_path s cg). room i (rpools s c d) then 0 else - R_EAGAIN))"
proof -
  note t = rdma_try_charge_ok [OF assms]
  have "rdma_inv s'"
  proof (cases "ret = 0")
    case True
    with t bump_all_inv [OF assms(1-3)] show ?thesis by blast
  next
    case False
    with t assms(1) show ?thesis by (simp add: rdma_inv_def)
  qed
  with t show ?thesis by blast
qed

lemma rdma_charge_all_or_nothing_witness:
  "fst (rdmacg_try_charge 1 0 0 rdma_demo) = 0"
proof -
  obtain ret s' where r: "rdmacg_try_charge 1 0 0 rdma_demo = (ret, s')"
    by (cases "rdmacg_try_charge 1 0 0 rdma_demo")
  have "\<forall>c \<in> set (rdma_path rdma_demo 1). room 0 (rpools rdma_demo c 0)"
    by (simp add: rdma_demo_def rdma_consts)
  with rdma_charge_all_or_nothing [OF rdma_demo_inv _ rdma_demo_no_wrap r] r show ?thesis
    by (simp add: rdma_consts rdma_demo_def)
qed

text \<open>What was charged is given back: releasing a charge restores every pool, freeing again
  the pools that the charge created, and fires no warning.\<close>

theorem rdma_charge_uncharge:
  assumes "rdma_inv s" and "i < RDMACG_RESOURCE_MAX"
    and "\<forall>c \<in> set (rdma_path s cg). no_wrap i (rpools s c d)"
    and "rdmacg_try_charge cg d i s = (0, s')"
  shows "rpools (rdmacg_uncharge cg d i s') = rpools s \<and> rwarned (rdmacg_uncharge cg d i s') = rwarned s"
proof -
  have t: "rpar s' = rpar s" "rwarned s' = rwarned s" "rpools s' = bump_all d i (rdma_path s cg) (rpools s)"
    using rdma_try_charge_ok [OF assms] by simp_all
  have p: "rdma_path s' cg = rdma_path s cg" using t(1) by (simp add: rdma_path_def)
  have pre: "\<And>c p. rpools s c d = Some p \<Longrightarrow> pool_ok p" using assms(1) by (simp add: rdma_inv_def)
  have all: "takeWhile (\<lambda>p. True) xs = xs" for xs :: "nat list" by (induction xs) simp_all
  have "rdmacg_uncharge cg d i s' = fold (uncharge_cg_locked d i) (rdma_path s cg) s'"
    using assms(2) by (simp add: rdmacg_uncharge_def rdmacg_uncharge_hierarchy_def p all)
  with uncharge_all [where m = "rpools s", OF distinct_path pre assms(2,3) t(3)] t(2) show ?thesis by simp
qed

lemma rdma_charge_uncharge_witness:
  "rpools (rdmacg_uncharge 1 0 0 (snd (rdmacg_try_charge 1 0 0 rdma_demo))) = (\<lambda>_ _. None)"
proof -
  have "fst (rdmacg_try_charge 1 0 0 rdma_demo) = 0"
    unfolding rdmacg_try_charge_def rdma_demo_path
    by (simp add: rdma_consts charge_one_def get_cg_rpool_locked_def
        find_cg_rpool_locked_def rdma_demo_def kzalloc_def fresh_pool_eq fresh_pool_def wrap32_def set_pool_def Let_def)
  then have "rdmacg_try_charge 1 0 0 rdma_demo = (0, snd (rdmacg_try_charge 1 0 0 rdma_demo))"
    by (metis prod.collapse)
  from rdma_charge_uncharge [OF rdma_demo_inv _ rdma_demo_no_wrap this] show ?thesis
    by (simp add: rdma_consts rdma_demo_def)
qed

text \<open>a resource limit of \<open>max\<close> is accepted from any beginning of the word: the comparison
  looks at as many characters as the value has, so that a value that is no number and is one of
  the empty text, \<open>m\<close>, \<open>ma\<close> and \<open>max\<close> removes the limit, and any other is refused.\<close>

theorem rdma_max_prefix_accepted:
  assumes "match_int v = None"
  shows "parse_resource match_int (''hca_handle='' @ v) =
    (if v \<in> {[], ''m'', ''ma'', ''max''} then Inr (0, S32_MAX) else Inl (- R_EINVAL))"
proof -
  have "take (length v) ''max'' = v \<longleftrightarrow> v \<in> {[], ''m'', ''ma'', ''max''}"
  proof
    assume e: "take (length v) ''max'' = v"
    have "length (take (length v) ''max'') \<le> 3" by simp
    with e have "length v \<le> 3" by metis
    then consider "length v = 0" | "length v = 1" | "length v = 2" | "length v = 3" by linarith
    then have "v = take 0 ''max'' \<or> v = take 1 ''max'' \<or> v = take 2 ''max'' \<or> v = take 3 ''max''"
      by cases (metis e)+
    then show "v \<in> {[], ''m'', ''ma'', ''max''}" by simp
  qed auto
  with assms show ?thesis
    by (simp add: parse_resource_def strsep_def rdmacg_resource_names_def)
qed

lemma rdma_max_prefix_accepted_witness:
  "parse_resource (\<lambda>_. None) ''hca_handle=m'' = Inr (0, S32_MAX)"
  using rdma_max_prefix_accepted [of "\<lambda>_. None" "''m''"] by simp

text \<open>The sum is computed in \<open>int\<close> before it is stored in the 64-bit \<open>new\<close>: at the largest
  usage an unlimited pool does not refuse one more charge, its usage wraps to the smallest int.\<close>

theorem rdma_charge_wraps:
  assumes "rpools s c d = Some p" and "length (resources p) = RDMACG_RESOURCE_MAX" and "i < RDMACG_RESOURCE_MAX"
    and "usage (resources p ! i) = S32_MAX" and "rmax (resources p ! i) = S32_MAX"
  shows "\<exists>p' s'. charge_one d i c s = (0, s') \<and> rpools s' c d = Some p'
    \<and> usage (resources p' ! i) = - 2147483648"
  using assms by (simp add: charge_one_def get_cg_rpool_locked_def find_cg_rpool_locked_def Let_def
      rdma_consts wrap32_def)

definition rdma_full :: rdma_state where
  "rdma_full = rdma_demo\<lparr>rpools := (\<lambda>_ _. Some \<lparr>resources = [\<lparr>rmax = S32_MAX, usage = S32_MAX\<rparr>, \<lparr>rmax = S32_MAX, usage = 0\<rparr>],
     usage_sum = S32_MAX, num_max_cnt = 2\<rparr>)\<rparr>"

lemma rdma_charge_wraps_witness:
  "\<exists>p' s'. charge_one 0 0 1 rdma_full = (0, s') \<and> rpools s' 1 0 = Some p' \<and> usage (resources p' ! 0) = - 2147483648"
  by (rule rdma_charge_wraps [where p = "\<lparr>resources = [\<lparr>rmax = S32_MAX, usage = S32_MAX\<rparr>, \<lparr>rmax = S32_MAX, usage = 0\<rparr>],
     usage_sum = S32_MAX, num_max_cnt = 2\<rparr>"]) (simp_all add: rdma_full_def rdma_consts)

end
