(* ===== verification/CssWalk.thy ===== *)
theory CssWalk
  imports CgroupTree
begin

section \<open>Walking the descendants of a cgroup\<close>

text \<open>
  The iterators of \<open>cgroup/cgroup.c\<close> behind \<open>css_for_each_child\<close>,
  \<open>css_for_each_descendant_pre\<close> and \<open>css_for_each_descendant_post\<close>, on which the freezers
  rest.  A css is named by its serial number; the children of a css are linked in the order of
  their creation, so by growing serial number.  The walks are proved equal to the recursive
  pre-order and post-order of the subtree.
\<close>

record css_tree =
  tpar :: tree
  tcss :: "nat list"
  released :: "nat \<Rightarrow> bool"

text \<open>The list \<open>parent->children\<close>.\<close>

definition children :: "tree \<Rightarrow> nat list \<Rightarrow> nat \<Rightarrow> nat list" where
  "children par cs p = filter (\<lambda>c. par c = Some p \<and> p < c) cs"

definition kids :: "css_tree \<Rightarrow> nat \<Rightarrow> nat list" where
  "kids T p = children (tpar T) (tcss T) p"

definition css_tree_ok :: "css_tree \<Rightarrow> bool" where
  "css_tree_ok T \<longleftrightarrow> tree_ok (tpar T) \<and> sorted_wrt (<) (tcss T)
     \<and> (\<forall>c \<in> set (tcss T). \<forall>p. tpar T c = Some p \<longrightarrow> p \<in> set (tcss T))"

subsection \<open>The iterators\<close>

definition first :: "nat list \<Rightarrow> nat option" where
  "first xs = (case xs of [] \<Rightarrow> None | x # _ \<Rightarrow> Some x)"

text \<open>\<open>pos->sibling.next\<close>; the head of the list is \<open>None\<close>.\<close>

definition sibling_next :: "nat \<Rightarrow> nat list \<Rightarrow> nat option" where
  "sibling_next pos xs = first (drop 1 (dropWhile (\<lambda>x. x \<noteq> pos) xs))"

definition css_next_child :: "css_tree \<Rightarrow> nat option \<Rightarrow> nat \<Rightarrow> nat option" where
  "css_next_child T pos parent =
     (case pos of
        None \<Rightarrow> first (kids T parent)
      | Some p \<Rightarrow>
          if \<not> released T p then sibling_next p (kids T parent)
          else find (\<lambda>next. next > p) (kids T parent))"

text \<open>The loop of \<open>css_next_descendant_pre\<close>; a css without a parent is the root of the walk or
  none of its descendants.\<close>

fun next_sibling_up :: "css_tree \<Rightarrow> nat \<Rightarrow> nat \<Rightarrow> nat option" where
  "next_sibling_up T root pos =
     (if pos = root then None
      else case tpar T pos of None \<Rightarrow> None
        | Some q \<Rightarrow> (case css_next_child T (Some pos) q of
             Some next \<Rightarrow> Some next
           | None \<Rightarrow> if q < pos then next_sibling_up T root q else None))"

declare next_sibling_up.simps [simp del]

definition css_next_descendant_pre :: "css_tree \<Rightarrow> nat option \<Rightarrow> nat \<Rightarrow> nat option" where
  "css_next_descendant_pre T pos root =
     (case pos of None \<Rightarrow> Some root
      | Some p \<Rightarrow> (case css_next_child T None p of
          Some next \<Rightarrow> Some next
        | None \<Rightarrow> next_sibling_up T root p))"

lemma children_greater: "d \<in> set (children par cs p) \<Longrightarrow> d \<in> set cs \<and> p < d \<and> par d = Some p"
  by (auto simp: children_def)

lemma first_in: "first xs = Some x \<Longrightarrow> x \<in> set xs"
  by (cases xs) (auto simp: first_def)

lemma gap_less: "d \<in> set cs \<Longrightarrow> p < d \<Longrightarrow> Suc (Max (set cs)) - d < Suc (Max (set cs)) - (p::nat)"
proof -
  assume "d \<in> set cs" "p < d"
  moreover from this have "d \<le> Max (set cs)" by simp
  ultimately show ?thesis by linarith
qed

function css_leftmost_descendant :: "css_tree \<Rightarrow> nat \<Rightarrow> nat" where
  "css_leftmost_descendant T pos =
     (case css_next_child T None pos of None \<Rightarrow> pos | Some p \<Rightarrow> css_leftmost_descendant T p)"
  by pat_completeness auto
termination
proof (relation "measure (\<lambda>(T, c). Suc (Max (set (tcss T))) - c)")
  fix T :: css_tree and pos p
  assume "css_next_child T None pos = Some p"
  then have "p \<in> set (kids T pos)" by (auto simp: css_next_child_def dest: first_in)
  then have "p \<in> set (tcss T)" "pos < p" by (auto simp: kids_def dest: children_greater)
  then show "((T, p), T, pos) \<in> measure (\<lambda>(T, c). Suc (Max (set (tcss T))) - c)"
    using gap_less by simp
qed simp

declare css_leftmost_descendant.simps [simp del]

definition css_next_descendant_post :: "css_tree \<Rightarrow> nat option \<Rightarrow> nat \<Rightarrow> nat option" where
  "css_next_descendant_post T pos root =
     (case pos of None \<Rightarrow> Some (css_leftmost_descendant T root)
      | Some p \<Rightarrow>
          if p = root then None
          else case tpar T p of None \<Rightarrow> None
            | Some q \<Rightarrow> (case css_next_child T (Some p) q of
                Some next \<Rightarrow> Some (css_leftmost_descendant T next)
              | None \<Rightarrow> Some q))"

text \<open>\<open>for (pos = next(NULL); pos; pos = next(pos))\<close>: the positions in turn, \<open>None\<close> when the
  loop has not ended after \<open>fuel\<close> turns.\<close>

fun css_for_each :: "(nat option \<Rightarrow> nat option) \<Rightarrow> nat \<Rightarrow> nat option \<Rightarrow> nat list option" where
  "css_for_each next fuel None = Some []"
| "css_for_each next 0 (Some pos) = None"
| "css_for_each next (Suc fuel) (Some pos) =
     map_option (Cons pos) (css_for_each next fuel (next (Some pos)))"

subsection \<open>The orders\<close>

function pre_order :: "css_tree \<Rightarrow> nat \<Rightarrow> nat list" where
  "pre_order T c = c # concat (map (pre_order T) (kids T c))"
  by pat_completeness auto
termination
  by (relation "measure (\<lambda>(T, c). Suc (Max (set (tcss T))) - c)")
    (auto simp: kids_def intro: gap_less dest: children_greater)

declare pre_order.simps [simp del]

function post_order :: "css_tree \<Rightarrow> nat \<Rightarrow> nat list" where
  "post_order T c = concat (map (post_order T) (kids T c)) @ [c]"
  by pat_completeness auto
termination
  by (relation "measure (\<lambda>(T, c). Suc (Max (set (tcss T))) - c)")
    (auto simp: kids_def intro: gap_less dest: children_greater)

declare post_order.simps [simp del]

subsection \<open>Siblings\<close>

lemma children_sorted: "css_tree_ok T \<Longrightarrow> sorted_wrt (<) (kids T p)"
  by (simp add: css_tree_ok_def kids_def children_def sorted_wrt_filter)

lemma in_kids: "css_tree_ok T \<Longrightarrow> c \<in> set (kids T p) \<longleftrightarrow> c \<in> set (tcss T) \<and> tpar T c = Some p"
  by (auto simp: css_tree_ok_def kids_def children_def tree_ok_def)

lemma find_first: "find P xs = first (filter P xs)"
  by (induction xs) (auto simp: first_def)

lemma sibling_next_sorted:
  assumes "sorted_wrt (<) xs" and "p \<in> set xs"
  shows "sibling_next p xs = first (filter (\<lambda>n. p < n) xs)"
proof -
  have "drop 1 (dropWhile (\<lambda>x. x \<noteq> p) xs) = filter (\<lambda>n. p < n) xs"
    using assms
  proof (induction xs)
    case Nil
    then show ?case by simp
  next
    case (Cons a xs)
    have "filter (\<lambda>n. a < n) xs = xs" using Cons.prems(1) by (simp add: filter_id_conv)
    with Cons show ?case by (cases "a = p") auto
  qed
  then show ?thesis by (simp add: sibling_next_def)
qed

text \<open>Both branches of \<open>css_next_child\<close>, for a linked css and for one already released, find the
  first child with a larger serial number.\<close>

lemma css_next_child_later:
  assumes "css_tree_ok T" and "c \<in> set (kids T p) \<or> released T c"
  shows "css_next_child T (Some c) p = first (filter (\<lambda>n. c < n) (kids T p))"
  using assms sibling_next_sorted [OF children_sorted [OF assms(1)], of c p]
  by (auto simp: css_next_child_def find_first)

lemma filter_later:
  assumes "sorted_wrt (<) xs" and "filter (\<lambda>n. (c::nat) < n) xs = n # ns"
  shows "filter (\<lambda>m. n < m) xs = ns"
  using assms
proof (induction xs)
  case Nil
  then show ?case by simp
next
  case (Cons a xs)
  show ?case
  proof (cases "c < a")
    case True
    with Cons.prems have "filter (\<lambda>m. c < m) xs = xs" by (intro filter_True) auto
    with True Cons.prems have "a = n" "xs = ns" by auto
    moreover from this Cons.prems(1) have "filter (\<lambda>m. n < m) xs = xs" by (intro filter_True) auto
    ultimately show ?thesis by simp
  next
    case False
    with Cons.prems have "filter (\<lambda>m. n < m) xs = ns" "c < n" using Cons.IH
      by (auto simp: Cons_eq_filter_iff filter_eq_Cons_iff)
    with False show ?thesis by auto
  qed
qed

subsection \<open>A walk that keeps a list of what is left\<close>

text \<open>The contract of an iterator: at every position there is a list of what is left to visit, which
  starts with the position, and each step drops its head.\<close>

locale css_walk =
  fixes "next" :: "nat option \<Rightarrow> nat option" and todo :: "nat \<Rightarrow> nat list" and position :: "nat \<Rightarrow> bool"
  assumes law: "position c \<Longrightarrow> (case next (Some c) of None \<Rightarrow> todo c = [c]
    | Some n \<Rightarrow> position n \<and> todo c = c # todo n)"
begin

lemma visits_todo:
  assumes "position c" and "length (todo c) \<le> fuel"
  shows "css_for_each next fuel (Some c) = Some (todo c)"
  using assms
proof (induction fuel arbitrary: c)
  case 0
  with law [OF 0(1)] show ?case by (auto split: option.splits)
next
  case (Suc fuel)
  show ?case
  proof (cases "next (Some c)")
    case None
    with law [OF Suc.prems(1)] show ?thesis by simp
  next
    case (Some n)
    with law [OF Suc.prems(1)] have "position n" "todo c = c # todo n" by auto
    with Suc Some show ?thesis by simp
  qed
qed

end

definition in_subtree :: "css_tree \<Rightarrow> nat \<Rightarrow> nat \<Rightarrow> bool" where
  "in_subtree T root c \<longleftrightarrow> c \<in> set (tcss T) \<and> root \<in> set (c # ancestors (tpar T) c)"

definition position :: "css_tree \<Rightarrow> nat \<Rightarrow> nat \<Rightarrow> bool" where
  "position T root c \<longleftrightarrow> css_tree_ok T \<and> in_subtree T root c"

lemma position_kid: "position T root c \<Longrightarrow> n \<in> set (kids T c) \<Longrightarrow> position T root n"
  using ancestors_child [of "tpar T" n c]
  by (auto simp: position_def in_subtree_def in_kids css_tree_ok_def)

lemma position_parent:
  assumes "position T root c" and "c \<noteq> root"
  obtains q where "tpar T c = Some q" "q < c" "position T root q" "c \<in> set (kids T q)"
proof (cases "tpar T c")
  case None
  with assms show thesis by (simp add: position_def in_subtree_def)
next
  case (Some q)
  have ok: "css_tree_ok T" using assms(1) by (simp add: position_def)
  then have "q < c" "q \<in> set (tcss T)" "c \<in> set (kids T q)"
    using Some assms by (auto simp: css_tree_ok_def tree_ok_def position_def in_subtree_def in_kids)
  moreover have "root \<in> set (q # ancestors (tpar T) q)"
    using assms Some ok ancestors_child [of "tpar T" c q]
    by (auto simp: position_def in_subtree_def css_tree_ok_def)
  ultimately show thesis using Some ok that by (simp add: position_def in_subtree_def)
qed

lemma kid_not_root:
  assumes "position T root q" and "n \<in> set (kids T q)"
  shows "n \<noteq> root \<and> tpar T n = Some q \<and> q < n"
proof -
  have "tpar T n = Some q" "q < n"
    using assms in_kids [of T n q] by (auto simp: position_def css_tree_ok_def tree_ok_def)
  moreover have "root \<le> q"
    using assms(1) ancestors_less [of root "tpar T" q] by (auto simp: position_def in_subtree_def)
  ultimately show ?thesis by auto
qed

subsection \<open>Pre-order\<close>

fun after_pre :: "css_tree \<Rightarrow> nat \<Rightarrow> nat \<Rightarrow> nat list" where
  "after_pre T root c =
     (if c = root then []
      else case tpar T c of None \<Rightarrow> []
        | Some q \<Rightarrow> if q < c
            then concat (map (pre_order T) (filter (\<lambda>n. c < n) (kids T q))) @ after_pre T root q
            else [])"

declare after_pre.simps [simp del]

lemma after_pre_root [simp]: "after_pre T root root = []"
  by (simp add: after_pre.simps)

lemma after_pre_child: "c \<noteq> root \<Longrightarrow> tpar T c = Some q \<Longrightarrow> q < c \<Longrightarrow>
  after_pre T root c = concat (map (pre_order T) (filter (\<lambda>n. c < n) (kids T q))) @ after_pre T root q"
  by (subst after_pre.simps) simp

lemma next_sibling_up_ok:
  assumes "position T root c"
  shows "case next_sibling_up T root c of None \<Rightarrow> after_pre T root c = []
    | Some n \<Rightarrow> position T root n \<and> after_pre T root c = pre_order T n @ after_pre T root n"
  using assms
proof (induction c rule: less_induct)
  case (less c)
  show ?case
  proof (cases "c = root")
    case True
    then show ?thesis by (simp add: next_sibling_up.simps)
  next
    case False
    with less.prems obtain q where q: "tpar T c = Some q" "q < c" "position T root q" "c \<in> set (kids T q)"
      by (rule position_parent)
    have ok: "css_tree_ok T" using q(3) by (simp add: position_def)
    note a = after_pre_child [OF False q(1,2)]
    have nc: "css_next_child T (Some c) q = first (filter (\<lambda>n. c < n) (kids T q))"
      using css_next_child_later [OF ok] q(4) by blast
    show ?thesis
    proof (cases "filter (\<lambda>n. c < n) (kids T q)")
      case Nil
      then have "next_sibling_up T root c = next_sibling_up T root q" "after_pre T root c = after_pre T root q"
        using False q nc a by (simp_all add: first_def next_sibling_up.simps [of T root c])
      with less.IH [OF q(2,3)] show ?thesis by (simp split: option.splits)
    next
      case (Cons n ns)
      then have n: "n \<in> set (kids T q)" "c < n" by (auto simp: filter_eq_Cons_iff)
      from kid_not_root [OF q(3) n(1)]
      have "after_pre T root n = concat (map (pre_order T) ns) @ after_pre T root q"
        using after_pre_child filter_later [OF children_sorted [OF ok] Cons] by metis
      moreover have "next_sibling_up T root c = Some n"
        using False q(1) nc Cons by (simp add: first_def next_sibling_up.simps [of T root c])
      ultimately show ?thesis using a Cons position_kid [OF q(3) n(1)] by simp
    qed
  qed
qed

interpretation pre_walk: css_walk "\<lambda>pos. css_next_descendant_pre T pos root"
    "\<lambda>c. pre_order T c @ after_pre T root c" "position T root" for T root
proof
  fix c assume c: "position T root c"
  then have ok: "css_tree_ok T" by (simp add: position_def)
  show "case css_next_descendant_pre T (Some c) root of
      None \<Rightarrow> pre_order T c @ after_pre T root c = [c]
    | Some n \<Rightarrow> position T root n
        \<and> pre_order T c @ after_pre T root c = c # pre_order T n @ after_pre T root n"
  proof (cases "kids T c")
    case Nil
    then have "pre_order T c = [c]" "css_next_descendant_pre T (Some c) root = next_sibling_up T root c"
      by (simp_all add: pre_order.simps [of T c] css_next_descendant_pre_def css_next_child_def first_def)
    with next_sibling_up_ok [OF c] show ?thesis by (auto split: option.splits)
  next
    case (Cons n ns)
    then have n: "n \<in> set (kids T c)" by simp
    have "filter (\<lambda>m. n < m) (kids T c) = ns"
      using children_sorted [OF ok, of c] Cons by (simp add: filter_id_conv)
    with kid_not_root [OF c n]
    have "after_pre T root n = concat (map (pre_order T) ns) @ after_pre T root c"
      by (simp add: after_pre_child)
    moreover have "css_next_descendant_pre T (Some c) root = Some n"
      using Cons by (simp add: css_next_descendant_pre_def css_next_child_def first_def)
    ultimately show ?thesis
      using position_kid [OF c n] Cons by (simp add: pre_order.simps [of T c])
  qed
qed

subsection \<open>Post-order\<close>

fun after_post :: "css_tree \<Rightarrow> nat \<Rightarrow> nat \<Rightarrow> nat list" where
  "after_post T root c =
     (if c = root then []
      else case tpar T c of None \<Rightarrow> []
        | Some q \<Rightarrow> if q < c
            then concat (map (post_order T) (filter (\<lambda>n. c < n) (kids T q))) @ q # after_post T root q
            else [])"

declare after_post.simps [simp del]

lemma after_post_root [simp]: "after_post T root root = []"
  by (simp add: after_post.simps)

lemma after_post_child: "c \<noteq> root \<Longrightarrow> tpar T c = Some q \<Longrightarrow> q < c \<Longrightarrow>
  after_post T root c = concat (map (post_order T) (filter (\<lambda>n. c < n) (kids T q))) @ q # after_post T root q"
  by (subst after_post.simps) simp

lemma leftmost_ok:
  assumes "position T root c"
  shows "position T root (css_leftmost_descendant T c)
    \<and> css_leftmost_descendant T c # after_post T root (css_leftmost_descendant T c)
      = post_order T c @ after_post T root c"
  using assms
proof (induction T c rule: css_leftmost_descendant.induct)
  case (1 T c)
  then have ok: "css_tree_ok T" by (simp add: position_def)
  show ?case
  proof (cases "kids T c")
    case Nil
    then have "css_leftmost_descendant T c = c" "post_order T c = [c]"
      by (simp_all add: css_leftmost_descendant.simps [of T c] post_order.simps [of T c]
          css_next_child_def first_def)
    with 1 show ?thesis by simp
  next
    case (Cons n ns)
    then have n: "n \<in> set (kids T c)" and nx: "css_next_child T None c = Some n"
      by (simp_all add: css_next_child_def first_def)
    have "filter (\<lambda>m. n < m) (kids T c) = ns"
      using children_sorted [OF ok, of c] Cons by (simp add: filter_id_conv)
    then have "after_post T root n = concat (map (post_order T) ns) @ c # after_post T root c"
      using kid_not_root [OF 1(2) n] by (simp add: after_post_child)
    moreover have "css_leftmost_descendant T c = css_leftmost_descendant T n"
      using nx by (simp add: css_leftmost_descendant.simps [of T c])
    moreover have "post_order T c = post_order T n @ concat (map (post_order T) ns) @ [c]"
      using Cons by (simp add: post_order.simps [of T c])
    ultimately show ?thesis using 1(1) [OF nx position_kid [OF 1(2) n]] by simp
  qed
qed

interpretation post_walk: css_walk "\<lambda>pos. css_next_descendant_post T pos root"
    "\<lambda>c. c # after_post T root c" "position T root" for T root
proof
  fix c assume c: "position T root c"
  then have ok: "css_tree_ok T" by (simp add: position_def)
  show "case css_next_descendant_post T (Some c) root of
      None \<Rightarrow> c # after_post T root c = [c]
    | Some n \<Rightarrow> position T root n \<and> c # after_post T root c = c # n # after_post T root n"
  proof (cases "c = root")
    case True
    then show ?thesis by (simp add: css_next_descendant_post_def)
  next
    case False
    with c obtain q where q: "tpar T c = Some q" "q < c" "position T root q" "c \<in> set (kids T q)"
      by (rule position_parent)
    have nc: "css_next_child T (Some c) q = first (filter (\<lambda>n. c < n) (kids T q))"
      using css_next_child_later [OF ok] q(4) by blast
    note a = after_post_child [OF False q(1,2)]
    show ?thesis
    proof (cases "filter (\<lambda>n. c < n) (kids T q)")
      case Nil
      then show ?thesis using False q nc a by (simp add: css_next_descendant_post_def first_def)
    next
      case (Cons n ns)
      then have n: "n \<in> set (kids T q)" by (auto simp: filter_eq_Cons_iff)
      have "after_post T root n = concat (map (post_order T) ns) @ q # after_post T root q"
        using kid_not_root [OF q(3) n] filter_later [OF children_sorted [OF ok] Cons]
        by (simp add: after_post_child)
      with leftmost_ok [OF position_kid [OF q(3) n]] show ?thesis
        using False q(1) nc a Cons by (simp add: css_next_descendant_post_def first_def)
    qed
  qed
qed

subsection \<open>What the walks visit\<close>

lemma ancestors_trans:
  "a \<in> set (ancestors par b) \<Longrightarrow> b \<in> set (ancestors par c) \<Longrightarrow> a \<in> set (ancestors par c)"
proof (induction c rule: less_induct)
  case (less c)
  then obtain q where q: "par c = Some q" "q < c" "b = q \<or> b \<in> set (ancestors par q)"
    by (cases "par c") (auto simp: ancestors_Some split: if_splits)
  with less show ?case by (auto simp: ancestors_Some)
qed

lemma ancestors_chain:
  "n \<in> set (e # ancestors par e) \<Longrightarrow> m \<in> set (e # ancestors par e) \<Longrightarrow>
     n = m \<or> n \<in> set (ancestors par m) \<or> m \<in> set (ancestors par n)"
proof (induction e rule: less_induct)
  case (less e)
  show ?case
  proof (cases "n = e \<or> m = e")
    case True
    with less.prems show ?thesis by auto
  next
    case False
    with less.prems obtain q where "par e = Some q" "q < e"
      by (cases "par e") (auto simp: ancestors_Some split: if_splits)
    with False less show ?thesis by (auto simp: ancestors_Some)
  qed
qed

lemma set_pre_order:
  assumes "css_tree_ok T" and "c \<in> set (tcss T)"
  shows "set (pre_order T c) = {e. in_subtree T c e}"
proof -
  have ok: "tree_ok (tpar T)" using assms by (simp add: css_tree_ok_def)
  have "e \<in> set (pre_order T c) \<Longrightarrow> c \<in> set (tcss T) \<Longrightarrow> in_subtree T c e" for e
  proof (induction T c rule: pre_order.induct)
    case (1 T c)
    show ?case
    proof (cases "e = c")
      case False
      with 1(2) obtain n where n: "n \<in> set (kids T c)" "e \<in> set (pre_order T n)"
        by (auto simp: pre_order.simps [of T c])
      then have k: "n \<in> set (tcss T)" "tpar T n = Some c" "c < n"
        by (auto simp: kids_def dest: children_greater)
      with 1(1) [OF n] have "e \<in> set (tcss T)" "n \<in> set (e # ancestors (tpar T) e)"
        by (auto simp: in_subtree_def)
      moreover have "c \<in> set (ancestors (tpar T) n)" using k by (simp add: ancestors_Some)
      ultimately show ?thesis using ancestors_trans by (fastforce simp: in_subtree_def)
    qed (use 1 in \<open>simp add: in_subtree_def\<close>)
  qed
  moreover have "in_subtree T c e \<Longrightarrow> e \<in> set (pre_order T c)" for e
  proof (induction e rule: less_induct)
    case (less e)
    show ?case
    proof (cases "e = c")
      case True
      then show ?thesis by (simp add: pre_order.simps [of T c])
    next
      case False
      with less.prems assms(1) obtain q where q: "tpar T e = Some q" "q < e" "position T c q" "e \<in> set (kids T q)"
        using position_parent [of T c e] by (auto simp: position_def)
      have closed: "q \<in> set (pre_order T c) \<Longrightarrow> e \<in> set (pre_order T c)"
        using q(4)
      proof (induction T c rule: pre_order.induct)
        case (1 T c)
        then show ?case
          by (cases "q = c") (auto simp: pre_order.simps [of T c], force simp: pre_order.simps [of T e])
      qed
      with less.IH [OF q(2)] q(3) show ?thesis by (simp add: position_def)
    qed
  qed
  ultimately show ?thesis using assms(2) by blast
qed

lemma set_post_order: "set (post_order T c) = set (pre_order T c)"
proof (induction T c rule: pre_order.induct)
  case (1 T c)
  then show ?case by (auto simp: pre_order.simps [of T c] post_order.simps [of T c])
qed

lemma siblings_disjoint:
  assumes "css_tree_ok T" and "n \<in> set (kids T c)" and "m \<in> set (kids T c)" and "n \<noteq> m"
  shows "set (pre_order T n) \<inter> set (pre_order T m) = {}"
proof -
  have k: "n \<in> set (tcss T)" "tpar T n = Some c" "m \<in> set (tcss T)" "tpar T m = Some c" "c < n" "c < m"
    using assms by (auto simp: kids_def dest: children_greater)
  have an: "ancestors (tpar T) n = c # ancestors (tpar T) c" "ancestors (tpar T) m = c # ancestors (tpar T) c"
    using k by (simp_all add: ancestors_Some)
  have "n \<notin> set (ancestors (tpar T) m)" "m \<notin> set (ancestors (tpar T) n)"
    using k(5,6) ancestors_less [of n "tpar T" c] ancestors_less [of m "tpar T" c] by (auto simp: an)
  then have "\<not> (in_subtree T n e \<and> in_subtree T m e)" for e
    using ancestors_chain [of n e "tpar T" m] assms(4) by (auto simp: in_subtree_def)
  then show ?thesis using set_pre_order [OF assms(1)] k by blast
qed

lemma distinct_concat_map:
  assumes "distinct xs" and "\<And>x. x \<in> set xs \<Longrightarrow> distinct (f x)"
    and "\<And>x y. x \<in> set xs \<Longrightarrow> y \<in> set xs \<Longrightarrow> x \<noteq> y \<Longrightarrow> set (f x) \<inter> set (f y) = {}"
  shows "distinct (concat (map f xs))"
  using assms
proof (induction xs)
  case Nil
  then show ?case by simp
next
  case (Cons a xs)
  have "distinct (concat (map f xs))" using Cons.prems by (intro Cons.IH) auto
  moreover have "set (f a) \<inter> set (f x) = {}" if "x \<in> set xs" for x
    using Cons.prems(1) that by (intro Cons.prems(3)) auto
  ultimately show ?case using Cons.prems(2) [of a] by auto
qed

lemma kid_subtree_greater:
  assumes "css_tree_ok T" and "n \<in> set (kids T c)" and "e \<in> set (pre_order T n)"
  shows "c < e"
proof -
  have k: "n \<in> set (tcss T)" "c < n" using assms(2) by (auto simp: kids_def dest: children_greater)
  then have "in_subtree T n e" using assms set_pre_order by blast
  then have "n \<le> e" using ancestors_less [of n "tpar T" e] by (auto simp: in_subtree_def)
  with k show ?thesis by simp
qed

lemma kids_distinct: "css_tree_ok T \<Longrightarrow> distinct (kids T c)"
  using children_sorted strict_sorted_iff by blast

lemma distinct_pre_order: "css_tree_ok T \<Longrightarrow> distinct (pre_order T c)"
proof (induction T c rule: pre_order.induct)
  case (1 T c)
  have "distinct (concat (map (pre_order T) (kids T c)))"
    using 1 by (intro distinct_concat_map kids_distinct siblings_disjoint) auto
  then show ?case using kid_subtree_greater [OF 1(2), of _ c c] by (auto simp: pre_order.simps [of T c])
qed

lemma distinct_post_order: "css_tree_ok T \<Longrightarrow> distinct (post_order T c)"
proof (induction T c rule: pre_order.induct)
  case (1 T c)
  have "distinct (concat (map (post_order T) (kids T c)))"
    using 1 by (intro distinct_concat_map kids_distinct) (auto simp: set_post_order dest: siblings_disjoint)
  then show ?case using kid_subtree_greater [OF 1(2), of _ c c]
    by (auto simp: post_order.simps [of T c] set_post_order)
qed

text \<open>Parents before their children, and children before their parents.\<close>

fun parents_first :: "tree \<Rightarrow> nat set \<Rightarrow> nat list \<Rightarrow> bool" where
  "parents_first par seen [] \<longleftrightarrow> True"
| "parents_first par seen (d # ds) \<longleftrightarrow>
     (case par d of None \<Rightarrow> False | Some q \<Rightarrow> q \<in> seen) \<and> parents_first par (insert d seen) ds"

fun children_first :: "css_tree \<Rightarrow> nat set \<Rightarrow> nat list \<Rightarrow> bool" where
  "children_first T seen [] \<longleftrightarrow> True"
| "children_first T seen (d # ds) \<longleftrightarrow> set (kids T d) \<subseteq> seen \<and> children_first T (insert d seen) ds"

lemma parents_first_append:
  "parents_first par seen (xs @ ys) \<longleftrightarrow> parents_first par seen xs \<and> parents_first par (seen \<union> set xs) ys"
  by (induction xs arbitrary: seen) auto

lemma children_first_append:
  "children_first T seen (xs @ ys) \<longleftrightarrow> children_first T seen xs \<and> children_first T (seen \<union> set xs) ys"
  by (induction xs arbitrary: seen) auto

lemma parents_first_mono: "parents_first par A xs \<Longrightarrow> A \<subseteq> B \<Longrightarrow> parents_first par B xs"
proof (induction xs arbitrary: A B)
  case (Cons d xs)
  then have "parents_first par (insert d B) xs" by (meson insert_mono parents_first.simps(2))
  with Cons.prems show ?case by (auto split: option.splits)
qed simp

lemma children_first_mono: "children_first T A xs \<Longrightarrow> A \<subseteq> B \<Longrightarrow> children_first T B xs"
proof (induction xs arbitrary: A B)
  case (Cons d xs)
  then have "children_first T (insert d B) xs" by (meson insert_mono children_first.simps(2))
  with Cons.prems show ?case by auto
qed simp

lemma parents_first_concat:
  "(\<And>x. x \<in> set xs \<Longrightarrow> parents_first par A (f x)) \<Longrightarrow> parents_first par A (concat (map f xs))"
  by (induction xs) (auto simp: parents_first_append intro: parents_first_mono)

lemma children_first_concat:
  "(\<And>x. x \<in> set xs \<Longrightarrow> children_first T A (f x)) \<Longrightarrow> children_first T A (concat (map f xs))"
  by (induction xs) (auto simp: children_first_append intro: children_first_mono)

lemma parents_first_kid: "tpar T c = Some q \<Longrightarrow> q \<in> A \<Longrightarrow> parents_first (tpar T) A (pre_order T c)"
proof (induction T c arbitrary: q A rule: pre_order.induct)
  case (1 T c)
  have "parents_first (tpar T) (insert c A) (concat (map (pre_order T) (kids T c)))"
    by (rule parents_first_concat) (auto intro!: 1(1) simp: kids_def dest: children_greater)
  with 1 show ?case by (simp add: pre_order.simps [of T c])
qed

lemma pre_order_parents_first:
  "\<exists>ds. pre_order T c = c # ds \<and> parents_first (tpar T) {c} ds"
proof -
  have "parents_first (tpar T) {c} (concat (map (pre_order T) (kids T c)))"
    by (rule parents_first_concat, rule parents_first_kid) (auto simp: kids_def dest: children_greater)
  then show ?thesis by (simp add: pre_order.simps [of T c])
qed

lemma post_order_children_first: "children_first T A (post_order T c)"
proof (induction T c arbitrary: A rule: pre_order.induct)
  case (1 T c)
  have "children_first T A (concat (map (post_order T) (kids T c)))"
    by (rule children_first_concat) (auto intro: 1)
  moreover have "x \<in> set (post_order T x)" for x by (simp add: post_order.simps [of T x])
  ultimately show ?case by (auto simp: post_order.simps [of T c] children_first_append)
qed

lemma length_pre_order:
  assumes "css_tree_ok T" and "c \<in> set (tcss T)"
  shows "length (pre_order T c) \<le> length (tcss T)"
proof -
  have "card (set (pre_order T c)) \<le> card (set (tcss T))"
    using set_pre_order [OF assms] by (intro card_mono) (auto simp: in_subtree_def)
  then show ?thesis
    using distinct_pre_order [OF assms(1)] card_length [of "tcss T"] by (simp add: distinct_card)
qed

lemma length_post_order:
  "css_tree_ok T \<Longrightarrow> length (post_order T c) = length (pre_order T c)"
  using distinct_card [OF distinct_pre_order] distinct_card [OF distinct_post_order]
  by (metis set_post_order)

subsection \<open>The loops\<close>

definition css_for_each_descendant_pre :: "css_tree \<Rightarrow> nat \<Rightarrow> nat list" where
  "css_for_each_descendant_pre T root =
     (case css_for_each (\<lambda>pos. css_next_descendant_pre T pos root) (length (tcss T))
        (css_next_descendant_pre T None root) of None \<Rightarrow> [] | Some ds \<Rightarrow> ds)"

definition css_for_each_descendant_post :: "css_tree \<Rightarrow> nat \<Rightarrow> nat list" where
  "css_for_each_descendant_post T root =
     (case css_for_each (\<lambda>pos. css_next_descendant_post T pos root) (length (tcss T))
        (css_next_descendant_post T None root) of None \<Rightarrow> [] | Some ds \<Rightarrow> ds)"

lemma position_self: "css_tree_ok T \<Longrightarrow> c \<in> set (tcss T) \<Longrightarrow> position T c c"
  by (simp add: position_def in_subtree_def)

lemma css_for_each_pre:
  assumes "css_tree_ok T" and "c \<in> set (tcss T)"
  shows "css_for_each (\<lambda>pos. css_next_descendant_pre T pos c) (length (tcss T))
    (css_next_descendant_pre T None c) = Some (pre_order T c)"
  using pre_walk.visits_todo [OF position_self [OF assms], of "length (tcss T)"] length_pre_order [OF assms]
  by (simp add: css_next_descendant_pre_def)

lemma css_for_each_post:
  assumes "css_tree_ok T" and "c \<in> set (tcss T)"
  shows "css_for_each (\<lambda>pos. css_next_descendant_post T pos c) (length (tcss T))
    (css_next_descendant_post T None c) = Some (post_order T c)"
proof -
  let ?l = "css_leftmost_descendant T c"
  have l: "position T c ?l" "?l # after_post T c ?l = post_order T c"
    using leftmost_ok [OF position_self [OF assms]] by simp_all
  have "css_for_each (\<lambda>pos. css_next_descendant_post T pos c) (length (tcss T)) (Some ?l) = Some (post_order T c)"
    using post_walk.visits_todo [OF l(1), of "length (tcss T)"] length_pre_order [OF assms]
    by (simp add: l(2) length_post_order [OF assms(1)])
  then show ?thesis by (simp add: css_next_descendant_post_def)
qed

lemma descendant_pre [simp]:
  "css_tree_ok T \<Longrightarrow> c \<in> set (tcss T) \<Longrightarrow> css_for_each_descendant_pre T c = pre_order T c"
  by (simp add: css_for_each_descendant_pre_def css_for_each_pre)

lemma descendant_post [simp]:
  "css_tree_ok T \<Longrightarrow> c \<in> set (tcss T) \<Longrightarrow> css_for_each_descendant_post T c = post_order T c"
  by (simp add: css_for_each_descendant_post_def css_for_each_post)

text \<open>C25: the walks of the cgroup core end and visit the subtree exactly: within as many turns as
  there are csses, the pre-order walk and the post-order walk each visit every descendant of the
  root of the walk, itself included, once and nothing else, whether the css at hand is still
  linked or already released; the first visits every parent before its children, the second
  every child before its parent.\<close>

theorem css_walks_visit_subtree:
  assumes "css_tree_ok T" and "root \<in> set (tcss T)"
  shows "\<exists>ds es. css_for_each (\<lambda>pos. css_next_descendant_pre T pos root) (length (tcss T))
        (css_next_descendant_pre T None root) = Some (root # ds)
    \<and> css_for_each (\<lambda>pos. css_next_descendant_post T pos root) (length (tcss T))
        (css_next_descendant_post T None root) = Some es
    \<and> distinct (root # ds) \<and> set (root # ds) = {c. in_subtree T root c} \<and> parents_first (tpar T) {root} ds
    \<and> distinct es \<and> set es = {c. in_subtree T root c} \<and> children_first T {} es"
proof -
  obtain ds where ds: "pre_order T root = root # ds" "parents_first (tpar T) {root} ds"
    using pre_order_parents_first by blast
  then show ?thesis
    using css_for_each_pre [OF assms] css_for_each_post [OF assms] distinct_pre_order [OF assms(1), of root]
      distinct_post_order [OF assms(1), of root] set_pre_order [OF assms] set_post_order [of T root]
      post_order_children_first [of T "{}" root]
    by (intro exI [of _ ds] exI [of _ "post_order T root"]) simp
qed

subsection \<open>Loops over a walk\<close>

text \<open>The contract of a loop body that changes only the entry of the css it is given.\<close>

locale own_step =
  fixes f :: "nat \<Rightarrow> 's \<Rightarrow> 's" and sel :: "'s \<Rightarrow> nat \<Rightarrow> 'a"
  assumes own: "x \<noteq> d \<Longrightarrow> sel (f d s) x = sel s x"
begin

lemma fold_other: "x \<notin> set ds \<Longrightarrow> sel (fold f ds s) x = sel s x"
  by (induction ds arbitrary: s) (auto simp: own)

lemma fold_at: "d \<notin> set ys \<Longrightarrow> sel (fold f (xs @ d # ys) s) d = sel (f d (fold f xs s)) d"
  by (simp add: fold_other)

lemma fold_before: "x \<notin> set ys \<Longrightarrow> sel (fold f (xs @ ys) s) x = sel (fold f xs s) x"
  by (simp add: fold_other)

end

lemma parents_firstD:
  "parents_first par seen (xs @ d # ys) \<Longrightarrow> \<exists>q. par d = Some q \<and> q \<in> seen \<union> set xs"
  by (auto simp: parents_first_append split: option.splits)

lemma children_firstD: "children_first T seen (xs @ d # ys) \<Longrightarrow> set (kids T d) \<subseteq> seen \<union> set xs"
  by (simp add: children_first_append)

definition demo_tree :: css_tree where
  "demo_tree = \<lparr>tpar = [1 \<mapsto> 0, 2 \<mapsto> 1, 3 \<mapsto> 0, 4 \<mapsto> 1], tcss = [0, 1, 2, 3, 4], released = (\<lambda>c. c = 2)\<rparr>"

lemma demo_tree_ok: "css_tree_ok demo_tree"
  by (auto simp: css_tree_ok_def tree_ok_def demo_tree_def split: if_splits)

theorem css_walks_visit_subtree_witness:
  "css_for_each (\<lambda>pos. css_next_descendant_pre demo_tree pos 1) 5 (css_next_descendant_pre demo_tree None 1)
     = Some [1, 2, 4]
   \<and> parents_first (tpar demo_tree) {1} [2, 4]"
proof -
  have "css_for_each (\<lambda>pos. css_next_descendant_pre demo_tree pos 1) 5 (css_next_descendant_pre demo_tree None 1)
     = Some [1, 2, 4]"
    by code_simp
  with css_walks_visit_subtree [OF demo_tree_ok, of 1] show ?thesis by (simp add: demo_tree_def)
qed

end
