(* ===== verification/LegacyFreezer.thy ===== *)
theory LegacyFreezer
  imports CssWalk
begin

unbundle bit_operations_syntax

section \<open>The freezer controller of the legacy hierarchy\<close>

text \<open>
  \<open>cgroup/legacy_freezer.c\<close>: freezing and thawing whole subtrees of cgroups.  Every operation runs
  under \<open>freezer_mutex\<close>, so an operation is one step.  The functions of the kernel's task freezer
  (\<open>freeze_task\<close>, \<open>__thaw_task\<close> and the tests on a task) are a parameter over a state of any
  type.  \<open>dying\<close> tells for which csses \<open>css_tryget_online\<close> fails.
\<close>

subsection \<open>Flags and state\<close>

definition CGROUP_FREEZER_ONLINE :: "32 word" where "CGROUP_FREEZER_ONLINE = push_bit 0 1"
definition CGROUP_FREEZING_SELF :: "32 word" where "CGROUP_FREEZING_SELF = push_bit 1 1"
definition CGROUP_FREEZING_PARENT :: "32 word" where "CGROUP_FREEZING_PARENT = push_bit 2 1"
definition CGROUP_FROZEN :: "32 word" where "CGROUP_FROZEN = push_bit 3 1"
definition CGROUP_FREEZING :: "32 word" where
  "CGROUP_FREEZING = CGROUP_FREEZING_SELF OR CGROUP_FREEZING_PARENT"

text \<open>A mask as a condition: \<open>if (state & mask)\<close>.\<close>

definition has :: "32 word \<Rightarrow> 32 word \<Rightarrow> bool" where
  "has state m \<longleftrightarrow> state AND m \<noteq> 0"

record 'k task_api =
  freeze_task :: "nat \<Rightarrow> 'k \<Rightarrow> 'k"
  thaw_task :: "nat \<Rightarrow> 'k \<Rightarrow> 'k"
  task_freezing :: "nat \<Rightarrow> 'k \<Rightarrow> bool"
  task_frozen :: "nat \<Rightarrow> 'k \<Rightarrow> bool"
  freezer_should_skip :: "nat \<Rightarrow> 'k \<Rightarrow> bool"

record 'k lfreezer =
  ltree :: css_tree
  lstate :: "nat \<Rightarrow> 32 word"
  dying :: "nat \<Rightarrow> bool"
  system_freezing_cnt :: int
  ctasks :: "nat \<Rightarrow> nat list"
  lkern :: 'k

definition set_state :: "nat \<Rightarrow> 32 word \<Rightarrow> 'k lfreezer \<Rightarrow> 'k lfreezer" where
  "set_state c w s = s\<lparr>lstate := (lstate s)(c := w)\<rparr>"

definition parent_freezer :: "'k lfreezer \<Rightarrow> nat \<Rightarrow> nat option" where
  "parent_freezer s c = tpar (ltree s) c"

definition cgroup_freezing :: "nat \<Rightarrow> 'k lfreezer \<Rightarrow> bool" where
  "cgroup_freezing c s \<longleftrightarrow> has (lstate s c) CGROUP_FREEZING"

definition freezer_state_strs :: "32 word \<Rightarrow> string" where
  "freezer_state_strs state =
     (if has state CGROUP_FROZEN then ''FROZEN''
      else if has state CGROUP_FREEZING then ''FREEZING''
      else ''THAWED'')"

subsection \<open>Life of a css\<close>

text \<open>The core appends the new css to the children of its parent.\<close>

definition freezer_css_alloc :: "bool \<Rightarrow> nat \<Rightarrow> nat option \<Rightarrow> 'k lfreezer \<Rightarrow> int \<times> 'k lfreezer" where
  "freezer_css_alloc ok c parent s =
     (if \<not> ok then (- ENOMEM, s)
      else (0, set_state c 0 (s\<lparr>ltree := (ltree s)\<lparr>tpar := (tpar (ltree s))(c := parent),
                                 tcss := tcss (ltree s) @ [c]\<rparr>,
                                 dying := (dying s)(c := False)\<rparr>)))"

definition freezer_css_online :: "nat \<Rightarrow> 'k lfreezer \<Rightarrow> int \<times> 'k lfreezer" where
  "freezer_css_online c s =
     (let parent = parent_freezer s c;
          s = set_state c (lstate s c OR CGROUP_FREEZER_ONLINE) s
      in case parent of None \<Rightarrow> (0, s)
       | Some p \<Rightarrow>
           if has (lstate s p) CGROUP_FREEZING
           then (0, (set_state c (lstate s c OR (CGROUP_FREEZING_PARENT OR CGROUP_FROZEN)) s)
                      \<lparr>system_freezing_cnt := system_freezing_cnt s + 1\<rparr>)
           else (0, s))"

definition freezer_css_offline :: "nat \<Rightarrow> 'k lfreezer \<Rightarrow> 'k lfreezer" where
  "freezer_css_offline c s =
     (let s = (if has (lstate s c) CGROUP_FREEZING
               then s\<lparr>system_freezing_cnt := system_freezing_cnt s - 1\<rparr> else s)
      in set_state c 0 s)"

definition freezer_css_free :: "nat \<Rightarrow> 'k lfreezer \<Rightarrow> 'k lfreezer" where
  "freezer_css_free c s = s\<lparr>ltree := (ltree s)\<lparr>tcss := remove1 c (tcss (ltree s))\<rparr>\<rparr>"

subsection \<open>Tasks that arrive\<close>

text \<open>The loop that clears \<open>CGROUP_FROZEN\<close> upwards until a cgroup that does not have it.\<close>

definition clear_frozen_up :: "nat \<Rightarrow> 'k lfreezer \<Rightarrow> 'k lfreezer" where
  "clear_frozen_up c s =
     fold (\<lambda>p s. set_state p (lstate s p AND NOT CGROUP_FROZEN) s)
       (takeWhile (\<lambda>p. has (lstate s p) CGROUP_FROZEN) (c # ancestors (tpar (ltree s)) c)) s"

definition freezer_attach :: "'k task_api \<Rightarrow> (nat \<times> nat) list \<Rightarrow> 'k lfreezer \<Rightarrow> 'k lfreezer" where
  "freezer_attach api tset s =
     fold (\<lambda>(task, new_css) s.
       if \<not> has (lstate s new_css) CGROUP_FREEZING
       then s\<lparr>lkern := thaw_task api task (lkern s)\<rparr>
       else clear_frozen_up new_css (s\<lparr>lkern := freeze_task api task (lkern s)\<rparr>)) tset s"

text \<open>\<open>c\<close> is the css of the new task.\<close>

definition freezer_fork :: "'k task_api \<Rightarrow> nat \<Rightarrow> nat \<Rightarrow> 'k lfreezer \<Rightarrow> 'k lfreezer" where
  "freezer_fork api task c s =
     (if parent_freezer s c = None then s
      else if has (lstate s c) CGROUP_FREEZING then s\<lparr>lkern := freeze_task api task (lkern s)\<rparr>
      else s)"

subsection \<open>Reading the state\<close>

definition update_if_frozen :: "'k task_api \<Rightarrow> nat \<Rightarrow> 'k lfreezer \<Rightarrow> 'k lfreezer" where
  "update_if_frozen api c s =
     (if \<not> has (lstate s c) CGROUP_FREEZING \<or> has (lstate s c) CGROUP_FROZEN then s
      else if \<exists>child \<in> set (kids (ltree s) c). has (lstate s child) CGROUP_FREEZER_ONLINE
           \<and> \<not> has (lstate s child) CGROUP_FROZEN then s
      else if \<exists>task \<in> set (ctasks s c). task_freezing api task (lkern s)
           \<and> \<not> task_frozen api task (lkern s) \<and> \<not> freezer_should_skip api task (lkern s) then s
      else set_state c (lstate s c OR CGROUP_FROZEN) s)"

definition read_step :: "'k task_api \<Rightarrow> nat \<Rightarrow> 'k lfreezer \<Rightarrow> 'k lfreezer" where
  "read_step api pos s = (if dying s pos then s else update_if_frozen api pos s)"

definition freezer_read :: "'k task_api \<Rightarrow> nat \<Rightarrow> 'k lfreezer \<Rightarrow> string \<times> 'k lfreezer" where
  "freezer_read api c s =
     (let s = fold (read_step api) (css_for_each_descendant_post (ltree s) c) s
      in (freezer_state_strs (lstate s c) @ [CHR 0x0A], s))"

subsection \<open>Changing the state\<close>

definition freeze_cgroup :: "'k task_api \<Rightarrow> nat \<Rightarrow> 'k lfreezer \<Rightarrow> 'k lfreezer" where
  "freeze_cgroup api c s = s\<lparr>lkern := fold (freeze_task api) (ctasks s c) (lkern s)\<rparr>"

definition unfreeze_cgroup :: "'k task_api \<Rightarrow> nat \<Rightarrow> 'k lfreezer \<Rightarrow> 'k lfreezer" where
  "unfreeze_cgroup api c s = s\<lparr>lkern := fold (thaw_task api) (ctasks s c) (lkern s)\<rparr>"

definition freezer_apply_state :: "'k task_api \<Rightarrow> nat \<Rightarrow> bool \<Rightarrow> 32 word \<Rightarrow> 'k lfreezer \<Rightarrow> 'k lfreezer" where
  "freezer_apply_state api c freeze state s =
     (if \<not> has (lstate s c) CGROUP_FREEZER_ONLINE then s
      else if freeze then
        let s = (if \<not> has (lstate s c) CGROUP_FREEZING
                 then s\<lparr>system_freezing_cnt := system_freezing_cnt s + 1\<rparr> else s);
            s = set_state c (lstate s c OR state) s
        in freeze_cgroup api c s
      else
        let was_freezing = has (lstate s c) CGROUP_FREEZING;
            s = set_state c (lstate s c AND NOT state) s
        in if \<not> has (lstate s c) CGROUP_FREEZING then
             let s = (if was_freezing then s\<lparr>system_freezing_cnt := system_freezing_cnt s - 1\<rparr> else s);
                 s = set_state c (lstate s c AND NOT CGROUP_FROZEN) s
             in unfreeze_cgroup api c s
           else s)"

text \<open>A descendant other than the root of the walk has a parent.\<close>

definition change_step :: "'k task_api \<Rightarrow> nat \<Rightarrow> bool \<Rightarrow> nat \<Rightarrow> 'k lfreezer \<Rightarrow> 'k lfreezer" where
  "change_step api freezer freeze pos s =
     (if dying s pos then s
      else if pos = freezer then freezer_apply_state api pos freeze CGROUP_FREEZING_SELF s
      else case parent_freezer s pos of None \<Rightarrow> s
        | Some parent \<Rightarrow> freezer_apply_state api pos (has (lstate s parent) CGROUP_FREEZING)
            CGROUP_FREEZING_PARENT s)"

definition freezer_change_state :: "'k task_api \<Rightarrow> nat \<Rightarrow> bool \<Rightarrow> 'k lfreezer \<Rightarrow> 'k lfreezer" where
  "freezer_change_state api freezer freeze s =
     fold (change_step api freezer freeze) (css_for_each_descendant_pre (ltree s) freezer) s"

definition freezer_write :: "'k task_api \<Rightarrow> nat \<Rightarrow> string \<Rightarrow> int \<Rightarrow> 'k lfreezer \<Rightarrow> int \<times> 'k lfreezer" where
  "freezer_write api c buf nbytes s =
     (let buf = strstrip buf in
      if buf = freezer_state_strs 0 then (nbytes, freezer_change_state api c False s)
      else if buf = freezer_state_strs CGROUP_FROZEN then (nbytes, freezer_change_state api c True s)
      else (- EINVAL, s))"

definition freezer_self_freezing_read :: "nat \<Rightarrow> 'k lfreezer \<Rightarrow> int" where
  "freezer_self_freezing_read c s = (if has (lstate s c) CGROUP_FREEZING_SELF then 1 else 0)"

definition freezer_parent_freezing_read :: "nat \<Rightarrow> 'k lfreezer \<Rightarrow> int" where
  "freezer_parent_freezing_read c s = (if has (lstate s c) CGROUP_FREEZING_PARENT then 1 else 0)"

subsection \<open>The controller inside the core\<close>

abbreviation lonline :: "'k lfreezer \<Rightarrow> nat \<Rightarrow> bool" where
  "lonline s c \<equiv> has (lstate s c) CGROUP_FREEZER_ONLINE"

abbreviation lfreezing :: "'k lfreezer \<Rightarrow> nat \<Rightarrow> bool" where
  "lfreezing s c \<equiv> has (lstate s c) CGROUP_FREEZING"

abbreviation lfrozen :: "'k lfreezer \<Rightarrow> nat \<Rightarrow> bool" where
  "lfrozen s c \<equiv> has (lstate s c) CGROUP_FROZEN"

definition live :: "'k lfreezer \<Rightarrow> nat \<Rightarrow> bool" where
  "live s c \<longleftrightarrow> c \<in> set (tcss (ltree s)) \<and> lonline s c \<and> \<not> dying s c"

text \<open>
  What the core does with the controller.  A css comes online after its parent and once, is killed
  when it has no live children, goes offline after its children did and is freed when nothing
  below is left; meanwhile tasks move, and the kernel changes their state as it likes.
\<close>

inductive lf_step :: "'k task_api \<Rightarrow> 'k lfreezer \<Rightarrow> 'k lfreezer \<Rightarrow> bool" for api where
  create: "\<forall>d \<in> set (tcss (ltree s)). d < c \<Longrightarrow> p \<in> set (tcss (ltree s)) \<Longrightarrow>
    freezer_css_alloc ok c (Some p) s = (r, s') \<Longrightarrow> lf_step api s s'"
| online: "c \<in> set (tcss (ltree s)) \<Longrightarrow> \<not> lonline s c \<Longrightarrow> \<not> dying s c \<Longrightarrow>
    (\<forall>p. parent_freezer s c = Some p \<longrightarrow> live s p) \<Longrightarrow> freezer_css_online c s = (r, s') \<Longrightarrow> lf_step api s s'"
| kill: "\<forall>d \<in> set (kids (ltree s) c). \<not> live s d \<Longrightarrow> lf_step api s (s\<lparr>dying := (dying s)(c := True)\<rparr>)"
| offline: "c \<in> set (tcss (ltree s)) \<Longrightarrow> dying s c \<Longrightarrow> \<forall>d \<in> set (kids (ltree s) c). \<not> lonline s d \<Longrightarrow>
    lf_step api s (freezer_css_offline c s)"
| free: "\<not> lonline s c \<Longrightarrow> dying s c \<Longrightarrow> kids (ltree s) c = [] \<Longrightarrow> lf_step api s (freezer_css_free c s)"
| attach: "lf_step api s (freezer_attach api tset s)"
| fork: "lf_step api s (freezer_fork api t c s)"
| read: "live s c \<Longrightarrow> freezer_read api c s = (txt, s') \<Longrightarrow> lf_step api s s'"
| write_state: "live s c \<Longrightarrow> freezer_write api c buf n s = (r, s') \<Longrightarrow> lf_step api s s'"
| world: "lf_step api s (s\<lparr>ctasks := ts, lkern := k\<rparr>)"

definition lf_inv :: "'k lfreezer \<Rightarrow> bool" where
  "lf_inv s \<longleftrightarrow> css_tree_ok (ltree s)
     \<and> (\<forall>c. \<not> lonline s c \<or> c \<notin> set (tcss (ltree s)) \<longrightarrow> lstate s c = 0)
     \<and> (\<forall>c p. lonline s c \<longrightarrow> tpar (ltree s) c = Some p \<longrightarrow> lonline s p)
     \<and> (\<forall>c p. lonline s c \<longrightarrow> \<not> dying s c \<longrightarrow> tpar (ltree s) c = Some p \<longrightarrow> \<not> dying s p)
     \<and> (\<forall>c. live s c \<longrightarrow> (has (lstate s c) CGROUP_FREEZING_PARENT \<longleftrightarrow>
          (\<exists>p. tpar (ltree s) c = Some p \<and> lfreezing s p)))
     \<and> (\<forall>c. lfrozen s c \<longrightarrow> lfreezing s c)
     \<and> (\<forall>c p. lonline s c \<longrightarrow> tpar (ltree s) c = Some p \<longrightarrow> lfrozen s p \<longrightarrow> lfrozen s c)
     \<and> system_freezing_cnt s = int (card {c \<in> set (tcss (ltree s)). lfreezing s c})"

end
