(* ===== verification/LegacyFreezer_Correct.thy ===== *)
theory LegacyFreezer_Correct
  imports LegacyFreezer
begin

unbundle bit_operations_syntax

section \<open>The legacy freezer keeps its flags consistent\<close>

text \<open>
  Through every life of the csses, every write and every arrival of tasks, a live cgroup is freezing
  exactly when it or an ancestor was asked to freeze, \<open>FROZEN\<close> is passed on downwards, and the
  system-wide counter is the number of freezing cgroups.
\<close>

subsection \<open>Flags as bits\<close>

lemma has_push_bit: "has w (push_bit n 1) \<longleftrightarrow> bit w n"
  by (simp add: has_def bit_iff_and_push_bit_not_eq_0)

lemma has_flags:
  "has w CGROUP_FREEZER_ONLINE \<longleftrightarrow> bit w 0" "has w CGROUP_FREEZING_SELF \<longleftrightarrow> bit w 1"
  "has w CGROUP_FREEZING_PARENT \<longleftrightarrow> bit w 2" "has w CGROUP_FROZEN \<longleftrightarrow> bit w 3"
  unfolding CGROUP_FREEZER_ONLINE_def CGROUP_FREEZING_SELF_def CGROUP_FREEZING_PARENT_def CGROUP_FROZEN_def
  by (rule has_push_bit)+

lemma has_OR: "has w (m OR n) \<longleftrightarrow> has w m \<or> has w n"
  by (simp add: has_def bit.conj_disj_distrib or_eq_0_iff)

lemma has_FREEZING: "has w CGROUP_FREEZING \<longleftrightarrow> bit w 1 \<or> bit w 2"
  by (simp add: CGROUP_FREEZING_def has_OR has_flags)

lemma bit_push_bit_1: "k < 32 \<Longrightarrow> bit (push_bit k (1 :: 32 word)) n \<longleftrightarrow> n = k"
  by (auto simp: bit_exp_iff possible_bit_word)

lemma bit_flags:
  "bit CGROUP_FREEZER_ONLINE n \<longleftrightarrow> n = 0" "bit CGROUP_FREEZING_SELF n \<longleftrightarrow> n = 1"
  "bit CGROUP_FREEZING_PARENT n \<longleftrightarrow> n = 2" "bit CGROUP_FROZEN n \<longleftrightarrow> n = 3"
  unfolding CGROUP_FREEZER_ONLINE_def CGROUP_FREEZING_SELF_def CGROUP_FREEZING_PARENT_def CGROUP_FROZEN_def
  by (rule bit_push_bit_1, simp)+

lemma bit_not_flags:
  "n < 4 \<Longrightarrow> bit (NOT (m :: 32 word)) n \<longleftrightarrow> \<not> bit m n"
  by (simp add: bit_simps)

lemmas flag_simps = has_flags has_FREEZING bit_flags bit_not_flags bit_or_iff bit_and_iff

lemma bit_of_0: "\<not> bit (0 :: 32 word) n" by simp

lemma set_state_simps [simp]:
  "lstate (set_state c w s) d = (if d = c then w else lstate s d)" "ltree (set_state c w s) = ltree s"
  "dying (set_state c w s) = dying s" "ctasks (set_state c w s) = ctasks s" "lkern (set_state c w s) = lkern s"
  "system_freezing_cnt (set_state c w s) = system_freezing_cnt s"
  by (simp_all add: set_state_def)

subsection \<open>One freezer\<close>

text \<open>What \<open>freezer_apply_state\<close> makes of the flags.\<close>

definition app :: "bool \<Rightarrow> 32 word \<Rightarrow> 32 word \<Rightarrow> 32 word" where
  "app freeze m w =
     (if \<not> has w CGROUP_FREEZER_ONLINE then w
      else if freeze then w OR m
      else if has (w AND NOT m) CGROUP_FREEZING then w AND NOT m
      else w AND NOT m AND NOT CGROUP_FROZEN)"

lemma apply_state_frames [simp]:
  "ltree (freezer_apply_state api c fr m s) = ltree s" "dying (freezer_apply_state api c fr m s) = dying s"
  "ctasks (freezer_apply_state api c fr m s) = ctasks s"
  by (simp_all add: freezer_apply_state_def Let_def freeze_cgroup_def unfreeze_cgroup_def)

lemma apply_state_lstate:
  "lstate (freezer_apply_state api c fr m s) d = (if d = c then app fr m (lstate s c) else lstate s d)"
  by (simp add: freezer_apply_state_def Let_def freeze_cgroup_def unfreeze_cgroup_def app_def and.assoc)

lemma apply_state_cnt:
  assumes "has m CGROUP_FREEZING"
  shows "system_freezing_cnt (freezer_apply_state api c fr m s) = system_freezing_cnt s
    + (if lfreezing (freezer_apply_state api c fr m s) c then 1 else 0) - (if lfreezing s c then 1 else 0)"
proof -
  let ?w = "lstate s c"
  have set: "has (?w OR m) CGROUP_FREEZING" using assms by (auto simp: has_FREEZING bit_or_iff)
  have clear: "has (?w AND NOT m) CGROUP_FREEZING \<Longrightarrow> has ?w CGROUP_FREEZING"
    by (auto simp: has_FREEZING bit_and_iff)
  have frozen: "has (?w AND NOT m AND NOT CGROUP_FROZEN) CGROUP_FREEZING \<longleftrightarrow> has (?w AND NOT m) CGROUP_FREEZING"
    by (simp add: has_FREEZING bit_and_iff bit_not_flags bit_flags)
  show ?thesis
  proof (cases "has ?w CGROUP_FREEZER_ONLINE \<and> \<not> fr")
    case True
    then show ?thesis
      unfolding apply_state_lstate using clear frozen
      by (cases "has (?w AND NOT m) CGROUP_FREEZING"; cases "has ?w CGROUP_FREEZING")
        (simp_all add: freezer_apply_state_def Let_def unfreeze_cgroup_def app_def)
  next
    case False
    then show ?thesis
      unfolding apply_state_lstate using set
      by (cases "has ?w CGROUP_FREEZING"; cases fr)
        (simp_all add: freezer_apply_state_def Let_def freeze_cgroup_def app_def)
  qed
qed

lemma app_SELF:
  "has (app fr CGROUP_FREEZING_SELF w) CGROUP_FREEZER_ONLINE \<longleftrightarrow> has w CGROUP_FREEZER_ONLINE"
  "has (app fr CGROUP_FREEZING_SELF w) CGROUP_FREEZING_PARENT \<longleftrightarrow> has w CGROUP_FREEZING_PARENT"
  "has w CGROUP_FREEZER_ONLINE \<Longrightarrow> has (app fr CGROUP_FREEZING_SELF w) CGROUP_FREEZING_SELF \<longleftrightarrow> fr"
  by (auto simp: app_def flag_simps)

lemma app_PARENT:
  "has (app fr CGROUP_FREEZING_PARENT w) CGROUP_FREEZER_ONLINE \<longleftrightarrow> has w CGROUP_FREEZER_ONLINE"
  "has (app fr CGROUP_FREEZING_PARENT w) CGROUP_FREEZING_SELF \<longleftrightarrow> has w CGROUP_FREEZING_SELF"
  "has w CGROUP_FREEZER_ONLINE \<Longrightarrow> has (app fr CGROUP_FREEZING_PARENT w) CGROUP_FREEZING_PARENT \<longleftrightarrow> fr"
  by (auto simp: app_def flag_simps)

lemma app_FROZEN:
  assumes "m \<in> {CGROUP_FREEZING_SELF, CGROUP_FREEZING_PARENT}" and "has w CGROUP_FREEZER_ONLINE"
    and "has w CGROUP_FROZEN \<longrightarrow> has w CGROUP_FREEZING"
  shows "has (app fr m w) CGROUP_FROZEN \<longleftrightarrow> has w CGROUP_FROZEN \<and> has (app fr m w) CGROUP_FREEZING"
  using assms by (auto simp: app_def flag_simps)

subsection \<open>A change of state\<close>

lemma change_step_frames [simp]:
  "ltree (change_step api c fr d s) = ltree s" "dying (change_step api c fr d s) = dying s"
  "ctasks (change_step api c fr d s) = ctasks s"
  by (simp_all add: change_step_def split: option.splits)

lemma change_fold_frames [simp]:
  "ltree (fold (change_step api c fr) ds s) = ltree s" "dying (fold (change_step api c fr) ds s) = dying s"
  "ctasks (fold (change_step api c fr) ds s) = ctasks s"
  by (induction ds arbitrary: s) simp_all

interpretation change: own_step "change_step api c fr" lstate for api :: "'k task_api" and c fr
  by unfold_locales (simp add: change_step_def apply_state_lstate split: option.splits)

lemma change_step_lstate:
  "lstate (change_step api c fr d s) d =
     (if dying s d then lstate s d
      else if d = c then app fr CGROUP_FREEZING_SELF (lstate s d)
      else case tpar (ltree s) d of None \<Rightarrow> lstate s d
        | Some q \<Rightarrow> app (lfreezing s q) CGROUP_FREEZING_PARENT (lstate s d))"
  by (simp add: change_step_def parent_freezer_def apply_state_lstate split: option.splits)

lemma change_state_lstate:
  fixes api :: "'k task_api" and fr :: bool
  assumes ok: "css_tree_ok (ltree s)" and c: "c \<in> set (tcss (ltree s))"
  defines "s' \<equiv> freezer_change_state api c fr s"
  shows "\<not> in_subtree (ltree s) c d \<or> dying s d \<Longrightarrow> lstate s' d = lstate s d"
    and "\<not> dying s c \<Longrightarrow> lstate s' c = app fr CGROUP_FREEZING_SELF (lstate s c)"
    and "in_subtree (ltree s) c d \<Longrightarrow> \<not> dying s d \<Longrightarrow> d \<noteq> c \<Longrightarrow> tpar (ltree s) d = Some q \<Longrightarrow>
      lstate s' d = app (lfreezing s' q) CGROUP_FREEZING_PARENT (lstate s d)"
    and "ltree s' = ltree s" "dying s' = dying s" "ctasks s' = ctasks s"
proof -
  obtain ds where ds: "pre_order (ltree s) c = c # ds" "parents_first (tpar (ltree s)) {c} ds"
    using pre_order_parents_first by blast
  have s': "s' = fold (change_step api c fr) (c # ds) s"
    by (simp add: s'_def freezer_change_state_def ok c ds(1))
  have dist: "distinct (c # ds)" using distinct_pre_order [OF ok, of c] by (simp add: ds(1))
  have set: "set (c # ds) = {d. in_subtree (ltree s) c d}" using set_pre_order [OF ok c] by (simp add: ds(1))
  show "ltree s' = ltree s" "dying s' = dying s" "ctasks s' = ctasks s" by (simp_all only: s' change_fold_frames)
  have at: "lstate s' d = lstate (change_step api c fr d (fold (change_step api c fr) xs s)) d
      \<and> lstate (fold (change_step api c fr) xs s) d = lstate s d
      \<and> (\<forall>q \<in> set xs. lstate s' q = lstate (fold (change_step api c fr) xs s) q)"
    if "c # ds = xs @ d # ys" for xs d ys
    using dist change.fold_at [of d ys api c fr xs s] change.fold_other [of d xs api c fr s]
      change.fold_before [of _ "d # ys" api c fr xs s]
    by (auto simp only: s' that distinct_append set_append) (auto simp: that)
  show "lstate s' c = app fr CGROUP_FREEZING_SELF (lstate s c)" if "\<not> dying s c"
    using at [of "[]" c ds] that by (simp add: change_step_lstate)
  show "lstate s' d = lstate s d" if d: "\<not> in_subtree (ltree s) c d \<or> dying s d"
  proof (cases "d \<in> set (c # ds)")
    case True
    then obtain xs ys where "c # ds = xs @ d # ys" by (meson split_list)
    from at [OF this] d True set show ?thesis by (auto simp: change_step_lstate)
  next
    case False
    then show ?thesis unfolding s' by (rule change.fold_other)
  qed
  show "lstate s' d = app (lfreezing s' q) CGROUP_FREEZING_PARENT (lstate s d)"
    if d: "in_subtree (ltree s) c d" "\<not> dying s d" "d \<noteq> c" "tpar (ltree s) d = Some q"
  proof -
    have "d \<in> set ds" using d(1,3) set by auto
    then obtain xs ys where xs: "ds = xs @ d # ys" by (meson split_list)
    then have "q \<in> set (c # xs)" using parents_firstD ds(2) d(4) by fastforce
    with at [of "c # xs" d ys] xs d show ?thesis by (auto simp: change_step_lstate)
  qed
qed

subsection \<open>The counter\<close>

definition cnt_ok :: "'k lfreezer \<Rightarrow> bool" where
  "cnt_ok s \<longleftrightarrow> system_freezing_cnt s = int (card {c \<in> set (tcss (ltree s)). lfreezing s c})"

lemma cnt_ok_change:
  assumes "cnt_ok s" and "ltree s' = ltree s" and "c \<in> set (tcss (ltree s))"
    and "\<And>d. d \<noteq> c \<Longrightarrow> lfreezing s' d \<longleftrightarrow> lfreezing s d"
    and "system_freezing_cnt s' = system_freezing_cnt s
      + (if lfreezing s' c then 1 else 0) - (if lfreezing s c then 1 else 0)"
  shows "cnt_ok s'"
  using assms card_change [of "set (tcss (ltree s))" c "lfreezing s'" "lfreezing s"]
  by (simp add: cnt_ok_def)

lemma has_own_FREEZING:
  "has CGROUP_FREEZING_SELF CGROUP_FREEZING" "has CGROUP_FREEZING_PARENT CGROUP_FREEZING"
  by (simp_all add: has_FREEZING bit_flags)

lemma change_step_cnt:
  assumes "cnt_ok s" and "d \<in> set (tcss (ltree s))"
  shows "cnt_ok (change_step api c fr d s)"
proof -
  have "cnt_ok (freezer_apply_state api d b m s)" if "has m CGROUP_FREEZING" for b m
    using assms that by (intro cnt_ok_change [OF assms(1)]) (auto simp: apply_state_lstate apply_state_cnt)
  then show ?thesis
    using assms(1) by (auto simp: change_step_def has_own_FREEZING split: option.splits)
qed

lemma change_state_cnt:
  assumes "css_tree_ok (ltree s)" and "c \<in> set (tcss (ltree s))" and "cnt_ok s"
  shows "cnt_ok (freezer_change_state api c fr s)"
proof -
  have "cnt_ok (fold (change_step api c fr) ds s)" if "set ds \<subseteq> set (tcss (ltree s))" "cnt_ok s" for ds s
    using that by (induction ds arbitrary: s) (auto simp: change_step_cnt)
  moreover have "set (pre_order (ltree s) c) \<subseteq> set (tcss (ltree s))"
    using set_pre_order [OF assms(1,2)] by (auto simp: in_subtree_def)
  ultimately show ?thesis using assms by (simp add: freezer_change_state_def)
qed

subsection \<open>The invariant\<close>

lemma lf_invD:
  assumes "lf_inv s"
  shows "css_tree_ok (ltree s)"
    and "\<not> lonline s c \<or> c \<notin> set (tcss (ltree s)) \<Longrightarrow> lstate s c = 0"
    and "lonline s c \<Longrightarrow> tpar (ltree s) c = Some p \<Longrightarrow> lonline s p"
    and "lonline s c \<Longrightarrow> \<not> dying s c \<Longrightarrow> tpar (ltree s) c = Some p \<Longrightarrow> \<not> dying s p"
    and "live s c \<Longrightarrow> has (lstate s c) CGROUP_FREEZING_PARENT \<longleftrightarrow>
          (\<exists>p. tpar (ltree s) c = Some p \<and> lfreezing s p)"
    and "lfrozen s c \<Longrightarrow> lfreezing s c"
    and "lonline s c \<Longrightarrow> tpar (ltree s) c = Some p \<Longrightarrow> lfrozen s p \<Longrightarrow> lfrozen s c"
    and "cnt_ok s"
  using assms unfolding lf_inv_def cnt_ok_def by blast+

lemma lf_invI:
  assumes "css_tree_ok (ltree s)"
    and "\<And>c. \<not> lonline s c \<or> c \<notin> set (tcss (ltree s)) \<Longrightarrow> lstate s c = 0"
    and "\<And>c p. lonline s c \<Longrightarrow> tpar (ltree s) c = Some p \<Longrightarrow> lonline s p"
    and "\<And>c p. lonline s c \<Longrightarrow> \<not> dying s c \<Longrightarrow> tpar (ltree s) c = Some p \<Longrightarrow> \<not> dying s p"
    and "\<And>c. live s c \<Longrightarrow> has (lstate s c) CGROUP_FREEZING_PARENT \<longleftrightarrow>
          (\<exists>p. tpar (ltree s) c = Some p \<and> lfreezing s p)"
    and "\<And>c. lfrozen s c \<Longrightarrow> lfreezing s c"
    and "\<And>c p. lonline s c \<Longrightarrow> tpar (ltree s) c = Some p \<Longrightarrow> lfrozen s p \<Longrightarrow> lfrozen s c"
    and "cnt_ok s"
  shows "lf_inv s"
  using assms unfolding lf_inv_def cnt_ok_def by blast

lemma app_frozen_freezing:
  assumes "m \<in> {CGROUP_FREEZING_SELF, CGROUP_FREEZING_PARENT}" and "has w CGROUP_FROZEN \<longrightarrow> has w CGROUP_FREEZING"
  shows "has (app fr m w) CGROUP_FROZEN \<longrightarrow> has w CGROUP_FROZEN \<and> has (app fr m w) CGROUP_FREEZING"
proof (cases "has w CGROUP_FREEZER_ONLINE")
  case True
  with app_FROZEN [OF assms(1) True assms(2)] show ?thesis by simp
qed (use assms(2) in \<open>simp add: app_def\<close>)

lemma has_PARENT_FREEZING: "has w CGROUP_FREEZING_PARENT \<Longrightarrow> has w CGROUP_FREEZING"
  by (simp add: has_flags has_FREEZING)

lemma has_0: "\<not> has 0 m"
  by (simp add: has_def)

lemma online_in_css: "lf_inv s \<Longrightarrow> lonline s c \<Longrightarrow> c \<in> set (tcss (ltree s))"
  using lf_invD(2) [of s c] has_0 by metis

text \<open>The flags of every css after a change of state of a live one.\<close>

lemma change_state_flags:
  fixes api :: "'k task_api" and fr :: bool
  assumes inv: "lf_inv s" and c: "live s c"
  defines "s' \<equiv> freezer_change_state api c fr s"
  shows "lonline s' d \<longleftrightarrow> lonline s d"
    and "has (lstate s' d) CGROUP_FREEZING_SELF \<longleftrightarrow> (if d = c then fr else has (lstate s d) CGROUP_FREEZING_SELF)"
    and "live s' d \<longleftrightarrow> live s d"
    and "live s d \<Longrightarrow> has (lstate s' d) CGROUP_FREEZING_PARENT \<longleftrightarrow> (\<exists>p. tpar (ltree s) d = Some p \<and> lfreezing s' p)"
    and "lfrozen s' d \<Longrightarrow> lfrozen s d \<and> lfreezing s' d"
    and "live s d \<Longrightarrow> lfrozen s d \<Longrightarrow> lfreezing s' d \<Longrightarrow> lfrozen s' d"
    and "\<not> live s d \<Longrightarrow> lstate s' d = lstate s d"
proof -
  note ok = lf_invD(1) [OF inv]
  have c': "c \<in> set (tcss (ltree s))" "\<not> dying s c" "lonline s c" using c by (simp_all add: live_def)
  note st = change_state_lstate [OF ok c'(1), where api = api and fr = fr, folded s'_def]
  have fro: "lfrozen s d \<longrightarrow> lfreezing s d" using lf_invD(6) [OF inv] by blast
  consider (out) "\<not> in_subtree (ltree s) c d \<or> dying s d" "d \<noteq> c" "lstate s' d = lstate s d"
    | (self) "d = c" "lstate s' d = app fr CGROUP_FREEZING_SELF (lstate s d)"
    | (below) q where "in_subtree (ltree s) c d" "\<not> dying s d" "d \<noteq> c" "tpar (ltree s) d = Some q"
        "lstate s' d = app (lfreezing s' q) CGROUP_FREEZING_PARENT (lstate s d)"
  proof (cases "d = c")
    case False
    show thesis
    proof (cases "in_subtree (ltree s) c d \<and> \<not> dying s d")
      case True
      with False obtain q where "tpar (ltree s) d = Some q"
        using position_parent [of "ltree s" c d] ok by (auto simp: position_def)
      with True False st(3) below show thesis by blast
    qed (use False st(1) out in blast)
  qed (use c' st(2) self in simp)
  note cases = this
  show on: "lonline s' d \<longleftrightarrow> lonline s d"
    using cases by cases (simp_all add: app_SELF app_PARENT)
  show "live s' d \<longleftrightarrow> live s d" using on st(4,5) by (simp add: live_def)
  show "has (lstate s' d) CGROUP_FREEZING_SELF \<longleftrightarrow> (if d = c then fr else has (lstate s d) CGROUP_FREEZING_SELF)"
    using cases c'(3) by cases (simp_all add: app_SELF app_PARENT)
  show "lfrozen s' d \<Longrightarrow> lfrozen s d \<and> lfreezing s' d"
    using cases fro app_frozen_freezing [of _ "lstate s d"] by cases auto
  show "lstate s' d = lstate s d" if "\<not> live s d"
    using cases
  proof cases
    case below
    then have "\<not> lonline s d" using that by (simp add: live_def in_subtree_def)
    with below show ?thesis by (simp add: app_def)
  qed (use that c in auto)
  show "lfrozen s' d" if "live s d" "lfrozen s d" "lfreezing s' d"
    using cases
  proof cases
    case self
    with that fro c' show ?thesis using app_FROZEN by auto
  next
    case below
    with that fro show ?thesis using app_FROZEN [of _ "lstate s d"] by (auto simp: live_def)
  qed (use that in simp)
  show "has (lstate s' d) CGROUP_FREEZING_PARENT \<longleftrightarrow> (\<exists>p. tpar (ltree s) d = Some p \<and> lfreezing s' p)"
    if "live s d"
  proof -
    note par = lf_invD(5) [OF inv that]
    have out_parent: "lstate s' p = lstate s p" if "tpar (ltree s) d = Some p" "d = c \<or> \<not> in_subtree (ltree s) c d" for p
    proof -
      have "p < d" "ancestors (tpar (ltree s)) d = p # ancestors (tpar (ltree s)) p"
        using ok that(1) by (auto simp: css_tree_ok_def tree_ok_def ancestors_Some)
      moreover have "d \<in> set (tcss (ltree s))" using \<open>live s d\<close> by (simp add: live_def)
      ultimately have "\<not> in_subtree (ltree s) c p"
        using that(2) ancestors_less [of c "tpar (ltree s)" p] by (auto simp: in_subtree_def)
      then show ?thesis using st(1) by blast
    qed
    show ?thesis using cases
    proof cases
      case out
      with par out_parent \<open>live s d\<close> show ?thesis by (auto simp: live_def)
    next
      case self
      with par out_parent show ?thesis by (auto simp: app_SELF)
    next
      case below
      with \<open>live s d\<close> show ?thesis by (simp add: app_PARENT live_def)
    qed
  qed
qed

lemma change_state_inv:
  assumes inv: "lf_inv s" and c: "live s c"
  shows "lf_inv (freezer_change_state api c fr s)"
proof (rule lf_invI)
  let ?s' = "freezer_change_state api c fr s"
  have c': "c \<in> set (tcss (ltree s))" using c by (simp add: live_def)
  note fr = change_state_lstate(4,5) [OF lf_invD(1) [OF inv] c', where api = api and fr = fr]
    and fl = change_state_flags [OF inv c, where api = api and fr = fr]
  show "css_tree_ok (ltree ?s')" "cnt_ok ?s'"
    using fr lf_invD(1,8) [OF inv] change_state_cnt c' by simp_all
  show "lstate ?s' d = 0" if "\<not> lonline ?s' d \<or> d \<notin> set (tcss (ltree ?s'))" for d
  proof -
    have "\<not> live s d" using that by (auto simp: fl(1) fr live_def)
    then show ?thesis using that lf_invD(2) [OF inv, of d] by (simp add: fl(1,7) fr)
  qed
  show "lonline ?s' p" if "lonline ?s' d" "tpar (ltree ?s') d = Some p" for d p
    using that lf_invD(3) [OF inv] by (simp add: fl(1) fr)
  show "\<not> dying ?s' p" if "lonline ?s' d" "\<not> dying ?s' d" "tpar (ltree ?s') d = Some p" for d p
    using that lf_invD(4) [OF inv] by (simp add: fl(1) fr)
  show "has (lstate ?s' d) CGROUP_FREEZING_PARENT \<longleftrightarrow> (\<exists>p. tpar (ltree ?s') d = Some p \<and> lfreezing ?s' p)"
    if "live ?s' d" for d using that fl(4) by (simp add: fl(3) fr)
  show "lfreezing ?s' d" if "lfrozen ?s' d" for d using fl(5) [OF that] by simp
  show "lfrozen ?s' d" if d: "lonline ?s' d" "tpar (ltree ?s') d = Some p" "lfrozen ?s' p" for d p
  proof -
    have "lfrozen s p" "lfreezing ?s' p" using fl(5) [OF d(3)] by simp_all
    then have "lfrozen s d" using lf_invD(7) [OF inv] d by (simp add: fl(1) fr)
    show ?thesis
    proof (cases "live s d")
      case True
      then have "lfreezing ?s' d"
        using fl(4) \<open>lfreezing ?s' p\<close> d(2) has_PARENT_FREEZING by (auto simp: fr)
      with True \<open>lfrozen s d\<close> show ?thesis by (rule fl(6))
    qed (use \<open>lfrozen s d\<close> fl(7) in simp)
  qed
qed

subsection \<open>Other operations\<close>

text \<open>An update that leaves everything but \<open>FROZEN\<close> alone keeps the invariant when \<open>FROZEN\<close> still
  implies freezing and is still passed on.\<close>

lemma frozen_only_inv:
  assumes inv: "lf_inv s" and frames: "ltree s' = ltree s" "dying s' = dying s"
      "system_freezing_cnt s' = system_freezing_cnt s"
    and flags: "\<And>c m. m \<in> {CGROUP_FREEZER_ONLINE, CGROUP_FREEZING_PARENT, CGROUP_FREEZING} \<Longrightarrow>
      has (lstate s' c) m \<longleftrightarrow> has (lstate s c) m"
    and "\<And>c. lstate s c = 0 \<Longrightarrow> lstate s' c = 0"
    and "\<And>c. lfrozen s' c \<Longrightarrow> lfreezing s c"
    and "\<And>c p. lonline s c \<Longrightarrow> tpar (ltree s) c = Some p \<Longrightarrow> lfrozen s' p \<Longrightarrow> lfrozen s' c"
  shows "lf_inv s'"
proof (rule lf_invI)
  have f: "lonline s' c \<longleftrightarrow> lonline s c" "lfreezing s' c \<longleftrightarrow> lfreezing s c" "live s' c \<longleftrightarrow> live s c"
    "has (lstate s' c) CGROUP_FREEZING_PARENT \<longleftrightarrow> has (lstate s c) CGROUP_FREEZING_PARENT" for c
    using flags frames by (simp_all add: live_def)
  show "cnt_ok s'" using lf_invD(8) [OF inv] by (simp add: cnt_ok_def frames f)
qed (use assms lf_invD [OF inv] in \<open>simp_all add: live_def\<close>)

definition frozen_chain :: "'k lfreezer \<Rightarrow> nat \<Rightarrow> nat list" where
  "frozen_chain s c = takeWhile (lfrozen s) (c # ancestors (tpar (ltree s)) c)"

lemma frozen_chain_up:
  assumes "tree_ok par" and "d \<in> set (takeWhile P (c # ancestors par c))" and "par d = Some p" and "P p"
  shows "p \<in> set (takeWhile P (c # ancestors par c))"
  using assms(2)
proof (induction c rule: less_induct)
  case (less c)
  show ?case
  proof (cases "d = c")
    case True
    with less assms show ?thesis by (auto simp: ancestors_child split: if_splits)
  next
    case False
    with less.prems obtain q where q: "par c = Some q" "P c"
      by (cases "par c") (auto split: if_splits)
    then have "q < c" "d \<in> set (takeWhile P (q # ancestors par q))"
      using assms(1) False less.prems by (auto simp: tree_ok_def ancestors_child)
    from less.IH [OF this] q assms(1) show ?thesis by (simp add: ancestors_child)
  qed
qed

lemma clear_frozen_up_ok:
  "lstate (clear_frozen_up c s) d =
     (if d \<in> set (frozen_chain s c) then lstate s d AND NOT CGROUP_FROZEN else lstate s d)"
  "ltree (clear_frozen_up c s) = ltree s" "dying (clear_frozen_up c s) = dying s"
  "system_freezing_cnt (clear_frozen_up c s) = system_freezing_cnt s"
proof -
  have fold: "fold (\<lambda>p s. set_state p (lstate s p AND NOT CGROUP_FROZEN) s) qs s
    = s\<lparr>lstate := fold (\<lambda>q f. f(q := f q AND NOT CGROUP_FROZEN)) qs (lstate s)\<rparr>" for qs and s :: "'a lfreezer"
    by (induction qs arbitrary: s) (simp_all add: set_state_def)
  have dist: "distinct (frozen_chain s c)"
    unfolding frozen_chain_def using ancestors_less [of c "tpar (ltree s)" c]
    by (intro distinct_takeWhile) auto
  show "lstate (clear_frozen_up c s) d =
     (if d \<in> set (frozen_chain s c) then lstate s d AND NOT CGROUP_FROZEN else lstate s d)"
    using fold_update_apply [OF dist, of "\<lambda>w. w AND NOT CGROUP_FROZEN" "lstate s" d]
    by (simp only: clear_frozen_up_def fold frozen_chain_def) simp
  show "ltree (clear_frozen_up c s) = ltree s" "dying (clear_frozen_up c s) = dying s"
    "system_freezing_cnt (clear_frozen_up c s) = system_freezing_cnt s"
    by (simp_all only: clear_frozen_up_def fold) simp_all
qed

lemma clear_frozen_up_inv:
  assumes inv: "lf_inv s"
  shows "lf_inv (clear_frozen_up c s)"
proof (rule frozen_only_inv [OF inv])
  have keep: "has (w AND NOT CGROUP_FROZEN) m \<longleftrightarrow> has w m"
    if "m \<in> {CGROUP_FREEZER_ONLINE, CGROUP_FREEZING_PARENT, CGROUP_FREEZING}" for w m
    using that by (auto simp: has_flags has_FREEZING bit_and_iff bit_not_flags bit_flags)
  have gone: "\<not> has (w AND NOT CGROUP_FROZEN) CGROUP_FROZEN" for w
    by (simp add: has_flags bit_and_iff bit_not_flags bit_flags)
  show "has (lstate (clear_frozen_up c s) d) m \<longleftrightarrow> has (lstate s d) m"
    if "m \<in> {CGROUP_FREEZER_ONLINE, CGROUP_FREEZING_PARENT, CGROUP_FREEZING}" for d m
    using keep [OF that] by (simp add: clear_frozen_up_ok)
  show "lfreezing s d" if "lfrozen (clear_frozen_up c s) d" for d
    using that gone lf_invD(6) [OF inv] by (auto simp: clear_frozen_up_ok split: if_splits)
  show "lfrozen (clear_frozen_up c s) d"
    if d: "lonline s d" "tpar (ltree s) d = Some p" "lfrozen (clear_frozen_up c s) p" for d p
  proof -
    have p: "p \<notin> set (frozen_chain s c)" "lfrozen s p"
      using d(3) gone by (auto simp: clear_frozen_up_ok split: if_splits)
    have "tree_ok (tpar (ltree s))" using lf_invD(1) [OF inv] by (simp add: css_tree_ok_def)
    then have "d \<notin> set (frozen_chain s c)"
      using frozen_chain_up [of "tpar (ltree s)" d "lfrozen s" c p] p d(2) by (auto simp: frozen_chain_def)
    then show ?thesis using lf_invD(7) [OF inv d(1,2) p(2)] by (simp add: clear_frozen_up_ok)
  qed
qed (simp_all add: clear_frozen_up_ok)

lemma kern_inv: "lf_inv s \<Longrightarrow> lf_inv (s\<lparr>lkern := k\<rparr>)" "lf_inv s \<Longrightarrow> lf_inv (s\<lparr>ctasks := ts, lkern := k\<rparr>)"
  by (simp_all add: lf_inv_def live_def)

lemma attach_inv: "lf_inv s \<Longrightarrow> lf_inv (freezer_attach api tset s)"
  unfolding freezer_attach_def
  by (induction tset arbitrary: s) (auto simp: kern_inv clear_frozen_up_inv)

lemma has_set_FROZEN:
  "has (w OR CGROUP_FROZEN) CGROUP_FROZEN"
  "m \<in> {CGROUP_FREEZER_ONLINE, CGROUP_FREEZING_PARENT, CGROUP_FREEZING} \<Longrightarrow>
     has (w OR CGROUP_FROZEN) m \<longleftrightarrow> has w m"
  by (auto simp: has_flags has_FREEZING bit_or_iff bit_flags)

lemma update_if_frozen_inv:
  assumes inv: "lf_inv s"
  shows "lf_inv (update_if_frozen api c s)"
proof (cases "update_if_frozen api c s = s")
  case True
  with inv show ?thesis by simp
next
  case False
  then have c: "lfreezing s c" "\<forall>d \<in> set (kids (ltree s) c). lonline s d \<longrightarrow> lfrozen s d"
    and u: "update_if_frozen api c s = set_state c (lstate s c OR CGROUP_FROZEN) s"
    by (auto simp: update_if_frozen_def split: if_splits)
  have kid: "lfrozen s d" if "lonline s d" "tpar (ltree s) d = Some c" for d
    using c(2) that online_in_css [OF inv that(1)] in_kids [OF lf_invD(1) [OF inv]] by blast
  show ?thesis unfolding u
  proof (rule frozen_only_inv [OF inv])
    show "lstate s d = 0 \<Longrightarrow> lstate (set_state c (lstate s c OR CGROUP_FROZEN) s) d = 0" for d
      using c(1) has_0 by (cases "d = c") auto
    show "lfreezing s d" if "lfrozen (set_state c (lstate s c OR CGROUP_FROZEN) s) d" for d
      using that c(1) lf_invD(6) [OF inv] by (auto split: if_splits)
    show "lfrozen (set_state c (lstate s c OR CGROUP_FROZEN) s) d"
      if "lonline s d" "tpar (ltree s) d = Some p" "lfrozen (set_state c (lstate s c OR CGROUP_FROZEN) s) p" for d p
      using that kid lf_invD(7) [OF inv that(1,2)] has_set_FROZEN(1) by (auto split: if_splits)
  qed (use has_set_FROZEN(2) in auto)
qed

lemma read_inv: "lf_inv s \<Longrightarrow> freezer_read api c s = (txt, s') \<Longrightarrow> lf_inv s'"
proof -
  have "lf_inv (fold (read_step api) ds s)" if "lf_inv s" for ds and s :: "'a lfreezer"
    using that by (induction ds arbitrary: s) (auto simp: read_step_def update_if_frozen_inv)
  then show "lf_inv s \<Longrightarrow> freezer_read api c s = (txt, s') \<Longrightarrow> lf_inv s'"
    by (auto simp: freezer_read_def Let_def)
qed

subsection \<open>Life of a css\<close>

lemma alloc_inv:
  assumes inv: "lf_inv s" and new: "\<forall>d \<in> set (tcss (ltree s)). d < c" and p: "p \<in> set (tcss (ltree s))"
    and alloc: "freezer_css_alloc ok c (Some p) s = (r, s')"
  shows "lf_inv s'"
proof (cases ok)
  case False
  with alloc inv show ?thesis by (simp add: freezer_css_alloc_def)
next
  case True
  have c: "c \<notin> set (tcss (ltree s))" using new by auto
  note I = lf_invD [OF inv]
  have c0: "lstate s c = 0" using I(2) c by blast
  then have st: "lstate s' = lstate s" using True alloc by (auto simp: freezer_css_alloc_def set_state_def)
  have fr: "tpar (ltree s') = (tpar (ltree s))(c := Some p)" "tcss (ltree s') = tcss (ltree s) @ [c]"
    "dying s' = (dying s)(c := False)" "system_freezing_cnt s' = system_freezing_cnt s"
    using True alloc by (auto simp: freezer_css_alloc_def)
  have off: "\<not> lonline s c" "\<not> lfreezing s c" "\<not> lfrozen s c" by (simp_all add: c0 has_0)
  show ?thesis
  proof (rule lf_invI)
    show "css_tree_ok (ltree s')"
      using I(1) new p by (auto simp: css_tree_ok_def tree_ok_def fr sorted_wrt_append)
    have "{d \<in> set (tcss (ltree s')). lfreezing s' d} = {d \<in> set (tcss (ltree s)). lfreezing s d}"
      using off by (auto simp: fr st)
    then show "cnt_ok s'" using I(8) by (simp add: cnt_ok_def fr)
    show "lstate s' d = 0" if "\<not> lonline s' d \<or> d \<notin> set (tcss (ltree s'))" for d
      using that I(2) [of d] by (auto simp: fr st)
    show "lonline s' q" if "lonline s' d" "tpar (ltree s') d = Some q" for d q
      using that I(3) [of d q] off by (auto simp: fr st split: if_splits)
    show "\<not> dying s' q" if "lonline s' d" "\<not> dying s' d" "tpar (ltree s') d = Some q" for d q
      using that I(4) [of d q] off by (auto simp: fr st split: if_splits)
    show "has (lstate s' d) CGROUP_FREEZING_PARENT \<longleftrightarrow> (\<exists>q. tpar (ltree s') d = Some q \<and> lfreezing s' q)"
      if "live s' d" for d
      using that I(5) [of d] off by (auto simp: fr st live_def split: if_splits)
    show "lfreezing s' d" if "lfrozen s' d" for d using that I(6) [of d] by (simp add: st)
    show "lfrozen s' d" if "lonline s' d" "tpar (ltree s') d = Some q" "lfrozen s' q" for d q
      using that I(7) [of d q] off by (auto simp: fr st split: if_splits)
  qed
qed

lemma online_flags:
  "has (0 OR CGROUP_FREEZER_ONLINE) CGROUP_FREEZER_ONLINE"
  "\<not> has (0 OR CGROUP_FREEZER_ONLINE) CGROUP_FREEZING" "\<not> has (0 OR CGROUP_FREEZER_ONLINE) CGROUP_FROZEN"
  "\<not> has (0 OR CGROUP_FREEZER_ONLINE) CGROUP_FREEZING_PARENT"
  "m \<in> {CGROUP_FREEZER_ONLINE, CGROUP_FREEZING, CGROUP_FROZEN, CGROUP_FREEZING_PARENT} \<Longrightarrow>
     has (0 OR CGROUP_FREEZER_ONLINE OR (CGROUP_FREEZING_PARENT OR CGROUP_FROZEN)) m"
  by (auto simp: has_flags has_FREEZING bit_or_iff bit_flags)

lemma online_inv:
  assumes inv: "lf_inv s" and c: "c \<in> set (tcss (ltree s))" "\<not> lonline s c" "\<not> dying s c"
    and par: "\<And>p. parent_freezer s c = Some p \<Longrightarrow> live s p" and on: "freezer_css_online c s = (r, s')"
  shows "lf_inv s'"
proof -
  note I = lf_invD [OF inv]
  have c0: "lstate s c = 0" using I(2) c(2) by blast
  define F where "F \<longleftrightarrow> (\<exists>p. tpar (ltree s) c = Some p \<and> lfreezing s p)"
  have up: "tpar (ltree s) c = Some p \<Longrightarrow> p \<noteq> c" for p using I(1) by (auto simp: css_tree_ok_def tree_ok_def)
  have fr: "ltree s' = ltree s" "dying s' = dying s"
    "system_freezing_cnt s' = system_freezing_cnt s + (if F then 1 else 0)"
    and other: "\<And>d. d \<noteq> c \<Longrightarrow> lstate s' d = lstate s d"
    and own: "lstate s' c = (if F then 0 OR CGROUP_FREEZER_ONLINE OR (CGROUP_FREEZING_PARENT OR CGROUP_FROZEN)
      else 0 OR CGROUP_FREEZER_ONLINE)"
    using on up c0 by (auto simp: freezer_css_online_def Let_def parent_freezer_def F_def split: option.splits if_splits)
  have own_flags: "lonline s' c" "lfreezing s' c \<longleftrightarrow> F" "lfrozen s' c \<longleftrightarrow> F"
    "has (lstate s' c) CGROUP_FREEZING_PARENT \<longleftrightarrow> F"
    unfolding own using online_flags by simp_all
  have no_kid: "tpar (ltree s) d = Some c \<Longrightarrow> \<not> lonline s d" for d using I(3) c(2) by blast
  have up_same: "lstate s' p = lstate s p" if "tpar (ltree s) d = Some p" "lonline s' d" for d p
    using that other no_kid [of d] by (cases "d = c"; cases "p = c") (auto dest: up)
  have Fp: "F \<longleftrightarrow> (\<exists>p. tpar (ltree s) c = Some p \<and> lfreezing s' p)"
    using up_same own_flags(1) by (auto simp: F_def)
  show ?thesis
  proof (rule lf_invI)
    show "css_tree_ok (ltree s')" using I(1) by (simp add: fr)
    show "cnt_ok s'"
      using c0 own_flags(2) other by (intro cnt_ok_change [OF I(8) _ c(1)]) (simp_all add: fr has_0)
    show "lstate s' d = 0" if "\<not> lonline s' d \<or> d \<notin> set (tcss (ltree s'))" for d
      using that I(2) [of d] own_flags(1) other [of d] c(1) by (cases "d = c") (auto simp: fr)
    show "lonline s' q" if "lonline s' d" "tpar (ltree s') d = Some q" for d q
      using that I(3) [of d q] up_same [of d q] other [of d] par [of q]
      by (cases "d = c") (auto simp: fr live_def parent_freezer_def)
    show "\<not> dying s' q" if "lonline s' d" "\<not> dying s' d" "tpar (ltree s') d = Some q" for d q
      using that I(4) [of d q] other [of d] par [of q] by (cases "d = c") (auto simp: fr live_def parent_freezer_def)
    show "has (lstate s' d) CGROUP_FREEZING_PARENT \<longleftrightarrow> (\<exists>q. tpar (ltree s') d = Some q \<and> lfreezing s' q)"
      if "live s' d" for d
      using that I(5) [of d] own_flags Fp other [of d] up_same [of d] by (cases "d = c") (auto simp: fr live_def)
    show "lfreezing s' d" if "lfrozen s' d" for d
      using that I(6) [of d] own_flags other by (cases "d = c") auto
    show "lfrozen s' d" if "lonline s' d" "tpar (ltree s') d = Some q" "lfrozen s' q" for d q
      using that I(6) [of q] I(7) [of d q] own_flags F_def up_same [of d q] other [of d]
      by (cases "d = c") (auto simp: fr)
  qed
qed

lemma offline_inv:
  assumes inv: "lf_inv s" and c: "c \<in> set (tcss (ltree s))"
    and kids: "\<forall>d \<in> set (kids (ltree s) c). \<not> lonline s d"
  shows "lf_inv (freezer_css_offline c s)"
proof -
  note I = lf_invD [OF inv]
  let ?s' = "freezer_css_offline c s"
  have fr: "ltree ?s' = ltree s" "dying ?s' = dying s" "lstate ?s' = (lstate s)(c := 0)"
    "system_freezing_cnt ?s' = system_freezing_cnt s - (if lfreezing s c then 1 else 0)"
    by (auto simp: freezer_css_offline_def Let_def set_state_def)
  have no_kid: "tpar (ltree s) d = Some c \<Longrightarrow> \<not> lonline s d" for d
    using kids online_in_css [OF inv, of d] in_kids [OF I(1)] by blast
  show ?thesis
  proof (rule lf_invI)
    show "css_tree_ok (ltree ?s')" using I(1) by (simp add: fr)
    show "cnt_ok ?s'" by (intro cnt_ok_change [OF I(8) _ c]) (simp_all add: fr has_0)
    show "has (lstate ?s' d) CGROUP_FREEZING_PARENT \<longleftrightarrow> (\<exists>q. tpar (ltree ?s') d = Some q \<and> lfreezing ?s' q)"
      if "live ?s' d" for d
    proof -
      have d: "d \<noteq> c" "live s d" using that by (auto simp: live_def fr has_0 split: if_splits)
      then have "tpar (ltree s) d \<noteq> Some c" using no_kid [of d] by (auto simp: live_def)
      then have "lfreezing ?s' q \<longleftrightarrow> lfreezing s q" if "tpar (ltree s) d = Some q" for q
        using that by (auto simp: fr)
      then show ?thesis using I(5) [OF d(2)] d(1) by (auto simp: fr)
    qed
    show "lstate ?s' d = 0" if "\<not> lonline ?s' d \<or> d \<notin> set (tcss (ltree ?s'))" for d
      using that I(2) [of d] by (cases "d = c") (simp_all add: fr)
    show "lonline ?s' q" if "lonline ?s' d" "tpar (ltree ?s') d = Some q" for d q
      using that I(3) [of d q] no_kid [of d] by (cases "d = c"; cases "q = c") (auto simp: fr has_0)
    show "\<not> dying ?s' q" if "lonline ?s' d" "\<not> dying ?s' d" "tpar (ltree ?s') d = Some q" for d q
      using that I(4) [of d q] by (cases "d = c") (simp_all add: fr has_0)
    show "lfreezing ?s' d" if "lfrozen ?s' d" for d
      using that I(6) [of d] by (cases "d = c") (simp_all add: fr has_0)
    show "lfrozen ?s' d" if "lonline ?s' d" "tpar (ltree ?s') d = Some q" "lfrozen ?s' q" for d q
      using that I(7) [of d q] by (cases "d = c"; cases "q = c") (simp_all add: fr has_0)
  qed
qed

lemma kill_inv:
  assumes inv: "lf_inv s" and kids: "\<forall>d \<in> set (kids (ltree s) c). \<not> live s d"
  shows "lf_inv (s\<lparr>dying := (dying s)(c := True)\<rparr>)"
proof -
  note I = lf_invD [OF inv]
  have no_kid: "tpar (ltree s) d = Some c \<Longrightarrow> lonline s d \<Longrightarrow> dying s d" for d
    using kids online_in_css [OF inv, of d] in_kids [OF I(1)] by (auto simp: live_def)
  let ?s' = "s\<lparr>dying := (dying s)(c := True)\<rparr>"
  show ?thesis
  proof (rule lf_invI)
    show "\<not> dying ?s' q" if "lonline ?s' d" "\<not> dying ?s' d" "tpar (ltree ?s') d = Some q" for d q
      using that I(4) [of d q] no_kid [of d] by (auto split: if_splits)
    show "has (lstate ?s' d) CGROUP_FREEZING_PARENT \<longleftrightarrow> (\<exists>q. tpar (ltree ?s') d = Some q \<and> lfreezing ?s' q)"
      if "live ?s' d" for d
      using that I(5) [of d] by (auto simp: live_def split: if_splits)
    show "cnt_ok ?s'" using I(8) by (simp add: cnt_ok_def)
    show "lstate ?s' d = 0" if "\<not> lonline ?s' d \<or> d \<notin> set (tcss (ltree ?s'))" for d
      using that I(2) [of d] by simp
  qed (use I(1,3,6,7) in simp_all)
qed

lemma free_inv:
  assumes inv: "lf_inv s" and c: "\<not> lonline s c" "kids (ltree s) c = []"
  shows "lf_inv (freezer_css_free c s)"
proof -
  note I = lf_invD [OF inv]
  let ?s' = "freezer_css_free c s"
  have ok: "sorted_wrt (<) (tcss (ltree s))" using I(1) by (simp add: css_tree_ok_def)
  then have dist: "distinct (tcss (ltree s))" using strict_sorted_iff by blast
  have fr: "tpar (ltree ?s') = tpar (ltree s)" "set (tcss (ltree ?s')) = set (tcss (ltree s)) - {c}"
    "dying ?s' = dying s" "lstate ?s' = lstate s" "system_freezing_cnt ?s' = system_freezing_cnt s"
    "tcss (ltree ?s') = remove1 c (tcss (ltree s))"
    using dist by (auto simp: freezer_css_free_def)
  have c0: "lstate s c = 0" using I(2) c(1) by blast
  have no_kid: "d \<in> set (tcss (ltree s)) \<Longrightarrow> tpar (ltree s) d \<noteq> Some c" for d
    using c(2) in_kids [OF I(1), of d c] by auto
  show ?thesis
  proof (rule lf_invI)
    have "sorted_wrt (<) (remove1 c (tcss (ltree s)))"
      using ok dist by (simp add: distinct_remove1_removeAll removeAll_filter_not_eq sorted_wrt_filter)
    then show "css_tree_ok (ltree ?s')"
      using I(1) no_kid dist by (auto simp: css_tree_ok_def fr set_remove1_eq simp del: set_remove1_subset)
    have "{d \<in> set (tcss (ltree ?s')). lfreezing ?s' d} = {d \<in> set (tcss (ltree s)). lfreezing s d}"
      using c0 by (auto simp: fr(2,4) has_0)
    then show "cnt_ok ?s'" using I(8) by (simp add: cnt_ok_def fr)
    show "lstate ?s' d = 0" if "\<not> lonline ?s' d \<or> d \<notin> set (tcss (ltree ?s'))" for d
      using that I(2) [of d] c0 by (auto simp: fr(2,4))
    show "has (lstate ?s' d) CGROUP_FREEZING_PARENT \<longleftrightarrow> (\<exists>q. tpar (ltree ?s') d = Some q \<and> lfreezing ?s' q)"
      if "live ?s' d" for d using that I(5) [of d] by (simp add: fr(1-4) live_def)
  qed (use I(3,4,6,7) in \<open>simp_all add: fr\<close>)
qed

lemma lf_step_inv: "lf_step api s s' \<Longrightarrow> lf_inv s \<Longrightarrow> lf_inv s'"
proof (induction rule: lf_step.induct)
  case (create s c p ok r s')
  then show ?case using alloc_inv by blast
next
  case (online c s r s')
  then show ?case using online_inv by blast
next
  case (write_state s c buf n r s')
  then show ?case by (auto simp: freezer_write_def Let_def change_state_inv split: if_splits)
qed (auto simp: kill_inv offline_inv free_inv attach_inv freezer_fork_def kern_inv intro: read_inv)

interpretation legacy: kept_invariant "lf_step api" lf_inv for api :: "'k task_api"
  by unfold_locales (rule lf_step_inv)

end
