(* ===== verification/LegacyFreezer_Props.thy ===== *)
theory LegacyFreezer_Props
  imports LegacyFreezer_Correct
begin

section \<open>What the files of the legacy freezer show and do\<close>

text \<open>
  The contracts of \<open>freezer.state\<close>, \<open>freezer.self_freezing\<close> and \<open>freezer.parent_freezing\<close>: what
  a write changes, and when a read says that a subtree is frozen.
\<close>

subsection \<open>Ancestors\<close>

lemma has_FREEZING_split:
  "has w CGROUP_FREEZING \<longleftrightarrow> has w CGROUP_FREEZING_SELF \<or> has w CGROUP_FREEZING_PARENT"
  by (simp add: has_FREEZING has_flags)

lemma live_parent:
  assumes "lf_inv s" and "live s c" and "tpar (ltree s) c = Some p"
  shows "live s p"
  using assms lf_invD(1,3,4) [OF assms(1)] by (auto simp: live_def css_tree_ok_def)

lemma freezing_by_ancestors:
  assumes inv: "lf_inv s" and "live s c"
  shows "has (lstate s c) CGROUP_FREEZING_PARENT \<longleftrightarrow>
    (\<exists>a \<in> set (ancestors (tpar (ltree s)) c). has (lstate s a) CGROUP_FREEZING_SELF)"
  using assms(2)
proof (induction c rule: less_induct)
  case (less c)
  show ?case
  proof (cases "tpar (ltree s) c")
    case None
    then show ?thesis using lf_invD(5) [OF inv less.prems] by simp
  next
    case (Some p)
    then have "p < c" "ancestors (tpar (ltree s)) c = p # ancestors (tpar (ltree s)) p"
      using lf_invD(1) [OF inv] by (auto simp: css_tree_ok_def tree_ok_def ancestors_Some)
    then show ?thesis
      using lf_invD(5) [OF inv less.prems] less.IH [of p] live_parent [OF inv less.prems Some] Some
      by (auto simp: has_FREEZING_split)
  qed
qed

lemma freezing_by_self:
  assumes "lf_inv s" and "live s c"
  shows "lfreezing s c \<longleftrightarrow> (\<exists>a \<in> set (c # ancestors (tpar (ltree s)) c). has (lstate s a) CGROUP_FREEZING_SELF)"
  using freezing_by_ancestors [OF assms] by (simp add: has_FREEZING_split)

subsection \<open>Reading\<close>

interpretation read_walk: own_step "read_step api" lstate for api :: "'k task_api"
  by unfold_locales (simp add: read_step_def update_if_frozen_def)

lemma read_step_frames [simp]:
  "ltree (read_step api d s) = ltree s" "dying (read_step api d s) = dying s"
  "ctasks (read_step api d s) = ctasks s" "lkern (read_step api d s) = lkern s"
  by (simp_all add: read_step_def update_if_frozen_def)

lemma read_fold_frames [simp]:
  "ltree (fold (read_step api) ds s) = ltree s" "dying (fold (read_step api) ds s) = dying s"
  "ctasks (fold (read_step api) ds s) = ctasks s" "lkern (fold (read_step api) ds s) = lkern s"
  by (induction ds arbitrary: s) simp_all

lemma read_step_flags [simp]:
  "m \<in> {CGROUP_FREEZER_ONLINE, CGROUP_FREEZING_PARENT, CGROUP_FREEZING} \<Longrightarrow>
     has (lstate (read_step api d s) c) m \<longleftrightarrow> has (lstate s c) m"
  using has_set_FROZEN(2) by (simp add: read_step_def update_if_frozen_def)

lemma read_fold_flags:
  "m \<in> {CGROUP_FREEZER_ONLINE, CGROUP_FREEZING_PARENT, CGROUP_FREEZING} \<Longrightarrow>
     has (lstate (fold (read_step api) ds s) c) m \<longleftrightarrow> has (lstate s c) m"
  by (induction ds arbitrary: s) (simp_all del: insert_iff)

text \<open>The tasks of a css itself have nothing left to wait for.\<close>

definition tasks_done :: "'k task_api \<Rightarrow> 'k lfreezer \<Rightarrow> nat \<Rightarrow> bool" where
  "tasks_done api s c \<longleftrightarrow> (\<forall>t \<in> set (ctasks s c). task_freezing api t (lkern s) \<longrightarrow>
     task_frozen api t (lkern s) \<or> freezer_should_skip api t (lkern s))"

lemma read_step_frozen:
  "lfrozen (read_step api d s) d \<longleftrightarrow> lfrozen s d \<or> (\<not> dying s d \<and> lfreezing s d \<and> tasks_done api s d
     \<and> (\<forall>e \<in> set (kids (ltree s) d). lonline s e \<longrightarrow> lfrozen s e))"
  using has_set_FROZEN(1) by (auto simp: read_step_def update_if_frozen_def tasks_done_def)

text \<open>The equations that the flags satisfy after the walk: the children were updated before.\<close>

lemma read_walk_frozen:
  fixes api :: "'k task_api"
  assumes "css_tree_ok (ltree s)" and "c \<in> set (tcss (ltree s))" and "in_subtree (ltree s) c d"
  defines "s' \<equiv> fold (read_step api) (post_order (ltree s) c) s"
  shows "lfrozen s' d \<longleftrightarrow> lfrozen s d \<or> (\<not> dying s d \<and> lfreezing s d \<and> tasks_done api s d
     \<and> (\<forall>e \<in> set (kids (ltree s) d). lonline s e \<longrightarrow> lfrozen s' e))"
proof -
  have "d \<in> set (post_order (ltree s) c)" using assms set_pre_order set_post_order by blast
  then obtain xs ys where xs: "post_order (ltree s) c = xs @ d # ys" by (meson split_list)
  let ?m = "fold (read_step api) xs s"
  have dist: "d \<notin> set xs" "d \<notin> set ys" "set xs \<inter> set (d # ys) = {}"
    using distinct_post_order [OF assms(1), of c] by (auto simp: xs)
  have kids: "set (kids (ltree s) d) \<subseteq> set xs"
    using post_order_children_first [of "ltree s" "{}" c] by (auto simp: xs children_first_append)
  have "lstate s' d = lstate (read_step api d ?m) d"
    unfolding s'_def xs using dist(2) by (rule read_walk.fold_at)
  moreover have "lstate ?m d = lstate s d" using dist(1) by (rule read_walk.fold_other)
  moreover have "lstate s' e = lstate ?m e" if "e \<in> set (kids (ltree s) d)" for e
    unfolding s'_def xs using that kids dist(3) by (intro read_walk.fold_before) auto
  moreover have "lonline ?m e \<longleftrightarrow> lonline s e" for e by (rule read_fold_flags) simp
  ultimately show ?thesis
    by (simp add: read_step_frozen tasks_done_def)
qed

lemma frozen_children:
  assumes inv: "lf_inv s" and "in_subtree (ltree s) c d" and "lonline s d" and "lfrozen s c"
  shows "lfrozen s d"
  using assms(2,3)
proof (induction d rule: less_induct)
  case (less d)
  show ?case
  proof (cases "d = c")
    case False
    then obtain q where q: "tpar (ltree s) d = Some q" "q < d" "position (ltree s) c q"
      using position_parent [of "ltree s" c d] less.prems(1) lf_invD(1) [OF inv] by (auto simp: position_def)
    then have "lfrozen s q"
      using less.IH lf_invD(3) [OF inv less.prems(2) q(1)] by (auto simp: position_def)
    then show ?thesis by (rule lf_invD(7) [OF inv less.prems(2) q(1)])
  qed (use assms(4) in simp)
qed

lemma subtree_trans:
  "in_subtree T c d \<Longrightarrow> in_subtree T d e \<Longrightarrow> in_subtree T c e"
  using ancestors_trans by (fastforce simp: in_subtree_def)

lemma subtree_child:
  assumes "css_tree_ok T" and "in_subtree T c e" and "c \<noteq> e"
  obtains k where "k \<in> set (kids T c)" "in_subtree T k e"
  using assms(2,3)
proof (induction e arbitrary: thesis rule: less_induct)
  case (less e)
  obtain q where q: "tpar T e = Some q" "q < e" "position T c q" "e \<in> set (kids T q)"
    using position_parent [of T c e] less.prems assms(1) by (auto simp: position_def)
  show ?case
  proof (cases "c = q")
    case True
    with q less.prems show ?thesis by (auto simp: in_subtree_def)
  next
    case False
    then obtain k where k: "k \<in> set (kids T c)" "in_subtree T k q"
      using less.IH [OF q(2)] q(3) by (auto simp: position_def)
    have "in_subtree T q e" using q(1,2) less.prems(2) by (simp add: in_subtree_def ancestors_Some)
    with k subtree_trans less.prems(1) show ?thesis by blast
  qed
qed

lemma online_up:
  assumes inv: "lf_inv s" and "in_subtree (ltree s) k e" and "lonline s e"
  shows "lonline s k"
  using assms(2,3)
proof (induction e rule: less_induct)
  case (less e)
  show ?case
  proof (cases "e = k")
    case False
    then obtain q where "tpar (ltree s) e = Some q" "q < e" "position (ltree s) k q"
      using position_parent [of "ltree s" k e] less.prems(1) lf_invD(1) [OF inv] by (auto simp: position_def)
    then show ?thesis using less.IH lf_invD(3) [OF inv less.prems(2)] by (auto simp: position_def)
  qed (use less in simp)
qed

text \<open>A css that does not block the freezing of a subtree it belongs to.\<close>

definition settled :: "'k task_api \<Rightarrow> 'k lfreezer \<Rightarrow> nat \<Rightarrow> bool" where
  "settled api s e \<longleftrightarrow> lfrozen s e \<or> \<not> dying s e \<and> tasks_done api s e"

definition all_settled :: "'k task_api \<Rightarrow> 'k lfreezer \<Rightarrow> nat \<Rightarrow> bool" where
  "all_settled api s d \<longleftrightarrow> (\<forall>e. in_subtree (ltree s) d e \<longrightarrow> lonline s e \<longrightarrow> settled api s e)"

lemma all_settled_split:
  assumes inv: "lf_inv s" and d: "live s d"
  shows "all_settled api s d \<longleftrightarrow> settled api s d \<and> (\<forall>k \<in> set (kids (ltree s) d). lonline s k \<longrightarrow> all_settled api s k)"
proof (intro iffI conjI ballI impI)
  note ok = lf_invD(1) [OF inv]
  assume a: "all_settled api s d"
  then show "settled api s d" using d by (simp add: all_settled_def in_subtree_def live_def)
  fix k assume "k \<in> set (kids (ltree s) d)"
  then have "in_subtree (ltree s) d k"
    using in_kids [OF ok] ok by (auto simp: in_subtree_def ancestors_child css_tree_ok_def)
  with a show "all_settled api s k" using subtree_trans by (fastforce simp: all_settled_def)
next
  assume r: "settled api s d \<and> (\<forall>k \<in> set (kids (ltree s) d). lonline s k \<longrightarrow> all_settled api s k)"
  have "settled api s e" if e: "in_subtree (ltree s) d e" "lonline s e" for e
  proof (cases "d = e")
    case False
    with e lf_invD(1) [OF inv] obtain k where "k \<in> set (kids (ltree s) d)" "in_subtree (ltree s) k e"
      using subtree_child by blast
    with r e online_up [OF inv] show ?thesis by (auto simp: all_settled_def)
  qed (use r in simp)
  then show "all_settled api s d" by (simp add: all_settled_def)
qed

lemma frozen_all_settled: "lf_inv s \<Longrightarrow> lfrozen s c \<Longrightarrow> all_settled api s c"
  using frozen_children by (fastforce simp: all_settled_def settled_def)

lemma read_walk_ok:
  fixes api :: "'k task_api"
  assumes inv: "lf_inv s" and c: "c \<in> set (tcss (ltree s))"
  defines "s' \<equiv> fold (read_step api) (post_order (ltree s) c) s"
  assumes "live s d" and "in_subtree (ltree s) c d"
  shows "lfrozen s' d \<longleftrightarrow> lfreezing s d \<and> all_settled api s d"
  using assms(4,5)
proof (induction "Suc (Max (set (tcss (ltree s)))) - d" arbitrary: d rule: less_induct)
  case less
  note ok = lf_invD(1) [OF inv]
  have kid: "lfrozen s' k \<longleftrightarrow> all_settled api s k"
    if k: "k \<in> set (kids (ltree s) d)" "lonline s k" and fr: "lfreezing s d" for k
  proof -
    have t: "k \<in> set (tcss (ltree s))" "tpar (ltree s) k = Some d" "d < k" "in_subtree (ltree s) c k"
      using k(1) in_kids [OF ok] position_kid [of "ltree s" c d k] less.prems ok
      by (auto simp: kids_def position_def dest: children_greater)
    show ?thesis
    proof (cases "dying s k")
      case True
      have "lfrozen s' k \<longleftrightarrow> lfrozen s k"
        using read_walk_frozen [OF ok c t(4), of api] True by (simp add: s'_def)
      moreover have "all_settled api s k \<Longrightarrow> lfrozen s k"
        using k(2) t(1) True by (auto simp: all_settled_def in_subtree_def settled_def)
      ultimately show ?thesis using frozen_all_settled [OF inv] by blast
    next
      case False
      with t k have live: "live s k" by (simp add: live_def)
      then have "lfreezing s k" using lf_invD(5) [OF inv live] t(2) fr has_PARENT_FREEZING by auto
      then show ?thesis using less.hyps [of k] gap_less [OF t(1,3)] live t(4) by simp
    qed
  qed
  have d: "\<not> dying s d" "lfrozen s d \<Longrightarrow> lfreezing s d"
    using less.prems lf_invD(6) [OF inv] by (auto simp: live_def)
  have "lfrozen s' d \<longleftrightarrow> lfrozen s d \<or> (lfreezing s d \<and> tasks_done api s d
     \<and> (\<forall>k \<in> set (kids (ltree s) d). lonline s k \<longrightarrow> all_settled api s k))"
    using read_walk_frozen [OF ok c less.prems(2), of api, folded s'_def] kid d(1) by blast
  also have "\<dots> \<longleftrightarrow> lfreezing s d \<and> all_settled api s d"
    using d frozen_all_settled [OF inv] all_settled_split [OF inv less.prems(1), of api]
    by (auto simp: settled_def)
  finally show ?case .
qed

subsection \<open>A small hierarchy\<close>

text \<open>Three online cgroups in a row, a task in the last, and a kernel that freezes at once.\<close>

definition demo_api :: "(nat \<Rightarrow> bool) task_api" where
  "demo_api = \<lparr>freeze_task = (\<lambda>t k. k(t := True)), thaw_task = (\<lambda>t k. k(t := False)),
     task_freezing = (\<lambda>_ _. True), task_frozen = (\<lambda>t k. k t), freezer_should_skip = (\<lambda>_ _. False)\<rparr>"

definition demo_freezer :: "(nat \<Rightarrow> bool) lfreezer" where
  "demo_freezer = \<lparr>ltree = \<lparr>tpar = [1 \<mapsto> 0, 2 \<mapsto> 1], tcss = [0, 1, 2], released = (\<lambda>_. False)\<rparr>,
     lstate = (\<lambda>c. if c \<le> 2 then CGROUP_FREEZER_ONLINE else 0), dying = (\<lambda>_. False),
     system_freezing_cnt = 0, ctasks = (\<lambda>c. if c = 2 then [5] else []), lkern = (\<lambda>_. False)\<rparr>"

lemma demo_flags:
  "lonline demo_freezer c \<longleftrightarrow> c \<le> 2" "\<not> lfreezing demo_freezer c" "\<not> lfrozen demo_freezer c"
  "\<not> has (lstate demo_freezer c) CGROUP_FREEZING_SELF" "\<not> has (lstate demo_freezer c) CGROUP_FREEZING_PARENT"
  by (auto simp: demo_freezer_def has_flags has_FREEZING bit_flags)

lemma demo_freezer_inv: "lf_inv demo_freezer"
proof (rule lf_invI)
  show "css_tree_ok (ltree demo_freezer)"
    by (auto simp: demo_freezer_def css_tree_ok_def tree_ok_def split: if_splits)
  show "lstate demo_freezer c = 0" if "\<not> lonline demo_freezer c \<or> c \<notin> set (tcss (ltree demo_freezer))" for c
    using that unfolding demo_flags by (auto simp: demo_freezer_def)
  show "lonline demo_freezer p" if "tpar (ltree demo_freezer) c = Some p" for c p
    using that unfolding demo_flags by (auto simp: demo_freezer_def split: if_splits)
  show "cnt_ok demo_freezer" by (simp add: cnt_ok_def demo_flags) (simp add: demo_freezer_def)
qed (simp_all add: demo_flags, simp add: demo_freezer_def)

lemma demo_live: "live demo_freezer c \<longleftrightarrow> c \<le> 2"
  by (auto simp: live_def demo_flags) (auto simp: demo_freezer_def)

lemma demo_ancestors: "ancestors (tpar (ltree demo_freezer)) 2 = [1, 0]"
  by (simp add: demo_freezer_def ancestors_Some)

lemma demo_change:
  "ltree (freezer_change_state demo_api 1 True demo_freezer) = ltree demo_freezer"
  "dying (freezer_change_state demo_api 1 True demo_freezer) = dying demo_freezer"
  "ctasks (freezer_change_state demo_api 1 True demo_freezer) = ctasks demo_freezer"
proof -
  have "1 \<in> set (tcss (ltree demo_freezer))" by (simp add: demo_freezer_def)
  note c = change_state_lstate(4-6) [OF lf_invD(1) [OF demo_freezer_inv] this, of demo_api True]
  show "ltree (freezer_change_state demo_api 1 True demo_freezer) = ltree demo_freezer"
    "dying (freezer_change_state demo_api 1 True demo_freezer) = dying demo_freezer"
    "ctasks (freezer_change_state demo_api 1 True demo_freezer) = ctasks demo_freezer"
    by (fact c)+
qed

subsection \<open>Properties\<close>

text \<open>C8: after any history of the hierarchy, a live cgroup has its parent-freezing flag set exactly
  when the self-freezing flag of one of its ancestors is set, and the system-wide counter that
  enables the freezer's slow path is the number of freezing cgroups.\<close>

theorem legacy_freezing_exact:
  assumes "(lf_step api)\<^sup>*\<^sup>* s0 s" and "lf_inv s0" and "live s c"
  shows "(freezer_parent_freezing_read c s = 1 \<longleftrightarrow>
      (\<exists>a \<in> set (ancestors (tpar (ltree s)) c). freezer_self_freezing_read a s = 1))
    \<and> system_freezing_cnt s = int (card {d \<in> set (tcss (ltree s)). cgroup_freezing d s})"
proof -
  have inv: "lf_inv s" using assms(1,2) by (rule legacy.reachable_inv)
  then show ?thesis
    using freezing_by_ancestors [OF inv assms(3)] lf_invD(8) [OF inv]
    by (simp add: freezer_parent_freezing_read_def freezer_self_freezing_read_def cnt_ok_def cgroup_freezing_def)
qed

theorem legacy_freezing_exact_witness:
  "freezer_parent_freezing_read 2 (freezer_change_state demo_api 1 True demo_freezer) = 1"
proof -
  let ?s = "freezer_change_state demo_api 1 True demo_freezer"
  have l: "live demo_freezer 1" by (simp add: demo_live)
  note fl = change_state_flags [OF demo_freezer_inv l, where api = demo_api and fr = True]
  have w: "freezer_write demo_api 1 ''FROZEN'' 6 demo_freezer = (6, ?s)"
    by (simp add: freezer_write_def strstrip_def isspace_def freezer_state_strs_def has_flags has_FREEZING
        bit_flags)
  have "lf_step demo_api demo_freezer ?s" by (rule lf_step.write_state [OF l w])
  moreover have "live ?s 2" using fl(3) by (simp add: demo_live)
  moreover note demo_change(1)
  moreover have "freezer_self_freezing_read 1 ?s = 1"
    using fl(2) [of 1] by (simp add: freezer_self_freezing_read_def)
  ultimately show ?thesis
    using legacy_freezing_exact [OF r_into_rtranclp, of demo_api demo_freezer ?s 2] demo_freezer_inv demo_ancestors
    by auto
qed

text \<open>C28: a write to \<open>freezer.state\<close> of a live cgroup takes \<open>FROZEN\<close> or \<open>THAWED\<close>, with white space
  around it, and refuses anything else without a change.  It sets or clears the self-freezing flag
  of this cgroup and of no other; afterwards every live cgroup is freezing exactly when it or an
  ancestor has that flag, and it counts as frozen exactly when it did before and is still
  freezing.\<close>

theorem legacy_freezer_write:
  assumes inv: "lf_inv s" and c: "live s c"
  shows "\<exists>s'. freezer_write api c buf n s =
      (if strstrip buf \<in> {''FROZEN'', ''THAWED''} then (n, s') else (- EINVAL, s))
    \<and> (\<forall>d. freezer_self_freezing_read d s' =
        (if d = c then if strstrip buf = ''FROZEN'' then 1 else 0 else freezer_self_freezing_read d s))
    \<and> (\<forall>d. live s d \<longrightarrow>
        (cgroup_freezing d s' \<longleftrightarrow> (\<exists>a \<in> set (d # ancestors (tpar (ltree s)) d). freezer_self_freezing_read a s' = 1))
        \<and> (freezer_state_strs (lstate s' d) = ''FROZEN'' \<longleftrightarrow>
            freezer_state_strs (lstate s d) = ''FROZEN'' \<and> cgroup_freezing d s'))"
proof -
  let ?fr = "strstrip buf = ''FROZEN''"
  let ?s' = "freezer_change_state api c ?fr s"
  have c': "c \<in> set (tcss (ltree s))" using c by (simp add: live_def)
  note fl = change_state_flags [OF inv c, where api = api and fr = ?fr]
  have inv': "lf_inv ?s'" by (rule change_state_inv [OF inv c])
  have tree: "ltree ?s' = ltree s" by (rule change_state_lstate(4) [OF lf_invD(1) [OF inv] c'])
  have strs: "freezer_state_strs 0 = ''THAWED''" "freezer_state_strs CGROUP_FROZEN = ''FROZEN''"
    and str_frozen: "freezer_state_strs w = ''FROZEN'' \<longleftrightarrow> has w CGROUP_FROZEN" for w
    by (simp_all add: freezer_state_strs_def has_0 has_flags bit_flags)
  show ?thesis
  proof (intro exI [of _ ?s'] conjI allI impI)
    show "freezer_write api c buf n s = (if strstrip buf \<in> {''FROZEN'', ''THAWED''} then (n, ?s') else (- EINVAL, s))"
      by (simp add: freezer_write_def strs)
    show "freezer_self_freezing_read d ?s' =
        (if d = c then if ?fr then 1 else 0 else freezer_self_freezing_read d s)" for d
      using fl(2) [of d] by (simp add: freezer_self_freezing_read_def)
    fix d assume d: "live s d"
    then have "live ?s' d" using fl(3) by simp
    then show "cgroup_freezing d ?s' \<longleftrightarrow>
        (\<exists>a \<in> set (d # ancestors (tpar (ltree s)) d). freezer_self_freezing_read a ?s' = 1)"
      using freezing_by_self [OF inv'] by (simp add: cgroup_freezing_def freezer_self_freezing_read_def tree)
    show "freezer_state_strs (lstate ?s' d) = ''FROZEN'' \<longleftrightarrow>
        freezer_state_strs (lstate s d) = ''FROZEN'' \<and> cgroup_freezing d ?s'"
      unfolding str_frozen cgroup_freezing_def using fl(5,6) [of d] d by blast
  qed
qed

theorem legacy_freezer_write_witness:
  "\<exists>s'. freezer_write demo_api 1 ''FROZEN'' 6 demo_freezer = (6, s') \<and> cgroup_freezing 2 s'"
proof -
  have l: "live demo_freezer 1" "live demo_freezer 2" by (simp_all add: demo_live)
  have strip: "strstrip ''FROZEN'' = ''FROZEN''" by (simp add: strstrip_def isspace_def)
  from legacy_freezer_write [OF demo_freezer_inv l(1), of demo_api "''FROZEN''" 6] obtain s' where
    s': "freezer_write demo_api 1 ''FROZEN'' 6 demo_freezer = (6, s')" "freezer_self_freezing_read 1 s' = 1"
      "cgroup_freezing 2 s' \<longleftrightarrow> (\<exists>a \<in> set (2 # ancestors (tpar (ltree demo_freezer)) 2). freezer_self_freezing_read a s' = 1)"
    unfolding strip using l(2) by auto
  then show ?thesis by (auto simp: demo_ancestors)
qed

text \<open>A read of \<open>freezer.state\<close> tells the truth about the subtree: it says \<open>FROZEN\<close> exactly when
  the cgroup is freezing and no online cgroup below blocks, each being marked frozen already or
  having, if it is not being removed, only tasks that are frozen or to be skipped; it says
  \<open>FREEZING\<close> for any other freezing cgroup and \<open>THAWED\<close> else, and the read itself starts or stops no
  freezing.\<close>

theorem legacy_freezer_read:
  assumes inv: "lf_inv s" and c: "live s c"
  shows "\<exists>s'. freezer_read api c s =
      ((if cgroup_freezing c s then if all_settled api s c then ''FROZEN'' else ''FREEZING'' else ''THAWED'')
        @ [CHR 0x0A], s')
    \<and> (\<forall>d. cgroup_freezing d s' \<longleftrightarrow> cgroup_freezing d s)"
proof -
  let ?s' = "fold (read_step api) (post_order (ltree s) c) s"
  have c': "c \<in> set (tcss (ltree s))" using c by (simp add: live_def)
  have "in_subtree (ltree s) c c" using c' by (simp add: in_subtree_def)
  note frozen = read_walk_ok [OF inv c' c this, of api]
  have freezing: "lfreezing ?s' d \<longleftrightarrow> lfreezing s d" for d by (rule read_fold_flags) simp
  have "freezer_read api c s = (freezer_state_strs (lstate ?s' c) @ [CHR 0x0A], ?s')"
    using lf_invD(1) [OF inv] c' by (simp add: freezer_read_def Let_def)
  then show ?thesis
    using frozen freezing by (auto simp: freezer_state_strs_def cgroup_freezing_def)
qed

theorem legacy_freezer_read_witness:
  "fst (freezer_read demo_api 1 (freezer_change_state demo_api 1 True demo_freezer)) = ''FROZEN'' @ [CHR 0x0A]"
proof -
  let ?s = "freezer_change_state demo_api 1 True demo_freezer"
  have l: "live demo_freezer 1" by (simp add: demo_live)
  note fl = change_state_flags [OF demo_freezer_inv l, where api = demo_api and fr = True]
  have inv: "lf_inv ?s" "live ?s 1" using change_state_inv [OF demo_freezer_inv l] fl(3) l by simp_all
  have "lfreezing ?s 1" using fl(2) [of 1] by (simp add: has_FREEZING_split)
  moreover have "all_settled demo_api ?s 1"
  proof -
    have "lkern ?s 5" by code_simp
    then have "tasks_done demo_api ?s e" for e
      unfolding tasks_done_def demo_change by (auto simp: demo_api_def demo_freezer_def)
    moreover have "\<not> dying ?s e" for e unfolding demo_change by (simp add: demo_freezer_def)
    ultimately show ?thesis by (simp add: all_settled_def settled_def)
  qed
  ultimately show ?thesis
    using legacy_freezer_read [OF inv, of demo_api] by (auto simp: cgroup_freezing_def)
qed

end
