(* ===== verification/Freezer.thy ===== *)
theory Freezer
  imports CssWalk
begin

section \<open>The freezer of the default hierarchy\<close>

text \<open>
  \<open>cgroup/freezer.c\<close> with the parts of \<open>cgroup/cgroup.c\<close> that keep its counters: creation and
  destruction of cgroups, migration, fork and exit of tasks, and the interface files around them.
  The state holds the cgroups and the tasks that are linked to them; \<open>dead\<close> is the negation of
  \<open>CSS_ONLINE\<close> in \<open>cgrp->self.flags\<close>.  The locks make every operation one step.
\<close>

definition ERANGE :: int where "ERANGE = 34"

record cgrp =
  CGRP_FREEZE :: bool
  CGRP_FROZEN :: bool
  freeze :: bool
  e_freeze :: int
  nr_frozen_descendants :: int
  nr_frozen_tasks :: int
  nr_descendants :: int
  nr_dying_descendants :: int
  max_descendants :: int
  max_depth :: int

text \<open>\<open>sighand\<close> tells whether \<open>lock_task_sighand\<close> succeeds, \<open>kthread\<close> is \<open>PF_KTHREAD\<close>.\<close>

record task =
  tcgrp :: nat
  frozen :: bool
  trap_freeze :: bool
  sigpending :: bool
  kthread :: bool
  sighand :: bool

text \<open>\<open>notified\<close> records the calls of \<open>cgroup_file_notify\<close>, the last one first.\<close>

record fz =
  ztree :: css_tree
  dead :: "nat \<Rightarrow> bool"
  cgrps :: "nat \<Rightarrow> cgrp"
  linked :: "nat list"
  tasks :: "nat \<Rightarrow> task"
  notified :: "nat list"
  warned_once :: bool

definition upd_cgrp :: "nat \<Rightarrow> (cgrp \<Rightarrow> cgrp) \<Rightarrow> fz \<Rightarrow> fz" where
  "upd_cgrp c f s = s\<lparr>cgrps := (cgrps s)(c := f (cgrps s c))\<rparr>"

definition upd_task :: "nat \<Rightarrow> (task \<Rightarrow> task) \<Rightarrow> fz \<Rightarrow> fz" where
  "upd_task t f s = s\<lparr>tasks := (tasks s)(t := f (tasks s t))\<rparr>"

definition cgroup_file_notify :: "nat \<Rightarrow> fz \<Rightarrow> fz" where
  "cgroup_file_notify c s = s\<lparr>notified := c # notified s\<rparr>"

definition WARN_ON_ONCE :: "bool \<Rightarrow> fz \<Rightarrow> fz" where
  "WARN_ON_ONCE b s = s\<lparr>warned_once := (warned_once s \<or> b)\<rparr>"

definition cgroup_tasks :: "fz \<Rightarrow> nat \<Rightarrow> nat list" where
  "cgroup_tasks s c = filter (\<lambda>t. tcgrp (tasks s t) = c) (linked s)"

definition cgroup_task_count :: "nat \<Rightarrow> fz \<Rightarrow> int" where
  "cgroup_task_count c s = int (length (cgroup_tasks s c))"

text \<open>A cgroup is populated when a task is linked in its subtree.\<close>

definition cgroup_is_populated :: "nat \<Rightarrow> fz \<Rightarrow> bool" where
  "cgroup_is_populated c s \<longleftrightarrow> (\<exists>t \<in> set (linked s). in_subtree (ztree s) c (tcgrp (tasks s t)))"

subsection \<open>Frozen cgroups\<close>

text \<open>The loop over the ancestors, given as a list, with the number of cgroups that changed so far.\<close>

fun propagate :: "bool \<Rightarrow> int \<Rightarrow> nat list \<Rightarrow> fz \<Rightarrow> fz" where
  "propagate fr desc [] s = s"
| "propagate fr desc (p # ps) s =
     (if fr then
        let s = upd_cgrp p (\<lambda>c. c\<lparr>nr_frozen_descendants := nr_frozen_descendants c + desc\<rparr>) s in
        if \<not> CGRP_FROZEN (cgrps s p) \<and> CGRP_FREEZE (cgrps s p)
           \<and> nr_frozen_descendants (cgrps s p) = nr_descendants (cgrps s p)
        then propagate fr (desc + 1) ps
               (cgroup_file_notify p (upd_cgrp p (\<lambda>c. c\<lparr>CGRP_FROZEN := True\<rparr>) s))
        else propagate fr desc ps s
      else
        let s = upd_cgrp p (\<lambda>c. c\<lparr>nr_frozen_descendants := nr_frozen_descendants c - desc\<rparr>) s in
        if CGRP_FROZEN (cgrps s p)
        then propagate fr (desc + 1) ps
               (cgroup_file_notify p (upd_cgrp p (\<lambda>c. c\<lparr>CGRP_FROZEN := False\<rparr>) s))
        else propagate fr desc ps s)"

definition cgroup_propagate_frozen :: "nat \<Rightarrow> bool \<Rightarrow> fz \<Rightarrow> fz" where
  "cgroup_propagate_frozen c fr s = propagate fr 1 (ancestors (tpar (ztree s)) c) s"

definition cgroup_update_frozen :: "nat \<Rightarrow> fz \<Rightarrow> fz" where
  "cgroup_update_frozen c s =
     (let fr = (CGRP_FREEZE (cgrps s c) \<and> nr_frozen_tasks (cgrps s c) = cgroup_task_count c s) in
      if fr = CGRP_FROZEN (cgrps s c) then s
      else cgroup_propagate_frozen c fr
             (cgroup_file_notify c (upd_cgrp c (\<lambda>c. c\<lparr>CGRP_FROZEN := fr\<rparr>) s)))"

definition cgroup_inc_frozen_cnt :: "nat \<Rightarrow> fz \<Rightarrow> fz" where
  "cgroup_inc_frozen_cnt c s = upd_cgrp c (\<lambda>c. c\<lparr>nr_frozen_tasks := nr_frozen_tasks c + 1\<rparr>) s"

definition cgroup_dec_frozen_cnt :: "nat \<Rightarrow> fz \<Rightarrow> fz" where
  "cgroup_dec_frozen_cnt c s =
     (let s = upd_cgrp c (\<lambda>c. c\<lparr>nr_frozen_tasks := nr_frozen_tasks c - 1\<rparr>) s
      in WARN_ON_ONCE (nr_frozen_tasks (cgrps s c) < 0) s)"

definition cgroup_enter_frozen :: "nat \<Rightarrow> fz \<Rightarrow> fz" where
  "cgroup_enter_frozen current s =
     (if frozen (tasks s current) then s
      else
        let s = upd_task current (\<lambda>t. t\<lparr>frozen := True\<rparr>) s;
            c = tcgrp (tasks s current)
        in cgroup_update_frozen c (cgroup_inc_frozen_cnt c s))"

definition cgroup_leave_frozen :: "bool \<Rightarrow> nat \<Rightarrow> fz \<Rightarrow> fz" where
  "cgroup_leave_frozen always_leave current s =
     (let c = tcgrp (tasks s current) in
      if always_leave \<or> \<not> CGRP_FREEZE (cgrps s c) then
        let s = cgroup_update_frozen c (cgroup_dec_frozen_cnt c s);
            s = WARN_ON_ONCE (\<not> frozen (tasks s current)) s
        in upd_task current (\<lambda>t. t\<lparr>frozen := False\<rparr>) s
      else if \<not> trap_freeze (tasks s current)
        then upd_task current (\<lambda>t. t\<lparr>trap_freeze := True, sigpending := True\<rparr>) s
      else s)"

subsection \<open>Freezing\<close>

definition cgroup_freeze_task :: "nat \<Rightarrow> bool \<Rightarrow> fz \<Rightarrow> fz" where
  "cgroup_freeze_task t b s =
     (if \<not> sighand (tasks s t) then s
      else if b then upd_task t (\<lambda>t. t\<lparr>trap_freeze := True, sigpending := True\<rparr>) s
      else upd_task t (\<lambda>t. t\<lparr>trap_freeze := False\<rparr>) s)"

definition cgroup_do_freeze :: "nat \<Rightarrow> bool \<Rightarrow> fz \<Rightarrow> fz" where
  "cgroup_do_freeze c b s =
     (let s = upd_cgrp c (\<lambda>c. c\<lparr>CGRP_FREEZE := b\<rparr>) s;
          s = fold (\<lambda>t s. if kthread (tasks s t) then s else cgroup_freeze_task t b s) (cgroup_tasks s c) s
      in if nr_descendants (cgrps s c) = nr_frozen_descendants (cgrps s c)
         then cgroup_update_frozen c s else s)"

definition cgroup_freezer_migrate_task :: "nat \<Rightarrow> nat \<Rightarrow> nat \<Rightarrow> fz \<Rightarrow> fz" where
  "cgroup_freezer_migrate_task t src dst s =
     (if kthread (tasks s t) then s
      else if \<not> CGRP_FREEZE (cgrps s src) \<and> \<not> CGRP_FREEZE (cgrps s dst) \<and> \<not> frozen (tasks s t) then s
      else
        let s = (if frozen (tasks s t)
                 then cgroup_dec_frozen_cnt src (cgroup_inc_frozen_cnt dst s) else s);
            s = cgroup_update_frozen src (cgroup_update_frozen dst s)
        in cgroup_freeze_task t (CGRP_FREEZE (cgrps s dst)) s)"

text \<open>One turn of the loop of \<open>cgroup_freeze\<close>; the flag is \<open>applied\<close>.\<close>

definition freeze_turn :: "bool \<Rightarrow> nat \<Rightarrow> bool \<times> fz \<Rightarrow> bool \<times> fz" where
  "freeze_turn b d as =
     (let (applied, s) = as in
      if dead s d then (applied, s)
      else if b then
        let s = upd_cgrp d (\<lambda>c. c\<lparr>e_freeze := e_freeze c + 1\<rparr>) s in
        if e_freeze (cgrps s d) > 1 then (applied, s) else (True, cgroup_do_freeze d b s)
      else
        let s = upd_cgrp d (\<lambda>c. c\<lparr>e_freeze := e_freeze c - 1\<rparr>) s in
        if e_freeze (cgrps s d) > 0 then (applied, s)
        else (True, cgroup_do_freeze d b (WARN_ON_ONCE (e_freeze (cgrps s d) < 0) s)))"

definition cgroup_freeze :: "nat \<Rightarrow> bool \<Rightarrow> fz \<Rightarrow> fz" where
  "cgroup_freeze c b s =
     (if freeze (cgrps s c) = b then s
      else
        let s = upd_cgrp c (\<lambda>c. c\<lparr>freeze := b\<rparr>) s;
            (applied, s) = fold (freeze_turn b) (css_for_each_descendant_pre (ztree s) c) (False, s)
        in if \<not> applied then cgroup_file_notify c s else s)"

text \<open>\<open>kstrtoint\<close> is a function of the kernel's library; a dead cgroup is not found.\<close>

definition cgroup_freeze_write :: "(string \<Rightarrow> int + int) \<Rightarrow> nat \<Rightarrow> string \<Rightarrow> int \<Rightarrow> fz \<Rightarrow> int \<times> fz" where
  "cgroup_freeze_write kstrtoint c buf nbytes s =
     (case kstrtoint (strstrip buf) of Inl err \<Rightarrow> (err, s)
      | Inr v \<Rightarrow>
          if v < 0 \<or> v > 1 then (- ERANGE, s)
          else if dead s c then (- ENOENT, s)
          else (nbytes, cgroup_freeze c (v \<noteq> 0) s))"

definition cgroup_freeze_show :: "nat \<Rightarrow> fz \<Rightarrow> string" where
  "cgroup_freeze_show c s = show_int (if freeze (cgrps s c) then 1 else 0) @ [CHR 0x0A]"

subsection \<open>Tasks\<close>

text \<open>The commit loop of a migration, for one task.\<close>

definition cgroup_migrate_one :: "nat \<Rightarrow> nat \<Rightarrow> fz \<Rightarrow> fz" where
  "cgroup_migrate_one t dst s =
     (let src = tcgrp (tasks s t);
          s = upd_task t (\<lambda>t. t\<lparr>tcgrp := dst\<rparr>) s
      in cgroup_freezer_migrate_task t src dst s)"

definition cgroup_task_freeze :: "nat \<Rightarrow> fz \<Rightarrow> bool" where
  "cgroup_task_freeze t s \<longleftrightarrow> \<not> kthread (tasks s t) \<and> CGRP_FREEZE (cgrps s (tcgrp (tasks s t)))"

definition cgroup_post_fork :: "nat \<Rightarrow> nat \<Rightarrow> fz \<Rightarrow> fz" where
  "cgroup_post_fork current child s =
     (let c = tcgrp (tasks s current);
          s = (if child \<in> set (linked s) then s
               else upd_task child (\<lambda>t. t\<lparr>tcgrp := c\<rparr>) (s\<lparr>linked := linked s @ [child]\<rparr>))
      in if cgroup_task_freeze child s
         then upd_task child (\<lambda>t. t\<lparr>trap_freeze := True\<rparr>)
                (WARN_ON_ONCE (frozen (tasks s child)) s)
         else s)"

definition cgroup_exit :: "nat \<Rightarrow> fz \<Rightarrow> fz" where
  "cgroup_exit t s =
     (if t \<notin> set (linked s) then s
      else
        let s = s\<lparr>linked := filter (\<lambda>u. u \<noteq> t) (linked s)\<rparr>;
            s = WARN_ON_ONCE (frozen (tasks s t)) s
        in if cgroup_task_freeze t s then cgroup_update_frozen (tcgrp (tasks s t)) s else s)"

subsection \<open>Creation and destruction\<close>

text \<open>The limits of the parent and of its ancestors, with the level that grows on the way up.\<close>

fun check_limits :: "int \<Rightarrow> nat list \<Rightarrow> fz \<Rightarrow> bool" where
  "check_limits level [] s \<longleftrightarrow> True"
| "check_limits level (c # cs) s \<longleftrightarrow>
     \<not> nr_descendants (cgrps s c) \<ge> max_descendants (cgrps s c)
     \<and> \<not> level > max_depth (cgrps s c) \<and> check_limits (level + 1) cs s"

definition cgroup_check_hierarchy_limits :: "nat \<Rightarrow> fz \<Rightarrow> bool" where
  "cgroup_check_hierarchy_limits parent s =
     check_limits 1 (parent # ancestors (tpar (ztree s)) parent) s"

definition new_cgrp :: "int \<Rightarrow> cgrp" where
  "new_cgrp e = \<lparr>CGRP_FREEZE = (e \<noteq> 0), CGRP_FROZEN = (e \<noteq> 0), freeze = False, e_freeze = e,
     nr_frozen_descendants = 0, nr_frozen_tasks = 0, nr_descendants = 0, nr_dying_descendants = 0,
     max_descendants = INT_MAX, max_depth = INT_MAX\<rparr>"

text \<open>\<open>err\<close> is what the allocations before the accounting end in, 0 when they succeed; the new
  cgroup has the next serial number.\<close>

definition cgroup_create :: "int \<Rightarrow> nat \<Rightarrow> nat \<Rightarrow> fz \<Rightarrow> int \<times> fz" where
  "cgroup_create err c parent s =
     (if err \<noteq> 0 then (err, s)
      else
        let e = e_freeze (cgrps s parent);
            s = s\<lparr>ztree := (ztree s)\<lparr>tpar := (tpar (ztree s))(c \<mapsto> parent), tcss := tcss (ztree s) @ [c]\<rparr>,
                  dead := (dead s)(c := False), cgrps := (cgrps s)(c := new_cgrp e)\<rparr>
        in (0, fold (\<lambda>p s. upd_cgrp p (\<lambda>g. g\<lparr>nr_descendants := nr_descendants g + 1,
               nr_frozen_descendants := nr_frozen_descendants g + (if e \<noteq> 0 then 1 else 0)\<rparr>) s)
             (ancestors (tpar (ztree s)) c) s))"

definition cgroup_destroy_locked :: "nat \<Rightarrow> fz \<Rightarrow> int \<times> fz" where
  "cgroup_destroy_locked c s =
     (if cgroup_is_populated c s then (- EBUSY, s)
      else if \<exists>d \<in> set (kids (ztree s) c). \<not> dead s d then (- EBUSY, s)
      else
        let fr = CGRP_FROZEN (cgrps s c);
            s = s\<lparr>dead := (dead s)(c := True)\<rparr>
        in (0, fold (\<lambda>p s. upd_cgrp p (\<lambda>g. g\<lparr>nr_descendants := nr_descendants g - 1,
               nr_dying_descendants := nr_dying_descendants g + 1,
               nr_frozen_descendants := nr_frozen_descendants g - (if fr then 1 else 0)\<rparr>) s)
             (ancestors (tpar (ztree s)) c) s))"

text \<open>\<open>setup\<close> is the outcome of the steps that fill the directory; a failure there destroys the
  cgroup again.\<close>

definition cgroup_mkdir :: "string \<Rightarrow> int \<Rightarrow> int \<Rightarrow> nat \<Rightarrow> nat \<Rightarrow> fz \<Rightarrow> int \<times> fz" where
  "cgroup_mkdir name err setup c parent s =
     (if CHR 0x0A \<in> set name then (- EINVAL, s)
      else if dead s parent then (- ENODEV, s)
      else if \<not> cgroup_check_hierarchy_limits parent s then (- EAGAIN, s)
      else
        let (ret, s) = cgroup_create err c parent s in
        if ret \<noteq> 0 then (ret, s)
        else if setup \<noteq> 0 then (setup, snd (cgroup_destroy_locked c s))
        else (0, s))"

definition cgroup_rmdir :: "nat \<Rightarrow> fz \<Rightarrow> int \<times> fz" where
  "cgroup_rmdir c s = (if dead s c then (0, s) else cgroup_destroy_locked c s)"

subsection \<open>Files\<close>

definition cgroup_limit_write :: "((int \<Rightarrow> int) \<Rightarrow> cgrp \<Rightarrow> cgrp) \<Rightarrow> (string \<Rightarrow> int + int)
    \<Rightarrow> nat \<Rightarrow> string \<Rightarrow> int \<Rightarrow> fz \<Rightarrow> int \<times> fz" where
  "cgroup_limit_write upd kstrtoint c buf nbytes s =
     (let buf = strstrip buf in
      case (if buf = ''max'' then Inr INT_MAX else kstrtoint buf) of
        Inl err \<Rightarrow> (err, s)
      | Inr v \<Rightarrow>
          if v < 0 then (- ERANGE, s)
          else if dead s c then (- ENOENT, s)
          else (nbytes, upd_cgrp c (upd (\<lambda>_. v)) s))"

definition cgroup_max_descendants_write :: "(string \<Rightarrow> int + int) \<Rightarrow> nat \<Rightarrow> string \<Rightarrow> int \<Rightarrow> fz \<Rightarrow> int \<times> fz" where
  "cgroup_max_descendants_write = cgroup_limit_write max_descendants_update"

definition cgroup_max_depth_write :: "(string \<Rightarrow> int + int) \<Rightarrow> nat \<Rightarrow> string \<Rightarrow> int \<Rightarrow> fz \<Rightarrow> int \<times> fz" where
  "cgroup_max_depth_write = cgroup_limit_write max_depth_update"

definition limit_show :: "int \<Rightarrow> string" where
  "limit_show v = (if v = INT_MAX then ''max'' else show_int v) @ [CHR 0x0A]"

definition cgroup_max_descendants_show :: "nat \<Rightarrow> fz \<Rightarrow> string" where
  "cgroup_max_descendants_show c s = limit_show (max_descendants (cgrps s c))"

definition cgroup_max_depth_show :: "nat \<Rightarrow> fz \<Rightarrow> string" where
  "cgroup_max_depth_show c s = limit_show (max_depth (cgrps s c))"

definition cgroup_stat_show :: "nat \<Rightarrow> fz \<Rightarrow> string" where
  "cgroup_stat_show c s = ''nr_descendants '' @ show_int (nr_descendants (cgrps s c)) @ [CHR 0x0A]
     @ ''nr_dying_descendants '' @ show_int (nr_dying_descendants (cgrps s c)) @ [CHR 0x0A]"

definition cgroup_events_show :: "nat \<Rightarrow> fz \<Rightarrow> string" where
  "cgroup_events_show c s =
     ''populated '' @ show_int (if cgroup_is_populated c s then 1 else 0) @ [CHR 0x0A]
     @ ''frozen '' @ show_int (if CGRP_FROZEN (cgrps s c) then 1 else 0) @ [CHR 0x0A]"

end
