(* ===== verification/Freezer_Correct.thy ===== *)
theory Freezer_Correct
  imports Freezer
begin

section \<open>The freezer's counters are exact\<close>

text \<open>
  Through every creation and destruction of cgroups, every migration, fork and exit, and every
  change of \<open>cgroup.freeze\<close>: a cgroup counts its frozen descendants, its descendants and its frozen
  tasks exactly, and has to freeze exactly when it or an ancestor is set to freeze.
\<close>

subsection \<open>Updates\<close>

lemma upd_cgrp_simps [simp]:
  "cgrps (upd_cgrp c f s) d = (if d = c then f (cgrps s c) else cgrps s d)" "ztree (upd_cgrp c f s) = ztree s"
  "dead (upd_cgrp c f s) = dead s" "linked (upd_cgrp c f s) = linked s" "tasks (upd_cgrp c f s) = tasks s"
  "warned_once (upd_cgrp c f s) = warned_once s" "notified (upd_cgrp c f s) = notified s"
  by (simp_all add: upd_cgrp_def)

lemma upd_task_simps [simp]:
  "tasks (upd_task t f s) u = (if u = t then f (tasks s t) else tasks s u)" "ztree (upd_task t f s) = ztree s"
  "dead (upd_task t f s) = dead s" "linked (upd_task t f s) = linked s" "cgrps (upd_task t f s) = cgrps s"
  "warned_once (upd_task t f s) = warned_once s" "notified (upd_task t f s) = notified s"
  by (simp_all add: upd_task_def)

lemma notify_simps [simp]:
  "cgrps (cgroup_file_notify c s) = cgrps s" "ztree (cgroup_file_notify c s) = ztree s"
  "dead (cgroup_file_notify c s) = dead s" "linked (cgroup_file_notify c s) = linked s"
  "tasks (cgroup_file_notify c s) = tasks s" "warned_once (cgroup_file_notify c s) = warned_once s"
  by (simp_all add: cgroup_file_notify_def)

lemma warn_simps [simp]:
  "cgrps (WARN_ON_ONCE b s) = cgrps s" "ztree (WARN_ON_ONCE b s) = ztree s" "dead (WARN_ON_ONCE b s) = dead s"
  "linked (WARN_ON_ONCE b s) = linked s" "tasks (WARN_ON_ONCE b s) = tasks s"
  "warned_once (WARN_ON_ONCE b s) \<longleftrightarrow> warned_once s \<or> b"
  by (simp_all add: WARN_ON_ONCE_def)

text \<open>Updates that change only which cgroups are frozen and the counters of that.\<close>

definition core :: "cgrp \<Rightarrow> bool \<times> bool \<times> int \<times> int \<times> int \<times> int \<times> int \<times> int" where
  "core g = (CGRP_FREEZE g, freeze g, e_freeze g, nr_frozen_tasks g, nr_descendants g,
     nr_dying_descendants g, max_descendants g, max_depth g)"

lemma coreD:
  assumes "core g = core h"
  shows "CGRP_FREEZE g = CGRP_FREEZE h" "freeze g = freeze h" "e_freeze g = e_freeze h"
    "nr_frozen_tasks g = nr_frozen_tasks h" "nr_descendants g = nr_descendants h"
    "nr_dying_descendants g = nr_dying_descendants h" "max_descendants g = max_descendants h"
    "max_depth g = max_depth h"
  using assms by (simp_all add: core_def)

lemma core_simps [simp]:
  "core (g\<lparr>CGRP_FROZEN := b\<rparr>) = core g" "core (g\<lparr>nr_frozen_descendants := n\<rparr>) = core g"
  by (simp_all add: core_def)

definition same_but_frozen :: "fz \<Rightarrow> fz \<Rightarrow> bool" where
  "same_but_frozen s s' \<longleftrightarrow> ztree s' = ztree s \<and> dead s' = dead s \<and> linked s' = linked s \<and> tasks s' = tasks s
     \<and> warned_once s' = warned_once s \<and> (\<forall>c. core (cgrps s' c) = core (cgrps s c))"

lemma same_but_frozenD:
  assumes "same_but_frozen s s'"
  shows "ztree s' = ztree s" "dead s' = dead s" "linked s' = linked s" "tasks s' = tasks s"
    "warned_once s' = warned_once s" "core (cgrps s' c) = core (cgrps s c)"
  using assms by (simp_all add: same_but_frozen_def)

lemma same_but_frozen_trans:
  "same_but_frozen s s1 \<Longrightarrow> same_but_frozen s1 s2 \<Longrightarrow> same_but_frozen s s2"
  by (simp add: same_but_frozen_def)

lemma propagate_same: "same_but_frozen s (propagate fr desc ps s)"
proof (induction ps arbitrary: desc s)
  case Nil
  then show ?case by (simp add: same_but_frozen_def)
next
  case (Cons p ps)
  have "same_but_frozen s s1 \<Longrightarrow> same_but_frozen s (propagate fr d ps s1)" for s1 d
    using Cons same_but_frozen_trans by blast
  then show ?case by (auto simp: Let_def same_but_frozen_def)
qed

lemma update_frozen_same: "same_but_frozen s (cgroup_update_frozen c s)"
proof -
  have "same_but_frozen s (cgroup_file_notify c (upd_cgrp c (\<lambda>g. g\<lparr>CGRP_FROZEN := b\<rparr>) s))" for b
    by (simp add: same_but_frozen_def)
  then have "same_but_frozen s (cgroup_propagate_frozen c b
      (cgroup_file_notify c (upd_cgrp c (\<lambda>g. g\<lparr>CGRP_FROZEN := b\<rparr>) s)))" for b
    unfolding cgroup_propagate_frozen_def using propagate_same same_but_frozen_trans by blast
  then show ?thesis by (simp add: cgroup_update_frozen_def Let_def same_but_frozen_def)
qed

lemmas update_frozen_frame [simp] = same_but_frozenD(1-5) [OF update_frozen_same]
lemmas update_frozen_fields [simp] = coreD [OF same_but_frozenD(6) [OF update_frozen_same]]

subsection \<open>Counting frozen descendants\<close>

definition below :: "fz \<Rightarrow> nat \<Rightarrow> nat set" where
  "below s c = {d \<in> set (tcss (ztree s)). \<not> dead s d \<and> c \<in> set (ancestors (tpar (ztree s)) d)}"

definition frozen_below :: "fz \<Rightarrow> nat \<Rightarrow> nat set" where
  "frozen_below s c = {d \<in> below s c. CGRP_FROZEN (cgrps s d)}"

text \<open>The counters are right up to an offset.\<close>

definition nfd_off :: "(nat \<Rightarrow> int) \<Rightarrow> fz \<Rightarrow> bool" where
  "nfd_off f s \<longleftrightarrow> (\<forall>c \<in> set (tcss (ztree s)).
     nr_frozen_descendants (cgrps s c) = int (card (frozen_below s c)) + f c)"

definition shape_ok :: "fz \<Rightarrow> bool" where
  "shape_ok s \<longleftrightarrow> css_tree_ok (ztree s) \<and> (\<forall>c \<in> set (tcss (ztree s)). \<forall>p.
     \<not> dead s c \<longrightarrow> tpar (ztree s) c = Some p \<longrightarrow> \<not> dead s p)"

definition alive :: "fz \<Rightarrow> nat \<Rightarrow> bool" where
  "alive s c \<longleftrightarrow> c \<in> set (tcss (ztree s)) \<and> \<not> dead s c"

lemma alive_parent: "shape_ok s \<Longrightarrow> alive s c \<Longrightarrow> tpar (ztree s) c = Some p \<Longrightarrow> alive s p"
  by (auto simp: shape_ok_def alive_def css_tree_ok_def)

lemma finite_below [simp]: "finite (below s c)" "finite (frozen_below s c)"
  by (simp_all add: below_def frozen_below_def)

lemma shape_cong: "ztree s' = ztree s \<Longrightarrow> dead s' = dead s \<Longrightarrow>
    shape_ok s' = shape_ok s \<and> alive s' = alive s \<and> below s' = below s"
  by (simp add: shape_ok_def alive_def below_def fun_eq_iff)

lemma shape_upd [simp]:
  "shape_ok (upd_cgrp c f s) = shape_ok s" "alive (upd_cgrp c f s) = alive s" "below (upd_cgrp c f s) = below s"
  "shape_ok (upd_task t h s) = shape_ok s" "alive (upd_task t h s) = alive s" "below (upd_task t h s) = below s"
  "shape_ok (cgroup_file_notify c s) = shape_ok s" "alive (cgroup_file_notify c s) = alive s"
  "below (cgroup_file_notify c s) = below s" "shape_ok (WARN_ON_ONCE b s) = shape_ok s"
  "alive (WARN_ON_ONCE b s) = alive s" "below (WARN_ON_ONCE b s) = below s"
  "shape_ok (cgroup_update_frozen c s) = shape_ok s" "alive (cgroup_update_frozen c s) = alive s"
  "below (cgroup_update_frozen c s) = below s"
  by (simp_all add: shape_ok_def alive_def [abs_def] below_def [abs_def])

lemma frozen_below_toggle:
  assumes "alive s p" and "CGRP_FROZEN (cgrps s p) \<noteq> b"
  shows "int (card (frozen_below (upd_cgrp p (\<lambda>g. g\<lparr>CGRP_FROZEN := b\<rparr>) s) c)) = int (card (frozen_below s c))
    + (if c \<in> set (ancestors (tpar (ztree s)) p) then if b then 1 else -1 else 0)"
proof -
  let ?s' = "upd_cgrp p (\<lambda>g. g\<lparr>CGRP_FROZEN := b\<rparr>) s"
  have below: "below ?s' = below s" by simp
  have p: "p \<in> below s c \<longleftrightarrow> c \<in> set (ancestors (tpar (ztree s)) p)"
    using assms(1) by (auto simp: below_def alive_def)
  show ?thesis
  proof (cases "p \<in> below s c")
    case False
    then have "frozen_below ?s' c = frozen_below s c" by (auto simp: frozen_below_def below)
    with False p show ?thesis by simp
  next
    case True
    show ?thesis
    proof (cases b)
      case True
      with \<open>p \<in> below s c\<close> have "frozen_below ?s' c = insert p (frozen_below s c)" "p \<notin> frozen_below s c"
        using assms(2) by (auto simp: frozen_below_def below)
      with True p \<open>p \<in> below s c\<close> show ?thesis by simp
    next
      case False
      with \<open>p \<in> below s c\<close> have "frozen_below s c = insert p (frozen_below ?s' c)" "p \<notin> frozen_below ?s' c"
        using assms(2) by (auto simp: frozen_below_def below)
      with False p \<open>p \<in> below s c\<close> show ?thesis by simp
    qed
  qed
qed

text \<open>The offset the loop over the ancestors of \<open>x\<close> is about to correct.\<close>

definition path_off :: "tree \<Rightarrow> nat \<Rightarrow> int \<Rightarrow> nat \<Rightarrow> int" where
  "path_off par x n c = (if c \<in> set (ancestors par x) then n else 0)"

abbreviation delta :: "bool \<Rightarrow> int \<Rightarrow> int" where
  "delta fr n \<equiv> if fr then n else - n"

lemma nfd_toggle:
  assumes "alive s p" and "CGRP_FROZEN (cgrps s p) \<noteq> b"
    and "nfd_off (path_off (tpar (ztree s)) p (delta b (- n))) s"
  shows "nfd_off (path_off (tpar (ztree s)) p (delta b (- (n + 1)))) (upd_cgrp p (\<lambda>g. g\<lparr>CGRP_FROZEN := b\<rparr>) s)"
  using assms(3) unfolding nfd_off_def frozen_below_toggle [OF assms(1,2)]
  by (auto simp: path_off_def)

lemma nfd_correct_one:
  assumes "tpar (ztree s) x = Some p" and "p < x"
    and "nfd_off (path_off (tpar (ztree s)) x (delta fr (- n))) s"
  shows "nfd_off (path_off (tpar (ztree s)) p (delta fr (- n)))
    (upd_cgrp p (\<lambda>g. g\<lparr>nr_frozen_descendants := nr_frozen_descendants g + delta fr n\<rparr>) s)"
proof -
  let ?s' = "upd_cgrp p (\<lambda>g. g\<lparr>nr_frozen_descendants := nr_frozen_descendants g + delta fr n\<rparr>) s"
  have "frozen_below ?s' = frozen_below s"
    by (auto simp: frozen_below_def below_def fun_eq_iff)
  moreover have "ancestors (tpar (ztree s)) x = p # ancestors (tpar (ztree s)) p"
    using assms(1,2) by (simp add: ancestors_Some)
  moreover have "p \<notin> set (ancestors (tpar (ztree s)) p)" using ancestors_less by blast
  ultimately show ?thesis using assms(3) by (auto simp: nfd_off_def path_off_def)
qed

lemma propagate_nfd:
  assumes "shape_ok s" and "alive s x" and "nfd_off (path_off (tpar (ztree s)) x (delta fr (- desc))) s"
  shows "nfd_off (\<lambda>_. 0) (propagate fr desc (ancestors (tpar (ztree s)) x) s)"
  using assms
proof (induction x arbitrary: s desc rule: less_induct)
  case (less x)
  show ?case
  proof (cases "tpar (ztree s) x")
    case None
    with less.prems(3) show ?thesis by (simp add: nfd_off_def path_off_def)
  next
    case (Some p)
    then have p: "p < x" "alive s p"
      using less.prems alive_parent by (auto simp: shape_ok_def css_tree_ok_def tree_ok_def)
    then have anc: "ancestors (tpar (ztree s)) x = p # ancestors (tpar (ztree s)) p"
      using Some by (simp add: ancestors_Some)
    let ?s1 = "upd_cgrp p (\<lambda>g. g\<lparr>nr_frozen_descendants := nr_frozen_descendants g + delta fr desc\<rparr>) s"
    let ?s2 = "cgroup_file_notify p (upd_cgrp p (\<lambda>g. g\<lparr>CGRP_FROZEN := fr\<rparr>) ?s1)"
    have s1: "shape_ok ?s1" "alive ?s1 p" "nfd_off (path_off (tpar (ztree s)) p (delta fr (- desc))) ?s1"
      using less.prems p nfd_correct_one [OF Some p(1)] by simp_all
    have go: "nfd_off (\<lambda>_. 0) (propagate fr desc (ancestors (tpar (ztree s)) p) ?s1)"
      using less.IH [OF p(1) s1(1,2)] s1(3) by simp
    have "nfd_off (path_off (tpar (ztree s)) p (delta fr (- (desc + 1)))) ?s2"
      if "CGRP_FROZEN (cgrps ?s1 p) \<noteq> fr"
      using nfd_toggle [OF s1(2) that, of desc] s1(3)
      by (simp add: nfd_off_def frozen_below_def below_def)
    moreover have "shape_ok ?s2" "alive ?s2 p" using s1(1,2) by simp_all
    ultimately have toggle: "nfd_off (\<lambda>_. 0) (propagate fr (desc + 1) (ancestors (tpar (ztree s)) p) ?s2)"
      if "CGRP_FROZEN (cgrps ?s1 p) \<noteq> fr"
      using less.IH [OF p(1), of ?s2 "desc + 1"] that by simp
    show ?thesis using go toggle by (cases fr) (simp_all add: anc Let_def)
  qed
qed

lemma update_frozen_nfd:
  assumes "shape_ok s" and "alive s c" and "nfd_off (\<lambda>_. 0) s"
  shows "nfd_off (\<lambda>_. 0) (cgroup_update_frozen c s)"
proof -
  define fr where "fr \<longleftrightarrow> CGRP_FREEZE (cgrps s c) \<and> nr_frozen_tasks (cgrps s c) = cgroup_task_count c s"
  let ?s1 = "cgroup_file_notify c (upd_cgrp c (\<lambda>g. g\<lparr>CGRP_FROZEN := fr\<rparr>) s)"
  show ?thesis
  proof (cases "CGRP_FROZEN (cgrps s c) = fr")
    case True
    with assms(3) show ?thesis by (simp add: cgroup_update_frozen_def fr_def)
  next
    case False
    have "nfd_off (path_off (tpar (ztree s)) c (delta fr (- 0))) s"
      using assms(3) by (simp add: nfd_off_def path_off_def)
    from nfd_toggle [OF assms(2) False this]
    have "nfd_off (path_off (tpar (ztree s)) c (delta fr (- 1))) ?s1"
      by (simp add: nfd_off_def frozen_below_def below_def)
    moreover have "shape_ok ?s1" "alive ?s1 c" using assms(1,2) by simp_all
    ultimately have "nfd_off (\<lambda>_. 0) (cgroup_propagate_frozen c fr ?s1)"
      unfolding cgroup_propagate_frozen_def using propagate_nfd [of ?s1 c fr 1] by simp
    with False show ?thesis by (auto simp: cgroup_update_frozen_def fr_def [symmetric] Let_def)
  qed
qed

subsection \<open>The invariant\<close>

definition frozen_in :: "fz \<Rightarrow> nat \<Rightarrow> nat set" where
  "frozen_in s c = {t \<in> set (linked s). frozen (tasks s t) \<and> tcgrp (tasks s t) = c}"

definition freezers :: "fz \<Rightarrow> nat \<Rightarrow> nat list" where
  "freezers s c = filter (\<lambda>a. freeze (cgrps s a)) (c # ancestors (tpar (ztree s)) c)"

definition tasks_ok :: "fz \<Rightarrow> bool" where
  "tasks_ok s \<longleftrightarrow> (\<forall>t \<in> set (linked s). alive s (tcgrp (tasks s t)) \<and> (kthread (tasks s t) \<longrightarrow> \<not> frozen (tasks s t)))"

definition counts_ok :: "fz \<Rightarrow> bool" where
  "counts_ok s \<longleftrightarrow> (\<forall>c \<in> set (tcss (ztree s)). nr_descendants (cgrps s c) = int (card (below s c))
     \<and> nr_frozen_tasks (cgrps s c) = int (card (frozen_in s c)))"

definition efreeze_ok :: "fz \<Rightarrow> bool" where
  "efreeze_ok s \<longleftrightarrow> (\<forall>c. alive s c \<longrightarrow> e_freeze (cgrps s c) = int (length (freezers s c))
     \<and> (CGRP_FREEZE (cgrps s c) \<longleftrightarrow> 0 < e_freeze (cgrps s c)))"

definition fz_inv :: "fz \<Rightarrow> bool" where
  "fz_inv s \<longleftrightarrow> shape_ok s \<and> nfd_off (\<lambda>_. 0) s \<and> tasks_ok s \<and> counts_ok s \<and> efreeze_ok s \<and> \<not> warned_once s"

lemma fz_invD:
  assumes "fz_inv s"
  shows "shape_ok s" "nfd_off (\<lambda>_. 0) s" "tasks_ok s" "counts_ok s" "efreeze_ok s" "\<not> warned_once s"
  using assms by (simp_all add: fz_inv_def)

lemmas fz_invI = fz_inv_def [THEN iffD2, OF conjI, OF _ conjI, OF _ _ conjI, OF _ _ _ conjI, OF _ _ _ _ conjI]

text \<open>Operations that change nothing the rest of the invariant talks about.\<close>

lemma nfd_off_upd [simp]:
  "nfd_off f (upd_task t h s) = nfd_off f s" "nfd_off f (WARN_ON_ONCE b s) = nfd_off f s"
  "nfd_off f (cgroup_file_notify c s) = nfd_off f s"
  by (simp_all add: nfd_off_def frozen_below_def)

lemma nfd_off_upd_cgrp:
  assumes "\<And>g. CGRP_FROZEN (h g) = CGRP_FROZEN g" and "\<And>g. nr_frozen_descendants (h g) = nr_frozen_descendants g"
  shows "nfd_off f (upd_cgrp c h s) = nfd_off f s"
proof -
  have "frozen_below (upd_cgrp c h s) = frozen_below s" using assms(1) by (auto simp: frozen_below_def fun_eq_iff)
  then show ?thesis using assms(2) by (auto simp: nfd_off_def)
qed

lemma cnt_frames [simp]:
  "cgrps (cgroup_inc_frozen_cnt c s) d = (if d = c then (cgrps s c)\<lparr>nr_frozen_tasks := nr_frozen_tasks (cgrps s c) + 1\<rparr> else cgrps s d)"
  "cgrps (cgroup_dec_frozen_cnt c s) d = (if d = c then (cgrps s c)\<lparr>nr_frozen_tasks := nr_frozen_tasks (cgrps s c) - 1\<rparr> else cgrps s d)"
  "warned_once (cgroup_dec_frozen_cnt c s) \<longleftrightarrow> warned_once s \<or> nr_frozen_tasks (cgrps s c) < 1"
  "warned_once (cgroup_inc_frozen_cnt c s) = warned_once s"
  "tasks (cgroup_inc_frozen_cnt c s) = tasks s" "tasks (cgroup_dec_frozen_cnt c s) = tasks s"
  "ztree (cgroup_inc_frozen_cnt c s) = ztree s" "ztree (cgroup_dec_frozen_cnt c s) = ztree s"
  "dead (cgroup_inc_frozen_cnt c s) = dead s" "dead (cgroup_dec_frozen_cnt c s) = dead s"
  "linked (cgroup_inc_frozen_cnt c s) = linked s" "linked (cgroup_dec_frozen_cnt c s) = linked s"
  "shape_ok (cgroup_inc_frozen_cnt c s) = shape_ok s" "shape_ok (cgroup_dec_frozen_cnt c s) = shape_ok s"
  "alive (cgroup_inc_frozen_cnt c s) = alive s" "alive (cgroup_dec_frozen_cnt c s) = alive s"
  "below (cgroup_inc_frozen_cnt c s) = below s" "below (cgroup_dec_frozen_cnt c s) = below s"
  "nfd_off f (cgroup_inc_frozen_cnt c s) = nfd_off f s" "nfd_off f (cgroup_dec_frozen_cnt c s) = nfd_off f s"
  by (auto simp: cgroup_inc_frozen_cnt_def cgroup_dec_frozen_cnt_def Let_def nfd_off_upd_cgrp)

lemma freezers_cong:
  "ztree s' = ztree s \<Longrightarrow> (\<And>c. freeze (cgrps s' c) = freeze (cgrps s c)) \<Longrightarrow> freezers s' c = freezers s c"
  by (simp add: freezers_def)

lemma efreeze_cong:
  assumes "efreeze_ok s" and "ztree s' = ztree s" and "alive s' = alive s"
    and "\<And>c. freeze (cgrps s' c) = freeze (cgrps s c)" "\<And>c. e_freeze (cgrps s' c) = e_freeze (cgrps s c)"
    and "\<And>c. CGRP_FREEZE (cgrps s' c) = CGRP_FREEZE (cgrps s c)"
  shows "efreeze_ok s'"
proof -
  have "freezers s' c = freezers s c" for c using assms(2,4) by (rule freezers_cong)
  with assms(1,3,5,6) show ?thesis by (simp add: efreeze_ok_def)
qed

text \<open>The number of frozen tasks when one task changes.\<close>

lemma frozen_in_change:
  assumes "t \<in> set (linked s)" and "linked s' = linked s" and "\<And>u. u \<noteq> t \<Longrightarrow> tasks s' u = tasks s u"
  shows "int (card (frozen_in s' c)) = int (card (frozen_in s c))
    + (if frozen (tasks s' t) \<and> tcgrp (tasks s' t) = c then 1 else 0)
    - (if frozen (tasks s t) \<and> tcgrp (tasks s t) = c then 1 else 0)"
  unfolding frozen_in_def assms(2)
  using assms(1,3) by (intro card_change) auto

lemma count_frozen: "counts_ok s \<Longrightarrow> c \<in> set (tcss (ztree s)) \<Longrightarrow> nr_frozen_tasks (cgrps s c) = int (card (frozen_in s c))"
  by (simp add: counts_ok_def)

lemma frozen_in_pos:
  assumes "t \<in> set (linked s)" and "frozen (tasks s t)"
  shows "1 \<le> card (frozen_in s (tcgrp (tasks s t)))"
proof -
  have "finite (frozen_in s (tcgrp (tasks s t)))" "t \<in> frozen_in s (tcgrp (tasks s t))"
    using assms by (simp_all add: frozen_in_def)
  then show ?thesis by (metis One_nat_def Suc_leI card_gt_0_iff empty_iff)
qed

lemma enter_inv:
  assumes inv: "fz_inv s" and t: "t \<in> set (linked s)" "\<not> kthread (tasks s t)"
  shows "fz_inv (cgroup_enter_frozen t s)"
proof (cases "frozen (tasks s t)")
  case True
  with inv show ?thesis by (simp add: cgroup_enter_frozen_def)
next
  case False
  note I = fz_invD [OF inv]
  let ?c = "tcgrp (tasks s t)"
  let ?s1 = "cgroup_inc_frozen_cnt ?c (upd_task t (\<lambda>t. t\<lparr>frozen := True\<rparr>) s)"
  let ?s' = "cgroup_update_frozen ?c ?s1"
  have e: "cgroup_enter_frozen t s = ?s'" using False by (simp add: cgroup_enter_frozen_def Let_def)
  have a: "alive s ?c" using I(3) t(1) by (simp add: tasks_ok_def)
  have "int (card (frozen_in ?s' c)) = int (card (frozen_in s c)) + (if ?c = c then 1 else 0)" for c
    using False by (subst frozen_in_change [OF t(1)]) auto
  then have "counts_ok ?s'" using I(4) by (simp add: counts_ok_def)
  moreover have "nfd_off (\<lambda>_. 0) ?s'" using I(1,2) a by (intro update_frozen_nfd) simp_all
  moreover have "tasks_ok ?s'" using I(3) t by (simp add: tasks_ok_def)
  moreover have "efreeze_ok ?s'" by (rule efreeze_cong [OF I(5)]) simp_all
  ultimately show ?thesis unfolding e using I(1,6) by (simp add: fz_inv_def)
qed

lemma leave_inv:
  assumes inv: "fz_inv s" and t: "t \<in> set (linked s)" "frozen (tasks s t)"
  shows "fz_inv (cgroup_leave_frozen al t s)"
proof (cases "al \<or> \<not> CGRP_FREEZE (cgrps s (tcgrp (tasks s t)))")
  case True
  note I = fz_invD [OF inv]
  let ?c = "tcgrp (tasks s t)"
  let ?s1 = "cgroup_update_frozen ?c (cgroup_dec_frozen_cnt ?c s)"
  let ?s' = "upd_task t (\<lambda>t. t\<lparr>frozen := False\<rparr>) (WARN_ON_ONCE (\<not> frozen (tasks ?s1 t)) ?s1)"
  have e: "cgroup_leave_frozen al t s = ?s'" using True by (simp add: cgroup_leave_frozen_def Let_def)
  have a: "alive s ?c" using I(3) t(1) by (simp add: tasks_ok_def)
  have "int (card (frozen_in ?s' c)) = int (card (frozen_in s c)) - (if ?c = c then 1 else 0)" for c
    using t by (subst frozen_in_change [OF t(1)]) auto
  then have "counts_ok ?s'" using I(4) by (simp add: counts_ok_def)
  moreover have "nfd_off (\<lambda>_. 0) ?s'" using update_frozen_nfd [of "cgroup_dec_frozen_cnt ?c s" ?c] I(1,2) a by simp
  moreover have "tasks_ok ?s'" using I(3) t by (simp add: tasks_ok_def)
  moreover have "efreeze_ok ?s'" by (rule efreeze_cong [OF I(5)]) simp_all
  moreover have "\<not> warned_once ?s'"
    using I(6) t(2) frozen_in_pos [OF t] count_frozen [OF I(4)] a by (simp add: alive_def)
  ultimately show ?thesis unfolding e using I(1) by (simp add: fz_inv_def)
next
  case False
  note I = fz_invD [OF inv]
  let ?s' = "upd_task t (\<lambda>t. t\<lparr>trap_freeze := True, sigpending := True\<rparr>) s"
  have "frozen_in ?s' = frozen_in s" by (auto simp: frozen_in_def fun_eq_iff)
  then have "fz_inv ?s'"
    using I efreeze_cong [OF I(5), of ?s'] by (simp add: fz_inv_def tasks_ok_def counts_ok_def)
  with False inv show ?thesis by (auto simp: cgroup_leave_frozen_def Let_def)
qed

end
