(* ===== verification/Freezer_Steps.thy ===== *)
theory Freezer_Steps
  imports Freezer_Correct
begin

section \<open>Every step of the hierarchy keeps the freezer's invariant\<close>

text \<open>
  Tasks that move, fork and exit, cgroups that come and go, and writes of \<open>cgroup.freeze\<close>.
\<close>

subsection \<open>Tasks\<close>

lemma freeze_task_frames [simp]:
  "cgrps (cgroup_freeze_task t b s) = cgrps s" "ztree (cgroup_freeze_task t b s) = ztree s"
  "dead (cgroup_freeze_task t b s) = dead s" "linked (cgroup_freeze_task t b s) = linked s"
  "warned_once (cgroup_freeze_task t b s) = warned_once s" "frozen (tasks (cgroup_freeze_task t b s) u) = frozen (tasks s u)"
  "tcgrp (tasks (cgroup_freeze_task t b s) u) = tcgrp (tasks s u)"
  "kthread (tasks (cgroup_freeze_task t b s) u) = kthread (tasks s u)"
  "shape_ok (cgroup_freeze_task t b s) = shape_ok s" "alive (cgroup_freeze_task t b s) = alive s"
  "below (cgroup_freeze_task t b s) = below s" "nfd_off f (cgroup_freeze_task t b s) = nfd_off f s"
  by (simp_all add: cgroup_freeze_task_def)

text \<open>A state that agrees with one satisfying the invariant in all that the invariant reads.\<close>

lemma fz_inv_cong:
  assumes inv: "fz_inv s" and nfd: "nfd_off (\<lambda>_. 0) s'"
    and frame: "ztree s' = ztree s" "dead s' = dead s" "linked s' = linked s" "warned_once s' = warned_once s"
    and task: "\<And>t. frozen (tasks s' t) = frozen (tasks s t)" "\<And>t. tcgrp (tasks s' t) = tcgrp (tasks s t)"
      "\<And>t. kthread (tasks s' t) = kthread (tasks s t)"
    and cgrp: "\<And>c. core (cgrps s' c) = core (cgrps s c)"
  shows "fz_inv s'"
proof -
  note I = fz_invD [OF inv] and core = coreD [OF cgrp]
  have sh: "shape_ok s' = shape_ok s" "alive s' = alive s" "below s' = below s"
    using shape_cong [OF frame(1,2)] by simp_all
  have "frozen_in s' c = frozen_in s c" for c by (simp add: frozen_in_def frame task)
  then show ?thesis
    using I nfd efreeze_cong [OF I(5) frame(1) sh(2)]
    by (simp add: fz_inv_def tasks_ok_def counts_ok_def sh frame task core)
qed

lemma freeze_task_inv: "fz_inv s \<Longrightarrow> fz_inv (cgroup_freeze_task t b s)"
  by (rule fz_inv_cong [of s]) (simp_all add: fz_invD(2))

lemma link_frames [simp]:
  "shape_ok (s\<lparr>linked := l\<rparr>) = shape_ok s" "alive (s\<lparr>linked := l\<rparr>) = alive s"
  "below (s\<lparr>linked := l\<rparr>) = below s" "nfd_off f (s\<lparr>linked := l\<rparr>) = nfd_off f s"
  by (simp_all add: shape_ok_def alive_def [abs_def] below_def [abs_def] nfd_off_def frozen_below_def)

lemma update_frozen_inv:
  assumes "fz_inv s" and "alive s c"
  shows "fz_inv (cgroup_update_frozen c s)"
  using assms(2) fz_invD(1,2) [OF assms(1)] same_but_frozenD(6) [OF update_frozen_same]
  by (intro fz_inv_cong [OF assms(1)] update_frozen_nfd) simp_all

lemma fz_migrate_inv:
  assumes inv: "fz_inv s" and t: "t \<in> set (linked s)" and dst: "alive s dst"
  shows "fz_inv (cgroup_migrate_one t dst s)"
proof -
  note I = fz_invD [OF inv]
  let ?src = "tcgrp (tasks s t)"
  let ?s1 = "upd_task t (\<lambda>t. t\<lparr>tcgrp := dst\<rparr>) s"
  have src: "alive s ?src" using I(3) t by (simp add: tasks_ok_def)
  have card: "int (card (frozen_in s' c)) = int (card (frozen_in s c))
      + (if frozen (tasks s t) \<and> dst = c then 1 else 0) - (if frozen (tasks s t) \<and> ?src = c then 1 else 0)"
    if "linked s' = linked s" "\<And>u. tasks s' u = tasks ?s1 u" for s' c
    using that by (subst frozen_in_change [OF t]) auto
  have t1: "tasks_ok ?s1" using I(3) dst by (simp add: tasks_ok_def)
  have stay: "fz_inv ?s1" if "\<not> frozen (tasks s t)"
    using I t1 card [of ?s1] that efreeze_cong [OF I(5), of ?s1] by (simp add: fz_inv_def counts_ok_def)
  let ?s2 = "if frozen (tasks s t) then cgroup_dec_frozen_cnt ?src (cgroup_inc_frozen_cnt dst ?s1) else ?s1"
  have "fz_inv ?s2"
  proof (cases "frozen (tasks s t)")
    case True
    let ?s3 = "cgroup_dec_frozen_cnt ?src (cgroup_inc_frozen_cnt dst ?s1)"
    have "counts_ok ?s3" using I(4) card [of ?s3] True by (simp add: counts_ok_def)
    moreover have "\<not> warned_once ?s3"
      using I(6) frozen_in_pos [OF t True] count_frozen [OF I(4)] src by (auto simp: alive_def)
    moreover have "efreeze_ok ?s3" by (rule efreeze_cong [OF I(5)]) simp_all
    moreover have "tasks_ok ?s3" using t1 by (simp add: tasks_ok_def)
    ultimately show ?thesis using True I(1,2) by (simp add: fz_inv_def)
  qed (use stay in simp)
  then have "fz_inv (cgroup_update_frozen ?src (cgroup_update_frozen dst ?s2))"
    using src dst by (intro update_frozen_inv) simp_all
  then have "fz_inv (cgroup_freeze_task t b (cgroup_update_frozen ?src (cgroup_update_frozen dst ?s2)))" for b
    by (rule freeze_task_inv)
  then show ?thesis
    using stay I by (auto simp: cgroup_migrate_one_def cgroup_freezer_migrate_task_def Let_def tasks_ok_def t)
qed

lemma exit_inv:
  assumes inv: "fz_inv s" and t: "\<not> frozen (tasks s t)"
  shows "fz_inv (cgroup_exit t s)"
proof (cases "t \<in> set (linked s)")
  case True
  note I = fz_invD [OF inv]
  let ?s1 = "s\<lparr>linked := filter (\<lambda>u. u \<noteq> t) (linked s)\<rparr>"
  let ?s2 = "WARN_ON_ONCE (frozen (tasks ?s1 t)) ?s1"
  have "frozen_in ?s2 c = frozen_in s c" for c using t by (auto simp: frozen_in_def)
  moreover have "efreeze_ok ?s2" by (rule efreeze_cong [OF I(5)]) simp_all
  ultimately have "fz_inv ?s2" using I t by (simp add: fz_inv_def tasks_ok_def counts_ok_def)
  moreover have "alive ?s2 (tcgrp (tasks ?s2 t))" using I(3) True by (simp add: tasks_ok_def)
  ultimately show ?thesis using True by (auto simp: cgroup_exit_def Let_def intro: update_frozen_inv)
qed (use inv in \<open>simp add: cgroup_exit_def\<close>)

lemma fork_inv:
  assumes inv: "fz_inv s" and t: "t \<in> set (linked s)" and child: "child \<notin> set (linked s)" "\<not> frozen (tasks s child)"
  shows "fz_inv (cgroup_post_fork t child s)"
proof -
  note I = fz_invD [OF inv]
  let ?s1 = "upd_task child (\<lambda>u. u\<lparr>tcgrp := tcgrp (tasks s t)\<rparr>) (s\<lparr>linked := linked s @ [child]\<rparr>)"
  have "frozen_in ?s1 c = frozen_in s c" for c using child by (auto simp: frozen_in_def)
  moreover have "efreeze_ok ?s1" by (rule efreeze_cong [OF I(5)]) simp_all
  moreover have "tasks_ok ?s1" using I(3) t child by (auto simp: tasks_ok_def)
  ultimately have s1: "fz_inv ?s1" using I by (simp add: fz_inv_def counts_ok_def)
  have "fz_inv (upd_task child (\<lambda>u. u\<lparr>trap_freeze := True\<rparr>) (WARN_ON_ONCE (frozen (tasks ?s1 child)) ?s1))"
    by (rule fz_inv_cong [OF s1]) (use fz_invD(2) [OF s1] child in simp_all)
  with s1 child show ?thesis by (simp add: cgroup_post_fork_def Let_def)
qed

subsection \<open>Cgroups that come and go\<close>

lemma fold_upd_cgrp:
  assumes "distinct ps"
  shows "cgrps (fold (\<lambda>p s. upd_cgrp p f s) ps s) c = (if c \<in> set ps then f (cgrps s c) else cgrps s c)"
    and "ztree (fold (\<lambda>p s. upd_cgrp p f s) ps s) = ztree s" "dead (fold (\<lambda>p s. upd_cgrp p f s) ps s) = dead s"
    "linked (fold (\<lambda>p s. upd_cgrp p f s) ps s) = linked s" "tasks (fold (\<lambda>p s. upd_cgrp p f s) ps s) = tasks s"
    "warned_once (fold (\<lambda>p s. upd_cgrp p f s) ps s) = warned_once s"
  using assms by (induction ps arbitrary: s) auto

lemma ancestors_in_css:
  "css_tree_ok T \<Longrightarrow> c \<in> set (tcss T) \<Longrightarrow> set (ancestors (tpar T) c) \<subseteq> set (tcss T)"
proof (induction c rule: less_induct)
  case (less c)
  then show ?case by (cases "tpar T c") (auto simp: ancestors_Some css_tree_ok_def tree_ok_def split: if_splits)
qed

text \<open>A successful creation: the new cgroup is the last one, and every cgroup on its path counts it.\<close>

lemma create_frames:
  assumes ok: "shape_ok s" and new: "\<forall>d \<in> set (tcss (ztree s)). d < c" and p: "alive s p"
    and create: "cgroup_create 0 c p s = (r, s')"
  defines "path \<equiv> p # ancestors (tpar (ztree s)) p"
  shows "ancestors (tpar (ztree s')) c = path"
    and "d \<in> set (tcss (ztree s)) \<Longrightarrow> ancestors (tpar (ztree s')) d = ancestors (tpar (ztree s)) d"
    and "tpar (ztree s') = (tpar (ztree s))(c \<mapsto> p)" and "tcss (ztree s') = tcss (ztree s) @ [c]"
    and "dead s' = (dead s)(c := False)" and "linked s' = linked s" and "tasks s' = tasks s"
    and "warned_once s' = warned_once s"
    and "cgrps s' d = (let e = e_freeze (cgrps s p); g = (if d = c then new_cgrp e else cgrps s d) in
      if d \<in> set path then g\<lparr>nr_descendants := nr_descendants g + 1,
        nr_frozen_descendants := nr_frozen_descendants g + (if e \<noteq> 0 then 1 else 0)\<rparr> else g)"
    and "below s' a = below s a \<union> (if a \<in> set path then {c} else {})"
    and "set path \<subseteq> set (tcss (ztree s))" and "c \<notin> set path" and "c \<notin> set (tcss (ztree s))"
proof -
  let ?par = "tpar (ztree s)" and ?css = "set (tcss (ztree s))"
  have pc: "p \<in> ?css" "p < c" using p new by (auto simp: alive_def)
  show c: "c \<notin> ?css" using new by auto
  show path: "set path \<subseteq> ?css" "c \<notin> set path"
    using pc ok ancestors_in_css [of "ztree s" p] ancestors_less [of c ?par p] by (auto simp: path_def shape_ok_def)
  have old: "ancestors (?par(c \<mapsto> p)) d = ancestors ?par d" if "d \<in> ?css" for d
    using new that ancestors_upd_greater by blast
  have anc: "ancestors (?par(c \<mapsto> p)) c = path"
    using pc ancestors_upd_greater [of p c ?par "Some p"] by (simp add: ancestors_Some path_def)
  show fr: "tpar (ztree s') = ?par(c \<mapsto> p)" "tcss (ztree s') = tcss (ztree s) @ [c]" "dead s' = (dead s)(c := False)"
    "linked s' = linked s" "tasks s' = tasks s" "warned_once s' = warned_once s"
    "cgrps s' d = (let e = e_freeze (cgrps s p); g = (if d = c then new_cgrp e else cgrps s d) in
      if d \<in> set path then g\<lparr>nr_descendants := nr_descendants g + 1,
        nr_frozen_descendants := nr_frozen_descendants g + (if e \<noteq> 0 then 1 else 0)\<rparr> else g)"
    using create distinct_ancestors [of "?par(c \<mapsto> p)" c]
    by (auto simp: cgroup_create_def Let_def fold_upd_cgrp anc)
  show "ancestors (tpar (ztree s')) c = path"
    "d \<in> ?css \<Longrightarrow> ancestors (tpar (ztree s')) d = ancestors ?par d"
    using anc old by (simp_all add: fr)
  show "below s' a = below s a \<union> (if a \<in> set path then {c} else {})"
    using old anc c by (auto simp: below_def fr)
qed

lemma create_inv:
  assumes inv: "fz_inv s" and new: "\<forall>d \<in> set (tcss (ztree s)). d < c" and p: "alive s p"
    and create: "cgroup_create err c p s = (r, s')"
  shows "fz_inv s'"
proof (cases "err = 0")
  case False
  with create inv show ?thesis by (simp add: cgroup_create_def)
next
  case True
  note I = fz_invD [OF inv]
  let ?par = "tpar (ztree s)" and ?css = "set (tcss (ztree s))"
  define e where "e = e_freeze (cgrps s p)"
  define A where "A = set (p # ancestors ?par p)"
  note F = create_frames [OF I(1) new p create [unfolded True], folded A_def]
  note anc = F(1) [unfolded F(3)] and old = F(2) [unfolded F(3)] and fr = F(3-8) and below = F(10)
    and A = F(11,12)
  have cg: "\<And>d. cgrps s' d = (let g = (if d = c then new_cgrp e else cgrps s d) in
      if d \<in> A then g\<lparr>nr_descendants := nr_descendants g + 1,
        nr_frozen_descendants := nr_frozen_descendants g + (if e \<noteq> 0 then 1 else 0)\<rparr> else g)"
    using F(9) by (simp add: e_def Let_def)
  have pc: "p \<in> ?css" "p < c" "c \<notin> ?css" using p new by (auto simp: alive_def)
  have frozen: "frozen_below s' a = frozen_below s a \<union> (if a \<in> A \<and> e \<noteq> 0 then {c} else {})" for a
    using pc(3) A(2) by (auto simp: frozen_below_def below cg Let_def new_cgrp_def) (auto simp: below_def)
  have fresh: "c \<notin> below s a" "c \<notin> frozen_below s a" for a using pc(3) by (simp_all add: frozen_below_def below_def)
  have none: "below s c = {}" "frozen_below s c = {}"
    using new ancestors_less [of c ?par] by (auto simp: frozen_below_def below_def dest: less_trans)
  have not_anc: "c \<notin> set (ancestors ?par d)" if "d \<in> ?css" for d
    using new that ancestors_less [of c ?par d] by auto
  have alive: "alive s' d \<longleftrightarrow> d = c \<or> alive s d" for d using pc(3) by (auto simp: alive_def fr)
  have shape: "shape_ok s'"
  proof -
    have "tree_ok (?par(c \<mapsto> p))" using I(1) pc(2) by (simp add: shape_ok_def css_tree_ok_def tree_ok_def)
    moreover have "sorted_wrt (<) (tcss (ztree s) @ [c])"
      using I(1) new by (simp add: shape_ok_def css_tree_ok_def sorted_wrt_append)
    moreover have "q \<in> ?css \<and> (\<not> dead s d \<longrightarrow> \<not> dead s q)" if "d \<in> ?css" "?par d = Some q" for d q
      using I(1) that unfolding shape_ok_def css_tree_ok_def by blast
    ultimately show ?thesis
      using p pc by (simp add: shape_ok_def css_tree_ok_def fr alive_def)
  qed
  have nfd: "nfd_off (\<lambda>_. 0) s'"
    using I(2) A(2) fresh none by (auto simp: nfd_off_def fr frozen cg Let_def new_cgrp_def)
  have tasks: "tasks_ok s'" using I(3) alive by (simp add: tasks_ok_def fr)
  have "frozen_in s' d = frozen_in s d" for d by (simp add: frozen_in_def fr)
  moreover have "frozen_in s c = {}" using I(3) pc(3) by (auto simp: frozen_in_def tasks_ok_def alive_def)
  ultimately have counts: "counts_ok s'"
    using I(4) A(2) fresh none by (auto simp: counts_ok_def fr below cg Let_def new_cgrp_def)
  have fre: "freezers s' d = (if d = c then freezers s p else freezers s d)" if "d = c \<or> d \<in> ?css" for d
    using old [of d] anc that pc(3) A not_anc
    by (auto simp: freezers_def fr cg Let_def new_cgrp_def A_def intro!: filter_cong)
  have "e_freeze (cgrps s' d) = int (length (freezers s' d))
      \<and> (CGRP_FREEZE (cgrps s' d) \<longleftrightarrow> 0 < e_freeze (cgrps s' d))" if "alive s' d" for d
  proof (cases "d = c")
    case True
    have "e = int (length (freezers s p))" using I(5) p by (simp add: efreeze_ok_def e_def)
    with True A(2) show ?thesis by (simp add: fre cg Let_def new_cgrp_def)
  next
    case False
    with that have "alive s d" by (simp add: alive)
    moreover from this have "d \<in> ?css" by (simp add: alive_def)
    ultimately show ?thesis using I(5) False by (simp add: fre cg Let_def efreeze_ok_def)
  qed
  then have "efreeze_ok s'" by (simp add: efreeze_ok_def)
  then show ?thesis using shape nfd tasks counts I(6) by (simp add: fz_inv_def fr)
qed

lemma destroy_inv:
  assumes inv: "fz_inv s" and c: "alive s c" and destroy: "cgroup_destroy_locked c s = (r, s')"
  shows "fz_inv s'"
proof (cases "cgroup_is_populated c s \<or> (\<exists>d \<in> set (kids (ztree s) c). \<not> dead s d)")
  case True
  with destroy inv show ?thesis by (auto simp: cgroup_destroy_locked_def split: if_splits)
next
  case False
  note I = fz_invD [OF inv]
  let ?par = "tpar (ztree s)" and ?css = "set (tcss (ztree s))"
  define A where "A = set (ancestors ?par c)"
  define F where "F = CGRP_FROZEN (cgrps s c)"
  have fr: "ztree s' = ztree s" "dead s' = (dead s)(c := True)" "linked s' = linked s" "tasks s' = tasks s"
      "warned_once s' = warned_once s"
    and cg: "\<And>d. cgrps s' d = (if d \<in> A then (cgrps s d)\<lparr>nr_descendants := nr_descendants (cgrps s d) - 1,
        nr_dying_descendants := nr_dying_descendants (cgrps s d) + 1,
        nr_frozen_descendants := nr_frozen_descendants (cgrps s d) - (if F then 1 else 0)\<rparr> else cgrps s d)"
    using destroy False distinct_ancestors [of ?par c]
    by (auto simp: cgroup_destroy_locked_def Let_def F_def [symmetric] fold_upd_cgrp A_def)
  have cb: "c \<in> below s a \<longleftrightarrow> a \<in> A" for a using c by (auto simp: below_def alive_def A_def)
  have below: "below s' a = below s a - {c}" for a by (auto simp: below_def fr)
  have frozen: "frozen_below s' a = frozen_below s a - {c}" for a by (auto simp: frozen_below_def below cg)
  have cf: "c \<in> frozen_below s a \<longleftrightarrow> a \<in> A \<and> F" for a using cb by (simp add: frozen_below_def F_def)
  have card: "int (card (S - {c})) = int (card S) - (if c \<in> S then 1 else 0)" if "finite S" for S :: "nat set"
    using that card_gt_0_iff [of S] by (auto simp: card_Diff_singleton_if of_nat_diff)
  have kid: "dead s d" if "d \<in> ?css" "?par d = Some c" for d
    using False that in_kids [of "ztree s" d c] I(1) by (auto simp: shape_ok_def)
  have "shape_ok s'" using I(1) kid by (auto simp: shape_ok_def fr)
  moreover have "nfd_off (\<lambda>_. 0) s'" using I(2) by (simp add: nfd_off_def fr frozen card cf cg)
  moreover have "tasks_ok s'"
  proof -
    have "tcgrp (tasks s t) \<noteq> c" if "t \<in> set (linked s)" for t
      using False that c by (auto simp: cgroup_is_populated_def in_subtree_def alive_def)
    then show ?thesis using I(3) by (simp add: tasks_ok_def fr alive_def)
  qed
  moreover have "counts_ok s'" using I(4) by (simp add: counts_ok_def fr below card cb cg frozen_in_def)
  moreover have "efreeze_ok s'"
  proof -
    have "freezers s' d = freezers s d" for d by (rule freezers_cong) (simp_all add: fr cg)
    then show ?thesis using I(5) by (simp add: efreeze_ok_def alive_def fr cg)
  qed
  ultimately show ?thesis using I(6) by (simp add: fz_inv_def fr)
qed

subsection \<open>Writing cgroup.freeze\<close>

text \<open>What a turn of the loop leaves alone: everything but one cgroup's effective state, the frozen
  flags and the traps of tasks.\<close>

definition quiet :: "fz \<Rightarrow> fz \<Rightarrow> bool" where
  "quiet s s' \<longleftrightarrow> ztree s' = ztree s \<and> dead s' = dead s \<and> linked s' = linked s
     \<and> (\<forall>t. frozen (tasks s' t) = frozen (tasks s t) \<and> tcgrp (tasks s' t) = tcgrp (tasks s t)
          \<and> kthread (tasks s' t) = kthread (tasks s t))
     \<and> (\<forall>c. freeze (cgrps s' c) = freeze (cgrps s c) \<and> nr_frozen_tasks (cgrps s' c) = nr_frozen_tasks (cgrps s c)
          \<and> nr_descendants (cgrps s' c) = nr_descendants (cgrps s c))"

lemma quietD:
  assumes "quiet s s'"
  shows "ztree s' = ztree s" "dead s' = dead s" "linked s' = linked s" "frozen (tasks s' t) = frozen (tasks s t)"
    "tcgrp (tasks s' t) = tcgrp (tasks s t)" "kthread (tasks s' t) = kthread (tasks s t)"
    "freeze (cgrps s' c) = freeze (cgrps s c)" "nr_frozen_tasks (cgrps s' c) = nr_frozen_tasks (cgrps s c)"
    "nr_descendants (cgrps s' c) = nr_descendants (cgrps s c)"
  using assms by (simp_all add: quiet_def)

lemma quiet_trans: "quiet s s1 \<Longrightarrow> quiet s1 s2 \<Longrightarrow> quiet s s2"
  by (simp add: quiet_def)

lemma quiet_update_frozen [simp]: "quiet s (cgroup_update_frozen c s)"
  by (simp add: quiet_def)

definition effective :: "fz \<Rightarrow> nat \<Rightarrow> int \<times> bool" where
  "effective s c = (e_freeze (cgrps s c), CGRP_FREEZE (cgrps s c))"

lemma freeze_tasks_frames:
  fixes b :: bool
  defines "go \<equiv> fold (\<lambda>t s. if kthread (tasks s t) then s else cgroup_freeze_task t b s)"
  shows "cgrps (go ts s) = cgrps s" "quiet s (go ts s)" "warned_once (go ts s) = warned_once s"
    "nfd_off f (go ts s) = nfd_off f s"
  unfolding go_def
  by (induction ts arbitrary: s) (auto simp: quiet_def)

lemma do_freeze_ok:
  assumes "shape_ok s" and "alive s c" and "nfd_off (\<lambda>_. 0) s"
  shows "quiet s (cgroup_do_freeze c b s) \<and> nfd_off (\<lambda>_. 0) (cgroup_do_freeze c b s)
    \<and> warned_once (cgroup_do_freeze c b s) = warned_once s
    \<and> effective (cgroup_do_freeze c b s) d = (if d = c then (e_freeze (cgrps s c), b) else effective s d)"
proof -
  let ?s1 = "upd_cgrp c (\<lambda>c. c\<lparr>CGRP_FREEZE := b\<rparr>) s"
  let ?s2 = "fold (\<lambda>t s. if kthread (tasks s t) then s else cgroup_freeze_task t b s) (cgroup_tasks ?s1 c) ?s1"
  have q: "quiet s ?s2" using freeze_tasks_frames(2) [of ?s1] by (rule quiet_trans [rotated]) (simp add: quiet_def)
  note sh = shape_cong [OF quietD(1,2) [OF q]]
  have n: "nfd_off (\<lambda>_. 0) ?s2" using assms(3) by (simp add: freeze_tasks_frames(4) nfd_off_upd_cgrp)
  then have "nfd_off (\<lambda>_. 0) (cgroup_update_frozen c ?s2)" using assms sh by (intro update_frozen_nfd) simp_all
  moreover have "quiet s (cgroup_update_frozen c ?s2)" using q quiet_update_frozen by (rule quiet_trans)
  ultimately show ?thesis
    using q n by (simp add: cgroup_do_freeze_def Let_def effective_def freeze_tasks_frames(1,3))
qed

text \<open>The effective state of a cgroup after its turn.\<close>

definition turned :: "bool \<Rightarrow> int \<times> bool \<Rightarrow> int \<times> bool" where
  "turned b ef = (let (e, f) = ef; e = e + (if b then 1 else -1) in
     (e, if (if b then e > 1 else e > 0) then f else b))"

lemma freeze_turn_ok:
  assumes "shape_ok s" and "d \<in> set (tcss (ztree s))" and "nfd_off (\<lambda>_. 0) s"
    and "b \<or> dead s d \<or> 1 \<le> e_freeze (cgrps s d)"
  shows "quiet s (snd (freeze_turn b d (app, s))) \<and> nfd_off (\<lambda>_. 0) (snd (freeze_turn b d (app, s)))
    \<and> warned_once (snd (freeze_turn b d (app, s))) = warned_once s
    \<and> effective (snd (freeze_turn b d (app, s))) c =
        (if c = d \<and> \<not> dead s d then turned b (effective s c) else effective s c)"
proof (cases "dead s d")
  case True
  with assms(3) show ?thesis by (simp add: freeze_turn_def quiet_def)
next
  case False
  define s1 where "s1 = upd_cgrp d (\<lambda>c. c\<lparr>e_freeze := e_freeze c + (if b then 1 else -1)\<rparr>) s"
  define s2 where "s2 = (if b then s1 else WARN_ON_ONCE (e_freeze (cgrps s1 d) < 0) s1)"
  have a: "alive s d" using assms(2) False by (simp add: alive_def)
  have n: "nfd_off (\<lambda>_. 0) s1" using assms(3) by (simp add: s1_def nfd_off_upd_cgrp)
  have q: "quiet s s1" "quiet s s2" by (simp_all add: s1_def s2_def quiet_def)
  have w: "warned_once s2 = warned_once s" "warned_once s1 = warned_once s"
    using assms(4) False by (auto simp: s1_def s2_def)
  have c12: "cgrps s2 = cgrps s1" by (simp add: s2_def)
  have "shape_ok s2" "alive s2 d" "nfd_off (\<lambda>_. 0) s2"
    using assms(1) a n shape_cong [OF quietD(1,2) [OF q(2)]] by (simp_all add: s2_def)
  note D = do_freeze_ok [OF this, of b c]
  have e: "freeze_turn b d (app, s) = (if (if b then e_freeze (cgrps s1 d) > 1 else e_freeze (cgrps s1 d) > 0)
      then (app, s1) else (True, cgroup_do_freeze d b s2))"
    using False by (simp add: freeze_turn_def Let_def s1_def s2_def)
  have "quiet s (cgroup_do_freeze d b s2)" using q(2) D quiet_trans by blast
  moreover have "effective s1 c = (if c = d then (e_freeze (cgrps s d) + (if b then 1 else -1), CGRP_FREEZE (cgrps s d))
      else effective s c)" "effective s2 c = effective s1 c"
    by (simp_all add: effective_def s1_def c12)
  ultimately show ?thesis
    unfolding e using False q(1) n w D
    by (auto simp: effective_def turned_def Let_def c12 s1_def)
qed

lemma freeze_turns_ok:
  assumes "shape_ok s" and "set ds \<subseteq> set (tcss (ztree s))" and "distinct ds" and "nfd_off (\<lambda>_. 0) s"
    and "b \<or> (\<forall>d \<in> set ds. dead s d \<or> 1 \<le> e_freeze (cgrps s d))"
  shows "quiet s (snd (fold (freeze_turn b) ds (app, s))) \<and> nfd_off (\<lambda>_. 0) (snd (fold (freeze_turn b) ds (app, s)))
    \<and> warned_once (snd (fold (freeze_turn b) ds (app, s))) = warned_once s
    \<and> (\<forall>c. effective (snd (fold (freeze_turn b) ds (app, s))) c =
        (if c \<in> set ds \<and> \<not> dead s c then turned b (effective s c) else effective s c))"
  using assms
proof (induction ds arbitrary: s app)
  case Nil
  then show ?case by (simp add: quiet_def)
next
  case (Cons d ds)
  obtain app1 s1 where s1: "freeze_turn b d (app, s) = (app1, s1)" by (cases "freeze_turn b d (app, s)")
  have "b \<or> dead s d \<or> 1 \<le> e_freeze (cgrps s d)" using Cons.prems(5) by auto
  from freeze_turn_ok [OF Cons.prems(1) _ Cons.prems(4) this, of app] Cons.prems(2) s1
  have T: "quiet s s1" "nfd_off (\<lambda>_. 0) s1" "warned_once s1 = warned_once s"
    "\<And>c. effective s1 c = (if c = d \<and> \<not> dead s d then turned b (effective s c) else effective s c)" by auto
  note q = quietD [OF T(1)]
  have "e_freeze (cgrps s1 x) = e_freeze (cgrps s x)" if "x \<in> set ds" for x
    using T(4) [of x] that Cons.prems(3) by (auto simp: effective_def split: if_splits)
  then have "b \<or> (\<forall>x \<in> set ds. dead s1 x \<or> 1 \<le> e_freeze (cgrps s1 x))"
    using Cons.prems(5) by (auto simp: q)
  with Cons.IH [of s1 app1] Cons.prems T(2) shape_cong [OF q(1,2)]
  have "quiet s1 (snd (fold (freeze_turn b) ds (app1, s1)))"
    "nfd_off (\<lambda>_. 0) (snd (fold (freeze_turn b) ds (app1, s1)))"
    "warned_once (snd (fold (freeze_turn b) ds (app1, s1))) = warned_once s1"
    "\<forall>c. effective (snd (fold (freeze_turn b) ds (app1, s1))) c =
        (if c \<in> set ds \<and> \<not> dead s1 c then turned b (effective s1 c) else effective s1 c)"
    by (simp_all add: q(1))
  then show ?case
    using T Cons.prems(3) quiet_trans [OF T(1)] by (auto simp: s1 q)
qed

lemma length_filter_flip:
  assumes "distinct xs" and "P c \<noteq> b"
  shows "int (length (filter (P(c := b)) xs)) =
    int (length (filter P xs)) + (if c \<in> set xs then if b then 1 else -1 else 0)"
  using assms by (induction xs) auto

lemma distinct_self_ancestors: "distinct (c # ancestors par c)"
  using ancestors_less [of c par c] by auto

lemma freeze_inv:
  assumes inv: "fz_inv s" and c: "alive s c"
  shows "fz_inv (cgroup_freeze c b s)"
proof (cases "freeze (cgrps s c) = b")
  case True
  with inv show ?thesis by (simp add: cgroup_freeze_def)
next
  case False
  note I = fz_invD [OF inv]
  let ?T = "ztree s"
  have ok: "css_tree_ok ?T" and cT: "c \<in> set (tcss ?T)" using I(1) c by (simp_all add: shape_ok_def alive_def)
  define s0 where "s0 = upd_cgrp c (\<lambda>c. c\<lparr>freeze := b\<rparr>) s"
  define s1 where "s1 = snd (fold (freeze_turn b) (pre_order ?T c) (False, s0))"
  have s0: "shape_ok s0" "nfd_off (\<lambda>_. 0) s0" "ztree s0 = ztree s" "dead s0 = dead s" "tasks s0 = tasks s"
    "linked s0 = linked s" "warned_once s0 = warned_once s" "alive s0 = alive s" "below s0 = below s"
    "\<And>d. effective s0 d = effective s d" "\<And>d. freeze (cgrps s0 d) = ((\<lambda>a. freeze (cgrps s a))(c := b)) d"
    "\<And>d. nr_frozen_tasks (cgrps s0 d) = nr_frozen_tasks (cgrps s d)"
    "\<And>d. nr_descendants (cgrps s0 d) = nr_descendants (cgrps s d)"
    "\<And>d. e_freeze (cgrps s0 d) = e_freeze (cgrps s d)"
    using I(1,2) by (simp_all add: s0_def nfd_off_upd_cgrp effective_def)
  have sub: "set (pre_order ?T c) = {d. in_subtree ?T c d}" by (rule set_pre_order [OF ok cT])
  have e: "e_freeze (cgrps s d) = int (length (freezers s d))" "CGRP_FREEZE (cgrps s d) \<longleftrightarrow> 0 < e_freeze (cgrps s d)"
    if "alive s d" for d using I(5) that by (simp_all add: efreeze_ok_def)
  have "1 \<le> e_freeze (cgrps s d)" if "in_subtree ?T c d" "alive s d" "\<not> b" for d
    using that False e(1) [OF that(2)] by (auto simp: in_subtree_def freezers_def Suc_le_eq filter_empty_conv)
  then have "b \<or> (\<forall>d \<in> set (pre_order ?T c). dead s0 d \<or> 1 \<le> e_freeze (cgrps s0 d))"
    by (auto simp: sub s0 alive_def in_subtree_def)
  from freeze_turns_ok [OF s0(1) _ distinct_pre_order [OF ok] s0(2) this, of False]
  have T: "quiet s0 s1" "nfd_off (\<lambda>_. 0) s1" "warned_once s1 = warned_once s"
    "\<And>d. effective s1 d = (if in_subtree ?T c d \<and> \<not> dead s d then turned b (effective s d) else effective s d)"
    by (auto simp: s1_def sub s0 in_subtree_def)
  note q = quietD [OF T(1)]
  have sh: "shape_ok s1" "alive s1 = alive s" "below s1 = below s"
    using shape_cong [OF q(1,2)] s0 by simp_all
  have "freezers s1 d = filter ((\<lambda>a. freeze (cgrps s a))(c := b)) (d # ancestors (tpar ?T) d)" for d
    unfolding freezers_def q(1) s0(3) by (rule filter_cong) (simp_all add: q(7) s0(11))
  then have len: "int (length (freezers s1 d)) = int (length (freezers s d))
      + (if in_subtree ?T c d then if b then 1 else -1 else 0)" if "alive s d" for d
    using length_filter_flip [OF distinct_self_ancestors [of d "tpar ?T"], of "\<lambda>a. freeze (cgrps s a)" c b] False that
    by (simp add: freezers_def in_subtree_def alive_def)
  have "efreeze_ok s1"
    unfolding efreeze_ok_def sh
  proof (intro allI impI)
    fix d assume d: "alive s d"
    then show "e_freeze (cgrps s1 d) = int (length (freezers s1 d))
        \<and> (CGRP_FREEZE (cgrps s1 d) \<longleftrightarrow> 0 < e_freeze (cgrps s1 d))"
      using T(4) [of d] len [OF d] e [OF d]
      by (cases b) (auto simp: effective_def turned_def alive_def Let_def split: if_splits)
  qed
  moreover have "tasks_ok s1" using I(3) by (simp add: tasks_ok_def sh q s0)
  moreover have "counts_ok s1" using I(4) by (simp add: counts_ok_def sh q s0 frozen_in_def)
  ultimately have s1: "fz_inv s1" using T(2,3) sh(1) I(6) by (simp add: fz_inv_def)
  have n: "fz_inv (cgroup_file_notify c s1)"
    by (rule fz_inv_cong [OF s1]) (use fz_invD(2) [OF s1] in simp_all)
  have "cgroup_freeze c b s = (if \<not> fst (fold (freeze_turn b) (pre_order ?T c) (False, s0)) then cgroup_file_notify c s1 else s1)"
    using False ok cT by (simp add: cgroup_freeze_def Let_def split_beta s1_def s0_def)
  with s1 n show ?thesis by simp
qed

subsection \<open>The hierarchy as a state machine\<close>

text \<open>
  What the callers guarantee: a task that freezes itself is linked and no kernel thread, a task
  leaves the frozen state only out of it, an exiting task has left it, a new task starts outside,
  migration goes to a live cgroup, and the root is never removed.
\<close>

inductive fz_step :: "fz \<Rightarrow> fz \<Rightarrow> bool" where
  mkdir: "\<forall>d \<in> set (tcss (ztree s)). d < c \<Longrightarrow> p \<in> set (tcss (ztree s)) \<Longrightarrow>
    cgroup_mkdir name err setup c p s = (r, s') \<Longrightarrow> fz_step s s'"
| rmdir: "c \<in> set (tcss (ztree s)) \<Longrightarrow> tpar (ztree s) c \<noteq> None \<Longrightarrow> cgroup_rmdir c s = (r, s') \<Longrightarrow> fz_step s s'"
| migrate: "t \<in> set (linked s) \<Longrightarrow> alive s dst \<Longrightarrow> fz_step s (cgroup_migrate_one t dst s)"
| post_fork: "t \<in> set (linked s) \<Longrightarrow> child \<notin> set (linked s) \<Longrightarrow> \<not> frozen (tasks s child) \<Longrightarrow>
    fz_step s (cgroup_post_fork t child s)"
| exit: "\<not> frozen (tasks s t) \<Longrightarrow> fz_step s (cgroup_exit t s)"
| enter: "t \<in> set (linked s) \<Longrightarrow> \<not> kthread (tasks s t) \<Longrightarrow> fz_step s (cgroup_enter_frozen t s)"
| leave: "t \<in> set (linked s) \<Longrightarrow> frozen (tasks s t) \<Longrightarrow> fz_step s (cgroup_leave_frozen al t s)"
| write_freeze: "c \<in> set (tcss (ztree s)) \<Longrightarrow> cgroup_freeze_write k c buf n s = (r, s') \<Longrightarrow> fz_step s s'"
| write_max_descendants: "cgroup_max_descendants_write k c buf n s = (r, s') \<Longrightarrow> fz_step s s'"
| write_max_depth: "cgroup_max_depth_write k c buf n s = (r, s') \<Longrightarrow> fz_step s s'"

lemma create_alive:
  assumes "cgroup_create 0 c p s = (0, s')"
  shows "alive s' c"
  using assms distinct_ancestors
  by (auto simp: cgroup_create_def Let_def alive_def fold_upd_cgrp)

lemma create_result: "cgroup_create err c p s = (r, s') \<Longrightarrow> r = err"
  by (auto simp: cgroup_create_def Let_def split: if_splits)

lemma mkdir_inv:
  assumes inv: "fz_inv s" and new: "\<forall>d \<in> set (tcss (ztree s)). d < c" and p: "p \<in> set (tcss (ztree s))"
    and mk: "cgroup_mkdir name err setup c p s = (r, s')"
  shows "fz_inv s'"
proof -
  obtain r1 s1 where s1: "cgroup_create err c p s = (r1, s1)" by (cases "cgroup_create err c p s")
  show ?thesis
  proof (cases "dead s p")
    case False
    with p have i1: "fz_inv s1" using create_inv [OF inv new _ s1] by (simp add: alive_def)
    have "fz_inv (snd (cgroup_destroy_locked c s1))" if "r1 = 0"
    proof -
      have "alive s1 c" using create_alive s1 create_result [OF s1] that by blast
      then show ?thesis using destroy_inv [OF i1, of c] by (metis prod.collapse)
    qed
    with i1 inv mk s1 show ?thesis by (auto simp: cgroup_mkdir_def split: if_splits)
  qed (use inv mk in \<open>auto simp: cgroup_mkdir_def split: if_splits\<close>)
qed

lemma limit_inv: "fz_inv s \<Longrightarrow> fz_inv (upd_cgrp c (max_descendants_update f) s)"
    "fz_inv s \<Longrightarrow> fz_inv (upd_cgrp c (max_depth_update f) s)"
proof -
  assume inv: "fz_inv s"
  note I = fz_invD [OF inv]
  let ?a = "upd_cgrp c (max_descendants_update f) s" and ?b = "upd_cgrp c (max_depth_update f) s"
  have "frozen_in ?a = frozen_in s" "frozen_in ?b = frozen_in s" by (simp_all add: frozen_in_def fun_eq_iff)
  moreover have "efreeze_ok ?a" "efreeze_ok ?b" by (rule efreeze_cong [OF I(5)]; simp)+
  ultimately show "fz_inv ?a" "fz_inv ?b"
    using I by (simp_all add: fz_inv_def tasks_ok_def counts_ok_def nfd_off_upd_cgrp)
qed

lemma fz_step_inv: "fz_step s s' \<Longrightarrow> fz_inv s \<Longrightarrow> fz_inv s'"
proof (induction rule: fz_step.induct)
  case (mkdir s c p name err st r s')
  then show ?case using mkdir_inv by blast
next
  case (rmdir c s r s')
  then show ?case using destroy_inv [of s c] by (auto simp: cgroup_rmdir_def alive_def split: if_splits)
next
  case (write_freeze c s k buf n r s')
  then show ?case
    using freeze_inv [of s c] by (auto simp: cgroup_freeze_write_def alive_def split: sum.splits if_splits)
qed (auto simp: fz_migrate_inv fork_inv exit_inv enter_inv leave_inv cgroup_max_descendants_write_def
    cgroup_max_depth_write_def cgroup_limit_write_def Let_def limit_inv split: sum.splits if_splits)

interpretation freezer: kept_invariant fz_step fz_inv
  by unfold_locales (rule fz_step_inv)

end
