(* ===== verification/Freezer_Props.thy ===== *)
theory Freezer_Props
  imports Freezer_Steps
begin

section \<open>What the freezer promises\<close>

text \<open>
  The exact meaning of the counters and flags in every reachable state, how the frozen state travels
  up the tree, where it is reported too early, and the limits on the creation of cgroups.
\<close>

subsection \<open>The way up\<close>

lemma propagate_other:
  "c \<notin> set ps \<Longrightarrow> cgrps (propagate fr n ps s) c = cgrps s c"
  by (induction ps arbitrary: n s) (auto simp: Let_def)

lemma propagate_frozen:
  assumes "distinct ps" and "a \<in> set ps"
  shows "CGRP_FROZEN (cgrps (propagate True n ps s) a) \<longleftrightarrow> CGRP_FROZEN (cgrps s a) \<or>
    CGRP_FREEZE (cgrps s a) \<and> nr_frozen_descendants (cgrps (propagate True n ps s) a) = nr_descendants (cgrps s a)"
  using assms
proof (induction ps arbitrary: n s)
  case Nil
  then show ?case by simp
next
  case (Cons p ps)
  show ?case
  proof (cases "a = p")
    case True
    with Cons.prems(1) show ?thesis by (auto simp: Let_def propagate_other)
  next
    case False
    with Cons.prems have "distinct ps" "a \<in> set ps" by simp_all
    from Cons.IH [OF this] False show ?thesis by (simp add: Let_def)
  qed
qed

lemma propagate_thawed:
  assumes "distinct ps" and "a \<in> set ps"
  shows "\<not> CGRP_FROZEN (cgrps (propagate False n ps s) a)"
  using assms by (induction ps arbitrary: n s) (auto simp: Let_def propagate_other)

lemma update_frozen_eq:
  "cgroup_update_frozen c s = (let fr = (CGRP_FREEZE (cgrps s c) \<and> nr_frozen_tasks (cgrps s c) = cgroup_task_count c s);
      s1 = cgroup_file_notify c (upd_cgrp c (\<lambda>g. g\<lparr>CGRP_FROZEN := fr\<rparr>) s) in
    if fr = CGRP_FROZEN (cgrps s c) then s else propagate fr 1 (ancestors (tpar (ztree s)) c) s1)"
  by (simp add: cgroup_update_frozen_def cgroup_propagate_frozen_def Let_def)

lemma frozen_below_full:
  "card (frozen_below s a) = card (below s a) \<longleftrightarrow> (\<forall>d \<in> below s a. CGRP_FROZEN (cgrps s d))"
proof
  assume "card (frozen_below s a) = card (below s a)"
  then have "frozen_below s a = below s a" by (intro card_subset_eq) (auto simp: frozen_below_def)
  then show "\<forall>d \<in> below s a. CGRP_FROZEN (cgrps s d)" by (auto simp: frozen_below_def)
next
  assume "\<forall>d \<in> below s a. CGRP_FROZEN (cgrps s d)"
  then have "frozen_below s a = below s a" by (auto simp: frozen_below_def)
  then show "card (frozen_below s a) = card (below s a)" by simp
qed

subsection \<open>A small hierarchy\<close>

text \<open>A cgroup 1 with a child 2, one task in each.\<close>

definition demo_task :: "nat \<Rightarrow> task" where
  "demo_task t = \<lparr>tcgrp = (if t = 10 then 1 else 2), frozen = False, trap_freeze = False, sigpending = False,
     kthread = False, sighand = True\<rparr>"

definition demo_fz :: fz where
  "demo_fz = \<lparr>ztree = \<lparr>tpar = [1 \<mapsto> 0, 2 \<mapsto> 1], tcss = [0, 1, 2], released = (\<lambda>_. False)\<rparr>, dead = (\<lambda>_. False),
     cgrps = (\<lambda>c. (new_cgrp 0)\<lparr>nr_descendants := (if c < 2 then 2 - int c else 0)\<rparr>), linked = [10, 11],
     tasks = demo_task, notified = [], warned_once = False\<rparr>"

lemma demo_fz_ancestors: "ancestors (tpar (ztree demo_fz)) 2 = [1, 0]" "ancestors (tpar (ztree demo_fz)) 1 = [0]"
    "ancestors (tpar (ztree demo_fz)) 0 = []"
  by (simp_all add: demo_fz_def ancestors_Some)

lemma demo_fz_inv: "fz_inv demo_fz"
proof -
  have css: "tcss (ztree demo_fz) = [0, 1, 2]" "dead demo_fz = (\<lambda>_. False)" "linked demo_fz = [10, 11]"
    "tasks demo_fz = demo_task" "\<not> warned_once demo_fz"
    by (simp_all add: demo_fz_def)
  have b: "below demo_fz c = (if c = 0 then {1, 2} else if c = 1 then {2} else {})" for c
  proof -
    have "d \<in> below demo_fz c \<longleftrightarrow> (d = 1 \<and> c = 0) \<or> (d = 2 \<and> (c = 0 \<or> c = 1))" for d
      using demo_fz_ancestors by (cases "d = 0"; cases "d = 1"; cases "d = 2") (auto simp: below_def css)
    then show ?thesis by auto
  qed
  have "shape_ok demo_fz" by (auto simp: shape_ok_def demo_fz_def css_tree_ok_def tree_ok_def split: if_splits)
  moreover have "frozen_below demo_fz c = {}" for c
    by (auto simp: frozen_below_def) (simp add: demo_fz_def new_cgrp_def)
  then have "nfd_off (\<lambda>_. 0) demo_fz" by (simp add: nfd_off_def) (simp add: demo_fz_def new_cgrp_def)
  moreover have "tasks_ok demo_fz" by (simp add: tasks_ok_def alive_def css demo_task_def)
  moreover have "counts_ok demo_fz"
    unfolding counts_ok_def b frozen_in_def css by (auto simp: demo_task_def) (auto simp: demo_fz_def new_cgrp_def)
  moreover have "efreeze_ok demo_fz" by (simp add: efreeze_ok_def freezers_def demo_fz_def new_cgrp_def)
  ultimately show ?thesis using css(5) by (simp add: fz_inv_def)
qed

definition demo_freezing :: fz where
  "demo_freezing = cgroup_freeze 1 True demo_fz"

lemma demo_freezing_inv: "fz_inv demo_freezing"
  unfolding demo_freezing_def using demo_fz_inv by (rule freeze_inv) (simp add: alive_def demo_fz_def)

lemma demo_freezing_facts:
  "linked demo_freezing = [10, 11]" "tcgrp (tasks demo_freezing 10) = 1" "tcgrp (tasks demo_freezing 11) = 2"
  "\<not> frozen (tasks demo_freezing 10)" "\<not> frozen (tasks demo_freezing 11)" "\<not> kthread (tasks demo_freezing 10)"
  "CGRP_FREEZE (cgrps demo_freezing 1)" "nr_frozen_tasks (cgrps demo_freezing 1) = 0"
  "cgroup_task_count 1 demo_freezing = 1" "ancestors (tpar (ztree demo_freezing)) 2 = [1, 0]"
  "\<not> CGRP_FROZEN (cgrps demo_freezing 1)" "alive demo_freezing 1"
  by code_simp+

subsection \<open>Properties\<close>

text \<open>C10: in every reachable state the freezer's bookkeeping is exact for every live cgroup: it counts
  its live descendants, its frozen live descendants and its own frozen tasks, its effective freeze
  counter is the number of cgroups from it to the root that were set to freeze, it has to freeze
  exactly when there is one, and none of the kernel's warnings about the counters has fired.\<close>

theorem freezer_counters_exact:
  assumes "fz_step\<^sup>*\<^sup>* s0 s" and "fz_inv s0" and "alive s c"
  shows "nr_descendants (cgrps s c) = int (card (below s c))
    \<and> nr_frozen_descendants (cgrps s c) = int (card {d \<in> below s c. CGRP_FROZEN (cgrps s d)})
    \<and> nr_frozen_tasks (cgrps s c) = int (card {t \<in> set (linked s). frozen (tasks s t) \<and> tcgrp (tasks s t) = c})
    \<and> e_freeze (cgrps s c) = int (length (filter (\<lambda>a. freeze (cgrps s a)) (c # ancestors (tpar (ztree s)) c)))
    \<and> (CGRP_FREEZE (cgrps s c) \<longleftrightarrow> (\<exists>a \<in> set (c # ancestors (tpar (ztree s)) c). freeze (cgrps s a)))
    \<and> \<not> warned_once s"
proof -
  have "fz_inv s" using assms(1,2) by (rule freezer.reachable_inv)
  note I = fz_invD [OF this]
  have c: "c \<in> set (tcss (ztree s))" using assms(3) by (simp add: alive_def)
  have e: "e_freeze (cgrps s c) = int (length (freezers s c))" "CGRP_FREEZE (cgrps s c) \<longleftrightarrow> 0 < e_freeze (cgrps s c)"
    using I(5) assms(3) by (simp_all add: efreeze_ok_def)
  have "0 < length (freezers s c) \<longleftrightarrow> (\<exists>a \<in> set (c # ancestors (tpar (ztree s)) c). freeze (cgrps s a))"
    unfolding freezers_def length_greater_0_conv filter_empty_conv by blast
  with e I(2,4,6) c show ?thesis
    unfolding freezers_def [symmetric] by (simp add: nfd_off_def counts_ok_def frozen_below_def frozen_in_def)
qed

theorem freezer_counters_exact_witness:
  "nr_descendants (cgrps demo_freezing 1) = int (card (below demo_freezing 1)) \<and> \<not> warned_once demo_freezing"
  using freezer_counters_exact [OF rtranclp.rtrancl_refl demo_freezing_inv demo_freezing_facts(12)] by blast

text \<open>C29: the frozen state travels up exactly.  When a cgroup's own state is revisited it is frozen
  exactly when it has to freeze and all its tasks are frozen.  When it becomes frozen, an ancestor
  is frozen afterwards exactly when it was before, or has to freeze and every live descendant of
  it is frozen now; when it stops being frozen, no ancestor is frozen; no other cgroup changes.\<close>

theorem freezer_propagates:
  assumes "fz_inv s" and "alive s c"
  defines "s' \<equiv> cgroup_update_frozen c s"
    and "A \<equiv> set (ancestors (tpar (ztree s)) c)"
  shows "(CGRP_FROZEN (cgrps s' c) \<longleftrightarrow> CGRP_FREEZE (cgrps s c) \<and> nr_frozen_tasks (cgrps s c) = cgroup_task_count c s)
    \<and> (\<not> CGRP_FROZEN (cgrps s c) \<and> CGRP_FROZEN (cgrps s' c) \<longrightarrow> (\<forall>a \<in> A. CGRP_FROZEN (cgrps s' a) \<longleftrightarrow>
        CGRP_FROZEN (cgrps s a) \<or> CGRP_FREEZE (cgrps s a) \<and> (\<forall>d \<in> below s a. CGRP_FROZEN (cgrps s' d))))
    \<and> (CGRP_FROZEN (cgrps s c) \<and> \<not> CGRP_FROZEN (cgrps s' c) \<longrightarrow> (\<forall>a \<in> A. \<not> CGRP_FROZEN (cgrps s' a)))
    \<and> (\<forall>d. d \<notin> insert c A \<longrightarrow> cgrps s' d = cgrps s d)"
proof -
  note I = fz_invD [OF assms(1)]
  define fr where "fr \<longleftrightarrow> CGRP_FREEZE (cgrps s c) \<and> nr_frozen_tasks (cgrps s c) = cgroup_task_count c s"
  define s1 where "s1 = cgroup_file_notify c (upd_cgrp c (\<lambda>g. g\<lparr>CGRP_FROZEN := fr\<rparr>) s)"
  have s': "s' = (if fr = CGRP_FROZEN (cgrps s c) then s else propagate fr 1 (ancestors (tpar (ztree s)) c) s1)"
    by (simp add: s'_def update_frozen_eq Let_def fr_def [symmetric] s1_def)
  have cA: "c \<notin> A" using ancestors_less [of c "tpar (ztree s)" c] by (auto simp: A_def)
  have own: "CGRP_FROZEN (cgrps s' c) = fr"
    using cA by (simp add: s' propagate_other A_def s1_def)
  have other: "cgrps s' d = cgrps s d" if "d \<notin> insert c A" for d
    using that by (simp add: s' propagate_other A_def s1_def)
  have "nfd_off (\<lambda>_. 0) s'" unfolding s'_def by (rule update_frozen_nfd [OF I(1) assms(2) I(2)])
  then have nfd: "nr_frozen_descendants (cgrps s' a) = int (card (frozen_below s' a))" if "a \<in> A" for a
    using that ancestors_in_css [of "ztree s" c] I(1) assms(2)
    by (auto simp: nfd_off_def s'_def A_def shape_ok_def alive_def)
  have nd: "nr_descendants (cgrps s a) = int (card (below s a))" if "a \<in> A" for a
    using that ancestors_in_css [of "ztree s" c] I(1,4) assms(2) by (auto simp: A_def shape_ok_def alive_def counts_ok_def)
  have up: "CGRP_FROZEN (cgrps s' a) \<longleftrightarrow> CGRP_FROZEN (cgrps s a) \<or>
      CGRP_FREEZE (cgrps s a) \<and> (\<forall>d \<in> below s a. CGRP_FROZEN (cgrps s' d))"
    if "\<not> CGRP_FROZEN (cgrps s c)" "fr" "a \<in> A" for a
  proof -
    have "a \<noteq> c" using cA that(3) by blast
    then have "CGRP_FROZEN (cgrps s' a) \<longleftrightarrow> CGRP_FROZEN (cgrps s a) \<or>
        CGRP_FREEZE (cgrps s a) \<and> nr_frozen_descendants (cgrps s' a) = nr_descendants (cgrps s a)"
      using propagate_frozen [OF distinct_ancestors, of a "tpar (ztree s)" c 1 s1] that
      by (simp add: s' A_def s1_def)
    moreover have "below s' a = below s a" by (simp add: s'_def)
    ultimately show ?thesis using nfd [OF that(3)] nd [OF that(3)] frozen_below_full [of s' a] by simp
  qed
  have down: "\<not> CGRP_FROZEN (cgrps s' a)" if "CGRP_FROZEN (cgrps s c)" "\<not> fr" "a \<in> A" for a
    using propagate_thawed [OF distinct_ancestors, of a "tpar (ztree s)" c 1 s1] that by (simp add: s' A_def)
  show ?thesis using own up down other fr_def by blast
qed

theorem freezer_propagates_witness:
  "CGRP_FROZEN (cgrps (cgroup_update_frozen 1 demo_freezing) 1) \<longleftrightarrow>
     CGRP_FREEZE (cgrps demo_freezing 1) \<and> nr_frozen_tasks (cgrps demo_freezing 1) = cgroup_task_count 1 demo_freezing"
  using freezer_propagates [OF demo_freezing_inv demo_freezing_facts(12)] by blast

text \<open>The file \<open>cgroup.events\<close> reports a subtree frozen too early.  When the last running task of a cgroup
  itself enters the frozen state, the cgroup shows \<open>frozen 1\<close> although a task in one of its
  descendants still runs: the descendants are not looked at on this path.\<close>

theorem freezer_reports_early:
  assumes "t \<in> set (linked s)" and "\<not> frozen (tasks s t)" and "tcgrp (tasks s t) = c" and "CGRP_FREEZE (cgrps s c)"
    and "nr_frozen_tasks (cgrps s c) + 1 = cgroup_task_count c s"
    and "u \<in> set (linked s)" and "\<not> frozen (tasks s u)" and "c \<in> set (ancestors (tpar (ztree s)) (tcgrp (tasks s u)))"
  defines "s' \<equiv> cgroup_enter_frozen t s"
  shows "CGRP_FROZEN (cgrps s' c) \<and> u \<in> set (linked s') \<and> \<not> frozen (tasks s' u)
    \<and> c \<in> set (ancestors (tpar (ztree s')) (tcgrp (tasks s' u)))"
proof -
  let ?s1 = "cgroup_inc_frozen_cnt c (upd_task t (\<lambda>t. t\<lparr>frozen := True\<rparr>) s)"
  have s': "s' = cgroup_update_frozen c ?s1"
    using assms(2,3) by (simp add: s'_def cgroup_enter_frozen_def Let_def)
  have ut: "u \<noteq> t" using assms(3,8) ancestors_less [of c "tpar (ztree s)" c] by auto
  have "cgroup_tasks ?s1 c = cgroup_tasks s c" by (auto simp: cgroup_tasks_def intro!: filter_cong)
  then have fr: "CGRP_FREEZE (cgrps ?s1 c) \<and> nr_frozen_tasks (cgrps ?s1 c) = cgroup_task_count c ?s1"
    using assms(4,5) by (simp add: cgroup_task_count_def)
  have "c \<notin> set (ancestors (tpar (ztree ?s1)) c)" using ancestors_less by blast
  then have "CGRP_FROZEN (cgrps s' c)"
    using fr unfolding s' update_frozen_eq Let_def by (auto simp: propagate_other)
  with ut assms(6-8) show ?thesis by (simp add: s')
qed

theorem freezer_reports_early_witness:
  "CGRP_FROZEN (cgrps (cgroup_enter_frozen 10 demo_freezing) 1)
   \<and> 11 \<in> set (linked (cgroup_enter_frozen 10 demo_freezing))
   \<and> \<not> frozen (tasks (cgroup_enter_frozen 10 demo_freezing) 11)"
  using freezer_reports_early [of 10 demo_freezing 1 11] demo_freezing_facts by simp

lemma check_limits_iff:
  "check_limits l cs s \<longleftrightarrow> (\<forall>i < length cs. nr_descendants (cgrps s (cs ! i)) < max_descendants (cgrps s (cs ! i))
     \<and> l + int i \<le> max_depth (cgrps s (cs ! i)))"
proof (induction cs arbitrary: l)
  case Nil
  then show ?case by simp
next
  case (Cons c cs)
  have split: "(\<forall>i < length (c # cs). P i) \<longleftrightarrow> P 0 \<and> (\<forall>i < length cs. P (Suc i))" for P
    by (simp add: All_less_Suc2)
  show ?case unfolding split by (simp add: Cons.IH add.assoc not_le not_less)
qed

lemma hierarchy_limits_iff:
  assumes "fz_inv s" and "alive s p"
  defines "path \<equiv> p # ancestors (tpar (ztree s)) p"
  shows "cgroup_check_hierarchy_limits p s \<longleftrightarrow> (\<forall>i < length path.
    int (card (below s (path ! i))) < max_descendants (cgrps s (path ! i)) \<and> int i + 1 \<le> max_depth (cgrps s (path ! i)))"
proof -
  note I = fz_invD [OF assms(1)]
  have sub: "set path \<subseteq> set (tcss (ztree s))"
    using assms(2) I(1) ancestors_in_css [of "ztree s" p] by (auto simp: path_def shape_ok_def alive_def)
  have "nr_descendants (cgrps s (path ! i)) = int (card (below s (path ! i)))" if "i < length path" for i
  proof -
    have "path ! i \<in> set (tcss (ztree s))" using that sub nth_mem by blast
    then show ?thesis using I(4) by (simp add: counts_ok_def)
  qed
  moreover have "cgroup_check_hierarchy_limits p s = check_limits 1 path s"
    by (simp add: cgroup_check_hierarchy_limits_def path_def)
  ultimately show ?thesis unfolding check_limits_iff by (simp add: add.commute)
qed

lemma destroy_ztree [simp]: "ztree (snd (cgroup_destroy_locked c s)) = ztree s"
  by (simp add: cgroup_destroy_locked_def Let_def fold_upd_cgrp distinct_ancestors)

lemma destroy_fresh:
  assumes "fz_inv s" and new: "\<forall>d \<in> set (tcss (ztree s)). d < c" and "alive s p"
    and create: "cgroup_create 0 c p s = (r, s1)" and "a \<in> set (tcss (ztree s))"
  shows "below (snd (cgroup_destroy_locked c s1)) a = below s a \<and> dead (snd (cgroup_destroy_locked c s1)) c"
proof -
  note I = fz_invD [OF assms(1)]
  note F = create_frames [OF I(1) new assms(3) create]
  have "\<not> in_subtree (ztree s1) c d" if "d \<in> set (tcss (ztree s))" for d
    using new that F(2) [OF that] ancestors_less [of c "tpar (ztree s)" d] by (auto simp: in_subtree_def)
  then have "\<not> cgroup_is_populated c s1"
    using I(3) by (auto simp: cgroup_is_populated_def F(6,7) tasks_ok_def alive_def)
  moreover have "kids (ztree s1) c = []"
  proof -
    have "tree_ok (tpar (ztree s))" using I(1) by (simp add: shape_ok_def css_tree_ok_def)
    then have "tpar (ztree s1) d \<noteq> Some c" if "d \<in> set (tcss (ztree s1))" for d
      using new that assms(3) by (auto simp: F(3,4) tree_ok_def alive_def dest: less_asym)
    then show ?thesis by (auto simp: kids_def children_def filter_empty_conv)
  qed
  ultimately have "dead (snd (cgroup_destroy_locked c s1)) = (dead s1)(c := True)"
    by (simp add: cgroup_destroy_locked_def Let_def fold_upd_cgrp distinct_ancestors)
  then have "below (snd (cgroup_destroy_locked c s1)) a = below s1 a - {c}" "dead (snd (cgroup_destroy_locked c s1)) c"
    by (auto simp: below_def)
  moreover have "c \<notin> below s a" using F(13) by (simp add: below_def)
  ultimately show ?thesis using F(10) [of a] by (auto split: if_splits)
qed

text \<open>C30: the limits of the hierarchy hold.  \<open>cgroup_mkdir\<close> answers with the first thing that stands in
  its way: a line feed in the name, a limit on the number of descendants or on the depth of the
  parent or of one of its ancestors, a failing allocation, a failing set-up of the directory.  When
  it succeeds, the new cgroup lives, exactly the cgroups on its path have one descendant more and
  none of them has more than it allows; when it fails, the descendants of every cgroup and their
  counter are as before.\<close>

theorem cgroup_mkdir_limits:
  assumes "fz_inv s" and "\<forall>d \<in> set (tcss (ztree s)). d < c" and "alive s p"
    and "cgroup_mkdir name err st c p s = (r, s')"
  defines "path \<equiv> p # ancestors (tpar (ztree s)) p"
  shows "r = (if CHR 0x0A \<in> set name then - EINVAL
      else if \<exists>i < length path. max_descendants (cgrps s (path ! i)) \<le> int (card (below s (path ! i)))
        \<or> max_depth (cgrps s (path ! i)) \<le> int i then - EAGAIN
      else if err \<noteq> 0 then err else st)
    \<and> (r = 0 \<longrightarrow> alive s' c \<and> (\<forall>a \<in> set path. below s' a = insert c (below s a)
        \<and> int (card (below s' a)) \<le> max_descendants (cgrps s' a)))
    \<and> (\<forall>a \<in> set (tcss (ztree s)). a \<notin> set path \<or> r \<noteq> 0 \<longrightarrow>
        below s' a = below s a \<and> nr_descendants (cgrps s' a) = nr_descendants (cgrps s a))"
proof -
  note I = fz_invD [OF assms(1)]
  define full where "full \<longleftrightarrow> (\<exists>i < length path. max_descendants (cgrps s (path ! i)) \<le> int (card (below s (path ! i)))
        \<or> max_depth (cgrps s (path ! i)) \<le> int i)"
  have lim: "cgroup_check_hierarchy_limits p s \<longleftrightarrow> \<not> full"
    unfolding hierarchy_limits_iff [OF assms(1,3)] path_def [symmetric] full_def by (auto simp: not_le) 
  obtain r1 s1 where s1: "cgroup_create err c p s = (r1, s1)" by (cases "cgroup_create err c p s")
  have r1: "r1 = err" by (rule create_result [OF s1])
  have stay: "s1 = s" if "err \<noteq> 0" using s1 that by (simp add: cgroup_create_def)
  have run: "r = (if CHR 0x0A \<in> set name then - EINVAL else if full then - EAGAIN else if err \<noteq> 0 then err else st)"
      "s' = (if CHR 0x0A \<in> set name \<or> full \<or> err \<noteq> 0 then s else if st \<noteq> 0 then snd (cgroup_destroy_locked c s1) else s1)"
    using assms(3,4) s1 r1 stay by (auto simp: cgroup_mkdir_def alive_def lim split: if_splits)
  have live: "fz_inv s'" using mkdir_inv [OF assms(1,2) _ assms(4)] assms(3) by (simp add: alive_def)
  have same: "below s' a = below s a" if "a \<in> set (tcss (ztree s))" "a \<notin> set path \<or> r \<noteq> 0" for a
  proof -
    have "below s1 a = below s a" if "err = 0" "a \<notin> set path"
      using create_frames(10) [OF I(1) assms(2,3) s1 [unfolded that(1)], of a] that(2) by (simp add: path_def)
    moreover have "below (snd (cgroup_destroy_locked c s1)) a = below s a" if "err = 0"
      using destroy_fresh [OF assms(1-3) s1 [unfolded that]] \<open>a \<in> set (tcss (ztree s))\<close> by blast
    ultimately show ?thesis using that(2) run by (auto split: if_splits)
  qed
  have sub: "set (tcss (ztree s)) \<subseteq> set (tcss (ztree s'))"
    using create_frames(4) [OF I(1) assms(2,3)] s1 run(2) by (cases "err = 0") auto
  have cnt: "nr_descendants (cgrps s' a) = nr_descendants (cgrps s a)" if "a \<in> set (tcss (ztree s))" "below s' a = below s a" for a
    using that sub I(4) fz_invD(4) [OF live] unfolding counts_ok_def by auto
  have good: "alive s' c \<and> (\<forall>a \<in> set path. below s' a = insert c (below s a)
      \<and> int (card (below s' a)) \<le> max_descendants (cgrps s' a))" if "r = 0"
  proof -
    have ok: "\<not> full" "err = 0" "s' = s1"
      using that run by (auto simp: EINVAL_def EAGAIN_def split: if_splits)
    note F = create_frames [OF I(1) assms(2,3) s1 [unfolded ok(2)], folded path_def]
    have "int (card (below s1 a)) \<le> max_descendants (cgrps s1 a)" if "a \<in> set path" for a
    proof -
      obtain i where i: "i < length path" "path ! i = a" using \<open>a \<in> set path\<close> by (auto simp: in_set_conv_nth)
      then have "int (card (below s a)) < max_descendants (cgrps s a)" using ok(1) by (auto simp: full_def not_le)
      moreover have "c \<notin> below s a" using F(13) by (simp add: below_def)
      ultimately show ?thesis using that F(9) [of a] F(10) [of a] F(12) by (auto simp: Let_def)
    qed
    moreover have "alive s1 c" using create_alive s1 r1 ok(2) by blast
    ultimately show ?thesis using F(10) ok(3) by auto
  qed
  show ?thesis using run(1) good same cnt unfolding full_def by blast
qed

theorem cgroup_mkdir_limits_witness:
  "fst (cgroup_mkdir ''job'' 0 0 3 1 demo_freezing) = 0
   \<and> below (snd (cgroup_mkdir ''job'' 0 0 3 1 demo_freezing)) 1 = insert 3 (below demo_freezing 1)"
proof -
  have css: "\<forall>d \<in> set (tcss (ztree demo_freezing)). d < 3" by code_simp
  have r: "fst (cgroup_mkdir ''job'' 0 0 3 1 demo_freezing) = 0" by code_simp
  from cgroup_mkdir_limits [OF demo_freezing_inv css demo_freezing_facts(12) prod.collapse [symmetric], of "''job''" 0 0]
  show ?thesis unfolding r by simp
qed

end
