(* ===== verification/Rstat.thy ===== *)
theory Rstat
  imports CssWalk
begin

section \<open>Statistics of cgroups\<close>

text \<open>
  \<open>cgroup/rstat.c\<close>: per-CPU statistics that are collected only where something changed.  For every
  CPU the cgroups with news are linked into a tree: \<open>updated_children\<close> is the first updated child
  and \<open>updated_next\<close> the next sibling; a list of children ends with the parent itself, and a cgroup
  that is on no list has no \<open>updated_next\<close>.  A flush of a cgroup takes its subtree off the tree,
  children before parents, and adds what is new to the global statistics.  Every operation is one
  step; a loop over the tree that would not end, or follow a null pointer, has no result.
\<close>

subsection \<open>State\<close>

record task_cputime =
  utime :: "64 word"
  stime :: "64 word"
  sum_exec_runtime :: "64 word"

record cgroup_rstat_cpu =
  updated_children :: nat
  updated_next :: "nat option"
  cbstat :: task_cputime
  last_bstat :: task_cputime

record rstat_cgroup =
  pending_bstat :: task_cputime
  bstat :: task_cputime

text \<open>\<open>rcpu s c cpu\<close> is \<open>per_cpu_ptr(c->rstat_cpu, cpu)\<close>; \<open>allocated\<close> tells whether \<open>rstat_cpu\<close> is not null.
  \<open>css_flushed\<close> records the calls of the controllers' \<open>css_rstat_flush\<close>, oldest first.\<close>

record rstat =
  rtree :: css_tree
  ncpu :: nat
  rcpu :: "nat \<Rightarrow> nat \<Rightarrow> cgroup_rstat_cpu"
  rcg :: "nat \<Rightarrow> rstat_cgroup"
  allocated :: "nat \<Rightarrow> bool"
  css_flushed :: "(nat \<times> nat) list"
  rstat_warned :: bool

definition zero_cputime :: task_cputime where
  "zero_cputime = \<lparr>utime = 0, stime = 0, sum_exec_runtime = 0\<rparr>"

definition upd_cpu :: "nat \<Rightarrow> nat \<Rightarrow> (cgroup_rstat_cpu \<Rightarrow> cgroup_rstat_cpu) \<Rightarrow> rstat \<Rightarrow> rstat" where
  "upd_cpu c cpu f s = s\<lparr>rcpu := (rcpu s)(c := (rcpu s c)(cpu := f (rcpu s c cpu)))\<rparr>"

definition upd_cg :: "nat \<Rightarrow> (rstat_cgroup \<Rightarrow> rstat_cgroup) \<Rightarrow> rstat \<Rightarrow> rstat" where
  "upd_cg c f s = s\<lparr>rcg := (rcg s)(c := f (rcg s c))\<rparr>"

subsection \<open>Marking\<close>

text \<open>The loop over a cgroup and its ancestors, given as a list.\<close>

fun put_updated :: "nat \<Rightarrow> nat \<Rightarrow> nat list \<Rightarrow> rstat \<Rightarrow> rstat" where
  "put_updated cpu c [] s = s"
| "put_updated cpu c (p # ps) s =
     (if updated_next (rcpu s c cpu) \<noteq> None then s
      else
        let first = updated_children (rcpu s p cpu);
            s = upd_cpu c cpu (\<lambda>r. r\<lparr>updated_next := Some first\<rparr>) s;
            s = upd_cpu p cpu (\<lambda>r. r\<lparr>updated_children := c\<rparr>) s
        in put_updated cpu p ps s)"

definition cgroup_rstat_updated :: "nat \<Rightarrow> nat \<Rightarrow> rstat \<Rightarrow> rstat" where
  "cgroup_rstat_updated c cpu s =
     (if tpar (rtree s) c = None then s
      else if updated_next (rcpu s c cpu) \<noteq> None then s
      else put_updated cpu c (ancestors (tpar (rtree s)) c) s)"

subsection \<open>Taking cgroups off the tree\<close>

partial_function (option) walk_down :: "rstat \<Rightarrow> nat \<Rightarrow> nat \<Rightarrow> nat option" where
  "walk_down s cpu pos =
     (let child = updated_children (rcpu s pos cpu)
      in if child = pos then Some pos else walk_down s cpu child)"

text \<open>The search for the link to \<open>pos\<close>: the cgroup whose \<open>updated_next\<close> it is, none for the
  parent's \<open>updated_children\<close>, and whether the search ran past the end.\<close>

partial_function (option) find_link :: "rstat \<Rightarrow> nat \<Rightarrow> nat \<Rightarrow> nat \<Rightarrow> nat option \<Rightarrow> nat \<Rightarrow> bool
    \<Rightarrow> (nat option \<times> bool) option" where
  "find_link s cpu parent pos prev cur warn =
     (if cur = pos then Some (prev, warn)
      else case updated_next (rcpu s cur cpu) of
          None \<Rightarrow> None
        | Some n \<Rightarrow> find_link s cpu parent pos (Some cur) n (warn \<or> cur = parent))"

definition unlink :: "nat \<Rightarrow> nat \<Rightarrow> nat \<Rightarrow> nat \<Rightarrow> rstat \<Rightarrow> rstat option" where
  "unlink cpu parent pos nx s =
     (case find_link s cpu parent pos None (updated_children (rcpu s parent cpu)) False of
        None \<Rightarrow> None
      | Some (link, warn) \<Rightarrow>
          let s = s\<lparr>rstat_warned := (rstat_warned s \<or> warn)\<rparr>;
              s = (case link of None \<Rightarrow> upd_cpu parent cpu (\<lambda>r. r\<lparr>updated_children := nx\<rparr>) s
                   | Some q \<Rightarrow> upd_cpu q cpu (\<lambda>r. r\<lparr>updated_next := Some nx\<rparr>) s)
          in Some (upd_cpu pos cpu (\<lambda>r. r\<lparr>updated_next := None\<rparr>) s))"

definition cgroup_rstat_cpu_pop_updated :: "nat option \<Rightarrow> nat \<Rightarrow> nat \<Rightarrow> rstat \<Rightarrow> (nat option \<times> rstat) option" where
  "cgroup_rstat_cpu_pop_updated pos root cpu s =
     (if pos = Some root then Some (None, s)
      else
        case (case pos of None \<Rightarrow> Some root | Some p \<Rightarrow> tpar (rtree s) p) of
          None \<Rightarrow> None
        | Some start \<Rightarrow>
            case walk_down s cpu start of
              None \<Rightarrow> None
            | Some pos \<Rightarrow>
                case updated_next (rcpu s pos cpu) of
                  None \<Rightarrow> Some (None, s)
                | Some nx \<Rightarrow>
                    case tpar (rtree s) pos of
                      None \<Rightarrow> None
                    | Some parent \<Rightarrow> map_option (\<lambda>s. (Some pos, s)) (unlink cpu parent pos nx s))"

subsection \<open>Flushing\<close>

definition cgroup_base_stat_accumulate :: "task_cputime \<Rightarrow> task_cputime \<Rightarrow> task_cputime" where
  "cgroup_base_stat_accumulate dst src = \<lparr>utime = utime dst + utime src, stime = stime dst + stime src,
     sum_exec_runtime = sum_exec_runtime dst + sum_exec_runtime src\<rparr>"

definition cgroup_base_stat_flush :: "nat \<Rightarrow> nat \<Rightarrow> rstat \<Rightarrow> rstat" where
  "cgroup_base_stat_flush c cpu s =
     (let cputime = cbstat (rcpu s c cpu); last = last_bstat (rcpu s c cpu);
          delta = \<lparr>utime = utime cputime - utime last, stime = stime cputime - stime last,
            sum_exec_runtime = sum_exec_runtime cputime - sum_exec_runtime last\<rparr>;
          s = upd_cpu c cpu (\<lambda>r. r\<lparr>last_bstat := cputime\<rparr>) s;
          delta = cgroup_base_stat_accumulate delta (pending_bstat (rcg s c));
          s = upd_cg c (\<lambda>g. g\<lparr>pending_bstat := zero_cputime, bstat := cgroup_base_stat_accumulate (bstat g) delta\<rparr>) s
      in case tpar (rtree s) c of None \<Rightarrow> s
         | Some p \<Rightarrow> upd_cg p (\<lambda>g. g\<lparr>pending_bstat := cgroup_base_stat_accumulate (pending_bstat g) delta\<rparr>) s)"

definition css_rstat_flush :: "nat \<Rightarrow> nat \<Rightarrow> rstat \<Rightarrow> rstat" where
  "css_rstat_flush c cpu s = s\<lparr>css_flushed := css_flushed s @ [(c, cpu)]\<rparr>"

partial_function (option) flush_cpu :: "nat \<Rightarrow> nat \<Rightarrow> nat option \<Rightarrow> rstat \<Rightarrow> rstat option" where
  "flush_cpu root cpu pos s =
     Option.bind (cgroup_rstat_cpu_pop_updated pos root cpu s) (\<lambda>(r, s).
       case r of None \<Rightarrow> Some s
       | Some p \<Rightarrow> flush_cpu root cpu (Some p) (css_rstat_flush p cpu (cgroup_base_stat_flush p cpu s)))"

fun flush_cpus :: "nat \<Rightarrow> nat list \<Rightarrow> rstat \<Rightarrow> rstat option" where
  "flush_cpus root [] s = Some s"
| "flush_cpus root (cpu # cpus) s = Option.bind (flush_cpu root cpu None s) (flush_cpus root cpus)"

definition cgroup_rstat_flush_locked :: "nat \<Rightarrow> rstat \<Rightarrow> rstat option" where
  "cgroup_rstat_flush_locked c s = flush_cpus c [0..<ncpu s] s"

text \<open>The variants differ in the lock only.\<close>

definition cgroup_rstat_flush :: "nat \<Rightarrow> rstat \<Rightarrow> rstat option" where
  "cgroup_rstat_flush = cgroup_rstat_flush_locked"

definition cgroup_rstat_flush_hold :: "nat \<Rightarrow> rstat \<Rightarrow> rstat option" where
  "cgroup_rstat_flush_hold = cgroup_rstat_flush_locked"

subsection \<open>Life time\<close>

text \<open>\<open>ok\<close> is the outcome of \<open>alloc_percpu\<close>, which returns zeroed memory.\<close>

definition cgroup_rstat_init :: "bool \<Rightarrow> nat \<Rightarrow> rstat \<Rightarrow> int \<times> rstat" where
  "cgroup_rstat_init ok c s =
     (if \<not> allocated s c \<and> \<not> ok then (- ENOMEM, s)
      else
        let s = (if allocated s c then s
                 else s\<lparr>allocated := (allocated s)(c := True), rcpu := (rcpu s)(c := (\<lambda>_.
                   \<lparr>updated_children = 0, updated_next = None, cbstat = zero_cputime, last_bstat = zero_cputime\<rparr>))\<rparr>)
        in (0, fold (\<lambda>cpu s. upd_cpu c cpu (\<lambda>r. r\<lparr>updated_children := c\<rparr>) s) [0..<ncpu s] s))"

definition cgroup_rstat_exit :: "nat \<Rightarrow> rstat \<Rightarrow> rstat option" where
  "cgroup_rstat_exit c s =
     Option.bind (cgroup_rstat_flush c s) (\<lambda>s.
       Some (if \<exists>cpu \<in> set [0..<ncpu s]. updated_children (rcpu s c cpu) \<noteq> c \<or> updated_next (rcpu s c cpu) \<noteq> None
             then s\<lparr>rstat_warned := True\<rparr>
             else s\<lparr>allocated := (allocated s)(c := False)\<rparr>))"

subsection \<open>CPU time\<close>

datatype cpu_usage_stat = CPUTIME_USER | CPUTIME_NICE | CPUTIME_SYSTEM | CPUTIME_SOFTIRQ | CPUTIME_IRQ | CPUTIME_OTHER

definition account :: "(task_cputime \<Rightarrow> task_cputime) \<Rightarrow> nat \<Rightarrow> nat \<Rightarrow> rstat \<Rightarrow> rstat" where
  "account f c cpu s = cgroup_rstat_updated c cpu (upd_cpu c cpu (\<lambda>r. r\<lparr>cbstat := f (cbstat r)\<rparr>) s)"

definition cgroup_account_cputime :: "nat \<Rightarrow> 64 word \<Rightarrow> nat \<Rightarrow> rstat \<Rightarrow> rstat" where
  "cgroup_account_cputime c delta cpu s = account (\<lambda>t. t\<lparr>sum_exec_runtime := sum_exec_runtime t + delta\<rparr>) c cpu s"

definition cgroup_account_cputime_field :: "nat \<Rightarrow> cpu_usage_stat \<Rightarrow> 64 word \<Rightarrow> nat \<Rightarrow> rstat \<Rightarrow> rstat" where
  "cgroup_account_cputime_field c index delta cpu s =
     account (case index of
         CPUTIME_USER \<Rightarrow> (\<lambda>t. t\<lparr>utime := utime t + delta\<rparr>)
       | CPUTIME_NICE \<Rightarrow> (\<lambda>t. t\<lparr>utime := utime t + delta\<rparr>)
       | CPUTIME_SYSTEM \<Rightarrow> (\<lambda>t. t\<lparr>stime := stime t + delta\<rparr>)
       | CPUTIME_IRQ \<Rightarrow> (\<lambda>t. t\<lparr>stime := stime t + delta\<rparr>)
       | CPUTIME_SOFTIRQ \<Rightarrow> (\<lambda>t. t\<lparr>stime := stime t + delta\<rparr>)
       | CPUTIME_OTHER \<Rightarrow> (\<lambda>t. t)) c cpu s"

text \<open>\<open>cputime_adjust\<close> of the scheduler is a parameter: it makes user and system time of the
  collected times.\<close>

definition cgroup_base_stat_cputime_show :: "(task_cputime \<Rightarrow> 64 word \<times> 64 word) \<Rightarrow> nat \<Rightarrow> rstat
    \<Rightarrow> (string \<times> rstat) option" where
  "cgroup_base_stat_cputime_show cputime_adjust c s =
     (if tpar (rtree s) c = None then Some ('''', s)
      else Option.bind (cgroup_rstat_flush_hold c s) (\<lambda>s.
        let usage = sum_exec_runtime (bstat (rcg s c));
            (ut, st) = cputime_adjust (bstat (rcg s c));
            line = (\<lambda>name (v :: 64 word). name @ show_nat (unat (v div 1000)) @ [CHR 0x0A])
        in Some (line ''usage_usec '' usage @ line ''user_usec '' ut @ line ''system_usec '' st, s)))"

end
