(* ===== verification/Rstat_Correct.thy ===== *)
theory Rstat_Correct
  imports Rstat
begin

section \<open>The tree of updated cgroups\<close>

text \<open>
  The lists of updated children as lists, what marking and unlinking make of them, and the two
  loops of the traversal: both end, and a traversal takes exactly the marked part of a subtree.
\<close>

subsection \<open>Chains\<close>

fun chain :: "(nat \<Rightarrow> nat option) \<Rightarrow> nat \<Rightarrow> nat list \<Rightarrow> nat \<Rightarrow> bool" where
  "chain n x [] p \<longleftrightarrow> x = p"
| "chain n x (y # ys) p \<longleftrightarrow> x = y \<and> (\<exists>z. n y = Some z \<and> chain n z ys p)"

lemma chain_append: "chain n x (ys @ zs) p \<longleftrightarrow> (\<exists>m. chain n x ys m \<and> chain n m zs p)"
  by (induction ys arbitrary: x) auto

lemma chain_cong: "(\<And>y. y \<in> set ys \<Longrightarrow> n y = n' y) \<Longrightarrow> chain n x ys p = chain n' x ys p"
  by (induction ys arbitrary: x) auto

lemma chain_member: "chain n x ys p \<Longrightarrow> y \<in> set ys \<Longrightarrow> n y \<noteq> None"
  by (induction ys arbitrary: x) auto

lemma chain_unlink:
  assumes "chain n x (ys @ c # zs) p" and "distinct (ys @ c # zs)" and "n c = Some m"
  shows "if ys = [] then x = c \<and> chain (n(c := None)) m zs p
    else chain (n(last ys := Some m, c := None)) x (ys @ zs) p"
proof -
  obtain k where k: "chain n x ys k" "k = c" "chain n m zs p" using assms by (auto simp: chain_append)
  have zs: "chain (n(a := b, c := None)) m zs p" if "a \<notin> set zs" for a b
    using k(3) assms(2) that by (subst chain_cong [of zs _ n]) auto
  show ?thesis
  proof (cases ys rule: rev_cases)
    case Nil
    with k zs [of c None] assms(2) show ?thesis by simp
  next
    case (snoc ys' q)
    then obtain j where j: "chain n x ys' j" "j = q" "n q = Some k" using k(1) by (auto simp: chain_append)
    have "chain (n(q := Some m, c := None)) x ys' j"
      using j(1) assms(2) snoc by (subst chain_cong [of ys' _ n]) auto
    then show ?thesis using snoc zs [of q "Some m"] assms(2) j by (auto simp: chain_append)
  qed
qed

subsection \<open>The structure for one CPU\<close>

abbreviation nx :: "rstat \<Rightarrow> nat \<Rightarrow> nat \<Rightarrow> nat option" where
  "nx s cpu c \<equiv> updated_next (rcpu s c cpu)"

abbreviation fc :: "rstat \<Rightarrow> nat \<Rightarrow> nat \<Rightarrow> nat" where
  "fc s cpu c \<equiv> updated_children (rcpu s c cpu)"

definition utree :: "rstat \<Rightarrow> nat \<Rightarrow> (nat \<Rightarrow> nat list) \<Rightarrow> bool" where
  "utree s cpu ch \<longleftrightarrow> css_tree_ok (rtree s)
     \<and> (\<forall>p \<in> set (tcss (rtree s)). chain (nx s cpu) (fc s cpu p) (ch p) p \<and> distinct (ch p)
          \<and> (\<forall>c \<in> set (ch p). tpar (rtree s) c = Some p \<and> c \<in> set (tcss (rtree s))))
     \<and> (\<forall>c \<in> set (tcss (rtree s)). nx s cpu c \<noteq> None \<longrightarrow>
          (\<exists>p \<in> set (tcss (rtree s)). c \<in> set (ch p)))"

definition closed :: "rstat \<Rightarrow> nat \<Rightarrow> bool" where
  "closed s cpu \<longleftrightarrow> (\<forall>c \<in> set (tcss (rtree s)). \<forall>p. nx s cpu c \<noteq> None \<longrightarrow> tpar (rtree s) c = Some p \<longrightarrow>
     tpar (rtree s) p = None \<or> nx s cpu p \<noteq> None)"

lemma closedD:
  "closed s cpu \<Longrightarrow> c \<in> set (tcss (rtree s)) \<Longrightarrow> nx s cpu c \<noteq> None \<Longrightarrow> tpar (rtree s) c = Some p \<Longrightarrow>
    tpar (rtree s) p \<noteq> None \<Longrightarrow> nx s cpu p \<noteq> None"
  by (auto simp: closed_def)

lemma css_tree_okD:
  assumes "css_tree_ok T"
  shows "tree_ok (tpar T)" and "tpar T c = Some p \<Longrightarrow> p < c" and "tpar T c = Some p \<Longrightarrow> c \<in> set (tcss T) \<Longrightarrow> p \<in> set (tcss T)"
  using assms unfolding css_tree_ok_def tree_ok_def by blast+

lemma utree_tree: "utree s cpu ch \<Longrightarrow> css_tree_ok (rtree s)"
  unfolding utree_def by (rule conjunct1)

lemma utreeD:
  assumes "utree s cpu ch" and "p \<in> set (tcss (rtree s))"
  shows "chain (nx s cpu) (fc s cpu p) (ch p) p" "distinct (ch p)"
    "c \<in> set (ch p) \<Longrightarrow> tpar (rtree s) c = Some p \<and> c \<in> set (tcss (rtree s)) \<and> p < c \<and> nx s cpu c \<noteq> None"
    "nx s cpu p \<noteq> None \<Longrightarrow> \<exists>q \<in> set (tcss (rtree s)). tpar (rtree s) p = Some q \<and> p \<in> set (ch q)"
proof -
  have chain: "chain (nx s cpu) (fc s cpu p) (ch p) p" and dist: "distinct (ch p)"
    and kid: "\<forall>c \<in> set (ch p). tpar (rtree s) c = Some p \<and> c \<in> set (tcss (rtree s))"
    using assms by (simp_all add: utree_def)
  show "chain (nx s cpu) (fc s cpu p) (ch p) p" "distinct (ch p)" by (fact chain dist)+
  have "tpar (rtree s) c = Some p \<Longrightarrow> p < c" for c by (rule css_tree_okD(2) [OF utree_tree [OF assms(1)]])
  with kid chain_member [OF chain]
  show "c \<in> set (ch p) \<Longrightarrow> tpar (rtree s) c = Some p \<and> c \<in> set (tcss (rtree s)) \<and> p < c \<and> nx s cpu c \<noteq> None"
    by blast
  show "nx s cpu p \<noteq> None \<Longrightarrow> \<exists>q \<in> set (tcss (rtree s)). tpar (rtree s) p = Some q \<and> p \<in> set (ch q)"
    using assms unfolding utree_def by metis
qed

lemma head_of_list:
  assumes "utree s cpu ch" and "p \<in> set (tcss (rtree s))"
  shows "fc s cpu p = (if ch p = [] then p else hd (ch p))" and "ch p = [] \<longleftrightarrow> fc s cpu p = p"
proof -
  note U = utreeD [OF assms]
  show eq: "fc s cpu p = (if ch p = [] then p else hd (ch p))" using U(1) by (cases "ch p") auto
  show "ch p = [] \<longleftrightarrow> fc s cpu p = p" using eq U(3) [of "hd (ch p)"] by (cases "ch p") auto
qed

lemma in_subtree_up: "tree_ok (tpar T) \<Longrightarrow> in_subtree T d c \<Longrightarrow> tpar T d = Some p \<Longrightarrow> in_subtree T p c"
  using ancestors_trans [of p "tpar T" d c] by (auto simp: in_subtree_def ancestors_child)

subsection \<open>Walking down\<close>

lemma walk_down_leaf:
  assumes T: "utree s cpu ch" and "p \<in> set (tcss (rtree s))"
  shows "\<exists>c. walk_down s cpu p = Some c \<and> ch c = [] \<and> in_subtree (rtree s) p c \<and> (c = p \<or> nx s cpu c \<noteq> None)"
  using assms(2)
proof (induction "card {d \<in> set (tcss (rtree s)). p < d}" arbitrary: p rule: less_induct)
  case less
  note U = utreeD [OF T less.prems]
  have ok: "tree_ok (tpar (rtree s))" using T by (simp add: utree_def css_tree_ok_def)
  show ?case
  proof (cases "ch p = []")
    case True
    then have "walk_down s cpu p = Some p"
      using head_of_list(1) [OF T less.prems] by (subst walk_down.simps) (simp add: Let_def)
    with True less.prems show ?thesis by (auto simp: in_subtree_def)
  next
    case False
    let ?d = "hd (ch p)"
    have d: "tpar (rtree s) ?d = Some p" "?d \<in> set (tcss (rtree s))" "p < ?d" "nx s cpu ?d \<noteq> None"
      using U(3) [of ?d] False by simp_all
    have "{e \<in> set (tcss (rtree s)). ?d < e} \<subset> {e \<in> set (tcss (rtree s)). p < e}" using d by auto
    then have "card {e \<in> set (tcss (rtree s)). ?d < e} < card {e \<in> set (tcss (rtree s)). p < e}"
      by (intro psubset_card_mono) simp_all
    from less.hyps [OF this d(2)] obtain c where c: "walk_down s cpu ?d = Some c" "ch c = []"
      "in_subtree (rtree s) ?d c" "c = ?d \<or> nx s cpu c \<noteq> None" by blast
    have "walk_down s cpu p = walk_down s cpu ?d"
      using head_of_list(1) [OF T less.prems] False d(3) by (subst walk_down.simps) (simp add: Let_def)
    moreover have "in_subtree (rtree s) p c" by (rule in_subtree_up [OF ok c(3) d(1)])
    ultimately show ?thesis using c d(4) by auto
  qed
qed

subsection \<open>Unlinking\<close>

lemma find_link_found:
  assumes "chain (nx s cpu) cur (ys @ c # zs) p" and "c \<notin> set ys" and "parent \<notin> set ys"
  shows "find_link s cpu parent c prev cur w = Some (if ys = [] then prev else Some (last ys), w)"
  using assms
proof (induction ys arbitrary: cur prev)
  case Nil
  then show ?case by (subst find_link.simps) simp
next
  case (Cons y ys)
  then obtain z where z: "cur = y" "nx s cpu y = Some z" "chain (nx s cpu) z (ys @ c # zs) p" by auto
  have "y \<noteq> c" "y \<noteq> parent" using Cons.prems by auto
  with z Cons.IH [OF z(3), of "Some y"] Cons.prems show ?case by (subst find_link.simps) simp
qed

lemma upd_cpu_apply [simp]:
  "rcpu (upd_cpu c cpu f s) = (rcpu s)(c := (rcpu s c)(cpu := f (rcpu s c cpu)))"
  "rtree (upd_cpu c cpu f s) = rtree s" "ncpu (upd_cpu c cpu f s) = ncpu s" "rcg (upd_cpu c cpu f s) = rcg s"
  "allocated (upd_cpu c cpu f s) = allocated s" "css_flushed (upd_cpu c cpu f s) = css_flushed s"
  "rstat_warned (upd_cpu c cpu f s) = rstat_warned s"
  by (simp_all add: upd_cpu_def)

lemma upd_cg_apply [simp]:
  "rcg (upd_cg c g s) = (rcg s)(c := g (rcg s c))" "rtree (upd_cg c g s) = rtree s" "ncpu (upd_cg c g s) = ncpu s"
  "rcpu (upd_cg c g s) = rcpu s" "allocated (upd_cg c g s) = allocated s" "css_flushed (upd_cg c g s) = css_flushed s"
  "rstat_warned (upd_cg c g s) = rstat_warned s"
  by (simp_all add: upd_cg_def)

text \<open>What unlinking leaves alone: everything but the links for this CPU.\<close>

definition only_links :: "nat \<Rightarrow> rstat \<Rightarrow> rstat \<Rightarrow> bool" where
  "only_links cpu s s' \<longleftrightarrow> rtree s' = rtree s \<and> ncpu s' = ncpu s \<and> rcg s' = rcg s \<and> allocated s' = allocated s
     \<and> css_flushed s' = css_flushed s \<and> rstat_warned s' = rstat_warned s
     \<and> (\<forall>c x. cbstat (rcpu s' c x) = cbstat (rcpu s c x) \<and> last_bstat (rcpu s' c x) = last_bstat (rcpu s c x)
          \<and> (x \<noteq> cpu \<longrightarrow> rcpu s' c x = rcpu s c x))"

lemma only_links_refl [simp]: "only_links cpu s s"
  by (simp add: only_links_def)

lemma only_links_trans: "only_links cpu s s1 \<Longrightarrow> only_links cpu s1 s2 \<Longrightarrow> only_links cpu s s2"
  by (simp add: only_links_def)

lemma only_links_upd [simp]:
  "only_links cpu s (upd_cpu c cpu (\<lambda>r. r\<lparr>updated_next := a\<rparr>) s)" "only_links cpu s (upd_cpu c cpu (\<lambda>r. r\<lparr>updated_children := b\<rparr>) s)"
  by (simp_all add: only_links_def)

lemma unlink_list_ok:
  assumes T: "utree s cpu ch" and c: "c \<in> set (ch p)" and p: "p \<in> set (tcss (rtree s))" and m: "nx s cpu c = Some m"
  shows "\<exists>s'. unlink cpu p c m s = Some s' \<and> utree s' cpu (ch(p := remove1 c (ch p))) \<and> only_links cpu s s'
    \<and> (\<forall>d. nx s' cpu d \<noteq> None \<longleftrightarrow> nx s cpu d \<noteq> None \<and> d \<noteq> c)"
proof -
  note U = utreeD [OF T p]
  obtain ys zs where ys: "ch p = ys @ c # zs" using c by (meson split_list)
  have d: "c \<notin> set ys" "p \<notin> set ys" "distinct (ys @ c # zs)" using U(2) U(3) [of p] ys by auto
  have link: "find_link s cpu p c None (fc s cpu p) False = Some (if ys = [] then None else Some (last ys), False)"
    using find_link_found [of s cpu "fc s cpu p" ys c zs p p None False] U(1) d ys by simp
  define s1 where "s1 = (if ys = [] then upd_cpu p cpu (\<lambda>r. r\<lparr>updated_children := m\<rparr>) s
    else upd_cpu (last ys) cpu (\<lambda>r. r\<lparr>updated_next := Some m\<rparr>) s)"
  define s' where "s' = upd_cpu c cpu (\<lambda>r. r\<lparr>updated_next := None\<rparr>) s1"
  have run: "unlink cpu p c m s = Some s'"
    using link by (simp add: unlink_def s'_def s1_def)
  have pc: "p \<noteq> c" using U(3) [OF c] by auto
  have nx: "nx s' cpu = (if ys = [] then (nx s cpu)(c := None) else (nx s cpu)(last ys := Some m, c := None))"
    by (auto simp: s'_def s1_def fun_eq_iff)
  have nxd: "nx s' cpu d = (if d = c then None else if ys \<noteq> [] \<and> d = last ys then Some m else nx s cpu d)" for d
    using fun_cong [OF nx, of d] by auto
  have fc: "fc s' cpu q = (if ys = [] \<and> q = p then m else fc s cpu q)" for q
    by (auto simp: s'_def s1_def)
  have only: "only_links cpu s s'"
    by (simp add: only_links_def s'_def s1_def)
  then have tree: "rtree s' = rtree s" by (simp add: only_links_def)
  have member: "nx s cpu y \<noteq> None" "tpar (rtree s) y = Some p" if "y \<in> set ys" for y using U(3) that ys by auto
  have next': "nx s' cpu d \<noteq> None \<longleftrightarrow> nx s cpu d \<noteq> None \<and> d \<noteq> c" for d
    using member(1) [of "last ys"] by (auto simp: nxd)
  have chain_p: "chain (nx s' cpu) (fc s' cpu p) (ys @ zs) p"
    using chain_unlink [OF U(1) [unfolded ys] d(3) m] by (auto simp: nx fc split: if_splits)
  have "chain (nx s' cpu) (fc s' cpu q) (ch q) q" if "q \<in> set (tcss (rtree s))" "q \<noteq> p" for q
  proof -
    have "nx s' cpu y = nx s cpu y" if "y \<in> set (ch q)" for y
      using utreeD(3) [OF T \<open>q \<in> set (tcss (rtree s))\<close> that] \<open>q \<noteq> p\<close> U(3) [OF c] member(2) [of "last ys"] by (auto simp: nxd)
    then show ?thesis using utreeD(1) [OF T that(1)] that(2) chain_cong [of "ch q" "nx s' cpu" "nx s cpu"] by (simp add: fc)
  qed
  moreover have "remove1 c (ch p) = ys @ zs" using ys d(1) by (simp add: remove1_append)
  moreover have "\<exists>q \<in> set (tcss (rtree s)). d \<in> set ((ch(p := remove1 c (ch p))) q)"
    if "d \<in> set (tcss (rtree s))" "nx s' cpu d \<noteq> None" for d
    using that utreeD(4) [OF T that(1)] next' [of d] in_set_remove1 [of d c "ch p"] by auto
  ultimately have "utree s' cpu (ch(p := remove1 c (ch p)))"
    using T chain_p d(3) ys unfolding utree_def tree by auto
  with run only next' show ?thesis by blast
qed

subsection \<open>One step of the traversal\<close>

lemma no_updates_below:
  assumes T: "utree s cpu ch" and "closed s cpu" and "ch root = []" and "root \<in> set (tcss (rtree s))"
    and "in_subtree (rtree s) root d" and "d \<noteq> root"
  shows "nx s cpu d = None"
  using assms(5,6)
proof (induction d rule: less_induct)
  case (less d)
  have ok: "tree_ok (tpar (rtree s))" by (rule css_tree_okD(1) [OF utree_tree [OF T]])
  show ?case
  proof (rule ccontr)
    assume new: "nx s cpu d \<noteq> None"
    have d: "d \<in> set (tcss (rtree s))" using less.prems by (simp add: in_subtree_def)
    obtain p where p: "p \<in> set (tcss (rtree s))" "tpar (rtree s) d = Some p" "d \<in> set (ch p)"
      using utreeD(4) [OF T d new] by blast
    have "p < d" "p \<noteq> root" using utreeD(3) [OF T p(1,3)] assms(3) p(3) by auto
    moreover have sub: "in_subtree (rtree s) root p"
      using less.prems p(1) ancestors_child [OF ok p(2)] by (simp add: in_subtree_def)
    ultimately have "nx s cpu p = None" by (intro less.IH)
    moreover have "tpar (rtree s) p \<noteq> None"
      using sub \<open>p \<noteq> root\<close> by (cases "tpar (rtree s) p") (auto simp: in_subtree_def)
    ultimately show False using assms(2) d new p(2) by (auto simp: closed_def)
  qed
qed

text \<open>Where a traversal of \<open>root\<close> may stand.\<close>

definition travelling :: "rstat \<Rightarrow> nat \<Rightarrow> nat \<Rightarrow> nat option \<Rightarrow> bool" where
  "travelling s cpu root pos \<longleftrightarrow>
     (case pos of None \<Rightarrow> True
      | Some q \<Rightarrow> if q = root then \<forall>d. in_subtree (rtree s) root d \<longrightarrow> nx s cpu d = None
          else \<exists>p. tpar (rtree s) q = Some p \<and> in_subtree (rtree s) root p \<and> (p = root \<or> nx s cpu p \<noteq> None))"

lemma pop_ok:
  assumes T: "utree s cpu ch" and closed: "closed s cpu" and root: "root \<in> set (tcss (rtree s))"
    and pos: "travelling s cpu root pos"
  shows "cgroup_rstat_cpu_pop_updated pos root cpu s = Some (None, s) \<and> (\<forall>d. in_subtree (rtree s) root d \<longrightarrow> nx s cpu d = None)
    \<or> (\<exists>c p s' ch'. cgroup_rstat_cpu_pop_updated pos root cpu s = Some (Some c, s') \<and> in_subtree (rtree s) root c
        \<and> tpar (rtree s) c = Some p \<and> nx s cpu c \<noteq> None \<and> utree s' cpu ch' \<and> closed s' cpu \<and> only_links cpu s s'
        \<and> (\<forall>d. nx s' cpu d \<noteq> None \<longleftrightarrow> nx s cpu d \<noteq> None \<and> d \<noteq> c) \<and> travelling s' cpu root (Some c))"
proof (cases "pos = Some root")
  case True
  with pos show ?thesis by (simp add: cgroup_rstat_cpu_pop_updated_def travelling_def)
next
  case False
  have ok: "tree_ok (tpar (rtree s))" by (rule css_tree_okD(1) [OF utree_tree [OF T]])
  obtain st where st: "(case pos of None \<Rightarrow> Some root | Some p \<Rightarrow> tpar (rtree s) p) = Some st"
    "in_subtree (rtree s) root st" "st = root \<or> nx s cpu st \<noteq> None"
    using pos False root by (auto simp: travelling_def in_subtree_def split: option.splits if_splits)
  have stc: "st \<in> set (tcss (rtree s))" using st(2) by (simp add: in_subtree_def)
  obtain c where c: "walk_down s cpu st = Some c" "ch c = []" "in_subtree (rtree s) st c" "c = st \<or> nx s cpu c \<noteq> None"
    using walk_down_leaf [OF T stc] by blast
  have sub: "in_subtree (rtree s) root c"
    using c(3) st(2) ancestors_trans [of root "tpar (rtree s)" st c] by (auto simp: in_subtree_def)
  have cc: "c \<in> set (tcss (rtree s))" using sub by (simp add: in_subtree_def)
  show ?thesis
  proof (cases "nx s cpu c")
    case None
    with c(4) st(3) have "c = root" by auto
    then have "\<forall>d. in_subtree (rtree s) root d \<longrightarrow> nx s cpu d = None"
      using no_updates_below [OF T closed _ root] c(2) None by blast
    moreover have "cgroup_rstat_cpu_pop_updated pos root cpu s = Some (None, s)"
      using False st(1) c(1) None by (simp add: cgroup_rstat_cpu_pop_updated_def)
    ultimately show ?thesis by blast
  next
    case (Some m)
    then obtain p where p: "p \<in> set (tcss (rtree s))" "tpar (rtree s) c = Some p" "c \<in> set (ch p)"
      using utreeD(4) [OF T cc] by auto
    obtain s' where s': "unlink cpu p c m s = Some s'" "utree s' cpu (ch(p := remove1 c (ch p)))" "only_links cpu s s'"
      "\<forall>d. nx s' cpu d \<noteq> None \<longleftrightarrow> nx s cpu d \<noteq> None \<and> d \<noteq> c"
      using unlink_list_ok [OF T p(3,1) Some] by blast
    have tree: "rtree s' = rtree s" using s'(3) by (simp add: only_links_def)
    have leaf: "nx s cpu d = None" if "tpar (rtree s) d = Some c" "d \<in> set (tcss (rtree s))" for d
      using utreeD(4) [OF T that(2)] that(1) c(2) by (cases "nx s cpu d") auto
    have "closed s' cpu" unfolding closed_def tree
    proof (intro ballI allI impI)
      fix d q assume d: "d \<in> set (tcss (rtree s))" "nx s' cpu d \<noteq> None" "tpar (rtree s) d = Some q"
      have "nx s cpu d \<noteq> None" using s'(4) d(2) by blast
      with leaf [of d] d(1,3) have "q \<noteq> c" by auto
      moreover have "tpar (rtree s) q = None \<or> nx s cpu q \<noteq> None"
        using closed d(1,3) \<open>nx s cpu d \<noteq> None\<close> unfolding closed_def by blast
      ultimately show "tpar (rtree s) q = None \<or> nx s' cpu q \<noteq> None" using s'(4) by blast
    qed
    moreover have "travelling s' cpu root (Some c)"
    proof (cases "c = root")
      case True
      have "nx s' cpu d = None" if "in_subtree (rtree s) root d" for d
        using s'(4) [THEN spec, of d] no_updates_below [OF T closed _ root that] c(2) True
        by (cases "d = root"; cases "nx s' cpu d") auto
      with True show ?thesis by (simp add: travelling_def tree)
    next
      case False
      have sp: "in_subtree (rtree s) root p" using sub p(1,2) False ancestors_child [OF ok p(2)] by (auto simp: in_subtree_def)
      have "p = root \<or> tpar (rtree s) p \<noteq> None" using sp by (auto simp: in_subtree_def)
      then have "p = root \<or> nx s' cpu p \<noteq> None"
        using closed cc Some p(2) s'(4) utreeD(3) [OF T p(1,3)] by (auto simp: closed_def)
      with sp p(2) False show ?thesis by (auto simp: travelling_def tree)
    qed
    moreover have "cgroup_rstat_cpu_pop_updated pos root cpu s = Some (Some c, s')"
      using False st(1) c(1) Some p(2) s'(1) by (simp add: cgroup_rstat_cpu_pop_updated_def)
    ultimately show ?thesis using sub p(2) Some s'(2-4) by blast
  qed
qed

subsection \<open>Marking a cgroup and its ancestors\<close>

definition closed_but :: "nat \<Rightarrow> rstat \<Rightarrow> nat \<Rightarrow> bool" where
  "closed_but c s cpu \<longleftrightarrow> (\<forall>d \<in> set (tcss (rtree s)). \<forall>p. nx s cpu d \<noteq> None \<longrightarrow> tpar (rtree s) d = Some p \<longrightarrow>
     tpar (rtree s) p = None \<or> nx s cpu p \<noteq> None \<or> p = c)"

lemma closed_but_iff: "closed s cpu \<Longrightarrow> closed_but c s cpu"
    "closed_but c s cpu \<Longrightarrow> tpar (rtree s) c = None \<or> nx s cpu c \<noteq> None \<Longrightarrow> closed s cpu"
  unfolding closed_def closed_but_def by blast+

lemma push_front:
  assumes T: "utree s cpu ch" and c: "c \<in> set (tcss (rtree s))" and p: "tpar (rtree s) c = Some p" and new: "nx s cpu c = None"
  defines "s1 \<equiv> upd_cpu p cpu (\<lambda>r. r\<lparr>updated_children := c\<rparr>) (upd_cpu c cpu (\<lambda>r. r\<lparr>updated_next := Some (fc s cpu p)\<rparr>) s)"
  shows "utree s1 cpu (ch(p := c # ch p))" and "only_links cpu s s1"
    and "nx s1 cpu d = (if d = c then Some (fc s cpu p) else nx s cpu d)"
proof -
  have pT: "p \<in> set (tcss (rtree s))" by (rule css_tree_okD(3) [OF utree_tree [OF T] p c])
  have "p < c" by (rule css_tree_okD(2) [OF utree_tree [OF T] p])
  then show nx: "nx s1 cpu d = (if d = c then Some (fc s cpu p) else nx s cpu d)" for d by (simp add: s1_def)
  have fc: "fc s1 cpu q = (if q = p then c else fc s cpu q)" for q using \<open>p < c\<close> by (simp add: s1_def)
  show only: "only_links cpu s s1" by (simp add: only_links_def s1_def)
  have tree: "rtree s1 = rtree s" by (simp add: s1_def)
  have out: "c \<notin> set (ch q)" if "q \<in> set (tcss (rtree s))" for q using utreeD(3) [OF T that, of c] new by auto
  have keep: "chain (nx s1 cpu) x (ch q) q = chain (nx s cpu) x (ch q) q" if "q \<in> set (tcss (rtree s))" for x q
    by (rule chain_cong) (use out [OF that] nx in auto)
  have "chain (nx s1 cpu) (fc s1 cpu q) ((ch(p := c # ch p)) q) q \<and> distinct ((ch(p := c # ch p)) q)
      \<and> (\<forall>d \<in> set ((ch(p := c # ch p)) q). tpar (rtree s) d = Some q \<and> d \<in> set (tcss (rtree s)))"
    if q: "q \<in> set (tcss (rtree s))" for q
    using utreeD(1,2) [OF T q] utreeD(3) [OF T q] keep [OF q] out [OF q] c p by (auto simp: nx fc)
  moreover have "\<exists>q \<in> set (tcss (rtree s)). d \<in> set ((ch(p := c # ch p)) q)"
    if d: "d \<in> set (tcss (rtree s))" "nx s1 cpu d \<noteq> None" for d
  proof (cases "d = c")
    case False
    then show ?thesis using utreeD(4) [OF T d(1)] d(2) by (auto simp: nx)
  qed (use pT in auto)
  ultimately show "utree s1 cpu (ch(p := c # ch p))" using T unfolding utree_def tree by blast
qed

lemma put_updated_ok:
  assumes "utree s cpu ch" and "closed_but c s cpu" and "c \<in> set (tcss (rtree s))"
  defines "s' \<equiv> put_updated cpu c (ancestors (tpar (rtree s)) c) s"
  shows "(\<exists>ch'. utree s' cpu ch') \<and> closed s' cpu \<and> only_links cpu s s' \<and> (\<forall>d. nx s cpu d \<noteq> None \<longrightarrow> nx s' cpu d \<noteq> None)
    \<and> (tpar (rtree s) c \<noteq> None \<longrightarrow> nx s' cpu c \<noteq> None)"
  unfolding s'_def using assms(1-3)
proof (induction c arbitrary: s ch rule: less_induct)
  case (less c)
  have ok: "tree_ok (tpar (rtree s))" by (rule css_tree_okD(1) [OF utree_tree [OF less.prems(1)]])
  show ?case
  proof (cases "tpar (rtree s) c")
    case None
    then show ?thesis using less.prems closed_but_iff(2) by auto
  next
    case (Some p)
    note anc = ancestors_child [OF ok Some]
    show ?thesis
    proof (cases "nx s cpu c")
      case None
      define s1 where "s1 = upd_cpu p cpu (\<lambda>r. r\<lparr>updated_children := c\<rparr>) (upd_cpu c cpu (\<lambda>r. r\<lparr>updated_next := Some (fc s cpu p)\<rparr>) s)"
      note F = push_front [OF less.prems(1,3) Some None, folded s1_def]
      have tree: "rtree s1 = rtree s" by (simp add: s1_def)
      have p: "p < c" "p \<in> set (tcss (rtree s))"
        using css_tree_okD(2,3) [OF utree_tree [OF less.prems(1)] Some] less.prems(3) by simp_all
      have cb: "closed_but p s1 cpu"
        unfolding closed_but_def tree
      proof (intro ballI allI impI)
        fix d q assume d: "d \<in> set (tcss (rtree s))" "nx s1 cpu d \<noteq> None" "tpar (rtree s) d = Some q"
        show "tpar (rtree s) q = None \<or> nx s1 cpu q \<noteq> None \<or> q = p"
        proof (cases "d = c")
          case False
          then have "nx s cpu d \<noteq> None" using d(2) F(3) by simp
          then have "tpar (rtree s) q = None \<or> nx s cpu q \<noteq> None \<or> q = c"
            using less.prems(2) d(1,3) unfolding closed_but_def by blast
          then show ?thesis using F(3) by auto
        qed (use d(3) Some in simp)
      qed
      have run: "put_updated cpu c (ancestors (tpar (rtree s)) c) s = put_updated cpu p (ancestors (tpar (rtree s1)) p) s1"
        using None by (simp add: anc Let_def tree s1_def)
      show ?thesis
        unfolding run using less.IH [OF p(1) F(1) cb] p(2) only_links_trans [OF F(2)] F(3) by (simp add: tree)
    next
      case (Some m)
      then show ?thesis using less.prems closed_but_iff(2) [OF less.prems(2)] anc by auto
    qed
  qed
qed

lemma rstat_updated_ok:
  assumes "utree s cpu ch" and "closed s cpu" and "c \<in> set (tcss (rtree s))"
  defines "s' \<equiv> cgroup_rstat_updated c cpu s"
  shows "\<exists>ch'. utree s' cpu ch'" and "closed s' cpu" and "only_links cpu s s'" and "nx s cpu d \<noteq> None \<Longrightarrow> nx s' cpu d \<noteq> None"
    and "tpar (rtree s) c \<noteq> None \<Longrightarrow> nx s' cpu c \<noteq> None"
  using put_updated_ok [OF assms(1) closed_but_iff(1) [OF assms(2)] assms(3)] assms
  by (auto simp: s'_def cgroup_rstat_updated_def)

end
