(* ===== verification/Rstat_Flush.thy ===== *)
theory Rstat_Flush
  imports Rstat_Correct
begin

section \<open>The books of the statistics\<close>

text \<open>
  What every operation keeps: what a cgroup has collected and what waits in it is what its CPUs have
  reported and its children have collected; a cgroup that is on no list has reported everything.
\<close>

subsection \<open>The three counters\<close>

definition fields :: "(task_cputime \<Rightarrow> 64 word) set" where
  "fields = {utime, stime, sum_exec_runtime}"

lemma field_ops [simp]:
  assumes "f \<in> fields"
  shows "f zero_cputime = 0" and "f (cgroup_base_stat_accumulate a b) = f a + f b"
    and "f \<lparr>utime = utime a - utime b, stime = stime a - stime b,
      sum_exec_runtime = sum_exec_runtime a - sum_exec_runtime b\<rparr> = f a - f b"
  using assms by (auto simp: fields_def zero_cputime_def cgroup_base_stat_accumulate_def)

lemma sum_change:
  fixes g g' :: "'a \<Rightarrow> 'b::ab_group_add"
  assumes "finite A" and "c \<in> A" and "\<And>x. x \<in> A \<Longrightarrow> x \<noteq> c \<Longrightarrow> g' x = g x"
  shows "sum g' A = sum g A - g c + g' c"
proof -
  have "sum g' (A - {c}) = sum g (A - {c})" using assms(3) by (intro sum.cong) auto
  then show ?thesis using sum.remove [OF assms(1,2), of g] sum.remove [OF assms(1,2), of g'] by (simp add: algebra_simps)
qed

subsection \<open>The invariant\<close>

definition offspring :: "rstat \<Rightarrow> nat \<Rightarrow> nat set" where
  "offspring s c = {d \<in> set (tcss (rtree s)). tpar (rtree s) d = Some c}"

definition balanced :: "rstat \<Rightarrow> bool" where
  "balanced s \<longleftrightarrow> (\<forall>f \<in> fields. \<forall>c \<in> set (tcss (rtree s)). f (bstat (rcg s c)) + f (pending_bstat (rcg s c)) =
     (\<Sum>cpu<ncpu s. f (last_bstat (rcpu s c cpu))) + (\<Sum>d\<in>offspring s c. f (bstat (rcg s d))))"

definition reported :: "rstat \<Rightarrow> bool" where
  "reported s \<longleftrightarrow> (\<forall>c \<in> set (tcss (rtree s)). tpar (rtree s) c \<noteq> None \<longrightarrow>
     (\<forall>cpu < ncpu s. nx s cpu c = None \<longrightarrow> cbstat (rcpu s c cpu) = last_bstat (rcpu s c cpu)))"

definition settled_down :: "rstat \<Rightarrow> bool" where
  "settled_down s \<longleftrightarrow> (\<forall>c \<in> set (tcss (rtree s)). tpar (rtree s) c \<noteq> None \<longrightarrow>
     (\<forall>cpu < ncpu s. nx s cpu c = None) \<longrightarrow> pending_bstat (rcg s c) = zero_cputime)"

definition linked_up :: "rstat \<Rightarrow> nat \<Rightarrow> bool" where
  "linked_up s cpu \<longleftrightarrow> (\<exists>ch. utree s cpu ch) \<and> closed s cpu"

definition rstat_inv :: "rstat \<Rightarrow> bool" where
  "rstat_inv s \<longleftrightarrow> css_tree_ok (rtree s) \<and> (\<forall>cpu < ncpu s. linked_up s cpu) \<and> balanced s \<and> reported s
     \<and> settled_down s \<and> \<not> rstat_warned s"

lemma rstat_invD:
  assumes "rstat_inv s"
  shows "css_tree_ok (rtree s)" "cpu < ncpu s \<Longrightarrow> linked_up s cpu" "balanced s" "reported s" "settled_down s" "\<not> rstat_warned s"
  using assms by (simp_all add: rstat_inv_def)

lemma linked_up_cong:
  assumes "rtree s' = rtree s" and "\<And>c. nx s' cpu c = nx s cpu c" and "\<And>c. fc s' cpu c = fc s cpu c"
  shows "linked_up s' cpu = linked_up s cpu"
  using assms by (simp add: linked_up_def utree_def closed_def)

subsection \<open>One cgroup is flushed\<close>

definition flush_one :: "nat \<Rightarrow> nat \<Rightarrow> rstat \<Rightarrow> rstat" where
  "flush_one c cpu s = css_rstat_flush c cpu (cgroup_base_stat_flush c cpu s)"

definition delta_of :: "(task_cputime \<Rightarrow> 64 word) \<Rightarrow> rstat \<Rightarrow> nat \<Rightarrow> nat \<Rightarrow> 64 word" where
  "delta_of f s c cpu = f (cbstat (rcpu s c cpu)) - f (last_bstat (rcpu s c cpu)) + f (pending_bstat (rcg s c))"

lemma flush_one_frame [simp]:
  "rtree (flush_one c cpu s) = rtree s" "ncpu (flush_one c cpu s) = ncpu s" "allocated (flush_one c cpu s) = allocated s"
  "rstat_warned (flush_one c cpu s) = rstat_warned s" "nx (flush_one c cpu s) x d = nx s x d"
  "fc (flush_one c cpu s) x d = fc s x d" "cbstat (rcpu (flush_one c cpu s) d x) = cbstat (rcpu s d x)"
  "offspring (flush_one c cpu s) d = offspring s d"
  by (simp_all add: flush_one_def css_rstat_flush_def cgroup_base_stat_flush_def Let_def offspring_def split: option.split)

lemma flush_one_books:
  assumes "tpar (rtree s) c = Some p" and "p \<noteq> c"
  shows "last_bstat (rcpu (flush_one c cpu s) d x) = (if d = c \<and> x = cpu then cbstat (rcpu s c cpu) else last_bstat (rcpu s d x))"
    and "d \<noteq> p \<Longrightarrow> pending_bstat (rcg (flush_one c cpu s) d) = (if d = c then zero_cputime else pending_bstat (rcg s d))"
    and "f \<in> fields \<Longrightarrow> f (pending_bstat (rcg (flush_one c cpu s) p)) = f (pending_bstat (rcg s p)) + delta_of f s c cpu"
    and "f \<in> fields \<Longrightarrow> f (bstat (rcg (flush_one c cpu s) d)) = f (bstat (rcg s d)) + (if d = c then delta_of f s c cpu else 0)"
  using assms by (auto simp: flush_one_def css_rstat_flush_def cgroup_base_stat_flush_def Let_def delta_of_def)

lemma flush_one_balanced:
  assumes "css_tree_ok (rtree s)" and "balanced s" and c: "c \<in> set (tcss (rtree s))" and p: "tpar (rtree s) c = Some p"
    and cpu: "cpu < ncpu s"
  shows "balanced (flush_one c cpu s)"
  unfolding balanced_def
proof (intro ballI)
  let ?s = "flush_one c cpu s"
  fix f d assume f: "f \<in> fields" and "d \<in> set (tcss (rtree ?s))"
  then have d: "d \<in> set (tcss (rtree s))" by simp
  have pc: "p < c" by (rule css_tree_okD(2) [OF assms(1) p])
  note B = flush_one_books [OF p less_imp_neq [OF pc], where cpu = cpu]
  have old: "f (bstat (rcg s d)) + f (pending_bstat (rcg s d)) =
      (\<Sum>x<ncpu s. f (last_bstat (rcpu s d x))) + (\<Sum>e\<in>offspring s d. f (bstat (rcg s e)))"
    using assms(2) f d by (simp add: balanced_def)
  have fin: "finite (offspring s d)" by (simp add: offspring_def)
  have lasts: "(\<Sum>x<ncpu s. f (last_bstat (rcpu ?s d x))) = (\<Sum>x<ncpu s. f (last_bstat (rcpu s d x)))
      + (if d = c then f (cbstat (rcpu s c cpu)) - f (last_bstat (rcpu s c cpu)) else 0)"
  proof (cases "d = c")
    case True
    then show ?thesis
      using sum_change [of "{..<ncpu s}" cpu "\<lambda>x. f (last_bstat (rcpu ?s d x))" "\<lambda>x. f (last_bstat (rcpu s d x))"] cpu
      by (simp add: B(1) algebra_simps)
  qed (simp add: B(1))
  have kids: "(\<Sum>e\<in>offspring s d. f (bstat (rcg ?s e))) = (\<Sum>e\<in>offspring s d. f (bstat (rcg s e)))
      + (if d = p then delta_of f s c cpu else 0)"
  proof (cases "d = p")
    case True
    then have "c \<in> offspring s d" using c p by (simp add: offspring_def)
    from sum_change [OF fin this, of "\<lambda>e. f (bstat (rcg ?s e))" "\<lambda>e. f (bstat (rcg s e))"] True f
    show ?thesis by (simp add: B(4) algebra_simps)
  next
    case False
    then have "e \<noteq> c" if "e \<in> offspring s d" for e using that p by (auto simp: offspring_def)
    with False f show ?thesis by (simp add: B(4))
  qed
  have "f (bstat (rcg ?s d)) + f (pending_bstat (rcg ?s d)) = f (bstat (rcg s d)) + f (pending_bstat (rcg s d))
      + (if d = c then f (cbstat (rcpu s c cpu)) - f (last_bstat (rcpu s c cpu)) else 0) + (if d = p then delta_of f s c cpu else 0)"
    using B(2) [of d] B(3) [OF f] B(4) [OF f, of d] pc f
    by (cases "d = p"; cases "d = c") (simp_all add: delta_of_def algebra_simps)
  then show "f (bstat (rcg ?s d)) + f (pending_bstat (rcg ?s d)) =
      (\<Sum>x<ncpu ?s. f (last_bstat (rcpu ?s d x))) + (\<Sum>e\<in>offspring ?s d. f (bstat (rcg ?s e)))"
    unfolding flush_one_frame lasts kids old by (simp add: algebra_simps)
qed

text \<open>A pop followed by the flush of the cgroup it returned.\<close>

lemma only_linksD:
  assumes "only_links cpu s s'"
  shows "rtree s' = rtree s" "ncpu s' = ncpu s" "rcg s' = rcg s" "allocated s' = allocated s" "rstat_warned s' = rstat_warned s"
    "cbstat (rcpu s' c x) = cbstat (rcpu s c x)" "last_bstat (rcpu s' c x) = last_bstat (rcpu s c x)"
    "x \<noteq> cpu \<Longrightarrow> rcpu s' c x = rcpu s c x" "offspring s' = offspring s" "balanced s' = balanced s"
  using assms by (simp_all add: only_links_def balanced_def offspring_def [abs_def])

lemma linked_up_other: "only_links cpu s s' \<Longrightarrow> x \<noteq> cpu \<Longrightarrow> linked_up s' x = linked_up s x"
  using only_linksD [of cpu s s'] by (intro linked_up_cong) simp_all

lemma pop_flush_inv:
  assumes inv: "rstat_inv s" and cpu: "cpu < ncpu s" and c: "c \<in> set (tcss (rtree s))" and p: "tpar (rtree s) c = Some p"
    and nx: "nx s cpu c \<noteq> None" and pop: "linked_up s1 cpu" "only_links cpu s s1"
    and left: "\<And>d. nx s1 cpu d \<noteq> None \<longleftrightarrow> nx s cpu d \<noteq> None \<and> d \<noteq> c"
  shows "rstat_inv (flush_one c cpu s1)" (is "rstat_inv ?s")
proof -
  note I = rstat_invD [OF inv] and O = only_linksD [OF pop(2)]
  have pc: "p < c" by (rule css_tree_okD(2) [OF I(1) p])
  have p1: "tpar (rtree s1) c = Some p" using p O(1) by simp
  note B = flush_one_books [OF p1 less_imp_neq [OF pc], where cpu = cpu]
  have links: "linked_up ?s x = linked_up s1 x" for x by (rule linked_up_cong) simp_all
  have up: "linked_up ?s x" if "x < ncpu s" for x
    using pop(1) linked_up_other [OF pop(2)] I(2) [OF that] links by (cases "x = cpu") auto
  have bal: "balanced ?s"
    by (rule flush_one_balanced) (use I(1,3) O c p cpu in simp_all)
  have same: "nx ?s x d \<noteq> None \<longleftrightarrow> nx s x d \<noteq> None \<and> \<not> (d = c \<and> x = cpu)" for x d
    using left [of d] O(8) [of x d] by (cases "x = cpu") auto
  then have none: "nx ?s x d = None \<longleftrightarrow> nx s x d = None \<or> d = c \<and> x = cpu" for x d by blast
  have "reported ?s"
    unfolding reported_def flush_one_frame O
  proof (intro ballI impI allI)
    fix d x assume d: "d \<in> set (tcss (rtree s))" "tpar (rtree s) d \<noteq> None" "x < ncpu s" "nx s1 x d = None"
    show "cbstat (rcpu s d x) = last_bstat (rcpu ?s d x)"
    proof (cases "d = c \<and> x = cpu")
      case True
      then show ?thesis by (simp add: B(1) O)
    next
      case False
      moreover have "nx s x d = None \<or> d = c \<and> x = cpu" using none [of d x] d(4) by simp
      ultimately have "nx s x d = None" by blast
      then have "cbstat (rcpu s d x) = last_bstat (rcpu s d x)" using I(4) d(1-3) unfolding reported_def by blast
      then show ?thesis using False unfolding B(1) O by auto
    qed
  qed
  moreover have "settled_down ?s"
    unfolding settled_down_def flush_one_frame O
  proof (intro ballI impI)
    fix d assume d: "d \<in> set (tcss (rtree s))" "tpar (rtree s) d \<noteq> None" "\<forall>x < ncpu s. nx s1 x d = None"
    have "d \<noteq> p"
    proof
      assume "d = p"
      have "closed s cpu" using I(2) [OF cpu] by (simp add: linked_up_def)
      moreover have "tpar (rtree s) p \<noteq> None" using d(2) \<open>d = p\<close> by simp
      ultimately have "nx s cpu p \<noteq> None" using closedD c nx p by simp
      then show False using d(3) cpu left [of p] pc \<open>d = p\<close> by auto
    qed
    moreover have "pending_bstat (rcg s d) = zero_cputime" if "d \<noteq> c"
    proof -
      have "\<forall>x < ncpu s. nx s x d = None" using d(3) none that by simp
      then show ?thesis using I(5) d(1,2) unfolding settled_down_def by blast
    qed
    ultimately show "pending_bstat (rcg ?s d) = zero_cputime" using B(2) [of d] by (auto simp: O)
  qed
  ultimately show ?thesis using I(1,6) up bal O by (simp add: rstat_inv_def)
qed

subsection \<open>The traversal ends\<close>

definition marked_below :: "rstat \<Rightarrow> nat \<Rightarrow> nat \<Rightarrow> nat set" where
  "marked_below s cpu root = {d. in_subtree (rtree s) root d \<and> nx s cpu d \<noteq> None}"

lemma finite_marked [simp]: "finite (marked_below s cpu root)"
  by (rule finite_subset [of _ "set (tcss (rtree s))"]) (auto simp: marked_below_def in_subtree_def)

definition same_reports :: "rstat \<Rightarrow> rstat \<Rightarrow> bool" where
  "same_reports s s' \<longleftrightarrow> rtree s' = rtree s \<and> ncpu s' = ncpu s \<and> allocated s' = allocated s
     \<and> (\<forall>c x. cbstat (rcpu s' c x) = cbstat (rcpu s c x))"

lemma flush_cpu_ok:
  assumes "rstat_inv s" and "cpu < ncpu s" and "root \<in> set (tcss (rtree s))" and "travelling s cpu root pos"
  shows "\<exists>s'. flush_cpu root cpu pos s = Some s' \<and> rstat_inv s' \<and> same_reports s s' \<and> marked_below s' cpu root = {}
    \<and> (\<forall>x d. x \<noteq> cpu \<longrightarrow> nx s' x d = nx s x d)"
  using assms
proof (induction "card (marked_below s cpu root)" arbitrary: s pos rule: less_induct)
  case less
  obtain ch where T: "utree s cpu ch" "closed s cpu" using rstat_invD(2) [OF less.prems(1,2)] by (auto simp: linked_up_def)
  from pop_ok [OF T less.prems(3,4)] show ?case
  proof (elim disjE exE conjE)
    assume stop: "cgroup_rstat_cpu_pop_updated pos root cpu s = Some (None, s)"
      "\<forall>d. in_subtree (rtree s) root d \<longrightarrow> nx s cpu d = None"
    then show ?thesis
      using less.prems(1) by (subst flush_cpu.simps) (auto simp: same_reports_def marked_below_def)
  next
    fix c p s1 ch1
    assume go: "cgroup_rstat_cpu_pop_updated pos root cpu s = Some (Some c, s1)" "in_subtree (rtree s) root c"
        "tpar (rtree s) c = Some p" "nx s cpu c \<noteq> None" "utree s1 cpu ch1" "closed s1 cpu" "only_links cpu s s1"
        "\<forall>d. nx s1 cpu d \<noteq> None \<longleftrightarrow> nx s cpu d \<noteq> None \<and> d \<noteq> c" "travelling s1 cpu root (Some c)"
    let ?s = "flush_one c cpu s1"
    note O = only_linksD [OF go(7)]
    have c: "c \<in> set (tcss (rtree s))" using go(2) by (simp add: in_subtree_def)
    have "rstat_inv ?s"
      by (rule pop_flush_inv [OF less.prems(1,2) c go(3,4) _ go(7)]) (use go(5,6,8) in \<open>auto simp: linked_up_def\<close>)
    moreover have "travelling ?s cpu root (Some c)" using go(9) unfolding travelling_def flush_one_frame .
    moreover have mb: "marked_below ?s cpu root = marked_below s cpu root - {c}"
      using go(8) O(1) by (auto simp: marked_below_def)
    moreover have "c \<in> marked_below s cpu root" using go(2,4) by (simp add: marked_below_def)
    then have "card (marked_below ?s cpu root) < card (marked_below s cpu root)"
      unfolding mb by (intro card_Diff1_less) simp_all
    ultimately obtain s' where s': "flush_cpu root cpu (Some c) ?s = Some s'" "rstat_inv s'" "same_reports ?s s'"
      "marked_below s' cpu root = {}" "\<forall>x d. x \<noteq> cpu \<longrightarrow> nx s' x d = nx ?s x d"
      using less.hyps [of ?s "Some c"] less.prems(2,3) O by auto
    have "flush_cpu root cpu pos s = Some s'"
      using go(1) s'(1) by (subst flush_cpu.simps) (simp add: flush_one_def)
    moreover have "same_reports s s'" using s'(3) O by (simp add: same_reports_def)
    moreover have "nx s' x d = nx s x d" if "x \<noteq> cpu" for x d using s'(5) O(8) that by simp
    ultimately show ?thesis using s'(2,4) by blast
  qed
qed

lemma flush_cpus_ok:
  assumes "rstat_inv s" and "set cpus \<subseteq> {..<ncpu s}" and "root \<in> set (tcss (rtree s))"
  shows "\<exists>s'. flush_cpus root cpus s = Some s' \<and> rstat_inv s' \<and> same_reports s s' \<and> (\<forall>cpu \<in> set cpus. marked_below s' cpu root = {})
    \<and> (\<forall>x d. x \<notin> set cpus \<longrightarrow> nx s' x d = nx s x d)"
  using assms
proof (induction cpus arbitrary: s)
  case Nil
  then show ?case by (simp add: same_reports_def)
next
  case (Cons cpu cpus)
  have "travelling s cpu root None" by (simp add: travelling_def)
  moreover have "cpu < ncpu s" using Cons.prems(2) by simp
  ultimately obtain s1 where
    s1: "flush_cpu root cpu None s = Some s1" "rstat_inv s1" "same_reports s s1" "marked_below s1 cpu root = {}"
      "\<forall>x d. x \<noteq> cpu \<longrightarrow> nx s1 x d = nx s x d"
    using flush_cpu_ok [OF Cons.prems(1) _ Cons.prems(3), of cpu None] by blast
  then obtain s2 where s2: "flush_cpus root cpus s1 = Some s2" "rstat_inv s2" "same_reports s1 s2"
      "\<forall>x \<in> set cpus. marked_below s2 x root = {}" "\<forall>x d. x \<notin> set cpus \<longrightarrow> nx s2 x d = nx s1 x d"
    using Cons.IH [of s1] Cons.prems by (auto simp: same_reports_def)
  have "marked_below s2 cpu root = {}"
  proof (cases "cpu \<in> set cpus")
    case False
    then have "marked_below s2 cpu root = marked_below s1 cpu root"
      using s2(3,5) by (simp add: marked_below_def same_reports_def)
    with s1(4) show ?thesis by simp
  qed (use s2(4) in blast)
  moreover have "same_reports s s2" using s1(3) s2(3) by (simp add: same_reports_def)
  ultimately show ?case using s1 s2 by auto
qed

end
