(* ===== verification/Rstat_Props.thy ===== *)
theory Rstat_Props
  imports Rstat_Flush
begin

section \<open>What the statistics promise\<close>

text \<open>
  The remaining operations keep the books, so every reachable state has them; a flush ends and makes
  the statistics of the subtree exact.
\<close>

subsection \<open>Accounting\<close>

lemma account_inv:
  assumes inv: "rstat_inv s" and c: "c \<in> set (tcss (rtree s))" and cpu: "cpu < ncpu s"
  shows "rstat_inv (account f c cpu s)"
proof -
  note I = rstat_invD [OF inv]
  define s0 where "s0 = upd_cpu c cpu (\<lambda>r. r\<lparr>cbstat := f (cbstat r)\<rparr>) s"
  define s' where "s' = cgroup_rstat_updated c cpu s0"
  have s0: "rtree s0 = rtree s" "ncpu s0 = ncpu s" "rcg s0 = rcg s" "rstat_warned s0 = rstat_warned s"
    "\<And>d x. nx s0 x d = nx s x d" "\<And>d x. fc s0 x d = fc s x d" "\<And>d x. last_bstat (rcpu s0 d x) = last_bstat (rcpu s d x)"
    "\<And>d x. \<not> (d = c \<and> x = cpu) \<Longrightarrow> cbstat (rcpu s0 d x) = cbstat (rcpu s d x)"
    by (auto simp: s0_def)
  have l0: "linked_up s0 x = linked_up s x" for x by (rule linked_up_cong) (simp_all add: s0)
  obtain ch where T: "utree s0 cpu ch" "closed s0 cpu" using I(2) [OF cpu] l0 by (auto simp: linked_up_def)
  have c0: "c \<in> set (tcss (rtree s0))" using c s0 by simp
  note M = rstat_updated_ok [OF T c0, folded s'_def] and O = only_linksD [OF rstat_updated_ok(3) [OF T c0], folded s'_def]
  have up: "linked_up s' x" if "x < ncpu s" for x
    using M(1,2) linked_up_other [OF M(3)] I(2) [OF that] l0 by (cases "x = cpu") (auto simp: linked_up_def)
  have grow: "nx s x d = None" if "nx s' x d = None" for x d
    using M(4) [of d] that O(8) [of x d] s0(5) by (cases "nx s x d"; cases "x = cpu") auto
  have "balanced s0" using I(3) by (simp add: balanced_def offspring_def s0)
  then have "balanced s'" using O by simp
  moreover have "reported s'"
    unfolding reported_def O s0
  proof (intro ballI impI allI)
    fix d x assume d: "d \<in> set (tcss (rtree s))" "tpar (rtree s) d \<noteq> None" "x < ncpu s" "nx s' x d = None"
    have "\<not> (d = c \<and> x = cpu)" using M(5) d(2,4) by (auto simp: s0)
    moreover have "cbstat (rcpu s d x) = last_bstat (rcpu s d x)"
      using I(4) d(1-3) grow [OF d(4)] unfolding reported_def by blast
    ultimately show "cbstat (rcpu s0 d x) = last_bstat (rcpu s d x)" by (simp add: s0)
  qed
  moreover have "settled_down s'"
    using I(5) grow unfolding settled_down_def O s0 by blast
  ultimately show ?thesis using I(1,6) up O s0 by (simp add: rstat_inv_def account_def s'_def s0_def)
qed

subsection \<open>New cgroups\<close>

text \<open>\<open>cgroup_create\<close> gives the allocated and zeroed cgroup its parent before it calls \<open>cgroup_rstat_init\<close>.\<close>

definition add_cgroup :: "nat \<Rightarrow> nat \<Rightarrow> rstat \<Rightarrow> rstat" where
  "add_cgroup c p s = s\<lparr>rtree := (rtree s)\<lparr>tpar := (tpar (rtree s))(c \<mapsto> p), tcss := tcss (rtree s) @ [c]\<rparr>,
     allocated := (allocated s)(c := False),
     rcg := (rcg s)(c := \<lparr>pending_bstat = zero_cputime, bstat = zero_cputime\<rparr>)\<rparr>"

lemma fold_init:
  "rcpu (fold (\<lambda>cpu s. upd_cpu c cpu (\<lambda>r. r\<lparr>updated_children := c\<rparr>) s) cpus s) d x =
     (if d = c \<and> x \<in> set cpus then (rcpu s d x)\<lparr>updated_children := c\<rparr> else rcpu s d x)"
  "rtree (fold (\<lambda>cpu s. upd_cpu c cpu (\<lambda>r. r\<lparr>updated_children := c\<rparr>) s) cpus s) = rtree s"
  "ncpu (fold (\<lambda>cpu s. upd_cpu c cpu (\<lambda>r. r\<lparr>updated_children := c\<rparr>) s) cpus s) = ncpu s"
  "rcg (fold (\<lambda>cpu s. upd_cpu c cpu (\<lambda>r. r\<lparr>updated_children := c\<rparr>) s) cpus s) = rcg s"
  "rstat_warned (fold (\<lambda>cpu s. upd_cpu c cpu (\<lambda>r. r\<lparr>updated_children := c\<rparr>) s) cpus s) = rstat_warned s"
  by (induction cpus arbitrary: s) auto

lemma rstat_create_frame:
  assumes "cgroup_rstat_init ok c (add_cgroup c p s) = (0, s')"
  shows "tpar (rtree s') = (tpar (rtree s))(c \<mapsto> p)" "tcss (rtree s') = tcss (rtree s) @ [c]" "ncpu s' = ncpu s"
    "rstat_warned s' = rstat_warned s" "d \<noteq> c \<Longrightarrow> rcpu s' d = rcpu s d" "d \<noteq> c \<Longrightarrow> rcg s' d = rcg s d"
    "rcg s' c = \<lparr>pending_bstat = zero_cputime, bstat = zero_cputime\<rparr>"
    "x < ncpu s \<Longrightarrow> rcpu s' c x = \<lparr>updated_children = c, updated_next = None, cbstat = zero_cputime, last_bstat = zero_cputime\<rparr>"
  using assms by (auto simp: cgroup_rstat_init_def add_cgroup_def fold_init Let_def ENOMEM_def fun_eq_iff split: if_splits)

lemma rstat_create_tree:
  assumes ok: "css_tree_ok (rtree s)" and new: "\<forall>d \<in> set (tcss (rtree s)). d < c" and p: "p \<in> set (tcss (rtree s))"
    and run: "cgroup_rstat_init al c (add_cgroup c p s) = (0, s')"
  shows "css_tree_ok (rtree s')" and "p < c" and "c \<notin> set (tcss (rtree s))"
    and "offspring s' d = (if d = c then {} else if d = p then insert c (offspring s d) else offspring s d)"
proof -
  let ?par = "tpar (rtree s)" and ?css = "set (tcss (rtree s))"
  note F = rstat_create_frame [OF run]
  show pc: "p < c" "c \<notin> ?css" using new p by auto
  have "sorted_wrt (<) (tcss (rtree s) @ [c])" using ok new by (simp add: css_tree_ok_def sorted_wrt_append)
  moreover have "tree_ok (?par(c \<mapsto> p))" using css_tree_okD(1) [OF ok] pc by (simp add: tree_ok_def)
  moreover have "\<forall>d \<in> ?css. \<forall>q. ?par d = Some q \<longrightarrow> q \<in> ?css" using css_tree_okD(3) [OF ok] by blast
  ultimately show "css_tree_ok (rtree s')" using p pc by (simp add: css_tree_ok_def F)
  show "offspring s' d = (if d = c then {} else if d = p then insert c (offspring s d) else offspring s d)"
    using css_tree_okD(2,3) [OF ok] pc new by (auto simp: offspring_def F)
qed

lemma rstat_create_linked:
  assumes ok: "css_tree_ok (rtree s)" and new: "\<forall>d \<in> set (tcss (rtree s)). d < c" and p: "p \<in> set (tcss (rtree s))"
    and run: "cgroup_rstat_init al c (add_cgroup c p s) = (0, s')" and x: "x < ncpu s" and up: "linked_up s x"
  shows "linked_up s' x"
proof -
  let ?par = "tpar (rtree s)" and ?css = "set (tcss (rtree s))"
  note F = rstat_create_frame [OF run] and pc = rstat_create_tree(2,3) [OF ok new p run]
  obtain ch where T: "utree s x ch" "closed s x" using up by (auto simp: linked_up_def)
  have out: "d \<noteq> c" if "q \<in> ?css" "d \<in> set (ch q)" for d q using utreeD(3) [OF T(1) that] pc by auto
  have keep: "chain (nx s' x) y (ch q) q = chain (nx s x) y (ch q) q" if "q \<in> ?css" for y q
    by (rule chain_cong) (use out [OF that] F(5) in auto)
  have old: "d \<in> ?css" "nx s x d \<noteq> None" "d \<noteq> c" if "d \<in> set (tcss (rtree s'))" "nx s' x d \<noteq> None" for d
    using that F(8) [OF x] F(5) [of d] by (cases "d = c"; simp add: F(2))+
  have "chain (nx s' x) (fc s' x q) ((ch(c := [])) q) q \<and> distinct ((ch(c := [])) q)
      \<and> (\<forall>d \<in> set ((ch(c := [])) q). tpar (rtree s') d = Some q \<and> d \<in> set (tcss (rtree s')))" if "q \<in> set (tcss (rtree s'))" for q
  proof (cases "q = c")
    case True
    then show ?thesis using F(8) [OF x] by simp
  next
    case False
    with that have q: "q \<in> ?css" by (simp add: F)
    show ?thesis
      using utreeD(1,2) [OF T(1) q] utreeD(3) [OF T(1) q] out [OF q] keep [OF q] False by (auto simp: F)
  qed
  moreover have "\<exists>q \<in> set (tcss (rtree s')). d \<in> set ((ch(c := [])) q)" if "d \<in> set (tcss (rtree s'))" "nx s' x d \<noteq> None" for d
  proof -
    note d = old(1) [OF that] old(2) [OF that]
    obtain q where "q \<in> ?css" "d \<in> set (ch q)" using utreeD(4) [OF T(1) d] by blast
    then show ?thesis using pc by (auto simp: F intro!: bexI [of _ q])
  qed
  ultimately have "utree s' x (ch(c := []))" using rstat_create_tree(1) [OF ok new p run] by (simp add: utree_def)
  moreover have "closed s' x"
    unfolding closed_def
  proof (intro ballI allI impI)
    fix d q assume d: "d \<in> set (tcss (rtree s'))" "nx s' x d \<noteq> None" "tpar (rtree s') d = Some q"
    then have q: "?par d = Some q" using old(3) [OF d(1,2)] by (simp add: F)
    have "q \<in> ?css" using css_tree_okD(3) [OF ok q old(1) [OF d(1,2)]] .
    then have "q \<noteq> c" using pc by auto
    then show "tpar (rtree s') q = None \<or> nx s' x q \<noteq> None"
      using closedD [OF T(2) old(1) [OF d(1,2)] old(2) [OF d(1,2)] q] by (cases "?par q") (simp_all add: F)
  qed
  ultimately show ?thesis by (auto simp: linked_up_def)
qed

lemma rstat_create_balanced:
  assumes ok: "css_tree_ok (rtree s)" and new: "\<forall>d \<in> set (tcss (rtree s)). d < c" and p: "p \<in> set (tcss (rtree s))"
    and run: "cgroup_rstat_init al c (add_cgroup c p s) = (0, s')" and bal: "balanced s"
  shows "balanced s'"
  unfolding balanced_def
proof (intro ballI)
  note F = rstat_create_frame [OF run] and tree = rstat_create_tree [OF ok new p run]
  fix f d assume f: "f \<in> fields" and d: "d \<in> set (tcss (rtree s'))"
  show "f (bstat (rcg s' d)) + f (pending_bstat (rcg s' d)) =
      (\<Sum>x<ncpu s'. f (last_bstat (rcpu s' d x))) + (\<Sum>e\<in>offspring s' d. f (bstat (rcg s' e)))"
  proof (cases "d = c")
    case True
    then show ?thesis using f F by (simp add: tree(4))
  next
    case False
    have c: "c \<notin> offspring s d" "finite (offspring s d)" using tree(3) by (simp_all add: offspring_def)
    have "(\<Sum>e\<in>offspring s d. f (bstat (rcg s' e))) = (\<Sum>e\<in>offspring s d. f (bstat (rcg s e)))"
    proof (rule sum.cong [OF refl])
      fix e assume "e \<in> offspring s d"
      with c have "e \<noteq> c" by blast
      then show "f (bstat (rcg s' e)) = f (bstat (rcg s e))" by (simp add: F(6))
    qed
    moreover have "f (bstat (rcg s d)) + f (pending_bstat (rcg s d)) =
        (\<Sum>x<ncpu s. f (last_bstat (rcpu s d x))) + (\<Sum>e\<in>offspring s d. f (bstat (rcg s e)))"
      using bal f d False by (simp add: balanced_def F)
    ultimately show ?thesis using False c f by (cases "d = p") (simp_all add: tree(4) F)
  qed
qed

lemma rstat_create_inv:
  assumes inv: "rstat_inv s" and new: "\<forall>d \<in> set (tcss (rtree s)). d < c" and p: "p \<in> set (tcss (rtree s))"
    and run: "cgroup_rstat_init ok c (add_cgroup c p s) = (0, s')"
  shows "rstat_inv s'"
proof -
  note I = rstat_invD [OF inv] and F = rstat_create_frame [OF run]
  have "reported s'" using I(4) by (auto simp: reported_def F)
  moreover have "settled_down s'" using I(5) by (auto simp: settled_down_def F)
  ultimately show ?thesis
    using I(2,6) rstat_create_tree(1) [OF I(1) new p run] rstat_create_linked [OF I(1) new p run]
      rstat_create_balanced [OF I(1) new p run I(3)] by (simp add: rstat_inv_def F)
qed

subsection \<open>Flush and exit\<close>

lemma rstat_flush_ok:
  assumes "rstat_inv s" and "c \<in> set (tcss (rtree s))"
  shows "\<exists>s'. cgroup_rstat_flush c s = Some s' \<and> rstat_inv s' \<and> same_reports s s'
    \<and> (\<forall>cpu < ncpu s. \<forall>d. in_subtree (rtree s) c d \<longrightarrow> nx s' cpu d = None)"
proof -
  obtain s' where s': "flush_cpus c [0..<ncpu s] s = Some s'" "rstat_inv s'" "same_reports s s'"
    "\<forall>cpu \<in> set [0..<ncpu s]. marked_below s' cpu c = {}"
    using flush_cpus_ok [OF assms(1) _ assms(2), of "[0..<ncpu s]"] by (metis atLeast_upt order_refl)
  have "nx s' cpu d = None" if "cpu < ncpu s" "in_subtree (rtree s) c d" for cpu d
    using s'(3,4) that by (auto simp: marked_below_def same_reports_def)
  with s' show ?thesis by (auto simp: cgroup_rstat_flush_def cgroup_rstat_flush_locked_def)
qed

lemma rstat_exit_ok:
  assumes "rstat_inv s" and c: "c \<in> set (tcss (rtree s))"
  shows "\<exists>s'. cgroup_rstat_exit c s = Some s' \<and> rstat_inv s' \<and> \<not> allocated s' c"
proof -
  obtain s' where s': "cgroup_rstat_flush c s = Some s'" "rstat_inv s'" "same_reports s s'"
    "\<forall>cpu < ncpu s. \<forall>d. in_subtree (rtree s) c d \<longrightarrow> nx s' cpu d = None"
    using rstat_flush_ok [OF assms] by blast
  have tree: "rtree s' = rtree s" "ncpu s' = ncpu s" using s'(3) by (simp_all add: same_reports_def)
  have clean: "nx s' cpu c = None \<and> fc s' cpu c = c" if "cpu < ncpu s" for cpu
  proof -
    have "linked_up s' cpu" by (rule rstat_invD(2) [OF s'(2)]) (use that tree in simp)
    then obtain ch where T: "utree s' cpu ch" unfolding linked_up_def by blast
    have "d \<notin> set (ch c)" for d
    proof
      assume "d \<in> set (ch c)"
      then have d: "tpar (rtree s) d = Some c" "d \<in> set (tcss (rtree s))" "nx s' cpu d \<noteq> None"
        using utreeD(3) [OF T _ , of c d] c tree by auto
      have "in_subtree (rtree s) c d"
        using d css_tree_okD(1) [OF rstat_invD(1) [OF assms(1)]] by (simp add: in_subtree_def ancestors_child)
      then have "nx s' cpu d = None" using s'(4) that by simp
      with d(3) show False by simp
    qed
    then have "ch c = []" by (cases "ch c") auto
    then show ?thesis using head_of_list(2) [OF T, of c] c tree s'(4) that by (simp add: in_subtree_def)
  qed
  define s2 where "s2 = s'\<lparr>allocated := (allocated s')(c := False)\<rparr>"
  have "cgroup_rstat_exit c s = Some s2"
  proof -
    have "\<not> (\<exists>cpu \<in> set [0..<ncpu s']. fc s' cpu c \<noteq> c \<or> nx s' cpu c \<noteq> None)"
    proof (rule notI, elim bexE)
      fix cpu assume "cpu \<in> set [0..<ncpu s']" "fc s' cpu c \<noteq> c \<or> nx s' cpu c \<noteq> None"
      then show False using clean [of cpu] tree(2) by auto
    qed
    then show ?thesis unfolding cgroup_rstat_exit_def s'(1) bind.bind_lunit s2_def by presburger
  qed
  moreover have "rstat_inv s2"
  proof -
    have "linked_up s2 x = linked_up s' x" for x by (rule linked_up_cong) (simp_all add: s2_def)
    moreover have "balanced s2 = balanced s'" by (simp add: balanced_def offspring_def s2_def)
    moreover have "reported s2 = reported s'" "settled_down s2 = settled_down s'"
      by (simp_all add: reported_def settled_down_def s2_def)
    ultimately show ?thesis using s'(2) by (simp add: rstat_inv_def) (simp add: s2_def)
  qed
  ultimately show ?thesis by (auto simp: s2_def)
qed

subsection \<open>The statistics as a state machine\<close>

text \<open>The boot of the root, whose per-CPU memory is preallocated.\<close>

definition cgroup_rstat_boot :: "nat \<Rightarrow> rstat" where
  "cgroup_rstat_boot n = snd (cgroup_rstat_init True 0
     \<lparr>rtree = \<lparr>tpar = (\<lambda>_. None), tcss = [0], released = (\<lambda>_. False)\<rparr>, ncpu = n,
      rcpu = (\<lambda>_ _. \<lparr>updated_children = 0, updated_next = None, cbstat = zero_cputime, last_bstat = zero_cputime\<rparr>),
      rcg = (\<lambda>_. \<lparr>pending_bstat = zero_cputime, bstat = zero_cputime\<rparr>), allocated = (\<lambda>c. c = 0),
      css_flushed = [], rstat_warned = False\<rparr>)"

lemma rstat_boot_inv: "rstat_inv (cgroup_rstat_boot n)"
proof -
  let ?s = "cgroup_rstat_boot n"
  have s: "rtree ?s = \<lparr>tpar = (\<lambda>_. None), tcss = [0], released = (\<lambda>_. False)\<rparr>" "\<not> rstat_warned ?s"
    "\<And>c. rcg ?s c = \<lparr>pending_bstat = zero_cputime, bstat = zero_cputime\<rparr>"
    "\<And>c x. rcpu ?s c x = \<lparr>updated_children = 0, updated_next = None, cbstat = zero_cputime, last_bstat = zero_cputime\<rparr>"
    by (simp_all add: cgroup_rstat_boot_def cgroup_rstat_init_def fold_init Let_def)
  have ok: "css_tree_ok (rtree ?s)" by (simp add: s css_tree_ok_def tree_ok_def)
  moreover have "utree ?s x (\<lambda>_. [])" for x using ok by (simp add: utree_def s)
  moreover have "closed ?s x" for x by (simp add: closed_def s)
  ultimately show ?thesis
    by (auto simp: rstat_inv_def linked_up_def balanced_def reported_def settled_down_def offspring_def s)
qed

inductive rstat_step :: "rstat \<Rightarrow> rstat \<Rightarrow> bool" where
  cputime: "c \<in> set (tcss (rtree s)) \<Longrightarrow> allocated s c \<Longrightarrow> cpu < ncpu s \<Longrightarrow> rstat_step s (cgroup_account_cputime c d cpu s)"
| cputime_field: "c \<in> set (tcss (rtree s)) \<Longrightarrow> allocated s c \<Longrightarrow> cpu < ncpu s \<Longrightarrow>
    rstat_step s (cgroup_account_cputime_field c i d cpu s)"
| create: "\<forall>d \<in> set (tcss (rtree s)). d < c \<Longrightarrow> p \<in> set (tcss (rtree s)) \<Longrightarrow> allocated s p \<Longrightarrow>
    cgroup_rstat_init ok c (add_cgroup c p s) = (0, s') \<Longrightarrow> rstat_step s s'"
| flush: "c \<in> set (tcss (rtree s)) \<Longrightarrow> cgroup_rstat_flush c s = Some s' \<Longrightarrow> rstat_step s s'"
| stat_show: "c \<in> set (tcss (rtree s)) \<Longrightarrow> cgroup_base_stat_cputime_show adjust c s = Some (line, s') \<Longrightarrow> rstat_step s s'"
| exit: "c \<in> set (tcss (rtree s)) \<Longrightarrow> allocated s c \<Longrightarrow> \<forall>d \<in> offspring s c. \<not> allocated s d \<Longrightarrow>
    cgroup_rstat_exit c s = Some s' \<Longrightarrow> rstat_step s s'"

lemma rstat_step_inv: "rstat_step s s' \<Longrightarrow> rstat_inv s \<Longrightarrow> rstat_inv s'"
proof (induction rule: rstat_step.induct)
  case (cputime c s cpu d)
  then show ?case by (simp add: cgroup_account_cputime_def account_inv)
next
  case (cputime_field c s cpu i d)
  then show ?case by (simp add: cgroup_account_cputime_field_def account_inv)
next
  case (create s c p ok s')
  then show ?case using rstat_create_inv by blast
next
  case (flush c s s')
  then show ?case using rstat_flush_ok [of s c] by auto
next
  case (stat_show c s adjust line s')
  then show ?case
    using rstat_flush_ok [of s c]
    by (auto simp: cgroup_base_stat_cputime_show_def cgroup_rstat_flush_hold_def cgroup_rstat_flush_def Let_def split_beta
        split: if_splits)
next
  case (exit c s s')
  then show ?case using rstat_exit_ok [of s c] by auto
qed

interpretation rstat: kept_invariant rstat_step rstat_inv
  by unfold_locales (rule rstat_step_inv)

subsection \<open>The sum over a subtree\<close>

lemma sum_list_concat_map: "(\<Sum>x\<leftarrow>concat xss. g x) = (\<Sum>xs\<leftarrow>xss. \<Sum>x\<leftarrow>xs. g x)"
  by (induction xss) simp_all

lemma subtree_sum_step:
  fixes g :: "nat \<Rightarrow> 64 word"
  assumes "css_tree_ok T" and "d \<in> set (tcss T)"
  shows "(\<Sum>e\<in>{e. in_subtree T d e}. g e) = g d + (\<Sum>k\<in>{k \<in> set (tcss T). tpar T k = Some d}. \<Sum>e\<in>{e. in_subtree T k e}. g e)"
proof -
  have as_list: "(\<Sum>e\<in>{e. in_subtree T c e}. g e) = (\<Sum>e\<leftarrow>pre_order T c. g e)" if "c \<in> set (tcss T)" for c
    using sum_list_distinct_conv_sum_set [OF distinct_pre_order [OF assms(1)], of g c] set_pre_order [OF assms(1) that] by simp
  have kids: "set (kids T d) = {k \<in> set (tcss T). tpar T k = Some d}" using in_kids [OF assms(1)] by auto
  have "(\<Sum>e\<leftarrow>pre_order T d. g e) = g d + (\<Sum>k\<leftarrow>kids T d. \<Sum>e\<leftarrow>pre_order T k. g e)"
    by (simp add: pre_order.simps [of T d] sum_list_concat_map o_def)
  also have "(\<Sum>k\<leftarrow>kids T d. \<Sum>e\<leftarrow>pre_order T k. g e) = (\<Sum>k\<in>set (kids T d). \<Sum>e\<leftarrow>pre_order T k. g e)"
    by (rule sum_list_distinct_conv_sum_set [OF kids_distinct [OF assms(1)]])
  also have "\<dots> = (\<Sum>k\<in>{k \<in> set (tcss T). tpar T k = Some d}. \<Sum>e\<in>{e. in_subtree T k e}. g e)"
    unfolding kids by (rule sum.cong) (simp_all add: as_list)
  finally show ?thesis using as_list [OF assms(2)] by simp
qed

lemma clean_exact:
  assumes inv: "rstat_inv s" and f: "f \<in> fields" and clean: "\<forall>cpu < ncpu s. \<forall>d. in_subtree (rtree s) c d \<longrightarrow> nx s cpu d = None"
    and "in_subtree (rtree s) c d" and "tpar (rtree s) d \<noteq> None"
  shows "f (bstat (rcg s d)) = (\<Sum>e\<in>{e. in_subtree (rtree s) d e}. \<Sum>cpu<ncpu s. f (cbstat (rcpu s e cpu)))"
  using assms(4,5)
proof (induction "card {e \<in> set (tcss (rtree s)). d < e}" arbitrary: d rule: less_induct)
  case less
  note I = rstat_invD [OF inv]
  have d: "d \<in> set (tcss (rtree s))" using less.prems(1) by (simp add: in_subtree_def)
  have none: "nx s cpu d = None" if "cpu < ncpu s" for cpu using clean that less.prems(1) by simp
  have "cbstat (rcpu s d cpu) = last_bstat (rcpu s d cpu)" if "cpu < ncpu s" for cpu
    using I(4) d less.prems(2) none [OF that] that by (simp add: reported_def)
  then have own: "(\<Sum>cpu<ncpu s. f (last_bstat (rcpu s d cpu))) = (\<Sum>cpu<ncpu s. f (cbstat (rcpu s d cpu)))" by simp
  have "pending_bstat (rcg s d) = zero_cputime" using I(5) d less.prems(2) none by (simp add: settled_down_def)
  then have "f (pending_bstat (rcg s d)) = 0" using field_ops(1) [OF f] by simp
  moreover have "f (bstat (rcg s d)) + f (pending_bstat (rcg s d)) =
      (\<Sum>cpu<ncpu s. f (last_bstat (rcpu s d cpu))) + (\<Sum>k\<in>offspring s d. f (bstat (rcg s k)))"
    using I(3) f d unfolding balanced_def by blast
  ultimately have "f (bstat (rcg s d)) = (\<Sum>cpu<ncpu s. f (cbstat (rcpu s d cpu))) + (\<Sum>k\<in>offspring s d. f (bstat (rcg s k)))"
    using own by simp
  moreover have "f (bstat (rcg s k)) = (\<Sum>e\<in>{e. in_subtree (rtree s) k e}. \<Sum>cpu<ncpu s. f (cbstat (rcpu s e cpu)))"
    if "k \<in> offspring s d" for k
  proof (rule less.hyps)
    have k: "k \<in> set (tcss (rtree s))" "tpar (rtree s) k = Some d" using that by (simp_all add: offspring_def)
    have lt: "d < k" by (rule css_tree_okD(2) [OF I(1) k(2)])
    have "{e \<in> set (tcss (rtree s)). k < e} \<subset> {e \<in> set (tcss (rtree s)). d < e}" using lt k(1) by auto
    then show "card {e \<in> set (tcss (rtree s)). k < e} < card {e \<in> set (tcss (rtree s)). d < e}"
      by (intro psubset_card_mono) simp_all
    show "in_subtree (rtree s) c k"
      using k less.prems(1) ancestors_child [OF css_tree_okD(1) [OF I(1)] k(2)] by (auto simp: in_subtree_def)
    show "tpar (rtree s) k \<noteq> None" using k(2) by simp
  qed
  ultimately show ?case
    using subtree_sum_step [OF I(1) d, of "\<lambda>e. \<Sum>cpu<ncpu s. f (cbstat (rcpu s e cpu))"] by (simp add: offspring_def)
qed

subsection \<open>Properties\<close>

text \<open>C12: a flush ends and is exact.  In every state reachable from the boot, the flush of a cgroup
  returns; afterwards the user time, system time and run time of every cgroup of the subtree but
  the root of the hierarchy are the sums (in 64 bits) of what all CPUs have reported for the
  cgroups below it; the reports themselves are unchanged and no warning has fired.\<close>

theorem rstat_flush_exact:
  assumes "rstat_step\<^sup>*\<^sup>* (cgroup_rstat_boot n) s" and "c \<in> set (tcss (rtree s))"
  shows "\<exists>s'. cgroup_rstat_flush c s = Some s' \<and> (\<forall>d. in_subtree (rtree s) c d \<longrightarrow> tpar (rtree s) d \<noteq> None \<longrightarrow>
      (\<forall>f \<in> {utime, stime, sum_exec_runtime}. f (bstat (rcg s' d)) =
        (\<Sum>e\<in>{e. in_subtree (rtree s) d e}. \<Sum>cpu<ncpu s. f (cbstat (rcpu s e cpu)))))
    \<and> (\<forall>e cpu. cbstat (rcpu s' e cpu) = cbstat (rcpu s e cpu)) \<and> \<not> rstat_warned s'"
proof -
  have inv: "rstat_inv s" using assms(1) rstat_boot_inv by (rule rstat.reachable_inv)
  obtain s' where s': "cgroup_rstat_flush c s = Some s'" "rstat_inv s'" "same_reports s s'"
    "\<forall>cpu < ncpu s. \<forall>d. in_subtree (rtree s) c d \<longrightarrow> nx s' cpu d = None"
    using rstat_flush_ok [OF inv assms(2)] by blast
  have same: "rtree s' = rtree s" "ncpu s' = ncpu s" "\<And>e cpu. cbstat (rcpu s' e cpu) = cbstat (rcpu s e cpu)"
    using s'(3) by (simp_all add: same_reports_def)
  have "f (bstat (rcg s' d)) = (\<Sum>e\<in>{e. in_subtree (rtree s) d e}. \<Sum>cpu<ncpu s. f (cbstat (rcpu s e cpu)))"
    if "in_subtree (rtree s) c d" "tpar (rtree s) d \<noteq> None" "f \<in> {utime, stime, sum_exec_runtime}" for d f
    using clean_exact [OF s'(2), of f c d] that s'(4) by (simp add: same fields_def)
  with s'(1) same(3) rstat_invD(6) [OF s'(2)] show ?thesis by blast
qed

text \<open>Two CPUs, a cgroup 1 and its child 2; the child ran on both CPUs.\<close>

definition demo_rstat :: rstat where
  "demo_rstat = cgroup_account_cputime_field 2 CPUTIME_USER 7 1 (cgroup_account_cputime 2 5 0
     (snd (cgroup_rstat_init True 2 (add_cgroup 2 1 (snd (cgroup_rstat_init True 1 (add_cgroup 1 0 (cgroup_rstat_boot 2))))))))"

lemma demo_rstat_reachable: "rstat_step\<^sup>*\<^sup>* (cgroup_rstat_boot 2) demo_rstat"
proof -
  define s1 where "s1 = snd (cgroup_rstat_init True 1 (add_cgroup 1 0 (cgroup_rstat_boot 2)))"
  define s2 where "s2 = snd (cgroup_rstat_init True 2 (add_cgroup 2 1 s1))"
  define s3 where "s3 = cgroup_account_cputime 2 5 0 s2"
  have b: "set (tcss (rtree (cgroup_rstat_boot 2))) = {0}" "allocated (cgroup_rstat_boot 2) 0" by code_simp+
  have 1: "set (tcss (rtree s1)) = {0, 1}" "allocated s1 1" unfolding s1_def by code_simp+
  have 2: "2 \<in> set (tcss (rtree s2))" "allocated s2 2" "ncpu s2 = 2" unfolding s2_def s1_def by code_simp+
  have 3: "2 \<in> set (tcss (rtree s3))" "allocated s3 2" "ncpu s3 = 2" unfolding s3_def s2_def s1_def by code_simp+
  have ok: "cgroup_rstat_init True c s = (0, snd (cgroup_rstat_init True c s))" for c s
    by (simp add: cgroup_rstat_init_def Let_def)
  have "rstat_step (cgroup_rstat_boot 2) s1"
    unfolding s1_def by (rule rstat_step.create [OF _ _ b(2) ok]) (simp_all add: b)
  moreover have "rstat_step s1 s2" unfolding s2_def by (rule rstat_step.create [OF _ _ 1(2) ok]) (simp_all add: 1)
  moreover have "rstat_step s2 s3" unfolding s3_def by (rule rstat_step.cputime) (simp_all add: 2)
  moreover have "rstat_step s3 demo_rstat"
    unfolding demo_rstat_def s1_def [symmetric] s2_def [symmetric] s3_def [symmetric]
    by (rule rstat_step.cputime_field) (simp_all add: 3)
  ultimately show ?thesis by (meson r_into_rtranclp rtranclp_trans)
qed

theorem rstat_flush_exact_witness:
  "\<exists>s'. cgroup_rstat_flush 1 demo_rstat = Some s' \<and> \<not> rstat_warned s' \<and>
     utime (bstat (rcg s' 1)) = (\<Sum>e\<in>{e. in_subtree (rtree demo_rstat) 1 e}. \<Sum>cpu<ncpu demo_rstat. utime (cbstat (rcpu demo_rstat e cpu)))"
proof -
  have c: "1 \<in> set (tcss (rtree demo_rstat))" "in_subtree (rtree demo_rstat) 1 1" "tpar (rtree demo_rstat) 1 \<noteq> None"
    by code_simp+
  show ?thesis using rstat_flush_exact [OF demo_rstat_reachable c(1)] c(2,3) by blast
qed

end
