(* ===== verification/ShmQueue.thy ===== *)
theory ShmQueue
  imports Prelude
begin

section \<open>The shared-memory channel\<close>

text \<open>
  \<open>include/shm_mpsc_queue.h\<close> with the client and the server of \<open>shm-gsyscall-channel/\<close>: a queue in
  shared memory with many producers and one consumer.  The model is a machine of threads, thread
  0 the server and every other thread a client; a step of a thread is one access to the shared
  memory, so the threads interleave between any two accesses.  Entries are named by their index;
  \<open>N\<close> is the template parameter \<open>SIZE\<close>, and \<open>N\<close> as a link is the end of a list.  The constructor that
  \<open>shmmap\<close> runs in every process is part of each thread.
\<close>

subsection \<open>State\<close>

record syscallEntry =
  buf :: string
  len :: int

text \<open>The program counter of a thread with its local variables.\<close>

datatype pc =
    CtorCas | CtorWait | CtorTail | CtorTop | CtorLoop nat | CtorDone
  | ClientNext | AllocRead | AllocLoop nat | AllocGot nat | AllocSet nat nat
  | FillBuf nat | FillLen nat | PushRead nat | PushLoop nat nat | PushLink nat nat | PushPublish nat nat
  | PopTest | PopRead | PopLoop nat | PopHead nat | PopUnlock nat nat | PopEnd nat nat
  | Serve nat nat | NextEntry nat nat
  | RecycleRead nat nat | RecycleLoop nat nat nat | RecycleLink nat nat nat | RecyclePublish nat nat nat
  | Dead crash

text \<open>
  \<open>todo\<close> holds the messages a client still has to send; \<open>sent\<close> and \<open>printed\<close> are the history: the
  messages in the order in which they were published, with their client, and what the server
  printed.
\<close>

record channel =
  init_state :: nat
  pending_tail :: nat
  empty_top :: nat
  enext :: "nat \<Rightarrow> nat"
  edata :: "nat \<Rightarrow> syscallEntry"
  pcs :: "nat \<Rightarrow> pc"
  todo :: "nat \<Rightarrow> string list"
  sent :: "(nat \<times> string) list"
  printed :: "string list"

definition PendingLock :: "nat \<Rightarrow> nat" where "PendingLock N = N + 1"
definition EmptyLock :: "nat \<Rightarrow> nat" where "EmptyLock N = N + 2"

definition goto :: "nat \<Rightarrow> pc \<Rightarrow> channel \<Rightarrow> channel" where
  "goto t p s = s\<lparr>pcs := (pcs s)(t := p)\<rparr>"

definition set_next :: "nat \<Rightarrow> nat \<Rightarrow> channel \<Rightarrow> channel" where
  "set_next i n s = s\<lparr>enext := (enext s)(i := n)\<rparr>"

definition set_entry :: "nat \<Rightarrow> (syscallEntry \<Rightarrow> syscallEntry) \<Rightarrow> channel \<Rightarrow> channel" where
  "set_entry i f s = s\<lparr>edata := (edata s)(i := f (edata s i))\<rparr>"

subsection \<open>The operations\<close>

text \<open>One turn of the loop of \<open>FetchAndLock\<close>: the variable is read again, or the compare-and-swap
  succeeds (\<open>Inr\<close>) or fails with the value it found.\<close>

definition FetchAndLock :: "nat \<Rightarrow> nat \<Rightarrow> nat \<Rightarrow> nat + nat" where
  "FetchAndLock var lock_val val =
     (if val = lock_val then Inl var else if var = val then Inr val else Inl var)"

definition enter_main :: "nat \<Rightarrow> pc" where
  "enter_main t = (if t = 0 then PopTest else ClientNext)"

fun ctor_step :: "nat \<Rightarrow> nat \<Rightarrow> pc \<Rightarrow> channel \<Rightarrow> channel" where
  "ctor_step N t CtorCas s =
     (if init_state s = 0 then goto t CtorTail (s\<lparr>init_state := 1\<rparr>) else goto t CtorWait s)"
| "ctor_step N t CtorWait s = (if init_state s \<noteq> 2 then s else goto t (enter_main t) s)"
| "ctor_step N t CtorTail s = goto t CtorTop (s\<lparr>pending_tail := 0\<rparr>)"
| "ctor_step N t CtorTop s = goto t (CtorLoop 1) (s\<lparr>empty_top := 1\<rparr>)"
| "ctor_step N t (CtorLoop i) s =
     (if i < N then goto t (CtorLoop (i + 1)) (set_next i (i + 1) s) else goto t CtorDone s)"
| "ctor_step N t CtorDone s = goto t (enter_main t) (s\<lparr>init_state := 2\<rparr>)"
| "ctor_step N t _ s = s"

fun Alloc_step :: "nat \<Rightarrow> nat \<Rightarrow> pc \<Rightarrow> channel \<Rightarrow> channel" where
  "Alloc_step N t AllocRead s = goto t (AllocLoop (empty_top s)) s"
| "Alloc_step N t (AllocLoop val) s =
     (case FetchAndLock (empty_top s) (EmptyLock N) val of
        Inl v \<Rightarrow> goto t (AllocLoop v) s
      | Inr tp \<Rightarrow> goto t (AllocGot tp) (s\<lparr>empty_top := EmptyLock N\<rparr>))"
| "Alloc_step N t (AllocGot tp) s =
     (if tp = N then goto t AllocRead (s\<lparr>empty_top := N\<rparr>)
      else goto t (AllocSet tp (enext s tp)) s)"
| "Alloc_step N t (AllocSet tp nx) s = goto t (FillBuf tp) (s\<lparr>empty_top := nx\<rparr>)"
| "Alloc_step N t _ s = s"

text \<open>The client writes the first message it has to send into its entry.\<close>

fun fill_step :: "nat \<Rightarrow> nat \<Rightarrow> pc \<Rightarrow> channel \<Rightarrow> channel" where
  "fill_step N t ClientNext s = (if todo s t = [] then s else goto t AllocRead s)"
| "fill_step N t (FillBuf i) s =
     goto t (FillLen i) (set_entry i (\<lambda>e. e\<lparr>buf := blit (buf e) 0 (hd (todo s t))\<rparr>) s)"
| "fill_step N t (FillLen i) s =
     goto t (PushRead i) (set_entry i (\<lambda>e. e\<lparr>len := int (length (hd (todo s t)))\<rparr>) s)"
| "fill_step N t _ s = s"

fun Push_step :: "nat \<Rightarrow> nat \<Rightarrow> pc \<Rightarrow> channel \<Rightarrow> channel" where
  "Push_step N t (PushRead i) s = goto t (PushLoop i (pending_tail s)) s"
| "Push_step N t (PushLoop i val) s =
     (case FetchAndLock (pending_tail s) (PendingLock N) val of
        Inl v \<Rightarrow> goto t (PushLoop i v) s
      | Inr tail \<Rightarrow> goto t (PushLink i tail) (s\<lparr>pending_tail := PendingLock N\<rparr>))"
| "Push_step N t (PushLink i tail) s = goto t (PushPublish i tail) (set_next tail i s)"
| "Push_step N t (PushPublish i tail) s =
     goto t ClientNext (s\<lparr>pending_tail := i, sent := sent s @ [(t, hd (todo s t))],
       todo := (todo s)(t := tl (todo s t))\<rparr>)"
| "Push_step N t _ s = s"

fun PopAll_step :: "nat \<Rightarrow> nat \<Rightarrow> pc \<Rightarrow> channel \<Rightarrow> channel" where
  "PopAll_step N t PopTest s = (if pending_tail s = 0 then s else goto t PopRead s)"
| "PopAll_step N t PopRead s = goto t (PopLoop (pending_tail s)) s"
| "PopAll_step N t (PopLoop val) s =
     (case FetchAndLock (pending_tail s) (PendingLock N) val of
        Inl v \<Rightarrow> goto t (PopLoop v) s
      | Inr tail \<Rightarrow> goto t (PopHead tail) (s\<lparr>pending_tail := PendingLock N\<rparr>))"
| "PopAll_step N t (PopHead tail) s = goto t (PopUnlock tail (enext s 0)) s"
| "PopAll_step N t (PopUnlock tail ret) s = goto t (PopEnd tail ret) (s\<lparr>pending_tail := 0\<rparr>)"
| "PopAll_step N t (PopEnd tail ret) s = goto t (Serve ret ret) (set_next tail N s)"
| "PopAll_step N t _ s = s"

text \<open>The loop of the server over the popped list.\<close>

fun serve_step :: "nat \<Rightarrow> nat \<Rightarrow> pc \<Rightarrow> channel \<Rightarrow> channel" where
  "serve_step N t (Serve first cur) s =
     (let e = edata s cur in
      if \<not> len e < 256 then goto t (Dead AssertFail) s
      else if len e < 0 then goto t (Dead OutOfBounds) s
      else
        let s = set_entry cur (\<lambda>e. e\<lparr>buf := (buf e)[nat (len e) := NUL]\<rparr>) s
        in goto t (NextEntry first cur) (s\<lparr>printed := printed s @ [cstr (buf (edata s cur))]\<rparr>))"
| "serve_step N t (NextEntry first cur) s =
     (if enext s cur = N then goto t (RecycleRead first cur) s else goto t (Serve first (enext s cur)) s)"
| "serve_step N t _ s = s"

fun Recycle_step :: "nat \<Rightarrow> nat \<Rightarrow> pc \<Rightarrow> channel \<Rightarrow> channel" where
  "Recycle_step N t (RecycleRead first lst) s = goto t (RecycleLoop first lst (empty_top s)) s"
| "Recycle_step N t (RecycleLoop first lst val) s =
     (case FetchAndLock (empty_top s) (EmptyLock N) val of
        Inl v \<Rightarrow> goto t (RecycleLoop first lst v) s
      | Inr tp \<Rightarrow> goto t (RecycleLink first lst tp) (s\<lparr>empty_top := EmptyLock N\<rparr>))"
| "Recycle_step N t (RecycleLink first lst tp) s = goto t (RecyclePublish first lst tp) (set_next lst tp s)"
| "Recycle_step N t (RecyclePublish first lst tp) s = goto t PopTest (s\<lparr>empty_top := first\<rparr>)"
| "Recycle_step N t _ s = s"

text \<open>A step of a thread is a step of the operation it is in.\<close>

definition channel_step :: "nat \<Rightarrow> nat \<Rightarrow> channel \<Rightarrow> channel" where
  "channel_step N t s =
     (case pcs s t of
        CtorCas \<Rightarrow> ctor_step N t (pcs s t) s | CtorWait \<Rightarrow> ctor_step N t (pcs s t) s
      | CtorTail \<Rightarrow> ctor_step N t (pcs s t) s | CtorTop \<Rightarrow> ctor_step N t (pcs s t) s
      | CtorLoop _ \<Rightarrow> ctor_step N t (pcs s t) s | CtorDone \<Rightarrow> ctor_step N t (pcs s t) s
      | AllocRead \<Rightarrow> Alloc_step N t (pcs s t) s | AllocLoop _ \<Rightarrow> Alloc_step N t (pcs s t) s
      | AllocGot _ \<Rightarrow> Alloc_step N t (pcs s t) s | AllocSet _ _ \<Rightarrow> Alloc_step N t (pcs s t) s
      | ClientNext \<Rightarrow> fill_step N t (pcs s t) s | FillBuf _ \<Rightarrow> fill_step N t (pcs s t) s
      | FillLen _ \<Rightarrow> fill_step N t (pcs s t) s
      | PushRead _ \<Rightarrow> Push_step N t (pcs s t) s | PushLoop _ _ \<Rightarrow> Push_step N t (pcs s t) s
      | PushLink _ _ \<Rightarrow> Push_step N t (pcs s t) s | PushPublish _ _ \<Rightarrow> Push_step N t (pcs s t) s
      | PopTest \<Rightarrow> PopAll_step N t (pcs s t) s | PopRead \<Rightarrow> PopAll_step N t (pcs s t) s
      | PopLoop _ \<Rightarrow> PopAll_step N t (pcs s t) s | PopHead _ \<Rightarrow> PopAll_step N t (pcs s t) s
      | PopUnlock _ _ \<Rightarrow> PopAll_step N t (pcs s t) s | PopEnd _ _ \<Rightarrow> PopAll_step N t (pcs s t) s
      | Serve _ _ \<Rightarrow> serve_step N t (pcs s t) s | NextEntry _ _ \<Rightarrow> serve_step N t (pcs s t) s
      | RecycleRead _ _ \<Rightarrow> Recycle_step N t (pcs s t) s | RecycleLoop _ _ _ \<Rightarrow> Recycle_step N t (pcs s t) s
      | RecycleLink _ _ _ \<Rightarrow> Recycle_step N t (pcs s t) s | RecyclePublish _ _ _ \<Rightarrow> Recycle_step N t (pcs s t) s
      | Dead _ \<Rightarrow> s)"

definition run_channel :: "nat \<Rightarrow> nat list \<Rightarrow> channel \<Rightarrow> channel" where
  "run_channel N schedule s = fold (channel_step N) schedule s"

text \<open>The zeroed segment, every thread before the constructor.\<close>

definition fresh_channel :: "(nat \<Rightarrow> string list) \<Rightarrow> channel" where
  "fresh_channel msgs = \<lparr>init_state = 0, pending_tail = 0, empty_top = 0, enext = (\<lambda>_. 0),
     edata = (\<lambda>_. \<lparr>buf = replicate 256 NUL, len = 0\<rparr>), pcs = (\<lambda>_. CtorCas), todo = msgs,
     sent = [], printed = []\<rparr>"

end
