(* ===== verification/ShmQueue_Correct.thy ===== *)
theory ShmQueue_Correct
  imports ShmQueue
begin

section \<open>Every interleaving of the channel\<close>

text \<open>
  The invariant of the channel under any interleaving of its threads: who holds the two locks, who
  owns which entry, and where every message that was sent is.
\<close>

subsection \<open>Linked lists in the array\<close>

fun linked :: "(nat \<Rightarrow> nat) \<Rightarrow> nat list \<Rightarrow> bool" where
  "linked n (x # y # zs) \<longleftrightarrow> n x = y \<and> linked n (y # zs)"
| "linked n _ \<longleftrightarrow> True"

lemma linked_append:
  "linked n (xs @ ys) \<longleftrightarrow> linked n xs \<and> linked n ys \<and> (xs \<noteq> [] \<longrightarrow> ys \<noteq> [] \<longrightarrow> n (last xs) = hd ys)"
proof (induction xs)
  case (Cons x xs)
  then show ?case by (cases xs; cases ys) auto
qed simp

lemma linked_upd [simp]: "a \<notin> set (butlast xs) \<Longrightarrow> linked (n(a := v)) xs = linked n xs"
  by (induction n xs rule: linked.induct) (auto split: if_splits)

lemma last_notin_butlast: "distinct xs \<Longrightarrow> xs \<noteq> [] \<Longrightarrow> last xs \<notin> set (butlast xs)"
  by (cases xs rule: rev_cases) auto

lemma linked_head: "linked n (x # xs) \<Longrightarrow> xs \<noteq> [] \<Longrightarrow> n x = hd xs \<and> linked n xs"
  by (cases xs) auto

lemma linked_next:
  assumes "linked n (xs @ [z])" and "c \<in> set xs" and "distinct xs"
  shows "n c = hd (tl (dropWhile (\<lambda>i. i \<noteq> c) xs) @ [z])"
  using assms
proof (induction xs)
  case (Cons x xs)
  then show ?case by (cases xs) auto
qed simp

subsection \<open>Locks\<close>

text \<open>Either the variable holds the lock value and exactly one thread holds the protected value, or
  the variable holds it itself.\<close>

definition lock_ok :: "nat \<Rightarrow> nat \<Rightarrow> (nat \<Rightarrow> nat option) \<Rightarrow> nat \<Rightarrow> bool" where
  "lock_ok lk var held v \<longleftrightarrow>
     (if var = lk then \<exists>h. held = (\<lambda>_. None)(h := Some v) else var = v \<and> held = (\<lambda>_. None))"

lemma lock_acquire:
  assumes "lock_ok lk var held v" and "var \<noteq> lk"
  shows "var = v" and "lock_ok lk lk (held(t := Some v)) v"
  using assms by (auto simp: lock_ok_def)

lemma lock_held:
  assumes "lock_ok lk var held v" and "held t = Some w"
  shows "w = v" and "var = lk" and "\<And>x. x \<noteq> lk \<Longrightarrow> lock_ok lk x (held(t := None)) x"
proof -
  have lk: "var = lk" and "\<exists>h. held = (\<lambda>_. None)(h := Some v)"
    using assms by (simp_all add: lock_ok_def split: if_splits)
  then obtain h where h: "held = (\<lambda>_. None)(h := Some v)" by blast
  with assms(2) have "h = t" "w = v" by (simp_all split: if_splits)
  with h lk show "w = v" "var = lk" "\<And>x. x \<noteq> lk \<Longrightarrow> lock_ok lk x (held(t := None)) x"
    by (simp_all add: lock_ok_def)
qed

lemma lock_same [simp]: "held t = h \<Longrightarrow> lock_ok lk var (held(t := h)) v = lock_ok lk var held v"
  by (simp add: fun_upd_idem)

lemma fetch_Inr: "FetchAndLock var lk val = Inr v \<longleftrightarrow> val = v \<and> var = v \<and> var \<noteq> lk"
  by (auto simp: FetchAndLock_def)

subsection \<open>What the threads hold\<close>

fun heldE :: "pc \<Rightarrow> nat option" where
  "heldE (AllocGot v) = Some v" | "heldE (AllocSet v _) = Some v"
| "heldE (RecycleLink _ _ v) = Some v" | "heldE (RecyclePublish _ _ v) = Some v"
| "heldE _ = None"

fun heldP :: "pc \<Rightarrow> nat option" where
  "heldP (PushLink _ v) = Some v" | "heldP (PushPublish _ v) = Some v"
| "heldP (PopHead v) = Some v" | "heldP (PopUnlock v _) = Some v"
| "heldP _ = None"

fun owned :: "pc \<Rightarrow> nat option" where
  "owned (FillBuf i) = Some i" | "owned (FillLen i) = Some i" | "owned (PushRead i) = Some i"
| "owned (PushLoop i _) = Some i" | "owned (PushLink i _) = Some i" | "owned (PushPublish i _) = Some i"
| "owned _ = None"

text \<open>The entries are the free list \<open>F\<close>, the pending list \<open>P\<close>, the list \<open>S\<close> of the server and what the
  clients own.\<close>

definition parted :: "nat \<Rightarrow> (nat \<Rightarrow> nat option) \<Rightarrow> nat list \<Rightarrow> nat list \<Rightarrow> nat list \<Rightarrow> bool" where
  "parted N own F P S \<longleftrightarrow> distinct (F @ P @ S) \<and> set (F @ P @ S) \<subseteq> {1..<N}
     \<and> (\<forall>t i. own t = Some i \<longrightarrow> i \<in> {1..<N} - set (F @ P @ S))
     \<and> (\<forall>t u i. own t = Some i \<longrightarrow> own u = Some i \<longrightarrow> t = u)
     \<and> {1..<N} \<subseteq> set (F @ P @ S) \<union> {i. \<exists>t. own t = Some i}"

lemma parted_same [simp]: "own t = x \<Longrightarrow> parted N (own(t := x)) F P S = parted N own F P S"
  by (simp add: fun_upd_idem)

lemma parted_alloc:
  assumes "parted N own (i # F) P S" and "own t = None"
  shows "parted N (own(t := Some i)) F P S"
proof -
  have all: "{1..<N} \<subseteq> insert i (set (F @ P @ S)) \<union> {j. \<exists>u. own u = Some j}"
    using assms by (simp add: parted_def)
  have "{j. \<exists>u. (own(t := Some i)) u = Some j} = insert i {j. \<exists>u. own u = Some j}"
    using assms(2) by (auto; metis option.distinct(1))
  with all have "{1..<N} \<subseteq> set (F @ P @ S) \<union> {j. \<exists>u. (own(t := Some i)) u = Some j}" by simp
  moreover have "i \<notin> set (F @ P @ S)" "i \<in> {1..<N}" "\<And>u. own u \<noteq> Some i"
    using assms by (auto simp: parted_def)
  ultimately show ?thesis
    using assms(1) unfolding parted_def by (simp add: fun_upd_def) blast
qed

lemma parted_push:
  assumes "parted N own F P S" and "own t = Some i"
  shows "parted N (own(t := None)) F (P @ [i]) S"
proof -
  have own: "\<And>u. own u = Some i \<Longrightarrow> u = t" "i \<in> {1..<N}" "i \<notin> set (F @ P @ S)"
    using assms by (auto simp: parted_def)
  have all: "{1..<N} \<subseteq> set (F @ P @ S) \<union> {j. \<exists>u. own u = Some j}" using assms by (simp add: parted_def)
  have "{j. \<exists>u. own u = Some j} \<subseteq> insert i {j. \<exists>u. (own(t := None)) u = Some j}"
    using assms(2) by (auto; metis option.inject)
  with all have "{1..<N} \<subseteq> insert i (set (F @ P @ S)) \<union> {j. \<exists>u. (own(t := None)) u = Some j}" by blast
  moreover have "insert i (set (F @ P @ S)) = set (F @ (P @ [i]) @ S)" by auto
  ultimately have "{1..<N} \<subseteq> set (F @ (P @ [i]) @ S) \<union> {j. \<exists>u. (own(t := None)) u = Some j}" by simp
  then show ?thesis using assms(1) own unfolding parted_def by (simp add: fun_upd_def) blast
qed

lemma parted_pop: "parted N own F P [] \<longleftrightarrow> parted N own F [] P"
  by (simp add: parted_def)

lemma parted_recycle: "parted N own F P S \<longleftrightarrow> parted N own (S @ F) P []"
  by (auto simp: parted_def)

subsection \<open>Messages\<close>

definition content :: "syscallEntry \<Rightarrow> string" where
  "content e = cstr (take (nat (len e)) (buf e))"

definition good :: "syscallEntry \<Rightarrow> bool" where
  "good e \<longleftrightarrow> 0 \<le> len e \<and> len e < 256"

definition holds_msg :: "syscallEntry \<Rightarrow> string \<Rightarrow> bool" where
  "holds_msg e m \<longleftrightarrow> len e = int (length m) \<and> take (length m) (buf e) = m"

definition sendable :: "string \<Rightarrow> bool" where
  "sendable m \<longleftrightarrow> length m < 256 \<and> NUL \<notin> set m"

lemma holds_content: "holds_msg e m \<Longrightarrow> sendable m \<Longrightarrow> content e = m \<and> good e"
  by (simp add: holds_msg_def content_def sendable_def good_def)

lemma cstr_cut: "cstr (xs @ NUL # ys) = cstr xs"
  by (induction xs) (simp_all add: cstr_def)

lemma cstr_terminated: "n < length xs \<Longrightarrow> cstr (xs[n := NUL]) = cstr (take n xs)"
  by (simp add: upd_conv_take_nth_drop cstr_cut)

fun unprinted :: "pc \<Rightarrow> nat list \<Rightarrow> nat list" where
  "unprinted (PopEnd _ _) S = S"
| "unprinted (Serve _ c) S = dropWhile (\<lambda>i. i \<noteq> c) S"
| "unprinted (NextEntry _ c) S = tl (dropWhile (\<lambda>i. i \<noteq> c) S)"
| "unprinted _ S = []"

subsection \<open>The invariant\<close>

fun client_ok :: "nat \<Rightarrow> channel \<Rightarrow> nat \<Rightarrow> pc \<Rightarrow> bool" where
  "client_ok N s t CtorCas \<longleftrightarrow> True" | "client_ok N s t CtorWait \<longleftrightarrow> True" | "client_ok N s t ClientNext \<longleftrightarrow> True"
| "client_ok N s t AllocRead \<longleftrightarrow> todo s t \<noteq> []" | "client_ok N s t (AllocLoop _) \<longleftrightarrow> todo s t \<noteq> []"
| "client_ok N s t (AllocGot _) \<longleftrightarrow> todo s t \<noteq> []"
| "client_ok N s t (AllocSet v nx) \<longleftrightarrow> todo s t \<noteq> [] \<and> v \<noteq> N \<and> nx = enext s v"
| "client_ok N s t (FillBuf i) \<longleftrightarrow> todo s t \<noteq> []"
| "client_ok N s t (FillLen i) \<longleftrightarrow> todo s t \<noteq> []
     \<and> take (length (hd (todo s t))) (buf (edata s i)) = hd (todo s t)"
| "client_ok N s t (PushRead i) \<longleftrightarrow> todo s t \<noteq> [] \<and> holds_msg (edata s i) (hd (todo s t))"
| "client_ok N s t (PushLoop i _) \<longleftrightarrow> todo s t \<noteq> [] \<and> holds_msg (edata s i) (hd (todo s t))"
| "client_ok N s t (PushLink i _) \<longleftrightarrow> todo s t \<noteq> [] \<and> holds_msg (edata s i) (hd (todo s t))"
| "client_ok N s t (PushPublish i v) \<longleftrightarrow> todo s t \<noteq> [] \<and> holds_msg (edata s i) (hd (todo s t)) \<and> enext s v = i"
| "client_ok N s t _ \<longleftrightarrow> False"

fun server_ok :: "nat \<Rightarrow> channel \<Rightarrow> nat list \<Rightarrow> nat list \<Rightarrow> pc \<Rightarrow> bool" where
  "server_ok N s P S CtorCas \<longleftrightarrow> S = []" | "server_ok N s P S CtorWait \<longleftrightarrow> S = []"
| "server_ok N s P S PopTest \<longleftrightarrow> S = []"
| "server_ok N s P S PopRead \<longleftrightarrow> S = [] \<and> (P \<noteq> [] \<or> pending_tail s = PendingLock N)"
| "server_ok N s P S (PopLoop _) \<longleftrightarrow> S = [] \<and> (P \<noteq> [] \<or> pending_tail s = PendingLock N)"
| "server_ok N s P S (PopHead _) \<longleftrightarrow> S = [] \<and> P \<noteq> []"
| "server_ok N s P S (PopUnlock _ r) \<longleftrightarrow> S = [] \<and> P \<noteq> [] \<and> r = hd P"
| "server_ok N s P S (PopEnd v r) \<longleftrightarrow> S \<noteq> [] \<and> r = hd S \<and> v = last S \<and> linked (enext s) S"
| "server_ok N s P S (Serve f c) \<longleftrightarrow> c \<in> set S \<and> f = hd S \<and> linked (enext s) (S @ [N])"
| "server_ok N s P S (NextEntry f c) \<longleftrightarrow> c \<in> set S \<and> f = hd S \<and> linked (enext s) (S @ [N])"
| "server_ok N s P S (RecycleRead f l) \<longleftrightarrow> S \<noteq> [] \<and> f = hd S \<and> l = last S \<and> linked (enext s) S"
| "server_ok N s P S (RecycleLoop f l _) \<longleftrightarrow> S \<noteq> [] \<and> f = hd S \<and> l = last S \<and> linked (enext s) S"
| "server_ok N s P S (RecycleLink f l _) \<longleftrightarrow> S \<noteq> [] \<and> f = hd S \<and> l = last S \<and> linked (enext s) S"
| "server_ok N s P S (RecyclePublish f l v) \<longleftrightarrow> S \<noteq> [] \<and> f = hd S \<and> l = last S \<and> linked (enext s) S
     \<and> enext s l = v"
| "server_ok N s P S _ \<longleftrightarrow> False"

definition delivered :: "(nat \<Rightarrow> string list) \<Rightarrow> nat list \<Rightarrow> nat list \<Rightarrow> nat list \<Rightarrow> channel \<Rightarrow> bool" where
  "delivered msgs U P S s \<longleftrightarrow> (\<forall>t. map snd (filter (\<lambda>x. fst x = t) (sent s)) @ todo s t = msgs t)
     \<and> map snd (sent s) = printed s @ map (\<lambda>i. content (edata s i)) (U @ P)
     \<and> (\<forall>i. length (buf (edata s i)) = 256) \<and> (\<forall>i \<in> set (P @ S). good (edata s i))"

definition ready :: "nat \<Rightarrow> (nat \<Rightarrow> string list) \<Rightarrow> nat list \<Rightarrow> nat list \<Rightarrow> nat list \<Rightarrow> channel \<Rightarrow> bool" where
  "ready N msgs F P S s \<longleftrightarrow> init_state s = 2
     \<and> parted N (\<lambda>t. owned (pcs s t)) F P S
     \<and> linked (enext s) (F @ [N]) \<and> lock_ok (EmptyLock N) (empty_top s) (\<lambda>t. heldE (pcs s t)) (hd (F @ [N]))
     \<and> linked (enext s) (0 # P) \<and> lock_ok (PendingLock N) (pending_tail s) (\<lambda>t. heldP (pcs s t)) (last (0 # P))
     \<and> (\<forall>t. t \<noteq> 0 \<longrightarrow> client_ok N s t (pcs s t)) \<and> server_ok N s P S (pcs s 0)
     \<and> delivered msgs (unprinted (pcs s 0) S) P S s"

lemmas channel_defs = goto_def set_next_def set_entry_def

lemma readyD:
  assumes "ready N msgs F P S s"
  shows "init_state s = 2" "parted N (\<lambda>t. owned (pcs s t)) F P S" "linked (enext s) (F @ [N])"
    "lock_ok (EmptyLock N) (empty_top s) (\<lambda>t. heldE (pcs s t)) (hd (F @ [N]))" "linked (enext s) (0 # P)"
    "lock_ok (PendingLock N) (pending_tail s) (\<lambda>t. heldP (pcs s t)) (last (0 # P))"
    "\<And>t. t \<noteq> 0 \<Longrightarrow> client_ok N s t (pcs s t)" "server_ok N s P S (pcs s 0)"
    "delivered msgs (unprinted (pcs s 0) S) P S s"
  using assms by (simp_all add: ready_def del: last.simps)

text \<open>What a step of thread \<open>t\<close> has to show.\<close>

lemma ready_stepI:
  assumes "init_state s' = 2" and "pcs s' = (pcs s)(t := p)"
    and "parted N ((\<lambda>u. owned (pcs s u))(t := owned p)) F P S" and "linked (enext s') (F @ [N])"
    and "lock_ok (EmptyLock N) (empty_top s') ((\<lambda>u. heldE (pcs s u))(t := heldE p)) (hd (F @ [N]))"
    and "linked (enext s') (0 # P)"
    and "lock_ok (PendingLock N) (pending_tail s') ((\<lambda>u. heldP (pcs s u))(t := heldP p)) (last (0 # P))"
    and "t \<noteq> 0 \<Longrightarrow> client_ok N s' t p" and "\<And>u. u \<noteq> 0 \<Longrightarrow> u \<noteq> t \<Longrightarrow> client_ok N s' u (pcs s u)"
    and "server_ok N s' P S (if t = 0 then p else pcs s 0)"
    and "delivered msgs (unprinted (if t = 0 then p else pcs s 0) S) P S s'"
  shows "ready N msgs F P S s'"
proof -
  have upd: "(\<lambda>u. f (pcs s' u)) = (\<lambda>u. f (pcs s u))(t := f p)" for f :: "pc \<Rightarrow> nat option"
    using assms(2) by (auto simp: fun_eq_iff)
  have "client_ok N s' u (pcs s' u)" if "u \<noteq> 0" for u using assms(2,8,9) that by simp
  moreover have "pcs s' 0 = (if t = 0 then p else pcs s 0)" using assms(2) by auto
  ultimately show ?thesis using assms unfolding ready_def upd by simp
qed

text \<open>What the local assertions depend on.\<close>

lemma client_ok_cong:
  assumes "client_ok N s t p" and "todo s' t = todo s t" and "\<And>i. owned p = Some i \<Longrightarrow> edata s' i = edata s i"
    and "\<And>v. heldE p = Some v \<or> heldP p = Some v \<Longrightarrow> enext s' v = enext s v"
  shows "client_ok N s' t p"
  using assms by (cases p) simp_all

lemma server_ok_cong:
  assumes "server_ok N s P S p" and "\<And>i. i \<in> set S \<Longrightarrow> enext s' i = enext s i"
    and "P \<noteq> [] \<or> pending_tail s = PendingLock N \<Longrightarrow> P' \<noteq> [] \<or> pending_tail s' = PendingLock N"
    and "heldP p = None \<or> P' = P"
  shows "server_ok N s' P' S p"
proof -
  have "linked (enext s') (xs @ ys) = linked (enext s) (xs @ ys)" if "set xs \<subseteq> set S" "length ys \<le> 1" for xs ys
    using that assms(2) by (induction "enext s" "xs @ ys" arbitrary: xs rule: linked.induct) (auto simp: Cons_eq_append_conv)
  from this [of S "[N]"] this [of S "[]"] assms show ?thesis
    by (cases p) auto
qed

lemma ready_goto:
  assumes "ready N msgs F P S s" and "heldE p = heldE (pcs s t)" and "heldP p = heldP (pcs s t)"
    and "owned p = owned (pcs s t)" and "t \<noteq> 0 \<Longrightarrow> client_ok N s t p" and "t = 0 \<Longrightarrow> server_ok N s P S p"
    and "t = 0 \<Longrightarrow> unprinted p S = unprinted (pcs s 0) S"
  shows "ready N msgs F P S (goto t p s)"
proof -
  note R = readyD [OF assms(1)]
  have c: "client_ok N (goto t p s) u q = client_ok N s u q" for u q
    by (cases q) (simp_all add: goto_def)
  have v: "server_ok N (goto t p s) P S q = server_ok N s P S q" for q
    by (cases q) (simp_all add: goto_def)
  show ?thesis
  proof (rule ready_stepI [where s = s and t = t and p = p])
    show "delivered msgs (unprinted (if t = 0 then p else pcs s 0) S) P S (goto t p s)"
      using R(9) assms(7) by (simp add: delivered_def goto_def)
  qed (use R assms(2-6) c v in \<open>simp_all add: goto_def del: last.simps\<close>)
qed

subsection \<open>Taking and giving back a lock\<close>

lemma held_values:
  assumes "ready N msgs F P S s"
  shows "heldE (pcs s t) = Some v \<Longrightarrow> v = hd (F @ [N]) \<and> v \<in> insert N (set F) \<and> empty_top s = EmptyLock N"
    and "heldP (pcs s t) = Some v \<Longrightarrow> v = last (0 # P) \<and> v \<in> insert 0 (set P) \<and> pending_tail s = PendingLock N"
    and "heldE (pcs s t) = Some v \<Longrightarrow> heldE (pcs s u) \<noteq> None \<Longrightarrow> u = t"
    and "heldP (pcs s t) = Some v \<Longrightarrow> heldP (pcs s u) \<noteq> None \<Longrightarrow> u = t"
proof -
  note R = readyD [OF assms]
  have "hd (F @ [N]) \<in> insert N (set F)" by (cases F) simp_all
  then show "heldE (pcs s t) = Some v \<Longrightarrow> v = hd (F @ [N]) \<and> v \<in> insert N (set F) \<and> empty_top s = EmptyLock N"
    using lock_held(1,2) [OF R(4)] by blast
  have "last (0 # P) \<in> insert 0 (set P)" by (cases P rule: rev_cases) simp_all
  then show "heldP (pcs s t) = Some v \<Longrightarrow> v = last (0 # P) \<and> v \<in> insert 0 (set P) \<and> pending_tail s = PendingLock N"
    using lock_held(1,2) [OF R(6)] by blast
  have unique: "u = t" if "lock_ok lk var held w" "held t = Some v" "held u \<noteq> None" for lk var held w
    using that by (auto simp: lock_ok_def split: if_splits)
  show "heldE (pcs s t) = Some v \<Longrightarrow> heldE (pcs s u) \<noteq> None \<Longrightarrow> u = t"
    "heldP (pcs s t) = Some v \<Longrightarrow> heldP (pcs s u) \<noteq> None \<Longrightarrow> u = t"
    using unique [OF R(4)] unique [OF R(6)] by blast+
qed

lemma ready_role:
  assumes "ready N msgs F P S s"
  shows "t \<noteq> 0 \<and> client_ok N s t (pcs s t) \<or> t = 0 \<and> server_ok N s P S (pcs s t)"
  using readyD(7,8) [OF assms] by (cases "t = 0") auto

lemma ready_lockE:
  assumes "ready N msgs F P S s" and "empty_top s = v" and "v \<noteq> EmptyLock N"
    and "heldE p = Some v" and "heldE (pcs s t) = None" and "heldP p = heldP (pcs s t)" and "owned p = owned (pcs s t)"
    and "t \<noteq> 0 \<Longrightarrow> client_ok N s t p" and "t = 0 \<Longrightarrow> server_ok N s P S p"
    and "t = 0 \<Longrightarrow> unprinted p S = unprinted (pcs s 0) S"
  shows "ready N msgs F P S (goto t p (s\<lparr>empty_top := EmptyLock N\<rparr>))" (is "ready N msgs F P S ?s'")
proof -
  note R = readyD [OF assms(1)]
  have c: "client_ok N ?s' u q = client_ok N s u q" "server_ok N ?s' P S q = server_ok N s P S q" for u q
    by (cases q; simp add: goto_def)+
  have L: "v = hd (F @ [N])" "lock_ok (EmptyLock N) (EmptyLock N) ((\<lambda>u. heldE (pcs s u))(t := Some v)) (hd (F @ [N]))"
    using lock_acquire(1) [OF R(4)] lock_acquire(2) [OF R(4), of t] assms(2,3) by simp_all
  show ?thesis
  proof (rule ready_stepI [where s = s and t = t and p = p])
    show "delivered msgs (unprinted (if t = 0 then p else pcs s 0) S) P S ?s'"
      using R(9) assms(10) by (simp add: delivered_def goto_def)
  qed (use R assms(4-9) c L in \<open>simp_all add: goto_def del: last.simps\<close>)
qed

lemma ready_lockP:
  assumes "ready N msgs F P S s" and "pending_tail s = v" and "v \<noteq> PendingLock N"
    and "heldP p = Some v" and "heldP (pcs s t) = None" and "heldE p = heldE (pcs s t)" and "owned p = owned (pcs s t)"
    and "t \<noteq> 0 \<Longrightarrow> client_ok N s t p" and "t = 0 \<Longrightarrow> server_ok N s P S p"
    and "t = 0 \<Longrightarrow> unprinted p S = unprinted (pcs s 0) S"
  shows "ready N msgs F P S (goto t p (s\<lparr>pending_tail := PendingLock N\<rparr>))" (is "ready N msgs F P S ?s'")
proof -
  note R = readyD [OF assms(1)]
  have c: "client_ok N ?s' u q = client_ok N s u q" for u q by (cases q) (simp_all add: goto_def)
  have d: "server_ok N ?s' P S q" if "server_ok N s P S q" for q
    by (rule server_ok_cong [OF that]) (simp_all add: goto_def)
  have L: "v = last (0 # P)" "lock_ok (PendingLock N) (PendingLock N) ((\<lambda>u. heldP (pcs s u))(t := Some v)) (last (0 # P))"
    using lock_acquire(1) [OF R(6)] lock_acquire(2) [OF R(6), of t] assms(2,3) by simp_all
  show ?thesis
  proof (rule ready_stepI [where s = s and t = t and p = p])
    show "delivered msgs (unprinted (if t = 0 then p else pcs s 0) S) P S ?s'"
      using R(9) assms(10) by (simp add: delivered_def goto_def)
  qed (use R assms(4-9) c d L in \<open>simp_all add: goto_def del: last.simps\<close>)
qed

subsection \<open>The steps that change a list\<close>

lemma parted_range:
  assumes "parted N own F P S"
  shows "0 \<notin> set F" "0 \<notin> set P" "0 \<notin> set S" "N \<notin> set F" "N \<notin> set P" "N \<notin> set S"
    "x \<in> set F \<Longrightarrow> x < N" "x \<in> set P \<Longrightarrow> x < N" "x \<in> set S \<Longrightarrow> x < N"
  using assms by (auto simp: parted_def)

text \<open>An \<open>Alloc\<close> that finds no free entry, and one that takes the first.\<close>

lemma alloc_none:
  assumes R: "ready N msgs F P S s" and p: "pcs s t = AllocGot N"
  shows "ready N msgs F P S (goto t AllocRead (s\<lparr>empty_top := N\<rparr>))" (is "ready N msgs F P S ?s'")
proof -
  note D = readyD [OF R]
  have t: "t \<noteq> 0" "todo s t \<noteq> []" using ready_role [OF R, of t] p by auto
  have v: "hd (F @ [N]) = N" using held_values(1) [OF R, of t N] p by simp
  have c: "client_ok N ?s' u q = client_ok N s u q" "server_ok N ?s' P S q = server_ok N s P S q" for u q
    by (cases q; simp add: goto_def)+
  have L: "lock_ok (EmptyLock N) N ((\<lambda>u. heldE (pcs s u))(t := None)) N"
    using lock_held(3) [OF D(4), of t N N] p by (simp add: EmptyLock_def)
  show ?thesis
    by (rule ready_stepI [where s = s and t = t and p = AllocRead])
      (use D t c L v p in \<open>simp_all add: goto_def delivered_def del: last.simps\<close>)
qed

lemma alloc_take:
  assumes R: "ready N msgs F P S s" and p: "pcs s t = AllocSet v w"
  shows "\<exists>F'. ready N msgs F' P S (goto t (FillBuf v) (s\<lparr>empty_top := w\<rparr>))" (is "\<exists>F'. ready N msgs F' P S ?s'")
proof -
  note D = readyD [OF R]
  have t: "t \<noteq> 0" "todo s t \<noteq> []" "v \<noteq> N" "w = enext s v" using ready_role [OF R, of t] p by auto
  have "v = hd (F @ [N])" using held_values(1) [OF R, of t v] p by simp
  with t(3) obtain F' where F: "F = v # F'" by (cases F) auto
  have w: "w = hd (F' @ [N])" "linked (enext s) (F' @ [N])" using linked_head [of "enext s" v "F' @ [N]"] D(3) F t(4) by auto
  have "hd (F' @ [N]) \<le> N" using parted_range(7) [OF D(2)] F by (cases F') (auto simp: less_imp_le)
  then have L: "lock_ok (EmptyLock N) w ((\<lambda>u. heldE (pcs s u))(t := None)) (hd (F' @ [N]))"
    using lock_held(3) [OF D(4), of t v w] p w by (simp add: EmptyLock_def)
  have c: "client_ok N ?s' u q = client_ok N s u q" "server_ok N ?s' P S q = server_ok N s P S q" for u q
    by (cases q; simp add: goto_def)+
  have "parted N ((\<lambda>u. owned (pcs s u))(t := Some v)) F' P S"
    by (rule parted_alloc) (use D(2) p F in simp_all)
  then have "ready N msgs F' P S ?s'"
    by (intro ready_stepI [where s = s and t = t and p = "FillBuf v"])
      (use D t c L w p in \<open>simp_all add: goto_def delivered_def del: last.simps\<close>)
  then show ?thesis ..
qed

text \<open>A client writes into the entry it owns.\<close>

lemma unprinted_sub: "set (unprinted p S) \<subseteq> set S"
proof -
  have "set (tl xs) \<subseteq> set xs" for xs :: "nat list" by (cases xs) auto
  then show ?thesis by (cases p) (auto dest: set_dropWhileD)
qed

lemma delivered_entry:
  assumes "delivered msgs U P S s" and "set U \<subseteq> set S" and "i \<notin> set (P @ S)" and "length (buf (f (edata s i))) = 256"
  shows "delivered msgs U P S (goto t p (set_entry i f s))"
proof -
  have "map (\<lambda>j. content (edata (set_entry i f s) j)) (U @ P) = map (\<lambda>j. content (edata s j)) (U @ P)"
    using assms(2,3) by (intro map_cong) (auto simp: set_entry_def)
  with assms show ?thesis by (auto simp: delivered_def channel_defs)
qed

lemma ready_entry:
  assumes R: "ready N msgs F P S s" and own: "owned (pcs s t) = Some i" "owned p = Some i" and t: "t \<noteq> 0"
    and held: "heldE p = heldE (pcs s t)" "heldP p = heldP (pcs s t)" and len: "length (buf (f (edata s i))) = 256"
    and ok: "client_ok N (set_entry i f s) t p"
  shows "ready N msgs F P S (goto t p (set_entry i f s))" (is "ready N msgs F P S ?s'")
proof -
  note D = readyD [OF R]
  have i: "i \<notin> set (P @ S)" using D(2) own(1) unfolding parted_def by auto
  have others: "owned (pcs s u) \<noteq> Some i" if "u \<noteq> t" for u using D(2) own(1) that unfolding parted_def by auto
  have c: "client_ok N ?s' u (pcs s u)" if "u \<noteq> 0" "u \<noteq> t" for u
    by (rule client_ok_cong [OF D(7) [OF that(1)]]) (use others [OF that(2)] in \<open>auto simp: channel_defs\<close>)
  have ct: "client_ok N ?s' t p" by (rule client_ok_cong [OF ok]) (simp_all add: goto_def)
  have v: "server_ok N ?s' P S (pcs s 0)" by (rule server_ok_cong [OF D(8)]) (simp_all add: channel_defs)
  have "delivered msgs (unprinted (pcs s 0) S) P S ?s'"
    by (rule delivered_entry [where f = f]) (use D(9) unprinted_sub i len in auto)
  then show ?thesis
    by (intro ready_stepI [where s = s and t = t and p = p])
      (use D own t held c ct v in \<open>simp_all add: channel_defs del: last.simps\<close>)
qed

lemma ready_sendable:
  assumes "ready N msgs F P S s" and "\<forall>t. \<forall>m \<in> set (msgs t). sendable m" and "todo s t \<noteq> []"
  shows "sendable (hd (todo s t))"
proof -
  have eq: "map snd (filter (\<lambda>x. fst x = t) (sent s)) @ todo s t = msgs t"
    using readyD(9) [OF assms(1)] by (simp add: delivered_def)
  have "hd (todo s t) \<in> set (msgs t)" unfolding eq [symmetric] using assms(3) by simp
  with assms(2) show ?thesis by blast
qed

lemma fill_buf:
  assumes R: "ready N msgs F P S s" and p: "pcs s t = FillBuf i" and msgs: "\<forall>t. \<forall>m \<in> set (msgs t). sendable m"
  shows "ready N msgs F P S (fill_step N t (FillBuf i) s)"
proof -
  have t: "t \<noteq> 0" "todo s t \<noteq> []" using ready_role [OF R, of t] p by auto
  have len: "length (hd (todo s t)) < 256" "length (buf (edata s i)) = 256"
    using ready_sendable [OF R msgs t(2)] readyD(9) [OF R] by (simp_all add: sendable_def delivered_def)
  show ?thesis
    unfolding fill_step.simps
    by (rule ready_entry [OF R]) (use t p len in \<open>simp_all add: set_entry_def blit_def\<close>)
qed

lemma fill_len:
  assumes R: "ready N msgs F P S s" and p: "pcs s t = FillLen i"
  shows "ready N msgs F P S (fill_step N t (FillLen i) s)"
proof -
  have t: "t \<noteq> 0" "client_ok N s t (FillLen i)" using ready_role [OF R, of t] p by auto
  have len: "length (buf (edata s i)) = 256" using readyD(9) [OF R] by (simp add: delivered_def)
  show ?thesis
    unfolding fill_step.simps
    by (rule ready_entry [OF R]) (use t p len in \<open>simp_all add: set_entry_def holds_msg_def\<close>)
qed

text \<open>A client links its entry behind the last one and publishes it.\<close>

lemma push_link:
  assumes R: "ready N msgs F P S s" and p: "pcs s t = PushLink i v" and N: "0 < N"
  shows "ready N msgs F P S (goto t (PushPublish i v) (set_next v i s))" (is "ready N msgs F P S ?s'")
proof -
  note D = readyD [OF R] and r = parted_range [OF readyD(2) [OF R]]
  have t: "t \<noteq> 0" "client_ok N s t (PushLink i v)" using ready_role [OF R, of t] p by auto
  have v: "v = last (0 # P)" "v \<in> insert 0 (set P)" using held_values(2) [OF R, of t v] p by simp_all
  have disj: "v \<notin> insert N (set F)" "v \<notin> set S" using v(2) D(2) r N by (auto simp: parted_def)
  have "distinct (0 # P)" using D(2) r by (auto simp: parted_def)
  then have "v \<notin> set (butlast (0 # P))" unfolding v(1) by (rule last_notin_butlast) simp
  then have lP: "linked ((enext s)(v := i)) (0 # P)" using D(5) by simp
  have lF: "linked ((enext s)(v := i)) (F @ [N])" using D(3) disj by simp
  have c: "client_ok N ?s' u (pcs s u)" if "u \<noteq> 0" "u \<noteq> t" for u
  proof (rule client_ok_cong [OF D(7) [OF that(1)]])
    fix x assume "heldE (pcs s u) = Some x \<or> heldP (pcs s u) = Some x"
    then have "x \<in> insert N (set F)" using held_values(1) [OF R] held_values(4) [OF R, of t v u] p that(2) by auto
    then show "enext ?s' x = enext s x" using disj(1) by (auto simp: channel_defs)
  qed (simp_all add: channel_defs)
  have sv: "server_ok N ?s' P S (pcs s 0)"
    by (rule server_ok_cong [OF D(8)]) (use disj(2) in \<open>auto simp: channel_defs\<close>)
  show ?thesis
    by (rule ready_stepI [where s = s and t = t and p = "PushPublish i v"])
      (use D t c sv lP lF p in \<open>simp_all add: channel_defs delivered_def del: last.simps\<close>)
qed

lemma push_publish:
  assumes R: "ready N msgs F P S s" and p: "pcs s t = PushPublish i v" and msgs: "\<forall>t. \<forall>m \<in> set (msgs t). sendable m"
  shows "ready N msgs F (P @ [i]) S (goto t ClientNext (s\<lparr>pending_tail := i, sent := sent s @ [(t, hd (todo s t))],
    todo := (todo s)(t := tl (todo s t))\<rparr>))" (is "ready N msgs F (P @ [i]) S ?s'")
proof -
  note D = readyD [OF R]
  let ?m = "hd (todo s t)"
  have t: "t \<noteq> 0" "todo s t \<noteq> []" "holds_msg (edata s i) ?m" "enext s v = i" using ready_role [OF R, of t] p by auto
  have v: "v = last (0 # P)" using held_values(2) [OF R, of t v] p by simp
  have link: "linked (enext s) (0 # P @ [i])"
    using D(5) v t(4) linked_append [of "enext s" "0 # P" "[i]"] by (simp del: last.simps)
  have part: "parted N ((\<lambda>u. owned (pcs s u))(t := None)) F (P @ [i]) S" by (rule parted_push) (use D(2) p in simp_all)
  have "i < N" using parted_range(8) [OF part, of i] by simp
  then have L: "lock_ok (PendingLock N) i ((\<lambda>u. heldP (pcs s u))(t := None)) i"
    using lock_held(3) [OF D(6), of t v i] p by (simp add: PendingLock_def)
  have c: "client_ok N ?s' u (pcs s u)" if "u \<noteq> 0" "u \<noteq> t" for u
    by (rule client_ok_cong [OF D(7) [OF that(1)]]) (use that in \<open>simp_all add: goto_def\<close>)
  have "heldP (pcs s 0) = None" using held_values(4) [OF R, of t v 0] p t(1) by (cases "heldP (pcs s 0)") auto
  then have sv: "server_ok N ?s' (P @ [i]) S (pcs s 0)"
    by (intro server_ok_cong [OF D(8)]) (simp_all add: goto_def)
  have m: "content (edata s i) = ?m" "good (edata s i)"
    using holds_content [OF t(3)] ready_sendable [OF R msgs t(2)] by simp_all
  have "delivered msgs (unprinted (pcs s 0) S) (P @ [i]) S ?s'"
    using D(9) m t(2) by (auto simp: delivered_def goto_def)
  with link part L c sv t(1) D(1,3,4) p show ?thesis
    by (intro ready_stepI [where s = s and t = t and p = ClientNext]) (simp_all add: goto_def)
qed

text \<open>The server takes the whole pending list and ends it.\<close>

lemma pop_unlock:
  assumes R: "ready N msgs F P S s" and p: "pcs s t = PopUnlock v r"
  shows "ready N msgs F [] P (goto t (PopEnd v r) (s\<lparr>pending_tail := 0\<rparr>))" (is "ready N msgs F [] P ?s'")
proof -
  note D = readyD [OF R]
  have t: "t = 0" "S = []" "P \<noteq> []" "r = hd P" using ready_role [OF R, of t] p by auto
  have v: "v = last P" using held_values(2) [OF R, of t v] p t(3) by simp
  have L: "lock_ok (PendingLock N) 0 ((\<lambda>u. heldP (pcs s u))(t := None)) 0"
    using lock_held(3) [OF D(6), of t v 0] p by (simp add: PendingLock_def)
  have c: "client_ok N ?s' u q = client_ok N s u q" for u q by (cases q) (simp_all add: goto_def)
  have link: "linked (enext s) P" using linked_head [OF D(5) t(3)] by simp
  have "delivered msgs P [] P ?s'" using D(9) t p by (auto simp: delivered_def goto_def)
  moreover have "parted N (\<lambda>u. owned (pcs s u)) F [] P" using D(2) t(2) parted_pop by simp
  ultimately show ?thesis
    using D(1,3,4,7) p t v L c link
    by (intro ready_stepI [where s = s and t = t and p = "PopEnd v r"]) (simp_all add: goto_def)
qed

lemma ready_set_next:
  assumes R: "ready N msgs F P S s" and t: "t = 0" and i: "i \<in> set S"
    and held: "heldE p = heldE (pcs s t)" "heldP p = heldP (pcs s t)" "owned p = owned (pcs s t)"
    and ok: "server_ok N (set_next i w s) P S p" and u: "unprinted p S = unprinted (pcs s 0) S" and N: "0 < N"
  shows "ready N msgs F P S (goto t p (set_next i w s))" (is "ready N msgs F P S ?s'")
proof -
  note D = readyD [OF R]
  have disj: "i \<notin> insert N (set F)" "i \<notin> insert 0 (set P)"
    using i D(2) parted_range [OF D(2)] by (auto simp: parted_def)
  have lF: "linked ((enext s)(i := w)) (F @ [N])" using D(3) disj by simp
  have "set (butlast (0 # P)) \<subseteq> insert 0 (set P)" by (auto dest: in_set_butlastD split: if_splits)
  then have lP: "linked ((enext s)(i := w)) (0 # P)" using D(5) disj by (subst linked_upd) auto
  have c: "client_ok N ?s' u (pcs s u)" if "u \<noteq> 0" for u
  proof (rule client_ok_cong [OF D(7) [OF that]])
    fix x assume "heldE (pcs s u) = Some x \<or> heldP (pcs s u) = Some x"
    then have "x \<in> insert N (set F) \<union> insert 0 (set P)" using held_values(1,2) [OF R] by blast
    then show "enext ?s' x = enext s x" using disj by (auto simp: channel_defs)
  qed (simp_all add: channel_defs)
  have sv: "server_ok N ?s' P S p" by (rule server_ok_cong [OF ok]) (simp_all add: channel_defs)
  show ?thesis
    by (rule ready_stepI [where s = s and t = t and p = p])
      (use D t held c sv lP lF u in \<open>simp_all add: channel_defs delivered_def del: last.simps\<close>)
qed

lemma pop_end:
  assumes R: "ready N msgs F P S s" and p: "pcs s t = PopEnd v r" and N: "0 < N"
  shows "ready N msgs F P S (goto t (Serve r r) (set_next v N s))"
proof -
  note D = readyD [OF R]
  have t: "t = 0" "S \<noteq> []" "r = hd S" "v = last S" "linked (enext s) S" using ready_role [OF R, of t] p by auto
  have "v \<notin> set (butlast S)" unfolding t(4) by (rule last_notin_butlast) (use D(2) t(2) in \<open>simp_all add: parted_def\<close>)
  then have "linked ((enext s)(v := N)) (S @ [N])" using t by (simp add: linked_append)
  moreover have "dropWhile (\<lambda>i. i \<noteq> r) S = S" using t(2,3) by (cases S) auto
  ultimately show ?thesis
    by (intro ready_set_next [OF R]) (use t p N in \<open>auto simp: set_next_def\<close>)
qed

lemma recycle_link:
  assumes R: "ready N msgs F P S s" and p: "pcs s t = RecycleLink f l v" and N: "0 < N"
  shows "ready N msgs F P S (goto t (RecyclePublish f l v) (set_next l v s))"
proof -
  note D = readyD [OF R]
  have t: "t = 0" "S \<noteq> []" "f = hd S" "l = last S" "linked (enext s) S" using ready_role [OF R, of t] p by auto
  have "l \<notin> set (butlast S)" unfolding t(4) by (rule last_notin_butlast) (use D(2) t(2) in \<open>simp_all add: parted_def\<close>)
  then have "linked ((enext s)(l := v)) S" using t(5) by simp
  then show ?thesis by (intro ready_set_next [OF R]) (use t p N in \<open>auto simp: set_next_def\<close>)
qed

text \<open>The server prints the current entry, moves to the next, and gives the list back.\<close>

lemma serve_print:
  assumes R: "ready N msgs F P S s" and p: "pcs s t = Serve f c"
  shows "ready N msgs F P S (serve_step N t (Serve f c) s)"
proof -
  note D = readyD [OF R]
  have t: "t = 0" "c \<in> set S" "f = hd S" "linked (enext s) (S @ [N])" using ready_role [OF R, of t] p by auto
  let ?e = "edata s c"
  have e: "0 \<le> len ?e" "len ?e < 256" "length (buf ?e) = 256" using D(9) t(2) by (auto simp: delivered_def good_def)
  let ?g = "\<lambda>e. e\<lparr>buf := (buf e)[nat (len e) := NUL]\<rparr>"
  define s' where "s' = goto t (NextEntry f c) ((set_entry c ?g s)\<lparr>printed := printed s @ [content ?e]\<rparr>)"
  have run: "serve_step N t (Serve f c) s = s'"
    using e by (simp add: s'_def Let_def set_entry_def cstr_terminated content_def)
  have "content (?g ?e) = content ?e" using e by (simp add: content_def)
  then have same: "content (edata s' i) = content (edata s i)" "good (edata s' i) = good (edata s i)"
      "length (buf (edata s' i)) = length (buf (edata s i))" for i
    by (simp_all add: s'_def channel_defs good_def)
  obtain U where dw: "dropWhile (\<lambda>i. i \<noteq> c) S = c # U"
    using t(2) hd_dropWhile [of "\<lambda>i. i \<noteq> c" S] by (cases "dropWhile (\<lambda>i. i \<noteq> c) S") (auto simp: dropWhile_eq_Nil_conv)
  with D(9) p t(1) have del: "delivered msgs U P S s'"
    unfolding delivered_def same by (simp add: s'_def channel_defs)
  have cS: "owned (pcs s u) \<noteq> Some c" for u using D(2) t(2) unfolding parted_def by auto
  have c: "client_ok N s' u (pcs s u)" if "u \<noteq> 0" for u
    by (rule client_ok_cong [OF D(7) [OF that]]) (use cS in \<open>auto simp: s'_def channel_defs\<close>)
  show ?thesis unfolding run
    by (rule ready_stepI [where s = s and t = t and p = "NextEntry f c"])
      (use D(1-6) t c del dw p in \<open>simp_all add: s'_def channel_defs del: last.simps\<close>)
qed

lemma dropWhile_next:
  "distinct xs \<Longrightarrow> tl (dropWhile (\<lambda>i. i \<noteq> c) xs) = y # ys \<Longrightarrow> dropWhile (\<lambda>i. i \<noteq> y) xs = y # ys"
proof (induction xs)
  case (Cons x xs)
  then show ?case
  proof (cases "x = c")
    case False
    with Cons have IH: "dropWhile (\<lambda>i. i \<noteq> y) xs = y # ys" by simp
    then have "y \<in> set xs" by (metis list.set_intros(1) set_dropWhileD)
    with Cons.prems(1) IH show ?thesis by auto
  qed auto
qed simp

lemma dropWhile_last: "c \<in> set xs \<Longrightarrow> tl (dropWhile (\<lambda>i. i \<noteq> c) xs) = [] \<Longrightarrow> last xs = c"
  by (induction xs) (auto split: if_splits)

lemma serve_next:
  assumes R: "ready N msgs F P S s" and p: "pcs s t = NextEntry f c"
  shows "ready N msgs F P S (serve_step N t (NextEntry f c) s)"
proof -
  note D = readyD [OF R]
  have t: "t = 0" "c \<in> set S" "f = hd S" "linked (enext s) (S @ [N])" using ready_role [OF R, of t] p by auto
  let ?U = "tl (dropWhile (\<lambda>i. i \<noteq> c) S)"
  have dist: "distinct S" and N: "N \<notin> set S" using D(2) parted_range(6) [OF D(2)] by (simp_all add: parted_def)
  have nx: "enext s c = hd (?U @ [N])" by (rule linked_next [OF t(4,2) dist])
  have sub: "set ?U \<subseteq> set S" using unprinted_sub [of "NextEntry f c" S] by simp
  show ?thesis
  proof (cases ?U)
    case Nil
    then have "last S = c" "S \<noteq> []" using dropWhile_last t(2) by auto
    moreover have "linked (enext s) S" using t(4) by (simp add: linked_append)
    ultimately have "ready N msgs F P S (goto t (RecycleRead f c) s)"
      by (intro ready_goto [OF R]) (use t p Nil in simp_all)
    with nx Nil show ?thesis by simp
  next
    case (Cons y ys)
    have y: "y \<in> set S" "y \<noteq> N" using Cons sub N by auto
    have "ready N msgs F P S (goto t (Serve f y) s)"
      by (rule ready_goto [OF R]) (use t p Cons y dropWhile_next [OF dist Cons] in simp_all)
    with nx Cons y show ?thesis by simp
  qed
qed

lemma recycle_publish:
  assumes R: "ready N msgs F P S s" and p: "pcs s t = RecyclePublish f l v"
  shows "ready N msgs (S @ F) P [] (goto t PopTest (s\<lparr>empty_top := f\<rparr>))" (is "ready N msgs (S @ F) P [] ?s'")
proof -
  note D = readyD [OF R]
  have t: "t = 0" "S \<noteq> []" "f = hd S" "linked (enext s) S" "enext s (last S) = v" using ready_role [OF R, of t] p by auto
  have v: "v = hd (F @ [N])" using held_values(1) [OF R, of t v] p by simp
  have link: "linked (enext s) (S @ F @ [N])" using t D(3) v by (simp add: linked_append)
  have "hd S < N" using parted_range(9) [OF D(2)] t(2) by simp
  then have L: "lock_ok (EmptyLock N) (hd S) ((\<lambda>u. heldE (pcs s u))(t := None)) (hd S)"
    using lock_held(3) [OF D(4), of t v "hd S"] p by (simp add: EmptyLock_def)
  have c: "client_ok N ?s' u q = client_ok N s u q" for u q by (cases q) (simp_all add: goto_def)
  have "parted N (\<lambda>u. owned (pcs s u)) (S @ F) P []" using D(2) parted_recycle by simp
  moreover have "delivered msgs [] P [] ?s'" using D(9) p t(1) by (simp add: delivered_def goto_def)
  ultimately show ?thesis
    using D(1,5-7) p t(1-3) L c link
    by (intro ready_stepI [where s = s and t = t and p = PopTest]) (simp_all add: goto_def del: last.simps)
qed

subsection \<open>Every step\<close>

theorem channel_step_ready:
  assumes R: "ready N msgs F P S s" and N: "0 < N" and msgs: "\<forall>t. \<forall>m \<in> set (msgs t). sendable m"
  shows "\<exists>F P S. ready N msgs F P S (channel_step N t s)"
proof -
  note role = ready_role [OF R, of t] and D = readyD [OF R]
  have move: "\<exists>F P S. ready N msgs F P S (goto t p s)"
    if "heldE p = heldE (pcs s t)" "heldP p = heldP (pcs s t)" "owned p = owned (pcs s t)"
      "t \<noteq> 0 \<Longrightarrow> client_ok N s t p" "t = 0 \<Longrightarrow> server_ok N s P S p" "t = 0 \<Longrightarrow> unprinted p S = unprinted (pcs s 0) S"
    for t p
    using ready_goto [OF R that] by blast
  have lockE: "\<exists>F P S. ready N msgs F P S (goto t p (s\<lparr>empty_top := EmptyLock N\<rparr>))"
    if "empty_top s \<noteq> EmptyLock N" "heldE p = Some (empty_top s)" "heldE (pcs s t) = None" "heldP p = heldP (pcs s t)"
      "owned p = owned (pcs s t)" "t \<noteq> 0 \<Longrightarrow> client_ok N s t p" "t = 0 \<Longrightarrow> server_ok N s P S p"
      "t = 0 \<Longrightarrow> unprinted p S = unprinted (pcs s 0) S" for t p
    using ready_lockE [OF R refl that] by blast
  have lockP: "\<exists>F P S. ready N msgs F P S (goto t p (s\<lparr>pending_tail := PendingLock N\<rparr>))"
    if "pending_tail s \<noteq> PendingLock N" "heldP p = Some (pending_tail s)" "heldP (pcs s t) = None" "heldE p = heldE (pcs s t)"
      "owned p = owned (pcs s t)" "t \<noteq> 0 \<Longrightarrow> client_ok N s t p" "t = 0 \<Longrightarrow> server_ok N s P S p"
      "t = 0 \<Longrightarrow> unprinted p S = unprinted (pcs s 0) S" for t p
    using ready_lockP [OF R refl that] by blast
  have pend: "P \<noteq> [] \<or> pending_tail s = PendingLock N" if "pending_tail s \<noteq> 0"
    using D(6) that by (auto simp: lock_ok_def split: if_splits)
  show ?thesis
  proof (cases "pcs s t")
    case CtorCas
    with role show ?thesis by (auto simp: channel_step_def D(1) intro!: move)
  next
    case CtorWait
    with role show ?thesis by (auto simp: channel_step_def D(1) enter_main_def intro!: move)
  next
    case ClientNext
    with role R show ?thesis by (auto simp: channel_step_def intro!: move)
  next
    case AllocRead
    with role show ?thesis by (auto simp: channel_step_def intro!: move)
  next
    case (AllocLoop v)
    with role show ?thesis by (auto simp: channel_step_def fetch_Inr intro!: move lockE split: sum.split)
  next
    case (AllocGot v)
    then show ?thesis using role alloc_none [OF R, of t] by (auto simp: channel_step_def intro!: move)
  next
    case (AllocSet v w)
    show ?thesis using alloc_take [OF R AllocSet] unfolding channel_step_def AllocSet pc.case Alloc_step.simps by blast
  next
    case (FillBuf i)
    show ?thesis using fill_buf [OF R FillBuf msgs] unfolding channel_step_def FillBuf pc.case fill_step.simps by blast
  next
    case (FillLen i)
    show ?thesis using fill_len [OF R FillLen] unfolding channel_step_def FillLen pc.case fill_step.simps by blast
  next
    case (PushRead i)
    with role show ?thesis by (auto simp: channel_step_def intro!: move)
  next
    case (PushLoop i v)
    with role show ?thesis by (auto simp: channel_step_def fetch_Inr intro!: move lockP split: sum.split)
  next
    case (PushLink i v)
    show ?thesis using push_link [OF R PushLink N] unfolding channel_step_def PushLink pc.case Push_step.simps by blast
  next
    case (PushPublish i v)
    show ?thesis using push_publish [OF R PushPublish msgs] unfolding channel_step_def PushPublish pc.case Push_step.simps by blast
  next
    case PopTest
    with role R pend show ?thesis by (auto simp: channel_step_def intro!: move)
  next
    case PopRead
    with role show ?thesis by (auto simp: channel_step_def intro!: move)
  next
    case (PopLoop v)
    with role show ?thesis by (auto simp: channel_step_def fetch_Inr intro!: move lockP split: sum.split)
  next
    case (PopHead v)
    then show ?thesis
      using role linked_head [OF D(5)] by (auto simp: channel_step_def intro!: move)
  next
    case (PopUnlock v r)
    show ?thesis using pop_unlock [OF R PopUnlock] unfolding channel_step_def PopUnlock pc.case PopAll_step.simps by blast
  next
    case (PopEnd v r)
    show ?thesis using pop_end [OF R PopEnd N] unfolding channel_step_def PopEnd pc.case PopAll_step.simps by blast
  next
    case (Serve f c)
    show ?thesis using serve_print [OF R Serve] unfolding channel_step_def Serve pc.case by blast
  next
    case (NextEntry f c)
    show ?thesis using serve_next [OF R NextEntry] unfolding channel_step_def NextEntry pc.case by blast
  next
    case (RecycleRead f l)
    with role show ?thesis by (auto simp: channel_step_def intro!: move)
  next
    case (RecycleLoop f l v)
    with role show ?thesis by (auto simp: channel_step_def fetch_Inr intro!: move lockE split: sum.split)
  next
    case (RecycleLink f l v)
    show ?thesis using recycle_link [OF R RecycleLink N] unfolding channel_step_def RecycleLink pc.case Recycle_step.simps by blast
  next
    case (RecyclePublish f l v)
    show ?thesis using recycle_publish [OF R RecyclePublish] unfolding channel_step_def RecyclePublish pc.case Recycle_step.simps by blast
  qed (use role in auto)
qed

subsection \<open>The constructor\<close>

text \<open>While one thread builds the lists every other waits in the constructor.\<close>

fun building :: "nat \<Rightarrow> channel \<Rightarrow> pc \<Rightarrow> bool" where
  "building N s CtorTail \<longleftrightarrow> True"
| "building N s CtorTop \<longleftrightarrow> pending_tail s = 0"
| "building N s (CtorLoop i) \<longleftrightarrow> pending_tail s = 0 \<and> empty_top s = 1 \<and> 1 \<le> i \<and> i \<le> N
     \<and> (\<forall>j \<in> {1..<i}. enext s j = j + 1)"
| "building N s CtorDone \<longleftrightarrow> pending_tail s = 0 \<and> empty_top s = 1 \<and> (\<forall>j \<in> {1..<N}. enext s j = j + 1)"
| "building N s _ \<longleftrightarrow> False"

definition untouched :: "(nat \<Rightarrow> string list) \<Rightarrow> channel \<Rightarrow> bool" where
  "untouched msgs s \<longleftrightarrow> todo s = msgs \<and> sent s = [] \<and> printed s = [] \<and> (\<forall>i. length (buf (edata s i)) = 256)"

definition channel_inv :: "nat \<Rightarrow> (nat \<Rightarrow> string list) \<Rightarrow> channel \<Rightarrow> bool" where
  "channel_inv N msgs s \<longleftrightarrow>
     untouched msgs s \<and> init_state s = 0 \<and> (\<forall>t. pcs s t = CtorCas)
   \<or> untouched msgs s \<and> init_state s = 1
       \<and> (\<exists>b. building N s (pcs s b) \<and> (\<forall>t. t \<noteq> b \<longrightarrow> pcs s t \<in> {CtorCas, CtorWait}))
   \<or> (\<exists>F P S. ready N msgs F P S s)"

lemma linked_upt: "\<forall>j \<in> {a..<b}. n j = j + 1 \<Longrightarrow> a \<le> b \<Longrightarrow> linked n ([a..<b] @ [b])"
proof (induction b)
  case (Suc b)
  show ?case
  proof (cases "a = Suc b")
    case False
    with Suc.prems have "linked n ([a..<b] @ [b])" "n b = Suc b" by (auto intro!: Suc.IH)
    then show ?thesis using False Suc.prems by (simp add: linked_append)
  qed simp
qed simp

lemma built_ready:
  assumes "untouched msgs s" and "building N s CtorDone" and "0 < N"
    and b: "\<forall>t. t \<noteq> b \<longrightarrow> pcs s t \<in> {CtorCas, CtorWait}"
  shows "ready N msgs [1..<N] [] [] (goto b (enter_main b) (s\<lparr>init_state := 2\<rparr>))" (is "ready _ _ _ _ _ ?s'")
proof -
  have idle: "pcs ?s' t \<in> {CtorCas, CtorWait, PopTest, ClientNext}" for t
    using b by (auto simp: goto_def enter_main_def)
  then have none: "owned (pcs ?s' t) = None" "heldE (pcs ?s' t) = None" "heldP (pcs ?s' t) = None" for t
    by (metis empty_iff insert_iff owned.simps heldE.simps heldP.simps)+
  have u0: "unprinted (pcs ?s' 0) [] = []" by (cases "pcs ?s' 0") simp_all
  have cl: "client_ok N ?s' t (pcs ?s' t)" if "t \<noteq> 0" for t
    using b that by (cases "t = b") (auto simp: goto_def enter_main_def)
  have sv: "server_ok N ?s' [] [] (pcs ?s' 0)"
    using b by (cases "b = 0") (auto simp: goto_def enter_main_def)
  have "linked (enext s) ([1..<N] @ [N])" by (rule linked_upt) (use assms(2,3) in auto)
  moreover have "hd ([1..<N] @ [N]) = 1" using assms(3) by (cases "N = 1") (auto simp: upt_rec)
  moreover have "parted N (\<lambda>t. None) [1..<N] [] []" by (auto simp: parted_def)
  moreover have "delivered msgs [] [] [] ?s'" using assms(1) by (auto simp: delivered_def untouched_def goto_def)
  ultimately show ?thesis
    using assms(2) cl sv unfolding ready_def none u0
    by (simp add: goto_def lock_ok_def EmptyLock_def PendingLock_def)
qed

end
