(* ===== verification/ShmQueue_Props.thy ===== *)
theory ShmQueue_Props
  imports ShmQueue_Correct
begin

section \<open>What the shared-memory channel promises\<close>

text \<open>
  For every schedule of the threads from the zeroed segment: messages arrive complete, once and in
  order, and no entry of the queue is lost or used by two threads.
\<close>

subsection \<open>The invariant from the start\<close>

lemma building_goto [simp]: "building N (goto t p s) q = building N s q"
  by (cases q) (simp_all add: goto_def)

lemma untouched_upd [simp]:
  "untouched msgs (s\<lparr>pending_tail := x\<rparr>) = untouched msgs s" "untouched msgs (s\<lparr>empty_top := x\<rparr>) = untouched msgs s"
  "untouched msgs (s\<lparr>init_state := x\<rparr>) = untouched msgs s" "untouched msgs (set_next i x s) = untouched msgs s"
  "untouched msgs (goto t p s) = untouched msgs s"
  by (simp_all add: untouched_def channel_defs)

lemma goto_simps [simp]: "pcs (goto t p s) = (pcs s)(t := p)" "init_state (goto t p s) = init_state s"
  by (simp_all add: goto_def)

lemma builder_step:
  assumes "untouched msgs s" and "init_state s = 1" and "0 < N" and "building N s (pcs s b)"
    and others: "\<forall>t. t \<noteq> b \<longrightarrow> pcs s t \<in> {CtorCas, CtorWait}"
  shows "channel_inv N msgs (channel_step N b s)"
proof -
  have go: "channel_inv N msgs (goto b p s')"
    if "building N s' p" "untouched msgs s'" "init_state s' = 1" "pcs s' = pcs s" for p s'
    unfolding channel_inv_def using that others by (intro disjI2 disjI1) (auto intro!: exI [of _ b])
  show ?thesis
  proof (cases "pcs s b")
    case CtorTail
    with assms(1,2) show ?thesis by (simp add: channel_step_def go)
  next
    case CtorTop
    with assms show ?thesis by (simp add: channel_step_def go)
  next
    case (CtorLoop i)
    then have i: "building N s (CtorLoop i)" using assms(4) by simp
    show ?thesis
    proof (cases "i < N")
      case True
      with i have "building N (set_next i (i + 1) s) (CtorLoop (i + 1))" by (auto simp: set_next_def less_Suc_eq)
      from go [OF this] True CtorLoop assms(1,2) show ?thesis by (simp add: channel_step_def) (simp add: set_next_def)
    next
      case False
      with i have "building N s CtorDone" by auto
      from go [OF this] False CtorLoop assms(1,2) show ?thesis by (simp add: channel_step_def)
    qed
  next
    case CtorDone
    then have "building N s CtorDone" using assms(4) by simp
    from built_ready [OF assms(1) this assms(3) others] CtorDone show ?thesis
      unfolding channel_inv_def channel_step_def by auto
  qed (use assms(4) in simp_all)
qed

lemma channel_step_inv:
  assumes inv: "channel_inv N msgs s" and N: "0 < N" and msgs: "\<forall>t. \<forall>m \<in> set (msgs t). sendable m"
  shows "channel_inv N msgs (channel_step N t s)"
  using inv unfolding channel_inv_def [of N msgs s]
proof (elim disjE exE conjE)
  assume z: "untouched msgs s" "init_state s = 0" "\<forall>t. pcs s t = CtorCas"
  then have "channel_step N t s = goto t CtorTail (s\<lparr>init_state := 1\<rparr>)" by (simp add: channel_step_def)
  with z show ?thesis
    unfolding channel_inv_def by (intro disjI2 disjI1) (auto intro!: exI [of _ t])
next
  fix b
  assume w: "untouched msgs s" "init_state s = 1" "building N s (pcs s b)" "\<forall>t. t \<noteq> b \<longrightarrow> pcs s t \<in> {CtorCas, CtorWait}"
  show ?thesis
  proof (cases "t = b")
    case True
    with builder_step [OF w(1,2) N w(3,4)] show ?thesis by simp
  next
    case False
    then have "channel_step N t s = goto t CtorWait s \<or> channel_step N t s = s"
      using w(2,4) by (force simp: channel_step_def)
    moreover have "channel_inv N msgs (goto t CtorWait s)"
      using w False unfolding channel_inv_def by (intro disjI2 disjI1) (auto intro!: exI [of _ b])
    ultimately show ?thesis using inv by auto
  qed
next
  fix F P S assume "ready N msgs F P S s"
  from channel_step_ready [OF this N msgs] show ?thesis by (simp add: channel_inv_def)
qed

lemma run_channel_inv:
  assumes "0 < N" and "\<forall>t. \<forall>m \<in> set (msgs t). sendable m"
  shows "channel_inv N msgs (run_channel N schedule (fresh_channel msgs))"
proof -
  have "channel_inv N msgs s \<Longrightarrow> channel_inv N msgs (fold (channel_step N) schedule s)" for s
    by (induction schedule arbitrary: s) (simp_all add: channel_step_inv [OF _ assms])
  moreover have "channel_inv N msgs (fresh_channel msgs)"
    by (simp add: channel_inv_def untouched_def fresh_channel_def)
  ultimately show ?thesis by (simp add: run_channel_def)
qed

lemma channel_inv_cases:
  assumes "channel_inv N msgs s"
  obtains (starting) "untouched msgs s" and "\<And>t. pcs s t \<in> {CtorCas, CtorWait} \<or> building N s (pcs s t)"
  | (running) F P S where "ready N msgs F P S s"
proof -
  consider "untouched msgs s" "\<forall>t. pcs s t = CtorCas"
    | b where "untouched msgs s" "building N s (pcs s b)" "\<forall>t. t \<noteq> b \<longrightarrow> pcs s t \<in> {CtorCas, CtorWait}"
    | "\<exists>F P S. ready N msgs F P S s"
    using assms unfolding channel_inv_def by blast
  then show thesis
  proof cases
    case 2
    then show thesis using starting by metis
  qed (use starting running in auto)
qed

text \<open>One client that sends two messages and a server that wakes up late.\<close>

definition demo_msgs :: "nat \<Rightarrow> string list" where
  "demo_msgs = (\<lambda>_. [])(1 := [''REGISTER'', ''FIFO''])"

definition demo_channel :: channel where
  "demo_channel = run_channel 3 (replicate 32 1 @ replicate 18 0) (fresh_channel demo_msgs)"

lemma demo_channel_facts:
  "pcs demo_channel 0 = PopTest" "pending_tail demo_channel = 0" "init_state demo_channel = 2"
  "printed demo_channel = [''REGISTER'', ''FIFO'']"
  by code_simp+

lemma demo_msgs_ok: "\<forall>t. \<forall>m \<in> set (demo_msgs t). length m < 256 \<and> NUL \<notin> set m"
  by (simp add: demo_msgs_def NUL_def)

subsection \<open>Properties\<close>

text \<open>C11: whatever the interleaving of clients and server, the shared-memory channel neither loses,
  repeats, reorders nor alters a message: what the server has printed is an initial part of what
  was published, in the order of publication; every client's messages are published in its own
  order; when the server finds nothing pending, everything published has been printed; and the
  server never fails its assertion or leaves a buffer.\<close>

theorem shm_channel_fifo:
  fixes schedule :: "nat list"
  assumes "0 < N" and "\<forall>t. \<forall>m \<in> set (msgs t). length m < 256 \<and> NUL \<notin> set m"
  defines "s \<equiv> run_channel N schedule (fresh_channel msgs)"
  shows "(\<exists>rest. map snd (sent s) = printed s @ rest)
    \<and> (\<forall>t. msgs t = map snd (filter (\<lambda>x. fst x = t) (sent s)) @ todo s t)
    \<and> (pcs s 0 = PopTest \<and> pending_tail s = 0 \<longrightarrow> printed s = map snd (sent s))
    \<and> (\<forall>t e. pcs s t \<noteq> Dead e)"
proof -
  have "channel_inv N msgs s"
    unfolding s_def by (rule run_channel_inv) (use assms(1,2) in \<open>auto simp: sendable_def\<close>)
  then show ?thesis
  proof (cases rule: channel_inv_cases)
    case starting
    have "pcs s t \<noteq> Dead e" for t e using starting(2) [of t] by auto
    moreover have "pcs s 0 \<noteq> PopTest" using starting(2) [of 0] by auto
    ultimately show ?thesis using starting(1) by (auto simp: untouched_def)
  next
    case (running F P S)
    note D = readyD [OF running]
    have "pcs s t \<noteq> Dead e" for t e using ready_role [OF running, of t] by auto
    moreover have "P = []" if "pending_tail s = 0"
    proof (rule ccontr)
      assume "P \<noteq> []"
      then have "last P = 0" using D(6) that by (auto simp: lock_ok_def PendingLock_def split: if_splits)
      with \<open>P \<noteq> []\<close> parted_range(2) [OF D(2)] last_in_set [of P] show False by simp
    qed
    ultimately show ?thesis using D(9) by (auto simp: delivered_def)
  qed
qed

theorem shm_channel_fifo_witness:
  "map snd (sent demo_channel) = [''REGISTER'', ''FIFO'']"
  using shm_channel_fifo [of 3 demo_msgs "replicate 32 1 @ replicate 18 0", folded demo_channel_def]
    demo_msgs_ok demo_channel_facts by simp

text \<open>C31: no entry of the queue is ever lost or used twice.  Once the channel is set up, every entry but
  the dummy 0 is in exactly one place: in the free list, in the pending list, in the list the
  server works on, or with the one client that allocated it; the free list is reached from the
  free head and the pending list from entry 0, unless the lock of the list is held by exactly one
  thread.\<close>

theorem shm_entries_conserved:
  fixes schedule :: "nat list"
  assumes "0 < N" and "\<forall>t. \<forall>m \<in> set (msgs t). length m < 256 \<and> NUL \<notin> set m"
  defines "s \<equiv> run_channel N schedule (fresh_channel msgs)"
  assumes "init_state s = 2"
  shows "\<exists>F P S. distinct (F @ P @ S) \<and> set (F @ P @ S) \<subseteq> {1..<N}
    \<and> (\<forall>i \<in> {1..<N} - set (F @ P @ S). \<exists>!t. owned (pcs s t) = Some i)
    \<and> (\<forall>t i. owned (pcs s t) = Some i \<longrightarrow> i \<in> {1..<N} - set (F @ P @ S))
    \<and> linked (enext s) (F @ [N]) \<and> linked (enext s) (0 # P)
    \<and> (if empty_top s = EmptyLock N then \<exists>!t. heldE (pcs s t) \<noteq> None else empty_top s = hd (F @ [N]))
    \<and> (if pending_tail s = PendingLock N then \<exists>!t. heldP (pcs s t) \<noteq> None else pending_tail s = last (0 # P))"
proof -
  have "channel_inv N msgs s"
    unfolding s_def by (rule run_channel_inv) (use assms(1,2) in \<open>auto simp: sendable_def\<close>)
  then obtain F P S where R: "ready N msgs F P S s" using assms(4) by (auto simp: channel_inv_def)
  note D = readyD [OF R]
  have lock: "if var = lk then \<exists>!t. held t \<noteq> None else var = v" if "lock_ok lk var held v" for lk var held v
    using that by (auto simp: lock_ok_def split: if_splits)
  have "\<exists>!t. owned (pcs s t) = Some i" if "i \<in> {1..<N} - set (F @ P @ S)" for i
    using D(2) that unfolding parted_def by blast
  then show ?thesis
    using D(2,3,5) lock [OF D(4)] lock [OF D(6)] unfolding parted_def by blast
qed

theorem shm_entries_conserved_witness:
  "\<exists>F P S. distinct (F @ P @ S) \<and> (\<forall>i \<in> {1..<3} - set (F @ P @ S). \<exists>!t. owned (pcs demo_channel t) = Some i)
    \<and> linked (enext demo_channel) (F @ [3])"
  using shm_entries_conserved [of 3 demo_msgs "replicate 32 1 @ replicate 18 0", folded demo_channel_def,
    OF _ demo_msgs_ok demo_channel_facts(3)] by auto

end
