(* ===== verification/Fmeter.thy ===== *)
theory Fmeter
  imports Prelude
begin

section \<open>The frequency meter of a cpuset\<close>

text \<open>
  The digital filter behind \<open>memory_pressure\<close> in \<open>cgroup/cpuset.c\<close>.  \<open>cnt\<close> and \<open>val\<close> are C
  integers, so every result of their arithmetic goes through \<open>wrap32\<close>; the clock is
  \<open>ktime_get_seconds\<close>, a parameter of every call.
\<close>

definition FM_COEF :: int where "FM_COEF = 933"
definition FM_MAXTICKS :: int where "FM_MAXTICKS = 99"
definition FM_MAXCNT :: int where "FM_MAXCNT = 1000000"
definition FM_SCALE :: int where "FM_SCALE = 1000"

lemmas fm_consts = FM_COEF_def FM_MAXTICKS_def FM_MAXCNT_def FM_SCALE_def

record fmeter =
  fm_cnt :: int
  fm_val :: int
  fm_time :: int

text \<open>C's division rounds towards zero.\<close>

definition c_div :: "int \<Rightarrow> int \<Rightarrow> int" where
  "c_div a b = sgn a * sgn b * (\<bar>a\<bar> div \<bar>b\<bar>)"

definition fmeter_init :: fmeter where
  "fmeter_init = \<lparr>fm_cnt = 0, fm_val = 0, fm_time = 0\<rparr>"

text \<open>One turn of \<open>while (ticks-- > 0)\<close>.\<close>

definition fm_tick :: "int \<Rightarrow> int" where
  "fm_tick v = c_div (wrap32 (FM_COEF * v)) FM_SCALE"

text \<open>The difference of the clocks is stored in a \<open>u32\<close>.\<close>

definition fmeter_update :: "int \<Rightarrow> fmeter \<Rightarrow> fmeter" where
  "fmeter_update now fmp =
     (let ticks = (now - fm_time fmp) mod 2 ^ 32 in
      if ticks = 0 then fmp
      else let ticks = min FM_MAXTICKS ticks;
               v = (fm_tick ^^ nat ticks) (fm_val fmp);
               v = wrap32 (v + c_div (wrap32 ((FM_SCALE - FM_COEF) * fm_cnt fmp)) FM_SCALE)
           in \<lparr>fm_cnt = 0, fm_val = v, fm_time = now\<rparr>)"

definition fmeter_markevent :: "int \<Rightarrow> fmeter \<Rightarrow> fmeter" where
  "fmeter_markevent now fmp =
     (let fmp = fmeter_update now fmp
      in fmp\<lparr>fm_cnt := min FM_MAXCNT (wrap32 (fm_cnt fmp + FM_SCALE))\<rparr>)"

definition fmeter_getrate :: "int \<Rightarrow> fmeter \<Rightarrow> int \<times> fmeter" where
  "fmeter_getrate now fmp = (let fmp = fmeter_update now fmp in (fm_val fmp, fmp))"

subsection \<open>Bounds\<close>

lemma wrap32_small: "0 \<le> i \<Longrightarrow> i < 2147483648 \<Longrightarrow> wrap32 i = i"
  by (simp add: wrap32_def)

definition fm_ok :: "fmeter \<Rightarrow> bool" where
  "fm_ok fmp \<longleftrightarrow> 0 \<le> fm_cnt fmp \<and> fm_cnt fmp \<le> FM_MAXCNT \<and> 0 \<le> fm_val fmp \<and> fm_val fmp < 1000000"

lemma c_div_nonneg [simp]: "0 \<le> a \<Longrightarrow> 0 < b \<Longrightarrow> c_div a b = a div b"
  by (cases "a = 0") (auto simp: c_div_def)

lemma fm_tick_exact:
  assumes "0 \<le> v" and "v < 1000000"
  shows "fm_tick v = 933 * v div 1000"
  using assms by (simp add: fm_tick_def fm_consts wrap32_small)

lemma fm_tick_bounds:
  assumes "0 \<le> v" and "v < 1000000"
  shows "0 \<le> fm_tick v \<and> fm_tick v \<le> 932999 \<and> fm_tick v \<le> v"
  using assms by (simp add: fm_tick_exact) linarith

lemma fm_ticks_bounds:
  assumes "0 \<le> v" and "v < 1000000" and "0 < n"
  shows "0 \<le> (fm_tick ^^ n) v \<and> (fm_tick ^^ n) v \<le> 932999 \<and> (fm_tick ^^ n) v \<le> v"
  using assms(3)
proof (induction n)
  case 0
  then show ?case by simp
next
  case (Suc n)
  show ?case
  proof (cases "n = 0")
    case True
    with fm_tick_bounds [OF assms(1,2)] show ?thesis by simp
  next
    case False
    with Suc have "0 \<le> (fm_tick ^^ n) v \<and> (fm_tick ^^ n) v \<le> 932999 \<and> (fm_tick ^^ n) v \<le> v" by simp
    with fm_tick_bounds [of "(fm_tick ^^ n) v"] show ?thesis by simp
  qed
qed

text \<open>The update without the wrap-around.\<close>

definition fmeter_exact :: "int \<Rightarrow> fmeter \<Rightarrow> fmeter" where
  "fmeter_exact now fmp =
     (let ticks = (now - fm_time fmp) mod 2 ^ 32 in
      if ticks = 0 then fmp
      else \<lparr>fm_cnt = 0,
        fm_val = ((\<lambda>v. 933 * v div 1000) ^^ nat (min 99 ticks)) (fm_val fmp) + 67 * fm_cnt fmp div 1000,
        fm_time = now\<rparr>)"

lemma fm_ticks_exact:
  assumes "0 \<le> v" and "v < 1000000"
  shows "(fm_tick ^^ n) v = ((\<lambda>v. 933 * v div 1000) ^^ n) v"
proof (induction n)
  case (Suc n)
  have "0 \<le> (fm_tick ^^ n) v \<and> (fm_tick ^^ n) v < 1000000"
    using fm_ticks_bounds [OF assms, of n] assms by (cases "n = 0") auto
  with Suc show ?case by (simp add: fm_tick_exact)
qed simp

lemma fmeter_update_exact:
  assumes "fm_ok fmp"
  shows "fmeter_update now fmp = fmeter_exact now fmp \<and> fm_ok (fmeter_update now fmp)"
proof -
  obtain t where t: "t = (now - fm_time fmp) mod 2 ^ 32" by simp
  then have "0 \<le> t" by simp
  have u: "fmeter_update now fmp = (if t = 0 then fmp else \<lparr>fm_cnt = 0,
      fm_val = wrap32 ((fm_tick ^^ nat (min 99 t)) (fm_val fmp) + c_div (wrap32 (67 * fm_cnt fmp)) 1000),
      fm_time = now\<rparr>)"
    unfolding fmeter_update_def Let_def t [symmetric] by (simp add: fm_consts)
  have x: "fmeter_exact now fmp = (if t = 0 then fmp else \<lparr>fm_cnt = 0,
      fm_val = ((\<lambda>v. 933 * v div 1000) ^^ nat (min 99 t)) (fm_val fmp) + 67 * fm_cnt fmp div 1000,
      fm_time = now\<rparr>)"
    unfolding fmeter_exact_def Let_def t [symmetric] by simp
  show ?thesis
  proof (cases "t = 0")
    case True
    with assms u x show ?thesis by simp
  next
    case False
    let ?v = "(fm_tick ^^ nat (min 99 t)) (fm_val fmp)"
    have n: "0 < nat (min 99 t)" using False \<open>0 \<le> t\<close> by simp
    have ok: "0 \<le> fm_val fmp" "fm_val fmp < 1000000" "0 \<le> fm_cnt fmp" "fm_cnt fmp \<le> 1000000"
      using assms by (auto simp: fm_ok_def fm_consts)
    have v: "0 \<le> ?v" "?v \<le> 932999" using fm_ticks_bounds [OF ok(1,2) n] by auto
    have c: "wrap32 (67 * fm_cnt fmp) = 67 * fm_cnt fmp" using ok by (simp add: wrap32_small)
    have d: "0 \<le> 67 * fm_cnt fmp div 1000" "67 * fm_cnt fmp div 1000 \<le> 67000"
      using ok by simp_all
    then have "wrap32 (?v + 67 * fm_cnt fmp div 1000) = ?v + 67 * fm_cnt fmp div 1000"
      using v by (simp add: wrap32_small)
    then have "fmeter_update now fmp = \<lparr>fm_cnt = 0, fm_val = ?v + 67 * fm_cnt fmp div 1000, fm_time = now\<rparr>"
      using False ok(3) by (simp add: u c)
    then show ?thesis
      using False v d fm_ticks_exact [OF ok(1,2)] by (simp add: x fm_ok_def fm_consts)
  qed
qed

lemma fmeter_markevent_ok: "fm_ok fmp \<Longrightarrow> fm_ok (fmeter_markevent now fmp)"
  using fmeter_update_exact [of fmp now]
  by (auto simp: fmeter_markevent_def Let_def fm_ok_def fm_consts wrap32_small)

lemma fmeter_getrate_ok: "fm_ok fmp \<Longrightarrow> fmeter_getrate now fmp = (r, fmp') \<Longrightarrow> fm_ok fmp' \<and> 0 \<le> r \<and> r < 1000000"
  using fmeter_update_exact [of fmp now] by (auto simp: fmeter_getrate_def Let_def fm_ok_def)

text \<open>The meter between its events and readings, each at its own time.\<close>

datatype fm_event = Mark int | Rate int

definition fm_step :: "fm_event \<Rightarrow> fmeter \<Rightarrow> fmeter" where
  "fm_step e fmp = (case e of Mark now \<Rightarrow> fmeter_markevent now fmp | Rate now \<Rightarrow> snd (fmeter_getrate now fmp))"

lemma fm_step_ok: "fm_ok fmp \<Longrightarrow> fm_ok (fm_step e fmp)"
  using fmeter_getrate_ok by (auto simp: fm_step_def fmeter_markevent_ok split: fm_event.split) (metis prod.collapse)

text \<open>C40: the frequency meter never overflows: whatever events and readings come at whatever
  times, the filter computes what it computes on unbounded integers, and the rate it reports is
  below one million.\<close>

theorem fmeter_never_overflows:
  "\<forall>now. let fmp = fold fm_step es fmeter_init in
     fmeter_update now fmp = fmeter_exact now fmp
     \<and> 0 \<le> fst (fmeter_getrate now fmp) \<and> fst (fmeter_getrate now fmp) < 1000000"
proof -
  have "fm_ok (fold fm_step es fmeter_init)"
  proof (rule fold_invariant [where P = fm_ok and Q = "\<lambda>_. True"])
    show "fm_ok fmeter_init" by (simp add: fmeter_init_def fm_ok_def fm_consts)
  qed (auto simp: fm_step_ok)
  then show ?thesis using fmeter_update_exact fmeter_getrate_ok by (metis (no_types, lifting) prod.collapse)
qed

text \<open>The half-life is ten seconds: ten ticks without an event halve the rate at least.\<close>

lemma fm_tick_decay:
  assumes "0 \<le> v" and "v < 1000000"
  shows "1000 ^ n * (fm_tick ^^ n) v \<le> 933 ^ n * v"
proof (induction n)
  case (Suc n)
  let ?w = "(fm_tick ^^ n) v"
  have "0 \<le> ?w \<and> ?w < 1000000"
    using fm_ticks_bounds [OF assms, of n] assms by (cases "n = 0") auto
  then have "1000 * fm_tick ?w \<le> 933 * ?w" by (simp add: fm_tick_exact)
  then have "1000 ^ n * (1000 * fm_tick ?w) \<le> 1000 ^ n * (933 * ?w)" by (intro mult_left_mono) auto
  also have "\<dots> \<le> 933 * (933 ^ n * v)" using Suc by simp
  finally show ?case by (simp add: mult_ac)
qed simp

lemma fmeter_half_life:
  assumes "0 \<le> v" and "v < 1000000"
  shows "2 * (fm_tick ^^ 10) v \<le> v"
  using fm_tick_decay [OF assms, of 10] assms(1) by simp

text \<open>After the maximal number of ticks the level is not yet stable: an hour after the last event a
  meter at its top still shows the rate of one event per second, where the filter has reached
  zero after less than three minutes.\<close>

lemma funpow_num: "(f ^^ numeral k) v = (f ^^ pred_numeral k) (f v)"
  by (simp add: numeral_eq_Suc funpow_swap1)

lemma fmeter_stale:
  "fst (fmeter_getrate 3601 \<lparr>fm_cnt = 0, fm_val = 999999, fm_time = 1\<rparr>) = 1035
   \<and> (fm_tick ^^ 168) 999999 = 0"
proof -
  have "fm_ok \<lparr>fm_cnt = 0, fm_val = 999999, fm_time = 1\<rparr>" by (simp add: fm_ok_def fm_consts)
  from fmeter_update_exact [OF this, of 3601] show ?thesis
    by (simp add: fmeter_getrate_def fmeter_exact_def funpow_num fm_tick_exact)
qed

end
