(* ===== verification/SkipWalk.thy ===== *)
theory SkipWalk
  imports CssWalk
begin

section \<open>Walks that skip subtrees\<close>

text \<open>
  \<open>css_for_each_descendant_pre\<close> loops whose body may leave out the subtree of the css at hand
  (\<open>pos = css_rightmost_descendant(pos); continue\<close>) or leave the loop, as \<open>cgroup/cpuset.c\<close>
  uses them.  The loop over positions is proved equal to a recursion over a list of subtrees
  that are still to be visited.
\<close>

subsection \<open>The rightmost descendant\<close>

text \<open>\<open>css_for_each_child(tmp, last) pos = tmp\<close>.\<close>

definition last_child :: "css_tree \<Rightarrow> nat \<Rightarrow> nat option" where
  "last_child T p = fold (\<lambda>tmp pos. Some tmp) (kids T p) None"

lemma last_child_simp: "last_child T p = (if kids T p = [] then None else Some (last (kids T p)))"
proof -
  have "fold (\<lambda>tmp pos. Some tmp) xs z = (if xs = [] then z else Some (last xs))" for xs :: "nat list" and z
    by (induction xs arbitrary: z) auto
  then show ?thesis by (simp add: last_child_def)
qed

lemma last_child_in: "last_child T p = Some c \<Longrightarrow> c \<in> set (kids T p)"
  by (auto simp: last_child_simp split: if_splits)

function css_rightmost_descendant :: "css_tree \<Rightarrow> nat \<Rightarrow> nat" where
  "css_rightmost_descendant T pos =
     (case last_child T pos of None \<Rightarrow> pos | Some c \<Rightarrow> css_rightmost_descendant T c)"
  by pat_completeness auto
termination
proof (relation "measure (\<lambda>(T, c). Suc (Max (set (tcss T))) - c)")
  fix T :: css_tree and pos c
  assume "last_child T pos = Some c"
  then have "c \<in> set (kids T pos)" by (rule last_child_in)
  then have "c \<in> set (tcss T)" "pos < c" by (auto simp: kids_def dest: children_greater)
  then show "((T, c), T, pos) \<in> measure (\<lambda>(T, c). Suc (Max (set (tcss T))) - c)"
    using gap_less by simp
qed simp

declare css_rightmost_descendant.simps [simp del]

subsection \<open>The loop\<close>

text \<open>What a turn does next: \<open>Go\<close> takes the next css, \<open>Skip\<close> leaves the subtree out, \<open>Stop\<close>
  leaves the loop.\<close>

datatype action = Go | Skip | Stop

fun walk_pre :: "css_tree \<Rightarrow> (nat \<Rightarrow> 's \<Rightarrow> 's \<times> action) \<Rightarrow> nat \<Rightarrow> nat \<Rightarrow> nat option \<Rightarrow> 's \<Rightarrow> 's option" where
  "walk_pre T body root fuel None s = Some s"
| "walk_pre T body root 0 (Some pos) s = None"
| "walk_pre T body root (Suc fuel) (Some pos) s =
     (case body pos s of
        (s', Go) \<Rightarrow> walk_pre T body root fuel (css_next_descendant_pre T (Some pos) root) s'
      | (s', Skip) \<Rightarrow> walk_pre T body root fuel
          (css_next_descendant_pre T (Some (css_rightmost_descendant T pos)) root) s'
      | (s', Stop) \<Rightarrow> Some s')"

text \<open>As many turns as there are csses are enough.\<close>

definition for_each_descendant_pre :: "css_tree \<Rightarrow> nat \<Rightarrow> (nat \<Rightarrow> 's \<Rightarrow> 's \<times> action) \<Rightarrow> 's \<Rightarrow> 's" where
  "for_each_descendant_pre T root body s =
     (case walk_pre T body root (length (tcss T)) (css_next_descendant_pre T None root) s of
        None \<Rightarrow> s | Some s' \<Rightarrow> s')"

subsection \<open>The subtrees still to be visited\<close>

text \<open>The later siblings of a css and of its ancestors below the root of the walk.\<close>

fun later :: "css_tree \<Rightarrow> nat \<Rightarrow> nat \<Rightarrow> nat list" where
  "later T root c =
     (if c = root then []
      else case tpar T c of None \<Rightarrow> []
        | Some q \<Rightarrow> if q < c then filter (\<lambda>n. c < n) (kids T q) @ later T root q else [])"

declare later.simps [simp del]

lemma later_root [simp]: "later T root root = []"
  by (simp add: later.simps)

lemma later_child: "c \<noteq> root \<Longrightarrow> tpar T c = Some q \<Longrightarrow> q < c \<Longrightarrow>
  later T root c = filter (\<lambda>n. c < n) (kids T q) @ later T root q"
  by (subst later.simps) simp

lemma later_kid:
  assumes "position T root q" and "kids T q = xs @ n # ns"
  shows "later T root n = ns @ later T root q"
proof -
  have n: "n \<in> set (kids T q)" using assms(2) by simp
  have "sorted_wrt (<) (kids T q)" using assms(1) children_sorted by (simp add: position_def)
  then have "filter (\<lambda>m. n < m) (kids T q) = ns"
    using assms(2) by (auto simp: sorted_wrt_append filter_id_conv filter_empty_conv)
  with kid_not_root [OF assms(1) n] show ?thesis by (simp add: later_child)
qed

lemma next_sibling_up_later:
  assumes "position T root c"
  shows "case next_sibling_up T root c of None \<Rightarrow> later T root c = []
    | Some n \<Rightarrow> position T root n \<and> later T root c = n # later T root n"
  using assms
proof (induction c rule: less_induct)
  case (less c)
  show ?case
  proof (cases "c = root")
    case True
    then show ?thesis by (simp add: next_sibling_up.simps)
  next
    case False
    with less.prems obtain q where q: "tpar T c = Some q" "q < c" "position T root q" "c \<in> set (kids T q)"
      by (rule position_parent)
    have ok: "css_tree_ok T" using q(3) by (simp add: position_def)
    have nc: "css_next_child T (Some c) q = first (filter (\<lambda>n. c < n) (kids T q))"
      using css_next_child_later [OF ok] q(4) by blast
    show ?thesis
    proof (cases "filter (\<lambda>n. c < n) (kids T q)")
      case Nil
      then have "next_sibling_up T root c = next_sibling_up T root q" "later T root c = later T root q"
        using False q nc later_child [OF False q(1,2)]
        by (simp_all add: first_def next_sibling_up.simps [of T root c])
      with less.IH [OF q(2,3)] show ?thesis by (simp split: option.splits)
    next
      case (Cons n ns)
      then have n: "n \<in> set (kids T q)" "c < n" by (auto simp: filter_eq_Cons_iff)
      from kid_not_root [OF q(3) n(1)]
      have "later T root n = ns @ later T root q"
        using later_child filter_later [OF children_sorted [OF ok] Cons] by metis
      moreover have "next_sibling_up T root c = Some n"
        using False q(1) nc Cons by (simp add: first_def next_sibling_up.simps [of T root c])
      ultimately show ?thesis using later_child [OF False q(1,2)] Cons position_kid [OF q(3) n(1)] by simp
    qed
  qed
qed

lemma descendant_pre_go:
  assumes "position T root c"
  shows "case css_next_descendant_pre T (Some c) root of None \<Rightarrow> kids T c @ later T root c = []
    | Some n \<Rightarrow> position T root n \<and> kids T c @ later T root c = n # later T root n"
proof (cases "kids T c")
  case Nil
  with next_sibling_up_later [OF assms] show ?thesis
    by (simp add: css_next_descendant_pre_def css_next_child_def first_def split: option.splits)
next
  case (Cons n ns)
  with later_kid [OF assms, of "[]" n ns] position_kid [OF assms, of n] show ?thesis
    by (simp add: css_next_descendant_pre_def css_next_child_def first_def)
qed

lemma rightmost_later:
  assumes "position T root c"
  shows "position T root (css_rightmost_descendant T c) \<and> kids T (css_rightmost_descendant T c) = []
    \<and> later T root (css_rightmost_descendant T c) = later T root c"
  using assms
proof (induction T c rule: css_rightmost_descendant.induct)
  case (1 T c)
  show ?case
  proof (cases "kids T c = []")
    case True
    with 1 show ?thesis by (simp add: css_rightmost_descendant.simps [of T c] last_child_simp)
  next
    case False
    let ?l = "last (kids T c)"
    have l: "?l \<in> set (kids T c)" using False by simp
    have "later T root ?l = later T root c"
      using later_kid [OF 1(2), of "butlast (kids T c)" ?l "[]"] False by simp
    with 1(1) [of ?l] position_kid [OF 1(2) l] False show ?thesis
      by (simp add: css_rightmost_descendant.simps [of T c] last_child_simp)
  qed
qed

lemma descendant_pre_skip:
  assumes "position T root c"
  shows "case css_next_descendant_pre T (Some (css_rightmost_descendant T c)) root of
      None \<Rightarrow> later T root c = []
    | Some n \<Rightarrow> position T root n \<and> later T root c = n # later T root n"
  using rightmost_later [OF assms] descendant_pre_go [of T root "css_rightmost_descendant T c"]
  by (simp split: option.splits)

subsection \<open>The recursion\<close>

lemma sum_list_concat: "sum_list (map (\<lambda>x. length (f x)) xs) = length (concat (map f xs))"
  by (simp add: length_concat comp_def)

function dfs :: "css_tree \<Rightarrow> (nat \<Rightarrow> 's \<Rightarrow> 's \<times> action) \<Rightarrow> nat list \<Rightarrow> 's \<Rightarrow> 's" where
  "dfs T body [] s = s"
| "dfs T body (c # rest) s =
     (case body c s of
        (s', Go) \<Rightarrow> dfs T body (kids T c @ rest) s'
      | (s', Skip) \<Rightarrow> dfs T body rest s'
      | (s', Stop) \<Rightarrow> s')"
  by pat_completeness auto
termination
  by (relation "measure (\<lambda>(T, body, cs, s). length (concat (map (pre_order T) cs)))")
    (auto simp: pre_order.simps)

lemma walk_dfs:
  assumes "position T root c" and "length (concat (map (pre_order T) (c # later T root c))) \<le> fuel"
  shows "walk_pre T body root fuel (Some c) s = Some (dfs T body (c # later T root c) s)"
  using assms
proof (induction fuel arbitrary: c s)
  case 0
  then show ?case by (simp add: pre_order.simps)
next
  case (Suc fuel)
  obtain s' a where b: "body c s = (s', a)" by (cases "body c s") auto
  have c: "length (concat (map (pre_order T) (kids T c @ later T root c))) \<le> fuel"
    using Suc.prems(2) by (simp add: pre_order.simps [of T c])
  then have d: "length (concat (map (pre_order T) (later T root c))) \<le> fuel" by simp
  show ?case
  proof (cases a)
    case Go
    show ?thesis
    proof (cases "css_next_descendant_pre T (Some c) root")
      case None
      with descendant_pre_go [OF Suc.prems(1)] show ?thesis using b Go by simp
    next
      case (Some n)
      with descendant_pre_go [OF Suc.prems(1)]
      have n: "position T root n" "kids T c @ later T root c = n # later T root n" by auto
      with Suc.IH [OF n(1), of s'] c show ?thesis using b Go Some by (simp only: n(2)) (simp add: n(2))
    qed
  next
    case Skip
    show ?thesis
    proof (cases "css_next_descendant_pre T (Some (css_rightmost_descendant T c)) root")
      case None
      with descendant_pre_skip [OF Suc.prems(1)] show ?thesis using b Skip by simp
    next
      case (Some n)
      with descendant_pre_skip [OF Suc.prems(1)]
      have n: "position T root n" "later T root c = n # later T root n" by auto
      with Suc.IH [OF n(1), of s'] d show ?thesis using b Skip Some by simp
    qed
  next
    case Stop
    with b show ?thesis by simp
  qed
qed

lemma for_each_dfs:
  assumes "css_tree_ok T" and "root \<in> set (tcss T)"
  shows "for_each_descendant_pre T root body s = dfs T body [root] s"
  using walk_dfs [OF position_self [OF assms], of "length (tcss T)" body s] length_pre_order [OF assms]
  by (simp add: for_each_descendant_pre_def css_next_descendant_pre_def)

text \<open>What every turn keeps, the loop keeps, in every tree.\<close>

lemma walk_pre_keeps:
  "(\<And>c s. P s \<Longrightarrow> P (fst (body c s))) \<Longrightarrow> P s \<Longrightarrow> walk_pre T body root fuel pos s = Some s' \<Longrightarrow> P s'"
proof (induction T body root fuel pos s rule: walk_pre.induct)
  case (3 T body root fuel pos s)
  obtain t a where b: "body pos s = (t, a)" by (cases "body pos s") auto
  have t: "P t" using 3(3) [OF 3(4), of pos] b by simp
  show ?case
  proof (cases a)
    case Go
    with 3(5) b show ?thesis using 3(1) [OF b [symmetric] Go 3(3) t] by simp
  next
    case Skip
    with 3(5) b show ?thesis using 3(2) [OF b [symmetric] Skip 3(3) t] by simp
  next
    case Stop
    with 3(5) b t show ?thesis by simp
  qed
qed simp_all

lemma for_each_always_keeps:
  assumes "\<And>c s. P s \<Longrightarrow> P (fst (body c s))" and "P s"
  shows "P (for_each_descendant_pre T root body s)"
  unfolding for_each_descendant_pre_def
  using walk_pre_keeps [of P body, OF assms(1) assms(2)] assms(2) by (auto split: option.split)

text \<open>What every turn on a css of the visited subtrees keeps, the loop keeps.\<close>

lemma dfs_keeps:
  assumes "P s" and "\<And>c s. c \<in> set (concat (map (pre_order T) cs)) \<Longrightarrow> P s \<Longrightarrow> P (fst (body c s))"
  shows "P (dfs T body cs s)"
  using assms
proof (induction T body cs s rule: dfs.induct)
  case (1 T body s)
  then show ?case by simp
next
  case (2 T body c rest s)
  obtain s' a where b: "body c s = (s', a)" by (cases "body c s") auto
  have "P (fst (body c s))" using 2(3,4) by (simp add: pre_order.simps [of T c])
  then have s': "P s'" using b by simp
  show ?case
  proof (cases a)
    case Go
    with b 2(1) [OF b [symmetric] Go s'] 2(4) show ?thesis by (simp add: pre_order.simps [of T c])
  next
    case Skip
    with b 2(2) [OF b [symmetric] Skip s'] 2(4) show ?thesis by simp
  next
    case Stop
    with b s' show ?thesis by simp
  qed
qed

lemma for_each_keeps:
  assumes "css_tree_ok T" and "root \<in> set (tcss T)" and "P s"
    and "\<And>c s. in_subtree T root c \<Longrightarrow> P s \<Longrightarrow> P (fst (body c s))"
  shows "P (for_each_descendant_pre T root body s)"
  unfolding for_each_dfs [OF assms(1,2)]
proof (rule dfs_keeps [where P = P, OF assms(3)])
  fix c s
  assume "c \<in> set (concat (map (pre_order T) [root]))" "P s"
  then show "P (fst (body c s))" using assms(4) set_pre_order [OF assms(1,2)] by simp
qed

subsection \<open>Loops that collect\<close>

text \<open>When the decision to skip does not depend on the state, the visited csses are a list.\<close>

function pruned :: "css_tree \<Rightarrow> (nat \<Rightarrow> bool) \<Rightarrow> nat \<Rightarrow> nat list" where
  "pruned T skip c = c # (if skip c then [] else concat (map (pruned T skip) (kids T c)))"
  by pat_completeness auto
termination
  by (relation "measure (\<lambda>(T, skip, c). Suc (Max (set (tcss T))) - c)")
    (auto simp: kids_def intro: gap_less dest: children_greater)

declare pruned.simps [simp del]

lemma dfs_pruned:
  assumes "\<And>c s. body c s = (f c s, if skip c then Skip else Go)"
  shows "dfs T body cs s = fold f (concat (map (pruned T skip) cs)) s"
  using assms
proof (induction T body cs s rule: dfs.induct)
  case (1 T body s)
  show ?case by simp
next
  case (2 T body c rest s)
  show ?case
  proof (cases "skip c")
    case True
    have b: "body c s = (f c s, Skip)" using 2(3) [of c s] True by simp
    from 2(2) [OF b [symmetric] refl 2(3)] b True show ?thesis
      by (simp add: pruned.simps [of T skip c])
  next
    case False
    have b: "body c s = (f c s, Go)" using 2(3) [of c s] False by simp
    from 2(1) [OF b [symmetric] refl 2(3)] b False show ?thesis
      by (simp add: pruned.simps [of T skip c])
  qed
qed

lemma for_each_pruned:
  assumes "css_tree_ok T" and "root \<in> set (tcss T)"
    and "\<And>c s. body c s = (f c s, if skip c then Skip else Go)"
  shows "for_each_descendant_pre T root body s = fold f (pruned T skip root) s"
  by (simp add: for_each_dfs [OF assms(1,2)] dfs_pruned [OF assms(3)])

lemma pruned_subset: "set (pruned T skip c) \<subseteq> set (pre_order T c)"
proof (induction T skip c rule: pruned.induct)
  case (1 T skip c)
  then show ?case by (auto simp: pruned.simps [of T skip c] pre_order.simps [of T c] split: if_splits)
qed

text \<open>A css that is not visited lies below a visited css whose subtree is skipped.\<close>

lemma pruned_cover:
  assumes "d \<in> set (pre_order T c)"
  shows "d \<in> set (pruned T skip c) \<or> (\<exists>e \<in> set (pruned T skip c). skip e \<and> d \<in> set (pre_order T e))"
  using assms
proof (induction T skip c rule: pruned.induct)
  case (1 T skip c)
  show ?case
  proof (cases "d = c \<or> skip c")
    case True
    with 1(2) show ?thesis by (auto simp: pruned.simps [of T skip c])
  next
    case False
    with 1(2) obtain k where k: "k \<in> set (kids T c)" "d \<in> set (pre_order T k)"
      by (auto simp: pre_order.simps [of T c])
    from 1(1) [OF _ k] False k(1) show ?thesis by (auto simp: pruned.simps [of T skip c])
  qed
qed

end
