(* ===== verification/Cpuset.thy ===== *)
theory Cpuset
  imports SkipWalk Fmeter
begin

section \<open>Cpusets\<close>

text \<open>
  The data of \<open>cgroup/cpuset.c\<close>, the tests on one cpuset, the rules of \<open>validate_change\<close> and what
  is done to the tasks of a cpuset.  A cpuset is named like its css; \<open>top_cpuset\<close> is the root.
  Masks of CPUs and of memory nodes are finite sets.  The locks make every operation one step.
  Calls into the scheduler and the memory policies, which are elsewhere, are recorded in
  \<open>calls\<close>, the last one first; what the code asks of them is a parameter, the record \<open>kernel\<close>.
\<close>

type_synonym mask = "nat set"

definition C_EACCES :: int where "C_EACCES = 13"
definition C_EBUSY :: int where "C_EBUSY = 16"
definition C_ENODEV :: int where "C_ENODEV = 19"
definition C_ENOSPC :: int where "C_ENOSPC = 28"

lemmas cpuset_errors = C_EACCES_def C_EBUSY_def C_ENODEV_def C_ENOSPC_def EINVAL_def ENOMEM_def

datatype cpuset_flagbits =
  CS_ONLINE | CS_CPU_EXCLUSIVE | CS_MEM_EXCLUSIVE | CS_MEM_HARDWALL | CS_MEMORY_MIGRATE
  | CS_SCHED_LOAD_BALANCE | CS_SPREAD_PAGE | CS_SPREAD_SLAB

definition PRS_DISABLED :: int where "PRS_DISABLED = 0"
definition PRS_ENABLED :: int where "PRS_ENABLED = 1"
definition PRS_ERROR :: int where "PRS_ERROR = -1"

lemmas prs_defs = PRS_DISABLED_def PRS_ENABLED_def PRS_ERROR_def

record cpuset =
  flags :: "cpuset_flagbits set"
  cpus_allowed :: mask
  mems_allowed :: mask
  effective_cpus :: mask
  effective_mems :: mask
  subparts_cpus :: mask
  old_mems_allowed :: mask
  meter :: fmeter
  attach_in_progress :: int
  pn :: int
  relax_domain_level :: int
  nr_subparts_cpus :: nat
  partition_root_state :: int
  use_parent_ecpus :: bool
  child_ecpus_count :: int

definition is_cpu_exclusive :: "cpuset \<Rightarrow> bool" where
  "is_cpu_exclusive c = (CS_CPU_EXCLUSIVE \<in> flags c)"

definition is_mem_exclusive :: "cpuset \<Rightarrow> bool" where
  "is_mem_exclusive c = (CS_MEM_EXCLUSIVE \<in> flags c)"

definition is_mem_hardwall :: "cpuset \<Rightarrow> bool" where
  "is_mem_hardwall c = (CS_MEM_HARDWALL \<in> flags c)"

definition is_sched_load_balance :: "cpuset \<Rightarrow> bool" where
  "is_sched_load_balance c = (CS_SCHED_LOAD_BALANCE \<in> flags c)"

definition is_memory_migrate :: "cpuset \<Rightarrow> bool" where
  "is_memory_migrate c = (CS_MEMORY_MIGRATE \<in> flags c)"

definition is_spread_page :: "cpuset \<Rightarrow> bool" where
  "is_spread_page c = (CS_SPREAD_PAGE \<in> flags c)"

definition is_spread_slab :: "cpuset \<Rightarrow> bool" where
  "is_spread_slab c = (CS_SPREAD_SLAB \<in> flags c)"

definition is_partition_root :: "cpuset \<Rightarrow> bool" where
  "is_partition_root c = (0 < partition_root_state c)"

lemmas flag_tests = is_cpu_exclusive_def is_mem_exclusive_def is_mem_hardwall_def
  is_sched_load_balance_def is_memory_migrate_def is_spread_page_def is_spread_slab_def

subsection \<open>The state\<close>

datatype kcall =
    set_cpus_allowed_ptr nat mask
  | do_set_cpus_allowed nat mask
  | mpol_rebind_task nat mask
  | mpol_rebind_mm nat mask
  | migrate_mm nat mask mask
  | task_set_spread_page nat bool
  | task_set_spread_slab nat bool
  | partition_sched_domains int "mask list option" "int list option"
  | dl_clear_root_domain
  | dl_add_task_root_domain nat
  | transfer_failed nat

text \<open>\<open>task_mems\<close> is \<open>task->mems_allowed\<close>, \<open>enabled_key\<close> the count of \<open>cpusets_enabled_key\<close>.
  \<open>crashed\<close> is set by a \<open>BUG_ON\<close> that fires or a null pointer that is followed; what comes after it
  does not count.\<close>

record cpuset_sys =
  ctree :: css_tree
  css_dying :: "nat \<Rightarrow> bool"
  css_online :: "nat \<Rightarrow> bool"
  clone_children :: "nat \<Rightarrow> bool"
  cpusets :: "nat \<Rightarrow> cpuset"
  css_tasks :: "nat \<Rightarrow> nat list"
  task_mems :: "nat \<Rightarrow> mask"
  on_dfl :: bool
  v2_mode_flag :: bool
  cpu_online_mask :: mask
  cpu_active_mask :: mask
  cpu_possible_mask :: mask
  n_memory :: mask
  node_possible_map :: mask
  enabled_key :: nat
  memory_pressure_enabled :: bool
  force_rebuild :: bool
  attach_old_cs :: nat
  crashed :: bool
  calls :: "kcall list"

text \<open>Parameters: the housekeeping CPUs, the number of scheduling levels, whether the deadline tasks
  of a cpuset still fit a smaller mask, the admission of a task, its address space, whether it leads
  its thread group or exits, the parsers of mask texts, which give a negative number for a bad
  text, the result of preparing a migration, and which allocations of the operation succeed.\<close>

record kernel =
  housekeeping :: mask
  sched_domain_level_max :: int
  cpumask_can_shrink :: "mask \<Rightarrow> mask \<Rightarrow> bool"
  task_can_attach :: "nat \<Rightarrow> mask \<Rightarrow> int"
  security_task_setscheduler :: "nat \<Rightarrow> int"
  has_mm :: "nat \<Rightarrow> bool"
  cpulist_parse :: "string \<Rightarrow> int + mask"
  nodelist_parse :: "string \<Rightarrow> int + mask"
  thread_leader :: "nat \<Rightarrow> bool"
  task_exiting :: "nat \<Rightarrow> bool"
  migrate_prepare :: int
  alloc_work :: "nat \<Rightarrow> bool"
  alloc_csa :: bool
  alloc_doms :: bool
  alloc_dattr :: bool
  alloc_tmpmasks :: bool

definition top_cpuset :: nat where "top_cpuset = 0"

text \<open>Every cpuset lies below the top one.\<close>

definition sys_ok :: "cpuset_sys \<Rightarrow> bool" where
  "sys_ok S \<longleftrightarrow> css_tree_ok (ctree S) \<and> top_cpuset \<in> set (tcss (ctree S))
     \<and> (\<forall>c \<in> set (tcss (ctree S)). c \<noteq> top_cpuset \<longrightarrow> top_cpuset \<in> set (ancestors (tpar (ctree S)) c))"

definition upd_cs :: "nat \<Rightarrow> (cpuset \<Rightarrow> cpuset) \<Rightarrow> cpuset_sys \<Rightarrow> cpuset_sys" where
  "upd_cs c f S = S\<lparr>cpusets := (cpusets S)(c := f (cpusets S c))\<rparr>"

definition kernel_call :: "kcall \<Rightarrow> cpuset_sys \<Rightarrow> cpuset_sys" where
  "kernel_call k S = S\<lparr>calls := k # calls S\<rparr>"

definition is_cpuset_online :: "cpuset_sys \<Rightarrow> nat \<Rightarrow> bool" where
  "is_cpuset_online S c = (CS_ONLINE \<in> flags (cpusets S c) \<and> \<not> css_dying S c)"

definition is_in_v2_mode :: "cpuset_sys \<Rightarrow> bool" where
  "is_in_v2_mode S = (on_dfl S \<or> v2_mode_flag S)"

text \<open>Asked of a cpuset other than the top one only.\<close>

definition parent_cs :: "cpuset_sys \<Rightarrow> nat \<Rightarrow> nat" where
  "parent_cs S c = (case tpar (ctree S) c of None \<Rightarrow> top_cpuset | Some p \<Rightarrow> p)"

text \<open>\<open>cpuset_for_each_child\<close>.\<close>

definition cpuset_children :: "cpuset_sys \<Rightarrow> nat \<Rightarrow> nat list" where
  "cpuset_children S p = filter (is_cpuset_online S) (kids (ctree S) p)"

text \<open>\<open>cpuset_for_each_descendant_pre\<close>: the body sees the online cpusets only.\<close>

definition cpuset_for_each_descendant_pre ::
    "cpuset_sys \<Rightarrow> nat \<Rightarrow> (nat \<Rightarrow> 's \<Rightarrow> 's \<times> action) \<Rightarrow> (nat \<Rightarrow> 's \<Rightarrow> bool) \<Rightarrow> 's \<Rightarrow> 's" where
  "cpuset_for_each_descendant_pre S root body online s =
     for_each_descendant_pre (ctree S) root
       (\<lambda>pos s. if online pos s then body pos s else (s, Go)) s"

definition css_has_online_children :: "cpuset_sys \<Rightarrow> nat \<Rightarrow> bool" where
  "css_has_online_children S c = list_ex (css_online S) (kids (ctree S) c)"

text \<open>\<open>cgroup_is_populated\<close>: the cgroup or one below it has tasks.\<close>

definition cgroup_is_populated :: "cpuset_sys \<Rightarrow> nat \<Rightarrow> bool" where
  "cgroup_is_populated S c = list_ex (\<lambda>d. css_tasks S d \<noteq> []) (pre_order (ctree S) c)"

subsection \<open>Online CPUs and nodes\<close>

text \<open>The loop up the tree; no parent is left above the top cpuset.\<close>

fun guarantee_online_cpus :: "cpuset_sys \<Rightarrow> nat \<Rightarrow> mask" where
  "guarantee_online_cpus S c =
     (if effective_cpus (cpusets S c) \<inter> cpu_online_mask S = {} then
        case tpar (ctree S) c of
          None \<Rightarrow> cpu_online_mask S
        | Some p \<Rightarrow> if p < c then guarantee_online_cpus S p else cpu_online_mask S
      else effective_cpus (cpusets S c) \<inter> cpu_online_mask S)"

declare guarantee_online_cpus.simps [simp del]

text \<open>This loop does not look for the end: above the top cpuset it follows a null pointer, \<open>None\<close>.\<close>

fun guarantee_online_mems :: "cpuset_sys \<Rightarrow> nat \<Rightarrow> mask option" where
  "guarantee_online_mems S c =
     (if effective_mems (cpusets S c) \<inter> n_memory S = {} then
        case tpar (ctree S) c of
          None \<Rightarrow> None
        | Some p \<Rightarrow> if p < c then guarantee_online_mems S p else None
      else Some (effective_mems (cpusets S c) \<inter> n_memory S))"

declare guarantee_online_mems.simps [simp del]

subsection \<open>The rules\<close>

definition is_cpuset_subset :: "cpuset \<Rightarrow> cpuset \<Rightarrow> bool" where
  "is_cpuset_subset p q \<longleftrightarrow> cpus_allowed p \<subseteq> cpus_allowed q \<and> mems_allowed p \<subseteq> mems_allowed q
     \<and> is_cpu_exclusive p \<le> is_cpu_exclusive q \<and> is_mem_exclusive p \<le> is_mem_exclusive q"

text \<open>A sibling that the trial cpuset may not overlap.\<close>

definition exclusive_clash :: "cpuset \<Rightarrow> cpuset \<Rightarrow> bool" where
  "exclusive_clash trial c \<longleftrightarrow>
     (is_cpu_exclusive trial \<or> is_cpu_exclusive c) \<and> cpus_allowed trial \<inter> cpus_allowed c \<noteq> {}
     \<or> (is_mem_exclusive trial \<or> is_mem_exclusive c) \<and> mems_allowed trial \<inter> mems_allowed c \<noteq> {}"

definition validate_change :: "kernel \<Rightarrow> cpuset_sys \<Rightarrow> nat \<Rightarrow> cpuset \<Rightarrow> int" where
  "validate_change K S cur trial =
     (let this = cpusets S cur; par = parent_cs S cur in
      if \<exists>c \<in> set (cpuset_children S cur). \<not> is_cpuset_subset (cpusets S c) trial then - C_EBUSY
      else if cur = top_cpuset then 0
      else if \<not> is_in_v2_mode S \<and> \<not> is_cpuset_subset trial (cpusets S par) then - C_EACCES
      else if \<exists>c \<in> set (cpuset_children S par). c \<noteq> cur \<and> exclusive_clash trial (cpusets S c) then - EINVAL
      else if (cgroup_is_populated S cur \<or> attach_in_progress this \<noteq> 0)
           \<and> (cpus_allowed this \<noteq> {} \<and> cpus_allowed trial = {}
              \<or> mems_allowed this \<noteq> {} \<and> mems_allowed trial = {}) then - C_ENOSPC
      else if is_cpu_exclusive this
           \<and> \<not> cpumask_can_shrink K (cpus_allowed this) (cpus_allowed trial) then - C_EBUSY
      else 0)"

text \<open>\<open>kmemdup\<close> copies the structure; the masks of CPUs are new, and \<open>subparts_cpus\<close> is not copied.
  \<open>ok\<close> tells whether the allocations succeed.\<close>

definition alloc_trial_cpuset :: "bool \<Rightarrow> cpuset \<Rightarrow> cpuset option" where
  "alloc_trial_cpuset ok c = (if ok then Some (c\<lparr>subparts_cpus := {}\<rparr>) else None)"

subsection \<open>The tasks of a cpuset\<close>

definition update_tasks_cpumask :: "nat \<Rightarrow> cpuset_sys \<Rightarrow> cpuset_sys" where
  "update_tasks_cpumask c S =
     fold (\<lambda>task S. kernel_call (set_cpus_allowed_ptr task (effective_cpus (cpusets S c))) S)
       (css_tasks S c) S"

definition cpuset_change_task_nodemask :: "nat \<Rightarrow> mask \<Rightarrow> cpuset_sys \<Rightarrow> cpuset_sys" where
  "cpuset_change_task_nodemask tsk newmems S =
     (let S = S\<lparr>task_mems := (task_mems S)(tsk := task_mems S tsk \<union> newmems)\<rparr>;
          S = kernel_call (mpol_rebind_task tsk newmems) S
      in S\<lparr>task_mems := (task_mems S)(tsk := newmems)\<rparr>)"

text \<open>Pages are migrated by a work queue; \<open>ok\<close> tells whether the work can be allocated.\<close>

definition cpuset_migrate_mm :: "bool \<Rightarrow> nat \<Rightarrow> mask \<Rightarrow> mask \<Rightarrow> cpuset_sys \<Rightarrow> cpuset_sys" where
  "cpuset_migrate_mm ok task from to S = (if ok then kernel_call (migrate_mm task from to) S else S)"

definition update_tasks_nodemask :: "kernel \<Rightarrow> nat \<Rightarrow> cpuset_sys \<Rightarrow> cpuset_sys" where
  "update_tasks_nodemask K c S =
     (case guarantee_online_mems S c of
        None \<Rightarrow> S\<lparr>crashed := True\<rparr>
      | Some newmems \<Rightarrow>
          let S = fold (\<lambda>task S.
                let S = cpuset_change_task_nodemask task newmems S in
                if \<not> has_mm K task then S
                else
                  let S = kernel_call (mpol_rebind_mm task (mems_allowed (cpusets S c))) S in
                  if is_memory_migrate (cpusets S c)
                  then cpuset_migrate_mm (alloc_work K task) task (old_mems_allowed (cpusets S c)) newmems S
                  else S) (css_tasks S c) S
          in upd_cs c (\<lambda>x. x\<lparr>old_mems_allowed := newmems\<rparr>) S)"

definition cpuset_update_task_spread_flag :: "nat \<Rightarrow> nat \<Rightarrow> cpuset_sys \<Rightarrow> cpuset_sys" where
  "cpuset_update_task_spread_flag c tsk S =
     kernel_call (task_set_spread_slab tsk (is_spread_slab (cpusets S c)))
       (kernel_call (task_set_spread_page tsk (is_spread_page (cpusets S c))) S)"

definition update_tasks_flags :: "nat \<Rightarrow> cpuset_sys \<Rightarrow> cpuset_sys" where
  "update_tasks_flags c S = fold (cpuset_update_task_spread_flag c) (css_tasks S c) S"

end
