(* ===== verification/SchedDomains.thy ===== *)
theory SchedDomains
  imports Cpuset
begin

section \<open>Scheduling domains\<close>

text \<open>
  \<open>generate_sched_domains\<close> of \<open>cgroup/cpuset.c\<close> and its callers: the load-balanced cpusets are
  collected, those that overlap get the same partition number, and every partition becomes one
  domain for the scheduler.  The attributes of a domain are its relax level, -1 at first.
\<close>

definition cpusets_overlap :: "cpuset \<Rightarrow> cpuset \<Rightarrow> bool" where
  "cpusets_overlap a b = (effective_cpus a \<inter> effective_cpus b \<noteq> {})"

definition update_domain_attr :: "int \<Rightarrow> cpuset \<Rightarrow> int" where
  "update_domain_attr level c = (if level < relax_domain_level c then relax_domain_level c else level)"

definition attr_turn :: "cpuset_sys \<Rightarrow> nat \<Rightarrow> int \<Rightarrow> int \<times> action" where
  "attr_turn S cp level =
     (if cpus_allowed (cpusets S cp) = {} then (level, Skip)
      else if is_sched_load_balance (cpusets S cp) then (update_domain_attr level (cpusets S cp), Go)
      else (level, Go))"

definition update_domain_attr_tree :: "cpuset_sys \<Rightarrow> int \<Rightarrow> nat \<Rightarrow> int" where
  "update_domain_attr_tree S dattr root_cs =
     cpuset_for_each_descendant_pre S root_cs (attr_turn S) (\<lambda>pos _. is_cpuset_online S pos) dattr"

definition SD_ATTR_INIT :: int where "SD_ATTR_INIT = -1"

definition nr_cpusets :: "cpuset_sys \<Rightarrow> nat" where
  "nr_cpusets S = enabled_key S + 1"

subsection \<open>Collecting the cpusets\<close>

definition csa_turn :: "kernel \<Rightarrow> cpuset_sys \<Rightarrow> nat \<Rightarrow> nat list \<Rightarrow> nat list \<times> action" where
  "csa_turn K S cp csa =
     (let c = cpusets S cp; root = cpusets S top_cpuset in
      if cp = top_cpuset then (csa, Go)
      else if cpus_allowed c \<noteq> {}
           \<and> \<not> (is_sched_load_balance c \<and> cpus_allowed c \<inter> housekeeping K \<noteq> {}) then (csa, Go)
      else if is_sched_load_balance root \<and> cpus_allowed c \<subseteq> effective_cpus root then (csa, Go)
      else (if is_sched_load_balance c \<and> effective_cpus c \<noteq> {} then csa @ [cp] else csa,
            if is_partition_root c then Go else Skip))"

definition collect_csa :: "kernel \<Rightarrow> cpuset_sys \<Rightarrow> nat list" where
  "collect_csa K S =
     cpuset_for_each_descendant_pre S top_cpuset (csa_turn K S) (\<lambda>pos _. is_cpuset_online S pos)
       (if is_sched_load_balance (cpusets S top_cpuset) then [top_cpuset] else [])"

subsection \<open>Merging the partitions\<close>

text \<open>The partition numbers \<open>csa[i]->pn\<close> as a function; the cpusets of \<open>csa\<close> are different.\<close>

type_synonym pnums = "nat \<Rightarrow> int"

definition number_csa :: "nat list \<Rightarrow> pnums \<Rightarrow> pnums" where
  "number_csa csa p = fold (\<lambda>i p. p(csa ! i := int i)) [0..<length csa] p"

text \<open>The loops over \<open>i\<close> and \<open>j\<close>: the numbers of the first pair that overlaps.\<close>

definition find_overlap :: "cpuset_sys \<Rightarrow> nat list \<Rightarrow> pnums \<Rightarrow> (int \<times> int) option" where
  "find_overlap S csa p =
     map_option (\<lambda>(a, b). (p a, p b))
       (find (\<lambda>(a, b). p a \<noteq> p b \<and> cpusets_overlap (cpusets S a) (cpusets S b)) (List.product csa csa))"

text \<open>The loop over \<open>k\<close>.\<close>

definition renumber :: "nat list \<Rightarrow> int \<Rightarrow> int \<Rightarrow> pnums \<Rightarrow> pnums" where
  "renumber csa apn bpn p = fold (\<lambda>c p. if p c = bpn then p(c := apn) else p) csa p"

lemma renumber_apply: "apn \<noteq> bpn \<Longrightarrow>
  renumber csa apn bpn p c = (if c \<in> set csa \<and> p c = bpn then apn else p c)"
  unfolding renumber_def by (induction csa arbitrary: p) auto

lemma find_SomeD: "find P xs = Some x \<Longrightarrow> x \<in> set xs \<and> P x"
  by (induction xs) (auto split: if_splits)

lemma find_overlapD:
  assumes "find_overlap S csa p = Some (apn, bpn)"
  shows "\<exists>a \<in> set csa. \<exists>b \<in> set csa. p a = apn \<and> p b = bpn \<and> apn \<noteq> bpn
    \<and> cpusets_overlap (cpusets S a) (cpusets S b)"
  using assms by (clarsimp simp: find_overlap_def dest!: find_SomeD) blast

lemma renumber_image:
  assumes "a \<in> set csa" and "b \<in> set csa" and "p a \<noteq> p b"
  shows "renumber csa (p a) (p b) p ` set csa = p ` set csa - {p b}"
  using assms by (auto simp: renumber_apply image_iff)

text \<open>\<open>restart\<close>: every turn takes one number away, so there is an end.\<close>

function merge_partitions :: "cpuset_sys \<Rightarrow> nat list \<Rightarrow> pnums \<Rightarrow> int \<Rightarrow> pnums \<times> int" where
  "merge_partitions S csa p ndoms =
     (case find_overlap S csa p of
        None \<Rightarrow> (p, ndoms)
      | Some (apn, bpn) \<Rightarrow> merge_partitions S csa (renumber csa apn bpn p) (ndoms - 1))"
  by pat_completeness auto
termination
proof (relation "measure (\<lambda>(S, csa, p, ndoms). card (p ` set csa))")
  fix S csa p ndoms x apn bpn
  assume x: "find_overlap S csa p = Some x" "(apn, bpn) = x"
  then obtain a b where "a \<in> set csa" "b \<in> set csa" "p a = apn" "p b = bpn" "apn \<noteq> bpn"
    using find_overlapD by blast
  then have "renumber csa apn bpn p ` set csa \<subset> p ` set csa"
    using renumber_image [of a csa b p] by auto
  then show "((S, csa, renumber csa apn bpn p, ndoms - 1), S, csa, p, ndoms)
      \<in> measure (\<lambda>(S, csa, p, ndoms). card (p ` set csa))"
    by (simp add: psubset_card_mono)
qed simp

declare merge_partitions.simps [simp del]

subsection \<open>The domains\<close>

text \<open>The loop over \<open>j\<close> that fills one slot.\<close>

definition fill_slot :: "kernel \<Rightarrow> cpuset_sys \<Rightarrow> nat list \<Rightarrow> int \<Rightarrow> pnums \<Rightarrow> mask \<times> int \<times> pnums" where
  "fill_slot K S bs apn p =
     fold (\<lambda>b (dp, dattr, p).
         if p b = apn
         then ((dp \<union> effective_cpus (cpusets S b)) \<inter> housekeeping K,
               update_domain_attr_tree S dattr b, p(b := -1))
         else (dp, dattr, p)) bs ({}, SD_ATTR_INIT, p)"

text \<open>The loop over \<open>i\<close>; the slots filled so far are \<open>doms\<close>, so \<open>nslot\<close> is their number.\<close>

fun convert :: "kernel \<Rightarrow> cpuset_sys \<Rightarrow> nat list \<Rightarrow> int \<Rightarrow> pnums \<Rightarrow> mask list \<Rightarrow> int list
    \<Rightarrow> mask list \<times> int list \<times> pnums" where
  "convert K S [] ndoms p doms dattr = (doms, dattr, p)"
| "convert K S (a # as) ndoms p doms dattr =
     (if p a < 0 then convert K S as ndoms p doms dattr
      else if int (length doms) = ndoms then convert K S as ndoms p doms dattr
      else let (dp, att, p') = fill_slot K S (a # as) (p a) p
           in convert K S as ndoms p' (doms @ [dp]) (dattr @ [att]))"

definition set_pns :: "nat list \<Rightarrow> pnums \<Rightarrow> cpuset_sys \<Rightarrow> cpuset_sys" where
  "set_pns csa p S = fold (\<lambda>c. upd_cs c (\<lambda>x. x\<lparr>pn := p c\<rparr>)) csa S"

definition generate_sched_domains ::
    "kernel \<Rightarrow> cpuset_sys \<Rightarrow> (int \<times> mask list option \<times> int list option) \<times> cpuset_sys" where
  "generate_sched_domains K S =
     (let top = cpusets S top_cpuset in
      if is_sched_load_balance top \<and> nr_subparts_cpus top = 0 then
        if \<not> alloc_doms K then ((1, None, None), S)
        else ((1, Some [effective_cpus top \<inter> housekeeping K],
               if alloc_dattr K then Some [update_domain_attr_tree S SD_ATTR_INIT top_cpuset] else None), S)
      else if \<not> alloc_csa K then ((1, None, None), S)
      else
        let csa = collect_csa K S;
            p = number_csa csa (\<lambda>c. pn (cpusets S c));
            (p, ndoms) = merge_partitions S csa p (int (length csa))
        in if \<not> alloc_doms K then ((1, None, None), set_pns csa p S)
           else
             let (doms, dattr, p) = convert K S csa ndoms p [] [];
                 S = set_pns csa p S
             in if int (length doms) \<noteq> ndoms then ((ndoms, Some doms, None), S\<lparr>crashed := True\<rparr>)
                else ((ndoms, Some doms, if alloc_dattr K then Some dattr else None), S))"

subsection \<open>Rebuilding\<close>

definition update_tasks_root_domain :: "nat \<Rightarrow> cpuset_sys \<Rightarrow> cpuset_sys" where
  "update_tasks_root_domain c S = fold (\<lambda>task. kernel_call (dl_add_task_root_domain task)) (css_tasks S c) S"

definition rebuild_root_domains :: "cpuset_sys \<Rightarrow> cpuset_sys" where
  "rebuild_root_domains S =
     cpuset_for_each_descendant_pre S top_cpuset
       (\<lambda>c S. if effective_cpus (cpusets S c) = {} then (S, Skip) else (update_tasks_root_domain c S, Go))
       (\<lambda>pos S. is_cpuset_online S pos) (kernel_call dl_clear_root_domain S)"

definition partition_and_rebuild_sched_domains ::
    "int \<Rightarrow> mask list option \<Rightarrow> int list option \<Rightarrow> cpuset_sys \<Rightarrow> cpuset_sys" where
  "partition_and_rebuild_sched_domains ndoms_new doms_new dattr_new S =
     rebuild_root_domains (kernel_call (partition_sched_domains ndoms_new doms_new dattr_new) S)"

text \<open>Does a partition root have a CPU that is no longer active?\<close>

definition raced_with_hotplug :: "cpuset_sys \<Rightarrow> bool" where
  "raced_with_hotplug S =
     cpuset_for_each_descendant_pre S top_cpuset
       (\<lambda>c r. if \<not> is_partition_root (cpusets S c) then (r, Skip)
              else if \<not> effective_cpus (cpusets S c) \<subseteq> cpu_active_mask S then (True, Stop)
              else (r, Go))
       (\<lambda>pos _. is_cpuset_online S pos) False"

definition rebuild_sched_domains_locked :: "kernel \<Rightarrow> cpuset_sys \<Rightarrow> cpuset_sys" where
  "rebuild_sched_domains_locked K S =
     (let top = cpusets S top_cpuset in
      if nr_subparts_cpus top = 0 \<and> effective_cpus top \<noteq> cpu_active_mask S then S
      else if nr_subparts_cpus top \<noteq> 0 \<and> raced_with_hotplug S then S
      else let ((ndoms, doms, attr), S) = generate_sched_domains K S
           in partition_and_rebuild_sched_domains ndoms doms attr S)"

end
