(* ===== verification/CpusetMasks.thy ===== *)
theory CpusetMasks
  imports SchedDomains
begin

section \<open>Changing the masks of cpusets\<close>

text \<open>
  The writers of \<open>cgroup/cpuset.c\<close>: the CPUs a partition root takes from its parent, the effective
  masks of a subtree, and the handlers of \<open>cpuset.cpus\<close> and \<open>cpuset.mems\<close>.
\<close>

definition compute_effective_cpumask :: "cpuset_sys \<Rightarrow> nat \<Rightarrow> nat \<Rightarrow> mask" where
  "compute_effective_cpumask S c parent =
     (let par = cpusets S parent in
      if nr_subparts_cpus par \<noteq> 0
      then (effective_cpus par \<union> subparts_cpus par) \<inter> cpus_allowed (cpusets S c) \<inter> cpu_active_mask S
      else cpus_allowed (cpusets S c) \<inter> effective_cpus par)"

subsection \<open>Partitions\<close>

datatype subparts_cmd = partcmd_enable | partcmd_disable | partcmd_update

text \<open>The masks \<open>addmask\<close> and \<open>delmask\<close> and the flag \<open>part_error\<close>; a mask that is not moved is empty.
  \<open>None\<close> stands for \<open>-EINVAL\<close>.\<close>

definition subparts_masks ::
    "subparts_cmd \<Rightarrow> mask option \<Rightarrow> cpuset \<Rightarrow> cpuset \<Rightarrow> mask \<Rightarrow> (mask \<times> mask \<times> bool) option" where
  "subparts_masks cmd newmask this par active =
     (case cmd of
        partcmd_enable \<Rightarrow> Some (cpus_allowed this, {}, False)
      | partcmd_disable \<Rightarrow> Some ({}, cpus_allowed this \<inter> subparts_cpus par, False)
      | partcmd_update \<Rightarrow>
          (case newmask of
             Some new \<Rightarrow>
               let delmask = (cpus_allowed this - new) \<inter> subparts_cpus par;
                   addmask = new \<inter> effective_cpus par - subparts_cpus par
               in if addmask \<noteq> {} \<and> effective_cpus par = addmask then
                    if delmask = {} then None
                    else if delmask \<inter> active = {} then None
                    else Some (effective_cpus par, delmask, False)
                  else Some (addmask, delmask, False)
           | None \<Rightarrow>
               let addmask = cpus_allowed this \<inter> effective_cpus par
               in Some (addmask, {}, addmask = effective_cpus par)))"

text \<open>The transition between a valid and an invalid partition root.\<close>

definition prs_transition :: "bool \<Rightarrow> int \<Rightarrow> int" where
  "prs_transition part_error prs =
     (if prs = PRS_ENABLED then if part_error then PRS_ERROR else prs
      else if prs = PRS_ERROR then if \<not> part_error then PRS_ENABLED else prs
      else prs)"

definition move_cpus :: "mask \<Rightarrow> mask \<Rightarrow> mask \<Rightarrow> cpuset \<Rightarrow> cpuset" where
  "move_cpus addmask delmask active par =
     (let par = (if addmask \<noteq> {}
                 then par\<lparr>subparts_cpus := subparts_cpus par \<union> addmask,
                          effective_cpus := effective_cpus par - addmask\<rparr> else par);
          par = (if delmask \<noteq> {}
                 then par\<lparr>subparts_cpus := subparts_cpus par - delmask,
                          effective_cpus := effective_cpus par \<union> (delmask \<inter> active)\<rparr> else par)
      in par\<lparr>nr_subparts_cpus := card (subparts_cpus par)\<rparr>)"

definition update_parent_subparts_cpumask ::
    "nat \<Rightarrow> subparts_cmd \<Rightarrow> mask option \<Rightarrow> cpuset_sys \<Rightarrow> int \<times> cpuset_sys" where
  "update_parent_subparts_cpumask c cmd newmask S =
     (let parent = parent_cs S c; this = cpusets S c; par = cpusets S parent in
      if \<not> is_partition_root par
         \<or> (case newmask of Some new \<Rightarrow> new = {} | None \<Rightarrow> cpus_allowed this = {}) then (- EINVAL, S)
      else if cmd \<noteq> partcmd_update \<and> css_has_online_children S c then (- C_EBUSY, S)
      else if cmd = partcmd_enable
           \<and> (\<not> cpus_allowed this \<subseteq> effective_cpus par \<or> cpus_allowed this = effective_cpus par)
        then (- EINVAL, S)
      else case subparts_masks cmd newmask this par (cpu_active_mask S) of
        None \<Rightarrow> (- EINVAL, S)
      | Some (addmask, delmask, part_error) \<Rightarrow>
          let prev_prs = partition_root_state this;
              S = (if cmd = partcmd_update
                   then upd_cs c (\<lambda>x. x\<lparr>partition_root_state := prs_transition part_error prev_prs\<rparr>) S else S);
              part_error = (if cmd = partcmd_update then prev_prs = PRS_ERROR else part_error);
              prs = partition_root_state (cpusets S c)
          in if \<not> part_error \<and> prs = PRS_ERROR then (0, S)
             else
               let addmask = (if prs = PRS_ERROR then {} else addmask);
                   delmask = (if prs = PRS_ERROR then cpus_allowed this \<inter> subparts_cpus par else delmask)
               in if addmask = {} \<and> delmask = {} then (0, S)
                  else (if cmd = partcmd_update then 1 else 0,
                        upd_cs parent (move_cpus addmask delmask (cpu_active_mask S)) S))"

subsection \<open>Effective CPUs of a subtree\<close>

text \<open>The counting of the children that use the effective CPUs of the parent.\<close>

definition inherit_ecpus :: "nat \<Rightarrow> nat \<Rightarrow> cpuset_sys \<Rightarrow> cpuset_sys" where
  "inherit_ecpus cp parent S =
     (if \<not> use_parent_ecpus (cpusets S cp)
      then upd_cs parent (\<lambda>x. x\<lparr>child_ecpus_count := child_ecpus_count x + 1\<rparr>)
             (upd_cs cp (\<lambda>x. x\<lparr>use_parent_ecpus := True\<rparr>) S)
      else S)"

definition disinherit_ecpus :: "nat \<Rightarrow> nat \<Rightarrow> cpuset_sys \<Rightarrow> cpuset_sys" where
  "disinherit_ecpus cp parent S =
     (if use_parent_ecpus (cpusets S cp)
      then upd_cs parent (\<lambda>x. x\<lparr>child_ecpus_count := child_ecpus_count x - 1\<rparr>)
             (upd_cs cp (\<lambda>x. x\<lparr>use_parent_ecpus := False\<rparr>) S)
      else S)"

text \<open>The \<open>switch\<close> over the state of the parent, for a partition root below the changed cpuset.\<close>

definition follow_parent :: "nat \<Rightarrow> nat \<Rightarrow> cpuset_sys \<Rightarrow> cpuset_sys" where
  "follow_parent cp parent S =
     (let prs = partition_root_state (cpusets S parent) in
      if prs = PRS_DISABLED then
        upd_cs cp (\<lambda>x. x\<lparr>partition_root_state := 0, flags := flags x - {CS_CPU_EXCLUSIVE}\<rparr>) S
      else if prs = PRS_ENABLED then
        let (r, S) = update_parent_subparts_cpumask cp partcmd_update None S
        in if r \<noteq> 0 then update_tasks_cpumask parent S else S
      else if prs = PRS_ERROR then
        upd_cs cp (\<lambda>x. if nr_subparts_cpus x \<noteq> 0
          then x\<lparr>partition_root_state := PRS_ERROR, nr_subparts_cpus := 0, subparts_cpus := {}\<rparr>
          else x\<lparr>partition_root_state := PRS_ERROR\<rparr>) S
      else S)"

text \<open>The new effective CPUs, with the CPUs of the child partitions kept apart from them.\<close>

definition set_effective :: "mask \<Rightarrow> cpuset \<Rightarrow> cpuset" where
  "set_effective new_cpus x =
     (let x = x\<lparr>effective_cpus := new_cpus\<rparr> in
      if nr_subparts_cpus x \<noteq> 0 \<and> partition_root_state x \<noteq> PRS_ENABLED
      then x\<lparr>nr_subparts_cpus := 0, subparts_cpus := {}\<rparr>
      else if nr_subparts_cpus x \<noteq> 0 then
        let x = x\<lparr>effective_cpus := effective_cpus x - subparts_cpus x\<rparr> in
        if effective_cpus x = {}
        then x\<lparr>effective_cpus := new_cpus, subparts_cpus := {}, nr_subparts_cpus := 0\<rparr>
        else if \<not> subparts_cpus x \<subseteq> new_cpus
        then x\<lparr>subparts_cpus := subparts_cpus x - new_cpus,
               nr_subparts_cpus := card (subparts_cpus x - new_cpus)\<rparr>
        else x
      else x)"

definition hier_turn :: "nat \<Rightarrow> nat \<Rightarrow> cpuset_sys \<times> bool \<Rightarrow> (cpuset_sys \<times> bool) \<times> action" where
  "hier_turn cs cp = (\<lambda>(S, need_rebuild).
     let parent = parent_cs S cp;
         new_cpus = compute_effective_cpumask S cp parent;
         inherits = is_in_v2_mode S \<and> new_cpus = {};
         new_cpus = (if inherits then effective_cpus (cpusets S parent) else new_cpus);
         S = (if inherits then inherit_ecpus cp parent S else disinherit_ecpus cp parent S)
     in if partition_root_state (cpusets S cp) = 0 \<and> new_cpus = effective_cpus (cpusets S cp)
        then ((S, need_rebuild), Skip)
        else
          let S = (if cp \<noteq> cs \<and> partition_root_state (cpusets S cp) \<noteq> 0
                   then follow_parent cp parent S else S)
          in if css_dying S cp then ((S, need_rebuild), Go)
             else
               let S = update_tasks_cpumask cp (upd_cs cp (set_effective new_cpus) S);
                   c = cpusets S cp
               in ((S, need_rebuild \<or> cpus_allowed c \<noteq> {} \<and> is_sched_load_balance c
                      \<and> (\<not> on_dfl S \<or> is_partition_root c)), Go))"

definition update_cpumasks_hier :: "kernel \<Rightarrow> nat \<Rightarrow> cpuset_sys \<Rightarrow> cpuset_sys" where
  "update_cpumasks_hier K cs S =
     (let (S, need_rebuild) = cpuset_for_each_descendant_pre S cs (hier_turn cs)
            (\<lambda>pos (S, _). is_cpuset_online S pos) (S, False)
      in if need_rebuild then rebuild_sched_domains_locked K S else S)"

definition update_sibling_cpumasks :: "kernel \<Rightarrow> nat \<Rightarrow> nat \<Rightarrow> cpuset_sys \<Rightarrow> cpuset_sys" where
  "update_sibling_cpumasks K parent cs S =
     fold (\<lambda>sibling S.
         if \<not> is_cpuset_online S sibling then S
         else if sibling = cs then S
         else if \<not> use_parent_ecpus (cpusets S sibling) then S
         else update_cpumasks_hier K sibling S) (kids (ctree S) parent) S"

subsection \<open>Writing \<open>cpuset.cpus\<close>\<close>

definition set_cpus_allowed :: "mask \<Rightarrow> cpuset \<Rightarrow> cpuset" where
  "set_cpus_allowed new x =
     (let x = x\<lparr>cpus_allowed := new\<rparr> in
      if nr_subparts_cpus x \<noteq> 0
      then x\<lparr>subparts_cpus := subparts_cpus x - cpus_allowed x,
             nr_subparts_cpus := card (subparts_cpus x - cpus_allowed x)\<rparr>
      else x)"

definition update_cpumask :: "kernel \<Rightarrow> nat \<Rightarrow> cpuset \<Rightarrow> string \<Rightarrow> cpuset_sys \<Rightarrow> int \<times> cpuset_sys" where
  "update_cpumask K cs trialcs buf S =
     (if cs = top_cpuset then (- C_EACCES, S)
      else case (if buf = [] then Inr {} else cpulist_parse K buf) of
        Inl retval \<Rightarrow> (retval, S)
      | Inr new \<Rightarrow>
          if buf \<noteq> [] \<and> \<not> new \<subseteq> cpus_allowed (cpusets S top_cpuset) then (- EINVAL, S)
          else if cpus_allowed (cpusets S cs) = new then (0, S)
          else
            let retval = validate_change K S cs (trialcs\<lparr>cpus_allowed := new\<rparr>) in
            if retval < 0 then (retval, S)
            else if partition_root_state (cpusets S cs) \<noteq> 0 \<and> new = {} then (- EINVAL, S)
            else
              let (r, S) = (if partition_root_state (cpusets S cs) \<noteq> 0
                            then update_parent_subparts_cpumask cs partcmd_update (Some new) S else (0, S))
              in if r < 0 then (- EINVAL, S)
                 else
                   let S = update_cpumasks_hier K cs (upd_cs cs (set_cpus_allowed new) S);
                       parent = parent_cs S cs
                   in (0, if partition_root_state (cpusets S cs) \<noteq> 0
                            \<and> child_ecpus_count (cpusets S parent) \<noteq> 0
                          then update_sibling_cpumasks K parent cs S else S))"

subsection \<open>Writing \<open>cpuset.mems\<close>\<close>

definition nodemask_turn :: "kernel \<Rightarrow> nat \<Rightarrow> cpuset_sys \<Rightarrow> cpuset_sys \<times> action" where
  "nodemask_turn K cp S =
     (let parent = parent_cs S cp;
          new_mems = mems_allowed (cpusets S cp) \<inter> effective_mems (cpusets S parent);
          new_mems = (if is_in_v2_mode S \<and> new_mems = {} then effective_mems (cpusets S parent) else new_mems)
      in if new_mems = effective_mems (cpusets S cp) then (S, Skip)
         else if css_dying S cp then (S, Go)
         else (update_tasks_nodemask K cp (upd_cs cp (\<lambda>x. x\<lparr>effective_mems := new_mems\<rparr>) S), Go))"

definition update_nodemasks_hier :: "kernel \<Rightarrow> nat \<Rightarrow> cpuset_sys \<Rightarrow> cpuset_sys" where
  "update_nodemasks_hier K cs S =
     cpuset_for_each_descendant_pre S cs (nodemask_turn K) (\<lambda>pos S. is_cpuset_online S pos) S"

definition update_nodemask :: "kernel \<Rightarrow> nat \<Rightarrow> cpuset \<Rightarrow> string \<Rightarrow> cpuset_sys \<Rightarrow> int \<times> cpuset_sys" where
  "update_nodemask K cs trialcs buf S =
     (if cs = top_cpuset then (- C_EACCES, S)
      else case (if buf = [] then Inr {} else nodelist_parse K buf) of
        Inl retval \<Rightarrow> (retval, S)
      | Inr new \<Rightarrow>
          if buf \<noteq> [] \<and> \<not> new \<subseteq> mems_allowed (cpusets S top_cpuset) then (- EINVAL, S)
          else if mems_allowed (cpusets S cs) = new then (0, S)
          else
            let retval = validate_change K S cs (trialcs\<lparr>mems_allowed := new\<rparr>) in
            if retval < 0 then (retval, S)
            else (retval, update_nodemasks_hier K cs (upd_cs cs (\<lambda>x. x\<lparr>mems_allowed := new\<rparr>) S)))"

end
