(* ===== verification/CpusetFiles.thy ===== *)
theory CpusetFiles
  imports CpusetMasks
begin

section \<open>The files of a cpuset\<close>

text \<open>
  Flags, partition state and the handlers of the interface files of \<open>cgroup/cpuset.c\<close>.  A
  \<open>u64\<close> that is passed on as an \<open>int\<close> is cut to 32 bits.
\<close>

definition update_relax_domain_level :: "kernel \<Rightarrow> nat \<Rightarrow> int \<Rightarrow> cpuset_sys \<Rightarrow> int \<times> cpuset_sys" where
  "update_relax_domain_level K cs val S =
     (if val < -1 \<or> sched_domain_level_max K \<le> val then (- EINVAL, S)
      else if val \<noteq> relax_domain_level (cpusets S cs) then
        let S = upd_cs cs (\<lambda>x. x\<lparr>relax_domain_level := val\<rparr>) S in
        (0, if cpus_allowed (cpusets S cs) \<noteq> {} \<and> is_sched_load_balance (cpusets S cs)
            then rebuild_sched_domains_locked K S else S)
      else (0, S))"

text \<open>\<open>ok\<close> tells whether the trial cpuset can be allocated.\<close>

definition update_flag ::
    "kernel \<Rightarrow> bool \<Rightarrow> cpuset_flagbits \<Rightarrow> nat \<Rightarrow> int \<Rightarrow> cpuset_sys \<Rightarrow> int \<times> cpuset_sys" where
  "update_flag K ok b cs turning_on S =
     (case alloc_trial_cpuset ok (cpusets S cs) of
        None \<Rightarrow> (- ENOMEM, S)
      | Some trialcs \<Rightarrow>
          let trialcs = (if turning_on \<noteq> 0 then trialcs\<lparr>flags := flags trialcs \<union> {b}\<rparr>
                         else trialcs\<lparr>flags := flags trialcs - {b}\<rparr>);
              err = validate_change K S cs trialcs
          in if err < 0 then (err, S)
             else
               let old = cpusets S cs;
                   balance_flag_changed = (is_sched_load_balance old \<noteq> is_sched_load_balance trialcs);
                   spread_flag_changed = (is_spread_slab old \<noteq> is_spread_slab trialcs
                     \<or> is_spread_page old \<noteq> is_spread_page trialcs);
                   S = upd_cs cs (\<lambda>x. x\<lparr>flags := flags trialcs\<rparr>) S;
                   S = (if cpus_allowed trialcs \<noteq> {} \<and> balance_flag_changed
                        then rebuild_sched_domains_locked K S else S);
                   S = (if spread_flag_changed then update_tasks_flags cs S else S)
               in (err, S))"

text \<open>\<open>ok\<close> and \<open>ok'\<close> are the allocations of the first and of the second call of \<open>update_flag\<close>.\<close>

definition partition_on :: "kernel \<Rightarrow> bool \<Rightarrow> bool \<Rightarrow> nat \<Rightarrow> cpuset_sys \<Rightarrow> int \<times> cpuset_sys" where
  "partition_on K ok ok' cs S =
     (if cpus_allowed (cpusets S cs) = {} then (- EINVAL, S)
      else
        let (err, S) = update_flag K ok CS_CPU_EXCLUSIVE cs 1 S in
        if err \<noteq> 0 then (err, S)
        else
          let (err, S) = update_parent_subparts_cpumask cs partcmd_enable None S in
          if err \<noteq> 0 then (err, snd (update_flag K ok' CS_CPU_EXCLUSIVE cs 0 S))
          else (0, upd_cs cs (\<lambda>x. x\<lparr>partition_root_state := PRS_ENABLED\<rparr>) S))"

definition partition_off :: "kernel \<Rightarrow> bool \<Rightarrow> nat \<Rightarrow> cpuset_sys \<Rightarrow> int \<times> cpuset_sys" where
  "partition_off K ok cs S =
     (let (err, S) = update_parent_subparts_cpumask cs partcmd_disable None S in
      if err \<noteq> 0 then (err, S)
      else (0, snd (update_flag K ok CS_CPU_EXCLUSIVE cs 0
                 (upd_cs cs (\<lambda>x. x\<lparr>partition_root_state := 0\<rparr>) S))))"

definition update_prstate :: "kernel \<Rightarrow> bool \<Rightarrow> bool \<Rightarrow> nat \<Rightarrow> int \<Rightarrow> cpuset_sys \<Rightarrow> int \<times> cpuset_sys" where
  "update_prstate K ok ok' cs val S =
     (let parent = parent_cs S cs; prs = partition_root_state (cpusets S cs) in
      if val \<noteq> 0 \<and> val \<noteq> 1 then (- EINVAL, S)
      else if val = prs then (0, S)
      else if val \<noteq> 0 \<and> prs \<noteq> 0 then (- EINVAL, S)
      else if \<not> alloc_tmpmasks K then (- ENOMEM, S)
      else if prs = PRS_ERROR then
        (0, snd (update_flag K ok CS_CPU_EXCLUSIVE cs 0
              (upd_cs cs (\<lambda>x. x\<lparr>partition_root_state := 0\<rparr>) S)))
      else
        let (err, S) = (if prs = 0 then partition_on K ok ok' cs S else partition_off K ok cs S) in
        if err \<noteq> 0 then (err, S)
        else
          let S = (if parent \<noteq> top_cpuset then update_tasks_cpumask parent S else S);
              S = (if child_ecpus_count (cpusets S parent) \<noteq> 0
                   then update_sibling_cpumasks K parent cs S else S)
          in (0, rebuild_sched_domains_locked K S))"

subsection \<open>Handlers\<close>

datatype cpuset_filetype =
  FILE_MEMORY_MIGRATE | FILE_CPULIST | FILE_MEMLIST | FILE_EFFECTIVE_CPULIST | FILE_EFFECTIVE_MEMLIST
  | FILE_SUBPARTS_CPULIST | FILE_CPU_EXCLUSIVE | FILE_MEM_EXCLUSIVE | FILE_MEM_HARDWALL
  | FILE_SCHED_LOAD_BALANCE | FILE_PARTITION_ROOT | FILE_SCHED_RELAX_DOMAIN_LEVEL
  | FILE_MEMORY_PRESSURE_ENABLED | FILE_MEMORY_PRESSURE | FILE_SPREAD_PAGE | FILE_SPREAD_SLAB

definition cpuset_write_u64 ::
    "kernel \<Rightarrow> bool \<Rightarrow> nat \<Rightarrow> cpuset_filetype \<Rightarrow> int \<Rightarrow> cpuset_sys \<Rightarrow> int \<times> cpuset_sys" where
  "cpuset_write_u64 K ok cs type val S =
     (if \<not> is_cpuset_online S cs then (- C_ENODEV, S)
      else case type of
        FILE_CPU_EXCLUSIVE \<Rightarrow> update_flag K ok CS_CPU_EXCLUSIVE cs (wrap32 val) S
      | FILE_MEM_EXCLUSIVE \<Rightarrow> update_flag K ok CS_MEM_EXCLUSIVE cs (wrap32 val) S
      | FILE_MEM_HARDWALL \<Rightarrow> update_flag K ok CS_MEM_HARDWALL cs (wrap32 val) S
      | FILE_SCHED_LOAD_BALANCE \<Rightarrow> update_flag K ok CS_SCHED_LOAD_BALANCE cs (wrap32 val) S
      | FILE_MEMORY_MIGRATE \<Rightarrow> update_flag K ok CS_MEMORY_MIGRATE cs (wrap32 val) S
      | FILE_MEMORY_PRESSURE_ENABLED \<Rightarrow> (0, S\<lparr>memory_pressure_enabled := (val \<noteq> 0)\<rparr>)
      | FILE_SPREAD_PAGE \<Rightarrow> update_flag K ok CS_SPREAD_PAGE cs (wrap32 val) S
      | FILE_SPREAD_SLAB \<Rightarrow> update_flag K ok CS_SPREAD_SLAB cs (wrap32 val) S
      | _ \<Rightarrow> (- EINVAL, S))"

definition cpuset_write_s64 ::
    "kernel \<Rightarrow> nat \<Rightarrow> cpuset_filetype \<Rightarrow> int \<Rightarrow> cpuset_sys \<Rightarrow> int \<times> cpuset_sys" where
  "cpuset_write_s64 K cs type val S =
     (if \<not> is_cpuset_online S cs then (- C_ENODEV, S)
      else case type of
        FILE_SCHED_RELAX_DOMAIN_LEVEL \<Rightarrow> update_relax_domain_level K cs val S
      | _ \<Rightarrow> (- EINVAL, S))"

definition cpuset_write_resmask ::
    "kernel \<Rightarrow> bool \<Rightarrow> nat \<Rightarrow> cpuset_filetype \<Rightarrow> string \<Rightarrow> int \<Rightarrow> cpuset_sys \<Rightarrow> int \<times> cpuset_sys" where
  "cpuset_write_resmask K ok cs type buf nbytes S =
     (let buf = strstrip buf;
          (retval, S) =
            (if \<not> is_cpuset_online S cs then (- C_ENODEV, S)
             else case alloc_trial_cpuset ok (cpusets S cs) of
               None \<Rightarrow> (- ENOMEM, S)
             | Some trialcs \<Rightarrow>
                 (case type of
                    FILE_CPULIST \<Rightarrow> update_cpumask K cs trialcs buf S
                  | FILE_MEMLIST \<Rightarrow> update_nodemask K cs trialcs buf S
                  | _ \<Rightarrow> (- EINVAL, S)))
      in (if retval \<noteq> 0 then retval else nbytes, S))"

text \<open>\<open>%*pbl\<close>, the list of ranges, is the library's: the mask itself stands for its text.\<close>

definition cpuset_common_seq_show :: "nat \<Rightarrow> cpuset_filetype \<Rightarrow> cpuset_sys \<Rightarrow> int + mask" where
  "cpuset_common_seq_show cs type S =
     (case type of
        FILE_CPULIST \<Rightarrow> Inr (cpus_allowed (cpusets S cs))
      | FILE_MEMLIST \<Rightarrow> Inr (mems_allowed (cpusets S cs))
      | FILE_EFFECTIVE_CPULIST \<Rightarrow> Inr (effective_cpus (cpusets S cs))
      | FILE_EFFECTIVE_MEMLIST \<Rightarrow> Inr (effective_mems (cpusets S cs))
      | FILE_SUBPARTS_CPULIST \<Rightarrow> Inr (subparts_cpus (cpusets S cs))
      | _ \<Rightarrow> Inl (- EINVAL))"

text \<open>\<open>None\<close> is \<open>BUG()\<close>; \<open>now\<close> is the clock of the frequency meter.\<close>

definition cpuset_read_u64 ::
    "int \<Rightarrow> nat \<Rightarrow> cpuset_filetype \<Rightarrow> cpuset_sys \<Rightarrow> (int \<times> cpuset_sys) option" where
  "cpuset_read_u64 now cs type S =
     (let c = cpusets S cs in
      case type of
        FILE_CPU_EXCLUSIVE \<Rightarrow> Some (of_bool (is_cpu_exclusive c), S)
      | FILE_MEM_EXCLUSIVE \<Rightarrow> Some (of_bool (is_mem_exclusive c), S)
      | FILE_MEM_HARDWALL \<Rightarrow> Some (of_bool (is_mem_hardwall c), S)
      | FILE_SCHED_LOAD_BALANCE \<Rightarrow> Some (of_bool (is_sched_load_balance c), S)
      | FILE_MEMORY_MIGRATE \<Rightarrow> Some (of_bool (is_memory_migrate c), S)
      | FILE_MEMORY_PRESSURE_ENABLED \<Rightarrow> Some (of_bool (memory_pressure_enabled S), S)
      | FILE_MEMORY_PRESSURE \<Rightarrow>
          (let (rate, m) = fmeter_getrate now (meter c) in Some (rate, upd_cs cs (\<lambda>x. x\<lparr>meter := m\<rparr>) S))
      | FILE_SPREAD_PAGE \<Rightarrow> Some (of_bool (is_spread_page c), S)
      | FILE_SPREAD_SLAB \<Rightarrow> Some (of_bool (is_spread_slab c), S)
      | _ \<Rightarrow> None)"

definition cpuset_read_s64 :: "nat \<Rightarrow> cpuset_filetype \<Rightarrow> cpuset_sys \<Rightarrow> int option" where
  "cpuset_read_s64 cs type S =
     (case type of FILE_SCHED_RELAX_DOMAIN_LEVEL \<Rightarrow> Some (relax_domain_level (cpusets S cs)) | _ \<Rightarrow> None)"

definition sched_partition_show :: "nat \<Rightarrow> cpuset_sys \<Rightarrow> string" where
  "sched_partition_show cs S =
     (let prs = partition_root_state (cpusets S cs) in
      if prs = PRS_ENABLED then ''root'' @ [CHR 0x0A]
      else if prs = PRS_DISABLED then ''member'' @ [CHR 0x0A]
      else if prs = PRS_ERROR then ''root invalid'' @ [CHR 0x0A]
      else [])"

definition sched_partition_write ::
    "kernel \<Rightarrow> bool \<Rightarrow> bool \<Rightarrow> nat \<Rightarrow> string \<Rightarrow> int \<Rightarrow> cpuset_sys \<Rightarrow> int \<times> cpuset_sys" where
  "sched_partition_write K ok ok' cs buf nbytes S =
     (let buf = strstrip buf in
      case (if buf = ''root'' then Some PRS_ENABLED
            else if buf = ''member'' then Some PRS_DISABLED else None) of
        None \<Rightarrow> (- EINVAL, S)
      | Some val \<Rightarrow>
          let (retval, S) = (if \<not> is_cpuset_online S cs then (- C_ENODEV, S)
                             else update_prstate K ok ok' cs val S)
          in (if retval \<noteq> 0 then retval else nbytes, S))"

text \<open>\<open>__cpuset_memory_pressure_bump\<close>, for a task of the cpuset.\<close>

definition cpuset_memory_pressure_bump :: "int \<Rightarrow> nat \<Rightarrow> cpuset_sys \<Rightarrow> cpuset_sys" where
  "cpuset_memory_pressure_bump now cs S = upd_cs cs (\<lambda>x. x\<lparr>meter := fmeter_markevent now (meter x)\<rparr>) S"

end
