(* ===== verification/CpusetLife.thy ===== *)
theory CpusetLife
  imports CpusetFiles
begin

section \<open>The life of a cpuset\<close>

text \<open>
  Creation and removal, attaching of tasks, CPU and memory hotplug, and the queries of the memory
  allocator, of \<open>cgroup/cpuset.c\<close>; and \<open>cgroup_transfer_tasks\<close> of \<open>cgroup/cgroup-v1.c\<close>, through
  which hotplug empties a cpuset.
\<close>

subsection \<open>Start-up\<close>

text \<open>The static \<open>top_cpuset\<close> after \<open>cpuset_init\<close>; \<open>all_cpus\<close> and \<open>all_nodes\<close> are the full masks.\<close>

definition cpuset_init :: "mask \<Rightarrow> mask \<Rightarrow> cpuset" where
  "cpuset_init all_cpus all_nodes =
     \<lparr>flags = {CS_ONLINE, CS_CPU_EXCLUSIVE, CS_MEM_EXCLUSIVE, CS_SCHED_LOAD_BALANCE},
      cpus_allowed = all_cpus, mems_allowed = all_nodes, effective_cpus = all_cpus, effective_mems = all_nodes,
      subparts_cpus = {}, old_mems_allowed = {}, meter = fmeter_init, attach_in_progress = 0, pn = 0,
      relax_domain_level = -1, nr_subparts_cpus = 0, partition_root_state = PRS_ENABLED,
      use_parent_ecpus = False, child_ecpus_count = 0\<rparr>"

definition cpuset_init_smp :: "cpuset_sys \<Rightarrow> cpuset_sys" where
  "cpuset_init_smp S =
     upd_cs top_cpuset (\<lambda>x. x\<lparr>cpus_allowed := cpu_active_mask S, mems_allowed := n_memory S,
       old_mems_allowed := n_memory S, effective_cpus := cpu_active_mask S, effective_mems := n_memory S\<rparr>) S"

definition cpuset_bind :: "cpuset_sys \<Rightarrow> cpuset_sys" where
  "cpuset_bind S =
     (if is_in_v2_mode S
      then upd_cs top_cpuset (\<lambda>x. x\<lparr>cpus_allowed := cpu_possible_mask S, mems_allowed := node_possible_map S\<rparr>) S
      else upd_cs top_cpuset (\<lambda>x. x\<lparr>cpus_allowed := effective_cpus x, mems_allowed := effective_mems x\<rparr>) S)"

subsection \<open>Creation and removal\<close>

text \<open>What \<open>kzalloc\<close> and \<open>alloc_cpumasks\<close> give, with the settings of \<open>cpuset_css_alloc\<close>.\<close>

definition new_cpuset :: cpuset where
  "new_cpuset =
     \<lparr>flags = {CS_SCHED_LOAD_BALANCE},
      cpus_allowed = {}, mems_allowed = {}, effective_cpus = {}, effective_mems = {},
      subparts_cpus = {}, old_mems_allowed = {}, meter = fmeter_init, attach_in_progress = 0, pn = 0,
      relax_domain_level = -1, nr_subparts_cpus = 0, partition_root_state = 0,
      use_parent_ecpus = False, child_ecpus_count = 0\<rparr>"

text \<open>The css of the new cpuset is \<open>c\<close>, the next number, linked below its parent by the core.\<close>

definition cpuset_css_alloc :: "bool \<Rightarrow> nat \<Rightarrow> nat option \<Rightarrow> cpuset_sys \<Rightarrow> (int + nat) \<times> cpuset_sys" where
  "cpuset_css_alloc ok c parent_css S =
     (case parent_css of
        None \<Rightarrow> (Inr top_cpuset, S)
      | Some p \<Rightarrow> if ok then (Inr c, upd_cs c (\<lambda>_. new_cpuset) S) else (Inl (- ENOMEM), S))"

text \<open>The core links the new css below its parent before it comes online, and takes it out
  at the end.\<close>

definition link_css :: "nat \<Rightarrow> nat \<Rightarrow> cpuset_sys \<Rightarrow> cpuset_sys" where
  "link_css c p S = S\<lparr>ctree := (ctree S)\<lparr>tpar := (tpar (ctree S))(c \<mapsto> p), tcss := tcss (ctree S) @ [c]\<rparr>,
     css_dying := (css_dying S)(c := False), css_tasks := (css_tasks S)(c := [])\<rparr>"

definition unlink_css :: "nat \<Rightarrow> cpuset_sys \<Rightarrow> cpuset_sys" where
  "unlink_css c S = S\<lparr>ctree := (ctree S)\<lparr>tcss := filter (\<lambda>d. d \<noteq> c) (tcss (ctree S))\<rparr>\<rparr>"

definition cpuset_css_online :: "nat \<Rightarrow> cpuset_sys \<Rightarrow> int \<times> cpuset_sys" where
  "cpuset_css_online cs S =
     (case tpar (ctree S) cs of
        None \<Rightarrow> (0, S)
      | Some parent \<Rightarrow>
          let par = cpusets S parent;
              S = upd_cs cs (\<lambda>x. x\<lparr>flags := flags x \<union> {CS_ONLINE}
                \<union> (if is_spread_page par then {CS_SPREAD_PAGE} else {})
                \<union> (if is_spread_slab par then {CS_SPREAD_SLAB} else {})\<rparr>) S;
              S = S\<lparr>enabled_key := enabled_key S + 1\<rparr>;
              S = (if is_in_v2_mode S
                   then upd_cs parent (\<lambda>x. x\<lparr>child_ecpus_count := child_ecpus_count x + 1\<rparr>)
                     (upd_cs cs (\<lambda>x. x\<lparr>effective_cpus := effective_cpus par,
                        effective_mems := effective_mems par, use_parent_ecpus := True\<rparr>) S)
                   else S)
          in if \<not> clone_children S cs then (0, S)
             else if \<exists>c \<in> set (cpuset_children S parent).
                 is_mem_exclusive (cpusets S c) \<or> is_cpu_exclusive (cpusets S c) then (0, S)
             else (0, upd_cs cs (\<lambda>x. x\<lparr>mems_allowed := mems_allowed par, effective_mems := mems_allowed par,
                    cpus_allowed := cpus_allowed par, effective_cpus := cpus_allowed par\<rparr>) S))"

definition cpuset_css_offline :: "kernel \<Rightarrow> bool \<Rightarrow> bool \<Rightarrow> nat \<Rightarrow> cpuset_sys \<Rightarrow> cpuset_sys" where
  "cpuset_css_offline K ok ok' cs S =
     (let S = (if is_partition_root (cpusets S cs) then snd (update_prstate K ok ok' cs 0 S) else S);
          S = (if \<not> on_dfl S \<and> is_sched_load_balance (cpusets S cs)
               then snd (update_flag K ok CS_SCHED_LOAD_BALANCE cs 0 S) else S);
          S = disinherit_ecpus cs (parent_cs S cs) S;
          S = S\<lparr>enabled_key := enabled_key S - 1\<rparr>
      in upd_cs cs (\<lambda>x. x\<lparr>flags := flags x - {CS_ONLINE}\<rparr>) S)"

subsection \<open>Tasks\<close>

text \<open>The cpuset of a task.\<close>

definition task_cs :: "cpuset_sys \<Rightarrow> nat \<Rightarrow> nat" where
  "task_cs S task = (case find (\<lambda>c. task \<in> set (css_tasks S c)) (tcss (ctree S)) of
     None \<Rightarrow> top_cpuset | Some c \<Rightarrow> c)"

text \<open>The loop over the tasks of the set, up to the first that is not admitted.\<close>

fun may_attach :: "kernel \<Rightarrow> mask \<Rightarrow> nat list \<Rightarrow> int" where
  "may_attach K cpus [] = 0"
| "may_attach K cpus (task # tset) =
     (if task_can_attach K task cpus \<noteq> 0 then task_can_attach K task cpus
      else if security_task_setscheduler K task \<noteq> 0 then security_task_setscheduler K task
      else may_attach K cpus tset)"

definition cpuset_can_attach :: "kernel \<Rightarrow> nat list \<Rightarrow> nat \<Rightarrow> cpuset_sys \<Rightarrow> int \<times> cpuset_sys" where
  "cpuset_can_attach K tset cs S =
     (let S = S\<lparr>attach_old_cs := task_cs S (hd tset)\<rparr>; c = cpusets S cs in
      if \<not> is_in_v2_mode S \<and> (cpus_allowed c = {} \<or> mems_allowed c = {}) then (- C_ENOSPC, S)
      else
        let ret = may_attach K (cpus_allowed c) tset in
        if ret \<noteq> 0 then (ret, S)
        else (0, upd_cs cs (\<lambda>x. x\<lparr>attach_in_progress := attach_in_progress x + 1\<rparr>) S))"

definition cpuset_cancel_attach :: "nat \<Rightarrow> cpuset_sys \<Rightarrow> cpuset_sys" where
  "cpuset_cancel_attach cs S = upd_cs cs (\<lambda>x. x\<lparr>attach_in_progress := attach_in_progress x - 1\<rparr>) S"

definition attach_task :: "nat \<Rightarrow> mask \<Rightarrow> mask \<Rightarrow> nat \<Rightarrow> cpuset_sys \<Rightarrow> cpuset_sys" where
  "attach_task cs cpus_attach nodemask_to task S =
     cpuset_update_task_spread_flag cs task
       (cpuset_change_task_nodemask task nodemask_to
         (kernel_call (set_cpus_allowed_ptr task cpus_attach) S))"

definition attach_leader :: "kernel \<Rightarrow> nat \<Rightarrow> nat \<Rightarrow> cpuset_sys \<Rightarrow> cpuset_sys" where
  "attach_leader K cs leader S =
     (if \<not> has_mm K leader then S
      else
        let nodemask_to = effective_mems (cpusets S cs);
            S = kernel_call (mpol_rebind_mm leader nodemask_to) S
        in if is_memory_migrate (cpusets S cs)
           then cpuset_migrate_mm (alloc_work K leader) leader
                  (old_mems_allowed (cpusets S (attach_old_cs S))) nodemask_to S
           else S)"

definition cpuset_attach :: "kernel \<Rightarrow> nat list \<Rightarrow> nat \<Rightarrow> cpuset_sys \<Rightarrow> cpuset_sys" where
  "cpuset_attach K tset cs S =
     (let cpus_attach = (if cs = top_cpuset then cpu_possible_mask S else guarantee_online_cpus S cs) in
      case guarantee_online_mems S cs of
        None \<Rightarrow> S\<lparr>crashed := True\<rparr>
      | Some nodemask_to \<Rightarrow>
          let S = fold (attach_task cs cpus_attach nodemask_to) tset S;
              S = fold (attach_leader K cs) (filter (thread_leader K) tset) S
          in upd_cs cs (\<lambda>x. x\<lparr>old_mems_allowed := effective_mems x,
               attach_in_progress := attach_in_progress x - 1\<rparr>) S)"

text \<open>\<open>parent\<close> is \<open>current\<close>, the forking task.\<close>

definition cpuset_fork :: "nat \<Rightarrow> nat \<Rightarrow> mask \<Rightarrow> nat \<Rightarrow> cpuset_sys \<Rightarrow> cpuset_sys" where
  "cpuset_fork cs current current_cpus task S =
     (if cs = top_cpuset then S
      else
        let S = kernel_call (set_cpus_allowed_ptr task current_cpus) S
        in S\<lparr>task_mems := (task_mems S)(task := task_mems S current)\<rparr>)"

text \<open>The core moves a task between the two callbacks.\<close>

definition move_task :: "nat \<Rightarrow> nat \<Rightarrow> nat \<Rightarrow> cpuset_sys \<Rightarrow> cpuset_sys" where
  "move_task task from to S =
     S\<lparr>css_tasks := (\<lambda>c. if c = to then css_tasks S to @ [task]
                         else if c = from then removeAll task (css_tasks S from) else css_tasks S c)\<rparr>"

text \<open>The loop of \<open>cgroup_transfer_tasks\<close>: one task after the other until one is refused.\<close>

fun transfer_loop :: "kernel \<Rightarrow> nat \<Rightarrow> nat \<Rightarrow> nat list \<Rightarrow> cpuset_sys \<Rightarrow> int \<times> cpuset_sys" where
  "transfer_loop K to from [] S = (0, S)"
| "transfer_loop K to from (task # tasks) S =
     (if task_exiting K task then transfer_loop K to from tasks S
      else
        let (ret, S) = cpuset_can_attach K [task] to S in
        if ret \<noteq> 0 then (ret, S)
        else transfer_loop K to from tasks (cpuset_attach K [task] to (move_task task from to S)))"

definition cgroup_transfer_tasks :: "kernel \<Rightarrow> nat \<Rightarrow> nat \<Rightarrow> cpuset_sys \<Rightarrow> int \<times> cpuset_sys" where
  "cgroup_transfer_tasks K to from S =
     (if on_dfl S then (- EINVAL, S)
      else if migrate_prepare K \<noteq> 0 then (migrate_prepare K, S)
      else transfer_loop K to from (css_tasks S from) S)"

subsection \<open>Hotplug\<close>

fun nearest_nonempty :: "cpuset_sys \<Rightarrow> nat \<Rightarrow> nat" where
  "nearest_nonempty S c =
     (if cpus_allowed (cpusets S c) = {} \<or> mems_allowed (cpusets S c) = {} then
        case tpar (ctree S) c of None \<Rightarrow> c | Some p \<Rightarrow> if p < c then nearest_nonempty S p else c
      else c)"

declare nearest_nonempty.simps [simp del]

definition remove_tasks_in_empty_cpuset :: "kernel \<Rightarrow> nat \<Rightarrow> cpuset_sys \<Rightarrow> cpuset_sys" where
  "remove_tasks_in_empty_cpuset K cs S =
     (let parent = nearest_nonempty S (parent_cs S cs);
          (ret, S) = cgroup_transfer_tasks K parent cs S
      in if ret \<noteq> 0 then kernel_call (transfer_failed cs) S else S)"

definition hotplug_update_tasks_legacy ::
    "kernel \<Rightarrow> nat \<Rightarrow> mask \<Rightarrow> mask \<Rightarrow> bool \<Rightarrow> bool \<Rightarrow> cpuset_sys \<Rightarrow> cpuset_sys" where
  "hotplug_update_tasks_legacy K cs new_cpus new_mems cpus_updated mems_updated S =
     (let S = upd_cs cs (\<lambda>x. x\<lparr>cpus_allowed := new_cpus, effective_cpus := new_cpus,
            mems_allowed := new_mems, effective_mems := new_mems\<rparr>) S;
          S = (if cpus_updated \<and> new_cpus \<noteq> {} then update_tasks_cpumask cs S else S);
          S = (if mems_updated \<and> new_mems \<noteq> {} then update_tasks_nodemask K cs S else S)
      in if new_cpus = {} \<or> new_mems = {} then remove_tasks_in_empty_cpuset K cs S else S)"

definition hotplug_update_tasks ::
    "kernel \<Rightarrow> nat \<Rightarrow> mask \<Rightarrow> mask \<Rightarrow> bool \<Rightarrow> bool \<Rightarrow> cpuset_sys \<Rightarrow> cpuset_sys" where
  "hotplug_update_tasks K cs new_cpus new_mems cpus_updated mems_updated S =
     (let par = cpusets S (parent_cs S cs);
          new_cpus = (if new_cpus = {} then effective_cpus par else new_cpus);
          new_mems = (if new_mems = {} then effective_mems par else new_mems);
          S = upd_cs cs (\<lambda>x. x\<lparr>effective_cpus := new_cpus, effective_mems := new_mems\<rparr>) S;
          S = (if cpus_updated then update_tasks_cpumask cs S else S)
      in if mems_updated then update_tasks_nodemask K cs S else S)"

definition cpuset_force_rebuild :: "cpuset_sys \<Rightarrow> cpuset_sys" where
  "cpuset_force_rebuild S = S\<lparr>force_rebuild := True\<rparr>"

text \<open>The partition part of \<open>cpuset_hotplug_update_tasks\<close>; it may change the new CPUs.\<close>

definition hotplug_partition :: "nat \<Rightarrow> mask \<Rightarrow> cpuset_sys \<Rightarrow> mask \<times> cpuset_sys" where
  "hotplug_partition cs new_cpus S =
     (let parent = parent_cs S cs;
          (new_cpus, S) =
            (if is_partition_root (cpusets S cs)
                \<and> (new_cpus = {} \<or> partition_root_state (cpusets S parent) = PRS_ERROR) then
               let (new_cpus, S) =
                     (if nr_subparts_cpus (cpusets S cs) \<noteq> 0 then
                        let S = upd_cs cs (\<lambda>x. x\<lparr>nr_subparts_cpus := 0, subparts_cpus := {}\<rparr>) S
                        in (compute_effective_cpumask S cs parent, S)
                      else (new_cpus, S));
                   S = (if partition_root_state (cpusets S parent) = PRS_ERROR \<or> new_cpus = {}
                        then upd_cs cs (\<lambda>x. x\<lparr>partition_root_state := PRS_ERROR\<rparr>)
                               (snd (update_parent_subparts_cpumask cs partcmd_disable None S))
                        else S)
               in (new_cpus, cpuset_force_rebuild S)
             else (new_cpus, S))
      in if is_partition_root (cpusets S parent)
            \<and> (partition_root_state (cpusets S cs) = PRS_ERROR
               \<or> new_cpus \<inter> subparts_cpus (cpusets S parent) = {})
         then let (r, S) = update_parent_subparts_cpumask cs partcmd_update None S
              in (new_cpus, if r \<noteq> 0 then cpuset_force_rebuild S else S)
         else (new_cpus, S))"

text \<open>Once no attaching is in progress, for which the code waits.\<close>

definition cpuset_hotplug_update_tasks :: "kernel \<Rightarrow> bool \<Rightarrow> nat \<Rightarrow> cpuset_sys \<Rightarrow> cpuset_sys" where
  "cpuset_hotplug_update_tasks K tmp cs S =
     (let parent = parent_cs S cs;
          new_cpus = compute_effective_cpumask S cs parent;
          new_mems = mems_allowed (cpusets S cs) \<inter> effective_mems (cpusets S parent);
          new_cpus = (if nr_subparts_cpus (cpusets S cs) \<noteq> 0
                      then new_cpus - subparts_cpus (cpusets S cs) else new_cpus);
          (new_cpus, S) = (if \<not> tmp \<or> partition_root_state (cpusets S cs) = 0 then (new_cpus, S)
                           else hotplug_partition cs new_cpus S);
          cpus_updated = (new_cpus \<noteq> effective_cpus (cpusets S cs));
          mems_updated = (new_mems \<noteq> effective_mems (cpusets S cs))
      in if is_in_v2_mode S then hotplug_update_tasks K cs new_cpus new_mems cpus_updated mems_updated S
         else hotplug_update_tasks_legacy K cs new_cpus new_mems cpus_updated mems_updated S)"

text \<open>The top cpuset follows the active CPUs and the nodes with memory.\<close>

definition hotplug_top_cpus :: "cpuset_sys \<Rightarrow> cpuset_sys" where
  "hotplug_top_cpus S =
     (let new_cpus = cpu_active_mask S;
          S = (if \<not> is_in_v2_mode S then upd_cs top_cpuset (\<lambda>x. x\<lparr>cpus_allowed := new_cpus\<rparr>) S else S);
          top = cpusets S top_cpuset
      in if nr_subparts_cpus top \<noteq> 0 then
           if new_cpus \<subseteq> subparts_cpus top
           then upd_cs top_cpuset (\<lambda>x. x\<lparr>nr_subparts_cpus := 0, subparts_cpus := {},
                  effective_cpus := new_cpus\<rparr>) S
           else upd_cs top_cpuset (\<lambda>x. x\<lparr>effective_cpus := new_cpus - subparts_cpus top\<rparr>) S
         else upd_cs top_cpuset (\<lambda>x. x\<lparr>effective_cpus := new_cpus\<rparr>) S)"

definition hotplug_top_mems :: "kernel \<Rightarrow> cpuset_sys \<Rightarrow> cpuset_sys" where
  "hotplug_top_mems K S =
     (let new_mems = n_memory S;
          S = (if \<not> is_in_v2_mode S then upd_cs top_cpuset (\<lambda>x. x\<lparr>mems_allowed := new_mems\<rparr>) S else S);
          S = upd_cs top_cpuset (\<lambda>x. x\<lparr>effective_mems := new_mems\<rparr>) S
      in update_tasks_nodemask K top_cpuset S)"

text \<open>One step, although \<open>cpuset_mutex\<close> is dropped before each descendant.\<close>

definition cpuset_hotplug_workfn :: "kernel \<Rightarrow> cpuset_sys \<Rightarrow> cpuset_sys" where
  "cpuset_hotplug_workfn K S =
     (let ptmp = (is_in_v2_mode S \<and> alloc_tmpmasks K);
          cpus_updated = (effective_cpus (cpusets S top_cpuset) \<noteq> cpu_active_mask S);
          mems_updated = (effective_mems (cpusets S top_cpuset) \<noteq> n_memory S);
          S = (if cpus_updated then hotplug_top_cpus S else S);
          S = (if mems_updated then hotplug_top_mems K S else S);
          S = (if cpus_updated \<or> mems_updated then
                 cpuset_for_each_descendant_pre S top_cpuset
                   (\<lambda>c S. if c = top_cpuset \<or> css_dying S c then (S, Go)
                          else (cpuset_hotplug_update_tasks K ptmp c S, Go))
                   (\<lambda>pos S. is_cpuset_online S pos) S
               else S)
      in if cpus_updated \<or> force_rebuild S
         then rebuild_sched_domains_locked K (S\<lparr>force_rebuild := False\<rparr>) else S)"

subsection \<open>Queries\<close>

definition cpuset_cpus_allowed :: "nat \<Rightarrow> cpuset_sys \<Rightarrow> mask" where
  "cpuset_cpus_allowed tsk S = guarantee_online_cpus S (task_cs S tsk)"

definition cpuset_cpus_allowed_fallback :: "nat \<Rightarrow> cpuset_sys \<Rightarrow> cpuset_sys" where
  "cpuset_cpus_allowed_fallback tsk S =
     kernel_call (do_set_cpus_allowed tsk
       (if is_in_v2_mode S then cpus_allowed (cpusets S (task_cs S tsk)) else cpu_possible_mask S)) S"

definition cpuset_mems_allowed :: "nat \<Rightarrow> cpuset_sys \<Rightarrow> mask option" where
  "cpuset_mems_allowed tsk S = guarantee_online_mems S (task_cs S tsk)"

definition cpuset_nodemask_valid_mems_allowed :: "nat \<Rightarrow> mask \<Rightarrow> cpuset_sys \<Rightarrow> bool" where
  "cpuset_nodemask_valid_mems_allowed current nodemask S = (nodemask \<inter> task_mems S current \<noteq> {})"

fun nearest_hardwall_ancestor :: "cpuset_sys \<Rightarrow> nat \<Rightarrow> nat" where
  "nearest_hardwall_ancestor S c =
     (if is_mem_exclusive (cpusets S c) \<or> is_mem_hardwall (cpusets S c) then c
      else case tpar (ctree S) c of None \<Rightarrow> c
        | Some p \<Rightarrow> if p < c then nearest_hardwall_ancestor S p else c)"

declare nearest_hardwall_ancestor.simps [simp del]

text \<open>The context of an allocation: in an interrupt, an OOM victim, \<open>__GFP_HARDWALL\<close>, exiting.\<close>

record alloc_context =
  in_interrupt :: bool
  oom_victim :: bool
  gfp_hardwall :: bool
  pf_exiting :: bool

definition cpuset_node_allowed :: "alloc_context \<Rightarrow> nat \<Rightarrow> nat \<Rightarrow> cpuset_sys \<Rightarrow> bool" where
  "cpuset_node_allowed ctx current node S =
     (if in_interrupt ctx then True
      else if node \<in> task_mems S current then True
      else if oom_victim ctx then True
      else if gfp_hardwall ctx then False
      else if pf_exiting ctx then True
      else node \<in> mems_allowed (cpusets S (nearest_hardwall_ancestor S (task_cs S current))))"

definition cpuset_mems_allowed_intersects :: "nat \<Rightarrow> nat \<Rightarrow> cpuset_sys \<Rightarrow> bool" where
  "cpuset_mems_allowed_intersects tsk1 tsk2 S = (task_mems S tsk1 \<inter> task_mems S tsk2 \<noteq> {})"

end
