(* ===== verification/Cpuset_Demo.thy ===== *)
theory Cpuset_Demo
  imports CpusetLife
begin

section \<open>Example systems\<close>

text \<open>A machine with six CPUs and one memory node, on which the theorems about cpusets are applied.\<close>

definition demo_parse :: "string \<Rightarrow> int + mask" where
  "demo_parse s = (if s = ''0-1'' then Inr {0, 1} else if s = ''0-3'' then Inr {0, 1, 2, 3}
     else if s = ''0-4'' then Inr {0, 1, 2, 3, 4} else if s = ''2-3'' then Inr {2, 3}
     else if s = ''0'' then Inr {0} else Inl (- EINVAL))"

definition demo_kernel :: kernel where
  "demo_kernel = \<lparr>housekeeping = {0, 1, 2, 3, 4, 5}, sched_domain_level_max = 5, cpumask_can_shrink = (\<lambda>a b. True),
     task_can_attach = (\<lambda>t m. 0), security_task_setscheduler = (\<lambda>t. 0), has_mm = (\<lambda>t. True),
     cpulist_parse = demo_parse, nodelist_parse = demo_parse, thread_leader = (\<lambda>t. True),
     task_exiting = (\<lambda>t. False), migrate_prepare = 0, alloc_work = (\<lambda>t. True), alloc_csa = True,
     alloc_doms = True, alloc_dattr = True, alloc_tmpmasks = True\<rparr>"

definition demo_boot :: "bool \<Rightarrow> cpuset_sys" where
  "demo_boot dfl = cpuset_bind (cpuset_init_smp
     \<lparr>ctree = \<lparr>tpar = Map.empty, tcss = [0], released = (\<lambda>c. False)\<rparr>,
      css_dying = (\<lambda>c. False), css_online = (\<lambda>c. c = 0), clone_children = (\<lambda>c. False),
      cpusets = (\<lambda>c. if c = 0 then cpuset_init {0, 1, 2, 3, 4, 5} {0} else new_cpuset),
      css_tasks = (\<lambda>c. []), task_mems = (\<lambda>t. {0}), on_dfl = dfl, v2_mode_flag = False,
      cpu_online_mask = {0, 1, 2, 3, 4, 5}, cpu_active_mask = {0, 1, 2, 3, 4, 5},
      cpu_possible_mask = {0, 1, 2, 3, 4, 5}, n_memory = {0}, node_possible_map = {0}, enabled_key = 0,
      memory_pressure_enabled = False, force_rebuild = False, attach_old_cs = 0, crashed = False, calls = []\<rparr>)"

definition demo_mkdir :: "nat \<Rightarrow> nat \<Rightarrow> cpuset_sys \<Rightarrow> cpuset_sys" where
  "demo_mkdir c p S =
     (let S = snd (cpuset_css_online c (link_css c p (snd (cpuset_css_alloc True c (Some p) S))))
      in S\<lparr>css_online := (css_online S)(c := True)\<rparr>)"

definition demo_cpus :: "nat \<Rightarrow> string \<Rightarrow> cpuset_sys \<Rightarrow> cpuset_sys" where
  "demo_cpus c txt S = snd (cpuset_write_resmask demo_kernel True c FILE_CPULIST txt 1 S)"

definition demo_plug :: "mask \<Rightarrow> cpuset_sys \<Rightarrow> cpuset_sys" where
  "demo_plug m S = cpuset_hotplug_workfn demo_kernel (S\<lparr>cpu_active_mask := m, cpu_online_mask := m\<rparr>)"

definition demo_cs :: "cpuset_flagbits set \<Rightarrow> mask \<Rightarrow> mask \<Rightarrow> mask \<Rightarrow> int \<Rightarrow> cpuset" where
  "demo_cs fl allowed eff given prs = new_cpuset\<lparr>flags := fl, cpus_allowed := allowed, mems_allowed := {0},
     effective_cpus := eff, effective_mems := {0}, subparts_cpus := given, nr_subparts_cpus := card given,
     partition_root_state := prs\<rparr>"

definition demo_tree_sys :: "bool \<Rightarrow> mask \<Rightarrow> css_tree \<Rightarrow> (nat \<Rightarrow> cpuset) \<Rightarrow> cpuset_sys" where
  "demo_tree_sys dfl active T csets =
     \<lparr>ctree = T, css_dying = (\<lambda>c. False), css_online = (\<lambda>c. True), clone_children = (\<lambda>c. False),
      cpusets = csets, css_tasks = (\<lambda>c. []), task_mems = (\<lambda>t. {0}), on_dfl = dfl, v2_mode_flag = False,
      cpu_online_mask = active, cpu_active_mask = active,
      cpu_possible_mask = {0, 1, 2, 3, 4, 5}, n_memory = {0}, node_possible_map = {0}, enabled_key = 3,
      memory_pressure_enabled = False, force_rebuild = False, attach_old_cs = 0, crashed = False, calls = []\<rparr>"

text \<open>Legacy hierarchy: the root does not balance, and of three cpusets two overlap.\<close>

definition demo_legacy :: cpuset_sys where
  "demo_legacy = demo_tree_sys False {0, 1, 2, 3, 4, 5}
     \<lparr>tpar = [1 \<mapsto> 0, 2 \<mapsto> 0, 3 \<mapsto> 0], tcss = [0, 1, 2, 3], released = (\<lambda>c. False)\<rparr>
     (\<lambda>c. if c = 0 then demo_cs {CS_ONLINE, CS_CPU_EXCLUSIVE, CS_MEM_EXCLUSIVE} {0, 1, 2, 3, 4, 5} {0, 1, 2, 3, 4, 5} {} 1
          else demo_cs {CS_ONLINE, CS_SCHED_LOAD_BALANCE}
            (if c = 1 then {0, 1} else if c = 2 then {0} else {2, 3})
            (if c = 1 then {0, 1} else if c = 2 then {0} else {2, 3}) {} 0)"

text \<open>Default hierarchy: a partition of the CPUs 0 to 3 and a partition of 2 and 3 below it, while CPU
  3 is offline.\<close>

definition demo_parts :: cpuset_sys where
  "demo_parts = demo_tree_sys True {0, 1, 2, 4, 5}
     \<lparr>tpar = [1 \<mapsto> 0, 2 \<mapsto> 1], tcss = [0, 1, 2], released = (\<lambda>c. False)\<rparr>
     (\<lambda>c. if c = 0 then demo_cs {CS_ONLINE, CS_CPU_EXCLUSIVE, CS_MEM_EXCLUSIVE, CS_SCHED_LOAD_BALANCE}
            {0, 1, 2, 3, 4, 5} {4, 5} {0, 1, 2, 3} 1
          else demo_cs {CS_ONLINE, CS_CPU_EXCLUSIVE, CS_SCHED_LOAD_BALANCE}
            (if c = 1 then {0, 1, 2, 3} else {2, 3}) (if c = 1 then {0, 1} else {2})
            (if c = 1 then {2, 3} else {}) 1)"

lemma demo_legacy_tree:
  "ctree demo_legacy = \<lparr>tpar = [1 \<mapsto> 0, 2 \<mapsto> 0, 3 \<mapsto> 0], tcss = [0, 1, 2, 3], released = (\<lambda>c. False)\<rparr>"
  by (simp add: demo_legacy_def demo_tree_sys_def)

lemma demo_legacy_ok: "sys_ok demo_legacy"
  by (simp add: sys_ok_def css_tree_ok_def tree_ok_def demo_legacy_tree top_cpuset_def ancestors_Some)

lemma demo_legacy_mode:
  "\<not> (is_sched_load_balance (cpusets demo_legacy top_cpuset) \<and> nr_subparts_cpus (cpusets demo_legacy top_cpuset) = 0)
   \<and> alloc_csa demo_kernel \<and> alloc_doms demo_kernel"
  by code_simp

lemma demo_legacy_domains:
  "fst (generate_sched_domains demo_kernel demo_legacy) = (2, Some [{0, 1}, {2, 3}], Some [-1, -1])"
  by code_simp

end
