(* ===== verification/CpusetMasks_Correct.thy ===== *)
theory CpusetMasks_Correct
  imports Cpuset_Demo
begin

section \<open>Partitions keep their CPUs apart\<close>

definition apart :: "mask \<Rightarrow> cpuset \<Rightarrow> bool" where
  "apart active x \<longleftrightarrow> effective_cpus x \<noteq> {} \<and> effective_cpus x \<subseteq> active
     \<and> effective_cpus x \<inter> subparts_cpus x = {}"

definition cpus_of :: "cpuset \<Rightarrow> mask" where
  "cpus_of x = effective_cpus x \<union> subparts_cpus x"

lemma upd_cs_other [simp]: "d \<noteq> c \<Longrightarrow> cpusets (upd_cs c f S) d = cpusets S d"
  by (simp add: upd_cs_def)

lemma upd_cs_same [simp]: "cpusets (upd_cs c f S) c = f (cpusets S c)"
  by (simp add: upd_cs_def)

lemma upd_cs_rest [simp]:
  "ctree (upd_cs c f S) = ctree S" "css_dying (upd_cs c f S) = css_dying S"
  "css_online (upd_cs c f S) = css_online S" "clone_children (upd_cs c f S) = clone_children S"
  "css_tasks (upd_cs c f S) = css_tasks S" "task_mems (upd_cs c f S) = task_mems S"
  "on_dfl (upd_cs c f S) = on_dfl S" "v2_mode_flag (upd_cs c f S) = v2_mode_flag S"
  "cpu_online_mask (upd_cs c f S) = cpu_online_mask S" "cpu_active_mask (upd_cs c f S) = cpu_active_mask S"
  "cpu_possible_mask (upd_cs c f S) = cpu_possible_mask S" "n_memory (upd_cs c f S) = n_memory S"
  "node_possible_map (upd_cs c f S) = node_possible_map S" "enabled_key (upd_cs c f S) = enabled_key S"
  "force_rebuild (upd_cs c f S) = force_rebuild S" "crashed (upd_cs c f S) = crashed S"
  by (simp_all add: upd_cs_def)

lemma move_cpus_apart:
  assumes "apart active par" and "addmask \<subseteq> effective_cpus par" and "delmask \<subseteq> subparts_cpus par"
    and "addmask = effective_cpus par \<Longrightarrow> delmask \<inter> active \<noteq> {}"
  shows "apart active (move_cpus addmask delmask active par)
    \<and> cpus_of (move_cpus addmask delmask active par) \<inter> active = cpus_of par \<inter> active
    \<and> nr_subparts_cpus (move_cpus addmask delmask active par)
        = card (subparts_cpus (move_cpus addmask delmask active par))"
proof -
  have "effective_cpus (move_cpus addmask delmask active par)
      = (effective_cpus par - addmask) \<union> (delmask \<inter> active)"
    and "subparts_cpus (move_cpus addmask delmask active par) = (subparts_cpus par \<union> addmask) - delmask"
    by (auto simp: move_cpus_def Let_def)
  moreover have "nr_subparts_cpus (move_cpus addmask delmask active par)
        = card (subparts_cpus (move_cpus addmask delmask active par))"
    by (simp add: move_cpus_def Let_def)
  ultimately show ?thesis using assms by (auto simp: apart_def cpus_of_def)
qed

text \<open>The masks to be moved come from the right places and leave the parent a CPU.\<close>

lemma subparts_masks_ok:
  assumes "subparts_masks cmd newmask this par active = Some (addmask, delmask, part_error)"
    and "cmd = partcmd_enable \<Longrightarrow> cpus_allowed this \<subset> effective_cpus par" and "apart active par"
  shows "addmask \<subseteq> effective_cpus par" and "delmask \<subseteq> subparts_cpus par"
    and "\<not> part_error \<Longrightarrow> addmask = effective_cpus par \<Longrightarrow> delmask \<inter> active \<noteq> {}"
    and "cmd \<noteq> partcmd_update \<Longrightarrow> \<not> part_error"
  using assms by (auto simp: subparts_masks_def apart_def Let_def split: subparts_cmd.splits option.splits if_splits)

text \<open>What an operation on the partition of a parent keeps of it.\<close>

definition parent_kept :: "mask \<Rightarrow> cpuset \<Rightarrow> cpuset \<Rightarrow> bool" where
  "parent_kept active par par' \<longleftrightarrow> apart active par' \<and> cpus_of par' \<inter> active = cpus_of par \<inter> active
     \<and> (nr_subparts_cpus par = card (subparts_cpus par) \<longrightarrow> nr_subparts_cpus par' = card (subparts_cpus par'))
     \<and> cpus_allowed par' = cpus_allowed par \<and> flags par' = flags par
     \<and> partition_root_state par' = partition_root_state par"

lemma parent_kept_refl: "apart active par \<Longrightarrow> parent_kept active par par"
  by (simp add: parent_kept_def)

lemma parent_kept_move:
  assumes "apart active par" and "addmask \<subseteq> effective_cpus par" and "delmask \<subseteq> subparts_cpus par"
    and "addmask = effective_cpus par \<Longrightarrow> delmask \<inter> active \<noteq> {}"
  shows "parent_kept active par (move_cpus addmask delmask active par)"
  using move_cpus_apart [OF assms] by (auto simp: parent_kept_def move_cpus_def Let_def)

text \<open>The outcomes: an error, at most a new state of the cpuset, or CPUs are moved.\<close>

lemma subparts_outcomes:
  assumes "update_parent_subparts_cpumask c cmd newmask S = (r, S')"
    and "apart (cpu_active_mask S) (cpusets S (parent_cs S c))"
    and "cmd = partcmd_update \<Longrightarrow> partition_root_state (cpusets S c) \<in> {PRS_ENABLED, PRS_ERROR}"
  obtains (unchanged) "S' = S"
  | (state) q where "r = 0" "S' = upd_cs c (\<lambda>x. x\<lparr>partition_root_state := q\<rparr>) S"
  | (moved) q S1 a d where "0 \<le> r" "S1 = S \<or> S1 = upd_cs c (\<lambda>x. x\<lparr>partition_root_state := q\<rparr>) S"
      "S' = upd_cs (parent_cs S c) (move_cpus a d (cpu_active_mask S)) S1"
      "a \<subseteq> effective_cpus (cpusets S (parent_cs S c))" "d \<subseteq> subparts_cpus (cpusets S (parent_cs S c))"
      "a = effective_cpus (cpusets S (parent_cs S c)) \<Longrightarrow> d \<inter> cpu_active_mask S \<noteq> {}"
proof (cases "S' = S")
  case True
  then show thesis by (rule unchanged)
next
  case False
  define par where "par = cpusets S (parent_cs S c)"
  define this where "this = cpusets S c"
  note U = assms(1) [unfolded update_parent_subparts_cpumask_def Let_def, folded par_def this_def]
  have g1: "\<not> (\<not> is_partition_root par
      \<or> (case newmask of None \<Rightarrow> cpus_allowed this = {} | Some new \<Rightarrow> new = {}))"
    using U False by (auto split: if_splits)
  note U = U [unfolded if_not_P [OF g1]]
  have g2: "\<not> (cmd \<noteq> partcmd_update \<and> css_has_online_children S c)"
    using U False by (auto split: if_splits)
  note U = U [unfolded if_not_P [OF g2]]
  have g3: "\<not> (cmd = partcmd_enable
      \<and> (\<not> cpus_allowed this \<subseteq> effective_cpus par \<or> cpus_allowed this = effective_cpus par))"
    using U False by (auto split: if_splits)
  note U = U [unfolded if_not_P [OF g3]]
  obtain a d e where m: "subparts_masks cmd newmask this par (cpu_active_mask S) = Some (a, d, e)"
    using U False by (cases "subparts_masks cmd newmask this par (cpu_active_mask S)") auto
  have ok: "a \<subseteq> effective_cpus par" "d \<subseteq> subparts_cpus par"
    "\<not> e \<Longrightarrow> a = effective_cpus par \<Longrightarrow> d \<inter> cpu_active_mask S \<noteq> {}"
    "cmd \<noteq> partcmd_update \<Longrightarrow> \<not> e"
    using subparts_masks_ok [OF m _ assms(2) [folded par_def]] g3 by (simp_all add: psubset_eq)
  have sub: "cpus_allowed this \<inter> subparts_cpus par \<subseteq> subparts_cpus par" by blast
  have ne: "effective_cpus par \<noteq> {}" using assms(2) by (simp add: par_def apart_def)
  note par = par_def [symmetric]
  show thesis
  proof (cases "cmd = partcmd_update")
    case False
    have "\<not> e" by (rule ok(4) [OF False])
    have prs: "partition_root_state this \<noteq> PRS_ERROR" and ad: "\<not> (a = {} \<and> d = {})"
      using U False m \<open>\<not> e\<close> \<open>S' \<noteq> S\<close> by (auto simp: this_def split: if_splits)
    have "(r, S') = (0, upd_cs (parent_cs S c) (move_cpus a d (cpu_active_mask S)) S)"
      using U False m \<open>\<not> e\<close> prs unfolding this_def by (simp add: if_not_P [OF ad])
    then show thesis
      using ok(1-3) \<open>\<not> e\<close> by (intro moved [of S 0 a d]) (auto simp: par)
  next
    case True
    let ?q = "prs_transition e (partition_root_state this)"
    let ?S = "upd_cs c (\<lambda>x. x\<lparr>partition_root_state := ?q\<rparr>) S"
    let ?a = "if ?q = PRS_ERROR then {} else a"
    let ?d = "if ?q = PRS_ERROR then cpus_allowed this \<inter> subparts_cpus par else d"
    have sel: "partition_root_state (cpusets ?S c) = ?q" by simp
    have U': "(if partition_root_state this \<noteq> PRS_ERROR \<and> ?q = PRS_ERROR then (0, ?S)
        else if ?a = {} \<and> ?d = {} then (0, ?S)
        else (1, upd_cs (parent_cs S c) (move_cpus ?a ?d (cpu_active_mask S)) ?S)) = (r, S')"
      using U unfolding m option.case prod.case if_P [OF True] sel upd_cs_rest .
    have e: "\<not> e" if "?q \<noteq> PRS_ERROR"
      using that assms(3) [OF True] by (auto simp: prs_transition_def this_def prs_defs split: if_splits)
    show thesis
    proof (cases "r = 0")
      case True
      with U' show thesis by (intro state [of ?q]) (auto split: if_splits)
    next
      case False
      have last: "?a = effective_cpus par \<Longrightarrow> ?d \<inter> cpu_active_mask S \<noteq> {}"
        using ne e ok(3) by (auto split: if_splits)
      from U' False have "r = 1" "S' = upd_cs (parent_cs S c) (move_cpus ?a ?d (cpu_active_mask S)) ?S"
        by (auto split: if_splits)
      with last ok(1,2) sub show thesis by (intro moved [of ?S ?q ?a ?d]) (auto simp: par)
    qed
  qed
qed

text \<open>C21: moving CPUs between a partition root and its parent is safe: whatever the command, the
  parent keeps at least one CPU of its own, its own CPUs stay apart from those given to child
  partitions, no active CPU is lost or made up, the count of the given CPUs is right, an error
  changes nothing, and no cpuset other than the two is touched.\<close>

theorem subparts_update_safe:
  assumes "update_parent_subparts_cpumask c cmd newmask S = (r, S')"
    and "parent_cs S c \<noteq> c" and "apart (cpu_active_mask S) (cpusets S (parent_cs S c))"
    and "cmd = partcmd_update \<Longrightarrow> partition_root_state (cpusets S c) \<in> {PRS_ENABLED, PRS_ERROR}"
  shows "parent_kept (cpu_active_mask S) (cpusets S (parent_cs S c)) (cpusets S' (parent_cs S c))
    \<and> (r < 0 \<longrightarrow> S' = S)
    \<and> (\<forall>d. d \<noteq> c \<longrightarrow> d \<noteq> parent_cs S c \<longrightarrow> cpusets S' d = cpusets S d)
    \<and> cpus_allowed (cpusets S' c) = cpus_allowed (cpusets S c)"
proof -
  let ?act = "cpu_active_mask S" and ?p = "parent_cs S c"
  show ?thesis
  proof (rule subparts_outcomes [OF assms(1,3,4)])
    assume "S' = S"
    then show ?thesis using parent_kept_refl [OF assms(3)] by simp
  next
    fix q
    assume "r = 0" "S' = upd_cs c (\<lambda>x. x\<lparr>partition_root_state := q\<rparr>) S"
    then show ?thesis using parent_kept_refl [OF assms(3)] assms(2) by simp
  next
    fix q S1 a e
    assume m: "0 \<le> r" "S1 = S \<or> S1 = upd_cs c (\<lambda>x. x\<lparr>partition_root_state := q\<rparr>) S"
      "S' = upd_cs ?p (move_cpus a e ?act) S1"
      "a \<subseteq> effective_cpus (cpusets S ?p)" "e \<subseteq> subparts_cpus (cpusets S ?p)"
      "a = effective_cpus (cpusets S ?p) \<Longrightarrow> e \<inter> ?act \<noteq> {}"
    have "cpusets S1 ?p = cpusets S ?p" using m(2) assms(2) by auto
    with parent_kept_move [OF assms(3) m(4-6)] m(1-3) assms(2) show ?thesis by auto
  qed auto
qed

subsection \<open>At a concrete system\<close>

lemma demo_parts_apart:
  "parent_cs demo_parts 2 = 1 \<and> partition_root_state (cpusets demo_parts 2) = PRS_ENABLED"
  by code_simp

lemma demo_shrink:
  "update_parent_subparts_cpumask 2 partcmd_update (Some {3}) demo_parts
     = (1, snd (update_parent_subparts_cpumask 2 partcmd_update (Some {3}) demo_parts))
   \<and> effective_cpus (cpusets (snd (update_parent_subparts_cpumask 2 partcmd_update (Some {3}) demo_parts)) 1) = {0, 1, 2}"
proof -
  have "fst (update_parent_subparts_cpumask 2 partcmd_update (Some {3}) demo_parts) = 1" by code_simp
  moreover have "effective_cpus (cpusets (snd (update_parent_subparts_cpumask 2 partcmd_update (Some {3}) demo_parts)) 1)
    = {0, 1, 2}" by code_simp
  ultimately show ?thesis by (metis prod.collapse)
qed

text \<open>The inner partition gives CPU 2 back.\<close>

theorem subparts_update_safe_witness:
  "\<exists>S'. update_parent_subparts_cpumask 2 partcmd_update (Some {3}) demo_parts = (1, S')
    \<and> parent_kept {0, 1, 2, 4, 5} (cpusets demo_parts 1) (cpusets S' 1)
    \<and> effective_cpus (cpusets S' 1) = {0, 1, 2}"
proof -
  have a: "cpu_active_mask demo_parts = {0, 1, 2, 4, 5}" by code_simp
  have "apart (cpu_active_mask demo_parts) (cpusets demo_parts (parent_cs demo_parts 2))"
    "parent_cs demo_parts 2 \<noteq> 2" unfolding demo_parts_apart [THEN conjunct1] by code_simp+
  from subparts_update_safe [OF demo_shrink [THEN conjunct1] this(2,1)]
  show ?thesis using demo_shrink demo_parts_apart a by (auto intro!: exI)
qed

end
