(* ===== verification/Cpuset_Legacy.thy ===== *)
theory Cpuset_Legacy
  imports CpusetMasks_Correct
begin

section \<open>The rules of the legacy hierarchy\<close>

text \<open>
  On the legacy hierarchy the effective masks are the configured ones, a cpuset is within its
  parent, and an exclusive cpuset does not overlap its siblings.  Most of the code only touches
  the tasks, the partition numbers and the scheduler; \<open>view\<close> is the part of the state the rules
  talk about.
\<close>

type_synonym rules = "cpuset_flagbits set \<times> mask \<times> mask \<times> mask \<times> mask \<times> nat \<times> int \<times> bool"

definition rules_of :: "cpuset \<Rightarrow> rules" where
  "rules_of x = (flags x, cpus_allowed x, mems_allowed x, effective_cpus x, effective_mems x,
     nr_subparts_cpus x, partition_root_state x, use_parent_ecpus x)"

definition view :: "cpuset_sys \<Rightarrow> css_tree \<times> (nat \<Rightarrow> bool) \<times> bool \<times> bool \<times> nat \<times> (nat \<Rightarrow> rules)" where
  "view S = (ctree S, css_dying S, on_dfl S, v2_mode_flag S, enabled_key S, \<lambda>c. rules_of (cpusets S c))"

lemma view_upd: "rules_of (f (cpusets S c)) = rules_of (cpusets S c) \<Longrightarrow> view (upd_cs c f S) = view S"
  by (auto simp: view_def upd_cs_def fun_eq_iff)

lemma view_kernel_call [simp]: "view (kernel_call k S) = view S"
  by (simp add: view_def kernel_call_def)

lemma view_task_mems [simp]: "view (S\<lparr>task_mems := m\<rparr>) = view S"
  by (simp add: view_def)

lemma view_fold: "(\<And>x S. view (f x S) = view S) \<Longrightarrow> view (fold f xs S) = view S"
  by (induction xs arbitrary: S) auto

lemma view_update_tasks_cpumask [simp]: "view (update_tasks_cpumask c S) = view S"
proof -
  have "view (fold (\<lambda>task S. kernel_call (set_cpus_allowed_ptr task (effective_cpus (cpusets S c))) S) ts S) = view S" for ts
    by (induction ts arbitrary: S) simp_all
  then show ?thesis by (simp add: update_tasks_cpumask_def)
qed

lemma view_change_nodemask [simp]: "view (cpuset_change_task_nodemask t m S) = view S"
  by (simp add: cpuset_change_task_nodemask_def Let_def)

lemma view_migrate_mm [simp]: "view (cpuset_migrate_mm ok t f m S) = view S"
  by (simp add: cpuset_migrate_mm_def)

lemma view_update_tasks_nodemask [simp]: "view (update_tasks_nodemask K c S) = view S"
proof (cases "guarantee_online_mems S c")
  case None
  then show ?thesis by (simp add: update_tasks_nodemask_def view_def)
next
  case (Some m)
  show ?thesis
    unfolding update_tasks_nodemask_def Some option.case Let_def
    by (rule trans [OF view_upd view_fold]) (simp_all add: rules_of_def)
qed

lemma view_spread [simp]: "view (cpuset_update_task_spread_flag c t S) = view S"
  by (simp add: cpuset_update_task_spread_flag_def)

lemma view_update_tasks_flags [simp]: "view (update_tasks_flags c S) = view S"
  unfolding update_tasks_flags_def by (rule view_fold) simp

lemma view_walk:
  assumes "\<And>c S. view (fst (body c S)) = view S"
  shows "view (cpuset_for_each_descendant_pre S0 root body online S) = view S"
  unfolding cpuset_for_each_descendant_pre_def
  by (rule for_each_always_keeps [where P = "\<lambda>S'. view S' = view S"]) (auto simp: assms)

lemma view_set_pns [simp]: "view (set_pns csa p S) = view S"
  unfolding set_pns_def by (rule view_fold, rule view_upd) (simp add: rules_of_def)

lemma view_generate [simp]: "generate_sched_domains K S = (r, S') \<Longrightarrow> view S' = view S"
  by (auto simp: generate_sched_domains_def Let_def view_def [of "crashed_update _ _"]
      simp flip: view_def split: if_splits prod.splits)

lemma view_root_domain [simp]: "view (update_tasks_root_domain c S) = view S"
  unfolding update_tasks_root_domain_def by (rule view_fold) simp

lemma view_rebuild [simp]: "view (rebuild_sched_domains_locked K S) = view S"
proof -
  have "view (rebuild_root_domains S) = view S" for S
    unfolding rebuild_root_domains_def by (subst view_walk) simp_all
  then show ?thesis
    by (auto simp: rebuild_sched_domains_locked_def partition_and_rebuild_sched_domains_def Let_def
        split: prod.split)
qed

subsection \<open>The rules\<close>

definition plain :: "cpuset \<Rightarrow> bool" where
  "plain x \<longleftrightarrow> nr_subparts_cpus x = 0 \<and> \<not> use_parent_ecpus x
     \<and> effective_cpus x = cpus_allowed x \<and> effective_mems x = mems_allowed x"

definition legacy_ok :: "cpuset_sys \<Rightarrow> bool" where
  "legacy_ok S \<longleftrightarrow> sys_ok S \<and> \<not> is_in_v2_mode S
     \<and> is_cpuset_online S top_cpuset
     \<and> (\<forall>c. is_cpuset_online S c \<longrightarrow> c \<in> set (tcss (ctree S)) \<and> plain (cpusets S c))
     \<and> (\<forall>c \<in> set (tcss (ctree S)). c \<noteq> top_cpuset \<longrightarrow>
          partition_root_state (cpusets S c) = 0 \<and> \<not> use_parent_ecpus (cpusets S c))
     \<and> (\<forall>c p. is_cpuset_online S c \<longrightarrow> tpar (ctree S) c = Some p \<longrightarrow>
          is_cpuset_online S p \<and> is_cpuset_subset (cpusets S c) (cpusets S p))
     \<and> (\<forall>c d p. is_cpuset_online S c \<longrightarrow> is_cpuset_online S d \<longrightarrow> c \<noteq> d \<longrightarrow>
          tpar (ctree S) c = Some p \<longrightarrow> tpar (ctree S) d = Some p \<longrightarrow>
          \<not> exclusive_clash (cpusets S c) (cpusets S d))"

lemma legacy_okD:
  assumes "legacy_ok S"
  shows "sys_ok S" and "\<not> is_in_v2_mode S" and "is_cpuset_online S top_cpuset"
    and "is_cpuset_online S c \<Longrightarrow> c \<in> set (tcss (ctree S))"
    and "is_cpuset_online S c \<Longrightarrow> plain (cpusets S c)"
    and "is_cpuset_online S c \<Longrightarrow> c \<noteq> top_cpuset \<Longrightarrow> partition_root_state (cpusets S c) = 0"
    and "is_cpuset_online S c \<Longrightarrow> tpar (ctree S) c = Some p \<Longrightarrow> is_cpuset_online S p"
    and "is_cpuset_online S c \<Longrightarrow> tpar (ctree S) c = Some p \<Longrightarrow> is_cpuset_subset (cpusets S c) (cpusets S p)"
    and "is_cpuset_online S c \<Longrightarrow> is_cpuset_online S d \<Longrightarrow> c \<noteq> d \<Longrightarrow> tpar (ctree S) c = Some p \<Longrightarrow>
      tpar (ctree S) d = Some p \<Longrightarrow> \<not> exclusive_clash (cpusets S c) (cpusets S d)"
    and "c \<in> set (tcss (ctree S)) \<Longrightarrow> c \<noteq> top_cpuset \<Longrightarrow>
      partition_root_state (cpusets S c) = 0 \<and> \<not> use_parent_ecpus (cpusets S c)"
  using assms unfolding legacy_ok_def by blast+

text \<open>The rules only depend on the view.\<close>

lemma view_eqD:
  assumes "view S = view S'"
  shows "ctree S = ctree S'" and "css_dying S = css_dying S'" and "on_dfl S = on_dfl S'"
    and "v2_mode_flag S = v2_mode_flag S'" and "rules_of (cpusets S c) = rules_of (cpusets S' c)"
    and "is_cpuset_online S = is_cpuset_online S'" and "is_in_v2_mode S = is_in_v2_mode S'"
  using assms by (auto simp: view_def fun_eq_iff is_cpuset_online_def is_in_v2_mode_def rules_of_def)

lemma rules_eqD:
  assumes "rules_of x = rules_of x'"
  shows "flags x = flags x'" and "cpus_allowed x = cpus_allowed x'" and "mems_allowed x = mems_allowed x'"
    and "effective_cpus x = effective_cpus x'" and "effective_mems x = effective_mems x'"
    and "nr_subparts_cpus x = nr_subparts_cpus x'" and "partition_root_state x = partition_root_state x'"
    and "use_parent_ecpus x = use_parent_ecpus x'"
  using assms by (simp_all add: rules_of_def)

lemma rules_tests:
  assumes "rules_of x = rules_of x'" and "rules_of y = rules_of y'"
  shows "plain x \<longleftrightarrow> plain x'" and "is_cpuset_subset x y \<longleftrightarrow> is_cpuset_subset x' y'"
    and "exclusive_clash x y \<longleftrightarrow> exclusive_clash x' y'"
  using assms by (simp_all add: rules_of_def plain_def is_cpuset_subset_def exclusive_clash_def flag_tests)

lemma legacy_ok_view:
  assumes "view S = view S'" and "legacy_ok S"
  shows "legacy_ok S'"
proof -
  note v = view_eqD [OF assms(1)]
  note t = rules_tests [OF v(5) v(5)]
  have sys: "sys_ok S'" using legacy_okD(1) [OF assms(2)] by (simp add: sys_ok_def v(1))
  show ?thesis
    using assms(2) sys unfolding legacy_ok_def
    by (simp add: v(1,6,7) t(2,3) t(1) rules_eqD(7,8) [OF v(5)])
qed

subsection \<open>Validated changes\<close>

lemma in_children:
  assumes "legacy_ok S"
  shows "d \<in> set (cpuset_children S p) \<longleftrightarrow> is_cpuset_online S d \<and> tpar (ctree S) d = Some p"
  using legacy_okD(1) [OF assms] legacy_okD(4) [OF assms, of d] in_kids [of "ctree S" d p]
  by (auto simp: cpuset_children_def sys_ok_def)

text \<open>What \<open>validate_change\<close> accepts keeps the rules, once the effective masks follow.\<close>

definition same_rules :: "cpuset \<Rightarrow> cpuset \<Rightarrow> bool" where
  "same_rules x trial \<longleftrightarrow> flags x = flags trial \<and> cpus_allowed x = cpus_allowed trial
     \<and> mems_allowed x = mems_allowed trial"

lemma same_rules_tests:
  assumes "same_rules x trial"
  shows "is_cpuset_subset c x \<longleftrightarrow> is_cpuset_subset c trial" "is_cpuset_subset x c \<longleftrightarrow> is_cpuset_subset trial c"
    and "exclusive_clash x c \<longleftrightarrow> exclusive_clash trial c" "exclusive_clash c x \<longleftrightarrow> exclusive_clash trial c"
  using assms by (auto simp: same_rules_def is_cpuset_subset_def exclusive_clash_def flag_tests)

lemma validate_changeD:
  assumes "legacy_ok S" and "0 \<le> validate_change K S cur trial"
  shows "validate_change K S cur trial = 0"
    and "is_cpuset_online S c \<Longrightarrow> tpar (ctree S) c = Some cur \<Longrightarrow> is_cpuset_subset (cpusets S c) trial"
    and "cur \<noteq> top_cpuset \<Longrightarrow> tpar (ctree S) cur = Some p \<Longrightarrow> is_cpuset_subset trial (cpusets S p)"
    and "cur \<noteq> top_cpuset \<Longrightarrow> tpar (ctree S) cur = Some p \<Longrightarrow> is_cpuset_online S d \<Longrightarrow> d \<noteq> cur \<Longrightarrow>
      tpar (ctree S) d = Some p \<Longrightarrow> \<not> exclusive_clash trial (cpusets S d)"
  using assms(2) legacy_okD(2) [OF assms(1)]
  by (auto simp: validate_change_def Let_def in_children [OF assms(1)] parent_cs_def cpuset_errors
      split: if_splits)

lemma validated_ok:
  assumes "legacy_ok S" and "is_cpuset_online S cur" and "0 \<le> validate_change K S cur trial"
    and "same_rules x trial" and "plain x" and "CS_ONLINE \<in> flags x"
    and "cur \<noteq> top_cpuset \<Longrightarrow> partition_root_state x = 0"
  shows "legacy_ok (upd_cs cur (\<lambda>_. x) S)"
proof -
  let ?S = "upd_cs cur (\<lambda>_. x) S"
  note ok = legacy_okD [OF assms(1)] and v = validate_changeD [OF assms(1,3)]
    and t = same_rules_tests [OF assms(4)]
  have on: "is_cpuset_online ?S = is_cpuset_online S"
    using assms(2,6) by (auto simp: is_cpuset_online_def upd_cs_def fun_eq_iff)
  have T: "css_tree_ok (ctree S)" using ok(1) by (simp add: sys_ok_def)
  have noself: "tpar (ctree S) c \<noteq> Some c" for c using T by (auto simp: css_tree_ok_def tree_ok_def)
  have noroot: "tpar (ctree S) cur = Some p \<Longrightarrow> cur \<noteq> top_cpuset" for p
    using T by (fastforce simp: css_tree_ok_def tree_ok_def top_cpuset_def)
  have "is_cpuset_subset (cpusets ?S c) (cpusets ?S p)"
    if "is_cpuset_online S c" "tpar (ctree S) c = Some p" for c p
    using that ok(8) v(2) v(3) [OF noroot] noself by (cases "c = cur"; cases "p = cur") (auto simp: t)
  moreover have "\<not> exclusive_clash (cpusets ?S c) (cpusets ?S d)"
    if "is_cpuset_online S c" "is_cpuset_online S d" "c \<noteq> d"
      "tpar (ctree S) c = Some p" "tpar (ctree S) d = Some p" for c d p
    using that ok(9) v(4) [OF noroot] by (cases "c = cur"; cases "d = cur") (auto simp: t)
  moreover have "sys_ok ?S" using ok(1) by (simp add: sys_ok_def)
  moreover have "\<not> is_in_v2_mode ?S" using ok(2) by (simp add: is_in_v2_mode_def)
  moreover have "plain (cpusets ?S c)" if "is_cpuset_online S c" for c
    using that ok(5) assms(5) by (cases "c = cur") auto
  moreover have "partition_root_state (cpusets ?S c) = 0 \<and> \<not> use_parent_ecpus (cpusets ?S c)"
    if "c \<in> set (tcss (ctree S))" "c \<noteq> top_cpuset" for c
    using ok(10) [OF that] assms(5,7) that(2) by (cases "c = cur") (auto simp: plain_def)
  ultimately show ?thesis
    unfolding legacy_ok_def on using ok(3,4,7) by simp
qed

subsection \<open>Flags\<close>

lemma plain_flags: "plain (x\<lparr>flags := F\<rparr>) = plain x"
  by (simp add: plain_def)

text \<open>The tail of \<open>update_flag\<close> touches the scheduler and the tasks only.\<close>

lemma update_flag_outcomes:
  assumes "update_flag K ok b cs turning_on S = (r, S')"
  shows "S' = S \<or> (\<exists>F. (F = flags (cpusets S cs) \<union> {b} \<or> F = flags (cpusets S cs) - {b})
      \<and> 0 \<le> validate_change K S cs (cpusets S cs\<lparr>subparts_cpus := {}, flags := F\<rparr>)
      \<and> view S' = view (upd_cs cs (\<lambda>x. x\<lparr>flags := F\<rparr>) S))"
proof (cases ok)
  case False
  with assms show ?thesis by (simp add: update_flag_def alloc_trial_cpuset_def)
next
  case True
  let ?F = "if turning_on \<noteq> 0 then flags (cpusets S cs) \<union> {b} else flags (cpusets S cs) - {b}"
  let ?t = "cpusets S cs\<lparr>subparts_cpus := {}, flags := ?F\<rparr>"
  have trial: "(if turning_on \<noteq> 0
      then (cpusets S cs\<lparr>subparts_cpus := {}\<rparr>)\<lparr>flags := flags (cpusets S cs\<lparr>subparts_cpus := {}\<rparr>) \<union> {b}\<rparr>
      else (cpusets S cs\<lparr>subparts_cpus := {}\<rparr>)\<lparr>flags := flags (cpusets S cs\<lparr>subparts_cpus := {}\<rparr>) - {b}\<rparr>) = ?t"
    by simp
  note U = assms [unfolded update_flag_def alloc_trial_cpuset_def if_P [OF True] option.case Let_def trial]
  show ?thesis
  proof (cases "validate_change K S cs ?t < 0")
    case neg: True
    from U [unfolded if_P [OF neg]] show ?thesis by simp
  next
    case False
    have "view S' = view (upd_cs cs (\<lambda>x. x\<lparr>flags := ?F\<rparr>) S)"
      using U [unfolded if_not_P [OF False]] by (auto split: if_splits)
    moreover have "?F = flags (cpusets S cs) \<union> {b} \<or> ?F = flags (cpusets S cs) - {b}" by simp
    ultimately show ?thesis using False by (intro disjI2 exI [of _ ?F]) simp
  qed
qed

lemma update_flag_ok:
  assumes "legacy_ok S" and "is_cpuset_online S cs" and "b \<noteq> CS_ONLINE"
    and "update_flag K ok b cs turning_on S = (r, S')"
  shows "legacy_ok S'"
proof (cases "S' = S")
  case True
  with assms(1) show ?thesis by simp
next
  case False
  then obtain F where F: "F = flags (cpusets S cs) \<union> {b} \<or> F = flags (cpusets S cs) - {b}"
    and v: "0 \<le> validate_change K S cs (cpusets S cs\<lparr>subparts_cpus := {}, flags := F\<rparr>)"
    and S': "view S' = view (upd_cs cs (\<lambda>x. x\<lparr>flags := F\<rparr>) S)"
    using update_flag_outcomes [OF assms(4)] by blast
  have "CS_ONLINE \<in> F" using assms(2,3) F by (auto simp: is_cpuset_online_def)
  then have "legacy_ok (upd_cs cs (\<lambda>_. cpusets S cs\<lparr>flags := F\<rparr>) S)"
    using legacy_okD(5,6) [OF assms(1,2)]
    by (intro validated_ok [OF assms(1,2) v]) (simp_all add: same_rules_def plain_flags)
  then have "legacy_ok (upd_cs cs (\<lambda>x. x\<lparr>flags := F\<rparr>) S)"
    by (simp add: upd_cs_def)
  then show ?thesis by (rule legacy_ok_view [OF S' [symmetric]])
qed

lemma relax_level_view:
  "update_relax_domain_level K cs val S = (r, S') \<Longrightarrow> view S' = view S"
proof -
  have "view (upd_cs cs (\<lambda>x. x\<lparr>relax_domain_level := val\<rparr>) S) = view S"
    by (rule view_upd) (simp add: rules_of_def)
  then show "update_relax_domain_level K cs val S = (r, S') \<Longrightarrow> view S' = view S"
    by (auto simp: update_relax_domain_level_def Let_def split: if_splits)
qed

subsection \<open>Masks\<close>

text \<open>Below the changed cpuset nothing is to be done: the children are within the new masks.\<close>

lemma hier_turn_idle:
  assumes "legacy_ok S" and "is_cpuset_online S d" and "tpar (ctree S) d = Some p"
  shows "hier_turn cs d (S, need) = ((S, need), Skip)"
proof -
  note ok = legacy_okD [OF assms(1)]
  have p: "is_cpuset_online S p" "is_cpuset_subset (cpusets S d) (cpusets S p)"
    using ok(7,8) [OF assms(2,3)] by auto
  have d: "d \<noteq> top_cpuset"
    using assms(3) ok(1) by (fastforce simp: sys_ok_def css_tree_ok_def tree_ok_def top_cpuset_def)
  have "plain (cpusets S d)" "plain (cpusets S p)" "partition_root_state (cpusets S d) = 0"
    using ok(5,6) assms(2) p(1) d by auto
  then show ?thesis using assms(3) p(2) ok(2)
    by (auto simp: hier_turn_def Let_def parent_cs_def compute_effective_cpumask_def plain_def
        is_cpuset_subset_def disinherit_ecpus_def)
qed

lemma nodemask_turn_idle:
  assumes "legacy_ok S" and "is_cpuset_online S d" and "tpar (ctree S) d = Some p"
  shows "nodemask_turn K d S = (S, Skip)"
proof -
  note ok = legacy_okD [OF assms(1)]
  have p: "is_cpuset_online S p" "is_cpuset_subset (cpusets S d) (cpusets S p)"
    using ok(7,8) [OF assms(2,3)] by auto
  then show ?thesis using assms(3) ok(2) ok(5) [OF assms(2)] ok(5) [OF p(1)]
    by (auto simp: nodemask_turn_def Let_def parent_cs_def plain_def is_cpuset_subset_def)
qed

lemma below_has_parent:
  assumes "css_tree_ok T" and "d \<in> set (concat (map (pre_order T) (kids T c)))"
  shows "\<exists>p. tpar T d = Some p"
proof -
  obtain k where k: "k \<in> set (kids T c)" "d \<in> set (pre_order T k)" using assms(2) by auto
  have kc: "k \<in> set (tcss T)" "tpar T k = Some c" using k(1) in_kids [OF assms(1)] by auto
  have "in_subtree T k d" using k(2) set_pre_order [OF assms(1) kc(1)] by simp
  then show ?thesis using kc(2) by (cases "tpar T d") (auto simp: in_subtree_def)
qed

text \<open>A walk whose first turn settles the cpuset itself and that is idle below it.\<close>

lemma walk_settles:
  assumes "sys_ok S0" and "cs \<in> set (tcss (ctree S0))" and "online cs s"
    and "body cs s = (s', act)" and "act \<noteq> Stop"
    and "\<And>d p. tpar (ctree S0) d = Some p \<Longrightarrow> online d s' \<Longrightarrow> body d s' = (s', Skip)"
  shows "cpuset_for_each_descendant_pre S0 cs body online s = s'"
proof -
  let ?T = "ctree S0" and ?b = "\<lambda>pos s. if online pos s then body pos s else (s, Go)"
  have T: "css_tree_ok ?T" using assms(1) by (simp add: sys_ok_def)
  have "dfs ?T ?b ds s' = s'" if "set ds \<subseteq> set (kids ?T cs)" for ds
  proof (rule dfs_keeps [where P = "\<lambda>s. s = s'"])
    fix d s assume d: "d \<in> set (concat (map (pre_order ?T) ds))" and "s = s'"
    have "d \<in> set (concat (map (pre_order ?T) (kids ?T cs)))" using d that by auto
    from below_has_parent [OF T this] \<open>s = s'\<close> assms(6) show "fst (?b d s) = s'" by auto
  qed simp
  then have "dfs ?T ?b [cs] s = s'"
    using assms(3-5) by (cases act) auto
  then show ?thesis
    by (simp add: cpuset_for_each_descendant_pre_def for_each_dfs [OF T assms(2)])
qed

lemma view_same_cpusets:
  "cpusets (upd_cs c f (upd_cs d g S)) = cpusets (upd_cs e h S) \<Longrightarrow>
     view (upd_cs c f (upd_cs d g S)) = view (upd_cs e h S)"
  by (simp add: view_def)

lemma online_parent:
  assumes "legacy_ok S" and "is_cpuset_online S cs" and "cs \<noteq> top_cpuset"
  obtains p where "tpar (ctree S) cs = Some p" "p \<noteq> cs" "is_cpuset_online S p" "plain (cpusets S p)"
proof -
  note ok = legacy_okD [OF assms(1)]
  have "top_cpuset \<in> set (ancestors (tpar (ctree S)) cs)"
    using ok(1,4) assms(2,3) by (simp add: sys_ok_def)
  then obtain p where p: "tpar (ctree S) cs = Some p" by (cases "tpar (ctree S) cs") auto
  have "p < cs" using ok(1) p by (auto simp: sys_ok_def css_tree_ok_def tree_ok_def)
  with p ok(7) [OF assms(2) p] ok(5) [of p] show thesis by (intro that) auto
qed

lemma view_self: "\<exists>x. view S = view (upd_cs cs (\<lambda>_. x) S) \<and> flags x = flags (cpusets S cs)"
  by (intro exI [of _ "cpusets S cs"]) (simp add: upd_cs_def)

lemma update_cpumask_ok:
  assumes "legacy_ok S" and "is_cpuset_online S cs"
    and "flags trialcs = flags (cpusets S cs)" and "mems_allowed trialcs = mems_allowed (cpusets S cs)"
    and "update_cpumask K cs trialcs buf S = (r, S')"
  shows "legacy_ok S' \<and> (\<exists>x. view S' = view (upd_cs cs (\<lambda>_. x) S) \<and> flags x = flags (cpusets S cs))"
proof (cases "S' = S")
  case True
  with assms(1) view_self show ?thesis by blast
next
  case False
  note ok = legacy_okD [OF assms(1)]
  obtain new where top: "cs \<noteq> top_cpuset" and new: "cpus_allowed (cpusets S cs) \<noteq> new"
    and v: "0 \<le> validate_change K S cs (trialcs\<lparr>cpus_allowed := new\<rparr>)"
    and S': "S' = update_cpumasks_hier K cs (upd_cs cs (set_cpus_allowed new) S)
      \<or> (\<exists>T. partition_root_state (cpusets T cs) \<noteq> 0 \<and> T = update_cpumasks_hier K cs (upd_cs cs (set_cpus_allowed new) S))"
    using assms(5) False ok(6) [OF assms(2)]
    unfolding update_cpumask_def Let_def by (auto split: if_splits sum.splits)
  obtain p where p: "tpar (ctree S) cs = Some p" "p \<noteq> cs" "plain (cpusets S p)"
    using online_parent [OF assms(1,2) top] by blast
  let ?x = "cpusets S cs\<lparr>cpus_allowed := new, effective_cpus := new\<rparr>"
  let ?S1 = "upd_cs cs (set_cpus_allowed new) S"
  let ?S2 = "update_tasks_cpumask cs (upd_cs cs (set_effective new) ?S1)"
  have plain: "plain (cpusets S cs)" "partition_root_state (cpusets S cs) = 0"
    using ok(5,6) [OF assms(2)] top by auto
  have "is_cpuset_subset (trialcs\<lparr>cpus_allowed := new\<rparr>) (cpusets S p)"
    using validate_changeD(3) [OF assms(1) v top p(1)] .
  then have within: "new \<subseteq> effective_cpus (cpusets S p)" using p(3) by (simp add: is_cpuset_subset_def plain_def)
  have okx: "legacy_ok (upd_cs cs (\<lambda>_. ?x) S)"
    using plain assms(2-4)
    by (intro validated_ok [OF assms(1,2) v]) (auto simp: same_rules_def plain_def is_cpuset_online_def)
  have "cpusets (upd_cs cs (set_effective new) ?S1) = cpusets (upd_cs cs (\<lambda>_. ?x) S)"
    using plain by (auto simp: upd_cs_def set_cpus_allowed_def set_effective_def plain_def fun_eq_iff)
  from view_same_cpusets [OF this] have v2: "view ?S2 = view (upd_cs cs (\<lambda>_. ?x) S)" by simp
  then have ok2: "legacy_ok ?S2" using legacy_ok_view [OF v2 [symmetric] okx] by simp
  have turn: "\<exists>need. hier_turn cs cs (?S1, False) = ((?S2, need), Go)"
    using plain p Int_absorb2 [OF within] ok(2) new assms(2)
    by (simp add: hier_turn_def Let_def parent_cs_def compute_effective_cpumask_def set_cpus_allowed_def
        plain_def is_in_v2_mode_def disinherit_ecpus_def is_cpuset_online_def)
  then obtain need where turn: "hier_turn cs cs (?S1, False) = ((?S2, need), Go)" by blast
  have walk: "cpuset_for_each_descendant_pre ?S1 cs (hier_turn cs) (\<lambda>pos (S, _). is_cpuset_online S pos)
      (?S1, False) = (?S2, need)"
  proof (rule walk_settles [where body = "hier_turn cs" and s = "(?S1, False)" and s' = "(?S2, need)",
        OF _ _ _ turn])
    show "sys_ok ?S1" "cs \<in> set (tcss (ctree ?S1))" using ok(1,4) assms(2) by (simp_all add: sys_ok_def)
    show "case (?S1, False) of (S, _) \<Rightarrow> is_cpuset_online S cs"
      using assms(2) by (simp add: is_cpuset_online_def set_cpus_allowed_def Let_def)
    fix d q assume d: "tpar (ctree ?S1) d = Some q" "case (?S2, need) of (S, _) \<Rightarrow> is_cpuset_online S d"
    have "ctree ?S2 = ctree S" using view_eqD(1) [OF v2] by simp
    with d show "hier_turn cs d (?S2, need) = ((?S2, need), Skip)" by (intro hier_turn_idle [OF ok2]) auto
  qed simp
  then have hier: "update_cpumasks_hier K cs ?S1 = (if need then rebuild_sched_domains_locked K ?S2 else ?S2)"
    by (simp add: update_cpumasks_hier_def)
  then have vh: "view (update_cpumasks_hier K cs ?S1) = view ?S2" by simp
  have "partition_root_state (cpusets (update_cpumasks_hier K cs ?S1) cs) = 0"
    using rules_eqD(7) [OF view_eqD(5) [OF trans [OF vh v2]]] plain(2) by simp
  with S' have e: "S' = update_cpumasks_hier K cs ?S1" by auto
  have "view S' = view (upd_cs cs (\<lambda>_. ?x) S)" unfolding e using trans [OF vh v2] .
  moreover have "legacy_ok S'" unfolding e using legacy_ok_view [OF vh [symmetric] ok2] .
  ultimately show ?thesis by (intro conjI exI [of _ ?x]) simp_all
qed

lemma update_nodemask_ok:
  assumes "legacy_ok S" and "is_cpuset_online S cs"
    and "flags trialcs = flags (cpusets S cs)" and "cpus_allowed trialcs = cpus_allowed (cpusets S cs)"
    and "update_nodemask K cs trialcs buf S = (r, S')"
  shows "legacy_ok S' \<and> (\<exists>x. view S' = view (upd_cs cs (\<lambda>_. x) S) \<and> flags x = flags (cpusets S cs))"
proof (cases "S' = S")
  case True
  with assms(1) view_self show ?thesis by blast
next
  case False
  note ok = legacy_okD [OF assms(1)]
  obtain new where top: "cs \<noteq> top_cpuset" and new: "mems_allowed (cpusets S cs) \<noteq> new"
    and v: "0 \<le> validate_change K S cs (trialcs\<lparr>mems_allowed := new\<rparr>)"
    and S': "S' = update_nodemasks_hier K cs (upd_cs cs (\<lambda>x. x\<lparr>mems_allowed := new\<rparr>) S)"
    using assms(5) False unfolding update_nodemask_def Let_def by (auto split: if_splits sum.splits)
  obtain p where p: "tpar (ctree S) cs = Some p" "p \<noteq> cs" "plain (cpusets S p)"
    using online_parent [OF assms(1,2) top] by blast
  let ?x = "cpusets S cs\<lparr>mems_allowed := new, effective_mems := new\<rparr>"
  let ?S1 = "upd_cs cs (\<lambda>x. x\<lparr>mems_allowed := new\<rparr>) S"
  let ?S2 = "update_tasks_nodemask K cs (upd_cs cs (\<lambda>x. x\<lparr>effective_mems := new\<rparr>) ?S1)"
  have plain: "plain (cpusets S cs)" "partition_root_state (cpusets S cs) = 0"
    using ok(5,6) [OF assms(2)] top by auto
  have "is_cpuset_subset (trialcs\<lparr>mems_allowed := new\<rparr>) (cpusets S p)"
    using validate_changeD(3) [OF assms(1) v top p(1)] .
  then have within: "new \<subseteq> effective_mems (cpusets S p)" using p(3) by (simp add: is_cpuset_subset_def plain_def)
  have okx: "legacy_ok (upd_cs cs (\<lambda>_. ?x) S)"
    using plain assms(2-4)
    by (intro validated_ok [OF assms(1,2) v]) (auto simp: same_rules_def plain_def is_cpuset_online_def)
  have "cpusets (upd_cs cs (\<lambda>x. x\<lparr>effective_mems := new\<rparr>) ?S1) = cpusets (upd_cs cs (\<lambda>_. ?x) S)"
    by (auto simp: upd_cs_def fun_eq_iff)
  from view_same_cpusets [OF this] have v2: "view ?S2 = view (upd_cs cs (\<lambda>_. ?x) S)" by simp
  then have ok2: "legacy_ok ?S2" using legacy_ok_view [OF v2 [symmetric] okx] by simp
  have turn: "nodemask_turn K cs ?S1 = (?S2, Go)"
    using plain p Int_absorb2 [OF within] ok(2) new assms(2)
    by (simp add: nodemask_turn_def Let_def parent_cs_def plain_def is_in_v2_mode_def is_cpuset_online_def)
  have "update_nodemasks_hier K cs ?S1 = ?S2"
    unfolding update_nodemasks_hier_def
  proof (rule walk_settles [where body = "nodemask_turn K" and s = ?S1 and s' = ?S2, OF _ _ _ turn])
    show "sys_ok ?S1" "cs \<in> set (tcss (ctree ?S1))" using ok(1,4) assms(2) by (simp_all add: sys_ok_def)
    show "is_cpuset_online ?S1 cs" using assms(2) by (simp add: is_cpuset_online_def)
    fix d q assume d: "tpar (ctree ?S1) d = Some q" "is_cpuset_online ?S2 d"
    have "ctree ?S2 = ctree S" using view_eqD(1) [OF v2] by simp
    with d show "nodemask_turn K d ?S2 = (?S2, Skip)" by (intro nodemask_turn_idle [OF ok2]) auto
  qed simp
  with S' have e: "S' = ?S2" by simp
  show ?thesis unfolding e using ok2 v2 by (intro conjI exI [of _ ?x]) simp_all
qed

end
