(* ===== verification/Cpuset_Steps.thy ===== *)
theory Cpuset_Steps
  imports Cpuset_Legacy
begin

section \<open>Creation, removal and hotplug on the legacy hierarchy\<close>

subsection \<open>What leaves the rules alone\<close>

lemma view_can_attach [simp]: "cpuset_can_attach K tset cs S = (r, S') \<Longrightarrow> view S' = view S"
proof -
  have v: "view (upd_cs cs (\<lambda>x. x\<lparr>attach_in_progress := attach_in_progress x + 1\<rparr>) S) = view S" for S
    by (rule view_upd) (simp add: rules_of_def)
  have "view (S\<lparr>attach_old_cs := c\<rparr>) = view S" for c by (simp add: view_def)
  with v show "cpuset_can_attach K tset cs S = (r, S') \<Longrightarrow> view S' = view S"
    by (auto simp: cpuset_can_attach_def Let_def split: if_splits)
qed

lemma view_cancel_attach [simp]: "view (cpuset_cancel_attach cs S) = view S"
  unfolding cpuset_cancel_attach_def by (rule view_upd) (simp add: rules_of_def)

lemma view_attach [simp]: "view (cpuset_attach K tset cs S) = view S"
proof (cases "guarantee_online_mems S cs")
  case None
  then show ?thesis by (simp add: cpuset_attach_def view_def Let_def)
next
  case (Some m)
  have t: "view (attach_task cs a b t S) = view S" for a b t S by (simp add: attach_task_def)
  have l: "view (attach_leader K cs t S) = view S" for t S by (simp add: attach_leader_def Let_def)
  show ?thesis unfolding cpuset_attach_def Some option.case Let_def
    by (rule trans [OF view_upd]) (simp_all add: rules_of_def view_fold t l)
qed

lemma view_move_task [simp]: "view (move_task t a b S) = view S"
  by (simp add: move_task_def view_def)

lemma view_transfer_loop: "transfer_loop K to from tasks S = (r, S') \<Longrightarrow> view S' = view S"
proof (induction K to "from" tasks S rule: transfer_loop.induct)
  case (1 K to "from" S)
  then show ?case by simp
next
  case (2 K to "from" task tasks S)
  obtain q T where q: "cpuset_can_attach K [task] to S = (q, T)" by fastforce
  show ?case
  proof (cases "task_exiting K task")
    case True
    with 2(1) [OF True] 2(3) show ?thesis by simp
  next
    case False
    show ?thesis
    proof (cases "q = 0")
      case q0: False
      with 2(3) q False have "S' = T" by simp
      then show ?thesis using view_can_attach [OF q] by simp
    next
      case True
      have "view S' = view (cpuset_attach K [task] to (move_task task from to T))"
        using 2(2) [OF False q [symmetric] refl] 2(3) q False True by simp
      then show ?thesis using view_can_attach [OF q] by simp
    qed
  qed
qed

lemma view_transfer: "cgroup_transfer_tasks K to from S = (r, S') \<Longrightarrow> view S' = view S"
  by (auto simp: cgroup_transfer_tasks_def view_transfer_loop split: if_splits)

lemma view_remove_tasks [simp]: "view (remove_tasks_in_empty_cpuset K cs S) = view S"
  using view_transfer by (auto simp: remove_tasks_in_empty_cpuset_def Let_def split: prod.split)

lemma view_fork [simp]: "view (cpuset_fork cs cur m t S) = view S"
  by (simp add: cpuset_fork_def Let_def)

lemma view_bump [simp]: "view (cpuset_memory_pressure_bump now cs S) = view S"
  unfolding cpuset_memory_pressure_bump_def by (rule view_upd) (simp add: rules_of_def)

lemma view_read: "cpuset_read_u64 now cs type S = Some (r, S') \<Longrightarrow> view S' = view S"
proof -
  have "view (upd_cs cs (\<lambda>x. x\<lparr>meter := m\<rparr>) S) = view S" for m by (rule view_upd) (simp add: rules_of_def)
  then show "cpuset_read_u64 now cs type S = Some (r, S') \<Longrightarrow> view S' = view S"
    by (auto simp: cpuset_read_u64_def Let_def split: cpuset_filetype.splits prod.splits)
qed

subsection \<open>Creation and removal\<close>

lemma link_sys_ok:
  assumes "sys_ok S" and "\<forall>d \<in> set (tcss (ctree S)). d < c" and "p \<in> set (tcss (ctree S))"
    and "tpar T = (tpar (ctree S))(c \<mapsto> p)" and "tcss T = tcss (ctree S) @ [c]"
  shows "css_tree_ok T" and "top_cpuset \<in> set (tcss T)"
    and "\<forall>d \<in> set (tcss T). d \<noteq> top_cpuset \<longrightarrow> top_cpuset \<in> set (ancestors (tpar T) d)"
proof -
  let ?par = "tpar (ctree S)"
  have ok: "css_tree_ok (ctree S)" and top: "top_cpuset \<in> set (tcss (ctree S))"
    and below: "\<And>d. d \<in> set (tcss (ctree S)) \<Longrightarrow> d \<noteq> top_cpuset \<Longrightarrow> top_cpuset \<in> set (ancestors ?par d)"
    using assms(1) by (auto simp: sys_ok_def)
  have pc: "p < c" using assms(2,3) by simp
  have tree: "tree_ok (?par(c \<mapsto> p))" using ok pc by (auto simp: css_tree_ok_def tree_ok_def)
  show "css_tree_ok T" using ok assms(2,3) tree by (auto simp: css_tree_ok_def assms(4,5) sorted_wrt_append)
  show "top_cpuset \<in> set (tcss T)" using top assms(5) by simp
  have old: "ancestors (tpar T) d = ancestors ?par d" if "d \<in> set (tcss (ctree S))" for d
    using assms(2) that by (simp add: assms(4) ancestors_upd_greater)
  have "ancestors (tpar T) c = p # ancestors ?par p"
    using ancestors_child [OF tree, of c p] pc by (simp add: assms(4) ancestors_upd_greater)
  then show "\<forall>d \<in> set (tcss T). d \<noteq> top_cpuset \<longrightarrow> top_cpuset \<in> set (ancestors (tpar T) d)"
    using below old assms(3,5) by auto
qed

lemma unlink_sys_ok:
  assumes "sys_ok S" and "kids (ctree S) c = []" and "c \<noteq> top_cpuset"
  shows "sys_ok (unlink_css c S)"
proof -
  have ok: "css_tree_ok (ctree S)" using assms(1) by (simp add: sys_ok_def)
  have "tpar (ctree S) d \<noteq> Some c" if "d \<in> set (tcss (ctree S))" for d
    using in_kids [OF ok, of d c] that assms(2) by auto
  then show ?thesis using assms(1,3)
    by (auto simp: sys_ok_def unlink_css_def css_tree_ok_def sorted_wrt_filter)
qed

text \<open>A new cpuset is empty or a copy of its parent.\<close>

lemma css_online_new:
  assumes "\<not> is_in_v2_mode S" and "tpar (ctree S) c = Some p" and "p \<noteq> c" and "cpusets S c = new_cpuset"
    and "cpuset_css_online c S = (r, S')"
  shows "ctree S' = ctree S" and "css_dying S' = css_dying S" and "is_in_v2_mode S' = is_in_v2_mode S"
    and "d \<noteq> c \<Longrightarrow> cpusets S' d = cpusets S d"
    and "flags (cpusets S' c) \<subseteq> {CS_ONLINE, CS_SCHED_LOAD_BALANCE, CS_SPREAD_PAGE, CS_SPREAD_SLAB}"
    and "CS_ONLINE \<in> flags (cpusets S' c)" and "partition_root_state (cpusets S' c) = 0"
    and "nr_subparts_cpus (cpusets S' c) = 0" and "\<not> use_parent_ecpus (cpusets S' c)"
    and "effective_cpus (cpusets S' c) = cpus_allowed (cpusets S' c)"
    and "effective_mems (cpusets S' c) = mems_allowed (cpusets S' c)"
    and "cpus_allowed (cpusets S' c) = {} \<and> mems_allowed (cpusets S' c) = {}
      \<or> cpus_allowed (cpusets S' c) = cpus_allowed (cpusets S p)
        \<and> mems_allowed (cpusets S' c) = mems_allowed (cpusets S p)
        \<and> (\<forall>d \<in> set (cpuset_children S p). d \<noteq> c \<longrightarrow>
             \<not> is_mem_exclusive (cpusets S d) \<and> \<not> is_cpu_exclusive (cpusets S d))"
proof -
  define F where "F = flags (cpusets S c) \<union> {CS_ONLINE}
    \<union> (if is_spread_page (cpusets S p) then {CS_SPREAD_PAGE} else {})
    \<union> (if is_spread_slab (cpusets S p) then {CS_SPREAD_SLAB} else {})"
  define S2 where "S2 = (upd_cs c (\<lambda>x. x\<lparr>flags := flags x \<union> {CS_ONLINE}
    \<union> (if is_spread_page (cpusets S p) then {CS_SPREAD_PAGE} else {})
    \<union> (if is_spread_slab (cpusets S p) then {CS_SPREAD_SLAB} else {})\<rparr>) S)\<lparr>enabled_key := enabled_key S + 1\<rparr>"
  define S3 where "S3 = upd_cs c (\<lambda>x. x\<lparr>mems_allowed := mems_allowed (cpusets S p), effective_mems := mems_allowed (cpusets S p),
    cpus_allowed := cpus_allowed (cpusets S p), effective_cpus := cpus_allowed (cpusets S p)\<rparr>) S2"
  have S2: "ctree S2 = ctree S" "css_dying S2 = css_dying S" "is_in_v2_mode S2 = is_in_v2_mode S"
    "d \<noteq> c \<Longrightarrow> cpusets S2 d = cpusets S d" "cpusets S2 c = cpusets S c\<lparr>flags := F\<rparr>"
    "clone_children S2 = clone_children S" for d
    by (simp_all add: S2_def F_def upd_cs_def is_in_v2_mode_def)
  have FS: "flags (cpusets S c) = {CS_SCHED_LOAD_BALANCE}" using assms(4) by (simp add: new_cpuset_def)
  have F: "CS_ONLINE \<in> F" "F \<subseteq> {CS_ONLINE, CS_SCHED_LOAD_BALANCE, CS_SPREAD_PAGE, CS_SPREAD_SLAB}"
    unfolding F_def FS by auto
  have free: "\<not> is_mem_exclusive (cpusets S d) \<and> \<not> is_cpu_exclusive (cpusets S d)"
    if "\<not> (\<exists>d \<in> set (cpuset_children S2 p). is_mem_exclusive (cpusets S2 d) \<or> is_cpu_exclusive (cpusets S2 d))"
      "d \<in> set (cpuset_children S p)" "d \<noteq> c" for d
  proof -
    have "d \<in> set (cpuset_children S2 p)"
      using that(2,3) S2(4) [OF that(3)] by (simp add: cpuset_children_def is_cpuset_online_def S2(1,2))
    with that(1) S2(4) [OF that(3)] show ?thesis by auto
  qed
  have "(0, S2) = (r, S') \<or> (0, S3) = (r, S') \<and>
      \<not> (\<exists>d \<in> set (cpuset_children S2 p). is_mem_exclusive (cpusets S2 d) \<or> is_cpu_exclusive (cpusets S2 d))"
  proof -
    have k: "enabled_key (upd_cs c f S) = enabled_key S" for f by simp
    have "\<not> is_in_v2_mode S2" using S2(3) assms(1) by simp
    then show ?thesis
      using assms(5) unfolding cpuset_css_online_def assms(2) option.case Let_def k S2_def [symmetric]
      by (auto simp: S3_def split: if_splits)
  qed
  then have S': "S' = S2 \<or> S' = S3 \<and>
      \<not> (\<exists>d \<in> set (cpuset_children S2 p). is_mem_exclusive (cpusets S2 d) \<or> is_cpu_exclusive (cpusets S2 d))"
    by auto
  have S3: "ctree S3 = ctree S" "css_dying S3 = css_dying S" "is_in_v2_mode S3 = is_in_v2_mode S"
    "d \<noteq> c \<Longrightarrow> cpusets S3 d = cpusets S d"
    "cpusets S3 c = cpusets S2 c\<lparr>mems_allowed := mems_allowed (cpusets S p), effective_mems := mems_allowed (cpusets S p),
       cpus_allowed := cpus_allowed (cpusets S p), effective_cpus := cpus_allowed (cpusets S p)\<rparr>" for d
    using S2(1-4) by (simp_all add: S3_def is_in_v2_mode_def)
  show "ctree S' = ctree S" "css_dying S' = css_dying S" "is_in_v2_mode S' = is_in_v2_mode S"
    "d \<noteq> c \<Longrightarrow> cpusets S' d = cpusets S d"
    "flags (cpusets S' c) \<subseteq> {CS_ONLINE, CS_SCHED_LOAD_BALANCE, CS_SPREAD_PAGE, CS_SPREAD_SLAB}"
    "CS_ONLINE \<in> flags (cpusets S' c)" "partition_root_state (cpusets S' c) = 0"
    "nr_subparts_cpus (cpusets S' c) = 0" "\<not> use_parent_ecpus (cpusets S' c)"
    "effective_cpus (cpusets S' c) = cpus_allowed (cpusets S' c)"
    "effective_mems (cpusets S' c) = mems_allowed (cpusets S' c)"
    using S' F by (auto simp: S2 S3 assms(4) new_cpuset_def)
  show "cpus_allowed (cpusets S' c) = {} \<and> mems_allowed (cpusets S' c) = {}
      \<or> cpus_allowed (cpusets S' c) = cpus_allowed (cpusets S p)
        \<and> mems_allowed (cpusets S' c) = mems_allowed (cpusets S p)
        \<and> (\<forall>d \<in> set (cpuset_children S p). d \<noteq> c \<longrightarrow>
             \<not> is_mem_exclusive (cpusets S d) \<and> \<not> is_cpu_exclusive (cpusets S d))"
    using S' free by (auto simp: S2(5) S3(5) assms(4) new_cpuset_def)
qed

lemma children_self [simp]: "p \<noteq> c \<Longrightarrow> d \<noteq> c \<Longrightarrow> cpusets (link_css c p S) d = cpusets S d"
  by (simp add: link_css_def)

lemma create_ok:
  assumes "legacy_ok S" and "is_cpuset_online S p" and "\<forall>d \<in> set (tcss (ctree S)). d < c"
    and "cpuset_css_alloc ok c (Some p) S = (Inr c, S1)" and "cpuset_css_online c (link_css c p S1) = (r, S')"
  shows "legacy_ok S'"
proof -
  note ok = legacy_okD [OF assms(1)]
  let ?L = "link_css c p S1"
  have S1: "S1 = upd_cs c (\<lambda>_. new_cpuset) S" using assms(4) by (auto simp: cpuset_css_alloc_def split: if_splits)
  have pT: "p \<in> set (tcss (ctree S))" using ok(4) assms(2) by simp
  then have pc: "p \<noteq> c" using assms(3) by auto
  have cT: "c \<notin> set (tcss (ctree S))" using assms(3) by auto
  have top: "top_cpuset \<noteq> c" using ok(1) cT by (auto simp: sys_ok_def)
  have L: "\<not> is_in_v2_mode ?L" "tpar (ctree ?L) = (tpar (ctree S))(c \<mapsto> p)" "tcss (ctree ?L) = tcss (ctree S) @ [c]"
    "cpusets ?L c = new_cpuset" "\<And>d. d \<noteq> c \<Longrightarrow> cpusets ?L d = cpusets S d"
    "css_dying ?L = (css_dying S)(c := False)"
    using ok(2) by (simp_all add: link_css_def S1 is_in_v2_mode_def upd_cs_def)
  have up: "tpar (ctree ?L) c = Some p" by (simp add: L(2))
  note new = css_online_new [OF L(1) up pc L(4) assms(5)]
  have same: "cpusets S' d = cpusets S d" if "d \<noteq> c" for d using new(4) L(5) that by simp
  have on: "is_cpuset_online S' d \<longleftrightarrow> d = c \<or> is_cpuset_online S d" for d
    using new(2,6) same L(6) ok(4) [of c] cT by (cases "d = c") (auto simp: is_cpuset_online_def)
  have offc: "\<not> is_cpuset_online S c" using ok(4) [of c] cT by blast
  have par: "tpar (ctree S') d = (if d = c then Some p else tpar (ctree S) d)" for d
    using new(1) L(2) by simp
  have noc: "tpar (ctree S) d \<noteq> Some c" if "is_cpuset_online S d" for d
    using ok(7) [OF that] offc by blast
  have excl: "\<not> is_cpu_exclusive (cpusets S' c)" "\<not> is_mem_exclusive (cpusets S' c)"
    using new(5) by (auto simp: flag_tests)
  have "sys_ok S'"
    using link_sys_ok [OF ok(1) assms(3) pT] new(1) L(2,3) by (simp add: sys_ok_def)
  moreover have "\<not> is_in_v2_mode S'" using new(3) L(1) by simp
  moreover have "is_cpuset_online S' top_cpuset" using on ok(3) by simp
  moreover have "partition_root_state (cpusets S' d) = 0 \<and> \<not> use_parent_ecpus (cpusets S' d)"
    if "d \<in> set (tcss (ctree S'))" "d \<noteq> top_cpuset" for d
    using that new(1,7,9) L(3) ok(10) [of d] same [of d] by (cases "d = c") auto
  moreover have "d \<in> set (tcss (ctree S')) \<and> plain (cpusets S' d)" if "is_cpuset_online S' d" for d
  proof (cases "d = c")
    case True
    with new(1,7-11) L(3) show ?thesis by (simp add: plain_def)
  next
    case False
    with that on ok(4,5) [of d] show ?thesis by (simp add: same new(1) L(3))
  qed
  moreover have "is_cpuset_online S' q \<and> is_cpuset_subset (cpusets S' d) (cpusets S' q)"
    if "is_cpuset_online S' d" "tpar (ctree S') d = Some q" for d q
  proof (cases "d = c")
    case True
    then have "q = p" using that par by simp
    with True new(12) excl show ?thesis
      using assms(2) on same [of p] L(5) [OF pc] pc by (auto simp: is_cpuset_subset_def)
  next
    case False
    then have d: "is_cpuset_online S d" "tpar (ctree S) d = Some q" using that on par by auto
    then have "q \<noteq> c" using noc by auto
    with d ok(7,8) [OF d] False on same show ?thesis by simp
  qed
  moreover have "\<not> exclusive_clash (cpusets S' d) (cpusets S' e)"
    if "is_cpuset_online S' d" "is_cpuset_online S' e" "d \<noteq> e"
      "tpar (ctree S') d = Some q" "tpar (ctree S') e = Some q" for d e q
  proof -
    have clash: "\<not> exclusive_clash (cpusets S' c) (cpusets S x) \<and> \<not> exclusive_clash (cpusets S x) (cpusets S' c)"
      if x: "is_cpuset_online S x" "tpar (ctree S) x = Some p" "x \<noteq> c" for x
    proof -
      have xT: "x \<in> set (tcss (ctree S))" using ok(4) x(1) by simp
      have okT: "css_tree_ok (ctree ?L)"
        using link_sys_ok(1) [OF ok(1) assms(3) pT L(2,3)] .
      have "x \<in> set (cpuset_children ?L p)"
        using x xT in_kids [OF okT, of x p] L(2,3,5,6)
        by (simp add: cpuset_children_def is_cpuset_online_def)
      with new(12) excl x(3) L(5) [OF x(3)] show ?thesis by (auto simp: exclusive_clash_def)
    qed
    show ?thesis
      using that ok(9) [of d e q] clash [of d] clash [of e] on par same
      by (cases "d = c"; cases "e = c") auto
  qed
  ultimately show ?thesis unfolding legacy_ok_def by blast
qed

text \<open>A cpuset that is no longer online is not bound by the rules.\<close>

lemma fewer_online_ok:
  assumes "legacy_ok S" and "sys_ok S'" and "is_in_v2_mode S' = is_in_v2_mode S"
    and "tpar (ctree S') = tpar (ctree S)" and "is_cpuset_online S' top_cpuset"
    and "\<And>c. is_cpuset_online S' c \<Longrightarrow> is_cpuset_online S c \<and> c \<in> set (tcss (ctree S'))
      \<and> rules_of (cpusets S' c) = rules_of (cpusets S c)"
    and "\<And>c p. is_cpuset_online S' c \<Longrightarrow> tpar (ctree S) c = Some p \<Longrightarrow> is_cpuset_online S' p"
    and "\<And>c. c \<in> set (tcss (ctree S')) \<Longrightarrow> c \<noteq> top_cpuset \<Longrightarrow> c \<in> set (tcss (ctree S))
      \<and> partition_root_state (cpusets S' c) = partition_root_state (cpusets S c)
      \<and> use_parent_ecpus (cpusets S' c) = use_parent_ecpus (cpusets S c)"
  shows "legacy_ok S'"
proof -
  note ok = legacy_okD [OF assms(1)]
  have r: "rules_of (cpusets S' c) = rules_of (cpusets S c)" if "is_cpuset_online S' c" for c
    using assms(6) [OF that] by simp
  have pl: "plain (cpusets S' c)" if "is_cpuset_online S' c" for c
    using rules_tests(1) [OF r r, OF that that] ok(5) assms(6) [OF that] by simp
  have su: "is_cpuset_subset (cpusets S' c) (cpusets S' p)"
    if c: "is_cpuset_online S' c" and p: "tpar (ctree S) c = Some p" for c p
    using rules_tests(2) [OF r [OF c] r [OF assms(7) [OF c p]]] ok(8) [OF _ p] assms(6) [OF c] by simp
  have cl: "\<not> exclusive_clash (cpusets S' c) (cpusets S' d)"
    if c: "is_cpuset_online S' c" and d: "is_cpuset_online S' d"
      and n: "c \<noteq> d" "tpar (ctree S) c = Some p" "tpar (ctree S) d = Some p" for c d p
    using rules_tests(3) [OF r [OF c] r [OF d]] ok(9) [OF _ _ n] assms(6) [OF c] assms(6) [OF d] by simp
  have se: "partition_root_state (cpusets S' c) = 0 \<and> \<not> use_parent_ecpus (cpusets S' c)"
    if "c \<in> set (tcss (ctree S'))" "c \<noteq> top_cpuset" for c
    using assms(8) [OF that] ok(10) [OF _ that(2)] by simp
  show ?thesis
    unfolding legacy_ok_def assms(3,4)
    by (intro conjI allI impI ballI) (use assms(2,5,6,7) ok(2) pl su cl se in blast)+
qed

lemma top_no_parent: "sys_ok S \<Longrightarrow> tpar (ctree S) top_cpuset = None"
  by (cases "tpar (ctree S) top_cpuset") (auto simp: sys_ok_def css_tree_ok_def tree_ok_def top_cpuset_def)

lemma kill_ok:
  assumes "legacy_ok S" and "c \<noteq> top_cpuset" and "\<forall>d. tpar (ctree S) d = Some c \<longrightarrow> \<not> is_cpuset_online S d"
  shows "legacy_ok (S\<lparr>css_dying := (css_dying S)(c := True)\<rparr>)"
proof -
  let ?S = "S\<lparr>css_dying := (css_dying S)(c := True)\<rparr>"
  note ok = legacy_okD [OF assms(1)]
  have on: "is_cpuset_online ?S d \<longleftrightarrow> d \<noteq> c \<and> is_cpuset_online S d" for d
    by (auto simp: is_cpuset_online_def)
  show ?thesis
  proof (rule fewer_online_ok [OF assms(1)])
    show "sys_ok ?S" using ok(1) by (simp add: sys_ok_def)
    show "is_cpuset_online ?S top_cpuset" using ok(3) assms(2) on by simp
  next
    fix d assume "is_cpuset_online ?S d"
    then have "is_cpuset_online S d" using on by simp
    then show "is_cpuset_online S d \<and> d \<in> set (tcss (ctree ?S)) \<and> rules_of (cpusets ?S d) = rules_of (cpusets S d)"
      using ok(4) by simp
  next
    fix d p assume d: "is_cpuset_online ?S d" "tpar (ctree S) d = Some p"
    then show "is_cpuset_online ?S p" using on ok(7) assms(3) by auto
  qed (simp_all add: is_in_v2_mode_def)
qed

text \<open>Going offline changes the cpuset itself, which is dying.\<close>

lemma update_flag_dying:
  assumes "update_flag K ok b cs turning_on S = (r, S')" and "css_dying S cs" and "legacy_ok S"
  shows "legacy_ok S' \<and> css_dying S' cs \<and> view S' = view (upd_cs cs (\<lambda>_. cpusets S' cs) S)"
proof -
  obtain F where v: "view S' = view (upd_cs cs (\<lambda>x. x\<lparr>flags := F\<rparr>) S)"
  proof (cases "S' = S")
    case True
    have "upd_cs cs (\<lambda>x. x\<lparr>flags := flags (cpusets S cs)\<rparr>) S = S" by (simp add: upd_cs_def)
    with True show thesis by (intro that [of "flags (cpusets S cs)"]) simp
  next
    case False
    with update_flag_outcomes [OF assms(1)] show thesis by (auto intro: that)
  qed
  note d = view_eqD [OF v] and ok = legacy_okD [OF assms(3)]
  have off: "\<not> is_cpuset_online S cs" using assms(2) by (simp add: is_cpuset_online_def)
  have dying: "css_dying S' cs" using d(2) assms(2) by simp
  have on: "is_cpuset_online S' c \<longleftrightarrow> is_cpuset_online S c" for c
    using d(2) rules_eqD(1) [OF d(5), of c] assms(2) by (cases "c = cs") (auto simp: is_cpuset_online_def)
  have "legacy_ok S'"
  proof (rule fewer_online_ok [OF assms(3)])
    show "sys_ok S'" using ok(1) d(1) by (simp add: sys_ok_def)
    show "is_in_v2_mode S' = is_in_v2_mode S" using d(7) by (simp add: is_in_v2_mode_def)
    show "tpar (ctree S') = tpar (ctree S)" using d(1) by simp
    show "is_cpuset_online S' top_cpuset" using on ok(3) by simp
  next
    fix c assume "is_cpuset_online S' c"
    then show "is_cpuset_online S c \<and> c \<in> set (tcss (ctree S')) \<and> rules_of (cpusets S' c) = rules_of (cpusets S c)"
      using on ok(4) d(1) d(5) [of c] off by (cases "c = cs") auto
  next
    fix c p assume "is_cpuset_online S' c" "tpar (ctree S) c = Some p"
    then show "is_cpuset_online S' p" using on ok(7) by simp
  next
    fix c assume "c \<in> set (tcss (ctree S'))"
    then show "c \<in> set (tcss (ctree S)) \<and> partition_root_state (cpusets S' c) = partition_root_state (cpusets S c)
      \<and> use_parent_ecpus (cpusets S' c) = use_parent_ecpus (cpusets S c)"
      using d(1) rules_eqD(7,8) [OF d(5), of c] by (cases "c = cs") auto
  qed
  moreover have "view S' = view (upd_cs cs (\<lambda>_. cpusets S' cs) S)"
    using v unfolding view_def by (auto simp: fun_eq_iff upd_cs_def)
  ultimately show ?thesis using dying by blast
qed

lemma offline_ok:
  assumes "legacy_ok S" and "css_dying S c" and "c \<noteq> top_cpuset"
    and "c \<in> set (tcss (ctree S))"
  shows "legacy_ok (cpuset_css_offline K ok ok' c S)"
proof -
  note ok = legacy_okD [OF assms(1)]
  have prs: "partition_root_state (cpusets S c) = 0" "\<not> use_parent_ecpus (cpusets S c)"
    using ok(10) assms(3,4) by auto
  define S1 where "S1 = (if is_sched_load_balance (cpusets S c)
    then snd (update_flag K ok CS_SCHED_LOAD_BALANCE c 0 S) else S)"
  have S1: "legacy_ok S1 \<and> css_dying S1 c \<and> \<not> use_parent_ecpus (cpusets S1 c)"
  proof (cases "is_sched_load_balance (cpusets S c)")
    case True
    obtain r T where T: "update_flag K ok CS_SCHED_LOAD_BALANCE c 0 S = (r, T)" by fastforce
    have "use_parent_ecpus (cpusets T c) = use_parent_ecpus (cpusets S c)"
    proof (cases "T = S")
      case False
      then obtain F where "view T = view (upd_cs c (\<lambda>x. x\<lparr>flags := F\<rparr>) S)"
        using update_flag_outcomes [OF T] by blast
      from rules_eqD(8) [OF view_eqD(5) [OF this], of c] show ?thesis by simp
    qed simp
    with T True update_flag_dying [OF T assms(2,1)] prs(2) show ?thesis by (simp add: S1_def)
  qed (use assms prs in \<open>simp add: S1_def\<close>)
  have "\<not> is_partition_root (cpusets S c)" "\<not> on_dfl S"
    using prs(1) ok(2) by (auto simp: is_partition_root_def is_in_v2_mode_def)
  then have off: "cpuset_css_offline K ok ok' c S =
      upd_cs c (\<lambda>x. x\<lparr>flags := flags x - {CS_ONLINE}\<rparr>) (S1\<lparr>enabled_key := enabled_key S1 - 1\<rparr>)"
    using S1 by (auto simp: cpuset_css_offline_def Let_def S1_def disinherit_ecpus_def)
  let ?S = "upd_cs c (\<lambda>x. x\<lparr>flags := flags x - {CS_ONLINE}\<rparr>) (S1\<lparr>enabled_key := enabled_key S1 - 1\<rparr>)"
  have S1ok: "legacy_ok S1" using S1 by simp
  note ok1 = legacy_okD [OF S1ok]
  have "\<not> is_cpuset_online S1 c" using S1 by (simp add: is_cpuset_online_def)
  then have on: "is_cpuset_online ?S d \<longleftrightarrow> is_cpuset_online S1 d" for d
    by (auto simp: is_cpuset_online_def upd_cs_def)
  have "legacy_ok ?S"
  proof (rule fewer_online_ok [OF S1ok])
    show "sys_ok ?S" using ok1(1) by (simp add: sys_ok_def)
    show "is_cpuset_online ?S top_cpuset" using on ok1(3) by simp
  next
    fix d assume d: "is_cpuset_online ?S d"
    then have "is_cpuset_online S1 d" "d \<noteq> c" using on \<open>\<not> is_cpuset_online S1 c\<close> by blast+
    then show "is_cpuset_online S1 d \<and> d \<in> set (tcss (ctree ?S)) \<and> rules_of (cpusets ?S d) = rules_of (cpusets S1 d)"
      using ok1(4) by (simp add: upd_cs_def)
  next
    fix d p assume "is_cpuset_online ?S d" "tpar (ctree S1) d = Some p"
    then show "is_cpuset_online ?S p" using on ok1(7) by simp
  qed (simp_all add: is_in_v2_mode_def upd_cs_def)
  with off show ?thesis by simp
qed

lemma free_ok:
  assumes "legacy_ok S" and "c \<noteq> top_cpuset" and "kids (ctree S) c = []" and "\<not> is_cpuset_online S c"
  shows "legacy_ok (unlink_css c S)"
proof (rule fewer_online_ok [OF assms(1)])
  note ok = legacy_okD [OF assms(1)]
  have on: "is_cpuset_online (unlink_css c S) d = is_cpuset_online S d" for d
    by (simp add: unlink_css_def is_cpuset_online_def)
  show "sys_ok (unlink_css c S)" using unlink_sys_ok [OF ok(1) assms(3,2)] .
  show "is_cpuset_online (unlink_css c S) top_cpuset" using on ok(3) by simp
  fix d assume "is_cpuset_online (unlink_css c S) d"
  then show "is_cpuset_online S d \<and> d \<in> set (tcss (ctree (unlink_css c S)))
      \<and> rules_of (cpusets (unlink_css c S) d) = rules_of (cpusets S d)"
    using on ok(4) assms(4) by (auto simp: unlink_css_def)
  fix p assume "tpar (ctree S) d = Some p"
  then show "is_cpuset_online (unlink_css c S) p"
    using \<open>is_cpuset_online (unlink_css c S) d\<close> on ok(7) by simp
qed (simp_all add: unlink_css_def is_in_v2_mode_def)

end
