(* ===== verification/Cpuset_Hotplug.thy ===== *)
theory Cpuset_Hotplug
  imports Cpuset_Steps
begin

section \<open>Hotplug on the legacy hierarchy\<close>

text \<open>
  Hotplug changes the masks of the top cpuset and then walks down, cutting every cpuset to its
  parent.  \<open>midway\<close> is the state of the walk: the rules hold for the cpusets in \<open>seen\<close>, the others
  have their old masks.
\<close>

definition hot_turn :: "kernel \<Rightarrow> nat \<Rightarrow> cpuset_sys \<Rightarrow> cpuset_sys" where
  "hot_turn K c S =
     (if is_cpuset_online S c \<and> c \<noteq> top_cpuset then cpuset_hotplug_update_tasks K False c S else S)"

definition cut :: "cpuset \<Rightarrow> cpuset \<Rightarrow> cpuset" where
  "cut par x = x\<lparr>cpus_allowed := cpus_allowed x \<inter> effective_cpus par,
     effective_cpus := cpus_allowed x \<inter> effective_cpus par,
     mems_allowed := mems_allowed x \<inter> effective_mems par,
     effective_mems := mems_allowed x \<inter> effective_mems par\<rparr>"

lemma view_legacy_tasks:
  "view (hotplug_update_tasks_legacy K cs new_cpus new_mems a b S) =
     view (upd_cs cs (\<lambda>x. x\<lparr>cpus_allowed := new_cpus, effective_cpus := new_cpus,
       mems_allowed := new_mems, effective_mems := new_mems\<rparr>) S)"
  by (simp add: hotplug_update_tasks_legacy_def Let_def)

lemma view_hot_turn:
  assumes "is_cpuset_online S c" and "c \<noteq> top_cpuset" and "tpar (ctree S) c = Some p"
    and "nr_subparts_cpus (cpusets S c) = 0" and "nr_subparts_cpus (cpusets S p) = 0" and "\<not> is_in_v2_mode S"
  shows "view (hot_turn K c S) = view (upd_cs c (cut (cpusets S p)) S)"
proof -
  let ?c = "cpus_allowed (cpusets S c) \<inter> effective_cpus (cpusets S p)"
  let ?m = "mems_allowed (cpusets S c) \<inter> effective_mems (cpusets S p)"
  have "hot_turn K c S = hotplug_update_tasks_legacy K c ?c ?m
      (?c \<noteq> effective_cpus (cpusets S c)) (?m \<noteq> effective_mems (cpusets S c)) S"
    using assms by (simp add: hot_turn_def cpuset_hotplug_update_tasks_def parent_cs_def
        compute_effective_cpumask_def Let_def)
  then show ?thesis by (simp add: view_legacy_tasks upd_cs_def cut_def)
qed

definition midway :: "cpuset_sys \<Rightarrow> nat set \<Rightarrow> cpuset_sys \<Rightarrow> bool" where
  "midway B seen S \<longleftrightarrow> ctree S = ctree B \<and> css_dying S = css_dying B \<and> is_in_v2_mode S = is_in_v2_mode B
     \<and> enabled_key S = enabled_key B
     \<and> (\<forall>c. flags (cpusets S c) = flags (cpusets B c)
          \<and> partition_root_state (cpusets S c) = partition_root_state (cpusets B c)
          \<and> use_parent_ecpus (cpusets S c) = use_parent_ecpus (cpusets B c))
     \<and> (\<forall>c. is_cpuset_online B c \<longrightarrow> plain (cpusets S c))
     \<and> (\<forall>c. c \<noteq> top_cpuset \<longrightarrow> cpus_allowed (cpusets S c) \<subseteq> cpus_allowed (cpusets B c)
          \<and> mems_allowed (cpusets S c) \<subseteq> mems_allowed (cpusets B c))
     \<and> (\<forall>c p. c \<in> seen \<longrightarrow> tpar (ctree B) c = Some p \<longrightarrow> p \<in> seen \<and> (is_cpuset_online B c \<longrightarrow>
          cpus_allowed (cpusets S c) \<subseteq> cpus_allowed (cpusets S p)
          \<and> mems_allowed (cpusets S c) \<subseteq> mems_allowed (cpusets S p)))"

lemma midwayD:
  assumes "midway B seen S"
  shows "ctree S = ctree B" and "css_dying S = css_dying B" and "is_in_v2_mode S = is_in_v2_mode B"
    and "enabled_key S = enabled_key B" and "flags (cpusets S c) = flags (cpusets B c)"
    and "partition_root_state (cpusets S c) = partition_root_state (cpusets B c)"
    and "use_parent_ecpus (cpusets S c) = use_parent_ecpus (cpusets B c)"
    and "is_cpuset_online B c \<Longrightarrow> plain (cpusets S c)"
    and "c \<noteq> top_cpuset \<Longrightarrow> cpus_allowed (cpusets S c) \<subseteq> cpus_allowed (cpusets B c)"
    and "c \<noteq> top_cpuset \<Longrightarrow> mems_allowed (cpusets S c) \<subseteq> mems_allowed (cpusets B c)"
    and "c \<in> seen \<Longrightarrow> tpar (ctree B) c = Some p \<Longrightarrow> p \<in> seen"
    and "c \<in> seen \<Longrightarrow> tpar (ctree B) c = Some p \<Longrightarrow> is_cpuset_online B c \<Longrightarrow>
      cpus_allowed (cpusets S c) \<subseteq> cpus_allowed (cpusets S p)"
    and "c \<in> seen \<Longrightarrow> tpar (ctree B) c = Some p \<Longrightarrow> is_cpuset_online B c \<Longrightarrow>
      mems_allowed (cpusets S c) \<subseteq> mems_allowed (cpusets S p)"
    and "is_cpuset_online S = is_cpuset_online B"
  using assms unfolding midway_def by (auto simp: is_cpuset_online_def fun_eq_iff)

lemma midway_view:
  assumes "view S = view S'" and "midway B seen S"
  shows "midway B seen S'"
proof -
  note v = view_eqD [OF assms(1)]
  note r = rules_eqD [OF v(5)] and t = rules_tests(1) [OF v(5) v(5)]
  have "enabled_key S = enabled_key S'" using assms(1) by (simp add: view_def)
  then show ?thesis using assms(2) unfolding midway_def by (simp add: v(1,2,7) r t)
qed

lemma midway_grow:
  assumes "legacy_ok B" and "midway B seen S" and "d \<notin> seen" and "d \<noteq> top_cpuset"
    and "tpar (ctree B) d = Some p" and "p \<in> seen"
  shows "midway B (insert d seen) (hot_turn K d S)"
proof -
  note ok = legacy_okD [OF assms(1)] and m = midwayD [OF assms(2)]
  have pd: "p \<noteq> d" using assms(3,6) by auto
  have noseen: "tpar (ctree B) c \<noteq> Some d" if "c \<in> seen" for c using m(11) [OF that] assms(3) by blast
  show ?thesis
  proof (cases "is_cpuset_online B d")
    case False
    then have "hot_turn K d S = S" by (simp add: hot_turn_def m(14))
    with assms(2,5,6) False show ?thesis unfolding midway_def by auto
  next
    case True
    have p: "is_cpuset_online B p" using ok(7) [OF True assms(5)] .
    have pl: "plain (cpusets S d)" "plain (cpusets S p)" using m(8) True p by auto
    let ?S = "upd_cs d (cut (cpusets S p)) S"
    have v: "view (hot_turn K d S) = view ?S"
      using pl assms(4,5) True m(1,3,14) ok(2) by (intro view_hot_turn) (simp_all add: plain_def)
    have "midway B (insert d seen) ?S"
      unfolding midway_def
    proof (intro conjI allI impI)
      fix c assume "is_cpuset_online B c"
      then show "plain (cpusets ?S c)" using m(8) pl by (cases "c = d") (auto simp: cut_def plain_def)
    next
      fix c assume "c \<noteq> top_cpuset"
      from m(9,10) [OF this]
      show "cpus_allowed (cpusets ?S c) \<subseteq> cpus_allowed (cpusets B c)"
        and "mems_allowed (cpusets ?S c) \<subseteq> mems_allowed (cpusets B c)"
        by (cases "c = d"; auto simp: cut_def)+
    next
      fix c q assume c: "c \<in> insert d seen" "tpar (ctree B) c = Some q"
      then show "q \<in> insert d seen" using m(11) assms(5,6) by auto
      assume on: "is_cpuset_online B c"
      show "cpus_allowed (cpusets ?S c) \<subseteq> cpus_allowed (cpusets ?S q)"
        and "mems_allowed (cpusets ?S c) \<subseteq> mems_allowed (cpusets ?S q)"
        using c on m(12,13) [of c q] noseen [of c] assms(5) pd pl by (cases "c = d"; auto simp: cut_def plain_def)+
    qed (use m(1-7) in \<open>auto simp: cut_def is_in_v2_mode_def upd_cs_def\<close>)
    then show ?thesis by (rule midway_view [OF v [symmetric]])
  qed
qed

lemma midway_fold:
  assumes "legacy_ok B" and "midway B seen S" and "distinct ds" and "set ds \<inter> seen = {}"
    and "top_cpuset \<in> seen" and "parents_first (tpar (ctree B)) seen ds"
  shows "midway B (seen \<union> set ds) (fold (hot_turn K) ds S)"
  using assms(2-6)
proof (induction ds arbitrary: seen S)
  case Nil
  then show ?case by simp
next
  case (Cons d ds)
  then obtain p where p: "tpar (ctree B) d = Some p" "p \<in> seen" "parents_first (tpar (ctree B)) (insert d seen) ds"
    by (auto split: option.splits)
  have "midway B (insert d seen) (hot_turn K d S)"
    using Cons.prems by (intro midway_grow [OF assms(1) _ _ _ p(1,2)]) auto
  from Cons.IH [OF this _ _ _ p(3)] Cons.prems show ?case by auto
qed

lemma midway_done:
  assumes "legacy_ok B" and "midway B seen S" and "set (tcss (ctree B)) \<subseteq> seen"
  shows "legacy_ok S"
proof -
  note ok = legacy_okD [OF assms(1)] and m = midwayD [OF assms(2)]
  have seen: "c \<in> seen" if "is_cpuset_online B c" for c using ok(4) [OF that] assms(3) by blast
  have su: "is_cpuset_subset (cpusets S c) (cpusets S p)"
    if c: "is_cpuset_online B c" and p: "tpar (ctree B) c = Some p" for c p
    using m(12,13) [OF seen [OF c] p c] ok(8) [OF c p]
    by (simp add: is_cpuset_subset_def flag_tests m(5))
  have cl: "\<not> exclusive_clash (cpusets S c) (cpusets S d)"
    if c: "is_cpuset_online B c" and d: "is_cpuset_online B d"
      and n: "c \<noteq> d" "tpar (ctree B) c = Some p" "tpar (ctree B) d = Some p" for c d p
  proof -
    have "c \<noteq> top_cpuset" "d \<noteq> top_cpuset" using n(2,3) top_no_parent [OF ok(1)] by auto
    from m(9,10) [OF this(1)] m(9,10) [OF this(2)] ok(9) [OF c d n] show ?thesis
      by (auto simp: exclusive_clash_def flag_tests m(5))
  qed
  have sys: "sys_ok S" using ok(1) by (simp add: sys_ok_def m(1))
  have se: "partition_root_state (cpusets S c) = 0 \<and> \<not> use_parent_ecpus (cpusets S c)"
    if "c \<in> set (tcss (ctree B))" "c \<noteq> top_cpuset" for c
    using ok(10) [OF that] by (simp add: m(6,7))
  show ?thesis
    unfolding legacy_ok_def m(1,3,14)
    by (intro conjI allI impI ballI) (use sys ok(2,3,4,7) m(8) su cl se in blast)+
qed

text \<open>The top cpuset is changed first.\<close>

lemma midway_top:
  assumes "legacy_ok B" and "plain x" and "flags x = flags (cpusets B top_cpuset)"
    and "partition_root_state x = partition_root_state (cpusets B top_cpuset)"
    and "view S = view (upd_cs top_cpuset (\<lambda>_. x) B)"
  shows "midway B {top_cpuset} S"
proof -
  note ok = legacy_okD [OF assms(1)]
  have "plain (cpusets B top_cpuset)" using ok(3,5) by simp
  have "midway B {top_cpuset} (upd_cs top_cpuset (\<lambda>_. x) B)"
    unfolding midway_def
  proof (intro conjI allI impI)
    fix c assume "is_cpuset_online B c"
    then show "plain (cpusets (upd_cs top_cpuset (\<lambda>_. x) B) c)"
      using ok(5) assms(2) by (cases "c = top_cpuset") auto
  next
    fix c p assume "c \<in> {top_cpuset}" "tpar (ctree B) c = Some p"
    then show "p \<in> {top_cpuset}" using top_no_parent [OF ok(1)] by simp
    assume "is_cpuset_online B c"
    show "cpus_allowed (cpusets (upd_cs top_cpuset (\<lambda>_. x) B) c) \<subseteq> cpus_allowed (cpusets (upd_cs top_cpuset (\<lambda>_. x) B) p)"
      and "mems_allowed (cpusets (upd_cs top_cpuset (\<lambda>_. x) B) c) \<subseteq> mems_allowed (cpusets (upd_cs top_cpuset (\<lambda>_. x) B) p)"
      using \<open>c \<in> {top_cpuset}\<close> \<open>tpar (ctree B) c = Some p\<close> top_no_parent [OF ok(1)] by auto
  qed (use assms(2-4) \<open>plain (cpusets B top_cpuset)\<close> in \<open>auto simp: is_in_v2_mode_def upd_cs_def plain_def\<close>)
  then show ?thesis by (rule midway_view [OF assms(5) [symmetric]])
qed

lemma hot_walk:
  assumes "sys_ok S"
  shows "cpuset_for_each_descendant_pre S top_cpuset
      (\<lambda>c S. if c = top_cpuset \<or> css_dying S c then (S, Go) else (cpuset_hotplug_update_tasks K False c S, Go))
      (\<lambda>pos S. is_cpuset_online S pos) S = fold (hot_turn K) (pre_order (ctree S) top_cpuset) S"
proof -
  have T: "css_tree_ok (ctree S)" "top_cpuset \<in> set (tcss (ctree S))" using assms by (auto simp: sys_ok_def)
  have pre: "pruned U (\<lambda>_. False) c = pre_order U c" for U c
  proof (induction U c rule: pre_order.induct)
    case (1 U c)
    then show ?case by (simp add: pruned.simps [of U _ c] pre_order.simps [of U c] cong: map_cong)
  qed
  show ?thesis
    unfolding cpuset_for_each_descendant_pre_def
    by (subst for_each_pruned [OF T, where f = "hot_turn K" and skip = "\<lambda>_. False"])
      (auto simp: hot_turn_def pre is_cpuset_online_def)
qed

lemma hotplug_ok:
  assumes "legacy_ok S"
  shows "legacy_ok (cpuset_hotplug_workfn K S) \<and> enabled_key (cpuset_hotplug_workfn K S) = enabled_key S
    \<and> ctree (cpuset_hotplug_workfn K S) = ctree S
    \<and> (\<forall>c. flags (cpusets (cpuset_hotplug_workfn K S) c) = flags (cpusets S c))"
proof -
  note ok = legacy_okD [OF assms]
  have top: "plain (cpusets S top_cpuset)" using ok(3,5) by simp
  let ?c = "effective_cpus (cpusets S top_cpuset) \<noteq> cpu_active_mask S"
  let ?m = "effective_mems (cpusets S top_cpuset) \<noteq> n_memory S"
  define S1 where "S1 = (if ?c then hotplug_top_cpus S else S)"
  define S2 where "S2 = (if ?m then hotplug_top_mems K S1 else S1)"
  define S3 where "S3 = (if ?c \<or> ?m then fold (hot_turn K) (pre_order (ctree S2) top_cpuset) S2 else S2)"
  let ?x = "(cpusets S top_cpuset)\<lparr>cpus_allowed := if ?c then cpu_active_mask S else cpus_allowed (cpusets S top_cpuset),
    effective_cpus := if ?c then cpu_active_mask S else effective_cpus (cpusets S top_cpuset),
    mems_allowed := if ?m then n_memory S else mems_allowed (cpusets S top_cpuset),
    effective_mems := if ?m then n_memory S else effective_mems (cpusets S top_cpuset)\<rparr>"
  let ?y = "(cpusets S top_cpuset)\<lparr>cpus_allowed := if ?c then cpu_active_mask S else cpus_allowed (cpusets S top_cpuset),
    effective_cpus := if ?c then cpu_active_mask S else effective_cpus (cpusets S top_cpuset)\<rparr>"
  have S1: "S1 = upd_cs top_cpuset (\<lambda>_. ?y) S"
  proof (cases ?c)
    case True
    then show ?thesis
      using ok(2) top by (simp add: S1_def hotplug_top_cpus_def Let_def plain_def upd_cs_def)
  next
    case False
    then have "?y = cpusets S top_cpuset" by simp
    then have "upd_cs top_cpuset (\<lambda>_. ?y) S = S" unfolding upd_cs_def by (simp only: fun_upd_triv) simp
    with False show ?thesis by (simp only: S1_def if_False)
  qed
  have nomode: "\<not> is_in_v2_mode S1" "n_memory S1 = n_memory S"
    using ok(2) by (simp_all add: S1 is_in_v2_mode_def)
  have "view S2 = view (upd_cs top_cpuset (\<lambda>_. ?x) S)"
  proof (cases ?m)
    case True
    have "view S2 = view (upd_cs top_cpuset (\<lambda>x. x\<lparr>effective_mems := n_memory S\<rparr>)
        (upd_cs top_cpuset (\<lambda>x. x\<lparr>mems_allowed := n_memory S\<rparr>) S1))"
      using True nomode by (simp add: S2_def hotplug_top_mems_def Let_def)
    also have "\<dots> = view (upd_cs top_cpuset (\<lambda>_. ?x) S)"
      using True by (simp add: S1 upd_cs_def)
    finally show ?thesis .
  next
    case False
    then have "S2 = upd_cs top_cpuset (\<lambda>_. ?y) S" using S1 by (simp only: S2_def if_False)
    moreover have "?x = ?y" unfolding if_not_P [OF False] by simp
    ultimately show ?thesis by simp
  qed
  then have m2: "midway S {top_cpuset} S2"
    using top by (intro midway_top [OF assms, of ?x]) (auto simp: plain_def)
  note d2 = midwayD [OF m2]
  have "legacy_ok S3 \<and> enabled_key S3 = enabled_key S \<and> ctree S3 = ctree S
      \<and> (\<forall>c. flags (cpusets S3 c) = flags (cpusets S c))"
  proof (cases "?c \<or> ?m")
    case True
    obtain rest where rest: "pre_order (ctree S) top_cpuset = top_cpuset # rest"
      "parents_first (tpar (ctree S)) {top_cpuset} rest"
      using pre_order_parents_first by blast
    have T: "css_tree_ok (ctree S)" "top_cpuset \<in> set (tcss (ctree S))" using ok(1) by (auto simp: sys_ok_def)
    have dist: "distinct (top_cpuset # rest)" using distinct_pre_order [OF T(1), of top_cpuset] rest(1) by simp
    have all: "set (tcss (ctree S)) \<subseteq> {top_cpuset} \<union> set rest"
    proof -
      have "set (top_cpuset # rest) = {c. in_subtree (ctree S) top_cpuset c}"
        using set_pre_order [OF T] rest(1) by simp
      then show ?thesis using ok(1) by (auto simp: in_subtree_def sys_ok_def)
    qed
    have "S3 = fold (hot_turn K) rest S2" using True rest(1) by (simp add: S3_def d2(1) hot_turn_def)
    moreover have "midway S ({top_cpuset} \<union> set rest) (fold (hot_turn K) rest S2)"
      using dist rest(2) by (intro midway_fold [OF assms m2]) auto
    ultimately have m3: "midway S ({top_cpuset} \<union> set rest) S3" by simp
    show ?thesis using midway_done [OF assms m3 all] midwayD(1,4,5) [OF m3] by simp
  next
    case False
    then have "S3 = S" by (simp add: S3_def S2_def S1_def)
    with assms show ?thesis by simp
  qed
  moreover have v: "view (cpuset_hotplug_workfn K S) = view S3"
  proof -
    have "sys_ok S2" and ptmp: "(is_in_v2_mode S \<and> alloc_tmpmasks K) = False"
      using ok(1,2) by (simp_all add: sys_ok_def d2(1))
    then have w: "(if ?c \<or> ?m then cpuset_for_each_descendant_pre S2 top_cpuset
        (\<lambda>c T. if c = top_cpuset \<or> css_dying T c then (T, Go)
               else (cpuset_hotplug_update_tasks K (is_in_v2_mode S \<and> alloc_tmpmasks K) c T, Go))
        (\<lambda>pos S. is_cpuset_online S pos) S2 else S2) = S3"
      unfolding ptmp S3_def by (simp only: hot_walk)
    have "cpuset_hotplug_workfn K S = (if ?c \<or> force_rebuild S3
        then rebuild_sched_domains_locked K (S3\<lparr>force_rebuild := False\<rparr>) else S3)"
      unfolding cpuset_hotplug_workfn_def Let_def S1_def [symmetric] S2_def [symmetric] w ..
    moreover have "view (S3\<lparr>force_rebuild := False\<rparr>) = view S3" by (simp add: view_def)
    ultimately show ?thesis by simp
  qed
  moreover have "enabled_key (cpuset_hotplug_workfn K S) = enabled_key S3" using v by (simp add: view_def)
  ultimately show ?thesis
    using legacy_ok_view [OF v [symmetric]] view_eqD(1) [OF v] rules_eqD(1) [OF view_eqD(5) [OF v]] by simp
qed

end
