(* ===== verification/SchedDomains_Correct.thy ===== *)
theory SchedDomains_Correct
  imports SchedDomains "HOL-Library.Sublist"
begin

section \<open>The domains are the connected components of the overlaps\<close>

text \<open>
  The reference: two collected cpusets are \<open>linked\<close> when a chain of overlapping collected cpusets
  leads from one to the other.  Merging ends with equal numbers for exactly the linked ones, and
  the slots are filled with one component each.
\<close>

definition overlaps :: "cpuset_sys \<Rightarrow> nat list \<Rightarrow> (nat \<times> nat) set" where
  "overlaps S csa = {(a, b). a \<in> set csa \<and> b \<in> set csa \<and> cpusets_overlap (cpusets S a) (cpusets S b)}"

definition linked :: "cpuset_sys \<Rightarrow> nat list \<Rightarrow> (nat \<times> nat) set" where
  "linked S csa = (overlaps S csa)\<^sup>*"

definition component :: "cpuset_sys \<Rightarrow> nat list \<Rightarrow> nat \<Rightarrow> nat set" where
  "component S csa a = {b \<in> set csa. (a, b) \<in> linked S csa}"

text \<open>The CPUs of a set of cpusets, as far as they are not isolated.\<close>

definition span :: "kernel \<Rightarrow> cpuset_sys \<Rightarrow> nat set \<Rightarrow> mask" where
  "span K S C = (\<Union>c \<in> C. effective_cpus (cpusets S c)) \<inter> housekeeping K"

lemma linked_refl [simp]: "(a, a) \<in> linked S csa"
  by (simp add: linked_def)

lemma linked_sym: "(a, b) \<in> linked S csa \<Longrightarrow> (b, a) \<in> linked S csa"
proof -
  have "sym (overlaps S csa)" by (auto simp: sym_def overlaps_def cpusets_overlap_def)
  then show "(a, b) \<in> linked S csa \<Longrightarrow> (b, a) \<in> linked S csa"
    unfolding linked_def by (meson sym_rtrancl symD)
qed

lemma linked_trans: "(a, b) \<in> linked S csa \<Longrightarrow> (b, c) \<in> linked S csa \<Longrightarrow> (a, c) \<in> linked S csa"
  by (simp add: linked_def)

lemma overlaps_linked: "(a, b) \<in> overlaps S csa \<Longrightarrow> (a, b) \<in> linked S csa"
  by (simp add: linked_def)

subsection \<open>Merging\<close>

lemma find_overlap_None:
  assumes "find_overlap S csa p = None" and "(a, b) \<in> linked S csa"
  shows "p a = p b"
proof -
  have step: "p x = p y" if "(x, y) \<in> overlaps S csa" for x y
    using assms(1) that by (fastforce simp: find_overlap_def find_None_iff overlaps_def)
  show ?thesis using assms(2) unfolding linked_def
    by (induction rule: rtrancl_induct) (auto simp: step)
qed

definition numbers_ok :: "cpuset_sys \<Rightarrow> nat list \<Rightarrow> pnums \<Rightarrow> int \<Rightarrow> bool" where
  "numbers_ok S csa p ndoms \<longleftrightarrow> (\<forall>a \<in> set csa. 0 \<le> p a) \<and> ndoms = int (card (p ` set csa))
     \<and> (\<forall>a \<in> set csa. \<forall>b \<in> set csa. p a = p b \<longrightarrow> (a, b) \<in> linked S csa)"

lemma numbers_okD:
  assumes "numbers_ok S csa p ndoms"
  shows "a \<in> set csa \<Longrightarrow> 0 \<le> p a" and "ndoms = int (card (p ` set csa))"
    and "a \<in> set csa \<Longrightarrow> b \<in> set csa \<Longrightarrow> p a = p b \<Longrightarrow> (a, b) \<in> linked S csa"
  using assms by (auto simp: numbers_ok_def)

lemma renumber_ok:
  assumes "numbers_ok S csa p ndoms" and "find_overlap S csa p = Some (apn, bpn)"
  shows "numbers_ok S csa (renumber csa apn bpn p) (ndoms - 1)"
proof -
  obtain a b where ab: "a \<in> set csa" "b \<in> set csa" "p a = apn" "p b = bpn" "apn \<noteq> bpn"
      "cpusets_overlap (cpusets S a) (cpusets S b)"
    using find_overlapD [OF assms(2)] by blast
  note ok = numbers_okD [OF assms(1)]
  have link: "(a, b) \<in> linked S csa" using ab by (simp add: overlaps_linked overlaps_def)
  have bclass: "(a, x) \<in> linked S csa" if "x \<in> set csa" "p x = bpn" for x
    using linked_trans [OF link ok(3) [OF ab(2) that(1)]] ab(4) that(2) by simp
  have img: "renumber csa apn bpn p ` set csa = p ` set csa - {bpn}"
    using renumber_image [of a csa b p] ab by simp
  have "card (p ` set csa - {bpn}) = card (p ` set csa) - 1"
    using ab(2,4) by (subst card_Diff_singleton) auto
  moreover have "0 < card (p ` set csa)" using ab(1) by (auto simp: card_gt_0_iff)
  ultimately have "ndoms - 1 = int (card (renumber csa apn bpn p ` set csa))"
    using ok(2) img by simp
  moreover have "(x, y) \<in> linked S csa"
    if "x \<in> set csa" "y \<in> set csa" "renumber csa apn bpn p x = renumber csa apn bpn p y" for x y
  proof -
    have near: "(a, z) \<in> linked S csa" if "z \<in> set csa" "p z = apn" for z
      using ok(3) [OF ab(1) that(1)] ab(3) that(2) by simp
    show ?thesis
      using that ok(3) near bclass linked_sym linked_trans ab(5)
      by (smt (verit, ccfv_threshold) renumber_apply)
  qed
  moreover have "0 \<le> renumber csa apn bpn p x" if "x \<in> set csa" for x
    using that ok(1) [OF ab(1)] ok(1) [OF that] ab(3,5) by (simp add: renumber_apply)
  ultimately show ?thesis by (auto simp: numbers_ok_def)
qed

lemma merge_partitions_ok:
  assumes "numbers_ok S csa p ndoms" and "merge_partitions S csa p ndoms = (p', n)"
  shows "numbers_ok S csa p' n \<and> (\<forall>a \<in> set csa. \<forall>b \<in> set csa. p' a = p' b \<longleftrightarrow> (a, b) \<in> linked S csa)"
  using assms
proof (induction S csa p ndoms rule: merge_partitions.induct)
  case (1 S csa p ndoms)
  show ?case
  proof (cases "find_overlap S csa p")
    case None
    with 1(3) have "p' = p" "n = ndoms" by (simp_all add: merge_partitions.simps [of S csa p ndoms])
    with 1(2) None show ?thesis using find_overlap_None numbers_okD(3) by metis
  next
    case (Some x)
    obtain apn bpn where x: "x = (apn, bpn)" by (cases x)
    show ?thesis
      using 1(1) [OF Some x [symmetric] renumber_ok [OF 1(2) Some [unfolded x]]] 1(3) Some x
      by (simp add: merge_partitions.simps [of S csa p ndoms])
  qed
qed

lemma number_csa_nth:
  assumes "distinct csa" and "i < length csa"
  shows "number_csa csa p (csa ! i) = int i"
proof -
  have "fold (\<lambda>i p. p(csa ! i := int i)) [0..<n] p (csa ! i) = int i" if "i < n" "n \<le> length csa" for n
    using that
  proof (induction n)
    case (Suc n)
    then show ?case using assms by (cases "i = n") (auto simp: nth_eq_iff_index_eq)
  qed simp
  with assms show ?thesis by (simp add: number_csa_def)
qed

lemma number_csa_ok:
  assumes "distinct csa"
  shows "numbers_ok S csa (number_csa csa p) (int (length csa))"
proof -
  have inj: "inj_on (number_csa csa p) (set csa)"
    using number_csa_nth [OF assms] by (auto simp: inj_on_def in_set_conv_nth)
  have "0 \<le> number_csa csa p a" if "a \<in> set csa" for a
    using that number_csa_nth [OF assms] by (auto simp: in_set_conv_nth)
  with inj assms show ?thesis
    by (auto simp: numbers_ok_def card_image distinct_card dest: inj_onD)
qed

subsection \<open>Filling the slots\<close>

text \<open>The cpusets at which a slot is opened.\<close>

fun heads :: "pnums \<Rightarrow> nat list \<Rightarrow> nat list" where
  "heads p [] = []"
| "heads p (a # as) =
     (if p a < 0 then heads p as else a # heads (\<lambda>c. if p c = p a then -1 else p c) as)"

definition members :: "pnums \<Rightarrow> nat list \<Rightarrow> nat \<Rightarrow> nat list" where
  "members p as h = filter (\<lambda>b. p b = p h) as"

abbreviation slot_turn :: "kernel \<Rightarrow> cpuset_sys \<Rightarrow> int \<Rightarrow> nat \<Rightarrow> mask \<times> int \<times> pnums \<Rightarrow> mask \<times> int \<times> pnums" where
  "slot_turn K S apn b \<equiv> \<lambda>(dp, dattr, p).
     if p b = apn
     then ((dp \<union> effective_cpus (cpusets S b)) \<inter> housekeeping K,
           update_domain_attr_tree S dattr b, p(b := -1))
     else (dp, dattr, p)"

definition mask_step :: "kernel \<Rightarrow> cpuset_sys \<Rightarrow> nat \<Rightarrow> mask \<Rightarrow> mask" where
  "mask_step K S b dp = (dp \<union> effective_cpus (cpusets S b)) \<inter> housekeeping K"

lemma slot_turns:
  assumes "distinct bs" and "0 \<le> apn"
  shows "fold (slot_turn K S apn) bs (d, att, p) =
    (fold (mask_step K S) (filter (\<lambda>b. p b = apn) bs) d,
     fold (\<lambda>b dattr. update_domain_attr_tree S dattr b) (filter (\<lambda>b. p b = apn) bs) att,
     (\<lambda>c. if c \<in> set bs \<and> p c = apn then -1 else p c))"
  using assms(1)
proof (induction bs arbitrary: d att p)
  case Nil
  show ?case by simp
next
  case (Cons b bs)
  show ?case
  proof (cases "p b = apn")
    case True
    have same: "filter (\<lambda>x. (p(b := - 1)) x = apn) bs = filter (\<lambda>x. p x = apn) bs"
      using Cons.prems assms(2) True by (intro filter_cong) auto
    have "fold (slot_turn K S apn) (b # bs) (d, att, p) =
        fold (slot_turn K S apn) bs (mask_step K S b d, update_domain_attr_tree S att b, p(b := -1))"
      using True by (simp add: mask_step_def)
    also have "\<dots> = (fold (mask_step K S) (filter (\<lambda>x. p x = apn) bs) (mask_step K S b d),
        fold (\<lambda>b dattr. update_domain_attr_tree S dattr b) (filter (\<lambda>x. p x = apn) bs)
          (update_domain_attr_tree S att b),
        \<lambda>c. if c \<in> set bs \<and> (p(b := -1)) c = apn then -1 else (p(b := -1)) c)"
      using Cons.prems by (simp only: Cons.IH same distinct.simps)
    finally show ?thesis using True assms(2) by (auto simp: fun_eq_iff)
  next
    case False
    with Cons show ?thesis by (auto simp: fun_eq_iff)
  qed
qed

lemma mask_steps:
  "bs \<noteq> [] \<Longrightarrow> fold (mask_step K S) bs d =
     (d \<union> (\<Union>b \<in> set bs. effective_cpus (cpusets S b))) \<inter> housekeeping K"
proof (induction bs arbitrary: d)
  case (Cons b bs)
  then show ?case by (cases "bs = []") (auto simp: mask_step_def)
qed simp

text \<open>The cpusets of one slot.\<close>

definition slot_members :: "pnums \<Rightarrow> nat list \<Rightarrow> int \<Rightarrow> nat list" where
  "slot_members p as v = filter (\<lambda>b. p b = v) as"

definition slot_attr :: "cpuset_sys \<Rightarrow> nat list \<Rightarrow> int" where
  "slot_attr S bs = fold (\<lambda>b dattr. update_domain_attr_tree S dattr b) bs SD_ATTR_INIT"

lemma fill_slot_value:
  assumes "distinct (a # as)" and "0 \<le> p a"
  shows "fill_slot K S (a # as) (p a) p =
    (span K S (set (slot_members p (a # as) (p a))), slot_attr S (slot_members p (a # as) (p a)),
     (\<lambda>c. if c \<in> set (a # as) \<and> p c = p a then -1 else p c))"
proof -
  have "slot_members p (a # as) (p a) \<noteq> []" by (simp add: slot_members_def)
  from slot_turns [OF assms, where K = K and S = S and d = "{}" and att = SD_ATTR_INIT and p = p]
    mask_steps [OF this, where K = K and S = S and d = "{}"]
  show ?thesis by (simp only: fill_slot_def slot_members_def slot_attr_def span_def Un_empty_left)
qed

text \<open>The numbers for which a slot is opened, in order.\<close>

fun slots :: "pnums \<Rightarrow> nat list \<Rightarrow> int list" where
  "slots p [] = []"
| "slots p (a # as) =
     (if p a < 0 then slots p as else p a # filter (\<lambda>v. v \<noteq> p a) (slots p as))"

lemma set_slots: "set (slots p as) = {v \<in> p ` set as. 0 \<le> v}"
  by (induction as) auto

lemma distinct_slots: "distinct (slots p as)"
  by (induction as) auto

lemma filter_neq_twice: "filter (\<lambda>w. w \<noteq> v) (filter (\<lambda>w. w \<noteq> u) xs) = filter (\<lambda>w. w \<noteq> u) (filter (\<lambda>w. w \<noteq> v) xs)"
  by (simp add: conj_commute)

lemma slots_cleared:
  assumes "0 \<le> v" and "set as \<subseteq> A"
  shows "slots (\<lambda>c. if c \<in> A \<and> p c = v then -1 else p c) as = filter (\<lambda>w. w \<noteq> v) (slots p as)"
  using assms(2)
proof (induction as)
  case (Cons a as)
  then have ih: "slots (\<lambda>c. if c \<in> A \<and> p c = v then -1 else p c) as = filter (\<lambda>w. w \<noteq> v) (slots p as)"
    and a: "a \<in> A" by simp_all
  show ?case
  proof (cases "p a = v")
    case True
    with a assms(1) ih show ?thesis by simp
  next
    case False
    with a ih show ?thesis by (simp add: filter_neq_twice del: filter_filter)
  qed
qed simp

lemma slot_members_cleared:
  assumes "0 \<le> w" and "w \<noteq> v" and "set as \<subseteq> A"
  shows "slot_members (\<lambda>c. if c \<in> A \<and> p c = v then -1 else p c) as w = slot_members p as w"
  unfolding slot_members_def using assms by (intro filter_cong) auto

text \<open>Enough slots for the numbers that are left make the conversion open one for each.\<close>

lemma convert_slots:
  assumes "distinct as" and "int (length doms + length (slots p as)) \<le> ndoms"
  shows "\<exists>p'. convert K S as ndoms p doms dattr =
    (doms @ map (\<lambda>v. span K S (set (slot_members p as v))) (slots p as),
     dattr @ map (\<lambda>v. slot_attr S (slot_members p as v)) (slots p as), p')"
  using assms
proof (induction as arbitrary: p doms dattr)
  case Nil
  then show ?case by simp
next
  case (Cons a as)
  show ?case
  proof (cases "p a < 0")
    case True
    have same: "slot_members p (a # as) v = slot_members p as v" if "v \<in> set (slots p as)" for v
      using that True by (auto simp: slot_members_def set_slots)
    with Cons.IH [of doms p dattr] Cons.prems True show ?thesis by (simp cong: map_cong)
  next
    case False
    let ?q = "\<lambda>c. if c \<in> set (a # as) \<and> p c = p a then -1 else p c"
    have q: "slots ?q as = filter (\<lambda>v. v \<noteq> p a) (slots p as)"
      using False by (intro slots_cleared) auto
    have same: "slot_members ?q as v = slot_members p (a # as) v" if "v \<in> set (slots ?q as)" for v
    proof -
      have v: "0 \<le> v" "v \<noteq> p a" using that unfolding q set_filter set_slots by auto
      then have "slot_members ?q as v = slot_members p as v" by (intro slot_members_cleared) auto
      with v show ?thesis by (simp add: slot_members_def)
    qed
    let ?d = "span K S (set (slot_members p (a # as) (p a)))"
    let ?t = "slot_attr S (slot_members p (a # as) (p a))"
    have room: "int (length (doms @ [?d]) + length (slots ?q as)) \<le> ndoms" "int (length doms) \<noteq> ndoms"
      using Cons.prems(2) False unfolding q by auto
    obtain p' where p': "convert K S as ndoms ?q (doms @ [?d]) (dattr @ [?t]) =
      (doms @ ?d # map (\<lambda>v. span K S (set (slot_members ?q as v))) (slots ?q as),
       dattr @ ?t # map (\<lambda>v. slot_attr S (slot_members ?q as v)) (slots ?q as), p')"
      using Cons.IH [of "doms @ [?d]" ?q "dattr @ [?t]"] room(1) Cons.prems(1) by auto
    have "convert K S (a # as) ndoms p doms dattr = convert K S as ndoms ?q (doms @ [?d]) (dattr @ [?t])"
      using False room(2) fill_slot_value [OF Cons.prems(1)] by simp
    also have "\<dots> = (doms @ ?d # map (\<lambda>v. span K S (set (slot_members p (a # as) v))) (slots ?q as),
       dattr @ ?t # map (\<lambda>v. slot_attr S (slot_members p (a # as) v)) (slots ?q as), p')"
      unfolding p' using same by (simp cong: map_cong)
    finally show ?thesis using False unfolding q by auto
  qed
qed

subsection \<open>The collected cpusets\<close>

text \<open>A cpuset the scan passes over, going on below it; one that gets into \<open>csa\<close>; one whose subtree
  is left out.\<close>

definition passed :: "kernel \<Rightarrow> cpuset_sys \<Rightarrow> nat \<Rightarrow> bool" where
  "passed K S cp \<longleftrightarrow> cp = top_cpuset
     \<or> cpus_allowed (cpusets S cp) \<noteq> {}
       \<and> \<not> (is_sched_load_balance (cpusets S cp) \<and> cpus_allowed (cpusets S cp) \<inter> housekeeping K \<noteq> {})
     \<or> is_sched_load_balance (cpusets S top_cpuset)
       \<and> cpus_allowed (cpusets S cp) \<subseteq> effective_cpus (cpusets S top_cpuset)"

definition collected :: "kernel \<Rightarrow> cpuset_sys \<Rightarrow> nat \<Rightarrow> bool" where
  "collected K S cp \<longleftrightarrow> is_cpuset_online S cp \<and> \<not> passed K S cp
     \<and> is_sched_load_balance (cpusets S cp) \<and> effective_cpus (cpusets S cp) \<noteq> {}"

definition left_out :: "kernel \<Rightarrow> cpuset_sys \<Rightarrow> nat \<Rightarrow> bool" where
  "left_out K S cp \<longleftrightarrow> is_cpuset_online S cp \<and> \<not> passed K S cp \<and> \<not> is_partition_root (cpusets S cp)"

lemma csa_turn_pruned:
  "(if is_cpuset_online S cp then csa_turn K S cp csa else (csa, Go)) =
     (csa @ (if collected K S cp then [cp] else []), if left_out K S cp then Skip else Go)"
  by (auto simp: csa_turn_def Let_def collected_def left_out_def passed_def)

lemma fold_collect: "fold (\<lambda>c xs. xs @ (if P c then [c] else [])) cs xs = xs @ filter P cs"
  by (induction cs arbitrary: xs) auto

lemma collect_csa_eq:
  assumes "sys_ok S"
  shows "collect_csa K S = (if is_sched_load_balance (cpusets S top_cpuset) then [top_cpuset] else [])
    @ filter (collected K S) (pruned (ctree S) (left_out K S) top_cpuset)"
proof -
  have T: "css_tree_ok (ctree S)" "top_cpuset \<in> set (tcss (ctree S))" using assms by (auto simp: sys_ok_def)
  show ?thesis
    unfolding collect_csa_def cpuset_for_each_descendant_pre_def
    by (subst for_each_pruned [OF T csa_turn_pruned]) (simp add: fold_collect)
qed

lemma not_collected_top: "\<not> collected K S top_cpuset"
  by (simp add: collected_def passed_def)

lemma subseq_concat:
  "(\<And>x. x \<in> set xs \<Longrightarrow> subseq (f x) (g x)) \<Longrightarrow> subseq (concat (map f xs)) (concat (map g xs))"
  by (induction xs) (auto intro: list_emb_append_mono)

lemma pruned_subseq: "subseq (pruned T skip c) (pre_order T c)"
proof (induction T skip c rule: pruned.induct)
  case (1 T skip c)
  then show ?case
    by (simp add: pruned.simps [of T skip c] pre_order.simps [of T c] subseq_concat)
qed

lemma subseq_distinct: "subseq xs ys \<Longrightarrow> distinct ys \<Longrightarrow> distinct xs"
  by (induction rule: list_emb.induct) (auto dest: list_emb_set)

lemma distinct_csa:
  assumes "sys_ok S"
  shows "distinct (collect_csa K S)"
proof -
  have "distinct (pruned (ctree S) (left_out K S) top_cpuset)"
    using subseq_distinct [OF pruned_subseq distinct_pre_order] assms by (simp add: sys_ok_def)
  then show ?thesis by (simp add: collect_csa_eq [OF assms] not_collected_top)
qed

end
