(* ===== verification/SchedDomains_Props.thy ===== *)
theory SchedDomains_Props
  imports SchedDomains_Correct Cpuset_Demo
begin

section \<open>The partition given to the scheduler\<close>

lemma merge_components:
  assumes "sys_ok S" and "csa = collect_csa K S"
    and "merge_partitions S csa (number_csa csa q) (int (length csa)) = (p, ndoms)"
  shows "\<forall>a \<in> set csa. 0 \<le> p a" and "ndoms = int (length (slots p csa))"
    and "v \<in> set (slots p csa) \<Longrightarrow> \<exists>a \<in> set csa. p a = v \<and> set (slot_members p csa v) = component S csa a"
    and "a \<in> set csa \<Longrightarrow> p a \<in> set (slots p csa) \<and> set (slot_members p csa (p a)) = component S csa a"
proof -
  have d: "distinct csa" using distinct_csa [OF assms(1)] assms(2) by simp
  have ok: "numbers_ok S csa p ndoms"
    and link: "\<forall>a \<in> set csa. \<forall>b \<in> set csa. p a = p b \<longleftrightarrow> (a, b) \<in> linked S csa"
    using merge_partitions_ok [OF number_csa_ok [OF d] assms(3)] by auto
  show pos: "\<forall>a \<in> set csa. 0 \<le> p a" using ok numbers_okD(1) by blast
  have slots: "set (slots p csa) = p ` set csa" using pos by (auto simp: set_slots)
  then have "card (p ` set csa) = length (slots p csa)" by (metis distinct_card distinct_slots)
  then show "ndoms = int (length (slots p csa))" using numbers_okD(2) [OF ok] by simp
  have members: "set (slot_members p csa (p a)) = component S csa a" if "a \<in> set csa" for a
  proof -
    have "b \<in> set (slot_members p csa (p a)) \<longleftrightarrow> b \<in> component S csa a" for b
      using link that linked_sym by (cases "b \<in> set csa") (auto simp: slot_members_def component_def)
    then show ?thesis by blast
  qed
  show "a \<in> set csa \<Longrightarrow> p a \<in> set (slots p csa) \<and> set (slot_members p csa (p a)) = component S csa a"
    using members slots by auto
  show "v \<in> set (slots p csa) \<Longrightarrow> \<exists>a \<in> set csa. p a = v \<and> set (slot_members p csa v) = component S csa a"
    using members unfolding slots by auto
qed

lemma crashed_set_pns [simp]: "crashed (set_pns csa p S) = crashed S"
  unfolding set_pns_def by (induction csa arbitrary: S) (simp_all add: upd_cs_def)

lemma partition_mode:
  assumes "\<not> (is_sched_load_balance (cpusets S top_cpuset) \<and> nr_subparts_cpus (cpusets S top_cpuset) = 0)"
    and "alloc_csa K" and "alloc_doms K"
    and "csa = collect_csa K S"
    and "merge_partitions S csa (number_csa csa (\<lambda>c. pn (cpusets S c))) (int (length csa)) = (p, ndoms)"
    and "convert K S csa ndoms p [] [] = (doms, dattr, p')" and "int (length doms) = ndoms"
  shows "generate_sched_domains K S =
    ((ndoms, Some doms, if alloc_dattr K then Some dattr else None), set_pns csa p' S)"
  using assms(1) unfolding generate_sched_domains_def Let_def if_P [OF assms(2)] if_not_P [OF assms(1)]
  using assms(2-) by simp

lemma generate_components:
  assumes "sys_ok S"
    and "\<not> (is_sched_load_balance (cpusets S top_cpuset) \<and> nr_subparts_cpus (cpusets S top_cpuset) = 0)"
    and "alloc_csa K" and "alloc_doms K"
  shows "\<exists>Cs dattr S'. generate_sched_domains K S = ((int (length Cs), Some (map (span K S) Cs), dattr), S')
    \<and> distinct Cs \<and> set Cs = component S (collect_csa K S) ` set (collect_csa K S)
    \<and> (alloc_dattr K \<longrightarrow> (\<exists>ls. dattr = Some ls \<and> length ls = length Cs))
    \<and> crashed S' = crashed S"
proof -
  obtain csa where csa: "csa = collect_csa K S" by simp
  obtain p ndoms where m: "merge_partitions S csa (number_csa csa (\<lambda>c. pn (cpusets S c)))
      (int (length csa)) = (p, ndoms)" by fastforce
  note comp = merge_components [OF assms(1) csa m]
  have "distinct csa" using distinct_csa [OF assms(1)] csa by simp
  then obtain p' where conv: "convert K S csa ndoms p [] [] =
      (map (\<lambda>v. span K S (set (slot_members p csa v))) (slots p csa),
       map (\<lambda>v. slot_attr S (slot_members p csa v)) (slots p csa), p')"
    using convert_slots [of csa "[]" p ndoms K S "[]"] comp(2) by auto
  let ?Cs = "map (\<lambda>v. set (slot_members p csa v)) (slots p csa)"
  let ?att = "if alloc_dattr K
    then Some (map (\<lambda>v. slot_attr S (slot_members p csa v)) (slots p csa)) else None"
  have gen: "generate_sched_domains K S =
      ((int (length ?Cs), Some (map (span K S) ?Cs), ?att), set_pns csa p' S)"
    using partition_mode [OF assms(2-4) csa m conv] comp(2) by (simp add: comp_def)
  have "inj_on (\<lambda>v. set (slot_members p csa v)) (set (slots p csa))"
  proof (rule inj_onI)
    fix v w
    assume v: "v \<in> set (slots p csa)" and w: "set (slot_members p csa v) = set (slot_members p csa w)"
    then obtain a where "a \<in> set csa" "p a = v" using comp(3) by blast
    then have "a \<in> set (slot_members p csa w)" unfolding w [symmetric] by (simp add: slot_members_def)
    with \<open>p a = v\<close> show "v = w" by (simp add: slot_members_def)
  qed
  then have d: "distinct ?Cs" using distinct_slots by (simp add: distinct_map)
  have "set ?Cs = component S csa ` set csa"
  proof
    show "set ?Cs \<subseteq> component S csa ` set csa" using comp(3) by auto
    show "component S csa ` set csa \<subseteq> set ?Cs" using comp(4) by (auto simp: image_iff)
  qed
  then show ?thesis unfolding csa [symmetric]
  proof (intro exI conjI)
    show "generate_sched_domains K S =
      ((int (length ?Cs), Some (map (span K S) ?Cs), ?att), set_pns csa p' S)" by (rule gen)
  qed (use d in simp_all)
qed

text \<open>C14: \<open>generate_sched_domains\<close> computes the connected components: when the root does not
  balance everything, the domains it returns are, one for one, the CPUs of the components of the
  collected cpusets under overlap, without the isolated CPUs; the number of domains it returns is
  their number, the \<open>BUG_ON\<close> never fires and every domain has an attribute.\<close>

theorem sched_domains_are_components:
  assumes "sys_ok S"
    and "\<not> (is_sched_load_balance (cpusets S top_cpuset) \<and> nr_subparts_cpus (cpusets S top_cpuset) = 0)"
    and "alloc_csa K" and "alloc_doms K"
  shows "\<exists>Cs dattr S'. generate_sched_domains K S = ((int (length Cs), Some (map (span K S) Cs), dattr), S')
    \<and> distinct Cs \<and> set Cs = component S (collect_csa K S) ` set (collect_csa K S)
    \<and> (alloc_dattr K \<longrightarrow> (\<exists>ls. dattr = Some ls \<and> length ls = length Cs))
    \<and> crashed S' = crashed S"
  using generate_components [OF assms] .

lemma component_self: "a \<in> set csa \<Longrightarrow> a \<in> component S csa a"
  by (simp add: component_def)

lemma component_eq:
  assumes "c \<in> component S csa a" and "c \<in> component S csa b"
  shows "component S csa a = component S csa b"
  using assms linked_sym linked_trans unfolding component_def by blast

lemma components_disjoint:
  assumes "component S csa a \<noteq> component S csa b"
  shows "span K S (component S csa a) \<inter> span K S (component S csa b) = {}"
proof (rule ccontr)
  assume "\<not> ?thesis"
  then obtain c d where c: "c \<in> component S csa a" and d: "d \<in> component S csa b"
    and "effective_cpus (cpusets S c) \<inter> effective_cpus (cpusets S d) \<noteq> {}"
    by (auto simp: span_def)
  then have "(c, d) \<in> linked S csa"
    by (intro overlaps_linked) (auto simp: overlaps_def cpusets_overlap_def component_def)
  with c d have "d \<in> component S csa a" by (auto simp: component_def intro: linked_trans)
  with component_eq [OF this d] assms show False by simp
qed

lemma domains_cover:
  assumes "set Cs = component S csa ` set csa" and "a \<in> set csa"
  shows "\<exists>D \<in> set (map (span K S) Cs). effective_cpus (cpusets S a) \<inter> housekeeping K \<subseteq> D"
proof -
  have "effective_cpus (cpusets S a) \<inter> housekeeping K \<subseteq> span K S (component S csa a)"
    using component_self [OF assms(2)] by (auto simp: span_def)
  then show ?thesis using assms by auto
qed

text \<open>A family of disjoint sets of CPUs that has every collected cpuset inside one of them.\<close>

definition separates :: "mask set \<Rightarrow> cpuset_sys \<Rightarrow> nat list \<Rightarrow> bool" where
  "separates P S csa \<longleftrightarrow> (\<forall>X \<in> P. \<forall>Y \<in> P. X \<noteq> Y \<longrightarrow> X \<inter> Y = {})
     \<and> (\<forall>a \<in> set csa. \<exists>X \<in> P. effective_cpus (cpusets S a) \<subseteq> X)"

lemma component_in_block:
  assumes "separates P S csa" and "a \<in> set csa"
  shows "\<exists>X \<in> P. span K S (component S csa a) \<subseteq> X"
proof -
  obtain X where X: "X \<in> P" "effective_cpus (cpusets S a) \<subseteq> X"
    using assms by (auto simp: separates_def)
  have "effective_cpus (cpusets S b) \<subseteq> X" if "(a, b) \<in> linked S csa" for b
    using that unfolding linked_def
  proof (induction rule: rtrancl_induct)
    case base
    show ?case by (rule X)
  next
    case (step b c)
    then have "c \<in> set csa" and o: "effective_cpus (cpusets S b) \<inter> effective_cpus (cpusets S c) \<noteq> {}"
      by (auto simp: overlaps_def cpusets_overlap_def)
    then obtain Y where Y: "Y \<in> P" "effective_cpus (cpusets S c) \<subseteq> Y"
      using assms(1) unfolding separates_def by blast
    with o step.IH have "X \<inter> Y \<noteq> {}" by blast
    with X(1) Y assms(1) show ?case by (auto simp: separates_def)
  qed
  with X(1) show ?thesis by (auto simp: span_def component_def)
qed

text \<open>The partition is the best one, as the comment of the code defines it: the domains do not
  overlap, every collected cpuset lies in one of them apart from isolated CPUs, and any disjoint
  family with that property is coarser, so no family has more or smaller domains.\<close>

theorem sched_domains_finest:
  assumes "sys_ok S"
    and "\<not> (is_sched_load_balance (cpusets S top_cpuset) \<and> nr_subparts_cpus (cpusets S top_cpuset) = 0)"
    and "alloc_csa K" and "alloc_doms K"
  shows "\<exists>doms. fst (snd (fst (generate_sched_domains K S))) = Some doms
    \<and> (\<forall>i < length doms. \<forall>j < length doms. i \<noteq> j \<longrightarrow> doms ! i \<inter> doms ! j = {})
    \<and> (\<forall>a \<in> set (collect_csa K S). \<exists>D \<in> set doms.
         effective_cpus (cpusets S a) \<inter> housekeeping K \<subseteq> D)
    \<and> (\<forall>P. separates P S (collect_csa K S) \<longrightarrow> (\<forall>D \<in> set doms. \<exists>X \<in> P. D \<subseteq> X))"
proof -
  let ?csa = "collect_csa K S"
  obtain Cs dattr S' where g: "generate_sched_domains K S =
      ((int (length Cs), Some (map (span K S) Cs), dattr), S')"
    and Cs: "distinct Cs" "set Cs = component S ?csa ` set ?csa"
    using generate_components [OF assms] by blast
  have dis: "span K S (Cs ! i) \<inter> span K S (Cs ! j) = {}" if "i < length Cs" "j < length Cs" "i \<noteq> j" for i j
  proof -
    have "Cs ! i \<noteq> Cs ! j" using that Cs(1) by (simp add: nth_eq_iff_index_eq)
    moreover have "Cs ! i \<in> set Cs" "Cs ! j \<in> set Cs" using that by simp_all
    then have "Cs ! i \<in> component S ?csa ` set ?csa" "Cs ! j \<in> component S ?csa ` set ?csa"
      unfolding Cs(2) .
    then obtain a b where "Cs ! i = component S ?csa a" "Cs ! j = component S ?csa b" by (elim imageE)
    ultimately show ?thesis using components_disjoint by metis
  qed
  note cov = domains_cover [OF Cs(2)]
  have fine: "\<exists>X \<in> P. D \<subseteq> X" if "separates P S ?csa" "D \<in> set (map (span K S) Cs)" for P D
    using that(2) Cs(2) component_in_block [OF that(1)] by auto
  have "fst (snd (fst (generate_sched_domains K S))) = Some (map (span K S) Cs)" using g by simp
  then show ?thesis
  proof (intro exI conjI)
    show "\<forall>i < length (map (span K S) Cs). \<forall>j < length (map (span K S) Cs).
        i \<noteq> j \<longrightarrow> map (span K S) Cs ! i \<inter> map (span K S) Cs ! j = {}"
    proof (intro allI impI)
      fix i j
      assume "i < length (map (span K S) Cs)" "j < length (map (span K S) Cs)" "i \<noteq> j"
      with dis [of i j] show "map (span K S) Cs ! i \<inter> map (span K S) Cs ! j = {}" by simp
    qed
    show "\<forall>a \<in> set ?csa. \<exists>D \<in> set (map (span K S) Cs).
        effective_cpus (cpusets S a) \<inter> housekeeping K \<subseteq> D" using cov by blast
    show "\<forall>P. separates P S ?csa \<longrightarrow> (\<forall>D \<in> set (map (span K S) Cs). \<exists>X \<in> P. D \<subseteq> X)"
      using fine by blast
  qed
qed

subsection \<open>At a concrete system\<close>

text \<open>Two of three cpusets overlap and share a domain.\<close>

theorem sched_domains_are_components_witness:
  "\<exists>Cs dattr S'. generate_sched_domains demo_kernel demo_legacy
      = ((int (length Cs), Some (map (span demo_kernel demo_legacy) Cs), dattr), S')
    \<and> length Cs = 2 \<and> map (span demo_kernel demo_legacy) Cs = [{0, 1}, {2, 3}]"
proof -
  obtain Cs dattr S' where g: "generate_sched_domains demo_kernel demo_legacy
      = ((int (length Cs), Some (map (span demo_kernel demo_legacy) Cs), dattr), S')"
    using sched_domains_are_components [OF demo_legacy_ok, of demo_kernel] demo_legacy_mode by blast
  then show ?thesis using demo_legacy_domains by (intro exI [of _ Cs] exI [of _ dattr] exI [of _ S']) simp
qed

theorem sched_domains_finest_witness:
  "separates {{0, 1, 4}, {2, 3, 5}} demo_legacy (collect_csa demo_kernel demo_legacy)
    \<and> (\<exists>X \<in> {{0, 1, 4}, {2, 3, 5}}. {0, 1} \<subseteq> X) \<and> (\<exists>X \<in> {{0, 1, 4}, {2, 3, 5}}. {2, 3} \<subseteq> X)"
proof -
  have sep: "separates {{0, 1, 4}, {2, 3, 5}} demo_legacy (collect_csa demo_kernel demo_legacy)" by code_simp
  obtain doms where d: "fst (snd (fst (generate_sched_domains demo_kernel demo_legacy))) = Some doms"
    "\<forall>P. separates P demo_legacy (collect_csa demo_kernel demo_legacy) \<longrightarrow> (\<forall>D \<in> set doms. \<exists>X \<in> P. D \<subseteq> X)"
    using sched_domains_finest [OF demo_legacy_ok, of demo_kernel] demo_legacy_mode by blast
  from d(1) have doms: "doms = [{0, 1}, {2, 3}]" using demo_legacy_domains by simp
  have "\<forall>D \<in> set doms. \<exists>X \<in> {{0, 1, 4}, {2, 3, 5}}. D \<subseteq> X"
    by (rule d(2) [THEN spec, THEN mp, OF sep])
  then have "\<forall>D \<in> {{0, 1}, {2, 3}}. \<exists>X \<in> {{0, 1, 4}, {2, 3, 5}}. D \<subseteq> X" unfolding doms by simp
  with sep show ?thesis by blast
qed

end
