(* ===== verification/Cpuset_Props.thy ===== *)
theory Cpuset_Props
  imports Cpuset_Hotplug SchedDomains_Props Cpuset_Demo
begin

section \<open>The cpusets of the legacy hierarchy over time\<close>

text \<open>\<open>cpuset_init\<close>, \<open>cpuset_init_smp\<close> and the mount of a hierarchy, the legacy one in
  \<open>legacy_start\<close>.\<close>

definition cpuset_start :: "mask \<Rightarrow> mask \<Rightarrow> cpuset_sys \<Rightarrow> bool" where
  "cpuset_start all_cpus all_nodes S \<longleftrightarrow> tcss (ctree S) = [top_cpuset]
     \<and> tpar (ctree S) = Map.empty \<and> \<not> css_dying S top_cpuset \<and> enabled_key S = 0
     \<and> (\<forall>c. c \<noteq> top_cpuset \<longrightarrow> cpusets S c = new_cpuset)
     \<and> cpusets S top_cpuset = cpusets (cpuset_bind (cpuset_init_smp
         (S\<lparr>cpusets := \<lambda>_. cpuset_init all_cpus all_nodes\<rparr>))) top_cpuset"

definition legacy_start :: "mask \<Rightarrow> mask \<Rightarrow> cpuset_sys \<Rightarrow> bool" where
  "legacy_start all_cpus all_nodes S \<longleftrightarrow> \<not> is_in_v2_mode S \<and> cpuset_start all_cpus all_nodes S"

text \<open>
  What can happen to the cpusets: the core creates a cpuset below one that is online, kills one
  that has no online children, takes it offline and frees it; users write and read the files;
  tasks fork and move; CPUs and memory come and go, and the work queue follows.
\<close>

inductive legacy_step :: "cpuset_sys \<Rightarrow> cpuset_sys \<Rightarrow> bool" where
  create: "is_cpuset_online S p \<Longrightarrow> \<forall>d \<in> set (tcss (ctree S)). d < c \<Longrightarrow>
    cpuset_css_alloc ok c (Some p) S = (Inr c, S1) \<Longrightarrow> cpuset_css_online c (link_css c p S1) = (r, S2) \<Longrightarrow>
    legacy_step S (S2\<lparr>css_online := (css_online S2)(c := True)\<rparr>)"
| kill: "c \<noteq> top_cpuset \<Longrightarrow> \<forall>d. tpar (ctree S) d = Some c \<longrightarrow> \<not> is_cpuset_online S d \<Longrightarrow>
    legacy_step S (S\<lparr>css_dying := (css_dying S)(c := True)\<rparr>)"
| offline: "c \<in> set (tcss (ctree S)) \<Longrightarrow> c \<noteq> top_cpuset \<Longrightarrow> css_dying S c \<Longrightarrow> CS_ONLINE \<in> flags (cpusets S c) \<Longrightarrow>
    legacy_step S (cpuset_css_offline K ok ok' c S)"
| free: "c \<noteq> top_cpuset \<Longrightarrow> kids (ctree S) c = [] \<Longrightarrow> CS_ONLINE \<notin> flags (cpusets S c) \<Longrightarrow>
    legacy_step S (unlink_css c S)"
| write_u64: "cpuset_write_u64 K ok c type val S = (r, S') \<Longrightarrow> legacy_step S S'"
| write_s64: "cpuset_write_s64 K c type val S = (r, S') \<Longrightarrow> legacy_step S S'"
| write_mask: "cpuset_write_resmask K ok c type buf n S = (r, S') \<Longrightarrow> legacy_step S S'"
| read: "cpuset_read_u64 now c type S = Some (r, S') \<Longrightarrow> legacy_step S S'"
| bump: "legacy_step S (cpuset_memory_pressure_bump now c S)"
| can_attach: "cpuset_can_attach K tset c S = (r, S') \<Longrightarrow> legacy_step S S'"
| cancel: "legacy_step S (cpuset_cancel_attach c S)"
| attach: "legacy_step S (cpuset_attach K tset c S)"
| move: "legacy_step S (move_task t a b S)"
| fork: "legacy_step S (cpuset_fork c cur m t S)"
| hotplug: "legacy_step S (cpuset_hotplug_workfn K S)"
| world: "legacy_step S (S\<lparr>cpu_online_mask := a, cpu_active_mask := b, n_memory := m,
    clone_children := f, css_tasks := ts, task_mems := tm\<rparr>)"

subsection \<open>The count of the cpusets\<close>

definition counted :: "cpuset_sys \<Rightarrow> nat set" where
  "counted S = {c \<in> set (tcss (ctree S)). c \<noteq> top_cpuset \<and> CS_ONLINE \<in> flags (cpusets S c)}"

lemma counted_finite [simp]: "finite (counted S)"
  by (simp add: counted_def)

definition key_ok :: "cpuset_sys \<Rightarrow> bool" where
  "key_ok S \<longleftrightarrow> enabled_key S = card (counted S)"

lemma key_ok_same:
  assumes "key_ok S" and "enabled_key S' = enabled_key S" and "ctree S' = ctree S"
    and "\<And>c. CS_ONLINE \<in> flags (cpusets S' c) \<longleftrightarrow> CS_ONLINE \<in> flags (cpusets S c)"
  shows "key_ok S'"
  using assms by (simp add: key_ok_def counted_def)

lemma view_key: "view S' = view S \<Longrightarrow> enabled_key S' = enabled_key S"
  by (simp add: view_def)

lemma key_ok_view:
  assumes "view S' = view S" and "key_ok S"
  shows "key_ok S'"
  using view_key [OF assms(1)] view_eqD(1) [OF assms(1)] rules_eqD(1) [OF view_eqD(5) [OF assms(1)]]
  by (intro key_ok_same [OF assms(2)]) simp_all

lemma key_ok_upd:
  assumes "key_ok S" and "view S' = view (upd_cs c (\<lambda>_. x) S)"
    and "CS_ONLINE \<in> flags x \<longleftrightarrow> CS_ONLINE \<in> flags (cpusets S c)"
  shows "key_ok S'"
proof (rule key_ok_view [OF assms(2)])
  show "key_ok (upd_cs c (\<lambda>_. x) S)"
    using assms(3) by (intro key_ok_same [OF assms(1)]) (auto simp: upd_cs_def)
qed

lemma update_flag_key:
  assumes "update_flag K ok b cs turning_on S = (r, S')" and "b \<noteq> CS_ONLINE" and "key_ok S"
  shows "key_ok S' \<and> (CS_ONLINE \<in> flags (cpusets S' cs) \<longleftrightarrow> CS_ONLINE \<in> flags (cpusets S cs))
    \<and> ctree S' = ctree S \<and> enabled_key S' = enabled_key S
    \<and> (\<forall>c. c \<noteq> cs \<longrightarrow> flags (cpusets S' c) = flags (cpusets S c))"
proof (cases "S' = S")
  case True
  with assms(3) show ?thesis by simp
next
  case False
  then obtain F where F: "F = flags (cpusets S cs) \<union> {b} \<or> F = flags (cpusets S cs) - {b}"
    and v: "view S' = view (upd_cs cs (\<lambda>x. x\<lparr>flags := F\<rparr>) S)"
    using update_flag_outcomes [OF assms(1)] by blast
  have on: "CS_ONLINE \<in> F \<longleftrightarrow> CS_ONLINE \<in> flags (cpusets S cs)" using F assms(2) by auto
  have "upd_cs cs (\<lambda>x. x\<lparr>flags := F\<rparr>) S = upd_cs cs (\<lambda>_. cpusets S cs\<lparr>flags := F\<rparr>) S"
    by (simp add: upd_cs_def)
  with v have "key_ok S'" using on by (intro key_ok_upd [OF assms(3), of S' cs "cpusets S cs\<lparr>flags := F\<rparr>"]) simp_all
  then show ?thesis
    using view_eqD(1) [OF v] view_key [OF v] rules_eqD(1) [OF view_eqD(5) [OF v]] on by simp
qed

lemma offline_key:
  assumes "key_ok S" and "legacy_ok S" and "c \<in> counted S"
  shows "key_ok (cpuset_css_offline K ok ok' c S)"
proof -
  note lo = legacy_okD [OF assms(2)]
  have c: "c \<in> set (tcss (ctree S))" "c \<noteq> top_cpuset" using assms(3) by (auto simp: counted_def)
  have prs: "\<not> is_partition_root (cpusets S c)" "\<not> on_dfl S"
    using lo(10) [OF c] lo(2) by (auto simp: is_partition_root_def is_in_v2_mode_def)
  define S1 where "S1 = (if is_sched_load_balance (cpusets S c)
    then snd (update_flag K ok CS_SCHED_LOAD_BALANCE c 0 S) else S)"
  have S1: "key_ok S1" "CS_ONLINE \<in> flags (cpusets S1 c)" "ctree S1 = ctree S" "enabled_key S1 = enabled_key S"
    using update_flag_key [of K ok CS_SCHED_LOAD_BALANCE c 0 S] assms(1,3)
    by (auto simp: S1_def counted_def split: prod.split) (metis prod.collapse)+
  let ?S2 = "disinherit_ecpus c (parent_cs S1 c) S1"
  have d: "enabled_key ?S2 = enabled_key S1" "ctree ?S2 = ctree S1"
    "\<And>e. flags (cpusets ?S2 e) = flags (cpusets S1 e)"
    by (auto simp: disinherit_ecpus_def upd_cs_def)
  let ?S3 = "upd_cs c (\<lambda>x. x\<lparr>flags := flags x - {CS_ONLINE}\<rparr>) (?S2\<lparr>enabled_key := enabled_key ?S2 - 1\<rparr>)"
  have off: "cpuset_css_offline K ok ok' c S = ?S3"
    using prs by (auto simp: cpuset_css_offline_def Let_def S1_def)
  have "counted ?S3 = counted S1 - {c}"
    using d by (auto simp: counted_def upd_cs_def)
  moreover have "c \<in> counted S1" using c S1(2,3) by (simp add: counted_def)
  moreover have "finite (counted S1)" by (simp add: counted_def)
  ultimately have "card (counted ?S3) = card (counted S1) - 1" by simp
  then show ?thesis using S1(1) d(1) unfolding off by (simp add: key_ok_def)
qed

subsection \<open>Every step keeps the rules\<close>

definition legacy_inv :: "cpuset_sys \<Rightarrow> bool" where
  "legacy_inv S \<longleftrightarrow> legacy_ok S \<and> key_ok S"

lemma inv_view: "view S' = view S \<Longrightarrow> legacy_inv S \<Longrightarrow> legacy_inv S'"
  using legacy_ok_view [of S S'] key_ok_view [of S' S] by (simp add: legacy_inv_def)

lemma inv_update_flag:
  assumes "legacy_inv S" and "is_cpuset_online S cs" and "update_flag K ok b cs t S = (r, S')" and "b \<noteq> CS_ONLINE"
  shows "legacy_inv S'"
  using assms update_flag_ok [of S cs b K ok t r S'] update_flag_key [of K ok b cs t S r S']
  by (simp add: legacy_inv_def)

lemma inv_write_u64:
  assumes "legacy_inv S" and "cpuset_write_u64 K ok c type val S = (r, S')"
  shows "legacy_inv S'"
proof (cases "is_cpuset_online S c")
  case False
  with assms show ?thesis by (simp add: cpuset_write_u64_def)
next
  case True
  have p: "view (S\<lparr>memory_pressure_enabled := x\<rparr>) = view S" for x by (simp add: view_def)
  show ?thesis
    using assms True inv_update_flag [OF assms(1) True] inv_view [OF p assms(1)]
    by (cases type) (auto simp: cpuset_write_u64_def)
qed

lemma inv_write_mask:
  assumes "legacy_inv S" and "cpuset_write_resmask K ok c type buf n S = (r, S')"
  shows "legacy_inv S'"
proof (cases "is_cpuset_online S c \<and> ok")
  case False
  with assms show ?thesis
    by (auto simp: cpuset_write_resmask_def alloc_trial_cpuset_def Let_def split: if_splits)
next
  case True
  let ?t = "cpusets S c\<lparr>subparts_cpus := {}\<rparr>" and ?b = "strstrip buf"
  have *: "legacy_inv T" if "legacy_ok T \<and> (\<exists>x. view T = view (upd_cs c (\<lambda>_. x) S) \<and> flags x = flags (cpusets S c))" for T
    using that key_ok_upd [of S T c] assms(1) by (auto simp: legacy_inv_def)
  have cpu: "legacy_inv T" if "update_cpumask K c ?t ?b S = (q, T)" for q T
    using that update_cpumask_ok [of S c ?t K ?b q T] assms(1) True by (intro *) (simp add: legacy_inv_def)
  have mem: "legacy_inv T" if "update_nodemask K c ?t ?b S = (q, T)" for q T
    using that update_nodemask_ok [of S c ?t K ?b q T] assms(1) True by (intro *) (simp add: legacy_inv_def)
  show ?thesis
    using assms True cpu mem
    by (cases type) (auto simp: cpuset_write_resmask_def alloc_trial_cpuset_def Let_def split: prod.splits)
qed

lemma inv_create:
  assumes "legacy_inv S" and "is_cpuset_online S p" and "\<forall>d \<in> set (tcss (ctree S)). d < c"
    and "cpuset_css_alloc ok c (Some p) S = (Inr c, S1)" and "cpuset_css_online c (link_css c p S1) = (r, S2)"
  shows "legacy_inv S2"
proof -
  have lo: "legacy_ok S" and key: "enabled_key S = card (counted S)"
    using assms(1) by (auto simp: legacy_inv_def key_ok_def)
  have S1: "S1 = upd_cs c (\<lambda>_. new_cpuset) S" using assms(4) by (auto simp: cpuset_css_alloc_def split: if_splits)
  have pT: "p \<in> set (tcss (ctree S))" using legacy_okD(4) [OF lo assms(2)] .
  then have pc: "p \<noteq> c" using assms(3) by auto
  have cT: "c \<notin> set (tcss (ctree S))" using assms(3) by auto
  have top: "c \<noteq> top_cpuset" using legacy_okD(1) [OF lo] cT by (auto simp: sys_ok_def)
  have L: "\<not> is_in_v2_mode (link_css c p S1)" "tpar (ctree (link_css c p S1)) c = Some p"
    "cpusets (link_css c p S1) c = new_cpuset"
    using legacy_okD(2) [OF lo] by (simp_all add: link_css_def S1 is_in_v2_mode_def)
  note new = css_online_new [OF L(1,2) pc L(3) assms(5)]
  have "enabled_key S2 = enabled_key S + 1"
    using assms(5) L(1,2) by (auto simp: cpuset_css_online_def Let_def link_css_def S1 is_in_v2_mode_def upd_cs_def
        split: if_splits)
  moreover have "counted S2 = insert c (counted S)"
  proof -
    have T: "tcss (ctree S2) = tcss (ctree S) @ [c]" using new(1) by (simp add: link_css_def S1)
    have "flags (cpusets S2 d) = flags (cpusets S d)" if "d \<noteq> c" for d
      using new(4) [OF that] that by (simp add: link_css_def S1)
    then have "d \<in> counted S2 \<longleftrightarrow> d \<in> insert c (counted S)" for d
      using new(6) top cT by (cases "d = c") (auto simp: counted_def T)
    then show ?thesis by blast
  qed
  moreover have "c \<notin> counted S" "finite (counted S)" using cT by (auto simp: counted_def)
  ultimately have "key_ok S2" using key by (simp add: key_ok_def)
  then show ?thesis using create_ok [OF lo assms(2-5)] by (simp add: legacy_inv_def)
qed

lemma legacy_step_keeps: "legacy_step S S' \<Longrightarrow> legacy_inv S \<Longrightarrow> legacy_inv S'"
proof (induction rule: legacy_step.induct)
  case (create S p c ok S1 r S2)
  have "view (S2\<lparr>css_online := f\<rparr>) = view S2" for f by (simp add: view_def)
  then show ?case using inv_create [OF create(5,1-4)] by (rule inv_view)
next
  case (kill c S)
  then have "legacy_ok (S\<lparr>css_dying := (css_dying S)(c := True)\<rparr>)" by (intro kill_ok) (auto simp: legacy_inv_def)
  then show ?case using kill(3) by (auto simp: legacy_inv_def key_ok_def counted_def)
next
  case (offline c S K ok ok')
  then show ?case using offline_ok [of S c K ok ok'] offline_key [of S c K ok ok']
    by (simp add: legacy_inv_def counted_def)
next
  case (free c S)
  then have "legacy_ok (unlink_css c S)" by (intro free_ok) (auto simp: legacy_inv_def is_cpuset_online_def)
  moreover have "counted (unlink_css c S) = counted S" using free(3) by (auto simp: counted_def unlink_css_def)
  moreover have "enabled_key (unlink_css c S) = enabled_key S" by (simp add: unlink_css_def)
  ultimately show ?case using free(4) by (simp add: legacy_inv_def key_ok_def)
next
  case (write_u64 K ok c type val S r S')
  then show ?case using inv_write_u64 by blast
next
  case (write_s64 K c type val S r S')
  have "view S' = view S" using write_s64(1) relax_level_view
    by (auto simp: cpuset_write_s64_def split: if_splits cpuset_filetype.splits)
  then show ?case using write_s64(2) by (rule inv_view)
next
  case (write_mask K ok c type buf n S r S')
  then show ?case using inv_write_mask by blast
next
  case (read now c type S r S')
  then show ?case using inv_view [OF view_read] by blast
next
  case (bump S now c)
  show ?case by (rule inv_view [OF view_bump bump])
next
  case (can_attach K tset c S r S')
  show ?case by (rule inv_view [OF view_can_attach [OF can_attach(1)] can_attach(2)])
next
  case (cancel S c)
  show ?case by (rule inv_view [OF view_cancel_attach cancel])
next
  case (attach S K tset c)
  show ?case by (rule inv_view [OF view_attach attach])
next
  case (move S t a b)
  show ?case by (rule inv_view [OF view_move_task move])
next
  case (fork S c cur m t)
  show ?case by (rule inv_view [OF view_fork fork])
next
  case (hotplug S K)
  then show ?case using hotplug_ok [of S K] key_ok_same [of S "cpuset_hotplug_workfn K S"]
    by (simp add: legacy_inv_def)
next
  case (world S tm ts f m b a)
  have "view (S\<lparr>cpu_online_mask := a, cpu_active_mask := b, n_memory := m, clone_children := f,
      css_tasks := ts, task_mems := tm\<rparr>) = view S" by (simp add: view_def)
  then show ?case using world by (rule inv_view)
qed

lemma start_inv:
  assumes "legacy_start all_cpus all_nodes S"
  shows "legacy_inv S"
proof -
  have S: "tcss (ctree S) = [top_cpuset]" "tpar (ctree S) = Map.empty" "\<not> css_dying S top_cpuset" "enabled_key S = 0"
    "\<not> is_in_v2_mode S" using assms by (auto simp: legacy_start_def cpuset_start_def)
  have "cpusets S top_cpuset = cpusets (cpuset_bind (cpuset_init_smp
         (S\<lparr>cpusets := \<lambda>_. cpuset_init all_cpus all_nodes\<rparr>))) top_cpuset" using assms by (simp add: legacy_start_def cpuset_start_def)
  then have top: "plain (cpusets S top_cpuset) \<and> CS_ONLINE \<in> flags (cpusets S top_cpuset)"
    using S(5) by (simp add: cpuset_bind_def cpuset_init_smp_def is_in_v2_mode_def plain_def cpuset_init_def)
  have on: "is_cpuset_online S c \<longleftrightarrow> c = top_cpuset" for c
    using top S(3) assms by (auto simp: is_cpuset_online_def legacy_start_def cpuset_start_def new_cpuset_def)
  have "sys_ok S" using S(1,2) by (simp add: sys_ok_def css_tree_ok_def tree_ok_def)
  with top S on have "legacy_ok S" unfolding legacy_ok_def by simp
  moreover have "key_ok S" using S by (simp add: key_ok_def counted_def)
  ultimately show ?thesis by (simp add: legacy_inv_def)
qed

interpretation legacy_cpusets: kept_invariant legacy_step legacy_inv
  by unfold_locales (rule legacy_step_keeps)

lemma legacy_reachable:
  assumes "legacy_start all_cpus all_nodes S0" and "legacy_step\<^sup>*\<^sup>* S0 S"
  shows "legacy_inv S"
  by (rule legacy_cpusets.reachable_inv [OF assms(2) start_inv [OF assms(1)]])

text \<open>C13: the rules of the legacy hierarchy hold at all times: whatever files are written, cpusets
  created and removed, tasks moved and CPUs or nodes plugged in and out, the effective masks of
  an online cpuset are its configured ones, its parent is online and contains its CPUs and nodes
  and is exclusive where it is, and it overlaps no sibling when one of the two is exclusive.\<close>

theorem cpuset_rules_kept:
  assumes "legacy_start all_cpus all_nodes S0" and "legacy_step\<^sup>*\<^sup>* S0 S"
  shows "\<forall>c. is_cpuset_online S c \<longrightarrow>
    effective_cpus (cpusets S c) = cpus_allowed (cpusets S c) \<and> effective_mems (cpusets S c) = mems_allowed (cpusets S c)
    \<and> (\<forall>p. tpar (ctree S) c = Some p \<longrightarrow> is_cpuset_online S p \<and> is_cpuset_subset (cpusets S c) (cpusets S p)
        \<and> (\<forall>d. is_cpuset_online S d \<longrightarrow> d \<noteq> c \<longrightarrow> tpar (ctree S) d = Some p \<longrightarrow>
             \<not> exclusive_clash (cpusets S c) (cpusets S d)))"
proof -
  have "legacy_ok S" using legacy_reachable [OF assms] by (simp add: legacy_inv_def)
  note ok = legacy_okD [OF this]
  show ?thesis using ok(5,7-9) by (simp add: plain_def)
qed

subsection \<open>Every balanced cpuset lies in a domain\<close>

lemma ancestor_contains:
  assumes "legacy_ok S" and "is_cpuset_online S d" and "e \<in> set (d # ancestors (tpar (ctree S)) d)"
  shows "effective_cpus (cpusets S d) \<subseteq> effective_cpus (cpusets S e)"
  using assms(2,3)
proof (induction d rule: less_induct)
  case (less d)
  note ok = legacy_okD [OF assms(1)]
  show ?case
  proof (cases "e = d")
    case True
    then show ?thesis by simp
  next
    case False
    then have e: "e \<in> set (ancestors (tpar (ctree S)) d)" using less.prems(2) by simp
    then obtain p where p: "tpar (ctree S) d = Some p" by (cases "tpar (ctree S) d") auto
    have T: "tree_ok (tpar (ctree S))" using ok(1) by (simp add: sys_ok_def css_tree_ok_def)
    have pd: "p < d" using T p by (simp add: tree_ok_def)
    have pon: "is_cpuset_online S p" using ok(7) [OF less.prems(1) p] .
    have "e \<in> set (p # ancestors (tpar (ctree S)) p)" using e ancestors_child [OF T p] by simp
    then have "effective_cpus (cpusets S p) \<subseteq> effective_cpus (cpusets S e)" by (rule less.IH [OF pd pon])
    moreover have "effective_cpus (cpusets S d) \<subseteq> effective_cpus (cpusets S p)"
      using ok(8) [OF less.prems(1) p] ok(5) [OF less.prems(1)] ok(5) [OF pon]
      by (simp add: plain_def is_cpuset_subset_def)
    ultimately show ?thesis by blast
  qed
qed

text \<open>What the scan leaves out is covered by a cpuset that it collects.\<close>

lemma collected_above:
  assumes "legacy_ok S" and "\<not> is_sched_load_balance (cpusets S top_cpuset)"
    and "is_cpuset_online S c" and "is_sched_load_balance (cpusets S c)"
    and "effective_cpus (cpusets S c) \<inter> housekeeping K \<noteq> {}"
  shows "\<exists>e \<in> set (collect_csa K S). effective_cpus (cpusets S c) \<subseteq> effective_cpus (cpusets S e)"
proof -
  note ok = legacy_okD [OF assms(1)]
  let ?T = "ctree S" and ?ps = "pruned (ctree S) (left_out K S) top_cpuset"
  have T: "css_tree_ok ?T" "top_cpuset \<in> set (tcss ?T)" using ok(1) by (auto simp: sys_ok_def)
  have csa: "set (collect_csa K S) = {e \<in> set ?ps. collected K S e}"
    using assms(2) collect_csa_eq [OF ok(1), of K] by simp
  have in_csa: "e \<in> set (collect_csa K S)"
    if "e \<in> set ?ps" "is_cpuset_online S e" "\<not> passed K S e" "is_sched_load_balance (cpusets S e)"
      "effective_cpus (cpusets S e) \<noteq> {}" for e
    using that by (simp add: csa collected_def)
  have "c \<in> set (pre_order ?T top_cpuset)"
    using ok(1,4) assms(3) set_pre_order [OF T] by (auto simp: in_subtree_def sys_ok_def)
  from pruned_cover [OF this, of "left_out K S"]
  show ?thesis
  proof
    assume c: "c \<in> set ?ps"
    have top: "c \<noteq> top_cpuset" using assms(2,4) by auto
    have "cpus_allowed (cpusets S c) = effective_cpus (cpusets S c)" using ok(5) assms(3) by (simp add: plain_def)
    then have "\<not> passed K S c" using assms(2,4,5) top by (auto simp: passed_def)
    with c assms(3-5) show ?thesis by (intro bexI [of _ c] in_csa) auto
  next
    assume "\<exists>e \<in> set ?ps. left_out K S e \<and> c \<in> set (pre_order ?T e)"
    then obtain e where e: "e \<in> set ?ps" "left_out K S e" "c \<in> set (pre_order ?T e)" by blast
    have on: "is_cpuset_online S e" "\<not> passed K S e" using e(2) by (auto simp: left_out_def)
    have "e \<in> set (c # ancestors (tpar ?T) c)"
      using e(3) set_pre_order [OF T(1) ok(4) [OF on(1)]] by (simp add: in_subtree_def)
    then have sub: "effective_cpus (cpusets S c) \<subseteq> effective_cpus (cpusets S e)"
      by (rule ancestor_contains [OF assms(1,3)])
    then have ne: "effective_cpus (cpusets S e) \<noteq> {}" using assms(5) by auto
    moreover have "cpus_allowed (cpusets S e) = effective_cpus (cpusets S e)" using ok(5) on(1) by (simp add: plain_def)
    ultimately have "is_sched_load_balance (cpusets S e)" using on(2) by (auto simp: passed_def)
    with e(1) on ne sub show ?thesis by (intro bexI [of _ e] in_csa)
  qed
qed

text \<open>C15: load balancing on the legacy hierarchy reaches every cpuset: at all times, for every online
  cpuset with \<open>sched_load_balance\<close> that has a CPU which is not isolated, \<open>generate_sched_domains\<close> gives
  the scheduler a domain that holds all its CPUs but the isolated ones; or an allocation failed, and
  it asks for the one default domain of the scheduler.  (The default hierarchy has no such rule: a
  partition splits the domains there.)\<close>

theorem balanced_cpuset_in_one_domain:
  assumes "legacy_start all_cpus all_nodes S0" and "legacy_step\<^sup>*\<^sup>* S0 S"
    and "is_cpuset_online S c" and "is_sched_load_balance (cpusets S c)"
    and "effective_cpus (cpusets S c) \<inter> housekeeping K \<noteq> {}"
  shows "\<exists>n doms dattr S'. generate_sched_domains K S = ((n, doms, dattr), S')
    \<and> (case doms of
         None \<Rightarrow> \<not> (alloc_csa K \<and> alloc_doms K) \<and> n = 1 \<and> dattr = None
       | Some ds \<Rightarrow> \<exists>D \<in> set ds. effective_cpus (cpusets S c) \<inter> housekeeping K \<subseteq> D)"
proof -
  have lo: "legacy_ok S" using legacy_reachable [OF assms(1,2)] by (simp add: legacy_inv_def)
  note ok = legacy_okD [OF lo]
  have top: "nr_subparts_cpus (cpusets S top_cpuset) = 0" using ok(3,5) by (simp add: plain_def)
  show ?thesis
  proof (cases "is_sched_load_balance (cpusets S top_cpuset)")
    case True
    have "top_cpuset \<in> set (c # ancestors (tpar (ctree S)) c)"
      using ok(4) [OF assms(3)] ok(1) by (cases "c = top_cpuset") (simp_all add: sys_ok_def)
    then have "effective_cpus (cpusets S c) \<subseteq> effective_cpus (cpusets S top_cpuset)"
      by (rule ancestor_contains [OF lo assms(3)])
    then show ?thesis using True top by (auto simp: generate_sched_domains_def Let_def)
  next
    case False
    obtain e where e: "e \<in> set (collect_csa K S)" "effective_cpus (cpusets S c) \<subseteq> effective_cpus (cpusets S e)"
      using collected_above [OF lo False assms(3-5)] by blast
    show ?thesis
    proof (cases "alloc_csa K \<and> alloc_doms K")
      case failed: False
      then show ?thesis using False by (auto simp: generate_sched_domains_def Let_def split: prod.split)
    next
      case True
      then obtain Cs dattr S' where g: "generate_sched_domains K S = ((int (length Cs), Some (map (span K S) Cs), dattr), S')"
        and Cs: "set Cs = component S (collect_csa K S) ` set (collect_csa K S)"
        using generate_components [OF ok(1), of K] False by blast
      obtain D where "D \<in> set (map (span K S) Cs)" "effective_cpus (cpusets S e) \<inter> housekeeping K \<subseteq> D"
        using domains_cover [OF Cs e(1)] by blast
      then have "\<exists>D \<in> set (map (span K S) Cs). effective_cpus (cpusets S c) \<inter> housekeeping K \<subseteq> D"
        using e(2) by blast
      then show ?thesis unfolding g by auto
    qed
  qed
qed

subsection \<open>At a concrete system\<close>

abbreviation (input) "demo0 \<equiv> demo_boot False"
abbreviation (input) "demo1 \<equiv> demo_mkdir 1 0 demo0"
abbreviation (input) "demo2 \<equiv> demo_cpus 1 ''0-1'' demo1"

lemma demo_start: "legacy_start {0, 1, 2, 3, 4, 5} {0} demo0"
  by (simp add: legacy_start_def cpuset_start_def demo_boot_def cpuset_bind_def cpuset_init_smp_def is_in_v2_mode_def upd_cs_def
      top_cpuset_def cpuset_init_def)

lemma demo_reached: "legacy_step\<^sup>*\<^sup>* demo0 demo2"
proof -
  have "is_cpuset_online demo0 0" by code_simp
  moreover have "\<forall>d \<in> set (tcss (ctree demo0)). d < 1" by code_simp
  moreover have "cpuset_css_alloc True 1 (Some 0) demo0 = (Inr 1, snd (cpuset_css_alloc True 1 (Some 0) demo0))"
    by (simp add: cpuset_css_alloc_def)
  ultimately have "legacy_step demo0 demo1"
    unfolding demo_mkdir_def Let_def by (rule legacy_step.create) (rule prod.collapse [symmetric])
  moreover have "legacy_step demo1 demo2"
    unfolding demo_cpus_def by (rule legacy_step.write_mask) (rule prod.collapse [symmetric])
  ultimately show ?thesis by (meson converse_rtranclp_into_rtranclp rtranclp.rtrancl_refl)
qed

lemma demo_values:
  "cpus_allowed (cpusets demo2 1) = {0, 1} \<and> is_cpuset_online demo2 1 \<and> tpar (ctree demo2) 1 = Some 0
   \<and> is_sched_load_balance (cpusets demo2 1) \<and> effective_cpus (cpusets demo2 1) = {0, 1}"
  by code_simp

theorem cpuset_rules_kept_witness:
  "is_cpuset_subset (cpusets demo2 1) (cpusets demo2 0) \<and> effective_cpus (cpusets demo2 1) = {0, 1}"
  using cpuset_rules_kept [OF demo_start demo_reached] demo_values by simp

theorem balanced_cpuset_in_one_domain_witness:
  "\<exists>doms. fst (snd (fst (generate_sched_domains demo_kernel demo2))) = Some doms \<and> (\<exists>D \<in> set doms. {0, 1} \<subseteq> D)"
proof -
  have alloc: "alloc_csa demo_kernel \<and> alloc_doms demo_kernel" by (simp add: demo_kernel_def)
  have on: "is_cpuset_online demo2 1" and lb: "is_sched_load_balance (cpusets demo2 1)" using demo_values by blast+
  have "effective_cpus (cpusets demo2 1) = {0, 1}" using demo_values by blast
  then have hk: "effective_cpus (cpusets demo2 1) \<inter> housekeeping demo_kernel = {0, 1}" by (simp add: demo_kernel_def)
  then have "effective_cpus (cpusets demo2 1) \<inter> housekeeping demo_kernel \<noteq> {}" by (metis insert_not_empty)
  from balanced_cpuset_in_one_domain [OF demo_start demo_reached on lb this, unfolded hk]
  obtain n doms dattr S' where g: "generate_sched_domains demo_kernel demo2 = ((n, doms, dattr), S')"
    and c: "case doms of None \<Rightarrow> \<not> (alloc_csa demo_kernel \<and> alloc_doms demo_kernel) \<and> n = 1 \<and> dattr = None
      | Some ds \<Rightarrow> \<exists>D \<in> set ds. {0, 1} \<subseteq> D" by blast
  show ?thesis
  proof (cases doms)
    case None
    from c [unfolded None option.case] alloc show ?thesis by blast
  next
    case (Some ds)
    from c [unfolded Some option.case] show ?thesis unfolding g Some fst_conv snd_conv by blast
  qed
qed

end
