(* ===== verification/Cpuset_Shape.thy ===== *)
theory Cpuset_Shape
  imports Cpuset_Steps
begin

section \<open>What only creation and removal change\<close>

text \<open>
  The tree, the dying cpusets, the mode, the count of \<open>cpusets_enabled_key\<close> and which cpusets are
  online: on both hierarchies the writers of the files, the partitions and hotplug leave them alone.
\<close>

definition shape :: "cpuset_sys \<Rightarrow> css_tree \<times> (nat \<Rightarrow> bool) \<times> bool \<times> bool \<times> nat \<times> (nat \<Rightarrow> bool)" where
  "shape S = (ctree S, css_dying S, on_dfl S, v2_mode_flag S, enabled_key S, \<lambda>c. CS_ONLINE \<in> flags (cpusets S c))"

lemma shape_view: "view S' = view S \<Longrightarrow> shape S' = shape S"
  by (auto simp: view_def shape_def rules_of_def fun_eq_iff)

lemma shape_upd_cs:
  "(CS_ONLINE \<in> flags (f (cpusets S c)) \<longleftrightarrow> CS_ONLINE \<in> flags (cpusets S c)) \<Longrightarrow> shape (upd_cs c f S) = shape S"
  by (auto simp: shape_def upd_cs_def fun_eq_iff)

lemma shape_fold: "(\<And>x S. shape (f x S) = shape S) \<Longrightarrow> shape (fold f xs S) = shape S"
  by (induction xs arbitrary: S) auto

lemma shape_if: "shape (if b then S else T) = (if b then shape S else shape T)" "snd (if b then x else y) = (if b then snd x else snd y)"
  by simp_all

lemma shape_walk:
  assumes "\<And>c S. shape (fst (body c S)) = shape S"
  shows "shape (cpuset_for_each_descendant_pre S0 root body online S) = shape S"
  unfolding cpuset_for_each_descendant_pre_def
  by (rule for_each_always_keeps [where P = "\<lambda>S'. shape S' = shape S"]) (auto simp: assms)

named_theorems shape_keeps \<open>operations that leave the shape alone\<close>

lemmas [shape_keeps] = shape_view [OF view_kernel_call] shape_view [OF view_task_mems]
  shape_view [OF view_update_tasks_cpumask] shape_view [OF view_update_tasks_nodemask]
  shape_view [OF view_update_tasks_flags] shape_view [OF view_rebuild] shape_view [OF view_remove_tasks]

lemma shape_records [shape_keeps]:
  "shape (S\<lparr>force_rebuild := x\<rparr>) = shape S" "shape (S\<lparr>memory_pressure_enabled := x\<rparr>) = shape S"
  by (simp_all add: shape_def)

subsection \<open>Masks and partitions\<close>

lemma shape_move_cpus [simp]: "flags (move_cpus a d act x) = flags x"
  by (simp add: move_cpus_def Let_def)

lemma shape_set_effective [simp]: "flags (set_effective m x) = flags x"
  by (simp add: set_effective_def Let_def)

lemma shape_set_cpus [simp]: "flags (set_cpus_allowed m x) = flags x"
  by (simp add: set_cpus_allowed_def Let_def)

lemma shape_subparts [shape_keeps]: "shape (snd (update_parent_subparts_cpumask c cmd new S)) = shape S"
proof -
  define T where "T part_error = (if cmd = partcmd_update
    then upd_cs c (\<lambda>x. x\<lparr>partition_root_state := prs_transition part_error (partition_root_state (cpusets S c))\<rparr>) S
    else S)" for part_error
  have T: "shape (T e) = shape S" for e by (simp add: T_def shape_upd_cs)
  have U: "shape (upd_cs p (move_cpus a d act) (T e)) = shape S" for p a d act e using T by (simp add: shape_upd_cs)
  show ?thesis
    unfolding update_parent_subparts_cpumask_def Let_def T_def [symmetric]
    by (simp add: shape_if T U split: option.split prod.split split del: if_split cong: if_cong)
qed

lemma shape_ecpus [shape_keeps]: "shape (inherit_ecpus c p S) = shape S" "shape (disinherit_ecpus c p S) = shape S"
  by (simp_all add: inherit_ecpus_def disinherit_ecpus_def shape_upd_cs)

lemma shape_follow [shape_keeps]: "shape (follow_parent c p S) = shape S"
proof -
  have "shape (upd_cs c (\<lambda>x. if nr_subparts_cpus x \<noteq> 0
      then x\<lparr>partition_root_state := PRS_ERROR, nr_subparts_cpus := 0, subparts_cpus := {}\<rparr>
      else x\<lparr>partition_root_state := PRS_ERROR\<rparr>) S) = shape S" by (rule shape_upd_cs) simp
  then show ?thesis
    by (simp add: follow_parent_def Let_def split_beta shape_upd_cs shape_if shape_keeps split del: if_split cong: if_cong)
qed

lemma shape_hier_turn: "shape (fst (fst (hier_turn cs cp (S, b)))) = shape S"
  by (simp add: hier_turn_def Let_def shape_keeps shape_upd_cs)

lemma shape_hier [shape_keeps]: "shape (update_cpumasks_hier K cs S) = shape S"
proof -
  have "shape (fst (cpuset_for_each_descendant_pre S cs (hier_turn cs) on (S, False))) = shape S" for on
    unfolding cpuset_for_each_descendant_pre_def
    by (rule for_each_always_keeps [where P = "\<lambda>x. shape (fst x) = shape S"]) (auto simp: shape_hier_turn)
  then show ?thesis by (auto simp: update_cpumasks_hier_def shape_keeps split: prod.split) (metis fst_conv)+
qed

lemma shape_siblings [shape_keeps]: "shape (update_sibling_cpumasks K p cs S) = shape S"
  unfolding update_sibling_cpumasks_def by (rule shape_fold) (simp add: shape_keeps)

lemma shape_cpumask: "shape (snd (update_cpumask K cs t buf S)) = shape S"
  by (simp add: update_cpumask_def Let_def split_beta shape_keeps shape_upd_cs shape_if split: sum.split split del: if_split cong: if_cong)

lemma shape_nodemask: "shape (snd (update_nodemask K cs t buf S)) = shape S"
proof -
  have "shape (fst (nodemask_turn K c S)) = shape S" for c S
    by (simp add: nodemask_turn_def Let_def shape_keeps shape_upd_cs)
  then have "shape (update_nodemasks_hier K cs S) = shape S" for S
    unfolding update_nodemasks_hier_def by (rule shape_walk)
  then show ?thesis by (auto simp: update_nodemask_def Let_def shape_upd_cs split: sum.split)
qed

subsection \<open>Flags and partition states\<close>

lemma shape_flag: "b \<noteq> CS_ONLINE \<Longrightarrow> shape (snd (update_flag K ok b cs t S)) = shape S"
proof -
  assume b: "b \<noteq> CS_ONLINE"
  obtain r S' where u: "update_flag K ok b cs t S = (r, S')" by (rule prod.exhaust)
  from update_flag_outcomes [OF u] show ?thesis
  proof
    assume "S' = S"
    then show ?thesis using u by simp
  next
    assume "\<exists>F. (F = flags (cpusets S cs) \<union> {b} \<or> F = flags (cpusets S cs) - {b})
      \<and> 0 \<le> validate_change K S cs (cpusets S cs\<lparr>subparts_cpus := {}, flags := F\<rparr>)
      \<and> view S' = view (upd_cs cs (\<lambda>x. x\<lparr>flags := F\<rparr>) S)"
    then obtain F where "F = flags (cpusets S cs) \<union> {b} \<or> F = flags (cpusets S cs) - {b}"
      and v: "view S' = view (upd_cs cs (\<lambda>x. x\<lparr>flags := F\<rparr>) S)" by blast
    then have "shape (upd_cs cs (\<lambda>x. x\<lparr>flags := F\<rparr>) S) = shape S" using b by (intro shape_upd_cs) auto
    then show ?thesis using shape_view [OF v] u by simp
  qed
qed

lemma shape_exclusive [shape_keeps]: "shape (snd (update_flag K ok CS_CPU_EXCLUSIVE cs t S)) = shape S"
  by (rule shape_flag) simp

lemma shape_partition [shape_keeps]:
  "shape (snd (partition_on K ok ok' cs S)) = shape S" "shape (snd (partition_off K ok cs S)) = shape S"
proof -
  obtain e S1 where u: "update_flag K ok CS_CPU_EXCLUSIVE cs 1 S = (e, S1)" by (rule prod.exhaust)
  obtain e2 S2 where p: "update_parent_subparts_cpumask cs partcmd_enable None S1 = (e2, S2)" by (rule prod.exhaust)
  have "shape S1 = shape S" "shape S2 = shape S1"
    using shape_exclusive [of K ok cs 1 S] shape_subparts [of cs partcmd_enable None S1] u p by simp_all
  then show "shape (snd (partition_on K ok ok' cs S)) = shape S"
    by (simp add: partition_on_def u p shape_keeps shape_upd_cs)
  obtain e3 S3 where d: "update_parent_subparts_cpumask cs partcmd_disable None S = (e3, S3)" by (rule prod.exhaust)
  have "shape S3 = shape S" using shape_subparts [of cs partcmd_disable None S] d by simp
  then show "shape (snd (partition_off K ok cs S)) = shape S"
    by (simp add: partition_off_def d shape_keeps shape_upd_cs)
qed

lemma shape_prstate [shape_keeps]: "shape (snd (update_prstate K ok ok' cs v S)) = shape S"
proof -
  obtain e S1 where r: "(if partition_root_state (cpusets S cs) = 0 then partition_on K ok ok' cs S
      else partition_off K ok cs S) = (e, S1)" by (rule prod.exhaust)
  then have "shape S1 = shape S" using shape_partition [of K ok] by (metis snd_conv)
  then show ?thesis unfolding update_prstate_def Let_def r by (simp add: shape_keeps shape_upd_cs)
qed

subsection \<open>Hotplug\<close>

lemma shape_hotplug_partition [shape_keeps]: "shape (snd (hotplug_partition cs m S)) = shape S"
  by (simp add: hotplug_partition_def cpuset_force_rebuild_def Let_def split_beta shape_upd_cs shape_if shape_keeps
      split del: if_split cong: if_cong)

lemma shape_hotplug_tasks [shape_keeps]: "shape (cpuset_hotplug_update_tasks K tmp cs S) = shape S"
  by (simp add: cpuset_hotplug_update_tasks_def hotplug_update_tasks_def hotplug_update_tasks_legacy_def Let_def
      split_beta shape_upd_cs shape_if shape_keeps split del: if_split cong: if_cong)

lemma shape_hotplug: "shape (cpuset_hotplug_workfn K S) = shape S"
proof -
  have top: "shape (hotplug_top_cpus S) = shape S" "shape (hotplug_top_mems K S) = shape S" for S
    by (simp_all add: hotplug_top_cpus_def hotplug_top_mems_def Let_def shape_upd_cs shape_if shape_keeps
        split del: if_split cong: if_cong)
  have turn: "shape (fst (if c = top_cpuset \<or> css_dying S c then (S, Go) else (cpuset_hotplug_update_tasks K tmp c S, Go)))
      = shape S" for c S tmp by (simp add: shape_keeps)
  show ?thesis
    by (simp add: cpuset_hotplug_workfn_def Let_def shape_if shape_keeps top shape_walk [OF turn]
        split del: if_split cong: if_cong)
qed

end
