(* ===== verification/Cpuset_Count.thy ===== *)
theory Cpuset_Count
  imports Cpuset_Shape Cpuset_Props
begin

section \<open>The count of the cpusets, on both hierarchies\<close>

text \<open>
  \<open>generate_sched_domains\<close> allocates its array of cpusets for \<open>nr_cpusets\<close> of them.  The steps here are
  those of the legacy hierarchy, without its rules, with what the default hierarchy adds: the writes
  of \<open>cpuset.cpus.partition\<close>, and the move of the controller from one hierarchy to the other while
  the root is its only cpuset.
\<close>

inductive cpuset_step :: "cpuset_sys \<Rightarrow> cpuset_sys \<Rightarrow> bool" where
  common: "legacy_step S S' \<Longrightarrow> cpuset_step S S'"
| partition: "sched_partition_write K ok ok' c buf n S = (r, S') \<Longrightarrow> cpuset_step S S'"
| rebind: "tcss (ctree S) = [top_cpuset] \<Longrightarrow> cpuset_step S (cpuset_bind (S\<lparr>on_dfl := dfl, v2_mode_flag := v2\<rparr>))"

text \<open>The tree is well-formed, has every cpuset that came online and did not go offline, and the key
  counts them.\<close>

definition count_inv :: "cpuset_sys \<Rightarrow> bool" where
  "count_inv S \<longleftrightarrow> sys_ok S \<and> key_ok S \<and> (\<forall>c. CS_ONLINE \<in> flags (cpusets S c) \<longrightarrow> c \<in> set (tcss (ctree S)))"

lemma shape_eqD:
  assumes "shape S' = shape S"
  shows "ctree S' = ctree S" and "enabled_key S' = enabled_key S"
    and "CS_ONLINE \<in> flags (cpusets S' c) \<longleftrightarrow> CS_ONLINE \<in> flags (cpusets S c)"
  using assms by (auto simp: shape_def fun_eq_iff)

lemma count_same:
  assumes "ctree S' = ctree S" and "enabled_key S' = enabled_key S" and "cpusets S' = cpusets S" and "count_inv S"
  shows "count_inv S'"
  using assms unfolding count_inv_def sys_ok_def key_ok_def counted_def by metis

lemma count_shape: "shape S' = shape S \<Longrightarrow> count_inv S \<Longrightarrow> count_inv S'"
  using shape_eqD [of S' S] key_ok_same [of S S'] by (simp add: count_inv_def sys_ok_def)

lemma count_view: "view S' = view S \<Longrightarrow> count_inv S \<Longrightarrow> count_inv S'"
  by (rule count_shape [OF shape_view])

lemma count_snd: "f = (r, S') \<Longrightarrow> shape (snd f) = shape S \<Longrightarrow> count_inv S \<Longrightarrow> count_inv S'"
  using count_shape by auto

subsection \<open>Creation and removal\<close>

lemma css_online_shape:
  assumes "tpar (ctree S) c = Some p" and "cpuset_css_online c S = (r, S')"
  shows "ctree S' = ctree S" and "enabled_key S' = enabled_key S + 1"
    and "CS_ONLINE \<in> flags (cpusets S' d) \<longleftrightarrow> d = c \<or> CS_ONLINE \<in> flags (cpusets S d)"
proof -
  define T where "T = (upd_cs c (\<lambda>x. x\<lparr>flags := flags x \<union> {CS_ONLINE}
    \<union> (if is_spread_page (cpusets S p) then {CS_SPREAD_PAGE} else {})
    \<union> (if is_spread_slab (cpusets S p) then {CS_SPREAD_SLAB} else {})\<rparr>) S)\<lparr>enabled_key := enabled_key S + 1\<rparr>"
  have k: "enabled_key (upd_cs c f S) = enabled_key S" for f by (simp add: upd_cs_def)
  have "shape (snd (cpuset_css_online c S)) = shape T"
    unfolding cpuset_css_online_def assms(1) option.case Let_def k T_def [symmetric]
    by (simp add: shape_if shape_upd_cs split del: if_split cong: if_cong)
  then have sh: "shape S' = shape T" using assms(2) by simp
  have T: "ctree T = ctree S" "enabled_key T = enabled_key S + 1"
    "CS_ONLINE \<in> flags (cpusets T d) \<longleftrightarrow> d = c \<or> CS_ONLINE \<in> flags (cpusets S d)"
    by (simp_all add: T_def upd_cs_def)
  show "ctree S' = ctree S" "enabled_key S' = enabled_key S + 1"
    "CS_ONLINE \<in> flags (cpusets S' d) \<longleftrightarrow> d = c \<or> CS_ONLINE \<in> flags (cpusets S d)"
    using shape_eqD [OF sh] T by simp_all
qed

lemma create_count:
  assumes "count_inv S" and "is_cpuset_online S p" and "\<forall>d \<in> set (tcss (ctree S)). d < c"
    and "cpuset_css_alloc ok c (Some p) S = (Inr c, S1)" and "cpuset_css_online c (link_css c p S1) = (r, S2)"
  shows "count_inv S2"
proof -
  have sys: "sys_ok S" and key: "enabled_key S = card (counted S)"
    and on: "\<And>d. CS_ONLINE \<in> flags (cpusets S d) \<Longrightarrow> d \<in> set (tcss (ctree S))"
    using assms(1) by (auto simp: count_inv_def key_ok_def)
  have pT: "p \<in> set (tcss (ctree S))" using on assms(2) by (simp add: is_cpuset_online_def)
  have cT: "c \<notin> set (tcss (ctree S))" using assms(3) by auto
  then have top: "c \<noteq> top_cpuset" using sys by (auto simp: sys_ok_def)
  let ?L = "link_css c p S1"
  have S1: "S1 = upd_cs c (\<lambda>_. new_cpuset) S" using assms(4) by (auto simp: cpuset_css_alloc_def split: if_splits)
  have L: "tpar (ctree ?L) = (tpar (ctree S))(c \<mapsto> p)" "tcss (ctree ?L) = tcss (ctree S) @ [c]" "enabled_key ?L = enabled_key S"
    "\<And>d. flags (cpusets ?L d) = (if d = c then {CS_SCHED_LOAD_BALANCE} else flags (cpusets S d))"
    by (simp_all add: link_css_def S1 upd_cs_def new_cpuset_def)
  have S2: "ctree S2 = ctree ?L" "enabled_key S2 = enabled_key ?L + 1"
    "\<And>d. CS_ONLINE \<in> flags (cpusets S2 d) \<longleftrightarrow> d = c \<or> CS_ONLINE \<in> flags (cpusets ?L d)"
    using css_online_shape [OF _ assms(5)] L(1) by simp_all
  have T: "tcss (ctree S2) = tcss (ctree S) @ [c]" using S2(1) L(2) by simp
  have "sys_ok S2" using link_sys_ok [OF sys assms(3) pT, of "ctree S2"] S2(1) L(1,2) by (simp add: sys_ok_def)
  moreover have "key_ok S2"
  proof -
    have "d \<in> counted S2 \<longleftrightarrow> d \<in> insert c (counted S)" for d
      using S2(3) L(4) T top cT by (auto simp: counted_def split: if_splits)
    then have "counted S2 = insert c (counted S)" by blast
    moreover have "c \<notin> counted S" "finite (counted S)" using cT by (auto simp: counted_def)
    ultimately show ?thesis using key S2(2) L(3) by (simp add: key_ok_def)
  qed
  moreover have "CS_ONLINE \<in> flags (cpusets S2 d) \<Longrightarrow> d \<in> set (tcss (ctree S2))" for d
    using on S2(3) L(4) T by (auto split: if_splits)
  ultimately show ?thesis by (simp add: count_inv_def)
qed

lemma offline_count:
  assumes "count_inv S" and "c \<in> counted S"
  shows "count_inv (cpuset_css_offline K ok ok' c S)"
proof -
  define S1 where "S1 = (if is_partition_root (cpusets S c) then snd (update_prstate K ok ok' c 0 S) else S)"
  define S2 where "S2 = (if \<not> on_dfl S1 \<and> is_sched_load_balance (cpusets S1 c)
    then snd (update_flag K ok CS_SCHED_LOAD_BALANCE c 0 S1) else S1)"
  define S3 where "S3 = disinherit_ecpus c (parent_cs S2 c) S2"
  let ?S = "upd_cs c (\<lambda>x. x\<lparr>flags := flags x - {CS_ONLINE}\<rparr>) (S3\<lparr>enabled_key := enabled_key S3 - 1\<rparr>)"
  have off: "cpuset_css_offline K ok ok' c S = ?S"
    by (simp only: cpuset_css_offline_def Let_def S1_def S2_def S3_def)
  have "shape S1 = shape S" by (simp add: S1_def shape_keeps)
  moreover have "shape S2 = shape S1" by (simp add: S2_def shape_flag)
  moreover have "shape S3 = shape S2" by (simp add: S3_def shape_keeps)
  ultimately have sh: "shape S3 = shape S" by simp
  note d = shape_eqD [OF sh]
  have c3: "counted S3 = counted S" using d by (simp add: counted_def)
  have inv: "count_inv S3" by (rule count_shape [OF sh assms(1)])
  have "counted ?S = counted S3 - {c}" by (auto simp: counted_def upd_cs_def)
  then have "card (counted ?S) = card (counted S3) - 1" using assms(2) c3 by simp
  then have "key_ok ?S" using inv by (simp add: count_inv_def key_ok_def)
  moreover have "sys_ok ?S" using inv by (simp add: count_inv_def sys_ok_def)
  moreover have "\<forall>d. CS_ONLINE \<in> flags (cpusets ?S d) \<longrightarrow> d \<in> set (tcss (ctree ?S))"
    using inv by (auto simp: count_inv_def upd_cs_def)
  ultimately show ?thesis unfolding off by (simp add: count_inv_def)
qed

lemma free_count:
  assumes "count_inv S" and "c \<noteq> top_cpuset" and "kids (ctree S) c = []" and "CS_ONLINE \<notin> flags (cpusets S c)"
  shows "count_inv (unlink_css c S)"
proof -
  have "sys_ok (unlink_css c S)" using unlink_sys_ok [OF _ assms(3,2)] assms(1) by (simp add: count_inv_def)
  moreover have "counted (unlink_css c S) = counted S" using assms(4) by (auto simp: counted_def unlink_css_def)
  then have "key_ok (unlink_css c S)" using assms(1) by (simp add: count_inv_def key_ok_def unlink_css_def)
  moreover have "\<forall>d. CS_ONLINE \<in> flags (cpusets (unlink_css c S) d) \<longrightarrow> d \<in> set (tcss (ctree (unlink_css c S)))"
    using assms(1,4) by (auto simp: count_inv_def unlink_css_def)
  ultimately show ?thesis by (simp add: count_inv_def)
qed

subsection \<open>Every step keeps the count\<close>

lemma write_u64_shape: "shape (snd (cpuset_write_u64 K ok c type v S)) = shape S"
  by (cases type) (simp_all add: cpuset_write_u64_def shape_flag shape_keeps)

lemma write_mask_shape: "shape (snd (cpuset_write_resmask K ok c type buf n S)) = shape S"
  by (cases ok; cases type) (simp_all add: cpuset_write_resmask_def alloc_trial_cpuset_def Let_def split_beta shape_if
      shape_cpumask shape_nodemask split del: if_split cong: if_cong)

lemma partition_write_shape: "shape (snd (sched_partition_write K ok ok' c buf n S)) = shape S"
  by (simp add: sched_partition_write_def Let_def split_beta shape_if shape_keeps split: option.split
      split del: if_split cong: if_cong)

lemma write_s64_view: "cpuset_write_s64 K c type v S = (r, S') \<Longrightarrow> view S' = view S"
  using relax_level_view by (auto simp: cpuset_write_s64_def split: if_splits cpuset_filetype.splits)

lemma legacy_step_count: "legacy_step S S' \<Longrightarrow> count_inv S \<Longrightarrow> count_inv S'"
proof (induction rule: legacy_step.induct)
  case (create S p c ok S1 r S2)
  have "view (S2\<lparr>css_online := f\<rparr>) = view S2" for f by (simp add: view_def)
  then show ?case using create_count [OF create(5,1-4)] count_view by blast
next
  case (kill c S)
  show ?case by (rule count_same [OF _ _ _ kill(3)]) simp_all
next
  case (offline c S K ok ok')
  have "c \<in> counted S" using offline(1,2,4) by (simp add: counted_def)
  then show ?case using offline(5) by (intro offline_count)
next
  case (free c S)
  then show ?case using free_count by blast
next
  case (write_u64 K ok c type val S r S')
  then show ?case using count_snd [OF write_u64(1) write_u64_shape] by blast
next
  case (write_s64 K c type val S r S')
  then show ?case using count_view [OF write_s64_view] by blast
next
  case (write_mask K ok c type buf n S r S')
  then show ?case using count_snd [OF write_mask(1) write_mask_shape] by blast
next
  case (read now c type S r S')
  then show ?case using count_view [OF view_read] by blast
next
  case (bump S now c)
  show ?case by (rule count_view [OF view_bump bump])
next
  case (can_attach K tset c S r S')
  show ?case by (rule count_view [OF view_can_attach [OF can_attach(1)] can_attach(2)])
next
  case (cancel S c)
  show ?case by (rule count_view [OF view_cancel_attach cancel])
next
  case (attach S K tset c)
  show ?case by (rule count_view [OF view_attach attach])
next
  case (move S t a b)
  show ?case by (rule count_view [OF view_move_task move])
next
  case (fork S c cur m t)
  show ?case by (rule count_view [OF view_fork fork])
next
  case (hotplug S K)
  show ?case by (rule count_shape [OF shape_hotplug hotplug])
next
  case (world S tm ts f m b a)
  have "view (S\<lparr>cpu_online_mask := a, cpu_active_mask := b, n_memory := m, clone_children := f,
      css_tasks := ts, task_mems := tm\<rparr>) = view S" by (simp add: view_def)
  then show ?case using world by (rule count_view)
qed

lemma cpuset_step_count: "cpuset_step S S' \<Longrightarrow> count_inv S \<Longrightarrow> count_inv S'"
proof (induction rule: cpuset_step.induct)
  case (common S S')
  then show ?case using legacy_step_count by blast
next
  case (partition K ok ok' c buf n S r S')
  then show ?case using count_snd [OF partition(1) partition_write_shape] by blast
next
  case (rebind S v2 dfl)
  let ?T = "S\<lparr>on_dfl := dfl, v2_mode_flag := v2\<rparr>"
  have "shape (cpuset_bind ?T) = shape ?T" by (simp add: cpuset_bind_def shape_upd_cs)
  moreover have "count_inv ?T" by (rule count_same [OF _ _ _ rebind(2)]) simp_all
  ultimately show ?case by (rule count_shape)
qed

lemma start_count:
  assumes "cpuset_start all_cpus all_nodes S"
  shows "count_inv S"
proof -
  have S: "tcss (ctree S) = [top_cpuset]" "tpar (ctree S) = Map.empty" "enabled_key S = 0"
    "\<And>c. c \<noteq> top_cpuset \<Longrightarrow> cpusets S c = new_cpuset" using assms by (auto simp: cpuset_start_def)
  have "CS_ONLINE \<in> flags (cpusets S c) \<Longrightarrow> c \<in> set (tcss (ctree S))" for c
    using S(1,4) by (cases "c = top_cpuset") (simp_all add: new_cpuset_def)
  moreover have "sys_ok S" using S(1,2) by (simp add: sys_ok_def css_tree_ok_def tree_ok_def)
  moreover have "counted S = {}" using S(1) by (auto simp: counted_def)
  then have "key_ok S" using S(3) by (simp add: key_ok_def)
  ultimately show ?thesis by (simp add: count_inv_def)
qed

interpretation counted_cpusets: kept_invariant cpuset_step count_inv
  by unfold_locales (rule cpuset_step_count)

text \<open>C39: the array of cpusets never overflows: on the legacy and on the default hierarchy, with its
  partition roots, and also when the controller moves between the two, \<open>generate_sched_domains\<close>
  collects at most as many cpusets as it allocated room for, because \<open>cpusets_enabled_key\<close> counts the
  cpusets.\<close>

theorem csa_never_overflows:
  assumes "cpuset_start all_cpus all_nodes S0" and "cpuset_step\<^sup>*\<^sup>* S0 S"
  shows "length (collect_csa K S) \<le> nr_cpusets S"
proof -
  have inv: "count_inv S" by (rule counted_cpusets.reachable_inv [OF assms(2) start_count [OF assms(1)]])
  then have sys: "sys_ok S" and key: "key_ok S" by (simp_all add: count_inv_def)
  then have T: "css_tree_ok (ctree S)" "top_cpuset \<in> set (tcss (ctree S))" by (auto simp: sys_ok_def)
  let ?ps = "pruned (ctree S) (left_out K S) top_cpuset"
  have "set ?ps \<subseteq> set (tcss (ctree S))"
    using pruned_subset set_pre_order [OF T] by (fastforce simp: in_subtree_def)
  then have "set (filter (collected K S) ?ps) \<subseteq> counted S"
    by (auto simp: collected_def counted_def passed_def is_cpuset_online_def)
  moreover have "distinct (filter (collected K S) ?ps)"
    using subseq_distinct [OF pruned_subseq distinct_pre_order [OF T(1)]] by simp
  ultimately have "length (filter (collected K S) ?ps) \<le> card (counted S)"
    by (metis card_mono counted_finite distinct_card)
  then show ?thesis using key collect_csa_eq [OF sys, of K] by (simp add: nr_cpusets_def key_ok_def)
qed

subsection \<open>At a concrete system\<close>

text \<open>On the default hierarchy, a cpuset that becomes a partition root of the CPUs 0 and 1.\<close>

definition demo_partition :: "cpuset_sys \<Rightarrow> cpuset_sys" where
  "demo_partition S = snd (sched_partition_write demo_kernel True True 1 ''root'' 5 S)"

abbreviation (input) "dfl0 \<equiv> demo_boot True"
abbreviation (input) "dfl1 \<equiv> demo_mkdir 1 0 dfl0"
abbreviation (input) "dfl2 \<equiv> demo_cpus 1 ''0-1'' dfl1"
abbreviation (input) "dfl3 \<equiv> demo_partition dfl2"

lemma dfl_start: "cpuset_start {0, 1, 2, 3, 4, 5} {0} dfl0"
  by (simp add: cpuset_start_def demo_boot_def cpuset_bind_def cpuset_init_smp_def is_in_v2_mode_def upd_cs_def
      top_cpuset_def cpuset_init_def)

lemma dfl_reached: "cpuset_step\<^sup>*\<^sup>* dfl0 dfl3"
proof -
  have "is_cpuset_online dfl0 0" by code_simp
  moreover have "\<forall>d \<in> set (tcss (ctree dfl0)). d < 1" by code_simp
  moreover have "cpuset_css_alloc True 1 (Some 0) dfl0 = (Inr 1, snd (cpuset_css_alloc True 1 (Some 0) dfl0))"
    by (simp add: cpuset_css_alloc_def)
  ultimately have "legacy_step dfl0 dfl1"
    unfolding demo_mkdir_def Let_def by (rule legacy_step.create) (rule prod.collapse [symmetric])
  moreover have "legacy_step dfl1 dfl2"
    unfolding demo_cpus_def by (rule legacy_step.write_mask) (rule prod.collapse [symmetric])
  moreover have "cpuset_step dfl2 dfl3"
    unfolding demo_partition_def by (rule cpuset_step.partition) (rule prod.collapse [symmetric])
  ultimately show ?thesis by (meson common converse_rtranclp_into_rtranclp rtranclp.rtrancl_refl)
qed

lemma dfl_values: "collect_csa demo_kernel dfl3 = [0, 1] \<and> is_partition_root (cpusets dfl3 1)"
  by code_simp

theorem csa_never_overflows_witness: "2 \<le> nr_cpusets dfl3 \<and> is_partition_root (cpusets dfl3 1)"
proof -
  have "length (collect_csa demo_kernel dfl3) \<le> nr_cpusets dfl3" by (rule csa_never_overflows [OF dfl_start dfl_reached])
  moreover have "length (collect_csa demo_kernel dfl3) = 2" using dfl_values by (metis length_Cons list.size(3) numeral_2_eq_2)
  ultimately show ?thesis using dfl_values by (metis)
qed

end
