(* ===== verification/Cpuset_Partitions.thy ===== *)
theory Cpuset_Partitions
  imports Cpuset_Demo
begin

section \<open>Online masks, and CPUs given away twice\<close>

text \<open>
  What the loops of \<open>guarantee_online_cpus\<close> and \<open>guarantee_online_mems\<close> return, and a run of the
  default hierarchy on which a CPU ends up in two partitions.
\<close>

subsection \<open>The walk to an ancestor that is online\<close>

lemma online_mems_walk:
  assumes "css_tree_ok (ctree S)" and "d \<in> set (c # ancestors (tpar (ctree S)) c)"
    and "effective_mems (cpusets S d) \<inter> n_memory S \<noteq> {}"
  shows "\<exists>e \<in> set (c # ancestors (tpar (ctree S)) c).
    guarantee_online_mems S c = Some (effective_mems (cpusets S e) \<inter> n_memory S)
    \<and> effective_mems (cpusets S e) \<inter> n_memory S \<noteq> {}"
  using assms(2)
proof (induction c rule: less_induct)
  case (less c)
  show ?case
  proof (cases "effective_mems (cpusets S c) \<inter> n_memory S = {}")
    case False
    then show ?thesis by (auto simp: guarantee_online_mems.simps [of S c])
  next
    case True
    then have "d \<noteq> c" using assms(3) by auto
    then obtain p where p: "tpar (ctree S) c = Some p" "p < c"
      using less.prems by (cases "tpar (ctree S) c") (auto simp: ancestors.simps [of _ c] split: if_splits)
    then have up: "ancestors (tpar (ctree S)) c = p # ancestors (tpar (ctree S)) p"
      by (simp add: ancestors.simps [of _ c])
    have "d \<in> set (p # ancestors (tpar (ctree S)) p)" using less.prems \<open>d \<noteq> c\<close> up by auto
    from less.IH [OF p(2) this] show ?thesis
      using True p up by (auto simp: guarantee_online_mems.simps [of S c])
  qed
qed

lemma online_cpus_walk:
  assumes "cpu_online_mask S \<noteq> {}"
  shows "guarantee_online_cpus S c \<noteq> {} \<and> guarantee_online_cpus S c \<subseteq> cpu_online_mask S"
proof (induction c rule: less_induct)
  case (less c)
  then show ?case using assms by (simp add: guarantee_online_cpus.simps [of S c] split: option.split)
qed

text \<open>Whatever hotplug has done, the masks that a task of an online cpuset gets are never empty
  and hold only CPUs that are online and nodes with memory; the loop over the memory nodes, which does
  not look for the top of the tree, ends at an ancestor that has such a node.\<close>

theorem online_masks_guaranteed:
  assumes "sys_ok S" and "c \<in> set (tcss (ctree S))" and "cpu_online_mask S \<noteq> {}"
    and "effective_mems (cpusets S top_cpuset) \<inter> n_memory S \<noteq> {}"
  shows "guarantee_online_cpus S c \<noteq> {} \<and> guarantee_online_cpus S c \<subseteq> cpu_online_mask S
    \<and> (\<exists>e \<in> set (c # ancestors (tpar (ctree S)) c).
         guarantee_online_mems S c = Some (effective_mems (cpusets S e) \<inter> n_memory S)
         \<and> effective_mems (cpusets S e) \<inter> n_memory S \<noteq> {})"
proof -
  have T: "css_tree_ok (ctree S)" using assms(1) by (simp add: sys_ok_def)
  have "top_cpuset \<in> set (c # ancestors (tpar (ctree S)) c)"
    using assms(1,2) by (cases "c = top_cpuset") (auto simp: sys_ok_def)
  from online_mems_walk [OF T this assms(4)] online_cpus_walk [OF assms(3), of c] show ?thesis by blast
qed

theorem online_masks_guaranteed_witness:
  "guarantee_online_cpus (demo_legacy\<lparr>cpu_online_mask := {1, 5}\<rparr>) 2 \<noteq> {}
    \<and> guarantee_online_cpus (demo_legacy\<lparr>cpu_online_mask := {1, 5}\<rparr>) 2 = {1, 5}"
proof -
  let ?S = "demo_legacy\<lparr>cpu_online_mask := {1, 5}\<rparr>"
  have "sys_ok ?S" using demo_legacy_ok by (simp add: sys_ok_def)
  moreover have "2 \<in> set (tcss (ctree ?S))" by code_simp
  moreover have "cpu_online_mask ?S \<noteq> {}" by simp
  moreover have "effective_mems (cpusets ?S top_cpuset) \<inter> n_memory ?S \<noteq> {}" by code_simp
  ultimately have "guarantee_online_cpus ?S 2 \<noteq> {}"
    by (rule online_masks_guaranteed [THEN conjunct1])
  moreover have "guarantee_online_cpus ?S 2 = {1, 5}" by code_simp
  ultimately show ?thesis by blast
qed

subsection \<open>A write to a partition root that has given CPUs away\<close>

text \<open>The code keeps the CPUs of the child partitions that are not in the new mask, and forgets the
  others, where its comment asks for a subset of \<open>cpus_allowed\<close>.\<close>

lemma subparts_left_outside:
  assumes "nr_subparts_cpus x \<noteq> 0"
  shows "subparts_cpus (set_cpus_allowed new x) \<inter> cpus_allowed (set_cpus_allowed new x) = {}"
  using assms by (auto simp: set_cpus_allowed_def Let_def)

definition owned :: "cpuset_sys \<Rightarrow> (mask \<times> mask) list" where
  "owned S = map (\<lambda>c. (effective_cpus (cpusets S c), subparts_cpus (cpusets S c))) (tcss (ctree S))"

text \<open>A CPU in two partitions: cpuset 1 has the CPUs 0 to 3 and its child 2 the partition of 2 and 3,
  CPU 3 being offline. When CPU 3 returns each CPU belongs to one of them. But after a write of
  \<open>0-4\<close> to \<open>cpuset.cpus\<close> of cpuset 1, which adds a CPU and takes none, cpuset 1 forgets one of the
  CPUs it has given away, and with CPU 3 online both partitions run on it.\<close>

theorem cpu_in_two_partitions:
  "owned demo_parts = [({4, 5}, {0, 1, 2, 3}), ({0, 1}, {2, 3}), ({2}, {})]
   \<and> owned (demo_plug {0, 1, 2, 3, 4, 5} demo_parts) = [({4, 5}, {0, 1, 2, 3}), ({0, 1}, {2, 3}), ({2, 3}, {})]
   \<and> owned (demo_plug {0, 1, 2, 3, 4, 5} (demo_cpus 1 ''0-4'' demo_parts))
       = [({5}, {0, 1, 2, 3, 4}), ({0, 1, 3, 4}, {2}), ({2, 3}, {})]"
proof (intro conjI)
  show "owned demo_parts = [({4, 5}, {0, 1, 2, 3}), ({0, 1}, {2, 3}), ({2}, {})]" by code_simp
  show "owned (demo_plug {0, 1, 2, 3, 4, 5} demo_parts)
      = [({4, 5}, {0, 1, 2, 3}), ({0, 1}, {2, 3}), ({2, 3}, {})]" by code_simp
  show "owned (demo_plug {0, 1, 2, 3, 4, 5} (demo_cpus 1 ''0-4'' demo_parts))
      = [({5}, {0, 1, 2, 3, 4}), ({0, 1, 3, 4}, {2}), ({2, 3}, {})]" by code_simp
qed

end
