(* ===== verification/CssSet.thy ===== *)
theory CssSet
  imports CssWalk
begin

section \<open>The sets of csses\<close>

text \<open>
  A task belongs to one cgroup of every hierarchy.  \<open>cgroup/cgroup.c\<close> keeps this as one pointer of the
  task to a \<open>css_set\<close>, which has the cgroup of every hierarchy and the effective css of every
  subsystem, and which tasks with the same cgroups share.  Here are the control masks of a cgroup,
  the effective csses, the look-up and creation of css_sets, their reference counts and the
  counters of populated cgroups.

  A mask of subsystems, a \<open>u16\<close>, is the set of the numbers of its bits.  The cgroups of all
  hierarchies are one forest; a hierarchy is named by its root and the default hierarchy by
  \<open>0\<close>.  Tasks, csses and css_sets are numbers.  The answers of other code (allocators,
  callbacks of controllers, the file system) are a sequence that the state consumes: 0 is success
  and anything else is returned as the error.
\<close>

type_synonym ssmask = "nat set"

subsection \<open>State\<close>

text \<open>What the controllers declare about themselves.\<close>

record subsystems =
  CGROUP_SUBSYS_COUNT :: nat
  ss_name :: "nat \<Rightarrow> string"
  ssid_enabled :: "nat \<Rightarrow> bool"
  depends_on :: "nat \<Rightarrow> ssmask"
  implicit_on_dfl :: "nat \<Rightarrow> bool"
  cgrp_dfl_inhibit_ss_mask :: ssmask
  cgrp_dfl_implicit_ss_mask :: ssmask
  cgrp_dfl_threaded_ss_mask :: ssmask
  has_can_attach :: "nat \<Rightarrow> bool"
  has_attach :: "nat \<Rightarrow> bool"
  has_cancel_attach :: "nat \<Rightarrow> bool"

record cgroup =
  self_online :: bool
  has_kn :: bool
  self_visible :: bool
  dom_cgrp :: nat
  subtree_control :: ssmask
  subtree_ss_mask :: ssmask
  old_dom_cgrp :: nat
  old_subtree_control :: ssmask
  old_subtree_ss_mask :: ssmask
  nr_populated_csets :: int
  nr_populated_domain_children :: int
  nr_populated_threaded_children :: int
  nr_threaded_children :: int
  subsys :: "nat \<Rightarrow> nat option"

record css =
  css_cgroup :: nat
  css_ssid :: nat
  css_parent :: "nat option"
  CSS_ONLINE :: bool
  CSS_DYING :: bool
  CSS_VISIBLE :: bool
  online_cnt :: int

text \<open>\<open>nr_tasks\<close>, \<open>dying_tasks\<close> and the rest as in the code; \<open>cset_subsys\<close> is \<open>subsys\<close> of a css_set, and
  \<open>cgrp_links\<close> the cgroups it is linked to.\<close>

record css_set =
  cset_subsys :: "nat \<Rightarrow> nat option"
  cgrp_links :: "nat list"
  dfl_cgrp :: nat
  dom_cset :: nat
  cset_tasks :: "nat list"
  mg_tasks :: "nat list"
  dying_tasks :: "nat list"
  nr_tasks :: int
  refcount :: int
  cset_dead :: bool
  mg_src_cgrp :: "nat option"
  mg_dst_cgrp :: "nat option"
  mg_dst_cset :: "nat option"

text \<open>What other parts are told.\<close>

datatype cgcall =
  notify_populated nat
  | check_for_release nat
  | can_attach nat "nat list"
  | cancel_attach nat "nat list"
  | attach nat "nat list"
  | freezer_migrate nat nat nat
  | css_reset nat
  | css_offline nat

record cgsys =
  ftree :: css_tree
  root_of :: "nat \<Rightarrow> nat"
  subsys_mask :: "nat \<Rightarrow> ssmask"
  cgroups :: "nat \<Rightarrow> cgroup"
  css_obj :: "nat \<Rightarrow> css"
  next_css :: nat
  css_set_table :: "nat list"
  cset :: "nat \<Rightarrow> css_set"
  next_cset :: nat
  cgroup_root_count :: nat
  task_css_set :: "nat \<Rightarrow> nat"
  exiting :: "nat \<Rightarrow> bool"
  thread_group :: "nat \<Rightarrow> nat list"
  answers :: "nat \<Rightarrow> int"
  asked :: nat
  cg_crashed :: bool
  cgcalls :: "cgcall list"

definition init_css_set :: nat where "init_css_set = 0"

definition ask :: "cgsys \<Rightarrow> int \<times> cgsys" where
  "ask S = (answers S (asked S), S\<lparr>asked := asked S + 1\<rparr>)"

definition upd_cgrp :: "nat \<Rightarrow> (cgroup \<Rightarrow> cgroup) \<Rightarrow> cgsys \<Rightarrow> cgsys" where
  "upd_cgrp c f S = S\<lparr>cgroups := (cgroups S)(c := f (cgroups S c))\<rparr>"

definition upd_cset :: "nat \<Rightarrow> (css_set \<Rightarrow> css_set) \<Rightarrow> cgsys \<Rightarrow> cgsys" where
  "upd_cset s f S = S\<lparr>cset := (cset S)(s := f (cset S s))\<rparr>"

definition cgcall_to :: "cgcall \<Rightarrow> cgsys \<Rightarrow> cgsys" where
  "cgcall_to e S = S\<lparr>cgcalls := e # cgcalls S\<rparr>"

definition cgroup_parent :: "cgsys \<Rightarrow> nat \<Rightarrow> nat option" where
  "cgroup_parent S c = tpar (ftree S) c"

definition cgroup_on_dfl :: "cgsys \<Rightarrow> nat \<Rightarrow> bool" where
  "cgroup_on_dfl S c = (root_of S c = 0)"

subsection \<open>Domains and threads\<close>

definition cgroup_has_tasks :: "cgsys \<Rightarrow> nat \<Rightarrow> bool" where
  "cgroup_has_tasks S c = (nr_populated_csets (cgroups S c) \<noteq> 0)"

definition cgroup_is_threaded :: "cgsys \<Rightarrow> nat \<Rightarrow> bool" where
  "cgroup_is_threaded S c = (dom_cgrp (cgroups S c) \<noteq> c)"

definition cgroup_is_mixable :: "cgsys \<Rightarrow> nat \<Rightarrow> bool" where
  "cgroup_is_mixable S c = (cgroup_parent S c = None)"

definition cgroup_can_be_thread_root :: "subsystems \<Rightarrow> cgsys \<Rightarrow> nat \<Rightarrow> bool" where
  "cgroup_can_be_thread_root P S c =
     (if cgroup_is_mixable S c then True
      else if cgroup_is_threaded S c then False
      else if nr_populated_domain_children (cgroups S c) \<noteq> 0 then False
      else if subtree_control (cgroups S c) - cgrp_dfl_threaded_ss_mask P \<noteq> {} then False
      else True)"

definition cgroup_is_thread_root :: "subsystems \<Rightarrow> cgsys \<Rightarrow> nat \<Rightarrow> bool" where
  "cgroup_is_thread_root P S c =
     (if cgroup_is_threaded S c then False
      else if nr_threaded_children (cgroups S c) \<noteq> 0 then True
      else if cgroup_has_tasks S c \<and> subtree_control (cgroups S c) \<inter> cgrp_dfl_threaded_ss_mask P \<noteq> {} then True
      else False)"

text \<open>The loop over the ancestors.\<close>

definition cgroup_is_valid_domain :: "subsystems \<Rightarrow> cgsys \<Rightarrow> nat \<Rightarrow> bool" where
  "cgroup_is_valid_domain P S c =
     (if cgroup_is_threaded S c then False
      else list_all (\<lambda>a. \<not> (\<not> cgroup_is_mixable S a \<and> cgroup_is_thread_root P S a) \<and> \<not> cgroup_is_threaded S a)
             (ancestors (tpar (ftree S)) c))"

subsection \<open>Control masks\<close>

definition cgroup_control :: "subsystems \<Rightarrow> cgsys \<Rightarrow> nat \<Rightarrow> ssmask" where
  "cgroup_control P S c =
     (case cgroup_parent S c of
        Some parent \<Rightarrow>
          let ss_mask = subtree_control (cgroups S parent)
          in if cgroup_is_threaded S c then ss_mask \<inter> cgrp_dfl_threaded_ss_mask P else ss_mask
      | None \<Rightarrow>
          let root_ss_mask = subsys_mask S (root_of S c)
          in if cgroup_on_dfl S c
             then root_ss_mask - (cgrp_dfl_inhibit_ss_mask P \<union> cgrp_dfl_implicit_ss_mask P)
             else root_ss_mask)"

definition cgroup_ss_mask :: "subsystems \<Rightarrow> cgsys \<Rightarrow> nat \<Rightarrow> ssmask" where
  "cgroup_ss_mask P S c =
     (case cgroup_parent S c of
        Some parent \<Rightarrow>
          let ss_mask = subtree_ss_mask (cgroups S parent)
          in if cgroup_is_threaded S c then ss_mask \<inter> cgrp_dfl_threaded_ss_mask P else ss_mask
      | None \<Rightarrow> subsys_mask S (root_of S c))"

definition cgroup_css :: "cgsys \<Rightarrow> nat \<Rightarrow> nat \<Rightarrow> nat option" where
  "cgroup_css S c ss = subsys (cgroups S c) ss"

fun cgroup_e_css_by_mask :: "subsystems \<Rightarrow> cgsys \<Rightarrow> nat \<Rightarrow> nat \<Rightarrow> nat option" where
  "cgroup_e_css_by_mask P S c ss =
     (if ss \<notin> cgroup_ss_mask P S c then
        case cgroup_parent S c of
          None \<Rightarrow> None
        | Some p \<Rightarrow> if p < c then cgroup_e_css_by_mask P S p ss else None
      else cgroup_css S c ss)"

declare cgroup_e_css_by_mask.simps [simp del]

fun cgroup_e_css :: "cgsys \<Rightarrow> nat \<Rightarrow> nat \<Rightarrow> nat option" where
  "cgroup_e_css S c ss =
     (case cgroup_css S c ss of
        Some css \<Rightarrow> Some css
      | None \<Rightarrow>
          case cgroup_parent S c of
            None \<Rightarrow> cset_subsys (cset S init_css_set) ss
          | Some p \<Rightarrow> if p < c then cgroup_e_css S p ss else None)"

declare cgroup_e_css.simps [simp del]

subsection \<open>Populated cgroups\<close>

definition css_set_threaded :: "cgsys \<Rightarrow> nat \<Rightarrow> bool" where
  "css_set_threaded S s = (dom_cset (cset S s) \<noteq> s)"

definition css_set_populated :: "cgsys \<Rightarrow> nat \<Rightarrow> bool" where
  "css_set_populated S s = (cset_tasks (cset S s) \<noteq> [] \<or> mg_tasks (cset S s) \<noteq> [])"

text \<open>One of the counts is not zero.\<close>

definition cgroup_is_populated :: "cgroup \<Rightarrow> bool" where
  "cgroup_is_populated x =
     (nr_populated_csets x + nr_populated_domain_children x + nr_populated_threaded_children x \<noteq> 0)"

text \<open>The three counters that a turn of the loop may change.\<close>

definition count_populated :: "cgsys \<Rightarrow> nat option \<Rightarrow> int \<Rightarrow> cgroup \<Rightarrow> cgroup" where
  "count_populated S child adj x =
     (case child of
        None \<Rightarrow> x\<lparr>nr_populated_csets := nr_populated_csets x + adj\<rparr>
      | Some d \<Rightarrow>
          if cgroup_is_threaded S d
          then x\<lparr>nr_populated_threaded_children := nr_populated_threaded_children x + adj\<rparr>
          else x\<lparr>nr_populated_domain_children := nr_populated_domain_children x + adj\<rparr>)"

text \<open>\<open>adj\<close> is 1 or -1.\<close>

function update_populated :: "nat \<Rightarrow> nat option \<Rightarrow> int \<Rightarrow> cgsys \<Rightarrow> cgsys" where
  "update_populated c child adj S =
     (let was_populated = cgroup_is_populated (cgroups S c);
          S = upd_cgrp c (count_populated S child adj) S
      in if was_populated = cgroup_is_populated (cgroups S c) then S
         else
           let S = cgcall_to (notify_populated c) (cgcall_to (check_for_release c) S)
           in case cgroup_parent S c of
                None \<Rightarrow> S
              | Some p \<Rightarrow> if p < c then update_populated p (Some c) adj S else S)"
  by pat_completeness auto
termination by (relation "measure (\<lambda>(c, child, adj, S). c)") auto

declare update_populated.simps [simp del]

definition cgroup_update_populated :: "nat \<Rightarrow> bool \<Rightarrow> cgsys \<Rightarrow> cgsys" where
  "cgroup_update_populated c populated S = update_populated c None (if populated then 1 else -1) S"

definition css_set_update_populated :: "nat \<Rightarrow> bool \<Rightarrow> cgsys \<Rightarrow> cgsys" where
  "css_set_update_populated s populated S =
     fold (\<lambda>c. cgroup_update_populated c populated) (cgrp_links (cset S s)) S"

text \<open>A task that leaves its css_set is taken from whatever list it is on.\<close>

definition unlist_task :: "nat \<Rightarrow> css_set \<Rightarrow> css_set" where
  "unlist_task t x = x\<lparr>cset_tasks := removeAll t (cset_tasks x), mg_tasks := removeAll t (mg_tasks x),
     dying_tasks := removeAll t (dying_tasks x)\<rparr>"

definition css_set_move_task :: "nat \<Rightarrow> nat option \<Rightarrow> nat option \<Rightarrow> bool \<Rightarrow> cgsys \<Rightarrow> cgsys" where
  "css_set_move_task task from_cset to_cset use_mg_tasks S =
     (let S = (case to_cset of
                 Some to \<Rightarrow> if \<not> css_set_populated S to then css_set_update_populated to True S else S
               | None \<Rightarrow> S);
          S = (case from_cset of
                 Some from \<Rightarrow>
                   let S = upd_cset from (unlist_task task) S
                   in if \<not> css_set_populated S from then css_set_update_populated from False S else S
               | None \<Rightarrow> S)
      in case to_cset of
           Some to \<Rightarrow>
             upd_cset to (\<lambda>x. if use_mg_tasks then x\<lparr>mg_tasks := mg_tasks x @ [task]\<rparr>
                              else x\<lparr>cset_tasks := cset_tasks x @ [task]\<rparr>)
               (S\<lparr>task_css_set := (task_css_set S)(task := to)\<rparr>)
         | None \<Rightarrow> S)"

subsection \<open>References\<close>

definition get_css_set :: "nat \<Rightarrow> cgsys \<Rightarrow> cgsys" where
  "get_css_set s S = upd_cset s (\<lambda>x. x\<lparr>refcount := refcount x + 1\<rparr>) S"

text \<open>The last reference takes the css_set out of the table and gives the one on its domain back.  The
  css_set of a domain is on a cgroup above, which bounds the recursion.\<close>

function put_css_set :: "nat \<Rightarrow> cgsys \<Rightarrow> cgsys" where
  "put_css_set s S =
     (let S = upd_cset s (\<lambda>x. x\<lparr>refcount := refcount x - 1\<rparr>) S
      in if refcount (cset S s) \<noteq> 0 then S
         else
           let S = S\<lparr>css_set_table := removeAll s (css_set_table S)\<rparr>
           in if css_set_threaded S s \<and> dfl_cgrp (cset S (dom_cset (cset S s))) < dfl_cgrp (cset S s)
              then put_css_set (dom_cset (cset S s)) S
              else S)"
  by pat_completeness auto
termination
  by (relation "measure (\<lambda>(s, S). dfl_cgrp (cset S s))")
    (auto simp: upd_cset_def Let_def css_set_threaded_def)

declare put_css_set.simps [simp del]

subsection \<open>Looking up a css_set\<close>

text \<open>The two lists of links in step: \<open>None\<close> is a \<open>BUG_ON\<close> that fires.\<close>

fun same_links :: "cgsys \<Rightarrow> nat \<Rightarrow> nat list \<Rightarrow> nat list \<Rightarrow> bool option" where
  "same_links S new_cgrp [] [] = Some True"
| "same_links S new_cgrp (cgrp1 # l1) (cgrp2 # l2) =
     (if root_of S cgrp1 \<noteq> root_of S cgrp2 then None
      else if root_of S cgrp1 = root_of S new_cgrp
      then if cgrp1 \<noteq> new_cgrp then Some False else same_links S new_cgrp l1 l2
      else if cgrp1 \<noteq> cgrp2 then Some False else same_links S new_cgrp l1 l2)"
| "same_links S new_cgrp _ _ = None"

definition same_subsys :: "subsystems \<Rightarrow> (nat \<Rightarrow> nat option) \<Rightarrow> (nat \<Rightarrow> nat option) \<Rightarrow> bool" where
  "same_subsys P f g = list_all (\<lambda>i. f i = g i) [0..<CGROUP_SUBSYS_COUNT P]"

definition compare_css_sets ::
    "subsystems \<Rightarrow> cgsys \<Rightarrow> nat \<Rightarrow> nat \<Rightarrow> nat \<Rightarrow> (nat \<Rightarrow> nat option) \<Rightarrow> bool option" where
  "compare_css_sets P S s old_cset new_cgrp templ =
     (if \<not> same_subsys P templ (cset_subsys (cset S s)) then Some False
      else
        let new_dfl_cgrp = (if cgroup_on_dfl S new_cgrp then new_cgrp else dfl_cgrp (cset S old_cset))
        in if dom_cgrp (cgroups S new_dfl_cgrp) \<noteq> dfl_cgrp (cset S (dom_cset (cset S s))) then Some False
           else same_links S new_cgrp (cgrp_links (cset S s)) (cgrp_links (cset S old_cset)))"

definition css_template :: "subsystems \<Rightarrow> cgsys \<Rightarrow> nat \<Rightarrow> nat \<Rightarrow> nat \<Rightarrow> nat option" where
  "css_template P S old_cset c i =
     (if i \<in> subsys_mask S (root_of S c) then cgroup_e_css_by_mask P S c i
      else cset_subsys (cset S old_cset) i)"

text \<open>The candidates in the order of the table; \<open>None\<close> when a \<open>BUG_ON\<close> fires first.\<close>

fun first_match :: "(nat \<Rightarrow> bool option) \<Rightarrow> nat list \<Rightarrow> nat option option" where
  "first_match f [] = Some None"
| "first_match f (s # ss) =
     (case f s of None \<Rightarrow> None | Some True \<Rightarrow> Some (Some s) | Some False \<Rightarrow> first_match f ss)"

definition find_existing_css_set :: "subsystems \<Rightarrow> cgsys \<Rightarrow> nat \<Rightarrow> nat \<Rightarrow> nat option option" where
  "find_existing_css_set P S old_cset c =
     first_match (\<lambda>s. compare_css_sets P S s old_cset c (css_template P S old_cset c)) (css_set_table S)"

text \<open>\<open>count\<close> allocations, up to the first that fails.\<close>

fun allocate_cgrp_cset_links :: "nat \<Rightarrow> cgsys \<Rightarrow> bool \<times> cgsys" where
  "allocate_cgrp_cset_links 0 S = (True, S)"
| "allocate_cgrp_cset_links (Suc count) S =
     (let (r, S) = ask S in if r \<noteq> 0 then (False, S) else allocate_cgrp_cset_links count S)"

text \<open>Links that are too few or left over, and a null css, are bugs.  The new css_set is to the same cgroups with \<open>c\<close> in the place of the one of its hierarchy.\<close>

definition new_links :: "cgsys \<Rightarrow> nat \<Rightarrow> nat \<Rightarrow> nat list" where
  "new_links S old_cset c = map (\<lambda>d. if root_of S d = root_of S c then c else d) (cgrp_links (cset S old_cset))"

definition link_css_set :: "cgsys \<Rightarrow> nat \<Rightarrow> css_set \<Rightarrow> css_set" where
  "link_css_set S c x =
     (let x = (if cgroup_on_dfl S c then x\<lparr>dfl_cgrp := c\<rparr> else x)
      in x\<lparr>cgrp_links := cgrp_links x @ [c]\<rparr>)"

definition new_css_set :: "nat \<Rightarrow> (nat \<Rightarrow> nat option) \<Rightarrow> css_set" where
  "new_css_set s templ =
     \<lparr>cset_subsys = templ, cgrp_links = [], dfl_cgrp = 0, dom_cset = s, cset_tasks = [], mg_tasks = [],
      dying_tasks = [], nr_tasks = 0, refcount = 1, cset_dead = False, mg_src_cgrp = None, mg_dst_cgrp = None,
      mg_dst_cset = None\<rparr>"

definition create_css_set :: "subsystems \<Rightarrow> nat \<Rightarrow> nat \<Rightarrow> cgsys \<Rightarrow> cgsys" where
  "create_css_set P old_cset c S =
     (let s = next_cset S;
          x = fold (link_css_set S) (new_links S old_cset c) (new_css_set s (css_template P S old_cset c));
          bug = (cgroup_root_count S \<noteq> length (cgrp_links (cset S old_cset))
            \<or> \<not> list_all (\<lambda>i. cset_subsys x i \<noteq> None) [0..<CGROUP_SUBSYS_COUNT P])
      in S\<lparr>cset := (cset S)(s := x), next_cset := s + 1, css_set_table := s # css_set_table S,
           cg_crashed := cg_crashed S \<or> bug\<rparr>)"

text \<open>The css_set of the domain is found by a second call, for a cgroup above.\<close>

definition cset_target :: "cgsys \<Rightarrow> nat \<Rightarrow> nat \<Rightarrow> nat" where
  "cset_target S old_cset c = (if cgroup_on_dfl S c then c else dfl_cgrp (cset S old_cset))"

function find_css_set :: "subsystems \<Rightarrow> nat \<Rightarrow> nat \<Rightarrow> cgsys \<Rightarrow> nat option \<times> cgsys" where
  "find_css_set P old_cset c S =
     (let target = cset_target S old_cset c in
      case find_existing_css_set P S old_cset c of
        None \<Rightarrow> (None, S\<lparr>cg_crashed := True\<rparr>)
      | Some (Some s) \<Rightarrow> (Some s, get_css_set s S)
      | Some None \<Rightarrow>
          let (r, S) = ask S in
          if r \<noteq> 0 then (None, S)
          else
            let (ok, S) = allocate_cgrp_cset_links (cgroup_root_count S) S in
            if \<not> ok then (None, S)
            else
              let s = next_cset S;
                  S = create_css_set P old_cset c S;
                  d = dom_cgrp (cgroups S (dfl_cgrp (cset S s)))
              in if \<not> cgroup_is_threaded S (dfl_cgrp (cset S s)) then (Some s, S)
                 else if d < target \<and> cgroup_on_dfl S d then
                   (case find_css_set P s d S of
                      (None, S) \<Rightarrow> (None, put_css_set s S)
                    | (Some dcset, S) \<Rightarrow> (Some s, upd_cset s (\<lambda>x. x\<lparr>dom_cset := dcset\<rparr>) S))
                 else (None, S))"
  by pat_completeness auto
termination
  by (relation "measure (\<lambda>(P, old_cset, c, S). cset_target S old_cset c)")
    (auto simp: cset_target_def Let_def split: prod.splits)

declare find_css_set.simps [simp del]

end
