(* ===== verification/Migrate.thy ===== *)
theory Migrate
  imports CssSet
begin

section \<open>Migration\<close>

text \<open>
  How \<open>cgroup/cgroup.c\<close> moves tasks: the css_sets of the tasks are collected, the css_set that each
  of them is to be exchanged for is found, the controllers are asked, and only then the tasks are
  moved.  Also the ways in which tasks come and go: \<open>cgroup_post_fork\<close>, \<open>cgroup_exit\<close>,
  \<open>cgroup_free\<close>.  A migration is one step: what may happen to a task while \<open>css_set_lock\<close> is
  dropped between its phases is left out.
\<close>

text \<open>\<open>struct cgroup_mgctx\<close> with its \<open>cgroup_taskset\<close>.  \<open>mg_preload_node\<close> and \<open>mg_node\<close> of a css_set are
  empty when it is on none of the two lists they link.\<close>

record mgctx =
  preloaded_src_csets :: "nat list"
  preloaded_dst_csets :: "nat list"
  src_csets :: "nat list"
  dst_csets :: "nat list"
  tset_nr_tasks :: nat
  mg_ss_mask :: ssmask

definition mgctx_init :: mgctx where
  "mgctx_init = \<lparr>preloaded_src_csets = [], preloaded_dst_csets = [], src_csets = [], dst_csets = [],
     tset_nr_tasks = 0, mg_ss_mask = {}\<rparr>"

definition cgroup_migrate_vet_dst :: "subsystems \<Rightarrow> cgsys \<Rightarrow> nat \<Rightarrow> int" where
  "cgroup_migrate_vet_dst P S dst =
     (if \<not> cgroup_on_dfl S dst then 0
      else if \<not> cgroup_is_valid_domain P S (dom_cgrp (cgroups S dst)) then - EOPNOTSUPP
      else if cgroup_is_mixable S dst then 0
      else if cgroup_can_be_thread_root P S dst \<or> cgroup_is_threaded S dst then 0
      else if subtree_control (cgroups S dst) \<noteq> {} then - EBUSY
      else 0)"

subsection \<open>Preparation\<close>

definition cset_cgroup_from_root :: "cgsys \<Rightarrow> nat \<Rightarrow> nat \<Rightarrow> nat option" where
  "cset_cgroup_from_root S s root =
     (if s = init_css_set then Some root
      else if root = 0 then Some (dfl_cgrp (cset S s))
      else find (\<lambda>c. root_of S c = root) (cgrp_links (cset S s)))"

definition cgroup_migrate_add_src :: "nat \<Rightarrow> nat \<Rightarrow> mgctx \<times> cgsys \<Rightarrow> mgctx \<times> cgsys" where
  "cgroup_migrate_add_src src_cset dst_cgrp = (\<lambda>(m, S).
     if cset_dead (cset S src_cset) then (m, S)
     else case cset_cgroup_from_root S src_cset (root_of S dst_cgrp) of
       None \<Rightarrow> (m, S\<lparr>cg_crashed := True\<rparr>)
     | Some src_cgrp \<Rightarrow>
         if src_cset \<in> set (preloaded_src_csets m) \<union> set (preloaded_dst_csets m) then (m, S)
         else (m\<lparr>preloaded_src_csets := preloaded_src_csets m @ [src_cset]\<rparr>,
               get_css_set src_cset
                 (upd_cset src_cset (\<lambda>x. x\<lparr>mg_src_cgrp := Some src_cgrp, mg_dst_cgrp := Some dst_cgrp\<rparr>) S)))"

text \<open>One turn of the loop of \<open>cgroup_migrate_prepare_dst\<close>.\<close>

definition prepare_one :: "subsystems \<Rightarrow> nat \<Rightarrow> mgctx \<Rightarrow> cgsys \<Rightarrow> int \<times> mgctx \<times> cgsys" where
  "prepare_one P src m S =
     (case mg_dst_cgrp (cset S src) of
        None \<Rightarrow> (0, m, S\<lparr>cg_crashed := True\<rparr>)
      | Some dst_cgrp \<Rightarrow>
          (case find_css_set P src dst_cgrp S of
             (None, S) \<Rightarrow> (- ENOMEM, m, S)
           | (Some dst, S) \<Rightarrow>
               if src = dst then
                 (0, m\<lparr>preloaded_src_csets := removeAll src (preloaded_src_csets m)\<rparr>,
                  put_css_set dst (put_css_set src
                    (upd_cset src (\<lambda>x. x\<lparr>mg_src_cgrp := None, mg_dst_cgrp := None\<rparr>) S)))
               else
                 let S = upd_cset src (\<lambda>x. x\<lparr>mg_dst_cset := Some dst\<rparr>) S;
                     (m, S) = (if dst \<notin> set (preloaded_src_csets m) \<union> set (preloaded_dst_csets m)
                               then (m\<lparr>preloaded_dst_csets := preloaded_dst_csets m @ [dst]\<rparr>, S)
                               else (m, put_css_set dst S));
                     differ = filter (\<lambda>i. cset_subsys (cset S src) i \<noteq> cset_subsys (cset S dst) i)
                                [0..<CGROUP_SUBSYS_COUNT P]
                 in (0, m\<lparr>mg_ss_mask := mg_ss_mask m \<union> set differ\<rparr>, S)))"

fun prepare_loop :: "subsystems \<Rightarrow> nat list \<Rightarrow> mgctx \<Rightarrow> cgsys \<Rightarrow> int \<times> mgctx \<times> cgsys" where
  "prepare_loop P [] m S = (0, m, S)"
| "prepare_loop P (src # srcs) m S =
     (let (r, m, S) = prepare_one P src m S in if r \<noteq> 0 then (r, m, S) else prepare_loop P srcs m S)"

definition cgroup_migrate_prepare_dst :: "subsystems \<Rightarrow> mgctx \<Rightarrow> cgsys \<Rightarrow> int \<times> mgctx \<times> cgsys" where
  "cgroup_migrate_prepare_dst P m S = prepare_loop P (preloaded_src_csets m) m S"

definition cgroup_migrate_add_task :: "nat \<Rightarrow> mgctx \<times> cgsys \<Rightarrow> mgctx \<times> cgsys" where
  "cgroup_migrate_add_task task = (\<lambda>(m, S).
     let s = task_css_set S task; x = cset S s in
     if exiting S task then (m, S)
     else if task \<notin> set (cset_tasks x) \<union> set (mg_tasks x) \<union> set (dying_tasks x) then (m, S)
     else if mg_src_cgrp x = None then (m, S)
     else
       let m = m\<lparr>tset_nr_tasks := tset_nr_tasks m + 1\<rparr>;
           S = upd_cset s (\<lambda>x. let x = unlist_task task x in x\<lparr>mg_tasks := mg_tasks x @ [task]\<rparr>) S;
           m = (if s \<notin> set (src_csets m) \<union> set (dst_csets m)
                then m\<lparr>src_csets := src_csets m @ [s]\<rparr> else m)
       in case mg_dst_cset x of
            None \<Rightarrow> (m, S\<lparr>cg_crashed := True\<rparr>)
          | Some d \<Rightarrow> (if d \<notin> set (src_csets m) \<union> set (dst_csets m)
                      then m\<lparr>dst_csets := dst_csets m @ [d]\<rparr> else m, S))"

subsection \<open>Execution\<close>

definition taskset :: "mgctx \<Rightarrow> cgsys \<Rightarrow> nat list" where
  "taskset m S = concat (map (\<lambda>s. mg_tasks (cset S s)) (src_csets m))"

text \<open>The subsystems of the mask in order, up to the one that refuses.\<close>

fun ask_can_attach :: "subsystems \<Rightarrow> nat list \<Rightarrow> nat list \<Rightarrow> cgsys \<Rightarrow> (int \<times> nat list) \<times> cgsys" where
  "ask_can_attach P tasks [] S = ((0, []), S)"
| "ask_can_attach P tasks (i # is) S =
     (if \<not> has_can_attach P i then
        let ((ret, asked_before), S) = ask_can_attach P tasks is S in ((ret, i # asked_before), S)
      else
        let (ret, S) = ask (cgcall_to (can_attach i tasks) S) in
        if ret \<noteq> 0 then ((ret, []), S)
        else let ((ret, asked_before), S) = ask_can_attach P tasks is S in ((ret, i # asked_before), S))"

definition move_one :: "nat \<Rightarrow> cgsys \<Rightarrow> cgsys" where
  "move_one task S =
     (let from_cset = task_css_set S task in
      case mg_dst_cset (cset S from_cset) of
        None \<Rightarrow> S\<lparr>cg_crashed := True\<rparr>
      | Some to_cset \<Rightarrow>
          let S = get_css_set to_cset S;
              S = upd_cset to_cset (\<lambda>x. x\<lparr>nr_tasks := nr_tasks x + 1\<rparr>) S;
              S = css_set_move_task task (Some from_cset) (Some to_cset) True S;
              S = upd_cset from_cset (\<lambda>x. x\<lparr>nr_tasks := nr_tasks x - 1\<rparr>) S;
              S = cgcall_to (freezer_migrate task (dfl_cgrp (cset S from_cset)) (dfl_cgrp (cset S to_cset))) S
          in put_css_set from_cset S)"

definition release_cset :: "nat \<Rightarrow> cgsys \<Rightarrow> cgsys" where
  "release_cset s = upd_cset s (\<lambda>x. x\<lparr>cset_tasks := cset_tasks x @ mg_tasks x, mg_tasks := []\<rparr>)"

definition cgroup_migrate_execute :: "subsystems \<Rightarrow> mgctx \<Rightarrow> cgsys \<Rightarrow> int \<times> cgsys" where
  "cgroup_migrate_execute P m S =
     (let tasks = taskset m S;
          ssids = filter (\<lambda>i. i \<in> mg_ss_mask m) [0..<CGROUP_SUBSYS_COUNT P];
          ((ret, sent), S) = (if tset_nr_tasks m \<noteq> 0 then ask_can_attach P tasks ssids S else ((0, []), S));
          S = (if ret \<noteq> 0 then fold (\<lambda>i. cgcall_to (cancel_attach i tasks)) (filter (has_cancel_attach P) sent) S
               else
                 let S = fold (\<lambda>s S. fold move_one (mg_tasks (cset S s)) S) (src_csets m) S
                 in if tset_nr_tasks m \<noteq> 0 then fold (\<lambda>i. cgcall_to (attach i tasks)) (filter (has_attach P) ssids) S else S)
      in (ret, fold release_cset (dst_csets m @ src_csets m) S))"

definition finish_one :: "nat \<Rightarrow> cgsys \<Rightarrow> cgsys" where
  "finish_one s S =
     put_css_set s (upd_cset s (\<lambda>x. x\<lparr>mg_src_cgrp := None, mg_dst_cgrp := None, mg_dst_cset := None\<rparr>) S)"

definition cgroup_migrate_finish :: "mgctx \<Rightarrow> cgsys \<Rightarrow> cgsys" where
  "cgroup_migrate_finish m S = fold finish_one (preloaded_src_csets m @ preloaded_dst_csets m) S"

text \<open>The threads that \<open>while_each_thread\<close> goes through, \<open>leader\<close> first.\<close>

definition threads :: "cgsys \<Rightarrow> nat \<Rightarrow> bool \<Rightarrow> nat list" where
  "threads S leader threadgroup =
     (if threadgroup then leader # filter (\<lambda>t. t \<noteq> leader) (thread_group S leader) else [leader])"

definition cgroup_migrate :: "subsystems \<Rightarrow> nat \<Rightarrow> bool \<Rightarrow> mgctx \<Rightarrow> cgsys \<Rightarrow> int \<times> cgsys" where
  "cgroup_migrate P leader threadgroup m S =
     (let (m, S) = fold cgroup_migrate_add_task (threads S leader threadgroup) (m, S)
      in cgroup_migrate_execute P m S)"

definition cgroup_attach_task :: "subsystems \<Rightarrow> nat \<Rightarrow> nat \<Rightarrow> bool \<Rightarrow> cgsys \<Rightarrow> int \<times> cgsys" where
  "cgroup_attach_task P dst_cgrp leader threadgroup S =
     (let ret = cgroup_migrate_vet_dst P S dst_cgrp in
      if ret \<noteq> 0 then (ret, S)
      else
        let (m, S) = fold (\<lambda>task (m, S). cgroup_migrate_add_src (task_css_set S task) dst_cgrp (m, S))
                       (threads S leader threadgroup) (mgctx_init, S);
            (ret, m, S) = cgroup_migrate_prepare_dst P m S;
            (ret, S) = (if ret = 0 then cgroup_migrate P leader threadgroup m S else (ret, S))
        in (ret, cgroup_migrate_finish m S))"

subsection \<open>The files \<open>cgroup.procs\<close> and \<open>cgroup.threads\<close>\<close>

text \<open>What \<open>cgroup_procs_write_start\<close> finds: the error of the number, a task, or none; and whether the
  task may be moved.\<close>

record found =
  parsed_pid :: "int + nat"
  found_task :: "nat option"
  current_task :: nat
  group_leader :: "nat \<Rightarrow> nat"
  immovable :: "nat \<Rightarrow> bool"

definition cgroup_procs_write_start :: "found \<Rightarrow> bool \<Rightarrow> int + nat" where
  "cgroup_procs_write_start F threadgroup =
     (case parsed_pid F of
        Inl e \<Rightarrow> Inl (- EINVAL)
      | Inr pid \<Rightarrow>
          case (if pid \<noteq> 0 then found_task F else Some (current_task F)) of
            None \<Rightarrow> Inl (- ESRCH)
          | Some tsk \<Rightarrow>
              let tsk = (if threadgroup then group_leader F tsk else tsk)
              in if immovable F tsk then Inl (- EINVAL) else Inr tsk)"

text \<open>\<open>permission\<close> is the result for the common ancestor; \<open>ns\<close> the root of the namespace when
  namespaces delegate.\<close>

definition common_ancestor :: "cgsys \<Rightarrow> nat \<Rightarrow> nat \<Rightarrow> nat" where
  "common_ancestor S src dst =
     (case find (\<lambda>a. a \<in> set (dst # ancestors (tpar (ftree S)) dst)) (src # ancestors (tpar (ftree S)) src) of
        None \<Rightarrow> src | Some a \<Rightarrow> a)"

definition cgroup_procs_write_permission :: "cgsys \<Rightarrow> (nat \<Rightarrow> int) \<Rightarrow> nat option \<Rightarrow> nat \<Rightarrow> nat \<Rightarrow> int" where
  "cgroup_procs_write_permission S permission ns src dst =
     (let ret = permission (common_ancestor S src dst) in
      if ret \<noteq> 0 then ret
      else case ns of
        None \<Rightarrow> 0
      | Some r \<Rightarrow> if r \<notin> set (src # ancestors (tpar (ftree S)) src)
                    \<or> r \<notin> set (dst # ancestors (tpar (ftree S)) dst) then - ENOENT else 0)"

definition cgroup_procs_write ::
    "subsystems \<Rightarrow> found \<Rightarrow> (nat \<Rightarrow> int) \<Rightarrow> nat option \<Rightarrow> nat \<Rightarrow> int \<Rightarrow> cgsys \<Rightarrow> int \<times> cgsys" where
  "cgroup_procs_write P F permission ns dst nbytes S =
     (if \<not> self_online (cgroups S dst) then (- ENODEV, S)
      else case cgroup_procs_write_start F True of
        Inl e \<Rightarrow> (e, S)
      | Inr task \<Rightarrow>
          case cset_cgroup_from_root S (task_css_set S task) 0 of
            None \<Rightarrow> (0, S\<lparr>cg_crashed := True\<rparr>)
          | Some src \<Rightarrow>
              let ret = cgroup_procs_write_permission S permission ns src dst in
              if ret \<noteq> 0 then (ret, S)
              else let (ret, S) = cgroup_attach_task P dst task True S
                   in (if ret \<noteq> 0 then ret else nbytes, S))"

definition cgroup_threads_write ::
    "subsystems \<Rightarrow> found \<Rightarrow> (nat \<Rightarrow> int) \<Rightarrow> nat option \<Rightarrow> nat \<Rightarrow> int \<Rightarrow> cgsys \<Rightarrow> int \<times> cgsys" where
  "cgroup_threads_write P F permission ns dst nbytes S =
     (if \<not> self_online (cgroups S dst) then (- ENODEV, S)
      else case cgroup_procs_write_start F False of
        Inl e \<Rightarrow> (e, S)
      | Inr task \<Rightarrow>
          case cset_cgroup_from_root S (task_css_set S task) 0 of
            None \<Rightarrow> (0, S\<lparr>cg_crashed := True\<rparr>)
          | Some src \<Rightarrow>
              let ret = cgroup_procs_write_permission S permission ns src dst in
              if ret \<noteq> 0 then (ret, S)
              else if dom_cgrp (cgroups S src) \<noteq> dom_cgrp (cgroups S dst) then (- EOPNOTSUPP, S)
              else let (ret, S) = cgroup_attach_task P dst task False S
                   in (if ret \<noteq> 0 then ret else nbytes, S))"

subsection \<open>Fork and exit\<close>

definition cgroup_fork :: "nat \<Rightarrow> cgsys \<Rightarrow> cgsys" where
  "cgroup_fork child S = S\<lparr>task_css_set := (task_css_set S)(child := init_css_set)\<rparr>"

text \<open>Is the task on a list of its css_set?\<close>

definition cg_listed :: "cgsys \<Rightarrow> nat \<Rightarrow> bool" where
  "cg_listed S t = (let x = cset S (task_css_set S t)
     in t \<in> set (cset_tasks x) \<union> set (mg_tasks x) \<union> set (dying_tasks x))"

definition cgroup_post_fork :: "nat \<Rightarrow> nat \<Rightarrow> cgsys \<Rightarrow> cgsys" where
  "cgroup_post_fork current child S =
     (let s = task_css_set S current in
      if \<not> cg_listed S child
      then css_set_move_task child None (Some s)
             False (upd_cset s (\<lambda>x. x\<lparr>nr_tasks := nr_tasks x + 1\<rparr>) (get_css_set s S))
      else S)"

definition cgroup_exit :: "nat \<Rightarrow> cgsys \<Rightarrow> cgsys" where
  "cgroup_exit tsk S =
     (let s = task_css_set S tsk in
      if cg_listed S tsk
      then upd_cset s (\<lambda>x. x\<lparr>dying_tasks := dying_tasks x @ [tsk], nr_tasks := nr_tasks x - 1\<rparr>)
             (css_set_move_task tsk (Some s) None False S)
      else get_css_set s S)"

definition cgroup_release :: "nat \<Rightarrow> cgsys \<Rightarrow> cgsys" where
  "cgroup_release task S = upd_cset (task_css_set S task) (unlist_task task) S"

definition cgroup_free :: "nat \<Rightarrow> cgsys \<Rightarrow> cgsys" where
  "cgroup_free task S = put_css_set (task_css_set S task) S"

end
