(* ===== verification/CssSet_Correct.thy ===== *)
theory CssSet_Correct
  imports CssSet
begin

section \<open>Populated cgroups are counted exactly\<close>

subsection \<open>What the counting leaves alone\<close>

text \<open>A state without the counters of populated cgroups and the record of calls.\<close>

definition uncounted :: "cgroup \<Rightarrow> cgroup" where
  "uncounted x = x\<lparr>nr_populated_csets := 0, nr_populated_domain_children := 0, nr_populated_threaded_children := 0\<rparr>"

definition counts_only :: "cgsys \<Rightarrow> cgsys \<Rightarrow> bool" where
  "counts_only S S' \<longleftrightarrow> (\<exists>f e. S' = S\<lparr>cgroups := f, cgcalls := e\<rparr>)
     \<and> (\<forall>c. uncounted (cgroups S' c) = uncounted (cgroups S c))"

lemma counts_only_refl [simp]: "counts_only S S"
  unfolding counts_only_def by (intro conjI exI [of _ "cgroups S"] exI [of _ "cgcalls S"]) simp_all

lemma counts_only_trans: "counts_only S S' \<Longrightarrow> counts_only S' S'' \<Longrightarrow> counts_only S S''"
  unfolding counts_only_def by force

lemma counts_onlyD:
  assumes "counts_only S S'"
  shows "ftree S' = ftree S" "root_of S' = root_of S" "subsys_mask S' = subsys_mask S" "css_obj S' = css_obj S"
    "next_css S' = next_css S" "css_set_table S' = css_set_table S" "cset S' = cset S" "next_cset S' = next_cset S"
    "cgroup_root_count S' = cgroup_root_count S" "task_css_set S' = task_css_set S" "exiting S' = exiting S"
    "thread_group S' = thread_group S" "answers S' = answers S" "asked S' = asked S" "cg_crashed S' = cg_crashed S"
  using assms by (auto simp: counts_only_def)

lemma uncounted_eqD:
  assumes "uncounted x = uncounted y"
  shows "self_online x = self_online y" "has_kn x = has_kn y" "self_visible x = self_visible y"
    "dom_cgrp x = dom_cgrp y" "subtree_control x = subtree_control y" "subtree_ss_mask x = subtree_ss_mask y"
    "old_dom_cgrp x = old_dom_cgrp y" "old_subtree_control x = old_subtree_control y"
    "old_subtree_ss_mask x = old_subtree_ss_mask y" "nr_threaded_children x = nr_threaded_children y"
    "subsys x = subsys y"
  using assms by (auto simp: uncounted_def dest: arg_cong [where f = self_online] arg_cong [where f = has_kn]
      arg_cong [where f = self_visible] arg_cong [where f = dom_cgrp] arg_cong [where f = subtree_control]
      arg_cong [where f = subtree_ss_mask] arg_cong [where f = old_dom_cgrp]
      arg_cong [where f = old_subtree_control] arg_cong [where f = old_subtree_ss_mask]
      arg_cong [where f = nr_threaded_children] arg_cong [where f = subsys])

lemma counts_only_threaded [simp]:
  "counts_only S S' \<Longrightarrow> cgroup_is_threaded S' c = cgroup_is_threaded S c"
  using uncounted_eqD(4) [of "cgroups S' c" "cgroups S c"] by (simp add: counts_only_def cgroup_is_threaded_def)

lemma counts_only_call [simp]: "counts_only S (cgcall_to e S)"
  unfolding counts_only_def cgcall_to_def by (intro conjI exI [of _ "cgroups S"] exI) auto

lemma counts_only_count [simp]: "counts_only S (upd_cgrp c (count_populated S0 child adj) S)"
  unfolding counts_only_def upd_cgrp_def
  by (intro conjI exI [of _ "cgcalls S"] exI) (auto simp: count_populated_def uncounted_def split: option.split)

text \<open>One turn of the loop, and the induction that follows it.\<close>

definition counted_at :: "nat \<Rightarrow> nat option \<Rightarrow> int \<Rightarrow> cgsys \<Rightarrow> cgsys" where
  "counted_at c child adj S = upd_cgrp c (count_populated S child adj) S"

definition told :: "nat \<Rightarrow> cgsys \<Rightarrow> cgsys" where
  "told c S = cgcall_to (notify_populated c) (cgcall_to (check_for_release c) S)"

lemma counts_only_turn [simp]: "counts_only S (counted_at c child adj S)" "counts_only S (told c S)"
  unfolding counted_at_def told_def by (simp, meson counts_only_call counts_only_trans)

lemma told_cgroups [simp]: "cgroups (told c S) = cgroups S"
  by (simp add: told_def cgcall_to_def)

lemma update_populated_walk:
  assumes still: "\<And>c child S. cgroup_is_populated (cgroups (counted_at c child adj S) c)
      = cgroup_is_populated (cgroups S c) \<Longrightarrow> R c child S (counted_at c child adj S)"
    and top: "\<And>c child S. cgroup_is_populated (cgroups (counted_at c child adj S) c)
      \<noteq> cgroup_is_populated (cgroups S c) \<Longrightarrow> (\<And>p. tpar (ftree S) c = Some p \<Longrightarrow> \<not> p < c)
      \<Longrightarrow> R c child S (told c (counted_at c child adj S))"
    and up: "\<And>c child S p S'. cgroup_is_populated (cgroups (counted_at c child adj S) c)
      \<noteq> cgroup_is_populated (cgroups S c) \<Longrightarrow> tpar (ftree S) c = Some p \<Longrightarrow> p < c
      \<Longrightarrow> R p (Some c) (told c (counted_at c child adj S)) S' \<Longrightarrow> R c child S S'"
  shows "R c child S (update_populated c child adj S)"
proof (induction c arbitrary: child S rule: less_induct)
  case (less c)
  let ?S = "counted_at c child adj S"
  have par: "cgroup_parent (told c ?S) c = tpar (ftree S) c"
    by (simp add: cgroup_parent_def told_def cgcall_to_def counted_at_def upd_cgrp_def)
  show ?case
  proof (cases "cgroup_is_populated (cgroups ?S c) = cgroup_is_populated (cgroups S c)")
    case True
    then show ?thesis using still by (simp add: update_populated.simps [of c] Let_def counted_at_def)
  next
    case False
    then have "update_populated c child adj S = (case cgroup_parent (told c ?S) c of None \<Rightarrow> told c ?S
         | Some p \<Rightarrow> if p < c then update_populated p (Some c) adj (told c ?S) else told c ?S)"
      unfolding update_populated.simps [of c child] Let_def counted_at_def told_def by simp
    note eq = this [unfolded par]
    show ?thesis
    proof (cases "\<exists>p. tpar (ftree S) c = Some p \<and> p < c")
      case True
      then obtain p where p: "tpar (ftree S) c = Some p" "p < c" by blast
      show ?thesis using up [OF False p less [OF p(2)]] eq p by simp
    next
      case none: False
      then show ?thesis using top [OF False] eq by (auto split: option.split)
    qed
  qed
qed

lemma update_populated_frame: "counts_only S (update_populated c child adj S)"
  by (rule update_populated_walk [where R = "\<lambda>c child S S'. counts_only S S'"])
    (meson counts_only_turn counts_only_trans)+

subsection \<open>The css_sets of a cgroup with tasks\<close>

lemma counted_at_csets:
  "nr_populated_csets (cgroups (counted_at c child adj S) d)
     = nr_populated_csets (cgroups S d) + (if child = None \<and> d = c then adj else 0)"
  by (auto simp: counted_at_def upd_cgrp_def count_populated_def split: option.split)

lemma update_populated_csets:
  "nr_populated_csets (cgroups (update_populated c child adj S) d)
     = nr_populated_csets (cgroups S d) + (if child = None \<and> d = c then adj else 0)"
  by (rule update_populated_walk [where R = "\<lambda>c child S S'. nr_populated_csets (cgroups S' d)
        = nr_populated_csets (cgroups S d) + (if child = None \<and> d = c then adj else 0)"])
    (simp_all add: counted_at_csets)

subsection \<open>The children with tasks\<close>

definition populated_kids :: "cgsys \<Rightarrow> nat \<Rightarrow> bool \<Rightarrow> nat set" where
  "populated_kids S c threaded =
     {d \<in> set (kids (ftree S) c). cgroup_is_populated (cgroups S d) \<and> cgroup_is_threaded S d = threaded}"

definition nr_populated_kids :: "cgroup \<Rightarrow> bool \<Rightarrow> int" where
  "nr_populated_kids x threaded =
     (if threaded then nr_populated_threaded_children x else nr_populated_domain_children x)"

text \<open>The counters of the children are right, except that at \<open>c\<close> the child has yet to be counted.\<close>

definition kids_counted_but :: "nat \<Rightarrow> nat option \<Rightarrow> int \<Rightarrow> cgsys \<Rightarrow> bool" where
  "kids_counted_but c child adj S \<longleftrightarrow> (\<forall>x threaded. nr_populated_kids (cgroups S x) threaded
     = int (card (populated_kids S x threaded))
       - (case child of Some d \<Rightarrow> if x = c \<and> cgroup_is_threaded S d = threaded then adj else 0 | None \<Rightarrow> 0))"

definition kids_counted :: "cgsys \<Rightarrow> bool" where
  "kids_counted S \<longleftrightarrow> (\<forall>x threaded. nr_populated_kids (cgroups S x) threaded
     = int (card (populated_kids S x threaded)))"

lemma kids_counted_but_None: "kids_counted_but c None adj S = kids_counted S"
  by (simp add: kids_counted_but_def kids_counted_def)

lemma counted_at_kids:
  "nr_populated_kids (cgroups (counted_at c child adj S) x) threaded = nr_populated_kids (cgroups S x) threaded
     + (case child of Some d \<Rightarrow> if x = c \<and> cgroup_is_threaded S d = threaded then adj else 0 | None \<Rightarrow> 0)"
  by (auto simp: counted_at_def upd_cgrp_def count_populated_def nr_populated_kids_def split: option.split)

lemma is_populated_sum:
  "cgroup_is_populated x \<longleftrightarrow> nr_populated_csets x + nr_populated_kids x False + nr_populated_kids x True \<noteq> 0"
  by (simp add: cgroup_is_populated_def nr_populated_kids_def)

lemma counted_at_other [simp]: "x \<noteq> c \<Longrightarrow> cgroups (counted_at c child adj S) x = cgroups S x"
  by (simp add: counted_at_def upd_cgrp_def)

lemma told_rest [simp]: "ftree (told c S) = ftree S" "cgroup_is_threaded (told c S) d = cgroup_is_threaded S d"
  by (simp_all add: told_def cgcall_to_def cgroup_is_threaded_def)

lemma counted_at_rest [simp]: "ftree (counted_at c child adj S) = ftree S"
  "cgroup_is_threaded (counted_at c child adj S) d = cgroup_is_threaded S d"
  by (simp_all add: counts_onlyD(1) [OF counts_only_turn(1)])

lemma populated_kids_told [simp]: "populated_kids (told c S) x threaded = populated_kids S x threaded"
  by (simp add: populated_kids_def)

lemma populated_kids_finite [simp]: "finite (populated_kids S x threaded)"
  by (simp add: populated_kids_def)

text \<open>The child has already changed as the adjustment says.\<close>

definition to_count :: "nat \<Rightarrow> nat option \<Rightarrow> int \<Rightarrow> cgsys \<Rightarrow> bool" where
  "to_count c child adj S \<longleftrightarrow> css_tree_ok (ftree S) \<and> c \<in> set (tcss (ftree S)) \<and> kids_counted_but c child adj S
     \<and> (\<forall>x. 0 \<le> nr_populated_csets (cgroups S x))
     \<and> (child = None \<longrightarrow> 0 \<le> nr_populated_csets (cgroups S c) + adj)
     \<and> (\<forall>d. child = Some d \<longrightarrow> d \<in> set (kids (ftree S) c) \<and> (adj = 1 \<longrightarrow> cgroup_is_populated (cgroups S d)))"

lemma to_count_flip:
  assumes "to_count c child adj S" and "adj = 1 \<or> adj = -1"
    and "cgroup_is_populated (cgroups (counted_at c child adj S) c) \<noteq> cgroup_is_populated (cgroups S c)"
  shows "cgroup_is_populated (cgroups S c) \<longleftrightarrow> adj = -1"
proof -
  let ?n = "\<lambda>S. nr_populated_csets (cgroups S c) + nr_populated_kids (cgroups S c) False + nr_populated_kids (cgroups S c) True"
  have k: "nr_populated_kids (cgroups S c) threaded = int (card (populated_kids S c threaded))
      - (case child of Some d \<Rightarrow> if cgroup_is_threaded S d = threaded then adj else 0 | None \<Rightarrow> 0)" for threaded
    using assms(1) by (auto simp: to_count_def kids_counted_but_def split: option.splits)
  have member: "0 < card (populated_kids S c (cgroup_is_threaded S d))" if "child = Some d" "adj = 1" for d
    using that assms(1) by (auto simp: to_count_def populated_kids_def card_gt_0_iff)
  have before: "0 \<le> ?n S"
  proof (cases child)
    case None
    then show ?thesis using assms(1) k by (simp add: to_count_def)
  next
    case (Some d)
    then show ?thesis using assms(1,2) k [of False] k [of True] member [of d]
      by (cases "cgroup_is_threaded S d") (auto simp: to_count_def)
  qed
  have step: "?n (counted_at c child adj S) = ?n S + adj"
    by (cases child) (auto simp: counted_at_kids counted_at_csets)
  have after: "0 \<le> ?n (counted_at c child adj S)"
  proof (cases child)
    case None
    then show ?thesis using assms(1) k step by (simp add: to_count_def)
  next
    case (Some d)
    then show ?thesis using assms(1) k [of False] k [of True] step
      by (cases "cgroup_is_threaded S d") (auto simp: to_count_def)
  qed
  show ?thesis using before step after assms(2,3) unfolding is_populated_sum by auto
qed

lemma counted_kids:
  assumes "to_count c child adj S"
  shows "nr_populated_kids (cgroups (counted_at c child adj S) x) threaded = int (card (populated_kids S x threaded))"
  using assms by (auto simp: counted_at_kids to_count_def kids_counted_but_def split: option.splits)

lemma populated_kids_same:
  assumes "c \<notin> set (kids (ftree S) x)
      \<or> cgroup_is_populated (cgroups (counted_at c child adj S) c) = cgroup_is_populated (cgroups S c)"
  shows "populated_kids (counted_at c child adj S) x threaded = populated_kids S x threaded"
proof -
  have "cgroup_is_populated (cgroups (counted_at c child adj S) d) = cgroup_is_populated (cgroups S d)"
    if "d \<in> set (kids (ftree S) x)" for d using that assms by (cases "d = c") auto
  then show ?thesis by (auto simp: populated_kids_def)
qed

lemma populated_kids_flip:
  assumes "to_count c child adj S" and "adj = 1 \<or> adj = -1" and "c \<in> set (kids (ftree S) p)"
    and "cgroup_is_populated (cgroups (counted_at c child adj S) c) \<noteq> cgroup_is_populated (cgroups S c)"
  shows "int (card (populated_kids (counted_at c child adj S) p threaded))
    = int (card (populated_kids S p threaded)) + (if cgroup_is_threaded S c = threaded then adj else 0)"
proof -
  let ?S = "counted_at c child adj S"
  let ?P = "\<lambda>S d. cgroup_is_populated (cgroups S d) \<and> cgroup_is_threaded S d = threaded"
  have "int (card {d \<in> set (kids (ftree S) p). ?P ?S d}) = int (card {d \<in> set (kids (ftree S) p). ?P S d})
      + (if ?P ?S c then 1 else 0) - (if ?P S c then 1 else 0)"
    using assms(3) by (intro card_change) auto
  then show ?thesis using to_count_flip [OF assms(1,2,4)] assms(2,4) by (auto simp: populated_kids_def)
qed

lemma update_populated_kids:
  assumes "to_count c child adj S" and "adj = 1 \<or> adj = -1"
  shows "kids_counted (update_populated c child adj S)"
proof (rule mp [OF _ assms(1)], rule update_populated_walk [where R = "\<lambda>c child S S'. to_count c child adj S \<longrightarrow> kids_counted S'"])
  show "to_count c child adj S \<longrightarrow> kids_counted (counted_at c child adj S)"
    if "cgroup_is_populated (cgroups (counted_at c child adj S) c) = cgroup_is_populated (cgroups S c)" for c child S
    using that counted_kids populated_kids_same by (simp add: kids_counted_def)
next
  fix c child S
  assume flip: "cgroup_is_populated (cgroups (counted_at c child adj S) c) \<noteq> cgroup_is_populated (cgroups S c)"
    and top: "\<And>p. tpar (ftree S) c = Some p \<Longrightarrow> \<not> p < c"
  show "to_count c child adj S \<longrightarrow> kids_counted (told c (counted_at c child adj S))"
  proof
    assume count: "to_count c child adj S"
    then have "c \<notin> set (kids (ftree S) x)" for x
      using top by (auto simp: to_count_def in_kids css_tree_ok_def tree_ok_def)
    then show "kids_counted (told c (counted_at c child adj S))"
      using counted_kids [OF count] populated_kids_same by (simp add: kids_counted_def)
  qed
next
  fix c child S p S'
  assume flip: "cgroup_is_populated (cgroups (counted_at c child adj S) c) \<noteq> cgroup_is_populated (cgroups S c)"
    and p: "tpar (ftree S) c = Some p" "p < c"
    and IH: "to_count p (Some c) adj (told c (counted_at c child adj S)) \<longrightarrow> kids_counted S'"
  show "to_count c child adj S \<longrightarrow> kids_counted S'"
  proof
    assume count: "to_count c child adj S"
    let ?S = "told c (counted_at c child adj S)"
    have T: "css_tree_ok (ftree S)" and c: "c \<in> set (tcss (ftree S))" using count by (auto simp: to_count_def)
    have kid: "c \<in> set (kids (ftree S) x) \<longleftrightarrow> x = p" for x using in_kids [OF T] c p by auto
    have "kids_counted_but p (Some c) adj ?S"
      unfolding kids_counted_but_def
    proof (intro allI)
      fix x threaded
      show "nr_populated_kids (cgroups ?S x) threaded = int (card (populated_kids ?S x threaded))
        - (case Some c of Some d \<Rightarrow> if x = p \<and> cgroup_is_threaded ?S d = threaded then adj else 0 | None \<Rightarrow> 0)"
        using counted_kids [OF count] populated_kids_flip [OF count assms(2) _ flip, of p threaded] kid
          populated_kids_same [where x = x and c = c and S = S and child = child and adj = adj and threaded = threaded]
        by (cases "x = p") auto
    qed
    moreover have "p \<in> set (tcss (ftree S))" using T c p by (auto simp: css_tree_ok_def)
    moreover have "0 \<le> nr_populated_csets (cgroups ?S x)" for x
      using count by (auto simp: counted_at_csets to_count_def)
    moreover have "cgroup_is_populated (cgroups ?S c)" if "adj = 1"
      using to_count_flip [OF count assms(2) flip] flip that by simp
    ultimately have "to_count p (Some c) adj ?S" using T kid by (simp add: to_count_def)
    with IH show "kids_counted S'" by blast
  qed
qed

subsection \<open>The counters of all cgroups of a css_set\<close>

text \<open>\<open>pop\<close> tells which css_sets count as populated.\<close>

definition csets_of :: "(nat \<Rightarrow> bool) \<Rightarrow> cgsys \<Rightarrow> nat \<Rightarrow> nat set" where
  "csets_of pop S c = {s \<in> set (css_set_table S). c \<in> set (cgrp_links (cset S s)) \<and> pop s}"

definition csets_counted :: "(nat \<Rightarrow> bool) \<Rightarrow> cgsys \<Rightarrow> bool" where
  "csets_counted pop S \<longleftrightarrow> (\<forall>c. nr_populated_csets (cgroups S c) = int (card (csets_of pop S c)))"

definition links_ok :: "cgsys \<Rightarrow> nat \<Rightarrow> bool" where
  "links_ok S s \<longleftrightarrow> distinct (cgrp_links (cset S s)) \<and> set (cgrp_links (cset S s)) \<subseteq> set (tcss (ftree S))"

lemma links_counted:
  assumes "css_tree_ok (ftree S)" and "distinct cs" and "set cs \<subseteq> set (tcss (ftree S))" and "kids_counted S"
    and "\<forall>c. 0 \<le> nr_populated_csets (cgroups S c)"
    and "\<forall>c \<in> set cs. 0 \<le> nr_populated_csets (cgroups S c) + (if populated then 1 else -1)"
  shows "counts_only S (fold (\<lambda>c. cgroup_update_populated c populated) cs S)
    \<and> kids_counted (fold (\<lambda>c. cgroup_update_populated c populated) cs S)
    \<and> (\<forall>c. nr_populated_csets (cgroups (fold (\<lambda>c. cgroup_update_populated c populated) cs S) c)
         = nr_populated_csets (cgroups S c) + (if c \<in> set cs then (if populated then 1 else -1) else 0))"
  using assms
proof (induction cs arbitrary: S)
  case Nil
  then show ?case by simp
next
  case (Cons c cs)
  let ?adj = "if populated then 1 else -1 :: int" and ?S = "cgroup_update_populated c populated S"
  have count: "to_count c None ?adj S"
    using Cons.prems by (simp add: to_count_def kids_counted_but_None)
  have f: "counts_only S ?S" unfolding cgroup_update_populated_def by (rule update_populated_frame)
  have k: "kids_counted ?S" unfolding cgroup_update_populated_def by (rule update_populated_kids [OF count]) simp
  have n: "nr_populated_csets (cgroups ?S d) = nr_populated_csets (cgroups S d) + (if d = c then ?adj else 0)" for d
    unfolding cgroup_update_populated_def by (simp add: update_populated_csets)
  have "counts_only ?S (fold (\<lambda>c. cgroup_update_populated c populated) cs ?S)
    \<and> kids_counted (fold (\<lambda>c. cgroup_update_populated c populated) cs ?S)
    \<and> (\<forall>c. nr_populated_csets (cgroups (fold (\<lambda>c. cgroup_update_populated c populated) cs ?S) c)
         = nr_populated_csets (cgroups ?S c) + (if c \<in> set cs then ?adj else 0))"
    using Cons.prems k n by (intro Cons.IH) (auto simp: counts_onlyD [OF f])
  then show ?case using f n Cons.prems(2) counts_only_trans by auto
qed

lemma csets_of_finite [simp]: "finite (csets_of pop S c)"
  by (simp add: csets_of_def)

lemma csets_of_change:
  assumes "s \<in> set (css_set_table S)" and "\<And>x. x \<noteq> s \<Longrightarrow> pop' x \<longleftrightarrow> pop x"
  shows "int (card (csets_of pop' S c)) = int (card (csets_of pop S c))
    + (if c \<in> set (cgrp_links (cset S s)) then (if pop' s then 1 else 0) - (if pop s then 1 else 0) else 0)"
  using card_change [of "set (css_set_table S)" s "\<lambda>x. c \<in> set (cgrp_links (cset S x)) \<and> pop' x"
      "\<lambda>x. c \<in> set (cgrp_links (cset S x)) \<and> pop x"] assms by (auto simp: csets_of_def)

lemma update_csets_counted:
  assumes "css_tree_ok (ftree S)" and "links_ok S s" and "s \<in> set (css_set_table S)" and "kids_counted S"
    and "csets_counted pop S" and "pop s = (\<not> populated)"
  shows "counts_only S (css_set_update_populated s populated S)
    \<and> kids_counted (css_set_update_populated s populated S)
    \<and> csets_counted (pop(s := populated)) (css_set_update_populated s populated S)"
proof -
  let ?S = "css_set_update_populated s populated S" and ?pop = "pop(s := populated)"
  have n0: "nr_populated_csets (cgroups S c) = int (card (csets_of pop S c))" for c
    using assms(5) by (simp add: csets_counted_def)
  have change: "int (card (csets_of ?pop S c)) = int (card (csets_of pop S c))
      + (if c \<in> set (cgrp_links (cset S s)) then (if populated then 1 else -1) else 0)" for c
    using csets_of_change [OF assms(3), of ?pop pop c] assms(6) by auto
  have "0 \<le> nr_populated_csets (cgroups S c) + (if populated then 1 else -1)" if "c \<in> set (cgrp_links (cset S s))" for c
    using change [of c] n0 [of c] that by simp
  then have all: "counts_only S ?S" "kids_counted ?S"
    "\<And>c. nr_populated_csets (cgroups ?S c) = nr_populated_csets (cgroups S c)
       + (if c \<in> set (cgrp_links (cset S s)) then (if populated then 1 else -1) else 0)"
    using links_counted [OF assms(1) _ _ assms(4), of "cgrp_links (cset S s)" populated] assms(2) n0
    unfolding css_set_update_populated_def links_ok_def by auto
  moreover have "csets_of ?pop ?S c = csets_of ?pop S c" for c
    by (simp add: csets_of_def counts_onlyD [OF all(1)])
  ultimately show ?thesis using change n0 by (simp add: csets_counted_def)
qed

end
