(* ===== verification/CssSet_Refs.thy ===== *)
theory CssSet_Refs
  imports CssSet_Correct
begin

section \<open>References to css_sets\<close>

text \<open>
  A css_set is in the table as long as something refers to it: a task, the css_set of a threaded
  cgroup whose domain it is, or a pin of a migration in progress.  \<open>K\<close> is the set of the tasks that
  hold a reference, from \<open>cgroup_post_fork\<close> to \<open>cgroup_free\<close>; \<open>pins\<close> counts the other references.
\<close>

definition tasks_of :: "nat set \<Rightarrow> cgsys \<Rightarrow> nat \<Rightarrow> nat set" where
  "tasks_of K S s = {t \<in> K. task_css_set S t = s}"

definition threaded_csets :: "cgsys \<Rightarrow> nat \<Rightarrow> nat set" where
  "threaded_csets S s = {x \<in> set (css_set_table S). dom_cset (cset S x) = s \<and> x \<noteq> s}"

definition refs :: "nat set \<Rightarrow> cgsys \<Rightarrow> nat \<Rightarrow> nat" where
  "refs K S s = card (tasks_of K S s) + card (threaded_csets S s)"

definition all_tasks :: "css_set \<Rightarrow> nat list" where
  "all_tasks x = cset_tasks x @ mg_tasks x @ dying_tasks x"

definition lists_ok :: "nat set \<Rightarrow> cgsys \<Rightarrow> nat \<Rightarrow> bool" where
  "lists_ok K S s \<longleftrightarrow> distinct (all_tasks (cset S s)) \<and> set (all_tasks (cset S s)) \<subseteq> tasks_of K S s"

text \<open>One cgroup of every hierarchy, in the order of the first css_set.\<close>

definition hierarchies :: "cgsys \<Rightarrow> nat list" where
  "hierarchies S = map (root_of S) (cgrp_links (cset S init_css_set))"

definition cset_wf :: "cgsys \<Rightarrow> nat \<Rightarrow> bool" where
  "cset_wf S s \<longleftrightarrow> map (root_of S) (cgrp_links (cset S s)) = hierarchies S
     \<and> set (cgrp_links (cset S s)) \<subseteq> set (tcss (ftree S))
     \<and> dfl_cgrp (cset S s) \<in> set (cgrp_links (cset S s)) \<and> root_of S (dfl_cgrp (cset S s)) = 0
     \<and> dom_cset (cset S s) \<in> set (css_set_table S)
     \<and> (dom_cset (cset S s) \<noteq> s \<longrightarrow> dfl_cgrp (cset S (dom_cset (cset S s))) < dfl_cgrp (cset S s))"

definition csets_ok :: "nat set \<Rightarrow> (nat \<Rightarrow> nat) \<Rightarrow> cgsys \<Rightarrow> bool" where
  "csets_ok K pins S \<longleftrightarrow> css_tree_ok (ftree S) \<and> finite K \<and> distinct (css_set_table S)
     \<and> init_css_set \<in> set (css_set_table S) \<and> distinct (hierarchies S)
     \<and> (\<forall>t \<in> K. task_css_set S t \<in> set (css_set_table S))
     \<and> (\<forall>s \<in> set (css_set_table S). s < next_cset S \<and> cset_wf S s \<and> lists_ok K S s
          \<and> refcount (cset S s) = int (pins s + refs K S s))"

lemma csets_okD:
  assumes "csets_ok K pins S"
  shows "css_tree_ok (ftree S)" and "finite K" and "distinct (css_set_table S)"
    and "init_css_set \<in> set (css_set_table S)" and "distinct (hierarchies S)"
    and "\<And>t. t \<in> K \<Longrightarrow> task_css_set S t \<in> set (css_set_table S)"
    and "\<And>s. s \<in> set (css_set_table S) \<Longrightarrow> s < next_cset S"
    and "\<And>s. s \<in> set (css_set_table S) \<Longrightarrow> cset_wf S s"
    and "\<And>s. s \<in> set (css_set_table S) \<Longrightarrow> lists_ok K S s"
    and "\<And>s. s \<in> set (css_set_table S) \<Longrightarrow> refcount (cset S s) = int (pins s + refs K S s)"
  using assms unfolding csets_ok_def by blast+

lemma finite_tasks_of [simp]: "finite K \<Longrightarrow> finite (tasks_of K S s)"
  by (simp add: tasks_of_def)

lemma finite_threaded_csets [simp]: "finite (threaded_csets S s)"
  by (simp add: threaded_csets_def)

lemma links_ok_csets:
  assumes "csets_ok K pins S" and "s \<in> set (css_set_table S)"
  shows "links_ok S s"
  using csets_okD(5) [OF assms(1)] csets_okD(8) [OF assms]
  unfolding links_ok_def cset_wf_def by (metis distinct_map)

text \<open>A css_set that nothing refers to has no tasks.\<close>

lemma no_refs_empty:
  assumes "csets_ok K pins S" and "s \<in> set (css_set_table S)" and "refs K S s = 0"
  shows "tasks_of K S s = {}" and "threaded_csets S s = {}" and "all_tasks (cset S s) = []"
proof -
  show "tasks_of K S s = {}" "threaded_csets S s = {}"
    using assms(3) csets_okD(2) [OF assms(1)] by (simp_all add: refs_def)
  then show "all_tasks (cset S s) = []" using csets_okD(9) [OF assms(1,2)] by (simp add: lists_ok_def)
qed

subsection \<open>What changes when a reference is taken or given back\<close>

definition csets_only :: "cgsys \<Rightarrow> cgsys \<Rightarrow> bool" where
  "csets_only S S' \<longleftrightarrow> (\<exists>f tb n a cr. S' = S\<lparr>css_set_table := tb, cset := f, next_cset := n, asked := a, cg_crashed := cr\<rparr>)"

lemma csets_onlyI:
  "S' = S\<lparr>css_set_table := css_set_table S', cset := cset S', next_cset := next_cset S', asked := asked S',
     cg_crashed := cg_crashed S'\<rparr> \<Longrightarrow> csets_only S S'"
  unfolding csets_only_def by (intro exI)

lemma csets_only_refl [simp]: "csets_only S S"
  by (rule csets_onlyI) simp

lemma csets_only_trans: "csets_only S S' \<Longrightarrow> csets_only S' S'' \<Longrightarrow> csets_only S S''"
  unfolding csets_only_def by force

lemma csets_onlyD:
  assumes "csets_only S S'"
  shows "ftree S' = ftree S" "root_of S' = root_of S" "subsys_mask S' = subsys_mask S" "cgroups S' = cgroups S"
    "css_obj S' = css_obj S" "next_css S' = next_css S" "task_css_set S' = task_css_set S" "exiting S' = exiting S"
    "thread_group S' = thread_group S" "answers S' = answers S" "cgcalls S' = cgcalls S"
    "cgroup_root_count S' = cgroup_root_count S"
  using assms by (auto simp: csets_only_def)

definition same_but_refs :: "css_set \<Rightarrow> css_set \<Rightarrow> bool" where
  "same_but_refs x y \<longleftrightarrow> x\<lparr>refcount := 0\<rparr> = y\<lparr>refcount := 0\<rparr>"

lemma same_but_refs_refl [simp]: "same_but_refs x x"
  by (simp add: same_but_refs_def)

lemma same_but_refs_trans: "same_but_refs x y \<Longrightarrow> same_but_refs y z \<Longrightarrow> same_but_refs x z"
  by (simp add: same_but_refs_def)

lemma same_but_refsD:
  assumes "same_but_refs x y"
  shows "cset_subsys x = cset_subsys y" "cgrp_links x = cgrp_links y" "dfl_cgrp x = dfl_cgrp y"
    "dom_cset x = dom_cset y" "cset_tasks x = cset_tasks y" "mg_tasks x = mg_tasks y"
    "dying_tasks x = dying_tasks y" "nr_tasks x = nr_tasks y" "cset_dead x = cset_dead y"
    "mg_src_cgrp x = mg_src_cgrp y" "mg_dst_cgrp x = mg_dst_cgrp y" "mg_dst_cset x = mg_dst_cset y"
  using assms unfolding same_but_refs_def
  by (auto dest: arg_cong [where f = cset_subsys] arg_cong [where f = cgrp_links] arg_cong [where f = dfl_cgrp]
      arg_cong [where f = dom_cset] arg_cong [where f = cset_tasks] arg_cong [where f = mg_tasks]
      arg_cong [where f = dying_tasks] arg_cong [where f = nr_tasks] arg_cong [where f = cset_dead]
      arg_cong [where f = mg_src_cgrp] arg_cong [where f = mg_dst_cgrp] arg_cong [where f = mg_dst_cset])

text \<open>One reference counted otherwise.\<close>

lemma csets_ok_count:
  assumes "csets_ok K pins S"
    and "csets_ok K pins S \<Longrightarrow> \<forall>s \<in> set (css_set_table S). refcount (g s) = int (pins' s + refs K S s)"
    and "\<And>s. same_but_refs (g s) (cset S s)"
  shows "csets_ok K pins' (S\<lparr>cset := g\<rparr>)"
proof -
  note same = same_but_refsD [OF assms(3)]
  have "hierarchies (S\<lparr>cset := g\<rparr>) = hierarchies S" by (simp add: hierarchies_def same)
  moreover have "refs K (S\<lparr>cset := g\<rparr>) s = refs K S s" for s
    by (simp add: refs_def tasks_of_def threaded_csets_def same)
  moreover have "cset_wf (S\<lparr>cset := g\<rparr>) s = cset_wf S s" for s
    by (simp add: cset_wf_def hierarchies_def same)
  moreover have "lists_ok K (S\<lparr>cset := g\<rparr>) s = lists_ok K S s" for s
    by (simp add: lists_ok_def all_tasks_def tasks_of_def same)
  ultimately show ?thesis using assms(1) assms(2) [OF assms(1)] unfolding csets_ok_def by simp
qed

lemma get_css_set_ok:
  assumes "csets_ok K pins S"
  shows "csets_ok K (pins(s := pins s + 1)) (get_css_set s S)"
proof -
  have "get_css_set s S = S\<lparr>cset := (cset S)(s := (cset S s)\<lparr>refcount := refcount (cset S s) + 1\<rparr>)\<rparr>"
    by (simp add: get_css_set_def upd_cset_def)
  moreover have "csets_ok K (pins(s := pins s + 1))
      (S\<lparr>cset := (cset S)(s := (cset S s)\<lparr>refcount := refcount (cset S s) + 1\<rparr>)\<rparr>)"
    using csets_okD(10) [OF assms] by (intro csets_ok_count [OF assms]) (auto simp: same_but_refs_def)
  ultimately show ?thesis by simp
qed

text \<open>A css_set without references leaves the table; its domain has one reference less from the
  css_sets and one more to be given back.\<close>

lemma csets_ok_remove:
  assumes "csets_ok K pins S" and "s \<in> set (css_set_table S)" and "pins s = 0" and "refs K S s = 0"
    and "s \<noteq> init_css_set"
  shows "csets_ok K (if css_set_threaded S s
      then pins(dom_cset (cset S s) := pins (dom_cset (cset S s)) + 1) else pins)
    (S\<lparr>css_set_table := removeAll s (css_set_table S)\<rparr>)"
proof -
  let ?S = "S\<lparr>css_set_table := removeAll s (css_set_table S)\<rparr>" and ?d = "dom_cset (cset S s)"
  note ok = csets_okD [OF assms(1)]
  note none = no_refs_empty [OF assms(1,2,4)]
  have gone: "threaded_csets ?S x = threaded_csets S x - {s}" for x by (auto simp: threaded_csets_def)
  have card: "card (threaded_csets S x) = card (threaded_csets ?S x) + (if x = ?d \<and> ?d \<noteq> s then 1 else 0)" for x
  proof (cases "x = ?d \<and> ?d \<noteq> s")
    case True
    then have "s \<in> threaded_csets S x" using assms(2) by (auto simp: threaded_csets_def)
    then have "Suc (card (threaded_csets S x - {s})) = card (threaded_csets S x)" by (intro card_Suc_Diff1) auto
    with True gone show ?thesis by simp
  next
    case False
    then have "s \<notin> threaded_csets S x" by (auto simp: threaded_csets_def)
    then show ?thesis using False gone by simp
  qed
  have "cset_wf ?S x" if "x \<in> set (css_set_table S)" "x \<noteq> s" for x
  proof -
    have "dom_cset (cset S x) \<noteq> s" using none(2) that by (auto simp: threaded_csets_def)
    then show ?thesis using ok(8) [OF that(1)] by (simp add: cset_wf_def hierarchies_def)
  qed
  moreover have "task_css_set S t \<noteq> s" if "t \<in> K" for t using none(1) that by (auto simp: tasks_of_def)
  moreover have "refcount (cset S x) = int ((if css_set_threaded S s then pins(?d := pins ?d + 1) else pins) x + refs K ?S x)"
    if "x \<in> set (css_set_table S)" "x \<noteq> s" for x
    using ok(10) [OF that(1)] card [of x] by (auto simp: refs_def tasks_of_def css_set_threaded_def)
  ultimately show ?thesis
    using ok assms(5) unfolding csets_ok_def
    by (auto simp: hierarchies_def lists_ok_def tasks_of_def distinct_removeAll)
qed

text \<open>A pinned css_set gives its pin back: nothing but reference counts changes in the css_sets that
  stay, and only css_sets that nothing refers to leave.\<close>

definition put_ok :: "nat set \<Rightarrow> (nat \<Rightarrow> nat) \<Rightarrow> cgsys \<Rightarrow> cgsys \<Rightarrow> bool" where
  "put_ok K pins S S' \<longleftrightarrow> csets_ok K pins S' \<and> csets_only S S' \<and> set (css_set_table S') \<subseteq> set (css_set_table S)
     \<and> next_cset S' = next_cset S \<and> asked S' = asked S \<and> cg_crashed S' = cg_crashed S
     \<and> (\<forall>x. same_but_refs (cset S' x) (cset S x))
     \<and> (\<forall>x \<in> set (css_set_table S). x \<notin> set (css_set_table S') \<longrightarrow> pins x = 0 \<and> tasks_of K S x = {})"

lemma put_css_set_ok:
  assumes "csets_ok K (pins(s := pins s + 1)) S" and "s \<in> set (css_set_table S)" and "0 < pins init_css_set"
  shows "put_ok K pins S (put_css_set s S)"
  using assms
proof (induction s S arbitrary: pins rule: put_css_set.induct)
  case (1 s S)
  let ?S = "upd_cset s (\<lambda>x. x\<lparr>refcount := refcount x - 1\<rparr>) S"
  let ?g = "(cset S)(s := (cset S s)\<lparr>refcount := refcount (cset S s) - 1\<rparr>)"
  let ?R = "?S\<lparr>css_set_table := removeAll s (css_set_table ?S)\<rparr>" and ?d = "dom_cset (cset S s)"
  note pins = csets_okD(10) [OF "1.prems"(1)]
  have S: "?S = S\<lparr>cset := ?g\<rparr>" by (simp add: upd_cset_def)
  have ok: "csets_ok K pins ?S"
    unfolding S using pins by (intro csets_ok_count [OF "1.prems"(1)]) (auto simp: same_but_refs_def)
  have only: "csets_only S ?S"
    unfolding S by (rule csets_onlyI) simp
  have same: "same_but_refs (cset ?S x) (cset S x)" for x by (simp add: S same_but_refs_def)
  note sameD = same_but_refsD [OF same]
  have tb: "css_set_table ?S = css_set_table S" "task_css_set ?S = task_css_set S" "next_cset ?S = next_cset S"
    "asked ?S = asked S" "cg_crashed ?S = cg_crashed S" by (simp_all add: S)
  show ?case
  proof (cases "refcount (cset ?S s) = 0")
    case False
    then have "put_css_set s S = ?S" by (simp add: put_css_set.simps [of s] Let_def)
    then show ?thesis using ok only same tb by (simp add: put_ok_def)
  next
    case True
    have refs0: "refs K ?S s = 0" and pins0: "pins s = 0"
      using csets_okD(10) [OF ok, of s] "1.prems"(2) True tb by auto
    have "s \<noteq> init_css_set" using pins0 "1.prems"(3) by auto
    note R = csets_ok_remove [OF ok _ pins0 refs0 this, unfolded tb, OF "1.prems"(2), folded tb(1)]
    have none: "tasks_of K S s = {}" "threaded_csets S s = {}"
      using no_refs_empty(1,2) [OF ok _ refs0] "1.prems"(2) tb sameD by (simp_all add: tasks_of_def threaded_csets_def)
    have onlyR: "csets_only S ?R"
      unfolding S by (rule csets_onlyI) simp
    have thr: "css_set_threaded ?R s = css_set_threaded S s" "css_set_threaded ?S s = css_set_threaded S s"
      by (simp_all add: css_set_threaded_def sameD)
    show ?thesis
    proof (cases "css_set_threaded S s")
      case th: True
      have wf: "cset_wf S s" using csets_okD(8) [OF "1.prems"(1,2)] .
      have d: "?d \<in> set (css_set_table ?R)" "dfl_cgrp (cset ?R (dom_cset (cset ?R s))) < dfl_cgrp (cset ?R s)"
        using wf th by (auto simp: cset_wf_def css_set_threaded_def tb sameD)
      have eq: "put_css_set s S = put_css_set ?d ?R"
        using True d(2) th thr unfolding put_css_set.simps [of s] Let_def by (simp add: sameD)
      have "put_ok K pins ?R (put_css_set (dom_cset (cset ?R s)) ?R)"
      proof (rule "1.IH" [OF refl _ refl])
        show "csets_ok K (pins(dom_cset (cset ?R s) := pins (dom_cset (cset ?R s)) + 1)) ?R"
          using R th thr by (simp add: sameD)
      qed (use True d thr th "1.prems"(3) sameD in auto)
      moreover have "tasks_of K ?R x = tasks_of K S x" for x by (simp add: tasks_of_def tb)
      ultimately show ?thesis
        using onlyR none pins0 same unfolding eq put_ok_def
        by (auto simp: tb sameD intro: csets_only_trans same_but_refs_trans)
    next
      case th: False
      then have eq: "put_css_set s S = ?R"
        using True thr unfolding put_css_set.simps [of s] Let_def by simp
      show ?thesis
        using R th thr onlyR none pins0 same unfolding eq put_ok_def by (auto simp: tb)
    qed
  qed
qed

end
