(* ===== verification/CssSet_Find.thy ===== *)
theory CssSet_Find
  imports CssSet_Refs
begin

section \<open>The css_set that is looked up\<close>

text \<open>
  \<open>find_css_set\<close> returns the css_set for the cgroups it is asked for, with one more reference, and
  touches no other css_set.  When it fails nothing is left behind.
\<close>

text \<open>A threaded cgroup belongs to a domain above it, on the default hierarchy.\<close>

definition domains_ok :: "cgsys \<Rightarrow> bool" where
  "domains_ok S \<longleftrightarrow> (\<forall>c \<in> set (tcss (ftree S)). cgroup_is_threaded S c \<longrightarrow>
     dom_cgrp (cgroups S c) < c \<and> root_of S c = 0 \<and> root_of S (dom_cgrp (cgroups S c)) = 0
     \<and> dom_cgrp (cgroups S c) \<in> set (tcss (ftree S)))"

definition idle_cset :: "css_set \<Rightarrow> bool" where
  "idle_cset x \<longleftrightarrow> all_tasks x = [] \<and> mg_src_cgrp x = None \<and> mg_dst_cgrp x = None \<and> mg_dst_cset x = None
     \<and> \<not> cset_dead x \<and> nr_tasks x = 0"

subsection \<open>The links of a css_set\<close>

lemma same_links_eq:
  "map (root_of S) l1 = map (root_of S) l2 \<Longrightarrow>
    same_links S c l1 l2 = Some (l1 = map (\<lambda>d. if root_of S d = root_of S c then c else d) l2)"
  by (induction S c l1 l2 rule: same_links.induct) auto

lemma first_match_Some: "first_match f xs = Some (Some s) \<Longrightarrow> s \<in> set xs \<and> f s = Some True"
  by (induction f xs rule: first_match.induct) (auto split: option.splits bool.splits)

lemma fold_link_css_set:
  "fold (link_css_set S) ls x = x\<lparr>cgrp_links := cgrp_links x @ ls,
     dfl_cgrp := fold (\<lambda>c d. if cgroup_on_dfl S c then c else d) ls (dfl_cgrp x)\<rparr>"
proof (induction ls arbitrary: x)
  case Nil
  then show ?case by simp
next
  case (Cons c ls)
  show ?case by (simp add: Cons.IH) (simp add: link_css_set_def)
qed

lemma fold_dfl_none:
  "\<forall>d \<in> set ls. root_of S d \<noteq> 0 \<Longrightarrow> fold (\<lambda>c d. if cgroup_on_dfl S c then c else d) ls x = x"
  by (induction ls arbitrary: x) (auto simp: cgroup_on_dfl_def)

lemma fold_dfl:
  assumes "d \<in> set ls" and "root_of S d = 0" and "distinct (map (root_of S) ls)"
  shows "fold (\<lambda>c d. if cgroup_on_dfl S c then c else d) ls x = d"
  using assms
proof (induction ls arbitrary: x)
  case Nil
  then show ?case by simp
next
  case (Cons a ls)
  show ?case
  proof (cases "a = d")
    case True
    then have "\<forall>b \<in> set ls. root_of S b \<noteq> 0" using Cons.prems by force
    then show ?thesis using True Cons.prems fold_dfl_none by (simp add: cgroup_on_dfl_def)
  next
    case False
    then show ?thesis using Cons by simp
  qed
qed

lemma new_links_ok:
  assumes "csets_ok K pins S" and "old \<in> set (css_set_table S)" and "c \<in> set (tcss (ftree S))"
  shows "map (root_of S) (new_links S old c) = hierarchies S"
    and "set (new_links S old c) \<subseteq> set (tcss (ftree S))"
    and "root_of S (cset_target S old c) = 0"
    and "cset_target S old c \<in> set (new_links S old c)"
proof -
  note wf = csets_okD(8) [OF assms(1,2), unfolded cset_wf_def]
  have "map (root_of S) (new_links S old c) = map (root_of S) (cgrp_links (cset S old))"
    by (simp add: new_links_def)
  then show "map (root_of S) (new_links S old c) = hierarchies S" using wf by simp
  show "set (new_links S old c) \<subseteq> set (tcss (ftree S))" using wf assms(3) by (auto simp: new_links_def)
  show "root_of S (cset_target S old c) = 0" using wf by (simp add: cset_target_def cgroup_on_dfl_def)
  show "cset_target S old c \<in> set (new_links S old c)"
    using wf by (auto simp: cset_target_def cgroup_on_dfl_def new_links_def image_iff
        intro!: bexI [of _ "dfl_cgrp (cset S old)"])
qed

lemma dfl_of_links:
  assumes "csets_ok K pins S" and "s \<in> set (css_set_table S)" and "d \<in> set (cgrp_links (cset S s))"
    and "root_of S d = 0"
  shows "dfl_cgrp (cset S s) = d"
proof -
  note wf = csets_okD(8) [OF assms(1,2), unfolded cset_wf_def]
  then have "inj_on (root_of S) (set (cgrp_links (cset S s)))"
    using csets_okD(5) [OF assms(1)] by (metis distinct_map)
  then show ?thesis by (rule inj_onD) (use wf assms(3,4) in simp_all)
qed

subsection \<open>A css_set that is there\<close>

text \<open>The css_set is the one that was asked for.\<close>

definition found_ok :: "subsystems \<Rightarrow> nat \<Rightarrow> nat \<Rightarrow> cgsys \<Rightarrow> nat \<Rightarrow> cgsys \<Rightarrow> bool" where
  "found_ok P old c S s S' \<longleftrightarrow> s \<in> set (css_set_table S') \<and> cgrp_links (cset S' s) = new_links S old c
     \<and> dfl_cgrp (cset S' s) = cset_target S old c
     \<and> dfl_cgrp (cset S' (dom_cset (cset S' s))) = dom_cgrp (cgroups S (cset_target S old c))
     \<and> same_subsys P (css_template P S old c) (cset_subsys (cset S' s))"

lemma find_existing_ok:
  assumes "csets_ok K pins S" and "old \<in> set (css_set_table S)" and "c \<in> set (tcss (ftree S))"
    and "find_existing_css_set P S old c = Some (Some s)"
  shows "found_ok P old c S s S"
proof -
  note f = first_match_Some [OF assms(4) [unfolded find_existing_css_set_def]]
  then have s: "s \<in> set (css_set_table S)"
    and cmp: "compare_css_sets P S s old c (css_template P S old c) = Some True" by auto
  have roots: "map (root_of S) (cgrp_links (cset S s)) = map (root_of S) (cgrp_links (cset S old))"
    using csets_okD(8) [OF assms(1) s] csets_okD(8) [OF assms(1,2)] by (simp add: cset_wf_def)
  have "cgrp_links (cset S s) = new_links S old c"
    using cmp unfolding compare_css_sets_def new_links_def
    by (simp add: same_links_eq [OF roots] Let_def split: if_splits)
  moreover from this have "dfl_cgrp (cset S s) = cset_target S old c"
    using new_links_ok(3,4) [OF assms(1-3)] by (intro dfl_of_links [OF assms(1) s]) simp_all
  moreover have "dfl_cgrp (cset S (dom_cset (cset S s))) = dom_cgrp (cgroups S (cset_target S old c))"
    "same_subsys P (css_template P S old c) (cset_subsys (cset S s))"
    using cmp unfolding compare_css_sets_def cset_target_def by (auto simp: Let_def split: if_splits)
  ultimately show ?thesis using s by (simp add: found_ok_def)
qed

subsection \<open>A css_set that is created\<close>

lemma create_css_set_eq:
  assumes "csets_ok K pins S" and "old \<in> set (css_set_table S)" and "c \<in> set (tcss (ftree S))"
  obtains cr where "create_css_set P old c S = S\<lparr>cset := (cset S)(next_cset S := (new_css_set (next_cset S)
       (css_template P S old c))\<lparr>cgrp_links := new_links S old c, dfl_cgrp := cset_target S old c\<rparr>),
     next_cset := Suc (next_cset S), css_set_table := next_cset S # css_set_table S, cg_crashed := cr\<rparr>"
proof -
  note n = new_links_ok [OF assms]
  have "fold (\<lambda>c d. if cgroup_on_dfl S c then c else d) (new_links S old c) 0 = cset_target S old c"
    using n csets_okD(5) [OF assms(1)] by (intro fold_dfl) simp_all
  then have "fold (link_css_set S) (new_links S old c) (new_css_set (next_cset S) (css_template P S old c))
    = (new_css_set (next_cset S) (css_template P S old c))
        \<lparr>cgrp_links := new_links S old c, dfl_cgrp := cset_target S old c\<rparr>"
    by (simp add: fold_link_css_set new_css_set_def)
  then show ?thesis by (intro that) (simp add: create_css_set_def Let_def)
qed

lemma create_css_set_ok:
  assumes "csets_ok K pins S" and "old \<in> set (css_set_table S)" and "c \<in> set (tcss (ftree S))"
    and "pins (next_cset S) = 0"
  shows "csets_ok K (pins(next_cset S := 1)) (create_css_set P old c S)"
proof -
  let ?s = "next_cset S"
  let ?x = "(new_css_set ?s (css_template P S old c))\<lparr>cgrp_links := new_links S old c, dfl_cgrp := cset_target S old c\<rparr>"
  obtain cr where eq: "create_css_set P old c S = S\<lparr>cset := (cset S)(?s := ?x), next_cset := Suc ?s,
    css_set_table := ?s # css_set_table S, cg_crashed := cr\<rparr>" (is "_ = ?S") by (rule create_css_set_eq [OF assms(1-3)])
  note ok = csets_okD [OF assms(1)] and n = new_links_ok [OF assms(1-3)]
  have fresh: "?s \<notin> set (css_set_table S)" "\<And>x. x \<in> set (css_set_table S) \<Longrightarrow> x \<noteq> ?s" using ok(7) by blast+
  have hier: "hierarchies ?S = hierarchies S" using fresh ok(4) by (auto simp: hierarchies_def)
  have x: "dom_cset ?x = ?s" "cgrp_links ?x = new_links S old c" "dfl_cgrp ?x = cset_target S old c"
    "refcount ?x = 1" "all_tasks ?x = []" by (simp_all add: new_css_set_def all_tasks_def)
  have dom: "dom_cset (cset S y) \<in> set (css_set_table S)" if "y \<in> set (css_set_table S)" for y
    using ok(8) [OF that] by (simp add: cset_wf_def)
  have thr: "threaded_csets ?S y = (if y = ?s then {} else threaded_csets S y)" for y
    using fresh dom by (auto simp: threaded_csets_def x simp del: select_convs)
  have ts: "tasks_of K ?S y = (if y = ?s then {} else tasks_of K S y)" for y
    using fresh ok(6) by (auto simp: tasks_of_def)
  have "cset_wf ?S y" if "y \<in> set (css_set_table S)" for y
    using ok(8) [OF that] fresh(2) [OF that] fresh(2) [OF dom [OF that]] unfolding cset_wf_def hier by simp
  moreover have "cset_wf ?S ?s" using n x unfolding cset_wf_def hier by simp
  moreover have "lists_ok K ?S y" if "y \<in> set (css_set_table S)" for y
    using ok(9) [OF that] fresh(2) [OF that] unfolding lists_ok_def ts by simp
  moreover have "lists_ok K ?S ?s" using x by (simp add: lists_ok_def)
  moreover have "refcount (cset ?S y) = int ((pins(?s := 1)) y + refs K ?S y)"
    if "y \<in> insert ?s (set (css_set_table S))" for y
    using that ok(10) [of y] fresh x(4) by (auto simp: refs_def ts thr)
  moreover have "y < next_cset ?S" if "y \<in> set (css_set_table ?S)" for y
    using that ok(7) by (auto simp: less_Suc_eq)
  ultimately have "csets_ok K (pins(?s := 1)) ?S"
    using ok(1-5) ok(6) fresh(1) unfolding csets_ok_def hier by auto
  then show ?thesis unfolding eq .
qed

text \<open>The css_set of the domain: the reference that was looked up becomes the one of the new css_set.\<close>

lemma set_dom_cset_ok:
  assumes "csets_ok K (pins(d := pins d + 1)) S" and "s \<in> set (css_set_table S)" and "d \<in> set (css_set_table S)"
    and "dom_cset (cset S s) = s" and "dfl_cgrp (cset S d) < dfl_cgrp (cset S s)"
  shows "csets_ok K pins (upd_cset s (\<lambda>x. x\<lparr>dom_cset := d\<rparr>) S)"
proof -
  let ?S = "upd_cset s (\<lambda>x. x\<lparr>dom_cset := d\<rparr>) S"
  note ok = csets_okD [OF assms(1)]
  have "d \<noteq> s" using assms(5) by auto
  have S: "?S = S\<lparr>cset := (cset S)(s := (cset S s)\<lparr>dom_cset := d\<rparr>)\<rparr>" by (simp add: upd_cset_def)
  have thr: "threaded_csets ?S y = (if y = d then insert s (threaded_csets S d) else threaded_csets S y)" for y
    using assms(2,4) \<open>d \<noteq> s\<close> by (auto simp: threaded_csets_def S)
  have ts: "tasks_of K ?S y = tasks_of K S y" for y by (simp add: tasks_of_def S)
  have hier: "hierarchies ?S = hierarchies S" by (simp add: hierarchies_def S)
  have "s \<notin> threaded_csets S d" using assms(4) \<open>d \<noteq> s\<close> by (auto simp: threaded_csets_def)
  then have count: "refs K ?S y = refs K S y + (if y = d then 1 else 0)" for y by (simp add: refs_def ts thr)
  have "cset_wf ?S y" if "y \<in> set (css_set_table S)" for y
    using ok(8) [OF that] assms(3,5) unfolding cset_wf_def hier by (auto simp: S)
  moreover have "lists_ok K ?S y" if "y \<in> set (css_set_table S)" for y
    using ok(9) [OF that] unfolding lists_ok_def ts by (auto simp: S all_tasks_def)
  moreover have "refcount (cset ?S y) = int (pins y + refs K ?S y)" if "y \<in> set (css_set_table S)" for y
    using ok(10) [OF that] unfolding count by (auto simp: S)
  ultimately show ?thesis
    using ok unfolding csets_ok_def hier by (auto simp: S)
qed

subsection \<open>The look-up\<close>

text \<open>A css_set that is new has no tasks, the others are as before but for references.\<close>

definition csets_grow :: "cgsys \<Rightarrow> cgsys \<Rightarrow> bool" where
  "csets_grow S S' \<longleftrightarrow> csets_only S S' \<and> next_cset S \<le> next_cset S'
     \<and> set (css_set_table S) \<subseteq> set (css_set_table S')
     \<and> (\<forall>x \<in> set (css_set_table S'). if x \<in> set (css_set_table S)
          then same_but_refs (cset S' x) (cset S x) else next_cset S \<le> x \<and> idle_cset (cset S' x))"

lemma csets_grow_refl [simp]: "csets_grow S S"
  by (simp add: csets_grow_def)

lemma idle_same: "same_but_refs x y \<Longrightarrow> idle_cset x = idle_cset y"
  by (simp add: idle_cset_def all_tasks_def same_but_refsD)

lemma csets_grow_trans:
  assumes "csets_grow S S'" and "csets_grow S' S''" and "csets_ok K pins S"
  shows "csets_grow S S''"
proof -
  have "if x \<in> set (css_set_table S) then same_but_refs (cset S'' x) (cset S x)
    else next_cset S \<le> x \<and> idle_cset (cset S'' x)" if "x \<in> set (css_set_table S'')" for x
    using assms(1,2) that idle_same [of "cset S'' x" "cset S' x"]
    unfolding csets_grow_def by (metis same_but_refs_trans order_trans subsetD)
  then show ?thesis using assms(1,2) csets_only_trans unfolding csets_grow_def by (metis order_trans)
qed

lemma csets_grow_put:
  assumes "csets_grow S S'" and "put_ok K pins S' S''" and "set (css_set_table S) \<subseteq> set (css_set_table S'')"
  shows "csets_grow S S''"
proof -
  have "if x \<in> set (css_set_table S) then same_but_refs (cset S'' x) (cset S x)
    else next_cset S \<le> x \<and> idle_cset (cset S'' x)" if "x \<in> set (css_set_table S'')" for x
    using assms(1,2) that idle_same [of "cset S'' x" "cset S' x"]
    unfolding csets_grow_def put_ok_def by (metis same_but_refs_trans subsetD)
  then show ?thesis using assms csets_only_trans unfolding csets_grow_def put_ok_def by metis
qed

definition find_ok ::
    "nat set \<Rightarrow> (nat \<Rightarrow> nat) \<Rightarrow> subsystems \<Rightarrow> nat \<Rightarrow> nat \<Rightarrow> cgsys \<Rightarrow> nat option \<times> cgsys \<Rightarrow> bool" where
  "find_ok K pins P old c S res \<longleftrightarrow> csets_grow S (snd res)
     \<and> (case fst res of None \<Rightarrow> csets_ok K pins (snd res)
        | Some s \<Rightarrow> csets_ok K (pins(s := pins s + 1)) (snd res) \<and> found_ok P old c S s (snd res))"

lemma csets_ok_rest [simp]: "csets_ok K pins (S\<lparr>asked := k\<rparr>) = csets_ok K pins S"
  "csets_ok K pins (S\<lparr>cg_crashed := cr\<rparr>) = csets_ok K pins S"
  by (simp_all add: csets_ok_def cset_wf_def hierarchies_def lists_ok_def tasks_of_def refs_def threaded_csets_def)

lemma csets_grow_rest [simp]: "csets_grow S (S\<lparr>asked := k\<rparr>)" "csets_grow S (S\<lparr>cg_crashed := cr\<rparr>)"
proof -
  have "csets_only S (S\<lparr>asked := k\<rparr>)" "csets_only S (S\<lparr>cg_crashed := cr\<rparr>)"
    by (rule csets_onlyI, simp)+
  then show "csets_grow S (S\<lparr>asked := k\<rparr>)" "csets_grow S (S\<lparr>cg_crashed := cr\<rparr>)"
    by (simp_all add: csets_grow_def)
qed

lemma allocate_links_asked: "\<exists>k. snd (allocate_cgrp_cset_links n S) = S\<lparr>asked := k\<rparr>"
proof (induction n S rule: allocate_cgrp_cset_links.induct)
  case (1 S)
  then show ?case by (intro exI [of _ "asked S"]) simp
next
  case (2 n S)
  then show ?case by (auto simp: ask_def Let_def)
qed

lemma domains_ok_only: "csets_only S S' \<Longrightarrow> domains_ok S' = domains_ok S"
  by (simp add: domains_ok_def cgroup_is_threaded_def csets_onlyD)

lemma get_css_set_grow [simp]: "csets_grow S (get_css_set s S)"
proof -
  have "csets_only S (get_css_set s S)"
    by (rule csets_onlyI) (simp add: get_css_set_def upd_cset_def)
  then show ?thesis by (auto simp: csets_grow_def get_css_set_def upd_cset_def same_but_refs_def)
qed

lemma get_css_set_rest [simp]: "css_set_table (get_css_set s S) = css_set_table S" "cgroups (get_css_set s S) = cgroups S"
  by (simp_all add: get_css_set_def upd_cset_def)

lemma get_css_set_same [simp]: "same_but_refs (cset (get_css_set s S) x) (cset S x)"
  by (simp add: get_css_set_def upd_cset_def same_but_refs_def)

lemma found_ok_same:
  assumes "found_ok P old c S s S'" and "s \<in> set (css_set_table S'')"
    and "\<And>x. same_but_refs (cset S'' x) (cset S' x)"
  shows "found_ok P old c S s S''"
  using assms by (simp add: found_ok_def same_but_refsD [OF assms(3)])

text \<open>A css_set that is not threaded leaves alone.\<close>

lemma put_css_set_alone:
  "\<not> css_set_threaded S s \<Longrightarrow> set (css_set_table S) - {s} \<subseteq> set (css_set_table (put_css_set s S))"
  unfolding put_css_set.simps [of s] Let_def by (auto simp: css_set_threaded_def upd_cset_def)

lemma create_css_set_grow:
  assumes "csets_ok K pins S" and "old \<in> set (css_set_table S)" and "c \<in> set (tcss (ftree S))"
  shows "csets_grow S (create_css_set P old c S)"
    and "next_cset S \<in> set (css_set_table (create_css_set P old c S))"
    and "next_cset (create_css_set P old c S) = Suc (next_cset S)"
    and "cgrp_links (cset (create_css_set P old c S) (next_cset S)) = new_links S old c"
    and "dfl_cgrp (cset (create_css_set P old c S) (next_cset S)) = cset_target S old c"
    and "dom_cset (cset (create_css_set P old c S) (next_cset S)) = next_cset S"
    and "cset_subsys (cset (create_css_set P old c S) (next_cset S)) = css_template P S old c"
proof -
  obtain cr where eq: "create_css_set P old c S = S\<lparr>cset := (cset S)(next_cset S := (new_css_set (next_cset S)
       (css_template P S old c))\<lparr>cgrp_links := new_links S old c, dfl_cgrp := cset_target S old c\<rparr>),
     next_cset := Suc (next_cset S), css_set_table := next_cset S # css_set_table S, cg_crashed := cr\<rparr>"
    by (rule create_css_set_eq [OF assms])
  have fresh: "next_cset S \<notin> set (css_set_table S)" using csets_okD(7) [OF assms(1)] by blast
  have "csets_only S (create_css_set P old c S)" unfolding eq by (rule csets_onlyI) simp
  then show "csets_grow S (create_css_set P old c S)"
    using fresh unfolding csets_grow_def eq
    by (auto simp: idle_cset_def all_tasks_def new_css_set_def)
qed (use create_css_set_eq [OF assms, of P] in \<open>force simp: new_css_set_def\<close>)+

lemma found_ok_new:
  assumes "cgrp_links (cset S' s) = new_links S old c" and "dfl_cgrp (cset S' s) = cset_target S old c"
    and "cset_subsys (cset S' s) = css_template P S old c" and "s \<in> set (css_set_table S')"
    and "dfl_cgrp (cset S' (dom_cset (cset S' s))) = dom_cgrp (cgroups S (cset_target S old c))"
  shows "found_ok P old c S s S'"
  using assms by (simp add: found_ok_def same_subsys_def list_all_iff)

lemma found_ok_asked [simp]: "found_ok P old c (S\<lparr>asked := k\<rparr>) = found_ok P old c S"
proof -
  have e: "cgroup_e_css_by_mask P (S\<lparr>asked := k\<rparr>) d i = cgroup_e_css_by_mask P S d i" for d i
    by (induction d rule: less_induct)
      (simp add: cgroup_e_css_by_mask.simps [of P "S\<lparr>asked := k\<rparr>"] cgroup_e_css_by_mask.simps [of P S]
        cgroup_ss_mask_def cgroup_parent_def cgroup_css_def cgroup_is_threaded_def split: option.splits)
  have "css_template P (S\<lparr>asked := k\<rparr>) old c = css_template P S old c"
    by (auto simp: css_template_def e)
  then show ?thesis
    by (intro ext) (simp add: found_ok_def new_links_def cset_target_def cgroup_on_dfl_def)
qed

lemma find_css_set_ok:
  assumes "csets_ok K pins S" and "domains_ok S" and "old \<in> set (css_set_table S)" and "c \<in> set (tcss (ftree S))"
    and "0 < pins init_css_set" and "\<forall>x \<ge> next_cset S. pins x = 0"
  shows "find_ok K pins P old c S (find_css_set P old c S)"
  using assms
proof (induction "cset_target S old c" arbitrary: S old c pins rule: less_induct)
  case less
  note prems = less.prems
  show ?case
  proof (cases "find_existing_css_set P S old c")
    case None
    then show ?thesis using prems by (simp add: find_css_set.simps [of P old c S] find_ok_def)
  next
    case (Some res)
    show ?thesis
    proof (cases res)
      case there: (Some s)
      have f: "found_ok P old c S s S" using Some there by (intro find_existing_ok [OF prems(1,3,4)]) simp
      have "found_ok P old c S s (get_css_set s S)"
        using f by (intro found_ok_same [OF f]) (simp_all add: found_ok_def)
      then show ?thesis
        using Some there get_css_set_ok [OF prems(1)]
        by (simp add: find_css_set.simps [of P old c S] find_ok_def)
    next
      case new: None
      obtain b k where alloc: "allocate_cgrp_cset_links (cgroup_root_count S) (S\<lparr>asked := asked S + 1\<rparr>)
          = (b, S\<lparr>asked := k\<rparr>)"
        using allocate_links_asked [of "cgroup_root_count S" "S\<lparr>asked := asked S + 1\<rparr>"]
        by (cases "allocate_cgrp_cset_links (cgroup_root_count S) (S\<lparr>asked := asked S + 1\<rparr>)") auto
      let ?S = "S\<lparr>asked := k\<rparr>" and ?s = "next_cset S"
      let ?C = "create_css_set P old c ?S" and ?t = "cset_target S old c"
      show ?thesis
      proof (cases "answers S (asked S) = 0 \<and> b")
        case False
        then show ?thesis using Some new alloc prems(1)
          by (auto simp: find_css_set.simps [of P old c S] find_ok_def ask_def Let_def)
      next
        case True
        have ok: "csets_ok K pins ?S" and in_S: "old \<in> set (css_set_table ?S)" "c \<in> set (tcss (ftree ?S))"
          using prems by simp_all
        note C = create_css_set_grow [OF ok in_S, of P, simplified] and okC = create_css_set_ok [OF ok in_S, of P, simplified]
        have pins_s: "pins ?s = 0" using prems(6) by simp
        then have okC: "csets_ok K (pins(?s := pins ?s + 1)) ?C" using okC by simp
        have target: "cset_target ?S old c = ?t" "new_links ?S old c = new_links S old c"
          by (simp_all add: cset_target_def new_links_def cgroup_on_dfl_def)
        have growC: "csets_grow S ?C" using csets_grow_trans [OF csets_grow_rest(1) C(1) prems(1)] .
        then have only: "csets_only S ?C" by (simp add: csets_grow_def)
        note onlyD = csets_onlyD [OF only]
        let ?d = "dom_cgrp (cgroups S ?t)"
        have eq: "find_css_set P old c S = (if \<not> cgroup_is_threaded ?C (dfl_cgrp (cset ?C ?s)) then (Some ?s, ?C)
            else if dom_cgrp (cgroups ?C (dfl_cgrp (cset ?C ?s))) < ?t
              \<and> cgroup_on_dfl ?C (dom_cgrp (cgroups ?C (dfl_cgrp (cset ?C ?s))))
            then (case find_css_set P ?s (dom_cgrp (cgroups ?C (dfl_cgrp (cset ?C ?s)))) ?C of
                (None, S) \<Rightarrow> (None, put_css_set ?s S)
              | (Some dcset, S) \<Rightarrow> (Some ?s, upd_cset ?s (\<lambda>x. x\<lparr>dom_cset := dcset\<rparr>) S))
            else (None, ?C))"
          using Some new True alloc unfolding find_css_set.simps [of P old c S]
          by (simp add: ask_def Let_def split: prod.split option.split)
        have dfl: "dfl_cgrp (cset ?C ?s) = ?t" using C(5) target by simp
        note eq = eq [unfolded dfl]
        have thr: "cgroup_is_threaded ?C ?t = cgroup_is_threaded S ?t" "dom_cgrp (cgroups ?C ?t) = ?d"
          "cgroup_on_dfl ?C ?d = cgroup_on_dfl S ?d"
          by (simp_all add: cgroup_is_threaded_def cgroup_on_dfl_def onlyD)
        have found: "found_ok P old c S ?s S'" if "same_but_refs ((cset S' ?s)\<lparr>dom_cset := ?s\<rparr>) (cset ?C ?s)"
          "?s \<in> set (css_set_table S')" "dfl_cgrp (cset S' (dom_cset (cset S' ?s))) = ?d" for S'
        proof -
          have "found_ok P old c ?S ?s S'"
            using that C(4,5,7) target same_but_refsD [OF that(1)] by (intro found_ok_new) simp_all
          then show ?thesis by simp
        qed
        show ?thesis
        proof (cases "cgroup_is_threaded S ?t")
          case False
          then have "found_ok P old c S ?s ?C"
            using C(2,5,6) target by (intro found) (simp_all add: cgroup_is_threaded_def same_but_refs_def)
          then show ?thesis using False eq growC okC by (simp add: thr find_ok_def)
        next
          case True
          have "?t \<in> set (tcss (ftree S))"
            using new_links_ok(2,4) [OF prems(1,3,4)] by blast
          then have d: "?d < ?t" "cgroup_on_dfl S ?d" "?d \<in> set (tcss (ftree S))"
            using prems(2) True by (auto simp: domains_ok_def cgroup_on_dfl_def)
          let ?r = "find_css_set P ?s ?d ?C"
          have target_d: "cset_target ?C ?s ?d = ?d" using d(2) by (simp add: cset_target_def cgroup_on_dfl_def onlyD)
          have IH: "find_ok K (pins(?s := pins ?s + 1)) P ?s ?d ?C ?r"
          proof (rule less.hyps)
            show "cset_target ?C ?s ?d < ?t" using target_d d(1) by simp
            show "0 < (pins(?s := pins ?s + 1)) init_css_set" using prems(5) by simp
            show "\<forall>x \<ge> next_cset ?C. (pins(?s := pins ?s + 1)) x = 0" using prems(6) C(3) by simp
          qed (use okC C(2) d(3) prems(2) domains_ok_only [OF only] in \<open>simp_all add: onlyD\<close>)
          have eq: "find_css_set P old c S = (case ?r of (None, S) \<Rightarrow> (None, put_css_set ?s S)
              | (Some dcset, S) \<Rightarrow> (Some ?s, upd_cset ?s (\<lambda>x. x\<lparr>dom_cset := dcset\<rparr>) S))"
            using eq True d thr by simp
          obtain r S' where r: "?r = (r, S')" by (cases ?r)
          have grow: "csets_grow ?C S'" using IH r by (simp add: find_ok_def)
          have grow': "csets_grow S S'" by (rule csets_grow_trans [OF growC grow prems(1)])
          have s': "?s \<in> set (css_set_table S')" "same_but_refs (cset S' ?s) (cset ?C ?s)"
            using grow C(2) by (auto simp: csets_grow_def)
          have fresh: "?s \<notin> set (css_set_table S)" using csets_okD(7) [OF prems(1)] by blast
          show ?thesis
          proof (cases r)
            case None
            have "csets_ok K (pins(?s := pins ?s + 1)) S'" using IH r None by (simp add: find_ok_def)
            note put = put_css_set_ok [OF this s'(1) prems(5)]
            have "\<not> css_set_threaded S' ?s" using s'(2) C(6) by (simp add: css_set_threaded_def same_but_refsD)
            note alone = put_css_set_alone [OF this]
            have "csets_grow S (put_css_set ?s S')"
              using grow' alone fresh by (intro csets_grow_put [OF grow' put]) (auto simp: csets_grow_def)
            then show ?thesis using eq r None put by (simp add: find_ok_def put_ok_def)
          next
            case (Some dc)
            let ?U = "upd_cset ?s (\<lambda>x. x\<lparr>dom_cset := dc\<rparr>) S'"
            have okd: "csets_ok K ((pins(?s := pins ?s + 1))(dc := (pins(?s := pins ?s + 1)) dc + 1)) S'"
              and f: "found_ok P ?s ?d ?C dc S'" using IH r Some by (simp_all add: find_ok_def)
            have dfl_dc: "dfl_cgrp (cset S' dc) = ?d" using f target_d by (simp add: found_ok_def)
            have dfl_s: "dfl_cgrp (cset S' ?s) = ?t" using s'(2) C(5) target by (simp add: same_but_refsD)
            have "dc \<noteq> ?s" using dfl_dc dfl_s d(1) by auto
            have "csets_ok K (pins(?s := pins ?s + 1)) ?U"
              using s' C(6) f dfl_dc dfl_s d(1)
              by (intro set_dom_cset_ok [OF okd]) (simp_all add: found_ok_def same_but_refsD)
            moreover have "csets_grow S ?U"
            proof -
              have "csets_only S' ?U"
                by (rule csets_onlyI) (simp add: get_css_set_def upd_cset_def)
              then have "csets_only S ?U" using grow' csets_only_trans unfolding csets_grow_def by blast
              moreover have "idle_cset (cset ?U ?s)"
                using grow' s'(1) fresh by (auto simp: csets_grow_def upd_cset_def idle_cset_def all_tasks_def)
              ultimately show ?thesis
                using grow' fresh unfolding csets_grow_def by (auto simp: upd_cset_def)
            qed
            moreover have same_dom: "(cset S' ?s)\<lparr>dom_cset := ?s\<rparr> = cset S' ?s"
              using same_but_refsD(4) [OF s'(2)] C(6) by (cases "cset S' ?s") simp
            moreover have "found_ok P old c S ?s ?U"
            proof (rule found)
              show "same_but_refs ((cset ?U ?s)\<lparr>dom_cset := ?s\<rparr>) (cset ?C ?s)"
                using s'(2) same_dom by (simp add: upd_cset_def)
            qed (use s' dfl_dc \<open>dc \<noteq> ?s\<close> in \<open>simp_all add: upd_cset_def\<close>)
            ultimately show ?thesis using eq r Some by (simp add: find_ok_def)
          qed
        qed
      qed
    qed
  qed
qed

end
