(* ===== verification/Migrate_Correct.thy ===== *)
theory Migrate_Correct
  imports Migrate CssSet_Find
begin

section \<open>Migration keeps the references and the counters\<close>

text \<open>
  Between two operations every reference to a css_set is counted, and every counter of populated
  cgroups is the number that its comment says.  A migration keeps both, whatever fails.
\<close>

subsection \<open>The invariant\<close>

definition counted :: "(nat \<Rightarrow> bool) \<Rightarrow> cgsys \<Rightarrow> bool" where
  "counted pop S \<longleftrightarrow> kids_counted S \<and> csets_counted pop S"

definition tasks_counted :: "cgsys \<Rightarrow> nat \<Rightarrow> bool" where
  "tasks_counted S s \<longleftrightarrow> nr_tasks (cset S s) = int (length (cset_tasks (cset S s) @ mg_tasks (cset S s)))
     \<and> list_all (exiting S) (dying_tasks (cset S s))"

definition core_ok :: "nat set \<Rightarrow> (nat \<Rightarrow> nat) \<Rightarrow> cgsys \<Rightarrow> bool" where
  "core_ok K pins S \<longleftrightarrow> csets_ok K pins S \<and> domains_ok S \<and> counted (css_set_populated S) S
     \<and> (\<forall>s \<in> set (css_set_table S). tasks_counted S s)
     \<and> 0 < pins init_css_set \<and> (\<forall>s. 0 < pins s \<longrightarrow> s \<in> set (css_set_table S))"

lemma core_okD:
  assumes "core_ok K pins S"
  shows "csets_ok K pins S" and "domains_ok S" and "counted (css_set_populated S) S"
    and "\<And>s. s \<in> set (css_set_table S) \<Longrightarrow> tasks_counted S s"
    and "0 < pins init_css_set" and "\<And>s. 0 < pins s \<Longrightarrow> s \<in> set (css_set_table S)"
  using assms unfolding core_ok_def by blast+

lemma pins_new: "core_ok K pins S \<Longrightarrow> \<forall>x \<ge> next_cset S. pins x = 0"
  using core_okD(1,6) csets_okD(7) by (metis leD neq0_conv)

subsection \<open>css_sets that come and go\<close>

lemma counted_kept:
  assumes "counted (css_set_populated S) S" and "ftree S' = ftree S" and "cgroups S' = cgroups S"
    and "\<And>x. x \<in> set (css_set_table S') \<Longrightarrow> css_set_populated S' x \<Longrightarrow>
      x \<in> set (css_set_table S) \<and> css_set_populated S x \<and> cgrp_links (cset S' x) = cgrp_links (cset S x)"
    and "\<And>x. x \<in> set (css_set_table S) \<Longrightarrow> css_set_populated S x \<Longrightarrow>
      x \<in> set (css_set_table S') \<and> css_set_populated S' x"
  shows "counted (css_set_populated S') S'"
proof -
  have "csets_of (css_set_populated S') S' c = csets_of (css_set_populated S) S c" for c
    using assms(4,5) unfolding csets_of_def by auto
  moreover have "populated_kids S' c th = populated_kids S c th" for c th
    by (simp add: populated_kids_def assms(2,3) cgroup_is_threaded_def)
  ultimately show ?thesis
    using assms(1) by (simp add: counted_def csets_counted_def kids_counted_def assms(3))
qed

lemma populated_same: "same_but_refs (cset S' x) (cset S x) \<Longrightarrow> css_set_populated S' x = css_set_populated S x"
  by (simp add: css_set_populated_def same_but_refsD)

lemma core_ok_grow:
  assumes "core_ok K pins S" and "csets_grow S S'" and "csets_ok K pins' S'"
    and "0 < pins' init_css_set" and "\<And>s. 0 < pins' s \<Longrightarrow> s \<in> set (css_set_table S')"
  shows "core_ok K pins' S'"
proof -
  note ok = core_okD [OF assms(1)]
  have only: "csets_only S S'" using assms(2) by (simp add: csets_grow_def)
  have kept: "x \<in> set (css_set_table S') \<and> same_but_refs (cset S' x) (cset S x)" if "x \<in> set (css_set_table S)" for x
    using assms(2) that by (auto simp: csets_grow_def)
  have new: "idle_cset (cset S' x)" if "x \<in> set (css_set_table S')" "x \<notin> set (css_set_table S)" for x
    using assms(2) that by (auto simp: csets_grow_def)
  have "counted (css_set_populated S') S'"
  proof (rule counted_kept [OF ok(3)])
    fix x assume x: "x \<in> set (css_set_table S')" "css_set_populated S' x"
    then have "x \<in> set (css_set_table S)"
      using new by (force simp: css_set_populated_def idle_cset_def all_tasks_def)
    then show "x \<in> set (css_set_table S) \<and> css_set_populated S x \<and> cgrp_links (cset S' x) = cgrp_links (cset S x)"
      using kept x(2) populated_same same_but_refsD(2) by metis
  qed (use kept populated_same only in \<open>auto simp: csets_onlyD\<close>)
  moreover have "tasks_counted S' x" if "x \<in> set (css_set_table S')" for x
    using that new ok(4) same_but_refsD [of "cset S' x" "cset S x"] kept
    by (cases "x \<in> set (css_set_table S)") (auto simp: tasks_counted_def idle_cset_def all_tasks_def csets_onlyD [OF only])
  ultimately show ?thesis
    using assms(3-5) ok(2) domains_ok_only [OF only] by (simp add: core_ok_def)
qed

lemma core_ok_put:
  assumes "core_ok K (pins(s := pins s + 1)) S" and "s \<in> set (css_set_table S)" and "0 < pins init_css_set"
  shows "core_ok K pins (put_css_set s S)" and "put_ok K pins S (put_css_set s S)"
proof -
  note ok = core_okD [OF assms(1)]
  let ?S = "put_css_set s S"
  show put: "put_ok K pins S ?S" by (rule put_css_set_ok [OF ok(1) assms(2,3)])
  then have only: "csets_only S ?S" by (simp add: put_ok_def)
  have same: "same_but_refs (cset ?S x) (cset S x)" for x using put by (simp add: put_ok_def)
  have gone: "pins x = 0 \<and> tasks_of K S x = {}" if "x \<in> set (css_set_table S)" "x \<notin> set (css_set_table ?S)" for x
    using put that by (simp add: put_ok_def)
  have "counted (css_set_populated ?S) ?S"
  proof (rule counted_kept [OF ok(3)])
    fix x assume x: "x \<in> set (css_set_table S)" "css_set_populated S x"
    then have "tasks_of K S x \<noteq> {}"
      using csets_okD(9) [OF ok(1) x(1)] by (auto simp: lists_ok_def css_set_populated_def all_tasks_def)
    then show "x \<in> set (css_set_table ?S) \<and> css_set_populated ?S x"
      using gone x same populated_same by blast
  qed (use put same_but_refsD(2) [OF same] populated_same [OF same] only in \<open>auto simp: put_ok_def csets_onlyD\<close>)
  moreover have "tasks_counted ?S x" if "x \<in> set (css_set_table ?S)" for x
    using ok(4) [of x] that put same_but_refsD [OF same [of x]]
    by (auto simp: tasks_counted_def csets_onlyD [OF only] put_ok_def)
  moreover have "x \<in> set (css_set_table ?S)" if "0 < pins x" for x
    using ok(6) [of x] gone [of x] that by (auto split: if_splits)
  ultimately show "core_ok K pins ?S"
    using assms(3) put ok(2) domains_ok_only [OF only] by (simp add: core_ok_def put_ok_def)
qed

subsection \<open>A task that moves\<close>

lemma counted_lists:
  assumes "\<And>x. cgrp_links (g x) = cgrp_links (cset S x)"
  shows "counted pop (S\<lparr>cset := g, task_css_set := tc\<rparr>) = counted pop S"
proof -
  have "csets_of pop (S\<lparr>cset := g, task_css_set := tc\<rparr>) c = csets_of pop S c" for c
    by (simp add: csets_of_def assms)
  moreover have "populated_kids (S\<lparr>cset := g, task_css_set := tc\<rparr>) c th = populated_kids S c th" for c th
    by (simp add: populated_kids_def cgroup_is_threaded_def)
  ultimately show ?thesis by (simp add: counted_def csets_counted_def kids_counted_def)
qed

definition raise_populated :: "nat \<Rightarrow> cgsys \<Rightarrow> cgsys" where
  "raise_populated to S = (if \<not> css_set_populated S to then css_set_update_populated to True S else S)"

definition lower_populated :: "nat \<Rightarrow> cgsys \<Rightarrow> cgsys" where
  "lower_populated from S = (if \<not> css_set_populated S from then css_set_update_populated from False S else S)"

lemma raise_counted:
  assumes "css_tree_ok (ftree S)" and "links_ok S to" and "to \<in> set (css_set_table S)" and "counted pop S"
    and "pop to = css_set_populated S to"
  shows "counts_only S (raise_populated to S) \<and> counted (pop(to := True)) (raise_populated to S)"
proof (cases "css_set_populated S to")
  case True
  then have "pop(to := True) = pop" using assms(5) by (intro fun_upd_idem) simp
  then show ?thesis using True assms(4) by (simp add: raise_populated_def)
next
  case False
  then show ?thesis using update_csets_counted [OF assms(1-3), of pop True] assms(4,5)
    by (simp add: raise_populated_def counted_def)
qed

lemma lower_counted:
  assumes "css_tree_ok (ftree S)" and "links_ok S s" and "s \<in> set (css_set_table S)" and "counted pop S" and "pop s"
  shows "counts_only S (lower_populated s S) \<and> counted (pop(s := css_set_populated S s)) (lower_populated s S)"
proof (cases "css_set_populated S s")
  case True
  then have "pop(s := True) = pop" using assms(5) by (intro fun_upd_idem) simp
  then show ?thesis using True assms(4) by (simp add: lower_populated_def)
next
  case False
  then show ?thesis using update_csets_counted [OF assms(1-3), of pop False] assms(4,5)
    by (simp add: lower_populated_def counted_def)
qed

text \<open>The references after tasks, lists and counts have changed.\<close>

lemma csets_ok_lists:
  assumes "csets_ok K pins S" and "finite K'"
    and frame: "\<And>x. cgrp_links (g x) = cgrp_links (cset S x) \<and> dfl_cgrp (g x) = dfl_cgrp (cset S x)
      \<and> dom_cset (g x) = dom_cset (cset S x)"
    and "\<And>t. t \<in> K' \<Longrightarrow> tc t \<in> set (css_set_table S)"
    and "\<And>s. s \<in> set (css_set_table S) \<Longrightarrow> distinct (all_tasks (g s)) \<and> set (all_tasks (g s)) \<subseteq> {t \<in> K'. tc t = s}"
    and "\<And>s. s \<in> set (css_set_table S) \<Longrightarrow>
      refcount (g s) = int (pins' s + card {t \<in> K'. tc t = s}) + int (card (threaded_csets S s))"
  shows "csets_ok K' pins' (S\<lparr>cset := g, task_css_set := tc, cgroups := f, cgcalls := e\<rparr>)" (is "csets_ok _ _ ?S")
proof -
  note ok = csets_okD [OF assms(1)]
  have hier: "hierarchies ?S = hierarchies S" by (simp add: hierarchies_def frame)
  have ts: "tasks_of K' ?S s = {t \<in> K'. tc t = s}" for s by (simp add: tasks_of_def)
  have th: "threaded_csets ?S s = threaded_csets S s" for s by (simp add: threaded_csets_def frame)
  have "cset_wf ?S s = cset_wf S s" for s unfolding cset_wf_def hier by (simp add: frame)
  then show ?thesis
    using ok assms(2,4-6) unfolding csets_ok_def hier lists_ok_def ts refs_def th by simp
qed

text \<open>What the counting does to the rest of a state that has changed beside it.\<close>

lemma counts_onlyE:
  assumes "counts_only S S'"
  obtains f e where "S' = S\<lparr>cgroups := f, cgcalls := e\<rparr>" and "\<And>c. uncounted (f c) = uncounted (cgroups S c)"
proof -
  note two = assms [unfolded counts_only_def]
  obtain f e where eq: "S' = S\<lparr>cgroups := f, cgcalls := e\<rparr>" using conjunct1 [OF two] by (elim exE)
  have f: "cgroups S' = f" by (subst eq) simp
  show thesis by (rule that [OF eq]) (use conjunct2 [OF two] in \<open>simp add: f\<close>)
qed

lemma domains_ok_counts:
  assumes "\<And>c. uncounted (f c) = uncounted (cgroups S c)"
  shows "domains_ok (S\<lparr>cset := g, task_css_set := tc, cgroups := f, cgcalls := e\<rparr>) = domains_ok S"
proof -
  have "dom_cgrp (f c) = dom_cgrp (cgroups S c)" for c using uncounted_eqD(4) [OF assms] .
  then show ?thesis by (simp add: domains_ok_def cgroup_is_threaded_def)
qed

definition moved :: "nat \<Rightarrow> nat \<Rightarrow> nat \<Rightarrow> cgsys \<Rightarrow> nat \<Rightarrow> css_set" where
  "moved t from to S = (cset S)
     (from := (unlist_task t (cset S from))\<lparr>nr_tasks := nr_tasks (cset S from) - 1\<rparr>,
      to := (cset S to)\<lparr>refcount := refcount (cset S to) + 1, nr_tasks := nr_tasks (cset S to) + 1,
        mg_tasks := mg_tasks (cset S to) @ [t]\<rparr>)"

lemma move_populated:
  assumes "css_tree_ok (ftree S)" and "links_ok S from" and "links_ok S to" and "from \<in> set (css_set_table S)"
    and "to \<in> set (css_set_table S)" and "from \<noteq> to" and "counted (css_set_populated S) S"
    and "t \<in> set (cset_tasks (cset S from)) \<union> set (mg_tasks (cset S from))"
  obtains f e where "css_set_move_task t (Some from) (Some to) True S = S\<lparr>cset := (cset S)
      (from := unlist_task t (cset S from), to := (cset S to)\<lparr>mg_tasks := mg_tasks (cset S to) @ [t]\<rparr>),
      task_css_set := (task_css_set S)(t := to), cgroups := f, cgcalls := e\<rparr>"
    and "\<And>c. uncounted (f c) = uncounted (cgroups S c)"
    and "counted (css_set_populated (css_set_move_task t (Some from) (Some to) True S))
      (css_set_move_task t (Some from) (Some to) True S)"
proof -
  let ?S1 = "raise_populated to S" and ?pop = "css_set_populated S"
  let ?S2 = "upd_cset from (unlist_task t) ?S1"
  let ?S3 = "lower_populated from ?S2"
  let ?S4 = "upd_cset to (\<lambda>x. x\<lparr>mg_tasks := mg_tasks x @ [t]\<rparr>) (?S3\<lparr>task_css_set := (task_css_set ?S3)(t := to)\<rparr>)"
  have eq: "css_set_move_task t (Some from) (Some to) True S = ?S4"
    by (simp add: css_set_move_task_def raise_populated_def lower_populated_def Let_def)
  have 1: "counts_only S ?S1" "counted (?pop(to := True)) ?S1"
    using raise_counted [OF assms(1,3,5,7)] by simp_all
  note D1 = counts_onlyD [OF 1(1)]
  have 2: "counted (?pop(to := True)) ?S2"
  proof -
    have "?S2 = ?S1\<lparr>cset := (cset ?S1)(from := unlist_task t (cset ?S1 from)), task_css_set := task_css_set ?S1\<rparr>"
      by (simp add: upd_cset_def)
    moreover have "counted (?pop(to := True)) (?S1\<lparr>cset := (cset ?S1)(from := unlist_task t (cset ?S1 from)),
        task_css_set := task_css_set ?S1\<rparr>)"
      using 1(2) by (subst counted_lists) (auto simp: unlist_task_def)
    ultimately show ?thesis by simp
  qed
  have rest2: "ftree ?S2 = ftree S" "css_set_table ?S2 = css_set_table S" "task_css_set ?S2 = task_css_set S"
    "cset ?S2 = (cset S)(from := unlist_task t (cset S from))"
    by (simp_all add: upd_cset_def D1)
  have links2: "links_ok ?S2 from"
    using assms(2) unfolding links_ok_def rest2 by (simp add: unlist_task_def)
  have "counts_only ?S2 ?S3 \<and> counted ((?pop(to := True))(from := css_set_populated ?S2 from)) ?S3"
  proof (rule lower_counted [OF _ links2 _ 2])
    show "(?pop(to := True)) from" using assms(8) by (auto simp: css_set_populated_def)
  qed (use assms(1,4) in \<open>simp_all add: rest2\<close>)
  then have 3: "counts_only ?S2 ?S3" "counted (?pop(to := True, from := css_set_populated ?S2 from)) ?S3" by simp_all
  note D3 = counts_onlyD [OF 3(1)]
  obtain f1 e1 where S1: "?S1 = S\<lparr>cgroups := f1, cgcalls := e1\<rparr>" "\<And>c. uncounted (f1 c) = uncounted (cgroups S c)"
    using counts_onlyE [OF 1(1)] by blast
  obtain f e where S3: "?S3 = ?S2\<lparr>cgroups := f, cgcalls := e\<rparr>" "\<And>c. uncounted (f c) = uncounted (cgroups ?S2 c)"
    using counts_onlyE [OF 3(1)] by blast
  have S3_eq: "?S3 = S\<lparr>cset := (cset S)(from := unlist_task t (cset S from)), cgroups := f, cgcalls := e\<rparr>"
    unfolding S3(1) by (subst S1(1)) (simp add: upd_cset_def S1(1))
  have final: "?S4 = S\<lparr>cset := (cset S)
      (from := unlist_task t (cset S from), to := (cset S to)\<lparr>mg_tasks := mg_tasks (cset S to) @ [t]\<rparr>),
      task_css_set := (task_css_set S)(t := to), cgroups := f, cgcalls := e\<rparr>"
    unfolding S3_eq using assms(6) by (simp add: upd_cset_def)
  have unc: "uncounted (f c) = uncounted (cgroups S c)" for c
    using S3(2) S1(2) unfolding upd_cset_def S1(1) by simp
  have "css_set_populated ?S4 = ?pop(to := True, from := css_set_populated ?S2 from)"
    using assms(6) unfolding final by (auto simp: fun_eq_iff css_set_populated_def rest2)
  moreover have "counted (?pop(to := True, from := css_set_populated ?S2 from)) ?S4"
  proof -
    let ?g = "(cset ?S3)(to := (cset ?S3 to)\<lparr>mg_tasks := mg_tasks (cset ?S3 to) @ [t]\<rparr>)"
      and ?tc = "(task_css_set ?S3)(t := to)"
    have "?S4 = ?S3\<lparr>cset := ?g, task_css_set := ?tc\<rparr>" by (simp add: upd_cset_def)
    moreover have "counted (?pop(to := True, from := css_set_populated ?S2 from)) (?S3\<lparr>cset := ?g, task_css_set := ?tc\<rparr>)"
      using 3(2) by (subst counted_lists) simp_all
    ultimately show ?thesis by simp
  qed
  ultimately have "counted (css_set_populated ?S4) ?S4" by simp
  then show ?thesis using that [of e f] final unc unfolding eq by simp
qed

subsection \<open>One task\<close>

text \<open>A css_set without its tasks and references.\<close>

definition shell :: "css_set \<Rightarrow> css_set" where
  "shell x = x\<lparr>cset_tasks := [], mg_tasks := [], dying_tasks := [], nr_tasks := 0, refcount := 0\<rparr>"

lemma shell_eqD:
  assumes "shell x = shell y"
  shows "cset_subsys x = cset_subsys y" "cgrp_links x = cgrp_links y" "dfl_cgrp x = dfl_cgrp y"
    "dom_cset x = dom_cset y" "cset_dead x = cset_dead y" "mg_src_cgrp x = mg_src_cgrp y"
    "mg_dst_cgrp x = mg_dst_cgrp y" "mg_dst_cset x = mg_dst_cset y"
  using assms unfolding shell_def
  by (auto dest: arg_cong [where f = cset_subsys] arg_cong [where f = cgrp_links] arg_cong [where f = dfl_cgrp]
      arg_cong [where f = dom_cset] arg_cong [where f = cset_dead] arg_cong [where f = mg_src_cgrp]
      arg_cong [where f = mg_dst_cgrp] arg_cong [where f = mg_dst_cset])

text \<open>What moves of tasks leave alone.\<close>

definition moves_only :: "cgsys \<Rightarrow> cgsys \<Rightarrow> bool" where
  "moves_only S S' \<longleftrightarrow> (\<exists>g tc f e k. S' = S\<lparr>cset := g, task_css_set := tc, cgroups := f, cgcalls := e, asked := k\<rparr>)
     \<and> (\<forall>c. uncounted (cgroups S' c) = uncounted (cgroups S c)) \<and> (\<forall>x. shell (cset S' x) = shell (cset S x))"

lemma moves_onlyI:
  assumes "S' = S\<lparr>cset := g, task_css_set := tc, cgroups := f, cgcalls := e, asked := k\<rparr>"
    and "\<And>c. uncounted (f c) = uncounted (cgroups S c)" and "\<And>x. shell (g x) = shell (cset S x)"
  shows "moves_only S S'"
  unfolding moves_only_def by (intro conjI exI, rule assms(1)) (use assms in simp_all)

lemma moves_only_refl [simp]: "moves_only S S"
  by (rule moves_onlyI [where g = "cset S" and tc = "task_css_set S" and f = "cgroups S" and e = "cgcalls S"
      and k = "asked S"]) simp_all

lemma moves_only_trans: "moves_only S S' \<Longrightarrow> moves_only S' S'' \<Longrightarrow> moves_only S S''"
  unfolding moves_only_def by (elim conjE exE) (intro conjI exI, auto)

lemma moves_onlyD:
  assumes "moves_only S S'"
  shows "ftree S' = ftree S" "root_of S' = root_of S" "subsys_mask S' = subsys_mask S" "css_obj S' = css_obj S"
    "next_css S' = next_css S" "css_set_table S' = css_set_table S" "next_cset S' = next_cset S"
    "cgroup_root_count S' = cgroup_root_count S" "exiting S' = exiting S" "thread_group S' = thread_group S"
    "answers S' = answers S" "cg_crashed S' = cg_crashed S"
    "uncounted (cgroups S' c) = uncounted (cgroups S c)" "shell (cset S' x) = shell (cset S x)"
  using assms by (auto simp: moves_only_def)

lemma get_nr_counted:
  assumes "counted (css_set_populated S) S"
  shows "counted (css_set_populated (upd_cset s (\<lambda>x. x\<lparr>nr_tasks := n x\<rparr>) (get_css_set s S)))
    (upd_cset s (\<lambda>x. x\<lparr>nr_tasks := n x\<rparr>) (get_css_set s S))"
  by (rule counted_kept [OF assms]) (auto simp: upd_cset_def get_css_set_def css_set_populated_def)

lemma unlisted_tasks: "set (all_tasks (unlist_task t x)) = set (all_tasks x) - {t}"
  "distinct (all_tasks x) \<Longrightarrow> distinct (all_tasks (unlist_task t x))"
  by (auto simp: all_tasks_def unlist_task_def distinct_removeAll)

lemma length_removeAll_once: "distinct xs \<Longrightarrow> t \<in> set xs \<Longrightarrow> Suc (length (removeAll t xs)) = length xs"
  by (induction xs) auto

text \<open>The state before the last reference of the move is given back.\<close>

lemma move_task_ok:
  assumes "core_ok K pins S" and "t \<in> K" and "task_css_set S t = from" and "to \<in> set (css_set_table S)"
    and "from \<noteq> to" and "t \<in> set (cset_tasks (cset S from)) \<union> set (mg_tasks (cset S from))"
    and "shell g_from = shell (cset S from)" and "all_tasks g_from = all_tasks (unlist_task t (cset S from))"
    and "refcount g_from = refcount (cset S from)"
    and "shell g_to = shell (cset S to)" and "all_tasks g_to = cset_tasks (cset S to) @ (mg_tasks (cset S to) @ [t]) @ dying_tasks (cset S to)"
    and "refcount g_to = refcount (cset S to) + 1"
  shows "csets_ok K (pins(from := pins from + 1)) (S\<lparr>cset := (cset S)(from := g_from, to := g_to),
    task_css_set := (task_css_set S)(t := to), cgroups := f, cgcalls := e\<rparr>)"
proof -
  note ok = csets_okD [OF core_okD(1) [OF assms(1)]]
  let ?g = "(cset S)(from := g_from, to := g_to)" and ?tc = "(task_css_set S)(t := to)"
  have src: "from \<in> set (css_set_table S)" using ok(6) [OF assms(2)] assms(3) by simp
  have ts: "{u \<in> K. ?tc u = s} = (if s = to then insert t (tasks_of K S to) else if s = from
      then tasks_of K S from - {t} else tasks_of K S s)" for s
    using assms(2,3,5) by (auto simp: tasks_of_def)
  have t_from: "t \<in> tasks_of K S from" "t \<notin> tasks_of K S to" using assms(2,3,5) by (auto simp: tasks_of_def)
  note fin = finite_tasks_of [OF ok(2), of S]
  show ?thesis
  proof (rule csets_ok_lists [OF core_okD(1) [OF assms(1)] ok(2)])
    fix s assume s: "s \<in> set (css_set_table S)"
    have lists: "distinct (all_tasks (cset S s))" "set (all_tasks (cset S s)) \<subseteq> tasks_of K S s"
      using ok(9) [OF s] by (simp_all add: lists_ok_def)
    have "t \<notin> set (all_tasks (cset S to))" using ok(9) [OF assms(4)] t_from by (auto simp: lists_ok_def)
    then have to: "set (all_tasks g_to) = insert t (set (all_tasks (cset S to)))"
      "distinct (all_tasks (cset S to)) \<Longrightarrow> distinct (all_tasks g_to)"
      unfolding assms(11) by (auto simp: all_tasks_def)
    note un = unlisted_tasks [where t = t and x = "cset S from", folded assms(8)]
    show "distinct (all_tasks (?g s)) \<and> set (all_tasks (?g s)) \<subseteq> {u \<in> K. ?tc u = s}"
    proof (cases "s = to")
      case True
      then show ?thesis using lists to assms(5) unfolding ts by auto
    next
      case False
      then show ?thesis using lists un assms(5) unfolding ts by (cases "s = from") auto
    qed
    show "refcount (?g s) = int ((pins(from := pins from + 1)) s + card {u \<in> K. ?tc u = s})
        + int (card (threaded_csets S s))"
      unfolding ts using ok(10) [OF s] assms(5,9,12) fin t_from card_Suc_Diff1 [OF fin t_from(1)]
      by (auto simp: refs_def)
  next
    show "cgrp_links (?g x) = cgrp_links (cset S x) \<and> dfl_cgrp (?g x) = dfl_cgrp (cset S x)
        \<and> dom_cset (?g x) = dom_cset (cset S x)" for x
      using shell_eqD(2-4) [OF assms(7)] shell_eqD(2-4) [OF assms(10)] by simp
  qed (use assms(4) ok(6) in simp)
qed

end
