(* ===== verification/Migrate_Attach.thy ===== *)
theory Migrate_Attach
  imports Migrate_Correct
begin

section \<open>Every step of a migration\<close>

subsection \<open>Moving one task\<close>

lemma put_pinned:
  assumes "csets_ok K (pins(s := pins s + 1)) S" and "s \<in> set (css_set_table S)" and "0 < pins s"
  shows "put_css_set s S = upd_cset s (\<lambda>x. x\<lparr>refcount := refcount x - 1\<rparr>) S"
  using csets_okD(10) [OF assms(1,2)] assms(3)
  unfolding put_css_set.simps [of s] Let_def by (simp add: upd_cset_def)

text \<open>Up to the last \<open>put_css_set\<close> of the loop.\<close>

definition move_up_to_put :: "nat \<Rightarrow> nat \<Rightarrow> nat \<Rightarrow> cgsys \<Rightarrow> cgsys" where
  "move_up_to_put t from to S =
     (let S = upd_cset to (\<lambda>x. x\<lparr>nr_tasks := nr_tasks x + 1\<rparr>) (get_css_set to S);
          S = upd_cset from (\<lambda>x. x\<lparr>nr_tasks := nr_tasks x - 1\<rparr>) (css_set_move_task t (Some from) (Some to) True S)
      in cgcall_to (freezer_migrate t (dfl_cgrp (cset S from)) (dfl_cgrp (cset S to))) S)"

lemma move_one_put:
  "task_css_set S t = from \<Longrightarrow> mg_dst_cset (cset S from) = Some to \<Longrightarrow>
    move_one t S = put_css_set from (move_up_to_put t from to S)"
  by (simp add: move_one_def move_up_to_put_def Let_def)

lemma move_up_to_put_eq:
  assumes "core_ok K pins S" and "from \<in> set (css_set_table S)" and "to \<in> set (css_set_table S)" and "from \<noteq> to"
    and "t \<in> set (cset_tasks (cset S from)) \<union> set (mg_tasks (cset S from))"
  obtains f e where "move_up_to_put t from to S = S\<lparr>cset := moved t from to S,
      task_css_set := (task_css_set S)(t := to), cgroups := f, cgcalls := e\<rparr>"
    and "\<And>c. uncounted (f c) = uncounted (cgroups S c)"
    and "counted (css_set_populated (move_up_to_put t from to S)) (move_up_to_put t from to S)"
proof -
  note ok = core_okD [OF assms(1)]
  let ?A = "upd_cset to (\<lambda>x. x\<lparr>nr_tasks := nr_tasks x + 1\<rparr>) (get_css_set to S)"
  have A: "?A = S\<lparr>cset := (cset S)(to := (cset S to)\<lparr>refcount := refcount (cset S to) + 1,
      nr_tasks := nr_tasks (cset S to) + 1\<rparr>)\<rparr>" by (simp add: upd_cset_def get_css_set_def)
  have links: "links_ok ?A x" if "x \<in> set (css_set_table S)" for x
    using links_ok_csets [OF ok(1) that] unfolding links_ok_def A by auto
  obtain f e where M: "css_set_move_task t (Some from) (Some to) True ?A = ?A\<lparr>cset := (cset ?A)
      (from := unlist_task t (cset ?A from), to := (cset ?A to)\<lparr>mg_tasks := mg_tasks (cset ?A to) @ [t]\<rparr>),
      task_css_set := (task_css_set ?A)(t := to), cgroups := f, cgcalls := e\<rparr>"
    and f: "\<And>c. uncounted (f c) = uncounted (cgroups ?A c)"
    and cnt: "counted (css_set_populated (css_set_move_task t (Some from) (Some to) True ?A))
      (css_set_move_task t (Some from) (Some to) True ?A)"
  proof (rule move_populated [of ?A "from" to t])
    show "counted (css_set_populated ?A) ?A" by (rule get_nr_counted [OF ok(3)])
  qed (use assms links csets_okD(1) [OF ok(1)] in \<open>simp_all add: A\<close>)
  let ?M = "css_set_move_task t (Some from) (Some to) True ?A"
  obtain e' where eq: "move_up_to_put t from to S = ?M\<lparr>cset := (cset ?M)(from :=
      (cset ?M from)\<lparr>nr_tasks := nr_tasks (cset ?M from) - 1\<rparr>), cgcalls := e'\<rparr>"
    by (simp add: move_up_to_put_def Let_def upd_cset_def cgcall_to_def)
  have "counted (css_set_populated (move_up_to_put t from to S)) (move_up_to_put t from to S)"
    unfolding eq by (rule counted_kept [OF cnt]) (auto simp: css_set_populated_def)
  moreover have "move_up_to_put t from to S = S\<lparr>cset := moved t from to S,
      task_css_set := (task_css_set S)(t := to), cgroups := f, cgcalls := e'\<rparr>"
    unfolding eq M unfolding A moved_def unlist_task_def using assms(4) by (simp add: fun_upd_twist)
  moreover have "\<And>c. uncounted (f c) = uncounted (cgroups S c)" using f by (simp add: A)
  ultimately show ?thesis by (intro that)
qed

lemma in_one_list:
  assumes "distinct (all_tasks x)" and "t \<in> set (cset_tasks x) \<union> set (mg_tasks x)"
  shows "int (length (cset_tasks (unlist_task t x) @ mg_tasks (unlist_task t x)))
      = int (length (cset_tasks x @ mg_tasks x)) - 1"
    and "dying_tasks (unlist_task t x) = dying_tasks x"
proof -
  have d: "distinct (cset_tasks x @ mg_tasks x)" "t \<notin> set (dying_tasks x)" using assms by (auto simp: all_tasks_def)
  have "Suc (length (removeAll t (cset_tasks x @ mg_tasks x))) = length (cset_tasks x @ mg_tasks x)"
    using assms(2) by (intro length_removeAll_once d) simp
  then show "int (length (cset_tasks (unlist_task t x) @ mg_tasks (unlist_task t x)))
      = int (length (cset_tasks x @ mg_tasks x)) - 1" by (simp add: unlist_task_def)
  show "dying_tasks (unlist_task t x) = dying_tasks x" using d by (simp add: unlist_task_def)
qed

text \<open>The task is on one of the lists of its css_set that count.\<close>

definition on_list :: "cgsys \<Rightarrow> nat \<Rightarrow> bool" where
  "on_list S t \<longleftrightarrow> t \<in> set (cset_tasks (cset S (task_css_set S t))) \<union> set (mg_tasks (cset S (task_css_set S t)))"

lemma move_one_ok:
  assumes "core_ok K pins S" and "t \<in> K" and "task_css_set S t = from" and "mg_dst_cset (cset S from) = Some to"
    and "to \<in> set (css_set_table S)" and "from \<noteq> to"
    and "t \<in> set (cset_tasks (cset S from)) \<union> set (mg_tasks (cset S from))" and "0 < pins from"
  shows "core_ok K pins (move_one t S)" and "moves_only S (move_one t S)"
    and "task_css_set (move_one t S) = (task_css_set S)(t := to)"
    and "mg_tasks (cset (move_one t S) x) = (if x = to then mg_tasks (cset S to) @ [t]
      else if x = from then removeAll t (mg_tasks (cset S from)) else mg_tasks (cset S x))"
    and "on_list (move_one t S) u = on_list S u"
proof -
  note ok = core_okD [OF assms(1)] and cs = csets_okD [OF core_okD(1) [OF assms(1)]]
  let ?U = "move_up_to_put t from to S" and ?pins = "pins(from := pins from + 1)"
  have src: "from \<in> set (css_set_table S)" using cs(6) [OF assms(2)] assms(3) by simp
  obtain f e where U: "?U = S\<lparr>cset := moved t from to S, task_css_set := (task_css_set S)(t := to),
      cgroups := f, cgcalls := e\<rparr>"
    and f: "\<And>c. uncounted (f c) = uncounted (cgroups S c)" and cnt: "counted (css_set_populated ?U) ?U"
    using move_up_to_put_eq [OF assms(1) src assms(5-7)] by blast
  have "csets_ok K ?pins ?U"
    unfolding U moved_def by (rule move_task_ok [OF assms(1-3,5-7)])
      (simp_all add: shell_def unlist_task_def all_tasks_def)
  moreover have "tasks_counted ?U s" if "s \<in> set (css_set_table S)" for s
    using ok(4) [OF that] in_one_list [OF _ assms(7)] cs(9) [OF src] assms(6)
    unfolding U moved_def by (auto simp: tasks_counted_def lists_ok_def unlist_task_def)
  moreover have "domains_ok ?U" unfolding U domains_ok_counts [OF f] by (rule ok(2))
  ultimately have core: "core_ok K ?pins ?U"
    using ok(5,6) assms(8) cnt src by (auto simp: core_ok_def U)
  note put = core_ok_put(1) [OF core _ ok(5)] put_pinned [OF core_okD(1) [OF core] _ assms(8)]
  have tb: "from \<in> set (css_set_table ?U)" using src by (simp add: U)
  note one = move_one_put [OF assms(3,4)]
  show "core_ok K pins (move_one t S)" unfolding one by (rule put(1) [OF tb])
  have eq: "move_one t S = S\<lparr>cset := (moved t from to S)(from := (moved t from to S from)
      \<lparr>refcount := refcount (moved t from to S from) - 1\<rparr>), task_css_set := (task_css_set S)(t := to),
      cgroups := f, cgcalls := e\<rparr>"
    unfolding one put(2) [OF tb] unfolding U upd_cset_def by simp
  show "moves_only S (move_one t S)"
    using f by (intro moves_onlyI [where g = "cset (move_one t S)" and tc = "task_css_set (move_one t S)"
      and f = f and e = e and k = "asked S"]) (simp_all add: eq moved_def shell_def unlist_task_def)
  show "task_css_set (move_one t S) = (task_css_set S)(t := to)" by (simp add: eq)
  show "mg_tasks (cset (move_one t S) x) = (if x = to then mg_tasks (cset S to) @ [t]
      else if x = from then removeAll t (mg_tasks (cset S from)) else mg_tasks (cset S x))"
    using assms(6) unfolding eq by (simp add: moved_def unlist_task_def)
  show "on_list (move_one t S) u = on_list S u"
  proof (cases "u = t")
    case True
    then show ?thesis using assms(3,6,7) unfolding eq by (simp add: on_list_def moved_def)
  next
    case False
    then show ?thesis using assms(6) unfolding eq by (auto simp: on_list_def moved_def unlist_task_def)
  qed
qed

subsection \<open>Moving all tasks\<close>

text \<open>One reference for the first css_set and one for each that is on a list of the migration.\<close>

definition mg_pins :: "mgctx \<Rightarrow> nat \<Rightarrow> nat" where
  "mg_pins m s = (if s = init_css_set then 1 else 0)
     + count_list (preloaded_src_csets m @ preloaded_dst_csets m) s"

definition mg_ready :: "nat set \<Rightarrow> mgctx \<Rightarrow> cgsys \<Rightarrow> bool" where
  "mg_ready K m S \<longleftrightarrow> core_ok K (mg_pins m) S
     \<and> (\<forall>x \<in> set (src_csets m). x \<in> set (preloaded_src_csets m) \<and> (\<exists>y. mg_dst_cset (cset S x) = Some y
          \<and> y \<in> set (css_set_table S) \<and> y \<noteq> x \<and> y \<in> set (dst_csets m @ src_csets m)))
     \<and> (\<forall>x \<in> set (css_set_table S). mg_tasks (cset S x) \<noteq> [] \<longrightarrow> x \<in> set (dst_csets m @ src_csets m))"

definition at_links :: "cgsys \<Rightarrow> nat \<Rightarrow> nat list" where
  "at_links S t = cgrp_links (cset S (task_css_set S t))"

text \<open>\<open>to\<close> says for the cgroups of a task to which cgroups it is moved.  A task has moved, or it is as
  before.\<close>

definition exec_ok :: "(nat list \<Rightarrow> nat list) \<Rightarrow> nat set \<Rightarrow> mgctx \<Rightarrow> cgsys \<Rightarrow> cgsys \<Rightarrow> bool" where
  "exec_ok to K m S0 S \<longleftrightarrow> mg_ready K m S \<and> moves_only S0 S \<and> on_list S = on_list S0
     \<and> (\<forall>x \<in> set (src_csets m). set (mg_tasks (cset S x)) \<subseteq> set (taskset m S0))
     \<and> (\<forall>t. task_css_set S t = task_css_set S0 t \<and> (\<forall>x. t \<in> set (mg_tasks (cset S0 x)) \<longrightarrow> t \<in> set (mg_tasks (cset S x)))
          \<or> at_links S t = to (at_links S0 t) \<and> t \<in> set (taskset m S0))"

definition goes_to :: "(nat list \<Rightarrow> nat list) \<Rightarrow> mgctx \<Rightarrow> cgsys \<Rightarrow> bool" where
  "goes_to to m S \<longleftrightarrow> (\<forall>l. to (to l) = to l)
     \<and> (\<forall>x \<in> set (src_csets m). \<forall>y. mg_dst_cset (cset S x) = Some y \<longrightarrow>
          cgrp_links (cset S y) = to (cgrp_links (cset S x)))"

lemma mg_pins_pos: "x \<in> set (preloaded_src_csets m) \<union> set (preloaded_dst_csets m) \<Longrightarrow> 0 < mg_pins m x"
  by (auto simp: mg_pins_def count_list_0_iff simp flip: neq0_conv)

lemma mg_listed:
  assumes "csets_ok K pins S" and "s \<in> set (css_set_table S)" and "t \<in> set (all_tasks (cset S s))"
  shows "t \<in> K" and "task_css_set S t = s"
  using csets_okD(9) [OF assms(1,2)] assms(3) by (auto simp: lists_ok_def tasks_of_def)

lemma exec_step:
  assumes "exec_ok to K m S0 S" and "goes_to to m S0" and "s \<in> set (src_csets m)" and "t \<in> set (mg_tasks (cset S s))"
  shows "exec_ok to K m S0 (move_one t S) \<and> at_links (move_one t S) t = to (at_links S0 t)
    \<and> set (mg_tasks (cset S s)) - {t} \<subseteq> set (mg_tasks (cset (move_one t S) s))
    \<and> (\<forall>u. u \<noteq> t \<longrightarrow> at_links (move_one t S) u = at_links S u)"
proof -
  have ready: "mg_ready K m S" and only: "moves_only S0 S" and listed: "on_list S = on_list S0" and sub: "set (mg_tasks (cset S s)) \<subseteq> set (taskset m S0)"
    and sub': "\<And>x. x \<in> set (src_csets m) \<Longrightarrow> set (mg_tasks (cset S x)) \<subseteq> set (taskset m S0)"
    and tr: "\<And>t. task_css_set S t = task_css_set S0 t \<and> (\<forall>x. t \<in> set (mg_tasks (cset S0 x)) \<longrightarrow> t \<in> set (mg_tasks (cset S x)))
      \<or> at_links S t = to (at_links S0 t) \<and> t \<in> set (taskset m S0)"
    using assms(1,3) unfolding exec_ok_def by blast+
  have core: "core_ok K (mg_pins m) S" using ready by (simp add: mg_ready_def)
  obtain y where pre: "s \<in> set (preloaded_src_csets m)"
    and y: "mg_dst_cset (cset S s) = Some y" "y \<in> set (css_set_table S)" "y \<noteq> s" "y \<in> set (dst_csets m @ src_csets m)"
    using ready assms(3) unfolding mg_ready_def by blast
  have pin: "0 < mg_pins m s" using pre by (intro mg_pins_pos) simp
  then have s: "s \<in> set (css_set_table S)" using core_okD(6) [OF core] by simp
  have t: "t \<in> K" "task_css_set S t = s"
    using mg_listed [OF core_okD(1) [OF core] s] assms(4) by (simp_all add: all_tasks_def)
  have tl: "t \<in> set (cset_tasks (cset S s)) \<union> set (mg_tasks (cset S s))" using assms(4) by simp
  let ?S = "move_one t S"
  note M = move_one_ok [OF core t y(1,2) y(3) [symmetric] tl pin]
  note D = moves_onlyD [OF M(2)] and sh = shell_eqD [OF moves_onlyD(14) [OF M(2)]]
    and sh0 = shell_eqD [OF moves_onlyD(14) [OF only]]
  have "mg_ready K m ?S"
    using ready M(1) y(4) assms(3) unfolding mg_ready_def D sh M(4) by auto
  moreover have "moves_only S0 ?S" using only M(2) by (rule moves_only_trans)
  moreover have "on_list ?S = on_list S0" using listed M(5) by (simp add: fun_eq_iff)
  moreover have "set (mg_tasks (cset ?S x)) \<subseteq> set (taskset m S0)" if "x \<in> set (src_csets m)" for x
    using that sub' [OF that] sub assms(4) sub' [of y] sub' [of s] unfolding M(4) by auto
  moreover have links: "cgrp_links (cset S y) = to (cgrp_links (cset S s))"
    using assms(2,3) y(1) unfolding goes_to_def sh0 by blast
  moreover have at_t: "at_links ?S t = to (at_links S0 t)"
  proof -
    have "at_links ?S t = to (at_links S t)" using links t(2) unfolding at_links_def M(3) sh by simp
    moreover have "at_links S t = at_links S0 t \<or> at_links S t = to (at_links S0 t)"
      using tr [of t] by (auto simp: at_links_def sh0)
    moreover have "to (to l) = to l" for l using assms(2) by (simp add: goes_to_def)
    ultimately show ?thesis by auto
  qed
  moreover have "task_css_set ?S u = task_css_set S0 u
      \<and> (\<forall>x. u \<in> set (mg_tasks (cset S0 x)) \<longrightarrow> u \<in> set (mg_tasks (cset ?S x)))
    \<or> at_links ?S u = to (at_links S0 u) \<and> u \<in> set (taskset m S0)" for u
  proof (cases "u = t")
    case True
    then show ?thesis using at_t sub assms(4) by auto
  next
    case False
    then have "at_links ?S u = at_links S u" "task_css_set ?S u = task_css_set S u"
      unfolding at_links_def M(3) sh by simp_all
    moreover have "u \<in> set (mg_tasks (cset ?S x))" if "u \<in> set (mg_tasks (cset S x))" for x
      using that False unfolding M(4) by auto
    ultimately show ?thesis using tr [of u] by auto
  qed
  moreover have "set (mg_tasks (cset S s)) - {t} \<subseteq> set (mg_tasks (cset ?S s))" unfolding M(4) by auto
  moreover have "at_links ?S u = at_links S u" if "u \<noteq> t" for u using that unfolding at_links_def M(3) sh by simp
  ultimately show ?thesis unfolding exec_ok_def by blast
qed

lemma exec_inner:
  assumes "exec_ok to K m S0 S" and "goes_to to m S0" and "s \<in> set (src_csets m)" and "distinct ts"
    and "set ts \<subseteq> set (mg_tasks (cset S s))"
  shows "exec_ok to K m S0 (fold move_one ts S)
    \<and> (\<forall>t. at_links S t = to (at_links S0 t) \<or> t \<in> set ts \<longrightarrow> at_links (fold move_one ts S) t = to (at_links S0 t))"
  using assms(1,4,5)
proof (induction ts arbitrary: S)
  case Nil
  then show ?case by simp
next
  case (Cons t ts)
  have t: "t \<in> set (mg_tasks (cset S s))" using Cons.prems(3) by simp
  note step = exec_step [OF Cons.prems(1) assms(2,3) t]
  have "exec_ok to K m S0 (fold move_one ts (move_one t S))
    \<and> (\<forall>u. at_links (move_one t S) u = to (at_links S0 u) \<or> u \<in> set ts \<longrightarrow>
        at_links (fold move_one ts (move_one t S)) u = to (at_links S0 u))"
    using step Cons.prems(2,3) by (intro Cons.IH) auto
  then show ?case using step by auto
qed

lemma exec_outer:
  assumes "exec_ok to K m S0 S" and "goes_to to m S0" and "set ss \<subseteq> set (src_csets m)"
  shows "exec_ok to K m S0 (fold (\<lambda>s S. fold move_one (mg_tasks (cset S s)) S) ss S)
    \<and> (\<forall>t. at_links S t = to (at_links S0 t) \<or> (\<exists>s \<in> set ss. t \<in> set (mg_tasks (cset S0 s))) \<longrightarrow>
        at_links (fold (\<lambda>s S. fold move_one (mg_tasks (cset S s)) S) ss S) t = to (at_links S0 t))"
  using assms(1,3)
proof (induction ss arbitrary: S)
  case Nil
  then show ?case by simp
next
  case (Cons s ss)
  let ?S = "fold move_one (mg_tasks (cset S s)) S" and ?F = "fold (\<lambda>s S. fold move_one (mg_tasks (cset S s)) S) ss"
  have ready: "mg_ready K m S" and s: "s \<in> set (src_csets m)"
    and tr: "\<And>t. task_css_set S t = task_css_set S0 t \<and> (\<forall>x. t \<in> set (mg_tasks (cset S0 x)) \<longrightarrow> t \<in> set (mg_tasks (cset S x)))
      \<or> at_links S t = to (at_links S0 t) \<and> t \<in> set (taskset m S0)"
    using Cons.prems unfolding exec_ok_def by auto
  have core: "core_ok K (mg_pins m) S" and "s \<in> set (preloaded_src_csets m)"
    using ready s by (auto simp: mg_ready_def)
  then have tb: "s \<in> set (css_set_table S)" using core_okD(6) [OF core] mg_pins_pos [of s m] by simp
  then have "distinct (mg_tasks (cset S s))"
    using csets_okD(9) [OF core_okD(1) [OF core] tb] unfolding lists_ok_def all_tasks_def by simp
  then have one: "exec_ok to K m S0 ?S"
    "\<And>t. at_links S t = to (at_links S0 t) \<or> t \<in> set (mg_tasks (cset S s)) \<Longrightarrow> at_links ?S t = to (at_links S0 t)"
    using exec_inner [OF Cons.prems(1) assms(2) s, of "mg_tasks (cset S s)"] by auto
  have IH: "exec_ok to K m S0 (?F ?S)"
    "\<And>t. at_links ?S t = to (at_links S0 t) \<or> (\<exists>s \<in> set ss. t \<in> set (mg_tasks (cset S0 s))) \<Longrightarrow>
      at_links (?F ?S) t = to (at_links S0 t)"
    using Cons.IH [OF one(1)] Cons.prems(2) by auto
  have "at_links (?F ?S) t = to (at_links S0 t)"
    if "at_links S t = to (at_links S0 t) \<or> (\<exists>x \<in> set (s # ss). t \<in> set (mg_tasks (cset S0 x)))" for t
    using that tr [of t] one(2) [of t] IH(2) [of t] by auto
  then show ?case using IH(1) by simp
qed

subsection \<open>Asking the controllers, and the end of a migration\<close>

lemma core_ok_told [simp]: "core_ok K pins (S\<lparr>asked := k, cgcalls := e\<rparr>) = core_ok K pins S"
  "core_ok K pins (S\<lparr>cgcalls := e\<rparr>) = core_ok K pins S" "core_ok K pins (S\<lparr>asked := k\<rparr>) = core_ok K pins S"
proof -
  have "core_ok K pins (S\<lparr>asked := k, cgcalls := e\<rparr>) = core_ok K pins S" for S :: cgsys and k e
    by (simp add: core_ok_def csets_ok_def cset_wf_def hierarchies_def lists_ok_def tasks_of_def refs_def
        threaded_csets_def domains_ok_def cgroup_is_threaded_def counted_def kids_counted_def csets_counted_def
        populated_kids_def csets_of_def css_set_populated_def tasks_counted_def)
  from this [where k = k and e = e and S = S] this [where k = "asked S" and e = e and S = S]
    this [where k = k and e = "cgcalls S" and S = S]
  show "core_ok K pins (S\<lparr>asked := k, cgcalls := e\<rparr>) = core_ok K pins S"
    "core_ok K pins (S\<lparr>cgcalls := e\<rparr>) = core_ok K pins S"
    "core_ok K pins (S\<lparr>asked := k\<rparr>) = core_ok K pins S" by simp_all
qed

definition told_only :: "cgsys \<Rightarrow> cgsys \<Rightarrow> bool" where
  "told_only S S' \<longleftrightarrow> (\<exists>k e. S' = S\<lparr>asked := k, cgcalls := e\<rparr>)"

lemma told_onlyI: "S' = S\<lparr>asked := asked S', cgcalls := cgcalls S'\<rparr> \<Longrightarrow> told_only S S'"
  unfolding told_only_def by (intro exI)

lemma told_only_steps [simp]: "told_only S S" "told_only S (cgcall_to e S)" "told_only S (snd (ask S))"
  by (rule told_onlyI, simp add: cgcall_to_def ask_def)+

lemma told_only_trans: "told_only S S' \<Longrightarrow> told_only S' S'' \<Longrightarrow> told_only S S''"
  unfolding told_only_def by force

lemma told_onlyE:
  assumes "told_only S S'"
  obtains k e where "S' = S\<lparr>asked := k, cgcalls := e\<rparr>"
  using assms unfolding told_only_def by blast

lemma fold_cgcall: "told_only S (fold (\<lambda>i. cgcall_to (f i)) xs S)"
  by (induction xs arbitrary: S) (simp, metis fold_simps(2) told_only_steps(2) told_only_trans)

lemma ask_can_attach_told: "told_only S (snd (ask_can_attach P tasks is S))"
proof (induction "is" arbitrary: S)
  case Nil
  show ?case by simp
next
  case (Cons i "is")
  let ?A = "snd (ask (cgcall_to (can_attach i tasks) S))"
  have "told_only S ?A" using told_only_steps(2,3) told_only_trans by blast
  then have "told_only S (snd (ask_can_attach P tasks is ?A))" using Cons.IH told_only_trans by blast
  then show ?case
    using Cons.IH [of S] \<open>told_only S ?A\<close> by (auto simp: Let_def split: prod.split)
qed

lemma release_ok:
  assumes "core_ok K pins S"
  shows "core_ok K pins (release_cset s S)" and "moves_only S (release_cset s S)"
    and "task_css_set (release_cset s S) = task_css_set S"
    and "mg_tasks (cset (release_cset s S) x) = (if x = s then [] else mg_tasks (cset S x))"
    and "on_list (release_cset s S) = on_list S"
proof -
  note ok = core_okD [OF assms]
  let ?S = "release_cset s S"
  let ?x = "(cset S s)\<lparr>cset_tasks := cset_tasks (cset S s) @ mg_tasks (cset S s), mg_tasks := []\<rparr>"
  have eq: "?S = S\<lparr>cset := (cset S)(s := ?x), task_css_set := task_css_set S, cgroups := cgroups S, cgcalls := cgcalls S\<rparr>"
    by (simp add: release_cset_def upd_cset_def)
  have all: "all_tasks ?x = all_tasks (cset S s)" by (simp add: all_tasks_def)
  have "csets_ok K pins ?S"
    unfolding eq
  proof (rule csets_ok_lists [OF ok(1) csets_okD(2) [OF ok(1)]])
    fix y assume y: "y \<in> set (css_set_table S)"
    show "distinct (all_tasks (((cset S)(s := ?x)) y))
        \<and> set (all_tasks (((cset S)(s := ?x)) y)) \<subseteq> {t \<in> K. task_css_set S t = y}"
      using csets_okD(9) [OF ok(1) y] all by (auto simp: lists_ok_def tasks_of_def)
    show "refcount (((cset S)(s := ?x)) y) = int (pins y + card {t \<in> K. task_css_set S t = y})
        + int (card (threaded_csets S y))"
      using csets_okD(10) [OF ok(1) y] by (auto simp: refs_def tasks_of_def)
  qed (use csets_okD(6) [OF ok(1)] in simp_all)
  moreover have "counted (css_set_populated ?S) ?S"
    by (rule counted_kept [OF ok(3)]) (auto simp: eq css_set_populated_def)
  moreover have "tasks_counted ?S y" if "y \<in> set (css_set_table S)" for y
    using ok(4) [OF that] by (auto simp: eq tasks_counted_def)
  moreover have "domains_ok ?S = domains_ok S" unfolding eq by (rule domains_ok_counts) simp
  ultimately show "core_ok K pins ?S" using ok(2,5,6) by (simp add: core_ok_def) (simp add: eq)
  show "moves_only S ?S"
    by (intro moves_onlyI [where g = "(cset S)(s := ?x)" and tc = "task_css_set S" and f = "cgroups S"
      and e = "cgcalls S" and k = "asked S"]) (simp_all add: eq shell_def)
  show "task_css_set ?S = task_css_set S" "mg_tasks (cset ?S x) = (if x = s then [] else mg_tasks (cset S x))"
    by (simp_all add: eq)
  show "on_list ?S = on_list S" by (auto simp: fun_eq_iff eq on_list_def)
qed

lemma release_all_ok:
  assumes "core_ok K pins S"
  shows "core_ok K pins (fold release_cset ss S) \<and> moves_only S (fold release_cset ss S)
    \<and> task_css_set (fold release_cset ss S) = task_css_set S \<and> on_list (fold release_cset ss S) = on_list S
    \<and> (\<forall>x. mg_tasks (cset (fold release_cset ss S) x) = (if x \<in> set ss then [] else mg_tasks (cset S x)))"
  using assms
proof (induction ss arbitrary: S)
  case Nil
  then show ?case by simp
next
  case (Cons s ss)
  note one = release_ok [OF Cons.prems, of s]
  show ?case using Cons.IH [OF one(1)] one moves_only_trans [OF one(2)] by auto
qed

lemma told_same:
  assumes "told_only S S'"
  shows "core_ok K pins S' = core_ok K pins S" "mg_ready K m S' = mg_ready K m S" "moves_only S S'"
    "cset S' = cset S" "task_css_set S' = task_css_set S" "css_set_table S' = css_set_table S"
    "goes_to to m S' = goes_to to m S" "taskset m S' = taskset m S" "at_links S' = at_links S" "on_list S' = on_list S"
proof -
  obtain k e where S': "S' = S\<lparr>asked := k, cgcalls := e\<rparr>" using assms by (rule told_onlyE)
  show "moves_only S S'"
    by (rule moves_onlyI [where g = "cset S" and tc = "task_css_set S" and f = "cgroups S" and e = e and k = k])
      (simp_all add: S')
qed (use assms in \<open>auto simp: told_only_def mg_ready_def goes_to_def taskset_def at_links_def on_list_def fun_eq_iff\<close>)

definition executed :: "(nat list \<Rightarrow> nat list) \<Rightarrow> nat set \<Rightarrow> mgctx \<Rightarrow> cgsys \<Rightarrow> int \<Rightarrow> cgsys \<Rightarrow> bool" where
  "executed to K m S ret S' \<longleftrightarrow> core_ok K (mg_pins m) S' \<and> moves_only S S' \<and> on_list S' = on_list S
     \<and> (\<forall>x \<in> set (css_set_table S'). mg_tasks (cset S' x) = [])
     \<and> (\<forall>t. if ret = 0 \<and> t \<in> set (taskset m S) then at_links S' t = to (at_links S t)
          else task_css_set S' t = task_css_set S t)"

lemma executed_release:
  assumes "mg_ready K m S'" and "moves_only S S'" and "on_list S' = on_list S"
    and "\<And>t. if ret = 0 \<and> t \<in> set (taskset m S) then at_links S' t = to (at_links S t)
      else task_css_set S' t = task_css_set S t"
  shows "executed to K m S ret (fold release_cset (dst_csets m @ src_csets m) S')"
proof -
  let ?R = "fold release_cset (dst_csets m @ src_csets m) S'"
  have core: "core_ok K (mg_pins m) S'"
    and lists: "\<forall>x \<in> set (css_set_table S'). mg_tasks (cset S' x) \<noteq> [] \<longrightarrow> x \<in> set (dst_csets m @ src_csets m)"
    using assms(1) unfolding mg_ready_def by blast+
  have R: "core_ok K (mg_pins m) ?R" "moves_only S' ?R" "task_css_set ?R = task_css_set S'" "on_list ?R = on_list S'"
    "\<And>x. mg_tasks (cset ?R x) = (if x \<in> set (dst_csets m @ src_csets m) then [] else mg_tasks (cset S' x))"
    using release_all_ok [OF core] by blast+
  have "at_links ?R t = at_links S' t" for t
    using shell_eqD(2) [OF moves_onlyD(14) [OF R(2)]] unfolding at_links_def R(3) by blast
  moreover have "mg_tasks (cset ?R x) = []" if "x \<in> set (css_set_table ?R)" for x
    using that lists unfolding R(5) moves_onlyD(6) [OF R(2)] by auto
  ultimately show ?thesis
    using R(1,3,4) assms(3,4) moves_only_trans [OF assms(2) R(2)] unfolding executed_def by simp
qed

lemma cgroup_migrate_execute_ok:
  assumes "mg_ready K m S" and "goes_to to m S"
  shows "executed to K m S (fst (cgroup_migrate_execute P m S)) (snd (cgroup_migrate_execute P m S))"
proof -
  let ?ssids = "filter (\<lambda>i. i \<in> mg_ss_mask m) [0..<CGROUP_SUBSYS_COUNT P]"
  obtain ret asked_before S1 where asked: "(if tset_nr_tasks m \<noteq> 0 then ask_can_attach P (taskset m S) ?ssids S
      else ((0, []), S)) = ((ret, asked_before), S1)" by (metis surj_pair)
  have told: "told_only S S1"
    using asked ask_can_attach_told [of S P "taskset m S" ?ssids] by (auto split: if_splits)
  note same = told_same [OF told]
  let ?fin = "fold release_cset (dst_csets m @ src_csets m)"
  show ?thesis
  proof (cases "ret = 0")
    case False
    let ?S2 = "fold (\<lambda>i. cgcall_to (cancel_attach i (taskset m S))) (filter (has_cancel_attach P) asked_before) S1"
    have "told_only S ?S2" by (rule told_only_trans [OF told fold_cgcall])
    note same2 = told_same [OF this]
    have "cgroup_migrate_execute P m S = (ret, ?fin ?S2)"
      using asked False by (simp add: cgroup_migrate_execute_def Let_def)
    moreover have "executed to K m S ret (?fin ?S2)"
      using False assms(1) same2 by (intro executed_release) simp_all
    ultimately show ?thesis by simp
  next
    case True
    let ?S2 = "fold (\<lambda>s S. fold move_one (mg_tasks (cset S s)) S) (src_csets m) S1"
    let ?S3 = "if tset_nr_tasks m \<noteq> 0 then fold (\<lambda>i. cgcall_to (attach i (taskset m S)))
      (filter (has_attach P) ?ssids) ?S2 else ?S2"
    have eq: "cgroup_migrate_execute P m S = (0, ?fin ?S3)"
      using asked True by (simp add: cgroup_migrate_execute_def Let_def)
    have "exec_ok to K m S1 S1"
      using assms same(2) by (auto simp: exec_ok_def taskset_def)
    note out = exec_outer [OF this _ subset_refl]
    have "goes_to to m S1" using assms(2) same(7) by simp
    note out = out [OF this]
    have "exec_ok to K m S1 ?S2" and moved: "\<And>t. \<exists>s \<in> set (src_csets m). t \<in> set (mg_tasks (cset S1 s)) \<Longrightarrow>
        at_links ?S2 t = to (at_links S1 t)"
      using out by blast+
    then have ready: "mg_ready K m ?S2" and only: "moves_only S1 ?S2" and listed: "on_list ?S2 = on_list S1"
      and rest: "\<And>t. t \<notin> set (taskset m S1) \<Longrightarrow> task_css_set ?S2 t = task_css_set S1 t"
      unfolding exec_ok_def by blast+
    have "told_only ?S2 ?S3" by (simp add: fold_cgcall)
    note same3 = told_same [OF this]
    have "executed to K m S 0 (?fin ?S3)"
    proof (rule executed_release)
      show "mg_ready K m ?S3" using ready same3(2) by simp
      show "moves_only S ?S3" using same(3) only same3(3) moves_only_trans by blast
      show "on_list ?S3 = on_list S" using listed same(10) same3(10) by simp
      show "if 0 = (0::int) \<and> t \<in> set (taskset m S) then at_links ?S3 t = to (at_links S t)
        else task_css_set ?S3 t = task_css_set S t" for t
        using moved [of t] rest [of t] unfolding same3(5,9) same(5,8,9)
        by (auto simp: taskset_def same(4))
    qed
    then show ?thesis unfolding eq by simp
  qed
qed

end
