(* ===== verification/Migrate_Whole.thy ===== *)
theory Migrate_Whole
  imports Migrate_Attach
begin

section \<open>A migration from its start to its end\<close>

subsection \<open>Marks\<close>

text \<open>A css_set without its references and without the marks of a migration.\<close>

definition bare :: "css_set \<Rightarrow> css_set" where
  "bare x = x\<lparr>refcount := 0, mg_src_cgrp := None, mg_dst_cgrp := None, mg_dst_cset := None\<rparr>"

definition unmarked :: "css_set \<Rightarrow> bool" where
  "unmarked x \<longleftrightarrow> mg_src_cgrp x = None \<and> mg_dst_cgrp x = None \<and> mg_dst_cset x = None"

lemma bare_eqD:
  assumes "bare x = bare y"
  shows "cset_subsys x = cset_subsys y" "cgrp_links x = cgrp_links y" "dfl_cgrp x = dfl_cgrp y"
    "dom_cset x = dom_cset y" "cset_tasks x = cset_tasks y" "mg_tasks x = mg_tasks y"
    "dying_tasks x = dying_tasks y" "nr_tasks x = nr_tasks y" "cset_dead x = cset_dead y"
  using assms unfolding bare_def
  by (auto dest: arg_cong [where f = cset_subsys] arg_cong [where f = cgrp_links] arg_cong [where f = dfl_cgrp]
      arg_cong [where f = dom_cset] arg_cong [where f = cset_tasks] arg_cong [where f = mg_tasks]
      arg_cong [where f = dying_tasks] arg_cong [where f = nr_tasks] arg_cong [where f = cset_dead])

lemma bare_same: "same_but_refs x y \<Longrightarrow> bare x = bare y"
  unfolding bare_def same_but_refs_def by (cases x; cases y) simp

lemma bare_all_tasks: "bare x = bare y \<Longrightarrow> all_tasks x = all_tasks y"
  by (simp add: all_tasks_def bare_eqD [of x y])

lemma core_ok_marks:
  assumes "core_ok K pins S" and "\<And>x. bare (g x) = bare (cset S x)" and "\<And>x. refcount (g x) = refcount (cset S x)"
  shows "core_ok K pins (S\<lparr>cset := g\<rparr>)"
proof -
  note ok = core_okD [OF assms(1)] and same = bare_eqD [OF assms(2)]
  have "csets_ok K pins (S\<lparr>cset := g, task_css_set := task_css_set S, cgroups := cgroups S, cgcalls := cgcalls S\<rparr>)"
    by (rule csets_ok_lists [OF ok(1) csets_okD(2) [OF ok(1)]])
      (use csets_okD(6,9,10) [OF ok(1)] in \<open>auto simp: same bare_all_tasks [OF assms(2)] assms(3) lists_ok_def
        tasks_of_def refs_def\<close>)
  then have "csets_ok K pins (S\<lparr>cset := g\<rparr>)" by simp
  moreover have "counted (css_set_populated (S\<lparr>cset := g\<rparr>)) (S\<lparr>cset := g\<rparr>)"
    by (rule counted_kept [OF ok(3)]) (auto simp: css_set_populated_def same)
  moreover have "domains_ok (S\<lparr>cset := g\<rparr>) = domains_ok S"
    by (simp add: domains_ok_def cgroup_is_threaded_def)
  ultimately show ?thesis using ok by (simp add: core_ok_def tasks_counted_def same)
qed

text \<open>The css_sets of a migration, and those that came or went besides.\<close>

definition mg_keeps :: "cgsys \<Rightarrow> cgsys \<Rightarrow> bool" where
  "mg_keeps S S' \<longleftrightarrow> csets_only S S' \<and> (\<forall>x. bare (cset S' x) = bare (cset S x))
     \<and> set (css_set_table S') \<subseteq> set (css_set_table S)"

lemma mg_keeps_refl [simp]: "mg_keeps S S"
  by (simp add: mg_keeps_def)

lemma mg_keeps_trans: "mg_keeps S S' \<Longrightarrow> mg_keeps S' S'' \<Longrightarrow> mg_keeps S S''"
  unfolding mg_keeps_def using csets_only_trans by (metis subset_trans)

lemma mark_keeps:
  assumes "\<And>x. bare (f x) = bare x" and "\<And>x. refcount (f x) = refcount x"
  shows "core_ok K pins S \<Longrightarrow> core_ok K pins (upd_cset s f S)" and "mg_keeps S (upd_cset s f S)"
    and "css_set_table (upd_cset s f S) = css_set_table S"
proof -
  show "core_ok K pins (upd_cset s f S)" if "core_ok K pins S"
    unfolding upd_cset_def by (rule core_ok_marks [OF that]) (simp_all add: assms)
  have "csets_only S (upd_cset s f S)" by (rule csets_onlyI) (simp add: upd_cset_def)
  then show "mg_keeps S (upd_cset s f S)" by (simp add: mg_keeps_def upd_cset_def assms)
qed (simp add: upd_cset_def)

lemma put_keeps: "put_ok K pins S S' \<Longrightarrow> mg_keeps S S'"
  by (simp add: put_ok_def mg_keeps_def bare_same)

subsection \<open>The end\<close>

lemma finish_one_ok:
  assumes "core_ok K (pins(s := pins s + 1)) S" and "0 < pins init_css_set"
  shows "core_ok K pins (finish_one s S)" and "mg_keeps S (finish_one s S)"
    and "unmarked (cset (finish_one s S) x) \<longleftrightarrow> x = s \<or> unmarked (cset S x)"
    and "\<And>x. 0 < pins x \<or> tasks_of K S x \<noteq> {} \<Longrightarrow> x \<in> set (css_set_table S) \<Longrightarrow> x \<in> set (css_set_table (finish_one s S))"
proof -
  let ?f = "\<lambda>x. x\<lparr>mg_src_cgrp := None, mg_dst_cgrp := None, mg_dst_cset := None\<rparr>"
  let ?S = "upd_cset s ?f S"
  have f: "bare (?f x) = bare x" "refcount (?f x) = refcount x" for x by (simp_all add: bare_def)
  note mark = mark_keeps [where f = ?f, OF f]
  have "s \<in> set (css_set_table ?S)" using core_okD(6) [OF assms(1), of s] mark(3) by simp
  note put = core_ok_put [OF mark(1) [OF assms(1)] this assms(2)]
  show "core_ok K pins (finish_one s S)" using put(1) by (simp add: finish_one_def)
  show "mg_keeps S (finish_one s S)"
    unfolding finish_one_def by (rule mg_keeps_trans [OF mark(2) put_keeps [OF put(2)]])
  have "same_but_refs (cset (finish_one s S) x) (cset ?S x)" using put(2) by (simp add: put_ok_def finish_one_def)
  then show "unmarked (cset (finish_one s S) x) \<longleftrightarrow> x = s \<or> unmarked (cset S x)"
    by (simp add: unmarked_def same_but_refsD upd_cset_def)
  show "x \<in> set (css_set_table (finish_one s S))" if "0 < pins x \<or> tasks_of K S x \<noteq> {}" "x \<in> set (css_set_table S)" for x
    using put(2) that mark(3) by (auto simp: put_ok_def finish_one_def tasks_of_def upd_cset_def)
qed

lemma finish_all_ok:
  assumes "core_ok K (\<lambda>s. pins s + count_list ss s) S" and "0 < pins init_css_set"
  shows "core_ok K pins (fold finish_one ss S) \<and> mg_keeps S (fold finish_one ss S)
    \<and> (\<forall>x. unmarked (cset (fold finish_one ss S) x) \<longleftrightarrow> x \<in> set ss \<or> unmarked (cset S x))"
  using assms(1)
proof (induction ss arbitrary: S)
  case Nil
  then show ?case by simp
next
  case (Cons s ss)
  let ?pins = "\<lambda>s. pins s + count_list ss s"
  have "(\<lambda>x. pins x + count_list (s # ss) x) = ?pins(s := ?pins s + 1)" by (auto simp: fun_eq_iff)
  then have "core_ok K (?pins(s := ?pins s + 1)) S" using Cons.prems by simp
  note one = finish_one_ok [OF this]
  show ?case
    using Cons.IH [OF one(1)] one(2,3) assms(2) mg_keeps_trans [OF one(2)] by auto
qed

subsection \<open>Looking for the css_sets to move to\<close>

definition mg_grow :: "cgsys \<Rightarrow> cgsys \<Rightarrow> bool" where
  "mg_grow S S' \<longleftrightarrow> csets_only S S' \<and> set (css_set_table S) \<subseteq> set (css_set_table S')
     \<and> (\<forall>x \<in> set (css_set_table S'). if x \<in> set (css_set_table S) then bare (cset S' x) = bare (cset S x)
          else all_tasks (cset S' x) = [] \<and> next_cset S \<le> x) \<and> next_cset S \<le> next_cset S'"

lemma mg_grow_refl [simp]: "mg_grow S S"
  by (simp add: mg_grow_def)

lemma mg_grow_trans:
  assumes "mg_grow S S'" and "mg_grow S' S''"
  shows "mg_grow S S''"
proof -
  have "if x \<in> set (css_set_table S) then bare (cset S'' x) = bare (cset S x)
    else all_tasks (cset S'' x) = [] \<and> next_cset S \<le> x" if "x \<in> set (css_set_table S'')" for x
    using assms that bare_all_tasks [of "cset S'' x" "cset S' x"]
    unfolding mg_grow_def by (metis order_trans subsetD)
  then show ?thesis using assms csets_only_trans unfolding mg_grow_def by (metis order_trans)
qed

lemma csets_grow_mg: "csets_grow S S' \<Longrightarrow> mg_grow S S'"
  by (auto simp: csets_grow_def mg_grow_def bare_same idle_cset_def)

lemma mg_keeps_grow: "mg_keeps S S' \<Longrightarrow> css_set_table S' = css_set_table S \<Longrightarrow> next_cset S' = next_cset S \<Longrightarrow> mg_grow S S'"
  by (simp add: mg_keeps_def mg_grow_def)

lemma mg_growD:
  assumes "mg_grow S S'" and "x \<in> set (css_set_table S)"
  shows "x \<in> set (css_set_table S')" and "bare (cset S' x) = bare (cset S x)"
  using assms by (auto simp: mg_grow_def)

text \<open>Something else than the migration refers to the css_set.\<close>

definition in_use :: "nat set \<Rightarrow> cgsys \<Rightarrow> nat \<Rightarrow> bool" where
  "in_use K S x \<longleftrightarrow> x = init_css_set \<or> tasks_of K S x \<noteq> {} \<or> threaded_csets S x \<noteq> {}"

lemma in_use_grow:
  assumes "in_use K S x" and "mg_grow S S'"
  shows "in_use K S' x"
proof -
  have only: "csets_only S S'" using assms(2) by (simp add: mg_grow_def)
  have "tasks_of K S' x = tasks_of K S x" by (simp add: tasks_of_def csets_onlyD [OF only])
  moreover have "y \<in> threaded_csets S' x" if "y \<in> threaded_csets S x" for y
  proof -
    have y: "y \<in> set (css_set_table S)" using that by (simp add: threaded_csets_def)
    show ?thesis
      using that mg_growD(1) [OF assms(2) y] bare_eqD(4) [OF mg_growD(2) [OF assms(2) y]]
      by (simp add: threaded_csets_def)
  qed
  ultimately show ?thesis using assms(1) unfolding in_use_def by blast
qed

definition src_ok :: "(nat list \<Rightarrow> nat list) \<Rightarrow> nat set \<Rightarrow> cgsys \<Rightarrow> nat \<Rightarrow> bool" where
  "src_ok to K S x \<longleftrightarrow> mg_src_cgrp (cset S x) \<noteq> None \<and> in_use K S x
     \<and> (\<exists>d \<in> set (tcss (ftree S)). mg_dst_cgrp (cset S x) = Some d \<and> new_links S x d = to (cgrp_links (cset S x)))"

definition dst_ok :: "(nat list \<Rightarrow> nat list) \<Rightarrow> cgsys \<Rightarrow> nat \<Rightarrow> bool" where
  "dst_ok to S x \<longleftrightarrow> (\<exists>y. mg_dst_cset (cset S x) = Some y \<and> y \<in> set (css_set_table S) \<and> y \<noteq> x
     \<and> cgrp_links (cset S y) = to (cgrp_links (cset S x)))"

text \<open>\<open>srcs\<close> are the css_sets that the loop has not come to.\<close>

definition preparing :: "(nat list \<Rightarrow> nat list) \<Rightarrow> nat set \<Rightarrow> nat list \<Rightarrow> mgctx \<Rightarrow> cgsys \<Rightarrow> bool" where
  "preparing to K srcs m S \<longleftrightarrow> core_ok K (mg_pins m) S \<and> distinct (preloaded_src_csets m @ preloaded_dst_csets m)
     \<and> distinct srcs \<and> set srcs \<subseteq> set (preloaded_src_csets m)
     \<and> (\<forall>x \<in> set (css_set_table S). x \<notin> set (preloaded_src_csets m) \<longrightarrow> unmarked (cset S x))
     \<and> (\<forall>x \<in> set (preloaded_src_csets m). src_ok to K S x
          \<and> (if x \<in> set srcs then mg_dst_cset (cset S x) = None else dst_ok to S x))"

lemma preparingD:
  assumes "preparing to K srcs m S"
  shows "core_ok K (mg_pins m) S" and "distinct (preloaded_src_csets m @ preloaded_dst_csets m)" and "distinct srcs"
    and "set srcs \<subseteq> set (preloaded_src_csets m)"
    and "\<And>x. x \<in> set (css_set_table S) \<Longrightarrow> x \<notin> set (preloaded_src_csets m) \<Longrightarrow> unmarked (cset S x)"
    and "\<And>x. x \<in> set (preloaded_src_csets m) \<Longrightarrow> src_ok to K S x"
    and "\<And>x. x \<in> set srcs \<Longrightarrow> mg_dst_cset (cset S x) = None"
    and "\<And>x. x \<in> set (preloaded_src_csets m) \<Longrightarrow> x \<notin> set srcs \<Longrightarrow> dst_ok to S x"
    and "\<And>x. x \<in> set (preloaded_src_csets m) \<union> set (preloaded_dst_csets m) \<Longrightarrow> x \<in> set (css_set_table S)"
proof -
  show core: "core_ok K (mg_pins m) S" using assms by (simp add: preparing_def)
  show "x \<in> set (css_set_table S)" if "x \<in> set (preloaded_src_csets m) \<union> set (preloaded_dst_csets m)" for x
    using core_okD(6) [OF core mg_pins_pos [OF that]] .
  show "mg_dst_cset (cset S x) = None" if "x \<in> set srcs" for x
    using assms that unfolding preparing_def by (metis subsetD)
  show "dst_ok to S x" if "x \<in> set (preloaded_src_csets m)" "x \<notin> set srcs" for x
    using assms that by (simp add: preparing_def)
qed (use assms in \<open>unfold preparing_def, blast+\<close>)

text \<open>The marks are kept when css_sets come.\<close>

lemma marks_grow:
  assumes "mg_grow S S'" and "x \<in> set (css_set_table S)" and "mg_src_cgrp (cset S' x) = mg_src_cgrp (cset S x)"
    and "mg_dst_cgrp (cset S' x) = mg_dst_cgrp (cset S x)"
  shows "src_ok to K S x \<Longrightarrow> src_ok to K S' x"
    and "mg_dst_cset (cset S' x) = mg_dst_cset (cset S x) \<Longrightarrow> dst_ok to S x \<Longrightarrow> dst_ok to S' x"
proof -
  note same = bare_eqD [OF mg_growD(2) [OF assms(1,2)]]
  have only: "csets_only S S'" using assms(1) by (simp add: mg_grow_def)
  show "src_ok to K S' x" if "src_ok to K S x"
    using that in_use_grow [OF _ assms(1)] same
    by (auto simp: src_ok_def assms(3,4) csets_onlyD [OF only] new_links_def)
  show "dst_ok to S' x" if "mg_dst_cset (cset S' x) = mg_dst_cset (cset S x)" "dst_ok to S x"
    using that same mg_growD(1) [OF assms(1)] bare_eqD(2) [OF mg_growD(2) [OF assms(1)]]
    unfolding dst_ok_def by auto
qed

lemma preparing_next:
  assumes "preparing to K srcs m S" and "mg_grow S S'" and "core_ok K (mg_pins m') S'"
    and "distinct (preloaded_src_csets m' @ preloaded_dst_csets m')" and "distinct srcs'"
    and "set srcs' \<subseteq> set (preloaded_src_csets m')" and "set (preloaded_src_csets m') \<subseteq> set (preloaded_src_csets m)"
    and "\<And>x. x \<in> set (css_set_table S') \<Longrightarrow> x \<notin> set (preloaded_src_csets m') \<Longrightarrow> unmarked (cset S' x)"
    and "\<And>x. x \<in> set (preloaded_src_csets m') \<Longrightarrow> mg_src_cgrp (cset S' x) = mg_src_cgrp (cset S x)
      \<and> mg_dst_cgrp (cset S' x) = mg_dst_cgrp (cset S x)"
    and "\<And>x. x \<in> set srcs' \<Longrightarrow> mg_dst_cset (cset S' x) = None"
    and "\<And>x. x \<in> set (preloaded_src_csets m') \<Longrightarrow> x \<notin> set srcs' \<Longrightarrow> dst_ok to S' x"
  shows "preparing to K srcs' m' S'"
proof -
  have "src_ok to K S' x" if "x \<in> set (preloaded_src_csets m')" for x
  proof -
    have x: "x \<in> set (preloaded_src_csets m)" using that assms(7) by blast
    show ?thesis
      using preparingD(6,9) [OF assms(1)] x assms(9) [OF that] by (intro marks_grow(1) [OF assms(2)]) auto
  qed
  then show ?thesis using assms(3-6,8,10,11) by (simp add: preparing_def)
qed

lemma put_stays:
  assumes "core_ok K (pins(s := pins s + 1)) S" and "0 < pins init_css_set" and "in_use K S s \<or> 0 < pins s"
  shows "put_css_set s S = upd_cset s (\<lambda>x. x\<lparr>refcount := refcount x - 1\<rparr>) S" and "core_ok K pins (put_css_set s S)"
proof -
  have s: "s \<in> set (css_set_table S)" using core_okD(6) [OF assms(1), of s] by simp
  note ok = core_okD(1) [OF assms(1)]
  have "0 < pins s + refs K S s"
    using assms(2,3) csets_okD(2) [OF ok] by (auto simp: in_use_def refs_def card_gt_0_iff)
  moreover have "refcount (cset S s) = int (Suc (pins s + refs K S s))" using csets_okD(10) [OF ok s] by simp
  ultimately have "refcount (cset S s) \<noteq> 1" by linarith
  then show "put_css_set s S = upd_cset s (\<lambda>x. x\<lparr>refcount := refcount x - 1\<rparr>) S"
    unfolding put_css_set.simps [of s] Let_def by (simp add: upd_cset_def)
  show "core_ok K pins (put_css_set s S)" by (rule core_ok_put(1) [OF assms(1) s assms(2)])
qed

lemma prepare_find:
  assumes "preparing to K (src # srcs) m S" and "mg_dst_cgrp (cset S src) = Some d"
    and "d \<in> set (tcss (ftree S))" and "find_css_set P src d S = (r, S')"
  shows "csets_grow S S'"
    and "r = None \<Longrightarrow> core_ok K (mg_pins m) S'"
    and "r = Some dst \<Longrightarrow> core_ok K ((mg_pins m)(dst := mg_pins m dst + 1)) S' \<and> found_ok P src d S dst S'"
proof -
  note prep = preparingD [OF assms(1)]
  have src: "src \<in> set (css_set_table S)" using prep(4,9) by simp
  have f: "find_ok K (mg_pins m) P src d S (r, S')"
    using find_css_set_ok [OF core_okD(1,2) [OF prep(1)] src assms(3) core_okD(5) [OF prep(1)] pins_new [OF prep(1)], of P]
    by (simp add: assms(4))
  then show grow: "csets_grow S S'" by (simp add: find_ok_def)
  have tb: "x \<in> set (css_set_table S')" if "0 < mg_pins m x" for x
    using core_okD(6) [OF prep(1) that] grow by (auto simp: csets_grow_def)
  show "core_ok K (mg_pins m) S'" if "r = None"
    using f that tb core_okD(5) [OF prep(1)] by (intro core_ok_grow [OF prep(1) grow]) (simp_all add: find_ok_def)
  show "core_ok K ((mg_pins m)(dst := mg_pins m dst + 1)) S' \<and> found_ok P src d S dst S'" if "r = Some dst"
  proof
    show fo: "found_ok P src d S dst S'" using f that by (simp add: find_ok_def)
    show "core_ok K ((mg_pins m)(dst := mg_pins m dst + 1)) S'"
      using f that tb fo core_okD(5) [OF prep(1)]
      by (intro core_ok_grow [OF prep(1) grow]) (auto simp: find_ok_def found_ok_def split: if_splits)
  qed
qed

lemma grow_marks:
  assumes "csets_grow S S'" and "x \<in> set (css_set_table S')"
  shows "x \<in> set (css_set_table S) \<Longrightarrow> mg_src_cgrp (cset S' x) = mg_src_cgrp (cset S x)
      \<and> mg_dst_cgrp (cset S' x) = mg_dst_cgrp (cset S x) \<and> mg_dst_cset (cset S' x) = mg_dst_cset (cset S x)"
    and "x \<notin> set (css_set_table S) \<Longrightarrow> unmarked (cset S' x)"
proof -
  show "mg_src_cgrp (cset S' x) = mg_src_cgrp (cset S x) \<and> mg_dst_cgrp (cset S' x) = mg_dst_cgrp (cset S x)
      \<and> mg_dst_cset (cset S' x) = mg_dst_cset (cset S x)" if "x \<in> set (css_set_table S)"
  proof -
    have "same_but_refs (cset S' x) (cset S x)" using assms that by (simp add: csets_grow_def)
    from same_but_refsD [OF this] show ?thesis by simp
  qed
  show "unmarked (cset S' x)" if "x \<notin> set (css_set_table S)"
    using assms that by (auto simp: csets_grow_def idle_cset_def unmarked_def)
qed

text \<open>What is kept when the loop goes on.\<close>

lemma unmarked_grow:
  assumes "preparing to K srcs m S" and "csets_grow S S'" and "x \<in> set (css_set_table S')"
    and "x \<notin> set (preloaded_src_csets m)"
  shows "unmarked (cset S' x)"
  using preparingD(5) [OF assms(1) _ assms(4)] grow_marks [OF assms(2,3)]
  by (cases "x \<in> set (css_set_table S)") (simp_all add: unmarked_def)

lemma dst_ok_grow:
  assumes "preparing to K srcs m S" and "csets_grow S S'" and "x \<in> set (preloaded_src_csets m)" and "x \<notin> set srcs"
  shows "dst_ok to S' x"
proof -
  have x: "x \<in> set (css_set_table S)" using preparingD(9) [OF assms(1)] assms(3) by simp
  then have x': "x \<in> set (css_set_table S')" using assms(2) by (auto simp: csets_grow_def)
  note m = grow_marks(1) [OF assms(2) x' x]
  show ?thesis
    using marks_grow(2) [OF csets_grow_mg [OF assms(2)] x] m preparingD(8) [OF assms(1,3,4)] by blast
qed

lemma prepare_fails:
  assumes "preparing to K srcs m S" and "csets_grow S S'" and "core_ok K (mg_pins m) S'"
  shows "preparing to K srcs m S'"
proof (rule preparing_next [OF assms(1) csets_grow_mg [OF assms(2)] assms(3)])
  note prep = preparingD [OF assms(1)]
  have tb': "x \<in> set (css_set_table S')" "x \<in> set (css_set_table S)" if "x \<in> set (preloaded_src_csets m)" for x
    using prep(9) [of x] that assms(2) by (auto simp: csets_grow_def)
  show "mg_src_cgrp (cset S' x) = mg_src_cgrp (cset S x) \<and> mg_dst_cgrp (cset S' x) = mg_dst_cgrp (cset S x)"
    if "x \<in> set (preloaded_src_csets m)" for x
    using grow_marks(1) [OF assms(2) tb' [OF that]] by simp
  show "mg_dst_cset (cset S' x) = None" if "x \<in> set srcs" for x
    using grow_marks(1) [OF assms(2) tb', of x] prep(4,7) that by auto
qed (use preparingD(2-4) [OF assms(1)] unmarked_grow [OF assms(1,2)] dst_ok_grow [OF assms(1,2)] in auto)

end
