(* ===== verification/Migrate_Prepare.thy ===== *)
theory Migrate_Prepare
  imports Migrate_Whole
begin

section \<open>Preparing a migration\<close>

text \<open>The three ends of a turn of \<open>cgroup_migrate_prepare_dst\<close>.\<close>

definition prepared_step ::
    "(nat list \<Rightarrow> nat list) \<Rightarrow> nat set \<Rightarrow> nat \<Rightarrow> nat list \<Rightarrow> mgctx \<Rightarrow> cgsys \<Rightarrow> mgctx \<Rightarrow> cgsys \<Rightarrow> bool" where
  "prepared_step to K src srcs m S m' S' \<longleftrightarrow> preparing to K srcs m' S' \<and> mg_grow S S'
     \<and> src_csets m' = src_csets m \<and> dst_csets m' = dst_csets m \<and> tset_nr_tasks m' = tset_nr_tasks m
     \<and> (\<forall>x \<in> set (preloaded_src_csets m). x \<notin> set (preloaded_src_csets m') \<longrightarrow>
          to (cgrp_links (cset S x)) = cgrp_links (cset S x))
     \<and> set (preloaded_src_csets m') \<subseteq> set (preloaded_src_csets m)"

lemma upd_cset_rest [simp]: "css_set_table (upd_cset s f S) = css_set_table S" "next_cset (upd_cset s f S) = next_cset S"
  "cset (upd_cset s f S) x = (if x = s then f (cset S s) else cset S x)" "ftree (upd_cset s f S) = ftree S"
  "root_of (upd_cset s f S) = root_of S" "task_css_set (upd_cset s f S) = task_css_set S"
  by (simp_all add: upd_cset_def)

lemma upd_cset_only [simp]: "csets_only S (upd_cset s f S)"
  by (rule csets_onlyI) (simp add: upd_cset_def)

lemma upd_cset_grow: "(\<And>x. bare (f x) = bare x) \<Longrightarrow> mg_grow S (upd_cset s f S)"
  by (simp add: mg_grow_def)

lemma in_use_upd:
  assumes "\<And>x. dom_cset (f x) = dom_cset x"
  shows "in_use K (upd_cset s f S) x = in_use K S x"
proof -
  have "dom_cset (cset (upd_cset s f S) y) = dom_cset (cset S y)" for y by (simp add: assms)
  then show ?thesis by (simp add: in_use_def tasks_of_def threaded_csets_def del: upd_cset_rest(3))
qed

lemma count_distinct: "distinct xs \<Longrightarrow> count_list xs x = (if x \<in> set xs then 1 else 0)"
  by (induction xs) auto

lemma count_removeAll: "count_list (removeAll s xs) x = (if x = s then 0 else count_list xs x)"
  by (induction xs) auto

text \<open>The css_set has to go to itself.\<close>

lemma prepare_same:
  assumes "preparing to K (src # srcs) m S" and "csets_grow S S1"
    and "core_ok K ((mg_pins m)(src := mg_pins m src + 1)) S1" and "to (cgrp_links (cset S src)) = cgrp_links (cset S src)"
  shows "prepared_step to K src srcs m S (m\<lparr>preloaded_src_csets := removeAll src (preloaded_src_csets m)\<rparr>)
    (put_css_set src (put_css_set src (upd_cset src (\<lambda>x. x\<lparr>mg_src_cgrp := None, mg_dst_cgrp := None\<rparr>) S1)))"
proof -
  note prep = preparingD [OF assms(1)]
  let ?f = "\<lambda>x. x\<lparr>mg_src_cgrp := None, mg_dst_cgrp := None\<rparr>" and ?r = "\<lambda>x. x\<lparr>refcount := refcount x - 1\<rparr>"
  let ?m = "m\<lparr>preloaded_src_csets := removeAll src (preloaded_src_csets m)\<rparr>"
  let ?S2 = "upd_cset src ?f S1"
  have f: "bare (?f x) = bare x" "refcount (?f x) = refcount x" for x by (simp_all add: bare_def)
  have in_src: "src \<in> set (preloaded_src_csets m)" "src \<notin> set (preloaded_dst_csets m)" "src \<notin> set srcs"
    using prep(2,3,4) by auto
  have tb: "src \<in> set (css_set_table S)" using prep(9) in_src by simp
  have grow: "mg_grow S S1" by (rule csets_grow_mg [OF assms(2)])
  have use1: "in_use K S1 src"
    using prep(6) [OF in_src(1)] in_use_grow [OF _ grow] by (simp add: src_ok_def)
  have init: "0 < mg_pins m init_css_set" "0 < mg_pins ?m init_css_set" by (simp_all add: mg_pins_def)
  have "count_list (preloaded_src_csets m) src = 1" "count_list (preloaded_dst_csets m) src = 0"
    using prep(2) in_src by (simp_all add: count_distinct)
  then have pins: "mg_pins m = (mg_pins ?m)(src := mg_pins ?m src + 1)"
    by (auto simp: fun_eq_iff mg_pins_def count_removeAll)
  have core2: "core_ok K ((mg_pins m)(src := mg_pins m src + 1)) ?S2"
    by (rule mark_keeps(1) [where f = ?f, OF f assms(3)])
  have use2: "in_use K ?S2 src" using use1 by (subst in_use_upd) simp_all
  note put1 = put_stays [OF core2 init(1) disjI1 [OF use2]]
  let ?S3 = "put_css_set src ?S2"
  have use3: "in_use K ?S3 src" unfolding put1(1) using use2 by (subst in_use_upd) simp_all
  have core3: "core_ok K ((mg_pins ?m)(src := mg_pins ?m src + 1)) ?S3"
    unfolding pins [symmetric] by (rule put1(2))
  note put2 = put_stays [OF core3 init(2) disjI1 [OF use3]]
  let ?S4 = "put_css_set src ?S3"
  have S4: "?S4 = upd_cset src ?r (upd_cset src ?r ?S2)" using put1(1) put2(1) by simp
  have grow4: "mg_grow S ?S4"
  proof -
    have r: "bare (?r x) = bare x" for x by (simp add: bare_def)
    show ?thesis unfolding S4
      by (rule mg_grow_trans [OF mg_grow_trans [OF mg_grow_trans [OF grow]]]; rule upd_cset_grow; simp add: f r)
  qed
  have keep: "cset ?S4 x = (if x = src then ?r (?r (?f (cset S1 src))) else cset S1 x)" for x
    unfolding S4 by simp
  have rest: "css_set_table ?S4 = css_set_table S1" unfolding S4 by simp
  have tb1: "x \<in> set (css_set_table S)" "x \<in> set (css_set_table S1)" if "x \<in> set (preloaded_src_csets m)" for x
    using prep(9) [of x] that assms(2) by (auto simp: csets_grow_def)
  have marks: "mg_src_cgrp (cset ?S4 x) = mg_src_cgrp (cset S x) \<and> mg_dst_cgrp (cset ?S4 x) = mg_dst_cgrp (cset S x)
      \<and> mg_dst_cset (cset ?S4 x) = mg_dst_cset (cset S x)" if "x \<in> set (preloaded_src_csets ?m)" for x
    using that grow_marks(1) [OF assms(2) tb1(2,1), of x] by (simp add: keep)
  have "preparing to K srcs ?m ?S4"
  proof (rule preparing_next [OF assms(1) grow4 put2(2)])
    show "distinct (preloaded_src_csets ?m @ preloaded_dst_csets ?m)" using prep(2) by (auto simp: distinct_removeAll)
    show "unmarked (cset ?S4 x)" if "x \<in> set (css_set_table ?S4)" "x \<notin> set (preloaded_src_csets ?m)" for x
    proof (cases "x = src")
      case True
      have "mg_dst_cset (cset S1 src) = None"
        using grow_marks(1) [OF assms(2) tb1(2,1), of src] in_src prep(7) [of src] tb by simp
      then show ?thesis using True by (simp add: keep unmarked_def)
    next
      case False
      then show ?thesis using unmarked_grow [OF assms(1,2), of x] that rest by (simp add: keep)
    qed
    show "dst_ok to ?S4 x" if "x \<in> set (preloaded_src_csets ?m)" "x \<notin> set srcs" for x
      using that marks [OF that(1)] tb1(1) [of x] prep(8) [of x] by (intro marks_grow(2) [OF grow4]) simp_all
    show "mg_dst_cset (cset ?S4 x) = None" if "x \<in> set srcs" for x
      using marks [of x] prep(4) prep(7) [of x] that in_src(3) by auto
  qed (use prep(3,4) in_src(3) marks in auto)
  then show ?thesis using grow4 assms(4) by (simp add: prepared_step_def)
qed

text \<open>The css_set to move to is put on a list, or it is there already.\<close>

lemma prepare_other:
  assumes "preparing to K (src # srcs) m S" and "csets_grow S S1"
    and "core_ok K ((mg_pins m)(dst := mg_pins m dst + 1)) S1" and "dst \<in> set (css_set_table S1)" and "src \<noteq> dst"
    and "cgrp_links (cset S1 dst) = to (cgrp_links (cset S src))"
    and "(m', S') = (let S2 = upd_cset src (\<lambda>x. x\<lparr>mg_dst_cset := Some dst\<rparr>) S1 in
      if dst \<notin> set (preloaded_src_csets m) \<union> set (preloaded_dst_csets m)
      then (m\<lparr>preloaded_dst_csets := preloaded_dst_csets m @ [dst]\<rparr>, S2) else (m, put_css_set dst S2))"
  shows "prepared_step to K src srcs m S m' S'"
proof -
  note prep = preparingD [OF assms(1)]
  let ?f = "\<lambda>x. x\<lparr>mg_dst_cset := Some dst\<rparr>" and ?r = "\<lambda>x. x\<lparr>refcount := refcount x - 1\<rparr>"
  let ?S2 = "upd_cset src ?f S1"
  have f: "bare (?f x) = bare x" "refcount (?f x) = refcount x" for x by (simp_all add: bare_def)
  have in_src: "src \<in> set (preloaded_src_csets m)" "src \<notin> set srcs" using prep(3,4) by auto
  have grow: "mg_grow S S1" by (rule csets_grow_mg [OF assms(2)])
  have core2: "core_ok K ((mg_pins m)(dst := mg_pins m dst + 1)) ?S2"
    by (rule mark_keeps(1) [where f = ?f, OF f assms(3)])
  have grow2: "mg_grow S ?S2" by (rule mg_grow_trans [OF grow upd_cset_grow]) (rule f)
  have lists: "preloaded_src_csets m' = preloaded_src_csets m" "src_csets m' = src_csets m" "dst_csets m' = dst_csets m"
    "tset_nr_tasks m' = tset_nr_tasks m" "distinct (preloaded_src_csets m' @ preloaded_dst_csets m')"
    using assms(7) prep(2) by (auto simp: Let_def split: if_splits)
  have end_ok: "core_ok K (mg_pins m') S' \<and> (S' = ?S2 \<or> S' = upd_cset dst ?r ?S2)"
  proof (cases "dst \<in> set (preloaded_src_csets m) \<union> set (preloaded_dst_csets m)")
    case True
    then have "m' = m" "S' = put_css_set dst ?S2" using assms(7) by (simp_all add: Let_def)
    moreover have "0 < mg_pins m init_css_set" by (simp add: mg_pins_def)
    ultimately show ?thesis using put_stays [OF core2 _ disjI2 [OF mg_pins_pos [OF True]]] by simp
  next
    case False
    then have m': "m' = m\<lparr>preloaded_dst_csets := preloaded_dst_csets m @ [dst]\<rparr>" "S' = ?S2"
      using assms(7) by (simp_all add: Let_def)
    then have "mg_pins m' = (mg_pins m)(dst := mg_pins m dst + 1)" by (auto simp: fun_eq_iff mg_pins_def)
    then show ?thesis using core2 m'(2) by simp
  qed
  have r: "bare (?r x) = bare x" for x by (simp add: bare_def)
  have grow': "mg_grow S S'"
    using end_ok grow2 mg_grow_trans [OF grow2 upd_cset_grow [where f = ?r, OF r]] by blast
  have tb': "css_set_table S' = css_set_table S1" using end_ok by auto
  have tb1: "x \<in> set (css_set_table S)" "x \<in> set (css_set_table S1)" if "x \<in> set (preloaded_src_csets m)" for x
    using prep(9) [of x] that assms(2) by (auto simp: csets_grow_def)
  have marks1: "mg_src_cgrp (cset S' x) = mg_src_cgrp (cset S1 x) \<and> mg_dst_cgrp (cset S' x) = mg_dst_cgrp (cset S1 x)
      \<and> mg_dst_cset (cset S' x) = (if x = src then Some dst else mg_dst_cset (cset S1 x))" for x
    using end_ok by auto
  have marks: "mg_src_cgrp (cset S' x) = mg_src_cgrp (cset S x) \<and> mg_dst_cgrp (cset S' x) = mg_dst_cgrp (cset S x)
      \<and> mg_dst_cset (cset S' x) = (if x = src then Some dst else mg_dst_cset (cset S x))"
    if "x \<in> set (preloaded_src_csets m)" for x
    using that grow_marks(1) [OF assms(2) tb1(2,1), of x] marks1 [of x] by simp
  have links: "cgrp_links (cset S' x) = cgrp_links (cset S1 x)" for x using end_ok by auto
  have "preparing to K srcs m' S'"
  proof (rule preparing_next [OF assms(1) grow' conjunct1 [OF end_ok] lists(5)])
    show "unmarked (cset S' x)" if "x \<in> set (css_set_table S')" "x \<notin> set (preloaded_src_csets m')" for x
      using that in_src(1) unmarked_grow [OF assms(1,2), of x] marks1 [of x] lists(1) tb'
      by (auto simp: unmarked_def)
    show "dst_ok to S' x" if x: "x \<in> set (preloaded_src_csets m')" "x \<notin> set srcs" for x
    proof (cases "x = src")
      case True
      have "cgrp_links (cset S' src) = cgrp_links (cset S src)"
        by (rule bare_eqD(2) [OF mg_growD(2) [OF grow' tb1(1) [OF in_src(1)]]])
      then show ?thesis
        using True marks [OF in_src(1)] assms(4-6) tb' links [of dst] by (auto simp: dst_ok_def)
    next
      case False
      then show ?thesis
        using x marks [of x] tb1(1) [of x] prep(8) [of x] lists(1) by (intro marks_grow(2) [OF grow']) simp_all
    qed
    show "mg_dst_cset (cset S' x) = None" if "x \<in> set srcs" for x
      using marks [of x] prep(4) prep(7) [of x] that in_src(2) by auto
  qed (use prep(3,4) marks lists(1) in auto)
  then show ?thesis using grow' lists by (simp add: prepared_step_def)
qed

lemma mg_pins_mask [simp]: "mg_pins (m\<lparr>mg_ss_mask := k\<rparr>) = mg_pins m"
  by (simp add: mg_pins_def fun_eq_iff)

lemma preparing_mask [simp]: "preparing to K srcs (m\<lparr>mg_ss_mask := k\<rparr>) S = preparing to K srcs m S"
  by (simp add: preparing_def)

lemma prepared_step_mask [simp]:
  "prepared_step to K src srcs m S (m'\<lparr>mg_ss_mask := k\<rparr>) S' = prepared_step to K src srcs m S m' S'"
  by (simp add: prepared_step_def)

lemma prepare_one_ok:
  assumes "preparing to K (src # srcs) m S" and "prepare_one P src m S = (r, m', S')"
  shows "if r = 0 then prepared_step to K src srcs m S m' S'
    else m' = m \<and> mg_grow S S' \<and> preparing to K (src # srcs) m S'"
proof -
  note prep = preparingD [OF assms(1)]
  have in_src: "src \<in> set (preloaded_src_csets m)" using prep(4) by auto
  obtain d where d: "d \<in> set (tcss (ftree S))" "mg_dst_cgrp (cset S src) = Some d"
    "new_links S src d = to (cgrp_links (cset S src))"
    using prep(6) [OF in_src] by (auto simp: src_ok_def)
  obtain res S1 where find: "find_css_set P src d S = (res, S1)" by (cases "find_css_set P src d S")
  note found = prepare_find [OF assms(1) d(2,1) find]
  show ?thesis
  proof (cases res)
    case None
    then have "r = - ENOMEM" "m' = m" "S' = S1" using assms(2) d(2) find by (auto simp: prepare_one_def)
    then show ?thesis
      using prepare_fails [OF assms(1) found(1,2)] None csets_grow_mg [OF found(1)] by (simp add: ENOMEM_def)
  next
    case (Some dst)
    note f = found(3) [OF Some]
    have links: "cgrp_links (cset S1 dst) = to (cgrp_links (cset S src))" "dst \<in> set (css_set_table S1)"
      using f d(3) by (simp_all add: found_ok_def)
    show ?thesis
    proof (cases "src = dst")
      case True
      have "cgrp_links (cset S1 src) = cgrp_links (cset S src)"
        using bare_eqD(2) [OF mg_growD(2) [OF csets_grow_mg [OF found(1)]]] prep(9) in_src by simp
      then have "prepared_step to K src srcs m S (m\<lparr>preloaded_src_csets := removeAll src (preloaded_src_csets m)\<rparr>)
        (put_css_set src (put_css_set src (upd_cset src (\<lambda>x. x\<lparr>mg_src_cgrp := None, mg_dst_cgrp := None\<rparr>) S1)))"
        using True f links by (intro prepare_same [OF assms(1) found(1)]) simp_all
      then show ?thesis using assms(2) d(2) find Some True by (auto simp: prepare_one_def)
    next
      case False
      obtain m2 S2 where two: "(m2, S2) = (let S2 = upd_cset src (\<lambda>x. x\<lparr>mg_dst_cset := Some dst\<rparr>) S1 in
          if dst \<notin> set (preloaded_src_csets m) \<union> set (preloaded_dst_csets m)
          then (m\<lparr>preloaded_dst_csets := preloaded_dst_csets m @ [dst]\<rparr>, S2) else (m, put_css_set dst S2))"
        by (metis surj_pair)
      have "prepared_step to K src srcs m S m2 S2"
        using f by (intro prepare_other [OF assms(1) found(1) _ links(2) False links(1) two]) simp
      moreover have "r = 0" "S' = S2" "\<exists>k. m' = m2\<lparr>mg_ss_mask := k\<rparr>"
        using assms(2) d(2) find Some False two
        by (auto simp: prepare_one_def Let_def split: if_splits)
      ultimately show ?thesis by auto
    qed
  qed
qed

lemma prepare_loop_ok:
  assumes "preparing to K srcs m S" and "prepare_loop P srcs m S = (r, m', S')"
  shows "\<exists>rest. preparing to K rest m' S' \<and> (r = 0 \<longrightarrow> rest = []) \<and> mg_grow S S'
    \<and> src_csets m' = src_csets m \<and> dst_csets m' = dst_csets m \<and> tset_nr_tasks m' = tset_nr_tasks m
    \<and> set (preloaded_src_csets m') \<subseteq> set (preloaded_src_csets m)
    \<and> (\<forall>x \<in> set (preloaded_src_csets m). x \<notin> set (preloaded_src_csets m') \<longrightarrow>
          to (cgrp_links (cset S x)) = cgrp_links (cset S x))"
  using assms
proof (induction srcs arbitrary: m S)
  case Nil
  then show ?case by (intro exI [of _ "[]"]) simp
next
  case (Cons src srcs)
  obtain r1 m1 S1 where one: "prepare_one P src m S = (r1, m1, S1)" by (cases "prepare_one P src m S")
  note step = prepare_one_ok [OF Cons.prems(1) one]
  show ?case
  proof (cases "r1 = 0")
    case False
    then show ?thesis using step one Cons.prems(2) by (intro exI [of _ "src # srcs"]) (auto simp: Let_def)
  next
    case True
    then have s: "prepared_step to K src srcs m S m1 S1" using step by simp
    have "prepare_loop P srcs m1 S1 = (r, m', S')" using Cons.prems(2) one True by simp
    then obtain rest where rest: "preparing to K rest m' S'" "r = 0 \<longrightarrow> rest = []" "mg_grow S1 S'"
      "src_csets m' = src_csets m1" "dst_csets m' = dst_csets m1" "tset_nr_tasks m' = tset_nr_tasks m1"
      "set (preloaded_src_csets m') \<subseteq> set (preloaded_src_csets m1)"
      "\<forall>x \<in> set (preloaded_src_csets m1). x \<notin> set (preloaded_src_csets m') \<longrightarrow>
          to (cgrp_links (cset S1 x)) = cgrp_links (cset S1 x)"
      using Cons.IH [of m1 S1] s by (auto simp: prepared_step_def)
    have same: "cgrp_links (cset S1 x) = cgrp_links (cset S x)" if "x \<in> set (preloaded_src_csets m)" for x
      using bare_eqD(2) [OF mg_growD(2)] s preparingD(9) [OF Cons.prems(1), of x] that
      by (metis UnI1 prepared_step_def)
    have "to (cgrp_links (cset S x)) = cgrp_links (cset S x)"
      if "x \<in> set (preloaded_src_csets m)" "x \<notin> set (preloaded_src_csets m')" for x
      using rest(8) s that same [OF that(1)] by (cases "x \<in> set (preloaded_src_csets m1)") (auto simp: prepared_step_def)
    then show ?thesis
      using rest s mg_grow_trans [OF _ rest(3)] by (intro exI [of _ rest]) (auto simp: prepared_step_def)
  qed
qed

end
