(* ===== verification/Attach_Correct.thy ===== *)
theory Attach_Correct
  imports Migrate_Prepare
begin

section \<open>Attaching tasks\<close>

subsection \<open>Collecting the css_sets\<close>

lemma from_root_there:
  assumes "csets_ok K pins S" and "s \<in> set (css_set_table S)" and "root \<in> set (hierarchies S)"
  shows "cset_cgroup_from_root S s root \<noteq> None"
proof -
  have "root \<in> set (map (root_of S) (cgrp_links (cset S s)))"
    using csets_okD(8) [OF assms(1,2)] assms(3) by (simp add: cset_wf_def)
  then have "find (\<lambda>c. root_of S c = root) (cgrp_links (cset S s)) \<noteq> None" unfolding find_None_iff by auto
  then show ?thesis by (simp add: cset_cgroup_from_root_def)
qed

text \<open>All css_sets of the list have still to be prepared.\<close>

definition collecting :: "(nat list \<Rightarrow> nat list) \<Rightarrow> nat set \<Rightarrow> mgctx \<Rightarrow> cgsys \<Rightarrow> bool" where
  "collecting to K m S \<longleftrightarrow> preparing to K (preloaded_src_csets m) m S \<and> src_csets m = [] \<and> dst_csets m = []"

lemma add_src_ok:
  assumes "collecting to K m S" and "s \<in> set (css_set_table S)" and "in_use K S s"
    and "dst \<in> set (tcss (ftree S))" and "root_of S dst \<in> set (hierarchies S)"
    and "new_links S s dst = to (cgrp_links (cset S s))"
    and "cgroup_migrate_add_src s dst (m, S) = (m', S')"
  shows "collecting to K m' S' \<and> mg_grow S S'
    \<and> set (preloaded_src_csets m') = set (preloaded_src_csets m)
        \<union> (if cset_dead (cset S s) \<or> s \<in> set (preloaded_dst_csets m) then {} else {s})
    \<and> preloaded_dst_csets m' = preloaded_dst_csets m"
proof (cases "cset_dead (cset S s) \<or> s \<in> set (preloaded_src_csets m) \<union> set (preloaded_dst_csets m)")
  case True
  then show ?thesis
    using assms(1,7) from_root_there [OF core_okD(1) [OF preparingD(1)] assms(2,5)]
    by (auto simp: cgroup_migrate_add_src_def collecting_def split: if_splits option.splits)
next
  case False
  have prep: "preparing to K (preloaded_src_csets m) m S" using assms(1) by (simp add: collecting_def)
  note P = preparingD [OF prep]
  obtain c where c: "cset_cgroup_from_root S s (root_of S dst) = Some c"
    using from_root_there [OF core_okD(1) [OF P(1)] assms(2,5)] by auto
  let ?f = "\<lambda>x. x\<lparr>mg_src_cgrp := Some c, mg_dst_cgrp := Some dst\<rparr>"
  let ?S1 = "upd_cset s ?f S" and ?m = "m\<lparr>preloaded_src_csets := preloaded_src_csets m @ [s]\<rparr>"
  let ?S2 = "get_css_set s ?S1"
  have eq: "m' = ?m" "S' = ?S2"
    using assms(7) False c by (auto simp: cgroup_migrate_add_src_def)
  have f: "bare (?f x) = bare x" "refcount (?f x) = refcount x" for x by (simp_all add: bare_def)
  have core1: "core_ok K (mg_pins m) ?S1" by (rule mark_keeps(1) [where f = ?f, OF f P(1)])
  have pins: "mg_pins ?m = (mg_pins m)(s := mg_pins m s + 1)" by (auto simp: fun_eq_iff mg_pins_def)
  have core2: "core_ok K (mg_pins ?m) ?S2"
    unfolding pins
    using assms(2) core_okD(6) [OF core1] core_okD(5) [OF core1]
    by (intro core_ok_grow [OF core1 get_css_set_grow] get_css_set_ok core_okD(1) [OF core1]) (auto split: if_splits)
  have grow: "mg_grow S ?S2"
    by (rule mg_grow_trans [OF upd_cset_grow csets_grow_mg [OF get_css_set_grow]]) (rule f)
  have at_x: "mg_src_cgrp (cset ?S2 x) = (if x = s then Some c else mg_src_cgrp (cset S x))"
    "mg_dst_cgrp (cset ?S2 x) = (if x = s then Some dst else mg_dst_cgrp (cset S x))"
    "mg_dst_cset (cset ?S2 x) = mg_dst_cset (cset S x)" "css_set_table ?S2 = css_set_table S" for x
    by (simp_all add: get_css_set_def)
  note at_x' = at_x(1-3)
  have "src_ok to K ?S2 x" if x: "x \<in> set (preloaded_src_csets ?m)" for x
  proof (cases "x = s")
    case True
    have "new_links ?S2 s dst = to (cgrp_links (cset ?S2 s))"
      using assms(6) by (simp add: new_links_def get_css_set_def)
    then show ?thesis
      using True at_x' [of s] assms(4) in_use_grow [OF assms(3) grow]
      by (simp add: src_ok_def) (simp add: get_css_set_def)
  next
    case False
    then have "x \<in> set (preloaded_src_csets m)" using x by simp
    then show ?thesis using P(6,9) at_x' [of x] False by (intro marks_grow(1) [OF grow]) auto
  qed
  moreover have "mg_dst_cset (cset ?S2 x) = None" if "x \<in> set (preloaded_src_csets ?m)" for x
    using that P(7) [of x] P(5) [OF assms(2)] False unfolding at_x by (auto simp: unmarked_def)
  moreover have "unmarked (cset ?S2 x)" if "x \<in> set (css_set_table ?S2)" "x \<notin> set (preloaded_src_csets ?m)" for x
    using that P(5) [of x] at_x' [of x] by (simp add: unmarked_def)
  ultimately have "preparing to K (preloaded_src_csets ?m) ?m ?S2"
    using core2 P(2) False by (simp add: preparing_def)
  then show ?thesis using False grow assms(1) unfolding eq collecting_def by auto
qed

lemma mg_grow_only: "mg_grow S S' \<Longrightarrow> csets_only S S'"
  by (simp add: mg_grow_def)

lemma hierarchies_grow:
  assumes "mg_grow S S'" and "init_css_set \<in> set (css_set_table S)"
  shows "hierarchies S' = hierarchies S"
  using bare_eqD(2) [OF mg_growD(2) [OF assms]] csets_onlyD(2) [OF mg_grow_only [OF assms(1)]]
  by (simp add: hierarchies_def)

lemma at_links_grow:
  assumes "mg_grow S S'" and "task_css_set S t \<in> set (css_set_table S)"
  shows "at_links S' t = at_links S t"
  using bare_eqD(2) [OF mg_growD(2) [OF assms]] csets_onlyD(7) [OF mg_grow_only [OF assms(1)]]
  by (simp add: at_links_def)

lemma on_list_grow:
  assumes "mg_grow S S'" and "task_css_set S t \<in> set (css_set_table S)"
  shows "on_list S' t = on_list S t"
  using bare_eqD(5,6) [OF mg_growD(2) [OF assms]] csets_onlyD(7) [OF mg_grow_only [OF assms(1)]]
  by (simp add: on_list_def)

text \<open>To the cgroup \<open>dst\<close> in its hierarchy, elsewhere unchanged.\<close>

definition to_cgroup :: "cgsys \<Rightarrow> nat \<Rightarrow> nat list \<Rightarrow> nat list" where
  "to_cgroup S dst = map (\<lambda>c. if root_of S c = root_of S dst then dst else c)"

lemma to_cgroup_twice: "to_cgroup S dst (to_cgroup S dst l) = to_cgroup S dst l"
  by (simp add: to_cgroup_def)

lemma new_links_to: "new_links S s dst = to_cgroup S dst (cgrp_links (cset S s))"
  by (simp add: new_links_def to_cgroup_def)

lemma to_cgroup_same: "root_of S' = root_of S \<Longrightarrow> to_cgroup S' = to_cgroup S"
  by (simp add: fun_eq_iff to_cgroup_def)

lemma collect_all:
  assumes "collecting (to_cgroup S0 dst) K m S" and "preloaded_dst_csets m = []" and "root_of S = root_of S0"
    and "dst \<in> set (tcss (ftree S))" and "root_of S dst \<in> set (hierarchies S)" and "set ts \<subseteq> K"
    and "fold (\<lambda>task (m, S). cgroup_migrate_add_src (task_css_set S task) dst (m, S)) ts (m, S) = (m', S')"
  shows "collecting (to_cgroup S0 dst) K m' S' \<and> mg_grow S S' \<and> preloaded_dst_csets m' = []
    \<and> set (preloaded_src_csets m') = set (preloaded_src_csets m)
        \<union> {s \<in> task_css_set S ` set ts. \<not> cset_dead (cset S s)}"
  using assms
proof (induction ts arbitrary: m S)
  case Nil
  then show ?case by simp
next
  case (Cons t ts)
  let ?s = "task_css_set S t"
  have prep: "preparing (to_cgroup S0 dst) K (preloaded_src_csets m) m S" using Cons.prems(1) by (simp add: collecting_def)
  note cs = csets_okD [OF core_okD(1) [OF preparingD(1) [OF prep]]]
  have s: "?s \<in> set (css_set_table S)" using cs(6) Cons.prems(6) by simp
  have use: "in_use K S ?s" using Cons.prems(6) by (auto simp: in_use_def tasks_of_def)
  obtain m1 S1 where one: "cgroup_migrate_add_src ?s dst (m, S) = (m1, S1)" by (metis surj_pair)
  have "new_links S ?s dst = to_cgroup S0 dst (cgrp_links (cset S ?s))"
    using to_cgroup_same [OF Cons.prems(3)] by (simp add: new_links_to)
  note step = add_src_ok [OF Cons.prems(1) s use Cons.prems(4,5) this one]
  have grow: "mg_grow S S1" using step by simp
  note only = csets_onlyD [OF mg_grow_only [OF grow]]
  have rest: "fold (\<lambda>task (m, S). cgroup_migrate_add_src (task_css_set S task) dst (m, S)) ts (m1, S1) = (m', S')"
    using Cons.prems(7) one by simp
  have IH: "collecting (to_cgroup S0 dst) K m' S' \<and> mg_grow S1 S' \<and> preloaded_dst_csets m' = []
    \<and> set (preloaded_src_csets m') = set (preloaded_src_csets m1)
        \<union> {s \<in> task_css_set S1 ` set ts. \<not> cset_dead (cset S1 s)}"
    using step Cons.prems(2-6) hierarchies_grow [OF grow cs(4)] by (intro Cons.IH [OF _ _ _ _ _ _ rest]) (simp_all add: only)
  have "cset_dead (cset S1 x) = cset_dead (cset S x)" if "x \<in> task_css_set S ` set ts" for x
    using that cs(6) Cons.prems(6) bare_eqD(9) [OF mg_growD(2) [OF grow]] by auto
  then have "{s \<in> task_css_set S1 ` set ts. \<not> cset_dead (cset S1 s)} = {s \<in> task_css_set S ` set ts. \<not> cset_dead (cset S s)}"
    by (auto simp: only)
  then show ?case using IH step Cons.prems(2) mg_grow_trans [OF grow] by auto
qed

subsection \<open>Collecting the tasks\<close>

definition mg_task_set :: "cgsys \<Rightarrow> nat set" where
  "mg_task_set S = (\<Union>s \<in> set (css_set_table S). set (mg_tasks (cset S s)))"

definition loading :: "(nat list \<Rightarrow> nat list) \<Rightarrow> nat set \<Rightarrow> mgctx \<Rightarrow> cgsys \<Rightarrow> bool" where
  "loading to K m S \<longleftrightarrow> preparing to K [] m S
     \<and> (\<forall>x \<in> set (src_csets m). x \<in> set (preloaded_src_csets m)
          \<and> (\<exists>y \<in> set (dst_csets m @ src_csets m). mg_dst_cset (cset S x) = Some y))
     \<and> (\<forall>x \<in> set (css_set_table S). mg_tasks (cset S x) \<noteq> [] \<longrightarrow> x \<in> set (dst_csets m @ src_csets m))
     \<and> (\<forall>x \<in> set (dst_csets m). to (cgrp_links (cset S x)) = cgrp_links (cset S x))"

lemma loadingD:
  assumes "loading to K m S"
  shows "preparing to K [] m S"
    and "\<And>x. x \<in> set (src_csets m) \<Longrightarrow> x \<in> set (preloaded_src_csets m)"
    and "\<And>x. x \<in> set (src_csets m) \<Longrightarrow> \<exists>y \<in> set (dst_csets m @ src_csets m). mg_dst_cset (cset S x) = Some y"
    and "\<And>x. x \<in> set (css_set_table S) \<Longrightarrow> mg_tasks (cset S x) \<noteq> [] \<Longrightarrow> x \<in> set (dst_csets m @ src_csets m)"
    and "\<And>x. x \<in> set (dst_csets m) \<Longrightarrow> to (cgrp_links (cset S x)) = cgrp_links (cset S x)"
  using assms by (auto simp: loading_def)

lemma loading_ready:
  assumes "loading to K m S" and "\<And>l. to (to l) = to l"
  shows "mg_ready K m S" and "goes_to to m S" and "set (taskset m S) \<subseteq> mg_task_set S"
    and "t \<in> mg_task_set S \<Longrightarrow> t \<notin> set (taskset m S) \<Longrightarrow> to (at_links S t) = at_links S t"
proof -
  note L = loadingD [OF assms(1)]
  note P = preparingD [OF L(1)]
  have d: "dst_ok to S x" if "x \<in> set (src_csets m)" for x using P(8) [OF L(2) [OF that]] by simp
  have "x \<in> set (preloaded_src_csets m) \<and> (\<exists>y. mg_dst_cset (cset S x) = Some y
          \<and> y \<in> set (css_set_table S) \<and> y \<noteq> x \<and> y \<in> set (dst_csets m @ src_csets m))"
    if "x \<in> set (src_csets m)" for x
    using L(2,3) [OF that] d [OF that] by (auto simp: dst_ok_def)
  then show "mg_ready K m S" using P(1) L(4) unfolding mg_ready_def by auto
  show "goes_to to m S" using assms(2) d unfolding goes_to_def dst_ok_def by (metis option.inject)
  have "x \<in> set (css_set_table S)" if "x \<in> set (src_csets m)" for x using P(9) L(2) [OF that] by simp
  then show "set (taskset m S) \<subseteq> mg_task_set S" by (auto simp: taskset_def mg_task_set_def)
  show "to (at_links S t) = at_links S t" if "t \<in> mg_task_set S" "t \<notin> set (taskset m S)"
  proof -
    obtain x where x: "x \<in> set (css_set_table S)" "t \<in> set (mg_tasks (cset S x))"
      using \<open>t \<in> mg_task_set S\<close> by (auto simp: mg_task_set_def)
    then have "x \<in> set (dst_csets m) \<union> set (src_csets m)" using L(4) [OF x(1)] by force
    then have "x \<in> set (dst_csets m)" using that(2) x(2) by (auto simp: taskset_def)
    moreover have "task_css_set S t = x"
      using mg_listed(2) [OF core_okD(1) [OF P(1)] x(1)] x(2) by (simp add: all_tasks_def)
    ultimately show ?thesis using L(5) by (simp add: at_links_def)
  qed
qed

lemma preparing_moves:
  assumes "preparing to K srcs m S" and "moves_only S S'" and "task_css_set S' = task_css_set S"
    and "core_ok K (mg_pins m) S'"
  shows "preparing to K srcs m S'"
proof -
  note P = preparingD [OF assms(1)] and D = moves_onlyD [OF assms(2)]
    and sh = shell_eqD [OF moves_onlyD(14) [OF assms(2)]]
  have use: "in_use K S' x = in_use K S x" for x
    unfolding in_use_def tasks_of_def threaded_csets_def D sh assms(3) ..
  have "src_ok to K S' x = src_ok to K S x" for x
    unfolding src_ok_def use D sh new_links_def ..
  moreover have "dst_ok to S' x = dst_ok to S x" for x unfolding dst_ok_def D sh ..
  moreover have "unmarked (cset S' x) = unmarked (cset S x)" for x unfolding unmarked_def sh ..
  ultimately show ?thesis using assms(1,4) unfolding preparing_def D sh by simp
qed

text \<open>A task goes from one list of its css_set to \<open>mg_tasks\<close>.\<close>

definition put_on_mg :: "nat \<Rightarrow> css_set \<Rightarrow> css_set" where
  "put_on_mg t x = (let x = unlist_task t x in x\<lparr>mg_tasks := mg_tasks x @ [t]\<rparr>)"

lemma put_on_mg_fields: "shell (put_on_mg t x) = shell x" "refcount (put_on_mg t x) = refcount x"
  "nr_tasks (put_on_mg t x) = nr_tasks x" "dying_tasks (put_on_mg t x) = dying_tasks (unlist_task t x)"
  "mg_tasks (put_on_mg t x) = mg_tasks (unlist_task t x) @ [t]"
  "cset_tasks (put_on_mg t x) = cset_tasks (unlist_task t x)"
  by (simp_all add: put_on_mg_def unlist_task_def shell_def)

lemma put_on_mg_all:
  assumes "distinct (all_tasks x)" and "t \<in> set (all_tasks x)"
  shows "distinct (all_tasks (put_on_mg t x))" and "set (all_tasks (put_on_mg t x)) = set (all_tasks x)"
  using assms by (auto simp: all_tasks_def put_on_mg_def unlist_task_def distinct_removeAll)

lemma mg_list_ok:
  assumes "core_ok K pins S" and "t \<in> K" and "task_css_set S t = s" and "t \<in> set (all_tasks (cset S s))"
    and "\<not> exiting S t"
  shows "core_ok K pins (upd_cset s (put_on_mg t) S)" and "moves_only S (upd_cset s (put_on_mg t) S)"
proof -
  note ok = core_okD [OF assms(1)]
  note cs = csets_okD [OF ok(1)]
  let ?S = "upd_cset s (put_on_mg t) S" and ?g = "(cset S)(s := put_on_mg t (cset S s))"
  have s: "s \<in> set (css_set_table S)" using cs(6) [OF assms(2)] assms(3) by simp
  have eq: "?S = S\<lparr>cset := ?g, task_css_set := task_css_set S, cgroups := cgroups S, cgcalls := cgcalls S, asked := asked S\<rparr>"
    by (simp add: upd_cset_def)
  have lists: "distinct (all_tasks (cset S s))" using cs(9) [OF s] by (simp add: lists_ok_def)
  note all = put_on_mg_all [OF lists assms(4)]
  note shp = shell_eqD [OF put_on_mg_fields(1)]
  have "t \<notin> set (dying_tasks (cset S s))" using ok(4) [OF s] assms(5) by (auto simp: tasks_counted_def list_all_iff)
  then have on: "t \<in> set (cset_tasks (cset S s)) \<union> set (mg_tasks (cset S s))" using assms(4) by (auto simp: all_tasks_def)
  note one = in_one_list [OF lists on]
  have "csets_ok K pins (S\<lparr>cset := ?g, task_css_set := task_css_set S, cgroups := cgroups S, cgcalls := cgcalls S\<rparr>)"
  proof (rule csets_ok_lists [OF ok(1) cs(2)])
    show "cgrp_links (?g x) = cgrp_links (cset S x) \<and> dfl_cgrp (?g x) = dfl_cgrp (cset S x)
        \<and> dom_cset (?g x) = dom_cset (cset S x)" for x
      using shp(2-4) [of t "cset S s"] by simp
    show "distinct (all_tasks (?g y)) \<and> set (all_tasks (?g y)) \<subseteq> {t \<in> K. task_css_set S t = y}"
      if "y \<in> set (css_set_table S)" for y
      using cs(9) [OF that] all by (auto simp: lists_ok_def tasks_of_def)
    show "refcount (?g y) = int (pins y + card {t \<in> K. task_css_set S t = y}) + int (card (threaded_csets S y))"
      if "y \<in> set (css_set_table S)" for y
      using cs(10) [OF that] put_on_mg_fields(2) [of t "cset S s"] by (auto simp: refs_def tasks_of_def)
  qed (use cs(6) in simp)
  then have "csets_ok K pins ?S" by (simp add: upd_cset_def)
  moreover have "counted (css_set_populated ?S) ?S"
    by (rule counted_kept [OF ok(3)])
      (use on shp(2) in \<open>auto simp: css_set_populated_def put_on_mg_fields upd_cset_def split: if_splits\<close>)
  moreover have "tasks_counted ?S y" if "y \<in> set (css_set_table S)" for y
    using ok(4) [OF that] one by (auto simp: tasks_counted_def put_on_mg_fields upd_cset_def)
  moreover have "domains_ok ?S = domains_ok S"
    by (simp add: domains_ok_def cgroup_is_threaded_def upd_cset_def)
  ultimately show "core_ok K pins ?S" using ok(2,5,6) by (simp add: core_ok_def)
  show "moves_only S ?S"
    by (rule moves_onlyI [OF eq]) (simp_all add: put_on_mg_fields)
qed

lemma mg_task_set_list:
  assumes "csets_ok K pins S" and "t \<in> K" and "task_css_set S t = s"
  shows "mg_task_set (upd_cset s (put_on_mg t) S) = insert t (mg_task_set S)"
proof -
  note cs = csets_okD [OF assms(1)]
  have s: "s \<in> set (css_set_table S)" using cs(6) [OF assms(2)] assms(3) by simp
  have "t \<notin> set (mg_tasks (cset S x))" if "x \<in> set (css_set_table S)" "x \<noteq> s" for x
    using cs(9) [OF that(1)] that(2) assms(3) by (auto simp: lists_ok_def tasks_of_def all_tasks_def)
  moreover have "set (mg_tasks (put_on_mg t x)) = insert t (set (mg_tasks x))" for x
    by (auto simp: put_on_mg_fields unlist_task_def)
  ultimately show ?thesis using s by (auto simp: mg_task_set_def split: if_splits)
qed

lemma cg_listed_all: "cg_listed S t = (t \<in> set (all_tasks (cset S (task_css_set S t))))"
  by (simp add: cg_listed_def all_tasks_def Let_def)

definition to_move :: "mgctx \<Rightarrow> cgsys \<Rightarrow> nat \<Rightarrow> bool" where
  "to_move m S t \<longleftrightarrow> \<not> exiting S t \<and> cg_listed S t \<and> task_css_set S t \<in> set (preloaded_src_csets m)"

lemma add_task_ok:
  assumes "loading to K m S" and "t \<in> K" and "cgroup_migrate_add_task t (m, S) = (m', S')"
    and "\<And>l. to (to l) = to l"
  shows "loading to K m' S' \<and> moves_only S S' \<and> task_css_set S' = task_css_set S
    \<and> mg_task_set S' = mg_task_set S \<union> (if to_move m S t then {t} else {})
    \<and> preloaded_src_csets m' = preloaded_src_csets m \<and> preloaded_dst_csets m' = preloaded_dst_csets m
    \<and> (\<forall>u. cg_listed S' u = cg_listed S u) \<and> on_list S' = on_list S"
proof -
  note L = loadingD [OF assms(1)]
  note P = preparingD [OF L(1)]
  let ?s = "task_css_set S t"
  have s: "?s \<in> set (css_set_table S)" using csets_okD(6) [OF core_okD(1) [OF P(1)] assms(2)] .
  have src: "mg_src_cgrp (cset S ?s) \<noteq> None \<longleftrightarrow> ?s \<in> set (preloaded_src_csets m)"
    using P(5) [OF s] P(6) [of ?s] unfolding src_ok_def unmarked_def
    by (cases "?s \<in> set (preloaded_src_csets m)") simp_all
  show ?thesis
  proof (cases "to_move m S t")
    case False
    then have "(m', S') = (m, S)"
      using assms(3) src by (auto simp: cgroup_migrate_add_task_def to_move_def cg_listed_def Let_def split: if_splits)
    then show ?thesis using False assms(1) by simp
  next
    case True
    then have move: "\<not> exiting S t" "cg_listed S t" "?s \<in> set (preloaded_src_csets m)" by (auto simp: to_move_def)
    obtain d where d: "mg_dst_cset (cset S ?s) = Some d" using P(8) [OF move(3)] by (auto simp: dst_ok_def)
    let ?m1 = "m\<lparr>tset_nr_tasks := tset_nr_tasks m + 1\<rparr>"
    let ?m2 = "if ?s \<notin> set (src_csets m) \<union> set (dst_csets m) then ?m1\<lparr>src_csets := src_csets m @ [?s]\<rparr> else ?m1"
    have eq: "S' = upd_cset ?s (put_on_mg t) S"
      "m' = (if d \<notin> set (src_csets ?m2) \<union> set (dst_csets ?m2) then ?m2\<lparr>dst_csets := dst_csets ?m2 @ [d]\<rparr> else ?m2)"
    proof -
      obtain c where "mg_src_cgrp (cset S ?s) = Some c" using src move(3) by blast
      moreover have "t \<in> set (cset_tasks (cset S ?s)) \<union> set (mg_tasks (cset S ?s)) \<union> set (dying_tasks (cset S ?s))"
        using move(2) by (simp add: cg_listed_def Let_def)
      moreover have "put_on_mg t = (\<lambda>x. let x = unlist_task t x in x\<lparr>mg_tasks := mg_tasks x @ [t]\<rparr>)"
        by (simp add: fun_eq_iff put_on_mg_def)
      ultimately have "cgroup_migrate_add_task t (m, S) = ((if d \<notin> set (src_csets ?m2) \<union> set (dst_csets ?m2)
          then ?m2\<lparr>dst_csets := dst_csets ?m2 @ [d]\<rparr> else ?m2), upd_cset ?s (put_on_mg t) S)"
        using move(1) d unfolding cgroup_migrate_add_task_def Let_def by simp
      then show "S' = upd_cset ?s (put_on_mg t) S"
        "m' = (if d \<notin> set (src_csets ?m2) \<union> set (dst_csets ?m2) then ?m2\<lparr>dst_csets := dst_csets ?m2 @ [d]\<rparr> else ?m2)"
        using assms(3) by simp_all
    qed
    note listed = move(2) [unfolded cg_listed_all]
    note one = mg_list_ok [OF P(1) assms(2) refl listed move(1), folded eq(1)]
    have tcs: "task_css_set S' = task_css_set S" by (simp add: eq(1))
    have lists: "preloaded_src_csets m' = preloaded_src_csets m" "preloaded_dst_csets m' = preloaded_dst_csets m"
      by (simp_all add: eq(2))
    have pins: "mg_pins m' = mg_pins m" by (simp add: fun_eq_iff mg_pins_def lists)
    have "preparing to K [] m S'" by (rule preparing_moves [OF L(1) one(2) tcs one(1)])
    then have prep: "preparing to K [] m' S'" by (simp add: preparing_def pins lists)
    note sh = shell_eqD [OF moves_onlyD(14) [OF one(2)]]
    have d_links: "to (cgrp_links (cset S d)) = cgrp_links (cset S d)"
      using P(8) [OF move(3)] d assms(4) by (auto simp: dst_ok_def)
    have in_lists: "x = ?s \<or> x \<in> set (src_csets m)" if "x \<in> set (src_csets m')" for x
      using that by (auto simp: eq(2) split: if_splits)
    have grown: "set (dst_csets m @ src_csets m) \<subseteq> set (dst_csets m' @ src_csets m')"
      "?s \<in> set (dst_csets m' @ src_csets m')" "d \<in> set (dst_csets m' @ src_csets m')"
      by (auto simp: eq(2))
    have "loading to K m' S'"
      unfolding loading_def
    proof (intro conjI ballI impI)
      fix x assume "x \<in> set (src_csets m')"
      then show "x \<in> set (preloaded_src_csets m')" using in_lists L(2) move(3) lists by auto
    next
      fix x assume "x \<in> set (src_csets m')"
      then show "\<exists>y \<in> set (dst_csets m' @ src_csets m'). mg_dst_cset (cset S' x) = Some y"
        using in_lists L(3) [of x] d grown unfolding sh by blast
    next
      fix x assume "x \<in> set (css_set_table S')" "mg_tasks (cset S' x) \<noteq> []"
      then show "x \<in> set (dst_csets m' @ src_csets m')"
        using L(4) [of x] grown by (cases "x = ?s") (auto simp: eq(1))
    next
      fix x assume "x \<in> set (dst_csets m')"
      then have "x = d \<or> x \<in> set (dst_csets m)" by (auto simp: eq(2) split: if_splits)
      then show "to (cgrp_links (cset S' x)) = cgrp_links (cset S' x)" unfolding sh using L(5) d_links by blast
    qed (rule prep)
    moreover have "mg_task_set S' = mg_task_set S \<union> {t}"
      using mg_task_set_list [OF core_okD(1) [OF P(1)] assms(2) refl] by (simp add: eq(1))
    moreover have "cg_listed S' u = cg_listed S u" for u
    proof -
      have "distinct (all_tasks (cset S ?s))"
        using csets_okD(9) [OF core_okD(1) [OF P(1)] s] by (simp add: lists_ok_def)
      from put_on_mg_all(2) [OF this listed] show ?thesis by (simp add: cg_listed_all eq(1))
    qed
    moreover have "on_list S' = on_list S"
    proof -
      have "t \<notin> set (dying_tasks (cset S ?s))"
        using core_okD(4) [OF P(1) s] move(1) by (auto simp: tasks_counted_def list_all_iff)
      then have "t \<in> set (cset_tasks (cset S ?s)) \<union> set (mg_tasks (cset S ?s))"
        using listed by (auto simp: all_tasks_def)
      then show ?thesis by (auto simp: fun_eq_iff on_list_def eq(1) put_on_mg_fields unlist_task_def)
    qed
    ultimately show ?thesis using True one(2) tcs lists by simp
  qed
qed

lemma add_tasks_ok:
  assumes "loading to K m S" and "set ts \<subseteq> K" and "fold cgroup_migrate_add_task ts (m, S) = (m', S')"
    and "\<And>l. to (to l) = to l"
  shows "loading to K m' S' \<and> moves_only S S' \<and> task_css_set S' = task_css_set S
    \<and> mg_task_set S' = mg_task_set S \<union> {t \<in> set ts. to_move m S t}
    \<and> preloaded_src_csets m' = preloaded_src_csets m \<and> preloaded_dst_csets m' = preloaded_dst_csets m
    \<and> on_list S' = on_list S"
  using assms(1-3)
proof (induction ts arbitrary: m S)
  case Nil
  then show ?case by simp
next
  case (Cons t ts)
  obtain m1 S1 where one: "cgroup_migrate_add_task t (m, S) = (m1, S1)" by (metis surj_pair)
  have t: "t \<in> K" using Cons.prems(2) by simp
  note step = add_task_ok [OF Cons.prems(1) t one assms(4)]
  have only: "moves_only S S1" using step by simp
  have same: "to_move m1 S1 u = to_move m S u" for u
    using step by (simp add: to_move_def moves_onlyD(9) [OF only])
  have "loading to K m' S' \<and> moves_only S1 S' \<and> task_css_set S' = task_css_set S1
    \<and> mg_task_set S' = mg_task_set S1 \<union> {t \<in> set ts. to_move m1 S1 t}
    \<and> preloaded_src_csets m' = preloaded_src_csets m1 \<and> preloaded_dst_csets m' = preloaded_dst_csets m1
    \<and> on_list S' = on_list S1"
    using step Cons.prems(2,3) one by (intro Cons.IH) simp_all
  then show ?case using step same moves_only_trans [OF only] by auto
qed

subsection \<open>The whole operation\<close>

text \<open>Between two operations no css_set takes part in a migration.\<close>

definition resting :: "nat set \<Rightarrow> cgsys \<Rightarrow> bool" where
  "resting K S \<longleftrightarrow> core_ok K (mg_pins mgctx_init) S
     \<and> (\<forall>x \<in> set (css_set_table S). unmarked (cset S x) \<and> mg_tasks (cset S x) = [])"

lemma restingD:
  assumes "resting K S"
  shows "core_ok K (mg_pins mgctx_init) S" and "csets_ok K (mg_pins mgctx_init) S"
    and "\<And>x. x \<in> set (css_set_table S) \<Longrightarrow> unmarked (cset S x)"
    and "\<And>x. x \<in> set (css_set_table S) \<Longrightarrow> mg_tasks (cset S x) = []"
  using assms by (simp_all add: resting_def core_ok_def)

lemma resting_collecting:
  assumes "resting K S"
  shows "collecting to K mgctx_init S"
  using assms by (simp add: resting_def collecting_def preparing_def mgctx_init_def)

lemma finish_resting:
  assumes "core_ok K (mg_pins m) S" and "\<And>x. x \<in> set (css_set_table S) \<Longrightarrow> mg_tasks (cset S x) = []"
    and "\<And>x. x \<in> set (css_set_table S) \<Longrightarrow> x \<notin> set (preloaded_src_csets m) \<Longrightarrow> unmarked (cset S x)"
  shows "resting K (cgroup_migrate_finish m S)" and "task_css_set (cgroup_migrate_finish m S) = task_css_set S"
    and "at_links (cgroup_migrate_finish m S) = at_links S" and "csets_only S (cgroup_migrate_finish m S)"
    and "on_list (cgroup_migrate_finish m S) = on_list S"
proof -
  let ?F = "cgroup_migrate_finish m S" and ?ss = "preloaded_src_csets m @ preloaded_dst_csets m"
  have pins: "mg_pins m = (\<lambda>s. mg_pins mgctx_init s + count_list ?ss s)"
    by (simp add: fun_eq_iff mg_pins_def mgctx_init_def)
  have init: "0 < mg_pins mgctx_init init_css_set" by (simp add: mg_pins_def)
  have F: "core_ok K (mg_pins mgctx_init) ?F \<and> mg_keeps S ?F
      \<and> (\<forall>x. unmarked (cset ?F x) \<longleftrightarrow> x \<in> set ?ss \<or> unmarked (cset S x))"
    unfolding cgroup_migrate_finish_def
    by (rule finish_all_ok [OF assms(1) [unfolded pins] init])
  then have keep: "\<And>x. bare (cset ?F x) = bare (cset S x)" "set (css_set_table ?F) \<subseteq> set (css_set_table S)"
    and only: "csets_only S ?F" by (auto simp: mg_keeps_def)
  show "resting K ?F"
    unfolding resting_def
  proof (intro conjI ballI)
    fix x assume "x \<in> set (css_set_table ?F)"
    then have x: "x \<in> set (css_set_table S)" using keep(2) by blast
    show "unmarked (cset ?F x)" using F assms(3) [OF x] by auto
    show "mg_tasks (cset ?F x) = []" using assms(2) [OF x] bare_eqD(6) [OF keep(1)] by simp
  qed (use F in simp)
  show "csets_only S ?F" by (rule only)
  show "task_css_set ?F = task_css_set S" by (rule csets_onlyD(7) [OF only])
  then show "on_list ?F = on_list S" using bare_eqD(5,6) [OF keep(1)] by (simp add: fun_eq_iff on_list_def)
  show "at_links ?F = at_links S" using \<open>task_css_set ?F = task_css_set S\<close> bare_eqD(2) [OF keep(1)] by (simp add: fun_eq_iff at_links_def)
qed

lemma migrate_ok:
  assumes "preparing to K [] m S" and "src_csets m = []" and "dst_csets m = []" and "mg_task_set S = {}"
    and "\<And>l. to (to l) = to l" and "set ts \<subseteq> K"
    and "fold cgroup_migrate_add_task ts (m, S) = (m1, S1)" and "cgroup_migrate_execute P m1 S1 = (ret, S2)"
  shows "core_ok K (mg_pins m) S2" and "\<And>x. x \<in> set (css_set_table S2) \<Longrightarrow> mg_tasks (cset S2 x) = []"
    and "\<And>x. x \<in> set (css_set_table S2) \<Longrightarrow> x \<notin> set (preloaded_src_csets m) \<Longrightarrow> unmarked (cset S2 x)"
    and "moves_only S S2"
    and "if ret = 0 \<and> t \<in> set ts \<and> to_move m S t then at_links S2 t = to (at_links S t)
      else task_css_set S2 t = task_css_set S t"
    and "on_list S2 = on_list S"
proof -
  have "loading to K m S"
    using assms(1-4) by (auto simp: loading_def mg_task_set_def)
  then have A: "loading to K m1 S1" "moves_only S S1" "task_css_set S1 = task_css_set S"
    "mg_task_set S1 = {t \<in> set ts. to_move m S t}"
    "preloaded_src_csets m1 = preloaded_src_csets m" "preloaded_dst_csets m1 = preloaded_dst_csets m"
    "on_list S1 = on_list S"
    using add_tasks_ok [OF _ assms(6,7,5)] assms(4) by auto
  note R = loading_ready [OF A(1) assms(5)]
  have E: "executed to K m1 S1 ret S2" using cgroup_migrate_execute_ok [OF R(1,2), of P] assms(8) by simp
  have pins: "mg_pins m1 = mg_pins m" by (simp add: fun_eq_iff mg_pins_def A(5,6))
  show "core_ok K (mg_pins m) S2" "\<And>x. x \<in> set (css_set_table S2) \<Longrightarrow> mg_tasks (cset S2 x) = []"
    using E by (simp_all add: executed_def pins)
  have only: "moves_only S1 S2" using E by (simp add: executed_def)
  show "on_list S2 = on_list S" using E A(7) by (simp add: executed_def)
  show all: "moves_only S S2" by (rule moves_only_trans [OF A(2) only])
  note sh = shell_eqD [OF moves_onlyD(14) [OF all]] and sh1 = shell_eqD [OF moves_onlyD(14) [OF A(2)]]
    and sh2 = shell_eqD [OF moves_onlyD(14) [OF only]]
  show "unmarked (cset S2 x)" if "x \<in> set (css_set_table S2)" "x \<notin> set (preloaded_src_csets m)" for x
    using preparingD(5) [OF assms(1), of x] that unfolding unmarked_def sh moves_onlyD(6) [OF all] by blast
  have at1: "at_links S1 = at_links S" unfolding at_links_def A(3) sh1 ..
  show "if ret = 0 \<and> t \<in> set ts \<and> to_move m S t then at_links S2 t = to (at_links S t)
      else task_css_set S2 t = task_css_set S t"
  proof (cases "ret = 0 \<and> t \<in> set (taskset m1 S1)")
    case True
    then have "t \<in> mg_task_set S1" using R(3) by blast
    then show ?thesis using True E unfolding executed_def at1 A(4) by auto
  next
    case False
    then have same: "task_css_set S2 t = task_css_set S t" using E unfolding executed_def A(3) by metis
    then have "at_links S2 t = at_links S t" by (simp add: at_links_def sh(2))
    moreover have "to (at_links S t) = at_links S t" if "ret = 0" "t \<in> mg_task_set S1"
      using R(4) that False unfolding at1 by blast
    ultimately show ?thesis using same A(4) by auto
  qed
qed

text \<open>What a migration leaves alone.\<close>

definition mig_only :: "cgsys \<Rightarrow> cgsys \<Rightarrow> bool" where
  "mig_only S S' \<longleftrightarrow> ftree S' = ftree S \<and> root_of S' = root_of S \<and> subsys_mask S' = subsys_mask S
     \<and> css_obj S' = css_obj S \<and> next_css S' = next_css S \<and> exiting S' = exiting S \<and> thread_group S' = thread_group S
     \<and> answers S' = answers S \<and> (\<forall>c. uncounted (cgroups S' c) = uncounted (cgroups S c))"

lemma mig_only_refl [simp]: "mig_only S S"
  by (simp add: mig_only_def)

lemma mig_only_trans: "mig_only S S' \<Longrightarrow> mig_only S' S'' \<Longrightarrow> mig_only S S''"
  by (simp add: mig_only_def)

lemma csets_only_mig: "csets_only S S' \<Longrightarrow> mig_only S S'"
  by (simp add: mig_only_def csets_onlyD)

lemma moves_only_mig: "moves_only S S' \<Longrightarrow> mig_only S S'"
  by (simp add: mig_only_def moves_onlyD)

text \<open>From the collected css_sets to the end.  The tasks are found when the css_sets are prepared.\<close>

definition whole_migration ::
    "subsystems \<Rightarrow> (mgctx \<Rightarrow> cgsys \<Rightarrow> nat list) \<Rightarrow> mgctx \<Rightarrow> cgsys \<Rightarrow> int \<times> cgsys" where
  "whole_migration P tasks m S =
     (let (ret, m, S) = cgroup_migrate_prepare_dst P m S;
          (ret, S) = (if ret = 0
                      then let (m, S) = fold cgroup_migrate_add_task (tasks m S) (m, S) in cgroup_migrate_execute P m S
                      else (ret, S))
      in (ret, cgroup_migrate_finish m S))"

definition migrated :: "(nat list \<Rightarrow> nat list) \<Rightarrow> (nat \<Rightarrow> bool) \<Rightarrow> cgsys \<Rightarrow> int \<Rightarrow> cgsys \<Rightarrow> nat \<Rightarrow> bool" where
  "migrated to chosen S ret S' t \<longleftrightarrow>
     (if ret = 0 \<and> chosen t then at_links S' t = to (at_links S t)
      else task_css_set S' t = task_css_set S t \<and> at_links S' t = at_links S t)"

lemma whole_migration_ok:
  assumes "collecting to K m S" and "\<And>x. x \<in> set (css_set_table S) \<Longrightarrow> mg_tasks (cset S x) = []"
    and "\<And>l. to (to l) = to l" and "whole_migration P tasks m S = (ret, S')"
    and ts: "\<And>m' S'. preparing to K [] m' S' \<Longrightarrow> mg_grow S S' \<Longrightarrow> mg_task_set S' = {} \<Longrightarrow>
      set (tasks m' S') \<subseteq> K \<and> (\<forall>t \<in> K. to_move m' S' t \<longrightarrow> (t \<in> set (tasks m' S') \<longleftrightarrow> t \<in> chosen))"
  shows "resting K S' \<and> mig_only S S' \<and> (\<forall>t \<in> K. on_list S' t = on_list S t) \<and> (\<forall>t \<in> K. migrated to (\<lambda>t. t \<in> chosen \<and> \<not> exiting S t \<and> cg_listed S t
    \<and> task_css_set S t \<in> set (preloaded_src_csets m)) S ret S' t)"
proof -
  obtain r2 m2 S2 where 2: "cgroup_migrate_prepare_dst P m S = (r2, m2, S2)" by (rule prod_cases3)
  have prep1: "preparing to K (preloaded_src_csets m) m S" using assms(1) by (simp add: collecting_def)
  obtain rest where L: "preparing to K rest m2 S2" "r2 = 0 \<longrightarrow> rest = []" "mg_grow S S2"
    "src_csets m2 = []" "dst_csets m2 = []" "set (preloaded_src_csets m2) \<subseteq> set (preloaded_src_csets m)"
    "\<forall>x \<in> set (preloaded_src_csets m). x \<notin> set (preloaded_src_csets m2) \<longrightarrow>
        to (cgrp_links (cset S x)) = cgrp_links (cset S x)"
    using prepare_loop_ok [OF prep1, of P r2 m2 S2] 2 assms(1)
    by (auto simp: cgroup_migrate_prepare_dst_def collecting_def)
  note P2 = preparingD [OF L(1)]
  note only = csets_onlyD [OF mg_grow_only [OF L(3)]]
  have cs: "task_css_set S t \<in> set (css_set_table S)" if "t \<in> K" for t
    using csets_okD(6) [OF core_okD(1) that] preparingD(1) [OF prep1] by blast
  have at2: "at_links S2 t = at_links S t" if "t \<in> K" for t by (rule at_links_grow [OF L(3) cs [OF that]])
  have on2: "on_list S2 t = on_list S t" if "t \<in> K" for t by (rule on_list_grow [OF L(3) cs [OF that]])
  have mg2: "mg_tasks (cset S2 x) = []" if "x \<in> set (css_set_table S2)" for x
  proof (cases "x \<in> set (css_set_table S)")
    case True
    then show ?thesis using bare_eqD(6) [OF mg_growD(2) [OF L(3) True]] assms(2) by simp
  next
    case False
    then show ?thesis using L(3) that by (auto simp: mg_grow_def all_tasks_def)
  qed
  show ?thesis
  proof (cases "r2 = 0")
    case False
    then have S': "ret = r2" "S' = cgroup_migrate_finish m2 S2"
      using assms(4) 2 by (simp_all add: whole_migration_def)
    note F = finish_resting [OF P2(1) mg2 P2(5)]
    have "mig_only S S'"
      unfolding S' by (rule mig_only_trans [OF csets_only_mig csets_only_mig]) (rule mg_grow_only [OF L(3)], rule F(4))
    then show ?thesis using F False at2 on2 by (simp add: S' migrated_def only)
  next
    case r2: True
    let ?ts = "tasks m2 S2"
    obtain m3 S3 where 3: "fold cgroup_migrate_add_task ?ts (m2, S2) = (m3, S3)" by (rule prod.exhaust)
    obtain r4 S4 where 4: "cgroup_migrate_execute P m3 S3 = (r4, S4)" by (rule prod.exhaust)
    have S': "ret = r4" "S' = cgroup_migrate_finish m2 S4"
      using assms(4) 2 3 4 r2 by (simp_all add: whole_migration_def)
    have prep2: "preparing to K [] m2 S2" and none: "mg_task_set S2 = {}"
      using L(1,2) r2 mg2 by (auto simp: mg_task_set_def)
    have tsK: "set ?ts \<subseteq> K" and chosen: "\<And>t. t \<in> K \<Longrightarrow> to_move m2 S2 t \<Longrightarrow> t \<in> set ?ts \<longleftrightarrow> t \<in> chosen"
      using ts [OF prep2 L(3) none] by auto
    note M = migrate_ok [OF prep2 L(4,5) none assms(3) tsK 3 4]
    note F = finish_resting [OF M(1-3)]
    have "migrated to (\<lambda>t. t \<in> chosen \<and> \<not> exiting S t \<and> cg_listed S t
        \<and> task_css_set S t \<in> set (preloaded_src_csets m)) S ret S' t" if t: "t \<in> K" for t
    proof -
      have listed: "cg_listed S2 t = cg_listed S t"
        using bare_all_tasks [OF mg_growD(2) [OF L(3) cs [OF t]]] by (simp add: cg_listed_all only)
      have fixed: "to (at_links S t) = at_links S t"
        if "task_css_set S t \<in> set (preloaded_src_csets m)" "task_css_set S t \<notin> set (preloaded_src_csets m2)"
        using L(7) that unfolding at_links_def by blast
      have move: "t \<in> set ?ts \<and> to_move m2 S2 t \<longleftrightarrow> t \<in> chosen \<and> \<not> exiting S t \<and> cg_listed S t
          \<and> task_css_set S t \<in> set (preloaded_src_csets m2)"
        using chosen [OF t] by (auto simp: to_move_def listed only)
      have stay: "at_links S4 t = at_links S t" if "task_css_set S4 t = task_css_set S2 t"
        using that at2 [OF t] shell_eqD(2) [OF moves_onlyD(14) [OF M(4)]] by (simp add: at_links_def)
      have task: "task_css_set S' t = task_css_set S4 t" "at_links S' t = at_links S4 t"
        using F(2,3) by (simp_all add: S')
      show ?thesis
      proof (cases "r4 = 0 \<and> t \<in> set ?ts \<and> to_move m2 S2 t")
        case True
        then show ?thesis using move L(6) M(5) [of t] at2 [OF t] by (auto simp: migrated_def S'(1) task)
      next
        case False
        then have same: "task_css_set S4 t = task_css_set S2 t" using M(5) [of t] by (simp split: if_splits)
        then show ?thesis
          using False move fixed stay [OF same] by (auto simp: migrated_def S'(1) task only)
      qed
    qed
    moreover have "mig_only S S'"
      unfolding S'(2) by (rule mig_only_trans [OF mig_only_trans [OF csets_only_mig moves_only_mig] csets_only_mig])
        (rule mg_grow_only [OF L(3)], rule M(4), rule F(4))
    moreover have "on_list S' t = on_list S t" if "t \<in> K" for t using on2 [OF that] F(5) M(6) by (simp add: S'(2))
    ultimately show ?thesis using F(1) S'(2) by blast
  qed
qed

text \<open>What an attachment is to do with a task.\<close>

definition attached :: "nat set \<Rightarrow> nat \<Rightarrow> cgsys \<Rightarrow> int \<Rightarrow> cgsys \<Rightarrow> nat \<Rightarrow> bool" where
  "attached ts dst S ret S' t \<longleftrightarrow>
     (if ret = 0 \<and> t \<in> ts \<and> \<not> exiting S t \<and> cg_listed S t \<and> \<not> cset_dead (cset S (task_css_set S t))
      then at_links S' t = to_cgroup S dst (at_links S t)
      else task_css_set S' t = task_css_set S t \<and> at_links S' t = at_links S t)"

lemma attach_ok:
  assumes "resting K S" and "dst \<in> set (tcss (ftree S))" and "root_of S dst \<in> set (hierarchies S)"
    and "set (threads S leader threadgroup) \<subseteq> K"
    and "cgroup_attach_task P dst leader threadgroup S = (ret, S')"
  shows "resting K S'" and "t \<in> K \<Longrightarrow> attached (set (threads S leader threadgroup)) dst S ret S' t"
    and "mig_only S S'" and "t \<in> K \<Longrightarrow> on_list S' t = on_list S t"
proof -
  let ?ts = "threads S leader threadgroup" and ?to = "to_cgroup S dst"
  have "resting K S' \<and> mig_only S S' \<and> (\<forall>t \<in> K. on_list S' t = on_list S t) \<and> (\<forall>t \<in> K. attached (set ?ts) dst S ret S' t)"
  proof (cases "cgroup_migrate_vet_dst P S dst = 0")
    case False
    then show ?thesis using assms(1,5) by (auto simp: cgroup_attach_task_def attached_def)
  next
    case True
    obtain m1 S1 where 1: "fold (\<lambda>task (m, S). cgroup_migrate_add_src (task_css_set S task) dst (m, S)) ?ts (mgctx_init, S)
        = (m1, S1)" by (rule prod.exhaust)
    have C: "collecting ?to K m1 S1" "mg_grow S S1" "preloaded_dst_csets m1 = []"
      "set (preloaded_src_csets m1) = {s \<in> task_css_set S ` set ?ts. \<not> cset_dead (cset S s)}"
      using collect_all [OF resting_collecting [OF assms(1)] _ refl assms(2-4) 1] by (simp_all add: mgctx_init_def)
    note only = csets_onlyD [OF mg_grow_only [OF C(2)]]
    have whole: "whole_migration P (\<lambda>m S. threads S leader threadgroup) m1 S1 = (ret, S')"
      using assms(5) True 1 unfolding cgroup_attach_task_def whole_migration_def cgroup_migrate_def Let_def by simp
    have cs: "task_css_set S t \<in> set (css_set_table S)" if "t \<in> K" for t
      using csets_okD(6) [OF restingD(2) [OF assms(1)] that] .
    have mg1: "mg_tasks (cset S1 x) = []" if "x \<in> set (css_set_table S1)" for x
      using that C(2) restingD(4) [OF assms(1), of x] bare_eqD(6) [of "cset S1 x" "cset S x"]
      by (cases "x \<in> set (css_set_table S)") (auto simp: mg_grow_def all_tasks_def)
    have W: "resting K S' \<and> mig_only S1 S' \<and> (\<forall>t \<in> K. on_list S' t = on_list S1 t) \<and> (\<forall>t \<in> K. migrated ?to (\<lambda>t. t \<in> set ?ts \<and> \<not> exiting S1 t \<and> cg_listed S1 t
        \<and> task_css_set S1 t \<in> set (preloaded_src_csets m1)) S1 ret S' t)"
    proof (rule whole_migration_ok [OF C(1) mg1 to_cgroup_twice whole])
      fix m' S'
      assume "mg_grow S1 S'"
      then have "threads S' leader threadgroup = ?ts"
        using csets_onlyD(9) [OF mg_grow_only] by (simp add: threads_def only)
      then show "set (threads S' leader threadgroup) \<subseteq> K \<and> (\<forall>t \<in> K. to_move m' S' t \<longrightarrow>
          (t \<in> set (threads S' leader threadgroup) \<longleftrightarrow> t \<in> set ?ts))" using assms(4) by simp
    qed
    have "attached (set ?ts) dst S ret S' t" if t: "t \<in> K" for t
    proof -
      have listed: "cg_listed S1 t = cg_listed S t"
        using bare_all_tasks [OF mg_growD(2) [OF C(2) cs [OF t]]] by (simp add: cg_listed_all only)
      have chosen: "(t \<in> set ?ts \<and> \<not> exiting S1 t \<and> cg_listed S1 t \<and> task_css_set S1 t \<in> set (preloaded_src_csets m1))
        = (t \<in> set ?ts \<and> \<not> exiting S t \<and> cg_listed S t \<and> \<not> cset_dead (cset S (task_css_set S t)))"
        using C(4) by (auto simp: listed only)
      have "migrated ?to (\<lambda>t. t \<in> set ?ts \<and> \<not> exiting S1 t \<and> cg_listed S1 t
        \<and> task_css_set S1 t \<in> set (preloaded_src_csets m1)) S1 ret S' t" using W t by blast
      then show ?thesis
        unfolding attached_def migrated_def chosen using at_links_grow [OF C(2) cs [OF t]]
        by (simp add: only split: if_splits)
    qed
    moreover have "on_list S' t = on_list S t" if "t \<in> K" for t
      using W that on_list_grow [OF C(2) cs [OF that]] by blast
    ultimately show ?thesis using W mig_only_trans [OF csets_only_mig [OF mg_grow_only [OF C(2)]]] by blast
  qed
  then show "resting K S'" "mig_only S S'" "t \<in> K \<Longrightarrow> on_list S' t = on_list S t" "t \<in> K \<Longrightarrow> attached (set ?ts) dst S ret S' t" by blast+
qed

end
