(* ===== verification/TaskLife.thy ===== *)
theory TaskLife
  imports Attach_Correct
begin

section \<open>Tasks that come and go\<close>

text \<open>
  \<open>cgroup_fork\<close>, \<open>cgroup_post_fork\<close>, \<open>cgroup_exit\<close>, \<open>cgroup_release\<close> and \<open>cgroup_free\<close> keep the
  references and the counters exact.
\<close>

lemma not_in_lists:
  assumes "csets_ok K pins S" and "t \<notin> K" and "s \<in> set (css_set_table S)"
  shows "t \<notin> set (all_tasks (cset S s))"
  using mg_listed(1) [OF assms(1,3)] assms(2) by blast

text \<open>A task that holds no reference is given another css_set.\<close>

lemma fork_ok:
  assumes "resting K S" and "t \<notin> K"
  shows "resting K (cgroup_fork t S)"
proof -
  note R = restingD [OF assms(1)]
  note ok = core_okD [OF R(1)] and cs = csets_okD [OF R(2)]
  let ?S = "cgroup_fork t S" and ?tc = "(task_css_set S)(t := init_css_set)"
  have eq: "?S = S\<lparr>cset := cset S, task_css_set := ?tc, cgroups := cgroups S, cgcalls := cgcalls S\<rparr>"
    by (simp add: cgroup_fork_def)
  have same: "{u \<in> K. ?tc u = s} = tasks_of K S s" for s using assms(2) by (auto simp: tasks_of_def)
  have "csets_ok K (mg_pins mgctx_init) ?S"
    unfolding eq
  proof (rule csets_ok_lists [OF R(2) cs(2)])
    show "?tc u \<in> set (css_set_table S)" if "u \<in> K" for u using cs(4) cs(6) [OF that] by simp
    show "distinct (all_tasks (cset S y)) \<and> set (all_tasks (cset S y)) \<subseteq> {u \<in> K. ?tc u = y}"
      if "y \<in> set (css_set_table S)" for y
      unfolding same using cs(9) [OF that] by (simp add: lists_ok_def)
    show "refcount (cset S y) = int (mg_pins mgctx_init y + card {u \<in> K. ?tc u = y})
        + int (card (threaded_csets S y))" if "y \<in> set (css_set_table S)" for y
      unfolding same using cs(10) [OF that] by (simp add: refs_def)
  qed simp
  moreover have "counted (css_set_populated ?S) ?S"
    by (rule counted_kept [OF ok(3)]) (auto simp: cgroup_fork_def css_set_populated_def)
  moreover have "domains_ok ?S = domains_ok S" by (simp add: domains_ok_def cgroup_is_threaded_def cgroup_fork_def)
  ultimately have "core_ok K (mg_pins mgctx_init) ?S"
    using ok by (simp add: core_ok_def tasks_counted_def) (simp add: cgroup_fork_def)
  then show ?thesis using R by (simp add: resting_def) (simp add: cgroup_fork_def)
qed

subsection \<open>A new task\<close>

lemma post_fork_ok:
  assumes "resting K S" and "t \<notin> K" and "parent \<in> K" and "task_css_set S t = init_css_set"
  shows "resting (insert t K) (cgroup_post_fork parent t S)"
    and "task_css_set (cgroup_post_fork parent t S) t = task_css_set S parent"
proof -
  note R = restingD [OF assms(1)]
  note ok = core_okD [OF R(1)] and cs = csets_okD [OF R(2)]
  let ?s = "task_css_set S parent" and ?S = "cgroup_post_fork parent t S"
  have s: "?s \<in> set (css_set_table S)" using cs(6) [OF assms(3)] .
  have "\<not> cg_listed S t" using not_in_lists [OF R(2) assms(2) cs(4)] by (simp add: cg_listed_all assms(4))
  let ?A = "upd_cset ?s (\<lambda>x. x\<lparr>nr_tasks := nr_tasks x + 1\<rparr>) (get_css_set ?s S)"
  let ?B = "raise_populated ?s ?A"
  let ?x = "(cset S ?s)\<lparr>refcount := refcount (cset S ?s) + 1, nr_tasks := nr_tasks (cset S ?s) + 1,
    cset_tasks := cset_tasks (cset S ?s) @ [t]\<rparr>"
  let ?g = "(cset S)(?s := ?x)" and ?tc = "(task_css_set S)(t := ?s)"
  have A: "?A = S\<lparr>cset := (cset S)(?s := (cset S ?s)\<lparr>refcount := refcount (cset S ?s) + 1,
      nr_tasks := nr_tasks (cset S ?s) + 1\<rparr>)\<rparr>" by (simp add: upd_cset_def get_css_set_def)
  have cntA: "counted (css_set_populated ?A) ?A" by (rule get_nr_counted [OF ok(3)])
  have linksA: "links_ok ?A ?s" using links_ok_csets [OF R(2) s] unfolding links_ok_def A by simp
  have B: "counts_only ?A ?B" "counted ((css_set_populated ?A)(?s := True)) ?B"
    using raise_counted [OF _ linksA _ cntA] cs(1) s by (simp_all add: A)
  obtain f e where Beq: "?B = ?A\<lparr>cgroups := f, cgcalls := e\<rparr>"
    and f: "\<And>c. uncounted (f c) = uncounted (cgroups ?A c)" using counts_onlyE [OF B(1)] by blast
  have "?S = upd_cset ?s (\<lambda>x. x\<lparr>cset_tasks := cset_tasks x @ [t]\<rparr>) (?B\<lparr>task_css_set := (task_css_set ?B)(t := ?s)\<rparr>)"
    using \<open>\<not> cg_listed S t\<close>
    by (simp add: cgroup_post_fork_def css_set_move_task_def raise_populated_def Let_def)
  then have eq: "?S = S\<lparr>cset := ?g, task_css_set := ?tc, cgroups := f, cgcalls := e\<rparr>"
    unfolding Beq unfolding A by (simp add: upd_cset_def)
  have tc: "{u \<in> insert t K. ?tc u = y} = (if y = ?s then insert t (tasks_of K S ?s) else tasks_of K S y)" for y
    using assms(2) by (auto simp: tasks_of_def)
  have notin: "t \<notin> set (all_tasks (cset S ?s))" by (rule not_in_lists [OF R(2) assms(2) s])
  have "csets_ok (insert t K) (mg_pins mgctx_init) ?S"
    unfolding eq
  proof (rule csets_ok_lists [OF R(2)])
    fix y assume y: "y \<in> set (css_set_table S)"
    have l: "distinct (all_tasks (cset S y))" "set (all_tasks (cset S y)) \<subseteq> tasks_of K S y"
      using cs(9) [OF y] by (simp_all add: lists_ok_def)
    show "distinct (all_tasks (?g y)) \<and> set (all_tasks (?g y)) \<subseteq> {u \<in> insert t K. ?tc u = y}"
      unfolding tc using l notin by (cases "y = ?s") (auto simp: all_tasks_def)
    have "t \<notin> tasks_of K S ?s" using assms(2) by (auto simp: tasks_of_def)
    then show "refcount (?g y) = int (mg_pins mgctx_init y + card {u \<in> insert t K. ?tc u = y})
        + int (card (threaded_csets S y))"
      unfolding tc using cs(10) [OF y] cs(2) by (auto simp: refs_def)
  qed (use cs(2,6) s in auto)
  moreover have "counted (css_set_populated ?S) ?S"
  proof -
    have "css_set_populated ?S = (css_set_populated ?A)(?s := True)"
      unfolding eq A by (auto simp: fun_eq_iff css_set_populated_def)
    moreover have "?S = ?B\<lparr>cset := ?g, task_css_set := ?tc\<rparr>" unfolding eq Beq unfolding A by simp
    moreover have "counted ((css_set_populated ?A)(?s := True)) (?B\<lparr>cset := ?g, task_css_set := ?tc\<rparr>)"
    proof -
      have "cgrp_links (?g x) = cgrp_links (cset ?B x)" for x
        unfolding counts_onlyD(7) [OF B(1)] unfolding A by simp
      from counted_lists [where g = ?g, OF this] show ?thesis using B(2) by simp
    qed
    ultimately show ?thesis by simp
  qed
  moreover have "domains_ok ?S = domains_ok S"
    unfolding eq using f by (intro domains_ok_counts) (simp add: A)
  moreover have "tasks_counted ?S y" if "y \<in> set (css_set_table S)" for y
    using ok(4) [OF that] unfolding eq by (auto simp: tasks_counted_def)
  ultimately have "core_ok (insert t K) (mg_pins mgctx_init) ?S" using ok by (simp add: core_ok_def) (simp add: eq)
  then show "resting (insert t K) ?S"
    using R(3,4) by (auto simp: resting_def) (auto simp: eq unmarked_def split: if_splits)
  show "task_css_set ?S t = ?s" by (simp add: eq)
qed

subsection \<open>The end of a task\<close>

text \<open>\<open>PF_EXITING\<close> is set before \<open>cgroup_exit\<close>.\<close>

definition start_exit :: "nat \<Rightarrow> cgsys \<Rightarrow> cgsys" where
  "start_exit t S = S\<lparr>exiting := (exiting S)(t := True)\<rparr>"

lemma start_exit_ok:
  assumes "resting K S"
  shows "resting K (start_exit t S)"
proof -
  note R = restingD [OF assms] and ok = core_okD [OF restingD(1) [OF assms]]
  let ?S = "start_exit t S"
  have "csets_ok K (mg_pins mgctx_init) ?S = csets_ok K (mg_pins mgctx_init) S"
    by (simp add: csets_ok_def cset_wf_def hierarchies_def lists_ok_def tasks_of_def refs_def
        threaded_csets_def start_exit_def)
  then have "csets_ok K (mg_pins mgctx_init) ?S" using R(2) by blast
  moreover have "counted (css_set_populated ?S) ?S"
    by (rule counted_kept [OF ok(3)]) (auto simp: start_exit_def css_set_populated_def)
  moreover have "domains_ok ?S = domains_ok S" by (simp add: domains_ok_def cgroup_is_threaded_def start_exit_def)
  moreover have "tasks_counted ?S y" if "y \<in> set (css_set_table S)" for y
    using ok(4) [OF that] by (auto simp: tasks_counted_def start_exit_def list_all_iff)
  ultimately have "core_ok K (mg_pins mgctx_init) ?S" using ok by (simp add: core_ok_def) (simp add: start_exit_def)
  then show ?thesis using R(3,4) by (simp add: resting_def) (simp add: start_exit_def)
qed

text \<open>The lists of one css_set change, its references do not.\<close>

lemma resting_lists:
  assumes "resting K S" and "s \<in> set (css_set_table S)" and "shell x = shell (cset S s)"
    and "refcount x = refcount (cset S s)" and "distinct (all_tasks x)"
    and "set (all_tasks x) \<subseteq> set (all_tasks (cset S s))" and "mg_tasks x = []"
    and "nr_tasks x = int (length (cset_tasks x))" and "list_all (exiting S) (dying_tasks x)"
    and "\<And>c. uncounted (f c) = uncounted (cgroups S c)"
    and "S' = S\<lparr>cset := (cset S)(s := x), cgroups := f, cgcalls := e\<rparr>"
    and "counted (css_set_populated S') S'"
  shows "resting K S'"
proof -
  note R = restingD [OF assms(1)]
  note ok = core_okD [OF R(1)] and cs = csets_okD [OF R(2)]
  let ?g = "(cset S)(s := x)"
  have eq: "S' = S\<lparr>cset := ?g, task_css_set := task_css_set S, cgroups := f, cgcalls := e\<rparr>" by (simp add: assms(11))
  note sh = shell_eqD [OF assms(3)]
  have "csets_ok K (mg_pins mgctx_init) S'"
    unfolding eq
  proof (rule csets_ok_lists [OF R(2) cs(2)])
    show "cgrp_links (?g y) = cgrp_links (cset S y) \<and> dfl_cgrp (?g y) = dfl_cgrp (cset S y)
        \<and> dom_cset (?g y) = dom_cset (cset S y)" for y
      using sh by simp
    show "distinct (all_tasks (?g y)) \<and> set (all_tasks (?g y)) \<subseteq> {u \<in> K. task_css_set S u = y}"
      if "y \<in> set (css_set_table S)" for y
      using cs(9) [OF that] assms(5,6) by (auto simp: lists_ok_def tasks_of_def)
    show "refcount (?g y) = int (mg_pins mgctx_init y + card {u \<in> K. task_css_set S u = y})
        + int (card (threaded_csets S y))" if "y \<in> set (css_set_table S)" for y
      using cs(10) [OF that] assms(4) by (auto simp: refs_def tasks_of_def)
  qed (use cs(6) in simp)
  moreover have "domains_ok S' = domains_ok S" unfolding eq by (rule domains_ok_counts [OF assms(10)])
  moreover have "tasks_counted S' y" if "y \<in> set (css_set_table S)" for y
    using ok(4) [OF that] assms(7-9) unfolding eq by (auto simp: tasks_counted_def)
  ultimately have "core_ok K (mg_pins mgctx_init) S'"
    using ok assms(12) by (simp add: core_ok_def) (simp add: eq)
  then show ?thesis
    using R(3,4) assms(7) sh(6-8) by (auto simp: resting_def) (auto simp: eq unmarked_def split: if_splits)
qed

lemma exit_ok:
  assumes "resting K S" and "t \<in> K" and "exiting S t" and "t \<in> set (cset_tasks (cset S (task_css_set S t)))"
  shows "resting K (cgroup_exit t S)" and "task_css_set (cgroup_exit t S) = task_css_set S"
proof -
  note R = restingD [OF assms(1)]
  note ok = core_okD [OF R(1)] and cs = csets_okD [OF R(2)]
  let ?s = "task_css_set S t" and ?S = "cgroup_exit t S"
  have s: "?s \<in> set (css_set_table S)" using cs(6) [OF assms(2)] .
  let ?u = "unlist_task t (cset S ?s)"
  let ?A = "upd_cset ?s (unlist_task t) S" and ?x = "?u\<lparr>dying_tasks := dying_tasks ?u @ [t], nr_tasks := nr_tasks ?u - 1\<rparr>"
  let ?B = "lower_populated ?s ?A"
  have A: "?A = S\<lparr>cset := (cset S)(?s := ?u), task_css_set := task_css_set S\<rparr>" by (simp add: upd_cset_def)
  have cntA: "counted (css_set_populated S) ?A"
    unfolding A using ok(3) by (subst counted_lists) (auto simp: unlist_task_def)
  have linksA: "links_ok ?A ?s" using links_ok_csets [OF R(2) s] by (simp add: links_ok_def unlist_task_def)
  have "css_set_populated S ?s" using assms(4) by (auto simp: css_set_populated_def)
  then have B: "counts_only ?A ?B" "counted ((css_set_populated S)(?s := css_set_populated ?A ?s)) ?B"
    using lower_counted [OF _ linksA _ cntA] cs(1) s by simp_all
  obtain f e where Beq: "?B = ?A\<lparr>cgroups := f, cgcalls := e\<rparr>"
    and f: "\<And>c. uncounted (f c) = uncounted (cgroups ?A c)" using counts_onlyE [OF B(1)] by blast
  have "cg_listed S t" using assms(4) by (simp add: cg_listed_def Let_def)
  then have "?S = upd_cset ?s (\<lambda>x. x\<lparr>dying_tasks := dying_tasks x @ [t], nr_tasks := nr_tasks x - 1\<rparr>) ?B"
    by (simp add: cgroup_exit_def css_set_move_task_def lower_populated_def Let_def)
  then have eq: "?S = S\<lparr>cset := (cset S)(?s := ?x), cgroups := f, cgcalls := e\<rparr>"
    unfolding Beq unfolding A by (simp add: upd_cset_def)
  have lists: "distinct (all_tasks (cset S ?s))" using cs(9) [OF s] by (simp add: lists_ok_def)
  have on: "t \<in> set (cset_tasks (cset S ?s)) \<union> set (mg_tasks (cset S ?s))" using assms(4) by simp
  note one = in_one_list [OF lists on]
  have "counted (css_set_populated ?S) ?S"
  proof -
    have "css_set_populated ?S = (css_set_populated S)(?s := css_set_populated ?A ?s)"
      unfolding eq A by (auto simp: fun_eq_iff css_set_populated_def)
    moreover have "?S = ?B\<lparr>cset := (cset S)(?s := ?x), task_css_set := task_css_set S\<rparr>"
      unfolding eq Beq unfolding A by simp
    moreover have "counted ((css_set_populated S)(?s := css_set_populated ?A ?s))
        (?B\<lparr>cset := (cset S)(?s := ?x), task_css_set := task_css_set S\<rparr>)"
    proof -
      have "cgrp_links (((cset S)(?s := ?x)) x) = cgrp_links (cset ?B x)" for x
        unfolding counts_onlyD(7) [OF B(1)] by (simp add: unlist_task_def)
      from counted_lists [where g = "(cset S)(?s := ?x)", OF this] show ?thesis using B(2) by simp
    qed
    ultimately show ?thesis by simp
  qed
  note cnt = this
  show "resting K ?S"
  proof (rule resting_lists [OF assms(1) s _ _ _ _ _ _ _ _ eq cnt])
    show "shell ?x = shell (cset S ?s)" by (simp add: shell_def unlist_task_def)
    show "refcount ?x = refcount (cset S ?s)" by (simp add: unlist_task_def)
    show "distinct (all_tasks ?x)" "set (all_tasks ?x) \<subseteq> set (all_tasks (cset S ?s))"
      using lists assms(4) by (auto simp: all_tasks_def unlist_task_def distinct_removeAll)
    show "mg_tasks ?x = []" using R(4) [OF s] by (simp add: unlist_task_def)
    show "nr_tasks ?x = int (length (cset_tasks ?x))"
      using one(1) ok(4) [OF s] R(4) [OF s] by (simp add: tasks_counted_def unlist_task_def)
    show "list_all (exiting S) (dying_tasks ?x)"
      using one(2) ok(4) [OF s] assms(3) by (simp add: tasks_counted_def)
    show "uncounted (f c) = uncounted (cgroups S c)" for c using f by (simp add: upd_cset_def)
  qed
  show "task_css_set ?S = task_css_set S" by (simp add: eq)
qed

text \<open>A task that was never put on a list gets a reference to the first css_set.\<close>

lemma exit_unlisted_ok:
  assumes "resting K S" and "t \<notin> K" and "task_css_set S t = init_css_set"
  shows "resting (insert t K) (cgroup_exit t S)"
proof -
  note R = restingD [OF assms(1)]
  note ok = core_okD [OF R(1)] and cs = csets_okD [OF R(2)]
  let ?S = "cgroup_exit t S"
  let ?x = "(cset S init_css_set)\<lparr>refcount := refcount (cset S init_css_set) + 1\<rparr>"
  let ?g = "(cset S)(init_css_set := ?x)"
  have "\<not> cg_listed S t" using not_in_lists [OF R(2) assms(2) cs(4)] by (simp add: cg_listed_all assms(3))
  then have eq: "?S = S\<lparr>cset := ?g, task_css_set := task_css_set S, cgroups := cgroups S, cgcalls := cgcalls S\<rparr>"
    by (simp add: cgroup_exit_def get_css_set_def upd_cset_def assms(3) Let_def)
  have ts: "{u \<in> insert t K. task_css_set S u = y}
      = (if y = init_css_set then insert t (tasks_of K S y) else tasks_of K S y)" for y
    using assms(3) by (auto simp: tasks_of_def)
  have "t \<notin> tasks_of K S y" for y using assms(2) by (simp add: tasks_of_def)
  note t = this and all = all_tasks_def
  have "csets_ok (insert t K) (mg_pins mgctx_init) ?S"
    unfolding eq
  proof (rule csets_ok_lists [OF R(2)])
    show "distinct (all_tasks (?g y)) \<and> set (all_tasks (?g y)) \<subseteq> {u \<in> insert t K. task_css_set S u = y}"
      if "y \<in> set (css_set_table S)" for y
      unfolding ts using cs(9) [OF that] by (auto simp: lists_ok_def all)
    show "refcount (?g y) = int (mg_pins mgctx_init y + card {u \<in> insert t K. task_css_set S u = y})
        + int (card (threaded_csets S y))" if "y \<in> set (css_set_table S)" for y
      unfolding ts using cs(10) [OF that] cs(2) t by (auto simp: refs_def)
  qed (use cs(2,4,6) assms(3) in auto)
  moreover have "counted (css_set_populated ?S) ?S"
    by (rule counted_kept [OF ok(3)]) (auto simp: eq css_set_populated_def)
  moreover have "domains_ok ?S = domains_ok S" unfolding eq by (rule domains_ok_counts) simp
  moreover have "tasks_counted ?S y" if "y \<in> set (css_set_table S)" for y
    using ok(4) [OF that] unfolding eq by (auto simp: tasks_counted_def)
  ultimately have "core_ok (insert t K) (mg_pins mgctx_init) ?S" using ok by (simp add: core_ok_def) (simp add: eq)
  then show ?thesis using R(3,4) by (auto simp: resting_def) (auto simp: eq unmarked_def split: if_splits)
qed

lemma release_ok_rest:
  assumes "resting K S" and "t \<in> set (dying_tasks (cset S (task_css_set S t)))" and "t \<in> K"
  shows "resting K (cgroup_release t S)" and "\<not> cg_listed (cgroup_release t S) t"
proof -
  note R = restingD [OF assms(1)]
  note ok = core_okD [OF R(1)] and cs = csets_okD [OF R(2)]
  let ?s = "task_css_set S t" and ?S = "cgroup_release t S"
  let ?x = "unlist_task t (cset S ?s)"
  have s: "?s \<in> set (css_set_table S)" using cs(6) [OF assms(3)] .
  have eq: "?S = S\<lparr>cset := (cset S)(?s := ?x), cgroups := cgroups S, cgcalls := cgcalls S\<rparr>"
    by (simp add: cgroup_release_def upd_cset_def)
  have lists: "distinct (all_tasks (cset S ?s))" using cs(9) [OF s] by (simp add: lists_ok_def)
  then have "t \<notin> set (cset_tasks (cset S ?s))" using assms(2) by (auto simp: all_tasks_def)
  then have same: "cset_tasks ?x = cset_tasks (cset S ?s)" "mg_tasks ?x = []"
    using R(4) [OF s] by (simp_all add: unlist_task_def)
  have "counted (css_set_populated ?S) ?S"
    using same R(4) [OF s] by (intro counted_kept [OF ok(3)]) (auto simp: eq css_set_populated_def unlist_task_def split: if_splits)
  then show "resting K ?S"
    using ok(4) [OF s] same R(4) [OF s] unlisted_tasks(1) [of t "cset S ?s"] unlisted_tasks(2) [OF lists, of t]
    by (intro resting_lists [OF assms(1) s _ _ _ _ _ _ _ _ eq])
      (auto simp: shell_def unlist_task_def tasks_counted_def list_all_iff)
  show "\<not> cg_listed ?S t" by (simp add: cg_listed_all eq unlisted_tasks)
qed

lemma cgroup_free_ok:
  assumes "resting K S" and "t \<in> K" and "\<not> cg_listed S t"
  shows "resting (K - {t}) (cgroup_free t S)"
proof -
  note R = restingD [OF assms(1)]
  note ok = core_okD [OF R(1)] and cs = csets_okD [OF R(2)]
  let ?s = "task_css_set S t" and ?K = "K - {t}"
  let ?pins = "(mg_pins mgctx_init)(?s := mg_pins mgctx_init ?s + 1)"
  have s: "?s \<in> set (css_set_table S)" using cs(6) [OF assms(2)] .
  have eq: "S = S\<lparr>cset := cset S, task_css_set := task_css_set S, cgroups := cgroups S, cgcalls := cgcalls S\<rparr>" by simp
  have ts: "{u \<in> ?K. task_css_set S u = y} = tasks_of K S y - {t}" for y by (auto simp: tasks_of_def)
  have "csets_ok ?K ?pins (S\<lparr>cset := cset S, task_css_set := task_css_set S, cgroups := cgroups S, cgcalls := cgcalls S\<rparr>)"
  proof (rule csets_ok_lists [OF R(2)])
    fix y assume y: "y \<in> set (css_set_table S)"
    have "t \<notin> set (all_tasks (cset S y))"
      using mg_listed(2) [OF R(2) y] assms(3) unfolding cg_listed_all by blast
    then show "distinct (all_tasks (cset S y)) \<and> set (all_tasks (cset S y)) \<subseteq> {u \<in> ?K. task_css_set S u = y}"
      unfolding ts using cs(9) [OF y] by (auto simp: lists_ok_def)
    have fin: "finite (tasks_of K S y)" using cs(2) by simp
    have "card (tasks_of K S y) = card (tasks_of K S y - {t}) + (if y = ?s then 1 else 0)"
    proof (cases "y = ?s")
      case True
      then have "t \<in> tasks_of K S y" using assms(2) by (simp add: tasks_of_def)
      then show ?thesis using True card_Suc_Diff1 [OF fin] by simp
    next
      case False
      then have "t \<notin> tasks_of K S y" by (auto simp: tasks_of_def)
      then show ?thesis using False by simp
    qed
    then show "refcount (cset S y) = int (?pins y + card {u \<in> ?K. task_css_set S u = y})
        + int (card (threaded_csets S y))"
      unfolding ts using cs(10) [OF y] by (simp add: refs_def)
  qed (use cs(2,6) in auto)
  then have "csets_ok ?K ?pins S" by simp
  then have core: "core_ok ?K ?pins S" using ok s by (auto simp: core_ok_def)
  have init: "0 < mg_pins mgctx_init init_css_set" by (simp add: mg_pins_def)
  note put = core_ok_put [OF core s init]
  have same: "same_but_refs (cset (cgroup_free t S) x) (cset S x)" for x
    using put(2) by (simp add: put_ok_def cgroup_free_def)
  have "set (css_set_table (cgroup_free t S)) \<subseteq> set (css_set_table S)"
    using put(2) by (simp add: put_ok_def cgroup_free_def)
  then show ?thesis
    using put(1) R(3,4) same_but_refsD [OF same] by (auto simp: resting_def cgroup_free_def unmarked_def)
qed

end
