(* ===== verification/CssSet_Held.thy ===== *)
theory CssSet_Held
  imports TaskLife
begin

section \<open>A css_set in the table has a reference\<close>

definition held :: "cgsys \<Rightarrow> bool" where
  "held S \<longleftrightarrow> (\<forall>s \<in> set (css_set_table S). 0 < refcount (cset S s))"

text \<open>An operation takes references to css_sets, or gives them back and removes what has none left.\<close>

named_theorems held_step

lemma held_cong:
  "css_set_table S' = css_set_table S \<Longrightarrow> (\<And>x. refcount (cset S' x) = refcount (cset S x)) \<Longrightarrow> held S' = held S"
  by (simp add: held_def)

lemma held_get [held_step]: "held S \<Longrightarrow> held (get_css_set s S)"
  by (fastforce simp: held_def get_css_set_def)

lemma held_upd [held_step]: "held S \<Longrightarrow> (\<And>x. refcount (f x) = refcount x) \<Longrightarrow> held (upd_cset s f S)"
  by (auto simp: held_def)

lemma held_told [held_step]: "told_only S S' \<Longrightarrow> held S \<Longrightarrow> held S'"
  by (auto simp: told_only_def held_def)

lemma held_crashed [held_step]: "held S \<Longrightarrow> held (S\<lparr>cg_crashed := b\<rparr>)"
  by (simp add: held_def)

lemma held_counts: "counts_only S S' \<Longrightarrow> held S' = held S"
  by (rule held_cong) (simp_all add: counts_onlyD)

lemma held_put [held_step]: "held S \<Longrightarrow> held (put_css_set s S)"
proof (induction s S rule: put_css_set.induct)
  case (1 s S)
  let ?S = "upd_cset s (\<lambda>x. x\<lparr>refcount := refcount x - 1\<rparr>) S"
  let ?R = "?S\<lparr>css_set_table := removeAll s (css_set_table ?S)\<rparr>"
  show ?case
  proof (cases "refcount (cset ?S s) = 0")
    case False
    then have "held ?S" using "1.prems" by (fastforce simp: held_def)
    then show ?thesis using False unfolding put_css_set.simps [of s] Let_def by simp
  next
    case True
    have R: "held ?R" using "1.prems" by (auto simp: held_def)
    show ?thesis
    proof (cases "css_set_threaded ?R s \<and> dfl_cgrp (cset ?R (dom_cset (cset ?R s))) < dfl_cgrp (cset ?R s)")
      case True: True
      then have "held (put_css_set (dom_cset (cset ?R s)) ?R)"
        using "1.IH" [OF refl _ refl] \<open>refcount (cset ?S s) = 0\<close> R by simp
      then show ?thesis using True \<open>refcount (cset ?S s) = 0\<close> unfolding put_css_set.simps [of s S] Let_def by simp
    next
      case False
      then show ?thesis using R True unfolding put_css_set.simps [of s S] Let_def by (auto split: if_splits)
    qed
  qed
qed

lemma held_create [held_step]: "held S \<Longrightarrow> held (create_css_set P old c S)"
  by (auto simp: held_def create_css_set_def Let_def fold_link_css_set new_css_set_def)

lemma held_find [held_step]: "held S \<Longrightarrow> held (snd (find_css_set P old c S))"
proof (induction "cset_target S old c" arbitrary: S old c rule: less_induct)
  case less
  show ?case
  proof (cases "find_existing_css_set P S old c")
    case None
    then show ?thesis using less.prems by (simp add: find_css_set.simps [of P old c S] held_crashed)
  next
    case (Some res)
    show ?thesis
    proof (cases res)
      case (Some s)
      then show ?thesis
        using less.prems \<open>find_existing_css_set P S old c = Some res\<close>
        by (simp add: find_css_set.simps [of P old c S] held_get)
    next
      case None
      obtain b k where alloc: "allocate_cgrp_cset_links (cgroup_root_count S) (S\<lparr>asked := asked S + 1\<rparr>)
          = (b, S\<lparr>asked := k\<rparr>)"
        using allocate_links_asked [of "cgroup_root_count S" "S\<lparr>asked := asked S + 1\<rparr>"]
        by (cases "allocate_cgrp_cset_links (cgroup_root_count S) (S\<lparr>asked := asked S + 1\<rparr>)") auto
      let ?C = "create_css_set P old c (S\<lparr>asked := k\<rparr>)" and ?s = "next_cset S"
      let ?d = "dom_cgrp (cgroups ?C (dfl_cgrp (cset ?C ?s)))"
      have A: "held (S\<lparr>asked := n\<rparr>)" for n using less.prems by (simp add: held_def)
      then have C: "held ?C" by (rule held_create)
      have "held (snd (find_css_set P ?s ?d ?C))"
        if "?d < cset_target S old c" "cgroup_on_dfl ?C ?d"
        using that C by (intro less.hyps) (simp_all add: cset_target_def)
      then show ?thesis
        using None \<open>find_existing_css_set P S old c = Some res\<close> alloc A C
        by (auto simp: find_css_set.simps [of P old c S] ask_def Let_def held_put held_upd
            split: prod.split option.split)
    qed
  qed
qed

subsection \<open>A migration\<close>

lemma update_populated_counts [simp]: "counts_only S (css_set_update_populated s populated S)"
proof -
  have "counts_only S (fold (\<lambda>c. cgroup_update_populated c populated) cs S)" for cs S
    by (induction cs arbitrary: S)
      (simp, metis counts_only_trans update_populated_frame cgroup_update_populated_def fold_simps(2))
  then show ?thesis by (simp add: css_set_update_populated_def)
qed

lemma held_move_task [held_step]: "held S \<Longrightarrow> held (css_set_move_task t from_cset to_cset mg S)"
proof -
  assume "held S"
  moreover have "held (raise_populated s S) = held S" for s S
    by (simp add: raise_populated_def held_counts [OF update_populated_counts])
  moreover have "held (lower_populated s S) = held S" for s S
    by (simp add: lower_populated_def held_counts [OF update_populated_counts])
  moreover have "held (S\<lparr>task_css_set := tc\<rparr>) = held S" for S tc by (simp add: held_def)
  moreover have "refcount (unlist_task t x) = refcount x" for x by (simp add: unlist_task_def)
  ultimately show ?thesis
    unfolding css_set_move_task_def Let_def raise_populated_def [symmetric] lower_populated_def [symmetric]
    by (auto intro!: held_upd split: option.split)
qed

lemma held_calls: "held (cgcall_to e S) = held S" "held (fold (\<lambda>i. cgcall_to (f i)) xs S) = held S"
proof -
  show "held (cgcall_to e S) = held S" for e S by (rule held_cong) (simp_all add: cgcall_to_def)
  then show "held (fold (\<lambda>i. cgcall_to (f i)) xs S) = held S" by (induction xs arbitrary: S) simp_all
qed

lemma held_move_one [held_step]: "held S \<Longrightarrow> held (move_one t S)"
  by (auto simp: move_one_def Let_def held_calls intro!: held_put held_upd held_move_task held_get held_crashed
      split: option.split)

lemma held_fold: "(\<And>x S. held S \<Longrightarrow> held (f x S)) \<Longrightarrow> held S \<Longrightarrow> held (fold f xs S)"
  by (induction xs arbitrary: S) auto

lemma held_execute [held_step]:
  assumes "held S"
  shows "held (snd (cgroup_migrate_execute P m S))"
proof -
  let ?ask = "if tset_nr_tasks m \<noteq> 0
    then ask_can_attach P (taskset m S) (filter (\<lambda>i. i \<in> mg_ss_mask m) [0..<CGROUP_SUBSYS_COUNT P]) S else ((0, []), S)"
  have "held (snd ?ask)" using assms held_told [OF ask_can_attach_told] by simp
  moreover have "held (fold release_cset ss S) = held S" for ss S
  proof (induction ss arbitrary: S)
    case (Cons s ss)
    have "held (release_cset s S) = held S"
      by (rule held_cong) (simp_all add: release_cset_def)
    then show ?case using Cons by simp
  qed simp
  moreover have "held (fold (\<lambda>s S. fold move_one (mg_tasks (cset S s)) S) ss S)" if "held S" for ss S
    using that by (intro held_fold) (auto intro: held_move_one)
  ultimately show ?thesis
    by (auto simp: cgroup_migrate_execute_def Let_def held_calls simp del: fold_append split: prod.split)
qed

lemma held_finish [held_step]: "held S \<Longrightarrow> held (cgroup_migrate_finish m S)"
  unfolding cgroup_migrate_finish_def finish_one_def by (intro held_fold held_put held_upd) simp_all

lemma held_prepare_one: "held S \<Longrightarrow> prepare_one P src m S = (r, m', S') \<Longrightarrow> held S'"
proof -
  assume S: "held S" and one: "prepare_one P src m S = (r, m', S')"
  show "held S'"
  proof (cases "mg_dst_cgrp (cset S src)")
    case None
    then show ?thesis using S one by (auto simp: prepare_one_def held_def)
  next
    case (Some d)
    obtain res S1 where find: "find_css_set P src d S = (res, S1)" by (cases "find_css_set P src d S")
    then have "held S1" using held_find [OF S, of P src d] by simp
    then show ?thesis
      using one Some find
      by (auto simp: prepare_one_def Let_def intro!: held_put held_upd split: option.splits if_splits)
  qed
qed

lemma held_prepare [held_step]: "held S \<Longrightarrow> prepare_loop P srcs m S = (r, m', S') \<Longrightarrow> held S'"
proof (induction srcs arbitrary: m S)
  case (Cons src srcs)
  obtain r1 m1 S1 where one: "prepare_one P src m S = (r1, m1, S1)" by (cases "prepare_one P src m S")
  then show ?case
    using Cons.prems(2) Cons.IH [OF held_prepare_one [OF Cons.prems(1) one]] held_prepare_one [OF Cons.prems(1) one]
    by (auto split: if_splits)
qed simp

lemma held_add_src [held_step]: "held S \<Longrightarrow> held (snd (cgroup_migrate_add_src s d (m, S)))"
  by (auto simp: cgroup_migrate_add_src_def intro!: held_get held_upd held_crashed split: option.split)

lemma held_add_task [held_step]: "held S \<Longrightarrow> held (snd (cgroup_migrate_add_task t (m, S)))"
  by (auto simp: cgroup_migrate_add_task_def Let_def unlist_task_def
      intro!: held_upd held_crashed split: option.split)

lemma held_add_tasks: "held S \<Longrightarrow> held (snd (fold cgroup_migrate_add_task ts (m, S)))"
proof (induction ts arbitrary: m S)
  case (Cons t ts)
  show ?case using Cons.IH [OF held_add_task [OF Cons.prems]] by (metis fold_simps(2) surjective_pairing)
qed simp

end
