(* ===== verification/Control.thy ===== *)
theory Control
  imports Migrate
begin

section \<open>The control of subtrees\<close>

text \<open>
  Which controllers a cgroup has: the files \<open>cgroup.controllers\<close>, \<open>cgroup.subtree_control\<close> and
  \<open>cgroup.type\<close> of \<open>cgroup/cgroup.c\<close>, the creation and removal of csses that follows a change of the
  masks, and what creation and removal of a cgroup do to them.
\<close>

subsection \<open>Masks\<close>

text \<open>A mask is stored in a \<open>u16\<close>.\<close>

definition u16 :: "ssmask \<Rightarrow> ssmask" where
  "u16 m = m \<inter> {..<16}"

definition mask_turn :: "subsystems \<Rightarrow> ssmask \<Rightarrow> ssmask \<Rightarrow> ssmask" where
  "mask_turn P this_ss_mask cur =
     u16 (cur \<union> \<Union> (depends_on P ` (cur \<inter> {..<CGROUP_SUBSYS_COUNT P}))) \<inter> this_ss_mask"

lemma mask_turn_inside: "mask_turn P this cur \<subseteq> this \<inter> {..<16}"
  by (auto simp: mask_turn_def u16_def)

lemma mask_turn_grows: "cur \<subseteq> this \<inter> {..<16} \<Longrightarrow> cur \<subseteq> mask_turn P this cur"
  by (auto simp: mask_turn_def u16_def)

text \<open>\<open>while (true)\<close>: from the second turn on the mask only grows, so there is an end.\<close>

function mask_loop :: "subsystems \<Rightarrow> ssmask \<Rightarrow> ssmask \<Rightarrow> ssmask" where
  "mask_loop P this_ss_mask cur =
     (let new_ss_mask = mask_turn P this_ss_mask cur
      in if new_ss_mask = cur then cur else mask_loop P this_ss_mask new_ss_mask)"
  by pat_completeness auto
termination
proof (relation "measure (\<lambda>(P, this, cur). (if cur \<subseteq> this \<inter> {..<16} then 0 else 17) + card ({..<16} - cur))")
  fix P :: subsystems and this cur new
  assume new: "new = mask_turn P this cur" "new \<noteq> cur"
  have le: "card ({..<16} - new) \<le> 16" using card_mono [of "{..<16::nat}" "{..<16} - new"] by auto
  show "((P, this, new), (P, this, cur)) \<in>
    measure (\<lambda>(P, this, cur). (if cur \<subseteq> this \<inter> {..<16} then 0 else 17) + card ({..<16} - cur))"
  proof (cases "cur \<subseteq> this \<inter> {..<16}")
    case True
    then have "cur \<subset> new" using mask_turn_grows [OF True, of P] new by auto
    then have "{..<16} - new \<subset> {..<16} - cur" using mask_turn_inside [of P this cur] new(1) by auto
    then have "card ({..<16} - new) < card ({..<16} - cur)" by (intro psubset_card_mono) auto
    then show ?thesis using True mask_turn_inside [of P this cur] new(1) by simp
  next
    case False
    then show ?thesis using le mask_turn_inside [of P this cur] unfolding new(1) by auto
  qed
qed simp

declare mask_loop.simps [simp del]

definition cgroup_calc_subtree_ss_mask :: "subsystems \<Rightarrow> ssmask \<Rightarrow> ssmask \<Rightarrow> ssmask" where
  "cgroup_calc_subtree_ss_mask P control this_ss_mask =
     mask_loop P this_ss_mask (control \<union> cgrp_dfl_implicit_ss_mask P)"

definition live_pre :: "cgsys \<Rightarrow> nat \<Rightarrow> nat list" where
  "live_pre S c = filter (\<lambda>d. self_online (cgroups S d)) (css_for_each_descendant_pre (ftree S) c)"

definition live_post :: "cgsys \<Rightarrow> nat \<Rightarrow> nat list" where
  "live_post S c = filter (\<lambda>d. self_online (cgroups S d)) (css_for_each_descendant_post (ftree S) c)"

definition live_children :: "cgsys \<Rightarrow> nat \<Rightarrow> nat list" where
  "live_children S c = filter (\<lambda>d. self_online (cgroups S d)) (kids (ftree S) c)"

definition cgroup_save_control :: "nat \<Rightarrow> cgsys \<Rightarrow> cgsys" where
  "cgroup_save_control c S =
     fold (\<lambda>d. upd_cgrp d (\<lambda>x. x\<lparr>old_subtree_control := subtree_control x,
                old_subtree_ss_mask := subtree_ss_mask x, old_dom_cgrp := dom_cgrp x\<rparr>)) (live_pre S c) S"

definition propagate_one :: "subsystems \<Rightarrow> nat \<Rightarrow> cgsys \<Rightarrow> cgsys" where
  "propagate_one P d S =
     (let S = upd_cgrp d (\<lambda>x. x\<lparr>subtree_control := subtree_control x \<inter> cgroup_control P S d\<rparr>) S
      in upd_cgrp d (\<lambda>x. x\<lparr>subtree_ss_mask :=
           cgroup_calc_subtree_ss_mask P (subtree_control x) (cgroup_ss_mask P S d)\<rparr>) S)"

definition cgroup_propagate_control :: "subsystems \<Rightarrow> nat \<Rightarrow> cgsys \<Rightarrow> cgsys" where
  "cgroup_propagate_control P c S = fold (propagate_one P) (live_pre S c) S"

definition cgroup_restore_control :: "nat \<Rightarrow> cgsys \<Rightarrow> cgsys" where
  "cgroup_restore_control c S =
     fold (\<lambda>d. upd_cgrp d (\<lambda>x. x\<lparr>subtree_control := old_subtree_control x,
                subtree_ss_mask := old_subtree_ss_mask x, dom_cgrp := old_dom_cgrp x\<rparr>)) (live_post S c) S"

subsection \<open>The life of a css\<close>

definition upd_css :: "nat \<Rightarrow> (css \<Rightarrow> css) \<Rightarrow> cgsys \<Rightarrow> cgsys" where
  "upd_css k f S = S\<lparr>css_obj := (css_obj S)(k := f (css_obj S k))\<rparr>"

definition css_visible :: "subsystems \<Rightarrow> cgsys \<Rightarrow> nat \<Rightarrow> bool" where
  "css_visible P S k =
     (let c = css_cgroup (css_obj S k); i = css_ssid (css_obj S k) in
      if i \<in> cgroup_control P S c then True
      else if i \<notin> cgroup_ss_mask P S c then False
      else cgroup_on_dfl S c \<and> implicit_on_dfl P i)"

definition css_clear_dir :: "nat \<Rightarrow> cgsys \<Rightarrow> cgsys" where
  "css_clear_dir k = upd_css k (\<lambda>x. x\<lparr>CSS_VISIBLE := False\<rparr>)"

definition css_populate_dir :: "nat \<Rightarrow> cgsys \<Rightarrow> int \<times> cgsys" where
  "css_populate_dir k S =
     (if CSS_VISIBLE (css_obj S k) \<or> \<not> has_kn (cgroups S (css_cgroup (css_obj S k))) then (0, S)
      else let (ret, S) = ask S in
           if ret \<noteq> 0 then (ret, S) else (0, upd_css k (\<lambda>x. x\<lparr>CSS_VISIBLE := True\<rparr>) S))"

definition init_and_link_css :: "nat \<Rightarrow> nat \<Rightarrow> nat \<Rightarrow> cgsys \<Rightarrow> cgsys" where
  "init_and_link_css k i c S =
     (let par = (case cgroup_parent S c of Some p \<Rightarrow> cgroup_css S p i | None \<Rightarrow> None)
      in S\<lparr>css_obj := (css_obj S)(k := \<lparr>css_cgroup = c, css_ssid = i, css_parent = par, CSS_ONLINE = False,
             CSS_DYING = False, CSS_VISIBLE = False, online_cnt = 0\<rparr>),
           next_css := k + 1, cg_crashed := cg_crashed S \<or> par = None \<or> cgroup_css S c i \<noteq> None\<rparr>)"

definition online_css :: "nat \<Rightarrow> cgsys \<Rightarrow> int \<times> cgsys" where
  "online_css k S =
     (let (ret, S) = ask S; x = css_obj S k in
      if ret \<noteq> 0 then (ret, S)
      else
        let S = upd_css k (\<lambda>x. x\<lparr>CSS_ONLINE := True, online_cnt := online_cnt x + 1\<rparr>) S;
            S = upd_cgrp (css_cgroup x) (\<lambda>y. y\<lparr>subsys := (subsys y)(css_ssid x := Some k)\<rparr>) S
        in (0, case css_parent x of
                 Some p \<Rightarrow> upd_css p (\<lambda>y. y\<lparr>online_cnt := online_cnt y + 1\<rparr>) S | None \<Rightarrow> S))"

text \<open>The answers are those of \<open>css_alloc\<close>, \<open>percpu_ref_init\<close>, \<open>cgroup_idr_alloc\<close> and \<open>css_online\<close>.  A css
  that is not brought online is freed.\<close>

definition css_create :: "nat \<Rightarrow> nat \<Rightarrow> cgsys \<Rightarrow> (int + nat) \<times> cgsys" where
  "css_create c i S =
     (case cgroup_parent S c of
        None \<Rightarrow> (Inl 0, S\<lparr>cg_crashed := True\<rparr>)
      | Some parent \<Rightarrow>
          let (ret, S) = ask S in
          if ret \<noteq> 0 then (Inl ret, S)
          else
            let k = next_css S; S = init_and_link_css k i c S; (ret, S) = ask S in
            if ret \<noteq> 0 then (Inl ret, S)
            else
              let (ret, S) = ask S in
              if ret \<noteq> 0 then (Inl ret, S)
              else let (ret, S) = online_css k S in if ret \<noteq> 0 then (Inl ret, S) else (Inr k, S))"

definition kill_css :: "nat \<Rightarrow> cgsys \<Rightarrow> cgsys" where
  "kill_css k S =
     (if CSS_DYING (css_obj S k) then S
      else css_clear_dir k (upd_css k (\<lambda>x. x\<lparr>CSS_DYING := True\<rparr>) S))"

definition offline_css :: "nat \<Rightarrow> cgsys \<Rightarrow> cgsys" where
  "offline_css k S =
     (let x = css_obj S k in
      if \<not> CSS_ONLINE x then S
      else upd_cgrp (css_cgroup x) (\<lambda>y. y\<lparr>subsys := (subsys y)(css_ssid x := None)\<rparr>)
             (upd_css k (\<lambda>x. x\<lparr>CSS_ONLINE := False\<rparr>) (cgcall_to (css_offline k) S)))"

text \<open>\<open>css_killed_ref_fn\<close> with the work it queues, once the kill is seen on all CPUs: the css goes
  offline with its last online child, and then perhaps its parent.\<close>

function css_killed :: "nat \<Rightarrow> cgsys \<Rightarrow> cgsys" where
  "css_killed k S =
     (let S = upd_css k (\<lambda>x. x\<lparr>online_cnt := online_cnt x - 1\<rparr>) S in
      if online_cnt (css_obj S k) \<noteq> 0 then S
      else
        let S = offline_css k S in
        case css_parent (css_obj S k) of
          None \<Rightarrow> S
        | Some p \<Rightarrow> if p < k then css_killed p S else S)"
  by pat_completeness auto
termination by (relation "measure fst") auto

declare css_killed.simps [simp del]

subsection \<open>Applying the masks\<close>

definition enable_one :: "subsystems \<Rightarrow> nat \<times> nat \<Rightarrow> cgsys \<Rightarrow> int \<times> cgsys" where
  "enable_one P = (\<lambda>(d, i) S.
     if i \<notin> cgroup_ss_mask P S d then (0, S)
     else
       let (r, S) = (case cgroup_css S d i of Some k \<Rightarrow> (Inr k, S) | None \<Rightarrow> css_create d i S)
       in case r of
            Inl ret \<Rightarrow> (ret, S)
          | Inr k \<Rightarrow> if css_visible P S k then css_populate_dir k S else (0, S))"

fun enable_loop :: "subsystems \<Rightarrow> (nat \<times> nat) list \<Rightarrow> cgsys \<Rightarrow> int \<times> cgsys" where
  "enable_loop P [] S = (0, S)"
| "enable_loop P (p # ps) S =
     (let (ret, S) = enable_one P p S in if ret \<noteq> 0 then (ret, S) else enable_loop P ps S)"

definition cgroup_apply_control_enable :: "subsystems \<Rightarrow> nat \<Rightarrow> cgsys \<Rightarrow> int \<times> cgsys" where
  "cgroup_apply_control_enable P c S =
     enable_loop P (List.product (live_pre S c) [0..<CGROUP_SUBSYS_COUNT P]) S"

definition disable_one :: "subsystems \<Rightarrow> nat \<times> nat \<Rightarrow> cgsys \<Rightarrow> cgsys" where
  "disable_one P = (\<lambda>(d, i) S.
     case cgroup_css S d i of
       None \<Rightarrow> S
     | Some k \<Rightarrow>
         if css_parent (css_obj S k) \<noteq> None \<and> i \<notin> cgroup_ss_mask P S d then kill_css k S
         else if \<not> css_visible P S k then cgcall_to (css_reset k) (css_clear_dir k S)
         else S)"

definition cgroup_apply_control_disable :: "subsystems \<Rightarrow> nat \<Rightarrow> cgsys \<Rightarrow> cgsys" where
  "cgroup_apply_control_disable P c S =
     fold (disable_one P) (List.product (live_post S c) [0..<CGROUP_SUBSYS_COUNT P]) S"

text \<open>The css_sets that are linked to a cgroup, the oldest first.\<close>

definition cset_links :: "cgsys \<Rightarrow> nat \<Rightarrow> nat list" where
  "cset_links S c = filter (\<lambda>s. c \<in> set (cgrp_links (cset S s))) (rev (css_set_table S))"

definition cgroup_update_dfl_csses :: "subsystems \<Rightarrow> nat \<Rightarrow> cgsys \<Rightarrow> int \<times> cgsys" where
  "cgroup_update_dfl_csses P c S =
     (let (m, S) = fold (\<lambda>d (m, S). fold (\<lambda>s. cgroup_migrate_add_src s d) (cset_links S d) (m, S))
                     (live_pre S c) (mgctx_init, S);
          (ret, m, S) = cgroup_migrate_prepare_dst P m S;
          (ret, S) = (if ret \<noteq> 0 then (ret, S)
                      else
                        let tasks = concat (map (\<lambda>s. cset_tasks (cset S s)) (preloaded_src_csets m));
                            (m, S) = fold cgroup_migrate_add_task tasks (m, S)
                        in cgroup_migrate_execute P m S)
      in (ret, cgroup_migrate_finish m S))"

definition cgroup_apply_control :: "subsystems \<Rightarrow> nat \<Rightarrow> cgsys \<Rightarrow> int \<times> cgsys" where
  "cgroup_apply_control P c S =
     (let S = cgroup_propagate_control P c S;
          (ret, S) = cgroup_apply_control_enable P c S
      in if ret \<noteq> 0 then (ret, S) else cgroup_update_dfl_csses P c S)"

definition cgroup_finalize_control :: "subsystems \<Rightarrow> nat \<Rightarrow> int \<Rightarrow> cgsys \<Rightarrow> cgsys" where
  "cgroup_finalize_control P c ret S =
     (let S = (if ret \<noteq> 0 then cgroup_propagate_control P c (cgroup_restore_control c S) else S)
      in cgroup_apply_control_disable P c S)"

subsection \<open>Writing \<open>cgroup.subtree_control\<close>\<close>

definition cgroup_vet_subtree_control_enable :: "subsystems \<Rightarrow> cgsys \<Rightarrow> nat \<Rightarrow> ssmask \<Rightarrow> int" where
  "cgroup_vet_subtree_control_enable P S c enable =
     (let domain_enable = enable - cgrp_dfl_threaded_ss_mask P in
      if enable = {} then 0
      else if \<not> cgroup_is_valid_domain P S (dom_cgrp (cgroups S c)) then - EOPNOTSUPP
      else if cgroup_is_mixable S c then 0
      else if domain_enable \<noteq> {} \<and> (cgroup_is_thread_root P S c \<or> cgroup_is_threaded S c) then - EOPNOTSUPP
      else if domain_enable = {} \<and> (cgroup_can_be_thread_root P S c \<or> cgroup_is_threaded S c) then 0
      else if cgroup_has_tasks S c then - EBUSY
      else 0)"

text \<open>The tokens between single blanks; \<open>strsep\<close> gives empty ones for repeated blanks.\<close>

fun blank_tokens :: "string \<Rightarrow> string \<Rightarrow> string list" where
  "blank_tokens acc [] = [rev acc]"
| "blank_tokens acc (c # cs) =
     (if c = CHR '' '' then rev acc # blank_tokens [] cs else blank_tokens (c # acc) cs)"

definition find_subsys :: "subsystems \<Rightarrow> string \<Rightarrow> nat option" where
  "find_subsys P name =
     find (\<lambda>i. i \<notin> cgrp_dfl_inhibit_ss_mask P \<and> ssid_enabled P i \<and> name = ss_name P i)
       [0..<CGROUP_SUBSYS_COUNT P]"

fun parse_control :: "subsystems \<Rightarrow> string list \<Rightarrow> ssmask \<times> ssmask \<Rightarrow> (ssmask \<times> ssmask) option" where
  "parse_control P [] ed = Some ed"
| "parse_control P ([] # toks) ed = parse_control P toks ed"
| "parse_control P ((sign # name) # toks) (enable, disable) =
     (case find_subsys P name of
        None \<Rightarrow> None
      | Some i \<Rightarrow>
          if sign = CHR ''+'' then parse_control P toks (enable \<union> {i}, disable - {i})
          else if sign = CHR ''-'' then parse_control P toks (enable - {i}, disable \<union> {i})
          else None)"

text \<open>The loop over the subsystems: what is already as asked is dropped.\<close>

fun check_control :: "subsystems \<Rightarrow> cgsys \<Rightarrow> nat \<Rightarrow> nat list \<Rightarrow> ssmask \<times> ssmask \<Rightarrow> int + ssmask \<times> ssmask" where
  "check_control P S c [] ed = Inr ed"
| "check_control P S c (i # is) (enable, disable) =
     (if i \<in> enable then
        if i \<in> subtree_control (cgroups S c) then check_control P S c is (enable - {i}, disable)
        else if i \<notin> cgroup_control P S c then Inl (- ENOENT)
        else check_control P S c is (enable, disable)
      else if i \<in> disable then
        if i \<notin> subtree_control (cgroups S c) then check_control P S c is (enable, disable - {i})
        else if \<exists>d \<in> set (live_children S c). i \<in> subtree_control (cgroups S d) then Inl (- EBUSY)
        else check_control P S c is (enable, disable)
      else check_control P S c is (enable, disable))"

text \<open>From here on the cgroup is locked and no css below it is dying.\<close>

definition change_control :: "subsystems \<Rightarrow> nat \<Rightarrow> ssmask \<Rightarrow> ssmask \<Rightarrow> cgsys \<Rightarrow> int \<times> cgsys" where
  "change_control P c enable disable S =
     (let S = cgroup_save_control c S;
          S = upd_cgrp c (\<lambda>x. x\<lparr>subtree_control := subtree_control x \<union> enable\<rparr>) S;
          S = upd_cgrp c (\<lambda>x. x\<lparr>subtree_control := subtree_control x - disable\<rparr>) S;
          (ret, S) = cgroup_apply_control P c S
      in (ret, cgroup_finalize_control P c ret S))"

definition cgroup_subtree_control_write :: "subsystems \<Rightarrow> nat \<Rightarrow> string \<Rightarrow> int \<Rightarrow> cgsys \<Rightarrow> int \<times> cgsys" where
  "cgroup_subtree_control_write P c buf nbytes S =
     (case parse_control P (blank_tokens [] (strstrip buf)) ({}, {}) of
        None \<Rightarrow> (- EINVAL, S)
      | Some ed \<Rightarrow>
          if \<not> self_online (cgroups S c) then (- ENODEV, S)
          else case check_control P S c [0..<CGROUP_SUBSYS_COUNT P] ed of
            Inl e \<Rightarrow> (e, S)
          | Inr (enable, disable) \<Rightarrow>
              if enable = {} \<and> disable = {} then (nbytes, S)
              else
                let ret = cgroup_vet_subtree_control_enable P S c enable in
                if ret \<noteq> 0 then (ret, S)
                else let (ret, S) = change_control P c enable disable S
                     in (if ret \<noteq> 0 then ret else nbytes, S))"

text \<open>\<open>cgroup_lock_and_drain_offline\<close> returns in such a state.\<close>

definition drained :: "subsystems \<Rightarrow> cgsys \<Rightarrow> nat \<Rightarrow> bool" where
  "drained P S c = list_all (\<lambda>(d, i). case cgroup_css S d i of None \<Rightarrow> True | Some k \<Rightarrow> \<not> CSS_DYING (css_obj S k))
     (List.product (live_post S c) [0..<CGROUP_SUBSYS_COUNT P])"

subsection \<open>Threaded cgroups\<close>

definition cgroup_enable_threaded :: "subsystems \<Rightarrow> nat \<Rightarrow> cgsys \<Rightarrow> int \<times> cgsys" where
  "cgroup_enable_threaded P c S =
     (case cgroup_parent S c of
        None \<Rightarrow> (0, S\<lparr>cg_crashed := True\<rparr>)
      | Some parent \<Rightarrow>
          let dom = dom_cgrp (cgroups S parent) in
          if cgroup_is_threaded S c then (0, S)
          else if cgroup_is_populated (cgroups S c)
               \<or> subtree_control (cgroups S c) - cgrp_dfl_threaded_ss_mask P \<noteq> {} then (- EOPNOTSUPP, S)
          else if \<not> cgroup_is_valid_domain P S dom \<or> \<not> cgroup_can_be_thread_root P S dom then (- EOPNOTSUPP, S)
          else
            let S = cgroup_save_control c S;
                S = fold (\<lambda>d S. if d = c \<or> cgroup_is_threaded S d
                                then upd_cgrp d (\<lambda>x. x\<lparr>dom_cgrp := dom\<rparr>) S else S) (live_pre S c) S;
                (ret, S) = cgroup_apply_control P c S;
                S = (if ret = 0
                     then upd_cgrp parent (\<lambda>x. x\<lparr>nr_threaded_children := nr_threaded_children x + 1\<rparr>) S else S)
            in (ret, cgroup_finalize_control P c ret S))"

definition cgroup_type_show :: "subsystems \<Rightarrow> cgsys \<Rightarrow> nat \<Rightarrow> string" where
  "cgroup_type_show P S c =
     (if cgroup_is_threaded S c then ''threaded''
      else if \<not> cgroup_is_valid_domain P S c then ''domain invalid''
      else if cgroup_is_thread_root P S c then ''domain threaded''
      else ''domain'') @ [CHR 0x0A]"

definition cgroup_type_write :: "subsystems \<Rightarrow> nat \<Rightarrow> string \<Rightarrow> int \<Rightarrow> cgsys \<Rightarrow> int \<times> cgsys" where
  "cgroup_type_write P c buf nbytes S =
     (if strstrip buf \<noteq> ''threaded'' then (- EINVAL, S)
      else if \<not> self_online (cgroups S c) then (- ENOENT, S)
      else let (ret, S) = cgroup_enable_threaded P c S in (if ret \<noteq> 0 then ret else nbytes, S))"

fun blank_separated :: "string list \<Rightarrow> string" where
  "blank_separated [] = []"
| "blank_separated [name] = name"
| "blank_separated (name # names) = name @ '' '' @ blank_separated names"

definition cgroup_print_ss_mask :: "subsystems \<Rightarrow> ssmask \<Rightarrow> string" where
  "cgroup_print_ss_mask P m =
     (let names = map (ss_name P) (filter (\<lambda>i. i \<in> m) [0..<CGROUP_SUBSYS_COUNT P])
      in if names = [] then [] else blank_separated names @ [CHR 0x0A])"

definition cgroup_controllers_show :: "subsystems \<Rightarrow> cgsys \<Rightarrow> nat \<Rightarrow> string" where
  "cgroup_controllers_show P S c = cgroup_print_ss_mask P (cgroup_control P S c)"

definition cgroup_subtree_control_show :: "subsystems \<Rightarrow> cgsys \<Rightarrow> nat \<Rightarrow> string" where
  "cgroup_subtree_control_show P S c = cgroup_print_ss_mask P (subtree_control (cgroups S c))"

subsection \<open>Creation and removal of a cgroup\<close>

definition new_cgroup :: "nat \<Rightarrow> cgroup" where
  "new_cgroup c =
     \<lparr>self_online = True, has_kn = False, self_visible = False, dom_cgrp = c, subtree_control = {},
      subtree_ss_mask = {}, old_dom_cgrp = 0, old_subtree_control = {}, old_subtree_ss_mask = {},
      nr_populated_csets = 0, nr_populated_domain_children = 0, nr_populated_threaded_children = 0,
      nr_threaded_children = 0, subsys = (\<lambda>i. None)\<rparr>"

text \<open>The answers of \<open>n\<close> calls that may fail, up to the first that does.\<close>

fun ask_all :: "nat \<Rightarrow> cgsys \<Rightarrow> int \<times> cgsys" where
  "ask_all 0 S = (0, S)"
| "ask_all (Suc n) S = (let (ret, S) = ask S in if ret \<noteq> 0 then (ret, S) else ask_all n S)"

text \<open>\<open>c\<close> is the next number.  \<open>kzalloc\<close>, the reference count, on the default hierarchy the
  statistics, the id, the pressure information and the programs may fail.\<close>

definition cgroup_create :: "subsystems \<Rightarrow> nat \<Rightarrow> nat \<Rightarrow> cgsys \<Rightarrow> int \<times> cgsys" where
  "cgroup_create P parent c S =
     (let (ret, S) = ask_all (if cgroup_on_dfl S parent then 6 else 5) S in
      if ret \<noteq> 0 then (ret, S)
      else
        let S = S\<lparr>cgroups := (cgroups S)(c := new_cgroup c), root_of := (root_of S)(c := root_of S parent),
                  ftree := (ftree S)\<lparr>tpar := (tpar (ftree S))(c \<mapsto> parent), tcss := tcss (ftree S) @ [c]\<rparr>\<rparr>;
            S = (if \<not> cgroup_on_dfl S c
                 then upd_cgrp c (\<lambda>x. x\<lparr>subtree_control := cgroup_control P S c\<rparr>) S else S)
        in (0, cgroup_propagate_control P c S))"

definition cgroup_destroy_locked :: "subsystems \<Rightarrow> nat \<Rightarrow> cgsys \<Rightarrow> int \<times> cgsys" where
  "cgroup_destroy_locked P c S =
     (if cgroup_is_populated (cgroups S c) then (- EBUSY, S)
      else if list_ex (\<lambda>d. self_online (cgroups S d)) (kids (ftree S) c) then (- EBUSY, S)
      else
        let S = upd_cgrp c (\<lambda>x. x\<lparr>self_online := False\<rparr>) S;
            S = fold (\<lambda>s. upd_cset s (\<lambda>x. x\<lparr>cset_dead := True\<rparr>)) (cset_links S c) S;
            S = fold (\<lambda>i S. case cgroup_css S c i of None \<Rightarrow> S | Some k \<Rightarrow> kill_css k S)
                  [0..<CGROUP_SUBSYS_COUNT P] S;
            S = upd_cgrp c (\<lambda>x. x\<lparr>self_visible := False\<rparr>) S
        in (0, case cgroup_parent S c of
                 Some parent \<Rightarrow>
                   cgcall_to (check_for_release parent)
                     (if cgroup_is_threaded S c
                      then upd_cgrp parent (\<lambda>x. x\<lparr>nr_threaded_children := nr_threaded_children x - 1\<rparr>) S else S)
               | None \<Rightarrow> S))"

text \<open>\<open>in_limits\<close> is the answer of \<open>cgroup_check_hierarchy_limits\<close>; the answers are those of the directory,
  of its owner and of its files.\<close>

definition cgroup_mkdir :: "subsystems \<Rightarrow> nat \<Rightarrow> nat \<Rightarrow> string \<Rightarrow> bool \<Rightarrow> cgsys \<Rightarrow> int \<times> cgsys" where
  "cgroup_mkdir P parent c name in_limits S =
     (if CHR 0x0A \<in> set name then (- EINVAL, S)
      else if \<not> self_online (cgroups S parent) then (- ENODEV, S)
      else if \<not> in_limits then (- EAGAIN, S)
      else
        let (ret, S) = cgroup_create P parent c S in
        if ret \<noteq> 0 then (ret, S)
        else
          let (ret, S) = ask S in
          if ret \<noteq> 0 then (ret, snd (cgroup_destroy_locked P c S))
          else
            let S = upd_cgrp c (\<lambda>x. x\<lparr>has_kn := True\<rparr>) S; (ret, S) = ask_all 2 S in
            if ret \<noteq> 0 then (ret, snd (cgroup_destroy_locked P c S))
            else
              let S = upd_cgrp c (\<lambda>x. x\<lparr>self_visible := True\<rparr>) S;
                  (ret, S) = cgroup_apply_control_enable P c S
              in if ret \<noteq> 0 then (ret, snd (cgroup_destroy_locked P c S)) else (0, S))"

definition cgroup_rmdir :: "subsystems \<Rightarrow> nat \<Rightarrow> cgsys \<Rightarrow> int \<times> cgsys" where
  "cgroup_rmdir P c S =
     (if \<not> self_online (cgroups S c) then (0, S) else cgroup_destroy_locked P c S)"

text \<open>The last reference to a removed cgroup: it has no cgroup below, no css and no css_set.\<close>

definition releasable :: "subsystems \<Rightarrow> cgsys \<Rightarrow> nat \<Rightarrow> bool" where
  "releasable P S c \<longleftrightarrow> \<not> self_online (cgroups S c) \<and> kids (ftree S) c = [] \<and> cset_links S c = []
     \<and> list_all (\<lambda>i. cgroup_css S c i = None) [0..<CGROUP_SUBSYS_COUNT P]"

definition cgroup_released :: "nat \<Rightarrow> cgsys \<Rightarrow> cgsys" where
  "cgroup_released c S = S\<lparr>ftree := (ftree S)\<lparr>tcss := filter (\<lambda>d. d \<noteq> c) (tcss (ftree S))\<rparr>\<rparr>"

end
