(* ===== verification/Control_Rest.thy ===== *)
theory Control_Rest
  imports CssSet_Held Control
begin

section \<open>The control of subtrees moves no task\<close>

definition at_rest :: "nat set \<Rightarrow> cgsys \<Rightarrow> bool" where
  "at_rest K S \<longleftrightarrow> resting K S \<and> held S"

lemma at_restD:
  assumes "at_rest K S"
  shows "resting K S" and "held S" and "csets_ok K (mg_pins mgctx_init) S" and "css_tree_ok (ftree S)"
proof -
  show "resting K S" "held S" using assms by (simp_all add: at_rest_def)
  then show "csets_ok K (mg_pins mgctx_init) S" by (intro restingD(2))
  then show "css_tree_ok (ftree S)" by (rule csets_okD(1))
qed

lemma at_rest_in_use:
  assumes "at_rest K S" and "x \<in> set (css_set_table S)"
  shows "in_use K S x"
proof -
  note cs = csets_okD [OF at_restD(3) [OF assms(1)]]
  have "0 < refcount (cset S x)" using at_restD(2) [OF assms(1)] assms(2) by (simp add: held_def)
  then have "0 < mg_pins mgctx_init x + refs K S x" using cs(10) [OF assms(2)] by linarith
  then show ?thesis
    using cs(2) by (auto simp: in_use_def refs_def mg_pins_def mgctx_init_def card_gt_0_iff split: if_splits)
qed

subsection \<open>New csses for the css_sets\<close>

lemma links_stay:
  assumes "csets_ok K pins S" and "s \<in> set (css_set_table S)" and "d \<in> set (cgrp_links (cset S s))"
  shows "new_links S s d = cgrp_links (cset S s)"
proof -
  have "distinct (map (root_of S) (cgrp_links (cset S s)))"
    using csets_okD(5) [OF assms(1)] csets_okD(8) [OF assms(1,2)] by (simp add: cset_wf_def)
  then have "inj_on (root_of S) (set (cgrp_links (cset S s)))" by (simp add: distinct_map)
  then have "(if root_of S e = root_of S d then d else e) = e" if "e \<in> set (cgrp_links (cset S s))" for e
    using that assms(3) by (auto dest: inj_onD)
  then show ?thesis unfolding new_links_def by (intro map_idI)
qed

lemma cset_links_in: "s \<in> set (cset_links S c) \<longleftrightarrow> s \<in> set (css_set_table S) \<and> c \<in> set (cgrp_links (cset S s))"
  by (auto simp: cset_links_def)

definition collected :: "nat set \<Rightarrow> cgsys \<Rightarrow> mgctx \<Rightarrow> cgsys \<Rightarrow> bool" where
  "collected K S0 m S \<longleftrightarrow> collecting (\<lambda>l. l) K m S \<and> preloaded_dst_csets m = [] \<and> mg_grow S0 S
     \<and> css_set_table S = css_set_table S0 \<and> held S \<and> (\<forall>x. cgrp_links (cset S x) = cgrp_links (cset S0 x))
     \<and> (\<forall>x. mg_tasks (cset S x) = mg_tasks (cset S0 x))"

lemma collect_one:
  assumes "collected K S0 m S" and "at_rest K S0" and "s \<in> set (cset_links S0 d)"
    and "cgroup_migrate_add_src s d (m, S) = (m', S')"
  shows "collected K S0 m' S'"
proof -
  have C: "collecting (\<lambda>l. l) K m S" "preloaded_dst_csets m = []" "mg_grow S0 S" "css_set_table S = css_set_table S0"
    "held S" "\<And>x. cgrp_links (cset S x) = cgrp_links (cset S0 x)" "\<And>x. mg_tasks (cset S x) = mg_tasks (cset S0 x)"
    using assms(1) unfolding collected_def by blast+
  have ok: "csets_ok K (mg_pins m) S"
    using core_okD(1) [OF preparingD(1)] C(1) unfolding collecting_def by blast
  note only = csets_onlyD [OF mg_grow_only [OF C(3)]]
  have s0: "s \<in> set (css_set_table S0)" "d \<in> set (cgrp_links (cset S0 s))"
    using assms(3) by (simp_all add: cset_links_in)
  have s: "s \<in> set (css_set_table S)" and d: "d \<in> set (cgrp_links (cset S s))" using s0 C(4,6) by simp_all
  note wf = csets_okD(8) [OF ok s, unfolded cset_wf_def]
  have use: "in_use K S s" by (rule in_use_grow [OF at_rest_in_use [OF assms(2) s0(1)] C(3)])
  have dt: "d \<in> set (tcss (ftree S))" "root_of S d \<in> set (hierarchies S)"
    using wf d by (auto simp flip: wf[THEN conjunct1])
  note step = add_src_ok [OF C(1) s use dt links_stay [OF ok s d] assms(4)]
  have "held S'" using held_add_src [OF C(5), of s d m] assms(4) by simp
  moreover have "css_set_table S' = css_set_table S \<and> (\<forall>x. cgrp_links (cset S' x) = cgrp_links (cset S x))
      \<and> (\<forall>x. mg_tasks (cset S' x) = mg_tasks (cset S x))"
    using assms(4) by (auto simp: cgroup_migrate_add_src_def get_css_set_def split: if_splits option.splits)
  ultimately show ?thesis
    using step C mg_grow_trans [OF C(3)] by (simp add: collected_def)
qed

lemma collect_links:
  assumes "collected K S0 m S" and "at_rest K S0" and "set ss \<subseteq> set (cset_links S0 d)"
  shows "\<exists>m' S'. fold (\<lambda>s. cgroup_migrate_add_src s d) ss (m, S) = (m', S') \<and> collected K S0 m' S'"
  using assms(1,3)
proof (induction ss arbitrary: m S)
  case Nil
  then show ?case by simp
next
  case (Cons s ss)
  obtain m1 S1 where one: "cgroup_migrate_add_src s d (m, S) = (m1, S1)" by (rule prod.exhaust)
  have "collected K S0 m1 S1" using Cons.prems(2) by (intro collect_one [OF Cons.prems(1) assms(2) _ one]) simp
  then show ?case using Cons.IH [of m1 S1] Cons.prems(2) one by simp
qed

lemma collect_tree:
  assumes "collected K S0 m S" and "at_rest K S0"
  shows "\<exists>m' S'. fold (\<lambda>d (m, S). fold (\<lambda>s. cgroup_migrate_add_src s d) (cset_links S d) (m, S)) ds (m, S) = (m', S')
    \<and> collected K S0 m' S'"
  using assms(1)
proof (induction ds arbitrary: m S)
  case Nil
  then show ?case by simp
next
  case (Cons d ds)
  have "cset_links S d = cset_links S0 d" using Cons.prems by (simp add: collected_def cset_links_def)
  then obtain m1 S1 where one: "fold (\<lambda>s. cgroup_migrate_add_src s d) (cset_links S d) (m, S) = (m1, S1)"
    "collected K S0 m1 S1" using collect_links [OF Cons.prems assms(2), of "cset_links S d" d] by auto
  then show ?case using Cons.IH [OF one(2)] by simp
qed

lemma whole_held: "held S \<Longrightarrow> held (snd (whole_migration P tasks m S))"
proof -
  assume S: "held S"
  obtain r2 m2 S2 where 2: "cgroup_migrate_prepare_dst P m S = (r2, m2, S2)" by (rule prod_cases3)
  have S2: "held S2" using held_prepare [OF S] 2 by (simp add: cgroup_migrate_prepare_dst_def)
  obtain m3 S3 where 3: "fold cgroup_migrate_add_task (tasks m2 S2) (m2, S2) = (m3, S3)" by (rule prod.exhaust)
  have "held S3" using held_add_tasks [OF S2, of "tasks m2 S2" m2] 3 by simp
  then have "held (snd (cgroup_migrate_execute P m3 S3))" by (rule held_execute)
  then show ?thesis
    using 2 3 S2 by (auto simp: whole_migration_def intro: held_finish split: prod.split)
qed

text \<open>The css_sets change, the cgroups of the tasks do not.\<close>

lemma update_dfl_csses_ok:
  assumes "at_rest K S" and "cgroup_update_dfl_csses P c S = (ret, S')"
  shows "at_rest K S'" and "mig_only S S'" and "t \<in> K \<Longrightarrow> at_links S' t = at_links S t"
    and "t \<in> K \<Longrightarrow> on_list S' t = on_list S t"
proof -
  have "collected K S mgctx_init S"
    using assms(1) resting_collecting by (simp add: collected_def at_rest_def mgctx_init_def)
  then obtain m1 S1 where 1: "fold (\<lambda>d (m, S). fold (\<lambda>s. cgroup_migrate_add_src s d) (cset_links S d) (m, S))
      (live_pre S c) (mgctx_init, S) = (m1, S1)" and C: "collected K S m1 S1"
    using collect_tree [OF _ assms(1)] by blast
  let ?tasks = "\<lambda>m S. concat (map (\<lambda>s. cset_tasks (cset S s)) (preloaded_src_csets m))"
  have swap: "(if r \<noteq> 0 then a else b) = (if r = 0 then b else a)" for r :: int and a b :: "int \<times> cgsys" by simp
  have whole: "whole_migration P ?tasks m1 S1 = (ret, S')"
    using assms(2) 1 unfolding cgroup_update_dfl_csses_def whole_migration_def Let_def swap by simp
  have grow: "mg_grow S S1" and coll: "collecting (\<lambda>l. l) K m1 S1" and held: "held S1"
    using C unfolding collected_def by blast+
  have mg1: "mg_tasks (cset S1 x) = []" if "x \<in> set (css_set_table S1)" for x
    using that C restingD(4) [OF at_restD(1) [OF assms(1)], of x] by (simp add: collected_def)
  have "resting K S' \<and> mig_only S1 S' \<and> (\<forall>t \<in> K. on_list S' t = on_list S1 t) \<and> (\<forall>t \<in> K. migrated (\<lambda>l. l) (\<lambda>t. t \<in> K \<and> \<not> exiting S1 t \<and> cg_listed S1 t
      \<and> task_css_set S1 t \<in> set (preloaded_src_csets m1)) S1 ret S' t)"
  proof (rule whole_migration_ok [OF coll mg1 refl whole])
    fix m' S'
    assume prep: "preparing (\<lambda>l. l) K [] m' S'" and none: "mg_task_set S' = {}"
    note P = preparingD [OF prep]
    note core = core_okD [OF P(1)]
    have "t \<in> K" if "t \<in> set (?tasks m' S')" for t
      using that P(9) mg_listed(1) [OF core(1)] by (auto simp: all_tasks_def)
    moreover have "t \<in> set (?tasks m' S')" if "to_move m' S' t" for t
    proof -
      have s: "task_css_set S' t \<in> set (preloaded_src_csets m')" using that by (simp add: to_move_def)
      then have tb: "task_css_set S' t \<in> set (css_set_table S')" using P(9) by simp
      have "t \<notin> set (dying_tasks (cset S' (task_css_set S' t)))"
        using core(4) [OF tb] that by (auto simp: tasks_counted_def list_all_iff to_move_def)
      moreover have "t \<notin> set (mg_tasks (cset S' (task_css_set S' t)))" using none tb by (auto simp: mg_task_set_def)
      ultimately show ?thesis using that s by (auto simp: to_move_def cg_listed_def Let_def)
    qed
    ultimately show "set (?tasks m' S') \<subseteq> K \<and> (\<forall>t \<in> K. to_move m' S' t \<longrightarrow> (t \<in> set (?tasks m' S') \<longleftrightarrow> t \<in> K))"
      by blast
  qed
  then have W: "resting K S'" "mig_only S1 S'" "\<And>t. t \<in> K \<Longrightarrow> at_links S' t = at_links S1 t"
    "\<And>t. t \<in> K \<Longrightarrow> on_list S' t = on_list S1 t"
    by (auto simp: migrated_def split: if_splits)
  show "at_rest K S'" using W(1) whole_held [OF held, of P ?tasks m1] whole by (simp add: at_rest_def)
  show "mig_only S S'" using mig_only_trans [OF csets_only_mig [OF mg_grow_only [OF grow]] W(2)] .
  show "at_links S' t = at_links S t" if "t \<in> K"
    using W(3) [OF that] at_links_grow [OF grow csets_okD(6) [OF at_restD(3) [OF assms(1)] that]] by simp
  show "on_list S' t = on_list S t" if "t \<in> K"
    using W(4) [OF that] on_list_grow [OF grow csets_okD(6) [OF at_restD(3) [OF assms(1)] that]] by simp
qed

end
