(* ===== verification/Control_Frame.thy ===== *)
theory Control_Frame
  imports Control_Rest
begin

section \<open>What the operations on control leave alone\<close>

text \<open>\<open>cg_frame h S S'\<close>: the forest, the css_sets and the tasks are as before, and so is of every cgroup what
  \<open>h\<close> shows.\<close>

definition cg_frame :: "(cgroup \<Rightarrow> 'a) \<Rightarrow> cgsys \<Rightarrow> cgsys \<Rightarrow> bool" where
  "cg_frame h S S' \<longleftrightarrow> (\<exists>f ob n k cr e. S' = S\<lparr>cgroups := f, css_obj := ob, next_css := n, asked := k, cg_crashed := cr,
       cgcalls := e\<rparr>) \<and> (\<forall>c. h (cgroups S' c) = h (cgroups S c))"

lemma cg_frameI:
  assumes "S' = S\<lparr>cgroups := cgroups S', css_obj := css_obj S', next_css := next_css S', asked := asked S',
      cg_crashed := cg_crashed S', cgcalls := cgcalls S'\<rparr>" and "\<And>c. h (cgroups S' c) = h (cgroups S c)"
  shows "cg_frame h S S'"
  unfolding cg_frame_def by (intro conjI exI, rule assms(1)) (simp add: assms(2))

lemma cg_frame_refl [simp]: "cg_frame h S S"
  by (rule cg_frameI) simp_all

lemma cg_frame_trans: "cg_frame h S S' \<Longrightarrow> cg_frame h S' S'' \<Longrightarrow> cg_frame h S S''"
  unfolding cg_frame_def by (elim conjE exE, intro conjI exI) (simp, simp)

lemma cg_frame_weaken:
  assumes "cg_frame h S S'" and "\<And>x y. h x = h y \<Longrightarrow> g x = g y"
  shows "cg_frame g S S'"
  using assms unfolding cg_frame_def by blast

lemma cg_frameD:
  assumes "cg_frame h S S'"
  shows "ftree S' = ftree S" "root_of S' = root_of S" "subsys_mask S' = subsys_mask S"
    "css_set_table S' = css_set_table S" "cset S' = cset S" "next_cset S' = next_cset S"
    "cgroup_root_count S' = cgroup_root_count S" "task_css_set S' = task_css_set S" "exiting S' = exiting S"
    "thread_group S' = thread_group S" "answers S' = answers S" "h (cgroups S' c) = h (cgroups S c)"
  using assms by (auto simp: cg_frame_def)

lemma cg_frame_steps [simp]:
  "(\<And>x. h (f x) = h x) \<Longrightarrow> cg_frame h S (upd_cgrp c f S)"
  "cg_frame h S (upd_css k g S)" "cg_frame h S (snd (ask S))" "cg_frame h S (cgcall_to e S)"
  "cg_frame h S (S\<lparr>cg_crashed := b\<rparr>)"
  by (auto intro!: cg_frameI simp: upd_cgrp_def upd_css_def ask_def cgcall_to_def)

lemma cg_frame_ask: "ask S = (r, S') \<Longrightarrow> cg_frame h S S'"
  using cg_frame_steps(3) [of h S] by simp

lemma cg_frame_fold: "(\<And>x S. cg_frame h S (f x S)) \<Longrightarrow> cg_frame h S (fold f xs S)"
  by (induction xs arbitrary: S) (auto intro: cg_frame_trans)

subsection \<open>The frame of rest\<close>

definition popc :: "cgroup \<Rightarrow> nat \<times> int \<times> int \<times> int" where
  "popc x = (dom_cgrp x, nr_populated_csets x, nr_populated_domain_children x, nr_populated_threaded_children x)"

lemma at_rest_frame:
  assumes "cg_frame popc S S'"
  shows "at_rest K S' = at_rest K S"
proof -
  note D = cg_frameD(1-11) [OF assms]
  have p: "popc (cgroups S' c) = popc (cgroups S c)" for c by (rule cg_frameD(12) [OF assms])
  then have f: "dom_cgrp (cgroups S' c) = dom_cgrp (cgroups S c)"
    "nr_populated_csets (cgroups S' c) = nr_populated_csets (cgroups S c)"
    "nr_populated_kids (cgroups S' c) th = nr_populated_kids (cgroups S c) th"
    "cgroup_is_populated (cgroups S' c) = cgroup_is_populated (cgroups S c)" for c th
    using p [of c] by (simp_all add: popc_def nr_populated_kids_def cgroup_is_populated_def)
  show ?thesis
    by (simp add: at_rest_def resting_def held_def core_ok_def csets_ok_def cset_wf_def hierarchies_def lists_ok_def
        tasks_of_def refs_def threaded_csets_def domains_ok_def cgroup_is_threaded_def counted_def kids_counted_def
        csets_counted_def populated_kids_def csets_of_def css_set_populated_def tasks_counted_def D f)
qed

lemma at_links_frame: "cg_frame h S S' \<Longrightarrow> at_links S' = at_links S"
  by (simp add: fun_eq_iff at_links_def cg_frameD)

lemma on_list_frame: "cg_frame h S S' \<Longrightarrow> on_list S' = on_list S"
  by (simp add: fun_eq_iff on_list_def cg_frameD)

subsection \<open>Creation and removal of csses\<close>

definition but_csses :: "cgroup \<Rightarrow> cgroup" where
  "but_csses x = x\<lparr>subsys := (\<lambda>i. None)\<rparr>"

lemma but_csses_subsys [simp]: "but_csses (x\<lparr>subsys := g\<rparr>) = but_csses x"
  by (simp add: but_csses_def)

lemma online_css_frame: "cg_frame but_csses S (snd (online_css k S))"
proof -
  obtain r S1 where 1: "ask S = (r, S1)" by (rule prod.exhaust)
  let ?x = "css_obj S1 k"
  let ?S2 = "upd_css k (\<lambda>x. x\<lparr>CSS_ONLINE := True, online_cnt := online_cnt x + 1\<rparr>) S1"
  let ?S3 = "upd_cgrp (css_cgroup ?x) (\<lambda>y. y\<lparr>subsys := (subsys y)(css_ssid ?x := Some k)\<rparr>) ?S2"
  have f1: "cg_frame but_csses S S1" by (rule cg_frame_ask [OF 1])
  have f3: "cg_frame but_csses S ?S3"
    by (rule cg_frame_trans [OF cg_frame_trans [OF f1 cg_frame_steps(2)] cg_frame_steps(1)]) simp
  have f4: "cg_frame but_csses S (upd_css p g ?S3)" for p g by (rule cg_frame_trans [OF f3 cg_frame_steps(2)])
  show ?thesis using f1 f3 f4 by (simp add: online_css_def 1 Let_def split: option.split)
qed

lemma css_create_frame: "cg_frame but_csses S (snd (css_create c i S))"
proof -
  have init: "cg_frame but_csses S (init_and_link_css k i c S)" for k S
    by (rule cg_frameI) (simp_all add: init_and_link_css_def Let_def)
  show ?thesis
  proof (cases "cgroup_parent S c")
    case None
    then show ?thesis by (simp add: css_create_def)
  next
    case (Some p)
    obtain r1 S1 where 1: "ask S = (r1, S1)" by (rule prod.exhaust)
    let ?S2 = "init_and_link_css (next_css S1) i c S1"
    obtain r3 S3 where 3: "ask ?S2 = (r3, S3)" by (rule prod.exhaust)
    obtain r4 S4 where 4: "ask S3 = (r4, S4)" by (rule prod.exhaust)
    obtain r5 S5 where 5: "online_css (next_css S1) S4 = (r5, S5)" by (rule prod.exhaust)
    have f1: "cg_frame but_csses S S1" by (rule cg_frame_ask [OF 1])
    have f3: "cg_frame but_csses S S3"
      by (rule cg_frame_trans [OF cg_frame_trans [OF f1 init] cg_frame_ask [OF 3]])
    have f4: "cg_frame but_csses S S4" by (rule cg_frame_trans [OF f3 cg_frame_ask [OF 4]])
    have f5: "cg_frame but_csses S S5" using cg_frame_trans [OF f4 online_css_frame [of S4 "next_css S1"]] 5 by simp
    show ?thesis using f1 f3 f4 f5 by (simp add: css_create_def Some 1 3 4 5 Let_def)
  qed
qed

lemma css_populate_dir_frame: "cg_frame h S (snd (css_populate_dir k S))"
proof -
  obtain r S1 where 1: "ask S = (r, S1)" by (rule prod.exhaust)
  have f2: "cg_frame h S (upd_css k g S1)" for k g
    by (rule cg_frame_trans [OF cg_frame_ask [OF 1] cg_frame_steps(2)])
  show ?thesis using cg_frame_ask [OF 1, of h] f2 by (simp add: css_populate_dir_def 1)
qed

lemma enable_one_frame: "cg_frame but_csses S (snd (enable_one P p S))"
proof (cases p)
  case (Pair d i)
  obtain r S1 where 1: "(case cgroup_css S d i of Some k \<Rightarrow> (Inr k, S) | None \<Rightarrow> css_create d i S) = (r, S1)"
    by (rule prod.exhaust)
  then have f: "cg_frame but_csses S S1" using css_create_frame [of S d i] by (auto split: option.splits)
  show ?thesis
    using f cg_frame_trans [OF f css_populate_dir_frame] by (auto simp: Pair enable_one_def 1 Let_def split: sum.split)
qed

lemma enable_loop_frame: "cg_frame but_csses S (snd (enable_loop P ps S))"
proof (induction ps arbitrary: S)
  case (Cons p ps)
  obtain r S1 where 1: "enable_one P p S = (r, S1)" by (rule prod.exhaust)
  then have "cg_frame but_csses S S1" using enable_one_frame [of S P p] by simp
  then show ?case using cg_frame_trans [OF _ Cons.IH [of S1]] by (simp add: 1)
qed simp

lemma apply_control_enable_frame: "cg_frame but_csses S (snd (cgroup_apply_control_enable P c S))"
  by (simp add: cgroup_apply_control_enable_def enable_loop_frame)

lemma kill_css_frame: "cg_frame h S (kill_css k S)"
  unfolding kill_css_def css_clear_dir_def by (auto intro: cg_frame_trans cg_frame_steps(2))

lemma disable_one_frame: "cg_frame h S (disable_one P p S)"
proof (cases p)
  case (Pair d i)
  have "cg_frame h S (cgcall_to (css_reset k) (css_clear_dir k S))" for k
    unfolding css_clear_dir_def by (rule cg_frame_trans [OF cg_frame_steps(2) cg_frame_steps(4)])
  then show ?thesis using kill_css_frame by (auto simp: Pair disable_one_def split: option.split)
qed

lemma apply_control_disable_frame: "cg_frame h S (cgroup_apply_control_disable P c S)"
  unfolding cgroup_apply_control_disable_def by (rule cg_frame_fold) (rule disable_one_frame)

subsection \<open>Masks\<close>

definition but_masks :: "cgroup \<Rightarrow> cgroup" where
  "but_masks x = x\<lparr>subtree_control := {}, subtree_ss_mask := {}\<rparr>"

definition but_saved :: "cgroup \<Rightarrow> cgroup" where
  "but_saved x = x\<lparr>old_subtree_control := {}, old_subtree_ss_mask := {}, old_dom_cgrp := 0\<rparr>"

lemma propagate_one_frame: "cg_frame but_masks S (propagate_one P d S)"
  unfolding propagate_one_def Let_def
  by (rule cg_frame_trans [OF cg_frame_steps(1) cg_frame_steps(1)]) (simp_all add: but_masks_def)

lemma propagate_frame: "cg_frame but_masks S (cgroup_propagate_control P c S)"
  unfolding cgroup_propagate_control_def by (rule cg_frame_fold) (rule propagate_one_frame)

lemma save_frame: "cg_frame but_saved S (cgroup_save_control c S)"
  unfolding cgroup_save_control_def by (rule cg_frame_fold, rule cg_frame_steps(1)) (simp add: but_saved_def)

end
