(* ===== verification/Control_Correct.thy ===== *)
theory Control_Correct
  imports Control_Frame
begin

section \<open>Changing the control of a subtree\<close>

subsection \<open>Masks that fit\<close>

lemma set_live:
  assumes "css_tree_ok (ftree S)" and "c \<in> set (tcss (ftree S))"
  shows "set (live_pre S c) = {d. in_subtree (ftree S) c d \<and> self_online (cgroups S d)}"
    and "set (live_post S c) = set (live_pre S c)"
    and "distinct (live_pre S c)" and "distinct (live_post S c)"
  using assms by (auto simp: live_pre_def live_post_def set_pre_order set_post_order distinct_pre_order distinct_post_order)

lemma fold_upd_live:
  assumes "distinct ds"
  shows "fold (\<lambda>d. upd_cgrp d f) ds S = S\<lparr>cgroups := (\<lambda>d. if d \<in> set ds then f (cgroups S d) else cgroups S d)\<rparr>"
  using assms
proof (induction ds arbitrary: S)
  case Nil
  then show ?case by simp
next
  case (Cons a ds)
  show ?case using Cons by (auto simp: Cons.IH upd_cgrp_def fun_eq_iff)
qed

text \<open>The masks of a cgroup are within what its parent passes on, and the second is computed from the
  first.\<close>

definition masks_fit :: "subsystems \<Rightarrow> cgsys \<Rightarrow> nat \<Rightarrow> bool" where
  "masks_fit P S d \<longleftrightarrow> subtree_control (cgroups S d) \<subseteq> cgroup_control P S d
     \<and> subtree_ss_mask (cgroups S d) = cgroup_calc_subtree_ss_mask P (subtree_control (cgroups S d)) (cgroup_ss_mask P S d)"

definition masks :: "cgroup \<Rightarrow> ssmask \<times> ssmask" where
  "masks x = (subtree_control x, subtree_ss_mask x)"

text \<open>What the masks of a cgroup depend on.\<close>

definition same_above :: "cgsys \<Rightarrow> cgsys \<Rightarrow> nat \<Rightarrow> bool" where
  "same_above S S' d \<longleftrightarrow> cgroup_parent S' d = cgroup_parent S d \<and> dom_cgrp (cgroups S' d) = dom_cgrp (cgroups S d)
     \<and> root_of S' d = root_of S d \<and> subsys_mask S' (root_of S d) = subsys_mask S (root_of S d)
     \<and> (\<forall>p. cgroup_parent S d = Some p \<longrightarrow> masks (cgroups S' p) = masks (cgroups S p))"

lemma same_above_control:
  assumes "same_above S S' d"
  shows "cgroup_control P S' d = cgroup_control P S d" and "cgroup_ss_mask P S' d = cgroup_ss_mask P S d"
  using assms by (auto simp: same_above_def cgroup_control_def cgroup_ss_mask_def cgroup_is_threaded_def
      cgroup_on_dfl_def masks_def split: option.split)

lemma masks_fit_same:
  "same_above S S' d \<Longrightarrow> masks (cgroups S' d) = masks (cgroups S d) \<Longrightarrow> masks_fit P S' d = masks_fit P S d"
  by (simp add: masks_fit_def same_above_control masks_def)

lemma same_aboveI:
  assumes "cg_frame dom_cgrp S S'" and "\<And>p. cgroup_parent S d = Some p \<Longrightarrow> masks (cgroups S' p) = masks (cgroups S p)"
  shows "same_above S S' d"
  using assms by (simp add: same_above_def cgroup_parent_def cg_frameD [OF assms(1)])

subsection \<open>Propagation\<close>

lemma propagate_one_at:
  "cgroups (propagate_one P d S) x = (if x = d then (cgroups S d)\<lparr>
     subtree_control := subtree_control (cgroups S d) \<inter> cgroup_control P S d,
     subtree_ss_mask := cgroup_calc_subtree_ss_mask P (subtree_control (cgroups S d) \<inter> cgroup_control P S d)
       (cgroup_ss_mask P S d)\<rparr> else cgroups S x)" if "tree_ok (tpar (ftree S))"
proof -
  have "cgroup_ss_mask P (upd_cgrp d f S) d = cgroup_ss_mask P S d" if "\<And>x. subtree_ss_mask (f x) = subtree_ss_mask x"
    "\<And>x. dom_cgrp (f x) = dom_cgrp x" for f
    using that by (auto simp: cgroup_ss_mask_def upd_cgrp_def cgroup_parent_def cgroup_is_threaded_def
        split: option.split)
  then show ?thesis by (simp add: propagate_one_def Let_def) (simp add: upd_cgrp_def)
qed

lemma dom_frames: "cg_frame but_masks S S' \<Longrightarrow> cg_frame dom_cgrp S S'"
  "cg_frame but_csses S S' \<Longrightarrow> cg_frame dom_cgrp S S'" "cg_frame but_saved S S' \<Longrightarrow> cg_frame dom_cgrp S S'"
  by (erule cg_frame_weaken; auto simp: but_masks_def but_csses_def but_saved_def dest: arg_cong [where f = dom_cgrp])+

lemma propagate_one_fits:
  assumes "tree_ok (tpar (ftree S))"
  shows "masks_fit P (propagate_one P d S) d"
    and "d' \<noteq> d \<Longrightarrow> cgroup_parent S d' \<noteq> Some d \<Longrightarrow> masks_fit P (propagate_one P d S) d' = masks_fit P S d'"
proof -
  note at = propagate_one_at [OF assms, of P d]
  have frame: "cg_frame dom_cgrp S (propagate_one P d S)" by (rule dom_frames(1) [OF propagate_one_frame])
  have "p \<noteq> d" if "cgroup_parent S d = Some p" for p using that assms by (auto simp: cgroup_parent_def tree_ok_def)
  then have "same_above S (propagate_one P d S) d" by (intro same_aboveI [OF frame]) (simp add: at)
  then show "masks_fit P (propagate_one P d S) d" by (simp add: masks_fit_def same_above_control at)
  show "masks_fit P (propagate_one P d S) d' = masks_fit P S d'" if "d' \<noteq> d" "cgroup_parent S d' \<noteq> Some d"
    using that by (intro masks_fit_same same_aboveI [OF frame]) (auto simp: at)
qed

text \<open>The cgroups that come later in the walk are not above those that came before.\<close>

lemma parents_first_sorted:
  "parents_first par A ds \<Longrightarrow> distinct ds \<Longrightarrow> A \<inter> set ds = {} \<Longrightarrow> sorted_wrt (\<lambda>d e. par d \<noteq> Some e) ds"
proof (induction ds arbitrary: A)
  case (Cons d ds)
  then have "sorted_wrt (\<lambda>d e. par d \<noteq> Some e) ds" by (intro Cons.IH [of "insert d A"]) auto
  moreover have "par d \<noteq> Some e" if "e \<in> set ds" for e using Cons.prems that by (auto split: option.splits)
  ultimately show ?case by simp
qed simp

lemma live_pre_sorted:
  assumes "css_tree_ok (ftree S)" and "c \<in> set (tcss (ftree S))"
  shows "sorted_wrt (\<lambda>d e. tpar (ftree S) d \<noteq> Some e) (live_pre S c)"
proof -
  let ?T = "ftree S"
  obtain ds where ds: "pre_order ?T c = c # ds" "parents_first (tpar ?T) {c} ds"
    using pre_order_parents_first by blast
  have dist: "distinct (c # ds)" using distinct_pre_order [OF assms(1), of c] ds(1) by simp
  have "tpar ?T c \<noteq> Some e" if "e \<in> set ds" for e
  proof
    assume "tpar ?T c = Some e"
    then have "e < c" using assms(1) by (auto simp: css_tree_ok_def tree_ok_def)
    moreover have "in_subtree ?T c e" using set_pre_order [OF assms] that ds(1) by auto
    ultimately show False using ancestors_less [of c "tpar ?T" e] by (auto simp: in_subtree_def)
  qed
  then have "sorted_wrt (\<lambda>d e. tpar ?T d \<noteq> Some e) (c # ds)"
    using parents_first_sorted [OF ds(2)] dist by simp
  then show ?thesis using assms ds(1) by (simp add: live_pre_def sorted_wrt_filter)
qed

lemma propagate_list_fits:
  assumes "tree_ok (tpar (ftree S))" and "distinct ds"
    and "sorted_wrt (\<lambda>d e. tpar (ftree S) d \<noteq> Some e) ds"
    and "\<And>d. d \<in> A \<Longrightarrow> masks_fit P S d" and "\<And>d e. d \<in> A \<Longrightarrow> e \<in> set ds \<Longrightarrow> tpar (ftree S) d \<noteq> Some e"
    and "A \<inter> set ds = {}"
  shows "\<forall>d \<in> A \<union> set ds. masks_fit P (fold (propagate_one P) ds S) d"
  using assms
proof (induction ds arbitrary: S A)
  case Nil
  then show ?case by simp
next
  case (Cons a ds)
  let ?S = "propagate_one P a S"
  have tree: "ftree ?S = ftree S" by (rule cg_frameD(1) [OF propagate_one_frame])
  have "\<forall>d \<in> insert a A \<union> set ds. masks_fit P (fold (propagate_one P) ds ?S) d"
  proof (rule Cons.IH)
    show "masks_fit P ?S d" if "d \<in> insert a A" for d
    proof (cases "d = a")
      case True
      then show ?thesis using propagate_one_fits(1) [OF Cons.prems(1)] by simp
    next
      case False
      then show ?thesis
        using propagate_one_fits(2) [OF Cons.prems(1) False] Cons.prems(4,5) that by (simp add: cgroup_parent_def)
    qed
  qed (use Cons.prems in \<open>auto simp: tree\<close>)
  then show ?case by auto
qed

text \<open>A live cgroup has a live parent.\<close>

definition online_above :: "cgsys \<Rightarrow> bool" where
  "online_above S \<longleftrightarrow> (\<forall>d \<in> set (tcss (ftree S)). \<forall>p. self_online (cgroups S d) \<longrightarrow> tpar (ftree S) d = Some p \<longrightarrow>
     self_online (cgroups S p))"

definition all_masks_fit :: "subsystems \<Rightarrow> cgsys \<Rightarrow> bool" where
  "all_masks_fit P S \<longleftrightarrow> (\<forall>d \<in> set (tcss (ftree S)). self_online (cgroups S d) \<longrightarrow> masks_fit P S d)"

lemma in_subtree_child:
  assumes "css_tree_ok T" and "in_subtree T c e" and "tpar T d = Some e" and "d \<in> set (tcss T)"
  shows "in_subtree T c d"
proof -
  have "ancestors (tpar T) d = e # ancestors (tpar T) e"
    using assms(1,3) by (simp add: css_tree_ok_def ancestors_child)
  then show ?thesis using assms(2,4) by (auto simp: in_subtree_def)
qed

lemma but_masksD:
  assumes "but_masks x = but_masks y"
  shows "self_online x = self_online y" "dom_cgrp x = dom_cgrp y" "subsys x = subsys y" "popc x = popc y"
    "old_subtree_control x = old_subtree_control y" "old_subtree_ss_mask x = old_subtree_ss_mask y"
    "old_dom_cgrp x = old_dom_cgrp y" "nr_threaded_children x = nr_threaded_children y"
  using assms unfolding but_masks_def popc_def
  by (auto dest: arg_cong [where f = self_online] arg_cong [where f = dom_cgrp] arg_cong [where f = subsys]
      arg_cong [where f = nr_populated_csets] arg_cong [where f = nr_populated_domain_children]
      arg_cong [where f = nr_populated_threaded_children] arg_cong [where f = old_subtree_control]
      arg_cong [where f = old_subtree_ss_mask] arg_cong [where f = old_dom_cgrp] arg_cong [where f = nr_threaded_children])

text \<open>After the propagation from \<open>c\<close> the masks fit, if they did outside of its subtree.\<close>

lemma propagate_fits:
  assumes "css_tree_ok (ftree S)" and "c \<in> set (tcss (ftree S))"
    and "\<And>d. d \<in> set (tcss (ftree S)) \<Longrightarrow> self_online (cgroups S d) \<Longrightarrow> \<not> in_subtree (ftree S) c d \<Longrightarrow> masks_fit P S d"
  shows "all_masks_fit P (cgroup_propagate_control P c S)"
proof -
  let ?T = "ftree S" and ?S = "cgroup_propagate_control P c S"
  let ?A = "{d \<in> set (tcss ?T). self_online (cgroups S d) \<and> \<not> in_subtree ?T c d}"
  note live = set_live [OF assms(1,2)]
  have frame: "cg_frame but_masks S ?S" by (rule propagate_frame)
  have on: "self_online (cgroups ?S d) = self_online (cgroups S d)" for d
    by (rule but_masksD(1) [OF cg_frameD(12) [OF frame]])
  have "\<forall>d \<in> ?A \<union> set (live_pre S c). masks_fit P ?S d"
    unfolding cgroup_propagate_control_def
  proof (rule propagate_list_fits)
    show "tree_ok (tpar ?T)" using assms(1) by (simp add: css_tree_ok_def)
    show "sorted_wrt (\<lambda>d e. tpar ?T d \<noteq> Some e) (live_pre S c)" by (rule live_pre_sorted [OF assms(1,2)])
    show "tpar ?T d \<noteq> Some e" if "d \<in> ?A" "e \<in> set (live_pre S c)" for d e
      using that in_subtree_child [OF assms(1), of c e d] by (auto simp: live(1))
  qed (use live assms(3) in auto)
  then show ?thesis
    unfolding all_masks_fit_def cg_frameD(1) [OF frame] on using live(1) by blast
qed

text \<open>Where the masks fit already, nothing changes.\<close>

lemma propagate_one_idle:
  assumes "tree_ok (tpar (ftree S))" and "masks_fit P S d"
  shows "propagate_one P d S = S"
proof -
  have "cgroups (propagate_one P d S) x = cgroups S x" for x
    using assms(2) unfolding propagate_one_at [OF assms(1)]
    by (cases "x = d") (auto simp: masks_fit_def Int_absorb2)
  moreover have "\<exists>f. propagate_one P d S = S\<lparr>cgroups := f\<rparr>"
    by (auto simp: propagate_one_def Let_def upd_cgrp_def)
  ultimately show ?thesis by (auto simp: fun_eq_iff)
qed

lemma propagate_idle:
  assumes "tree_ok (tpar (ftree S))" and "\<And>d. d \<in> set (live_pre S c) \<Longrightarrow> masks_fit P S d"
  shows "cgroup_propagate_control P c S = S"
proof -
  have "fold (propagate_one P) ds S = S" if "\<And>d. d \<in> set ds \<Longrightarrow> masks_fit P S d" for ds
    using that by (induction ds) (auto simp: propagate_one_idle [OF assms(1)])
  then show ?thesis using assms(2) by (simp add: cgroup_propagate_control_def)
qed

subsection \<open>Applying the masks\<close>

text \<open>What is there still when the masks have to be restored.\<close>

definition kept :: "cgroup \<Rightarrow> bool \<times> nat \<times> ssmask \<times> ssmask \<times> nat" where
  "kept x = (self_online x, dom_cgrp x, old_subtree_control x, old_subtree_ss_mask x, old_dom_cgrp x)"

definition changing :: "cgsys \<Rightarrow> cgsys \<Rightarrow> bool" where
  "changing S S' \<longleftrightarrow> ftree S' = ftree S \<and> root_of S' = root_of S \<and> subsys_mask S' = subsys_mask S
     \<and> (\<forall>c. kept (cgroups S' c) = kept (cgroups S c))"

lemma changing_refl [simp]: "changing S S"
  by (simp add: changing_def)

lemma changing_trans: "changing S S' \<Longrightarrow> changing S' S'' \<Longrightarrow> changing S S''"
  by (simp add: changing_def)

lemma changing_frame: "cg_frame kept S S' \<Longrightarrow> changing S S'"
  by (simp add: changing_def cg_frameD)

lemma but_cssesD:
  assumes "but_csses x = but_csses y"
  shows "masks x = masks y" "kept x = kept y" "popc x = popc y" "nr_threaded_children x = nr_threaded_children y"
  using assms unfolding but_csses_def masks_def kept_def popc_def
  by (auto dest: arg_cong [where f = self_online] arg_cong [where f = dom_cgrp]
      arg_cong [where f = nr_populated_csets] arg_cong [where f = nr_populated_domain_children]
      arg_cong [where f = nr_populated_threaded_children] arg_cong [where f = old_subtree_control]
      arg_cong [where f = old_subtree_ss_mask] arg_cong [where f = old_dom_cgrp] arg_cong [where f = nr_threaded_children]
      arg_cong [where f = subtree_control] arg_cong [where f = subtree_ss_mask])

lemma kept_masks: "but_masks x = but_masks y \<Longrightarrow> kept x = kept y"
  by (auto simp: kept_def dest: but_masksD)

lemma mig_onlyD:
  assumes "mig_only S S'"
  shows "changing S S'" and "masks (cgroups S' c) = masks (cgroups S c)" and "ftree S' = ftree S"
    and "root_of S' = root_of S" and "exiting S' = exiting S"
    and "nr_threaded_children (cgroups S' c) = nr_threaded_children (cgroups S c)"
proof -
  have u: "uncounted (cgroups S' c) = uncounted (cgroups S c)" for c using assms by (simp add: mig_only_def)
  note D = uncounted_eqD [OF u]
  have "kept (cgroups S' c) = kept (cgroups S c)" for c by (simp add: kept_def D)
  then show "changing S S'" using assms unfolding changing_def mig_only_def by blast
  show "masks (cgroups S' c) = masks (cgroups S c)"
    "nr_threaded_children (cgroups S' c) = nr_threaded_children (cgroups S c)" by (simp_all add: masks_def D)
  show "ftree S' = ftree S" "root_of S' = root_of S" "exiting S' = exiting S" using assms unfolding mig_only_def by blast+
qed

text \<open>What every step of a change keeps.\<close>

definition change_ok :: "nat set \<Rightarrow> cgsys \<Rightarrow> cgsys \<Rightarrow> bool" where
  "change_ok K S S' \<longleftrightarrow> changing S S' \<and> at_rest K S'
     \<and> (\<forall>t \<in> K. at_links S' t = at_links S t \<and> on_list S' t = on_list S t)
     \<and> exiting S' = exiting S \<and> (\<forall>c. nr_threaded_children (cgroups S' c) = nr_threaded_children (cgroups S c))"

lemma change_ok_trans: "change_ok K S S' \<Longrightarrow> change_ok K S' S'' \<Longrightarrow> change_ok K S S''"
  using changing_trans by (auto simp: change_ok_def)

lemma change_frames:
  assumes "at_rest K S"
  shows "cg_frame but_masks S S' \<Longrightarrow> change_ok K S S'" and "cg_frame but_csses S S' \<Longrightarrow> change_ok K S S'"
proof -
  have k: "change_ok K S S'"
    if "cg_frame h S S'" "\<And>x y. h x = h y \<Longrightarrow> kept x = kept y" "\<And>x y. h x = h y \<Longrightarrow> popc x = popc y"
      "\<And>x y. h x = h y \<Longrightarrow> nr_threaded_children x = nr_threaded_children y" for h :: "cgroup \<Rightarrow> cgroup"
    using assms changing_frame [OF cg_frame_weaken [OF that(1,2)]]
      at_rest_frame [OF cg_frame_weaken [OF that(1,3)]] that(4) [OF cg_frameD(12) [OF that(1)]]
    by (simp add: change_ok_def at_links_frame [OF that(1)] on_list_frame [OF that(1)] cg_frameD(9) [OF that(1)])
  show "change_ok K S S'" if "cg_frame but_masks S S'"
    by (rule k [OF that]) (erule kept_masks, erule but_masksD(4), erule but_masksD(8))
  show "change_ok K S S'" if "cg_frame but_csses S S'"
    by (rule k [OF that]) (erule but_cssesD(2), erule but_cssesD(3), erule but_cssesD(4))
qed

lemma apply_control_ok:
  assumes "at_rest K S" and "cgroup_apply_control P c S = (ret, S')"
  shows "change_ok K S S'" and "masks (cgroups S' d) = masks (cgroups (cgroup_propagate_control P c S) d)"
proof -
  let ?S1 = "cgroup_propagate_control P c S"
  obtain r2 S2 where 2: "cgroup_apply_control_enable P c ?S1 = (r2, S2)" by (rule prod.exhaust)
  have f1: "change_ok K S ?S1" by (rule change_frames(1) [OF assms(1) propagate_frame])
  have fr: "cg_frame but_csses ?S1 S2" using apply_control_enable_frame [of ?S1 P c] 2 by simp
  have rest1: "at_rest K ?S1" using f1 by (simp add: change_ok_def)
  have f2: "change_ok K ?S1 S2" by (rule change_frames(2) [OF rest1 fr])
  have m2: "masks (cgroups S2 d) = masks (cgroups ?S1 d)" for d by (rule but_cssesD(1) [OF cg_frameD(12) [OF fr]])
  have "change_ok K S S' \<and> masks (cgroups S' d) = masks (cgroups ?S1 d)"
  proof (cases "r2 = 0")
    case False
    then have "S' = S2" using assms(2) 2 by (simp add: cgroup_apply_control_def)
    then show ?thesis using change_ok_trans [OF f1 f2] m2 by simp
  next
    case True
    then have up: "cgroup_update_dfl_csses P c S2 = (ret, S')" using assms(2) 2 by (simp add: cgroup_apply_control_def)
    have rest2: "at_rest K S2" using f2 by (simp add: change_ok_def)
    note U = update_dfl_csses_ok [OF rest2 up] and M = mig_onlyD [OF update_dfl_csses_ok(2) [OF rest2 up]]
    have "change_ok K S2 S'" using U M by (simp add: change_ok_def)
    then show ?thesis using change_ok_trans [OF change_ok_trans [OF f1 f2]] m2 M(2) by simp
  qed
  then show "change_ok K S S'" "masks (cgroups S' d) = masks (cgroups ?S1 d)" by simp_all
qed

lemma disable_ok:
  assumes "at_rest K S"
  shows "change_ok K S (cgroup_apply_control_disable P c S)"
    and "masks (cgroups (cgroup_apply_control_disable P c S) d) = masks (cgroups S d)"
proof -
  have f: "cg_frame but_csses S (cgroup_apply_control_disable P c S)" by (rule apply_control_disable_frame)
  from f show "change_ok K S (cgroup_apply_control_disable P c S)"
    "masks (cgroups (cgroup_apply_control_disable P c S) d) = masks (cgroups S d)"
    by (rule change_frames(2) [OF assms], rule but_cssesD(1) [OF cg_frameD(12)])
qed

subsection \<open>Saving and restoring\<close>

lemma save_at:
  assumes "css_tree_ok (ftree S)" and "c \<in> set (tcss (ftree S))"
  shows "cgroup_save_control c S = S\<lparr>cgroups := (\<lambda>d. if d \<in> set (live_pre S c)
    then (cgroups S d)\<lparr>old_subtree_control := subtree_control (cgroups S d),
      old_subtree_ss_mask := subtree_ss_mask (cgroups S d), old_dom_cgrp := dom_cgrp (cgroups S d)\<rparr>
    else cgroups S d)\<rparr>"
  unfolding cgroup_save_control_def by (rule fold_upd_live [OF set_live(3) [OF assms]])

lemma restore_at:
  assumes "css_tree_ok (ftree S)" and "c \<in> set (tcss (ftree S))"
  shows "cgroup_restore_control c S = S\<lparr>cgroups := (\<lambda>d. if d \<in> set (live_pre S c)
    then (cgroups S d)\<lparr>subtree_control := old_subtree_control (cgroups S d),
      subtree_ss_mask := old_subtree_ss_mask (cgroups S d), dom_cgrp := old_dom_cgrp (cgroups S d)\<rparr>
    else cgroups S d)\<rparr>"
  unfolding cgroup_restore_control_def set_live(2) [OF assms, symmetric]
  by (rule fold_upd_live [OF set_live(4) [OF assms]])

lemma live_changing:
  assumes "changing S S'" and "css_tree_ok (ftree S)" and "c \<in> set (tcss (ftree S))"
  shows "set (live_pre S' c) = set (live_pre S c)"
  using assms set_live(1) [of S c] set_live(1) [of S' c] by (simp add: changing_def kept_def)

text \<open>From the saved state \<open>S1\<close> on, the restored masks are those of the state \<open>S\<close> before it.\<close>

lemma restored:
  assumes "css_tree_ok (ftree S)" and "c \<in> set (tcss (ftree S))" and "changing (cgroup_save_control c S) S'"
    and "\<And>d. d \<notin> set (live_pre S c) \<Longrightarrow> masks (cgroups S' d) = masks (cgroups S d)"
  shows "masks (cgroups (cgroup_restore_control c S') d) = masks (cgroups S d)"
    and "dom_cgrp (cgroups (cgroup_restore_control c S') d) = dom_cgrp (cgroups S d)"
    and "cg_frame popc S' (cgroup_restore_control c S')"
proof -
  let ?S1 = "cgroup_save_control c S"
  note at1 = save_at [OF assms(1,2)]
  have ch: "ftree S' = ftree S" "\<And>d. kept (cgroups S' d) = kept (cgroups ?S1 d)"
    using assms(3) by (auto simp: changing_def at1)
  have live1: "set (live_pre ?S1 c) = set (live_pre S c)"
    using set_live(1) [of S c] set_live(1) [of ?S1 c] assms(1,2) by (auto simp: at1)
  have live: "set (live_pre S' c) = set (live_pre S c)"
    using live_changing [OF assms(3)] assms(1,2) live1 by (simp add: at1)
  have old: "old_subtree_control (cgroups S' d) = subtree_control (cgroups S d)"
    "old_subtree_ss_mask (cgroups S' d) = subtree_ss_mask (cgroups S d)" "old_dom_cgrp (cgroups S' d) = dom_cgrp (cgroups S d)"
    if "d \<in> set (live_pre S c)" for d
    using ch(2) [of d] that by (simp_all add: kept_def at1)
  have dom: "dom_cgrp (cgroups S' d) = dom_cgrp (cgroups S d)" for d
    using ch(2) [of d] by (simp add: kept_def at1)
  have R: "cgroup_restore_control c S' = S'\<lparr>cgroups := (\<lambda>d. if d \<in> set (live_pre S' c)
    then (cgroups S' d)\<lparr>subtree_control := old_subtree_control (cgroups S' d),
      subtree_ss_mask := old_subtree_ss_mask (cgroups S' d), dom_cgrp := old_dom_cgrp (cgroups S' d)\<rparr>
    else cgroups S' d)\<rparr>"
    using assms(1,2) by (intro restore_at) (simp_all add: ch)
  show "masks (cgroups (cgroup_restore_control c S') d) = masks (cgroups S d)"
    using assms(4) [of d] old [of d] unfolding R live by (simp add: masks_def)
  show "dom_cgrp (cgroups (cgroup_restore_control c S') d) = dom_cgrp (cgroups S d)"
    using old(3) [of d] dom [of d] unfolding R live by simp
  show "cg_frame popc S' (cgroup_restore_control c S')"
  proof (rule cg_frameI)
    show "popc (cgroups (cgroup_restore_control c S') d) = popc (cgroups S' d)" for d
      using old(3) [of d] dom [of d] unfolding R live by (simp add: popc_def)
  qed (simp add: R)
qed

end
