(* ===== verification/Control_Write.thy ===== *)
theory Control_Write
  imports Control_Correct
begin

section \<open>Writing the control of a subtree\<close>

subsection \<open>A change\<close>

definition steady :: "cgsys \<Rightarrow> cgsys \<Rightarrow> bool" where
  "steady S S' \<longleftrightarrow> ftree S' = ftree S \<and> root_of S' = root_of S \<and> subsys_mask S' = subsys_mask S
     \<and> (\<forall>c. self_online (cgroups S' c) = self_online (cgroups S c) \<and> dom_cgrp (cgroups S' c) = dom_cgrp (cgroups S c))"

lemma steady_refl [simp]: "steady S S"
  by (simp add: steady_def)

lemma steady_trans: "steady S S' \<Longrightarrow> steady S' S'' \<Longrightarrow> steady S S''"
  by (simp add: steady_def)

lemma changing_steady: "changing S S' \<Longrightarrow> steady S S'"
  by (simp add: steady_def changing_def kept_def)

lemma masks_fit_steady:
  assumes "steady S S'" and "masks (cgroups S' d) = masks (cgroups S d)"
    and "\<And>p. tpar (ftree S) d = Some p \<Longrightarrow> masks (cgroups S' p) = masks (cgroups S p)"
  shows "masks_fit P S' d = masks_fit P S d"
  using assms by (intro masks_fit_same) (simp_all add: same_above_def steady_def cgroup_parent_def)

lemma all_masks_fit_steady:
  "steady S S' \<Longrightarrow> (\<And>d. masks (cgroups S' d) = masks (cgroups S d)) \<Longrightarrow> all_masks_fit P S' = all_masks_fit P S"
  using masks_fit_steady [of S S'] by (auto simp: all_masks_fit_def steady_def)

lemma online_above_steady: "steady S S' \<Longrightarrow> online_above S' = online_above S"
  by (simp add: online_above_def steady_def)

text \<open>What holds of the cgroups between two operations.\<close>

definition control_rest :: "subsystems \<Rightarrow> nat set \<Rightarrow> cgsys \<Rightarrow> bool" where
  "control_rest P K S \<longleftrightarrow> at_rest K S \<and> all_masks_fit P S \<and> online_above S"

text \<open>The end of a change: nothing but masks has changed, and on an error not even they.\<close>

definition changed :: "nat set \<Rightarrow> cgsys \<Rightarrow> cgsys \<Rightarrow> bool" where
  "changed K S S' \<longleftrightarrow> steady S S' \<and> at_rest K S' \<and> exiting S' = exiting S
     \<and> (\<forall>t \<in> K. at_links S' t = at_links S t \<and> on_list S' t = on_list S t)
     \<and> (\<forall>c. nr_threaded_children (cgroups S' c) = nr_threaded_children (cgroups S c))"

lemma changedI: "change_ok K S S' \<Longrightarrow> changed K S S'"
  by (simp add: changed_def change_ok_def changing_steady)

lemma changed_trans: "changed K S S' \<Longrightarrow> changed K S' S'' \<Longrightarrow> changed K S S''"
  using steady_trans by (auto simp: changed_def)

lemma changed_frame:
  assumes "at_rest K S" and "cg_frame h S S'" and "\<And>c. popc (cgroups S' c) = popc (cgroups S c)"
    and "\<And>c. self_online (cgroups S' c) = self_online (cgroups S c)"
    and "\<And>c. nr_threaded_children (cgroups S' c) = nr_threaded_children (cgroups S c)"
  shows "changed K S S'"
proof -
  have "cg_frame popc S S'" using assms(2,3) by (simp add: cg_frame_def)
  then have "at_rest K S'" using at_rest_frame assms(1) by blast
  moreover have "steady S S'" using assms(3,4) cg_frameD [OF assms(2)] by (simp add: steady_def popc_def)
  ultimately show ?thesis
    using assms(5) at_links_frame [OF assms(2)] on_list_frame [OF assms(2)] cg_frameD(9) [OF assms(2)] by (simp add: changed_def)
qed

lemma propagate_at_outside:
  assumes "css_tree_ok (ftree S)" and "c \<in> set (tcss (ftree S))" and "d \<notin> set (live_pre S c)"
  shows "cgroups (cgroup_propagate_control P c S) d = cgroups S d"
proof -
  have "d \<notin> set ds \<Longrightarrow> tree_ok (tpar (ftree S)) \<Longrightarrow> cgroups (fold (propagate_one P) ds S) d = cgroups S d" for ds S
  proof (induction ds arbitrary: S)
    case (Cons a ds)
    have "ftree (propagate_one P a S) = ftree S" by (rule cg_frameD(1) [OF propagate_one_frame])
    then show ?case using Cons by (simp add: propagate_one_at)
  qed simp
  then show ?thesis using assms by (simp add: cgroup_propagate_control_def css_tree_ok_def)
qed

lemma propagate_shrinks:
  assumes "tree_ok (tpar (ftree S))"
  shows "subtree_control (cgroups (cgroup_propagate_control P c S) d) \<subseteq> subtree_control (cgroups S d)"
proof -
  have "tree_ok (tpar (ftree S)) \<Longrightarrow>
      subtree_control (cgroups (fold (propagate_one P) ds S) d) \<subseteq> subtree_control (cgroups S d)" for ds S
  proof (induction ds arbitrary: S)
    case (Cons a ds)
    have "ftree (propagate_one P a S) = ftree S" by (rule cg_frameD(1) [OF propagate_one_frame])
    then have "subtree_control (cgroups (fold (propagate_one P) ds (propagate_one P a S)) d)
        \<subseteq> subtree_control (cgroups (propagate_one P a S) d)" using Cons by simp
    also have "\<dots> \<subseteq> subtree_control (cgroups S d)" using Cons.prems by (auto simp: propagate_one_at)
    finally show ?case by simp
  qed simp
  then show ?thesis using assms by (simp add: cgroup_propagate_control_def)
qed

lemma propagate_top:
  assumes "css_tree_ok (ftree S)" and "c \<in> set (tcss (ftree S))" and "self_online (cgroups S c)"
  shows "subtree_control (cgroups (cgroup_propagate_control P c S) c)
    = subtree_control (cgroups S c) \<inter> cgroup_control P S c"
proof -
  obtain ds where ds: "live_pre S c = c # ds" "c \<notin> set ds"
    using pre_order_parents_first [of "ftree S" c] set_live(3) [OF assms(1,2)] assms
    by (fastforce simp: live_pre_def)
  have tree: "tree_ok (tpar (ftree S))" using assms(1) by (simp add: css_tree_ok_def)
  have keep: "c \<notin> set ds \<Longrightarrow> tree_ok (tpar (ftree S)) \<Longrightarrow> cgroups (fold (propagate_one P) ds S) c = cgroups S c" for ds S
  proof (induction ds arbitrary: S)
    case (Cons a ds)
    have "ftree (propagate_one P a S) = ftree S" by (rule cg_frameD(1) [OF propagate_one_frame])
    then show ?case using Cons by (simp add: propagate_one_at)
  qed simp
  have "ftree (propagate_one P c S) = ftree S" by (rule cg_frameD(1) [OF propagate_one_frame])
  then show ?thesis
    using keep [OF ds(2), of "propagate_one P c S"] tree
    by (simp add: cgroup_propagate_control_def ds(1) propagate_one_at [OF tree])
qed

lemma masks_eq_iff: "masks x = masks y \<longleftrightarrow> subtree_control x = subtree_control y \<and> subtree_ss_mask x = subtree_ss_mask y"
  by (auto simp: masks_def)

text \<open>Up to the end of \<open>cgroup_apply_control\<close>.\<close>

definition change_masks :: "nat \<Rightarrow> ssmask \<Rightarrow> ssmask \<Rightarrow> cgsys \<Rightarrow> cgsys" where
  "change_masks c enable disable S = upd_cgrp c (\<lambda>x. x\<lparr>subtree_control := subtree_control x - disable\<rparr>)
     (upd_cgrp c (\<lambda>x. x\<lparr>subtree_control := subtree_control x \<union> enable\<rparr>) (cgroup_save_control c S))"

lemma change_masks_ok:
  assumes "at_rest K S" and "c \<in> set (tcss (ftree S))"
  shows "changed K S (change_masks c enable disable S)"
    and "changing (cgroup_save_control c S) (change_masks c enable disable S)"
    and "masks (cgroups (change_masks c enable disable S) d)
      = (if d = c then (subtree_control (cgroups S c) \<union> enable - disable, subtree_ss_mask (cgroups S c))
         else masks (cgroups S d))"
proof -
  have tree: "css_tree_ok (ftree S)" by (rule at_restD(4) [OF assms(1)])
  note save = save_at [OF tree assms(2)]
  let ?S1 = "cgroup_save_control c S" and ?S3 = "change_masks c enable disable S"
  have at3: "cgroups ?S3 d = (if d = c then (cgroups ?S1 d)\<lparr>subtree_control := subtree_control (cgroups ?S1 d) \<union> enable - disable\<rparr>
      else cgroups ?S1 d)" for d
    by (simp add: change_masks_def upd_cgrp_def)
  have f1: "changed K S ?S1"
    by (rule changed_frame [OF assms(1) save_frame]) (simp_all add: save popc_def)
  have f3: "cg_frame but_masks ?S1 ?S3"
    unfolding change_masks_def
    by (rule cg_frame_trans [OF cg_frame_steps(1) cg_frame_steps(1)]) (simp_all add: but_masks_def)
  have "at_rest K ?S1" using f1 by (simp add: changed_def)
  from change_frames(1) [OF this f3] have c3: "change_ok K ?S1 ?S3" .
  then show "changing ?S1 ?S3" by (simp add: change_ok_def)
  show "changed K S ?S3" by (rule changed_trans [OF f1 changedI [OF c3]])
  show "masks (cgroups ?S3 d) = (if d = c then (subtree_control (cgroups S c) \<union> enable - disable,
      subtree_ss_mask (cgroups S c)) else masks (cgroups S d))"
    unfolding at3 by (simp add: save masks_def)
qed

lemma live_steady:
  assumes "steady S S'" and "css_tree_ok (ftree S)" and "c \<in> set (tcss (ftree S))"
  shows "set (live_pre S' c) = set (live_pre S c)"
  using assms set_live(1) [of S c] set_live(1) [of S' c] by (simp add: steady_def)

lemma change_core:
  assumes "at_rest K S" and "c \<in> set (tcss (ftree S))" and "self_online (cgroups S c)"
    and "cgroup_apply_control P c (change_masks c enable disable S) = (r, S5)"
  shows "changed K S S5" and "changing (cgroup_save_control c S) S5"
    and "masks (cgroups S5 d) = masks (cgroups (cgroup_propagate_control P c (change_masks c enable disable S)) d)"
    and "d \<notin> set (live_pre S c) \<Longrightarrow> masks (cgroups S5 d) = masks (cgroups S d)"
proof -
  have tree: "css_tree_ok (ftree S)" by (rule at_restD(4) [OF assms(1)])
  let ?S3 = "change_masks c enable disable S"
  note C = change_masks_ok [OF assms(1,2), of enable disable]
  have rest3: "at_rest K ?S3" and st3: "steady S ?S3" using C(1) by (simp_all add: changed_def)
  have same3: "ftree ?S3 = ftree S" using st3 by (simp add: steady_def)
  note A = apply_control_ok [OF rest3 assms(4)]
  show "changed K S S5" by (rule changed_trans [OF C(1) changedI [OF A(1)]])
  show "changing (cgroup_save_control c S) S5"
    using A(1) by (intro changing_trans [OF C(2)]) (simp add: change_ok_def)
  show m: "masks (cgroups S5 d) = masks (cgroups (cgroup_propagate_control P c ?S3) d)" for d by (rule A(2))
  show "masks (cgroups S5 d) = masks (cgroups S d)" if "d \<notin> set (live_pre S c)"
  proof -
    have "c \<in> set (live_pre S c)" using assms(2,3) tree by (simp add: set_live(1) in_subtree_def)
    then have "d \<noteq> c" using that by auto
    have "d \<notin> set (live_pre ?S3 c)" using that live_steady [OF st3 tree assms(2)] by simp
    from propagate_at_outside [OF _ _ this] show ?thesis
      using m [of d] C(3) [of d] \<open>d \<noteq> c\<close> tree assms(2) by (simp add: same3)
  qed
qed

text \<open>On an error everything is as before the change.\<close>

lemma finalize_error:
  assumes "control_rest P K S" and "c \<in> set (tcss (ftree S))" and "changed K S S5"
    and "changing (cgroup_save_control c S) S5" and "ret \<noteq> 0"
    and "\<And>d. d \<notin> set (live_pre S c) \<Longrightarrow> masks (cgroups S5 d) = masks (cgroups S d)"
  shows "changed K S (cgroup_finalize_control P c ret S5)"
    and "masks (cgroups (cgroup_finalize_control P c ret S5) d) = masks (cgroups S d)"
proof -
  have rest: "at_rest K S" and fit: "all_masks_fit P S" using assms(1) by (simp_all add: control_rest_def)
  have tree: "css_tree_ok (ftree S)" by (rule at_restD(4) [OF rest])
  let ?S6 = "cgroup_restore_control c S5"
  note R = restored [OF tree assms(2,4,6)]
  have rest5: "at_rest K S5" and st5: "steady S S5" using assms(3) by (simp_all add: changed_def)
  have tree5: "ftree S5 = ftree S" using st5 by (simp add: steady_def)
  have at6: "self_online (cgroups ?S6 x) = self_online (cgroups S5 x)"
    "nr_threaded_children (cgroups ?S6 x) = nr_threaded_children (cgroups S5 x)" for x
    using restore_at [of S5 c] tree assms(2) by (simp_all add: tree5)
  have "changed K S5 ?S6"
    by (rule changed_frame [OF rest5 R(3)]) (simp_all add: at6 cg_frameD(12) [OF R(3)])
  then have ch6: "changed K S ?S6" by (rule changed_trans [OF assms(3)])
  then have rest6: "at_rest K ?S6" and st6: "steady S ?S6" by (simp_all add: changed_def)
  have fit6: "all_masks_fit P ?S6" using fit all_masks_fit_steady [OF st6] R(1) by simp
  have tree6: "ftree ?S6 = ftree S" using st6 by (simp add: steady_def)
  have "cgroup_propagate_control P c ?S6 = ?S6"
  proof (rule propagate_idle)
    show "tree_ok (tpar (ftree ?S6))" using tree by (simp add: tree6 css_tree_ok_def)
    show "masks_fit P ?S6 d" if "d \<in> set (live_pre ?S6 c)" for d
      using that fit6 tree assms(2) set_live(1) [of ?S6 c]
      by (auto simp: tree6 all_masks_fit_def in_subtree_def)
  qed
  then have eq: "cgroup_finalize_control P c ret S5 = cgroup_apply_control_disable P c ?S6"
    using assms(5) by (simp add: cgroup_finalize_control_def)
  note D = disable_ok [OF rest6, of P c]
  show "changed K S (cgroup_finalize_control P c ret S5)" unfolding eq by (rule changed_trans [OF ch6 changedI [OF D(1)]])
  show "masks (cgroups (cgroup_finalize_control P c ret S5) d) = masks (cgroups S d)" unfolding eq D(2) by (rule R(1))
qed

lemma change_fits:
  assumes "control_rest P K S" and "c \<in> set (tcss (ftree S))" and "self_online (cgroups S c)"
  shows "all_masks_fit P (cgroup_propagate_control P c (change_masks c enable disable S))"
proof -
  have rest: "at_rest K S" and fit: "all_masks_fit P S" using assms(1) by (simp_all add: control_rest_def)
  have tree: "css_tree_ok (ftree S)" by (rule at_restD(4) [OF rest])
  let ?S3 = "change_masks c enable disable S"
  note C = change_masks_ok [OF rest assms(2), of enable disable]
  have st: "steady S ?S3" using C(1) by (simp add: changed_def)
  have same: "ftree ?S3 = ftree S" "self_online (cgroups ?S3 x) = self_online (cgroups S x)" for x
    using st by (simp_all add: steady_def)
  show ?thesis
  proof (rule propagate_fits)
    fix d assume d: "d \<in> set (tcss (ftree ?S3))" "self_online (cgroups ?S3 d)" "\<not> in_subtree (ftree ?S3) c d"
    have "in_subtree (ftree S) c c" using assms(2) by (simp add: in_subtree_def)
    then have "d \<noteq> c" "tpar (ftree S) d \<noteq> Some c"
      using d in_subtree_child [OF tree, of c c d] by (auto simp: same)
    then have "masks_fit P ?S3 d = masks_fit P S d" by (intro masks_fit_steady [OF st]) (auto simp: C(3))
    then show "masks_fit P ?S3 d" using fit d by (simp add: all_masks_fit_def same)
  qed (use tree assms(2) in \<open>simp_all add: same\<close>)
qed

lemma change_control_ok:
  assumes "control_rest P K S" and "c \<in> set (tcss (ftree S))" and "self_online (cgroups S c)"
    and "change_control P c enable disable S = (ret, S')"
  shows "changed K S S'" and "all_masks_fit P S'"
    and "masks (cgroups S' d) = masks (cgroups (if ret = 0
      then cgroup_propagate_control P c (change_masks c enable disable S) else S) d)"
proof -
  have rest: "at_rest K S" and fit: "all_masks_fit P S" using assms(1) by (simp_all add: control_rest_def)
  let ?S3 = "change_masks c enable disable S"
  let ?S4 = "cgroup_propagate_control P c ?S3"
  obtain r S5 where 5: "cgroup_apply_control P c ?S3 = (r, S5)" by (rule prod.exhaust)
  have fin: "ret = r" "S' = cgroup_finalize_control P c ret S5"
    using assms(4) 5 by (auto simp: change_control_def change_masks_def Let_def)
  note C = change_core [OF rest assms(2,3) 5]
  have st5: "steady S S5" and rest5: "at_rest K S5" using C(1) by (simp_all add: changed_def)
  have "changed K S S' \<and> all_masks_fit P S' \<and> masks (cgroups S' d) = masks (cgroups (if ret = 0 then ?S4 else S) d)" for d
  proof (cases "ret = 0")
    case False
    note F = finalize_error [OF assms(1,2) C(1,2) False C(4), folded fin(2)]
    have "steady S S'" using F(1) by (simp add: changed_def)
    from all_masks_fit_steady [OF this F(2)] show ?thesis using F False fit by simp
  next
    case True
    then have eq: "S' = cgroup_apply_control_disable P c S5" using fin by (simp add: cgroup_finalize_control_def)
    note D = disable_ok [OF rest5, of P c, folded eq]
    have ch: "changed K S S'" by (rule changed_trans [OF C(1) changedI [OF D(1)]])
    have m: "masks (cgroups S' x) = masks (cgroups ?S4 x)" for x using D(2) C(3) by simp
    have "steady S ?S3" using change_masks_ok(1) [OF rest assms(2)] by (simp add: changed_def)
    moreover have "steady ?S3 ?S4"
      by (rule changing_steady [OF changing_frame [OF cg_frame_weaken [OF propagate_frame kept_masks]]])
    ultimately have "steady S ?S4" by (rule steady_trans)
    moreover have "steady S S'" using ch by (simp add: changed_def)
    ultimately have "steady ?S4 S'" by (simp add: steady_def)
    from all_masks_fit_steady [OF this m] show ?thesis
      using ch m True change_fits [OF assms(1-3)] by simp
  qed
  then show "changed K S S'" "all_masks_fit P S'"
    "masks (cgroups S' d) = masks (cgroups (if ret = 0 then ?S4 else S) d)" by blast+
qed

subsection \<open>The write\<close>

lemma find_subsys_range: "find_subsys P name = Some i \<Longrightarrow> i < CGROUP_SUBSYS_COUNT P"
  by (auto simp: find_subsys_def find_Some_iff)

lemma parse_control_range:
  assumes "parse_control P toks (e, d) = Some (e', d')" and "e \<inter> d = {}" and "e \<union> d \<subseteq> {..<CGROUP_SUBSYS_COUNT P}"
  shows "e' \<inter> d' = {} \<and> e' \<union> d' \<subseteq> {..<CGROUP_SUBSYS_COUNT P}"
  using assms
proof (induction P toks "(e, d)" arbitrary: e d rule: parse_control.induct)
  case (3 P sign name toks e d)
  obtain i where i: "find_subsys P name = Some i" using "3.prems"(1) by (auto split: option.splits)
  note r = find_subsys_range [OF i]
  consider "sign = CHR ''+''" | "sign = CHR ''-''" using "3.prems"(1) i by (auto split: if_splits)
  then show ?case
  proof cases
    case 1
    then show ?thesis using "3.hyps"(1) [OF i 1] "3.prems" i r by auto
  next
    case 2
    then show ?thesis using "3.hyps"(2) [OF i _ 2] "3.prems" i r by auto
  qed
qed auto

text \<open>What \<open>check_control\<close> leaves of the two masks asks for the same as before.\<close>

lemma check_control_ok:
  assumes "check_control P S c is (e, d) = Inr (e', d')" and "e \<inter> d = {}"
  shows "subtree_control (cgroups S c) \<union> e' - d' = subtree_control (cgroups S c) \<union> e - d \<and> e' \<inter> d' = {}
    \<and> e' \<subseteq> e \<and> d' \<subseteq> d \<and> e' \<inter> set is \<subseteq> cgroup_control P S c"
  using assms
proof (induction P S c "is" "(e, d)" arbitrary: e d rule: check_control.induct)
  case (2 P S c i "is" e d)
  let ?T = "subtree_control (cgroups S c)"
  consider (on) "i \<in> e" "i \<in> ?T" | (new) "i \<in> e" "i \<notin> ?T" "i \<in> cgroup_control P S c"
    | (off) "i \<notin> e" "i \<in> d" "i \<notin> ?T" | (drop) "i \<notin> e" "i \<in> d" "i \<in> ?T" | (other) "i \<notin> e" "i \<notin> d"
    using "2.prems"(1) by (auto split: if_splits)
  then show ?case
  proof cases
    case on
    then show ?thesis using 2(1) [OF on] "2.prems" by fastforce
  next
    case new
    then show ?thesis using 2(2) "2.prems" by fastforce
  next
    case off
    then show ?thesis using 2(3) [OF off] "2.prems" by fastforce
  next
    case drop
    then show ?thesis using 2(4) "2.prems" by (fastforce split: if_splits)
  next
    case other
    then show ?thesis using 2(5) [OF other] "2.prems" by auto
  qed
qed auto

text \<open>\<open>asked_control\<close> is what a write asks for.\<close>

definition asked_control :: "subsystems \<Rightarrow> string \<Rightarrow> ssmask \<Rightarrow> ssmask \<Rightarrow> bool" where
  "asked_control P buf control control' \<longleftrightarrow> (case parse_control P (blank_tokens [] (strstrip buf)) ({}, {}) of
     None \<Rightarrow> False | Some (enable, disable) \<Rightarrow> control' = control \<union> enable - disable)"

lemma changed_refl: "at_rest K S \<Longrightarrow> changed K S S"
  by (simp add: changed_def)

lemma changed_control_rest:
  "control_rest P K S \<Longrightarrow> changed K S S' \<Longrightarrow> all_masks_fit P S' \<Longrightarrow> control_rest P K S'"
  using online_above_steady by (auto simp: control_rest_def changed_def)

lemma check_control_error: "check_control P S c is ed = Inl e \<Longrightarrow> e < 0"
  by (induction P S c "is" ed rule: check_control.induct) (auto simp: ENOENT_def EBUSY_def split: if_splits)

lemma vet_error: "cgroup_vet_subtree_control_enable P S c e \<noteq> 0 \<Longrightarrow> cgroup_vet_subtree_control_enable P S c e < 0"
proof -
  have "cgroup_vet_subtree_control_enable P S c e \<in> {0, - EBUSY, - EOPNOTSUPP}"
    unfolding cgroup_vet_subtree_control_enable_def Let_def by simp
  then show "cgroup_vet_subtree_control_enable P S c e \<noteq> 0 \<Longrightarrow> cgroup_vet_subtree_control_enable P S c e < 0"
    by (auto simp: EBUSY_def EOPNOTSUPP_def)
qed

lemma subtree_control_write_cases:
  assumes "cgroup_subtree_control_write P c buf nbytes S = (ret, S')"
  obtains (failed) "S' = S" and "ret < 0"
    | (already) "S' = S" and "ret = nbytes" and "asked_control P buf (subtree_control (cgroups S c)) (subtree_control (cgroups S c))"
    | (change) enable disable r where "self_online (cgroups S c)" "change_control P c enable disable S = (r, S')"
      "cgroup_vet_subtree_control_enable P S c enable = 0" "ret = (if r \<noteq> 0 then r else nbytes)"
      "enable \<subseteq> cgroup_control P S c"
      "asked_control P buf (subtree_control (cgroups S c)) (subtree_control (cgroups S c) \<union> enable - disable)"
proof -
  let ?ed = "parse_control P (blank_tokens [] (strstrip buf)) ({}, {})"
  let ?T = "subtree_control (cgroups S c)"
  show thesis
  proof (cases "\<exists>enable disable e d. ?ed = Some (e, d) \<and> self_online (cgroups S c)
      \<and> check_control P S c [0..<CGROUP_SUBSYS_COUNT P] (e, d) = Inr (enable, disable)")
    case True
    then obtain enable disable e d where ed: "?ed = Some (e, d)" "self_online (cgroups S c)"
      "check_control P S c [0..<CGROUP_SUBSYS_COUNT P] (e, d) = Inr (enable, disable)" by blast
    have range: "e \<inter> d = {}" "e \<union> d \<subseteq> {..<CGROUP_SUBSYS_COUNT P}"
      using parse_control_range [OF ed(1)] by simp_all
    note check = check_control_ok [OF ed(3) range(1)]
    have sub: "enable \<subseteq> cgroup_control P S c" using check range(2) by fastforce
    have ask: "asked_control P buf ?T (?T \<union> enable - disable)" using check ed(1) by (simp add: asked_control_def)
    consider (none) "enable = {}" "disable = {}"
      | (vet) "\<not> (enable = {} \<and> disable = {})" "cgroup_vet_subtree_control_enable P S c enable \<noteq> 0"
      | (do) "\<not> (enable = {} \<and> disable = {})" "cgroup_vet_subtree_control_enable P S c enable = 0" by blast
    then show ?thesis
    proof cases
      case none
      then show ?thesis using assms ed ask by (intro already) (simp_all add: cgroup_subtree_control_write_def)
    next
      case vet
      have "ret = cgroup_vet_subtree_control_enable P S c enable \<and> S' = S"
        using assms ed vet unfolding cgroup_subtree_control_write_def Let_def by auto
      then show ?thesis using vet_error [OF vet(2)] failed by simp
    next
      case do
      obtain r S1 where r: "change_control P c enable disable S = (r, S1)" by (rule prod.exhaust)
      have "ret = (if r \<noteq> 0 then r else nbytes) \<and> S' = S1"
        using assms ed r do unfolding cgroup_subtree_control_write_def Let_def by (simp split del: if_split)
      then show ?thesis using r do(2) sub ask ed(2) change [of enable disable r] by simp
    qed
  next
    case False
    then have "S' = S \<and> ret < 0"
      using assms check_control_error unfolding cgroup_subtree_control_write_def Let_def
      by (auto simp: EINVAL_def ENODEV_def split: option.splits sum.splits if_splits)
    then show ?thesis using failed by blast
  qed
qed

lemma subtree_control_write_ok:
  assumes "control_rest P K S" and "c \<in> set (tcss (ftree S))"
    and "cgroup_subtree_control_write P c buf nbytes S = (ret, S')"
  shows "changed K S S'" and "control_rest P K S'"
    and "ret \<noteq> 0 \<and> (\<forall>d. masks (cgroups S' d) = masks (cgroups S d))
      \<or> ret = nbytes \<and> asked_control P buf (subtree_control (cgroups S c)) (subtree_control (cgroups S' c))"
    and "cgroup_has_tasks S c \<Longrightarrow> tpar (ftree S) c \<noteq> None \<Longrightarrow>
      subtree_control (cgroups S' c) \<subseteq> subtree_control (cgroups S c) \<union> cgrp_dfl_threaded_ss_mask P"
    and "d \<noteq> c \<Longrightarrow> subtree_control (cgroups S' d) \<subseteq> subtree_control (cgroups S d)"
proof -
  have rest: "at_rest K S" and fit: "all_masks_fit P S" using assms(1) by (simp_all add: control_rest_def)
  have tree: "css_tree_ok (ftree S)" by (rule at_restD(4) [OF rest])
  let ?T = "subtree_control (cgroups S c)"
  have all: "changed K S S' \<and> control_rest P K S' \<and> (ret \<noteq> 0 \<and> (\<forall>d. masks (cgroups S' d) = masks (cgroups S d))
      \<or> ret = nbytes \<and> asked_control P buf ?T (subtree_control (cgroups S' c)))
    \<and> (cgroup_has_tasks S c \<longrightarrow> tpar (ftree S) c \<noteq> None \<longrightarrow>
        subtree_control (cgroups S' c) \<subseteq> ?T \<union> cgrp_dfl_threaded_ss_mask P)
    \<and> (\<forall>d. d \<noteq> c \<longrightarrow> subtree_control (cgroups S' d) \<subseteq> subtree_control (cgroups S d))"
    if change: "self_online (cgroups S c)" "change_control P c enable disable S = (r, S')"
      "cgroup_vet_subtree_control_enable P S c enable = 0" "ret = (if r \<noteq> 0 then r else nbytes)"
      "enable \<subseteq> cgroup_control P S c" "asked_control P buf ?T (?T \<union> enable - disable)"
    for enable disable r
  proof -
    note C = change_control_ok [OF assms(1,2) change(1,2)]
    let ?S3 = "change_masks c enable disable S"
    note M = change_masks_ok [OF rest assms(2), of enable disable]
    have st: "steady S ?S3" using M(1) by (simp add: changed_def)
    have tree3: "css_tree_ok (ftree ?S3)" "c \<in> set (tcss (ftree ?S3))" "self_online (cgroups ?S3 c)"
      using tree assms(2) change(1) st by (simp_all add: steady_def)
    have "cgroup_control P ?S3 c = cgroup_control P S c"
    proof -
      have "p \<noteq> c" if "tpar (ftree S) c = Some p" for p using that tree by (auto simp: css_tree_ok_def tree_ok_def)
      then have "same_above S ?S3 c" using st by (auto simp: same_above_def steady_def cgroup_parent_def M(3))
      then show ?thesis by (rule same_above_control)
    qed
    moreover have "subtree_control (cgroups ?S3 c) = ?T \<union> enable - disable" using M(3) [of c] by (simp add: masks_def)
    moreover have "?T \<subseteq> cgroup_control P S c" using fit assms(2) change(1) by (simp add: all_masks_fit_def masks_fit_def)
    ultimately have top: "subtree_control (cgroups (cgroup_propagate_control P c ?S3) c) = ?T \<union> enable - disable"
      using change(5) unfolding propagate_top [OF tree3] by auto
    have ok_c: "subtree_control (cgroups S' c) = (if r = 0 then ?T \<union> enable - disable else ?T)"
      using C(3) [of c] top by (simp add: masks_eq_iff)
    have vet: "enable \<subseteq> cgrp_dfl_threaded_ss_mask P" if "cgroup_has_tasks S c" "tpar (ftree S) c \<noteq> None"
      using that change(3) by (auto simp: cgroup_vet_subtree_control_enable_def cgroup_is_mixable_def cgroup_parent_def
          Let_def EBUSY_def EOPNOTSUPP_def split: if_splits)
    have down: "subtree_control (cgroups S' d) \<subseteq> subtree_control (cgroups S d)" if "d \<noteq> c" for d
    proof -
      have "subtree_control (cgroups ?S3 d) = subtree_control (cgroups S d)" using M(3) [of d] that by (simp add: masks_eq_iff)
      then show ?thesis
        using C(3) [of d] propagate_shrinks [of ?S3 P c d] tree3(1) by (simp add: masks_eq_iff css_tree_ok_def split: if_splits)
    qed
    have "ret \<noteq> 0 \<and> (\<forall>d. masks (cgroups S' d) = masks (cgroups S d))
      \<or> ret = nbytes \<and> asked_control P buf ?T (subtree_control (cgroups S' c))"
      using C(3) change(4,6) ok_c by (cases "r = 0") auto
    then show ?thesis
      using C(1,2) changed_control_rest [OF assms(1) C(1,2)] ok_c vet down by auto
  qed
  have "changed K S S' \<and> control_rest P K S' \<and> (ret \<noteq> 0 \<and> (\<forall>d. masks (cgroups S' d) = masks (cgroups S d))
      \<or> ret = nbytes \<and> asked_control P buf ?T (subtree_control (cgroups S' c)))
    \<and> (cgroup_has_tasks S c \<longrightarrow> tpar (ftree S) c \<noteq> None \<longrightarrow>
        subtree_control (cgroups S' c) \<subseteq> ?T \<union> cgrp_dfl_threaded_ss_mask P)
    \<and> (\<forall>d. d \<noteq> c \<longrightarrow> subtree_control (cgroups S' d) \<subseteq> subtree_control (cgroups S d))"
    by (rule subtree_control_write_cases [OF assms(3)]) (use assms(1) changed_refl [OF rest] all in auto)
  then show "changed K S S'" "control_rest P K S'"
    "ret \<noteq> 0 \<and> (\<forall>d. masks (cgroups S' d) = masks (cgroups S d))
      \<or> ret = nbytes \<and> asked_control P buf (subtree_control (cgroups S c)) (subtree_control (cgroups S' c))"
    "cgroup_has_tasks S c \<Longrightarrow> tpar (ftree S) c \<noteq> None \<Longrightarrow>
      subtree_control (cgroups S' c) \<subseteq> subtree_control (cgroups S c) \<union> cgrp_dfl_threaded_ss_mask P"
    "d \<noteq> c \<Longrightarrow> subtree_control (cgroups S' d) \<subseteq> subtree_control (cgroups S d)" by blast+
qed

end
