(* ===== verification/CgroupCore.thy ===== *)
theory CgroupCore
  imports Control_Write TaskLife
begin

section \<open>The tasks, cgroups and css_sets together\<close>

text \<open>
  The operations that the other parts of the kernel call, as the steps of a state machine: tasks are
  forked, exit and are freed (\<open>TaskLife\<close>), are moved to other cgroups (\<open>Attach_Correct\<close>), and the
  control of subtrees is written (\<open>Control_Write\<close>).  \<open>cgroup_mutex\<close> and \<open>css_set_lock\<close> make each of
  them one step.  The invariant of the reachable states is that of the theories above and the
  rule of the default hierarchy that a cgroup has tasks or gives controllers to its children, not
  both.
\<close>

subsection \<open>What the steps leave alone\<close>

definition calm :: "cgsys \<Rightarrow> cgsys \<Rightarrow> bool" where
  "calm S S' \<longleftrightarrow> ftree S' = ftree S \<and> root_of S' = root_of S \<and> subsys_mask S' = subsys_mask S
     \<and> (\<forall>c. uncounted (cgroups S' c) = uncounted (cgroups S c))"

definition no_more :: "cgsys \<Rightarrow> cgsys \<Rightarrow> bool" where
  "no_more S S' \<longleftrightarrow> calm S S' \<and> set (css_set_table S') \<subseteq> set (css_set_table S)
     \<and> (\<forall>x. cgrp_links (cset S' x) = cgrp_links (cset S x) \<and> (css_set_populated S' x \<longrightarrow> css_set_populated S x))"

lemma calm_refl [simp]: "calm S S"
  by (simp add: calm_def)

lemma calm_trans: "calm S S' \<Longrightarrow> calm S' S'' \<Longrightarrow> calm S S''"
  by (simp add: calm_def)

lemma no_more_refl [simp]: "no_more S S"
  by (simp add: no_more_def)

lemma no_more_trans: "no_more S S' \<Longrightarrow> no_more S' S'' \<Longrightarrow> no_more S S''"
  unfolding no_more_def using calm_trans [of S S' S''] by auto

lemma no_more_counts: "counts_only S S' \<Longrightarrow> no_more S S'"
  by (auto simp: no_more_def calm_def counts_onlyD css_set_populated_def) (auto simp: counts_only_def)

lemma no_more_upd:
  assumes "\<And>x. cgrp_links (f x) = cgrp_links x" and "\<And>x. set (cset_tasks (f x)) \<subseteq> set (cset_tasks x)"
    and "\<And>x. set (mg_tasks (f x)) \<subseteq> set (mg_tasks x)"
  shows "no_more S (upd_cset s f S)"
  using assms(1) assms(2,3) [of "cset S s"] by (auto simp: no_more_def calm_def upd_cset_def css_set_populated_def)

lemma no_more_put: "no_more S (put_css_set s S)"
proof (induction s S rule: put_css_set.induct)
  case (1 s S)
  let ?A = "upd_cset s (\<lambda>x. x\<lparr>refcount := refcount x - 1\<rparr>) S"
  let ?B = "?A\<lparr>css_set_table := removeAll s (css_set_table ?A)\<rparr>"
  have A: "no_more S ?A" by (rule no_more_upd) simp_all
  have B: "no_more ?A ?B" by (auto simp: no_more_def calm_def css_set_populated_def)
  note AB = no_more_trans [OF A B]
  show ?case
    using A AB no_more_trans [OF AB 1(1)] by (subst put_css_set.simps) (simp add: Let_def)
qed

lemma no_more_off: "no_more S (css_set_move_task t (Some s) None mg S)"
proof -
  let ?A = "upd_cset s (unlist_task t) S"
  have "no_more S ?A" by (rule no_more_upd) (auto simp: unlist_task_def)
  then show ?thesis
    using no_more_trans [OF _ no_more_counts [OF update_populated_counts]] by (simp add: css_set_move_task_def Let_def)
qed

lemma life_no_more:
  shows "no_more S (cgroup_fork t S)" and "no_more S (start_exit t S)" and "no_more S (cgroup_exit t S)"
    and "no_more S (cgroup_release t S)" and "no_more S (cgroup_free t S)"
proof -
  show "no_more S (cgroup_fork t S)" "no_more S (start_exit t S)"
    by (auto simp: no_more_def calm_def css_set_populated_def cgroup_fork_def start_exit_def)
  have "no_more S (get_css_set s S)" for s unfolding get_css_set_def by (rule no_more_upd) simp_all
  moreover have "no_more S (upd_cset s (\<lambda>x. x\<lparr>dying_tasks := dying_tasks x @ [t], nr_tasks := nr_tasks x - 1\<rparr>)
      (css_set_move_task t (Some s) None False S))" for s
    by (rule no_more_trans [OF no_more_off no_more_upd]) simp_all
  ultimately show "no_more S (cgroup_exit t S)" by (simp add: cgroup_exit_def Let_def)
  show "no_more S (cgroup_release t S)"
    unfolding cgroup_release_def by (rule no_more_upd) (auto simp: unlist_task_def)
  show "no_more S (cgroup_free t S)" by (simp add: cgroup_free_def no_more_put)
qed

text \<open>The css_set of the task that forks has tasks already.\<close>

lemma no_more_join:
  assumes "css_set_populated S s"
  shows "no_more S (css_set_move_task t None (Some s) False S)"
  using assms by (auto simp: css_set_move_task_def no_more_def calm_def upd_cset_def css_set_populated_def)

lemma post_fork_no_more:
  assumes "on_list S parent"
  shows "no_more S (cgroup_post_fork parent t S)"
proof -
  let ?s = "task_css_set S parent"
  let ?A = "upd_cset ?s (\<lambda>x. x\<lparr>nr_tasks := nr_tasks x + 1\<rparr>) (get_css_set ?s S)"
  have A: "no_more S ?A" unfolding get_css_set_def by (rule no_more_trans [OF no_more_upd no_more_upd]) simp_all
  have "css_set_populated ?A ?s"
    using assms by (auto simp: css_set_populated_def on_list_def upd_cset_def get_css_set_def)
  then show ?thesis using no_more_trans [OF A no_more_join] by (simp add: cgroup_post_fork_def Let_def)
qed

subsection \<open>The cgroups that have tasks\<close>

lemma has_tasks_iff:
  assumes "resting K S"
  shows "cgroup_has_tasks S c \<longleftrightarrow> (\<exists>s \<in> set (css_set_table S). css_set_populated S s \<and> c \<in> set (cgrp_links (cset S s)))"
proof -
  have "csets_counted (css_set_populated S) S"
    using core_okD(3) [OF restingD(1) [OF assms]] by (simp add: counted_def)
  then have "cgroup_has_tasks S c \<longleftrightarrow> csets_of (css_set_populated S) S c \<noteq> {}"
    by (simp add: cgroup_has_tasks_def csets_counted_def csets_of_def)
  then show ?thesis by (auto simp: csets_of_def)
qed

lemma has_tasks_on_list:
  assumes "resting K S"
  shows "cgroup_has_tasks S c \<longleftrightarrow> (\<exists>t \<in> K. on_list S t \<and> c \<in> set (at_links S t))"
proof -
  note cs = csets_okD [OF restingD(2) [OF assms]]
  have "css_set_populated S s \<longleftrightarrow> (\<exists>t \<in> K. on_list S t \<and> task_css_set S t = s)" if "s \<in> set (css_set_table S)" for s
  proof
    assume "css_set_populated S s"
    then obtain t where t: "t \<in> set (cset_tasks (cset S s)) \<union> set (mg_tasks (cset S s))"
      unfolding css_set_populated_def by (metis UnCI all_not_in_conv set_empty)
    then have "t \<in> tasks_of K S s" using cs(9) [OF that] by (auto simp: lists_ok_def all_tasks_def)
    then show "\<exists>t \<in> K. on_list S t \<and> task_css_set S t = s" using t by (auto simp: tasks_of_def on_list_def)
  next
    assume "\<exists>t \<in> K. on_list S t \<and> task_css_set S t = s"
    then show "css_set_populated S s" by (auto simp: on_list_def css_set_populated_def)
  qed
  then show ?thesis unfolding has_tasks_iff [OF assms] using cs(6) by (auto simp: at_links_def)
qed

lemma has_tasks_no_more:
  assumes "resting K S" and "resting K' S'" and "no_more S S'" and "cgroup_has_tasks S' c"
  shows "cgroup_has_tasks S c"
  using assms(3,4) unfolding has_tasks_iff [OF assms(1)] has_tasks_iff [OF assms(2)] no_more_def by auto

subsection \<open>The rule of the default hierarchy\<close>

definition no_internal_tasks :: "subsystems \<Rightarrow> cgsys \<Rightarrow> bool" where
  "no_internal_tasks P S \<longleftrightarrow> (\<forall>c \<in> set (tcss (ftree S)). cgroup_on_dfl S c \<and> tpar (ftree S) c \<noteq> None \<and> cgroup_has_tasks S c
     \<longrightarrow> subtree_control (cgroups S c) \<subseteq> cgrp_dfl_threaded_ss_mask P)"

text \<open>A hierarchy is one tree, and the domain of a threaded cgroup is above it.\<close>

definition forest_ok :: "cgsys \<Rightarrow> bool" where
  "forest_ok S \<longleftrightarrow> (\<forall>c \<in> set (tcss (ftree S)).
     (\<forall>p. tpar (ftree S) c = Some p \<longrightarrow> root_of S c = root_of S p)
     \<and> (cgroup_is_threaded S c \<longrightarrow> dom_cgrp (cgroups S c) \<in> set (ancestors (tpar (ftree S)) c)))"

lemma forest_ok_same:
  assumes "ftree S' = ftree S" and "root_of S' = root_of S" and "\<And>c. dom_cgrp (cgroups S' c) = dom_cgrp (cgroups S c)"
  shows "forest_ok S' = forest_ok S"
  by (simp add: forest_ok_def cgroup_is_threaded_def assms)

lemma forest_ok_steady: "steady S S' \<Longrightarrow> forest_ok S' = forest_ok S"
  by (rule forest_ok_same) (simp_all add: steady_def)

definition core_inv :: "subsystems \<Rightarrow> nat set \<Rightarrow> cgsys \<Rightarrow> bool" where
  "core_inv P K S \<longleftrightarrow> control_rest P K S \<and> no_internal_tasks P S \<and> forest_ok S"

lemma core_invD:
  assumes "core_inv P K S"
  shows "control_rest P K S" and "at_rest K S" and "resting K S" and "held S" and "no_internal_tasks P S"
    and "all_masks_fit P S" and "forest_ok S"
  using assms by (simp_all add: core_inv_def control_rest_def at_rest_def)

lemma calm_masks:
  assumes "calm S S'"
  shows "steady S S'" and "masks (cgroups S' c) = masks (cgroups S c)"
    and "subtree_control (cgroups S' c) = subtree_control (cgroups S c)"
proof -
  have u: "uncounted (cgroups S' c) = uncounted (cgroups S c)" for c using assms by (simp add: calm_def)
  show "steady S S'" using assms uncounted_eqD [OF u] by (simp add: steady_def calm_def)
  show "masks (cgroups S' c) = masks (cgroups S c)" "subtree_control (cgroups S' c) = subtree_control (cgroups S c)"
    using uncounted_eqD [OF u] by (simp_all add: masks_def)
qed

lemma control_rest_calm:
  assumes "control_rest P K S" and "calm S S'" and "at_rest K' S'"
  shows "control_rest P K' S'"
  using assms(1,3) all_masks_fit_steady [OF calm_masks(1) [OF assms(2)] calm_masks(2) [OF assms(2)]]
    online_above_steady [OF calm_masks(1) [OF assms(2)]] by (simp add: control_rest_def)

lemma core_inv_no_more:
  assumes "core_inv P K S" and "no_more S S'" and "resting K' S'" and "held S'"
  shows "core_inv P K' S'"
proof -
  note I = core_invD [OF assms(1)]
  have calm: "calm S S'" using assms(2) by (simp add: no_more_def)
  have "control_rest P K' S'" using control_rest_calm [OF I(1) calm] assms(3,4) by (simp add: at_rest_def)
  moreover have "no_internal_tasks P S'"
    using I(5) has_tasks_no_more [OF I(3) assms(3,2)] calm calm_masks(3) [OF calm]
    by (auto simp: no_internal_tasks_def calm_def cgroup_on_dfl_def)
  ultimately show ?thesis using forest_ok_steady [OF calm_masks(1) [OF calm]] I(7) by (simp add: core_inv_def)
qed

subsection \<open>Moving tasks\<close>

lemma attach_held:
  assumes "held S"
  shows "held (snd (cgroup_attach_task P dst leader threadgroup S))"
proof -
  have "held (snd (fold (\<lambda>task (m, S). cgroup_migrate_add_src (task_css_set S task) dst (m, S)) ts (m, S)))"
    if "held S" for ts m S
    using that
  proof (induction ts arbitrary: m S)
    case (Cons t ts)
    obtain m1 S1 where 1: "cgroup_migrate_add_src (task_css_set S t) dst (m, S) = (m1, S1)" by (rule prod.exhaust)
    have "held S1" using held_add_src [OF Cons.prems, of "task_css_set S t" dst m] 1 by simp
    then show ?case using Cons.IH by (simp add: 1)
  qed simp
  note fold = this
  obtain m1 S1 where 1: "fold (\<lambda>task (m, S). cgroup_migrate_add_src (task_css_set S task) dst (m, S))
      (threads S leader threadgroup) (mgctx_init, S) = (m1, S1)" by (rule prod.exhaust)
  have held: "held S1" using fold [OF assms, where ts = "threads S leader threadgroup" and m = mgctx_init] unfolding 1 by simp
  have "cgroup_attach_task P dst leader threadgroup S =
      (let ret = cgroup_migrate_vet_dst P S dst in
       if ret \<noteq> 0 then (ret, S) else whole_migration P (\<lambda>m S. threads S leader threadgroup) m1 S1)"
    unfolding cgroup_attach_task_def whole_migration_def cgroup_migrate_def Let_def 1 prod.case by (rule refl)
  then show ?thesis using assms whole_held [OF held] by (simp add: Let_def)
qed

lemma vet_dst_control:
  assumes "cgroup_migrate_vet_dst P S dst = 0" and "cgroup_on_dfl S dst" and "tpar (ftree S) dst = Some p"
    and "masks_fit P S dst"
  shows "subtree_control (cgroups S dst) \<subseteq> cgrp_dfl_threaded_ss_mask P"
proof (cases "cgroup_is_threaded S dst")
  case True
  then have "cgroup_control P S dst \<subseteq> cgrp_dfl_threaded_ss_mask P"
    using assms(3) by (simp add: cgroup_control_def cgroup_parent_def Let_def)
  then show ?thesis using assms(4) by (auto simp: masks_fit_def)
next
  case False
  then show ?thesis
    using assms(1-3) by (auto simp: cgroup_migrate_vet_dst_def cgroup_is_mixable_def cgroup_parent_def
        cgroup_can_be_thread_root_def EOPNOTSUPP_def EBUSY_def split: if_splits)
qed

lemma attach_core:
  assumes "core_inv P K S" and "dst \<in> set (tcss (ftree S))" and "self_online (cgroups S dst)"
    and "root_of S dst \<in> set (hierarchies S)" and "set (threads S leader threadgroup) \<subseteq> K"
    and run: "cgroup_attach_task P dst leader threadgroup S = (ret, S')"
  shows "core_inv P K S'"
proof (cases "cgroup_migrate_vet_dst P S dst = 0")
  case False
  then show ?thesis using assms(1) run by (simp add: cgroup_attach_task_def)
next
  case True
  note I = core_invD [OF assms(1)]
  note A = attach_ok [OF I(3) assms(2,4,5) run]
  have calm: "calm S S'" using A(3) by (simp add: mig_only_def calm_def)
  note same = calm_masks [OF calm]
  have "held S'" using attach_held [OF I(4), of P dst leader threadgroup] run by simp
  then have "control_rest P K S'" using control_rest_calm [OF I(1) calm] A(1) by (simp add: at_rest_def)
  moreover have "subtree_control (cgroups S' c) \<subseteq> cgrp_dfl_threaded_ss_mask P"
    if c: "c \<in> set (tcss (ftree S))" "cgroup_on_dfl S c" "tpar (ftree S) c = Some p" "cgroup_has_tasks S' c" for c p
  proof -
    obtain t where t: "t \<in> K" "on_list S' t" "c \<in> set (at_links S' t)"
      using c(4) unfolding has_tasks_on_list [OF A(1)] by blast
    have "c = dst \<or> c \<in> set (at_links S t)"
      using A(2) [OF t(1)] t(3) by (auto simp: attached_def to_cgroup_def split: if_splits)
    then show ?thesis
    proof
      assume "c = dst"
      moreover have "masks_fit P S dst" using I(6) assms(2,3) by (simp add: all_masks_fit_def)
      ultimately show ?thesis using vet_dst_control [OF True] c(2,3) same(3) by simp
    next
      assume "c \<in> set (at_links S t)"
      then have "cgroup_has_tasks S c" using t(1,2) A(4) [OF t(1)] unfolding has_tasks_on_list [OF I(3)] by blast
      then show ?thesis using I(5) c same(3) by (auto simp: no_internal_tasks_def)
    qed
  qed
  ultimately show ?thesis
    using calm forest_ok_steady [OF same(1)] I(7) by (auto simp: core_inv_def no_internal_tasks_def calm_def cgroup_on_dfl_def)
qed

subsection \<open>Writing the control of a subtree\<close>

lemma subtree_control_core:
  assumes "core_inv P K S" and "c \<in> set (tcss (ftree S))" and "cgroup_subtree_control_write P c buf nbytes S = (ret, S')"
  shows "core_inv P K S'"
proof -
  note I = core_invD [OF assms(1)]
  note W = subtree_control_write_ok [OF I(1) assms(2,3)]
  have rest: "resting K S'" and steady: "steady S S'"
    and lists: "\<And>t. t \<in> K \<Longrightarrow> at_links S' t = at_links S t \<and> on_list S' t = on_list S t"
    using W(1) by (auto simp: changed_def at_rest_def)
  have tasks: "cgroup_has_tasks S' d = cgroup_has_tasks S d" for d
    unfolding has_tasks_on_list [OF I(3)] has_tasks_on_list [OF rest] using lists by auto
  have "subtree_control (cgroups S' d) \<subseteq> cgrp_dfl_threaded_ss_mask P"
    if "d \<in> set (tcss (ftree S))" "cgroup_on_dfl S d" "tpar (ftree S) d \<noteq> None" "cgroup_has_tasks S d" for d
  proof -
    have old: "subtree_control (cgroups S d) \<subseteq> cgrp_dfl_threaded_ss_mask P"
      using I(5) that unfolding no_internal_tasks_def by blast
    show ?thesis
    proof (cases "d = c")
      case True
      then show ?thesis using W(4) that(3,4) old by auto
    next
      case False
      then show ?thesis using W(5) old by blast
    qed
  qed
  then show ?thesis
    using W(2) steady forest_ok_steady [OF steady] I(7) tasks
    by (auto simp: core_inv_def no_internal_tasks_def steady_def cgroup_on_dfl_def)
qed

end
