(* ===== verification/CgroupLife.thy ===== *)
theory CgroupLife
  imports CgroupCore
begin

section \<open>Creation and removal of cgroups\<close>

text \<open>
  \<open>cgroup_mkdir\<close>, \<open>cgroup_rmdir\<close>, the death of a css and the release of a removed cgroup keep the
  invariant of the core, on every path, those included where \<open>cgroup_mkdir\<close> destroys what it made.
\<close>

subsection \<open>States that differ in little\<close>

definition counts_masks :: "cgroup \<Rightarrow> (nat \<times> int \<times> int \<times> int) \<times> ssmask \<times> ssmask" where
  "counts_masks x = (popc x, masks x)"

lemma core_inv_same:
  assumes "core_inv P K S" and "at_rest K S'" and "ftree S' = ftree S" and "root_of S' = root_of S"
    and "subsys_mask S' = subsys_mask S" and same: "\<And>d. counts_masks (cgroups S' d) = counts_masks (cgroups S d)"
    and "\<And>d. self_online (cgroups S' d) \<Longrightarrow> self_online (cgroups S d)" and "online_above S'"
  shows "core_inv P K S'"
proof -
  note I = core_invD [OF assms(1)]
  have f: "dom_cgrp (cgroups S' d) = dom_cgrp (cgroups S d)" "masks (cgroups S' d) = masks (cgroups S d)"
    "nr_populated_csets (cgroups S' d) = nr_populated_csets (cgroups S d)"
    "subtree_control (cgroups S' d) = subtree_control (cgroups S d)" for d
    using same [of d] by (simp_all add: counts_masks_def popc_def masks_def)
  have "same_above S S' d" for d by (simp add: same_above_def cgroup_parent_def assms(3-5) f(1,2))
  then have "masks_fit P S' d = masks_fit P S d" for d using f(2) by (intro masks_fit_same)
  then have "all_masks_fit P S'" using I(6) assms(3,7) by (simp add: all_masks_fit_def)
  moreover have "no_internal_tasks P S'"
    using I(5) by (simp add: no_internal_tasks_def cgroup_on_dfl_def cgroup_has_tasks_def assms(3,4) f(3,4))
  moreover have "forest_ok S'" using core_invD(7) [OF assms(1)] forest_ok_same [of S' S] f(1) assms(3,4) by simp
  ultimately show ?thesis using assms(2,8) by (simp add: core_inv_def control_rest_def)
qed

lemma core_inv_frame:
  assumes "core_inv P K S" and "cg_frame counts_masks S S'"
    and "\<And>d. self_online (cgroups S' d) = self_online (cgroups S d)"
  shows "core_inv P K S'"
proof -
  note I = core_invD [OF assms(1)] and D = cg_frameD [OF assms(2)]
  have "cg_frame popc S S'" using assms(2) by (rule cg_frame_weaken) (simp add: counts_masks_def)
  then have "at_rest K S'" using at_rest_frame I(2) by blast
  moreover have "online_above S'" using I(1) by (simp add: control_rest_def online_above_def D(1) assms(3))
  ultimately show ?thesis using core_inv_same [OF assms(1) _ D(1-3,12)] assms(3) by simp
qed

lemma core_inv_csses:
  assumes "core_inv P K S" and "cg_frame but_csses S S'"
  shows "core_inv P K S'"
proof (rule core_inv_frame [OF assms(1)])
  show "cg_frame counts_masks S S'"
    using assms(2) by (rule cg_frame_weaken) (auto simp: counts_masks_def dest: but_cssesD)
  show "self_online (cgroups S' d) = self_online (cgroups S d)" for d
    using but_cssesD(2) [OF cg_frameD(12) [OF assms(2)], of d] by (simp add: kept_def)
qed

lemma core_inv_upd:
  assumes "core_inv P K S" and "\<And>x. counts_masks (f x) = counts_masks x" and "\<And>x. self_online (f x) = self_online x"
  shows "core_inv P K (upd_cgrp c f S)"
  by (rule core_inv_frame [OF assms(1) cg_frame_steps(1)]) (simp_all add: assms(2,3) upd_cgrp_def)

subsection \<open>The death of a css\<close>

lemma offline_css_frame: "cg_frame but_csses S (offline_css k S)"
proof -
  have "cg_frame but_csses S (upd_cgrp c (\<lambda>y. y\<lparr>subsys := (subsys y)(i := None)\<rparr>) (upd_css k g (cgcall_to e S)))" for c i g e
    by (rule cg_frame_trans [OF cg_frame_trans [OF cg_frame_steps(4) cg_frame_steps(2)] cg_frame_steps(1)]) simp
  then show ?thesis by (simp add: offline_css_def Let_def)
qed

lemma css_killed_frame: "cg_frame but_csses S (css_killed k S)"
proof (induction k S rule: css_killed.induct)
  case (1 k S)
  let ?A = "upd_css k (\<lambda>x. x\<lparr>online_cnt := online_cnt x - 1\<rparr>) S"
  have A: "cg_frame but_csses S ?A" by simp
  note B = cg_frame_trans [OF A offline_css_frame]
  show ?case
    using A B cg_frame_trans [OF B 1] by (subst css_killed.simps) (auto simp: Let_def split: option.split)
qed

lemma css_killed_core: "core_inv P K S \<Longrightarrow> core_inv P K (css_killed k S)"
  by (rule core_inv_csses [OF _ css_killed_frame])

subsection \<open>Removal\<close>

lemma at_rest_dead:
  assumes "S' = S\<lparr>cset := g\<rparr>" and "\<And>x. \<exists>b. g x = (cset S x)\<lparr>cset_dead := b\<rparr>"
  shows "at_rest K S' = at_rest K S"
proof -
  have f: "cset_subsys (g x) = cset_subsys (cset S x)" "cgrp_links (g x) = cgrp_links (cset S x)"
    "dfl_cgrp (g x) = dfl_cgrp (cset S x)" "dom_cset (g x) = dom_cset (cset S x)"
    "cset_tasks (g x) = cset_tasks (cset S x)" "mg_tasks (g x) = mg_tasks (cset S x)"
    "dying_tasks (g x) = dying_tasks (cset S x)" "nr_tasks (g x) = nr_tasks (cset S x)"
    "refcount (g x) = refcount (cset S x)" "unmarked (g x) = unmarked (cset S x)" "all_tasks (g x) = all_tasks (cset S x)" for x
    using assms(2) [of x] by (auto simp: unmarked_def all_tasks_def)
  show ?thesis
    by (simp add: at_rest_def resting_def held_def core_ok_def csets_ok_def cset_wf_def hierarchies_def lists_ok_def
        tasks_of_def refs_def threaded_csets_def domains_ok_def cgroup_is_threaded_def counted_def kids_counted_def
        csets_counted_def populated_kids_def csets_of_def css_set_populated_def tasks_counted_def assms(1) f)
qed

lemma mark_dead:
  "\<exists>g. fold (\<lambda>s. upd_cset s (\<lambda>x. x\<lparr>cset_dead := True\<rparr>)) ss S = S\<lparr>cset := g\<rparr> \<and> (\<forall>x. \<exists>b. g x = (cset S x)\<lparr>cset_dead := b\<rparr>)"
proof (induction ss arbitrary: S)
  case Nil
  have "\<exists>b. y = y\<lparr>cset_dead := b\<rparr>" for y :: css_set by (rule exI [of _ "cset_dead y"]) simp
  then show ?case by (intro exI [of _ "cset S"]) simp
next
  case (Cons s ss)
  let ?S = "upd_cset s (\<lambda>x. x\<lparr>cset_dead := True\<rparr>) S"
  obtain g where g: "fold (\<lambda>s. upd_cset s (\<lambda>x. x\<lparr>cset_dead := True\<rparr>)) ss ?S = ?S\<lparr>cset := g\<rparr>"
    "\<And>x. \<exists>b. g x = (cset ?S x)\<lparr>cset_dead := b\<rparr>" using Cons.IH [of ?S] by blast
  have "\<exists>b. g x = (cset S x)\<lparr>cset_dead := b\<rparr>" for x
    using g(2) [of x] by (cases "x = s") (auto simp: upd_cset_def)
  moreover have "?S\<lparr>cset := g\<rparr> = S\<lparr>cset := g\<rparr>" by (simp add: upd_cset_def)
  ultimately show ?case using g(1) by (intro exI [of _ g]) simp
qed

lemma destroy_core:
  assumes "core_inv P K S" and "cgroup_destroy_locked P c S = (ret, S')" and "c \<in> set (tcss (ftree S))"
  shows "core_inv P K S'" and "ret = 0 \<Longrightarrow> \<not> self_online (cgroups S' c)"
proof -
  note I = core_invD [OF assms(1)]
  have "core_inv P K S' \<and> (ret = 0 \<longrightarrow> \<not> self_online (cgroups S' c))"
  proof (cases "cgroup_is_populated (cgroups S c) \<or> list_ex (\<lambda>d. self_online (cgroups S d)) (kids (ftree S) c)")
    case True
    then have "ret = - EBUSY \<and> S' = S"
      using assms(2) unfolding cgroup_destroy_locked_def by (cases "cgroup_is_populated (cgroups S c)") simp_all
    then show ?thesis using assms(1) by (simp add: EBUSY_def)
  next
    case False
    let ?S1 = "upd_cgrp c (\<lambda>x. x\<lparr>self_online := False\<rparr>) S"
    let ?S2 = "fold (\<lambda>s. upd_cset s (\<lambda>x. x\<lparr>cset_dead := True\<rparr>)) (cset_links ?S1 c) ?S1"
    let ?S3 = "fold (\<lambda>i S. case cgroup_css S c i of None \<Rightarrow> S | Some k \<Rightarrow> kill_css k S) [0..<CGROUP_SUBSYS_COUNT P] ?S2"
    let ?S4 = "upd_cgrp c (\<lambda>x. x\<lparr>self_visible := False\<rparr>) ?S3"
    let ?h = "\<lambda>x. (counts_masks x, self_online x)"
    have rest1: "at_rest K ?S1"
      using I(2) at_rest_frame [of S ?S1] by (simp add: popc_def)
    obtain g where g: "?S2 = ?S1\<lparr>cset := g\<rparr>" "\<And>x. \<exists>b. g x = (cset ?S1 x)\<lparr>cset_dead := b\<rparr>"
      using mark_dead [of "cset_links ?S1 c" ?S1] by blast
    have rest2: "at_rest K ?S2" using at_rest_dead [OF g] rest1 by simp
    have kill: "cg_frame ?h S (case cgroup_css S c i of None \<Rightarrow> S | Some k \<Rightarrow> kill_css k S)" for i S
      by (simp add: kill_css_frame split: option.split)
    have "cg_frame ?h ?S2 ?S3" by (rule cg_frame_fold) (rule kill)
    then have 4: "cg_frame ?h ?S2 ?S4"
      by (rule cg_frame_trans [OF _ cg_frame_steps(1)]) (simp add: counts_masks_def popc_def masks_def)
    have 5: "cg_frame ?h ?S2 (upd_cgrp p (\<lambda>x. x\<lparr>nr_threaded_children := nr_threaded_children x - 1\<rparr>) ?S4)" for p
      by (rule cg_frame_trans [OF 4 cg_frame_steps(1)]) (simp add: counts_masks_def popc_def masks_def)
    have "ret = 0 \<and> S' = (case cgroup_parent ?S4 c of
        Some parent \<Rightarrow> cgcall_to (check_for_release parent) (if cgroup_is_threaded ?S4 c
          then upd_cgrp parent (\<lambda>x. x\<lparr>nr_threaded_children := nr_threaded_children x - 1\<rparr>) ?S4 else ?S4)
      | None \<Rightarrow> ?S4)"
      using assms(2) False unfolding cgroup_destroy_locked_def Let_def by simp
    then have F: "cg_frame ?h ?S2 S'"
      using 4 cg_frame_trans [OF 4 cg_frame_steps(4)] cg_frame_trans [OF 5 cg_frame_steps(4)]
      by (auto split: option.split)
    note D = cg_frameD [OF F]
    have "at_rest K S'"
      using at_rest_frame [OF cg_frame_weaken [OF F, where g = popc]] rest2 by (simp add: counts_masks_def)
    moreover have c2: "cgroups ?S2 = cgroups ?S1" "ftree ?S2 = ftree S" "root_of ?S2 = root_of S" "subsys_mask ?S2 = subsys_mask S"
      unfolding g(1) by (simp_all add: upd_cgrp_def)
    moreover have cm: "counts_masks (cgroups S' d) = counts_masks (cgroups S d)" for d
      using D(12) [of d] unfolding c2(1) by (auto simp: upd_cgrp_def counts_masks_def popc_def masks_def)
    moreover have on: "self_online (cgroups S' d) = (d \<noteq> c \<and> self_online (cgroups S d))" for d
      using D(12) [of d] unfolding c2(1) by (auto simp: upd_cgrp_def)
    moreover have "online_above S'"
      unfolding online_above_def on D(1) c2(2)
    proof (intro ballI allI impI conjI)
      fix d p
      assume d: "d \<in> set (tcss (ftree S))" "d \<noteq> c \<and> self_online (cgroups S d)" "tpar (ftree S) d = Some p"
      have "d \<in> set (kids (ftree S) p)" using d in_kids [OF at_restD(4) [OF I(2)]] by simp
      then show "p \<noteq> c" using False d(2) by (auto simp: list_ex_iff)
      show "self_online (cgroups S p)" using I(1) d by (auto simp: control_rest_def online_above_def)
    qed
    ultimately have "core_inv P K S'"
      using D(1-3) by (intro core_inv_same [OF assms(1)]) simp_all
    then show ?thesis using on by simp
  qed
  then show "core_inv P K S'" "ret = 0 \<Longrightarrow> \<not> self_online (cgroups S' c)" by simp_all
qed

lemma rmdir_core:
  assumes "core_inv P K S" and "cgroup_rmdir P c S = (ret, S')" and "c \<in> set (tcss (ftree S))"
  shows "core_inv P K S'"
  using assms destroy_core(1) [OF assms(1) _ assms(3)] by (auto simp: cgroup_rmdir_def split: if_splits)

subsection \<open>Release\<close>

lemma has_kids:
  assumes "css_tree_ok T" and "d \<in> set (tcss T)" and "c \<in> set (ancestors (tpar T) d)"
  shows "kids T c \<noteq> []"
  using assms(2,3)
proof (induction d rule: less_induct)
  case (less d)
  have tree: "tree_ok (tpar T)" using assms(1) by (simp add: css_tree_ok_def)
  show ?case
  proof (cases "tpar T d")
    case None
    then show ?thesis using less.prems tree by (simp add: ancestors_root)
  next
    case (Some p)
    then have p: "p \<in> set (tcss T)" "p < d" using assms(1) less.prems(1) by (auto simp: css_tree_ok_def tree_ok_def)
    have "c = p \<or> c \<in> set (ancestors (tpar T) p)" using less.prems(2) ancestors_child [OF tree Some] by simp
    then show ?thesis
    proof
      assume "c = p"
      then have "d \<in> set (kids T c)" using Some less.prems(1) in_kids [OF assms(1)] by simp
      then show ?thesis by auto
    next
      assume "c \<in> set (ancestors (tpar T) p)"
      then show ?thesis by (rule less.IH [OF p(2,1)])
    qed
  qed
qed

lemma released_core:
  assumes "core_inv P K S" and "releasable P S c"
  shows "core_inv P K (cgroup_released c S)"
proof -
  note I = core_invD [OF assms(1)]
  note R = restingD [OF I(3)]
  note ok = core_okD [OF R(1)] and cs = csets_okD [OF R(2)]
  let ?S = "cgroup_released c S" and ?T = "ftree S"
  have rel: "\<not> self_online (cgroups S c)" "kids ?T c = []" "cset_links S c = []"
    using assms(2) by (simp_all add: releasable_def)
  have T: "tpar (ftree ?S) = tpar ?T" "set (tcss (ftree ?S)) = set (tcss ?T) - {c}"
    by (auto simp: cgroup_released_def)
  have same: "root_of ?S = root_of S" "subsys_mask ?S = subsys_mask S" "cgroups ?S = cgroups S" "cset ?S = cset S"
    "css_set_table ?S = css_set_table S" "task_css_set ?S = task_css_set S" "next_cset ?S = next_cset S" "exiting ?S = exiting S"
    by (simp_all add: cgroup_released_def)
  have up: "p \<noteq> c" if "d \<in> set (tcss ?T)" "tpar ?T d = Some p" for d p
  proof
    assume "p = c"
    then have "d \<in> set (kids ?T c)" using that in_kids [OF cs(1)] by simp
    then show False using rel(2) by simp
  qed
  have links: "c \<notin> set (cgrp_links (cset S s))" if "s \<in> set (css_set_table S)" for s
  proof
    assume "c \<in> set (cgrp_links (cset S s))"
    then have "s \<in> set (cset_links S c)" using that by (simp add: cset_links_in)
    then show False using rel(3) by simp
  qed
  have tree: "css_tree_ok (ftree ?S)"
    using cs(1) up unfolding css_tree_ok_def T by (auto simp: cgroup_released_def sorted_wrt_filter)
  have kids: "set (kids (ftree ?S) x) = set (kids ?T x) - {c}" for x
    using in_kids [OF tree] in_kids [OF cs(1)] T by auto
  have "csets_of (css_set_populated S) S c = {}" using links by (auto simp: csets_of_def)
  moreover have "populated_kids S c th = {}" for th using rel(2) by (simp add: populated_kids_def)
  ultimately have "nr_populated_csets (cgroups S c) = 0" "nr_populated_kids (cgroups S c) th = 0" for th
    using ok(3) by (simp_all add: counted_def kids_counted_def csets_counted_def)
  from this(1) this(2) [of True] this(2) [of False] have idle: "\<not> cgroup_is_populated (cgroups S c)"
    by (simp add: cgroup_is_populated_def nr_populated_kids_def)
  have pk: "populated_kids ?S x th = populated_kids S x th" for x th
  proof -
    have "{d \<in> A - {c}. Q d \<and> R d} = {d \<in> A. Q d \<and> R d}" if "\<not> Q c" for A and Q R :: "nat \<Rightarrow> bool" using that by blast
    then show ?thesis unfolding populated_kids_def kids same(3) cgroup_is_threaded_def using idle .
  qed
  have hier: "hierarchies ?S = hierarchies S" by (simp add: hierarchies_def same)
  have "cset_wf ?S s" if "s \<in> set (css_set_table S)" for s
    using cs(8) [OF that] links [OF that] by (auto simp: cset_wf_def hier same T)
  then have csets: "csets_ok K (mg_pins mgctx_init) ?S"
    using R(2) tree unfolding csets_ok_def hier by (simp add: lists_ok_def tasks_of_def refs_def threaded_csets_def same)
  have "counted (css_set_populated ?S) ?S"
    using ok(3) pk unfolding counted_def kids_counted_def csets_counted_def
    by (simp add: same csets_of_def css_set_populated_def)
  moreover have "domains_ok ?S"
  proof -
    have "dom_cgrp (cgroups S d) \<noteq> c" if "d \<in> set (tcss ?T)" "cgroup_is_threaded S d" for d
      using has_kids [OF cs(1) that(1), of c] core_invD(7) [OF assms(1)] that rel(2) by (auto simp: forest_ok_def)
    then show ?thesis using ok(2) by (auto simp: domains_ok_def cgroup_is_threaded_def same T)
  qed
  moreover have "tasks_counted ?S s = tasks_counted S s" for s by (simp add: tasks_counted_def same)
  ultimately have "resting K ?S" using csets ok R(3,4) by (simp add: resting_def core_ok_def same)
  moreover have "held ?S" using I(4) by (simp add: held_def same)
  moreover have "all_masks_fit P ?S"
  proof -
    have "same_above S ?S d" for d by (simp add: same_above_def cgroup_parent_def T same)
    then have "masks_fit P ?S d = masks_fit P S d" for d by (intro masks_fit_same) (simp_all add: same)
    then show ?thesis using I(6) by (simp add: all_masks_fit_def T same)
  qed
  moreover have "online_above ?S" using I(1) by (auto simp: control_rest_def online_above_def T same)
  moreover have "no_internal_tasks P ?S"
    using I(5) by (simp add: no_internal_tasks_def T same cgroup_on_dfl_def cgroup_has_tasks_def)
  moreover have "forest_ok ?S" using core_invD(7) [OF assms(1)] by (simp add: forest_ok_def T same cgroup_is_threaded_def)
  ultimately show ?thesis by (simp add: core_inv_def control_rest_def at_rest_def)
qed

subsection \<open>Creation\<close>

text \<open>The new cgroup, whose number no cgroup has.\<close>

definition add_cgroup :: "nat \<Rightarrow> nat \<Rightarrow> cgsys \<Rightarrow> cgsys" where
  "add_cgroup parent c S = S\<lparr>cgroups := (cgroups S)(c := new_cgroup c), root_of := (root_of S)(c := root_of S parent),
     ftree := (ftree S)\<lparr>tpar := (tpar (ftree S))(c \<mapsto> parent), tcss := tcss (ftree S) @ [c]\<rparr>\<rparr>"

lemma add_cgroup_at:
  "cgroups (add_cgroup parent c S) = (cgroups S)(c := new_cgroup c)"
  "root_of (add_cgroup parent c S) = (root_of S)(c := root_of S parent)"
  "tpar (ftree (add_cgroup parent c S)) = (tpar (ftree S))(c \<mapsto> parent)"
  "tcss (ftree (add_cgroup parent c S)) = tcss (ftree S) @ [c]"
  "subsys_mask (add_cgroup parent c S) = subsys_mask S" "cset (add_cgroup parent c S) = cset S"
  "css_set_table (add_cgroup parent c S) = css_set_table S" "task_css_set (add_cgroup parent c S) = task_css_set S"
  "next_cset (add_cgroup parent c S) = next_cset S" "exiting (add_cgroup parent c S) = exiting S"
  by (simp_all add: add_cgroup_def)

lemma add_cgroup_rest:
  assumes "at_rest K S" and "parent \<in> set (tcss (ftree S))" and "\<And>d. d \<in> set (tcss (ftree S)) \<Longrightarrow> d < c"
  shows "at_rest K (add_cgroup parent c S)"
proof -
  note R = restingD [OF at_restD(1) [OF assms(1)]]
  note ok = core_okD [OF R(1)] and cs = csets_okD [OF R(2)]
  let ?S = "add_cgroup parent c S"
  note at = add_cgroup_at
  have new: "c \<notin> set (tcss (ftree S))" using assms(3) by blast
  have tree: "css_tree_ok (ftree ?S)"
    using cs(1) assms(2,3) new unfolding css_tree_ok_def at
    by (auto simp: tree_ok_def sorted_wrt_append split: if_splits)
  have old: "d \<noteq> c" if "s \<in> set (css_set_table S)" "d \<in> set (cgrp_links (cset S s))" for s d
    using cs(8) [OF that(1)] that(2) new by (auto simp: cset_wf_def)
  have links: "map (root_of ?S) (cgrp_links (cset S s)) = map (root_of S) (cgrp_links (cset S s))"
    if "s \<in> set (css_set_table S)" for s using old [OF that] by (auto simp: at)
  have hier: "hierarchies ?S = hierarchies S" using links [OF cs(4)] by (simp add: hierarchies_def at)
  have "cset_wf ?S s" if "s \<in> set (css_set_table S)" for s
    using cs(8) [OF that] links [OF that] old [OF that] by (auto simp: cset_wf_def hier at)
  then have csets: "csets_ok K (mg_pins mgctx_init) ?S"
    using R(2) tree unfolding csets_ok_def hier by (simp add: at lists_ok_def tasks_of_def refs_def threaded_csets_def)
  have no_kids: "x \<noteq> c" if "d \<in> set (tcss (ftree S))" "tpar (ftree S) d = Some x" for d x
    using cs(1) that new by (auto simp: css_tree_ok_def)
  have quiet: "\<not> cgroup_is_populated (cgroups ?S c)" by (simp add: at new_cgroup_def cgroup_is_populated_def)
  have "populated_kids ?S x th = (if x = c then {} else populated_kids S x th)" for x th
    using new no_kids quiet unfolding populated_kids_def by (auto simp: in_kids [OF tree] in_kids [OF cs(1)] at cgroup_is_threaded_def)
  moreover have "csets_of (css_set_populated ?S) ?S x = (if x = c then {} else csets_of (css_set_populated S) S x)" for x
    using old by (auto simp: csets_of_def css_set_populated_def at)
  ultimately have "counted (css_set_populated ?S) ?S"
    using ok(3) unfolding counted_def kids_counted_def csets_counted_def
    by (auto simp: at new_cgroup_def nr_populated_kids_def)
  moreover have "domains_ok ?S"
  proof -
    have "dom_cgrp (cgroups S d) \<noteq> c" if "d \<in> set (tcss (ftree S))" "cgroup_is_threaded S d" for d
      using ok(2) that new by (auto simp: domains_ok_def)
    then show ?thesis using ok(2) new by (auto simp: domains_ok_def at cgroup_is_threaded_def new_cgroup_def)
  qed
  moreover have "tasks_counted ?S s = tasks_counted S s" for s by (simp add: tasks_counted_def at)
  ultimately have "resting K ?S" using csets ok R(3,4) by (simp add: resting_def core_ok_def at)
  moreover have "held ?S" using at_restD(2) [OF assms(1)] by (simp add: held_def at)
  ultimately show ?thesis by (simp add: at_rest_def)
qed

lemma ask_all_frame: "cg_frame h S (snd (ask_all n S))"
proof (induction n arbitrary: S)
  case (Suc n)
  obtain r S1 where 1: "ask S = (r, S1)" by (rule prod.exhaust)
  have "cg_frame h S S1" by (rule cg_frame_ask [OF 1])
  then show ?case using cg_frame_trans [OF _ Suc.IH] by (simp add: 1)
qed simp

lemma core_inv_ask: "core_inv P K S \<Longrightarrow> ask_all n S = (r, S') \<Longrightarrow> core_inv P K S'"
  using core_inv_csses [of P K S S'] ask_all_frame [of but_csses S n] by simp

lemma create_core:
  assumes "core_inv P K S" and "cgroup_create P parent c S = (ret, S')" and "parent \<in> set (tcss (ftree S))"
    and "self_online (cgroups S parent)" and "\<And>d. d \<in> set (tcss (ftree S)) \<Longrightarrow> d < c"
  shows "core_inv P K S'" and "ret = 0 \<Longrightarrow> c \<in> set (tcss (ftree S'))"
proof -
  obtain r S1 where 1: "ask_all (if cgroup_on_dfl S parent then 6 else 5) S = (r, S1)" by (rule prod.exhaust)
  have inv1: "core_inv P K S1" by (rule core_inv_ask [OF assms(1) 1])
  note I = core_invD [OF inv1]
  have "cg_frame (\<lambda>x. x) S S1" using ask_all_frame [of "\<lambda>x. x" S "if cgroup_on_dfl S parent then 6 else 5"] 1 by simp
  note D1 = cg_frameD [OF this]
  let ?S2 = "add_cgroup parent c S1"
  obtain S3 where S3: "S3 = (if \<not> cgroup_on_dfl ?S2 c then upd_cgrp c (\<lambda>x. x\<lparr>subtree_control := cgroup_control P ?S2 c\<rparr>) ?S2 else ?S2)" by blast
  obtain S4 where S4: "S4 = cgroup_propagate_control P c S3" by blast
  have par: "parent \<in> set (tcss (ftree S1))" "self_online (cgroups S1 parent)"
    and less: "\<And>d. d \<in> set (tcss (ftree S1)) \<Longrightarrow> d < c" using assms(3-5) by (simp_all add: D1)
  have new: "c \<notin> set (tcss (ftree S1))" using less by blast
  have pc: "parent \<noteq> c" using par(1) new by blast
  have tree1: "css_tree_ok (ftree S1)" by (rule at_restD(4) [OF I(2)])
  have rest2: "at_rest K ?S2" by (rule add_cgroup_rest [OF I(2) par(1) less])
  have f3: "cg_frame but_masks ?S2 S3" by (auto simp: S3 but_masks_def)
  have rest3: "at_rest K S3" using change_frames(1) [OF rest2 f3] by (simp add: change_ok_def)
  have f4: "cg_frame but_masks S3 S4" unfolding S4 by (rule propagate_frame)
  note f = cg_frame_trans [OF f3 f4]
  have rest4: "at_rest K S4" using change_frames(1) [OF rest2 f] by (simp add: change_ok_def)
  note at = add_cgroup_at and D3 = cg_frameD [OF f3] and D4 = cg_frameD [OF f]
  note k3 = but_masksD [OF D3(12)] and k4 = but_masksD [OF D4(12)]
  have at3: "cgroups S3 d = cgroups S1 d" if "d \<noteq> c" for d using that by (simp add: S3 upd_cgrp_def at)
  have tree3: "css_tree_ok (ftree S3)" by (rule at_restD(4) [OF rest3])
  have c3: "c \<in> set (tcss (ftree S3))" by (simp add: D3 at)
  have fit: "all_masks_fit P S4"
  unfolding S4
  proof (rule propagate_fits [OF tree3 c3])
    fix d assume d: "d \<in> set (tcss (ftree S3))" "self_online (cgroups S3 d)" "\<not> in_subtree (ftree S3) c d"
    have "d \<noteq> c" using d(1,3) by (auto simp: in_subtree_def)
    then have in1: "d \<in> set (tcss (ftree S1))" using d(1) by (simp add: D3 at)
    have "p \<noteq> c" if "tpar (ftree S1) d = Some p" for p using tree1 in1 that new by (auto simp: css_tree_ok_def)
    then have "same_above S1 S3 d"
      using \<open>d \<noteq> c\<close> at3 by (auto simp: same_above_def cgroup_parent_def D3 at)
    then have "masks_fit P S3 d = masks_fit P S1 d" using at3 [OF \<open>d \<noteq> c\<close>] by (intro masks_fit_same) simp_all
    moreover have "masks_fit P S1 d" using I(6) in1 d(2) at3 [OF \<open>d \<noteq> c\<close>] by (simp add: all_masks_fit_def)
    ultimately show "masks_fit P S3 d" by simp
  qed
  have on4: "self_online (cgroups S4 d) = (d = c \<or> self_online (cgroups S1 d))" for d
    unfolding k4(1) by (simp add: at new_cgroup_def)
  have above: "online_above S4"
    using I(1) par(2) tree1 new unfolding online_above_def on4 D4(1)
    by (auto simp: at control_rest_def online_above_def css_tree_ok_def)
  have "no_internal_tasks P S4"
    unfolding no_internal_tasks_def
  proof (intro ballI impI, elim conjE)
    fix d assume d: "d \<in> set (tcss (ftree S4))" "cgroup_on_dfl S4 d" "tpar (ftree S4) d \<noteq> None" "cgroup_has_tasks S4 d"
    have nr: "nr_populated_csets (cgroups S4 d) = nr_populated_csets (cgroups ?S2 d)"
      using k4(4) [of d] by (simp add: popc_def)
    then have "d \<noteq> c" using d(4) by (auto simp: cgroup_has_tasks_def at new_cgroup_def)
    then have "subtree_control (cgroups S1 d) \<subseteq> cgrp_dfl_threaded_ss_mask P"
      using I(5) d nr by (simp add: no_internal_tasks_def cgroup_on_dfl_def cgroup_has_tasks_def D4 at)
    moreover have "subtree_control (cgroups S4 d) \<subseteq> subtree_control (cgroups S3 d)"
      unfolding S4 using tree3 by (intro propagate_shrinks) (simp add: css_tree_ok_def)
    ultimately show "subtree_control (cgroups S4 d) \<subseteq> cgrp_dfl_threaded_ss_mask P" using at3 [OF \<open>d \<noteq> c\<close>] by auto
  qed
  moreover have "forest_ok S4"
  proof -
    have "tree_ok (tpar (ftree S1))" using tree1 by (simp add: css_tree_ok_def)
    then have "ancestors ((tpar (ftree S1))(c \<mapsto> parent)) d = ancestors (tpar (ftree S1)) d" if "d \<in> set (tcss (ftree S1))" for d
      using less [OF that] by (intro ancestors_upd_greater)
    then show ?thesis
      using core_invD(7) [OF inv1] new tree1 pc k4(2)
      by (auto simp: forest_ok_def D4 at cgroup_is_threaded_def new_cgroup_def css_tree_ok_def)
  qed
  ultimately have inv4: "core_inv P K S4" using rest4 fit above by (simp add: core_inv_def control_rest_def)
  have eq: "ret = (if r \<noteq> 0 then r else 0) \<and> S' = (if r \<noteq> 0 then S1 else S4)"
    using assms(2) 1 unfolding S4 S3 add_cgroup_def cgroup_create_def Let_def by (simp split: if_splits)
  then show "core_inv P K S'" using inv1 inv4 by simp
  show "c \<in> set (tcss (ftree S'))" if "ret = 0" using eq that by (simp add: D4 at split: if_splits)
qed

lemma mkdir_core:
  assumes "core_inv P K S" and "cgroup_mkdir P parent c name in_limits S = (ret, S')" and "parent \<in> set (tcss (ftree S))"
    and "\<And>d. d \<in> set (tcss (ftree S)) \<Longrightarrow> d < c"
  shows "core_inv P K S'"
proof (cases "CHR 0x0A \<in> set name \<or> \<not> self_online (cgroups S parent) \<or> \<not> in_limits")
  case True
  then have "S' = S" using assms(2) unfolding cgroup_mkdir_def by (auto split: if_splits)
  then show ?thesis using assms(1) by simp
next
  case False
  obtain r1 S1 where 1: "cgroup_create P parent c S = (r1, S1)" by (rule prod.exhaust)
  have C: "core_inv P K S1" "r1 = 0 \<Longrightarrow> c \<in> set (tcss (ftree S1))"
    using create_core [OF assms(1) 1 assms(3) _ assms(4)] False by simp_all
  obtain r2 S2 where 2: "ask S1 = (r2, S2)" by (rule prod.exhaust)
  have f2: "cg_frame but_csses S1 S2" by (rule cg_frame_ask [OF 2])
  let ?S3 = "upd_cgrp c (\<lambda>x. x\<lparr>has_kn := True\<rparr>) S2"
  obtain r4 S4 where 4: "ask_all 2 ?S3 = (r4, S4)" by (rule prod.exhaust)
  let ?S5 = "upd_cgrp c (\<lambda>x. x\<lparr>self_visible := True\<rparr>) S4"
  obtain r6 S6 where 6: "cgroup_apply_control_enable P c ?S5 = (r6, S6)" by (rule prod.exhaust)
  have inv2: "core_inv P K S2" by (rule core_inv_csses [OF C(1) f2])
  have inv3: "core_inv P K ?S3" by (rule core_inv_upd [OF inv2]) (simp_all add: counts_masks_def popc_def masks_def)
  have inv4: "core_inv P K S4" by (rule core_inv_ask [OF inv3 4])
  have inv5: "core_inv P K ?S5" by (rule core_inv_upd [OF inv4]) (simp_all add: counts_masks_def popc_def masks_def)
  have f6: "cg_frame but_csses ?S5 S6" using apply_control_enable_frame [of ?S5 P c] 6 by simp
  have inv6: "core_inv P K S6" by (rule core_inv_csses [OF inv5 f6])
  have t2: "ftree S2 = ftree S1" by (rule cg_frameD(1) [OF f2])
  have t4: "ftree S4 = ftree S1" using cg_frameD(1) [OF ask_all_frame [of "\<lambda>x. x" ?S3 2]] 4 t2 by (simp add: upd_cgrp_def)
  have t6: "ftree S6 = ftree S1" using cg_frameD(1) [OF f6] t4 by (simp add: upd_cgrp_def)
  have D: "core_inv P K (snd (cgroup_destroy_locked P c U))" if "core_inv P K U" "c \<in> set (tcss (ftree U))" for U
    using destroy_core(1) [OF that(1) _ that(2)] by (metis prod.collapse)
  have S': "S' = (if r1 \<noteq> 0 then S1 else if r2 \<noteq> 0 then snd (cgroup_destroy_locked P c S2)
      else if r4 \<noteq> 0 then snd (cgroup_destroy_locked P c S4)
      else if r6 \<noteq> 0 then snd (cgroup_destroy_locked P c S6) else S6)"
    using assms(2) False 1 2 4 6 unfolding cgroup_mkdir_def Let_def by (simp split: if_splits)
  show ?thesis unfolding S' using C inv2 inv4 inv6 D t2 t4 t6 by (auto split: if_splits)
qed

end
