(* ===== verification/CgroupThreads.thy ===== *)
theory CgroupThreads
  imports CgroupLife
begin

section \<open>Threaded cgroups\<close>

text \<open>
  \<open>cgroup_enable_threaded\<close> changes the domain of a cgroup and of the threaded cgroups below it.  The
  counters of populated children depend on which children are threaded, so it is important that the
  cgroup is not populated, at the change and when an error takes it back.
\<close>

subsection \<open>Populated subtrees\<close>

text \<open>A cgroup is populated when a cgroup of its subtree has tasks.\<close>

lemma populated_iff:
  assumes "resting K S" and "c \<in> set (tcss (ftree S))"
  shows "cgroup_is_populated (cgroups S c) \<longleftrightarrow> (\<exists>d. in_subtree (ftree S) c d \<and> cgroup_has_tasks S d)"
proof -
  note R = restingD [OF assms(1)]
  note ok = core_okD [OF R(1)] and cs = csets_okD [OF R(2)]
  let ?T = "ftree S"
  have counts: "cgroup_is_populated (cgroups S c) \<longleftrightarrow> cgroup_has_tasks S c \<or> (\<exists>d \<in> set (kids ?T c). cgroup_is_populated (cgroups S d))"
    for c
  proof -
    have nr: "nr_populated_csets (cgroups S c) = int (card (csets_of (css_set_populated S) S c))"
      "nr_populated_domain_children (cgroups S c) = int (card (populated_kids S c False))"
      "nr_populated_threaded_children (cgroups S c) = int (card (populated_kids S c True))"
      using ok(3) unfolding counted_def kids_counted_def csets_counted_def nr_populated_kids_def by metis+
    have fin: "finite (populated_kids S c th)" for th by (simp add: populated_kids_def)
    have "cgroup_is_populated (cgroups S c) \<longleftrightarrow> cgroup_has_tasks S c \<or> populated_kids S c False \<noteq> {} \<or> populated_kids S c True \<noteq> {}"
    proof -
      have "int i + int j + int k \<noteq> 0 \<longleftrightarrow> int i \<noteq> 0 \<or> j \<noteq> 0 \<or> k \<noteq> 0" for i j k by linarith
      then show ?thesis unfolding cgroup_is_populated_def cgroup_has_tasks_def nr using fin by (auto simp: card_gt_0_iff)
    qed
    then show ?thesis by (auto simp: populated_kids_def)
  qed
  show ?thesis
    using assms(2)
  proof (induction "Max (set (tcss ?T)) - c" arbitrary: c rule: less_induct)
    case less
    have "{d. in_subtree ?T c d} = insert c (\<Union>k \<in> set (kids ?T c). {d. in_subtree ?T k d})"
    proof -
      have "{d. in_subtree ?T k d} = set (pre_order ?T k)" if "k \<in> set (kids ?T c)" for k
        using that in_kids [OF cs(1)] set_pre_order [OF cs(1)] by simp
      then show ?thesis
        unfolding set_pre_order [OF cs(1) less.prems, symmetric] by (subst pre_order.simps) (auto simp: kids_def)
    qed
    then have step: "(\<exists>d. in_subtree ?T c d \<and> Q d) \<longleftrightarrow> Q c \<or> (\<exists>k \<in> set (kids ?T c). \<exists>d. in_subtree ?T k d \<and> Q d)" for Q
      by (auto simp: set_eq_iff)
    have "cgroup_is_populated (cgroups S k) \<longleftrightarrow> (\<exists>d. in_subtree ?T k d \<and> cgroup_has_tasks S d)" if "k \<in> set (kids ?T c)" for k
    proof (rule less.hyps)
      have k: "k \<in> set (tcss ?T)" "tpar ?T k = Some c" using that in_kids [OF cs(1)] by simp_all
      then show "k \<in> set (tcss ?T)" by simp
      have "c < k" using k(2) cs(1) by (auto simp: css_tree_ok_def tree_ok_def)
      moreover have "k \<le> Max (set (tcss ?T))" using k(1) by simp
      ultimately show "Max (set (tcss ?T)) - k < Max (set (tcss ?T)) - c" by simp
    qed
    then show ?case unfolding counts [of c] step by blast
  qed
qed

subsection \<open>Other domains\<close>

definition pops :: "cgroup \<Rightarrow> int \<times> int \<times> int" where
  "pops x = (nr_populated_csets x, nr_populated_domain_children x, nr_populated_threaded_children x)"

lemma rest_doms:
  assumes "at_rest K S" and "cg_frame pops S S'" and "domains_ok S'"
    and "\<And>d. cgroup_is_populated (cgroups S d) \<Longrightarrow> cgroup_is_threaded S' d = cgroup_is_threaded S d"
  shows "at_rest K S'"
proof -
  note D = cg_frameD(1-11) [OF assms(2)]
  have p: "pops (cgroups S' c) = pops (cgroups S c)" for c by (rule cg_frameD(12) [OF assms(2)])
  then have f: "nr_populated_csets (cgroups S' c) = nr_populated_csets (cgroups S c)"
    "nr_populated_kids (cgroups S' c) th = nr_populated_kids (cgroups S c) th"
    "cgroup_is_populated (cgroups S' c) = cgroup_is_populated (cgroups S c)" for c th
    using p [of c] by (simp_all add: pops_def nr_populated_kids_def cgroup_is_populated_def)
  note rest = restingD [OF at_restD(1) [OF assms(1)]]
  note ok = core_okD [OF rest(1)]
  have pk: "populated_kids S' c th = populated_kids S c th" for c th
    unfolding populated_kids_def D(1) f(3) using assms(4) by blast
  have "css_set_populated S' = css_set_populated S" by (simp add: fun_eq_iff css_set_populated_def D)
  then have "counted (css_set_populated S') S' = counted (css_set_populated S) S"
    by (simp add: counted_def kids_counted_def csets_counted_def csets_of_def pk f(1,2) D)
  moreover have "csets_ok K (mg_pins mgctx_init) S' = csets_ok K (mg_pins mgctx_init) S"
    by (simp add: csets_ok_def cset_wf_def hierarchies_def lists_ok_def tasks_of_def refs_def threaded_csets_def D)
  moreover have "tasks_counted S' s = tasks_counted S s" for s by (simp add: tasks_counted_def D)
  ultimately have "core_ok K (mg_pins mgctx_init) S'" using ok assms(3) by (simp add: core_ok_def D)
  then have "resting K S'" using rest(3,4) by (simp add: resting_def D)
  moreover have "held S'" using at_restD(2) [OF assms(1)] by (simp add: held_def D)
  ultimately show ?thesis by (simp add: at_rest_def)
qed

lemma core_inv_shrink:
  assumes "core_inv P K S" and "at_rest K S'" and "ftree S' = ftree S" and "root_of S' = root_of S"
    and "\<And>d. self_online (cgroups S' d) = self_online (cgroups S d)"
    and "\<And>t. t \<in> K \<Longrightarrow> at_links S' t = at_links S t \<and> on_list S' t = on_list S t"
    and "\<And>d. subtree_control (cgroups S' d) \<subseteq> subtree_control (cgroups S d)"
    and "all_masks_fit P S'" and "forest_ok S'"
  shows "core_inv P K S'"
proof -
  note I = core_invD [OF assms(1)]
  have rest: "resting K S'" using assms(2) by (simp add: at_rest_def)
  have "cgroup_has_tasks S' d = cgroup_has_tasks S d" for d
    unfolding has_tasks_on_list [OF I(3)] has_tasks_on_list [OF rest] using assms(6) by auto
  then have "no_internal_tasks P S'"
    using I(5) assms(7) by (fastforce simp: no_internal_tasks_def cgroup_on_dfl_def assms(3,4))
  moreover have "online_above S'" using I(1) by (simp add: control_rest_def online_above_def assms(3,5))
  ultimately show ?thesis using assms(2,8,9) by (simp add: core_inv_def control_rest_def)
qed

lemma fold_upd_where:
  assumes "distinct ds"
  shows "fold (\<lambda>d S. if d = c \<or> cgroup_is_threaded S d then upd_cgrp d f S else S) ds S
    = S\<lparr>cgroups := (\<lambda>d. if d \<in> set ds \<and> (d = c \<or> cgroup_is_threaded S d) then f (cgroups S d) else cgroups S d)\<rparr>"
  using assms
proof (induction ds arbitrary: S)
  case (Cons a ds)
  let ?F = "\<lambda>S. \<lambda>d. if d \<in> set ds \<and> (d = c \<or> cgroup_is_threaded S d) then f (cgroups S d) else cgroups S d"
  let ?S = "if a = c \<or> cgroup_is_threaded S a then upd_cgrp a f S else S"
  have eq: "?F ?S = (\<lambda>d. if d \<in> set (a # ds) \<and> (d = c \<or> cgroup_is_threaded S d) then f (cgroups S d) else cgroups S d)"
    using Cons.prems by (auto simp: fun_eq_iff upd_cgrp_def cgroup_is_threaded_def)
  have "?S\<lparr>cgroups := g\<rparr> = S\<lparr>cgroups := g\<rparr>" for g by (simp add: upd_cgrp_def)
  then show ?case using Cons.IH [of ?S] Cons.prems unfolding eq by simp
qed simp

subsection \<open>\<open>cgroup_enable_threaded\<close>\<close>

text \<open>The cgroups that get the domain \<open>dom\<close>.\<close>

definition joining :: "cgsys \<Rightarrow> nat \<Rightarrow> nat set" where
  "joining S c = {d \<in> set (live_pre S c). d = c \<or> cgroup_is_threaded S d}"

definition join_domain :: "nat \<Rightarrow> nat \<Rightarrow> cgsys \<Rightarrow> cgsys" where
  "join_domain c top_dom S = (let S' = cgroup_save_control c S
     in S'\<lparr>cgroups := (\<lambda>d. if d \<in> joining S c then (cgroups S' d)\<lparr>dom_cgrp := top_dom\<rparr> else cgroups S' d)\<rparr>)"

lemma join_domain_ok:
  assumes "core_inv P K S" and "c \<in> set (tcss (ftree S))" and "tpar (ftree S) c = Some parent" and "root_of S c = 0"
    and "\<not> cgroup_is_populated (cgroups S c)" and "S2 = join_domain c (dom_cgrp (cgroups S parent)) S"
  shows "cg_frame (\<lambda>x. (self_online x, masks x, pops x)) S S2"
    and "dom_cgrp (cgroups S2 d) = (if d \<in> joining S c then dom_cgrp (cgroups S parent) else dom_cgrp (cgroups S d))"
    and "d \<in> set (live_pre S c) \<Longrightarrow> old_subtree_control (cgroups S2 d) = subtree_control (cgroups S d)
      \<and> old_subtree_ss_mask (cgroups S2 d) = subtree_ss_mask (cgroups S d) \<and> old_dom_cgrp (cgroups S2 d) = dom_cgrp (cgroups S d)"
    and "d \<noteq> c \<Longrightarrow> cgroup_is_threaded S2 d = cgroup_is_threaded S d"
    and "at_rest K S2" and "forest_ok S2"
proof -
  note I = core_invD [OF assms(1)]
  have tree: "css_tree_ok (ftree S)" by (rule at_restD(4) [OF I(2)])
  note live = set_live [OF tree assms(2)] and save = save_at [OF tree assms(2)]
  let ?dom = "dom_cgrp (cgroups S parent)"
  have par: "parent \<in> set (tcss (ftree S))" "parent < c" using tree assms(2,3) by (auto simp: css_tree_ok_def tree_ok_def)
  have dom: "?dom \<in> set (parent # ancestors (tpar (ftree S)) parent)" "root_of S ?dom = 0"
  proof -
    have root: "root_of S parent = 0" using I(7) assms(2-4) by (simp add: forest_ok_def)
    show "?dom \<in> set (parent # ancestors (tpar (ftree S)) parent)" "root_of S ?dom = 0"
      using core_okD(2) [OF restingD(1) [OF I(3)]] I(7) par(1) root
      by (auto simp: forest_ok_def domains_ok_def cgroup_is_threaded_def)
  qed
  have t: "tree_ok (tpar (ftree S))" using tree by (simp add: css_tree_ok_def)
  have up: "?dom \<in> set (ancestors (tpar (ftree S)) d)" if "d \<in> joining S c" for d
  proof -
    have "?dom \<in> set (ancestors (tpar (ftree S)) c)" using dom(1) ancestors_child [OF t assms(3)] by simp
    moreover have "d = c \<or> c \<in> set (ancestors (tpar (ftree S)) d)"
      using that by (auto simp: joining_def live(1) in_subtree_def)
    ultimately show ?thesis using ancestors_trans by blast
  qed
  have less: "?dom < d" if "d \<in> joining S c" for d using ancestors_less [OF up [OF that]] .
  have S2: "cgroups S2 d = (let x = cgroups S d; x = (if d \<in> set (live_pre S c) then x\<lparr>old_subtree_control := subtree_control x,
      old_subtree_ss_mask := subtree_ss_mask x, old_dom_cgrp := dom_cgrp x\<rparr> else x)
      in if d \<in> joining S c then x\<lparr>dom_cgrp := ?dom\<rparr> else x)" for d
    by (simp add: assms(6) join_domain_def Let_def save)
  show frame: "cg_frame (\<lambda>x. (self_online x, masks x, pops x)) S S2"
  proof (rule cg_frameI)
    show "(self_online (cgroups S2 d), masks (cgroups S2 d), pops (cgroups S2 d))
        = (self_online (cgroups S d), masks (cgroups S d), pops (cgroups S d))" for d
      by (simp add: S2 Let_def masks_def pops_def)
  qed (simp add: assms(6) join_domain_def Let_def save)
  show dom2: "dom_cgrp (cgroups S2 d) = (if d \<in> joining S c then ?dom else dom_cgrp (cgroups S d))" for d
    by (simp add: S2 Let_def)
  show "d \<in> set (live_pre S c) \<Longrightarrow> old_subtree_control (cgroups S2 d) = subtree_control (cgroups S d)
      \<and> old_subtree_ss_mask (cgroups S2 d) = subtree_ss_mask (cgroups S d) \<and> old_dom_cgrp (cgroups S2 d) = dom_cgrp (cgroups S d)"
    by (simp add: S2 Let_def)
  show th: "cgroup_is_threaded S2 d = cgroup_is_threaded S d" if "d \<noteq> c" for d
    using that less [of d] by (auto simp: cgroup_is_threaded_def dom2 joining_def)
  note D = cg_frameD [OF frame]
  have dom_in: "?dom \<in> set (tcss (ftree S))"
    using core_okD(2) [OF restingD(1) [OF I(3)]] par(1) by (auto simp: domains_ok_def cgroup_is_threaded_def)
  have sub: "d \<in> set (tcss (ftree S)) \<and> root_of S d = 0" if "d \<in> joining S c" for d
  proof -
    have "d = c \<or> cgroup_is_threaded S d" "d \<in> set (tcss (ftree S))"
      using that by (auto simp: joining_def live(1) in_subtree_def)
    then show ?thesis using core_okD(2) [OF restingD(1) [OF I(3)]] assms(4) by (auto simp: domains_ok_def)
  qed
  have "domains_ok S2"
    using core_okD(2) [OF restingD(1) [OF I(3)]] dom(2) dom_in less sub
    unfolding domains_ok_def cgroup_is_threaded_def dom2 D(1,2) by (auto split: if_splits)
  moreover have "cg_frame pops S S2" using frame by (rule cg_frame_weaken) simp
  moreover have "cgroup_is_threaded S2 d = cgroup_is_threaded S d" if "cgroup_is_populated (cgroups S d)" for d
    using that th [of d] assms(5) by blast
  ultimately show "at_rest K S2" by (intro rest_doms [OF I(2)]) simp_all
  show "forest_ok S2"
    using I(7) up unfolding forest_ok_def cgroup_is_threaded_def dom2 D(1,2) by auto
qed

lemma join_domain_fold:
  assumes "css_tree_ok (ftree S)" and "c \<in> set (tcss (ftree S))"
  shows "(let S = cgroup_save_control c S in fold (\<lambda>d S. if d = c \<or> cgroup_is_threaded S d
      then upd_cgrp d (\<lambda>x. x\<lparr>dom_cgrp := top_dom\<rparr>) S else S) (live_pre S c) S) = join_domain c top_dom S"
proof -
  let ?S1 = "cgroup_save_control c S"
  note save = save_at [OF assms]
  have tree: "ftree ?S1 = ftree S" by (simp add: save)
  have live: "set (live_pre ?S1 c) = set (live_pre S c)" "distinct (live_pre ?S1 c)"
    using set_live [of ?S1 c] set_live [of S c] assms unfolding tree by (auto simp: save)
  have "cgroup_is_threaded ?S1 d = cgroup_is_threaded S d" for d by (simp add: cgroup_is_threaded_def save)
  then show ?thesis by (simp add: fold_upd_where [OF live(2)] live(1) join_domain_def joining_def Let_def)
qed

text \<open>The masks are propagated from \<open>c\<close> and applied.\<close>

lemma join_success:
  assumes "core_inv P K S" and "c \<in> set (tcss (ftree S))" and "tpar (ftree S) c = Some parent" and "root_of S c = 0"
    and "\<not> cgroup_is_populated (cgroups S c)" and "S2 = join_domain c (dom_cgrp (cgroups S parent)) S"
    and "change_ok K S2 S5" and m5: "\<And>d. masks (cgroups S5 d) = masks (cgroups (cgroup_propagate_control P c S2) d)"
  shows "core_inv P K S5"
proof -
  note I = core_invD [OF assms(1)]
  note J = join_domain_ok [OF assms(1-6)]
  note D2 = cg_frameD [OF J(1)]
  have tree: "css_tree_ok (ftree S)" by (rule at_restD(4) [OF I(2)])
  have f2: "self_online (cgroups S2 d) = self_online (cgroups S d)" "masks (cgroups S2 d) = masks (cgroups S d)" for d
    using D2(12) [of d] by simp_all
  have tree2: "css_tree_ok (ftree S2)" "c \<in> set (tcss (ftree S2))" using tree assms(2) by (simp_all add: D2(1))
  let ?S3 = "cgroup_propagate_control P c S2"
  have fit3: "all_masks_fit P ?S3"
  proof (rule propagate_fits [OF tree2])
    fix d assume d: "d \<in> set (tcss (ftree S2))" "self_online (cgroups S2 d)" "\<not> in_subtree (ftree S2) c d"
    have "d \<notin> joining S c" using d(3) tree assms(2) by (auto simp: joining_def set_live(1) D2(1))
    then have "same_above S S2 d" by (simp add: same_above_def cgroup_parent_def D2(1-3) J(2) f2)
    then have "masks_fit P S2 d = masks_fit P S d" by (rule masks_fit_same) (rule f2(2))
    then show "masks_fit P S2 d" using I(6) d by (simp add: all_masks_fit_def D2(1) f2(1))
  qed
  have ch: "changing S2 S5" "at_rest K S5" "\<And>t. t \<in> K \<Longrightarrow> at_links S5 t = at_links S2 t \<and> on_list S5 t = on_list S2 t"
    using assms(7) by (auto simp: change_ok_def)
  note st5 = changing_steady [OF ch(1)]
  have "steady S2 ?S3" by (rule changing_steady [OF changing_frame [OF cg_frame_weaken [OF propagate_frame kept_masks]]])
  then have "steady ?S3 S5" using st5 by (simp add: steady_def)
  from all_masks_fit_steady [OF this m5] have fit: "all_masks_fit P S5" using fit3 by simp
  have "subtree_control (cgroups S5 d) \<subseteq> subtree_control (cgroups S d)" for d
    using m5 [of d] f2(2) [of d] propagate_shrinks [of S2 P c d] tree2(1)
    by (simp add: masks_eq_iff css_tree_ok_def)
  moreover have "forest_ok S5" using J(6) forest_ok_steady [OF st5] by simp
  ultimately show ?thesis
    using ch(2,3) fit st5
    by (intro core_inv_shrink [OF assms(1)])
      (simp_all add: steady_def D2(1,2) f2(1) at_links_frame [OF J(1)] on_list_frame [OF J(1)])
qed

text \<open>On an error the domains come back with the masks.\<close>

lemma join_error:
  assumes "core_inv P K S" and "c \<in> set (tcss (ftree S))" and "tpar (ftree S) c = Some parent" and "root_of S c = 0"
    and "\<not> cgroup_is_populated (cgroups S c)" and "S2 = join_domain c (dom_cgrp (cgroups S parent)) S"
    and "change_ok K S2 S5" and m5: "\<And>d. masks (cgroups S5 d) = masks (cgroups (cgroup_propagate_control P c S2) d)"
  shows "core_inv P K (cgroup_restore_control c S5)"
    and "\<And>d. masks (cgroups (cgroup_restore_control c S5) d) = masks (cgroups S d)"
    and "ftree (cgroup_restore_control c S5) = ftree S"
proof -
  note I = core_invD [OF assms(1)]
  note J = join_domain_ok [OF assms(1-6)]
  note D2 = cg_frameD [OF J(1)]
  have tree: "css_tree_ok (ftree S)" by (rule at_restD(4) [OF I(2)])
  have f2: "self_online (cgroups S2 d) = self_online (cgroups S d)" "masks (cgroups S2 d) = masks (cgroups S d)" for d
    using D2(12) [of d] by simp_all
  have ch: "changing S2 S5" "at_rest K S5" "\<And>t. t \<in> K \<Longrightarrow> at_links S5 t = at_links S2 t \<and> on_list S5 t = on_list S2 t"
    using assms(7) by (auto simp: change_ok_def)
  have kept5: "kept (cgroups S5 d) = kept (cgroups S2 d)" for d using ch(1) by (simp add: changing_def)
  have same5: "ftree S5 = ftree S" "root_of S5 = root_of S" "subsys_mask S5 = subsys_mask S"
    using ch(1) by (simp_all add: changing_def D2(1-3))
  have on5: "self_online (cgroups S5 d) = self_online (cgroups S d)" "dom_cgrp (cgroups S5 d) = dom_cgrp (cgroups S2 d)" for d
    using kept5 [of d] by (simp_all add: kept_def f2)
  have live: "set (live_pre S5 c) = set (live_pre S c)"
    using set_live(1) [of S c] set_live(1) [of S5 c] tree assms(2) by (simp add: same5 on5)
  let ?S6 = "cgroup_restore_control c S5"
  have R: "?S6 = S5\<lparr>cgroups := (\<lambda>d. if d \<in> set (live_pre S5 c)
    then (cgroups S5 d)\<lparr>subtree_control := old_subtree_control (cgroups S5 d),
      subtree_ss_mask := old_subtree_ss_mask (cgroups S5 d), dom_cgrp := old_dom_cgrp (cgroups S5 d)\<rparr>
    else cgroups S5 d)\<rparr>"
    using tree assms(2) by (intro restore_at) (simp_all add: same5)
  have old: "old_subtree_control (cgroups S5 d) = subtree_control (cgroups S d)"
    "old_subtree_ss_mask (cgroups S5 d) = subtree_ss_mask (cgroups S d)" "old_dom_cgrp (cgroups S5 d) = dom_cgrp (cgroups S d)"
    if "d \<in> set (live_pre S c)" for d
    using kept5 [of d] J(3) [OF that] by (simp_all add: kept_def)
  have at6: "self_online (cgroups ?S6 d) = self_online (cgroups S d)" "dom_cgrp (cgroups ?S6 d) = dom_cgrp (cgroups S d)"
    "pops (cgroups ?S6 d) = pops (cgroups S5 d)" for d
    using old [of d] on5 [of d] J(2) [of d] unfolding R live by (auto simp: pops_def joining_def)
  show m6: "masks (cgroups ?S6 d) = masks (cgroups S d)" for d
  proof (cases "d \<in> set (live_pre S c)")
    case True
    then show ?thesis using old unfolding R live by (simp add: masks_def)
  next
    case False
    moreover have "set (live_pre S2 c) = set (live_pre S c)"
      using set_live(1) [of S c] set_live(1) [of S2 c] tree assms(2) by (simp add: D2(1) f2)
    ultimately have "cgroups (cgroup_propagate_control P c S2) d = cgroups S2 d"
      using tree assms(2) by (intro propagate_at_outside) (simp_all add: D2(1))
    then show ?thesis using m5 [of d] False f2(2) [of d] unfolding R live by simp
  qed
  have frame: "cg_frame pops S5 ?S6" by (rule cg_frameI) (simp add: R, rule at6(3))
  note D6 = cg_frameD [OF frame]
  show tree6: "ftree ?S6 = ftree S" by (simp add: D6(1) same5)
  have steady: "steady S ?S6" by (simp add: steady_def D6(1-3) same5 at6)
  have rest5: "resting K S5" using ch(2) by (simp add: at_rest_def)
  have "at_rest K ?S6"
  proof (rule rest_doms [OF ch(2) frame])
    show "domains_ok ?S6"
      using core_okD(2) [OF restingD(1) [OF I(3)]]
      by (simp add: domains_ok_def cgroup_is_threaded_def at6 D6(1,2) same5)
    show "cgroup_is_threaded ?S6 d = cgroup_is_threaded S5 d" if "cgroup_is_populated (cgroups S5 d)" for d
    proof (cases "d = c")
      case True
      have "cgroup_has_tasks S5 e = cgroup_has_tasks S e" for e
        unfolding has_tasks_on_list [OF I(3)] has_tasks_on_list [OF rest5]
        using ch(3) at_links_frame [OF J(1)] on_list_frame [OF J(1)] by auto
      then have "cgroup_is_populated (cgroups S5 c) = cgroup_is_populated (cgroups S c)"
        using populated_iff [OF I(3) assms(2)] populated_iff [OF rest5, of c] assms(2) by (simp add: same5)
      then show ?thesis using that True assms(5) by simp
    next
      case False
      then show ?thesis using J(4) by (simp add: cgroup_is_threaded_def at6 on5)
    qed
  qed
  moreover have "all_masks_fit P ?S6" using I(6) all_masks_fit_steady [OF steady m6] by simp
  moreover have "forest_ok ?S6" using I(7) forest_ok_steady [OF steady] by simp
  ultimately show "core_inv P K ?S6"
    using ch(3) m6
    by (intro core_inv_shrink [OF assms(1)])
      (simp_all add: D6(1,2) same5 at6 masks_eq_iff at_links_frame [OF frame] on_list_frame [OF frame]
        at_links_frame [OF J(1)] on_list_frame [OF J(1)])
qed

lemma disable_core: "core_inv P K S \<Longrightarrow> core_inv P K (cgroup_apply_control_disable P c S)"
  by (rule core_inv_csses [OF _ apply_control_disable_frame])

lemma enable_threaded_core:
  assumes "core_inv P K S" and "c \<in> set (tcss (ftree S))" and "root_of S c = 0" and "cgroup_enable_threaded P c S = (ret, S')"
  shows "core_inv P K S'"
proof (cases "tpar (ftree S) c")
  case None
  then have "S' = S\<lparr>cg_crashed := True\<rparr>" using assms(4) by (auto simp: cgroup_enable_threaded_def cgroup_parent_def)
  then show ?thesis using core_inv_csses [OF assms(1) cg_frame_steps(5)] by simp
next
  case (Some parent)
  note I = core_invD [OF assms(1)]
  have tree: "css_tree_ok (ftree S)" by (rule at_restD(4) [OF I(2)])
  let ?dom = "dom_cgrp (cgroups S parent)"
  let ?no = "cgroup_is_populated (cgroups S c) \<or> subtree_control (cgroups S c) - cgrp_dfl_threaded_ss_mask P \<noteq> {}"
  let ?bad = "\<not> cgroup_is_valid_domain P S ?dom \<or> \<not> cgroup_can_be_thread_root P S ?dom"
  obtain S2 where S2: "S2 = join_domain c ?dom S" by blast
  obtain r S5 where 5: "cgroup_apply_control P c S2 = (r, S5)" by (rule prod.exhaust)
  let ?S6 = "if r = 0 then upd_cgrp parent (\<lambda>x. x\<lparr>nr_threaded_children := nr_threaded_children x + 1\<rparr>) S5 else S5"
  have run: "cgroup_enable_threaded P c S = (if cgroup_is_threaded S c then (0, S) else if ?no then (- EOPNOTSUPP, S)
      else if ?bad then (- EOPNOTSUPP, S) else (r, cgroup_finalize_control P c r ?S6))"
    using join_domain_fold [OF tree assms(2), of ?dom, folded S2] 5
    unfolding cgroup_enable_threaded_def cgroup_parent_def Some option.case Let_def by simp
  show ?thesis
  proof (cases "cgroup_is_threaded S c \<or> ?no \<or> ?bad")
    case True
    then have "S' = S" using assms(4) unfolding run by (auto split: if_splits)
    then show ?thesis using assms(1) by simp
  next
    case False
    then have idle: "\<not> cgroup_is_populated (cgroups S c)" and S': "S' = cgroup_finalize_control P c r ?S6"
      using assms(4) unfolding run by (auto split: if_splits)
    note J = join_domain_ok [OF assms(1,2) Some assms(3) idle S2]
    note A = apply_control_ok [OF J(5) 5]
    show ?thesis
    proof (cases "r = 0")
      case True
      have "core_inv P K S5" by (rule join_success [OF assms(1,2) Some assms(3) idle S2 A])
      then have "core_inv P K ?S6"
        using True core_inv_upd [of P K S5 "\<lambda>x. x\<lparr>nr_threaded_children := nr_threaded_children x + 1\<rparr>" parent]
        by (simp add: counts_masks_def popc_def masks_def)
      then show ?thesis using disable_core True by (simp add: S' cgroup_finalize_control_def)
    next
      case False
      note E = join_error [OF assms(1,2) Some assms(3) idle S2 A]
      let ?S7 = "cgroup_restore_control c S5"
      have "cgroup_propagate_control P c ?S7 = ?S7"
      proof (rule propagate_idle)
        show "tree_ok (tpar (ftree ?S7))" using tree by (simp add: E(3) css_tree_ok_def)
        show "masks_fit P ?S7 d" if "d \<in> set (live_pre ?S7 c)" for d
          using that core_invD(6) [OF E(1)] tree assms(2) set_live(1) [of ?S7 c]
          by (auto simp: E(3) all_masks_fit_def in_subtree_def)
      qed
      then show ?thesis using disable_core [OF E(1)] False by (simp add: S' cgroup_finalize_control_def)
    qed
  qed
qed

end
