(* ===== verification/CgroupCore_Steps.thy ===== *)
theory CgroupCore_Steps
  imports CgroupThreads
begin

section \<open>The states that the operations reach\<close>

text \<open>
  A state is the set of the tasks that hold a reference to a css_set and the state of the core.  The
  guards are what the callers have: a task is forked by one that runs (and is on a list), it exits
  after \<open>PF_EXITING\<close> is set, the handlers of the files find a live cgroup
  (\<open>cgroup_kn_lock_live\<close>), \<open>cgroup.type\<close> is a file of the default hierarchy, and a new cgroup has a
  new number.
\<close>

type_synonym core_state = "nat set \<times> cgsys"

inductive core_step :: "subsystems \<Rightarrow> core_state \<Rightarrow> core_state \<Rightarrow> bool" for P :: subsystems where
  fork: "t \<notin> K \<Longrightarrow> core_step P (K, S) (K, cgroup_fork t S)"
| post_fork: "t \<notin> K \<Longrightarrow> task_css_set S t = init_css_set \<Longrightarrow> parent \<in> K \<Longrightarrow> on_list S parent
    \<Longrightarrow> core_step P (K, S) (insert t K, cgroup_post_fork parent t S)"
| set_exiting: "core_step P (K, S) (K, start_exit t S)"
| exit: "t \<in> K \<Longrightarrow> exiting S t \<Longrightarrow> t \<in> set (cset_tasks (cset S (task_css_set S t)))
    \<Longrightarrow> core_step P (K, S) (K, cgroup_exit t S)"
| exit_unlisted: "t \<notin> K \<Longrightarrow> task_css_set S t = init_css_set
    \<Longrightarrow> core_step P (K, S) (insert t K, cgroup_exit t S)"
| release: "t \<in> K \<Longrightarrow> t \<in> set (dying_tasks (cset S (task_css_set S t)))
    \<Longrightarrow> core_step P (K, S) (K, cgroup_release t S)"
| free: "t \<in> K \<Longrightarrow> \<not> cg_listed S t \<Longrightarrow> core_step P (K, S) (K - {t}, cgroup_free t S)"
| attach: "dst \<in> set (tcss (ftree S)) \<Longrightarrow> self_online (cgroups S dst) \<Longrightarrow> root_of S dst \<in> set (hierarchies S)
    \<Longrightarrow> set (threads S leader threadgroup) \<subseteq> K
    \<Longrightarrow> cgroup_attach_task P dst leader threadgroup S = (ret, S')
    \<Longrightarrow> core_step P (K, S) (K, S')"
| subtree_control: "c \<in> set (tcss (ftree S)) \<Longrightarrow> cgroup_subtree_control_write P c buf nbytes S = (ret, S')
    \<Longrightarrow> core_step P (K, S) (K, S')"
| type: "c \<in> set (tcss (ftree S)) \<Longrightarrow> root_of S c = 0 \<Longrightarrow> cgroup_type_write P c buf nbytes S = (ret, S')
    \<Longrightarrow> core_step P (K, S) (K, S')"
| mkdir: "parent \<in> set (tcss (ftree S)) \<Longrightarrow> \<forall>d \<in> set (tcss (ftree S)). d < c
    \<Longrightarrow> cgroup_mkdir P parent c name in_limits S = (ret, S') \<Longrightarrow> core_step P (K, S) (K, S')"
| rmdir: "c \<in> set (tcss (ftree S)) \<Longrightarrow> cgroup_rmdir P c S = (ret, S') \<Longrightarrow> core_step P (K, S) (K, S')"
| killed: "core_step P (K, S) (K, css_killed k S)"
| released: "releasable P S c \<Longrightarrow> core_step P (K, S) (K, cgroup_released c S)"

lemma life_held:
  assumes "held S"
  shows "held (cgroup_fork t S)" and "held (start_exit t S)" and "held (cgroup_post_fork parent t S)"
    and "held (cgroup_exit t S)" and "held (cgroup_release t S)" and "held (cgroup_free t S)"
proof -
  show "held (cgroup_fork t S)" "held (start_exit t S)"
    using assms by (simp_all add: held_def cgroup_fork_def start_exit_def)
  show "held (cgroup_free t S)" unfolding cgroup_free_def by (rule held_put [OF assms])
  show "held (cgroup_release t S)"
    unfolding cgroup_release_def by (rule held_upd [OF assms]) (simp add: unlist_task_def)
  show "held (cgroup_exit t S)"
    unfolding cgroup_exit_def Let_def using assms by (simp add: held_get held_upd held_move_task)
  show "held (cgroup_post_fork parent t S)"
    unfolding cgroup_post_fork_def Let_def using assms by (simp add: held_get held_upd held_move_task)
qed

lemma core_step_inv: "core_step P x y \<Longrightarrow> (case x of (K, S) \<Rightarrow> core_inv P K S) \<Longrightarrow> (case y of (K, S) \<Rightarrow> core_inv P K S)"
proof (induction rule: core_step.induct)
  case (attach dst S leader threadgroup K ret S')
  then show ?case using attach_core by simp
next
  case (subtree_control c S buf nbytes ret S' K)
  then show ?case using subtree_control_core by simp
next
  case (type c S buf nbytes ret S' K)
  obtain r S1 where 1: "cgroup_enable_threaded P c S = (r, S1)" by (rule prod.exhaust)
  have "S' = S \<or> S' = S1" using type(3) 1 by (auto simp: cgroup_type_write_def Let_def split: if_splits)
  then show ?case using enable_threaded_core [OF _ type(1,2) 1] type.prems by auto
next
  case (mkdir parent S c name in_limits ret S' K)
  then show ?case using mkdir_core by simp
next
  case (rmdir c S ret S' K)
  then show ?case using rmdir_core by simp
next
  case (killed K S k)
  then show ?case using css_killed_core by simp
next
  case (released S c K)
  then show ?case using released_core by simp
next
  case (fork t K S)
  then show ?case
    using core_inv_no_more [OF _ life_no_more(1) _ life_held(1)] fork_ok core_invD(3,4) by simp
next
  case (post_fork t K S parent)
  then show ?case
    using core_inv_no_more [OF _ post_fork_no_more _ life_held(3)] post_fork_ok(1) core_invD(3,4) by simp
next
  case (set_exiting K S t)
  then show ?case
    using core_inv_no_more [OF _ life_no_more(2) _ life_held(2)] start_exit_ok core_invD(3,4) by simp
next
  case (exit t K S)
  then show ?case
    using core_inv_no_more [OF _ life_no_more(3) _ life_held(4)] exit_ok(1) core_invD(3,4) by simp
next
  case (exit_unlisted t K S)
  then show ?case
    using core_inv_no_more [OF _ life_no_more(3) _ life_held(4)] exit_unlisted_ok core_invD(3,4) by simp
next
  case (release t K S)
  then show ?case
    using core_inv_no_more [OF _ life_no_more(4) _ life_held(5)] release_ok_rest(1) core_invD(3,4) by simp
next
  case (free t K S)
  then show ?case
    using core_inv_no_more [OF _ life_no_more(5) _ life_held(6)] cgroup_free_ok core_invD(3,4) by simp
qed

interpretation core: kept_invariant "core_step P" "\<lambda>(K, S). core_inv P K S" for P :: subsystems
  by unfold_locales (rule core_step_inv)

end
