(* ===== verification/CgroupCore_Props.thy ===== *)
theory CgroupCore_Props
  imports CgroupCore_Steps
begin

section \<open>Properties of tasks, cgroups and css_sets\<close>

subsection \<open>An example\<close>

text \<open>Two controllers, the first of them for threads too; the root of the default hierarchy with a task,
  and a cgroup below it with another one.\<close>

definition demo_subsystems :: subsystems where
  "demo_subsystems = \<lparr>CGROUP_SUBSYS_COUNT = 2, ss_name = (\<lambda>i. if i = 0 then ''cpu'' else ''memory''),
     ssid_enabled = (\<lambda>i. True), depends_on = (\<lambda>i. {}), implicit_on_dfl = (\<lambda>i. False),
     cgrp_dfl_inhibit_ss_mask = {}, cgrp_dfl_implicit_ss_mask = {}, cgrp_dfl_threaded_ss_mask = {0},
     has_can_attach = (\<lambda>i. False),
     has_attach = (\<lambda>i. True), has_cancel_attach = (\<lambda>i. False)\<rparr>"

definition demo_core :: cgsys where
  "demo_core = \<lparr>ftree = \<lparr>tpar = [1 \<mapsto> 0], tcss = [0, 1], released = (\<lambda>c. False)\<rparr>,
     root_of = (\<lambda>c. 0), subsys_mask = (\<lambda>r. {0, 1}),
     cgroups = (\<lambda>c. if c = 0 then (new_cgroup 0)\<lparr>has_kn := True, subtree_control := {0, 1}, subtree_ss_mask := {0, 1},
         nr_populated_csets := 1, nr_populated_domain_children := 1, subsys := (\<lambda>i. Some i)\<rparr>
       else if c = 1 then (new_cgroup 1)\<lparr>has_kn := True, subtree_control := {0}, subtree_ss_mask := {0},
         nr_populated_csets := 1, subsys := (\<lambda>i. Some (i + 2))\<rparr>
       else new_cgroup c),
     css_obj = (\<lambda>k. \<lparr>css_cgroup = k div 2, css_ssid = k mod 2, css_parent = (if k < 2 then None else Some (k - 2)),
       CSS_ONLINE = True, CSS_DYING = False, CSS_VISIBLE = True, online_cnt = (if k < 2 then 2 else 1)\<rparr>),
     next_css = 4, css_set_table = [0, 1],
     cset = (\<lambda>s. (new_css_set s (\<lambda>i. Some (i + 2 * s)))\<lparr>cgrp_links := [s], dfl_cgrp := s, cset_tasks := [s + 1],
       nr_tasks := 1, refcount := (if s = 0 then 2 else 1)\<rparr>),
     next_cset = 2, cgroup_root_count = 1, task_css_set = (\<lambda>t. if t = 2 then 1 else 0), exiting = (\<lambda>t. False),
     thread_group = (\<lambda>t. [t]), answers = (\<lambda>n. 0), asked = 0, cg_crashed = False, cgcalls = []\<rparr>"

lemma demo_core_inv: "core_inv demo_subsystems {1, 2} demo_core"
proof -
  note d = demo_core_def demo_subsystems_def new_css_set_def new_cgroup_def
  have tree: "css_tree_ok (ftree demo_core)" by (auto simp: d css_tree_ok_def tree_ok_def)
  have tasks: "tasks_of {1, 2} demo_core s = (if s = 0 then {1} else if s = 1 then {2} else {})" for s
    by (auto simp: d tasks_of_def)
  have threaded: "threaded_csets demo_core s = {}" for s by (auto simp: d threaded_csets_def)
  have csets: "csets_ok {1, 2} (mg_pins mgctx_init) demo_core"
    using tree unfolding csets_ok_def refs_def lists_ok_def tasks threaded
    by (simp add: d init_css_set_def hierarchies_def cset_wf_def all_tasks_def mg_pins_def mgctx_init_def)
  have pop: "css_set_populated demo_core s" for s by (simp add: d css_set_populated_def)
  have kids: "set (kids (ftree demo_core) c) = (if c = 0 then {1} else {})" for c
    by (auto simp: kids_def children_def d split: if_splits)
  have "populated_kids demo_core c th = (if c = 0 \<and> \<not> th then {1} else {})" for c th
    unfolding populated_kids_def kids by (auto simp: d cgroup_is_populated_def cgroup_is_threaded_def)
  then have "nr_populated_kids (cgroups demo_core c) th = int (card (populated_kids demo_core c th))" for c th
    by (simp add: d nr_populated_kids_def)
  moreover have "nr_populated_csets (cgroups demo_core c) = int (card (csets_of (css_set_populated demo_core) demo_core c))" for c
  proof -
    have "csets_of (css_set_populated demo_core) demo_core c = (if c < 2 then {c} else {})"
      unfolding csets_of_def using pop by (auto simp: d)
    then show ?thesis by (auto simp: d)
  qed
  ultimately have "counted (css_set_populated demo_core) demo_core"
    by (simp add: counted_def kids_counted_def csets_counted_def)
  moreover have "domains_ok demo_core" by (auto simp: domains_ok_def d cgroup_is_threaded_def)
  moreover have "tasks_counted demo_core s" for s by (simp add: tasks_counted_def d)
  ultimately have "resting {1, 2} demo_core"
    using csets by (simp add: resting_def core_ok_def unmarked_def) (simp add: d mg_pins_def mgctx_init_def init_css_set_def)
  moreover have "held demo_core" by (simp add: held_def d)
  moreover have "all_masks_fit demo_subsystems demo_core"
  proof -
    have "cgroup_calc_subtree_ss_mask demo_subsystems {0, 1} {0, 1} = {0, 1}"
      "cgroup_calc_subtree_ss_mask demo_subsystems {0} {0, 1} = {0}" by code_simp+
    then show ?thesis
      by (simp add: all_masks_fit_def masks_fit_def cgroup_control_def cgroup_ss_mask_def cgroup_parent_def d
          cgroup_is_threaded_def cgroup_on_dfl_def)
  qed
  moreover have "online_above demo_core" by (simp add: online_above_def d)
  moreover have "no_internal_tasks demo_subsystems demo_core" by (auto simp: no_internal_tasks_def d)
  moreover have "forest_ok demo_core" by (simp add: forest_ok_def d cgroup_is_threaded_def)
  ultimately show ?thesis by (simp add: core_inv_def control_rest_def at_rest_def)
qed

lemma demo_threads: "threads demo_core 1 True = [1]" "threads demo_core 1 False = [1]"
  by (simp_all add: threads_def demo_core_def)

subsection \<open>All reachable states\<close>

lemma core_reachable:
  assumes "core_inv P K0 S0" and "(core_step P)\<^sup>*\<^sup>* (K0, S0) (K, S)"
  shows "core_inv P K S"
  using core.reachable_inv [OF assms(2)] assms(1) by simp

text \<open>C5: the reference count of every css_set is exact: whatever tasks fork, exit, are freed or are
  moved, cgroups made, removed or made threaded, and controllers given to the children of a
  cgroup, \<open>refcount\<close> is the number of the tasks that point to the css_set and of the css_sets of threaded cgroups whose domain
  it is, and one more for the first css_set; it is never zero while the css_set is in
  \<open>css_set_table\<close>, and every task points to a css_set that is there.\<close>

theorem css_set_refcounts_exact:
  assumes "core_inv P K0 S0" and "(core_step P)\<^sup>*\<^sup>* (K0, S0) (K, S)"
  shows "(\<forall>s \<in> set (css_set_table S). 0 < refcount (cset S s) \<and> refcount (cset S s) =
      int (card {t \<in> K. task_css_set S t = s} + card {x \<in> set (css_set_table S). dom_cset (cset S x) = s \<and> x \<noteq> s}
        + (if s = init_css_set then 1 else 0)))
    \<and> (\<forall>t \<in> K. task_css_set S t \<in> set (css_set_table S))"
proof -
  note I = core_invD [OF core_reachable [OF assms]]
  note cs = csets_okD [OF restingD(2) [OF I(3)]]
  show ?thesis
    using I(4) cs(6,10) by (auto simp: held_def refs_def tasks_of_def threaded_csets_def mg_pins_def mgctx_init_def)
qed

text \<open>The invariant holds in the example, and its task forks.\<close>

lemma demo_step: "core_step demo_subsystems ({1, 2}, demo_core) ({1, 2}, cgroup_fork 3 demo_core)"
  by (rule core_step.fork) simp

lemma demo_reach: "(core_step demo_subsystems)\<^sup>*\<^sup>* ({1, 2}, demo_core)
    ({1, 2, 3}, cgroup_post_fork 1 3 (cgroup_fork 3 demo_core))"
proof -
  let ?S = "cgroup_fork 3 demo_core"
  have "core_step demo_subsystems ({1, 2}, ?S) (insert 3 {1, 2}, cgroup_post_fork 1 3 ?S)"
    by (rule core_step.post_fork) (simp_all add: cgroup_fork_def on_list_def demo_core_def init_css_set_def)
  then show ?thesis using demo_step by (simp add: insert_commute converse_rtranclp_into_rtranclp r_into_rtranclp)
qed

theorem css_set_refcounts_exact_witness:
  "(let S = cgroup_post_fork 1 3 (cgroup_fork 3 demo_core) in
      css_set_table S = [0, 1] \<and> refcount (cset S 0) = 3 \<and> task_css_set S 3 = 0)"
proof -
  obtain S where S: "S = cgroup_post_fork 1 3 (cgroup_fork 3 demo_core)" by blast
  have eq: "css_set_table S = [0, 1]" "dom_cset (cset S 0) = 0" "dom_cset (cset S 1) = 1"
    "task_css_set S 1 = 0" "task_css_set S 2 = 1" "task_css_set S 3 = 0"
    unfolding S by code_simp+
  have "{t \<in> {1, 2, 3}. task_css_set S t = 0} = {1, 3}" "{x \<in> set [0, 1]. dom_cset (cset S x) = 0 \<and> x \<noteq> 0} = {}"
    using eq by auto
  then have "card {t \<in> {1, 2, 3}. task_css_set S t = 0} + card {x \<in> set [0, 1]. dom_cset (cset S x) = 0 \<and> x \<noteq> 0} = 2"
    by simp
  then have "refcount (cset S 0) = 3"
    using css_set_refcounts_exact [OF demo_core_inv demo_reach] unfolding S [symmetric] eq(1) by (simp add: init_css_set_def)
  then show ?thesis unfolding S [symmetric] Let_def using eq by simp
qed

text \<open>C16: the counters of tasks are exact in every reachable state: \<open>nr_tasks\<close> of a css_set is the number
  of its live tasks, \<open>nr_populated_csets\<close> of a cgroup that of the css_sets with tasks that are linked
  to it, the two counters of populated children that of the children, threaded or not, that are
  populated, and every task is on at most one list, that of its own css_set.\<close>

theorem cgroup_counters_exact:
  assumes "core_inv P K0 S0" and "(core_step P)\<^sup>*\<^sup>* (K0, S0) (K, S)"
  shows "(\<forall>s \<in> set (css_set_table S). nr_tasks (cset S s) = int (length (cset_tasks (cset S s)))
      \<and> distinct (cset_tasks (cset S s) @ dying_tasks (cset S s))
      \<and> set (cset_tasks (cset S s) @ dying_tasks (cset S s)) \<subseteq> {t \<in> K. task_css_set S t = s})
    \<and> nr_populated_csets (cgroups S c) = int (card {s \<in> set (css_set_table S).
        c \<in> set (cgrp_links (cset S s)) \<and> cset_tasks (cset S s) \<noteq> []})
    \<and> nr_populated_domain_children (cgroups S c) = int (card {d \<in> set (tcss (ftree S)). tpar (ftree S) d = Some c
        \<and> cgroup_is_populated (cgroups S d) \<and> \<not> cgroup_is_threaded S d})
    \<and> nr_populated_threaded_children (cgroups S c) = int (card {d \<in> set (tcss (ftree S)). tpar (ftree S) d = Some c
        \<and> cgroup_is_populated (cgroups S d) \<and> cgroup_is_threaded S d})"
proof -
  note I = core_invD [OF core_reachable [OF assms]]
  note R = restingD [OF I(3)]
  note ok = core_okD [OF R(1)] and cs = csets_okD [OF R(2)]
  have kids: "nr_populated_kids (cgroups S c) th = int (card (populated_kids S c th))" for th
    using ok(3) by (simp add: counted_def kids_counted_def)
  have "populated_kids S c th = {d \<in> set (tcss (ftree S)). tpar (ftree S) d = Some c
      \<and> cgroup_is_populated (cgroups S d) \<and> cgroup_is_threaded S d = th}" for th
    by (auto simp: populated_kids_def in_kids [OF cs(1)])
  note kids' = kids [unfolded this]
  have "csets_of (css_set_populated S) S c = {s \<in> set (css_set_table S).
      c \<in> set (cgrp_links (cset S s)) \<and> cset_tasks (cset S s) \<noteq> []}"
    using R(4) by (auto simp: csets_of_def css_set_populated_def)
  moreover have "nr_populated_csets (cgroups S c) = int (card (csets_of (css_set_populated S) S c))"
    using ok(3) by (simp add: counted_def csets_counted_def)
  moreover have "nr_tasks (cset S s) = int (length (cset_tasks (cset S s)))
      \<and> distinct (cset_tasks (cset S s) @ dying_tasks (cset S s))
      \<and> set (cset_tasks (cset S s) @ dying_tasks (cset S s)) \<subseteq> {t \<in> K. task_css_set S t = s}"
    if "s \<in> set (css_set_table S)" for s
    using ok(4) [OF that] cs(9) [OF that] R(4) [OF that]
    by (auto simp: tasks_counted_def lists_ok_def all_tasks_def tasks_of_def)
  ultimately show ?thesis
    using kids' [of True] kids' [of False] by (simp add: nr_populated_kids_def)
qed

theorem cgroup_counters_exact_witness:
  "(let S = cgroup_post_fork 1 3 (cgroup_fork 3 demo_core) in
      nr_populated_csets (cgroups S 0) = 1 \<and> nr_tasks (cset S 0) = 2)"
proof -
  obtain S where S: "S = cgroup_post_fork 1 3 (cgroup_fork 3 demo_core)" by blast
  have eq: "css_set_table S = [0, 1]" "cset_tasks (cset S 0) = [1, 3]" "cgrp_links (cset S 0) = [0]"
    "cgrp_links (cset S 1) = [1]"
    unfolding S by code_simp+
  have "{s \<in> set [0, 1]. 0 \<in> set (cgrp_links (cset S s)) \<and> cset_tasks (cset S s) \<noteq> []} = {0}" using eq by auto
  then show ?thesis
    using cgroup_counters_exact [OF demo_core_inv demo_reach, of 0] unfolding S [symmetric] Let_def eq(1)
    by (simp add: eq)
qed

text \<open>C3: no internal tasks: in every reachable state a cgroup of the default hierarchy below its root,
  which has a task that has not exited, gives its children only controllers that are for threads
  too; whatever order tasks are moved and controllers enabled in.\<close>

theorem no_internal_tasks_reachable:
  assumes "core_inv P K0 S0" and "(core_step P)\<^sup>*\<^sup>* (K0, S0) (K, S)" and "c \<in> set (tcss (ftree S))"
    and "root_of S c = 0" and "tpar (ftree S) c = Some p"
    and "t \<in> K" and "t \<in> set (cset_tasks (cset S (task_css_set S t)))" and "c \<in> set (cgrp_links (cset S (task_css_set S t)))"
  shows "subtree_control (cgroups S c) \<subseteq> cgrp_dfl_threaded_ss_mask P"
proof -
  note I = core_invD [OF core_reachable [OF assms(1,2)]]
  have "cgroup_has_tasks S c"
    using assms(6-8) unfolding has_tasks_on_list [OF I(3)] by (auto simp: on_list_def at_links_def)
  then show ?thesis using I(5) assms(3-5) by (simp add: no_internal_tasks_def cgroup_on_dfl_def)
qed

theorem no_internal_tasks_reachable_witness:
  "subtree_control (cgroups demo_core 1) = {0} \<and> subtree_control (cgroups demo_core 1) \<subseteq> cgrp_dfl_threaded_ss_mask demo_subsystems"
proof -
  have "subtree_control (cgroups demo_core 1) \<subseteq> cgrp_dfl_threaded_ss_mask demo_subsystems"
    by (rule no_internal_tasks_reachable [OF demo_core_inv rtranclp.rtrancl_refl, where p = 0 and t = 2])
      (simp_all add: demo_core_def new_css_set_def)
  then show ?thesis by (simp add: demo_core_def new_cgroup_def)
qed

text \<open>C17: a cgroup is populated, as \<open>cgroup.events\<close> says and as \<open>rmdir\<close> asks, exactly when in its subtree
  there is a task that has not exited: the sum of its three counters is zero otherwise, in every
  reachable state.\<close>

theorem cgroup_populated_exact:
  assumes "core_inv P K0 S0" and "(core_step P)\<^sup>*\<^sup>* (K0, S0) (K, S)" and "c \<in> set (tcss (ftree S))"
  shows "cgroup_is_populated (cgroups S c) \<longleftrightarrow> (\<exists>t \<in> K. t \<in> set (cset_tasks (cset S (task_css_set S t)))
    \<and> (\<exists>d \<in> set (cgrp_links (cset S (task_css_set S t))). in_subtree (ftree S) c d))"
proof -
  note I = core_invD [OF core_reachable [OF assms(1,2)]]
  note R = restingD [OF I(3)]
  have "on_list S t \<longleftrightarrow> t \<in> set (cset_tasks (cset S (task_css_set S t)))" if "t \<in> K" for t
    using R(4) [OF csets_okD(6) [OF R(2) that]] by (simp add: on_list_def)
  then show ?thesis
    unfolding populated_iff [OF I(3) assms(3)] has_tasks_on_list [OF I(3)] at_links_def by blast
qed

theorem cgroup_populated_exact_witness:
  "nr_populated_csets (cgroups demo_core 1) = 1 \<and> cgroup_is_populated (cgroups demo_core 1)"
proof -
  have "in_subtree (ftree demo_core) 1 1" by (simp add: in_subtree_def demo_core_def)
  moreover have "2 \<in> set (cset_tasks (cset demo_core (task_css_set demo_core 2)))"
    "cgrp_links (cset demo_core (task_css_set demo_core 2)) = [1]" by (simp_all add: demo_core_def)
  moreover have "1 \<in> set (tcss (ftree demo_core))" by (simp add: demo_core_def)
  ultimately have "cgroup_is_populated (cgroups demo_core 1)"
    using cgroup_populated_exact [OF demo_core_inv rtranclp.rtrancl_refl, of 1] by auto
  then show ?thesis by (simp add: demo_core_def new_cgroup_def)
qed

text \<open>C19: controllers go from the top down: in every reachable state an online cgroup has an online
  parent and gives its children only controllers that the parent gives to it, of a threaded
  cgroup only those for threads, and of the root those that the hierarchy has.\<close>

theorem controllers_top_down:
  assumes "core_inv P K0 S0" and "(core_step P)\<^sup>*\<^sup>* (K0, S0) (K, S)" and "c \<in> set (tcss (ftree S))"
    and "self_online (cgroups S c)"
  shows "case tpar (ftree S) c of
      None \<Rightarrow> subtree_control (cgroups S c) \<subseteq> subsys_mask S (root_of S c)
    | Some p \<Rightarrow> self_online (cgroups S p) \<and> subtree_control (cgroups S c) \<subseteq> subtree_control (cgroups S p)
        \<and> (dom_cgrp (cgroups S c) \<noteq> c \<longrightarrow> subtree_control (cgroups S c) \<subseteq> cgrp_dfl_threaded_ss_mask P)"
proof -
  note I = core_invD [OF core_reachable [OF assms(1,2)]]
  have "subtree_control (cgroups S c) \<subseteq> cgroup_control P S c"
    using I(6) assms(3,4) by (simp add: all_masks_fit_def masks_fit_def)
  then show ?thesis
    using I(1) assms(3,4)
    by (auto simp: cgroup_control_def cgroup_parent_def cgroup_is_threaded_def control_rest_def online_above_def
        Let_def split: option.splits if_splits)
qed

theorem controllers_top_down_witness:
  "subtree_control (cgroups demo_core 1) = {0} \<and> subtree_control (cgroups demo_core 1) \<subseteq> subtree_control (cgroups demo_core 0)"
proof -
  have "case tpar (ftree demo_core) 1 of
      None \<Rightarrow> subtree_control (cgroups demo_core 1) \<subseteq> subsys_mask demo_core (root_of demo_core 1)
    | Some p \<Rightarrow> self_online (cgroups demo_core p) \<and> subtree_control (cgroups demo_core 1) \<subseteq> subtree_control (cgroups demo_core p)
        \<and> (dom_cgrp (cgroups demo_core 1) \<noteq> 1 \<longrightarrow> subtree_control (cgroups demo_core 1) \<subseteq> cgrp_dfl_threaded_ss_mask demo_subsystems)"
    by (rule controllers_top_down [OF demo_core_inv rtranclp.rtrancl_refl]) (simp_all add: demo_core_def new_cgroup_def)
  then show ?thesis by (simp add: demo_core_def new_cgroup_def)
qed

end
