(* ===== verification/CgroupCore_Ops.thy ===== *)
theory CgroupCore_Ops
  imports CgroupCore_Props
begin

section \<open>What the operations on tasks and controllers do\<close>

subsection \<open>css_sets\<close>

text \<open>C18: \<open>find_css_set\<close> gives a well-formed css_set: from a css_set of the table and a cgroup it
  returns, found or new, a css_set of the table with exactly one cgroup of every hierarchy, all of
  them existing, which is the cgroup asked for in its hierarchy and the old one in the others,
  with the effective css of every controller there, and holds one more reference to it; every
  css_set that was in the table keeps its cgroups and its tasks.  On an error the references are
  those of before.\<close>

theorem find_css_set_well_formed:
  assumes "core_inv P K S" and "old \<in> set (css_set_table S)" and "c \<in> set (tcss (ftree S))"
    and "root_of S c \<in> set (hierarchies S)" and "find_css_set P old c S = (r, S')"
  shows "(\<forall>x \<in> set (css_set_table S). x \<in> set (css_set_table S')
      \<and> cgrp_links (cset S' x) = cgrp_links (cset S x) \<and> cset_tasks (cset S' x) = cset_tasks (cset S x))
    \<and> (\<forall>x \<in> set (css_set_table S'). refcount (cset S' x) = int (card {t \<in> K. task_css_set S' t = x}
        + card {y \<in> set (css_set_table S'). dom_cset (cset S' y) = x \<and> y \<noteq> x}
        + (if x = init_css_set then 1 else 0) + (if r = Some x then 1 else 0)))
    \<and> (case r of None \<Rightarrow> True | Some s \<Rightarrow> s \<in> set (css_set_table S') \<and> c \<in> set (cgrp_links (cset S' s))
        \<and> set (cgrp_links (cset S' s)) \<subseteq> set (tcss (ftree S')) \<and> map (root_of S') (cgrp_links (cset S' s)) = hierarchies S'
        \<and> cgrp_links (cset S' s) = map (\<lambda>d. if root_of S d = root_of S c then c else d) (cgrp_links (cset S old))
        \<and> (\<forall>i < CGROUP_SUBSYS_COUNT P. cset_subsys (cset S' s) i = css_template P S old c i))"
proof -
  note I = core_invD [OF assms(1)]
  note R = restingD [OF I(3)]
  have find: "find_ok K (mg_pins mgctx_init) P old c S (r, S')"
    using find_css_set_ok [OF R(2) core_okD(2) [OF R(1)] assms(2,3) core_okD(5) [OF R(1)] pins_new [OF R(1)], of P]
    by (simp add: assms(5))
  then have grow: "csets_grow S S'" by (simp add: find_ok_def)
  have "x \<in> set (css_set_table S') \<and> cgrp_links (cset S' x) = cgrp_links (cset S x) \<and> cset_tasks (cset S' x) = cset_tasks (cset S x)"
    if "x \<in> set (css_set_table S)" for x
    using grow that same_but_refsD [of "cset S' x" "cset S x"] by (auto simp: csets_grow_def)
  moreover have pins: "mg_pins mgctx_init x = (if x = init_css_set then 1 else 0)" for x
    by (simp add: mg_pins_def mgctx_init_def)
  have ok: "csets_ok K (case r of None \<Rightarrow> mg_pins mgctx_init | Some s \<Rightarrow> (mg_pins mgctx_init)(s := mg_pins mgctx_init s + 1)) S'"
    using find by (auto simp: find_ok_def split: option.splits)
  have "refcount (cset S' x) = int (card {t \<in> K. task_css_set S' t = x}
        + card {y \<in> set (css_set_table S'). dom_cset (cset S' y) = x \<and> y \<noteq> x}
        + (if x = init_css_set then 1 else 0) + (if r = Some x then 1 else 0))" if "x \<in> set (css_set_table S')" for x
    using csets_okD(10) [OF ok that] by (auto simp: refs_def tasks_of_def threaded_csets_def pins split: option.splits)
  moreover
  let ?wf = "\<lambda>s. s \<in> set (css_set_table S') \<and> c \<in> set (cgrp_links (cset S' s))
        \<and> set (cgrp_links (cset S' s)) \<subseteq> set (tcss (ftree S')) \<and> map (root_of S') (cgrp_links (cset S' s)) = hierarchies S'
        \<and> cgrp_links (cset S' s) = map (\<lambda>d. if root_of S d = root_of S c then c else d) (cgrp_links (cset S old))
        \<and> (\<forall>i < CGROUP_SUBSYS_COUNT P. cset_subsys (cset S' s) i = css_template P S old c i)"
  have "?wf s" if r: "r = Some s" for s
  proof -
    have found: "found_ok P old c S s S'" using find by (simp add: find_ok_def r)
    then have s: "s \<in> set (css_set_table S')" and links: "cgrp_links (cset S' s) = new_links S old c"
      and csses: "same_subsys P (css_template P S old c) (cset_subsys (cset S' s))" by (simp_all add: found_ok_def)
    have "root_of S c \<in> set (map (root_of S) (cgrp_links (cset S old)))"
      using csets_okD(8) [OF R(2) assms(2)] assms(4) by (simp add: cset_wf_def)
    then have "c \<in> set (new_links S old c)" by (auto simp: new_links_def)
    then show ?thesis
      using s links csses csets_okD(8) [OF ok s] by (auto simp: cset_wf_def new_links_def same_subsys_def list_all_iff)
  qed
  note wf = this
  have "case r of None \<Rightarrow> True | Some s \<Rightarrow> ?wf s"
  proof (cases r)
    case None
    show ?thesis unfolding None option.case by (rule TrueI)
  next
    case (Some s)
    show ?thesis unfolding Some option.case by (rule wf [OF Some])
  qed
  ultimately show ?thesis by blast
qed

theorem find_css_set_well_formed_witness:
  "(let (r, S) = find_css_set demo_subsystems 0 1 demo_core in
      r = Some 1 \<and> refcount (cset S 1) = 2 \<and> cgrp_links (cset S 1) = [1] \<and> cset_subsys (cset S 1) 0 = Some 2)"
proof -
  obtain r S where S: "find_css_set demo_subsystems 0 1 demo_core = (r, S)" by (rule prod.exhaust)
  have r: "r = Some 1"
  proof -
    have "fst (find_css_set demo_subsystems 0 1 demo_core) = Some 1" by code_simp
    then show ?thesis unfolding S by simp
  qed
  have old: "0 \<in> set (css_set_table demo_core)" "1 \<in> set (tcss (ftree demo_core))"
    "root_of demo_core 1 \<in> set (hierarchies demo_core)" by (simp_all add: demo_core_def hierarchies_def init_css_set_def)
  have "refcount (cset (snd (find_css_set demo_subsystems 0 1 demo_core)) 1) = 2" by code_simp
  then have eq: "refcount (cset S 1) = 2" unfolding S by simp
  have "css_template demo_subsystems demo_core 0 1 0 = Some 2" "cgrp_links (cset demo_core 0) = [0]"
    "root_of demo_core 0 = root_of demo_core 1" by code_simp+
  then show ?thesis
    using find_css_set_well_formed [OF demo_core_inv old S] eq unfolding S r by (simp add: demo_subsystems_def)
qed

subsection \<open>Moving a task or a process\<close>

text \<open>C4: \<open>cgroup_attach_task\<close> moves all or nothing: when it returns 0, every thread it was asked for
  that is alive is in the destination cgroup in its hierarchy and in its old cgroups in all
  others; every other task is in the css_set it was in.  On any error, of the destination, of an
  allocation or of a controller's \<open>can_attach\<close>, no task has moved.  No task is lost from or
  put on a list, and no mask changes.\<close>

theorem attach_task_all_or_nothing:
  assumes "core_inv P K S" and "dst \<in> set (tcss (ftree S))" and "root_of S dst \<in> set (hierarchies S)"
    and "set (threads S leader threadgroup) \<subseteq> K"
    and "cgroup_attach_task P dst leader threadgroup S = (ret, S')"
  shows "(\<forall>t \<in> K.
      (if ret = 0 \<and> t \<in> set (threads S leader threadgroup) \<and> \<not> exiting S t \<and> cg_listed S t
          \<and> \<not> cset_dead (cset S (task_css_set S t))
       then cgrp_links (cset S' (task_css_set S' t))
         = map (\<lambda>c. if root_of S c = root_of S dst then dst else c) (cgrp_links (cset S (task_css_set S t)))
       else task_css_set S' t = task_css_set S t
         \<and> cgrp_links (cset S' (task_css_set S' t)) = cgrp_links (cset S (task_css_set S t)))
      \<and> (t \<in> set (cset_tasks (cset S' (task_css_set S' t))) \<longleftrightarrow> t \<in> set (cset_tasks (cset S (task_css_set S t)))))
    \<and> (\<forall>c. subtree_control (cgroups S' c) = subtree_control (cgroups S c))"
proof -
  note I = core_invD [OF assms(1)]
  note A = attach_ok [OF I(3) assms(2-5)]
  have "calm S S'" using A(3) by (simp add: mig_only_def calm_def)
  note same = calm_masks(3) [OF this]
  have lists: "on_list U t \<longleftrightarrow> t \<in> set (cset_tasks (cset U (task_css_set U t)))" if "resting K U" "t \<in> K" for U t
    using restingD(4) [OF that(1) csets_okD(6) [OF restingD(2) [OF that(1)] that(2)]] by (simp add: on_list_def)
  have "(if ret = 0 \<and> t \<in> set (threads S leader threadgroup) \<and> \<not> exiting S t \<and> cg_listed S t
          \<and> \<not> cset_dead (cset S (task_css_set S t))
       then cgrp_links (cset S' (task_css_set S' t))
         = map (\<lambda>c. if root_of S c = root_of S dst then dst else c) (cgrp_links (cset S (task_css_set S t)))
       else task_css_set S' t = task_css_set S t
         \<and> cgrp_links (cset S' (task_css_set S' t)) = cgrp_links (cset S (task_css_set S t)))
      \<and> (t \<in> set (cset_tasks (cset S' (task_css_set S' t))) \<longleftrightarrow> t \<in> set (cset_tasks (cset S (task_css_set S t))))"
    if "t \<in> K" for t
    using A(2) [OF that] A(4) [OF that]
    unfolding lists [OF I(3) that] lists [OF A(1) that] attached_def at_links_def to_cgroup_def by simp
  then show ?thesis using same by blast
qed

theorem attach_task_all_or_nothing_witness:
  "(let (ret, S) = cgroup_attach_task demo_subsystems 1 1 True demo_core in
      cgrp_links (cset S (task_css_set S 1)) = (if ret = 0 then [1] else [0])
      \<and> cgrp_links (cset S (task_css_set S 2)) = [1] \<and> 2 \<in> set (cset_tasks (cset S (task_css_set S 2))))"
proof -
  obtain ret S where S: "cgroup_attach_task demo_subsystems 1 1 True demo_core = (ret, S)" by (rule prod.exhaust)
  have pre: "1 \<in> set (tcss (ftree demo_core))" "root_of demo_core 1 \<in> set (hierarchies demo_core)"
    "set (threads demo_core 1 True) \<subseteq> {1, 2}"
    unfolding demo_threads by (simp_all add: demo_core_def hierarchies_def init_css_set_def)
  have dead: "\<not> cset_dead (cset demo_core x)" for x by (simp add: demo_core_def new_css_set_def)
  have "cg_listed demo_core 1" by code_simp
  moreover have "exiting demo_core = (\<lambda>t. False)" "task_css_set demo_core 1 = 0" "task_css_set demo_core 2 = 1"
    "cgrp_links (cset demo_core 0) = [0]" "cgrp_links (cset demo_core 1) = [1]" "root_of demo_core = (\<lambda>c. 0)"
    "cset_tasks (cset demo_core 1) = [2]" by (simp_all add: demo_core_def)
  ultimately show ?thesis
    using attach_task_all_or_nothing [OF demo_core_inv pre S] dead demo_threads unfolding S by (cases "ret = 0") auto
qed

subsection \<open>Writing \<open>cgroup.subtree_control\<close>\<close>

text \<open>C6: \<open>cgroup_subtree_control_write\<close> does what was asked or nothing: it returns the number of bytes,
  and then the cgroup gives its children the controllers it gave before with those named after
  \<open>+\<close> and without those named after \<open>-\<close>; or it returns an error, after which all masks of all
  cgroups are those of before, also where the error came after half of the csses were made.  In
  either case every task is in the cgroups it was in, and no other cgroup gives a
  controller to its children that it did not.\<close>

theorem subtree_control_write_exact:
  assumes "core_inv P K S" and "c \<in> set (tcss (ftree S))"
    and "cgroup_subtree_control_write P c buf nbytes S = (ret, S')"
  shows "(ret \<noteq> 0 \<and> (\<forall>d. subtree_control (cgroups S' d) = subtree_control (cgroups S d)
          \<and> subtree_ss_mask (cgroups S' d) = subtree_ss_mask (cgroups S d))
      \<or> ret = nbytes \<and> (case parse_control P (blank_tokens [] (strstrip buf)) ({}, {}) of
            None \<Rightarrow> False
          | Some (enable, disable) \<Rightarrow>
              subtree_control (cgroups S' c) = subtree_control (cgroups S c) \<union> enable - disable))
    \<and> (\<forall>t \<in> K. cgrp_links (cset S' (task_css_set S' t)) = cgrp_links (cset S (task_css_set S t)))
    \<and> (\<forall>d. d \<noteq> c \<longrightarrow> subtree_control (cgroups S' d) \<subseteq> subtree_control (cgroups S d))"
proof -
  note I = core_invD [OF assms(1)]
  note W = subtree_control_write_ok [OF I(1) assms(2,3)]
  have "\<forall>t \<in> K. cgrp_links (cset S' (task_css_set S' t)) = cgrp_links (cset S (task_css_set S t))"
    using W(1) by (simp add: changed_def at_links_def)
  then show ?thesis using W(3,5) by (auto simp: masks_eq_iff asked_control_def)
qed

theorem subtree_control_write_exact_witness:
  "(let (ret, S) = cgroup_subtree_control_write demo_subsystems 1 ''-cpu'' 4 demo_core in
      (ret \<noteq> 0 \<and> subtree_control (cgroups S 1) = {0} \<or> ret = 4 \<and> subtree_control (cgroups S 1) = {})
      \<and> cgrp_links (cset S (task_css_set S 2)) = [1])"
proof -
  obtain ret S where S: "cgroup_subtree_control_write demo_subsystems 1 ''-cpu'' 4 demo_core = (ret, S)" by (rule prod.exhaust)
  have pre: "1 \<in> set (tcss (ftree demo_core))" by (simp add: demo_core_def)
  have "parse_control demo_subsystems (blank_tokens [] (strstrip ''-cpu'')) ({}, {}) = Some ({}, {0})" by code_simp
  moreover have "subtree_control (cgroups demo_core 1) = {0}" "cgrp_links (cset demo_core (task_css_set demo_core 2)) = [1]"
    by (simp_all add: demo_core_def)
  ultimately show ?thesis using subtree_control_write_exact [OF demo_core_inv pre S] unfolding S by auto
qed

text \<open>The controllers that a cgroup uses below it: those it is told to, the implicit ones, and what these
  depend on, directly for controllers that are not available themselves.\<close>

inductive needed :: "subsystems \<Rightarrow> ssmask \<Rightarrow> ssmask \<Rightarrow> nat \<Rightarrow> bool" for P :: subsystems and start available :: ssmask where
  asked: "i \<in> start \<Longrightarrow> i \<in> available \<Longrightarrow> i < 16 \<Longrightarrow> needed P start available i"
| unavailable: "j \<in> start \<Longrightarrow> j < CGROUP_SUBSYS_COUNT P \<Longrightarrow> i \<in> depends_on P j \<Longrightarrow> i \<in> available \<Longrightarrow> i < 16
    \<Longrightarrow> needed P start available i"
| depends: "needed P start available j \<Longrightarrow> j < CGROUP_SUBSYS_COUNT P \<Longrightarrow> i \<in> depends_on P j \<Longrightarrow> i \<in> available \<Longrightarrow> i < 16
    \<Longrightarrow> needed P start available i"

lemma in_mask_turn: "i \<in> mask_turn P available cur \<longleftrightarrow> i \<in> available \<and> i < 16
    \<and> (i \<in> cur \<or> (\<exists>j \<in> cur. j < CGROUP_SUBSYS_COUNT P \<and> i \<in> depends_on P j))"
  by (auto simp: mask_turn_def u16_def)

lemma mask_loop_least:
  "mask_loop P available cur = Collect (needed P cur available)"
proof (induction P available cur rule: mask_loop.induct)
  case (1 P available cur)
  let ?new = "mask_turn P available cur"
  show ?case
  proof (cases "?new = cur")
    case True
    have "i \<in> cur" if "needed P cur available i" for i
      using that
    proof induction
      case (unavailable j i)
      then have "i \<in> ?new" unfolding in_mask_turn by blast
      then show ?case using True by simp
    next
      case (depends j i)
      then have "i \<in> ?new" unfolding in_mask_turn by blast
      then show ?case using True by simp
    qed
    moreover have "needed P cur available i" if "i \<in> cur" for i
      using that True in_mask_turn [of i P available cur] by (auto intro: needed.asked)
    ultimately show ?thesis using True by (subst mask_loop.simps) auto
  next
    case False
    have "needed P ?new available i" if "needed P cur available i" for i
      using that
    proof induction
      case (depends j i)
      then show ?case by (blast intro: needed.depends)
    qed (auto intro!: needed.asked simp: in_mask_turn)
    moreover have "needed P cur available i" if "needed P ?new available i" for i
      using that
    proof induction
      case (unavailable j i)
      then have "needed P cur available j" unfolding in_mask_turn by (blast intro: needed.intros)
      then show ?case using unavailable by (blast intro: needed.depends)
    qed (auto simp: in_mask_turn intro: needed.intros)
    ultimately show ?thesis using False 1 [OF refl False] by (subst mask_loop.simps) auto
  qed
qed

text \<open>C20: \<open>cgroup_calc_subtree_ss_mask\<close> computes the least set of controllers that has the available ones among
  those enabled and the implicit ones and is closed under the dependencies that are available;
  its loop ends.\<close>

theorem subtree_ss_mask_is_closure:
  "cgroup_calc_subtree_ss_mask P control available = {i. needed P (control \<union> cgrp_dfl_implicit_ss_mask P) available i}"
  by (simp add: cgroup_calc_subtree_ss_mask_def mask_loop_least)

end
