(* ===== verification/Pidlist.thy ===== *)
theory Pidlist
  imports CFormat Migrate
begin

section \<open>The files \<open>tasks\<close> and \<open>cgroup.procs\<close> of the legacy hierarchies\<close>

text \<open>
  \<open>cgroup/cgroup-v1.c\<close> promises sorted files, also when one is read in pieces while tasks come and
  go.  It keeps arrays of sorted pids, one for every kind of file and pid namespace, that are made when
  they are needed and destroyed some time after the last read; the position in the file is the
  next pid to show.

  The tasks that \<open>css_task_iter_next\<close> finds are an argument: the numbers of the process and of the task in
  the namespace of the reader.  \<open>sort\<close> is the kernel's library function.
\<close>

datatype cgroup_filetype = CGROUP_FILE_PROCS | CGROUP_FILE_TASKS

record cgroup_pidlist =
  key_type :: cgroup_filetype
  key_ns :: nat
  pids :: "int list"

subsection \<open>Arrays of pids\<close>

text \<open>The inner loop of \<open>pidlist_uniq\<close>; None is the jump to the end.\<close>

function next_unique :: "int list \<Rightarrow> nat \<Rightarrow> nat \<Rightarrow> nat option" where
  "next_unique xs len src =
     (if xs ! src = xs ! (src - 1)
      then (if src + 1 \<ge> len then None else next_unique xs len (src + 1))
      else Some src)"
  by pat_completeness auto
termination by (relation "measure (\<lambda>(xs, len, src). len - src)") auto

declare next_unique.simps [simp del]

lemma next_unique_later: "next_unique xs len src = Some s \<Longrightarrow> src \<le> s"
proof (induction xs len src rule: next_unique.induct)
  case (1 xs len src)
  show ?case
  proof (cases "xs ! src = xs ! (src - 1) \<and> \<not> src + 1 \<ge> len")
    case True
    then have "next_unique xs len (src + 1) = Some s" using 1(2) by (subst (asm) next_unique.simps) simp
    then show ?thesis using 1(1) True by fastforce
  next
    case False
    then show ?thesis using 1(2) by (subst (asm) next_unique.simps) (auto split: if_splits)
  qed
qed

function uniq_loop :: "int list \<Rightarrow> nat \<Rightarrow> nat \<Rightarrow> nat \<Rightarrow> int list \<times> nat" where
  "uniq_loop xs len src dest =
     (if src < len
      then case next_unique xs len src of
             None \<Rightarrow> (xs, dest)
           | Some src \<Rightarrow> uniq_loop (xs[dest := xs ! src]) len (src + 1) (dest + 1)
      else (xs, dest))"
  by pat_completeness auto
termination
  by (relation "measure (\<lambda>(xs, len, src, dest). len - src)") (auto dest: next_unique_later)

declare uniq_loop.simps [simp del]

definition pidlist_uniq :: "int list \<Rightarrow> nat \<Rightarrow> int list \<times> nat" where
  "pidlist_uniq xs len = (if len = 0 \<or> len = 1 then (xs, len) else uniq_loop xs len 1 1)"

text \<open>The loop over the tasks, which stops when the array is full.\<close>

fun fill_pids :: "cgroup_filetype \<Rightarrow> nat \<Rightarrow> (int \<times> int) list \<Rightarrow> int list" where
  "fill_pids type room [] = []"
| "fill_pids type room (tsk # tasks) =
     (if room = 0 then []
      else let pid = (if type = CGROUP_FILE_PROCS then fst tsk else snd tsk)
           in if pid > 0 then pid # fill_pids type (room - 1) tasks else fill_pids type room tasks)"

subsection \<open>The lists of a cgroup\<close>

definition cgroup_pidlist_find :: "cgroup_filetype \<Rightarrow> nat \<Rightarrow> cgroup_pidlist list \<Rightarrow> cgroup_pidlist option" where
  "cgroup_pidlist_find type ns ls = find (\<lambda>l. key_type l = type \<and> key_ns l = ns) ls"

definition cgroup_pidlist_find_create ::
    "bool \<Rightarrow> cgroup_filetype \<Rightarrow> nat \<Rightarrow> cgroup_pidlist list \<Rightarrow> cgroup_pidlist list option" where
  "cgroup_pidlist_find_create alloc type ns ls =
     (if cgroup_pidlist_find type ns ls \<noteq> None then Some ls
      else if \<not> alloc then None
      else Some (\<lparr>key_type = type, key_ns = ns, pids = []\<rparr> # ls))"

text \<open>The list with the key gets a new array.\<close>

fun store_pids :: "cgroup_filetype \<Rightarrow> nat \<Rightarrow> int list \<Rightarrow> cgroup_pidlist list \<Rightarrow> cgroup_pidlist list" where
  "store_pids type ns xs [] = []"
| "store_pids type ns xs (l # ls) =
     (if key_type l = type \<and> key_ns l = ns then l\<lparr>pids := xs\<rparr> # ls else l # store_pids type ns xs ls)"

text \<open>\<open>count\<close> is \<open>cgroup_task_count\<close> before the walk; the first two arguments tell whether memory is there.\<close>

definition pidlist_array_load ::
    "bool \<Rightarrow> bool \<Rightarrow> cgroup_filetype \<Rightarrow> nat \<Rightarrow> nat \<Rightarrow> (int \<times> int) list \<Rightarrow> cgroup_pidlist list
      \<Rightarrow> int + cgroup_pidlist list" where
  "pidlist_array_load alloc_array alloc type ns count tasks ls =
     (if \<not> alloc_array then Inl (- ENOMEM)
      else
        let xs = sort (fill_pids type count tasks);
            xs = (if type = CGROUP_FILE_PROCS then let (ys, n) = pidlist_uniq xs (length xs) in take n ys else xs)
        in case cgroup_pidlist_find_create alloc type ns ls of
             None \<Rightarrow> Inl (- ENOMEM)
           | Some ls \<Rightarrow> Inr (store_pids type ns xs ls))"

text \<open>\<open>cgroup_pidlist_destroy_work_fn\<close>, when the work was not queued again.\<close>

definition pidlist_destroy :: "cgroup_filetype \<Rightarrow> nat \<Rightarrow> cgroup_pidlist list \<Rightarrow> cgroup_pidlist list" where
  "pidlist_destroy type ns ls = filter (\<lambda>l. \<not> (key_type l = type \<and> key_ns l = ns)) ls"

subsection \<open>The operations of the sequence file\<close>

function pid_search :: "int list \<Rightarrow> int \<Rightarrow> nat \<Rightarrow> nat \<Rightarrow> nat" where
  "pid_search xs pid index fin =
     (if index < fin
      then let mid = (index + fin) div 2 in
           if xs ! mid = pid then mid
           else if xs ! mid \<le> pid then pid_search xs pid (mid + 1) fin
           else pid_search xs pid index mid
      else index)"
  by pat_completeness auto
termination by (relation "measure (\<lambda>(xs, pid, index, fin). fin - index)") auto

declare pid_search.simps [simp del]

definition pid_index :: "int list \<Rightarrow> int \<Rightarrow> nat" where
  "pid_index xs p = (if p \<noteq> 0 then pid_search xs p 0 (length xs) else 0)"

text \<open>The open file: the lists of the cgroup, whether \<open>of->priv\<close> is set, and the position.\<close>

record pid_file =
  pidlists :: "cgroup_pidlist list"
  of_priv :: bool
  pos :: int

text \<open>The result is an error, or no pid, or the index of one.\<close>

definition cgroup_pidlist_start ::
    "bool \<Rightarrow> bool \<Rightarrow> cgroup_filetype \<Rightarrow> nat \<Rightarrow> nat \<Rightarrow> (int \<times> int) list \<Rightarrow> pid_file \<Rightarrow> (int + nat option) \<times> pid_file" where
  "cgroup_pidlist_start alloc_array alloc type ns count tasks f =
     (let f = f\<lparr>of_priv := of_priv f \<and> cgroup_pidlist_find type ns (pidlists f) \<noteq> None\<rparr>;
          r = (if of_priv f then Inr f
               else case pidlist_array_load alloc_array alloc type ns count tasks (pidlists f) of
                      Inl e \<Rightarrow> Inl e
                    | Inr ls \<Rightarrow> Inr (f\<lparr>pidlists := ls, of_priv := True\<rparr>))
      in case r of
           Inl e \<Rightarrow> (Inl e, f)
         | Inr f \<Rightarrow>
             case cgroup_pidlist_find type ns (pidlists f) of
               None \<Rightarrow> (Inr None, f)
             | Some l \<Rightarrow>
                 let index = pid_index (pids l) (pos f)
                 in if index \<ge> length (pids l) then (Inr None, f) else (Inr (Some index), f\<lparr>pos := pids l ! index\<rparr>))"

definition cgroup_pidlist_next :: "int list \<Rightarrow> nat \<Rightarrow> int \<Rightarrow> nat option \<times> int" where
  "cgroup_pidlist_next xs p q =
     (let p = p + 1 in if p \<ge> length xs then (None, q + 1) else (Some p, xs ! p))"

definition cgroup_pidlist_show :: "int \<Rightarrow> string" where
  "cgroup_pidlist_show pid = show_int pid @ [CHR 0x0A]"

text \<open>What \<open>seq_read\<close> does with room for \<open>n\<close> pids, from the index \<open>i\<close> on.\<close>

fun seq_show :: "int list \<Rightarrow> nat \<Rightarrow> nat \<Rightarrow> int \<Rightarrow> int list \<times> int" where
  "seq_show xs i 0 p = ([], p)"
| "seq_show xs i (Suc n) p =
     (case cgroup_pidlist_next xs i p of
        (None, p) \<Rightarrow> ([xs ! i], p)
      | (Some j, p) \<Rightarrow> let (out, p) = seq_show xs j n p in (xs ! i # out, p))"

subsection \<open>Writing\<close>

definition EACCES :: int where "EACCES = 13"

text \<open>\<open>may_write\<close>: the effective user is root or the owner of the task.\<close>

definition cgroup1_procs_write ::
    "subsystems \<Rightarrow> found \<Rightarrow> (nat \<Rightarrow> bool) \<Rightarrow> nat \<Rightarrow> bool \<Rightarrow> int \<Rightarrow> cgsys \<Rightarrow> int \<times> cgsys" where
  "cgroup1_procs_write P F may_write cgrp threadgroup nbytes S =
     (if \<not> self_online (cgroups S cgrp) then (- ENODEV, S)
      else case cgroup_procs_write_start F threadgroup of
        Inl e \<Rightarrow> (e, S)
      | Inr task \<Rightarrow>
          if \<not> may_write task then (- EACCES, S)
          else let (ret, S) = cgroup_attach_task P cgrp task threadgroup S in (if ret \<noteq> 0 then ret else nbytes, S))"

end
