(* ===== verification/Pidlist_Correct.thy ===== *)
theory Pidlist_Correct
  imports Pidlist
begin

section \<open>Sorted files of tasks\<close>

text \<open>
  \<open>pidlist_uniq\<close> removes the repetitions in place; the search finds the first pid that is not before the
  position; and reading a file in pieces, from arrays that may be destroyed and made anew
  between two reads, shows every task that stays.
\<close>

subsection \<open>Removing repetitions\<close>

lemma next_unique_None: "next_unique xs len src = None \<Longrightarrow> 0 < src \<Longrightarrow> src < len \<Longrightarrow>
    \<forall>i. src \<le> i \<longrightarrow> i < len \<longrightarrow> xs ! i = xs ! (i - 1)"
proof (induction xs len src rule: next_unique.induct)
  case (1 xs len src)
  have eq: "xs ! src = xs ! (src - 1)" using 1(2) by (subst (asm) next_unique.simps) (auto split: if_splits)
  show ?case
  proof (cases "src + 1 \<ge> len")
    case True
    then have "i = src" if "src \<le> i" "i < len" for i using that by simp
    then show ?thesis using eq by blast
  next
    case False
    then have "next_unique xs len (src + 1) = None" using 1(2) eq by (subst (asm) next_unique.simps) simp
    then have "\<forall>i. src + 1 \<le> i \<longrightarrow> i < len \<longrightarrow> xs ! i = xs ! (i - 1)" using 1(1) eq False by simp
    then show ?thesis using eq by (metis Suc_eq_plus1 le_antisym not_less_eq_eq)
  qed
qed

lemma next_unique_Some: "next_unique xs len src = Some s \<Longrightarrow> src < len \<Longrightarrow>
    src \<le> s \<and> s < len \<and> xs ! s \<noteq> xs ! (s - 1) \<and> (\<forall>i. src \<le> i \<longrightarrow> i < s \<longrightarrow> xs ! i = xs ! (i - 1))"
proof (induction xs len src rule: next_unique.induct)
  case (1 xs len src)
  show ?case
  proof (cases "xs ! src = xs ! (src - 1)")
    case False
    then have "s = src" using 1(2) by (subst (asm) next_unique.simps) simp
    then show ?thesis using False 1(3) by simp
  next
    case True
    then have "\<not> src + 1 \<ge> len" "next_unique xs len (src + 1) = Some s"
      using 1(2) by (subst (asm) next_unique.simps, simp split: if_splits)+
    then have "src + 1 \<le> s \<and> s < len \<and> xs ! s \<noteq> xs ! (s - 1) \<and> (\<forall>i. src + 1 \<le> i \<longrightarrow> i < s \<longrightarrow> xs ! i = xs ! (i - 1))"
      using 1(1) True by simp
    then show ?thesis using True by (metis Suc_eq_plus1 Suc_leD le_antisym not_less_eq_eq)
  qed
qed

text \<open>What is left of the first \<open>n\<close> elements without repetitions.\<close>

lemma remdups_adj_same:
  assumes "m \<le> n" and "n \<le> length ys" and "0 < m" and "\<And>i. m \<le> i \<Longrightarrow> i < n \<Longrightarrow> ys ! i = ys ! (i - 1)"
  shows "remdups_adj (take n ys) = remdups_adj (take m ys)"
  using assms
proof (induction n)
  case (Suc n)
  show ?case
  proof (cases "m = Suc n")
    case False
    then have le: "m \<le> n" using Suc.prems(1) by simp
    then have eq: "ys ! n = ys ! (n - 1)" using Suc.prems(4) [of n] by simp
    have n: "0 < n" "n < length ys" using le Suc.prems(2,3) by simp_all
    have t: "take (Suc n) ys = take n ys @ [ys ! n]" using n(2) by (rule take_Suc_conv_app_nth)
    have ne: "take n ys \<noteq> []" using n by auto
    then have l: "take n ys \<noteq> []" "last (take n ys) = ys ! (n - 1)" using n by (simp_all add: last_conv_nth)
    have "remdups_adj (take (Suc n) ys) = remdups_adj (take n ys)"
      using remdups_adj_append'' [OF l(1), of "[ys ! n]"] l(2) eq unfolding t by simp
    then show ?thesis using Suc.IH [OF le] Suc.prems by simp
  qed simp
qed simp

lemma remdups_adj_new:
  assumes "0 < n" and "n < length ys" and "ys ! n \<noteq> ys ! (n - 1)"
  shows "remdups_adj (take (Suc n) ys) = remdups_adj (take n ys) @ [ys ! n]"
proof -
  have t: "take (Suc n) ys = take n ys @ [ys ! n]" using assms(2) by (rule take_Suc_conv_app_nth)
  have ne: "take n ys \<noteq> []" using assms by auto
  then have "last (take n ys) = ys ! (n - 1)" using assms by (simp add: last_conv_nth)
  then show ?thesis using remdups_adj_append'' [OF ne, of "[ys ! n]"] assms(3) unfolding t by simp
qed

text \<open>In the loop the first \<open>dest\<close> places have the result for the first \<open>src\<close> elements \<open>ys\<close>, and the
  elements from the one before \<open>src\<close> on are still in their places.\<close>

lemma uniq_loop_ok:
  assumes "uniq_loop xs (length ys) src dest = (zs, n)" and "length xs = length ys" and "0 < src" and "src \<le> length ys"
    and "dest \<le> src" and "take dest xs = remdups_adj (take src ys)" and "\<And>i. src - 1 \<le> i \<Longrightarrow> i < length ys \<Longrightarrow> xs ! i = ys ! i"
  shows "take n zs = remdups_adj ys \<and> length zs = length ys"
  using assms
proof (induction xs "length ys" src dest rule: uniq_loop.induct)
  case (1 xs src dest)
  show ?case
  proof (cases "src < length ys")
    case False
    then have "zs = xs" "n = dest" using 1(2) by (auto simp: uniq_loop.simps [of xs])
    then show ?thesis using False 1(3,5,7) by simp
  next
    case True
    show ?thesis
    proof (cases "next_unique xs (length ys) src")
      case None
      then have z: "zs = xs" "n = dest" using 1(2) True by (auto simp: uniq_loop.simps [of xs])
      have "ys ! i = ys ! (i - 1)" if "src \<le> i" "i < length ys" for i
      proof -
        have "xs ! i = xs ! (i - 1)" using next_unique_None [OF None 1(4) True] that by blast
        moreover have "xs ! i = ys ! i" "xs ! (i - 1) = ys ! (i - 1)" using 1(8) that by auto
        ultimately show ?thesis by simp
      qed
      then have "remdups_adj ys = remdups_adj (take src ys)"
        using remdups_adj_same [of src "length ys" ys] 1(4,5) by simp
      then show ?thesis using z 1(3,7) by simp
    next
      case (Some s)
      note N = next_unique_Some [OF Some True]
      let ?xs = "xs[dest := xs ! s]"
      have run: "uniq_loop ?xs (length ys) (s + 1) (dest + 1) = (zs, n)"
        using 1(2) True Some by (simp add: uniq_loop.simps [of xs])
      have at: "xs ! i = ys ! i" if "src - 1 \<le> i" "i < length ys" for i using 1(8) that .
      have s: "src \<le> s" "s < length ys" using N by simp_all
      have "ys ! i = ys ! (i - 1)" if "src \<le> i" "i < s" for i
      proof -
        have "xs ! i = xs ! (i - 1)" using N that by blast
        moreover have "src - 1 \<le> i - 1" "i < length ys" using that s by auto
        ultimately show ?thesis using at that by simp
      qed
      then have same: "remdups_adj (take s ys) = remdups_adj (take src ys)"
        using remdups_adj_same [of src s ys] s 1(4) by simp
      have "src - 1 \<le> s - 1" "s - 1 < length ys" using s by auto
      then have "ys ! s \<noteq> ys ! (s - 1)" using N at [of s] at [of "s - 1"] s by simp
      then have new: "remdups_adj (take (Suc s) ys) = remdups_adj (take s ys) @ [ys ! s]"
        using s 1(4) by (intro remdups_adj_new) simp_all
      have dest: "dest < length xs" using 1(3,6) True by simp
      have "take (dest + 1) ?xs = take dest xs @ [xs ! s]"
        using dest by (simp add: take_Suc_conv_app_nth)
      then have pre: "take (dest + 1) ?xs = remdups_adj (take (s + 1) ys)"
        using 1(7) same new at [of s] s by simp
      show ?thesis
      proof (rule 1(1) [OF True Some run])
        show "?xs ! i = ys ! i" if "s + 1 - 1 \<le> i" "i < length ys" for i
        proof (cases "dest = i")
          case True
          then have "i = s" using that s 1(6) by simp
          then show ?thesis using True that at [of i] s dest by simp
        qed (use that at [of i] s in simp)
      qed (use 1(3,6) s pre in auto)
    qed
  qed
qed

lemma pidlist_uniq_ok:
  assumes "pidlist_uniq xs (length xs) = (zs, n)"
  shows "take n zs = remdups_adj xs"
proof (cases "length xs \<le> 1")
  case True
  then have "xs = [] \<or> (\<exists>x. xs = [x])" by (cases xs) auto
  then show ?thesis using assms by (auto simp: pidlist_uniq_def)
next
  case False
  then have "length xs \<noteq> 0" "length xs \<noteq> 1" by linarith+
  then have "uniq_loop xs (length xs) 1 1 = (zs, n)" using assms unfolding pidlist_uniq_def by simp
  moreover have "take 1 xs = remdups_adj (take 1 xs)" by (cases xs) simp_all
  moreover have "Suc 0 \<le> length xs" using False by simp
  ultimately show ?thesis using uniq_loop_ok [of xs xs 1 1 zs n] by simp
qed

subsection \<open>The search\<close>

lemma sorted_wrt_less_iff:
  "sorted_wrt (<) (xs :: int list) \<Longrightarrow> i < length xs \<Longrightarrow> j < length xs \<Longrightarrow> xs ! i < xs ! j \<longleftrightarrow> i < j"
  using sorted_wrt_nth_less [of "(<)" xs] by (metis linorder_neqE_nat order_less_asym order_less_irrefl)

text \<open>The result separates the pids before the position from the others.\<close>

lemma pid_search_ok:
  assumes "sorted_wrt (<) xs" and "index \<le> fin" and "fin \<le> length xs"
    and "\<And>i. i < index \<Longrightarrow> xs ! i < pid" and "\<And>i. fin \<le> i \<Longrightarrow> i < length xs \<Longrightarrow> pid \<le> xs ! i"
    and "i < length xs"
  shows "xs ! i < pid \<longleftrightarrow> i < pid_search xs pid index fin"
  using assms
proof (induction xs pid index fin rule: pid_search.induct)
  case (1 xs pid index fin)
  let ?mid = "(index + fin) div 2"
  note less = sorted_wrt_less_iff [OF 1(3)]
  show ?case
  proof (cases "index < fin")
    case False
    then have eq: "pid_search xs pid index fin = index" "index = fin" using 1(4) by (simp_all add: pid_search.simps [of xs])
    have "xs ! i < pid" if "i < index" using 1(6) that .
    moreover have "pid \<le> xs ! i" if "index \<le> i" using 1(7) [of i] that eq(2) 1(8) by simp
    ultimately show ?thesis unfolding eq(1) by fastforce
  next
    case True
    then have mid: "index \<le> ?mid" "?mid < fin" "?mid < length xs" using 1(5) by auto
    consider (same) "xs ! ?mid = pid" | (below) "xs ! ?mid < pid" | (above) "pid < xs ! ?mid" by linarith
    then show ?thesis
    proof cases
      case same
      then show ?thesis using True less [OF 1(8) mid(3)] by (subst pid_search.simps) simp
    next
      case below
      have "xs ! j < pid" if "j < ?mid + 1" for j
        using that below less [of j ?mid] mid(3) by (cases "j = ?mid") auto
      then have "xs ! i < pid \<longleftrightarrow> i < pid_search xs pid (?mid + 1) fin"
        using 1(1) [OF True refl] 1(3,5,7,8) below mid by simp
      then show ?thesis using True below by (subst pid_search.simps) simp
    next
      case above
      have "pid \<le> xs ! j" if "?mid \<le> j" "j < length xs" for j
        using that above less [of ?mid j] mid(3) by (cases "j = ?mid") auto
      then have "xs ! i < pid \<longleftrightarrow> i < pid_search xs pid index ?mid"
        using 1(2) [OF True refl] 1(3,6,8) above mid by simp
      then show ?thesis using True above by (subst pid_search.simps) simp
    qed
  qed
qed

subsection \<open>What an array holds\<close>

lemma set_fill_pids:
  "length tasks \<le> room \<Longrightarrow>
    set (fill_pids type room tasks) = {p. 0 < p \<and> (\<exists>t\<in>set tasks. p = (if type = CGROUP_FILE_PROCS then fst t else snd t))}"
  by (induction type room tasks rule: fill_pids.induct) (auto simp: Let_def)

lemma fill_pids_pos: "p \<in> set (fill_pids type room tasks) \<Longrightarrow> 0 < p"
  by (induction type room tasks rule: fill_pids.induct) (auto simp: Let_def split: if_splits)

lemma fill_pids_tasks: "set (fill_pids CGROUP_FILE_TASKS room tasks) \<subseteq> snd ` set tasks"
  by (induction tasks arbitrary: room) (auto simp: Let_def)

text \<open>Two tasks that the reader sees have different numbers.\<close>

definition own_pids :: "(int \<times> int) list \<Rightarrow> bool" where
  "own_pids tasks \<longleftrightarrow> distinct (map snd (filter (\<lambda>t. 0 < snd t) tasks))"

lemma fill_pids_distinct: "own_pids tasks \<Longrightarrow> distinct (fill_pids CGROUP_FILE_TASKS room tasks)"
proof (induction tasks arbitrary: room)
  case (Cons t tasks)
  have own: "own_pids tasks" using Cons.prems unfolding own_pids_def by (simp split: if_splits)
  have "snd t \<notin> set (fill_pids CGROUP_FILE_TASKS n tasks)" if "0 < snd t" for n
  proof
    assume "snd t \<in> set (fill_pids CGROUP_FILE_TASKS n tasks)"
    then have "snd t \<in> snd ` set tasks" using fill_pids_tasks by blast
    then show False using Cons.prems that unfolding own_pids_def by auto
  qed
  then show ?case using Cons.IH [OF own] by (simp add: Let_def)
qed simp

text \<open>The array that is loaded.\<close>

definition loaded :: "cgroup_filetype \<Rightarrow> nat \<Rightarrow> (int \<times> int) list \<Rightarrow> int list" where
  "loaded type count tasks =
     (if type = CGROUP_FILE_PROCS then remdups_adj (sort (fill_pids type count tasks)) else sort (fill_pids type count tasks))"

lemma set_loaded: "set (loaded type count tasks) = set (fill_pids type count tasks)"
  unfolding loaded_def by simp

lemma strict_remdups_adj: "sorted xs \<Longrightarrow> sorted_wrt (<) (remdups_adj (xs :: int list))"
  by (induction xs rule: remdups_adj.induct) (auto simp: order.strict_iff_order)

lemma sorted_loaded: "own_pids tasks \<Longrightarrow> sorted_wrt (<) (loaded type count tasks)"
  unfolding loaded_def 
  by (cases type) (simp add: strict_remdups_adj, simp add: strict_sorted_iff fill_pids_distinct)

lemma array_load_loaded:
  assumes "pidlist_array_load alloc_array alloc type ns count tasks ls = Inr ls'"
  shows "\<exists>ls0. cgroup_pidlist_find_create alloc type ns ls = Some ls0
    \<and> ls' = store_pids type ns (loaded type count tasks) ls0"
proof -
  obtain ys n where u: "pidlist_uniq (sort (fill_pids type count tasks)) (length (sort (fill_pids type count tasks))) = (ys, n)"
    by (cases "pidlist_uniq (sort (fill_pids type count tasks)) (length (sort (fill_pids type count tasks)))")
  show ?thesis using assms u pidlist_uniq_ok [OF u] unfolding pidlist_array_load_def loaded_def Let_def
    by (simp split: if_splits option.splits)
qed

subsection \<open>The lists of a cgroup\<close>

lemma store_pids_member:
  "l \<in> set (store_pids type ns xs ls) \<Longrightarrow> l \<in> set ls \<or> (key_type l = type \<and> key_ns l = ns \<and> pids l = xs)"
  by (induction type ns xs ls rule: store_pids.induct) (auto split: if_splits)

lemma find_store_pids:
  "\<exists>l\<in>set ls. key_type l = type \<and> key_ns l = ns \<Longrightarrow>
    \<exists>l. cgroup_pidlist_find type ns (store_pids type ns xs ls) = Some l \<and> pids l = xs"
  unfolding cgroup_pidlist_find_def by (induction type ns xs ls rule: store_pids.induct) auto

lemma find_Some: "cgroup_pidlist_find type ns ls = Some l \<Longrightarrow> l \<in> set ls \<and> key_type l = type \<and> key_ns l = ns"
  unfolding cgroup_pidlist_find_def by (auto simp: find_Some_iff)

lemma find_None: "cgroup_pidlist_find type ns ls = None \<longleftrightarrow> (\<forall>l\<in>set ls. \<not> (key_type l = type \<and> key_ns l = ns))"
  unfolding cgroup_pidlist_find_def by (auto simp: find_None_iff)

lemma array_load_ok:
  assumes "pidlist_array_load alloc_array alloc type ns count tasks ls = Inr ls'"
  shows "\<exists>l. cgroup_pidlist_find type ns ls' = Some l \<and> pids l = loaded type count tasks"
    and "l \<in> set ls' \<Longrightarrow> l \<in> set ls \<or> (key_type l = type \<and> key_ns l = ns \<and> pids l = loaded type count tasks)"
proof -
  obtain ls0 where c: "cgroup_pidlist_find_create alloc type ns ls = Some ls0"
    and ls': "ls' = store_pids type ns (loaded type count tasks) ls0"
    using array_load_loaded [OF assms] by blast
  consider (old) "cgroup_pidlist_find type ns ls \<noteq> None" "ls0 = ls"
    | (new) "ls0 = \<lparr>key_type = type, key_ns = ns, pids = []\<rparr> # ls"
    using c unfolding cgroup_pidlist_find_create_def by (auto split: if_splits)
  then have "(\<exists>l\<in>set ls0. key_type l = type \<and> key_ns l = ns)
    \<and> (l \<in> set ls' \<longrightarrow> l \<in> set ls \<or> (key_type l = type \<and> key_ns l = ns \<and> pids l = loaded type count tasks))"
  proof cases
    case old
    then show ?thesis using store_pids_member unfolding ls' find_None by fast
  next
    case new
    then show ?thesis unfolding ls' new by auto
  qed
  then show "\<exists>l. cgroup_pidlist_find type ns ls' = Some l \<and> pids l = loaded type count tasks"
    and "l \<in> set ls' \<Longrightarrow> l \<in> set ls \<or> (key_type l = type \<and> key_ns l = ns \<and> pids l = loaded type count tasks)"
    using find_store_pids unfolding ls' by blast+
qed

subsection \<open>Reading in pieces\<close>

text \<open>
  The events at the open file of one reader: the work that destroys a list runs, another file loads an
  array, or the reader reads.  A read shows pids from the place that \<open>cgroup_pidlist_start\<close> finds until the
  buffer, which has room for \<open>n\<close> of them, is full; an error shows nothing.
\<close>

datatype pid_event =
    Destroy cgroup_filetype nat
  | Load bool bool cgroup_filetype nat nat "(int \<times> int) list"
  | Read bool bool nat "(int \<times> int) list" nat

definition pid_read ::
    "bool \<Rightarrow> bool \<Rightarrow> cgroup_filetype \<Rightarrow> nat \<Rightarrow> nat \<Rightarrow> (int \<times> int) list \<Rightarrow> nat \<Rightarrow> pid_file \<Rightarrow> int list \<times> pid_file" where
  "pid_read alloc_array alloc type ns count tasks n f =
     (case cgroup_pidlist_start alloc_array alloc type ns count tasks f of
        (Inr (Some i), f) \<Rightarrow>
          (case cgroup_pidlist_find type ns (pidlists f) of
             None \<Rightarrow> ([], f)
           | Some l \<Rightarrow> let (out, p) = seq_show (pids l) i n (pos f) in (out, f\<lparr>pos := p\<rparr>))
      | (_, f) \<Rightarrow> ([], f))"

fun pid_step :: "cgroup_filetype \<Rightarrow> nat \<Rightarrow> pid_event \<Rightarrow> pid_file \<Rightarrow> int list \<times> pid_file" where
  "pid_step type ns (Destroy t m) f = ([], f\<lparr>pidlists := pidlist_destroy t m (pidlists f)\<rparr>)"
| "pid_step type ns (Load alloc_array alloc t m count tasks) f =
     (case pidlist_array_load alloc_array alloc t m count tasks (pidlists f) of
        Inl e \<Rightarrow> ([], f)
      | Inr ls \<Rightarrow> ([], f\<lparr>pidlists := ls\<rparr>))"
| "pid_step type ns (Read alloc_array alloc count tasks n) f = pid_read alloc_array alloc type ns count tasks n f"

fun pid_events :: "cgroup_filetype \<Rightarrow> nat \<Rightarrow> pid_event list \<Rightarrow> pid_file \<Rightarrow> int list \<times> pid_file" where
  "pid_events type ns [] f = ([], f)"
| "pid_events type ns (e # es) f =
     (let (out, f) = pid_step type ns e f; (out', f) = pid_events type ns es f in (out @ out', f))"

text \<open>The tasks that the walk of an event finds: tasks have numbers of their own, and there is room for them.\<close>

definition walk_ok :: "nat \<Rightarrow> (int \<times> int) list \<Rightarrow> bool" where
  "walk_ok count tasks \<longleftrightarrow> own_pids tasks \<and> length tasks \<le> count"

definition walk_finds :: "cgroup_filetype \<Rightarrow> int \<Rightarrow> (int \<times> int) list \<Rightarrow> bool" where
  "walk_finds type x tasks \<longleftrightarrow> (\<exists>t\<in>set tasks. x = (if type = CGROUP_FILE_PROCS then fst t else snd t))"

fun event_ok :: "cgroup_filetype \<Rightarrow> nat \<Rightarrow> int \<Rightarrow> pid_event \<Rightarrow> bool" where
  "event_ok type ns x (Destroy t m) \<longleftrightarrow> True"
| "event_ok type ns x (Load _ _ t m count tasks) \<longleftrightarrow>
     walk_ok count tasks \<and> (t = type \<and> m = ns \<longrightarrow> walk_finds type x tasks)"
| "event_ok type ns x (Read _ _ count tasks n) \<longleftrightarrow> walk_ok count tasks \<and> walk_finds type x tasks"

text \<open>The lists have their pids in order, and those for this file have the pid \<open>x\<close>.\<close>

definition lists_ok :: "cgroup_filetype \<Rightarrow> nat \<Rightarrow> int \<Rightarrow> cgroup_pidlist list \<Rightarrow> bool" where
  "lists_ok type ns x ls \<longleftrightarrow>
     (\<forall>l\<in>set ls. sorted_wrt (<) (pids l) \<and> (\<forall>p\<in>set (pids l). 0 < p)
       \<and> (key_type l = type \<and> key_ns l = ns \<longrightarrow> x \<in> set (pids l)))"

lemma loaded_pos: "p \<in> set (loaded type count tasks) \<Longrightarrow> 0 < p"
  using fill_pids_pos unfolding set_loaded .

lemma loaded_finds: "walk_ok count tasks \<Longrightarrow> walk_finds type x tasks \<Longrightarrow> 0 < x \<Longrightarrow> x \<in> set (loaded type count tasks)"
  unfolding set_loaded walk_ok_def walk_finds_def by (subst set_fill_pids) auto

lemma lists_ok_load:
  assumes "pidlist_array_load alloc_array alloc t m count tasks ls = Inr ls'" and "lists_ok type ns x ls"
    and "walk_ok count tasks" and "t = type \<and> m = ns \<longrightarrow> walk_finds type x tasks" and "0 < x"
  shows "lists_ok type ns x ls'"
  unfolding lists_ok_def
proof
  fix l assume "l \<in> set ls'"
  from array_load_ok(2) [OF assms(1) this] consider (old) "l \<in> set ls"
    | (new) "key_type l = t" "key_ns l = m" "pids l = loaded t count tasks" by blast
  then show "sorted_wrt (<) (pids l) \<and> (\<forall>p\<in>set (pids l). 0 < p)
    \<and> (key_type l = type \<and> key_ns l = ns \<longrightarrow> x \<in> set (pids l))"
  proof cases
    case old
    then show ?thesis using assms(2) unfolding lists_ok_def by blast
  next
    case new
    have "own_pids tasks" using assms(3) unfolding walk_ok_def by blast
    then have "sorted_wrt (<) (loaded t count tasks)" by (rule sorted_loaded)
    moreover have "x \<in> set (loaded t count tasks)" if "t = type \<and> m = ns"
      using loaded_finds [OF assms(3)] assms(4,5) that by blast
    ultimately show ?thesis using new loaded_pos by auto
  qed
qed

lemma lists_ok_destroy: "lists_ok type ns x ls \<Longrightarrow> lists_ok type ns x (pidlist_destroy t m ls)"
  unfolding lists_ok_def pidlist_destroy_def by auto

text \<open>A read shows exactly the pids from the old position up to the new one.\<close>

lemma seq_show_ok:
  assumes "sorted_wrt (<) xs" and "i < length xs" and "seq_show xs i n (xs ! i) = (out, p)"
  shows "out = takeWhile (\<lambda>y. y < p) (drop i xs) \<and> xs ! i \<le> p"
  using assms
proof (induction n arbitrary: i out p)
  case 0
  then show ?case by (simp add: Cons_nth_drop_Suc [symmetric])
next
  case (Suc n)
  note drop = Cons_nth_drop_Suc [OF Suc.prems(2), symmetric]
  show ?case
  proof (cases "Suc i < length xs")
    case False
    then have "drop i xs = [xs ! i]" using drop by simp
    moreover have "out = [xs ! i]" "p = xs ! i + 1"
      using Suc.prems False by (simp_all add: cgroup_pidlist_next_def Let_def)
    ultimately show ?thesis by simp
  next
    case True
    obtain out' where s: "seq_show xs (Suc i) n (xs ! Suc i) = (out', p)" "out = xs ! i # out'"
      using Suc.prems(3) True by (auto simp: cgroup_pidlist_next_def Let_def split: prod.splits)
    have "xs ! i < xs ! Suc i" using sorted_wrt_less_iff [OF Suc.prems(1,2) True] by simp
    then show ?thesis using Suc.IH [OF Suc.prems(1) True s(1)] s(2) drop by auto
  qed
qed

lemma takeWhile_sorted: "sorted_wrt (<) (ys :: int list) \<Longrightarrow> takeWhile (\<lambda>y. y < p) ys = filter (\<lambda>y. y < p) ys"
proof (induction ys)
  case (Cons y ys)
  have "filter (\<lambda>y. y < p) ys = []" if "\<not> y < p"
    using Cons.prems that by (fastforce simp: filter_empty_conv)
  then show ?case using Cons by auto
qed simp

lemma sorted_takeWhile_drop:
  assumes "sorted_wrt (<) (xs :: int list)" and "\<And>k. k < length xs \<Longrightarrow> xs ! k < q \<longleftrightarrow> k < i"
  shows "sorted_wrt (<) (takeWhile (\<lambda>y. y < p) (drop i xs))"
    and "set (takeWhile (\<lambda>y. y < p) (drop i xs)) = {y \<in> set xs. q \<le> y \<and> y < p}"
proof -
  have sorted: "sorted_wrt (<) (drop i xs)" using assms(1) by (rule sorted_wrt_drop)
  show "sorted_wrt (<) (takeWhile (\<lambda>y. y < p) (drop i xs))"
    unfolding takeWhile_sorted [OF sorted] by (rule sorted_wrt_filter) (rule sorted)
  have "y \<in> set (drop i xs) \<longleftrightarrow> y \<in> set xs \<and> q \<le> y" for y
  proof
    assume "y \<in> set (drop i xs)"
    then obtain k where "k < length xs - i" "y = drop i xs ! k" by (auto simp: in_set_conv_nth)
    then have "i + k < length xs" "y = xs ! (i + k)" by auto
    then show "y \<in> set xs \<and> q \<le> y" using assms(2) [of "i + k"] by auto
  next
    assume y: "y \<in> set xs \<and> q \<le> y"
    then obtain k where k: "k < length xs" "y = xs ! k" by (auto simp: in_set_conv_nth)
    then have "i \<le> k" using y assms(2) [of k] by auto
    then have "y = drop i xs ! (k - i)" "k - i < length (drop i xs)" using k by auto
    then show "y \<in> set (drop i xs)" by (metis nth_mem)
  qed
  then show "set (takeWhile (\<lambda>y. y < p) (drop i xs)) = {y \<in> set xs. q \<le> y \<and> y < p}"
    unfolding takeWhile_sorted [OF sorted] by auto
qed

text \<open>Where \<open>cgroup_pidlist_start\<close> leaves the file.\<close>

lemma start_ok:
  assumes "cgroup_pidlist_start alloc_array alloc type ns count tasks f = (r, g)"
    and "lists_ok type ns x (pidlists f)" and "walk_ok count tasks" and "walk_finds type x tasks" and "0 < x" and "0 \<le> pos f"
  shows "lists_ok type ns x (pidlists g)
    \<and> (case r of
         Inr (Some i) \<Rightarrow> \<exists>l. cgroup_pidlist_find type ns (pidlists g) = Some l \<and> i < length (pids l)
           \<and> pos g = pids l ! i \<and> (\<forall>k<length (pids l). pids l ! k < pos f \<longleftrightarrow> k < i)
       | Inr None \<Rightarrow> pos g = pos f \<and> x < pos f
       | Inl e \<Rightarrow> pos g = pos f)"
proof -
  let ?f = "f\<lparr>of_priv := of_priv f \<and> cgroup_pidlist_find type ns (pidlists f) \<noteq> None\<rparr>"
  let ?load = "pidlist_array_load alloc_array alloc type ns count tasks (pidlists f)"
  consider (error) e where "\<not> of_priv ?f" "?load = Inl e" "r = Inl e" "g = ?f"
    | (list) h l where "lists_ok type ns x (pidlists h)" "pos h = pos f" "cgroup_pidlist_find type ns (pidlists h) = Some l"
        "(if length (pids l) \<le> pid_index (pids l) (pos f) then (Inr None, h)
          else (Inr (Some (pid_index (pids l) (pos f))), h\<lparr>pos := pids l ! pid_index (pids l) (pos f)\<rparr>)) = (r, g)"
  proof (cases "of_priv ?f")
    case True
    then obtain l where "cgroup_pidlist_find type ns (pidlists f) = Some l" by auto
    then show ?thesis using list [of f l] assms(1,2) True unfolding cgroup_pidlist_start_def by (simp add: Let_def)
  next
    case False
    show ?thesis
    proof (cases ?load)
      case (Inl e)
      then show ?thesis using error [of e] assms(1) False unfolding cgroup_pidlist_start_def by (auto simp: Let_def)
    next
      case (Inr ls)
      obtain l where l: "cgroup_pidlist_find type ns ls = Some l" using array_load_ok(1) [OF Inr] by blast
      have "lists_ok type ns x ls" using lists_ok_load [OF Inr assms(2,3)] assms(4,5) by blast
      then show ?thesis using list [of "f\<lparr>pidlists := ls, of_priv := True\<rparr>" l] assms(1) False Inr l
        unfolding cgroup_pidlist_start_def by (auto simp: Let_def)
    qed
  qed
  then show ?thesis
  proof cases
    case error
    then show ?thesis using assms(2) by simp
  next
    case list
    let ?i = "pid_index (pids l) (pos f)"
    have l: "sorted_wrt (<) (pids l)" "\<forall>p\<in>set (pids l). 0 < p" "x \<in> set (pids l)"
      using list(1) find_Some [OF list(3)] unfolding lists_ok_def by blast+
    have split: "pids l ! k < pos f \<longleftrightarrow> k < ?i" if k: "k < length (pids l)" for k
    proof (cases "pos f = 0")
      case True
      have "0 < pids l ! k" using l(2) k by simp
      then show ?thesis using True by (simp add: pid_index_def)
    next
      case False
      then show ?thesis using pid_search_ok [OF l(1) _ order_refl _ _ k, of 0 "pos f"] by (simp add: pid_index_def)
    qed
    have "x < pos f" if "?i \<ge> length (pids l)"
      using l(3) split that by (metis in_set_conv_nth less_le_trans)
    moreover have "?i < length (pids l) \<Longrightarrow> r = Inr (Some ?i) \<and> g = h\<lparr>pos := pids l ! ?i\<rparr>"
      "\<not> ?i < length (pids l) \<Longrightarrow> r = Inr None \<and> g = h" using list(4) by auto
    ultimately show ?thesis using list(1-3) split by (cases "?i < length (pids l)") simp_all
  qed
qed

text \<open>An event shows, in order, pids from the old position up to the new one, and \<open>x\<close> if it is one of them.\<close>

definition shows_between :: "int \<Rightarrow> int \<Rightarrow> int \<Rightarrow> int list \<Rightarrow> bool" where
  "shows_between x p q out \<longleftrightarrow>
     p \<le> q \<and> sorted_wrt (<) out \<and> (\<forall>y\<in>set out. p \<le> y \<and> y < q) \<and> (p \<le> x \<and> x < q \<longrightarrow> x \<in> set out)"

lemma shows_nothing: "shows_between x p p []"
  unfolding shows_between_def by simp

lemma shows_append: "shows_between x p q out \<Longrightarrow> shows_between x q r out' \<Longrightarrow> shows_between x p r (out @ out')"
proof -
  assume a: "shows_between x p q out" and b: "shows_between x q r out'"
  have "u < v" if "u \<in> set out" "v \<in> set out'" for u v
  proof -
    have "u < q" "q \<le> v" using a b that unfolding shows_between_def by blast+
    then show ?thesis by simp
  qed
  then have "sorted_wrt (<) (out @ out')" using a b unfolding shows_between_def sorted_wrt_append by blast
  moreover have "p \<le> r" using a b unfolding shows_between_def by linarith
  moreover have "p \<le> y \<and> y < r" if "y \<in> set (out @ out')" for y
  proof (cases "y \<in> set out")
    case True
    then have "p \<le> y" "y < q" "q \<le> r" using a b unfolding shows_between_def by blast+
    then show ?thesis by simp
  next
    case False
    then have "q \<le> y" "y < r" "p \<le> q" using a b that unfolding shows_between_def by auto
    then show ?thesis by simp
  qed
  moreover have "x \<in> set (out @ out')" if "p \<le> x" "x < r"
    using a b that unfolding shows_between_def by (cases "x < q") simp_all
  ultimately show ?thesis unfolding shows_between_def by blast
qed

lemma pid_read_ok:
  assumes "pid_read alloc_array alloc type ns count tasks n f = (out, g)"
    and "lists_ok type ns x (pidlists f)" and "walk_ok count tasks" and "walk_finds type x tasks" and "0 < x" and "0 \<le> pos f"
  shows "lists_ok type ns x (pidlists g) \<and> shows_between x (pos f) (pos g) out"
proof -
  obtain r h where s: "cgroup_pidlist_start alloc_array alloc type ns count tasks f = (r, h)"
    by (rule prod.exhaust)
  note S = start_ok [OF s assms(2-6)]
  show ?thesis
  proof (cases "\<exists>i. r = Inr (Some i)")
    case False
    then have "out = []" "g = h" "pos h = pos f"
      using assms(1) s S unfolding pid_read_def by (auto split: sum.splits option.splits)
    then show ?thesis using S shows_nothing by simp
  next
    case True
    then obtain i where r: "r = Inr (Some i)" by blast
    then obtain l where l: "cgroup_pidlist_find type ns (pidlists h) = Some l" "i < length (pids l)"
        "pos h = pids l ! i" "\<And>k. k < length (pids l) \<Longrightarrow> pids l ! k < pos f \<longleftrightarrow> k < i"
      and ok: "lists_ok type ns x (pidlists h)" using S by auto
    obtain p where p: "seq_show (pids l) i n (pids l ! i) = (out, p)" "g = h\<lparr>pos := p\<rparr>"
      using assms(1) s r l(1,3) unfolding pid_read_def by (auto simp: Let_def split: prod.splits)
    have sorted: "sorted_wrt (<) (pids l)" and x: "x \<in> set (pids l)"
      using ok find_Some [OF l(1)] unfolding lists_ok_def by blast+
    note O = seq_show_ok [OF sorted l(2) p(1)]
    have "pos f \<le> pids l ! i" using l(4) [OF l(2)] by simp
    then have "pos f \<le> p" using O by linarith
    then have "shows_between x (pos f) p out"
      using sorted_takeWhile_drop [OF sorted l(4)] O x unfolding shows_between_def by auto
    then show ?thesis using ok p(2) by simp
  qed
qed

lemma pid_step_ok:
  assumes "pid_step type ns e f = (out, g)" and "lists_ok type ns x (pidlists f)" and "event_ok type ns x e"
    and "0 < x" and "0 \<le> pos f"
  shows "lists_ok type ns x (pidlists g) \<and> shows_between x (pos f) (pos g) out"
proof (cases e)
  case (Destroy t m)
  then show ?thesis using assms lists_ok_destroy shows_nothing by auto
next
  case (Load alloc_array alloc t m count tasks)
  show ?thesis
  proof (cases "pidlist_array_load alloc_array alloc t m count tasks (pidlists f)")
    case (Inl e)
    then show ?thesis using assms Load shows_nothing by auto
  next
    case (Inr ls)
    have "lists_ok type ns x ls" using lists_ok_load [OF Inr assms(2)] assms(3,4) Load by simp
    then show ?thesis using assms(1) Load Inr shows_nothing by auto
  qed
next
  case (Read alloc_array alloc count tasks n)
  then show ?thesis using pid_read_ok assms by simp
qed

lemma pid_events_ok:
  assumes "pid_events type ns es f = (out, g)" and "lists_ok type ns x (pidlists f)" and "\<forall>e\<in>set es. event_ok type ns x e"
    and "0 < x" and "0 \<le> pos f"
  shows "lists_ok type ns x (pidlists g) \<and> shows_between x (pos f) (pos g) out"
  using assms
proof (induction es arbitrary: f out)
  case Nil
  then show ?case using shows_nothing by auto
next
  case (Cons e es)
  obtain out1 h where h: "pid_step type ns e f = (out1, h)" by (rule prod.exhaust)
  obtain out2 where r: "pid_events type ns es h = (out2, g)" "out = out1 @ out2"
    using Cons.prems(1) h by (auto split: prod.splits)
  have step: "lists_ok type ns x (pidlists h) \<and> shows_between x (pos f) (pos h) out1"
    using pid_step_ok [OF h Cons.prems(2)] Cons.prems(3-5) by simp
  then have "0 \<le> pos h" using Cons.prems(5) unfolding shows_between_def by linarith
  then have "lists_ok type ns x (pidlists g) \<and> shows_between x (pos h) (pos g) out2"
    using Cons.IH [OF r(1)] step Cons.prems(3,4) by simp
  then show ?case using step shows_append r(2) by blast
qed

text \<open>Reading \<open>tasks\<close> or \<open>cgroup.procs\<close> in pieces of any size, while lists are destroyed and loaded anew
  between the reads and memory may be missing, gives the pids in strictly ascending order, so none twice, and a
  task that every walk finds is shown: it is not lost behind the position, and when a read finds
  nothing more to show it has been shown.\<close>

theorem reading_in_pieces:
  assumes "pid_events type ns es f = (out, g)" and "pos f = 0" and "lists_ok type ns x (pidlists f)"
    and "\<forall>e\<in>set es. event_ok type ns x e" and "0 < x"
  shows "sorted_wrt (<) out \<and> (x < pos g \<longrightarrow> x \<in> set out)
    \<and> (\<forall>alloc_array alloc count tasks h. walk_ok count tasks \<longrightarrow> walk_finds type x tasks \<longrightarrow>
         cgroup_pidlist_start alloc_array alloc type ns count tasks g = (Inr None, h) \<longrightarrow> x \<in> set out)"
proof -
  have "0 \<le> pos f" using assms(2) by simp
  note P = pid_events_ok [OF assms(1,3,4,5) this, unfolded assms(2) shows_between_def]
  have x: "0 \<le> x" using assms(5) by simp
  have out: "sorted_wrt (<) out" "x < pos g \<longrightarrow> x \<in> set out" "0 \<le> pos g" using P x by blast+
  have "x \<in> set out" if w: "walk_ok count tasks" "walk_finds type x tasks"
    and st: "cgroup_pidlist_start alloc_array alloc type ns count tasks g = (Inr None, h)" for alloc_array alloc count tasks h
  proof -
    have "x < pos g" using start_ok [OF st P [THEN conjunct1] w assms(5) out(3)] by (simp only: sum.case option.case)
    then show ?thesis using out(2) by blast
  qed
  then show ?thesis using out(1,2) by blast
qed

end
