(* ===== verification/Spec2Isabelle.thy ===== *)
theory Spec2Isabelle
  imports Client_Correct Dsm_Correct MoleculeOS Pids_Correct RdmaCg_Correct LegacyFreezer_Props Freezer_Props
    Rstat_Props ShmQueue_Props Fmeter Cpuset_Props Cpuset_Count Cpuset_Partitions CpusetMasks_Correct CgroupCore_Ops Pidlist_Correct
begin

text \<open>
  \<^bold>\<open>A verification of moleculeos\<close>

  moleculeos lets functions on the processing units (PUs) of one machine share processes and
  FIFOs.  A client program links the interfaces (\<open>global_syscall_interfaces.c\<close>) and the runtime
  (\<open>global_syscall_runtime.c\<close>); it prints every global syscall as a line of text, sends it over a
  socket to the global OS of its PU (\<open>global_syscall.c\<close>, started by \<open>moleculeos.c\<close>) and passes
  bulk data through a shared segment.  The global OS keeps the tables of global processes and
  global FIFOs, finds a FIFO by its uuid in a hash table (\<open>util/hashtable.c\<close>), works on local
  FIFOs through named pipes (\<open>ipc.c\<close>) and forwards operations on FIFOs of other PUs over the DSM
  layer (\<open>inter-device/\<close>).  The directory \<open>cgroup/\<close> holds the cgroup code of the kernel that the
  PUs run: the core and the controllers.

  \<^bold>\<open>Theories\<close>

  \<^item> \<open>Prelude\<close>: the outcomes of a run of C code (a value, \<open>exit\<close>, a failed \<open>assert\<close>, an access out
    of bounds), C's \<open>int\<close> with its wrap-around, arrays and strings of C, shared list lemmas, and the
    locale \<open>kept_invariant\<close> that carries an invariant of a step relation to all reachable states.
    \<open>CFormat\<close>: the part of \<open>sprintf\<close> and \<open>sscanf\<close> that the code uses, on the literal formats.
  \<^item> \<open>Protocol\<close> (\<open>include/global_syscall_protocol.h\<close>): the formats, with the round trips.
  \<^item> \<open>HashTable\<close> (\<open>util/hashtable.c\<close>, \<open>.h\<close>): every operation on the array of chains, with an
    allocator that may fail at any call.  \<open>HashTable_Correct\<close> proves the representation invariant
    and functional behaviour of each operation, \<open>HashTable_Contract\<close> the refinement of a finite map,
    the behaviour when memory runs out, and through the locale \<open>int_map\<close> that the table of uuids is a map.
  \<^item> \<open>FifoIPC\<close> (\<open>ipc.c\<close>): named pipes over a record \<open>posix\<close> of system calls.
  \<^item> \<open>GlobalOS\<close> (\<open>global_syscall.c\<close>): the static state as the record \<open>gos\<close>, one definition per
    handler, the dispatcher and the service loop over the sequence of ready descriptors.
    \<open>GlobalOS_Correct\<close> and \<open>GlobalOS_Props\<close> show that the loop keeps the tables consistent and what
    each handler does on every branch.
  \<^item> \<open>Client\<close>, \<open>Client_Correct\<close> (interfaces and runtime): the client, and client and global OS
    together: a call returns the result of its handler, a write arrives in the pipe, the vectors of
    a spawn survive the trip.
  \<^item> \<open>Dsm\<close>, \<open>Dsm_Correct\<close> (\<open>inter-device/uct_molecule_dsm.c\<close>, \<open>dsm_handlers.c\<close>): active messages with
    their callbacks as an explicit sequence of events, which message a remote write hands over and what
    the other PU makes of it, and what a call answers for every order of the events.
  \<^item> \<open>MoleculeOS\<close> (\<open>moleculeos.c\<close>): the command line and the start-up.
  \<^item> \<open>CgroupTree\<close>, \<open>CssWalk\<close> (\<open>cgroup/cgroup.c\<close>): the tree of cgroups, the child and descendant
    iterators and their equality with the recursive orders; the locales \<open>css_walk\<close> and \<open>own_step\<close>
    give the controllers a loop over a subtree as a fold.
  \<^item> \<open>Pids\<close>, \<open>RdmaCg\<close>, \<open>LegacyFreezer\<close> (\<open>cgroup/pids.c\<close>, \<open>rdma.c\<close>, \<open>legacy_freezer.c\<close>): every
    operation and file of the controllers; the theories \<open>_Correct\<close> and \<open>_Props\<close> beside them hold
    their invariants and properties.
  \<^item> \<open>Freezer\<close> (\<open>cgroup/freezer.c\<close> and the parts of \<open>cgroup/cgroup.c\<close> that keep its counters: mkdir,
    rmdir, migration, fork, exit, limits and files), with \<open>Freezer_Correct\<close> (counters under each
    operation), \<open>Freezer_Steps\<close> (the step relation and its invariant) and \<open>Freezer_Props\<close>.
  \<^item> \<open>Rstat\<close> (\<open>cgroup/rstat.c\<close>): per-CPU statistics and the tree of updated cgroups as pointers;
    \<open>Rstat_Correct\<close> shows what marking and unlinking make of the lists and that the traversal loops
    end, \<open>Rstat_Flush\<close> the balance of the statistics, \<open>Rstat_Props\<close> the state machine and the
    exactness of a flush.
  \<^item> The cpuset controller (\<open>cgroup/cpuset.c\<close>): \<open>Fmeter\<close> is the frequency meter of memory pressure.
    \<open>Cpuset\<close> has the data, the rules and the updates of tasks, \<open>SchedDomains\<close> the scheduling domains,
    \<open>CpusetMasks\<close> the writers of the masks and the CPUs of partitions, \<open>CpusetFiles\<close> flags, partition
    state and interface files, \<open>CpusetLife\<close> creation, removal, attaching, hotplug and the queries.
    Its state is the record \<open>cpuset_sys\<close>; the scheduler, the memory policies and the parsers of masks
    are the record \<open>kernel\<close>, and what the code asks of other subsystems is recorded in \<open>calls\<close>.
    \<open>SkipWalk\<close> has the walks that skip subtrees (\<open>css_rightmost_descendant\<close>), with their equality
    to a recursive walk.  \<open>SchedDomains_Correct\<close> and \<open>SchedDomains_Props\<close> show that the domains are
    the components of the overlapping cpusets; \<open>CpusetMasks_Correct\<close> that partitions keep their CPUs
    apart; \<open>Cpuset_Legacy\<close>, \<open>Cpuset_Steps\<close>, \<open>Cpuset_Hotplug\<close> and \<open>Cpuset_Props\<close> the invariant of the
    legacy hierarchy; \<open>Cpuset_Shape\<close> and \<open>Cpuset_Count\<close>, for both hierarchies, that only creation and
    removal change the tree and the count of the cpusets; \<open>Cpuset_Partitions\<close> the online masks and a
    partition that goes wrong.
    \<open>Cpuset_Demo\<close> holds the example systems.
  \<^item> The core of the cgroups (\<open>cgroup/cgroup.c\<close>), on the record \<open>cgsys\<close> with the cgroups of all
    hierarchies, csses, css_sets and tasks.  \<open>CssSet\<close> has the control masks, the effective csses, the
    look-up, creation and release of css_sets and the counters of populated cgroups; \<open>Migrate\<close> the
    migration of tasks in all its phases, \<open>cgroup.procs\<close> and \<open>cgroup.threads\<close>, fork and exit;
    \<open>Control\<close> the masks of subtrees, the life of a css, \<open>cgroup.subtree_control\<close>, \<open>cgroup.type\<close>, and
    creation and removal of a cgroup.  \<open>CssSet_Correct\<close> shows the counters of populated cgroups up
    the tree, \<open>CssSet_Refs\<close> the references to css_sets, \<open>CssSet_Find\<close> what is found or created and
    \<open>CssSet_Held\<close> that what is in the table is referred to.  \<open>Migrate_Correct\<close>, \<open>Migrate_Attach\<close>,
    \<open>Migrate_Whole\<close> and \<open>Migrate_Prepare\<close> follow a migration through its phases, with the pins of the
    css_sets it holds, and \<open>Attach_Correct\<close> puts them together; \<open>TaskLife\<close> is fork and exit.
    \<open>Control_Rest\<close> to \<open>Control_Write\<close> show that a change of controllers moves no task and that
    the masks end as asked or as before.  \<open>CgroupCore\<close> and \<open>CgroupCore_Steps\<close> are the invariant and
    the state machine of these operations; \<open>CgroupCore_Props\<close> and \<open>CgroupCore_Ops\<close> what follows.
  \<^item> \<open>Pidlist\<close> (\<open>cgroup/cgroup-v1.c\<close>): the files \<open>tasks\<close> and \<open>cgroup.procs\<close> of the legacy hierarchies, from
    arrays of sorted pids that come and go; \<open>Pidlist_Correct\<close> shows that a file read in pieces is
    sorted, shows no pid twice and every task that stays.
  \<^item> \<open>ShmQueue\<close> (\<open>include/shm_mpsc_queue.h\<close> with the client and server of \<open>shm-gsyscall-channel/\<close>): a
    queue with many producers in shared memory as a machine of threads, one access per step;
    \<open>ShmQueue_Correct\<close> holds the invariant of all interleavings, \<open>ShmQueue_Props\<close> what follows.

  \<^bold>\<open>What is shown\<close>

  Invariants of every reachable state (tables of the global OS; counters of pids, freezer and legacy
  freezer; the rules of cpusets; reference counts, counters and controllers of the cgroup core),
  all-or-nothing migrations and changes of controllers, the rule that a cgroup of the default
  hierarchy has tasks or gives controllers to its children, equivalence of the merging loops of the scheduling domains with the
  components of a graph, refinement (hash table to finite map), round trips (requests, spawn vectors, limits,
  charge and release), functional behaviour on every branch of the handlers, error and out-of-memory
  paths, bounds of buffers and counters, termination of the tree walks and of the flush, safety of
  every interleaving of the shared-memory channel, and when a DSM call returns or waits for ever.  Where the code does not do what it means to, the theorem states exactly when:
  ids of FIFOs that leave the partition of the PU, lengths that write outside a segment, a response
  that comes too early, a CPU that belongs to two partitions.

  \<^bold>\<open>Bounds, fuel and parameters\<close>

  Loops are structural recursions or folds; the loop of \<open>css_for_each_descendant_pre\<close> and \<open>_post\<close>
  has fuel, the number of csses plus one, and \<open>css_walks_visit_subtree\<close> shows that it visits the
  subtree completely within it.  The walks of cpusets have the same fuel, and \<open>walk_dfs\<close> shows that
  they do not run out of it; the \<open>restart\<close> loop of the scheduling domains ends because every turn
  takes a partition number away.  The loop of \<open>cgroup_calc_subtree_ss_mask\<close> ends because its 16-bit
  mask only grows; \<open>put_css_set\<close> and \<open>find_css_set\<close> call themselves for the css_set of the domain, which is on a cgroup
  with a smaller number, as the loops to the root are for the parent.  The answers of allocators and
  callbacks are a sequence that the state of the core consumes, 0 for success.  A \<open>BUG_ON\<close> or a null access of the cpuset code sets \<open>crashed\<close>.
  The service loop and the loops that wait for a message run over
  an explicit sequence of events.  The loops of \<open>rstat.c\<close> follow pointers and might not end; they are
  \<open>partial_function (option)\<close>, and \<open>rstat_flush_exact\<close> shows that they return.  The shared-memory
  channel runs over any schedule of its threads with sequentially consistent memory.  A wait that no event ends has the outcome \<open>waiting\<close>.  Parameters are
  the system calls (\<open>posix\<close>), the transport UCT, the allocator, the kernel's task freezer and its
  number parser, each with the documented behaviour as a hypothesis where a theorem needs it.

  An operation of the kernel code is one step.  Its locks make it one against the operations that take
  the same locks; these interleavings are left out: \<open>pids.c\<close> has no lock, so the walks of two charges
  up the tree may mix; \<open>cgroup_attach_task\<close> drops \<open>css_set_lock\<close> between preparing and executing a
  migration, where a task may exit or be freed; \<open>cpuset_hotplug_workfn\<close> drops \<open>cpuset_mutex\<close> between the
  top cpuset and each descendant, where a file may be written.

  \<^bold>\<open>Not modelled\<close>

  \<open>rdma-lib/\<close> and \<open>molecule-rdma.c\<close> (the perftest sources, calls of libibverbs), the UCP test program
  \<open>inter-device/molecule_dsm.c\<close>, set-up of sockets and threads, the device look-up of UCT, the user
  library (copies of the interfaces), and of \<open>cgroup/\<close>: mounting, remounting and the work that frees
  a css of \<open>cgroup.c\<close>, \<open>cgroup-v1.c\<close> without \<open>cgroup_transfer_tasks\<close> and the files of tasks, \<open>namespace.c\<close> and \<open>debug.c\<close>;
  of \<open>cpuset.c\<close> the node rotors, the \<open>/proc\<close> files and the printing.  The rules
  of cpusets and the coverage by scheduling domains are proved for the legacy hierarchy; on the default
  hierarchy the moves between a partition root and its parent and the count of the cpusets are.  Not modelled either is the second hash map (\<open>util/hashmap.c\<close>).
\<close>

end
